(* ===== verification/Prelude.thy ===== *)
theory Prelude
  imports Main "HOL-Library.Word" "HOL-Library.Signed_Division"
begin

text \<open>
  Shared vocabulary of the development: the result type of kernel code (a value, a
  \<^verbatim>\<open>panic\<close> or a memory fault), sequencing of such code, C integer division, bounds-checked
  arrays, and generic facts on lists and intervals that the component theories rely on.
\<close>

section \<open>Kernel results\<close>

text \<open>
  \<^verbatim>\<open>panic(msg)\<close> never returns, so it is a value of its own. \<open>Fault\<close> is what the source leaves
  undefined: a store or load outside the object it names. The theorems
  show that it does not happen, or, for \<open>m_pullup\<close>, exactly when it does.
\<close>

datatype kerror = Panic string | Fault string

type_synonym 'a kern = "kerror + 'a"

text \<open>Sequencing: the second statement runs only when the first one came back.\<close>

definition kbind :: "'a kern \<Rightarrow> ('a \<Rightarrow> 'b kern) \<Rightarrow> 'b kern" where
  "kbind m f = (case m of Inl e \<Rightarrow> Inl e | Inr x \<Rightarrow> f x)"

definition kassert :: "bool \<Rightarrow> kerror \<Rightarrow> unit kern" where
  "kassert b e = (if b then Inr () else Inl e)"

named_theorems kern_simps \<open>equations that run kernel code symbolically\<close>

lemma kbind_simps [simp, kern_simps]:
  "kbind (Inl e) f = Inl e" "kbind (Inr x) f = f x"
  by (simp_all add: kbind_def)

lemma kassert_simps [simp, kern_simps]:
  "kassert True e = Inr ()" "kassert False e = Inl e"
  by (simp_all add: kassert_def)

lemma kbind_cong [fundef_cong]:
  "m = m' \<Longrightarrow> (\<And>x. m' = Inr x \<Longrightarrow> f x = f' x) \<Longrightarrow> kbind m f = kbind m' f'"
  by (auto simp: kbind_def split: sum.splits)

lemma kbind_Inr_iff: "kbind m f = Inr y \<longleftrightarrow> (\<exists>x. m = Inr x \<and> f x = Inr y)"
  by (auto simp: kbind_def split: sum.splits)

lemma kbind_InrE [elim]:
  assumes "kbind m f = Inr y"
  obtains x where "m = Inr x" "f x = Inr y"
  using assms by (auto simp: kbind_Inr_iff)

lemma kbind_assoc: "kbind (kbind m f) g = kbind m (\<lambda>x. kbind (f x) g)"
  by (simp add: kbind_def split: sum.splits)

lemma kassert_Inr_iff [simp]: "kassert b e = Inr u \<longleftrightarrow> b"
  by (simp add: kassert_def)

section \<open>Bounds-checked arrays\<close>

definition aget :: "'a list \<Rightarrow> nat \<Rightarrow> 'a kern" where
  "aget xs i = (if i < length xs then Inr (xs ! i) else Inl (Fault ''read''))"

definition aset :: "'a list \<Rightarrow> nat \<Rightarrow> 'a \<Rightarrow> 'a list kern" where
  "aset xs i v = (if i < length xs then Inr (xs[i := v]) else Inl (Fault ''write''))"

lemma aget_in [simp, kern_simps]: "i < length xs \<Longrightarrow> aget xs i = Inr (xs ! i)"
  by (simp add: aget_def)

lemma aset_in [simp, kern_simps]: "i < length xs \<Longrightarrow> aset xs i v = Inr (xs[i := v])"
  by (simp add: aset_def)

lemma aget_Inr_iff: "aget xs i = Inr x \<longleftrightarrow> i < length xs \<and> x = xs ! i"
  by (auto simp: aget_def)

lemma aset_Inr_iff: "aset xs i v = Inr ys \<longleftrightarrow> i < length xs \<and> ys = xs[i := v]"
  by (auto simp: aset_def)

section \<open>C integer division\<close>

text \<open>
  C on the VAX truncates towards zero: \<open>sdiv\<close> and \<open>smod\<close> of \<^verbatim>\<open>HOL-Library.Signed_Division\<close>.
  On the operands the kernel uses it for most often they are \<open>div\<close> and \<open>mod\<close>.
\<close>

lemma sdiv_nonneg: "0 \<le> a \<Longrightarrow> 0 < b \<Longrightarrow> a sdiv b = a div (b :: int)"
  by (simp add: signed_divide_int_def sgn_if)

lemma smod_nonneg: "0 \<le> a \<Longrightarrow> 0 < b \<Longrightarrow> a smod b = a mod (b :: int)"
  by (cases "a = 0") (simp_all add: signed_modulo_int_def sgn_if)

text \<open>The value a 32 bit signed integer takes when \<open>x\<close> is stored into it.\<close>

definition wrap32 :: "int \<Rightarrow> int" where
  "wrap32 x = (x + 2147483648) mod 4294967296 - 2147483648"

lemma wrap32_id [simp]: "-2147483648 \<le> x \<Longrightarrow> x < 2147483648 \<Longrightarrow> wrap32 x = x"
  by (simp add: wrap32_def)

lemma wrap32_bounds: "-2147483648 \<le> wrap32 x" "wrap32 x < 2147483648"
  by (simp_all add: wrap32_def)

text \<open>Truncating division loses less than one divisor, towards zero.\<close>

lemma sdiv_bounds:
  assumes "0 < (b :: int)"
  shows "a - b < b * (a sdiv b)" "b * (a sdiv b) < a + b" "0 \<le> a \<Longrightarrow> b * (a sdiv b) \<le> a" "a \<le> 0 \<Longrightarrow> a \<le> b * (a sdiv b)"
proof -
  have nn: "x - b < b * (x div b) \<and> b * (x div b) \<le> x" for x
    using assms mult_div_mod_eq [of b x] pos_mod_sign [of b x] pos_mod_bound [of b x] by linarith
  have "a sdiv b = (if 0 \<le> a then a div b else - ((-a) div b))"
    using assms by (auto simp: signed_divide_int_def sgn_if)
  then show "a - b < b * (a sdiv b)" "b * (a sdiv b) < a + b" "0 \<le> a \<Longrightarrow> b * (a sdiv b) \<le> a" "a \<le> 0 \<Longrightarrow> a \<le> b * (a sdiv b)"
    using nn [of a] nn [of "-a"] assms by (auto split: if_splits)
qed

section \<open>Lists\<close>

lemma nth_append_middle [simp]: "(xs @ x # ys) ! length xs = x"
  by (rule nth_append_length)

lemma list_update_append_middle [simp]: "(xs @ x # ys)[length xs := v] = xs @ v # ys"
  by (rule list_update_length)

lemma nth_append_Suc_middle [simp]: "(xs @ x # y # ys) ! Suc (length xs) = y"
  by (simp add: nth_append)

lemma list_update_append_Suc_middle [simp]:
  "(xs @ x # y # ys)[Suc (length xs) := v] = xs @ x # v # ys"
  by (simp add: list_update_append)

lemma split_at_index:
  assumes "i < length xs"
  obtains as a bs where "xs = as @ a # bs" "length as = i" "a = xs ! i"
  by (metis assms id_take_nth_drop length_take less_or_eq_imp_le min_absorb2)

lemma length_ge_2_snocE:
  assumes "2 \<le> length xs"
  obtains ys y z where "xs = ys @ [y, z]"
proof (cases xs rule: rev_cases)
  case (snoc ys z)
  with assms that show thesis by (cases ys rule: rev_cases) auto
qed (use assms in simp)

lemma sorted_wrt_remove1: "sorted_wrt P xs \<Longrightarrow> sorted_wrt P (remove1 x xs)"
  by (induction xs) (auto dest: notin_set_remove1 [THEN contrapos_nn] intro: set_remove1_subset [THEN subsetD])

lemma replicate_Suc_snoc: "replicate (Suc n) x = replicate n x @ [x]"
  by (simp add: replicate_append_same)

section \<open>Half-open integer intervals\<close>

definition span :: "int \<Rightarrow> int \<Rightarrow> int set" where
  "span a n = {a ..< a + n}"

lemma in_span [simp]: "x \<in> span a n \<longleftrightarrow> a \<le> x \<and> x < a + n"
  by (simp add: span_def)

lemma span_empty [simp]: "n \<le> 0 \<Longrightarrow> span a n = {}"
  by (auto simp: span_def)

lemma span_split: "0 \<le> m \<Longrightarrow> 0 \<le> n \<Longrightarrow> span a (m + n) = span a m \<union> span (a + m) n"
  by auto

lemma span_disjoint_iff:
  "0 < m \<Longrightarrow> 0 < n \<Longrightarrow> span a m \<inter> span b n = {} \<longleftrightarrow> a + m \<le> b \<or> b + n \<le> a"
proof
  assume "0 < m" "0 < n" and dis: "span a m \<inter> span b n = {}"
  then have "max a b \<notin> span a m \<inter> span b n" by simp
  with \<open>0 < m\<close> \<open>0 < n\<close> show "a + m \<le> b \<or> b + n \<le> a" by auto
qed auto

lemma finite_span [simp, intro]: "finite (span a n)"
  by (simp add: span_def)

lemma card_span [simp]: "card (span a n) = nat n"
  by (simp add: span_def)

end
