(* ===== verification/Rmap.thy ===== *)
theory Rmap
  imports Prelude
begin

text \<open>
  Resource maps, \<^verbatim>\<open>sys/sys/subr_rmap.c\<close>: the first-fit allocator behind the swap area, the
  kernel page map and the mbuf page map. The map is the dense array of the source, a
  segment per entry, ended by an entry of size zero; the loops of the source are recursive
  functions on array indices. The lemmas relate each of them to the list of free segments,
  and the results to the set of free addresses.
\<close>

section \<open>State\<close>

record mapent =
  m_size :: int
  m_addr :: int

text \<open>
  \<open>rm_ents\<close> is the array behind the header, from \<^verbatim>\<open>(struct mapent *)(mp+1)\<close> on, and \<open>m_limit\<close>
  an index into it. The globals the routines touch follow: the waiting flag of the kernel
  map, the number of wakeups given, and the overflow messages printed (newest first).
\<close>

record rmap =
  m_limit :: nat
  m_name :: string
  rm_ents :: "mapent list"
  kmapwnt :: bool
  rm_wakeups :: nat
  rm_lost :: "(string \<times> int \<times> int) list"

text \<open>Which map is meant (\<^verbatim>\<open>mp == swapmap\<close>, \<^verbatim>\<open>mp == kernelmap\<close>) and the swap configuration.\<close>

record rmconf =
  is_swapmap :: bool
  is_kernelmap :: bool
  dmmax :: int
  nswdev :: int

definition CLSIZE :: int where
  "CLSIZE = 2"

abbreviation delim :: mapent where
  "delim \<equiv> \<lparr>m_size = 0, m_addr = 0\<rparr>"

section \<open>Operations\<close>

text \<open>
  Sizes and addresses are 32 bit integers: every sum that need not fit is wrapped, as the
  machine does. \<open>maxint\<close> is the largest of them.
\<close>

abbreviation maxint :: int where "maxint \<equiv> 2147483647"

definition rminit :: "rmap \<Rightarrow> int \<Rightarrow> int \<Rightarrow> string \<Rightarrow> nat \<Rightarrow> rmap kern" where
  "rminit mp sz addr name mapsize =
     kbind (aset (rm_ents mp) 0 \<lparr>m_size = sz, m_addr = addr\<rparr>) (\<lambda>ents.
     Inr (mp\<lparr>m_name := name, m_limit := mapsize - 1, rm_ents := ents\<rparr>))"

text \<open>\<^verbatim>\<open>do { bp++; (bp-1)->m_addr = bp->m_addr; } while ((bp-1)->m_size = bp->m_size);\<close>\<close>

function rm_shift :: "mapent list \<Rightarrow> nat \<Rightarrow> mapent list kern" where
  "rm_shift ents bp =
     kbind (aget ents (Suc bp)) (\<lambda>e.
     kbind (aset ents bp e) (\<lambda>ents'.
     if m_size e \<noteq> 0 then rm_shift ents' (Suc bp) else Inr ents'))"
  by pat_completeness auto
termination
  by (relation "measure (\<lambda>(ents, bp). length ents - bp)") (auto simp: aget_Inr_iff aset_Inr_iff)

text \<open>\<^verbatim>\<open>while (bp->m_size) { bp++; (bp-1)->m_addr = bp->m_addr; (bp-1)->m_size = bp->m_size; }\<close>\<close>

function rm_compress :: "mapent list \<Rightarrow> nat \<Rightarrow> mapent list kern" where
  "rm_compress ents bp =
     kbind (aget ents bp) (\<lambda>e.
     if m_size e \<noteq> 0 then
       kbind (aget ents (Suc bp)) (\<lambda>e'.
       kbind (aset ents bp e') (\<lambda>ents'.
       rm_compress ents' (Suc bp)))
     else Inr ents)"
  by pat_completeness auto
termination
  by (relation "measure (\<lambda>(ents, bp). length ents - bp)") (auto simp: aget_Inr_iff aset_Inr_iff)

text \<open>\<^verbatim>\<open>for (; bp->m_addr <= addr && bp->m_size != 0; bp++)\<close>\<close>

function rm_locate :: "mapent list \<Rightarrow> int \<Rightarrow> nat \<Rightarrow> nat kern" where
  "rm_locate ents addr bp =
     kbind (aget ents bp) (\<lambda>e.
     if m_addr e \<le> addr \<and> m_size e \<noteq> 0 then rm_locate ents addr (Suc bp) else Inr bp)"
  by pat_completeness auto
termination
  by (relation "measure (\<lambda>(ents, addr, bp). length ents - bp)") (auto simp: aget_Inr_iff)

text \<open>The loop that makes a new entry by pushing every later one to the right.\<close>

function rm_push :: "mapent list \<Rightarrow> nat \<Rightarrow> int \<Rightarrow> int \<Rightarrow> (nat \<times> mapent list) kern" where
  "rm_push ents bp sz addr =
     kbind (aget ents bp) (\<lambda>e.
     kbind (aset ents bp \<lparr>m_size = sz, m_addr = addr\<rparr>) (\<lambda>ents'.
     if m_size e \<noteq> 0 then rm_push ents' (Suc bp) (m_size e) (m_addr e)
     else Inr (Suc bp, ents')))"
  by pat_completeness auto
termination
  by (relation "measure (\<lambda>(ents, bp, sz, addr). length ents - bp)")
     (auto simp: aget_Inr_iff aset_Inr_iff)

text \<open>\<^verbatim>\<open>done:\<close> of \<open>rmfree\<close>: waiters on the kernel map are woken.\<close>

definition rmfree_done :: "rmconf \<Rightarrow> rmap \<Rightarrow> mapent list \<Rightarrow> rmap" where
  "rmfree_done cf mp ents =
     (let mp' = mp\<lparr>rm_ents := ents\<rparr>
      in if is_kernelmap cf \<and> kmapwnt mp'
         then mp'\<lparr>kmapwnt := False, rm_wakeups := Suc (rm_wakeups mp')\<rparr> else mp')"

text \<open>
  The overflow branch: entry \<open>bp\<close> would have to be the delimiter but lies behind the array,
  so the second to last segment is discarded and the last one moved over it.
\<close>

definition rmfree_ovflo :: "rmap \<Rightarrow> nat \<Rightarrow> mapent list \<Rightarrow> (rmap \<times> mapent list) kern" where
  "rmfree_ovflo mp bp ents =
     (if Suc bp > m_limit mp then
        (let b = bp - 1 in
         if b = 0 then Inl (Fault ''rmfree: map without a slot'') else
         kbind (aget ents (b - 1)) (\<lambda>e.
         kbind (aget ents b) (\<lambda>l.
         kbind (aset ents (b - 1) l) (\<lambda>ents1.
         kbind (aset ents1 b delim) (\<lambda>ents2.
         Inr (mp\<lparr>rm_lost := (m_name mp, m_addr e, wrap32 (m_addr e + m_size e)) # rm_lost mp\<rparr>, ents2))))))
      else Inr (mp, ents))"

definition rmfree :: "rmconf \<Rightarrow> rmap \<Rightarrow> int \<Rightarrow> int \<Rightarrow> rmap kern" where
  "rmfree cf mp sz addr =
     (let ents = rm_ents mp; bad = Inl (Panic ''bad rmfree'') in
      if addr \<le> 0 \<or> sz \<le> 0 then bad else
      kbind (rm_locate ents addr 0) (\<lambda>bp.
      kbind (aget ents bp) (\<lambda>e.
      let l = ents ! (bp - 1) in
      if bp > 0 \<and> wrap32 (m_addr l + m_size l) \<ge> addr then
        (if wrap32 (m_addr l + m_size l) > addr then bad else
         let l' = l\<lparr>m_size := wrap32 (m_size l + sz)\<rparr> in
         if m_addr e \<noteq> 0 \<and> wrap32 (addr + sz) \<ge> m_addr e then
           (if wrap32 (addr + sz) > m_addr e then bad else
            kbind (rm_compress (ents[bp - 1 := l'\<lparr>m_size := wrap32 (m_size l' + m_size e)\<rparr>]) bp)
              (\<lambda>ents'. Inr (rmfree_done cf mp ents')))
         else Inr (rmfree_done cf mp (ents[bp - 1 := l'])))
      else if wrap32 (addr + sz) \<ge> m_addr e \<and> m_size e \<noteq> 0 then
        (if wrap32 (addr + sz) > m_addr e then bad else
         Inr (rmfree_done cf mp
           (ents[bp := \<lparr>m_size = wrap32 (m_size e + sz), m_addr = wrap32 (m_addr e - sz)\<rparr>])))
      else
        kbind (rm_push ents bp sz addr) (\<lambda>(bp', ents').
        kbind (rmfree_ovflo mp bp' ents') (\<lambda>(mp', ents'').
        Inr (rmfree_done cf mp' ents''))))))"

function rmalloc_from :: "rmconf \<Rightarrow> rmap \<Rightarrow> int \<Rightarrow> nat \<Rightarrow> (int \<times> rmap) kern" where
  "rmalloc_from cf mp sz bp =
     kbind (aget (rm_ents mp) bp) (\<lambda>e.
     let first = dmmax cf - m_addr e smod dmmax cf in
     if m_size e = 0 then Inr (0, mp)
     else if m_size e \<ge> sz then
       (if is_swapmap cf \<and> nswdev cf > 1 \<and> first < m_size e then
          (if m_size e - first < sz then rmalloc_from cf mp sz (Suc bp)
           else
             let addr = wrap32 (m_addr e + first); rest = m_size e - first - sz;
                 mp' = mp\<lparr>rm_ents := (rm_ents mp)[bp := e\<lparr>m_size := first\<rparr>]\<rparr>
             in if rest \<noteq> 0
                then kbind (rmfree cf mp' rest (wrap32 (addr + sz))) (\<lambda>mp''. Inr (addr, mp''))
                else Inr (addr, mp'))
        else
          let addr = m_addr e;
              ents = (rm_ents mp)[bp := \<lparr>m_size = m_size e - sz, m_addr = wrap32 (addr + sz)\<rparr>]
          in kbind (if m_size e - sz = 0 then rm_shift ents bp else Inr ents) (\<lambda>ents'.
             if is_swapmap cf \<and> addr smod CLSIZE \<noteq> 0 then Inl (Panic ''rmalloc swapmap'')
             else Inr (addr, mp\<lparr>rm_ents := ents'\<rparr>)))
     else rmalloc_from cf mp sz (Suc bp))"
  by pat_completeness auto
termination
  by (relation "measure (\<lambda>(cf, mp, sz, bp). length (rm_ents mp) - bp)")
     (auto simp: aget_Inr_iff)

definition rmalloc :: "rmconf \<Rightarrow> rmap \<Rightarrow> int \<Rightarrow> (int \<times> rmap) kern" where
  "rmalloc cf mp sz =
     (if sz \<le> 0 \<or> is_swapmap cf \<and> sz > dmmax cf then Inl (Panic ''rmalloc'')
      else rmalloc_from cf mp sz 0)"

text \<open>\<^verbatim>\<open>for (bp = ep; bp->m_size; bp++) if (bp->m_addr <= addr && ...) break;\<close>\<close>

function rm_contains :: "mapent list \<Rightarrow> int \<Rightarrow> nat \<Rightarrow> nat kern" where
  "rm_contains ents addr bp =
     kbind (aget ents bp) (\<lambda>e.
     if m_size e \<noteq> 0 \<and> \<not> (m_addr e \<le> addr \<and> wrap32 (m_addr e + m_size e) > addr)
     then rm_contains ents addr (Suc bp) else Inr bp)"
  by pat_completeness auto
termination
  by (relation "measure (\<lambda>(ents, addr, bp). length ents - bp)") (auto simp: aget_Inr_iff)

text \<open>\<^verbatim>\<open>for (bp2=bp; bp2->m_size; bp2++) ;\<close>\<close>

function rm_end :: "mapent list \<Rightarrow> nat \<Rightarrow> nat kern" where
  "rm_end ents bp =
     kbind (aget ents bp) (\<lambda>e. if m_size e \<noteq> 0 then rm_end ents (Suc bp) else Inr bp)"
  by pat_completeness auto
termination
  by (relation "measure (\<lambda>(ents, bp). length ents - bp)") (auto simp: aget_Inr_iff)

text \<open>\<^verbatim>\<open>while (bp2 > bp) { (bp2+1)->m_addr = bp2->m_addr; ...; bp2--; }\<close>\<close>

fun rm_open :: "mapent list \<Rightarrow> nat \<Rightarrow> nat \<Rightarrow> mapent list kern" where
  "rm_open ents bp 0 = Inr ents"
| "rm_open ents bp (Suc b) =
     (if Suc b > bp then
        kbind (aget ents (Suc b)) (\<lambda>e.
        kbind (aset ents (Suc (Suc b)) e) (\<lambda>ents'. rm_open ents' bp b))
      else Inr ents)"

definition rmget :: "rmconf \<Rightarrow> rmap \<Rightarrow> int \<Rightarrow> int \<Rightarrow> (int \<times> rmap) kern" where
  "rmget cf mp sz addr =
     (let ents = rm_ents mp in
      if sz \<le> 0 then Inl (Panic ''rmget'')
      else if is_swapmap cf then Inr (0, mp)
      else
        kbind (rm_contains ents addr 0) (\<lambda>bp.
        kbind (aget ents bp) (\<lambda>e.
        if m_size e = 0 then Inr (0, mp)
        else if wrap32 (m_addr e + m_size e) < wrap32 (addr + sz) then Inr (0, mp)
        else if m_addr e = addr then
          (if wrap32 (m_addr e + m_size e) = wrap32 (addr + sz) then
             kbind (rm_compress ents bp) (\<lambda>ents'. Inr (addr, mp\<lparr>rm_ents := ents'\<rparr>))
           else Inr (addr, mp\<lparr>rm_ents :=
             ents[bp := \<lparr>m_size = wrap32 (m_size e - sz), m_addr = wrap32 (m_addr e + sz)\<rparr>]\<rparr>))
        else if wrap32 (m_addr e + m_size e) = wrap32 (addr + sz) then
          Inr (addr, mp\<lparr>rm_ents := ents[bp := e\<lparr>m_size := wrap32 (m_size e - sz)\<rparr>]\<rparr>)
        else
          kbind (rm_end ents bp) (\<lambda>bp2.
          if Suc bp2 \<ge> m_limit mp then Inr (0, mp) else
          kbind (rm_open ents bp bp2) (\<lambda>ents1.
          kbind (aset ents1 (Suc bp)
             \<lparr>m_size = wrap32 (m_addr e + m_size e - (addr + sz)), m_addr = wrap32 (addr + sz)\<rparr>) (\<lambda>ents2.
          kbind (aset ents2 bp (e\<lparr>m_size := wrap32 (addr - m_addr e)\<rparr>)) (\<lambda>ents3.
          Inr (addr, mp\<lparr>rm_ents := ents3\<rparr>))))))))"


declare rm_shift.simps [simp del] rm_compress.simps [simp del] rm_locate.simps [simp del]
  rm_push.simps [simp del] rmalloc_from.simps [simp del] rm_contains.simps [simp del]
  rm_end.simps [simp del] rm_open.simps [simp del]

section \<open>The array loops on lists\<close>

text \<open>Each loop, started at the index where \<open>ps\<close> ends, in terms of the rest of the array.\<close>

lemma rm_shift_run:
  assumes "\<forall>e\<in>set xs. m_size e \<noteq> 0"
  shows "rm_shift (ps @ x # xs @ delim # zs) (length ps) = Inr (ps @ xs @ delim # delim # zs)"
  using assms
proof (induction xs arbitrary: ps x)
  case Nil
  show ?case by (subst rm_shift.simps) simp
next
  case (Cons y ys)
  have "rm_shift ((ps @ [y]) @ y # ys @ delim # zs) (length (ps @ [y]))
      = Inr ((ps @ [y]) @ ys @ delim # delim # zs)"
    using Cons.prems by (intro Cons.IH) simp
  then show ?case using Cons.prems by (subst rm_shift.simps) simp
qed

lemma rm_compress_run:
  assumes "m_size x \<noteq> 0" "\<forall>e\<in>set xs. m_size e \<noteq> 0"
  shows "rm_compress (ps @ x # xs @ delim # zs) (length ps) = Inr (ps @ xs @ delim # delim # zs)"
  using assms
proof (induction xs arbitrary: ps x)
  case Nil
  have "rm_compress (ps @ delim # delim # zs) (Suc (length ps)) = Inr (ps @ delim # delim # zs)"
    by (subst rm_compress.simps) simp
  with Nil show ?case by (subst rm_compress.simps) simp
next
  case (Cons y ys)
  have "rm_compress ((ps @ [y]) @ y # ys @ delim # zs) (length (ps @ [y]))
      = Inr ((ps @ [y]) @ ys @ delim # delim # zs)"
    using Cons.prems by (intro Cons.IH) simp_all
  then show ?case using Cons.prems by (subst rm_compress.simps) simp
qed

lemma rm_locate_run:
  assumes "\<forall>e\<in>set xs. m_addr e \<le> a \<and> m_size e \<noteq> 0" "\<not> (m_addr y \<le> a \<and> m_size y \<noteq> 0)"
  shows "rm_locate (ps @ xs @ y # zs) a (length ps) = Inr (length ps + length xs)"
  using assms
proof (induction xs arbitrary: ps)
  case Nil
  then show ?case by (subst rm_locate.simps) auto
next
  case (Cons x xs)
  have "rm_locate ((ps @ [x]) @ xs @ y # zs) a (length (ps @ [x]))
      = Inr (length (ps @ [x]) + length xs)"
    using Cons.prems by (intro Cons.IH) simp_all
  then show ?case using Cons.prems by (subst rm_locate.simps) simp
qed

lemma rm_push_run:
  assumes "\<forall>e\<in>set xs. m_size e \<noteq> 0"
  shows "rm_push (ps @ xs @ delim # zs) (length ps) s a
       = Inr (Suc (length ps + length xs), ps @ \<lparr>m_size = s, m_addr = a\<rparr> # xs @ zs)"
  using assms
proof (induction xs arbitrary: ps s a)
  case Nil
  then show ?case by (subst rm_push.simps) simp
next
  case (Cons x xs)
  let ?n = "\<lparr>m_size = s, m_addr = a\<rparr>"
  have "rm_push ((ps @ [?n]) @ xs @ delim # zs) (length (ps @ [?n])) (m_size x) (m_addr x)
      = Inr (Suc (length (ps @ [?n]) + length xs), (ps @ [?n]) @ x # xs @ zs)"
    using Cons.prems Cons.IH [of "ps @ [?n]" "m_size x" "m_addr x"] by simp
  then show ?case using Cons.prems by (subst rm_push.simps) simp
qed

lemma rm_contains_run:
  assumes "\<forall>e\<in>set xs. m_size e \<noteq> 0 \<and> \<not> (m_addr e \<le> a \<and> wrap32 (m_addr e + m_size e) > a)"
    and "m_size y = 0 \<or> m_addr y \<le> a \<and> wrap32 (m_addr y + m_size y) > a"
  shows "rm_contains (ps @ xs @ y # zs) a (length ps) = Inr (length ps + length xs)"
  using assms
proof (induction xs arbitrary: ps)
  case Nil
  then show ?case by (subst rm_contains.simps) auto
next
  case (Cons x xs)
  have "rm_contains ((ps @ [x]) @ xs @ y # zs) a (length (ps @ [x]))
      = Inr (length (ps @ [x]) + length xs)"
    using Cons.prems by (intro Cons.IH) simp_all
  then show ?case using Cons.prems by (subst rm_contains.simps) auto
qed

lemma rm_end_run:
  assumes "\<forall>e\<in>set xs. m_size e \<noteq> 0"
  shows "rm_end (ps @ xs @ delim # zs) (length ps) = Inr (length ps + length xs)"
  using assms
proof (induction xs arbitrary: ps)
  case Nil
  then show ?case by (subst rm_end.simps) simp
next
  case (Cons x xs)
  have "rm_end ((ps @ [x]) @ xs @ delim # zs) (length (ps @ [x]))
      = Inr (length (ps @ [x]) + length xs)"
    using Cons.prems by (intro Cons.IH) simp_all
  then show ?case using Cons.prems by (subst rm_end.simps) simp
qed

lemma rm_open_run:
  "rm_open (ps @ x # xs @ y # zs) (length ps) (length ps + length xs)
     = Inr (if xs = [] then ps @ x # y # zs else ps @ x # hd xs # xs @ zs)"
proof (induction xs arbitrary: y zs rule: rev_induct)
  case Nil
  then show ?case by (cases "length ps") (simp_all add: rm_open.simps)
next
  case (snoc z xs)
  let ?a = "ps @ x # xs @ z # y # zs"
  have idx: "?a ! Suc (length ps + length xs) = z"
    "?a[Suc (Suc (length ps + length xs)) := z] = ps @ x # xs @ z # z # zs"
    by (simp_all add: nth_append list_update_append)
  have "rm_open ?a (length ps) (Suc (length ps + length xs))
      = rm_open (ps @ x # xs @ z # z # zs) (length ps) (length ps + length xs)"
    by (subst rm_open.simps) (simp add: idx)
  then show ?case using snoc.IH [of z "z # zs"] by (cases xs) auto
qed

section \<open>Well-formed maps\<close>

definition seg_ok :: "mapent list \<Rightarrow> bool" where
  "seg_ok segs \<longleftrightarrow> sorted_wrt (\<lambda>a b. m_addr a + m_size a < m_addr b) segs
     \<and> (\<forall>e\<in>set segs. 0 < m_addr e \<and> 0 < m_size e \<and> m_addr e + m_size e \<le> maxint)"

definition rm_segs :: "rmap \<Rightarrow> mapent list" where
  "rm_segs mp = takeWhile (\<lambda>e. m_size e \<noteq> 0) (rm_ents mp)"

text \<open>
  The map invariant: the segments are positive, in address order and never adjacent (so
  every free run is one segment), and every slot behind them is a zero delimiter, which is
  what \<open>rmfree\<close> relies on when it does not write the delimiter it moves.
\<close>

definition rm_wf :: "rmap \<Rightarrow> bool" where
  "rm_wf mp \<longleftrightarrow> m_limit mp = length (rm_ents mp) \<and> 2 \<le> m_limit mp \<and> seg_ok (rm_segs mp)
     \<and> length (rm_segs mp) < length (rm_ents mp)
     \<and> dropWhile (\<lambda>e. m_size e \<noteq> 0) (rm_ents mp)
         = replicate (length (rm_ents mp) - length (rm_segs mp)) delim"

definition seg_span :: "mapent \<Rightarrow> int set" where
  "seg_span e = span (m_addr e) (m_size e)"

definition rm_free :: "rmap \<Rightarrow> int set" where
  "rm_free mp = (\<Union>e\<in>set (rm_segs mp). seg_span e)"

lemma rm_wfE:
  assumes "rm_wf mp"
  obtains k where "rm_ents mp = rm_segs mp @ delim # replicate k delim" "seg_ok (rm_segs mp)"
    "m_limit mp = length (rm_segs mp) + Suc k" "2 \<le> m_limit mp"
proof -
  let ?n = "length (rm_ents mp) - length (rm_segs mp)"
  from assms have "0 < ?n" by (simp add: rm_wf_def)
  then obtain k where k: "?n = Suc k" by (cases ?n) auto
  have "rm_ents mp = rm_segs mp @ replicate ?n delim"
    using assms by (simp add: rm_wf_def rm_segs_def) (metis takeWhile_dropWhile_id)
  with k have ents: "rm_ents mp = rm_segs mp @ delim # replicate k delim" by simp
  from assms k have "m_limit mp = length (rm_segs mp) + Suc k"
    by (simp add: rm_wf_def)
  with ents that assms show thesis by (simp add: rm_wf_def)
qed

lemma seg_ok_nonzero: "seg_ok segs \<Longrightarrow> \<forall>e\<in>set segs. m_size e \<noteq> 0"
  by (auto simp: seg_ok_def)

lemma seg_ok_bounds: "seg_ok segs \<Longrightarrow> \<forall>e\<in>set segs. 0 < m_addr e \<and> 0 < m_size e \<and> m_addr e + m_size e \<le> maxint"
  by (simp add: seg_ok_def)

lemma seg_ok_wrap: "seg_ok segs \<Longrightarrow> e \<in> set segs \<Longrightarrow> wrap32 (m_addr e + m_size e) = m_addr e + m_size e"
  by (intro wrap32_id) (auto simp: seg_ok_def)

lemma rm_segs_eq:
  assumes "rm_ents mp = segs @ delim # zs" "seg_ok segs"
  shows "rm_segs mp = segs"
proof -
  have "\<And>e. e \<in> set segs \<Longrightarrow> m_size e \<noteq> 0" using assms(2) by (auto simp: seg_ok_def)
  then show ?thesis by (simp add: rm_segs_def assms(1) takeWhile_append2)
qed

lemma rm_wfI:
  assumes "rm_ents mp = segs @ delim # replicate k delim" "seg_ok segs"
    and "m_limit mp = length segs + Suc k" "2 \<le> m_limit mp"
  shows "rm_wf mp"
proof -
  have segs: "rm_segs mp = segs" using assms(1,2) by (rule rm_segs_eq)
  have "dropWhile (\<lambda>e. m_size e \<noteq> 0) (rm_ents mp) = delim # replicate k delim"
    using seg_ok_nonzero [OF assms(2)] by (simp add: assms(1) dropWhile_append2)
  with segs assms show ?thesis by (simp add: rm_wf_def Suc_diff_le)
qed

lemma seg_ok_append:
  "seg_ok (xs @ ys) \<longleftrightarrow> seg_ok xs \<and> seg_ok ys
     \<and> (\<forall>a\<in>set xs. \<forall>b\<in>set ys. m_addr a + m_size a < m_addr b)"
  by (auto simp: seg_ok_def sorted_wrt_append)

lemma seg_ok_Cons:
  "seg_ok (x # xs) \<longleftrightarrow> 0 < m_addr x \<and> 0 < m_size x \<and> m_addr x + m_size x \<le> maxint \<and> seg_ok xs
     \<and> (\<forall>b\<in>set xs. m_addr x + m_size x < m_addr b)"
  by (auto simp: seg_ok_def)

lemma seg_ok_Nil [simp]: "seg_ok []"
  by (simp add: seg_ok_def)

lemmas seg_ok_simps = seg_ok_append seg_ok_Cons


section \<open>Freeing\<close>

text \<open>
  The free list around an address: \<open>L\<close> are the segments that start at or below it, \<open>R\<close>
  those above. The four ways of inserting and the panic follow the branches of \<open>rmfree\<close>.
\<close>

definition rm_view :: "rmap \<Rightarrow> int \<Rightarrow> mapent list \<Rightarrow> mapent list \<Rightarrow> nat \<Rightarrow> bool" where
  "rm_view mp addr L R k \<longleftrightarrow> rm_ents mp = L @ R @ delim # replicate k delim \<and> seg_ok (L @ R)
     \<and> m_limit mp = length (L @ R) + Suc k \<and> 2 \<le> m_limit mp
     \<and> (\<forall>e\<in>set L. m_addr e \<le> addr) \<and> (\<forall>e\<in>set R. addr < m_addr e)"

lemma seg_ok_split_at:
  assumes "seg_ok segs"
  obtains L R where "segs = L @ R" "\<forall>e\<in>set L. m_addr e \<le> a" "\<forall>e\<in>set R. a < m_addr e"
proof
  let ?P = "\<lambda>e. m_addr e \<le> a"
  show "segs = takeWhile ?P segs @ dropWhile ?P segs" by simp
  show "\<forall>e\<in>set (takeWhile ?P segs). ?P e" by (meson set_takeWhileD)
  show "\<forall>e\<in>set (dropWhile ?P segs). a < m_addr e"
  proof (cases "dropWhile ?P segs")
    case Nil
    then show ?thesis by (simp only: Nil) simp
  next
    case (Cons y ys)
    then have "\<not> ?P y" by (metis dropWhile_eq_Cons_conv)
    moreover have "seg_ok (y # ys)"
      using assms Cons by (metis seg_ok_append takeWhile_dropWhile_id)
    ultimately show ?thesis using Cons by (force simp: seg_ok_Cons)
  qed
qed

lemma rm_wf_view:
  assumes "rm_wf mp"
  obtains L R k where "rm_view mp addr L R k" "rm_segs mp = L @ R"
  using assms
proof (rule rm_wfE)
  fix k
  assume *: "rm_ents mp = rm_segs mp @ delim # replicate k delim" "seg_ok (rm_segs mp)"
    "m_limit mp = length (rm_segs mp) + Suc k" "2 \<le> m_limit mp"
  from seg_ok_split_at [OF *(2), of addr] obtain L R where
    "rm_segs mp = L @ R" "\<forall>e\<in>set L. m_addr e \<le> addr" "\<forall>e\<in>set R. addr < m_addr e" .
  with * that show thesis by (simp add: rm_view_def)
qed

lemma rm_view_nonzero:
  "rm_view mp addr L R k \<Longrightarrow> \<forall>e\<in>set L \<union> set R. m_size e \<noteq> 0"
  using seg_ok_nonzero [of "L @ R"] by (simp add: rm_view_def)

lemma rm_view_locate:
  assumes "rm_view mp addr L R k"
  shows "rm_locate (rm_ents mp) addr 0 = Inr (length L)"
proof -
  have nz: "\<forall>e\<in>set L. m_addr e \<le> addr \<and> m_size e \<noteq> 0"
    using assms rm_view_nonzero [OF assms] by (auto simp: rm_view_def)
  show ?thesis
  proof (cases R)
    case Nil
    with rm_locate_run [OF nz, where y = delim and ps = "[]"] assms show ?thesis
      by (simp add: rm_view_def)
  next
    case (Cons y ys)
    then have "\<not> (m_addr y \<le> addr \<and> m_size y \<noteq> 0)" using assms by (auto simp: rm_view_def)
    from rm_locate_run [OF nz this, where ps = "[]"] Cons assms show ?thesis
      by (simp add: rm_view_def)
  qed
qed

text \<open>Whether the freed range meets a free segment, seen from the two neighbours.\<close>

definition rm_fits :: "mapent list \<Rightarrow> mapent list \<Rightarrow> int \<Rightarrow> int \<Rightarrow> bool" where
  "rm_fits L R sz addr \<longleftrightarrow> (L = [] \<or> m_addr (last L) + m_size (last L) \<le> addr)
     \<and> (R = [] \<or> addr + sz \<le> m_addr (hd R))"

lemma seg_ok_last_max:
  assumes "seg_ok (L @ [l])" "e \<in> set (L @ [l])"
  shows "m_addr e + m_size e \<le> m_addr l + m_size l"
  using assms by (auto simp: seg_ok_simps)

lemma rm_fits_iff_disjoint:
  assumes v: "rm_view mp addr L R k" and pos: "0 < sz"
  shows "rm_fits L R sz addr \<longleftrightarrow> (\<forall>e\<in>set (L @ R). seg_span e \<inter> span addr sz = {})"
proof -
  have ok: "seg_ok (L @ R)" and le: "\<forall>e\<in>set L. m_addr e \<le> addr" and gt: "\<forall>e\<in>set R. addr < m_addr e"
    using v by (auto simp: rm_view_def)
  have left: "seg_span e \<inter> span addr sz = {} \<longleftrightarrow> m_addr e + m_size e \<le> addr" if "e \<in> set L" for e
    using that ok le pos span_disjoint_iff [of "m_size e" sz "m_addr e" addr]
    by (force simp: seg_span_def seg_ok_append seg_ok_def)
  have right: "seg_span e \<inter> span addr sz = {} \<longleftrightarrow> addr + sz \<le> m_addr e" if "e \<in> set R" for e
    using that ok gt pos span_disjoint_iff [of "m_size e" sz "m_addr e" addr]
    by (force simp: seg_span_def seg_ok_append seg_ok_def)
  have "(\<forall>e\<in>set L. m_addr e + m_size e \<le> addr)
      \<longleftrightarrow> (L = [] \<or> m_addr (last L) + m_size (last L) \<le> addr)"
  proof (cases L rule: rev_cases)
    case (snoc L' l)
    with ok have "seg_ok (L' @ [l])" by (simp add: seg_ok_simps)
    from seg_ok_last_max [OF this] snoc show ?thesis by fastforce
  qed simp
  moreover have "(\<forall>e\<in>set R. addr + sz \<le> m_addr e) \<longleftrightarrow> (R = [] \<or> addr + sz \<le> m_addr (hd R))"
  proof (cases R)
    case (Cons r R')
    with ok show ?thesis by (force simp: seg_ok_simps)
  qed simp
  ultimately show ?thesis using left right by (auto simp: rm_fits_def)
qed


lemma rmfree_panics:
  assumes v: "rm_view mp addr L R k" and pos: "0 < addr" "0 < sz" "addr + sz \<le> maxint" and "\<not> rm_fits L R sz addr"
  shows "rmfree cf mp sz addr = Inl (Panic ''bad rmfree'')"
proof -
  let ?e = "hd (R @ [delim])"
  have e: "aget (rm_ents mp) (length L) = Inr ?e"
    using v by (cases R) (simp_all add: rm_view_def)
  have l: "rm_ents mp ! (length L - Suc 0) = last L" if "L \<noteq> []"
    using v that by (auto simp: rm_view_def nth_append last_conv_nth)
  have r: "m_addr (hd R) \<noteq> 0 \<and> m_size (hd R) \<noteq> 0" if "R \<noteq> []"
    using v that by (cases R) (auto simp: rm_view_def seg_ok_simps)
  have bnd: "\<forall>e\<in>set (L @ R). 0 < m_addr e \<and> 0 < m_size e \<and> m_addr e + m_size e \<le> maxint"
    using v by (intro seg_ok_bounds) (simp add: rm_view_def)
  have w: "wrap32 (addr + sz) = addr + sz" "L \<noteq> [] \<Longrightarrow> wrap32 (m_addr (last L) + m_size (last L)) = m_addr (last L) + m_size (last L)"
    using pos v by (auto simp: rm_view_def intro!: seg_ok_wrap [of "L @ R"])
  show ?thesis
    using assms(5) pos l r w
    by (cases "L = []"; cases "R = []")
       (use e in \<open>auto simp: rmfree_def rm_view_locate [OF v] rm_fits_def Let_def\<close>)
qed

lemma rmfree_both:
  assumes v: "rm_view mp addr (L @ [l]) (r # R) k" and pos: "0 < addr" "0 < sz" "addr + sz \<le> maxint"
    and "m_addr l + m_size l = addr" "addr + sz = m_addr r"
  shows "rmfree cf mp sz addr = Inr (rmfree_done cf mp
     (L @ l\<lparr>m_size := m_size l + sz + m_size r\<rparr> # R @ delim # delim # replicate k delim))"
proof -
  have ents: "rm_ents mp = L @ l # r # R @ delim # replicate k delim" and r: "m_size r \<noteq> 0"
    and nz: "\<forall>e\<in>set R. m_size e \<noteq> 0" and ra: "m_addr r \<noteq> 0"
    and bnd: "0 < m_addr l" "0 < m_size l" "0 < m_size r" "m_addr r + m_size r \<le> maxint"
    using v rm_view_nonzero [OF v] by (auto simp: rm_view_def seg_ok_simps)
  show ?thesis
    using assms(5,6) pos rm_view_locate [OF v] ra bnd
      rm_compress_run [OF r nz, of "L @ [l\<lparr>m_size := m_size l + sz + m_size r\<rparr>]" "replicate k delim"]
    by (simp add: rmfree_def ents Let_def)
qed

lemma rmfree_left:
  assumes v: "rm_view mp addr (L @ [l]) R k" and pos: "0 < addr" "0 < sz" "addr + sz \<le> maxint"
    and "m_addr l + m_size l = addr" "R = [] \<or> addr + sz < m_addr (hd R)"
  shows "rmfree cf mp sz addr = Inr (rmfree_done cf mp
     (L @ l\<lparr>m_size := m_size l + sz\<rparr> # R @ delim # replicate k delim))"
proof -
  have ents: "rm_ents mp = L @ l # R @ delim # replicate k delim" and bnd: "0 < m_addr l" "0 < m_size l"
    using v by (auto simp: rm_view_def seg_ok_simps)
  show ?thesis
    using assms(5,6) pos bnd rm_view_locate [OF v]
    by (cases R) (auto simp: rmfree_def ents Let_def)
qed

lemma rmfree_right:
  assumes v: "rm_view mp addr L (r # R) k" and pos: "0 < addr" "0 < sz" "addr + sz \<le> maxint"
    and "L = [] \<or> m_addr (last L) + m_size (last L) < addr" "addr + sz = m_addr r"
  shows "rmfree cf mp sz addr = Inr (rmfree_done cf mp
     (L @ \<lparr>m_size = m_size r + sz, m_addr = addr\<rparr> # R @ delim # replicate k delim))"
proof -
  have ents: "rm_ents mp = L @ r # R @ delim # replicate k delim" and r: "m_size r \<noteq> 0"
    and bnd: "0 < m_size r" "m_addr r + m_size r \<le> maxint" "\<forall>e\<in>set L. 0 < m_addr e \<and> 0 < m_size e \<and> m_addr e + m_size e \<le> maxint"
    using v seg_ok_bounds [of "L @ r # R"] by (auto simp: rm_view_def)
  have eq: "m_addr r - sz = addr" using assms(6) by simp
  show ?thesis
    using assms(5,6) pos rm_view_locate [OF v] r bnd
    by (cases L rule: rev_cases) (auto simp: rmfree_def ents Let_def eq)
qed

lemma rmfree_gap:
  assumes v: "rm_view mp addr L R k" and pos: "0 < addr" "0 < sz" "addr + sz \<le> maxint"
    and "L = [] \<or> m_addr (last L) + m_size (last L) < addr" "R = [] \<or> addr + sz < m_addr (hd R)"
  shows "rmfree cf mp sz addr = kbind (rmfree_ovflo mp (Suc (length L + length R))
      (L @ \<lparr>m_size = sz, m_addr = addr\<rparr> # R @ replicate k delim))
      (\<lambda>(mp', ents''). Inr (rmfree_done cf mp' ents''))"
proof -
  have ents: "rm_ents mp = L @ R @ delim # replicate k delim" and nz: "\<forall>e\<in>set R. m_size e \<noteq> 0"
    using v rm_view_nonzero [OF v] by (auto simp: rm_view_def)
  have bnd: "\<forall>e\<in>set (L @ R). 0 < m_addr e \<and> 0 < m_size e \<and> m_addr e + m_size e \<le> maxint"
    using v by (intro seg_ok_bounds) (simp add: rm_view_def)
  have push: "rm_push (rm_ents mp) (length L) sz addr = Inr (Suc (length L + length R),
      L @ \<lparr>m_size = sz, m_addr = addr\<rparr> # R @ replicate k delim)"
    using rm_push_run [OF nz, of L "replicate k delim"] by (simp add: ents)
  show ?thesis
    using assms(5,6) pos rm_view_locate [OF v] push bnd
    by (cases R; cases L rule: rev_cases) (auto simp: rmfree_def ents Let_def)
qed

lemma rmfree_none:
  assumes v: "rm_view mp addr L R (Suc k)" and pos: "0 < addr" "0 < sz" "addr + sz \<le> maxint"
    and "L = [] \<or> m_addr (last L) + m_size (last L) < addr" "R = [] \<or> addr + sz < m_addr (hd R)"
  shows "rmfree cf mp sz addr = Inr (rmfree_done cf mp
     (L @ \<lparr>m_size = sz, m_addr = addr\<rparr> # R @ delim # replicate k delim))"
  using v by (simp add: rmfree_gap [OF assms] rmfree_ovflo_def rm_view_def)

lemma seg_ok_insert:
  assumes v: "rm_view mp addr L R k" and pos: "0 < addr" "0 < sz" "addr + sz \<le> maxint"
    and "L = [] \<or> m_addr (last L) + m_size (last L) < addr" "R = [] \<or> addr + sz < m_addr (hd R)"
  shows "seg_ok (L @ \<lparr>m_size = sz, m_addr = addr\<rparr> # R)"
proof -
  have ok: "seg_ok L" "seg_ok R" "\<forall>a\<in>set L. \<forall>b\<in>set R. m_addr a + m_size a < m_addr b"
    using v by (auto simp: rm_view_def seg_ok_append)
  have "\<forall>e\<in>set L. m_addr e + m_size e < addr"
  proof (cases L rule: rev_cases)
    case (snoc L' l)
    with seg_ok_last_max [of L' l] ok(1) assms(5) show ?thesis by fastforce
  qed simp
  moreover have "\<forall>e\<in>set R. addr + sz < m_addr e"
    using ok(2) assms(6) by (cases R) (auto simp: seg_ok_Cons)
  ultimately show ?thesis using ok pos by (simp add: seg_ok_simps)
qed

text \<open>
  The map is full: with the new entry in place, the second to last segment \<open>d\<close> is lost and
  the last one, \<open>z\<close>, becomes the final entry.
\<close>

lemma rmfree_full:
  assumes v: "rm_view mp addr L R 0" and pos: "0 < addr" "0 < sz" "addr + sz \<le> maxint"
    and "L = [] \<or> m_addr (last L) + m_size (last L) < addr" "R = [] \<or> addr + sz < m_addr (hd R)"
    and S: "L @ \<lparr>m_size = sz, m_addr = addr\<rparr> # R = S @ [d, z]"
  shows "rmfree cf mp sz addr = Inr (rmfree_done cf
     (mp\<lparr>rm_lost := (m_name mp, m_addr d, m_addr d + m_size d) # rm_lost mp\<rparr>)
     (S @ [z, delim]))"
proof -
  have "seg_ok (S @ [d, z])" using seg_ok_insert [OF assms(1-6)] S by simp
  then have w: "wrap32 (m_addr d + m_size d) = m_addr d + m_size d" by (rule seg_ok_wrap) simp
  have len: "length L + length R = Suc (length S)"
    using arg_cong [OF S, of length] by simp
  have lim: "m_limit mp = Suc (Suc (length S))"
    using v len by (simp add: rm_view_def)
  show ?thesis
    using S by (simp add: rmfree_gap [OF assms(1-6)] rmfree_ovflo_def lim len w
        append_assoc [symmetric] del: append_assoc)
qed


subsection \<open>What \<open>rmfree\<close> does to the set of free addresses\<close>

definition segs_free :: "mapent list \<Rightarrow> int set" where
  "segs_free segs = (\<Union>e\<in>set segs. seg_span e)"

lemma rm_free_segs: "rm_free mp = segs_free (rm_segs mp)"
  by (simp add: rm_free_def segs_free_def)

lemma segs_free_simps [simp]:
  "segs_free [] = {}" "segs_free (e # es) = seg_span e \<union> segs_free es"
  "segs_free (xs @ ys) = segs_free xs \<union> segs_free ys"
  by (auto simp: segs_free_def)

lemma rmfree_done_sel [simp]:
  "rm_ents (rmfree_done cf mp ents) = ents" "m_limit (rmfree_done cf mp ents) = m_limit mp"
  "rm_lost (rmfree_done cf mp ents) = rm_lost mp" "m_name (rmfree_done cf mp ents) = m_name mp"
  by (simp_all add: rmfree_done_def Let_def)

lemma seg_ok_disjoint:
  assumes "seg_ok (S @ d # Z)"
  shows "segs_free (S @ Z) \<inter> seg_span d = {}"
  using assms by (fastforce simp: segs_free_def seg_span_def seg_ok_simps)

lemma seg_ok_drop:
  assumes "seg_ok (S @ d # Z)"
  shows "seg_ok (S @ Z)" "segs_free (S @ Z) = segs_free (S @ d # Z) - seg_span d"
  using assms seg_ok_disjoint [OF assms] by (auto simp: seg_ok_simps)

text \<open>A well-formed map holding exactly \<open>segs\<close>, with everything else as in \<open>mp\<close> but the log.\<close>

definition rm_holds :: "rmap \<Rightarrow> rmap \<Rightarrow> mapent list \<Rightarrow> bool" where
  "rm_holds mp mp' segs \<longleftrightarrow> rm_wf mp' \<and> rm_segs mp' = segs \<and> m_limit mp' = m_limit mp
     \<and> m_name mp' = m_name mp"

lemma rm_holds_done:
  assumes "seg_ok segs" "m_limit mp = length segs + Suc k" "2 \<le> m_limit mp"
  shows "rm_holds mp (rmfree_done cf mp (segs @ delim # replicate k delim)) segs"
proof -
  let ?m = "rmfree_done cf mp (segs @ delim # replicate k delim)"
  have "rm_wf ?m" using assms by (intro rm_wfI [of _ segs k]) simp_all
  moreover have "rm_segs ?m = segs" using assms by (intro rm_segs_eq) simp_all
  ultimately show ?thesis by (simp add: rm_holds_def)
qed

definition rm_new_segs :: "rmap \<Rightarrow> rmap \<Rightarrow> int set \<Rightarrow> bool" where
  "rm_new_segs mp mp' A \<longleftrightarrow> rm_wf mp' \<and> m_limit mp' = m_limit mp \<and> m_name mp' = m_name mp
     \<and> (rm_lost mp' = rm_lost mp \<and> rm_free mp' = A
        \<or> length (rm_segs mp) + 1 = m_limit mp
          \<and> (\<exists>lo hi. lo < hi \<and> rm_lost mp' = (m_name mp, lo, hi) # rm_lost mp
               \<and> {lo..<hi} \<subseteq> A \<and> rm_free mp' = A - {lo..<hi}))"

lemma rm_new_segs_kept:
  "rm_holds mp mp' segs \<Longrightarrow> rm_lost mp' = rm_lost mp \<Longrightarrow> segs_free segs = A \<Longrightarrow> rm_new_segs mp mp' A"
  by (simp add: rm_new_segs_def rm_holds_def rm_free_segs)

lemma rmfree_gap_spec:
  assumes v: "rm_view mp addr L R k" and segs: "rm_segs mp = L @ R" and pos: "0 < addr" "0 < sz" "addr + sz \<le> maxint"
    and gap: "L = [] \<or> m_addr (last L) + m_size (last L) < addr" "R = [] \<or> addr + sz < m_addr (hd R)"
  shows "\<exists>mp'. rmfree cf mp sz addr = Inr mp' \<and> rm_new_segs mp mp' (segs_free (L @ R) \<union> span addr sz)"
proof -
  let ?n = "\<lparr>m_size = sz, m_addr = addr\<rparr>" and ?A = "segs_free (L @ R) \<union> span addr sz"
  have ok: "seg_ok (L @ ?n # R)" using v pos gap by (rule seg_ok_insert)
  have A: "segs_free (L @ ?n # R) = ?A" by (auto simp: seg_span_def)
  have lim: "m_limit mp = length L + length R + Suc k" "2 \<le> m_limit mp"
    using v by (auto simp: rm_view_def)
  show ?thesis
  proof (cases k)
    case (Suc j)
    have "rm_holds mp (rmfree_done cf mp ((L @ ?n # R) @ delim # replicate j delim)) (L @ ?n # R)"
      using ok lim Suc by (intro rm_holds_done) simp_all
    from rm_new_segs_kept [OF this _ A] rmfree_none [OF v [unfolded Suc] pos gap] show ?thesis by simp
  next
    case 0
    have "2 \<le> length (L @ ?n # R)" using lim 0 by simp
    then obtain S d z where S: "L @ ?n # R = S @ [d, z]"
      by (rule length_ge_2_snocE)
    have drop: "seg_ok (S @ [z])" "segs_free (S @ [z]) = ?A - seg_span d"
      using seg_ok_drop [of S d "[z]"] ok A S by simp_all
    have d: "0 < m_size d" "seg_span d \<subseteq> ?A" using ok A S by (auto simp: seg_ok_simps)
    let ?mp = "mp\<lparr>rm_lost := (m_name mp, m_addr d, m_addr d + m_size d) # rm_lost mp\<rparr>"
    have "rm_holds ?mp (rmfree_done cf ?mp ((S @ [z]) @ delim # replicate 0 delim)) (S @ [z])"
      using drop(1) lim 0 arg_cong [OF S, of length] by (intro rm_holds_done) simp_all
    then have "rm_new_segs mp (rmfree_done cf ?mp (S @ [z, delim])) ?A"
      using drop d lim 0 segs
      by (auto simp: rm_new_segs_def rm_holds_def rm_free_segs seg_span_def span_def
          intro!: exI [of _ "m_addr d"])
    then show ?thesis using rmfree_full [OF v [unfolded 0] pos gap S] by blast
  qed
qed


lemma rmfree_left_spec:
  assumes v: "rm_view mp addr (L @ [l]) R k" and segs: "rm_segs mp = L @ l # R"
    and pos: "0 < addr" "0 < sz" "addr + sz \<le> maxint" and l: "m_addr l + m_size l = addr"
    and fits: "R = [] \<or> addr + sz \<le> m_addr (hd R)"
  shows "\<exists>mp'. rmfree cf mp sz addr = Inr mp' \<and> rm_new_segs mp mp' (rm_free mp \<union> span addr sz)"
proof -
  have ok: "seg_ok (L @ l # R)" and lim: "m_limit mp = Suc (length L + length R) + Suc k" "2 \<le> m_limit mp"
    using v by (auto simp: rm_view_def)
  show ?thesis
  proof (cases "R \<noteq> [] \<and> addr + sz = m_addr (hd R)")
    case True
    then obtain r R' where R: "R = r # R'" and r: "addr + sz = m_addr r" by (cases R) auto
    let ?l = "l\<lparr>m_size := m_size l + sz + m_size r\<rparr>"
    have "rm_holds mp (rmfree_done cf mp ((L @ ?l # R') @ delim # replicate (Suc k) delim)) (L @ ?l # R')"
      using ok lim l r pos by (intro rm_holds_done) (auto simp: R seg_ok_simps)
    moreover have "segs_free (L @ ?l # R') = rm_free mp \<union> span addr sz"
      using ok l r pos by (auto simp: rm_free_segs segs R seg_span_def seg_ok_simps)
    ultimately show ?thesis
      using rmfree_both [OF v [unfolded R] pos l r] by (auto intro: rm_new_segs_kept)
  next
    case False
    then have R: "R = [] \<or> addr + sz < m_addr (hd R)" using fits by auto
    let ?l = "l\<lparr>m_size := m_size l + sz\<rparr>"
    have "\<forall>e\<in>set R. addr + sz < m_addr e" using R ok by (cases R) (auto simp: seg_ok_simps)
    then have "rm_holds mp (rmfree_done cf mp ((L @ ?l # R) @ delim # replicate k delim)) (L @ ?l # R)"
      using ok lim l pos by (intro rm_holds_done) (auto simp: seg_ok_simps)
    moreover have "segs_free (L @ ?l # R) = rm_free mp \<union> span addr sz"
      using ok l pos by (auto simp: rm_free_segs segs seg_span_def seg_ok_simps)
    ultimately show ?thesis
      using rmfree_left [OF v pos l R] by (auto intro: rm_new_segs_kept)
  qed
qed

lemma rmfree_right_spec:
  assumes v: "rm_view mp addr L (r # R) k" and segs: "rm_segs mp = L @ r # R"
    and pos: "0 < addr" "0 < sz" "addr + sz \<le> maxint" and L: "L = [] \<or> m_addr (last L) + m_size (last L) < addr"
    and r: "addr + sz = m_addr r"
  shows "\<exists>mp'. rmfree cf mp sz addr = Inr mp' \<and> rm_new_segs mp mp' (rm_free mp \<union> span addr sz)"
proof -
  have ok: "seg_ok (L @ r # R)" and lim: "m_limit mp = Suc (length L + length R) + Suc k" "2 \<le> m_limit mp"
    using v by (auto simp: rm_view_def)
  let ?r = "\<lparr>m_size = m_size r + sz, m_addr = addr\<rparr>"
  have "\<forall>e\<in>set L. m_addr e + m_size e < addr"
    using L seg_ok_last_max [of "butlast L" "last L"] ok
    by (cases L rule: rev_cases) (force simp: seg_ok_simps)+
  then have "rm_holds mp (rmfree_done cf mp ((L @ ?r # R) @ delim # replicate k delim)) (L @ ?r # R)"
    using ok lim r pos by (intro rm_holds_done) (auto simp: seg_ok_simps)
  moreover have "segs_free (L @ ?r # R) = rm_free mp \<union> span addr sz"
    using ok r pos by (auto simp: rm_free_segs segs seg_span_def seg_ok_simps)
  ultimately show ?thesis
    using rmfree_right [OF v pos L r] by (auto intro: rm_new_segs_kept)
qed

lemma rmfree_spec:
  assumes wf: "rm_wf mp" and pos: "0 < addr" "0 < sz" "addr + sz \<le> maxint"
  shows "if rm_free mp \<inter> span addr sz = {}
    then \<exists>mp'. rmfree cf mp sz addr = Inr mp' \<and> rm_new_segs mp mp' (rm_free mp \<union> span addr sz)
    else rmfree cf mp sz addr = Inl (Panic ''bad rmfree'')"
proof -
  from wf obtain L R k where v: "rm_view mp addr L R k" and segs: "rm_segs mp = L @ R"
    by (rule rm_wf_view)
  have fits: "rm_fits L R sz addr \<longleftrightarrow> rm_free mp \<inter> span addr sz = {}"
    using rm_fits_iff_disjoint [OF v pos(2)] by (auto simp: rm_free_def segs)
  have "\<exists>mp'. rmfree cf mp sz addr = Inr mp' \<and> rm_new_segs mp mp' (rm_free mp \<union> span addr sz)"
    if f: "rm_fits L R sz addr"
  proof (cases "L \<noteq> [] \<and> m_addr (last L) + m_size (last L) = addr")
    case True
    then obtain L' l where "L = L' @ [l]" "m_addr l + m_size l = addr"
      by (cases L rule: rev_cases) auto
    with f v segs pos show ?thesis by (intro rmfree_left_spec) (auto simp: rm_fits_def)
  next
    case False
    then have L: "L = [] \<or> m_addr (last L) + m_size (last L) < addr" using f by (auto simp: rm_fits_def)
    show ?thesis
    proof (cases "R \<noteq> [] \<and> addr + sz = m_addr (hd R)")
      case True
      then obtain r R' where "R = r # R'" "addr + sz = m_addr r" by (cases R) auto
      with L v segs pos show ?thesis by (intro rmfree_right_spec) auto
    next
      case False
      then have "R = [] \<or> addr + sz < m_addr (hd R)" using f by (auto simp: rm_fits_def)
      from rmfree_gap_spec [OF v segs pos L this] show ?thesis by (simp add: rm_free_segs segs)
    qed
  qed
  with rmfree_panics [OF v pos] fits show ?thesis by auto
qed

section \<open>Allocating\<close>

abbreviation rm_first :: "rmconf \<Rightarrow> mapent \<Rightarrow> int" where
  "rm_first cf e \<equiv> dmmax cf - m_addr e smod dmmax cf"

definition rm_interleaved :: "rmconf \<Rightarrow> mapent \<Rightarrow> bool" where
  "rm_interleaved cf e \<longleftrightarrow> is_swapmap cf \<and> nswdev cf > 1 \<and> rm_first cf e < m_size e"

definition rm_takes :: "rmconf \<Rightarrow> int \<Rightarrow> mapent \<Rightarrow> bool" where
  "rm_takes cf sz e \<longleftrightarrow> m_size e \<ge> sz \<and> (rm_interleaved cf e \<longrightarrow> m_size e - rm_first cf e \<ge> sz)"

lemma rmalloc_from_skip:
  assumes "rm_ents mp = ps @ xs @ zs" "\<forall>e\<in>set xs. m_size e \<noteq> 0 \<and> \<not> rm_takes cf sz e"
  shows "rmalloc_from cf mp sz (length ps) = rmalloc_from cf mp sz (length ps + length xs)"
  using assms
proof (induction xs arbitrary: ps)
  case Nil
  then show ?case by simp
next
  case (Cons x xs)
  have "rmalloc_from cf mp sz (length (ps @ [x])) = rmalloc_from cf mp sz (length (ps @ [x]) + length xs)"
    using Cons.prems by (intro Cons.IH) simp_all
  moreover have "rmalloc_from cf mp sz (length ps) = rmalloc_from cf mp sz (Suc (length ps))"
    using Cons.prems
    by (subst rmalloc_from.simps) (auto simp: Let_def rm_takes_def rm_interleaved_def)
  ultimately show ?case by simp
qed

lemma rmalloc_skip_to:
  assumes "rm_ents mp = L @ zs" "\<forall>x\<in>set L. m_size x \<noteq> 0" "\<forall>x\<in>set L. \<not> rm_takes cf sz x"
  shows "rmalloc_from cf mp sz 0 = rmalloc_from cf mp sz (length L)"
  using rmalloc_from_skip [of mp "[]" L zs] assms by simp

lemma rmalloc_none:
  assumes "rm_ents mp = segs @ delim # zs" "\<forall>e\<in>set segs. m_size e \<noteq> 0 \<and> \<not> rm_takes cf sz e"
  shows "rmalloc_from cf mp sz 0 = Inr (0, mp)"
proof -
  have "rmalloc_from cf mp sz (length segs) = Inr (0, mp)"
    by (subst rmalloc_from.simps) (simp add: assms(1) Let_def)
  then show ?thesis using rmalloc_from_skip [of mp "[]" segs "delim # zs"] assms by simp
qed

text \<open>The first segment that can hold the request, if there is one.\<close>

lemma first_takesE:
  assumes "\<exists>e\<in>set segs. rm_takes cf sz e"
  obtains L e R where "segs = L @ e # R" "rm_takes cf sz e" "\<forall>x\<in>set L. \<not> rm_takes cf sz x"
  using assms split_list_first_prop [of segs "rm_takes cf sz"] by blast

lemma rmalloc_plain:
  assumes ents: "rm_ents mp = L @ e # R @ delim # zs" and nz: "\<forall>x\<in>set (L @ e # R). m_size x \<noteq> 0"
    and L: "\<forall>x\<in>set L. \<not> rm_takes cf sz x" and e: "rm_takes cf sz e" "\<not> rm_interleaved cf e"
    and al: "is_swapmap cf \<longrightarrow> m_addr e smod CLSIZE = 0" and w: "wrap32 (m_addr e + sz) = m_addr e + sz"
  shows "rmalloc_from cf mp sz 0 = Inr (m_addr e, mp\<lparr>rm_ents :=
      (if m_size e = sz then L @ R @ delim # delim # zs
       else L @ \<lparr>m_size = m_size e - sz, m_addr = m_addr e + sz\<rparr> # R @ delim # zs)\<rparr>)"
proof -
  have "rmalloc_from cf mp sz 0 = rmalloc_from cf mp sz (length L)"
    using ents nz L by (intro rmalloc_skip_to) auto
  also have "\<dots> = Inr (m_addr e, mp\<lparr>rm_ents :=
      (if m_size e = sz then L @ R @ delim # delim # zs
       else L @ \<lparr>m_size = m_size e - sz, m_addr = m_addr e + sz\<rparr> # R @ delim # zs)\<rparr>)"
    using e al nz rm_shift_run [of R L "\<lparr>m_size = 0, m_addr = m_addr e + sz\<rparr>" zs]
    by (subst rmalloc_from.simps) (auto simp: ents Let_def rm_takes_def rm_interleaved_def w)
  finally show ?thesis .
qed


lemma rmalloc_plain_spec:
  assumes ents: "rm_ents mp = L @ e # R @ delim # replicate k delim" and ok: "seg_ok (L @ e # R)"
    and lim: "m_limit mp = length (L @ e # R) + Suc k" "2 \<le> m_limit mp" and sz: "0 < sz"
    and L: "\<forall>x\<in>set L. \<not> rm_takes cf sz x" and e: "rm_takes cf sz e" "\<not> rm_interleaved cf e"
    and al: "is_swapmap cf \<longrightarrow> m_addr e smod CLSIZE = 0"
  shows "\<exists>mp'. rmalloc_from cf mp sz 0 = Inr (m_addr e, mp') \<and> rm_wf mp' \<and> m_limit mp' = m_limit mp
     \<and> rm_lost mp' = rm_lost mp \<and> rm_free mp' = segs_free (L @ e # R) - span (m_addr e) sz"
proof -
  have nz: "\<forall>x\<in>set (L @ e # R). m_size x \<noteq> 0" using ok by (rule seg_ok_nonzero)
  have dis: "segs_free (L @ R) \<inter> seg_span e = {}" using ok by (rule seg_ok_disjoint)
  have ge: "sz \<le> m_size e" using e by (simp add: rm_takes_def)
  have w: "wrap32 (m_addr e + sz) = m_addr e + sz" using ok ge sz by (simp add: seg_ok_simps)
  let ?e = "\<lparr>m_size = m_size e - sz, m_addr = m_addr e + sz\<rparr>"
  let ?segs = "if m_size e = sz then L @ R else L @ ?e # R"
  let ?k = "if m_size e = sz then Suc k else k"
  let ?mp = "mp\<lparr>rm_ents := ?segs @ delim # replicate ?k delim\<rparr>"
  have ok': "seg_ok ?segs" using ok ge sz by (auto simp: seg_ok_simps)
  have "rm_wf ?mp" using ok' lim by (intro rm_wfI [of _ ?segs ?k]) auto
  moreover have "rm_segs ?mp = ?segs" using ok' by (intro rm_segs_eq) auto
  moreover have "segs_free ?segs = segs_free (L @ e # R) - span (m_addr e) sz"
    using dis ge sz by (auto simp: seg_span_def)
  moreover have "rmalloc_from cf mp sz 0 = Inr (m_addr e, ?mp)"
    using rmalloc_plain [OF ents nz L e al w] by simp
  ultimately show ?thesis by (simp add: rm_free_segs)
qed

text \<open>A contiguous run of free units always lies inside one segment: free runs are coalesced.\<close>

lemma seg_ok_run:
  assumes ok: "seg_ok segs" and sub: "span b sz \<subseteq> segs_free segs" and sz: "0 < sz"
  obtains e where "e \<in> set segs" "m_addr e \<le> b" "b + sz \<le> m_addr e + m_size e"
proof -
  have "b \<in> span b sz" using sz by simp
  with sub have "b \<in> segs_free segs" by (rule subsetD)
  then obtain e where e: "e \<in> set segs" "b \<in> seg_span e" by (auto simp: segs_free_def)
  have "b + sz \<le> m_addr e + m_size e"
  proof (rule ccontr)
    assume "\<not> ?thesis"
    then have "m_addr e + m_size e \<in> span b sz" using e by (auto simp: seg_span_def)
    then obtain f where f: "f \<in> set segs" "m_addr e + m_size e \<in> seg_span f"
      using sub by (auto simp: segs_free_def)
    then have "e \<noteq> f" by (auto simp: seg_span_def)
    with e(1) f(1) obtain xs ys where
      "segs = xs @ e # ys \<and> (f \<in> set xs \<or> f \<in> set ys)"
      by (metis Un_iff set_ConsD set_append split_list)
    with ok f(2) e(2) show False by (auto simp: seg_ok_simps seg_span_def)
  qed
  with e that show thesis by (auto simp: seg_span_def)
qed

lemma rmalloc_spec:
  assumes wf: "rm_wf mp" and sz: "0 < sz" and nswap: "\<not> is_swapmap cf"
  shows "if \<exists>b. span b sz \<subseteq> rm_free mp
    then \<exists>a mp'. rmalloc cf mp sz = Inr (a, mp') \<and> 0 < a \<and> span a sz \<subseteq> rm_free mp
           \<and> rm_wf mp' \<and> m_limit mp' = m_limit mp \<and> rm_lost mp' = rm_lost mp
           \<and> rm_free mp' = rm_free mp - span a sz \<and> (\<forall>b. span b sz \<subseteq> rm_free mp \<longrightarrow> a \<le> b)
    else rmalloc cf mp sz = Inr (0, mp)"
proof -
  from wf obtain k where ents: "rm_ents mp = rm_segs mp @ delim # replicate k delim"
    and ok: "seg_ok (rm_segs mp)" and lim: "m_limit mp = length (rm_segs mp) + Suc k" "2 \<le> m_limit mp"
    by (rule rm_wfE)
  have takes: "rm_takes cf sz e \<longleftrightarrow> sz \<le> m_size e" "\<not> rm_interleaved cf e" for e
    using nswap by (auto simp: rm_takes_def rm_interleaved_def)
  have eq: "rmalloc cf mp sz = rmalloc_from cf mp sz 0" using sz nswap by (simp add: rmalloc_def)
  show ?thesis
  proof (cases "\<exists>e\<in>set (rm_segs mp). rm_takes cf sz e")
    case False
    have "\<nexists>b. span b sz \<subseteq> rm_free mp"
    proof
      assume "\<exists>b. span b sz \<subseteq> rm_free mp"
      then obtain b where "span b sz \<subseteq> segs_free (rm_segs mp)" by (auto simp: rm_free_segs)
      from seg_ok_run [OF ok this sz] obtain f where f: "f \<in> set (rm_segs mp)" "m_addr f \<le> b"
        "b + sz \<le> m_addr f + m_size f" .
      then have "rm_takes cf sz f" by (simp add: takes(1))
      with False f(1) show False by blast
    qed
    moreover have "rmalloc cf mp sz = Inr (0, mp)"
      unfolding eq using False seg_ok_nonzero [OF ok] by (intro rmalloc_none [OF ents]) blast
    ultimately show ?thesis by simp
  next
    case True
    from first_takesE [OF True] obtain L e R where segs: "rm_segs mp = L @ e # R"
      and e: "rm_takes cf sz e" and L: "\<forall>x\<in>set L. \<not> rm_takes cf sz x" .
    have in_free: "span (m_addr e) sz \<subseteq> rm_free mp" and pos: "0 < m_addr e"
      using e ok by (auto simp: rm_free_segs segs seg_span_def takes seg_ok_simps)
    have least: "m_addr e \<le> b" if "span b sz \<subseteq> rm_free mp" for b
    proof -
      from seg_ok_run [OF ok that [unfolded rm_free_segs] sz] obtain f where
        f: "f \<in> set (L @ e # R)" "m_addr f \<le> b" "b + sz \<le> m_addr f + m_size f"
        by (auto simp: segs)
      then have "rm_takes cf sz f" by (simp add: takes)
      with f L have "f \<in> set (e # R)" by auto
      then have "m_addr e \<le> m_addr f" using ok by (auto simp: segs seg_ok_simps)
      with f show ?thesis by simp
    qed
    have "\<exists>mp'. rmalloc_from cf mp sz 0 = Inr (m_addr e, mp') \<and> rm_wf mp' \<and> m_limit mp' = m_limit mp
       \<and> rm_lost mp' = rm_lost mp \<and> rm_free mp' = segs_free (L @ e # R) - span (m_addr e) sz"
      using ents ok lim sz L e nswap takes(2) segs by (intro rmalloc_plain_spec) auto
    with in_free pos least show ?thesis by (auto simp: eq rm_free_segs segs)
  qed
qed


subsection \<open>The interleaved swap map\<close>

lemma same_chunk:
  assumes "0 < d" "0 < s" "a mod d + s \<le> (d :: int)"
  shows "(a + s - 1) div d = a div d"
proof (rule int_div_pos_eq)
  show "a + s - 1 = d * (a div d) + (a mod d + s - 1)" by simp
  show "0 \<le> a mod d + s - 1" using assms pos_mod_sign [of d a] by linarith
  show "a mod d + s - 1 < d" using assms by simp
qed

lemma rm_first_pos:
  assumes "0 < dmmax cf" "0 < m_addr e"
  shows "rm_first cf e = dmmax cf - m_addr e mod dmmax cf" "0 < rm_first cf e"
    "(m_addr e + rm_first cf e) mod dmmax cf = 0"
proof -
  show *: "rm_first cf e = dmmax cf - m_addr e mod dmmax cf" using assms by (simp add: smod_nonneg)
  show "0 < rm_first cf e" using assms(1) unfolding * by simp
  have "m_addr e + rm_first cf e = dmmax cf * (m_addr e div dmmax cf + 1)"
    unfolding * by (simp add: algebra_simps)
  then show "(m_addr e + rm_first cf e) mod dmmax cf = 0" by simp
qed

lemma rmalloc_interleaved:
  assumes ents: "rm_ents mp = L @ e # R @ delim # replicate k delim" and ok: "seg_ok (L @ e # R)"
    and lim: "m_limit mp = length (L @ e # R) + Suc k" "2 \<le> m_limit mp" and sz: "0 < sz"
    and L: "\<forall>x\<in>set L. \<not> rm_takes cf sz x" and e: "rm_takes cf sz e" "rm_interleaved cf e"
    and d: "0 < dmmax cf"
  defines "a \<equiv> m_addr e + rm_first cf e"
  shows "\<exists>mp'. rmalloc_from cf mp sz 0 = Inr (a, mp') \<and> rm_wf mp'
     \<and> span a sz \<subseteq> segs_free (L @ e # R)
     \<and> rm_free mp' \<subseteq> segs_free (L @ e # R) - span a sz
     \<and> (rm_lost mp' = rm_lost mp \<longrightarrow> rm_free mp' = segs_free (L @ e # R) - span a sz)"
proof -
  let ?f = "rm_first cf e"
  let ?e = "e\<lparr>m_size := ?f\<rparr>" and ?rest = "m_size e - ?f - sz"
  define mp1 where "mp1 = mp\<lparr>rm_ents := (L @ ?e # R) @ delim # replicate k delim\<rparr>"
  have f: "0 < ?f" using rm_first_pos(2) [OF d] ok by (auto simp: seg_ok_simps)
  have ge: "?f + sz \<le> m_size e" using e by (simp add: rm_takes_def)
  have nz: "\<forall>x\<in>set (L @ e # R). m_size x \<noteq> 0" using ok by (rule seg_ok_nonzero)
  have eb: "0 < m_addr e" "m_addr e + m_size e \<le> maxint" using ok by (simp_all add: seg_ok_simps)
  have w: "wrap32 (m_addr e + ?f) = m_addr e + ?f" "wrap32 (m_addr e + ?f + sz) = m_addr e + ?f + sz"
    using eb f ge sz by (intro wrap32_id; linarith)+
  have ok': "seg_ok (L @ ?e # R)" using ok f ge sz by (auto simp: seg_ok_simps)
  have wf: "rm_wf mp1" using ok' lim by (intro rm_wfI [of _ "L @ ?e # R" k]) (auto simp: mp1_def)
  have segs: "rm_segs mp1 = L @ ?e # R" using ok' by (intro rm_segs_eq) (auto simp: mp1_def)
  have dis: "segs_free (L @ R) \<inter> seg_span e = {}" using ok by (rule seg_ok_disjoint)
  have "rmalloc_from cf mp sz 0 = rmalloc_from cf mp sz (length L)"
    using ents nz L by (intro rmalloc_skip_to) auto
  also have "\<dots> = (if ?rest \<noteq> 0
      then kbind (rmfree cf mp1 ?rest (a + sz)) (\<lambda>mp''. Inr (a, mp'')) else Inr (a, mp1))"
    using e ge nz by (subst rmalloc_from.simps)
       (auto simp: ents Let_def rm_takes_def rm_interleaved_def a_def mp1_def w)
  finally have run: "rmalloc_from cf mp sz 0 = (if ?rest \<noteq> 0
      then kbind (rmfree cf mp1 ?rest (a + sz)) (\<lambda>mp''. Inr (a, mp'')) else Inr (a, mp1))" .
  have sub: "span a sz \<subseteq> segs_free (L @ e # R)"
    using f ge by (auto simp: a_def seg_span_def)
  have eq: "rm_free mp1 \<union> span (a + sz) ?rest = segs_free (L @ e # R) - span a sz"
    using dis f ge sz by (auto simp: rm_free_segs segs a_def seg_span_def)
  have lost: "rm_lost mp1 = rm_lost mp" by (simp add: mp1_def)
  show ?thesis
  proof (cases "?rest = 0")
    case True
    with run wf sub eq lost show ?thesis by auto
  next
    case False
    have dis': "rm_free mp1 \<inter> span (a + sz) ?rest = {}"
      using dis f ge sz by (auto simp: rm_free_segs segs a_def seg_span_def)
    have "0 < a + sz" using ok f sz by (auto simp: a_def seg_ok_simps)
    moreover have "a + sz + ?rest \<le> maxint" using eb by (simp add: a_def)
    ultimately obtain mp' where
      "rmfree cf mp1 ?rest (a + sz) = Inr mp'" "rm_new_segs mp1 mp' (rm_free mp1 \<union> span (a + sz) ?rest)"
      using rmfree_spec [OF wf, of "a + sz" ?rest cf] dis' False ge by auto
    with run False sub eq lost show ?thesis by (auto simp: rm_new_segs_def)
  qed
qed

lemma rmalloc_from_plain_aligned:
  assumes ents: "rm_ents mp = L @ e # R @ delim # zs" and nz: "\<forall>x\<in>set (L @ e # R). m_size x \<noteq> 0"
    and L: "\<forall>x\<in>set L. \<not> rm_takes cf sz x" and e: "rm_takes cf sz e" "\<not> rm_interleaved cf e"
    and res: "rmalloc_from cf mp sz 0 = Inr r"
  shows "is_swapmap cf \<longrightarrow> m_addr e smod CLSIZE = 0"
proof (rule ccontr)
  assume neg: "\<not> ?thesis"
  have "rmalloc_from cf mp sz 0 = rmalloc_from cf mp sz (length L)"
    using ents nz L by (intro rmalloc_skip_to) auto
  moreover have "rmalloc_from cf mp sz (length L) \<noteq> Inr r"
    using neg e nz rm_shift_run [of R L "\<lparr>m_size = 0, m_addr = wrap32 (m_addr e + sz)\<rparr>" zs]
    by (subst rmalloc_from.simps) (auto simp: ents Let_def rm_takes_def rm_interleaved_def)
  ultimately show False using res by simp
qed

lemma rmalloc_swap_spec:
  assumes wf: "rm_wf mp" and cf: "is_swapmap cf" "1 < nswdev cf" "0 < dmmax cf"
    and sz: "0 < sz" "sz \<le> dmmax cf"
    and res: "rmalloc cf mp sz = Inr (a, mp')" "a \<noteq> 0"
  shows "(a + sz - 1) div dmmax cf = a div dmmax cf \<and> span a sz \<subseteq> rm_free mp \<and> rm_wf mp'
     \<and> rm_free mp' \<subseteq> rm_free mp - span a sz
     \<and> (rm_lost mp' = rm_lost mp \<longrightarrow> rm_free mp' = rm_free mp - span a sz)"
proof -
  from wf obtain k where ents: "rm_ents mp = rm_segs mp @ delim # replicate k delim"
    and ok: "seg_ok (rm_segs mp)" and lim: "m_limit mp = length (rm_segs mp) + Suc k" "2 \<le> m_limit mp"
    by (rule rm_wfE)
  have run: "rmalloc_from cf mp sz 0 = Inr (a, mp')" using res(1) sz by (simp add: rmalloc_def)
  have "\<exists>e\<in>set (rm_segs mp). rm_takes cf sz e"
  proof (rule ccontr)
    assume "\<not> ?thesis"
    then have "rmalloc_from cf mp sz 0 = Inr (0, mp)"
      using seg_ok_nonzero [OF ok] by (intro rmalloc_none [OF ents]) blast
    with run res(2) show False by simp
  qed
  then obtain L e R where segs: "rm_segs mp = L @ e # R"
    and e: "rm_takes cf sz e" and L: "\<forall>x\<in>set L. \<not> rm_takes cf sz x" by (rule first_takesE)
  have pos: "0 < m_addr e" and ok': "seg_ok (L @ e # R)" using ok by (auto simp: segs seg_ok_simps)
  have ents': "rm_ents mp = L @ e # R @ delim # replicate k delim" using ents segs by simp
  have lim': "m_limit mp = length (L @ e # R) + Suc k" using lim segs by simp
  note f = rm_first_pos [OF cf(3) pos]
  show ?thesis
  proof (cases "rm_interleaved cf e")
    case True
    from rmalloc_interleaved [OF ents' ok' lim' lim(2) sz(1) L e True cf(3)] run
    have "a = m_addr e + rm_first cf e" by auto
    moreover from this have "(a + sz - 1) div dmmax cf = a div dmmax cf"
      using f(3) sz cf(3) by (intro same_chunk) simp_all
    ultimately show ?thesis
      using rmalloc_interleaved [OF ents' ok' lim' lim(2) sz(1) L e True cf(3)] run
      by (auto simp: rm_free_segs segs)
  next
    case False
    have al: "is_swapmap cf \<longrightarrow> m_addr e smod CLSIZE = 0"
      using ents' seg_ok_nonzero [OF ok'] L e False run by (rule rmalloc_from_plain_aligned)
    from rmalloc_plain_spec [OF ents' ok' lim' lim(2) sz(1) L e False al] run
    have a: "a = m_addr e" and rest: "rm_wf mp'" "rm_free mp' = segs_free (L @ e # R) - span a sz"
      by auto
    have ge: "sz \<le> m_size e" using e by (simp add: rm_takes_def)
    have "m_size e \<le> rm_first cf e" using False cf by (auto simp: rm_interleaved_def)
    then have "(a + sz - 1) div dmmax cf = a div dmmax cf"
      using f(1) ge sz cf(3) a by (intro same_chunk) simp_all
    moreover have "span a sz \<subseteq> segs_free (L @ e # R)" using ge a by (auto simp: seg_span_def)
    ultimately show ?thesis using rest by (auto simp: rm_free_segs segs)
  qed
qed


section \<open>Allocation at a given address\<close>

lemma rmget_middle:
  assumes ents: "rm_ents mp = L @ e # R @ delim # delim # replicate k delim"
    and nz: "\<forall>x\<in>set (e # R). m_size x \<noteq> 0" and lim: "m_limit mp = length (rm_ents mp)"
    and f: "rm_contains (rm_ents mp) addr 0 = Inr (length L)"
    and pos: "0 < sz" "\<not> is_swapmap cf"
    and mid: "m_addr e < addr" "addr + sz < m_addr e + m_size e" and eb: "0 < m_addr e" "m_addr e + m_size e \<le> maxint"
  shows "rmget cf mp sz addr = Inr (addr, mp\<lparr>rm_ents := L @ e\<lparr>m_size := addr - m_addr e\<rparr>
     # \<lparr>m_size = m_addr e + m_size e - (addr + sz), m_addr = addr + sz\<rparr> # R @ delim # replicate k delim\<rparr>)"
proof -
  have len: "rm_end (rm_ents mp) (length L) = Inr (length L + length (e # R))"
    using rm_end_run [of "e # R" L "delim # replicate k delim"] nz by (simp add: ents)
  have opn: "rm_open (rm_ents mp) (length L) (length L + length (e # R))
      = Inr (L @ e # hd (R @ [delim]) # R @ delim # replicate k delim)"
    using rm_open_run [of L e "R @ [delim]" delim "replicate k delim"]
    by (cases R) (simp_all add: ents)
  show ?thesis
    using f len opn mid pos nz lim eb
    by (cases R) (auto simp: rmget_def ents Let_def)
qed

definition rm_got :: "rmap \<Rightarrow> rmap \<Rightarrow> int \<Rightarrow> int \<Rightarrow> bool" where
  "rm_got mp mp' sz addr \<longleftrightarrow> span addr sz \<subseteq> rm_free mp \<and> rm_wf mp' \<and> m_limit mp' = m_limit mp
     \<and> rm_lost mp' = rm_lost mp \<and> rm_free mp' = rm_free mp - span addr sz"

text \<open>Replacing segment \<open>e\<close> by the pieces \<open>M\<close> that are left of it.\<close>

lemma rm_got_update:
  assumes segs: "rm_segs mp = L @ e # R" and ok: "seg_ok (L @ e # R)"
    and lim: "m_limit mp = length (L @ M @ R) + Suc j" "2 \<le> m_limit mp" and ok': "seg_ok (L @ M @ R)"
    and M: "segs_free M = seg_span e - span addr sz" and sub: "span addr sz \<subseteq> seg_span e"
  shows "rm_got mp (mp\<lparr>rm_ents := (L @ M @ R) @ delim # replicate j delim\<rparr>) sz addr"
proof -
  let ?mp = "mp\<lparr>rm_ents := (L @ M @ R) @ delim # replicate j delim\<rparr>"
  have dis: "segs_free (L @ R) \<inter> seg_span e = {}" using ok by (rule seg_ok_disjoint)
  have wf: "rm_wf ?mp" by (rule rm_wfI [of _ "L @ M @ R" j]) (use ok' lim in simp_all)
  have segs': "rm_segs ?mp = L @ M @ R" by (rule rm_segs_eq [OF _ ok']) simp
  have "segs_free (L @ M @ R) = segs_free (L @ e # R) - span addr sz"
    using dis sub unfolding segs_free_simps M by blast
  moreover have "span addr sz \<subseteq> segs_free (L @ e # R)" using sub by auto
  ultimately show ?thesis using wf 
    unfolding rm_got_def rm_free_segs segs segs' by simp
qed

lemma rmget_found:
  assumes ents: "rm_ents mp = L @ e # R @ delim # replicate k delim"
    and segs: "rm_segs mp = L @ e # R" and ok: "seg_ok (L @ e # R)"
    and lim: "m_limit mp = length (L @ e # R) + Suc k" "2 \<le> m_limit mp"
    and f: "rm_contains (rm_ents mp) addr 0 = Inr (length L)"
    and sz: "0 < sz" and nswap: "\<not> is_swapmap cf"
    and e: "m_addr e \<le> addr" "addr + sz \<le> m_addr e + m_size e"
  shows "(\<exists>mp'. rmget cf mp sz addr = Inr (addr, mp') \<and> rm_got mp mp' sz addr)
       \<or> rmget cf mp sz addr = Inr (0, mp) \<and> length (rm_segs mp) + 1 = m_limit mp"
proof -
  have nz: "\<forall>x\<in>set (L @ e # R). m_size x \<noteq> 0" using ok by (rule seg_ok_nonzero)
  have sub: "span addr sz \<subseteq> seg_span e" using e by (auto simp: seg_span_def)
  have eb: "0 < m_addr e" "0 < m_size e" "m_addr e + m_size e \<le> maxint" using ok by (simp_all add: seg_ok_simps)
  consider (all) "m_addr e = addr" "m_addr e + m_size e = addr + sz"
    | (first) "m_addr e = addr" "addr + sz < m_addr e + m_size e"
    | (last) "m_addr e < addr" "m_addr e + m_size e = addr + sz"
    | (mid) "m_addr e < addr" "addr + sz < m_addr e + m_size e"
    using e by linarith
  then show ?thesis
  proof cases
    case all
    have "rmget cf mp sz addr = Inr (addr, mp\<lparr>rm_ents := (L @ [] @ R) @ delim # replicate (Suc k) delim\<rparr>)"
      using f nz all sz nswap eb rm_compress_run [of e R L "replicate k delim"]
      by (simp add: rmget_def Let_def ents)
    moreover have "rm_got mp (mp\<lparr>rm_ents := (L @ [] @ R) @ delim # replicate (Suc k) delim\<rparr>) sz addr"
      using ok lim all sub
      by (intro rm_got_update [OF segs ok]) (auto simp: seg_ok_simps seg_span_def)
    ultimately show ?thesis by blast
  next
    case first
    let ?M = "[\<lparr>m_size = m_size e - sz, m_addr = m_addr e + sz\<rparr>]"
    have "rmget cf mp sz addr = Inr (addr, mp\<lparr>rm_ents := (L @ ?M @ R) @ delim # replicate k delim\<rparr>)"
      using f nz first sz nswap eb by (simp add: rmget_def Let_def ents)
    moreover have "rm_got mp (mp\<lparr>rm_ents := (L @ ?M @ R) @ delim # replicate k delim\<rparr>) sz addr"
      using ok lim first sub sz
      by (intro rm_got_update [OF segs ok]) (auto simp: seg_ok_simps seg_span_def)
    ultimately show ?thesis by blast
  next
    case last
    let ?M = "[e\<lparr>m_size := m_size e - sz\<rparr>]"
    have "rmget cf mp sz addr = Inr (addr, mp\<lparr>rm_ents := (L @ ?M @ R) @ delim # replicate k delim\<rparr>)"
      using f nz last sz nswap eb by (simp add: rmget_def Let_def ents)
    moreover have "rm_got mp (mp\<lparr>rm_ents := (L @ ?M @ R) @ delim # replicate k delim\<rparr>) sz addr"
      using ok lim last sub sz
      by (intro rm_got_update [OF segs ok]) (auto simp: seg_ok_simps seg_span_def)
    ultimately show ?thesis by blast
  next
    case mid
    show ?thesis
    proof (cases k)
      case 0
      have "rm_end (rm_ents mp) (length L) = Inr (length L + length (e # R))"
        using rm_end_run [of "e # R" L "replicate k delim"] nz by (simp add: ents)
      then have "rmget cf mp sz addr = Inr (0, mp)"
        using f nz mid sz nswap lim 0 eb by (simp add: rmget_def Let_def ents)
      with 0 lim segs show ?thesis by simp
    next
      case (Suc j)
      let ?M = "[e\<lparr>m_size := addr - m_addr e\<rparr>,
        \<lparr>m_size = m_addr e + m_size e - (addr + sz), m_addr = addr + sz\<rparr>]"
      have "rmget cf mp sz addr = Inr (addr, mp\<lparr>rm_ents := (L @ ?M @ R) @ delim # replicate j delim\<rparr>)"
        using rmget_middle [of mp L e R j addr sz cf] f nz mid sz nswap lim Suc eb by (simp add: ents)
      moreover have "rm_got mp (mp\<lparr>rm_ents := (L @ ?M @ R) @ delim # replicate j delim\<rparr>) sz addr"
        using ok lim mid sub sz Suc
        by (intro rm_got_update [OF segs ok]) (auto simp: seg_ok_simps seg_span_def)
      ultimately show ?thesis by blast
    qed
  qed
qed

lemma rmget_spec:
  assumes wf: "rm_wf mp" and sz: "0 < sz" and nswap: "\<not> is_swapmap cf" and fit: "addr + sz \<le> maxint"
  shows "(\<exists>mp'. rmget cf mp sz addr = Inr (addr, mp') \<and> rm_got mp mp' sz addr)
       \<or> rmget cf mp sz addr = Inr (0, mp)
         \<and> (\<not> span addr sz \<subseteq> rm_free mp \<or> length (rm_segs mp) + 1 = m_limit mp)"
proof -
  from wf obtain k where ents: "rm_ents mp = rm_segs mp @ delim # replicate k delim"
    and ok: "seg_ok (rm_segs mp)" and lim: "m_limit mp = length (rm_segs mp) + Suc k" "2 \<le> m_limit mp"
    by (rule rm_wfE)
  let ?P = "\<lambda>e. m_addr e \<le> addr \<and> m_addr e + m_size e > addr"
  have run_in: "\<exists>e\<in>set (rm_segs mp). ?P e \<and> addr + sz \<le> m_addr e + m_size e"
    if "span addr sz \<subseteq> rm_free mp"
    using seg_ok_run [OF ok that [unfolded rm_free_segs] sz] sz by (metis less_add_same_cancel1 order_less_le_trans)
  show ?thesis
  proof (cases "\<exists>e\<in>set (rm_segs mp). ?P e")
    case False
    have "\<forall>e\<in>set (rm_segs mp). m_size e \<noteq> 0 \<and> \<not> (m_addr e \<le> addr \<and> wrap32 (m_addr e + m_size e) > addr)"
      using seg_ok_nonzero [OF ok] False seg_ok_wrap [OF ok] by simp
    from rm_contains_run [OF this, of delim "[]" "replicate k delim"]
    have "rm_contains (rm_ents mp) addr 0 = Inr (length (rm_segs mp))" by (subst ents) simp
    moreover have "aget (rm_ents mp) (length (rm_segs mp)) = Inr delim" by (subst ents) simp
    ultimately have "rmget cf mp sz addr = Inr (0, mp)"
      using sz nswap by (simp add: rmget_def Let_def)
    moreover have "\<not> span addr sz \<subseteq> rm_free mp" using run_in False by blast
    ultimately show ?thesis by blast
  next
    case True
    then obtain L e R where segs: "rm_segs mp = L @ e # R" and e: "?P e" and L: "\<forall>x\<in>set L. \<not> ?P x"
      using split_list_first_prop [of "rm_segs mp" ?P] by blast
    have ents': "rm_ents mp = L @ e # R @ delim # replicate k delim" using ents segs by simp
    have ok': "seg_ok (L @ e # R)" and nz: "\<forall>x\<in>set (L @ e # R). m_size x \<noteq> 0"
      using seg_ok_nonzero [OF ok] segs ok by simp_all
    have w: "\<forall>x\<in>set (L @ e # R). wrap32 (m_addr x + m_size x) = m_addr x + m_size x" using seg_ok_wrap [OF ok'] by blast
    have eb: "0 < m_addr e" using ok' by (simp add: seg_ok_simps)
    have f: "rm_contains (rm_ents mp) addr 0 = Inr (length L)"
      using rm_contains_run [of L addr e "[]"] nz L e ents' w by simp
    show ?thesis
    proof (cases "addr + sz \<le> m_addr e + m_size e")
      case True
      from rmget_found [OF ents' segs ok' _ lim(2) f sz nswap _ True] e lim(1) segs show ?thesis by auto
    next
      case False
      have "rmget cf mp sz addr = Inr (0, mp)"
        using f nz False sz nswap w fit e eb by (simp add: rmget_def Let_def ents')
      moreover have "\<not> span addr sz \<subseteq> rm_free mp"
      proof
        assume "span addr sz \<subseteq> rm_free mp"
        then obtain f where "f \<in> set (L @ e # R)" "?P f" "addr + sz \<le> m_addr f + m_size f"
          using run_in segs by auto
        with ok' e False sz show False by (auto simp: seg_ok_simps)
      qed
      ultimately show ?thesis by blast
    qed
  qed
qed


section \<open>The contract of a region allocator\<close>

text \<open>
  Clients of a map (the swap code, \<^verbatim>\<open>m_clalloc\<close>, the user page table code) hold regions they
  were given and return them later. A run of such a client, over any allocator: it may ask
  for any positive size at any time and give back any region it holds.
\<close>

inductive client_run ::
  "('s \<Rightarrow> int \<Rightarrow> (int \<times> 's) kern) \<Rightarrow> ('s \<Rightarrow> int \<Rightarrow> int \<Rightarrow> 's kern) \<Rightarrow> 's \<Rightarrow> 's \<Rightarrow> (int \<times> int) list \<Rightarrow> bool"
  for alloc :: "'s \<Rightarrow> int \<Rightarrow> (int \<times> 's) kern" and release :: "'s \<Rightarrow> int \<Rightarrow> int \<Rightarrow> 's kern" and s0 :: 's
where
  start: "client_run alloc release s0 s0 []"
| gets: "client_run alloc release s0 s held \<Longrightarrow> 0 < n \<Longrightarrow> alloc s n = Inr (a, s') \<Longrightarrow> a \<noteq> 0 \<Longrightarrow>
     client_run alloc release s0 s' ((a, n) # held)"
| refused: "client_run alloc release s0 s held \<Longrightarrow> 0 < n \<Longrightarrow> alloc s n = Inr (0, s') \<Longrightarrow>
     client_run alloc release s0 s' held"
| gives: "client_run alloc release s0 s held \<Longrightarrow> (a, n) \<in> set held \<Longrightarrow> release s n a = Inr s' \<Longrightarrow>
     client_run alloc release s0 s' (remove1 (a, n) held)"

abbreviation region :: "int \<times> int \<Rightarrow> int set" where
  "region r \<equiv> span (fst r) (snd r)"

locale region_allocator =
  fixes top :: int and inv :: "'s \<Rightarrow> bool" and free :: "'s \<Rightarrow> int set"
    and alloc :: "'s \<Rightarrow> int \<Rightarrow> (int \<times> 's) kern"
    and release :: "'s \<Rightarrow> int \<Rightarrow> int \<Rightarrow> 's kern"
  assumes alloc_some: "\<lbrakk>inv s; 0 < n; alloc s n = Inr (a, s'); a \<noteq> 0\<rbrakk> \<Longrightarrow>
      inv s' \<and> 0 < a \<and> a + n \<le> top \<and> span a n \<subseteq> free s \<and> free s' = free s - span a n"
    and alloc_none: "\<lbrakk>inv s; 0 < n; alloc s n = Inr (0, s')\<rbrakk> \<Longrightarrow> s' = s"
    and release_total: "\<lbrakk>inv s; 0 < a; 0 < n; a + n \<le> top; free s \<inter> span a n = {}\<rbrakk> \<Longrightarrow> \<exists>s'. release s n a = Inr s'"
    and release_some: "\<lbrakk>inv s; 0 < a; 0 < n; a + n \<le> top; release s n a = Inr s'\<rbrakk> \<Longrightarrow>
      inv s' \<and> free s' \<subseteq> free s \<union> span a n"
begin

lemma client_invariant:
  assumes "client_run alloc release s0 s held" "inv s0"
  shows "inv s \<and> free s \<subseteq> free s0
    \<and> (\<forall>r\<in>set held. 0 < fst r \<and> 0 < snd r \<and> fst r + snd r \<le> top \<and> region r \<subseteq> free s0 \<and> region r \<inter> free s = {})
    \<and> sorted_wrt (\<lambda>r q. region r \<inter> region q = {}) held"
  using assms
proof (induction rule: client_run.induct)
  case start
  then show ?case by simp
next
  case (gets s held n a s')
  note IH = gets.IH [OF gets.prems]
  from alloc_some [OF _ gets.hyps(2,3,4)] IH
  have new: "inv s'" "0 < a" "a + n \<le> top" "span a n \<subseteq> free s" "free s' = free s - span a n" by auto
  have "\<forall>r\<in>set held. span a n \<inter> region r = {} \<and> region r \<inter> free s' = {}"
    using IH new by blast
  with IH new gets.hyps(2) show ?case by auto
next
  case (refused s held n s')
  with alloc_none [OF _ refused.hyps(2,3)] show ?case by auto
next
  case (gives s held a n s')
  note IH = gives.IH [OF gives.prems]
  from IH have "\<forall>r\<in>set held. 0 < fst r \<and> 0 < snd r \<and> fst r + snd r \<le> top \<and> region r \<subseteq> free s0" by blast
  from bspec [OF this gives.hyps(2)] have r: "0 < a" "0 < n" "a + n \<le> top" "span a n \<subseteq> free s0" by simp_all
  from release_some [OF _ r(1-3) gives.hyps(3)] IH
  have new: "inv s'" "free s' \<subseteq> free s \<union> span a n" by auto
  obtain xs ys where held: "held = xs @ (a, n) # ys" and "(a, n) \<notin> set xs"
    using gives.hyps(2) by (meson split_list_first)
  then have rem: "remove1 (a, n) held = xs @ ys" by (simp add: remove1_append)
  have "sorted_wrt (\<lambda>r q. region r \<inter> region q = {}) (xs @ (a, n) # ys)" using IH held by simp
  then have apart: "\<forall>r\<in>set (xs @ ys). region r \<inter> span a n = {}"
    "sorted_wrt (\<lambda>r q. region r \<inter> region q = {}) (xs @ ys)"
    by (auto simp: sorted_wrt_append)
  have keep: "\<forall>r\<in>set (xs @ ys). 0 < fst r \<and> 0 < snd r \<and> fst r + snd r \<le> top \<and> region r \<subseteq> free s0 \<and> region r \<inter> free s = {}"
    using IH held by auto
  have "\<forall>r\<in>set (xs @ ys). region r \<inter> free s' = {}" using apart(1) keep new(2) by blast
  with new r keep IH apart(2) show ?case unfolding rem by blast
qed

text \<open>A client that gives back only what it holds never brings the system down.\<close>

lemma client_release_succeeds:
  assumes "client_run alloc release s0 s held" "inv s0" "(a, n) \<in> set held"
  shows "\<exists>s'. release s n a = Inr s'"
proof -
  have "\<forall>r\<in>set held. 0 < fst r \<and> 0 < snd r \<and> fst r + snd r \<le> top \<and> region r \<inter> free s = {}"
    using client_invariant [OF assms(1,2)] by blast
  from bspec [OF this assms(3)] have "0 < a" "0 < n" "a + n \<le> top" "free s \<inter> span a n = {}" by (simp_all add: Int_commute)
  moreover have "inv s" using client_invariant [OF assms(1,2)] by blast
  ultimately show ?thesis by (intro release_total)
qed

end

text \<open>The maps other than the swap map, with \<open>rmalloc\<close> and \<open>rmfree\<close>, meet the contract.\<close>

definition plain_conf :: rmconf where
  "plain_conf = \<lparr>is_swapmap = False, is_kernelmap = False, dmmax = 0, nswdev = 0\<rparr>"

lemma rm_free_top:
  assumes "rm_wf mp" "0 < n" "span a n \<subseteq> rm_free mp"
  shows "a + n \<le> maxint"
proof -
  have ok: "seg_ok (rm_segs mp)" using assms(1) by (simp add: rm_wf_def)
  from seg_ok_run [OF ok assms(3) [unfolded rm_free_segs] assms(2)] obtain e
    where "e \<in> set (rm_segs mp)" "a + n \<le> m_addr e + m_size e" by auto
  with seg_ok_bounds [OF ok] show ?thesis by fastforce
qed

lemma rmalloc_some:
  assumes "rm_wf mp" "0 < n" "\<not> is_swapmap cf" "rmalloc cf mp n = Inr (a, mp')" "a \<noteq> 0"
  shows "rm_wf mp' \<and> 0 < a \<and> a + n \<le> maxint \<and> span a n \<subseteq> rm_free mp \<and> rm_free mp' = rm_free mp - span a n"
  using rmalloc_spec [OF assms(1-3)] assms(4,5) rm_free_top [OF assms(1,2), of a] by (auto split: if_splits)

lemma rmalloc_zero:
  assumes "rm_wf mp" "0 < n" "\<not> is_swapmap cf" "rmalloc cf mp n = Inr (0, mp')"
  shows "mp' = mp"
  using rmalloc_spec [OF assms(1-3)] assms(4) by (auto split: if_splits)

lemma rmfree_some:
  assumes "rm_wf mp" "0 < a" "0 < n" "a + n \<le> maxint" "rmfree cf mp n a = Inr mp'"
  shows "rm_wf mp' \<and> rm_free mp' \<subseteq> rm_free mp \<union> span a n"
  using rmfree_spec [OF assms(1-4), of cf] assms(5) by (auto simp: rm_new_segs_def split: if_splits)

lemma rmfree_total:
  "rm_wf mp \<Longrightarrow> 0 < a \<Longrightarrow> 0 < n \<Longrightarrow> a + n \<le> maxint \<Longrightarrow> rm_free mp \<inter> span a n = {} \<Longrightarrow> \<exists>mp'. rmfree cf mp n a = Inr mp'"
  using rmfree_spec [of mp a n cf] by auto

interpretation rm: region_allocator maxint rm_wf rm_free "rmalloc plain_conf" "rmfree plain_conf"
proof unfold_locales
  have plain: "\<not> is_swapmap plain_conf" by (simp add: plain_conf_def)
  show "rm_wf s' \<and> 0 < a \<and> a + n \<le> maxint \<and> span a n \<subseteq> rm_free s \<and> rm_free s' = rm_free s - span a n"
    if "rm_wf s" "0 < n" "rmalloc plain_conf s n = Inr (a, s')" "a \<noteq> 0" for s n a s'
    using that plain by (blast dest: rmalloc_some)
  show "s' = s" if "rm_wf s" "0 < n" "rmalloc plain_conf s n = Inr (0, s')" for s n s'
    using that plain by (blast dest: rmalloc_zero)
  show "\<exists>s'. rmfree plain_conf s n a = Inr s'"
    if "rm_wf s" "0 < a" "0 < n" "a + n \<le> maxint" "rm_free s \<inter> span a n = {}" for s a n
    using that by (rule rmfree_total)
  show "rm_wf s' \<and> rm_free s' \<subseteq> rm_free s \<union> span a n"
    if "rm_wf s" "0 < a" "0 < n" "a + n \<le> maxint" "rmfree plain_conf s n a = Inr s'" for s a n s'
    using that by (rule rmfree_some)
qed

section \<open>Properties\<close>

text \<open>A small map used by the witnesses: units 10 to 13 and 20 to 25 are free.\<close>

definition sample_map :: rmap where
  "sample_map = \<lparr>m_limit = 4, m_name = ''sample'',
     rm_ents = [\<lparr>m_size = 4, m_addr = 10\<rparr>, \<lparr>m_size = 6, m_addr = 20\<rparr>, delim, delim],
     kmapwnt = False, rm_wakeups = 0, rm_lost = []\<rparr>"

lemma sample_map_wf: "rm_wf sample_map"
  by (simp add: sample_map_def rm_wf_def rm_segs_def seg_ok_def)

lemma sample_map_free: "rm_free sample_map = span 10 4 \<union> span 20 6"
  by (simp add: sample_map_def rm_free_def rm_segs_def seg_span_def)

text \<open>
  C1. \<open>rmfree\<close> on a well-formed map, for a range whose end fits a 32 bit integer: it panics exactly when the returned
  range meets a range that is already free; otherwise it leaves a well-formed map whose free set is the old one plus
  the range, except that a full table (every slot but the delimiter in use) may give up one
  whole segment, and then it prints exactly that segment.
\<close>

theorem rmfree_correct:
  assumes "rm_wf mp" "0 < addr" "0 < sz" "addr + sz \<le> maxint"
  shows "if rm_free mp \<inter> span addr sz = {}
    then \<exists>mp'. rmfree cf mp sz addr = Inr mp' \<and> rm_wf mp' \<and> m_limit mp' = m_limit mp
       \<and> (rm_lost mp' = rm_lost mp \<and> rm_free mp' = rm_free mp \<union> span addr sz
          \<or> length (rm_segs mp) + 1 = m_limit mp
            \<and> (\<exists>lo hi. lo < hi \<and> rm_lost mp' = (m_name mp, lo, hi) # rm_lost mp
                 \<and> {lo..<hi} \<subseteq> rm_free mp \<union> span addr sz
                 \<and> rm_free mp' = rm_free mp \<union> span addr sz - {lo..<hi}))
    else rmfree cf mp sz addr = Inl (Panic ''bad rmfree'')"
  using rmfree_spec [OF assms, of cf] unfolding rm_new_segs_def by (auto split: if_splits)

theorem rmfree_correct_witness:
  "rm_wf sample_map \<and> rmfree plain_conf sample_map 2 12 = Inl (Panic ''bad rmfree'')
   \<and> (\<exists>mp'. rmfree plain_conf sample_map 6 14 = Inr mp' \<and> rm_free mp' = span 10 16)"
proof -
  have "12 \<in> rm_free sample_map \<inter> span 12 2" by (simp add: sample_map_free)
  then have "rm_free sample_map \<inter> span 12 2 \<noteq> {}" by blast
  moreover have "rm_free sample_map \<inter> span 14 6 = {}" by (auto simp: sample_map_free)
  moreover note rmfree_correct [OF sample_map_wf, of 14 6 plain_conf]
    rmfree_correct [OF sample_map_wf, of 12 2 plain_conf]
  ultimately have bad: "rmfree plain_conf sample_map 2 12 = Inl (Panic ''bad rmfree'')"
    and good: "\<exists>mp'. rmfree plain_conf sample_map 6 14 = Inr mp'
      \<and> rm_free mp' = rm_free sample_map \<union> span 14 6"
    by (auto simp: sample_map_def rm_segs_def)
  have "rm_free sample_map \<union> span 14 6 = span 10 16" by (auto simp: sample_map_free)
  with bad good sample_map_wf show ?thesis by simp
qed

text \<open>
  The bound on the end of the range is needed: neither routine tests for it, and the sum wraps. A range from the largest
  address on is put behind the others without a panic, though it does not exist; and \<open>rmget\<close> gives away a range that
  reaches far behind the free segment it starts in.
\<close>

lemma rmfree_wraps:
  "rmfree plain_conf sample_map 15 maxint = Inr (sample_map\<lparr>rm_ents :=
     [\<lparr>m_size = 4, m_addr = 10\<rparr>, \<lparr>m_size = 6, m_addr = 20\<rparr>, \<lparr>m_size = 15, m_addr = maxint\<rparr>, delim]\<rparr>)"
  by (simp add: rmfree_def sample_map_def plain_conf_def Let_def aget_def aset_def rm_locate.simps rm_push.simps rmfree_ovflo_def
      rmfree_done_def wrap32_def)

lemma rmget_wraps: "\<exists>mp'. rmget plain_conf sample_map maxint 12 = Inr (12, mp') \<and> \<not> rm_wf mp'"
proof -
  have "rmget plain_conf sample_map maxint 12 = Inr (12, sample_map\<lparr>rm_ents :=
     [\<lparr>m_size = 2, m_addr = 10\<rparr>, \<lparr>m_size = wrap32 (2 - maxint), m_addr = wrap32 (12 + maxint)\<rparr>, \<lparr>m_size = 6, m_addr = 20\<rparr>, delim]\<rparr>)"
    by (simp add: rmget_def sample_map_def plain_conf_def Let_def aget_def aset_def rm_contains.simps rm_end.simps rm_open.simps
        wrap32_def numeral_eq_Suc)
  then show ?thesis by (simp add: rm_wf_def rm_segs_def seg_ok_def sample_map_def wrap32_def)
qed

text \<open>
  C2. \<open>rmalloc\<close> on any map but the swap map: it fails only when no run of that many contiguous units
  is free, and then changes nothing; otherwise it returns the lowest address at which such a
  run starts, and takes exactly that run out of the free set.
\<close>

theorem rmalloc_first_fit:
  assumes "rm_wf mp" "0 < sz" "\<not> is_swapmap cf"
  shows "if \<exists>b. span b sz \<subseteq> rm_free mp
    then \<exists>a mp'. rmalloc cf mp sz = Inr (a, mp') \<and> 0 < a \<and> span a sz \<subseteq> rm_free mp
           \<and> rm_wf mp' \<and> m_limit mp' = m_limit mp \<and> rm_lost mp' = rm_lost mp
           \<and> rm_free mp' = rm_free mp - span a sz \<and> (\<forall>b. span b sz \<subseteq> rm_free mp \<longrightarrow> a \<le> b)
    else rmalloc cf mp sz = Inr (0, mp)"
  using assms by (rule rmalloc_spec)

theorem rmalloc_first_fit_witness:
  "\<exists>mp'. rmalloc plain_conf sample_map 5 = Inr (20, mp') \<and> rm_free mp' = span 10 4 \<union> span 25 1"
proof -
  have "span 20 5 \<subseteq> rm_free sample_map" by (auto simp: sample_map_free)
  with rmalloc_first_fit [OF sample_map_wf, of 5 plain_conf] obtain a mp' where
    *: "rmalloc plain_conf sample_map 5 = Inr (a, mp')" "rm_free mp' = rm_free sample_map - span a 5"
    by (auto simp: plain_conf_def split: if_splits)
  have "rmalloc plain_conf sample_map 5 = Inr (20, sample_map\<lparr>rm_ents :=
     [\<lparr>m_size = 4, m_addr = 10\<rparr>, \<lparr>m_size = 1, m_addr = 25\<rparr>, delim, delim]\<rparr>)"
    by (simp add: rmalloc_def rmalloc_from.simps sample_map_def plain_conf_def Let_def aget_def)
  with * have "a = 20" by simp
  moreover have "rm_free sample_map - span 20 5 = span 10 4 \<union> span 25 1"
    by (auto simp: sample_map_free)
  ultimately show ?thesis using * by auto
qed

text \<open>
  \<open>rmalloc\<close> on the swap map interleaved over several devices: an allocation never crosses a
  multiple of \<open>dmmax\<close>, so it lies on one device; it comes out of free space, and the space
  that stays free is what was free without it, unless the table overflowed and said so.
\<close>

theorem rmalloc_swap_one_device:
  assumes "rm_wf mp" "is_swapmap cf" "1 < nswdev cf" "0 < dmmax cf" "0 < sz" "sz \<le> dmmax cf"
    and "rmalloc cf mp sz = Inr (a, mp')" "a \<noteq> 0"
  shows "(a + sz - 1) div dmmax cf = a div dmmax cf \<and> span a sz \<subseteq> rm_free mp \<and> rm_wf mp'
     \<and> rm_free mp' \<subseteq> rm_free mp - span a sz
     \<and> (rm_lost mp' = rm_lost mp \<longrightarrow> rm_free mp' = rm_free mp - span a sz)"
  using assms by (rule rmalloc_swap_spec)

theorem rmalloc_swap_one_device_witness:
  "let cf = \<lparr>is_swapmap = True, is_kernelmap = False, dmmax = 8, nswdev = 2\<rparr>;
       mp = sample_map\<lparr>rm_ents := [\<lparr>m_size = 20, m_addr = 4\<rparr>, delim, delim, delim]\<rparr>
   in \<exists>mp'. rmalloc cf mp 6 = Inr (8, mp') \<and> span 8 6 \<subseteq> rm_free mp \<and> rm_wf mp'"
proof -
  let ?cf = "\<lparr>is_swapmap = True, is_kernelmap = False, dmmax = 8, nswdev = 2\<rparr>"
  let ?mp = "sample_map\<lparr>rm_ents := [\<lparr>m_size = 20, m_addr = 4\<rparr>, delim, delim, delim]\<rparr>"
  have wf: "rm_wf ?mp" by (simp add: sample_map_def rm_wf_def rm_segs_def seg_ok_def)
  have "(4 :: int) smod 8 = 4" by (simp add: smod_nonneg)
  then have run: "rmalloc ?cf ?mp 6 = Inr (8, sample_map\<lparr>rm_ents :=
      [\<lparr>m_size = 4, m_addr = 4\<rparr>, \<lparr>m_size = 10, m_addr = 14\<rparr>, delim, delim]\<rparr>)"
    by (simp add: rmalloc_def rmalloc_from.simps sample_map_def Let_def aget_def aset_def rmfree_def
        rm_locate.simps rm_push.simps rmfree_ovflo_def rmfree_done_def)
  from rmalloc_swap_one_device [OF wf _ _ _ _ _ run] show ?thesis by (simp add: Let_def run)
qed

text \<open>
  C3. For a range whose end fits a 32 bit integer, \<open>rmget\<close> takes exactly the requested range out of the free set and returns its address, or
  returns 0 and changes nothing; it refuses only a range that is not wholly free, or when
  the table has no slot left for the segment it would have to split.
\<close>

theorem rmget_correct:
  assumes "rm_wf mp" "0 < sz" "\<not> is_swapmap cf" "addr + sz \<le> maxint"
  shows "(\<exists>mp'. rmget cf mp sz addr = Inr (addr, mp') \<and> span addr sz \<subseteq> rm_free mp \<and> rm_wf mp'
            \<and> rm_free mp' = rm_free mp - span addr sz)
       \<or> rmget cf mp sz addr = Inr (0, mp)
         \<and> (\<not> span addr sz \<subseteq> rm_free mp \<or> length (rm_segs mp) + 1 = m_limit mp)"
  using rmget_spec [OF assms] unfolding rm_got_def by blast

theorem rmget_correct_witness:
  "\<exists>mp'. rmget plain_conf sample_map 2 22 = Inr (22, mp') \<and> rm_wf mp'
     \<and> rm_free mp' = span 10 4 \<union> span 20 2 \<union> span 24 2"
proof -
  have "span 22 2 \<subseteq> rm_free sample_map" by (auto simp: sample_map_free)
  moreover have "length (rm_segs sample_map) + 1 \<noteq> m_limit sample_map"
    by (simp add: sample_map_def rm_segs_def)
  moreover have "rm_free sample_map - span 22 2 = span 10 4 \<union> span 20 2 \<union> span 24 2"
    by (auto simp: sample_map_free)
  ultimately show ?thesis
    using rmget_correct [OF sample_map_wf, of 2 plain_conf 22] by (auto simp: plain_conf_def)
qed

text \<open>
  C4. Any interleaving of requests and returns by clients that return only what they hold: the map
  stays well-formed, no two held regions overlap, none overlaps the free space, all come
  from the space the map started with, and returning a held region never panics.
\<close>

theorem rm_clients_disjoint:
  assumes "client_run (rmalloc plain_conf) (rmfree plain_conf) mp0 mp held" "rm_wf mp0"
  shows "rm_wf mp \<and> rm_free mp \<subseteq> rm_free mp0
    \<and> (\<forall>r\<in>set held. region r \<subseteq> rm_free mp0 \<and> region r \<inter> rm_free mp = {}
         \<and> (\<exists>mp'. rmfree plain_conf mp (snd r) (fst r) = Inr mp'))
    \<and> sorted_wrt (\<lambda>r q. region r \<inter> region q = {}) held"
  using rm.client_invariant [OF assms] rm.client_release_succeeds [OF assms] by auto

theorem rm_clients_disjoint_witness:
  "\<exists>mp. client_run (rmalloc plain_conf) (rmfree plain_conf) sample_map mp [(20, 5)] \<and> rm_wf mp
     \<and> span 20 5 \<inter> rm_free mp = {}"
proof -
  let ?mp = "sample_map\<lparr>rm_ents := [\<lparr>m_size = 4, m_addr = 10\<rparr>, \<lparr>m_size = 1, m_addr = 25\<rparr>, delim, delim]\<rparr>"
  have "rmalloc plain_conf sample_map 5 = Inr (20, ?mp)"
    by (simp add: rmalloc_def rmalloc_from.simps sample_map_def plain_conf_def Let_def aget_def)
  then have run: "client_run (rmalloc plain_conf) (rmfree plain_conf) sample_map ?mp [(20, 5)]"
    by (intro client_run.gets [OF client_run.start]) simp_all
  from rm_clients_disjoint [OF run sample_map_wf] run show ?thesis by (intro exI [of _ ?mp]) simp
qed

end
