(* ===== verification/Clist.thy ===== *)
theory Clist
  imports Prelude
begin

unbundle bit_operations_syntax

text \<open>
  Character lists, \<^verbatim>\<open>sys/sys/tty_subr.c\<close>: the queues of every terminal line. A queue is a chain of
  64 byte blocks, each a link followed by 60 characters, with a pointer to the first and a
  pointer behind the last character; the block of a pointer is found by rounding it down.
  The store is explicit: a link per block address and a byte per address, both shared by all
  queues and by the free list.
\<close>

section \<open>State\<close>

definition CBLOCK :: nat where "CBLOCK = 64"
definition CBSIZE :: nat where "CBSIZE = 60"

text \<open>\<^verbatim>\<open>sizeof(bp->c_next)\<close>, the offset of \<^verbatim>\<open>c_info\<close> in a \<^verbatim>\<open>struct cblock\<close>.\<close>

definition CLINK :: nat where "CLINK = 4"

type_synonym byte = "8 word"

text \<open>The store and the globals: links, characters, \<^verbatim>\<open>cfreelist\<close>, \<^verbatim>\<open>cfreecount\<close>, \<^verbatim>\<open>cwaiting\<close>.\<close>

record cstore =
  c_next :: "nat \<Rightarrow> nat"
  c_info :: "nat \<Rightarrow> byte"
  cfreelist :: nat
  cfreecount :: int
  cwaiting :: bool
  cwakeups :: nat

record clist =
  c_cc :: int
  c_cf :: nat
  c_cl :: nat

text \<open>\<^verbatim>\<open>(int)p & ~CROUND\<close> and \<^verbatim>\<open>(int)p & CROUND\<close>; block addresses are multiples of \<^verbatim>\<open>CBLOCK\<close>.\<close>

definition cbase :: "nat \<Rightarrow> nat" where
  "cbase p = p - p mod CBLOCK"

definition coff :: "nat \<Rightarrow> nat" where
  "coff p = p mod CBLOCK"

abbreviation null_clist :: clist where
  "null_clist \<equiv> \<lparr>c_cc = 0, c_cf = 0, c_cl = 0\<rparr>"

section \<open>Operations\<close>

text \<open>
  The lines every routine repeats: a block goes back to the free list and whoever waits for
  one is woken (\<open>cfree_block\<close>, without the wakeup in \<open>unputc\<close>), a block is taken from it.
\<close>

definition cfree_quiet :: "cstore \<Rightarrow> nat \<Rightarrow> cstore" where
  "cfree_quiet st bp = st\<lparr>c_next := (c_next st)(bp := cfreelist st), cfreelist := bp,
     cfreecount := cfreecount st + int CBSIZE\<rparr>"

definition cfree_block :: "cstore \<Rightarrow> nat \<Rightarrow> cstore" where
  "cfree_block st bp =
     (let st' = cfree_quiet st bp
      in if cwaiting st' then st'\<lparr>cwakeups := Suc (cwakeups st'), cwaiting := False\<rparr> else st')"

definition ctake_block :: "cstore \<Rightarrow> cstore" where
  "ctake_block st =
     (let bp = cfreelist st
      in st\<lparr>cfreelist := c_next st bp, cfreecount := cfreecount st - int CBSIZE,
            c_next := (c_next st)(bp := 0)\<rparr>)"

definition getc :: "cstore \<Rightarrow> clist \<Rightarrow> int \<times> cstore \<times> clist" where
  "getc st p =
     (if c_cc p \<le> 0 then (-1, st, null_clist)
      else
        let c = uint (c_info st (c_cf p)); cf = c_cf p + 1; cc = c_cc p - 1 in
        if cc \<le> 0 then
          let bp = cbase (cf - 1) in (c, cfree_block st bp, \<lparr>c_cc = cc, c_cf = 0, c_cl = 0\<rparr>)
        else if coff cf = 0 then
          let bp = cf - CBLOCK
          in (c, cfree_block st bp, p\<lparr>c_cc := cc, c_cf := c_next st bp + CLINK\<rparr>)
        else (c, st, p\<lparr>c_cc := cc, c_cf := cf\<rparr>))"

text \<open>\<^verbatim>\<open>bcopy\<close> out of and into the store.\<close>

definition cread :: "(nat \<Rightarrow> byte) \<Rightarrow> nat \<Rightarrow> nat \<Rightarrow> byte list" where
  "cread m a n = map m [a..<a + n]"

definition cwrite :: "(nat \<Rightarrow> byte) \<Rightarrow> nat \<Rightarrow> byte list \<Rightarrow> nat \<Rightarrow> byte" where
  "cwrite m a xs = (\<lambda>i. if a \<le> i \<and> i < a + length xs then xs ! (i - a) else m i)"

text \<open>
  The loop of \<open>q_to_b\<close>; a chunk of no characters would repeat for ever, which is a fault
  (on a well-formed queue it does not occur).
\<close>

function q_to_b_loop :: "cstore \<Rightarrow> clist \<Rightarrow> int \<Rightarrow> byte list \<Rightarrow> (byte list \<times> cstore \<times> clist) kern" where
  "q_to_b_loop st q cc buf =
     (if cc = 0 then Inr (buf, st, q) else
      let nc = min (min (int (CBLOCK - coff (c_cf q))) cc) (c_cc q) in
      if nc \<le> 0 then Inl (Fault ''q_to_b: no progress'') else
      let buf' = buf @ cread (c_info st) (c_cf q) (nat nc);
          cf = c_cf q + nat nc; qcc = c_cc q - nc in
      if qcc \<le> 0 then
        Inr (buf', cfree_block st (cbase (cf - 1)), \<lparr>c_cc = qcc, c_cf = 0, c_cl = 0\<rparr>)
      else if coff cf = 0 then
        let bp = cf - CBLOCK
        in q_to_b_loop (cfree_block st bp) (q\<lparr>c_cc := qcc, c_cf := c_next st bp + CLINK\<rparr>) (cc - nc) buf'
      else q_to_b_loop st (q\<lparr>c_cc := qcc, c_cf := cf\<rparr>) (cc - nc) buf')"
  by pat_completeness auto
termination
  by (relation "measure (\<lambda>(st, q, cc, buf). nat cc)") auto

definition q_to_b :: "cstore \<Rightarrow> clist \<Rightarrow> int \<Rightarrow> (byte list \<times> cstore \<times> clist) kern" where
  "q_to_b st q cc =
     (if cc \<le> 0 then Inr ([], st, q)
      else if c_cc q \<le> 0 then Inr ([], st, null_clist)
      else q_to_b_loop st q cc [])"

text \<open>\<^verbatim>\<open>while (p < end) { if (*p & flag) ...; p++; }\<close>; characters are signed.\<close>

fun ndqb_scan :: "byte list \<Rightarrow> int \<Rightarrow> nat" where
  "ndqb_scan [] flag = 0"
| "ndqb_scan (c # cs) flag = (if sint c AND flag \<noteq> 0 then 0 else Suc (ndqb_scan cs flag))"

definition ndqb :: "cstore \<Rightarrow> clist \<Rightarrow> int \<Rightarrow> int" where
  "ndqb st q flag =
     (if c_cc q \<le> 0 then - c_cc q
      else
        let cc = int (cbase (c_cf q + CBSIZE)) - int (c_cf q);
            cc = (if c_cc q < cc then c_cc q else cc)
        in if flag \<noteq> 0 then int (ndqb_scan (cread (c_info st) (c_cf q) (nat cc)) flag) else cc)"

function ndflush_loop :: "cstore \<Rightarrow> clist \<Rightarrow> int \<Rightarrow> (cstore \<times> clist) kern" where
  "ndflush_loop st q cc =
     (if \<not> (cc > 0 \<and> c_cc q \<noteq> 0) then Inr (st, q) else
      let bp = cbase (c_cf q);
          end = (if bp = cbase (c_cl q - 1) then c_cl q else bp + CBLOCK);
          rem = int end - int (c_cf q) in
      if rem \<le> 0 then Inl (Fault ''ndflush: no progress'')
      else if cc \<ge> rem then
        ndflush_loop (cfree_block st bp)
          (q\<lparr>c_cc := c_cc q - rem, c_cf := c_next st bp + CLINK\<rparr>) (cc - rem)
      else
        let q' = q\<lparr>c_cc := c_cc q - cc, c_cf := c_cf q + nat cc\<rparr>
        in Inr (if c_cc q' \<le> 0 then cfree_block st bp else st, q'))"
  by pat_completeness auto
termination
  by (relation "measure (\<lambda>(st, q, cc). nat cc)") auto

definition ndflush :: "cstore \<Rightarrow> clist \<Rightarrow> int \<Rightarrow> (cstore \<times> clist) kern" where
  "ndflush st q cc =
     (if c_cc q \<le> 0 then Inr (st, q)
      else kbind (ndflush_loop st q cc) (\<lambda>(st', q').
        Inr (st', if c_cc q' \<le> 0 then null_clist else q')))"

definition putc :: "cstore \<Rightarrow> byte \<Rightarrow> clist \<Rightarrow> int \<times> cstore \<times> clist" where
  "putc st c p =
     (let store = (\<lambda>st p cp. (0, st\<lparr>c_info := (c_info st)(cp := c)\<rparr>,
                              p\<lparr>c_cc := c_cc p + 1, c_cl := cp + 1\<rparr>)) in
      if c_cl p = 0 \<or> c_cc p < 0 then
        (if cfreelist st = 0 then (-1, st, p)
         else let bp = cfreelist st; cp = bp + CLINK
              in store (ctake_block st) (p\<lparr>c_cf := cp\<rparr>) cp)
      else if coff (c_cl p) = 0 then
        (let bp = c_cl p - CBLOCK;
             st' = st\<lparr>c_next := (c_next st)(bp := cfreelist st)\<rparr>
         in if cfreelist st = 0 then (-1, st', p)
            else let bp' = c_next st' bp in store (ctake_block st') p (bp' + CLINK))
      else store st p (c_cl p))"

function b_to_q_loop :: "cstore \<Rightarrow> nat \<Rightarrow> byte list \<Rightarrow> byte list \<times> cstore \<times> nat" where
  "b_to_q_loop st cq cp =
     (if cp = [] then (cp, st, cq) else
      let copy = (\<lambda>st cq. let nc = min (length cp) (CBLOCK - coff cq)
         in b_to_q_loop (st\<lparr>c_info := cwrite (c_info st) cq (take nc cp)\<rparr>) (cq + nc) (drop nc cp)) in
      if coff cq = 0 then
        (let bp = cq - CBLOCK;
             st' = st\<lparr>c_next := (c_next st)(bp := cfreelist st)\<rparr>
         in if cfreelist st = 0 then (cp, st', cq)
            else let bp' = c_next st' bp in copy (ctake_block st') (bp' + CLINK))
      else copy st cq)"
  by pat_completeness auto
termination
  by (relation "measure (\<lambda>(st, cq, cp). length cp)") (auto simp: coff_def CBLOCK_def)

text \<open>\<open>b_to_q\<close> returns the characters not transferred (the source returns their number).\<close>

definition b_to_q :: "cstore \<Rightarrow> byte list \<Rightarrow> clist \<Rightarrow> byte list \<times> cstore \<times> clist" where
  "b_to_q st cp q =
     (if cp = [] then ([], st, q)
      else if c_cl q = 0 \<or> c_cc q < 0 then
        (if cfreelist st = 0 then (cp, st, q)
         else
           let bp = cfreelist st;
               (rest, st', cl) = b_to_q_loop (ctake_block st) (bp + CLINK) cp
           in (rest, st', q\<lparr>c_cf := bp + CLINK, c_cl := cl,
                            c_cc := c_cc q + int (length cp - length rest)\<rparr>))
      else
        let (rest, st', cl) = b_to_q_loop st (c_cl q) cp
        in (rest, st', q\<lparr>c_cl := cl, c_cc := c_cc q + int (length cp - length rest)\<rparr>))"

definition nextc :: "cstore \<Rightarrow> clist \<Rightarrow> nat \<Rightarrow> nat" where
  "nextc st p cp =
     (if c_cc p \<noteq> 0 \<and> cp + 1 \<noteq> c_cl p then
        (if coff (cp + 1) = 0 then c_next st (cp + 1 - CBLOCK) + CLINK else cp + 1)
      else 0)"

text \<open>\<^verbatim>\<open>while (bp->c_next != (struct cblock *)p->c_cl) bp = bp->c_next;\<close> with a bound on the steps.\<close>

fun unputc_walk :: "nat \<Rightarrow> (nat \<Rightarrow> nat) \<Rightarrow> nat \<Rightarrow> nat \<Rightarrow> nat kern" where
  "unputc_walk 0 nx bp cl = Inl (Fault ''unputc: chain does not reach c_cl'')"
| "unputc_walk (Suc n) nx bp cl =
     (if bp = 0 then Inl (Fault ''unputc: null link'')
      else if nx bp \<noteq> cl then unputc_walk n nx (nx bp) cl else Inr bp)"

definition unputc :: "cstore \<Rightarrow> clist \<Rightarrow> (int \<times> cstore \<times> clist) kern" where
  "unputc st p =
     (if c_cc p \<le> 0 then Inr (-1, st, p)
      else
        let cl = c_cl p - 1; c = sint (c_info st cl); cc = c_cc p - 1 in
        if cc \<le> 0 then
          Inr (c, cfree_quiet st (cbase cl), \<lparr>c_cc = cc, c_cf = 0, c_cl = 0\<rparr>)
        else if coff cl = CLINK then
          kbind (unputc_walk (nat (c_cc p)) (c_next st) (cbase (c_cf p)) (cbase cl)) (\<lambda>obp.
          let bp = c_next st obp; st' = cfree_quiet st bp
          in Inr (c, st'\<lparr>c_next := (c_next st')(obp := 0)\<rparr>, p\<lparr>c_cc := cc, c_cl := obp + CBLOCK\<rparr>))
        else Inr (c, st, p\<lparr>c_cc := cc, c_cl := cl\<rparr>))"

text \<open>
  \<open>catq\<close> moves up to four blocks of characters at a time; what \<open>b_to_q\<close> does not take is
  dropped, as in the source. A chunk of no characters would repeat for ever.
\<close>

function catq_loop :: "cstore \<Rightarrow> clist \<Rightarrow> clist \<Rightarrow> (cstore \<times> clist \<times> clist) kern" where
  "catq_loop st from to =
     (if c_cc from > 0 then
        kbind (q_to_b st from (int (4 * CBSIZE))) (\<lambda>(bbuf, st', from').
        if c_cc from' < c_cc from then
          let (rest, st'', to') = b_to_q st' bbuf to in catq_loop st'' from' to'
        else Inl (Fault ''catq: no progress''))
      else Inr (st, from, to))"
  by pat_completeness auto
termination
  by (relation "measure (\<lambda>(st, from, to). nat (c_cc from))") auto

definition catq :: "cstore \<Rightarrow> clist \<Rightarrow> clist \<Rightarrow> (cstore \<times> clist \<times> clist) kern" where
  "catq st from to =
     (if c_cc to = 0 then Inr (st, null_clist, from) else catq_loop st from to)"

declare q_to_b_loop.simps [simp del] ndflush_loop.simps [simp del] b_to_q_loop.simps [simp del]
  catq_loop.simps [simp del]


section \<open>Representation\<close>

lemmas cconsts = CBLOCK_def CBSIZE_def CLINK_def

text \<open>A chain of aligned, non-null blocks from \<open>p\<close> to \<open>e\<close>, along the links.\<close>

fun cpath :: "(nat \<Rightarrow> nat) \<Rightarrow> nat \<Rightarrow> nat list \<Rightarrow> nat \<Rightarrow> bool" where
  "cpath nx p [] e \<longleftrightarrow> p = e"
| "cpath nx p (b # bs) e \<longleftrightarrow> p = b \<and> 0 < b \<and> coff b = 0 \<and> cpath nx (nx b) bs e"

text \<open>The character area of a chain, from \<open>a\<close> in its first to \<open>e\<close> in its last block, not empty.\<close>

fun cspan :: "nat list \<Rightarrow> nat \<Rightarrow> nat \<Rightarrow> bool" where
  "cspan [] a e \<longleftrightarrow> False"
| "cspan [b] a e \<longleftrightarrow> b + CLINK \<le> a \<and> a < e \<and> e \<le> b + CBLOCK"
| "cspan (b # c # bs) a e \<longleftrightarrow> b + CLINK \<le> a \<and> a < b + CBLOCK \<and> cspan (c # bs) (c + CLINK) e"

fun cdata :: "(nat \<Rightarrow> byte) \<Rightarrow> nat list \<Rightarrow> nat \<Rightarrow> nat \<Rightarrow> byte list" where
  "cdata m [] a e = []"
| "cdata m [b] a e = cread m a (e - a)"
| "cdata m (b # c # bs) a e = cread m a (b + CBLOCK - a) @ cdata m (c # bs) (c + CLINK) e"

text \<open>Queue \<open>q\<close> holds the characters \<open>xs\<close> in the blocks \<open>bs\<close>; the free list is \<open>fs\<close>.\<close>

definition cq_rep :: "cstore \<Rightarrow> clist \<Rightarrow> nat list \<Rightarrow> byte list \<Rightarrow> bool" where
  "cq_rep st q bs xs \<longleftrightarrow>
     (if bs = [] then q = null_clist \<and> xs = []
      else cpath (c_next st) (hd bs) bs 0 \<and> distinct bs \<and> cspan bs (c_cf q) (c_cl q)
        \<and> xs = cdata (c_info st) bs (c_cf q) (c_cl q) \<and> c_cc q = int (length xs))"

definition cfree_rep :: "cstore \<Rightarrow> nat list \<Rightarrow> bool" where
  "cfree_rep st fs \<longleftrightarrow> cpath (c_next st) (cfreelist st) fs 0 \<and> distinct fs
     \<and> cfreecount st = int (CBSIZE * length fs)"

definition cl_inv :: "cstore \<Rightarrow> clist \<Rightarrow> nat list \<Rightarrow> nat list \<Rightarrow> byte list \<Rightarrow> bool" where
  "cl_inv st q bs fs xs \<longleftrightarrow> cq_rep st q bs xs \<and> cfree_rep st fs \<and> set bs \<inter> set fs = {}"

text \<open>What a step may touch: only links of, and characters in, the blocks \<open>B\<close>.\<close>

definition cframe :: "nat set \<Rightarrow> cstore \<Rightarrow> cstore \<Rightarrow> bool" where
  "cframe B st st' \<longleftrightarrow> (\<forall>b. b \<notin> B \<longrightarrow> c_next st' b = c_next st b)
     \<and> (\<forall>a. cbase a \<notin> B \<longrightarrow> c_info st' a = c_info st a)"

lemma cframe_refl [simp]: "cframe B st st"
  by (simp add: cframe_def)

lemma cframe_trans: "cframe B st st' \<Longrightarrow> cframe B st' st'' \<Longrightarrow> cframe B st st''"
  by (simp add: cframe_def)

lemma cframe_mono: "cframe A st st' \<Longrightarrow> A \<subseteq> B \<Longrightarrow> cframe B st st'"
  by (auto simp: cframe_def)

subsection \<open>Addresses\<close>

lemma coff_in:
  assumes "coff b = 0" "b \<le> a" "a < b + CBLOCK"
  shows "coff a = a - b"
proof -
  from assms(1) obtain k where "b = CBLOCK * k" by (auto simp: coff_def mod_eq_0_iff_dvd elim: dvdE)
  with assms(2) have "a = (a - b) + CBLOCK * k" by simp
  moreover have "((a - b) + CBLOCK * k) mod CBLOCK = (a - b) mod CBLOCK" by simp
  ultimately have "a mod CBLOCK = (a - b) mod CBLOCK" by simp
  with assms show ?thesis by (simp add: coff_def)
qed

lemma cbase_in:
  assumes "coff b = 0" "b \<le> a" "a < b + CBLOCK"
  shows "cbase a = b"
  using coff_in [OF assms] assms(2) by (simp add: cbase_def coff_def)

lemma coff_end [simp]: "coff b = 0 \<Longrightarrow> coff (b + CBLOCK) = 0"
  by (simp add: coff_def CBLOCK_def)

lemma cblock_ge: "coff b = 0 \<Longrightarrow> 0 < b \<Longrightarrow> CBLOCK \<le> b"
  by (simp add: coff_def dvd_imp_le mod_eq_0_iff_dvd)

lemma cread_append: "cread m a (n + k) = cread m a n @ cread m (a + n) k"
  using upt_add_eq_append [of a "a + n" k] by (simp add: cread_def add.assoc)

lemma length_cread [simp]: "length (cread m a n) = n"
  by (simp add: cread_def)

lemma cread_0 [simp]: "cread m a 0 = []"
  by (simp add: cread_def)

lemma cread_Suc: "cread m a (Suc n) = m a # cread m (Suc a) n"
  by (simp add: cread_def upt_rec)

lemma cread_cong: "(\<And>i. a \<le> i \<Longrightarrow> i < a + n \<Longrightarrow> m i = m' i) \<Longrightarrow> cread m a n = cread m' a n"
  by (simp add: cread_def)

lemma cread_cwrite: "cread (cwrite m a xs) a (length xs) = xs"
  by (rule nth_equalityI) (simp_all add: cread_def cwrite_def)

subsection \<open>Chains\<close>

lemma cpath_append: "cpath nx p (as @ bs) e \<longleftrightarrow> (\<exists>x. cpath nx p as x \<and> cpath nx x bs e)"
  by (induction as arbitrary: p) auto

lemma cpath_aligned: "cpath nx p bs e \<Longrightarrow> b \<in> set bs \<Longrightarrow> coff b = 0 \<and> 0 < b"
  by (induction bs arbitrary: p) auto

lemma cpath_cong: "(\<And>b. b \<in> set bs \<Longrightarrow> nx' b = nx b) \<Longrightarrow> cpath nx' p bs e = cpath nx p bs e"
  by (induction bs arbitrary: p) auto

lemma cpath_upd [simp]: "b \<notin> set bs \<Longrightarrow> cpath (nx(b := x)) p bs e = cpath nx p bs e"
  by (rule cpath_cong) auto

lemma cpath_hd: "cpath nx p bs e \<Longrightarrow> bs \<noteq> [] \<Longrightarrow> hd bs = p"
  by (cases bs) auto

lemma cpath_null: "cpath nx p bs 0 \<Longrightarrow> p = 0 \<longleftrightarrow> bs = []"
  by (cases bs) auto

lemma cspan_hd: "cspan (b # bs) a e \<Longrightarrow> b + CLINK \<le> a \<and> a < b + CBLOCK"
  by (cases bs) auto

lemma cspan_nonempty: "cspan bs a e \<Longrightarrow> 0 < length (cdata m bs a e)"
  by (induction m bs a e rule: cdata.induct) auto

lemma cspan_last: "cspan bs a e \<Longrightarrow> last bs + CLINK < e \<and> e \<le> last bs + CBLOCK"
  by (induction bs a e rule: cspan.induct) auto

lemma cdata_cong:
  assumes "\<And>i. cbase i \<in> set bs \<Longrightarrow> m i = m' i" "\<forall>b\<in>set bs. coff b = 0" "cspan bs a e"
  shows "cdata m bs a e = cdata m' bs a e"
  using assms
proof (induction m bs a e rule: cdata.induct)
  case (2 m b a e)
  then show ?case by (auto intro!: cread_cong simp: cbase_in)
next
  case (3 m b c bs a e)
  have "cread m a (b + CBLOCK - a) = cread m' a (b + CBLOCK - a)"
    using 3 by (intro cread_cong) (auto simp: cbase_in)
  moreover have "cdata m (c # bs) (c + CLINK) e = cdata m' (c # bs) (c + CLINK) e"
    using 3 by (intro "3.IH") auto
  ultimately show ?case by simp
qed simp

lemma cq_rep_frame:
  assumes "cq_rep st q bs xs" "cframe B st st'" "set bs \<inter> B = {}"
  shows "cq_rep st' q bs xs"
proof (cases "bs = []")
  case False
  have al: "\<forall>b\<in>set bs. coff b = 0"
    using assms(1) False by (auto simp: cq_rep_def dest: cpath_aligned)
  have "cpath (c_next st') (hd bs) bs 0 = cpath (c_next st) (hd bs) bs 0"
    using assms(2,3) by (intro cpath_cong) (auto simp: cframe_def)
  moreover have "cdata (c_info st') bs (c_cf q) (c_cl q) = cdata (c_info st) bs (c_cf q) (c_cl q)"
    using assms False al by (intro cdata_cong) (auto simp: cframe_def cq_rep_def)
  ultimately show ?thesis using assms(1) False by (simp add: cq_rep_def)
qed (use assms(1) in \<open>simp add: cq_rep_def\<close>)

lemma cfree_rep_frame:
  assumes "cfree_rep st fs" "cframe B st st'" "set fs \<inter> B = {}" "cfreelist st' = cfreelist st"
    "cfreecount st' = cfreecount st"
  shows "cfree_rep st' fs"
proof -
  have "cpath (c_next st') p fs 0 = cpath (c_next st) p fs 0" for p
    using assms(2,3) by (intro cpath_cong) (auto simp: cframe_def)
  with assms show ?thesis by (simp add: cfree_rep_def)
qed

subsection \<open>Taking characters off the front\<close>

text \<open>Characters in the first block of a chain.\<close>

definition cfirst :: "nat list \<Rightarrow> nat \<Rightarrow> nat \<Rightarrow> nat" where
  "cfirst bs a e = (if length bs = 1 then e - a else hd bs + CBLOCK - a)"

lemma cfirst_simps [simp]:
  "cfirst [b] a e = e - a" "cfirst (b # c # bs) a e = b + CBLOCK - a"
  by (simp_all add: cfirst_def)

lemma cdata_length:
  "cspan bs a e \<Longrightarrow> length (cdata m bs a e) + (a - (hd bs + CLINK)) + (last bs + CBLOCK - e) = CBSIZE * length bs"
proof (induction m bs a e rule: cdata.induct)
  case (3 m b c bs a e)
  then show ?case by (simp add: cconsts)
qed (simp_all add: cconsts)

lemma cread_split: "n \<le> k \<Longrightarrow> cread m a k = cread m a n @ cread m (a + n) (k - n)"
  using cread_append [of m a n "k - n"] by simp

lemma cdata_take: "cspan bs a e \<Longrightarrow> n \<le> cfirst bs a e \<Longrightarrow> take n (cdata m bs a e) = cread m a n"
proof (induction m bs a e rule: cdata.induct)
  case (2 m b a e)
  then have "cdata m [b] a e = cread m a n @ cread m (a + n) (e - a - n)"
    using cread_split [of n "e - a" m a] by simp
  then show ?case by simp
next
  case (3 m b c bs a e)
  then have "cread m a (b + CBLOCK - a) = cread m a n @ cread m (a + n) (b + CBLOCK - a - n)"
    using cread_split [of n "b + CBLOCK - a" m a] by simp
  then show ?case by simp
qed simp

lemma cdata_drop:
  "cspan bs a e \<Longrightarrow> n \<le> cfirst bs a e \<Longrightarrow> drop n (cdata m bs a e) = cdata m bs (a + n) e"
proof (induction m bs a e rule: cdata.induct)
  case (2 m b a e)
  then have "cdata m [b] a e = cread m a n @ cread m (a + n) (e - a - n)"
    using cread_split [of n "e - a" m a] by simp
  then show ?case by simp
next
  case (3 m b c bs a e)
  then have "cread m a (b + CBLOCK - a) = cread m a n @ cread m (a + n) (b + CBLOCK - a - n)"
    using cread_split [of n "b + CBLOCK - a" m a] by simp
  then show ?case by simp
qed simp

lemma cspan_advance: "cspan bs a e \<Longrightarrow> n < cfirst bs a e \<Longrightarrow> cspan bs (a + n) e"
  by (induction bs a e rule: cspan.induct) auto

lemma cfirst_le: "cspan bs a e \<Longrightarrow> cfirst bs a e \<le> length (cdata m bs a e)"
  by (induction m bs a e rule: cdata.induct) auto

lemma cfirst_pos: "cspan bs a e \<Longrightarrow> 0 < cfirst bs a e"
  by (induction bs a e rule: cspan.induct) auto

lemma cq_rep_Nil [simp]: "cq_rep st q [] xs \<longleftrightarrow> q = null_clist \<and> xs = []"
  by (simp add: cq_rep_def)

lemma cq_rep_cc: "cq_rep st q bs xs \<Longrightarrow> c_cc q = int (length xs)"
  by (auto simp: cq_rep_def split: if_splits)

lemma cq_rep_empty: "cq_rep st q bs [] \<longleftrightarrow> bs = [] \<and> q = null_clist"
  using cspan_nonempty [of bs "c_cf q" "c_cl q" "c_info st"] by (auto simp: cq_rep_def)

lemma cq_rep_nonempty: "cq_rep st q bs xs \<Longrightarrow> xs \<noteq> [] \<longleftrightarrow> bs \<noteq> []"
  by (metis cq_rep_Nil cq_rep_empty)

lemma cl_inv_advance:
  assumes "cl_inv st q bs fs xs" "bs \<noteq> []" "n < cfirst bs (c_cf q) (c_cl q)"
  shows "cl_inv st (q\<lparr>c_cc := c_cc q - int n, c_cf := c_cf q + n\<rparr>) bs fs (drop n xs)"
proof -
  have sp: "cspan bs (c_cf q) (c_cl q)" and xs: "xs = cdata (c_info st) bs (c_cf q) (c_cl q)"
    using assms(1,2) by (simp_all add: cl_inv_def cq_rep_def)
  have "cdata (c_info st) bs (c_cf q + n) (c_cl q) = drop n xs"
    using sp assms(3) by (simp add: xs cdata_drop)
  with assms cspan_advance [OF sp assms(3)] cfirst_le [OF sp, of "c_info st"] show ?thesis
    by (simp add: cl_inv_def cq_rep_def xs [symmetric])
qed

lemma cfree_quiet_simps [simp]:
  "c_info (cfree_quiet st b) = c_info st" "cfreelist (cfree_quiet st b) = b"
  "c_next (cfree_quiet st b) = (c_next st)(b := cfreelist st)"
  "cfreecount (cfree_quiet st b) = cfreecount st + int CBSIZE"
  by (simp_all add: cfree_quiet_def)

lemma cfree_block_simps [simp]:
  "c_info (cfree_block st b) = c_info st" "cfreelist (cfree_block st b) = b"
  "c_next (cfree_block st b) = (c_next st)(b := cfreelist st)"
  "cfreecount (cfree_block st b) = cfreecount st + int CBSIZE"
  by (simp_all add: cfree_block_def Let_def)

lemma cfree_block_frame: "b \<in> B \<Longrightarrow> cframe B st (cfree_block st b)"
  by (auto simp: cframe_def)

lemma cfree_quiet_frame: "b \<in> B \<Longrightarrow> cframe B st (cfree_quiet st b)"
  by (auto simp: cframe_def)

lemma cfree_block_rep:
  assumes "cfree_rep st fs" "b \<notin> set fs" "0 < b" "coff b = 0"
  shows "cfree_rep (cfree_block st b) (b # fs)" "cfree_rep (cfree_quiet st b) (b # fs)"
  using assms by (auto simp: cfree_rep_def)

lemma cq_rep_hd:
  assumes "cq_rep st q (b # bs) xs"
  shows "0 < b" "coff b = 0" "b + CLINK \<le> c_cf q" "c_cf q < b + CBLOCK" "b \<notin> set bs"
  using assms cspan_hd [of b bs "c_cf q" "c_cl q"] by (auto simp: cq_rep_def)

text \<open>A block used up: it goes to the free list and the queue continues in the next one.\<close>

lemma cl_inv_next_block:
  assumes "cl_inv st q (b # c # bs) fs xs"
  defines "n \<equiv> b + CBLOCK - c_cf q"
  shows "c_next st b = c" "c_cf q + n = b + CBLOCK" "n < length xs"
    "cl_inv (cfree_block st b) (q\<lparr>c_cc := c_cc q - int n, c_cf := c + CLINK\<rparr>) (c # bs) (b # fs) (drop n xs)"
proof -
  have rep: "cq_rep st q (b # c # bs) xs" using assms(1) by (simp add: cl_inv_def)
  note hd = cq_rep_hd [OF rep]
  show nx: "c_next st b = c" using rep by (simp add: cq_rep_def)
  show "c_cf q + n = b + CBLOCK" using hd by (simp add: n_def)
  have sp: "cspan (b # c # bs) (c_cf q) (c_cl q)" and xs: "xs = cdata (c_info st) (b # c # bs) (c_cf q) (c_cl q)"
    using rep by (simp_all add: cq_rep_def)
  have dr: "drop n xs = cdata (c_info st) (c # bs) (c + CLINK) (c_cl q)"
    unfolding xs n_def by simp
  show len: "n < length xs"
    using sp cspan_nonempty [of "c # bs" "c + CLINK" "c_cl q" "c_info st"] hd
    by (simp add: xs n_def del: length_greater_0_conv)
  have "cq_rep (cfree_block st b) (q\<lparr>c_cc := c_cc q - int n, c_cf := c + CLINK\<rparr>) (c # bs) (drop n xs)"
    using rep len hd by (auto simp: cq_rep_def dr [symmetric] nx)
  moreover have "cfree_rep (cfree_block st b) (b # fs)"
    using assms(1) hd by (intro cfree_block_rep) (auto simp: cl_inv_def)
  ultimately show "cl_inv (cfree_block st b) (q\<lparr>c_cc := c_cc q - int n, c_cf := c + CLINK\<rparr>) (c # bs) (b # fs) (drop n xs)"
    using assms(1) hd by (auto simp: cl_inv_def)
qed

text \<open>The last character taken: the only block left goes to the free list.\<close>

lemma cl_inv_last_block:
  assumes "cl_inv st q [b] fs xs"
  shows "c_cf q + length xs = c_cl q" "cbase (c_cf q + length xs - 1) = b"
    "cl_inv (cfree_block st b) null_clist [] (b # fs) []"
proof -
  have rep: "cq_rep st q [b] xs" using assms by (simp add: cl_inv_def)
  note hd = cq_rep_hd [OF rep]
  show "c_cf q + length xs = c_cl q" using rep by (auto simp: cq_rep_def)
  then show "cbase (c_cf q + length xs - 1) = b"
    using rep hd by (intro cbase_in) (auto simp: cq_rep_def)
  show "cl_inv (cfree_block st b) null_clist [] (b # fs) []"
    using assms hd cfree_block_rep [of st fs b] by (auto simp: cl_inv_def)
qed

text \<open>
  What every operation promises: the queue now holds \<open>xs'\<close>, no block was lost or
  duplicated, and nothing outside the queue's own and the free blocks was touched.
\<close>

definition cl_post :: "cstore \<Rightarrow> nat list \<Rightarrow> nat list \<Rightarrow> cstore \<Rightarrow> clist \<Rightarrow> nat list \<Rightarrow> nat list \<Rightarrow> byte list \<Rightarrow> bool" where
  "cl_post st bs fs st' q' bs' fs' xs' \<longleftrightarrow> cl_inv st' q' bs' fs' xs'
     \<and> set bs' \<union> set fs' = set bs \<union> set fs \<and> length bs' + length fs' = length bs + length fs
     \<and> cframe (set bs \<union> set fs) st st'"

lemma cl_post_trans:
  "cl_post st bs fs st' q' bs' fs' xs' \<Longrightarrow> cl_post st' bs' fs' st'' q'' bs'' fs'' xs''
   \<Longrightarrow> cl_post st bs fs st'' q'' bs'' fs'' xs''"
  by (auto simp: cl_post_def intro: cframe_trans)

lemma cl_post_advance:
  assumes "cl_inv st q bs fs xs" "bs \<noteq> []" "n < cfirst bs (c_cf q) (c_cl q)"
  shows "cl_post st bs fs st (q\<lparr>c_cc := c_cc q - int n, c_cf := c_cf q + n\<rparr>) bs fs (drop n xs)"
  using cl_inv_advance [OF assms] by (simp add: cl_post_def)

lemma cl_post_next_block:
  assumes "cl_inv st q (b # c # bs) fs xs"
  defines "n \<equiv> b + CBLOCK - c_cf q"
  shows "cl_post st (b # c # bs) fs (cfree_block st b)
    (q\<lparr>c_cc := c_cc q - int n, c_cf := c + CLINK\<rparr>) (c # bs) (b # fs) (drop n xs)"
  using cl_inv_next_block(4) [OF assms(1)] unfolding n_def cl_post_def by (auto intro: cfree_block_frame)

lemma cl_post_last_block:
  "cl_inv st q [b] fs xs \<Longrightarrow> cl_post st [b] fs (cfree_block st b) null_clist [] (b # fs) []"
  unfolding cl_post_def by (auto intro: cfree_block_frame cl_inv_last_block)

lemma cl_inv_first:
  assumes "cl_inv st q (b # bs) fs xs"
  shows "coff (c_cf q) = c_cf q - b" "cbase (c_cf q) = b" "c_cf q < b + CBLOCK" "b + CLINK \<le> c_cf q"
    "c_cc q = int (length xs)" "xs \<noteq> []" "take n xs = cread (c_info st) (c_cf q) n \<or> cfirst (b # bs) (c_cf q) (c_cl q) < n"
    "cfirst (b # bs) (c_cf q) (c_cl q) = min (length xs) (b + CBLOCK - c_cf q)"
proof -
  have rep: "cq_rep st q (b # bs) xs" using assms by (simp add: cl_inv_def)
  note hd = cq_rep_hd [OF rep]
  show "c_cf q < b + CBLOCK" "b + CLINK \<le> c_cf q" using hd by auto
  then show "coff (c_cf q) = c_cf q - b" "cbase (c_cf q) = b"
    using hd coff_in [of b "c_cf q"] cbase_in [of b "c_cf q"] by auto
  show "c_cc q = int (length xs)" using rep by (rule cq_rep_cc)
  show "xs \<noteq> []" using cq_rep_nonempty [OF rep] by simp
  have sp: "cspan (b # bs) (c_cf q) (c_cl q)" and xs: "xs = cdata (c_info st) (b # bs) (c_cf q) (c_cl q)"
    using rep by (simp_all add: cq_rep_def)
  show "take n xs = cread (c_info st) (c_cf q) n \<or> cfirst (b # bs) (c_cf q) (c_cl q) < n"
    using cdata_take [OF sp] by (auto simp: xs not_less)
  show "cfirst (b # bs) (c_cf q) (c_cl q) = min (length xs) (b + CBLOCK - c_cf q)"
    using sp cfirst_le [OF sp, of "c_info st"] by (cases bs) (auto simp: xs)
qed

lemma cl_inv_cc: "cl_inv st q bs fs xs \<Longrightarrow> c_cc q = int (length xs)"
  by (auto simp: cl_inv_def dest: cq_rep_cc)

lemma cl_inv_last:
  assumes "cl_inv st q bs fs xs" "bs \<noteq> []"
  shows "last bs + CLINK < c_cl q" "c_cl q \<le> last bs + CBLOCK" "coff (last bs) = 0" "0 < last bs"
    "cbase (c_cl q - 1) = last bs" "c_next st (last bs) = 0" "hd bs \<in> set bs" "last bs \<in> set bs"
proof -
  have rep: "cpath (c_next st) (hd bs) bs 0" "cspan bs (c_cf q) (c_cl q)"
    using assms by (simp_all add: cl_inv_def cq_rep_def)
  show *: "coff (last bs) = 0" "0 < last bs"
    using cpath_aligned [OF rep(1) last_in_set [OF assms(2)]] by auto
  show **: "last bs + CLINK < c_cl q" "c_cl q \<le> last bs + CBLOCK" using cspan_last [OF rep(2)] by auto
  show "cbase (c_cl q - 1) = last bs" using * ** by (intro cbase_in) auto
  show "c_next st (last bs) = 0"
    using rep(1) assms(2) cpath_append [of "c_next st" "hd bs" "butlast bs" "[last bs]" 0] by simp
qed (use assms(2) in auto)

lemma getc_empty: "cl_inv st q bs fs [] \<Longrightarrow> getc st q = (-1, st, null_clist)"
  by (simp add: getc_def cl_inv_cc)

lemma getc_nonempty:
  assumes inv: "cl_inv st q bs fs (x # xs)"
  shows "\<exists>st' q' bs' fs'. getc st q = (uint x, st', q') \<and> cl_post st bs fs st' q' bs' fs' xs"
proof -
  obtain b bs0 where bs: "bs = b # bs0"
    using inv cq_rep_nonempty by (cases bs) (auto simp: cl_inv_def)
  note fst = cl_inv_first [OF inv [unfolded bs]]
  have x: "c_info st (c_cf q) = x"
    using fst(7) [of 1] fst(3,8) by (auto simp: cread_def)
  consider (one) "bs0 = []" "xs = []" | (nxt) c bs1 where "bs0 = c # bs1" "c_cf q + 1 = b + CBLOCK"
    | (adv) "1 < cfirst bs (c_cf q) (c_cl q)"
  proof (cases "1 < cfirst bs (c_cf q) (c_cl q)")
    case False
    then have f: "cfirst bs (c_cf q) (c_cl q) = 1" using fst(8) fst(3) bs by auto
    show thesis
    proof (cases bs0)
      case Nil
      then have "cfirst bs (c_cf q) (c_cl q) = length (x # xs)"
        using inv by (auto simp: bs cl_inv_def cq_rep_def)
      with f Nil one show thesis by simp
    next
      case (Cons c bs1)
      with f nxt fst(3) show thesis by (simp add: bs)
    qed
  qed (rule adv)
  then show ?thesis
  proof cases
    case one
    then show ?thesis
      using cl_inv_last_block [of st q b fs "[x]"] cl_post_last_block [of st q b fs "[x]"] inv bs x
      by (simp add: getc_def cl_inv_cc [OF inv] Let_def) blast
  next
    case (nxt c bs1)
    have "xs \<noteq> []" using cl_inv_next_block(3) [of st q b c bs1 fs "x # xs"] inv nxt bs fst(3) by auto
    moreover have "coff (c_cf q + 1) = 0" using nxt(2) cq_rep_hd(2) inv bs by (auto simp: cl_inv_def)
    moreover have "b + CBLOCK - c_cf q = 1" using nxt(2) by simp
    ultimately show ?thesis
      using cl_inv_next_block [of st q b c bs1 fs "x # xs"] cl_post_next_block [of st q b c bs1 fs "x # xs"]
        inv bs x nxt
      by (simp add: getc_def cl_inv_cc [OF inv] Let_def) (metis One_nat_def)
  next
    case adv
    then have *: "c_cf q + 1 < b + CBLOCK" "xs \<noteq> []" using fst(3,8) by (auto simp: bs)
    have "coff (c_cf q + 1) = c_cf q + 1 - b"
      using * fst(4) cq_rep_hd(2) [of st q b bs0 "x # xs"] inv by (intro coff_in) (auto simp: bs cl_inv_def)
    then have "coff (c_cf q + 1) \<noteq> 0" using fst(4) by (simp add: CLINK_def)
    with * show ?thesis
      using cl_post_advance [OF inv _ adv] bs x by (simp add: getc_def cl_inv_cc [OF inv] Let_def) blast
  qed
qed

text \<open>
  Taking from the front frees a prefix of the blocks; a queue that is not emptied keeps its
  write pointer.
\<close>

definition cl_taken :: "cstore \<Rightarrow> clist \<Rightarrow> nat list \<Rightarrow> nat list \<Rightarrow> cstore \<Rightarrow> clist \<Rightarrow> byte list \<Rightarrow> bool" where
  "cl_taken st q bs fs st' q' xs' \<longleftrightarrow> (\<exists>k fs'. cl_post st bs fs st' q' (drop k bs) fs' xs'
     \<and> (drop k bs \<noteq> [] \<longrightarrow> c_cl q' = c_cl q))"

lemma cl_taken_trans:
  assumes "cl_post st (b # bs) fs st' q' bs fs' xs'" "bs \<noteq> [] \<longrightarrow> c_cl q' = c_cl q"
    "cl_taken st' q' bs fs' st'' q'' xs''"
  shows "cl_taken st q (b # bs) fs st'' q'' xs''"
proof -
  from assms(3) obtain k fs'' where "cl_post st' bs fs' st'' q'' (drop k bs) fs'' xs''"
    "drop k bs \<noteq> [] \<longrightarrow> c_cl q'' = c_cl q'" by (auto simp: cl_taken_def)
  with assms(1,2) have "cl_post st (b # bs) fs st'' q'' (drop (Suc k) (b # bs)) fs'' xs''
    \<and> (drop (Suc k) (b # bs) \<noteq> [] \<longrightarrow> c_cl q'' = c_cl q)"
    by (auto intro: cl_post_trans)
  then show ?thesis unfolding cl_taken_def by blast
qed

lemma cl_taken_same: "cl_post st bs fs st' q' bs fs' xs' \<Longrightarrow> c_cl q' = c_cl q \<Longrightarrow> cl_taken st q bs fs st' q' xs'"
  unfolding cl_taken_def by (rule exI [of _ 0]) auto

lemma cl_taken_one: "cl_post st [b] fs st' q' [] fs' xs' \<Longrightarrow> cl_taken st q [b] fs st' q' xs'"
  unfolding cl_taken_def by (rule exI [of _ 1]) auto

text \<open>The three ways a routine that takes characters can leave the first block.\<close>

lemma cl_inv_take_cases:
  assumes inv: "cl_inv st q bs fs xs" and "bs \<noteq> []" and "0 < n"
  obtains (one) b where "bs = [b]" "cfirst bs (c_cf q) (c_cl q) = length xs" "length xs \<le> n"
  | (nxt) b c bs' where "bs = b # c # bs'" "cfirst bs (c_cf q) (c_cl q) = b + CBLOCK - c_cf q"
      "b + CBLOCK - c_cf q \<le> n" "b + CBLOCK - c_cf q < length xs"
  | (adv) b bs' where "bs = b # bs'" "n < cfirst bs (c_cf q) (c_cl q)" "n < length xs"
      "c_cf q + n < b + CBLOCK" "coff (c_cf q + n) = c_cf q + n - b" "coff (c_cf q + n) \<noteq> 0"
proof -
  obtain b bs' where bs: "bs = b # bs'" using assms(2) by (cases bs) auto
  note first = cl_inv_first [OF inv [unfolded bs]]
  show thesis
  proof (cases "n < cfirst bs (c_cf q) (c_cl q)")
    case True
    then have *: "n < length xs" "c_cf q + n < b + CBLOCK" using first(8) bs by auto
    moreover have "coff (c_cf q + n) = c_cf q + n - b"
      using * first(4) cq_rep_hd(2) [of st q b bs' xs] inv by (intro coff_in) (auto simp: bs cl_inv_def)
    moreover have "c_cf q + n - b \<noteq> 0" using first(4) by (simp add: CLINK_def)
    ultimately show thesis using adv [OF bs True] by simp
  next
    case le: False
    show thesis
    proof (cases bs')
      case Nil
      then have "cfirst bs (c_cf q) (c_cl q) = length xs"
        using inv by (auto simp: bs cl_inv_def cq_rep_def)
      with le Nil one bs show thesis by simp
    next
      case (Cons c bs1)
      have "b + CBLOCK - c_cf q < length xs"
        using cl_inv_next_block(3) [of st q b c bs1 fs xs] inv bs Cons by simp
      with le nxt [of b c bs1] bs Cons show thesis by simp
    qed
  qed
qed

lemma q_to_b_loop_spec:
  assumes "cl_inv st q bs fs xs" "bs \<noteq> []"
  shows "\<exists>st' q'. q_to_b_loop st q (int n) buf = Inr (buf @ take n xs, st', q')
    \<and> cl_taken st q bs fs st' q' (drop n xs)"
  using assms
proof (induction n arbitrary: st q bs fs xs buf rule: less_induct)
  case (less n)
  note inv = less.prems(1)
  show ?case
  proof (cases "n = 0")
    case True
    then show ?thesis
      using inv by (auto simp: q_to_b_loop.simps cl_post_def intro!: cl_taken_same)
  next
    case False
    obtain b bs0 where bs: "bs = b # bs0" using less.prems(2) by (cases bs) auto
    note first = cl_inv_first [OF inv [unfolded bs]]
    have nc: "min (min (int (CBLOCK - coff (c_cf q))) (int n)) (c_cc q)
      = int (min n (cfirst bs (c_cf q) (c_cl q)))"
      using first(1,3,4,5,8) by (simp add: bs)
    have pos: "0 < cfirst bs (c_cf q) (c_cl q)" using first(3,6,8) by (simp add: bs)
    have rd: "cread (c_info st) (c_cf q) (min n (cfirst bs (c_cf q) (c_cl q)))
      = take (min n (cfirst bs (c_cf q) (c_cl q))) xs"
      using first(7) [of "min n (cfirst bs (c_cf q) (c_cl q))"] by (simp add: bs)
    have "0 < n" using False by simp
    show ?thesis
    using inv less.prems(2) \<open>0 < n\<close>
    proof (cases rule: cl_inv_take_cases)
      case (one b)
      then have m: "min n (cfirst bs (c_cf q) (c_cl q)) = length xs" by simp
      have "cl_taken st q bs fs (cfree_block st b) null_clist []"
        using cl_taken_one [OF cl_post_last_block] inv one(1) by simp
      moreover have "q_to_b_loop st q (int n) buf = Inr (buf @ xs, cfree_block st b, null_clist)"
        using one(1) cl_inv_last_block(2) [of st q b fs xs] inv first(6) rd m False
        by (subst q_to_b_loop.simps, unfold nc m) (simp add: cl_inv_cc [OF inv] Let_def)
      ultimately show ?thesis using one(3) by simp
    next
      case (nxt b c bs')
      define k where "k = b + CBLOCK - c_cf q"
      have m: "min n (cfirst bs (c_cf q) (c_cl q)) = k" using nxt by (simp add: k_def)
      note nb = cl_inv_next_block [OF inv [unfolded nxt(1)], folded k_def]
      have k: "0 < k" "k \<le> n" using pos m nxt by (auto simp: k_def)
      let ?q = "q\<lparr>c_cc := c_cc q - int k, c_cf := c + CLINK\<rparr>"
      have "coff (b + CBLOCK) = 0" using inv nxt(1) cq_rep_hd(2) by (auto simp: cl_inv_def)
      then have step: "q_to_b_loop st q (int n) buf
        = q_to_b_loop (cfree_block st b) ?q (int (n - k)) (buf @ take k xs)"
        using False k nb(1,2,3) rd m
        by (subst q_to_b_loop.simps, unfold nc m) (simp add: cl_inv_cc [OF inv] Let_def of_nat_diff)
      have "\<exists>st' q'. q_to_b_loop (cfree_block st b) ?q (int (n - k)) (buf @ take k xs)
          = Inr ((buf @ take k xs) @ take (n - k) (drop k xs), st', q')
        \<and> cl_taken (cfree_block st b) ?q (c # bs') (b # fs) st' q' (drop (n - k) (drop k xs))"
        using k by (intro less.IH nb(4)) auto
      then obtain st' q' where *: "q_to_b_loop (cfree_block st b) ?q (int (n - k)) (buf @ take k xs)
          = Inr ((buf @ take k xs) @ take (n - k) (drop k xs), st', q')"
        "cl_taken (cfree_block st b) ?q (c # bs') (b # fs) st' q' (drop (n - k) (drop k xs))" by blast
      have "take k xs @ take (n - k) (drop k xs) = take n xs"
        using k take_add [of k "n - k" xs] by simp
      moreover have "cl_taken st q bs fs st' q' (drop n xs)"
        using cl_taken_trans [OF cl_post_next_block [OF inv [unfolded nxt(1)], folded k_def] _ *(2)] k nxt(1)
        by simp
      ultimately show ?thesis using step *(1) by simp
    next
      case (adv b bs')
      then have m: "min n (cfirst bs (c_cf q) (c_cl q)) = n" by simp
      have "cl_taken st q bs fs st (q\<lparr>c_cc := c_cc q - int n, c_cf := c_cf q + n\<rparr>) (drop n xs)"
        using cl_taken_same [OF cl_post_advance [OF inv less.prems(2) adv(2)]] by simp
      with adv rd False show ?thesis
        by (subst q_to_b_loop.simps, unfold nc m) (simp add: cl_inv_cc [OF inv] Let_def q_to_b_loop.simps)
    qed
  qed
qed

lemma cl_taken_none: "cl_inv st q bs fs xs \<Longrightarrow> cl_taken st q bs fs st q xs"
  by (rule cl_taken_same) (simp_all add: cl_post_def)

lemma cl_inv_empty: "cl_inv st q bs fs [] \<Longrightarrow> bs = [] \<and> q = null_clist"
  by (simp add: cl_inv_def cq_rep_empty)

lemma q_to_b_spec:
  assumes "cl_inv st q bs fs xs"
  shows "\<exists>st' q'. q_to_b st q (int n) = Inr (take n xs, st', q')
    \<and> cl_taken st q bs fs st' q' (drop n xs)"
proof (cases "n = 0 \<or> xs = []")
  case True
  then show ?thesis
    using assms cl_inv_empty [of st q bs fs] cl_taken_none [OF assms]
    by (auto simp: q_to_b_def cl_inv_cc [OF assms])
next
  case False
  then have "bs \<noteq> []" using assms cq_rep_nonempty by (auto simp: cl_inv_def)
  with q_to_b_loop_spec [OF assms, of n "[]"] False show ?thesis
    by (simp add: q_to_b_def cl_inv_cc [OF assms])
qed

text \<open>The loop of \<open>ndflush\<close> leaves an emptied queue with a stale read pointer; the caller resets it.\<close>

lemma ndflush_loop_spec:
  assumes "cl_inv st q bs fs xs" "bs \<noteq> []"
  shows "\<exists>st' q'. ndflush_loop st q (int n) = Inr (st', q') \<and> c_cc q' = int (length xs - n)
    \<and> cl_taken st q bs fs st' (if length xs \<le> n then null_clist else q') (drop n xs)"
  using assms
proof (induction n arbitrary: st q bs fs xs rule: less_induct)
  case (less n)
  note inv = less.prems(1)
  show ?case
  proof (cases "n = 0")
    case True
    then show ?thesis
      using inv cl_inv_empty [of st q bs fs] less.prems(2) cl_taken_none [OF inv]
      by (cases xs) (auto simp: ndflush_loop.simps cl_inv_cc [OF inv])
  next
    case False
    obtain b bs0 where bs: "bs = b # bs0" using less.prems(2) by (cases bs) auto
    note first = cl_inv_first [OF inv [unfolded bs]] and last = cl_inv_last [OF inv less.prems(2)]
    have "b \<notin> set bs0" using inv bs by (auto simp: cl_inv_def cq_rep_def)
    then have lb: "b = last bs \<longleftrightarrow> bs0 = []" by (auto simp: bs)
    have rem: "int (if b = last bs then c_cl q else b + CBLOCK) - int (c_cf q)
      = int (cfirst bs (c_cf q) (c_cl q))"
      using first(3) inv by (cases bs0) (auto simp: bs lb cl_inv_def cq_rep_def)
    have pos: "0 < cfirst bs (c_cf q) (c_cl q)" using first(3,6,8) by (simp add: bs)
    have "0 < n" using False by simp
    show ?thesis
    using inv less.prems(2) \<open>0 < n\<close>
    proof (cases rule: cl_inv_take_cases)
      case (one b')
      have "cl_taken st q bs fs (cfree_block st b) null_clist []"
        using cl_taken_one [OF cl_post_last_block] inv one(1) bs by simp
      moreover have "c_cf q < c_cl q" using inv one(1) by (simp add: cl_inv_def cq_rep_def)
      ultimately show ?thesis
        using one False first(2,6) rem last(5)
        by (subst ndflush_loop.simps, subst ndflush_loop.simps)
          (simp add: bs cl_inv_cc [OF inv] Let_def)
    next
      case (nxt b' c bs')
      define k where "k = b + CBLOCK - c_cf q"
      have b: "b' = b" "bs0 = c # bs'" using nxt(1) bs by auto
      have m: "cfirst bs (c_cf q) (c_cl q) = k" using nxt b by (simp add: k_def)
      note nb = cl_inv_next_block [OF inv [unfolded bs b(2)], folded k_def]
      have k: "0 < k" "k \<le> n" "k < length xs" using pos m nxt b by (auto simp: k_def)
      let ?q = "q\<lparr>c_cc := c_cc q - int k, c_cf := c + CLINK\<rparr>"
      have step: "ndflush_loop st q (int n) = ndflush_loop (cfree_block st b) ?q (int (n - k))"
        using False k first(2,6) rem last(5) nb(1)
        by (subst ndflush_loop.simps) (simp add: m cl_inv_cc [OF inv] Let_def of_nat_diff)
      have "\<exists>st' q'. ndflush_loop (cfree_block st b) ?q (int (n - k)) = Inr (st', q')
        \<and> c_cc q' = int (length (drop k xs) - (n - k))
        \<and> cl_taken (cfree_block st b) ?q (c # bs') (b # fs) st'
            (if length (drop k xs) \<le> n - k then null_clist else q') (drop (n - k) (drop k xs))"
        using k by (intro less.IH nb(4)) auto
      moreover have "length (drop k xs) \<le> n - k \<longleftrightarrow> length xs \<le> n" "length (drop k xs) - (n - k) = length xs - n"
        "drop (n - k) (drop k xs) = drop n xs"
        using k by auto
      ultimately obtain st' q' where *: "ndflush_loop (cfree_block st b) ?q (int (n - k)) = Inr (st', q')"
        "c_cc q' = int (length xs - n)"
        "cl_taken (cfree_block st b) ?q (c # bs') (b # fs) st' (if length xs \<le> n then null_clist else q') (drop n xs)"
        by auto
      have "cl_taken st q bs fs st' (if length xs \<le> n then null_clist else q') (drop n xs)"
        using cl_taken_trans [OF cl_post_next_block [OF inv [unfolded bs b(2)], folded k_def] _ *(3)] bs b
        by simp
      then show ?thesis using step *(1,2) by simp
    next
      case (adv b' bs')
      have "cl_taken st q bs fs st (q\<lparr>c_cc := c_cc q - int n, c_cf := c_cf q + n\<rparr>) (drop n xs)"
        using cl_taken_same [OF cl_post_advance [OF inv less.prems(2) adv(2)]] by simp
      with adv False first(2,6) rem last(5) pos show ?thesis
        by (subst ndflush_loop.simps) (simp add: cl_inv_cc [OF inv] Let_def of_nat_diff)
    qed
  qed
qed

lemma ndflush_spec:
  assumes "cl_inv st q bs fs xs"
  shows "\<exists>st' q'. ndflush st q (int n) = Inr (st', q') \<and> cl_taken st q bs fs st' q' (drop n xs)"
proof (cases "xs = []")
  case True
  then show ?thesis
    using cl_taken_none [OF assms] by (simp add: ndflush_def cl_inv_cc [OF assms])
next
  case False
  then have "bs \<noteq> []" using assms cq_rep_nonempty by (auto simp: cl_inv_def)
  from ndflush_loop_spec [OF assms this, of n] obtain st' q' where
    "ndflush_loop st q (int n) = Inr (st', q')" "c_cc q' = int (length xs - n)"
    "cl_taken st q bs fs st' (if length xs \<le> n then null_clist else q') (drop n xs)" by blast
  with False show ?thesis by (auto simp: ndflush_def cl_inv_cc [OF assms])
qed

subsection \<open>Adding characters at the end\<close>

text \<open>Bytes behind the write pointer are not part of the queue.\<close>

lemma cdata_cong_before:
  assumes "\<And>i. cbase i \<in> set bs \<Longrightarrow> (cbase i = last bs \<Longrightarrow> i < e) \<Longrightarrow> m i = m' i"
    "\<forall>b\<in>set bs. coff b = 0" "distinct bs" "cspan bs a e"
  shows "cdata m bs a e = cdata m' bs a e"
  using assms
proof (induction m bs a e rule: cdata.induct)
  case (2 m b a e)
  then show ?case by (auto intro!: cread_cong simp: cbase_in)
next
  case (3 m b c bs a e)
  have "cread m a (b + CBLOCK - a) = cread m' a (b + CBLOCK - a)"
  proof (rule cread_cong)
    fix i assume "a \<le> i" "i < a + (b + CBLOCK - a)"
    with "3.prems"(2,4) have "cbase i = b" by (intro cbase_in) auto
    moreover have "b \<noteq> last (b # c # bs)" using "3.prems"(3) by auto
    ultimately show "m i = m' i" using "3.prems"(1) by auto
  qed
  moreover have "cdata m (c # bs) (c + CLINK) e = cdata m' (c # bs) (c + CLINK) e"
    using 3 by (intro "3.IH") auto
  ultimately show ?case by simp
qed simp

lemma cdata_extend:
  assumes "cspan bs a e" "e + n \<le> last bs + CBLOCK"
  shows "cspan bs a (e + n)" "cdata m bs a (e + n) = cdata m bs a e @ cread m e n"
proof -
  show "cspan bs a (e + n)" using assms by (induction bs a e rule: cspan.induct) auto
  show "cdata m bs a (e + n) = cdata m bs a e @ cread m e n" using assms
  proof (induction m bs a e rule: cdata.induct)
    case (2 m b a e)
    then have "cread m a (e + n - a) = cread m a (e - a) @ cread m e n"
      using cread_split [of "e - a" "e + n - a" m a] by simp
    then show ?case by simp
  qed auto
qed

lemma cdata_new_block:
  assumes "cspan bs a (last bs + CBLOCK)" "0 < n" "n \<le> CBSIZE"
  shows "cspan (bs @ [b]) a (b + CLINK + n)"
    "cdata m (bs @ [b]) a (b + CLINK + n) = cdata m bs a (last bs + CBLOCK) @ cread m (b + CLINK) n"
proof -
  have "cspan (bs @ [b]) a (b + CLINK + n) \<and>
    cdata m (bs @ [b]) a (b + CLINK + n) = cdata m bs a (last bs + CBLOCK) @ cread m (b + CLINK) n"
    if "cspan bs a e" "e = last bs + CBLOCK" for e
    using that assms(2,3)
  proof (induction bs a e rule: cspan.induct)
    case (3 b c bs a e)
    then show ?case by (cases bs) auto
  qed (auto simp: cconsts)
  with assms(1) show "cspan (bs @ [b]) a (b + CLINK + n)"
    "cdata m (bs @ [b]) a (b + CLINK + n) = cdata m bs a (last bs + CBLOCK) @ cread m (b + CLINK) n"
    by blast+
qed

lemma cwrite_outside: "i < a \<or> a + length ys \<le> i \<Longrightarrow> cwrite m a ys i = m i"
  by (auto simp: cwrite_def)

lemma cwrite_frame:
  assumes "coff b = 0" "b \<le> a" "a + length ys \<le> b + CBLOCK" "cbase i \<noteq> b"
  shows "cwrite m a ys i = m i"
  using assms cbase_in [of b i] by (intro cwrite_outside) linarith

lemma cl_inv_append:
  assumes inv: "cl_inv st q bs fs xs" "bs \<noteq> []" and le: "c_cl q + length ys \<le> last bs + CBLOCK"
  shows "cl_post st bs fs (st\<lparr>c_info := cwrite (c_info st) (c_cl q) ys\<rparr>)
    (q\<lparr>c_cc := c_cc q + int (length ys), c_cl := c_cl q + length ys\<rparr>) bs fs (xs @ ys)"
proof -
  note last = cl_inv_last [OF inv]
  have rep: "cpath (c_next st) (hd bs) bs 0" "distinct bs" "cspan bs (c_cf q) (c_cl q)"
    "xs = cdata (c_info st) bs (c_cf q) (c_cl q)" "c_cc q = int (length xs)"
    using inv by (simp_all add: cl_inv_def cq_rep_def)
  have al: "\<forall>b\<in>set bs. coff b = 0" using cpath_aligned [OF rep(1)] by blast
  have out: "cwrite (c_info st) (c_cl q) ys i = c_info st i" if "cbase i = last bs \<Longrightarrow> i < c_cl q" for i
    using that last(1,3) le cwrite_frame [of "last bs" "c_cl q" ys i]
    by (cases "cbase i = last bs") (auto simp: cwrite_outside)
  then have "cdata (cwrite (c_info st) (c_cl q) ys) bs (c_cf q) (c_cl q) = xs"
    unfolding rep(4) using rep(2,3) al by (intro cdata_cong_before) auto
  then have "cdata (cwrite (c_info st) (c_cl q) ys) bs (c_cf q) (c_cl q + length ys) = xs @ ys"
    using cdata_extend(2) [OF rep(3) le] by (simp add: cread_cwrite)
  with rep cdata_extend(1) [OF rep(3) le] inv
  have "cl_inv (st\<lparr>c_info := cwrite (c_info st) (c_cl q) ys\<rparr>)
    (q\<lparr>c_cc := c_cc q + int (length ys), c_cl := c_cl q + length ys\<rparr>) bs fs (xs @ ys)"
    by (simp add: cl_inv_def cq_rep_def cfree_rep_def)
  moreover have "cframe (set bs \<union> set fs) st (st\<lparr>c_info := cwrite (c_info st) (c_cl q) ys\<rparr>)"
    unfolding cframe_def
  proof (intro conjI allI impI)
    fix a assume "cbase a \<notin> set bs \<union> set fs"
    then have "cbase a \<noteq> last bs" using last(8) by auto
    then show "c_info (st\<lparr>c_info := cwrite (c_info st) (c_cl q) ys\<rparr>) a = c_info st a" using out by simp
  qed simp
  ultimately show ?thesis by (simp add: cl_post_def)
qed

lemma ctake_block_simps [simp]:
  "c_info (ctake_block st) = c_info st" "cfreelist (ctake_block st) = c_next st (cfreelist st)"
  "c_next (ctake_block st) = (c_next st)(cfreelist st := 0)"
  "cfreecount (ctake_block st) = cfreecount st - int CBSIZE"
  by (simp_all add: ctake_block_def Let_def)

lemma cfree_rep_Cons:
  "cfree_rep st (f # fs) \<longleftrightarrow> cfreelist st = f \<and> 0 < f \<and> coff f = 0 \<and> cpath (c_next st) (c_next st f) fs 0
     \<and> f \<notin> set fs \<and> distinct fs \<and> cfreecount st = int CBSIZE + int (CBSIZE * length fs)"
  by (auto simp: cfree_rep_def)

text \<open>The first free block becomes the last block of a queue whose last block is full.\<close>

lemma cl_inv_link_block:
  assumes inv: "cl_inv st q bs (f # fs) xs" "bs \<noteq> []" and full: "c_cl q = last bs + CBLOCK"
    and ys: "ys \<noteq> []" "length ys \<le> CBSIZE"
    and st': "c_next st' = (c_next st)(last bs := f, f := 0)" "cfreelist st' = c_next st f"
      "cfreecount st' = cfreecount st - int CBSIZE" "c_info st' = cwrite (c_info st) (f + CLINK) ys"
  shows "cl_post st bs (f # fs) st'
    (q\<lparr>c_cc := c_cc q + int (length ys), c_cl := f + CLINK + length ys\<rparr>) (bs @ [f]) fs (xs @ ys)"
proof -
  note last = cl_inv_last [OF inv]
  have rep: "cpath (c_next st) (hd bs) bs 0" "distinct bs" "cspan bs (c_cf q) (last bs + CBLOCK)"
    "xs = cdata (c_info st) bs (c_cf q) (last bs + CBLOCK)" "c_cc q = int (length xs)"
    using inv full by (simp_all add: cl_inv_def cq_rep_def)
  have free: "0 < f" "coff f = 0" "cpath (c_next st) (c_next st f) fs 0" "f \<notin> set fs" "distinct fs"
    "cfreecount st = int CBSIZE + int (CBSIZE * length fs)"
    using inv by (auto simp: cl_inv_def cfree_rep_Cons)
  have fbs: "f \<notin> set bs" "set bs \<inter> set fs = {}" using inv by (auto simp: cl_inv_def)
  then have lf: "last bs \<noteq> f" "last bs \<notin> set fs" using last(8) by auto
  have al: "\<forall>b\<in>set bs. coff b = 0" using cpath_aligned [OF rep(1)] by blast
  obtain bs0 where bs0: "bs = bs0 @ [last bs]" using inv(2) by (metis append_butlast_last_id)
  then have lbs0: "last bs \<notin> set bs0" "f \<notin> set bs0"
    using rep(2) fbs(1) by (metis distinct_append not_distinct_conv_prefix, metis butlast_snoc in_set_butlastD)
  have p0: "cpath (c_next st) (hd bs) bs0 (last bs)"
    using rep(1) by (subst (asm) (2) bs0) (auto simp: cpath_append)
  have path: "cpath (c_next st') (hd bs) (bs @ [f]) 0"
  proof -
    have "cpath (c_next st') (hd bs) (bs0 @ [last bs, f]) 0"
      using p0 lbs0 lf free last by (auto simp: cpath_append st'(1))
    then show ?thesis by (subst (2) bs0) simp
  qed
  have w: "cdata (c_info st') bs (c_cf q) (last bs + CBLOCK) = xs"
    unfolding rep(4) st'(4) using rep(2,3) al free ys(2) fbs(1)
    by (intro cdata_cong_before) (auto intro!: cwrite_frame [of f] simp: cconsts)
  have len: "0 < length ys" using ys(1) by simp
  have d: "cdata (c_info st') (bs @ [f]) (c_cf q) (f + CLINK + length ys) = xs @ ys"
    using cdata_new_block(2) [OF rep(3) len ys(2)] w by (simp add: st'(4) cread_cwrite)
  have "cq_rep st' (q\<lparr>c_cc := c_cc q + int (length ys), c_cl := f + CLINK + length ys\<rparr>) (bs @ [f]) (xs @ ys)"
    using path rep(2,5) fbs(1) cdata_new_block(1) [OF rep(3) len ys(2)] d inv(2) by (simp add: cq_rep_def)
  moreover have "cfree_rep st' fs"
    using free lf(2) by (simp add: cfree_rep_def st')
  moreover have "cframe (set bs \<union> set (f # fs)) st st'"
    using last(8) free ys(2) cwrite_frame [of f "f + CLINK" ys] by (auto simp: cframe_def st' cconsts)
  ultimately show ?thesis using fbs free(4) by (auto simp: cl_post_def cl_inv_def)
qed

text \<open>The first block of an empty queue.\<close>

lemma cl_inv_first_block:
  assumes inv: "cl_inv st q [] (f # fs) []"
    and ys: "ys \<noteq> []" "length ys \<le> CBSIZE"
    and st': "c_next st' = (c_next st)(f := 0)" "cfreelist st' = c_next st f"
      "cfreecount st' = cfreecount st - int CBSIZE" "c_info st' = cwrite (c_info st) (f + CLINK) ys"
  shows "cl_post st [] (f # fs) st'
    \<lparr>c_cc = int (length ys), c_cf = f + CLINK, c_cl = f + CLINK + length ys\<rparr> [f] fs ys"
proof -
  have free: "0 < f" "coff f = 0" "cpath (c_next st) (c_next st f) fs 0" "f \<notin> set fs" "distinct fs"
    "cfreecount st = int CBSIZE + int (CBSIZE * length fs)"
    using inv by (auto simp: cl_inv_def cfree_rep_Cons)
  have "cq_rep st' \<lparr>c_cc = int (length ys), c_cf = f + CLINK, c_cl = f + CLINK + length ys\<rparr> [f] ys"
    using free ys by (simp add: cq_rep_def st' cread_cwrite) (simp add: cconsts)
  moreover have "cfree_rep st' fs" using free by (simp add: cfree_rep_def st')
  moreover have "cframe (set (f # fs)) st st'"
    using free ys(2) cwrite_frame [of f "f + CLINK" ys] by (auto simp: cframe_def st' cconsts)
  ultimately show ?thesis using free(4) by (auto simp: cl_post_def cl_inv_def)
qed

text \<open>Room for characters without a new block.\<close>

definition croom :: "clist \<Rightarrow> nat list \<Rightarrow> nat" where
  "croom q bs = (if bs = [] then 0 else last bs + CBLOCK - c_cl q)"

lemma coff_less [simp]: "coff p < CBLOCK"
  by (simp add: coff_def CBLOCK_def)

lemma coff_clink: "coff f = 0 \<Longrightarrow> coff (f + CLINK) = CLINK"
  using coff_in [of f "f + CLINK"] by (simp add: cconsts)

lemma cl_inv_croom:
  assumes "cl_inv st q bs fs xs" "bs \<noteq> []"
  shows "coff (c_cl q) = 0 \<longleftrightarrow> croom q bs = 0" "coff (c_cl q) \<noteq> 0 \<Longrightarrow> CBLOCK - coff (c_cl q) = croom q bs"
    "c_cl q + croom q bs = last bs + CBLOCK" "c_cl q \<noteq> 0"
proof -
  note last = cl_inv_last [OF assms]
  show *: "c_cl q + croom q bs = last bs + CBLOCK" "c_cl q \<noteq> 0" using last assms(2) by (auto simp: croom_def)
  have "coff (c_cl q) = c_cl q - last bs" if "c_cl q < last bs + CBLOCK"
    using last that by (intro coff_in) auto
  moreover have "coff (last bs + CBLOCK) = 0" using last(3) by simp
  ultimately show "coff (c_cl q) = 0 \<longleftrightarrow> croom q bs = 0"
    "coff (c_cl q) \<noteq> 0 \<Longrightarrow> CBLOCK - coff (c_cl q) = croom q bs"
    using last(1,2) * by (cases "c_cl q < last bs + CBLOCK"; force)+
qed

lemma b_to_q_loop_Nil [simp]: "b_to_q_loop st cq [] = ([], st, cq)"
  by (simp add: b_to_q_loop.simps)

lemma b_to_q_loop_spec:
  fixes cp :: "byte list"
  assumes "cl_inv st q bs fs xs" "bs \<noteq> []"
  defines "k \<equiv> min (length cp) (croom q bs + CBSIZE * length fs)"
  shows "\<exists>st' cl' bs' fs'. b_to_q_loop st (c_cl q) cp = (drop k cp, st', cl')
    \<and> cl_post st bs fs st' (q\<lparr>c_cl := cl', c_cc := c_cc q + int k\<rparr>) bs' fs' (xs @ take k cp)"
  using assms(1,2) unfolding k_def
proof (induction "length cp" arbitrary: st q bs fs xs cp rule: less_induct)
  case less
  note inv = less.prems and room = cl_inv_croom [OF less.prems]
  have goal: ?case if step: "b_to_q_loop st (c_cl q) cp = b_to_q_loop st1 (c_cl q1) (drop n cp)"
    and n: "0 < n" "n \<le> length cp" and post: "cl_post st bs fs st1 q1 bs1 fs1 (xs @ take n cp)"
    and q1: "c_cf q1 = c_cf q" "c_cc q1 = c_cc q + int n" and bs1: "bs1 \<noteq> []"
    and rm: "croom q1 bs1 + CBSIZE * length fs1 + n = croom q bs + CBSIZE * length fs" for st1 q1 n bs1 fs1
  proof -
    let ?k1 = "min (length (drop n cp)) (croom q1 bs1 + CBSIZE * length fs1)"
    let ?k = "min (length cp) (croom q bs + CBSIZE * length fs)"
    have "cl_inv st1 q1 bs1 fs1 (xs @ take n cp)" using post by (simp add: cl_post_def)
    moreover have "length (drop n cp) < length cp" using n by simp
    ultimately obtain st' cl' bs' fs' where
      *: "b_to_q_loop st1 (c_cl q1) (drop n cp) = (drop ?k1 (drop n cp), st', cl')"
      "cl_post st1 bs1 fs1 st' (q1\<lparr>c_cl := cl', c_cc := c_cc q1 + int ?k1\<rparr>) bs' fs'
         ((xs @ take n cp) @ take ?k1 (drop n cp))" using less.hyps bs1 by blast
    have kk: "?k = n + ?k1" using n rm by auto
    have "drop ?k1 (drop n cp) = drop ?k cp" by (simp only: kk drop_drop add.commute)
    moreover have "take n cp @ take ?k1 (drop n cp) = take ?k cp" by (simp only: kk take_add)
    moreover have "q1\<lparr>c_cl := cl', c_cc := c_cc q1 + int ?k1\<rparr> = q\<lparr>c_cl := cl', c_cc := c_cc q + int ?k\<rparr>"
      unfolding kk using q1 by simp
    ultimately show ?case using step * cl_post_trans [OF post *(2)] by (metis append.assoc)
  qed
  consider (stop) "cp = []" | (room) "cp \<noteq> []" "croom q bs \<noteq> 0"
    | (full) "cp \<noteq> []" "croom q bs = 0" "fs = []"
    | (new) f fs' where "cp \<noteq> []" "croom q bs = 0" "fs = f # fs'" by (cases fs) auto
  then show ?case
  proof cases
    case stop
    then show ?thesis using inv by (auto simp: cl_post_def)
  next
    case room
    let ?n = "min (length cp) (croom q bs)"
    have le: "c_cl q + length (take ?n cp) \<le> last bs + CBLOCK" using cl_inv_croom(3) [OF inv] by simp
    show ?thesis
    proof (rule goal [of "st\<lparr>c_info := cwrite (c_info st) (c_cl q) (take ?n cp)\<rparr>"
          "q\<lparr>c_cc := c_cc q + int ?n, c_cl := c_cl q + ?n\<rparr>" ?n])
      show "cl_post st bs fs (st\<lparr>c_info := cwrite (c_info st) (c_cl q) (take ?n cp)\<rparr>)
        (q\<lparr>c_cc := c_cc q + int ?n, c_cl := c_cl q + ?n\<rparr>) bs fs (xs @ take ?n cp)"
        using cl_inv_append [OF inv le] by simp
    qed (use room inv cl_inv_croom [OF inv] in \<open>auto simp: b_to_q_loop.simps [of st] Let_def croom_def\<close>)
  next
    case full
    then have "cfreelist st = 0" "(c_next st)(last bs := 0) = c_next st"
      using inv cl_inv_last(6) [OF inv] by (auto simp: cl_inv_def cfree_rep_def)
    with full cl_inv_croom [OF inv] have "b_to_q_loop st (c_cl q) cp = (cp, st, c_cl q)"
      by (subst b_to_q_loop.simps) (auto simp: Let_def)
    moreover have "cl_post st bs fs st q bs fs xs" using inv by (simp add: cl_post_def)
    ultimately show ?thesis using full by auto
  next
    case new
    let ?n = "min (length cp) CBSIZE"
    define st1 where "st1 = (ctake_block (st\<lparr>c_next := (c_next st)(last bs := f)\<rparr>))
      \<lparr>c_info := cwrite (c_info st) (f + CLINK) (take ?n cp)\<rparr>"
    have f: "cfreelist st = f" "0 < f" "coff f = 0" "f \<noteq> last bs"
      using inv new(3) cl_inv_last(8) [OF inv] by (auto simp: cl_inv_def cfree_rep_Cons)
    have cl: "c_cl q = last bs + CBLOCK" "coff (c_cl q) = 0" using cl_inv_croom [OF inv] new by auto
    have "b_to_q_loop st (c_cl q) cp = b_to_q_loop st1 (f + CLINK + ?n) (drop ?n cp)"
      using f cl new(1) coff_clink [OF f(3)]
      by (subst b_to_q_loop.simps) (simp add: Let_def st1_def cconsts)
    moreover have "cl_post st bs fs st1 (q\<lparr>c_cc := c_cc q + int (length (take ?n cp)), c_cl := f + CLINK + length (take ?n cp)\<rparr>)
      (bs @ [f]) fs' (xs @ take ?n cp)"
      unfolding new(3) using inv new f cl
      by (intro cl_inv_link_block) (auto simp: st1_def CBSIZE_def)
    ultimately show ?thesis
      using new by (intro goal [of st1 "q\<lparr>c_cc := c_cc q + int ?n, c_cl := f + CLINK + ?n\<rparr>" ?n "bs @ [f]" fs'])
        (auto simp: croom_def cconsts)
  qed
qed

lemma b_to_q_spec:
  fixes cp :: "byte list"
  assumes inv: "cl_inv st q bs fs xs"
  defines "k \<equiv> min (length cp) (croom q bs + CBSIZE * length fs)"
  shows "\<exists>st' q' bs' fs'. b_to_q st cp q = (drop k cp, st', q')
    \<and> cl_post st bs fs st' q' bs' fs' (xs @ take k cp)"
proof (cases "cp = []")
  case True
  then show ?thesis using inv by (auto simp: b_to_q_def cl_post_def)
next
  case ne: False
  show ?thesis
  proof (cases "bs = []")
    case False
    from b_to_q_loop_spec [OF inv False, of cp] obtain st' cl' bs' fs' where
      "b_to_q_loop st (c_cl q) cp = (drop k cp, st', cl')"
      "cl_post st bs fs st' (q\<lparr>c_cl := cl', c_cc := c_cc q + int k\<rparr>) bs' fs' (xs @ take k cp)"
      unfolding k_def by blast
    moreover have "length cp - length (drop k cp) = k" by (simp add: k_def)
    ultimately show ?thesis
      using ne cl_inv_croom(4) [OF inv False] by (auto simp: b_to_q_def cl_inv_cc [OF inv])
  next
    case True
    then have q: "q = null_clist" "xs = []" using inv by (auto simp: cl_inv_def)
    show ?thesis
    proof (cases fs)
      case Nil
      then have "cfreelist st = 0" using inv by (simp add: cl_inv_def cfree_rep_def)
      with Nil True q inv show ?thesis by (auto simp: b_to_q_def k_def croom_def cl_post_def)
    next
      case (Cons f fs')
      let ?n = "min (length cp) CBSIZE"
      have f: "cfreelist st = f" "0 < f" "coff f = 0" using inv Cons by (auto simp: cl_inv_def cfree_rep_Cons)
      define st1 where "st1 = (ctake_block st)\<lparr>c_info := cwrite (c_info st) (f + CLINK) (take ?n cp)\<rparr>"
      let ?q1 = "\<lparr>c_cc = int ?n, c_cf = f + CLINK, c_cl = f + CLINK + ?n\<rparr>"
      have len: "length (take ?n cp) = ?n" by simp
      have post: "cl_post st bs fs st1 ?q1 [f] fs' (take ?n cp)"
        using inv f ne unfolding Cons True q
        by (subst (1 2) len [symmetric], intro cl_inv_first_block) (auto simp: st1_def CBSIZE_def)
      have step: "b_to_q_loop (ctake_block st) (f + CLINK) cp = b_to_q_loop st1 (c_cl ?q1) (drop ?n cp)"
        using ne coff_clink [OF f(3)] by (subst b_to_q_loop.simps) (simp add: Let_def st1_def cconsts)
      define k1 where "k1 = min (length (drop ?n cp)) (croom ?q1 [f] + CBSIZE * length fs')"
      from post have "cl_inv st1 ?q1 [f] fs' (take ?n cp)" by (simp add: cl_post_def)
      from b_to_q_loop_spec [OF this, of "drop ?n cp", folded k1_def] obtain st' cl' bs' fs'' where
        *: "b_to_q_loop st1 (c_cl ?q1) (drop ?n cp) = (drop k1 (drop ?n cp), st', cl')"
        "cl_post st1 [f] fs' st' (?q1\<lparr>c_cl := cl', c_cc := c_cc ?q1 + int k1\<rparr>) bs' fs'' (take ?n cp @ take k1 (drop ?n cp))"
        by auto
      have k: "k = ?n + k1" by (auto simp: k_def k1_def Cons True croom_def cconsts)
      have "drop k1 (drop ?n cp) = drop k cp" by (simp only: k drop_drop add.commute)
      moreover have "take ?n cp @ take k1 (drop ?n cp) = take k cp" by (simp only: k take_add)
      moreover have "length cp - length (drop k cp) = ?n + k1" using k by (simp add: k_def)
      ultimately show ?thesis
        using * step cl_post_trans [OF post *(2)] f ne by (simp add: b_to_q_def q) blast
    qed
  qed
qed

lemma cwrite_single: "cwrite m a [c] = m(a := c)"
  by (auto simp: cwrite_def fun_eq_iff)

text \<open>\<open>putc\<close> is \<open>b_to_q\<close> of one character.\<close>

lemma putc_b_to_q:
  assumes "coff (cfreelist st) = 0"
  shows "putc st c q = (case b_to_q st [c] q of (rest, st', q') \<Rightarrow> (if rest = [] then 0 else -1, st', q'))"
proof -
  have "coff (cfreelist st + CLINK) \<noteq> 0" using coff_clink [OF assms] by (simp add: CLINK_def)
  moreover
  have "1 \<le> CBLOCK - coff p" for p using coff_less [of p] by linarith
  then have "min (Suc 0) (CBLOCK - coff p) = Suc 0" for p by (simp add: min_absorb1)
  ultimately show ?thesis
    by (auto simp: putc_def b_to_q_def b_to_q_loop.simps [of _ _ "[c]"] Let_def cwrite_single)
qed

subsection \<open>Taking the last character back\<close>

lemma cspan_blocks_le: "cspan bs a e \<Longrightarrow> length bs \<le> length (cdata m bs a e)"
  by (induction m bs a e rule: cdata.induct) auto

lemma cread_snoc: "cread m a (Suc n) = cread m a n @ [m (a + n)]"
  by (simp add: cread_def)

lemma unputc_walk_spec:
  "cpath nx p (bs @ [o1, l]) e \<Longrightarrow> distinct (bs @ [o1, l]) \<Longrightarrow> length bs < n \<Longrightarrow> unputc_walk n nx p l = Inr o1"
proof (induction bs arbitrary: p n)
  case Nil
  then show ?case by (cases n) auto
next
  case (Cons b bs)
  then obtain n' where "n = Suc n'" by (cases n) auto
  moreover have "nx b \<noteq> l" using Cons.prems(1,2) by (cases bs) auto
  ultimately show ?case using Cons by auto
qed

text \<open>Where the last character is: alone in the queue, alone in its block, or neither.\<close>

lemma cdata_unsnoc:
  assumes "cspan bs a e" "cdata m bs a e = xs @ [x]"
  shows "m (e - 1) = x \<and> (xs = [] \<and> length bs = 1
    \<or> xs \<noteq> [] \<and> e = last bs + CLINK + 1 \<and> butlast bs \<noteq> []
        \<and> cspan (butlast bs) a (last (butlast bs) + CBLOCK)
        \<and> xs = cdata m (butlast bs) a (last (butlast bs) + CBLOCK)
    \<or> xs \<noteq> [] \<and> e \<noteq> last bs + CLINK + 1 \<and> cspan bs a (e - 1) \<and> xs = cdata m bs a (e - 1))"
  using assms
proof (induction m bs a e arbitrary: xs rule: cdata.induct)
  case (2 m b a e)
  then obtain k where k: "e = a + Suc k" by (auto simp: less_iff_Suc_add)
  with 2 have "xs = cread m a k" "x = m (a + k)" by (auto simp: cread_snoc)
  with 2 k show ?case by (cases "k = 0") auto
next
  case (3 m b c bs a e)
  then obtain ys where ys: "cdata m (c # bs) (c + CLINK) e = ys @ [x]"
    using cspan_nonempty [of "c # bs" "c + CLINK" e m]
    by (cases "cdata m (c # bs) (c + CLINK) e" rule: rev_cases) auto
  with "3.prems" have xs: "xs = cread m a (b + CBLOCK - a) @ ys" by simp
  have ne: "xs \<noteq> []"
    using xs "3.prems"(1) by (metis append_is_Nil_conv length_cread list.size(3) cspan.simps(3) zero_less_diff less_numeral_extra(3))
  from "3.IH" [OF _ ys] "3.prems" have IH: "m (e - 1) = x \<and> (ys = [] \<and> length (c # bs) = 1
    \<or> ys \<noteq> [] \<and> e = last (c # bs) + CLINK + 1 \<and> butlast (c # bs) \<noteq> []
        \<and> cspan (butlast (c # bs)) (c + CLINK) (last (butlast (c # bs)) + CBLOCK)
        \<and> ys = cdata m (butlast (c # bs)) (c + CLINK) (last (butlast (c # bs)) + CBLOCK)
    \<or> ys \<noteq> [] \<and> e \<noteq> last (c # bs) + CLINK + 1 \<and> cspan (c # bs) (c + CLINK) (e - 1)
        \<and> ys = cdata m (c # bs) (c + CLINK) (e - 1))" by simp
  then consider "ys = []" "bs = []"
    | "bs \<noteq> []" "e = last (c # bs) + CLINK + 1" "cspan (butlast (c # bs)) (c + CLINK) (last (butlast (c # bs)) + CBLOCK)"
      "ys = cdata m (butlast (c # bs)) (c + CLINK) (last (butlast (c # bs)) + CBLOCK)"
    | "e \<noteq> last (c # bs) + CLINK + 1" "cspan (c # bs) (c + CLINK) (e - 1)"
        "ys = cdata m (c # bs) (c + CLINK) (e - 1)" by (auto split: if_splits)
  then show ?case
  proof cases
    case 1
    then have "length (cdata m [c] (c + CLINK) e) = 1" using ys by simp
    with 1 have "e = c + CLINK + 1" by simp
    with 1 ne xs IH "3.prems"(1) show ?thesis by simp
  next
    case 2
    with ne xs IH "3.prems"(1) show ?thesis by (cases "butlast bs = []") simp_all
  next
    case 3
    with ne xs IH "3.prems"(1) show ?thesis by simp
  qed
qed simp

lemma unputc_spec:
  assumes inv: "cl_inv st q bs fs (xs @ [x])"
  shows "\<exists>st' q' bs' fs'. unputc st q = Inr (sint x, st', q') \<and> cl_post st bs fs st' q' bs' fs' xs"
proof -
  have ne: "bs \<noteq> []" using inv by (auto simp: cl_inv_def)
  note last = cl_inv_last [OF inv ne]
  have rep: "cpath (c_next st) (hd bs) bs 0" "distinct bs" "cspan bs (c_cf q) (c_cl q)"
    "cdata (c_info st) bs (c_cf q) (c_cl q) = xs @ [x]" "c_cc q = int (length xs) + 1"
    using inv ne by (simp_all add: cl_inv_def cq_rep_def)
  note unsnoc = cdata_unsnoc [OF rep(3,4)]
  have fr: "cfree_rep st fs" "set bs \<inter> set fs = {}" using inv by (auto simp: cl_inv_def)
  have frl: "cfree_rep (cfree_quiet st (last bs)) (last bs # fs)"
    using fr last(3,4,8) by (intro cfree_block_rep) auto
  have off: "coff (c_cl q - 1) = c_cl q - 1 - last bs" using last by (intro coff_in) auto
  consider (one) "xs = []" "length bs = 1"
    | (blk) "xs \<noteq> []" "c_cl q = last bs + CLINK + 1" "butlast bs \<noteq> []"
        "cspan (butlast bs) (c_cf q) (last (butlast bs) + CBLOCK)"
        "xs = cdata (c_info st) (butlast bs) (c_cf q) (last (butlast bs) + CBLOCK)"
    | (same) "xs \<noteq> []" "c_cl q \<noteq> last bs + CLINK + 1" "cspan bs (c_cf q) (c_cl q - 1)"
        "xs = cdata (c_info st) bs (c_cf q) (c_cl q - 1)" using unsnoc by blast
  then show ?thesis
  proof cases
    case one
    then obtain b where b: "bs = [b]" by (cases bs) auto
    have "cl_post st bs fs (cfree_quiet st b) null_clist [] (b # fs) []"
      using frl by (simp add: cl_post_def cl_inv_def b cfree_quiet_frame)
    with one b unsnoc last(5) rep(5) show ?thesis by (auto simp: unputc_def Let_def)
  next
    case blk
    define bs0 where "bs0 = butlast (butlast bs)"
    define o1 where "o1 = last (butlast bs)"
    have bl: "butlast bs = bs0 @ [o1]" using blk(3) by (simp add: bs0_def o1_def)
    then have bs: "bs = bs0 @ [o1, last bs]" using ne by (metis append.assoc append_Cons append_Nil append_butlast_last_id)
    have dis: "distinct (bs0 @ [o1, last bs])" using rep(2) bs by simp
    have p: "cpath (c_next st) (hd bs) (bs0 @ [o1, last bs]) 0" using rep(1) bs by metis
    have "length bs \<le> length (xs @ [x])" using cspan_blocks_le [OF rep(3), of "c_info st"] rep(4) by simp
    then have len: "length bs0 < nat (c_cc q)" using arg_cong [OF bs, of length] rep(5) by simp
    have nx: "c_next st o1 = last bs" using p by (auto simp: cpath_append)
    have hdb: "cbase (c_cf q) = hd bs" using cl_inv_first(2) [of st q "hd bs" "tl bs"] inv ne by simp
    have w: "unputc_walk (nat (c_cc q)) (c_next st) (cbase (c_cf q)) (last bs) = Inr o1"
      unfolding hdb by (rule unputc_walk_spec [OF p dis len])
    define st' where "st' = (cfree_quiet st (last bs))\<lparr>c_next := (c_next (cfree_quiet st (last bs)))(o1 := 0)\<rparr>"
    define q' where "q' = q\<lparr>c_cc := c_cc q - 1, c_cl := o1 + CBLOCK\<rparr>"
    have "cpath (c_next st') (hd bs) (bs0 @ [o1]) 0"
      using p dis by (auto simp: cpath_append st'_def)
    then have "cpath (c_next st') (hd (butlast bs)) (butlast bs) 0" 
      unfolding bl [symmetric] using blk(3) by (cases bs) (auto split: if_splits)
    then have "cq_rep st' q' (butlast bs) xs"
      using blk dis bl rep(5) by (simp add: cq_rep_def q'_def o1_def [symmetric] st'_def)
    moreover have "o1 \<notin> set fs" using fr(2) by (subst (asm) bs) auto
    then have "cfree_rep st' (last bs # fs)" using frl dis by (auto simp: cfree_rep_def st'_def)
    moreover have "set (butlast bs) \<inter> set (last bs # fs) = {}" using fr(2) dis bl by (subst (asm) bs) auto
    moreover have "set (butlast bs) \<union> set (last bs # fs) = set bs \<union> set fs" "length (butlast bs) + length (last bs # fs) = length bs + length fs"
      using bl arg_cong [OF bs, of set] arg_cong [OF bs, of length] by auto
    moreover have "cframe (set bs \<union> set fs) st st'"
      using arg_cong [OF bs, of set] by (auto simp: cframe_def st'_def)
    ultimately have "cl_post st bs fs st' q' (butlast bs) (last bs # fs) xs"
      unfolding cl_post_def cl_inv_def by blast
    moreover have "unputc st q = Inr (sint x, st', q')"
      using w off last(5) blk(1,2) rep(5) unsnoc nx by (simp add: unputc_def Let_def st'_def q'_def CLINK_def)
    ultimately show ?thesis by blast
  next
    case same
    have "cl_post st bs fs st (q\<lparr>c_cc := c_cc q - 1, c_cl := c_cl q - 1\<rparr>) bs fs xs"
      using same inv ne rep by (simp add: cl_post_def cl_inv_def cq_rep_def)
    moreover have "coff (c_cl q - 1) \<noteq> CLINK" using off same(2) last(1) by auto
    ultimately show ?thesis
      using same(1) rep(5) unsnoc by (auto simp: unputc_def Let_def)
  qed
qed

subsection \<open>Looking at a queue\<close>

lemma ndqb_scan_takeWhile: "ndqb_scan cs flag = length (takeWhile (\<lambda>c. sint c AND flag = 0) cs)"
  by (induction cs) auto

lemma ndqb_span:
  assumes inv: "cl_inv st q (b # bs) fs xs"
  shows "int (cbase (c_cf q + CBSIZE)) - int (c_cf q) = int (b + CBLOCK - c_cf q)"
proof -
  note first = cl_inv_first [OF inv]
  have "coff (b + CBLOCK) = 0" using cq_rep_hd(2) inv by (auto simp: cl_inv_def)
  then have "cbase (c_cf q + CBSIZE) = b + CBLOCK"
    using first(3,4) by (intro cbase_in) (auto simp: cconsts)
  then show ?thesis using first(3) by simp
qed

text \<open>The addresses of a queue's characters, in order.\<close>

fun caddrs :: "nat list \<Rightarrow> nat \<Rightarrow> nat \<Rightarrow> nat list" where
  "caddrs [] a e = []"
| "caddrs [b] a e = [a..<e]"
| "caddrs (b # c # bs) a e = [a..<b + CBLOCK] @ caddrs (c # bs) (c + CLINK) e"

lemma cdata_caddrs: "cspan bs a e \<Longrightarrow> cdata m bs a e = map m (caddrs bs a e)"
  by (induction m bs a e rule: cdata.induct) (auto simp: cread_def)

lemma caddrs_hd: "cspan bs a e \<Longrightarrow> caddrs bs a e \<noteq> [] \<and> caddrs bs a e ! 0 = a"
  by (induction bs a e rule: cspan.induct) (auto simp: nth_append)

lemma caddrs_next:
  assumes "cspan bs a (c_cl q)" "cpath (c_next st) p bs 0" "distinct bs" "c_cc q \<noteq> 0" "i < length (caddrs bs a (c_cl q))"
  shows "nextc st q (caddrs bs a (c_cl q) ! i)
    = (if Suc i < length (caddrs bs a (c_cl q)) then caddrs bs a (c_cl q) ! Suc i else 0)"
  using assms
proof (induction bs a "c_cl q" arbitrary: p i rule: cspan.induct)
  case (2 b a)
  show ?case
  proof (cases "Suc i < length [a..<c_cl q]")
    case True
    then have "coff (a + i + 1) = a + i + 1 - b" using 2 by (intro coff_in) auto
    with 2 True show ?thesis by (auto simp: nextc_def cconsts)
  qed (use 2 in \<open>auto simp: nextc_def\<close>)
next
  case (3 b c bs a)
  let ?n = "b + CBLOCK - a"
  have al: "coff b = 0" "c_next st b = c" "cpath (c_next st) c (c # bs) 0" using "3.prems"(2) by auto
  have lb: "last (c # bs) \<noteq> b" using "3.prems"(3) by auto
  have ge: "c_cl q \<noteq> x" if "b < x" "x \<le> b + CBLOCK" for x
  proof
    assume x: "c_cl q = x"
    have "cbase (c_cl q - 1) = last (c # bs)"
      using cspan_last [of "c # bs" "c + CLINK" "c_cl q"] "3.prems"(1) cpath_aligned [OF al(3), of "last (c # bs)"]
      by (intro cbase_in) auto
    moreover have "cbase (c_cl q - 1) = b" using that x al(1) by (intro cbase_in) auto
    ultimately show False using lb by simp
  qed
  show ?case
  proof (cases "i < ?n")
    case True
    have ai: "caddrs (b # c # bs) a (c_cl q) ! i = a + i" using True by (simp add: nth_append)
    have nc: "a + i + 1 \<noteq> c_cl q" using ge [of "a + i + 1"] True "3.prems"(1) by fastforce
    have len: "Suc i < length (caddrs (b # c # bs) a (c_cl q))"
    proof -
      have "0 < length (caddrs (c # bs) (c + CLINK) (c_cl q))"
        using caddrs_hd [of "c # bs" "c + CLINK" "c_cl q"] "3.prems"(1) by simp
      then show ?thesis using True by (simp del: length_greater_0_conv)
    qed
    show ?thesis
    proof (cases "Suc i < ?n")
      case True
      then have "coff (a + i + 1) = a + i + 1 - b" using "3.prems"(1) al(1) by (intro coff_in) auto
      with True len ai nc "3.prems"(1,4) show ?thesis by (auto simp: nextc_def nth_append CLINK_def)
    next
      case False
      with True have "a + i + 1 = b + CBLOCK" by simp
      then have "nextc st q (a + i) = c + CLINK" using nc al "3.prems"(4) by (simp add: nextc_def)
      moreover have "caddrs (b # c # bs) a (c_cl q) ! Suc i = c + CLINK"
        using True False caddrs_hd [of "c # bs" "c + CLINK" "c_cl q"] "3.prems"(1) by (simp add: nth_append)
      ultimately show ?thesis using ai len by simp
    qed
  next
    case False
    define k where "k = i - ?n"
    have i: "i = ?n + k" using False by (simp add: k_def)
    have len: "length (caddrs (b # c # bs) a (c_cl q)) = ?n + length (caddrs (c # bs) (c + CLINK) (c_cl q))"
      by simp
    have nth: "caddrs (b # c # bs) a (c_cl q) ! (?n + m) = caddrs (c # bs) (c + CLINK) (c_cl q) ! m" for m
      by (simp add: nth_append)
    have "k < length (caddrs (c # bs) (c + CLINK) (c_cl q))" using "3.prems"(5) len i by linarith
    from "3.hyps" [OF _ al(3) _ "3.prems"(4) this] "3.prems"(1,3) show ?thesis
      using nth [of k] nth [of "Suc k"] len by (simp only: i add_Suc_right [symmetric] nat_add_left_cancel_less) auto
  qed
qed simp

subsection \<open>Several queues\<close>

text \<open>
  The queues \<open>qs\<close> hold the contents \<open>Q\<close>, pairwise disjoint and disjoint from the free list,
  and together with it use up the pool.
\<close>

definition cpool :: "cstore \<Rightarrow> ('i \<Rightarrow> clist) \<Rightarrow> ('i \<Rightarrow> nat list) \<Rightarrow> nat list \<Rightarrow> ('i \<Rightarrow> byte list) \<Rightarrow> nat set \<Rightarrow> bool" where
  "cpool st qs bss fs Q pool \<longleftrightarrow> (\<forall>i. cl_inv st (qs i) (bss i) fs (Q i))
     \<and> (\<forall>i j. i \<noteq> j \<longrightarrow> set (bss i) \<inter> set (bss j) = {}) \<and> (\<Union>i. set (bss i)) \<union> set fs = pool"

lemma cpool_step:
  assumes pool: "cpool st qs bss fs Q pool" and post: "cl_post st (bss i) fs st' q' bs' fs' xs'"
  shows "cpool st' (qs(i := q')) (bss(i := bs')) fs' (Q(i := xs')) pool"
proof -
  have sets: "set bs' \<union> set fs' = set (bss i) \<union> set fs" and fr: "cframe (set (bss i) \<union> set fs) st st'"
    and inv': "cl_inv st' q' bs' fs' xs'" using post by (auto simp: cl_post_def)
  have dis: "set (bss j) \<inter> (set (bss i) \<union> set fs) = {}" if "j \<noteq> i" for j
    using pool that unfolding cpool_def cl_inv_def by (metis Int_Un_distrib Un_empty)
  have "cl_inv st' (qs j) (bss j) fs' (Q j)" if "j \<noteq> i" for j
  proof -
    have "cq_rep st' (qs j) (bss j) (Q j)"
      using pool dis [OF that] fr by (intro cq_rep_frame [OF _ fr]) (auto simp: cpool_def cl_inv_def)
    moreover have "set (bss j) \<inter> set fs' = {}" using dis [OF that] sets by blast
    ultimately show ?thesis using inv' by (simp add: cl_inv_def)
  qed
  moreover have "set (bss j) \<inter> set bs' = {}" if "j \<noteq> i" for j using dis [OF that] sets by blast
  moreover have "(\<Union>j. set ((bss(i := bs')) j)) \<union> set fs' = pool"
  proof -
    have "(\<Union>j. set ((bss(i := bs')) j)) = set bs' \<union> (\<Union>j\<in>-{i}. set (bss j))" by (auto split: if_splits)
    moreover have "(\<Union>j. set (bss j)) = set (bss i) \<union> (\<Union>j\<in>-{i}. set (bss j))" by auto
    ultimately show ?thesis using pool sets by (auto simp: cpool_def)
  qed
  ultimately show ?thesis using pool inv' unfolding cpool_def by (auto simp: Int_commute)
qed

text \<open>Moving a chunk: what \<open>q_to_b\<close> frees is enough for \<open>b_to_q\<close>.\<close>

lemma catq_chunk_fits:
  assumes inv: "cl_inv st from bs fs xs" and taken: "cl_post st bs fs st' from' (drop k bs) fs' (drop (4 * CBSIZE) xs)"
    and cl: "drop k bs \<noteq> [] \<longrightarrow> c_cl from' = c_cl from"
  shows "length (take (4 * CBSIZE) xs) \<le> CBSIZE * length fs'"
proof (cases "bs = []")
  case True
  then show ?thesis using inv by (simp add: cl_inv_def)
next
  case ne: False
  have len: "length (drop k bs) + length fs' = length bs + length fs" using taken by (simp add: cl_post_def)
  have sp: "cspan bs (c_cf from) (c_cl from)" and xs: "xs = cdata (c_info st) bs (c_cf from) (c_cl from)"
    using inv ne by (simp_all add: cl_inv_def cq_rep_def)
  note l1 = cdata_length [OF sp, of "c_info st", folded xs]
  have hd1: "c_cf from - (hd bs + CLINK) < CBSIZE"
    using cspan_hd [of "hd bs" "tl bs" "c_cf from" "c_cl from"] sp ne by (simp add: cconsts) linarith
  show ?thesis
  proof (cases "drop k bs = []")
    case True
    then have "length bs \<le> length fs'" using len by simp
    then have "CBSIZE * length bs \<le> CBSIZE * length fs'" by simp
    moreover have "length (take (4 * CBSIZE) xs) \<le> length xs" by simp
    ultimately show ?thesis using l1 by linarith
  next
    case False
    have inv': "cl_inv st' from' (drop k bs) fs' (drop (4 * CBSIZE) xs)" using taken by (simp add: cl_post_def)
    then have sp': "cspan (drop k bs) (c_cf from') (c_cl from)"
      and xs': "drop (4 * CBSIZE) xs = cdata (c_info st') (drop k bs) (c_cf from') (c_cl from)"
      using False cl by (simp_all add: cl_inv_def cq_rep_def)
    note l2 = cdata_length [OF sp', of "c_info st'", folded xs']
    have hd2: "c_cf from' - (hd (drop k bs) + CLINK) < CBSIZE"
      using cspan_hd [of "hd (drop k bs)" "tl (drop k bs)" "c_cf from'" "c_cl from"] sp' False
      by (simp add: cconsts) linarith
    have "0 < length (drop (4 * CBSIZE) xs)" using cspan_nonempty [OF sp'] xs' by simp
    then have g: "4 * CBSIZE < length xs" by simp
    have lst: "last (drop k bs) = last bs" using False by simp
    have "CBSIZE * length (drop k bs) + CBSIZE * length fs' = CBSIZE * length bs + CBSIZE * length fs"
      using len by (metis distrib_left)
    moreover have "length (drop (4 * CBSIZE) xs) + 4 * CBSIZE = length xs" using g by simp
    ultimately have "3 * CBSIZE < CBSIZE * length fs'" using l1 l2 [unfolded lst] hd1 hd2 by linarith
    then have "CBSIZE * 4 \<le> CBSIZE * length fs'" by (simp add: CBSIZE_def)
    moreover have "length (take (4 * CBSIZE) xs) \<le> CBSIZE * 4" by simp
    ultimately show ?thesis by linarith
  qed
qed

lemma catq_loop_spec:
  fixes i j :: 'i
  assumes "cpool st qs bss fs Q pool" "i \<noteq> j"
  shows "\<exists>st' to' bss' fs'. catq_loop st (qs i) (qs j) = Inr (st', null_clist, to')
    \<and> cpool st' (qs(i := null_clist, j := to')) bss' fs' (Q(i := [], j := Q j @ Q i)) pool"
  using assms(1)
proof (induction "length (Q i)" arbitrary: st qs bss fs Q rule: less_induct)
  case less
  note pool = less.prems
  have inv: "cl_inv st (qs i) (bss i) fs (Q i)" using pool by (simp add: cpool_def)
  show ?case
  proof (cases "Q i = []")
    case True
    then have "qs i = null_clist" using inv cl_inv_empty [of st "qs i" "bss i" fs] by simp
    moreover from this have "qs(i := null_clist, j := qs j) = qs" "Q(i := [], j := Q j @ Q i) = Q"
      using True by auto
    ultimately show ?thesis using pool
      by (intro exI [of _ st] exI [of _ "qs j"] exI [of _ bss] exI [of _ fs]) (simp add: catq_loop.simps)
  next
    case False
    define n where "n = 4 * CBSIZE"
    from q_to_b_spec [OF inv, of n] obtain st1 q1 k fs1 where
      qb: "q_to_b st (qs i) (int n) = Inr (take n (Q i), st1, q1)"
      and post1: "cl_post st (bss i) fs st1 q1 (drop k (bss i)) fs1 (drop n (Q i))"
      and cl: "drop k (bss i) \<noteq> [] \<longrightarrow> c_cl q1 = c_cl (qs i)" by (auto simp: cl_taken_def)
    let ?qs1 = "qs(i := q1)" and ?bss1 = "bss(i := drop k (bss i))" and ?Q1 = "Q(i := drop n (Q i))"
    have pool1: "cpool st1 ?qs1 ?bss1 fs1 ?Q1 pool" by (rule cpool_step [OF pool post1])
    have fits: "length (take n (Q i)) \<le> CBSIZE * length fs1"
      using catq_chunk_fits [OF inv post1 [unfolded n_def] cl] by (simp add: n_def)
    have inv1: "cl_inv st1 (qs j) (bss j) fs1 (Q j)" using pool1 assms(2) by (auto simp: cpool_def dest: spec [of _ j])
    have "min (length (take n (Q i))) (croom (qs j) (bss j) + CBSIZE * length fs1) = length (take n (Q i))"
      using fits by simp
    with b_to_q_spec [OF inv1, of "take n (Q i)"] obtain st2 to2 bs2 fs2 where
      bq: "b_to_q st1 (take n (Q i)) (qs j) = ([], st2, to2)"
      and post2: "cl_post st1 (bss j) fs1 st2 to2 bs2 fs2 (Q j @ take n (Q i))"
      by (metis drop_all order_refl take_all)
    have pool2: "cpool st2 (?qs1(j := to2)) (?bss1(j := bs2)) fs2 (?Q1(j := Q j @ take n (Q i))) pool"
      by (rule cpool_step [OF pool1]) (use post2 assms(2) in simp)
    have cc: "c_cc q1 = int (length (drop n (Q i)))" "c_cc (qs i) = int (length (Q i))"
      using post1 inv by (auto simp: cl_post_def dest: cl_inv_cc)
    have "0 < n" by (simp add: n_def CBSIZE_def)
    then have dec: "length (drop n (Q i)) < length (Q i)" using False by simp
    have step: "catq_loop st (qs i) (qs j) = catq_loop st2 q1 to2"
      using qb bq cc dec False by (subst catq_loop.simps) (simp add: n_def Let_def)
    from less.hyps [OF _ pool2] dec assms(2) obtain st' to' bss' fs' where
      "catq_loop st2 q1 to2 = Inr (st', null_clist, to')"
      "cpool st' ((?qs1(j := to2))(i := null_clist, j := to')) bss' fs'
        ((?Q1(j := Q j @ take n (Q i)))(i := [], j := (Q j @ take n (Q i)) @ drop n (Q i))) pool"
      by auto
    moreover have "(?qs1(j := to2))(i := null_clist, j := to') = qs(i := null_clist, j := to')"
      "(?Q1(j := Q j @ take n (Q i)))(i := [], j := (Q j @ take n (Q i)) @ drop n (Q i)) = Q(i := [], j := Q j @ Q i)"
      using assms(2) by (auto simp: fun_eq_iff)
    ultimately show ?thesis using step by metis
  qed
qed

section \<open>A family of first-in first-out channels\<close>

text \<open>
  The contract the terminal driver relies on, for any number of queues on one store. A script
  of writes and reads is run in order; \<open>queue_exec\<close> collects, per queue, the characters that
  were accepted and the characters that were delivered.
\<close>

datatype ('i, 'e) qop = QWrite 'i "'e list" | QRead 'i nat

fun queue_exec :: "('i \<Rightarrow> 'e list \<Rightarrow> 's \<Rightarrow> 'e list \<times> 's) \<Rightarrow> ('i \<Rightarrow> nat \<Rightarrow> 's \<Rightarrow> ('e list \<times> 's) kern)
    \<Rightarrow> ('i, 'e) qop list \<Rightarrow> 's \<Rightarrow> (('i \<Rightarrow> 'e list) \<times> ('i \<Rightarrow> 'e list) \<times> 's) kern" where
  "queue_exec wr rd [] s = Inr (\<lambda>_. [], \<lambda>_. [], s)"
| "queue_exec wr rd (QWrite i ys # ops) s =
     (let (rest, s') = wr i ys s
      in kbind (queue_exec wr rd ops s') (\<lambda>(acc, del, s'').
         Inr (acc(i := take (length ys - length rest) ys @ acc i), del, s'')))"
| "queue_exec wr rd (QRead i n # ops) s =
     kbind (rd i n s) (\<lambda>(out, s').
     kbind (queue_exec wr rd ops s') (\<lambda>(acc, del, s'').
       Inr (acc, del(i := out @ del i), s'')))"

locale queue_family =
  fixes rep :: "'s \<Rightarrow> ('i \<Rightarrow> 'e list) \<Rightarrow> bool"
    and wr :: "'i \<Rightarrow> 'e list \<Rightarrow> 's \<Rightarrow> 'e list \<times> 's"
    and rd :: "'i \<Rightarrow> nat \<Rightarrow> 's \<Rightarrow> ('e list \<times> 's) kern"
  assumes wr_law: "rep s Q \<Longrightarrow> \<exists>k s'. k \<le> length ys \<and> wr i ys s = (drop k ys, s') \<and> rep s' (Q(i := Q i @ take k ys))"
    and rd_law: "rep s Q \<Longrightarrow> \<exists>s'. rd i n s = Inr (take n (Q i), s') \<and> rep s' (Q(i := drop n (Q i)))"
begin

lemma exec_fifo:
  "rep s Q \<Longrightarrow> \<exists>acc del s' Q'. queue_exec wr rd ops s = Inr (acc, del, s') \<and> rep s' Q'
    \<and> (\<forall>i. del i @ Q' i = Q i @ acc i)"
proof (induction ops arbitrary: s Q)
  case Nil
  then show ?case by auto
next
  case (Cons op ops)
  show ?case
  proof (cases op)
    case (QWrite i ys)
    from wr_law [OF Cons.prems] obtain k s' where k: "k \<le> length ys" "wr i ys s = (drop k ys, s')"
      and s': "rep s' (Q(i := Q i @ take k ys))" by blast
    from Cons.IH [OF s'] obtain acc del s'' Q' where IH: "queue_exec wr rd ops s' = Inr (acc, del, s'')"
      "rep s'' Q'" "\<forall>j. del j @ Q' j = (Q(i := Q i @ take k ys)) j @ acc j" by blast
    then have "\<forall>j. del j @ Q' j = Q j @ (acc(i := take k ys @ acc i)) j" by auto
    moreover have "length ys - length (drop k ys) = k" using k(1) by simp
    ultimately show ?thesis using IH(1,2) k(2) QWrite by auto
  next
    case (QRead i n)
    from rd_law [OF Cons.prems] obtain s' where rd: "rd i n s = Inr (take n (Q i), s')"
      and s': "rep s' (Q(i := drop n (Q i)))" by blast
    from Cons.IH [OF s'] obtain acc del s'' Q' where IH: "queue_exec wr rd ops s' = Inr (acc, del, s'')"
      "rep s'' Q'" "\<forall>j. del j @ Q' j = (Q(i := drop n (Q i))) j @ acc j" by blast
    have "\<forall>j. (del(i := take n (Q i) @ del i)) j @ Q' j = Q j @ acc j"
      using IH(3) by (auto dest: spec [of _ i])
    moreover have "queue_exec wr rd (op # ops) s = Inr (acc, del(i := take n (Q i) @ del i), s'')"
      using IH(1) rd QRead by simp
    ultimately show ?thesis using IH(2) by blast
  qed
qed

end

definition clists_rep :: "nat set \<Rightarrow> cstore \<times> ('i \<Rightarrow> clist) \<Rightarrow> ('i \<Rightarrow> byte list) \<Rightarrow> bool" where
  "clists_rep pool s Q \<longleftrightarrow> (\<exists>bss fs. cpool (fst s) (snd s) bss fs Q pool)"

definition clists_wr :: "'i \<Rightarrow> byte list \<Rightarrow> cstore \<times> ('i \<Rightarrow> clist) \<Rightarrow> byte list \<times> cstore \<times> ('i \<Rightarrow> clist)" where
  "clists_wr i ys s = (case b_to_q (fst s) ys (snd s i) of (rest, st', q') \<Rightarrow> (rest, st', (snd s)(i := q')))"

definition clists_rd :: "'i \<Rightarrow> nat \<Rightarrow> cstore \<times> ('i \<Rightarrow> clist) \<Rightarrow> (byte list \<times> cstore \<times> ('i \<Rightarrow> clist)) kern" where
  "clists_rd i n s = kbind (q_to_b (fst s) (snd s i) (int n)) (\<lambda>(out, st', q'). Inr (out, st', (snd s)(i := q')))"

interpretation cq: queue_family "clists_rep pool" clists_wr clists_rd for pool :: "nat set"
proof
  fix s :: "cstore \<times> ('i \<Rightarrow> clist)" and Q i ys
  assume "clists_rep pool s Q"
  then obtain bss fs where pool: "cpool (fst s) (snd s) bss fs Q pool" by (auto simp: clists_rep_def)
  then have "cl_inv (fst s) (snd s i) (bss i) fs (Q i)" by (simp add: cpool_def)
  from b_to_q_spec [OF this, of ys] obtain k st' q' bs' fs' where
    "k \<le> length ys" "b_to_q (fst s) ys (snd s i) = (drop k ys, st', q')"
    and post: "cl_post (fst s) (bss i) fs st' q' bs' fs' (Q i @ take k ys)" by (metis min.cobounded1)
  with cpool_step [OF pool post]
  show "\<exists>k s'. k \<le> length ys \<and> clists_wr i ys s = (drop k ys, s') \<and> clists_rep pool s' (Q(i := Q i @ take k ys))"
    unfolding clists_wr_def clists_rep_def by (intro exI [of _ k] exI [of _ "(st', (snd s)(i := q'))"]) auto
next
  fix s :: "cstore \<times> ('i \<Rightarrow> clist)" and Q i n
  assume "clists_rep pool s Q"
  then obtain bss fs where pool: "cpool (fst s) (snd s) bss fs Q pool" by (auto simp: clists_rep_def)
  then have "cl_inv (fst s) (snd s i) (bss i) fs (Q i)" by (simp add: cpool_def)
  from q_to_b_spec [OF this, of n] obtain st' q' k fs' where
    "q_to_b (fst s) (snd s i) (int n) = Inr (take n (Q i), st', q')"
    and post: "cl_post (fst s) (bss i) fs st' q' (drop k (bss i)) fs' (drop n (Q i))"
    by (auto simp: cl_taken_def)
  with cpool_step [OF pool post]
  show "\<exists>s'. clists_rd i n s = Inr (take n (Q i), s') \<and> clists_rep pool s' (Q(i := drop n (Q i)))"
    unfolding clists_rd_def clists_rep_def by (intro exI [of _ "(st', (snd s)(i := q'))"]) auto
qed

section \<open>Properties\<close>

text \<open>A store with two free blocks, and one with a queue of two characters and a free block.\<close>

definition ex_store0 :: cstore where
  "ex_store0 = \<lparr>c_next = (\<lambda>_. 0)(64 := 128), c_info = (\<lambda>_. 0), cfreelist = 64, cfreecount = 120,
     cwaiting = False, cwakeups = 0\<rparr>"

definition ex_store2 :: cstore where
  "ex_store2 = \<lparr>c_next = (\<lambda>_. 0), c_info = (\<lambda>_. 0)(68 := 65, 69 := 255), cfreelist = 128, cfreecount = 60,
     cwaiting = True, cwakeups = 0\<rparr>"

definition ex_q2 :: clist where
  "ex_q2 = \<lparr>c_cc = 2, c_cf = 68, c_cl = 70\<rparr>"

lemma ex_store0_inv: "cl_inv ex_store0 null_clist [] [64, 128] []"
  by (simp add: cl_inv_def cfree_rep_def ex_store0_def cconsts coff_def)

lemma ex_store2_inv: "cl_inv ex_store2 ex_q2 [64] [128] [65, 255]"
  by (simp add: cl_inv_def cq_rep_def cfree_rep_def ex_store2_def ex_q2_def cconsts coff_def cread_def)

text \<open>
  C5. First in, first out, for every terminal at once: run any script of \<open>b_to_q\<close> and
  \<open>q_to_b\<close> calls on any queues that share a block pool. No call fails, and for every queue
  what was delivered followed by what is left is what was there followed by what was
  accepted: no character is lost, duplicated, reordered or leaked into another queue. The
  queues and the free list together still use exactly the blocks of the pool.
\<close>

theorem clist_fifo:
  assumes "clists_rep pool s Q"
  shows "\<exists>acc del s' Q'. queue_exec clists_wr clists_rd ops s = Inr (acc, del, s')
    \<and> clists_rep pool s' Q' \<and> (\<forall>i. del i @ Q' i = Q i @ acc i)"
  using assms by (rule cq.exec_fifo)

theorem clist_fifo_witness:
  "\<exists>acc del s' Q'. queue_exec clists_wr clists_rd
      [QWrite True [1, 2], QWrite False [3], QRead True 1] (ex_store0, \<lambda>_. null_clist) = Inr (acc, del, s')
    \<and> clists_rep {64, 128} s' Q' \<and> (\<forall>i. del i @ Q' i = acc i)"
proof -
  have "cpool ex_store0 (\<lambda>_ :: bool. null_clist) (\<lambda>_. []) [64, 128] (\<lambda>_. []) {64, 128}"
    using ex_store0_inv by (simp add: cpool_def)
  then have "clists_rep {64, 128} (ex_store0, \<lambda>_ :: bool. null_clist) (\<lambda>_. [])"
    unfolding clists_rep_def by auto
  from clist_fifo [OF this] show ?thesis by (simp only: append_Nil)
qed

text \<open>
  \<open>catq\<close> moves every character of \<open>from\<close> to the end of \<open>to\<close> and leaves \<open>from\<close> empty, even
  when the free list is empty: although the source ignores the count \<open>b_to_q\<close> returns, the
  blocks that \<open>q_to_b\<close> gives back always suffice. No other queue changes, no block is lost.
\<close>

theorem catq_keeps_all:
  assumes "cpool st qs bss fs Q pool" "i \<noteq> j"
  shows "\<exists>st' to' bss' fs'. catq st (qs i) (qs j) = Inr (st', null_clist, to')
    \<and> cpool st' (qs(i := null_clist, j := to')) bss' fs' (Q(i := [], j := Q j @ Q i)) pool"
proof (cases "Q j = []")
  case True
  have inv: "cl_inv st (qs j) (bss j) fs (Q j)" "cl_inv st (qs i) (bss i) fs (Q i)"
    using assms(1) by (simp_all add: cpool_def)
  then have e: "qs j = null_clist" "bss j = []" using True cl_inv_empty [of st "qs j"] by auto
  have "cpool st (qs(i := null_clist, j := qs i)) (bss(i := [], j := bss i)) fs (Q(i := [], j := Q i)) pool"
  proof -
    have "(\<Union>k. set ((bss(i := [], j := bss i)) k)) = (\<Union>k. set (bss k))"
      using e(2) assms(2) by (auto split: if_splits) (metis empty_iff empty_set fun_upd_other fun_upd_same)
    moreover have "cl_inv st null_clist [] fs []" using inv(1) True e by simp
    ultimately show ?thesis using assms inv(2) by (auto simp: cpool_def)
  qed
  with True e show ?thesis by (auto simp: catq_def)
next
  case False
  have "cl_inv st (qs j) (bss j) fs (Q j)" using assms(1) by (simp add: cpool_def)
  with False have "c_cc (qs j) \<noteq> 0" by (simp add: cl_inv_cc)
  with catq_loop_spec [OF assms] show ?thesis by (simp add: catq_def)
qed

theorem catq_keeps_all_witness:
  "\<exists>st' to' bss' fs'. catq ex_store2 ex_q2 null_clist = Inr (st', null_clist, to')
    \<and> cpool st' (\<lambda>i. if i then null_clist else to') bss' fs' (\<lambda>i. if i then [] else [65, 255]) {64, 128}"
proof -
  have "cpool ex_store2 (\<lambda>i. if i then ex_q2 else null_clist) (\<lambda>i. if i then [64] else []) [128]
    (\<lambda>i. if i then [65, 255] else []) {64, 128}"
    using ex_store2_inv by (auto simp: cpool_def cl_inv_def)
  from catq_keeps_all [OF this, of True False] obtain st' to' bss' fs' where
    "catq ex_store2 ex_q2 null_clist = Inr (st', null_clist, to')"
    "cpool st' ((\<lambda>i. if i then ex_q2 else null_clist)(True := null_clist, False := to')) bss' fs'
      ((\<lambda>i. if i then [65, 255] else [])(True := [], False := [] @ [65, 255])) {64, 128}" by auto
  moreover have "((\<lambda>i. if i then ex_q2 else null_clist)(True := null_clist, False := to')) = (\<lambda>i. if i then null_clist else to')"
    "((\<lambda>i. if i then [65, 255] else [])(True := [], False := [] @ [65, 255 :: byte])) = (\<lambda>i. if i then [] else [65, 255])"
    by auto
  ultimately show ?thesis by metis
qed

text \<open>
  \<open>getc\<close> on every branch: on an empty queue it returns \<open>-1\<close> and leaves the store alone;
  otherwise it returns the first character as a number from 0 to 255, the queue then holds
  the rest, and no block is lost or touched outside the queue and the free list.
\<close>

theorem getc_correct:
  assumes "cl_inv st q bs fs xs"
  shows "case xs of [] \<Rightarrow> getc st q = (-1, st, q)
    | x # ys \<Rightarrow> \<exists>st' q' bs' fs'. getc st q = (uint x, st', q') \<and> cl_post st bs fs st' q' bs' fs' ys"
  using assms getc_empty [of st q bs fs] cl_inv_empty [of st q bs fs] getc_nonempty [of st q bs fs]
  by (cases xs) auto

theorem getc_correct_witness:
  "\<exists>st' q' bs' fs'. getc ex_store2 ex_q2 = (65, st', q') \<and> cl_post ex_store2 [64] [128] st' q' bs' fs' [255]"
  using getc_correct [OF ex_store2_inv] by simp

text \<open>
  \<open>putc\<close> appends the character and returns 0 exactly when the last block has room or a
  free block exists; otherwise it returns \<open>-1\<close> and the queue holds what it held. Either
  way the blocks are conserved and other queues are untouched.
\<close>

theorem putc_correct:
  assumes inv: "cl_inv st q bs fs xs"
  shows "\<exists>r st' q' bs' fs'. putc st c q = (r, st', q')
    \<and> (if croom q bs = 0 \<and> fs = [] then r = -1 \<and> cl_post st bs fs st' q' bs' fs' xs
       else r = 0 \<and> cl_post st bs fs st' q' bs' fs' (xs @ [c]))"
proof -
  have "coff (cfreelist st) = 0"
    using inv by (cases fs) (auto simp: cl_inv_def cfree_rep_def coff_def)
  note put = putc_b_to_q [OF this, of c q]
  let ?k = "min (length [c]) (croom q bs + CBSIZE * length fs)"
  from b_to_q_spec [OF inv, of "[c]"] obtain st' q' bs' fs' where
    *: "b_to_q st [c] q = (drop ?k [c], st', q')" "cl_post st bs fs st' q' bs' fs' (xs @ take ?k [c])" by blast
  show ?thesis
  proof (cases "croom q bs = 0 \<and> fs = []")
    case True
    with * put show ?thesis by auto
  next
    case False
    then have "0 < croom q bs + CBSIZE * length fs" by (cases fs) (auto simp: CBSIZE_def)
    moreover have "min (length [c]) n = 1" if "0 < n" for n using that by (simp add: min_def)
    ultimately have "?k = 1" by (metis (lifting))
    with False * put show ?thesis by auto
  qed
qed

theorem putc_correct_witness:
  "\<exists>st' q' bs' fs'. putc ex_store2 7 ex_q2 = (0, st', q') \<and> cl_post ex_store2 [64] [128] st' q' bs' fs' [65, 255, 7]"
  using putc_correct [OF ex_store2_inv, of 7] by simp

text \<open>
  \<open>unputc\<close> takes back the last character, also when that empties the last block and the
  previous one has to be found by walking the chain, which always ends. What it returns is
  the sign-extended character, unlike \<open>getc\<close>.
\<close>

theorem unputc_correct:
  assumes "cl_inv st q bs fs xs"
  shows "if xs = [] then unputc st q = Inr (-1, st, q)
    else \<exists>st' q' bs' fs'. unputc st q = Inr (sint (last xs), st', q')
      \<and> cl_post st bs fs st' q' bs' fs' (butlast xs)"
proof (cases "xs = []")
  case True
  then show ?thesis using assms by (simp add: unputc_def cl_inv_cc)
next
  case False
  then show ?thesis using unputc_spec [of st q bs fs "butlast xs" "last xs"] assms by simp
qed

theorem unputc_correct_witness:
  "\<exists>st' q' bs' fs'. unputc ex_store2 ex_q2 = Inr (-1, st', q') \<and> cl_post ex_store2 [64] [128] st' q' bs' fs' [65]"
  using unputc_correct [OF ex_store2_inv] by simp

text \<open>
  \<open>ndflush\<close> drops exactly the first \<open>cc\<close> characters (all, if there are fewer), frees the
  blocks they filled and always ends.
\<close>

theorem ndflush_correct:
  assumes "cl_inv st q bs fs xs"
  shows "\<exists>st' q' bs' fs'. ndflush st q (int cc) = Inr (st', q') \<and> cl_post st bs fs st' q' bs' fs' (drop cc xs)"
  using ndflush_spec [OF assms, of cc] by (auto simp: cl_taken_def)

theorem ndflush_correct_witness:
  "\<exists>st' q' bs' fs'. ndflush ex_store2 ex_q2 (int 1) = Inr (st', q') \<and> cl_post ex_store2 [64] [128] st' q' bs' fs' [255]"
  using ndflush_correct [OF ex_store2_inv, of 1] by simp

text \<open>
  Looking without taking: \<open>nextc\<close>, started at \<open>c_cf\<close>, visits the addresses of exactly the
  characters of the queue, in order, and then returns null; and \<open>ndqb\<close> returns how many
  characters, from the first on, lie contiguously in the first block, with a flag how many
  of them come before the first one that has a flag bit set.
\<close>

theorem nextc_ndqb_correct:
  assumes inv: "cl_inv st q bs fs xs" and ne: "xs \<noteq> []"
  shows "\<exists>as f. as ! 0 = c_cf q \<and> map (c_info st) as = xs
    \<and> (\<forall>i<length as. nextc st q (as ! i) = (if Suc i < length as then as ! Suc i else 0))
    \<and> 0 < f \<and> f \<le> length xs \<and> take f as = [c_cf q..<c_cf q + f]
    \<and> (\<forall>flag. ndqb st q flag = (if flag = 0 then int f
         else int (length (takeWhile (\<lambda>c. sint c AND flag = 0) (take f xs)))))"
proof -
  obtain b bs0 where bs: "bs = b # bs0" using inv ne by (cases bs) (auto simp: cl_inv_def)
  note first = cl_inv_first [OF inv [unfolded bs]]
  have rep: "cpath (c_next st) (hd bs) bs 0" "distinct bs" "cspan bs (c_cf q) (c_cl q)"
    "xs = cdata (c_info st) bs (c_cf q) (c_cl q)" "c_cc q = int (length xs)"
    using inv bs by (simp_all add: cl_inv_def cq_rep_def)
  let ?as = "caddrs bs (c_cf q) (c_cl q)" and ?f = "cfirst bs (c_cf q) (c_cl q)"
  have as: "map (c_info st) ?as = xs" "?as ! 0 = c_cf q"
    using cdata_caddrs [OF rep(3)] rep(4) caddrs_hd [OF rep(3)] by auto
  have nx: "\<forall>i<length ?as. nextc st q (?as ! i) = (if Suc i < length ?as then ?as ! Suc i else 0)"
    using caddrs_next [OF rep(3,1,2)] ne rep(5) by simp
  have f: "0 < ?f" "?f \<le> length xs" using cfirst_pos [OF rep(3)] cfirst_le [OF rep(3)] rep(4) by auto
  have "take ?f ?as = [c_cf q..<c_cf q + ?f]"
    using rep(3) first(3) by (cases bs0) (auto simp: bs)
  moreover have "ndqb st q flag = (if flag = 0 then int ?f
         else int (length (takeWhile (\<lambda>c. sint c AND flag = 0) (take ?f xs))))" for flag
  proof -
    have "(if c_cc q < int (b + CBLOCK - c_cf q) then c_cc q else int (b + CBLOCK - c_cf q)) = int ?f"
      using first(8) by (simp add: bs rep(5))
    moreover have "take ?f xs = cread (c_info st) (c_cf q) ?f" using cdata_take [OF rep(3)] rep(4) by simp
    ultimately show ?thesis
      using ne by (simp add: ndqb_def Let_def ndqb_span [OF inv [unfolded bs]] rep(5) ndqb_scan_takeWhile)
  qed
  ultimately show ?thesis using as nx f by blast
qed

theorem nextc_ndqb_correct_witness:
  "\<exists>as f. as ! 0 = 68 \<and> map (c_info ex_store2) as = [65, 255]
    \<and> (\<forall>i<length as. nextc ex_store2 ex_q2 (as ! i) = (if Suc i < length as then as ! Suc i else 0))
    \<and> 0 < f \<and> f \<le> 2 \<and> ndqb ex_store2 ex_q2 0 = int f"
proof -
  have ne: "[65, 255 :: byte] \<noteq> []" by simp
  show ?thesis
    using nextc_ndqb_correct [OF ex_store2_inv ne]
    by (elim ex_forward conjE) (auto simp: ex_q2_def dest: spec [of _ 0])
qed

end
