(* ===== verification/Timeval.thy ===== *)
theory Timeval
  imports Prelude
begin

text \<open>
  Time values and interval timers, \<^verbatim>\<open>sys/sys/kern_time.c\<close> with the macros of \<^verbatim>\<open>sys/h/time.h\<close>
  and the parts of \<^verbatim>\<open>sys/sys/kern_clock.c\<close> that compute with them: normalised seconds and
  microseconds, the decrement that reloads a periodic timer, the conversion of an absolute
  time into clock ticks, and the gradual correction of the clock. A \<^verbatim>\<open>long\<close> is an integer
  of 32 bits: the sums, differences and products that need not fit are wrapped.
\<close>

section \<open>Time values\<close>

record timeval =
  tv_sec :: int
  tv_usec :: int

definition timerisset :: "timeval \<Rightarrow> bool" where
  "timerisset tv \<longleftrightarrow> tv_sec tv \<noteq> 0 \<or> tv_usec tv \<noteq> 0"

definition timerclear :: timeval where
  "timerclear = \<lparr>tv_sec = 0, tv_usec = 0\<rparr>"

text \<open>\<^verbatim>\<open>timercmp(tvp, uvp, <)\<close>; the source also uses it with \<^verbatim>\<open>>\<close>, which swaps the arguments.\<close>

definition timer_less :: "timeval \<Rightarrow> timeval \<Rightarrow> bool" where
  "timer_less t u \<longleftrightarrow> tv_sec t < tv_sec u \<or> tv_sec t = tv_sec u \<and> tv_usec t < tv_usec u"

definition timevalfix :: "timeval \<Rightarrow> timeval" where
  "timevalfix t1 =
     (let t = (if tv_usec t1 < 0 then \<lparr>tv_sec = wrap32 (tv_sec t1 - 1), tv_usec = tv_usec t1 + 1000000\<rparr> else t1)
      in if tv_usec t \<ge> 1000000 then \<lparr>tv_sec = wrap32 (tv_sec t + 1), tv_usec = tv_usec t - 1000000\<rparr> else t)"

definition timevaladd :: "timeval \<Rightarrow> timeval \<Rightarrow> timeval" where
  "timevaladd t1 t2 = timevalfix \<lparr>tv_sec = wrap32 (tv_sec t1 + tv_sec t2), tv_usec = wrap32 (tv_usec t1 + tv_usec t2)\<rparr>"

definition timevalsub :: "timeval \<Rightarrow> timeval \<Rightarrow> timeval" where
  "timevalsub t1 t2 = timevalfix \<lparr>tv_sec = wrap32 (tv_sec t1 - tv_sec t2), tv_usec = wrap32 (tv_usec t1 - tv_usec t2)\<rparr>"

text \<open>\<^verbatim>\<open>BUMPTIME\<close> of \<^verbatim>\<open>kern_clock.c\<close>.\<close>

definition bumptime :: "timeval \<Rightarrow> int \<Rightarrow> timeval" where
  "bumptime t usec =
     (let u = tv_usec t + usec
      in if u \<ge> 1000000 then \<lparr>tv_sec = wrap32 (tv_sec t + 1), tv_usec = u - 1000000\<rparr>
         else \<lparr>tv_sec = tv_sec t, tv_usec = u\<rparr>)"

subsection \<open>Meaning: microseconds\<close>

definition tv_us :: "timeval \<Rightarrow> int" where
  "tv_us t = tv_sec t * 1000000 + tv_usec t"

definition tv_wf :: "timeval \<Rightarrow> bool" where
  "tv_wf t \<longleftrightarrow> 0 \<le> tv_usec t \<and> tv_usec t < 1000000"

named_theorems tv_defs \<open>definitions of the operations on time values\<close>

lemmas [tv_defs] = timerisset_def timerclear_def timer_less_def timevalfix_def timevaladd_def
  timevalsub_def bumptime_def tv_us_def tv_wf_def

lemma timer_less_us: "tv_wf t \<Longrightarrow> tv_wf u \<Longrightarrow> timer_less t u \<longleftrightarrow> tv_us t < tv_us u"
  by (auto simp: tv_defs)

text \<open>Sums and differences are exact as long as the seconds fit.\<close>

lemma wrap32_mod: "\<exists>k. wrap32 x = x + k * 4294967296"
proof
  show "wrap32 x = x + (- ((x + 2147483648) div 4294967296)) * 4294967296"
    by (simp add: wrap32_def minus_div_mult_eq_mod [symmetric])
qed

lemma timevaladd_us:
  assumes "tv_wf t" "tv_wf u" "-2147483648 \<le> tv_sec t + tv_sec u" "tv_us t + tv_us u < 2147483648000000"
  shows "tv_us (timevaladd t u) = tv_us t + tv_us u"
proof -
  have u: "wrap32 (tv_usec t + tv_usec u) = tv_usec t + tv_usec u" "0 \<le> tv_usec t + tv_usec u"
    using assms(1,2) by (auto simp: tv_wf_def)
  have s: "tv_sec t + tv_sec u < 2147483648" "1000000 \<le> tv_usec t + tv_usec u \<Longrightarrow> tv_sec t + tv_sec u + 1 < 2147483648"
    using assms(4) u(2) by (auto simp: tv_us_def)
  have w: "wrap32 (tv_sec t + tv_sec u) = tv_sec t + tv_sec u" using assms(3) s(1) by (rule wrap32_id)
  show ?thesis
  proof (cases "1000000 \<le> tv_usec t + tv_usec u")
    case True
    then have "wrap32 (tv_sec t + tv_sec u + 1) = tv_sec t + tv_sec u + 1" using assms(3) s(2) by simp
    then show ?thesis using True u w by (simp add: timevaladd_def timevalfix_def tv_us_def algebra_simps)
  next
    case False
    then show ?thesis using u w by (simp add: timevaladd_def timevalfix_def tv_us_def algebra_simps)
  qed
qed

lemma timevalsub_us:
  assumes "tv_wf t" "tv_wf u" "tv_sec t - tv_sec u < 2147483648" "-2147483648000000 \<le> tv_us t - tv_us u"
  shows "tv_us (timevalsub t u) = tv_us t - tv_us u"
proof -
  have u: "wrap32 (tv_usec t - tv_usec u) = tv_usec t - tv_usec u" "tv_usec t - tv_usec u < 1000000" "-1000000 < tv_usec t - tv_usec u"
    using assms(1,2) by (auto simp: tv_wf_def)
  have s: "-2147483648 \<le> tv_sec t - tv_sec u" "tv_usec t - tv_usec u < 0 \<Longrightarrow> -2147483648 \<le> tv_sec t - tv_sec u - 1"
    using assms(4) u(2) by (auto simp: tv_us_def)
  have w: "wrap32 (tv_sec t - tv_sec u) = tv_sec t - tv_sec u" using s(1) assms(3) by (rule wrap32_id)
  show ?thesis
  proof (cases "tv_usec t - tv_usec u < 0")
    case True
    then have "wrap32 (tv_sec t - tv_sec u - 1) = tv_sec t - tv_sec u - 1" using assms(3) s(2) by simp
    with True have "timevalsub t u = \<lparr>tv_sec = tv_sec t - tv_sec u - 1, tv_usec = tv_usec t - tv_usec u + 1000000\<rparr>"
      using u(2) by (simp add: timevalsub_def w u(1) timevalfix_def)
    then show ?thesis by (simp add: tv_us_def algebra_simps)
  next
    case False
    then show ?thesis using u w by (simp add: timevalsub_def timevalfix_def tv_us_def algebra_simps)
  qed
qed

lemma timevaladd_wf [simp]: "tv_wf t \<Longrightarrow> tv_wf u \<Longrightarrow> tv_wf (timevaladd t u)"
  by (auto simp: tv_defs Let_def)

lemma timevalsub_wf [simp]: "tv_wf t \<Longrightarrow> tv_wf u \<Longrightarrow> tv_wf (timevalsub t u)"
  by (auto simp: tv_defs Let_def)

lemma bumptime_us: "\<exists>k. tv_us (bumptime t n) = tv_us t + n + k * 4294967296000000"
proof (cases "1000000 \<le> tv_usec t + n")
  case True
  obtain k where "wrap32 (tv_sec t + 1) = tv_sec t + 1 + k * 4294967296" using wrap32_mod by blast
  with True show ?thesis by (auto simp: bumptime_def Let_def tv_us_def algebra_simps)
next
  case False
  then show ?thesis by (auto simp: bumptime_def Let_def tv_us_def intro!: exI [of _ 0])
qed

lemma bumptime_wf [simp]: "tv_wf t \<Longrightarrow> 0 \<le> n \<Longrightarrow> n \<le> 1000000 \<Longrightarrow> tv_wf (bumptime t n)"
  by (auto simp: tv_defs Let_def)

lemma timerclear_us [simp]: "tv_us timerclear = 0" and timerclear_wf [simp]: "tv_wf timerclear"
  by (simp_all add: tv_defs)

lemma tv_us_sign:
  assumes "tv_wf t"
  shows "0 \<le> tv_us t \<longleftrightarrow> 0 \<le> tv_sec t" "tv_us t = 0 \<longleftrightarrow> tv_sec t = 0 \<and> tv_usec t = 0"
    "timerisset t \<longleftrightarrow> tv_us t \<noteq> 0" "0 \<le> tv_us t \<Longrightarrow> tv_us t < 1000000 \<longleftrightarrow> tv_sec t = 0"
proof -
  have *: "0 \<le> tv_usec t" "tv_usec t < 1000000" using assms by (auto simp: tv_wf_def)
  have "tv_us t < 0 \<and> tv_sec t < 0 \<or> 0 \<le> tv_us t \<and> tv_us t < 1000000 \<and> tv_sec t = 0
    \<or> 1000000 \<le> tv_us t \<and> 0 < tv_sec t"
  proof -
    consider "tv_sec t \<le> -1" | "tv_sec t = 0" | "1 \<le> tv_sec t" by linarith
    then show ?thesis using * by cases (auto simp: tv_us_def)
  qed
  then show "0 \<le> tv_us t \<longleftrightarrow> 0 \<le> tv_sec t" and b: "tv_us t = 0 \<longleftrightarrow> tv_sec t = 0 \<and> tv_usec t = 0"
    "0 \<le> tv_us t \<Longrightarrow> tv_us t < 1000000 \<longleftrightarrow> tv_sec t = 0"
    by (auto simp: tv_us_def)
  show "timerisset t \<longleftrightarrow> tv_us t \<noteq> 0" using b(1) by (auto simp: timerisset_def)
qed

section \<open>Interval timers\<close>

record itimerval =
  it_interval :: timeval
  it_value :: timeval

definition EINVAL :: int where "EINVAL = 22"

text \<open>\<open>itimerfix\<close> returns the error and the possibly rounded value.\<close>

definition itimerfix :: "int \<Rightarrow> timeval \<Rightarrow> int \<times> timeval" where
  "itimerfix tick tv =
     (if tv_sec tv < 0 \<or> tv_sec tv > 100000000 \<or> tv_usec tv < 0 \<or> tv_usec tv \<ge> 1000000 then (EINVAL, tv)
      else if tv_sec tv = 0 \<and> tv_usec tv \<noteq> 0 \<and> tv_usec tv < tick then (0, tv\<lparr>tv_usec := tick\<rparr>)
      else (0, tv))"

text \<open>The part behind the label \<^verbatim>\<open>expire\<close>.\<close>

definition itimer_expire :: "itimerval \<Rightarrow> int \<Rightarrow> itimerval" where
  "itimer_expire itp usec =
     (if timerisset (it_interval itp) then
        let v = it_interval itp; u = tv_usec v - usec
        in itp\<lparr>it_value := (if u < 0 then \<lparr>tv_sec = tv_sec v - 1, tv_usec = u + 1000000\<rparr>
                            else \<lparr>tv_sec = tv_sec v, tv_usec = u\<rparr>)\<rparr>
      else itp\<lparr>it_value := (it_value itp)\<lparr>tv_usec := 0\<rparr>\<rparr>)"

definition itimerdecr :: "itimerval \<Rightarrow> int \<Rightarrow> int \<times> itimerval" where
  "itimerdecr itp usec =
     (let v = it_value itp in
      if tv_usec v < usec \<and> tv_sec v = 0 then (0, itimer_expire itp (usec - tv_usec v))
      else
        let w = (if tv_usec v < usec then \<lparr>tv_sec = tv_sec v - 1, tv_usec = tv_usec v + 1000000\<rparr> else v);
            itp' = itp\<lparr>it_value := w\<lparr>tv_usec := tv_usec w - usec\<rparr>\<rparr>
        in if timerisset (it_value itp') then (1, itp') else (0, itimer_expire itp' 0))"

definition it_wf :: "itimerval \<Rightarrow> bool" where
  "it_wf it \<longleftrightarrow> tv_wf (it_value it) \<and> tv_wf (it_interval it) \<and> 0 \<le> tv_us (it_value it) \<and> 0 \<le> tv_us (it_interval it)"

lemma itimerfix_0:
  assumes "itimerfix tick tv = (0, tv')" "0 < tick" "tick < 1000000"
  shows "tv_wf tv'" "0 \<le> tv_us tv'" "tv_us tv' = 0 \<or> tick \<le> tv_us tv'" "tv_us tv \<le> tv_us tv'"
    "tv_us tv' = (if 0 < tv_us tv \<and> tv_us tv < tick then tick else tv_us tv)"
  using assms by (auto simp: itimerfix_def tv_defs EINVAL_def split: if_splits)

text \<open>The reload carries the overshoot into the next interval.\<close>

lemma itimer_expire_us:
  assumes "it_wf it" "0 \<le> u" "u < 1000000" "tv_sec (it_value it) = 0"
  shows "tv_us (it_value (itimer_expire it u)) = (if tv_us (it_interval it) = 0 then 0 else tv_us (it_interval it) - u)"
    "it_interval (itimer_expire it u) = it_interval it" "tv_wf (it_value (itimer_expire it u))"
proof -
  have wf: "tv_wf (it_interval it)" using assms(1) by (simp add: it_wf_def)
  show "it_interval (itimer_expire it u) = it_interval it" by (simp add: itimer_expire_def Let_def)
  show "tv_us (it_value (itimer_expire it u)) = (if tv_us (it_interval it) = 0 then 0 else tv_us (it_interval it) - u)"
    using assms(4) tv_us_sign(3) [OF wf] by (auto simp: itimer_expire_def Let_def tv_us_def algebra_simps)
  show "tv_wf (it_value (itimer_expire it u))"
    using assms(2,3) wf by (auto simp: itimer_expire_def Let_def tv_wf_def)
qed

lemma itimerdecr_us:
  assumes it: "it_wf it" "0 < tv_us (it_value it)" and usec: "0 \<le> usec" "usec < 1000000"
  shows "it_interval (snd (itimerdecr it usec)) = it_interval it \<and> tv_wf (it_value (snd (itimerdecr it usec)))
    \<and> (if usec < tv_us (it_value it)
       then fst (itimerdecr it usec) = 1 \<and> tv_us (it_value (snd (itimerdecr it usec))) = tv_us (it_value it) - usec
       else fst (itimerdecr it usec) = 0 \<and> tv_us (it_value (snd (itimerdecr it usec))) =
         (if tv_us (it_interval it) = 0 then 0 else tv_us (it_interval it) - (usec - tv_us (it_value it))))"
proof -
  let ?v = "it_value it"
  have wf: "tv_wf ?v" "0 \<le> tv_sec ?v" using it tv_us_sign(1) [of ?v] by (auto simp: it_wf_def)
  show ?thesis
  proof (cases "tv_usec ?v < usec \<and> tv_sec ?v = 0")
    case True
    then have "tv_us ?v = tv_usec ?v" by (simp add: tv_us_def)
    with True itimer_expire_us [OF it(1), of "usec - tv_usec ?v"] usec wf show ?thesis
      by (auto simp: itimerdecr_def Let_def tv_wf_def)
  next
    case False
    define w where "w = (if tv_usec ?v < usec then \<lparr>tv_sec = tv_sec ?v - 1, tv_usec = tv_usec ?v + 1000000\<rparr> else ?v)"
    define it' where "it' = it\<lparr>it_value := w\<lparr>tv_usec := tv_usec w - usec\<rparr>\<rparr>"
    have us: "tv_us (it_value it') = tv_us ?v - usec" by (simp add: it'_def w_def tv_us_def algebra_simps)
    have w: "tv_wf (it_value it')" using wf usec False by (auto simp: it'_def w_def tv_wf_def)
    have sec: "0 \<le> tv_sec (it_value it')" using wf False by (auto simp: it'_def w_def)
    then have nn: "0 \<le> tv_us (it_value it')" using tv_us_sign(1) [OF w] by simp
    have int: "it_interval it' = it_interval it" by (simp add: it'_def)
    have wf': "it_wf it'" using it(1) w nn int by (simp add: it_wf_def)
    have d: "itimerdecr it usec = (if timerisset (it_value it') then (1, it') else (0, itimer_expire it' 0))"
      using False unfolding itimerdecr_def Let_def it'_def w_def by (simp only: if_False)
    show ?thesis
    proof (cases "tv_us (it_value it') = 0")
      case True
      then have "tv_sec (it_value it') = 0" using tv_us_sign(2) [OF w] by simp
      with itimer_expire_us [OF wf', of 0] True us d int tv_us_sign(3) [OF w] show ?thesis by auto
    next
      case False
      with us nn d int w tv_us_sign(3) [OF w] show ?thesis by auto
    qed
  qed
qed

text \<open>Ticks of a periodic timer: the signals raised and the timer after \<open>n\<close> decrements.\<close>

fun itimer_ticks :: "nat \<Rightarrow> int \<Rightarrow> itimerval \<Rightarrow> nat \<times> itimerval" where
  "itimer_ticks 0 tick it = (0, it)"
| "itimer_ticks (Suc n) tick it =
     (let (k, it') = itimer_ticks n tick it
      in if timerisset (it_value it') then
           let (r, it'') = itimerdecr it' tick in (if r = 0 then Suc k else k, it'')
         else (k, it'))"

lemma itimer_ticks_periodic:
  assumes it: "it_wf it" "0 < tv_us (it_value it)" and tick: "0 < tick" "tick < 1000000"
    and I: "tick \<le> tv_us (it_interval it)"
  shows "\<exists>k it'. itimer_ticks n tick it = (k, it') \<and> it_wf it' \<and> it_interval it' = it_interval it
    \<and> 0 < tv_us (it_value it') \<and> tv_us (it_value it') \<le> max (tv_us (it_value it)) (tv_us (it_interval it))
    \<and> tv_us (it_value it') + int n * tick = tv_us (it_value it) + int k * tv_us (it_interval it)
    \<and> (0 < k \<longrightarrow> tv_us (it_value it') \<le> tv_us (it_interval it))"
proof (induction n)
  case 0
  then show ?case using it by simp
next
  case (Suc n)
  then obtain k it' where IH: "itimer_ticks n tick it = (k, it')" "it_wf it'" "it_interval it' = it_interval it"
    "0 < tv_us (it_value it')" "tv_us (it_value it') \<le> max (tv_us (it_value it)) (tv_us (it_interval it))"
    "tv_us (it_value it') + int n * tick = tv_us (it_value it) + int k * tv_us (it_interval it)"
    "0 < k \<longrightarrow> tv_us (it_value it') \<le> tv_us (it_interval it)" by blast
  note d = itimerdecr_us [OF IH(2,4) _ tick(2)]
  have set: "timerisset (it_value it')" using IH(2,4) tv_us_sign(3) [of "it_value it'"] by (simp add: it_wf_def)
  show ?case
  proof (cases "tick < tv_us (it_value it')")
    case True
    with d tick IH set show ?thesis
      by (auto simp: Let_def split_beta it_wf_def algebra_simps)
  next
    case False
    with d tick IH(3) I IH(4) have "fst (itimerdecr it' tick) = 0"
      "tv_us (it_value (snd (itimerdecr it' tick))) = tv_us (it_interval it) - (tick - tv_us (it_value it'))"
      "it_interval (snd (itimerdecr it' tick)) = it_interval it" "tv_wf (it_value (snd (itimerdecr it' tick)))"
      by auto
    with False IH set tick I it show ?thesis
      by (auto simp: Let_def split_beta it_wf_def algebra_simps)
  qed
qed

section \<open>Ticks until a time\<close>

text \<open>\<open>hzto\<close>: products and sums are 32 bit, divisions truncate.\<close>

definition hzto :: "int \<Rightarrow> int \<Rightarrow> timeval \<Rightarrow> timeval \<Rightarrow> int" where
  "hzto hz tick now tv =
     (let sec = wrap32 (tv_sec tv - tv_sec now) in
      if sec \<le> 2147483647 sdiv 1000 - 1000 then
        wrap32 (wrap32 ((tv_sec tv - tv_sec now) * 1000) + (tv_usec tv - tv_usec now) sdiv 1000) sdiv (tick sdiv 1000)
      else if sec \<le> 2147483647 sdiv hz then wrap32 (sec * hz)
      else 2147483647)"

lemma hzto_near:
  assumes wf: "tv_wf now" "tv_wf tv" and le: "tv_us now \<le> tv_us tv"
    and near: "tv_sec tv - tv_sec now \<le> 2146483" and tick: "1000 dvd tick" "0 < tick"
  shows "tv_us tv - tv_us now - tick < hzto hz tick now tv * tick \<and> hzto hz tick now tv * tick < tv_us tv - tv_us now + 1000
    \<and> 0 \<le> hzto hz tick now tv"
proof -
  obtain k where k: "tick = 1000 * k" "0 < k" using tick by auto
  define s where "s = tv_sec tv - tv_sec now"
  define u where "u = tv_usec tv - tv_usec now"
  have u: "-1000000 < u" "u < 1000000" using wf by (auto simp: tv_wf_def u_def)
  have us: "tv_us tv - tv_us now = s * 1000000 + u" by (simp add: tv_us_def s_def u_def algebra_simps)
  have s: "0 \<le> s" "s \<le> 2146483" using le near us u unfolding s_def [symmetric] by linarith+
  have ud: "u - 1000 < 1000 * (u sdiv 1000)" "1000 * (u sdiv 1000) < u + 1000"
    using sdiv_bounds [of 1000 u] by simp_all
  define ms where "ms = s * 1000 + u sdiv 1000"
  have ms: "tv_us tv - tv_us now - 1000 < 1000 * ms" "1000 * ms < tv_us tv - tv_us now + 1000"
    using ud by (auto simp: ms_def us)
  have msb: "0 \<le> ms" "ms < 2147483648" using ms le s u us by linarith+
  have "hzto hz tick now tv = ms sdiv k"
    using s msb k by (simp add: hzto_def Let_def s_def [symmetric] u_def [symmetric] ms_def [symmetric] sdiv_nonneg)
  then have h: "hzto hz tick now tv = ms div k" using msb k by (simp add: sdiv_nonneg)
  have "k * (ms div k) \<le> ms" "ms < k * (ms div k) + k"
    using k mult_div_mod_eq [of k ms] pos_mod_sign [of k ms] pos_mod_bound [of k ms] by linarith+
  then have "tick * (ms div k) \<le> 1000 * ms" "1000 * ms + 1000 \<le> tick * (ms div k) + tick"
    unfolding k(1) by simp_all
  then have "tv_us tv - tv_us now - tick < (ms div k) * tick" "(ms div k) * tick < tv_us tv - tv_us now + 1000"
    using ms unfolding mult.commute [of "ms div k"] by linarith+
  moreover have "0 \<le> ms div k" using msb k by (simp add: pos_imp_zdiv_nonneg_iff)
  ultimately show ?thesis unfolding h by blast
qed

lemma hzto_far:
  assumes "0 < hz" "tv_sec tv - tv_sec now < 2147483648" "2146483 < tv_sec tv - tv_sec now"
  shows "hzto hz tick now tv = min 2147483647 ((tv_sec tv - tv_sec now) * hz)"
proof -
  define s where "s = tv_sec tv - tv_sec now"
  have s: "wrap32 s = s" using assms by (simp add: s_def)
  have q: "2147483647 - hz < hz * (2147483647 sdiv hz)" "hz * (2147483647 sdiv hz) \<le> 2147483647"
    using sdiv_bounds [OF assms(1), of 2147483647] by simp_all
  show ?thesis
  proof (cases "s \<le> 2147483647 sdiv hz")
    case True
    then have "hz * s \<le> 2147483647" using mult_left_mono [OF True, of hz] q assms(1) by linarith
    moreover have "0 \<le> s * hz" using assms by (simp add: s_def)
    ultimately show ?thesis using True assms(3) s
      by (simp add: hzto_def Let_def s_def [symmetric] mult.commute)
  next
    case False
    then have "2147483647 sdiv hz + 1 \<le> s" by linarith
    from mult_left_mono [OF this, of hz] q assms(1) have "2147483647 < hz * s"
      by (simp add: distrib_left)
    with False assms(3) s show ?thesis by (simp add: hzto_def Let_def s_def [symmetric] mult.commute)
  qed
qed

section \<open>The real time timer\<close>

text \<open>
  The loop of \<open>realitexpire\<close>, which advances the timer past the present; it would run for
  ever on an interval that is not positive, so that not returning is \<open>None\<close>.
\<close>

partial_function (option) realit_loop :: "timeval \<Rightarrow> timeval \<Rightarrow> timeval \<Rightarrow> timeval option" where
  "realit_loop now value interval =
     (let v = timevaladd value interval
      in if timer_less now v then Some v else realit_loop now v interval)"

lemma realit_loop_spec:
  assumes "tv_wf now" "tv_wf value" "tv_wf interval" "0 < tv_us interval" "0 \<le> tv_us value"
    and "tv_us now + tv_us interval < 2147483648000000" "tv_us value + tv_us interval < 2147483648000000"
  shows "\<exists>v m. realit_loop now value interval = Some v \<and> tv_wf v \<and> 1 \<le> m
    \<and> tv_us v = tv_us value + m * tv_us interval
    \<and> tv_us now < tv_us v \<and> (tv_us v \<le> tv_us now + tv_us interval \<or> m = 1)"
  using assms(2,5,7)
proof (induction "nat (tv_us now - tv_us value + 1)" arbitrary: "value" rule: less_induct)
  case less
  let ?v = "timevaladd value interval"
  have wf: "tv_wf ?v" using less.prems assms(3) by simp
  have "0 \<le> tv_sec value" "0 \<le> tv_sec interval" using less.prems assms(3,4) tv_us_sign(1) by force+
  then have us: "tv_us ?v = tv_us value + tv_us interval" using less.prems assms(3) by (intro timevaladd_us) auto
  have lt: "timer_less now ?v \<longleftrightarrow> tv_us now < tv_us value + tv_us interval"
    using timer_less_us [OF assms(1) wf] us by simp
  show ?case
  proof (cases "timer_less now ?v")
    case True
    then show ?thesis using wf lt us by (subst realit_loop.simps) (auto simp: Let_def intro: exI [of _ 1])
  next
    case False
    then have "nat (tv_us now - tv_us ?v + 1) < nat (tv_us now - tv_us value + 1)" using lt assms(4) us by simp
    moreover have "0 \<le> tv_us ?v" "tv_us ?v + tv_us interval < 2147483648000000" using us less.prems assms(4,6) lt False by auto
    ultimately obtain v m where IH: "realit_loop now ?v interval = Some v" "tv_wf v" "1 \<le> m"
      "tv_us v = tv_us ?v + m * tv_us interval" "tv_us now < tv_us v"
      "tv_us v \<le> tv_us now + tv_us interval \<or> m = 1" using less.hyps [OF _ wf] by blast
    have "tv_us v = tv_us value + (m + 1) * tv_us interval" using IH(4) us by (simp add: algebra_simps)
    moreover have "tv_us v \<le> tv_us now + tv_us interval" using IH(4,6) False lt us by auto
    ultimately show ?thesis using False IH
      by (subst realit_loop.simps) (auto simp: Let_def intro!: exI [of _ "m + 1"])
  qed
qed

text \<open>In the last seconds that 32 bits can count the sum turns negative, and no value of the timer is later than the present.\<close>

lemma timevaladd_turns_negative:
  "timevaladd \<lparr>tv_sec = 2147483640, tv_usec = 0\<rparr> \<lparr>tv_sec = 10, tv_usec = 0\<rparr> = \<lparr>tv_sec = -2147483646, tv_usec = 0\<rparr>"
  by (simp add: timevaladd_def timevalfix_def wrap32_def)

section \<open>Adjusting the clock\<close>

record skew =
  tickdelta :: int
  timedelta :: int

text \<open>The computation of \<open>adjtime\<close>, after the privilege check and the copy of its argument.\<close>

definition adjtime_core :: "int \<Rightarrow> int \<Rightarrow> skew \<Rightarrow> timeval \<Rightarrow> skew \<times> timeval" where
  "adjtime_core tickadj bigadj sk atv =
     (let ndelta = wrap32 (wrap32 (tv_sec atv * 1000000) + tv_usec atv);
          td = (if timedelta sk = 0 then (if ndelta > bigadj then 10 * tickadj else tickadj) else tickdelta sk);
          ndelta = (if ndelta smod td \<noteq> 0 then ndelta sdiv tickadj * tickadj else ndelta);
          oatv = \<lparr>tv_sec = timedelta sk sdiv 1000000, tv_usec = timedelta sk smod 1000000\<rparr>
      in (\<lparr>tickdelta = td, timedelta = ndelta\<rparr>, oatv))"

text \<open>The time of day part of \<open>hardclock\<close>.\<close>

definition time_tick :: "int \<Rightarrow> skew \<times> timeval \<Rightarrow> skew \<times> timeval" where
  "time_tick tick s =
     (case s of (sk, now) \<Rightarrow>
        if timedelta sk = 0 then (sk, bumptime now tick)
        else if timedelta sk < 0 then
          (sk\<lparr>timedelta := timedelta sk + tickdelta sk\<rparr>, bumptime now (tick - tickdelta sk))
        else
          (sk\<lparr>timedelta := timedelta sk - tickdelta sk\<rparr>, bumptime now (tick + tickdelta sk)))"

text \<open>Whatever the sign, a tick moves what is left of the correction into the clock, which counts seconds modulo \<open>2^32\<close>.\<close>

lemma time_tick_conserves:
  "time_tick tick (sk, now) = (sk', now') \<Longrightarrow>
    (\<exists>k. tv_us now' + timedelta sk' = tv_us now + timedelta sk + tick + k * 4294967296000000) \<and> tickdelta sk' = tickdelta sk"
  using bumptime_us [of now tick] bumptime_us [of now "tick - tickdelta sk"] bumptime_us [of now "tick + tickdelta sk"]
  by (auto simp: time_tick_def algebra_simps split: if_splits)

lemma time_ticks_conserve:
  "(time_tick tick ^^ n) (sk, now) = (sk', now') \<Longrightarrow>
    (\<exists>k. tv_us now' + timedelta sk' = tv_us now + timedelta sk + int n * tick + k * 4294967296000000) \<and> tickdelta sk' = tickdelta sk"
proof (induction n arbitrary: sk' now')
  case (Suc n)
  obtain sk1 now1 where s: "(time_tick tick ^^ n) (sk, now) = (sk1, now1)" by force
  with Suc.prems have "time_tick tick (sk1, now1) = (sk', now')" by simp
  from time_tick_conserves [OF this] Suc.IH [OF s] obtain j k where
    "tv_us now' + timedelta sk' = tv_us now1 + timedelta sk1 + tick + j * 4294967296000000"
    "tv_us now1 + timedelta sk1 = tv_us now + timedelta sk + int n * tick + k * 4294967296000000"
    and td: "tickdelta sk' = tickdelta sk" by auto
  then have "tv_us now' + timedelta sk' = tv_us now + timedelta sk + int (Suc n) * tick + (j + k) * 4294967296000000"
    by (simp add: algebra_simps)
  with td show ?case by blast
qed (auto intro!: exI [of _ 0])

lemma time_ticks_finish:
  assumes "tickdelta sk = d" "0 < d" "timedelta sk = m * d"
  shows "timedelta (fst ((time_tick tick ^^ n) (sk, now))) =
    (if m \<ge> 0 then max 0 (m - int n) else min 0 (m + int n)) * d"
  using assms
proof (induction n)
  case (Suc n)
  obtain sk1 now1 where s: "(time_tick tick ^^ n) (sk, now) = (sk1, now1)" by force
  have td: "tickdelta sk1 = d" using time_ticks_conserve [OF s] Suc.prems(1) by simp
  define j where "j = (if m \<ge> 0 then max 0 (m - int n) else min 0 (m + int n))"
  have "timedelta sk1 = j * d" using Suc.IH [OF Suc.prems] s by (simp add: j_def)
  then have "timedelta (fst (time_tick tick (sk1, now1))) = (j - sgn j) * d"
    using td \<open>0 < d\<close> by (auto simp: time_tick_def sgn_if mult_less_0_iff algebra_simps)
  moreover have "j - sgn j = (if m \<ge> 0 then max 0 (m - int (Suc n)) else min 0 (m + int (Suc n)))"
    by (auto simp: j_def sgn_if max_def min_def)
  ultimately show ?case using s by simp
qed simp

lemma time_ticks_never:
  assumes "tickdelta sk = d" "0 < d" "timedelta sk mod d \<noteq> 0"
  shows "timedelta (fst ((time_tick tick ^^ n) (sk, now))) mod d \<noteq> 0"
proof (induction n)
  case (Suc n)
  obtain sk1 now1 where s: "(time_tick tick ^^ n) (sk, now) = (sk1, now1)" by force
  have td: "tickdelta sk1 = d" using time_ticks_conserve [OF s] assms(1) by simp
  have "(timedelta sk1 - d) mod d = timedelta sk1 mod d" by (simp add: mod_diff_right_eq [symmetric])
  then have "timedelta (fst (time_tick tick (sk1, now1))) mod d = timedelta sk1 mod d"
    using td by (auto simp: time_tick_def)
  with Suc s show ?case by simp
qed (use assms in simp)

end
