(* ===== verification/Callout.thy ===== *)
theory Callout
  imports Prelude "HOL-Library.Sublist"
begin

text \<open>
  The callout queue of \<^verbatim>\<open>sys/sys/kern_clock.c\<close>: \<open>timeout\<close>, \<open>untimeout\<close>, the decrement that the
  hardware clock does, and the loop of the software clock that calls what is due. The queue
  is a list of increments: an entry's time is relative to the entry before it, except that
  entries at the front whose time has come hold how long ago it came.
\<close>

section \<open>Queue and operations\<close>

text \<open>Functions are named by numbers; an argument is a \<^verbatim>\<open>caddr_t\<close>.\<close>

record callout =
  c_time :: int
  c_arg :: int
  c_func :: nat

text \<open>\<^verbatim>\<open>calltodo.c_next\<close> and \<^verbatim>\<open>callfree\<close>, the two chains.\<close>

record callq =
  calltodo :: "callout list"
  callfree :: "callout list"

fun timeout_insert :: "callout \<Rightarrow> int \<Rightarrow> callout list \<Rightarrow> callout list" where
  "timeout_insert pnew t [] = [pnew\<lparr>c_time := t\<rparr>]"
| "timeout_insert pnew t (p2 # ps) =
     (if c_time p2 < t then p2 # timeout_insert pnew (if c_time p2 > 0 then t - c_time p2 else t) ps
      else pnew\<lparr>c_time := t\<rparr> # p2\<lparr>c_time := c_time p2 - t\<rparr> # ps)"

definition timeout :: "nat \<Rightarrow> int \<Rightarrow> int \<Rightarrow> callq \<Rightarrow> callq kern" where
  "timeout fun arg t q =
     (let t = (if t \<le> 0 then 1 else t) in
      case callfree q of
        [] \<Rightarrow> Inl (Panic ''timeout table overflow'')
      | pnew # free \<Rightarrow>
          Inr (q\<lparr>callfree := free,
                 calltodo := timeout_insert (pnew\<lparr>c_arg := arg, c_func := fun\<rparr>) t (calltodo q)\<rparr>))"

text \<open>The first matching entry is unlinked; the result has the entry, if there was one.\<close>

fun untimeout_remove :: "nat \<Rightarrow> int \<Rightarrow> callout list \<Rightarrow> callout list \<times> callout list" where
  "untimeout_remove fun arg [] = ([], [])"
| "untimeout_remove fun arg (p2 # ps) =
     (if c_func p2 = fun \<and> c_arg p2 = arg then
        ([p2], case ps of [] \<Rightarrow> []
                | p3 # r \<Rightarrow> (if c_time p2 > 0 then p3\<lparr>c_time := c_time p3 + c_time p2\<rparr> else p3) # r)
      else let (p, r) = untimeout_remove fun arg ps in (p, p2 # r))"

definition untimeout :: "nat \<Rightarrow> int \<Rightarrow> callq \<Rightarrow> callq" where
  "untimeout fun arg q =
     (let (p, r) = untimeout_remove fun arg (calltodo q) in q\<lparr>calltodo := r, callfree := p @ callfree q\<rparr>)"

text \<open>The loop at the head of \<open>hardclock\<close>, with \<^verbatim>\<open>needsoft\<close>.\<close>

fun clock_decr :: "callout list \<Rightarrow> bool \<times> callout list" where
  "clock_decr [] = (False, [])"
| "clock_decr (p1 # ps) =
     (let p = p1\<lparr>c_time := c_time p1 - 1\<rparr> in
      if c_time p > 0 then (False, p # ps)
      else if c_time p = 0 then (True, p # ps)
      else (True, p # snd (clock_decr ps)))"

text \<open>
  What a called function does to the queue is up to the function: a parameter that gives, for
  function, argument and lateness, the requests it makes.
\<close>

datatype creq = Timeout nat int int | Untimeout nat int

fun creqs :: "creq list \<Rightarrow> callq \<Rightarrow> callq kern" where
  "creqs [] q = Inr q"
| "creqs (Timeout f a t # rs) q = kbind (timeout f a t q) (creqs rs)"
| "creqs (Untimeout f a # rs) q = creqs rs (untimeout f a q)"

text \<open>
  The loop of \<open>softclock\<close>, with a bound on the rounds; the log lists the calls made. The functions it calls are an
  argument: what one asks of the queue depends on the function, its argument and how late it is, not on the rest of the
  kernel. No clock interrupt comes between two calls; \<^verbatim>\<open>hardclock\<close> only counts times down, which \<open>clock_tick_exact\<close> covers.
\<close>

fun softclock_loop :: "nat \<Rightarrow> (nat \<Rightarrow> int \<Rightarrow> int \<Rightarrow> creq list) \<Rightarrow> callq \<Rightarrow> ((nat \<times> int \<times> int) list \<times> callq) kern" where
  "softclock_loop 0 handler q = Inl (Fault ''softclock: out of fuel'')"
| "softclock_loop (Suc n) handler q =
     (case calltodo q of
        [] \<Rightarrow> Inr ([], q)
      | p1 # ps \<Rightarrow>
          if c_time p1 > 0 then Inr ([], q)
          else
            let arg = c_arg p1; func = c_func p1; a = c_time p1;
                q' = q\<lparr>calltodo := ps, callfree := p1 # callfree q\<rparr>
            in kbind (creqs (handler func arg a) q') (\<lambda>q''.
               kbind (softclock_loop n handler q'') (\<lambda>(log, r).
                 Inr ((func, arg, a) # log, r))))"

section \<open>Meaning: time remaining\<close>

text \<open>
  What is left until each entry is due, negative when it is overdue. \<open>a\<close> is the time of the
  entry before, 0 while all of them are due.
\<close>

type_synonym due = "nat \<times> int \<times> int"

fun dues :: "int \<Rightarrow> callout list \<Rightarrow> due list" where
  "dues a [] = []"
| "dues a (p # ps) =
     (if a = 0 \<and> c_time p \<le> 0 then (c_func p, c_arg p, c_time p) # dues 0 ps
      else (c_func p, c_arg p, a + c_time p) # dues (a + c_time p) ps)"

abbreviation due_time :: "due \<Rightarrow> int" where "due_time d \<equiv> snd (snd d)"

text \<open>Well-formed: increments are not negative once time is positive, overdue entries are in order.\<close>

fun cq_ok :: "int \<Rightarrow> callout list \<Rightarrow> bool" where
  "cq_ok a [] \<longleftrightarrow> True"
| "cq_ok a (p # ps) \<longleftrightarrow>
     (if a = 0 \<and> c_time p \<le> 0 then cq_ok 0 ps \<and> (\<forall>d\<in>set (dues 0 ps). c_time p \<le> due_time d)
      else 0 \<le> c_time p \<and> cq_ok (a + c_time p) ps)"

lemma dues_ge: "cq_ok a ps \<Longrightarrow> 0 < a \<Longrightarrow> d \<in> set (dues a ps) \<Longrightarrow> a \<le> due_time d"
  by (induction a ps rule: cq_ok.induct) (force split: if_splits)+

lemma dues_sorted: "cq_ok a ps \<Longrightarrow> 0 \<le> a \<Longrightarrow> sorted (map due_time (dues a ps))"
proof (induction a ps rule: cq_ok.induct)
  case (2 a p ps)
  show ?case
  proof (cases "a = 0 \<and> c_time p \<le> 0")
    case True
    then show ?thesis using 2 by auto
  next
    case False
    then have "0 \<le> c_time p" "cq_ok (a + c_time p) ps" "0 < a + c_time p" using 2 by (auto split: if_splits)
    then show ?thesis using 2 False dues_ge [of "a + c_time p" ps] by auto
  qed
qed simp

lemma dues_length [simp]: "length (dues a ps) = length ps"
  by (induction a ps rule: dues.induct) auto

text \<open>The queue behind a point in time only depends on that point through an offset.\<close>

definition later :: "int \<Rightarrow> due \<Rightarrow> due" where
  "later k d = (fst d, fst (snd d), snd (snd d) + k)"

lemma later_simps [simp]: "later k (f, x, t) = (f, x, t + k)" "due_time (later k d) = due_time d + k"
  "later 0 d = d"
  by (simp_all add: later_def)

lemma dues_shift:
  "cq_ok a ps \<Longrightarrow> 0 < a \<Longrightarrow> 0 \<le> b \<Longrightarrow> dues b ps = map (later (b - a)) (dues a ps) \<and> cq_ok b ps"
proof (induction ps arbitrary: a b)
  case (Cons p ps)
  have p: "0 \<le> c_time p" "cq_ok (a + c_time p) ps" using Cons.prems by (auto split: if_splits)
  have a: "0 < a + c_time p" using p Cons.prems by simp
  show ?case
  proof (cases "b = 0 \<and> c_time p \<le> 0")
    case True
    with p have c: "c_time p = 0" by simp
    have "dues 0 ps = map (later (0 - a)) (dues a ps) \<and> cq_ok 0 ps"
      using Cons.IH [of a 0] p(2) Cons.prems(2) c by simp
    moreover from this have "\<forall>d\<in>set (dues 0 ps). 0 \<le> due_time d"
      using dues_ge [of a ps] p(2) c Cons.prems(2) by auto
    ultimately show ?thesis using True c Cons.prems(2) by simp
  next
    case False
    have "dues (b + c_time p) ps = map (later (b - a)) (dues (a + c_time p) ps) \<and> cq_ok (b + c_time p) ps"
      using Cons.IH [OF p(2) a, of "b + c_time p"] Cons.prems(3) p(1) by simp
    then show ?thesis using False p(1) Cons.prems(2) by auto
  qed
qed simp

subsection \<open>The clock tick\<close>

lemma clock_decr_spec:
  "cq_ok 0 ps \<Longrightarrow> dues 0 (snd (clock_decr ps)) = map (later (-1)) (dues 0 ps) \<and> cq_ok 0 (snd (clock_decr ps))
    \<and> (fst (clock_decr ps) \<longleftrightarrow> (\<exists>d\<in>set (dues 0 ps). due_time d \<le> 1))"
proof (induction ps)
  case (Cons p ps)
  show ?case
  proof (cases "c_time p \<le> 0")
    case True
    then have "cq_ok 0 ps" "\<forall>d\<in>set (dues 0 ps). c_time p \<le> due_time d" using Cons.prems by auto
    with True Cons.IH show ?thesis by (auto simp: Let_def)
  next
    case False
    then have ok: "cq_ok (c_time p) ps" using Cons.prems by auto
    note sh = dues_shift [OF ok, of "c_time p - 1"]
    have ge: "\<forall>d\<in>set (dues (c_time p) ps). c_time p \<le> due_time d" using dues_ge [OF ok] False by auto
    show ?thesis
    proof (cases "c_time p = 1")
      case True
      with sh ge show ?thesis by (auto simp: Let_def)
    next
      case g: False
      with sh ge False show ?thesis by (auto simp: Let_def)
    qed
  qed
qed simp

subsection \<open>Requests\<close>

lemma timeout_insert_spec:
  assumes "cq_ok a ps" "0 \<le> a" "0 < t"
  shows "dues a (timeout_insert p t ps) = takeWhile (\<lambda>d. due_time d < a + t) (dues a ps)
      @ (c_func p, c_arg p, a + t) # dropWhile (\<lambda>d. due_time d < a + t) (dues a ps)
    \<and> cq_ok a (timeout_insert p t ps)"
  using assms
proof (induction ps arbitrary: a t)
  case (Cons q ps)
  show ?case
  proof (cases "c_time q < t")
    case True
    show ?thesis
    proof (cases "a = 0 \<and> c_time q \<le> 0")
      case due: True
      then have ok: "cq_ok 0 ps" "\<forall>d\<in>set (dues 0 ps). c_time q \<le> due_time d" using Cons.prems by auto
      have IH: "dues 0 (timeout_insert p t ps) = takeWhile (\<lambda>d. due_time d < 0 + t) (dues 0 ps)
          @ (c_func p, c_arg p, 0 + t) # dropWhile (\<lambda>d. due_time d < 0 + t) (dues 0 ps)
        \<and> cq_ok 0 (timeout_insert p t ps)" by (rule Cons.IH) (use ok Cons.prems in auto)
      then have "set (dues 0 (timeout_insert p t ps)) \<subseteq> insert (c_func p, c_arg p, t) (set (dues 0 ps))"
        by (auto dest: set_takeWhileD set_dropWhileD)
      with IH ok due True Cons.prems(3) show ?thesis by auto
    next
      case False
      then have q: "0 \<le> c_time q" "cq_ok (a + c_time q) ps" using Cons.prems by (auto split: if_splits)
      have "dues (a + c_time q) (timeout_insert p (t - c_time q) ps)
          = takeWhile (\<lambda>d. due_time d < a + c_time q + (t - c_time q)) (dues (a + c_time q) ps)
          @ (c_func p, c_arg p, a + c_time q + (t - c_time q)) # dropWhile (\<lambda>d. due_time d < a + c_time q + (t - c_time q)) (dues (a + c_time q) ps)
        \<and> cq_ok (a + c_time q) (timeout_insert p (t - c_time q) ps)"
        by (rule Cons.IH) (use q True Cons.prems in auto)
      moreover have "(if c_time q > 0 then t - c_time q else t) = t - c_time q" using q by auto
      ultimately show ?thesis using True False q by auto
    qed
  next
    case False
    then have c: "t \<le> c_time q" "0 < c_time q" using Cons.prems by auto
    then have "cq_ok (a + c_time q) ps" using Cons.prems by auto
    with c Cons.prems show ?thesis by auto
  qed
qed simp

text \<open>Removing the first entry for a function and argument.\<close>

fun remove_due :: "nat \<Rightarrow> int \<Rightarrow> due list \<Rightarrow> due list" where
  "remove_due f x [] = []"
| "remove_due f x (d # ds) = (if fst d = f \<and> fst (snd d) = x then ds else d # remove_due f x ds)"

lemma set_remove_due: "set (remove_due f x ds) \<subseteq> set ds"
  by (induction ds) auto

lemma untimeout_remove_spec:
  assumes "cq_ok a ps" "0 \<le> a"
  shows "dues a (snd (untimeout_remove f x ps)) = remove_due f x (dues a ps)
    \<and> cq_ok a (snd (untimeout_remove f x ps))
    \<and> length (fst (untimeout_remove f x ps)) + length (snd (untimeout_remove f x ps)) = length ps"
  using assms
proof (induction ps arbitrary: a)
  case (Cons p ps)
  show ?case
  proof (cases "c_func p = f \<and> c_arg p = x")
    case True
    show ?thesis
    proof (cases ps)
      case Nil
      then show ?thesis using True by simp
    next
      case (Cons q r)
      then show ?thesis using True Cons.prems
        by (auto split: if_splits simp: add.commute add.left_commute)
    qed
  next
    case ne: False
    obtain l r where lr: "untimeout_remove f x ps = (l, r)" by force
    show ?thesis
    proof (cases "a = 0 \<and> c_time p \<le> 0")
      case True
      then have "dues 0 r = remove_due f x (dues 0 ps) \<and> cq_ok 0 r \<and> length l + length r = length ps"
        using Cons.IH [of 0] Cons.prems lr by auto
      with True ne lr Cons.prems set_remove_due [of f x "dues 0 ps"] show ?thesis by auto
    next
      case False
      then have "0 \<le> c_time p" "cq_ok (a + c_time p) ps" using Cons.prems by (auto split: if_splits)
      then have "dues (a + c_time p) r = remove_due f x (dues (a + c_time p) ps) \<and> cq_ok (a + c_time p) r
          \<and> length l + length r = length ps"
        using Cons.IH [of "a + c_time p"] Cons.prems lr by auto
      with False ne lr \<open>0 \<le> c_time p\<close> show ?thesis by auto
    qed
  qed
qed simp

section \<open>The software clock\<close>

abbreviation callq_ok :: "callq \<Rightarrow> bool" where
  "callq_ok q \<equiv> cq_ok 0 (calltodo q)"

abbreviation pending :: "callq \<Rightarrow> due list" where
  "pending q \<equiv> dues 0 (calltodo q)"

abbreviation overdue :: "callq \<Rightarrow> due list" where
  "overdue q \<equiv> filter (\<lambda>d. due_time d \<le> 0) (pending q)"

abbreviation ncallout :: "callq \<Rightarrow> nat" where
  "ncallout q \<equiv> length (calltodo q) + length (callfree q)"

lemma takeWhile_filter_dropWhile:
  "filter P (takeWhile Q xs) @ filter P (dropWhile Q xs) = filter P xs"
  by (metis filter_append takeWhile_dropWhile_id)

lemma timeout_spec:
  assumes "callq_ok q"
  shows "case timeout f x t q of
      Inl e \<Rightarrow> e = Panic ''timeout table overflow'' \<and> callfree q = []
    | Inr q' \<Rightarrow> callfree q \<noteq> [] \<and> callq_ok q' \<and> ncallout q' = ncallout q \<and> overdue q' = overdue q
        \<and> pending q' = takeWhile (\<lambda>d. due_time d < max 1 t) (pending q)
            @ (f, x, max 1 t) # dropWhile (\<lambda>d. due_time d < max 1 t) (pending q)"
proof (cases "callfree q")
  case Nil
  then show ?thesis by (simp add: timeout_def)
next
  case (Cons p free)
  have t: "(if t \<le> 0 then 1 else t) = max 1 t" by auto
  note ins = timeout_insert_spec [OF assms, of "max 1 t" "p\<lparr>c_arg := x, c_func := f\<rparr>"]
  have "length (timeout_insert (p\<lparr>c_arg := x, c_func := f\<rparr>) u ps) = Suc (length ps)" for u ps
    by (induction ps arbitrary: u) auto
  then show ?thesis using Cons ins by (simp add: timeout_def Let_def t takeWhile_filter_dropWhile)
qed

lemma untimeout_spec:
  assumes "callq_ok q"
  shows "callq_ok (untimeout f x q)" "pending (untimeout f x q) = remove_due f x (pending q)"
    "ncallout (untimeout f x q) = ncallout q"
  using untimeout_remove_spec [OF assms, of f x] by (auto simp: untimeout_def split_beta)

lemma remove_due_subseq: "subseq (remove_due f x ds) ds"
  by (induction ds) auto

lemma creqs_spec:
  assumes "callq_ok q"
  shows "case creqs rs q of
      Inl e \<Rightarrow> e = Panic ''timeout table overflow''
    | Inr q' \<Rightarrow> callq_ok q' \<and> ncallout q' = ncallout q \<and> subseq (overdue q') (overdue q)
        \<and> ((\<forall>f x. Untimeout f x \<notin> set rs) \<longrightarrow> overdue q' = overdue q)"
  using assms
proof (induction rs arbitrary: q)
  case (Cons r rs)
  show ?case
  proof (cases r)
    case (Timeout f x t)
    show ?thesis
    proof (cases "timeout f x t q")
      case (Inl e)
      then show ?thesis using timeout_spec [OF Cons.prems, where f = f and x = x and t = t] Timeout by simp
    next
      case (Inr q1)
      then have "callq_ok q1" "ncallout q1 = ncallout q" "overdue q1 = overdue q"
        using timeout_spec [OF Cons.prems, where f = f and x = x and t = t] by auto
      with Cons.IH [of q1] Inr Timeout show ?thesis by (auto split: sum.splits)
    qed
  next
    case (Untimeout f x)
    have "subseq (overdue (untimeout f x q)) (overdue q)"
      using untimeout_spec(2) [OF Cons.prems] remove_due_subseq by (simp add: subseq_filter)
    with Cons.IH [OF untimeout_spec(1) [OF Cons.prems, of f x]] untimeout_spec(3) [OF Cons.prems, of f x] Untimeout
    show ?thesis by (auto split: sum.splits intro: subseq_order.trans)
  qed
qed simp

lemma softclock_loop_spec:
  assumes "callq_ok q" "length (overdue q) < n"
  shows "case softclock_loop n handler q of
      Inl e \<Rightarrow> e = Panic ''timeout table overflow''
    | Inr (log, q') \<Rightarrow> callq_ok q' \<and> ncallout q' = ncallout q \<and> overdue q' = [] \<and> subseq log (overdue q)
        \<and> ((\<forall>f x a f' x'. Untimeout f' x' \<notin> set (handler f x a)) \<longrightarrow> log = overdue q)"
  using assms
proof (induction n arbitrary: q)
  case (Suc n)
  show ?case
  proof (cases "calltodo q")
    case Nil
    then show ?thesis by simp
  next
    case (Cons p ps)
    show ?thesis
    proof (cases "c_time p > 0")
      case True
      then have "cq_ok (c_time p) ps" using Suc.prems(1) Cons by simp
      then have "\<forall>d\<in>set (pending q). 0 < due_time d" using dues_ge [of "c_time p" ps] True Cons by fastforce
      then have "overdue q = []" by (auto simp: filter_empty_conv)
      with True Cons Suc.prems(1) show ?thesis by simp
    next
      case False
      define q1 where "q1 = q\<lparr>calltodo := ps, callfree := p # callfree q\<rparr>"
      let ?c = "(c_func p, c_arg p, c_time p)"
      have q1: "callq_ok q1" "overdue q = ?c # overdue q1" "ncallout q1 = ncallout q"
        using False Cons Suc.prems(1) by (auto simp: q1_def)
      have step: "softclock_loop (Suc n) handler q
        = kbind (creqs (handler (c_func p) (c_arg p) (c_time p)) q1) (\<lambda>q''.
            kbind (softclock_loop n handler q'') (\<lambda>(log, r). Inr (?c # log, r)))"
        using False Cons by (simp add: q1_def Let_def)
      show ?thesis
      proof (cases "creqs (handler (c_func p) (c_arg p) (c_time p)) q1")
        case (Inl e)
        then show ?thesis using creqs_spec [OF q1(1), of "handler (c_func p) (c_arg p) (c_time p)"] step by simp
      next
        case (Inr q2)
        then have q2: "callq_ok q2" "ncallout q2 = ncallout q1" "subseq (overdue q2) (overdue q1)"
          "(\<forall>f x. Untimeout f x \<notin> set (handler (c_func p) (c_arg p) (c_time p))) \<longrightarrow> overdue q2 = overdue q1"
          using creqs_spec [OF q1(1), of "handler (c_func p) (c_arg p) (c_time p)"] by auto
        have "length (overdue q2) < n" using Suc.prems(2) q1(2) list_emb_length [OF q2(3)] by simp
        from Suc.IH [OF q2(1) this] show ?thesis
          using step Inr q1 q2 by (auto split: sum.splits intro: subseq_order.trans)
      qed
    qed
  qed
qed simp

section \<open>The interface: a table of pending timers\<close>

datatype timer_op = Tick | SetTimer nat int int | Cancel nat int

text \<open>
  What clients of the clock rely on: a tick brings every pending timer one closer, setting one
  adds it with at least one tick to go and keeps the others, cancelling drops at most the
  entries of the function and argument named.
\<close>

locale timer_queue =
  fixes ok :: "'s \<Rightarrow> bool" and pend :: "'s \<Rightarrow> due set"
    and do_op :: "timer_op \<Rightarrow> 's \<Rightarrow> 's kern"
  assumes tick_law: "ok s \<Longrightarrow> \<exists>s'. do_op Tick s = Inr s' \<and> ok s' \<and> pend s' = later (-1) ` pend s"
    and set_law: "ok s \<Longrightarrow> do_op (SetTimer f x t) s = Inr s' \<Longrightarrow> ok s' \<and> pend s' = insert (f, x, max 1 t) (pend s)"
    and cancel_law: "ok s \<Longrightarrow> \<exists>s'. do_op (Cancel f x) s = Inr s' \<and> ok s' \<and> pend s' \<subseteq> pend s
      \<and> (\<forall>d\<in>pend s. fst d \<noteq> f \<or> fst (snd d) \<noteq> x \<longrightarrow> d \<in> pend s')"
begin

lemma punctual:
  "ok s \<Longrightarrow> (f, x, t) \<in> pend s \<Longrightarrow> Cancel f x \<notin> set ops
    \<Longrightarrow> foldl (\<lambda>m op. kbind m (do_op op)) (Inr s) ops = Inr s'
    \<Longrightarrow> ok s' \<and> (f, x, t - int (length (filter (\<lambda>op. op = Tick) ops))) \<in> pend s'"
proof (induction ops arbitrary: s t)
  case (Cons op ops)
  have err: "foldl (\<lambda>m op. kbind m (do_op op)) (Inl e) os = Inl e" for e os by (induction os) auto
  obtain s1 where s1: "do_op op s = Inr s1" using Cons.prems(4) err by (cases "do_op op s") auto
  have rest: "foldl (\<lambda>m op. kbind m (do_op op)) (Inr s1) ops = Inr s'" using Cons.prems(4) s1 by simp
  show ?case
  proof (cases op)
    case Tick
    then have "ok s1" "(f, x, t - 1) \<in> pend s1"
      using tick_law [OF Cons.prems(1)] Cons.prems(2) s1 by (auto intro!: image_eqI [of _ _ "(f, x, t)"])
    with Cons.IH [of s1 "t - 1"] Cons.prems(3) rest Tick show ?thesis by (simp add: algebra_simps)
  next
    case (SetTimer g y u)
    then have "ok s1" "(f, x, t) \<in> pend s1" using set_law [OF Cons.prems(1)] Cons.prems(2) s1 by auto
    with Cons.IH [of s1 t] Cons.prems(3) rest SetTimer show ?thesis by simp
  next
    case (Cancel g y)
    then have "g \<noteq> f \<or> y \<noteq> x" using Cons.prems(3) by auto
    then have "ok s1" "(f, x, t) \<in> pend s1"
      using cancel_law [OF Cons.prems(1), of g y] Cons.prems(2) s1 Cancel by fastforce+
    with Cons.IH [of s1 t] Cons.prems(3) rest Cancel show ?thesis by simp
  qed
qed simp

end

definition callq_op :: "timer_op \<Rightarrow> callq \<Rightarrow> callq kern" where
  "callq_op op q =
     (case op of Tick \<Rightarrow> Inr (q\<lparr>calltodo := snd (clock_decr (calltodo q))\<rparr>)
      | SetTimer f x t \<Rightarrow> timeout f x t q
      | Cancel f x \<Rightarrow> Inr (untimeout f x q))"

lemma set_takeWhile_dropWhile: "set (takeWhile P xs) \<union> set (dropWhile P xs) = set xs"
  by (metis set_append takeWhile_dropWhile_id)

lemma remove_due_keeps: "d \<in> set ds \<Longrightarrow> fst d \<noteq> f \<or> fst (snd d) \<noteq> x \<Longrightarrow> d \<in> set (remove_due f x ds)"
  by (induction ds) auto

interpretation tq: timer_queue callq_ok "\<lambda>q. set (pending q)" callq_op
proof
  fix s :: callq and f x t s'
  assume ok: "callq_ok s"
  show "\<exists>s'. callq_op Tick s = Inr s' \<and> callq_ok s' \<and> set (pending s') = later (-1) ` set (pending s)"
    using clock_decr_spec [OF ok] by (simp add: callq_op_def)
  show "\<exists>s'. callq_op (Cancel f x) s = Inr s' \<and> callq_ok s' \<and> set (pending s') \<subseteq> set (pending s)
      \<and> (\<forall>d\<in>set (pending s). fst d \<noteq> f \<or> fst (snd d) \<noteq> x \<longrightarrow> d \<in> set (pending s'))"
    using untimeout_spec [OF ok] set_remove_due remove_due_keeps by (simp add: callq_op_def)
  show "callq_op (SetTimer f x t) s = Inr s' \<Longrightarrow> callq_ok s' \<and> set (pending s') = insert (f, x, max 1 t) (set (pending s))"
    using timeout_spec [OF ok, where f = f and x = x and t = t] set_takeWhile_dropWhile [of "\<lambda>d. due_time d < max 1 t" "pending s"]
    by (auto simp: callq_op_def)
qed

section \<open>Properties\<close>

definition ex_cq :: callq where
  "ex_cq = \<lparr>calltodo = [\<lparr>c_time = 3, c_arg = 1, c_func = 8\<rparr>, \<lparr>c_time = 2, c_arg = 2, c_func = 9\<rparr>],
     callfree = [\<lparr>c_time = 0, c_arg = 0, c_func = 0\<rparr>]\<rparr>"

text \<open>
  C7. Punctuality. After \<open>timeout(fun, arg, t)\<close>, run any sequence of clock ticks, further
  \<open>timeout\<close> calls and \<open>untimeout\<close> calls for other functions or arguments. Then the entry is
  in the queue and the time it has left is \<open>t\<close> (at least 1) minus the number of ticks, so it
  becomes due at exactly the tick asked for, whatever is inserted or removed around it.
\<close>

theorem callout_punctual:
  assumes "callq_ok q" "timeout f x t q = Inr q1" "Cancel f x \<notin> set ops"
    "foldl (\<lambda>m op. kbind m (callq_op op)) (Inr q1) ops = Inr q2"
  shows "callq_ok q2 \<and> (f, x, max 1 t - int (length (filter (\<lambda>op. op = Tick) ops))) \<in> set (pending q2)"
proof -
  have "callq_ok q1" "(f, x, max 1 t) \<in> set (pending q1)"
    using timeout_spec [OF assms(1), where f = f and x = x and t = t] assms(2) by auto
  from tq.punctual [OF this assms(3,4)] show ?thesis by simp
qed

theorem callout_punctual_witness:
  "\<exists>q2. callq_ok q2 \<and> (5, 0, 4 - 2) \<in> set (pending q2)"
proof -
  have 1: "callq_ok ex_cq" by (simp add: ex_cq_def)
  obtain q1 where 2: "timeout 5 0 4 ex_cq = Inr q1" by (simp add: timeout_def ex_cq_def)
  have 3: "Cancel 5 0 \<notin> set [Tick, Cancel 8 1, Tick]" by simp
  obtain q2 where 4: "foldl (\<lambda>m op. kbind m (callq_op op)) (Inr q1) [Tick, Cancel 8 1, Tick] = Inr q2"
    by (simp add: callq_op_def)
  from callout_punctual [OF 1 2 3 4] show ?thesis by auto
qed

text \<open>
  One clock tick brings every entry exactly one closer, in the same order, though the
  loop of \<open>hardclock\<close> stops at the first entry that is not due; it asks for the software
  clock exactly when some entry is due after the tick; and the queue stays sorted by time.
\<close>

theorem clock_tick_exact:
  assumes "cq_ok 0 todo"
  shows "dues 0 (snd (clock_decr todo)) = map (later (-1)) (dues 0 todo)
    \<and> (fst (clock_decr todo) \<longleftrightarrow> (\<exists>d\<in>set (dues 0 (snd (clock_decr todo))). due_time d \<le> 0))
    \<and> cq_ok 0 (snd (clock_decr todo)) \<and> sorted (map due_time (dues 0 (snd (clock_decr todo))))"
  using clock_decr_spec [OF assms] dues_sorted [of 0 "snd (clock_decr todo)"] by auto

theorem clock_tick_exact_witness:
  "dues 0 (snd (clock_decr (calltodo ex_cq))) = [(8, 1, 2), (9, 2, 4)]"
proof -
  have "cq_ok 0 (calltodo ex_cq)" by (simp add: ex_cq_def)
  from clock_tick_exact [OF this] show ?thesis by (simp add: ex_cq_def)
qed

text \<open>
  C8. The software clock calls what is due. Whatever the called functions do with
  \<open>timeout\<close> and \<open>untimeout\<close>, the loop ends after at most as many rounds as entries were due,
  and then no entry is due; the functions called are entries that were due, each once and in
  the order of their times; if no function cancels another, all of them are called. The only
  other outcome is the panic for a full table, and no table slot is lost.
\<close>

theorem softclock_calls_due:
  assumes "callq_ok q" "length (overdue q) < n"
  shows "case softclock_loop n handler q of
      Inl e \<Rightarrow> e = Panic ''timeout table overflow''
    | Inr (log, q') \<Rightarrow> callq_ok q' \<and> ncallout q' = ncallout q \<and> overdue q' = [] \<and> subseq log (overdue q)
        \<and> ((\<forall>f x a f' x'. Untimeout f' x' \<notin> set (handler f x a)) \<longrightarrow> log = overdue q)"
  by (rule softclock_loop_spec [OF assms])

theorem softclock_calls_due_witness:
  "case softclock_loop 2 (\<lambda>f x a. [Timeout f x 5]) \<lparr>calltodo = [\<lparr>c_time = 0, c_arg = 1, c_func = 8\<rparr>], callfree = []\<rparr> of
      Inl e \<Rightarrow> e = Panic ''timeout table overflow''
    | Inr (log, q') \<Rightarrow> log = [(8, 1, 0)] \<and> overdue q' = []"
proof -
  let ?q = "\<lparr>calltodo = [\<lparr>c_time = 0, c_arg = 1, c_func = 8\<rparr>], callfree = []\<rparr>"
  have "callq_ok ?q" "length (overdue ?q) < 2" by simp_all
  from softclock_calls_due [OF this, of "\<lambda>f x a. [Timeout f x 5]"] show ?thesis by (auto split: sum.splits)
qed

end
