(* ===== verification/Clock.thy ===== *)
theory Clock
  imports Timeval Callout
begin

unbundle bit_operations_syntax

text \<open>
  The clock interrupt and the timer system calls: \<open>hardclock\<close>, \<open>gatherstats\<close>, \<open>softclock\<close> of
  \<^verbatim>\<open>sys/sys/kern_clock.c\<close>, \<open>setpri\<close> of \<^verbatim>\<open>sys/sys/kern_synch.c\<close>, and \<open>getitimer\<close>,
  \<open>setitimer\<close>, \<open>realitexpire\<close>, \<open>adjtime\<close>, \<open>setthetime\<close> of \<^verbatim>\<open>sys/sys/kern_time.c\<close>. The current
  process and the parts of its user area that these routines touch are one record; signals
  posted with \<open>clk_psignal\<close> are recorded in order.
\<close>

section \<open>State\<close>

definition SIGALRM :: nat where "SIGALRM = 14"
definition SIGXCPU :: nat where "SIGXCPU = 24"
definition SIGVTALRM :: nat where "SIGVTALRM = 26"
definition SIGPROF :: nat where "SIGPROF = 27"
definition PUSER :: int where "PUSER = 50"
definition NZERO :: int where "NZERO = 0"
definition EPERM :: int where "EPERM = 1"

text \<open>The number that stands for the function \<open>realitexpire\<close> in the callout table.\<close>

definition REALITEXPIRE :: nat where "REALITEXPIRE = 1"

record clk =
  hz :: int
  tick :: int
  cq :: callq
  now :: timeval
  boottime :: timeval
  sk :: skew
  noproc :: bool
  phz :: int
  cp_time :: "int list"
  dk_busy :: "32 word"
  dk_time :: "int list"
  softpending :: bool
  curpri :: int
  runrun :: int
  freemem :: int
  desfree :: int
  p_addr :: int
  p_cpu :: "8 word"
  p_nice :: int
  p_pri :: int
  p_usrpri :: int
  p_cpticks :: int
  p_rssize :: int
  p_maxrss :: int
  p_uid :: int
  p_soweupc :: bool
  x_rssize :: "int option"
  p_realtimer :: itimerval
  p_sig :: "nat list"
  pr_scale :: int
  ru_utime :: timeval
  ru_stime :: timeval
  ru_idrss :: int
  ru_ixrss :: int
  ru_maxrss :: int
  rlim_cur :: int
  rlim_max :: int
  u_virtual :: itimerval
  u_prof_timer :: itimerval
  u_uid :: int

definition clk_psignal :: "nat \<Rightarrow> clk \<Rightarrow> clk" where
  "clk_psignal s st = st\<lparr>p_sig := p_sig st @ [s]\<rparr>"

text \<open>The processor status word: current mode (all ones is user), interrupt priority level.\<close>

definition USERMODE :: "32 word \<Rightarrow> bool" where
  "USERMODE ps \<longleftrightarrow> ps AND 0x03000000 = 0x03000000"

definition BASEPRI :: "32 word \<Rightarrow> bool" where
  "BASEPRI ps \<longleftrightarrow> ps AND 0x001f0000 = 0"

section \<open>The hardware clock\<close>

definition setpri :: "clk \<Rightarrow> clk" where
  "setpri st =
     (let p = uint (p_cpu st) div 4;
          p = p + PUSER + 2 * p_nice st;
          p = (if p_rssize st > p_maxrss st \<and> freemem st < desfree st then p + 2 * 4 else p);
          p = (if p > 127 then 127 else p)
      in (if p < curpri st then st\<lparr>runrun := runrun st + 1\<rparr> else st)\<lparr>p_usrpri := p\<rparr>)"

definition gatherstats :: "32 word \<Rightarrow> clk \<Rightarrow> clk" where
  "gatherstats ps st =
     (let cpstate = (if USERMODE ps then (if p_nice st > NZERO then 1 else 0)
                     else if noproc st \<and> BASEPRI ps then 3 else 2)
      in st\<lparr>cp_time := (cp_time st)[cpstate := cp_time st ! cpstate + 1],
            dk_time := map (\<lambda>(s, t). if bit (dk_busy st) s then t + 1 else t) (enumerate 0 (dk_time st))\<rparr>)"

text \<open>Charging the tick to user or system time, with the process-virtual timer.\<close>

definition charge_mode :: "32 word \<Rightarrow> clk \<Rightarrow> clk" where
  "charge_mode ps st =
     (if USERMODE ps then
        let st = st\<lparr>ru_utime := bumptime (ru_utime st) (tick st)\<rparr>
        in if timerisset (it_value (u_virtual st)) then
             let (r, it) = itimerdecr (u_virtual st) (tick st); st = st\<lparr>u_virtual := it\<rparr>
             in if r = 0 then clk_psignal SIGVTALRM st else st
           else st
      else if \<not> noproc st then st\<lparr>ru_stime := bumptime (ru_stime st) (tick st)\<rparr> else st)"

text \<open>The CPU limit, the profiling timer and the resident set of a running process.\<close>

definition charge_limit :: "clk \<Rightarrow> clk" where
  "charge_limit st =
     (if tv_sec (ru_utime st) + tv_sec (ru_stime st) + 1 > rlim_cur st then
        let st = clk_psignal SIGXCPU st
        in if rlim_cur st < rlim_max st then st\<lparr>rlim_cur := rlim_cur st + 5\<rparr> else st
      else st)"

definition charge_prof :: "clk \<Rightarrow> clk" where
  "charge_prof st =
     (if timerisset (it_value (u_prof_timer st)) then
        let (r, it) = itimerdecr (u_prof_timer st) (tick st); st = st\<lparr>u_prof_timer := it\<rparr>
        in if r = 0 then clk_psignal SIGPROF st else st
      else st)"

definition charge_rss :: "clk \<Rightarrow> clk" where
  "charge_rss st =
     (let s = p_rssize st;
          st = st\<lparr>ru_idrss := ru_idrss st + s\<rparr>;
          (s, st) = (case x_rssize st of None \<Rightarrow> (s, st)
                     | Some xrss \<Rightarrow> (s + xrss, st\<lparr>ru_ixrss := ru_ixrss st + xrss\<rparr>))
      in if s > ru_maxrss st then st\<lparr>ru_maxrss := s\<rparr> else st)"

definition charge_proc :: "clk \<Rightarrow> clk" where
  "charge_proc st = (if noproc st then st else charge_rss (charge_prof (charge_limit st)))"

text \<open>The usage estimator: an 8 bit counter that sticks at its maximum.\<close>

definition charge_pri :: "clk \<Rightarrow> clk" where
  "charge_pri st =
     (if noproc st then st else
      let st = st\<lparr>p_cpticks := p_cpticks st + 1\<rparr>;
          c = p_cpu st + 1;
          st = st\<lparr>p_cpu := (if c = 0 then c - 1 else c)\<rparr>
      in if p_cpu st AND 3 = 0 then
           let st = setpri st in if p_pri st \<ge> PUSER then st\<lparr>p_pri := p_usrpri st\<rparr> else st
         else st)"

definition softclock :: "(nat \<Rightarrow> int \<Rightarrow> int \<Rightarrow> creq list) \<Rightarrow> 32 word \<Rightarrow> clk \<Rightarrow> ((nat \<times> int \<times> int) list \<times> clk) kern" where
  "softclock handler ps st =
     kbind (softclock_loop (Suc (length (calltodo (cq st)))) handler (cq st)) (\<lambda>(log, q).
     let st = st\<lparr>cq := q\<rparr>
     in Inr (log,
          if USERMODE ps then
            let st = (if pr_scale st \<noteq> 0 then st\<lparr>p_soweupc := True\<rparr> else st)
            in if p_uid st \<noteq> 0 \<and> p_nice st = NZERO \<and> tv_sec (ru_utime st) > 10 * 60 then
                 let st = setpri (st\<lparr>p_nice := NZERO + 4\<rparr>) in st\<lparr>p_pri := p_usrpri st\<rparr>
               else st
          else st))"

definition hardclock :: "(nat \<Rightarrow> int \<Rightarrow> int \<Rightarrow> creq list) \<Rightarrow> 32 word \<Rightarrow> clk \<Rightarrow> ((nat \<times> int \<times> int) list \<times> clk) kern" where
  "hardclock handler ps st =
     (let (needsoft, todo) = clock_decr (calltodo (cq st));
          st = st\<lparr>cq := (cq st)\<lparr>calltodo := todo\<rparr>\<rparr>;
          needsoft = (needsoft \<or> USERMODE ps \<and> pr_scale st \<noteq> 0);
          st = charge_pri (charge_proc (charge_mode ps st));
          st = (if phz st = 0 then gatherstats ps st else st);
          (sk', now') = time_tick (tick st) (sk st, now st);
          st = st\<lparr>sk := sk', now := now'\<rparr>
      in if needsoft then
           (if BASEPRI ps then softclock handler ps st else Inr ([], st\<lparr>softpending := True\<rparr>))
         else Inr ([], st))"

section \<open>Timer system calls\<close>

text \<open>
  System calls return \<^verbatim>\<open>u.u_error\<close>; \<^verbatim>\<open>suser()\<close> is the test of the user id for 0. A pointer argument is null, faults with an error, or
  gives a value; \<open>cout\<close> is what \<^verbatim>\<open>copyout\<close> to the user's buffer returns.
\<close>

datatype 'a uarg = UNull | UFault int | UVal 'a

definition getitimer :: "nat \<Rightarrow> int \<Rightarrow> clk \<Rightarrow> int \<times> itimerval option" where
  "getitimer which cout st =
     (if which > 2 then (EINVAL, None)
      else
        let aitv = (if which = 0 then
                      let aitv = p_realtimer st
                      in if timerisset (it_value aitv) then
                           (if timer_less (it_value aitv) (now st) then aitv\<lparr>it_value := timerclear\<rparr>
                            else aitv\<lparr>it_value := timevalsub (it_value aitv) (now st)\<rparr>)
                         else aitv
                    else if which = 1 then u_virtual st else u_prof_timer st)
        in (cout, if cout = 0 then Some aitv else None))"

definition setitimer :: "nat \<Rightarrow> itimerval uarg \<Rightarrow> bool \<Rightarrow> int \<Rightarrow> clk \<Rightarrow> (int \<times> itimerval option \<times> clk) kern" where
  "setitimer which itv want_old cout st =
     (if which > 2 then Inr (EINVAL, None, st)
      else
        let (err, old) = (if want_old then getitimer which cout st else (0, None)) in
        case itv of
          UNull \<Rightarrow> Inr (err, old, st)
        | UFault e \<Rightarrow> Inr (e, old, st)
        | UVal aitv \<Rightarrow>
            let (e1, v) = itimerfix (tick st) (it_value aitv) in
            if e1 \<noteq> 0 then Inr (EINVAL, old, st) else
            let (e2, i) = itimerfix (tick st) (it_interval aitv) in
            if e2 \<noteq> 0 then Inr (EINVAL, old, st) else
            let aitv = \<lparr>it_interval = i, it_value = v\<rparr> in
            if which = 0 then
              let q = untimeout REALITEXPIRE (p_addr st) (cq st) in
              if timerisset v then
                let aitv = aitv\<lparr>it_value := timevaladd v (now st)\<rparr> in
                kbind (timeout REALITEXPIRE (p_addr st) (hzto (hz st) (tick st) (now st) (it_value aitv)) q) (\<lambda>q.
                  Inr (0, old, st\<lparr>cq := q, p_realtimer := aitv\<rparr>))
              else Inr (0, old, st\<lparr>cq := q, p_realtimer := aitv\<rparr>)
            else Inr (0, old, if which = 1 then st\<lparr>u_virtual := aitv\<rparr> else st\<lparr>u_prof_timer := aitv\<rparr>))"

text \<open>\<open>realitexpire\<close>; a loop that does not end is a fault.\<close>

definition realitexpire :: "clk \<Rightarrow> clk kern" where
  "realitexpire st =
     (let st = clk_psignal SIGALRM st; it = p_realtimer st in
      if \<not> timerisset (it_interval it) then
        Inr (st\<lparr>p_realtimer := it\<lparr>it_value := timerclear\<rparr>\<rparr>)
      else
        case realit_loop (now st) (it_value it) (it_interval it) of
          None \<Rightarrow> Inl (Fault ''realitexpire: does not end'')
        | Some v \<Rightarrow>
            kbind (timeout REALITEXPIRE (p_addr st) (hzto (hz st) (tick st) (now st) v) (cq st)) (\<lambda>q.
              Inr (st\<lparr>cq := q, p_realtimer := it\<lparr>it_value := v\<rparr>\<rparr>)))"

text \<open>\<open>delta\<close> is what \<^verbatim>\<open>copyin\<close> made of the argument; the old correction is returned.\<close>

definition adjtime :: "int \<Rightarrow> int \<Rightarrow> int + timeval \<Rightarrow> clk \<Rightarrow> int \<times> timeval option \<times> clk" where
  "adjtime tickadj bigadj delta st =
     (if u_uid st \<noteq> 0 then (EPERM, None, st)
      else case delta of
        Inl e \<Rightarrow> (e, None, st)
      | Inr atv \<Rightarrow> (let (s, oatv) = adjtime_core tickadj bigadj (sk st) atv in (0, Some oatv, st\<lparr>sk := s\<rparr>)))"

definition setthetime :: "timeval \<Rightarrow> clk \<Rightarrow> int \<times> clk" where
  "setthetime tv st =
     (if u_uid st \<noteq> 0 then (EPERM, st)
      else (0, st\<lparr>boottime := (boottime st)\<lparr>tv_sec := wrap32 (tv_sec (boottime st) + (tv_sec tv - tv_sec (now st)))\<rparr>,
                  now := tv\<rparr>))"

section \<open>Timers under the clock interrupt\<close>

lemma psignal_simps [simp]:
  "cq (clk_psignal s st) = cq st" "u_virtual (clk_psignal s st) = u_virtual st" "tick (clk_psignal s st) = tick st"
  "now (clk_psignal s st) = now st" "sk (clk_psignal s st) = sk st" "p_sig (clk_psignal s st) = p_sig st @ [s]"
  "noproc (clk_psignal s st) = noproc st" "p_realtimer (clk_psignal s st) = p_realtimer st" "hz (clk_psignal s st) = hz st"
  "p_addr (clk_psignal s st) = p_addr st" "phz (clk_psignal s st) = phz st"
  by (simp_all add: clk_psignal_def)

lemma setpri_simps [simp]:
  "cq (setpri st) = cq st" "u_virtual (setpri st) = u_virtual st" "tick (setpri st) = tick st"
  "now (setpri st) = now st" "sk (setpri st) = sk st" "p_sig (setpri st) = p_sig st" "p_cpu (setpri st) = p_cpu st"
  "noproc (setpri st) = noproc st" "p_pri (setpri st) = p_pri st" "phz (setpri st) = phz st"
  by (simp_all add: setpri_def Let_def)

text \<open>The clock, the virtual timer and the alarm signals are each touched by one part only.\<close>

definition clock_part :: "clk \<Rightarrow> timeval \<times> skew \<times> int" where
  "clock_part st = (now st, sk st, tick st)"

lemma charge_proc_keeps:
  "clock_part (charge_proc st) = clock_part st" "u_virtual (charge_proc st) = u_virtual st"
  "cq (charge_proc st) = cq st" "noproc (charge_proc st) = noproc st"
  "count_list (p_sig (charge_proc st)) SIGVTALRM = count_list (p_sig st) SIGVTALRM"
proof -
  have l: "clock_part (charge_limit x) = clock_part x" "u_virtual (charge_limit x) = u_virtual x"
    "cq (charge_limit x) = cq x" "noproc (charge_limit x) = noproc x"
    "count_list (p_sig (charge_limit x)) SIGVTALRM = count_list (p_sig x) SIGVTALRM" for x
    by (simp_all add: charge_limit_def clock_part_def Let_def SIGVTALRM_def SIGXCPU_def)
  have p: "clock_part (charge_prof x) = clock_part x" "u_virtual (charge_prof x) = u_virtual x"
    "cq (charge_prof x) = cq x" "noproc (charge_prof x) = noproc x"
    "count_list (p_sig (charge_prof x)) SIGVTALRM = count_list (p_sig x) SIGVTALRM" for x
    by (simp_all add: charge_prof_def clock_part_def Let_def split_beta SIGVTALRM_def SIGPROF_def)
  have r: "clock_part (charge_rss x) = clock_part x" "u_virtual (charge_rss x) = u_virtual x"
    "cq (charge_rss x) = cq x" "noproc (charge_rss x) = noproc x" "p_sig (charge_rss x) = p_sig x" for x
    by (simp_all add: charge_rss_def clock_part_def Let_def split: option.split)
  show "clock_part (charge_proc st) = clock_part st" "u_virtual (charge_proc st) = u_virtual st"
    "cq (charge_proc st) = cq st" "noproc (charge_proc st) = noproc st"
    "count_list (p_sig (charge_proc st)) SIGVTALRM = count_list (p_sig st) SIGVTALRM"
    by (simp_all add: charge_proc_def l p r)
qed

lemma charge_pri_keeps:
  "clock_part (charge_pri st) = clock_part st" "u_virtual (charge_pri st) = u_virtual st"
  "cq (charge_pri st) = cq st" "p_sig (charge_pri st) = p_sig st"
  by (simp_all add: charge_pri_def clock_part_def Let_def)

lemma gatherstats_keeps:
  "clock_part (gatherstats ps st) = clock_part st" "u_virtual (gatherstats ps st) = u_virtual st"
  "cq (gatherstats ps st) = cq st" "p_sig (gatherstats ps st) = p_sig st"
  by (simp_all add: gatherstats_def clock_part_def Let_def)

lemma charge_mode_keeps:
  "clock_part (charge_mode ps st) = clock_part st" "cq (charge_mode ps st) = cq st"
  by (auto simp: charge_mode_def clock_part_def Let_def split: prod.splits)

lemma charge_mode_virtual:
  assumes "USERMODE ps"
  shows "itimer_ticks 1 (tick st) (u_virtual st) = (k, it) \<Longrightarrow> u_virtual (charge_mode ps st) = it
    \<and> count_list (p_sig (charge_mode ps st)) SIGVTALRM = count_list (p_sig st) SIGVTALRM + k"
  using assms by (auto simp: charge_mode_def Let_def split: prod.splits if_splits)

lemma softclock_keeps:
  assumes "softclock handler ps st = Inr (log, st')"
  shows "clock_part st' = clock_part st" "u_virtual st' = u_virtual st" "p_sig st' = p_sig st"
    "\<exists>q. softclock_loop (Suc (length (calltodo (cq st)))) handler (cq st) = Inr (log, q) \<and> cq st' = q"
  using assms by (auto simp: softclock_def clock_part_def Let_def split: if_splits elim!: kbind_InrE)

lemma hardclock_Inr:
  assumes h: "hardclock handler ps st = Inr (log, st')"
  shows "time_tick (tick st) (sk st, now st) = (sk st', now st')" "tick st' = tick st"
    "u_virtual st' = u_virtual (charge_mode ps (st\<lparr>cq := (cq st)\<lparr>calltodo := snd (clock_decr (calltodo (cq st)))\<rparr>\<rparr>))"
    "count_list (p_sig st') SIGVTALRM =
       count_list (p_sig (charge_mode ps (st\<lparr>cq := (cq st)\<lparr>calltodo := snd (clock_decr (calltodo (cq st)))\<rparr>\<rparr>))) SIGVTALRM"
proof -
  define st1 where "st1 = st\<lparr>cq := (cq st)\<lparr>calltodo := snd (clock_decr (calltodo (cq st)))\<rparr>\<rparr>"
  define st2 where "st2 = charge_pri (charge_proc (charge_mode ps st1))"
  define st3 where "st3 = (if phz st2 = 0 then gatherstats ps st2 else st2)"
  define s where "s = time_tick (tick st3) (sk st3, now st3)"
  define st4 where "st4 = st3\<lparr>sk := fst s, now := snd s\<rparr>"
  have k: "clock_part st3 = clock_part st" "u_virtual st3 = u_virtual (charge_mode ps st1)"
    "count_list (p_sig st3) SIGVTALRM = count_list (p_sig (charge_mode ps st1)) SIGVTALRM"
    by (simp_all add: st3_def st2_def gatherstats_keeps charge_pri_keeps charge_proc_keeps charge_mode_keeps)
      (simp add: st1_def clock_part_def)
  have "hardclock handler ps st = (if fst (clock_decr (calltodo (cq st))) \<or> USERMODE ps \<and> pr_scale st1 \<noteq> 0 then
      (if BASEPRI ps then softclock handler ps st4 else Inr ([], st4\<lparr>softpending := True\<rparr>)) else Inr ([], st4))"
    unfolding hardclock_def Let_def split_beta st4_def s_def st3_def st2_def st1_def by (rule refl)
  then have "clock_part st' = clock_part st4 \<and> u_virtual st' = u_virtual st4 \<and> p_sig st' = p_sig st4"
    using h softclock_keeps [of handler ps st4 log st'] by (auto simp: clock_part_def split: if_splits)
  then show "time_tick (tick st) (sk st, now st) = (sk st', now st')" "tick st' = tick st"
    "u_virtual st' = u_virtual (charge_mode ps st1)"
    "count_list (p_sig st') SIGVTALRM = count_list (p_sig (charge_mode ps st1)) SIGVTALRM"
    using k by (auto simp: clock_part_def st4_def s_def)
qed

text \<open>A run of clock interrupts, all taken in the same mode.\<close>

fun clock_ticks :: "nat \<Rightarrow> (nat \<Rightarrow> int \<Rightarrow> int \<Rightarrow> creq list) \<Rightarrow> 32 word \<Rightarrow> clk \<Rightarrow> clk kern" where
  "clock_ticks 0 handler ps st = Inr st"
| "clock_ticks (Suc n) handler ps st =
     kbind (clock_ticks n handler ps st) (\<lambda>st. kbind (hardclock handler ps st) (\<lambda>(log, st). Inr st))"

lemma clock_ticks_virtual:
  assumes "clock_ticks n handler ps st = Inr st'" "USERMODE ps"
  shows "tick st' = tick st \<and> u_virtual st' = snd (itimer_ticks n (tick st) (u_virtual st))
    \<and> count_list (p_sig st') SIGVTALRM = count_list (p_sig st) SIGVTALRM + fst (itimer_ticks n (tick st) (u_virtual st))"
  using assms(1)
proof (induction n arbitrary: st')
  case (Suc n)
  then obtain st1 log where s: "clock_ticks n handler ps st = Inr st1" "hardclock handler ps st1 = Inr (log, st')"
    by (auto simp: kbind_Inr_iff)
  obtain k it where one: "itimer_ticks 1 (tick st1) (u_virtual st1) = (k, it)" by force
  note IH = Suc.IH [OF s(1)]
  note h = hardclock_Inr [OF s(2)]
  let ?st = "st1\<lparr>cq := (cq st1)\<lparr>calltodo := snd (clock_decr (calltodo (cq st1)))\<rparr>\<rparr>"
  have "itimer_ticks 1 (tick ?st) (u_virtual ?st) = (k, it)" using one by simp
  from charge_mode_virtual [OF assms(2) this] h
  have "u_virtual st' = it" "count_list (p_sig st') SIGVTALRM = count_list (p_sig st1) SIGVTALRM + k" by simp_all
  moreover have "itimer_ticks (Suc n) (tick st) (u_virtual st)
    = (fst (itimer_ticks n (tick st) (u_virtual st)) + k, it)"
    using one IH by (cases "itimer_ticks n (tick st) (u_virtual st)") (auto simp: Let_def split_beta split: if_splits)
  ultimately show ?case using IH h(2) by simp
qed simp

lemma clock_ticks_time:
  "clock_ticks n handler ps st = Inr st' \<Longrightarrow> (sk st', now st') = (time_tick (tick st) ^^ n) (sk st, now st) \<and> tick st' = tick st"
proof (induction n arbitrary: st')
  case (Suc n)
  then obtain st1 log where s: "clock_ticks n handler ps st = Inr st1" "hardclock handler ps st1 = Inr (log, st')"
    by (auto simp: kbind_Inr_iff)
  have IH: "(sk st1, now st1) = (time_tick (tick st) ^^ n) (sk st, now st)" "tick st1 = tick st"
    using Suc.IH [OF s(1)] by auto
  have "(sk st', now st') = time_tick (tick st) (sk st1, now st1)" using hardclock_Inr(1) [OF s(2)] IH(2) by simp
  then show ?case using IH hardclock_Inr(2) [OF s(2)] by simp
qed simp

lemma tv_wf_eq: "tv_wf a \<Longrightarrow> tv_wf b \<Longrightarrow> tv_us a = tv_us b \<Longrightarrow> a = b"
proof -
  assume w: "tv_wf a" "tv_wf b" "tv_us a = tv_us b"
  have "0 \<le> tv_usec a" "tv_usec a < 1000000" "0 \<le> tv_usec b" "tv_usec b < 1000000"
    using w by (auto simp: tv_wf_def)
  moreover define d where "d = tv_sec a - tv_sec b"
  ultimately have "d * 1000000 < 1000000" "-1000000 < d * 1000000" using w(3) by (simp_all add: tv_us_def)
  then have "d = 0" by linarith
  then have "tv_sec a = tv_sec b" by (simp add: d_def)
  with w(3) show "a = b" by (cases a; cases b) (simp add: tv_us_def)
qed

section \<open>Properties\<close>

definition ex_callq :: callq where
  "ex_callq = \<lparr>calltodo = [], callfree = [\<lparr>c_time = 0, c_arg = 0, c_func = 0\<rparr>, \<lparr>c_time = 0, c_arg = 0, c_func = 0\<rparr>]\<rparr>"

definition ex_clk :: clk where
  "ex_clk = \<lparr>hz = 100, tick = 10000, cq = ex_callq, now = \<lparr>tv_sec = 1000, tv_usec = 0\<rparr>, boottime = timerclear,
     sk = \<lparr>tickdelta = 0, timedelta = 0\<rparr>, noproc = False, phz = 0, cp_time = [0, 0, 0, 0], dk_busy = 0,
     dk_time = [0, 0, 0, 0], softpending = False, curpri = 50, runrun = 0, freemem = 100, desfree = 10, p_addr = 7,
     p_cpu = 0, p_nice = 0, p_pri = 50, p_usrpri = 50, p_cpticks = 0, p_rssize = 10, p_maxrss = 100, p_uid = 0,
     p_soweupc = False, x_rssize = None, p_realtimer = \<lparr>it_interval = timerclear, it_value = timerclear\<rparr>, p_sig = [],
     pr_scale = 0, ru_utime = timerclear, ru_stime = timerclear, ru_idrss = 0, ru_ixrss = 0, ru_maxrss = 0,
     rlim_cur = 1000, rlim_max = 1000,
     u_virtual = \<lparr>it_interval = \<lparr>tv_sec = 0, tv_usec = 15000\<rparr>, it_value = \<lparr>tv_sec = 0, tv_usec = 25000\<rparr>\<rparr>,
     u_prof_timer = \<lparr>it_interval = timerclear, it_value = timerclear\<rparr>, u_uid = 0\<rparr>"

text \<open>
  C6. Virtual timers do not drift. Let a process run in user mode for \<open>n\<close> clock interrupts
  with a periodic virtual timer whose interval is at least a tick (\<open>itimerfix\<close> makes every
  accepted interval so). Then the number of \<^verbatim>\<open>SIGVTALRM\<close> signals posted is exactly the
  number of expiries that fall into \<open>n\<close> ticks, the first at the initial value and the others
  at exact multiples of the interval after it: the error of one reload is never carried on.
\<close>

theorem virtual_timer_no_drift:
  assumes run: "clock_ticks n handler ps st = Inr st'" and user: "USERMODE ps"
    and it: "it_wf (u_virtual st)" "0 < tv_us (it_value (u_virtual st))"
    and tk: "0 < tick st" "tick st < 1000000" "tick st \<le> tv_us (it_interval (u_virtual st))"
  defines "v \<equiv> tv_us (it_value (u_virtual st))" and "i \<equiv> tv_us (it_interval (u_virtual st))"
  shows "int (count_list (p_sig st') SIGVTALRM) = int (count_list (p_sig st) SIGVTALRM)
    + (if int n * tick st < v then 0 else (int n * tick st - v) div i + 1)"
proof -
  from itimer_ticks_periodic [OF it tk(1,2,3), of n] obtain k it' where
    k: "itimer_ticks n (tick st) (u_virtual st) = (k, it')" "0 < tv_us (it_value it')"
    "tv_us (it_value it') + int n * tick st = v + int k * i" "0 < k \<longrightarrow> tv_us (it_value it') \<le> i"
    unfolding v_def i_def by blast
  have i: "0 < i" using tk by (simp add: i_def)
  have "int k = (if int n * tick st < v then 0 else (int n * tick st - v) div i + 1)"
  proof (cases "k = 0")
    case True
    then show ?thesis using k(2,3) by simp
  next
    case False
    have e: "int n * tick st - v = (int k - 1) * i + (i - tv_us (it_value it'))"
      using k(3) by (simp add: algebra_simps)
    have r: "0 \<le> i - tv_us (it_value it')" "i - tv_us (it_value it') < i" using k(2,4) False by auto
    have "(int n * tick st - v) div i = int k - 1"
      unfolding e using r i by (simp add: div_pos_pos_trivial)
    moreover have "0 \<le> (int k - 1) * i" using False i by simp
    then have "\<not> int n * tick st < v" using e r by linarith
    ultimately show ?thesis by simp
  qed
  then show ?thesis using clock_ticks_virtual [OF run user] k(1) by simp
qed

theorem virtual_timer_no_drift_witness:
  "\<exists>st'. clock_ticks 4 (\<lambda>_ _ _. []) 0x03000000 ex_clk = Inr st' \<and> int (count_list (p_sig st') SIGVTALRM) = 2"
proof -
  have "\<not> isl (clock_ticks 4 (\<lambda>_ _ _. []) 0x03000000 ex_clk) \<and> USERMODE 0x03000000"
    by code_simp
  then obtain st' where st': "clock_ticks 4 (\<lambda>_ _ _. []) 0x03000000 ex_clk = Inr st'" "USERMODE 0x03000000"
    by (cases "clock_ticks 4 (\<lambda>_ _ _. []) 0x03000000 ex_clk") auto
  have it: "it_wf (u_virtual ex_clk)" "0 < tv_us (it_value (u_virtual ex_clk))" "0 < tick ex_clk" "tick ex_clk < 1000000"
    "tick ex_clk \<le> tv_us (it_interval (u_virtual ex_clk))" by (simp_all add: ex_clk_def it_wf_def tv_defs)
  from virtual_timer_no_drift [OF st' it] st'(1) show ?thesis
    by (simp add: ex_clk_def tv_us_def)
qed

text \<open>
  C9. \<open>hzto\<close>: for a time at most 2146483 seconds away, as many ticks as the difference holds,
  less than one tick too few and less than a millisecond too many; beyond that, seconds
  times \<open>hz\<close>, cut off at the largest integer. It never overflows or turns negative.
\<close>

theorem hzto_correct:
  assumes wf: "tv_wf t0" "tv_wf tv" and le: "tv_us t0 \<le> tv_us tv" and r: "tv_sec tv - tv_sec t0 < 2147483648"
    and tk: "1000 dvd tk" "0 < tk" "0 < h"
  defines "d \<equiv> tv_us tv - tv_us t0" and "s \<equiv> tv_sec tv - tv_sec t0"
  shows "if s \<le> 2146483 then d - tk < hzto h tk t0 tv * tk \<and> hzto h tk t0 tv * tk < d + 1000 \<and> 0 \<le> hzto h tk t0 tv
    else hzto h tk t0 tv = min 2147483647 (s * h)"
  using hzto_near [OF wf le _ tk(1,2), of h] hzto_far [OF tk(3) r, of tk] by (simp add: d_def s_def)

theorem hzto_correct_witness:
  "hzto 100 10000 \<lparr>tv_sec = 5, tv_usec = 999999\<rparr> \<lparr>tv_sec = 7, tv_usec = 0\<rparr> * 10000 < 1000001 + 1000"
  using hzto_correct [of "\<lparr>tv_sec = 5, tv_usec = 999999\<rparr>" "\<lparr>tv_sec = 7, tv_usec = 0\<rparr>" 10000 100]
  by (simp add: tv_us_def tv_wf_def)

text \<open>
  C10. Real time timers do not drift. \<open>realitexpire\<close> posts one \<^verbatim>\<open>SIGALRM\<close>; with no interval it
  clears the timer; otherwise its loop ends, however late it was called, the new expiry is a
  whole number of intervals after the old one and the first such time after the present, and
  a callout for it is queued (or the callout table is full, which panics). The present and the
  old expiry have to be at least one interval before the end of the time that 32 bits of seconds
  can count: there the sum wraps to a time long past, and the loop goes on from there.
\<close>

theorem realitexpire_no_drift:
  assumes wf: "it_wf (p_realtimer st)" "tv_wf (now st)" and ok: "callq_ok (cq st)"
    and fit: "tv_us (now st) + tv_us (it_interval (p_realtimer st)) < 2147483648000000"
      "tv_us (it_value (p_realtimer st)) + tv_us (it_interval (p_realtimer st)) < 2147483648000000"
  defines "it \<equiv> p_realtimer st"
  shows "case realitexpire st of
      Inl e \<Rightarrow> e = Panic ''timeout table overflow'' \<and> callfree (cq st) = []
    | Inr st' \<Rightarrow> p_sig st' = p_sig st @ [SIGALRM] \<and> it_interval (p_realtimer st') = it_interval it
        \<and> (if tv_us (it_interval it) = 0 then tv_us (it_value (p_realtimer st')) = 0 \<and> cq st' = cq st
           else \<exists>m\<ge>1. tv_us (it_value (p_realtimer st')) = tv_us (it_value it) + m * tv_us (it_interval it)
             \<and> tv_us (now st) < tv_us (it_value (p_realtimer st'))
             \<and> (m = 1 \<or> tv_us (it_value (p_realtimer st')) - tv_us (it_interval it) \<le> tv_us (now st))
             \<and> (REALITEXPIRE, p_addr st, max 1 (hzto (hz st) (tick st) (now st) (it_value (p_realtimer st'))))
                 \<in> set (pending (cq st')))"
proof (cases "tv_us (it_interval it) = 0")
  case True
  then have "\<not> timerisset (it_interval it)" using wf(1) tv_us_sign(3) [of "it_interval it"] by (simp add: it_def it_wf_def)
  with True show ?thesis by (simp add: realitexpire_def Let_def it_def [symmetric])
next
  case False
  have set: "timerisset (it_interval it)" and pos: "0 < tv_us (it_interval it)"
    using wf(1) False tv_us_sign(3) [of "it_interval it"] by (auto simp: it_def it_wf_def)
  have w: "tv_wf (it_value it)" "tv_wf (it_interval it)" "0 \<le> tv_us (it_value it)" using wf(1) by (auto simp: it_def it_wf_def)
  from realit_loop_spec [OF wf(2) w(1,2) pos w(3) fit [folded it_def]] obtain v m where v:
    "realit_loop (now st) (it_value it) (it_interval it) = Some v" "1 \<le> m"
    "tv_us v = tv_us (it_value it) + m * tv_us (it_interval it)" "tv_us (now st) < tv_us v"
    "tv_us v \<le> tv_us (now st) + tv_us (it_interval it) \<or> m = 1" by blast
  note t = timeout_spec [OF ok, where f = REALITEXPIRE and x = "p_addr st" and t = "hzto (hz st) (tick st) (now st) v"]
  show ?thesis
  proof (cases "timeout REALITEXPIRE (p_addr st) (hzto (hz st) (tick st) (now st) v) (cq st)")
    case (Inl e)
    then show ?thesis using t v(1) set by (simp add: realitexpire_def Let_def it_def [symmetric])
  next
    case (Inr q)
    then have "realitexpire st = Inr ((clk_psignal SIGALRM st)\<lparr>cq := q, p_realtimer := it\<lparr>it_value := v\<rparr>\<rparr>)"
      using v(1) set by (simp add: realitexpire_def Let_def it_def [symmetric])
    with Inr t v(2-5) False show ?thesis by (auto intro!: exI [of _ m])
  qed
qed

definition ex_realclk :: clk where
  "ex_realclk = ex_clk\<lparr>p_realtimer := \<lparr>it_interval = \<lparr>tv_sec = 2, tv_usec = 0\<rparr>, it_value = \<lparr>tv_sec = 997, tv_usec = 0\<rparr>\<rparr>\<rparr>"

theorem realitexpire_no_drift_witness:
  "case realitexpire ex_realclk of Inl e \<Rightarrow> e = Panic ''timeout table overflow'' \<and> callfree (cq ex_realclk) = []
    | Inr st' \<Rightarrow> p_sig st' = [SIGALRM] \<and> (\<exists>m\<ge>1. tv_us (it_value (p_realtimer st')) = 997000000 + m * 2000000
        \<and> 1000000000 < tv_us (it_value (p_realtimer st')))"
proof -
  have "it_wf (p_realtimer ex_realclk)" "tv_wf (now ex_realclk)" "callq_ok (cq ex_realclk)"
    "tv_us (now ex_realclk) + tv_us (it_interval (p_realtimer ex_realclk)) < 2147483648000000"
    "tv_us (it_value (p_realtimer ex_realclk)) + tv_us (it_interval (p_realtimer ex_realclk)) < 2147483648000000"
    by (simp_all add: ex_realclk_def ex_clk_def ex_callq_def it_wf_def tv_wf_def tv_us_def)
  from realitexpire_no_drift [OF this] show ?thesis
    by (auto simp: ex_realclk_def ex_clk_def tv_us_def split: sum.splits)
qed

text \<open>
  \<open>setitimer\<close> and \<open>getitimer\<close> agree for all three timers: after a successful \<open>setitimer\<close>
  the same call of \<open>getitimer\<close> returns the value and interval as \<open>itimerfix\<close> rounded them
  (never less than asked for, and never a positive time below the clock's resolution), also
  for the real time timer, which is stored as an absolute time, as long as the clock shows a time
  more than the longest timer, 100000000 seconds, before the end of what 32 bits can count.
\<close>

theorem setitimer_getitimer:
  assumes set: "setitimer which (UVal it) old cout st = Inr (0, o1, st')" and now: "tv_wf (now st)" "0 \<le> tv_us (now st)"
    and far: "tv_sec (now st) < 2047483647" and tk: "0 < tick st" "tick st < 1000000"
  shows "\<exists>v i. which \<le> 2 \<and> itimerfix (tick st) (it_value it) = (0, v) \<and> itimerfix (tick st) (it_interval it) = (0, i)
    \<and> getitimer which 0 st' = (0, Some \<lparr>it_interval = i, it_value = v\<rparr>)
    \<and> tv_us (it_value it) \<le> tv_us v \<and> (tv_us i = 0 \<or> tick st \<le> tv_us i) \<and> it_wf \<lparr>it_interval = i, it_value = v\<rparr>"
proof -
  have w: "which \<le> 2" using set by (auto simp: setitimer_def EINVAL_def split: if_splits)
  obtain e1 v where v: "itimerfix (tick st) (it_value it) = (e1, v)" by force
  obtain e2 i where i: "itimerfix (tick st) (it_interval it) = (e2, i)" by force
  have e: "e1 = 0" "e2 = 0" using set w v i
    by (auto simp: setitimer_def Let_def EINVAL_def split: if_splits prod.splits)
  note fv = itimerfix_0 [OF v [unfolded e] tk] and fi = itimerfix_0 [OF i [unfolded e] tk]
  have vs: "0 \<le> tv_sec v" "tv_sec v \<le> 100000000" "tv_usec v < 1000000"
    using v e tk by (auto simp: itimerfix_def EINVAL_def split: if_splits)
  have ns: "0 \<le> tv_sec (now st)" "tv_usec (now st) < 1000000" "0 \<le> tv_usec (now st)" using now tv_us_sign(1) [OF now(1)] by (auto simp: tv_wf_def)
  have sum: "tv_us (timevaladd v (now st)) = tv_us v + tv_us (now st)"
    using fv(1) now(1) vs ns far by (intro timevaladd_us) (simp_all add: tv_us_def)
  have wfs: "tv_wf (timevaladd v (now st))" using fv(1) now(1) by simp
  have "tv_us (timevaladd v (now st)) < 2147483648000000" using sum vs ns far by (simp add: tv_us_def)
  then have "tv_sec (timevaladd v (now st)) < 2147483648" using wfs by (simp add: tv_us_def tv_wf_def)
  then have dif: "tv_us (timevalsub (timevaladd v (now st)) (now st)) = tv_us v"
    using timevalsub_us [OF wfs now(1)] sum fv(2) ns by simp
  have "getitimer which 0 st' = (0, Some \<lparr>it_interval = i, it_value = v\<rparr>)"
  proof (cases "which = 0")
    case False
    then have "st' = (if which = 1 then st\<lparr>u_virtual := \<lparr>it_interval = i, it_value = v\<rparr>\<rparr>
        else st\<lparr>u_prof_timer := \<lparr>it_interval = i, it_value = v\<rparr>\<rparr>)"
      using set w v i e by (auto simp: setitimer_def Let_def split_beta split: if_splits)
    then show ?thesis using False w by (simp add: getitimer_def)
  next
    case True
    show ?thesis
    proof (cases "timerisset v")
      case True
      then have "now st' = now st \<and> p_realtimer st' = \<lparr>it_interval = i, it_value = timevaladd v (now st)\<rparr>"
        using set \<open>which = 0\<close> v i e by (auto simp: setitimer_def Let_def split_beta kbind_Inr_iff split: if_splits)
      moreover have "\<not> timer_less (timevaladd v (now st)) (now st)"
        using timer_less_us [of "timevaladd v (now st)" "now st"] fv now sum by simp
      moreover have "timevalsub (timevaladd v (now st)) (now st) = v"
        by (rule tv_wf_eq) (use fv now dif in auto)
      moreover have "timerisset (timevaladd v (now st))"
        using tv_us_sign(3) [of "timevaladd v (now st)"] tv_us_sign(3) [of v] True fv(1,2) now sum by simp
      ultimately show ?thesis using \<open>which = 0\<close> True by (auto simp: getitimer_def Let_def)
    next
      case False
      then have "p_realtimer st' = \<lparr>it_interval = i, it_value = v\<rparr>"
        using set \<open>which = 0\<close> v i e by (auto simp: setitimer_def Let_def split_beta kbind_Inr_iff split: if_splits)
      with False \<open>which = 0\<close> show ?thesis by (simp add: getitimer_def Let_def)
    qed
  qed
  with w v i e fv fi show ?thesis by (auto simp: it_wf_def)
qed

theorem setitimer_getitimer_witness:
  "\<exists>v i. getitimer 0 0 (case setitimer 0 (UVal \<lparr>it_interval = timerclear, it_value = \<lparr>tv_sec = 1, tv_usec = 5\<rparr>\<rparr>) False 0 ex_clk of
      Inr (e, old, st') \<Rightarrow> st' | Inl _ \<Rightarrow> ex_clk) = (0, Some \<lparr>it_interval = i, it_value = v\<rparr>) \<and> 1000005 \<le> tv_us v"
proof -
  let ?it = "\<lparr>it_interval = timerclear, it_value = \<lparr>tv_sec = 1, tv_usec = 5\<rparr>\<rparr>"
  have "(case setitimer 0 (UVal ?it) False 0 ex_clk of Inr (e, old, st') \<Rightarrow> e = 0 \<and> old = None | Inl _ \<Rightarrow> False)"
    by code_simp
  then obtain st' where set: "setitimer 0 (UVal ?it) False 0 ex_clk = Inr (0, None, st')"
    by (auto split: sum.splits prod.splits)
  have "tv_wf (now ex_clk)" "0 \<le> tv_us (now ex_clk)" "tv_sec (now ex_clk) < 2047483647" "0 < tick ex_clk" "tick ex_clk < 1000000"
    by (simp_all add: ex_clk_def tv_wf_def tv_us_def)
  from setitimer_getitimer [OF set this] show ?thesis unfolding set by (auto simp: tv_us_def)
qed

text \<open>
  Adjusting the clock is exact when it ends. After \<open>adjtime\<close> with a correction that is a
  whole number \<open>m\<close> of steps \<open>tickdelta\<close>, the correction is used up after \<open>|m|\<close> clock interrupts
  and the clock then shows the elapsed ticks plus the correction; before that, what is left
  plus what the clock shows is constant, apart from the ticks. The seconds count modulo \<open>2^32\<close>.
\<close>

theorem adjtime_exact:
  assumes adj: "adjtime tickadj bigadj (Inr delta) st = (0, old, st1)" and "0 < tickadj"
    and fresh: "timedelta (sk st) = 0"
    and m: "timedelta (sk st1) = m * tickdelta (sk st1)"
    and run: "clock_ticks n handler ps st1 = Inr st2"
  shows "(\<exists>k. tv_us (now st2) + timedelta (sk st2) = tv_us (now st) + timedelta (sk st1) + int n * tick st + k * 4294967296000000)
    \<and> (int n \<ge> \<bar>m\<bar> \<longrightarrow> timedelta (sk st2) = 0)"
proof -
  have s1: "now st1 = now st" "tick st1 = tick st" "0 < tickdelta (sk st1)"
    using adj assms(2) fresh by (auto simp: adjtime_def adjtime_core_def EPERM_def Let_def split: if_splits prod.splits)
  note t = clock_ticks_time [OF run]
  have "\<exists>k. tv_us (now st2) + timedelta (sk st2) = tv_us (now st) + timedelta (sk st1) + int n * tick st + k * 4294967296000000"
    using time_ticks_conserve [of n "tick st1" "sk st1" "now st1" "sk st2" "now st2"] t s1 by simp
  moreover have "timedelta (sk st2) = (if m \<ge> 0 then max 0 (m - int n) else min 0 (m + int n)) * tickdelta (sk st1)"
    using time_ticks_finish [OF refl s1(3) m, where tick = "tick st1" and n = n and now = "now st1"] t by (metis fst_conv)
  ultimately show ?thesis by auto
qed

theorem adjtime_exact_witness:
  "\<exists>st1 st2. adjtime 40 1000000 (Inr \<lparr>tv_sec = 0, tv_usec = 80\<rparr>) ex_clk = (0, Some \<lparr>tv_sec = 0, tv_usec = 0\<rparr>, st1)
    \<and> clock_ticks 3 (\<lambda>_ _ _. []) 0 st1 = Inr st2 \<and> timedelta (sk st2) = 0 \<and> (\<exists>k. tv_us (now st2) = 1000000000 + 80 + 30000 + k * 4294967296000000)"
proof -
  obtain st1 where adj: "adjtime 40 1000000 (Inr \<lparr>tv_sec = 0, tv_usec = 80\<rparr>) ex_clk = (0, Some \<lparr>tv_sec = 0, tv_usec = 0\<rparr>, st1)"
    and st1: "st1 = ex_clk\<lparr>sk := \<lparr>tickdelta = 40, timedelta = 80\<rparr>\<rparr>"
    by (auto simp: adjtime_def adjtime_core_def ex_clk_def Let_def sdiv_nonneg smod_nonneg)
  have "\<not> isl (clock_ticks 3 (\<lambda>_ _ _. []) 0 (ex_clk\<lparr>sk := \<lparr>tickdelta = 40, timedelta = 80\<rparr>\<rparr>))" by code_simp
  then obtain st2 where run: "clock_ticks 3 (\<lambda>_ _ _. []) 0 st1 = Inr st2"
    using st1 by (cases "clock_ticks 3 (\<lambda>_ _ _. []) 0 st1") auto
  have "timedelta (sk ex_clk) = 0" "timedelta (sk st1) = 2 * tickdelta (sk st1)" "(0 :: int) < 40"
    by (simp_all add: ex_clk_def st1)
  note * = adjtime_exact [OF adj this(3,1,2) run]
  then show ?thesis using adj run by (auto simp: st1 ex_clk_def tv_us_def)
qed

text \<open>
  A large correction can stay for ever. When the correction exceeds \<open>bigadj\<close>, \<open>adjtime\<close>
  steps by ten times \<open>tickadj\<close> but rounds the correction to a multiple of \<open>tickadj\<close> only; if
  what is left is no multiple of the step, then \<^verbatim>\<open>timedelta\<close> never becomes 0, after any
  number of clock interrupts: the clock is pushed back and forth without end.
\<close>

theorem adjtime_never_done:
  assumes adj: "adjtime tickadj bigadj (Inr delta) st = (0, old, st1)" and "0 < tickadj"
    and fresh: "timedelta (sk st) = 0"
    and big: "timedelta (sk st1) mod tickdelta (sk st1) \<noteq> 0"
    and run: "clock_ticks n handler ps st1 = Inr st2"
  shows "timedelta (sk st2) \<noteq> 0"
proof -
  have "0 < tickdelta (sk st1)"
    using adj assms(2) fresh by (auto simp: adjtime_def adjtime_core_def EPERM_def Let_def split: if_splits prod.splits)
  from time_ticks_never [OF refl this big, where tick = "tick st1" and n = n and now = "now st1"] clock_ticks_time [OF run]
  show ?thesis by (metis fst_conv mod_0)
qed

theorem adjtime_never_done_witness:
  "\<exists>st1 st2. adjtime 40 1000000 (Inr \<lparr>tv_sec = 1, tv_usec = 40\<rparr>) ex_clk = (0, Some \<lparr>tv_sec = 0, tv_usec = 0\<rparr>, st1)
    \<and> clock_ticks 3 (\<lambda>_ _ _. []) 0 st1 = Inr st2 \<and> timedelta (sk st2) \<noteq> 0"
proof -
  obtain st1 where adj: "adjtime 40 1000000 (Inr \<lparr>tv_sec = 1, tv_usec = 40\<rparr>) ex_clk = (0, Some \<lparr>tv_sec = 0, tv_usec = 0\<rparr>, st1)"
    and st1: "st1 = ex_clk\<lparr>sk := \<lparr>tickdelta = 400, timedelta = 1000040\<rparr>\<rparr>"
    by (auto simp: adjtime_def adjtime_core_def ex_clk_def Let_def sdiv_nonneg smod_nonneg)
  have "\<not> isl (clock_ticks 3 (\<lambda>_ _ _. []) 0 (ex_clk\<lparr>sk := \<lparr>tickdelta = 400, timedelta = 1000040\<rparr>\<rparr>))" by code_simp
  then obtain st2 where run: "clock_ticks 3 (\<lambda>_ _ _. []) 0 st1 = Inr st2"
    using st1 by (cases "clock_ticks 3 (\<lambda>_ _ _. []) 0 st1") auto
  have "timedelta (sk ex_clk) = 0" "timedelta (sk st1) mod tickdelta (sk st1) \<noteq> 0" "(0 :: int) < 40"
    by (simp_all add: ex_clk_def st1)
  from adjtime_never_done [OF adj this(3,1,2) run] adj run show ?thesis by blast
qed

end
