(* ===== verification/Fsbits.thy ===== *)
theory Fsbits
  imports Prelude
begin

unbundle bit_operations_syntax

text \<open>
  The free maps of the fast file system: \<^verbatim>\<open>sys/ufs/ufs_subr.c\<close> (\<open>isblock\<close>, \<open>setblock\<close>,
  \<open>clrblock\<close>, \<open>fragacct\<close>, \<open>scanc\<close>), the tables of \<^verbatim>\<open>sys/ufs/ufs_tables.c\<close> and the bit macros of
  \<^verbatim>\<open>sys/h/param.h\<close> and \<^verbatim>\<open>sys/ufs/fs.h\<close>. A map is a list of bytes with one bit per fragment,
  set when the fragment is free; blocks are groups of 1, 2, 4 or 8 fragments.
\<close>

section \<open>Maps and bits\<close>

type_synonym bitmap = "8 word list"

definition setbit :: "bitmap \<Rightarrow> nat \<Rightarrow> bitmap" where
  "setbit a i = a[i div 8 := (a ! (i div 8)) OR push_bit (i mod 8) 1]"

definition clrbit :: "bitmap \<Rightarrow> nat \<Rightarrow> bitmap" where
  "clrbit a i = a[i div 8 := (a ! (i div 8)) AND NOT (push_bit (i mod 8) 1)]"

definition isset :: "bitmap \<Rightarrow> nat \<Rightarrow> bool" where
  "isset a i \<longleftrightarrow> (a ! (i div 8)) AND push_bit (i mod 8) 1 \<noteq> 0"

definition isclr :: "bitmap \<Rightarrow> nat \<Rightarrow> bool" where
  "isclr a i \<longleftrightarrow> (a ! (i div 8)) AND push_bit (i mod 8) 1 = 0"

definition isblock :: "nat \<Rightarrow> bitmap \<Rightarrow> nat \<Rightarrow> bool kern" where
  "isblock fs_frag cp h =
     (if fs_frag = 8 then Inr (cp ! h = 0xff)
      else if fs_frag = 4 then
        let msk = push_bit ((h mod 2) * 4) 0x0f in Inr ((cp ! (h div 2)) AND msk = msk)
      else if fs_frag = 2 then
        let msk = push_bit ((h mod 4) * 2) 0x03 in Inr ((cp ! (h div 4)) AND msk = msk)
      else if fs_frag = 1 then
        let msk = push_bit (h mod 8) 0x01 in Inr ((cp ! (h div 8)) AND msk = msk)
      else Inl (Panic ''isblock''))"

definition clrblock :: "nat \<Rightarrow> bitmap \<Rightarrow> nat \<Rightarrow> bitmap kern" where
  "clrblock fs_frag cp h =
     (if fs_frag = 8 then Inr (cp[h := 0])
      else if fs_frag = 4 then Inr (cp[h div 2 := (cp ! (h div 2)) AND NOT (push_bit ((h mod 2) * 4) 0x0f)])
      else if fs_frag = 2 then Inr (cp[h div 4 := (cp ! (h div 4)) AND NOT (push_bit ((h mod 4) * 2) 0x03)])
      else if fs_frag = 1 then Inr (cp[h div 8 := (cp ! (h div 8)) AND NOT (push_bit (h mod 8) 0x01)])
      else Inl (Panic ''clrblock''))"

definition setblock :: "nat \<Rightarrow> bitmap \<Rightarrow> nat \<Rightarrow> bitmap kern" where
  "setblock fs_frag cp h =
     (if fs_frag = 8 then Inr (cp[h := 0xff])
      else if fs_frag = 4 then Inr (cp[h div 2 := (cp ! (h div 2)) OR push_bit ((h mod 2) * 4) 0x0f])
      else if fs_frag = 2 then Inr (cp[h div 4 := (cp ! (h div 4)) OR push_bit ((h mod 4) * 2) 0x03])
      else if fs_frag = 1 then Inr (cp[h div 8 := (cp ! (h div 8)) OR push_bit (h mod 8) 0x01])
      else Inl (Panic ''setblock''))"

definition blkmap :: "nat \<Rightarrow> bitmap \<Rightarrow> nat \<Rightarrow> int" where
  "blkmap fs_frag cp loc = uint (drop_bit (loc mod 8) (cp ! (loc div 8)) AND drop_bit (8 - fs_frag) 0xff)"

section \<open>The fragment tables\<close>

definition around :: "int list" where
  "around = [0x3, 0x7, 0xf, 0x1f, 0x3f, 0x7f, 0xff, 0x1ff, 0x3ff]"

definition inside :: "int list" where
  "inside = [0x0, 0x2, 0x6, 0xe, 0x1e, 0x3e, 0x7e, 0xfe, 0x1fe]"

definition fragtbl124 :: "int list" where
  "fragtbl124 = [
    0x00, 0x16, 0x16, 0x2a, 0x16, 0x16, 0x26, 0x4e, 0x16, 0x16, 0x16, 0x3e, 0x2a, 0x3e, 0x4e, 0x8a,
    0x16, 0x16, 0x16, 0x3e, 0x16, 0x16, 0x36, 0x5e, 0x16, 0x16, 0x16, 0x3e, 0x3e, 0x3e, 0x5e, 0x9e,
    0x16, 0x16, 0x16, 0x3e, 0x16, 0x16, 0x36, 0x5e, 0x16, 0x16, 0x16, 0x3e, 0x3e, 0x3e, 0x5e, 0x9e,
    0x2a, 0x3e, 0x3e, 0x2a, 0x3e, 0x3e, 0x2e, 0x6e, 0x3e, 0x3e, 0x3e, 0x3e, 0x2a, 0x3e, 0x6e, 0xaa,
    0x16, 0x16, 0x16, 0x3e, 0x16, 0x16, 0x36, 0x5e, 0x16, 0x16, 0x16, 0x3e, 0x3e, 0x3e, 0x5e, 0x9e,
    0x16, 0x16, 0x16, 0x3e, 0x16, 0x16, 0x36, 0x5e, 0x16, 0x16, 0x16, 0x3e, 0x3e, 0x3e, 0x5e, 0x9e,
    0x26, 0x36, 0x36, 0x2e, 0x36, 0x36, 0x26, 0x6e, 0x36, 0x36, 0x36, 0x3e, 0x2e, 0x3e, 0x6e, 0xae,
    0x4e, 0x5e, 0x5e, 0x6e, 0x5e, 0x5e, 0x6e, 0x4e, 0x5e, 0x5e, 0x5e, 0x7e, 0x6e, 0x7e, 0x4e, 0xce,
    0x16, 0x16, 0x16, 0x3e, 0x16, 0x16, 0x36, 0x5e, 0x16, 0x16, 0x16, 0x3e, 0x3e, 0x3e, 0x5e, 0x9e,
    0x16, 0x16, 0x16, 0x3e, 0x16, 0x16, 0x36, 0x5e, 0x16, 0x16, 0x16, 0x3e, 0x3e, 0x3e, 0x5e, 0x9e,
    0x16, 0x16, 0x16, 0x3e, 0x16, 0x16, 0x36, 0x5e, 0x16, 0x16, 0x16, 0x3e, 0x3e, 0x3e, 0x5e, 0x9e,
    0x3e, 0x3e, 0x3e, 0x3e, 0x3e, 0x3e, 0x3e, 0x7e, 0x3e, 0x3e, 0x3e, 0x3e, 0x3e, 0x3e, 0x7e, 0xbe,
    0x2a, 0x3e, 0x3e, 0x2a, 0x3e, 0x3e, 0x2e, 0x6e, 0x3e, 0x3e, 0x3e, 0x3e, 0x2a, 0x3e, 0x6e, 0xaa,
    0x3e, 0x3e, 0x3e, 0x3e, 0x3e, 0x3e, 0x3e, 0x7e, 0x3e, 0x3e, 0x3e, 0x3e, 0x3e, 0x3e, 0x7e, 0xbe,
    0x4e, 0x5e, 0x5e, 0x6e, 0x5e, 0x5e, 0x6e, 0x4e, 0x5e, 0x5e, 0x5e, 0x7e, 0x6e, 0x7e, 0x4e, 0xce,
    0x8a, 0x9e, 0x9e, 0xaa, 0x9e, 0x9e, 0xae, 0xce, 0x9e, 0x9e, 0x9e, 0xbe, 0xaa, 0xbe, 0xce, 0x8a]"

definition fragtbl8 :: "int list" where
  "fragtbl8 = [
    0x00, 0x01, 0x01, 0x02, 0x01, 0x01, 0x02, 0x04, 0x01, 0x01, 0x01, 0x03, 0x02, 0x03, 0x04, 0x08,
    0x01, 0x01, 0x01, 0x03, 0x01, 0x01, 0x03, 0x05, 0x02, 0x03, 0x03, 0x02, 0x04, 0x05, 0x08, 0x10,
    0x01, 0x01, 0x01, 0x03, 0x01, 0x01, 0x03, 0x05, 0x01, 0x01, 0x01, 0x03, 0x03, 0x03, 0x05, 0x09,
    0x02, 0x03, 0x03, 0x02, 0x03, 0x03, 0x02, 0x06, 0x04, 0x05, 0x05, 0x06, 0x08, 0x09, 0x10, 0x20,
    0x01, 0x01, 0x01, 0x03, 0x01, 0x01, 0x03, 0x05, 0x01, 0x01, 0x01, 0x03, 0x03, 0x03, 0x05, 0x09,
    0x01, 0x01, 0x01, 0x03, 0x01, 0x01, 0x03, 0x05, 0x03, 0x03, 0x03, 0x03, 0x05, 0x05, 0x09, 0x11,
    0x02, 0x03, 0x03, 0x02, 0x03, 0x03, 0x02, 0x06, 0x03, 0x03, 0x03, 0x03, 0x02, 0x03, 0x06, 0x0a,
    0x04, 0x05, 0x05, 0x06, 0x05, 0x05, 0x06, 0x04, 0x08, 0x09, 0x09, 0x0a, 0x10, 0x11, 0x20, 0x40,
    0x01, 0x01, 0x01, 0x03, 0x01, 0x01, 0x03, 0x05, 0x01, 0x01, 0x01, 0x03, 0x03, 0x03, 0x05, 0x09,
    0x01, 0x01, 0x01, 0x03, 0x01, 0x01, 0x03, 0x05, 0x03, 0x03, 0x03, 0x03, 0x05, 0x05, 0x09, 0x11,
    0x01, 0x01, 0x01, 0x03, 0x01, 0x01, 0x03, 0x05, 0x01, 0x01, 0x01, 0x03, 0x03, 0x03, 0x05, 0x09,
    0x03, 0x03, 0x03, 0x03, 0x03, 0x03, 0x03, 0x07, 0x05, 0x05, 0x05, 0x07, 0x09, 0x09, 0x11, 0x21,
    0x02, 0x03, 0x03, 0x02, 0x03, 0x03, 0x02, 0x06, 0x03, 0x03, 0x03, 0x03, 0x02, 0x03, 0x06, 0x0a,
    0x03, 0x03, 0x03, 0x03, 0x03, 0x03, 0x03, 0x07, 0x02, 0x03, 0x03, 0x02, 0x06, 0x07, 0x0a, 0x12,
    0x04, 0x05, 0x05, 0x06, 0x05, 0x05, 0x06, 0x04, 0x05, 0x05, 0x05, 0x07, 0x06, 0x07, 0x04, 0x0c,
    0x08, 0x09, 0x09, 0x0a, 0x09, 0x09, 0x0a, 0x0c, 0x10, 0x11, 0x11, 0x12, 0x20, 0x21, 0x40, 0x80]"

definition fragtbl :: "nat \<Rightarrow> int list" where
  "fragtbl fs_frag = (if fs_frag = 8 then fragtbl8 else if fs_frag \<in> {1, 2, 4} then fragtbl124 else [])"

text \<open>The inner loop of \<open>fragacct\<close>; \<open>pos\<close> moves on by one more after a match.\<close>

function fragacct_pos :: "nat \<Rightarrow> int \<Rightarrow> nat \<Rightarrow> int \<Rightarrow> nat \<Rightarrow> int \<Rightarrow> int \<Rightarrow> int list \<Rightarrow> int list" where
  "fragacct_pos fs_frag fragmap siz cnt pos field subfield fraglist =
     (if pos \<le> fs_frag then
        if fragmap AND field = subfield then
          fragacct_pos fs_frag fragmap siz cnt (pos + siz + 1) (push_bit (siz + 1) field) (push_bit (siz + 1) subfield)
            (fraglist[siz := fraglist ! siz + cnt])
        else fragacct_pos fs_frag fragmap siz cnt (pos + 1) (push_bit 1 field) (push_bit 1 subfield) fraglist
      else fraglist)"
  by pat_completeness auto
termination
  by (relation "measure (\<lambda>(fs_frag, fragmap, siz, cnt, pos, field, subfield, fl). Suc fs_frag - pos)") auto

declare fragacct_pos.simps [simp del]

fun fragacct_siz :: "nat list \<Rightarrow> nat \<Rightarrow> int \<Rightarrow> int \<Rightarrow> int \<Rightarrow> int list \<Rightarrow> int list" where
  "fragacct_siz [] fs_frag inblk fragmap cnt fraglist = fraglist"
| "fragacct_siz (siz # sizs) fs_frag inblk fragmap cnt fraglist =
     fragacct_siz sizs fs_frag inblk fragmap cnt
       (if \<not> bit inblk (siz + fs_frag mod 8) then fraglist
        else fragacct_pos fs_frag fragmap siz cnt siz (around ! siz) (inside ! siz) fraglist)"

definition fragacct :: "nat \<Rightarrow> int \<Rightarrow> int list \<Rightarrow> int \<Rightarrow> int list" where
  "fragacct fs_frag fragmap fraglist cnt =
     fragacct_siz [1..<fs_frag] fs_frag (push_bit 1 (fragtbl fs_frag ! nat fragmap)) (push_bit 1 fragmap) cnt fraglist"

text \<open>\<open>scanc\<close>: how many bytes are left from the first whose table entry has a mask bit.\<close>

fun scanc :: "bitmap \<Rightarrow> int list \<Rightarrow> int \<Rightarrow> nat" where
  "scanc [] table msk = 0"
| "scanc (c # cp) table msk =
     (if (table ! unat c) AND msk = 0 then scanc cp table msk else Suc (length cp))"

section \<open>Runs of free fragments\<close>

text \<open>A maximal run of \<open>siz\<close> free fragments at position \<open>p\<close> of a block, and how many there are.\<close>

definition is_run :: "nat \<Rightarrow> int \<Rightarrow> nat \<Rightarrow> nat \<Rightarrow> bool" where
  "is_run frag m siz p \<longleftrightarrow> list_all (\<lambda>j. bit m (p + j)) [0..<siz]
     \<and> (p = 0 \<or> \<not> bit m (p - 1)) \<and> (p + siz = frag \<or> \<not> bit m (p + siz))"

definition fruns :: "nat \<Rightarrow> int \<Rightarrow> nat \<Rightarrow> nat" where
  "fruns frag m siz = length (filter (is_run frag m siz) [0..<Suc frag - siz])"

text \<open>The blocks of a byte of the map.\<close>

definition byte_blocks :: "nat \<Rightarrow> int \<Rightarrow> int list" where
  "byte_blocks frag b = map (\<lambda>k. take_bit frag (drop_bit (k * frag) b)) [0..<8 div frag]"

section \<open>Meaning: the set of free fragments\<close>

definition fbits :: "bitmap \<Rightarrow> nat set" where
  "fbits a = {i. i < 8 * length a \<and> bit (a ! (i div 8)) (i mod 8)}"

lemma word8_eq_iff: "(x :: 8 word) = y \<longleftrightarrow> (\<forall>n<8. bit x n \<longleftrightarrow> bit y n)"
  by (auto intro: bit_word_eqI)

lemma and_push_1: "(w :: 8 word) AND push_bit k 1 \<noteq> 0 \<longleftrightarrow> k < 8 \<and> bit w k"
  unfolding word8_eq_iff by (auto simp: bit_simps)

lemma isset_iff: "i < 8 * length a \<Longrightarrow> isset a i \<longleftrightarrow> i \<in> fbits a"
  unfolding isset_def and_push_1 by (simp add: fbits_def)

lemma isclr_iff: "i < 8 * length a \<Longrightarrow> isclr a i \<longleftrightarrow> i \<notin> fbits a"
  using isset_iff [of i a] unfolding isclr_def isset_def by blast

lemma length_setbit [simp]: "length (setbit a i) = length a" and length_clrbit [simp]: "length (clrbit a i) = length a"
  by (simp_all add: setbit_def clrbit_def)

lemma div_mod_eqI: "i div 8 = j div 8 \<Longrightarrow> i mod 8 = j mod 8 \<Longrightarrow> i = (j :: nat)"
  by (metis div_mult_mod_eq)

lemma fbits_setbit: "i < 8 * length a \<Longrightarrow> fbits (setbit a i) = insert i (fbits a)"
  by (auto simp: fbits_def setbit_def nth_list_update bit_simps less_mult_imp_div_less intro: div_mod_eqI split: if_splits)

lemma fbits_clrbit: "i < 8 * length a \<Longrightarrow> fbits (clrbit a i) = fbits a - {i}"
  by (auto simp: fbits_def clrbit_def nth_list_update bit_simps less_mult_imp_div_less intro: div_mod_eqI split: if_splits)

subsection \<open>Blocks\<close>

definition fs_frags :: "nat set" where "fs_frags = {1, 2, 4, 8}"

text \<open>The fragments of block \<open>h\<close>.\<close>

definition blk :: "nat \<Rightarrow> nat \<Rightarrow> nat set" where
  "blk frag h = {h * frag ..< h * frag + frag}"

text \<open>All four cases test, clear or set \<open>frag\<close> bits of one byte.\<close>

definition bmask :: "nat \<Rightarrow> nat \<Rightarrow> 8 word" where
  "bmask frag h = push_bit (h * frag mod 8) (mask frag)"

lemma bit_bmask: "frag \<in> fs_frags \<Longrightarrow> bit (bmask frag h) n \<longleftrightarrow> n < 8 \<and> h * frag mod 8 \<le> n \<and> n < h * frag mod 8 + frag"
  by (auto simp: bmask_def bit_simps)

lemma mod_frag_fits: "frag \<in> fs_frags \<Longrightarrow> h * frag mod 8 + frag \<le> 8"
  unfolding fs_frags_def by (auto simp: mod_mult_mult1 [symmetric]) presburger+

lemma masks: "(0xff :: 8 word) = mask 8" "(0x0f :: 8 word) = mask 4" "(0x03 :: 8 word) = mask 2" "(0x01 :: 8 word) = mask 1"
  by (simp_all add: mask_eq_exp_minus_1)

lemma word8_full: "w AND mask 8 = (w :: 8 word)"
  unfolding word8_eq_iff by (simp add: bit_simps)

lemma block_idx:
  "h * 8 div 8 = h" "h * 8 mod 8 = (0 :: nat)"
  "h * 4 div 8 = h div 2" "h * 4 mod 8 = (h mod 2) * (4 :: nat)"
  "h * 2 div 8 = h div 4" "h * 2 mod 8 = (h mod 4) * (2 :: nat)"
  using div_mult_mult2 [of 4 h 2] mod_mult_mult2 [of h 4 2] div_mult_mult2 [of 2 h 4] mod_mult_mult2 [of h 2 4]
  by simp_all

lemma isblock_mask:
  assumes "frag \<in> fs_frags"
  shows "isblock frag cp h = Inr ((cp ! (h * frag div 8)) AND bmask frag h = bmask frag h)"
proof -
  have "(w = mask 8) = (w AND mask 8 = (mask 8 :: 8 word))" for w by (simp add: word8_full)
  then show ?thesis using assms
    unfolding fs_frags_def isblock_def bmask_def masks Let_def by (auto simp: block_idx)
qed

lemma clrblock_mask:
  assumes "frag \<in> fs_frags" "h * frag div 8 < length cp"
  shows "clrblock frag cp h = Inr (cp[h * frag div 8 := (cp ! (h * frag div 8)) AND NOT (bmask frag h)])"
proof -
  have "w AND NOT (mask 8) = (0 :: 8 word)" for w unfolding word8_eq_iff by (simp add: bit_simps)
  then show ?thesis using assms
    unfolding fs_frags_def clrblock_def bmask_def masks by (auto simp: block_idx)
qed

lemma setblock_mask:
  assumes "frag \<in> fs_frags" "h * frag div 8 < length cp"
  shows "setblock frag cp h = Inr (cp[h * frag div 8 := (cp ! (h * frag div 8)) OR bmask frag h])"
proof -
  have "w OR mask 8 = (mask 8 :: 8 word)" for w unfolding word8_eq_iff by (simp add: bit_simps)
  then show ?thesis using assms
    unfolding fs_frags_def setblock_def bmask_def masks by (auto simp: block_idx)
qed

lemma in_blk_iff:
  assumes "frag \<in> fs_frags"
  shows "i \<in> blk frag h \<longleftrightarrow> i div 8 = h * frag div 8 \<and> bit (bmask frag h) (i mod 8)"
proof
  assume "i \<in> blk frag h"
  then obtain j where j: "i = h * frag + j" "j < frag" by (auto simp: blk_def nat_le_iff_add)
  have "h * frag = 8 * (h * frag div 8) + h * frag mod 8" by simp
  then have i: "i = 8 * (h * frag div 8) + (h * frag mod 8 + j)" using j by linarith
  have "h * frag mod 8 + j < 8" using mod_frag_fits [OF assms, of h] j by linarith
  with i have "i div 8 = h * frag div 8" "i mod 8 = h * frag mod 8 + j"
    by (metis div_mult_self4 div_less add_0_right zero_neq_numeral, metis mod_mult_self4 mod_less)
  then show "i div 8 = h * frag div 8 \<and> bit (bmask frag h) (i mod 8)"
    using j \<open>h * frag mod 8 + j < 8\<close> by (simp add: bit_bmask [OF assms])
next
  assume a: "i div 8 = h * frag div 8 \<and> bit (bmask frag h) (i mod 8)"
  then have b: "h * frag mod 8 \<le> i mod 8" "i mod 8 < h * frag mod 8 + frag" by (auto simp: bit_bmask [OF assms])
  have "i = 8 * (h * frag div 8) + i mod 8" using a by (metis mult_div_mod_eq)
  moreover have "h * frag = 8 * (h * frag div 8) + h * frag mod 8" by simp
  ultimately have "h * frag \<le> i" "i < h * frag + frag" using b by linarith+
  then show "i \<in> blk frag h" by (simp add: blk_def)
qed

lemma blk_in_map: "frag \<in> fs_frags \<Longrightarrow> h * frag < 8 * length cp \<Longrightarrow> blk frag h \<subseteq> {..<8 * length cp} \<and> h * frag div 8 < length cp"
  using in_blk_iff [of frag _ h] by (auto simp: less_mult_imp_div_less mult.commute)
    (metis div_less_iff_less_mult less_mult_imp_div_less mult.commute zero_less_numeral)

lemma isblock_fbits:
  assumes "frag \<in> fs_frags" "h * frag < 8 * length cp"
  shows "isblock frag cp h = Inr (blk frag h \<subseteq> fbits cp)"
proof -
  note in_map = blk_in_map [OF assms]
  have "(w AND bmask frag h = bmask frag h) \<longleftrightarrow> (\<forall>n. bit (bmask frag h) n \<longrightarrow> bit w n)" for w
    unfolding word8_eq_iff using bit_bmask [OF assms(1), of h] by (auto simp: bit_and_iff)
  moreover have "(\<forall>n. bit (bmask frag h) n \<longrightarrow> bit (cp ! (h * frag div 8)) n) \<longleftrightarrow> blk frag h \<subseteq> fbits cp"
  proof
    assume a: "\<forall>n. bit (bmask frag h) n \<longrightarrow> bit (cp ! (h * frag div 8)) n"
    then show "blk frag h \<subseteq> fbits cp" using in_map in_blk_iff [OF assms(1)] by (fastforce simp: fbits_def)
  next
    assume a: "blk frag h \<subseteq> fbits cp"
    show "\<forall>n. bit (bmask frag h) n \<longrightarrow> bit (cp ! (h * frag div 8)) n"
    proof (intro allI impI)
      fix n assume n: "bit (bmask frag h) n"
      then have "n < 8" by (auto simp: bit_bmask [OF assms(1)])
      then have i: "(8 * (h * frag div 8) + n) div 8 = h * frag div 8" "(8 * (h * frag div 8) + n) mod 8 = n" by auto
      then have "8 * (h * frag div 8) + n \<in> blk frag h" using n by (simp add: in_blk_iff [OF assms(1)])
      then show "bit (cp ! (h * frag div 8)) n" using a i by (auto simp: fbits_def)
    qed
  qed
  ultimately show ?thesis by (simp add: isblock_mask [OF assms(1)])
qed

lemma clrblock_fbits:
  assumes "frag \<in> fs_frags" "h * frag < 8 * length cp"
  shows "\<exists>cp'. clrblock frag cp h = Inr cp' \<and> length cp' = length cp \<and> fbits cp' = fbits cp - blk frag h"
  using blk_in_map [OF assms] clrblock_mask [OF assms(1), of h cp] in_blk_iff [OF assms(1), of _ h]
  by (auto simp: fbits_def nth_list_update bit_simps)

lemma setblock_fbits:
  assumes "frag \<in> fs_frags" "h * frag < 8 * length cp"
  shows "\<exists>cp'. setblock frag cp h = Inr cp' \<and> length cp' = length cp \<and> fbits cp' = fbits cp \<union> blk frag h"
  using blk_in_map [OF assms] setblock_mask [OF assms(1), of h cp] in_blk_iff [OF assms(1), of _ h]
  by (auto simp: fbits_def nth_list_update bit_simps)

end
