(* ===== verification/Fragspace.thy ===== *)
theory Fragspace
  imports Fsbits
begin

unbundle bit_operations_syntax

text \<open>
  The abstract free space of a cylinder group: a set of free fragment numbers, divided into
  blocks. The summary counts that the file system keeps beside the bit map (free blocks,
  free fragments outside free blocks, maximal runs per size) are functions of the set; the
  lemmas say how they change when the head of a run is taken or a run of fragments is
  returned.
\<close>

section \<open>Counts\<close>

definition frun :: "nat set \<Rightarrow> nat \<Rightarrow> nat \<Rightarrow> nat \<Rightarrow> nat \<Rightarrow> bool" where
  "frun F frag h s q \<longleftrightarrow> 0 < s \<and> h * frag \<le> q \<and> q + s \<le> h * frag + frag \<and> {q..<q + s} \<subseteq> F
     \<and> (q = h * frag \<or> q - 1 \<notin> F) \<and> (q + s = h * frag + frag \<or> q + s \<notin> F)"

definition nruns :: "nat set \<Rightarrow> nat \<Rightarrow> nat \<Rightarrow> nat \<Rightarrow> int" where
  "nruns F frag h s = int (card {q. frun F frag h s q})"

text \<open>What a block contributes to the count of free blocks and of free fragments.\<close>

definition bfree :: "nat set \<Rightarrow> nat \<Rightarrow> nat \<Rightarrow> int" where
  "bfree F frag h = (if blk frag h \<subseteq> F then 1 else 0)"

definition ffree :: "nat set \<Rightarrow> nat \<Rightarrow> nat \<Rightarrow> int" where
  "ffree F frag h = (if blk frag h \<subseteq> F then 0 else int (card (F \<inter> blk frag h)))"

definition total :: "nat \<Rightarrow> (nat \<Rightarrow> int) \<Rightarrow> int" where
  "total nb g = (\<Sum>h<nb. g h)"

lemma bfree_nonneg [simp]: "0 \<le> bfree F frag h" and ffree_nonneg [simp]: "0 \<le> ffree F frag h"
  by (simp_all add: bfree_def ffree_def)

lemma total_change:
  assumes "h < nb" "\<And>k. k < nb \<Longrightarrow> k \<noteq> h \<Longrightarrow> g' k = g k"
  shows "total nb g' = total nb g - g h + g' h"
proof -
  have "(\<Sum>k\<in>{..<nb} - {h}. g' k) = (\<Sum>k\<in>{..<nb} - {h}. g k)" using assms(2) by (intro sum.cong) auto
  then show ?thesis using assms(1) by (simp add: total_def sum.remove [of "{..<nb}" h])
qed

lemma total_same: "(\<And>k. k < nb \<Longrightarrow> g' k = g k) \<Longrightarrow> total nb g' = total nb g"
  by (simp add: total_def)

lemma total_pos: "(\<And>k. k < nb \<Longrightarrow> 0 \<le> g k) \<Longrightarrow> total nb g \<noteq> 0 \<Longrightarrow> \<exists>k<nb. 0 < g k"
  using sum_nonpos [of "{..<nb}" g] sum_nonneg [of "{..<nb}" g] unfolding total_def
  by (metis antisym lessThan_iff not_less)

lemma total_ge: "(\<And>k. k < nb \<Longrightarrow> 0 \<le> g k) \<Longrightarrow> k < nb \<Longrightarrow> g k \<le> total nb g"
  unfolding total_def by (rule member_le_sum) auto

section \<open>Blocks and runs\<close>

lemma blk_disjoint: "0 < frag \<Longrightarrow> h \<noteq> k \<Longrightarrow> blk frag h \<inter> blk frag k = {}"
proof (induction h k rule: linorder_wlog)
  case (le a b)
  then have "Suc a * frag \<le> b * frag" by (intro mult_le_mono) auto
  then show ?case by (auto simp: blk_def)
qed blast

lemma card_blk [simp]: "card (blk frag h) = frag" and finite_blk [simp]: "finite (blk frag h)"
  by (simp_all add: blk_def)

lemma frunI:
  "0 < s \<Longrightarrow> h * frag \<le> q \<Longrightarrow> q + s \<le> h * frag + frag \<Longrightarrow> (\<And>x. q \<le> x \<Longrightarrow> x < q + s \<Longrightarrow> x \<in> F)
   \<Longrightarrow> (q \<noteq> h * frag \<Longrightarrow> q - 1 \<notin> F) \<Longrightarrow> (q + s \<noteq> h * frag + frag \<Longrightarrow> q + s \<notin> F) \<Longrightarrow> frun F frag h s q"
  by (auto simp: frun_def)

lemma frunD:
  assumes "frun F frag h s q"
  shows "0 < s" "h * frag \<le> q" "q + s \<le> h * frag + frag" "\<And>x. q \<le> x \<Longrightarrow> x < q + s \<Longrightarrow> x \<in> F"
    "q \<noteq> h * frag \<Longrightarrow> q - 1 \<notin> F" "q + s \<noteq> h * frag + frag \<Longrightarrow> q + s \<notin> F"
  using assms by (auto simp: frun_def subset_iff)

lemma finite_runs [simp]: "finite {q. frun F frag h s q}"
  by (rule finite_subset [of _ "{..<h * frag + frag}"]) (auto simp: frun_def)

lemma nruns_nonneg [simp]: "0 \<le> nruns F frag h s" by (simp add: nruns_def)

lemma nruns_pos: "0 < nruns F frag h s \<longleftrightarrow> (\<exists>q. frun F frag h s q)"
  by (auto simp: nruns_def card_gt_0_iff)

text \<open>Everything about a block only depends on the free fragments inside it.\<close>

lemma frun_local: "F \<inter> blk frag h = F' \<inter> blk frag h \<Longrightarrow> frun F frag h s q \<longleftrightarrow> frun F' frag h s q"
proof -
  assume eq: "F \<inter> blk frag h = F' \<inter> blk frag h"
  have m: "x \<in> F \<longleftrightarrow> x \<in> F'" if "h * frag \<le> x" "x < h * frag + frag" for x
  proof -
    have "x \<in> blk frag h" using that by (simp add: blk_def)
    then show ?thesis using eq by blast
  qed
  have imp: "frun F2 frag h s q" if r: "frun F1 frag h s q"
    and m: "\<And>x. h * frag \<le> x \<Longrightarrow> x < h * frag + frag \<Longrightarrow> x \<in> F1 \<longleftrightarrow> x \<in> F2" for F1 F2
  proof (rule frunI)
    note d = frunD [OF r]
    show "0 < s" "h * frag \<le> q" "q + s \<le> h * frag + frag" using d by auto
    show "x \<in> F2" if "q \<le> x" "x < q + s" for x using d m [of x] that by auto
    show "q - 1 \<notin> F2" if "q \<noteq> h * frag" using d(1,2,3) d(5) [OF that] m [of "q - 1"] that by auto
    show "q + s \<notin> F2" if "q + s \<noteq> h * frag + frag" using d(1,2,3) d(6) [OF that] m [of "q + s"] that by auto
  qed
  show ?thesis using imp [of F F'] imp [of F' F] m by blast
qed

lemma counts_local:
  assumes "F \<inter> blk frag h = F' \<inter> blk frag h"
  shows "nruns F frag h s = nruns F' frag h s" "bfree F frag h = bfree F' frag h" "ffree F frag h = ffree F' frag h"
proof -
  have "blk frag h \<subseteq> F \<longleftrightarrow> blk frag h \<subseteq> F'" using assms by blast
  then show "bfree F frag h = bfree F' frag h" "ffree F frag h = ffree F' frag h"
    using assms by (simp_all add: bfree_def ffree_def)
  show "nruns F frag h s = nruns F' frag h s" using frun_local [OF assms] by (simp add: nruns_def)
qed

lemma frun_unique:
  assumes "frun F frag h s q" "frun F frag h a p" "q \<le> x" "x < q + s" "p \<le> x" "x < p + a"
  shows "q = p \<and> s = a"
proof -
  have left: "\<not> q' < p'" if "frun F frag h s' q'" "frun F frag h a' p'" "p' \<le> x" "x < q' + s'" for q' p' s' a'
  proof
    assume l: "q' < p'"
    then have "p' - 1 \<in> F" using frunD(4) [OF that(1), of "p' - 1"] that by auto
    moreover have "p' \<noteq> h * frag" using frunD(2) [OF that(1)] l by auto
    ultimately show False using frunD(5) [OF that(2)] by auto
  qed
  have right: "\<not> p' + a' < q' + s'" if "frun F frag h s' q'" "frun F frag h a' p'" "q' \<le> x" "x < p' + a'" for q' p' s' a'
  proof
    assume l: "p' + a' < q' + s'"
    then have "p' + a' \<in> F" using frunD(4) [OF that(1), of "p' + a'"] that by auto
    moreover have "p' + a' \<noteq> h * frag + frag" using frunD(3) [OF that(1)] l by auto
    ultimately show False using frunD(6) [OF that(2)] by auto
  qed
  have "q = p" using left [OF assms(1,2,5,4)] left [OF assms(2,1,3,6)] by simp
  moreover have "q + s = p + a" using right [OF assms(1,2,3,6)] right [OF assms(2,1,5,4)] by simp
  ultimately show ?thesis by simp
qed

section \<open>Taking the head of a run\<close>

lemma frun_remove:
  assumes run: "frun F frag h a p" and f: "0 < f" "f \<le> a"
  shows "frun (F - {p..<p + f}) frag h s q \<longleftrightarrow>
    frun F frag h s q \<and> \<not> (s = a \<and> q = p) \<or> f < a \<and> s = a - f \<and> q = p + f"
    (is "frun ?F frag h s q \<longleftrightarrow> _")
proof
  assume r: "frun ?F frag h s q"
  note d = frunD [OF r] and e = frunD [OF run]
  have q: "q \<in> ?F" "q + s - 1 \<in> ?F" using d(4) [of q] d(4) [of "q + s - 1"] d(1) by auto
  show "frun F frag h s q \<and> \<not> (s = a \<and> q = p) \<or> f < a \<and> s = a - f \<and> q = p + f"
  proof (cases "q = p + f")
    case True
    have "f < a"
    proof (rule ccontr)
      assume "\<not> f < a"
      then have "p + a \<in> F" "p + a \<noteq> h * frag + frag" using f q(1) True d(1,3) by auto
      with e(6) show False by auto
    qed
    moreover have "\<not> q + s < p + a"
    proof
      assume l: "q + s < p + a"
      then have "q + s \<in> ?F" using e(4) [of "q + s"] True by auto
      moreover have "q + s \<noteq> h * frag + frag" using l e(3) by auto
      ultimately show False using d(6) by auto
    qed
    moreover have "\<not> p + a < q + s"
    proof
      assume l: "p + a < q + s"
      then have "p + a \<in> F" using d(4) [of "p + a"] True \<open>f < a\<close> by auto
      moreover have "p + a \<noteq> h * frag + frag" using l d(3) by auto
      ultimately show False using e(6) by auto
    qed
    ultimately show ?thesis using True by auto
  next
    case False
    have "frun F frag h s q"
    proof (rule frunI)
      show "q - 1 \<notin> F" if "q \<noteq> h * frag"
      proof
        assume "q - 1 \<in> F"
        with d(5) [OF that] have "q - 1 \<in> {p..<p + f}" by auto
        moreover have "q \<noteq> 0" using that d(2) by auto
        ultimately show False using q(1) False by auto
      qed
      show "q + s \<notin> F" if "q + s \<noteq> h * frag + frag"
      proof
        assume "q + s \<in> F"
        with d(6) [OF that] have "q + s \<in> {p..<p + f}" by auto
        with q(2) d(1) have eq: "q + s = p" by auto
        then have "p - 1 \<in> F" using q(2) by auto
        with e(5) have "p = h * frag" by auto
        with eq d(1,2) show False by auto
      qed
    qed (use d(1,2,3,4) in auto)
    moreover have "\<not> (s = a \<and> q = p)" using q(1) f by auto
    ultimately show ?thesis by blast
  qed
next
  assume "frun F frag h s q \<and> \<not> (s = a \<and> q = p) \<or> f < a \<and> s = a - f \<and> q = p + f"
  then show "frun ?F frag h s q"
  proof
    assume r: "frun F frag h s q \<and> \<not> (s = a \<and> q = p)"
    note d = frunD [OF conjunct1 [OF r]]
    have "x \<notin> {p..<p + f}" if "q \<le> x" "x < q + s" for x
      using frun_unique [of F frag h s q a p x] r run f that by auto
    with d show ?thesis by (intro frunI) auto
  next
    assume "f < a \<and> s = a - f \<and> q = p + f"
    with frunD [OF run] f show ?thesis by (intro frunI) auto
  qed
qed

lemma nruns_remove:
  assumes run: "frun F frag h a p" and f: "0 < f" "f \<le> a"
  shows "nruns (F - {p..<p + f}) frag h s =
    nruns F frag h s - (if s = a then 1 else 0) + (if f < a \<and> s = a - f then 1 else 0)"
proof -
  let ?R = "{q. frun F frag h s q}"
  have no: "p + f \<notin> ?R" if "s = a - f" "f < a"
  proof
    assume "p + f \<in> ?R"
    with frun_unique [of F frag h s "p + f" a p "p + f"] run f that show False by auto
  qed
  have "{q. frun (F - {p..<p + f}) frag h s q} = (if s = a then ?R - {p} else ?R) \<union> (if f < a \<and> s = a - f then {p + f} else {})"
    using frun_remove [OF assms, of s] by auto
  moreover have "card (?R - {p}) = card ?R - 1 \<and> 0 < card ?R" if "s = a" using run that by (auto simp: card_gt_0_iff)
  moreover have "\<not> (s = a \<and> f < a \<and> s = a - f)" using f by auto
  ultimately show ?thesis using no f by (auto simp: nruns_def of_nat_diff)
qed

lemma take_head_counts:
  assumes run: "frun F frag h a p" and f: "0 < f" "f \<le> a" and frag: "0 < frag"
  defines "F' \<equiv> F - {p..<p + f}"
  shows "k \<noteq> h \<Longrightarrow> F' \<inter> blk frag k = F \<inter> blk frag k"
    "bfree F' frag h = bfree F frag h - (if a = frag then 1 else 0)"
    "ffree F' frag h = ffree F frag h + (if a = frag then int (frag - f) else - int f)"
proof -
  note d = frunD [OF run]
  have sub: "{p..<p + f} \<subseteq> F \<inter> blk frag h" using d(2,3) d(4) f by (auto simp: blk_def)
  show "k \<noteq> h \<Longrightarrow> F' \<inter> blk frag k = F \<inter> blk frag k"
    using blk_disjoint [OF frag, of k h] sub by (auto simp: F'_def)
  have "p \<in> {p..<p + f}" using f by simp
  then have "p \<in> blk frag h" "p \<notin> F'" using sub unfolding F'_def by blast+
  then have not: "\<not> blk frag h \<subseteq> F'" by blast
  have full: "a = frag \<longleftrightarrow> blk frag h \<subseteq> F"
  proof
    assume a: "a = frag"
    then have "p = h * frag" using d(2,3) by auto
    then show "blk frag h \<subseteq> F" using a d(4) by (auto simp: blk_def)
  next
    assume b: "blk frag h \<subseteq> F"
    have "p = h * frag"
    proof (rule ccontr)
      assume n: "p \<noteq> h * frag"
      then have "p - 1 \<in> blk frag h" using d(1,2,3) by (auto simp: blk_def)
      with b d(5) [OF n] show False by auto
    qed
    moreover have "p + a = h * frag + frag"
    proof (rule ccontr)
      assume n: "p + a \<noteq> h * frag + frag"
      then have "p + a \<in> blk frag h" using d(1,2,3) by (auto simp: blk_def)
      with b d(6) [OF n] show False by auto
    qed
    ultimately show "a = frag" by simp
  qed
  show "bfree F' frag h = bfree F frag h - (if a = frag then 1 else 0)" using not full by (simp add: bfree_def)
  have "F' \<inter> blk frag h = (F \<inter> blk frag h) - {p..<p + f}" by (auto simp: F'_def)
  then have c: "card (F' \<inter> blk frag h) = card (F \<inter> blk frag h) - f" "f \<le> card (F \<inter> blk frag h)"
    using sub card_Diff_subset [of "{p..<p + f}" "F \<inter> blk frag h"] card_mono [OF _ sub] by auto
  have "F \<inter> blk frag h = blk frag h" if "a = frag" using that full by auto
  then show "ffree F' frag h = ffree F frag h + (if a = frag then int (frag - f) else - int f)"
    using c not full f by (auto simp: ffree_def of_nat_diff)
qed

section \<open>The map represents the set\<close>

lemma bit_blkmap:
  assumes frag: "frag \<in> fs_frags" and h: "h * frag < 8 * length cp"
  shows "bit (blkmap frag cp (h * frag)) j \<longleftrightarrow> j < frag \<and> h * frag + j \<in> fbits cp"
proof -
  have le: "frag \<le> 8" using frag by (auto simp: fs_frags_def)
  have m: "bit (drop_bit (8 - frag) (0xff :: 8 word)) j \<longleftrightarrow> j < frag" for j
    unfolding masks using le by (auto simp: bit_simps)
  show ?thesis
  proof (cases "j < frag")
    case True
    have "h * frag + j \<in> blk frag h" using True by (simp add: blk_def)
    then have i: "(h * frag + j) div 8 = h * frag div 8" using in_blk_iff [OF frag] by blast
    have "h * frag + j = 8 * (h * frag div 8) + (h * frag mod 8 + j)" by simp
    moreover have "h * frag mod 8 + j < 8" using mod_frag_fits [OF frag, of h] True by linarith
    ultimately have "(h * frag + j) mod 8 = h * frag mod 8 + j" using i by (metis mod_mult_self4 mod_less)
    moreover have "h * frag + j < 8 * length cp"
      using blk_in_map [OF frag h] \<open>h * frag + j \<in> blk frag h\<close> by auto
    ultimately show ?thesis using True i m by (simp add: blkmap_def fbits_def bit_simps)
  next
    case False
    then show ?thesis unfolding blkmap_def bit_uint_iff bit_and_iff m by simp
  qed
qed

lemma blkmap_bits: "frag \<in> fs_frags \<Longrightarrow> bit (blkmap frag cp loc) j \<Longrightarrow> j < frag"
proof -
  assume frag: "frag \<in> fs_frags" and b: "bit (blkmap frag cp loc) j"
  then have le: "frag \<le> 8" by (auto simp: fs_frags_def)
  have "bit (drop_bit (8 - frag) (0xff :: 8 word)) j" using b unfolding blkmap_def bit_uint_iff bit_and_iff by simp
  then show "j < frag" unfolding masks using le by (auto simp: bit_simps)
qed

lemma blkmap_range: "frag \<in> fs_frags \<Longrightarrow> 0 \<le> blkmap frag cp loc \<and> blkmap frag cp loc < 2 ^ frag"
proof -
  assume frag: "frag \<in> fs_frags"
  have "take_bit frag (blkmap frag cp loc) = blkmap frag cp loc"
    using blkmap_bits [OF frag, of cp loc] by (auto simp: bit_eq_iff bit_take_bit_iff)
  then show ?thesis by (metis take_bit_int_less_exp take_bit_nonnegative)
qed

lemma is_run_frun:
  assumes frag: "frag \<in> fs_frags" and h: "h * frag < 8 * length cp" and p: "p + siz \<le> frag" "0 < siz"
  shows "is_run frag (blkmap frag cp (h * frag)) siz p \<longleftrightarrow> frun (fbits cp) frag h siz (h * frag + p)"
proof -
  note b = bit_blkmap [OF frag h]
  have "(\<forall>j < siz. h * frag + (p + j) \<in> fbits cp) \<longleftrightarrow> {h * frag + p..<h * frag + p + siz} \<subseteq> fbits cp"
    by (auto simp: subset_iff add.assoc) (metis add.assoc le_add_diff_inverse nat_add_left_cancel_less)
  moreover have "list_all (\<lambda>j. bit (blkmap frag cp (h * frag)) (p + j)) [0..<siz] \<longleftrightarrow> (\<forall>j < siz. h * frag + (p + j) \<in> fbits cp)"
    using p by (auto simp: list_all_iff b)
  moreover have "p = 0 \<or> \<not> bit (blkmap frag cp (h * frag)) (p - 1) \<longleftrightarrow> h * frag + p = h * frag \<or> h * frag + p - 1 \<notin> fbits cp"
    using p by (cases p) (auto simp: b)
  moreover have "p + siz = frag \<or> \<not> bit (blkmap frag cp (h * frag)) (p + siz)
      \<longleftrightarrow> h * frag + p + siz = h * frag + frag \<or> h * frag + p + siz \<notin> fbits cp"
    using p by (auto simp: b add.assoc)
  ultimately show ?thesis using p by (simp add: is_run_def frun_def)
qed

lemma fruns_nruns:
  assumes frag: "frag \<in> fs_frags" and h: "h * frag < 8 * length cp" and s: "0 < s" "s \<le> frag"
  shows "int (fruns frag (blkmap frag cp (h * frag)) s) = nruns (fbits cp) frag h s"
proof -
  let ?P = "\<lambda>p. p + s \<le> frag \<and> is_run frag (blkmap frag cp (h * frag)) s p"
  have "{q. frun (fbits cp) frag h s q} = (\<lambda>p. h * frag + p) ` {p. ?P p}"
  proof (intro set_eqI iffI)
    fix q assume "q \<in> {q. frun (fbits cp) frag h s q}"
    then have q: "frun (fbits cp) frag h s q" by simp
    define p where "p = q - h * frag"
    have "q = h * frag + p" "p + s \<le> frag" using frunD(2,3) [OF q] by (auto simp: p_def)
    with q is_run_frun [OF frag h, of p s] s show "q \<in> (\<lambda>p. h * frag + p) ` {p. ?P p}" by auto
  qed (use is_run_frun [OF frag h] s in auto)
  then have "nruns (fbits cp) frag h s = int (card {p. ?P p})"
    by (simp add: nruns_def card_image inj_on_def)
  moreover have "fruns frag (blkmap frag cp (h * frag)) s = card {p. ?P p}"
  proof -
    have "set (filter (is_run frag (blkmap frag cp (h * frag)) s) [0..<Suc frag - s]) = {p. ?P p}" by auto
    moreover have "distinct (filter (is_run frag (blkmap frag cp (h * frag)) s) [0..<Suc frag - s])" by simp
    ultimately show ?thesis unfolding fruns_def by (metis distinct_card)
  qed
  ultimately show ?thesis by simp
qed

text \<open>The pattern test of the searches: one bit on either side of the run must be clear.\<close>

lemma around_inside:
  "siz \<le> 8 \<Longrightarrow> around ! siz = mask (siz + 2) \<and> inside ! siz = push_bit 1 (mask siz)"
proof -
  assume "siz \<le> 8"
  then have "siz \<in> {0, 1, 2, 3, 4, 5, 6, 7, 8}" by auto
  then show ?thesis by (auto simp: around_def inside_def mask_eq_exp_minus_1)
qed

lemma pattern_is_run:
  assumes siz: "0 < siz" "siz \<le> 8" and p: "p + siz \<le> frag" and m: "\<And>j. bit m j \<Longrightarrow> j < frag"
  shows "push_bit 1 m AND push_bit p (around ! siz) = push_bit p (inside ! siz) \<longleftrightarrow> is_run frag m siz p"
proof -
  have "push_bit 1 m AND push_bit p (around ! siz) = push_bit p (inside ! siz) \<longleftrightarrow>
    (\<forall>n. p \<le> n \<and> n < p + siz + 2 \<and> 1 \<le> n \<and> bit m (n - 1) \<longleftrightarrow> p + 1 \<le> n \<and> n < p + siz + 1)"
    unfolding around_inside [OF siz(2), THEN conjunct1] around_inside [OF siz(2), THEN conjunct2]
      bit_eq_iff bit_and_iff bit_push_bit_iff_int bit_mask_iff by (intro arg_cong [of _ _ All] ext) auto
  also have "\<dots> \<longleftrightarrow> is_run frag m siz p"
  proof
    assume a: "\<forall>n. p \<le> n \<and> n < p + siz + 2 \<and> 1 \<le> n \<and> bit m (n - 1) \<longleftrightarrow> p + 1 \<le> n \<and> n < p + siz + 1"
    have "bit m (p + j)" if "j < siz" for j using spec [OF a, of "p + j + 1"] that by auto
    moreover have "p = 0 \<or> \<not> bit m (p - 1)" using spec [OF a, of p] by auto
    moreover have "\<not> bit m (p + siz)" using spec [OF a, of "p + siz + 1"] by auto
    ultimately show "is_run frag m siz p" by (auto simp: is_run_def list_all_iff)
  next
    assume r: "is_run frag m siz p"
    have r': "bit m (p + j)" if "j < siz" for j using r that by (auto simp: is_run_def list_all_iff)
    have e: "\<not> bit m (p + siz)" using r m [of "p + siz"] p by (auto simp: is_run_def)
    show "\<forall>n. p \<le> n \<and> n < p + siz + 2 \<and> 1 \<le> n \<and> bit m (n - 1) \<longleftrightarrow> p + 1 \<le> n \<and> n < p + siz + 1"
    proof
      fix n
      consider "n < p \<or> p + siz + 2 \<le> n" | "n = p" | "p + 1 \<le> n" "n < p + siz + 1" | "n = p + siz + 1" by linarith
      then show "p \<le> n \<and> n < p + siz + 2 \<and> 1 \<le> n \<and> bit m (n - 1) \<longleftrightarrow> p + 1 \<le> n \<and> n < p + siz + 1"
      proof cases
        case 2
        then show ?thesis using r by (auto simp: is_run_def)
      next
        case 3
        then show ?thesis using r' [of "n - 1 - p"] by auto
      qed (use e in auto)
    qed
  qed
  finally show ?thesis .
qed

end
