(* ===== verification/Fragtbl.thy ===== *)
theory Fragtbl
  imports Fsbits
begin

unbundle bit_operations_syntax

text \<open>
  The fragment tables are right: every entry of \<^verbatim>\<open>fragtbl\<close> is compared with the definition of
  a maximal run of free fragments, for all four block sizes and all 256 bytes, and \<open>fragacct\<close>
  is shown to count those runs.
\<close>

section \<open>Evaluation\<close>

definition fragtbl_ok :: "nat \<Rightarrow> bool" where
  "fragtbl_ok frag \<longleftrightarrow> list_all (\<lambda>(b, e). list_all (\<lambda>siz.
     (e AND push_bit (siz - 1 + frag mod 8) 1 \<noteq> 0)
       = list_ex (\<lambda>m. fruns frag m siz \<noteq> 0) (byte_blocks frag b)) [1..<Suc frag]) (zip [0..255] (fragtbl frag))"

definition fragacct_ok :: "nat \<Rightarrow> bool" where
  "fragacct_ok frag \<longleftrightarrow> list_all (\<lambda>m. fragacct frag m (replicate 8 0) 1
     = map (\<lambda>s. if s < frag \<and> 0 < s then int (fruns frag m s) else 0) [0..<8]) [0..2 ^ frag - 1]"

lemma fragtbl_ok_8: "fragtbl_ok 8" by code_simp
lemma fragtbl_ok_4: "fragtbl_ok 4" by code_simp
lemma fragtbl_ok_2: "fragtbl_ok 2" by code_simp
lemma fragtbl_ok_1: "fragtbl_ok 1" by code_simp
lemma fragacct_ok_8: "fragacct_ok 8" by code_simp
lemma fragacct_ok_4: "fragacct_ok 4" by code_simp
lemma fragacct_ok_2: "fragacct_ok 2" by code_simp
lemma fragacct_ok_1: "fragacct_ok 1" by code_simp


lemmas fragtbl_oks = fragtbl_ok_1 fragtbl_ok_2 fragtbl_ok_4 fragtbl_ok_8
lemmas fragacct_oks = fragacct_ok_1 fragacct_ok_2 fragacct_ok_4 fragacct_ok_8

section \<open>The tables\<close>

lemma fragtbl_length: "frag \<in> fs_frags \<Longrightarrow> length (fragtbl frag) = 256"
  by (auto simp: fs_frags_def fragtbl_def fragtbl8_def fragtbl124_def)

lemma fruns_pos: "fruns frag m siz \<noteq> 0 \<longleftrightarrow> (\<exists>p. p + siz \<le> frag \<and> is_run frag m siz p)"
proof -
  have "x < Suc frag - siz \<longleftrightarrow> x + siz \<le> frag" for x by linarith
  then show ?thesis by (auto simp: fruns_def filter_empty_conv)
qed

lemma fragtbl_correct:
  assumes frag: "frag \<in> fs_frags" and siz: "1 \<le> siz" "siz \<le> frag" and c: "i < 256"
  shows "(fragtbl frag ! i) AND push_bit (siz - 1 + frag mod 8) 1 \<noteq> 0
    \<longleftrightarrow> (\<exists>m\<in>set (byte_blocks frag (int i)). \<exists>p. p + siz \<le> frag \<and> is_run frag m siz p)"
proof -
  have ok: "fragtbl_ok frag" using frag fragtbl_oks by (auto simp: fs_frags_def)
  have "(int i, fragtbl frag ! i) \<in> set (zip [0..255] (fragtbl frag))"
    unfolding set_zip using c fragtbl_length [OF frag] by (auto intro!: exI [of _ i])
  moreover have "siz \<in> set [1..<Suc frag]" using siz by auto
  ultimately have "((fragtbl frag ! i) AND push_bit (siz - 1 + frag mod 8) 1 \<noteq> 0)
      = list_ex (\<lambda>m. fruns frag m siz \<noteq> 0) (byte_blocks frag (int i))"
    using ok unfolding fragtbl_ok_def list_all_iff by blast
  then show ?thesis unfolding list_ex_iff fruns_pos .
qed

section \<open>Accounting for fragments\<close>

definition addcnt :: "int \<Rightarrow> int list \<Rightarrow> int list \<Rightarrow> int list" where
  "addcnt cnt fl z = map2 (\<lambda>x c. x + cnt * c) fl z"

lemma length_addcnt [simp]: "length (addcnt cnt fl z) = min (length fl) (length z)"
  by (simp add: addcnt_def)

lemma addcnt_upd:
  "length z = length fl \<Longrightarrow> siz < length fl \<Longrightarrow>
    (addcnt cnt fl z)[siz := addcnt cnt fl z ! siz + cnt] = addcnt cnt fl (z[siz := z ! siz + 1])"
  by (rule nth_equalityI) (auto simp: addcnt_def nth_list_update algebra_simps)

lemma fragacct_pos_linear:
  "length z = length fl \<Longrightarrow> siz < length fl \<Longrightarrow>
    fragacct_pos frag m siz cnt pos a b (addcnt cnt fl z) = addcnt cnt fl (fragacct_pos frag m siz 1 pos a b z)
    \<and> length (fragacct_pos frag m siz 1 pos a b z) = length z"
proof (induction frag m siz "1 :: int" pos a b z rule: fragacct_pos.induct)
  case (1 frag m siz pos a b z)
  show ?case
  proof (cases "pos \<le> frag")
    case True
    show ?thesis
    proof (cases "m AND a = b")
      case eq: True
      from "1.hyps"(1) [OF True eq] "1.prems" True eq show ?thesis
        by (simp add: fragacct_pos.simps [of _ _ _ _ pos] addcnt_upd)
    next
      case False
      from "1.hyps"(2) [OF True False] "1.prems" True False show ?thesis
        by (simp add: fragacct_pos.simps [of _ _ _ _ pos])
    qed
  qed (simp add: fragacct_pos.simps [of _ _ _ _ pos])
qed

lemma fragacct_siz_linear:
  "length z = length fl \<Longrightarrow> \<forall>siz\<in>set sizs. siz < length fl \<Longrightarrow>
    fragacct_siz sizs frag inblk m cnt (addcnt cnt fl z) = addcnt cnt fl (fragacct_siz sizs frag inblk m 1 z)"
proof (induction sizs arbitrary: z)
  case (Cons siz sizs)
  then show ?case using fragacct_pos_linear [of z fl siz frag m cnt siz "around ! siz" "inside ! siz"] by simp
qed simp

lemma fragacct_correct:
  assumes frag: "frag \<in> fs_frags" and m: "0 \<le> m" "m < 2 ^ frag" and fl: "length fl = 8"
  shows "fragacct frag m fl cnt = map (\<lambda>s. fl ! s + (if 0 < s \<and> s < frag then cnt * int (fruns frag m s) else 0)) [0..<8]"
proof -
  have ok: "fragacct_ok frag" using frag fragacct_oks by (auto simp: fs_frags_def)
  have z: "fragacct frag m (replicate 8 0) 1 = map (\<lambda>s. if s < frag \<and> 0 < s then int (fruns frag m s) else 0) [0..<8]"
    using ok m unfolding fragacct_ok_def list_all_iff by auto
  have fl0: "fl = addcnt cnt fl (replicate 8 0)" by (rule nth_equalityI) (simp_all add: addcnt_def fl)
  have lt: "\<forall>siz\<in>set [1..<frag]. siz < length fl" using frag fl by (auto simp: fs_frags_def)
  have "fragacct frag m fl cnt = addcnt cnt fl (fragacct frag m (replicate 8 0) 1)"
    unfolding fragacct_def using fragacct_siz_linear [OF _ lt, of "replicate 8 0" frag _ _ cnt] fl fl0 by simp
  also have "\<dots> = map (\<lambda>s. fl ! s + (if 0 < s \<and> s < frag then cnt * int (fruns frag m s) else 0)) [0..<8]"
    unfolding z by (rule nth_equalityI) (auto simp: addcnt_def fl)
  finally show ?thesis .
qed

end
