(* ===== verification/Ufs_alloc.thy ===== *)
theory Ufs_alloc
  imports Fragspace Fragtbl
begin

unbundle bit_operations_syntax

text \<open>
  The block and inode allocator of the fast file system, \<^verbatim>\<open>sys/ufs/ufs_alloc.c\<close>, with the
  records and macros of \<^verbatim>\<open>sys/ufs/fs.h\<close> it works on. This theory holds the model; the theorems
  are in \<open>Ufs_space\<close> (fragments and blocks), \<open>Ufs_inodes\<close> and \<open>Ufs_policy\<close>.

  A state \<open>ufs\<close> is the in-core super block together with the cylinder group blocks as the
  buffer cache holds them (\<open>cgbuf\<close>); \<open>cgerr c\<close> says that \<^verbatim>\<open>bread\<close> of the block of group \<open>c\<close>
  comes back with \<^verbatim>\<open>B_ERROR\<close>. The geometry and block numbers are naturals, the summary counts
  and byte sizes are integers. The summary array \<^verbatim>\<open>fs_cs(fs, c)\<close>, which the source keeps in
  blocks of \<open>1 << fs_csshift\<close> entries, is one function \<open>fs_cs\<close> of the group number.
\<close>

section \<open>Records\<close>

record csum =
  cs_ndir :: int
  cs_nbfree :: int
  cs_nifree :: int
  cs_nffree :: int

record cg =
  cg_time :: int
  cg_cgx :: nat
  cg_cs :: csum
  cg_rotor :: nat
  cg_frotor :: nat
  cg_irotor :: nat
  cg_frsum :: "int list"
  cg_btot :: "int list"
  cg_b :: "int list list"
  cg_iused :: bitmap
  cg_magic :: int
  cg_free :: bitmap

record fs =
  fs_size :: nat
  fs_dsize :: nat
  fs_ncg :: nat
  fs_bsize :: nat
  fs_fsize :: nat
  fs_frag :: nat
  fs_minfree :: nat
  fs_rotdelay :: nat
  fs_rps :: nat
  fs_fmask :: int
  fs_fshift :: nat
  fs_maxcontig :: nat
  fs_maxbpg :: nat
  fs_fragshift :: nat
  fs_nspf :: nat
  fs_nsect :: nat
  fs_spc :: nat
  fs_ipg :: nat
  fs_fpg :: nat
  fs_cstotal :: csum
  fs_fmod :: "8 word"
  fs_cgrotor :: nat
  fs_cs :: "nat \<Rightarrow> csum"
  fs_cpc :: nat
  fs_postbl :: "int list list"
  fs_rotbl :: "nat list"

record ufs = fs +
  cgbuf :: "nat \<Rightarrow> cg"
  cgerr :: "nat \<Rightarrow> bool"
  tv_sec :: int

definition CG_MAGIC :: int where "CG_MAGIC = 0x090255"

definition NRPOS :: nat where "NRPOS = 8"

text \<open>\<^verbatim>\<open>SBSIZE - sizeof (struct fs)\<close>, with the 1380 bytes the record has on the VAX.\<close>

definition MAXBPC :: nat where "MAXBPC = 8192 - 1380"

section \<open>Macros\<close>

definition howmany :: "nat \<Rightarrow> nat \<Rightarrow> nat" where "howmany x y = (x + (y - 1)) div y"

definition roundup :: "nat \<Rightarrow> nat \<Rightarrow> nat" where "roundup x y = ((x + (y - 1)) div y) * y"

definition btodb :: "int \<Rightarrow> int" where "btodb bytes = drop_bit 9 (bytes mod 2 ^ 32)"

definition itog :: "ufs \<Rightarrow> nat \<Rightarrow> nat" where "itog s x = x div fs_ipg s"

definition dtog :: "ufs \<Rightarrow> nat \<Rightarrow> nat" where "dtog s d = d div fs_fpg s"

definition dtogd :: "ufs \<Rightarrow> nat \<Rightarrow> nat" where "dtogd s d = d mod fs_fpg s"

definition cbtocylno :: "ufs \<Rightarrow> nat \<Rightarrow> nat" where "cbtocylno s bno = bno * fs_nspf s div fs_spc s"

definition cbtorpos :: "ufs \<Rightarrow> nat \<Rightarrow> nat" where
  "cbtorpos s bno = bno * fs_nspf s mod fs_nsect s * NRPOS div fs_nsect s"

definition fragoff :: "ufs \<Rightarrow> int \<Rightarrow> int" where "fragoff s loc = loc AND NOT (fs_fmask s)"

definition numfrags :: "ufs \<Rightarrow> int \<Rightarrow> int" where "numfrags s loc = drop_bit (fs_fshift s) loc"

definition fragstoblks :: "ufs \<Rightarrow> nat \<Rightarrow> nat" where "fragstoblks s frags = drop_bit (fs_fragshift s) frags"

definition blkstofrags :: "ufs \<Rightarrow> nat \<Rightarrow> nat" where "blkstofrags s blks = push_bit (fs_fragshift s) blks"

definition fragnum :: "ufs \<Rightarrow> nat \<Rightarrow> nat" where "fragnum s fsb = fsb AND (fs_frag s - 1)"

definition blknum :: "ufs \<Rightarrow> nat \<Rightarrow> nat" where
  "blknum s fsb = nat (int fsb AND NOT (int (fs_frag s) - 1))"

definition freespace :: "ufs \<Rightarrow> nat \<Rightarrow> int" where
  "freespace s percentreserved =
     push_bit (fs_fragshift s) (cs_nbfree (fs_cstotal s)) + cs_nffree (fs_cstotal s)
       - int (fs_dsize s * percentreserved div 100)"

definition NSPB :: "ufs \<Rightarrow> nat" where "NSPB s = push_bit (fs_fragshift s) (fs_nspf s)"

definition badblock :: "ufs \<Rightarrow> int \<Rightarrow> bool" where "badblock s bn \<longleftrightarrow> bn < 0 \<or> int (fs_size s) \<le> bn"

section \<open>Updating the group in core\<close>

text \<open>\<open>updcg f c\<close> changes the block of group \<open>c\<close> in place. \<open>addcs f c x\<close> changes a summary count
  in the three places the source keeps it: the group block, the grand total and \<^verbatim>\<open>fs_cs(fs, x)\<close>.\<close>

definition updcg :: "(cg \<Rightarrow> cg) \<Rightarrow> nat \<Rightarrow> ufs \<Rightarrow> ufs" where
  "updcg f c s = s\<lparr>cgbuf := (cgbuf s)(c := f (cgbuf s c))\<rparr>"

definition addcs :: "(csum \<Rightarrow> csum) \<Rightarrow> nat \<Rightarrow> nat \<Rightarrow> ufs \<Rightarrow> ufs" where
  "addcs f c x s = (updcg (cg_cs_update f) c s)\<lparr>fs_cstotal := f (fs_cstotal s), fs_cs := (fs_cs s)(x := f (fs_cs s x))\<rparr>"

text \<open>The checks after every \<^verbatim>\<open>bread\<close> of a group block.\<close>

definition cg_bad :: "ufs \<Rightarrow> nat \<Rightarrow> bool" where
  "cg_bad s c \<longleftrightarrow> cgerr s c \<or> cg_magic (cgbuf s c) \<noteq> CG_MAGIC"

definition touch :: "nat \<Rightarrow> ufs \<Rightarrow> ufs" where
  "touch c s = updcg (cg_time_update (\<lambda>_. tv_sec s)) c s"

definition fmod :: "ufs \<Rightarrow> ufs" where "fmod s = s\<lparr>fs_fmod := fs_fmod s + 1\<rparr>"

definition addnth :: "int list \<Rightarrow> nat \<Rightarrow> int \<Rightarrow> int list" where
  "addnth xs i d = xs[i := xs ! i + d]"

text \<open>The per-cylinder counts \<^verbatim>\<open>cg_b[cylno][rpos]\<close> and \<^verbatim>\<open>cg_btot[cylno]\<close> of the block at \<open>bno\<close>.\<close>

definition cyl_count :: "nat \<Rightarrow> nat \<Rightarrow> int \<Rightarrow> ufs \<Rightarrow> ufs kern" where
  "cyl_count c bno d s =
     (let i = cbtocylno s bno; r = cbtorpos s bno; g = cgbuf s c in
      kbind (aget (cg_b g) i) (\<lambda>row. kbind (aget row r) (\<lambda>n.
      kbind (aget (cg_btot g) i) (\<lambda>m.
        Inr (updcg (\<lambda>g. g\<lparr>cg_b := (cg_b g)[i := row[r := n + d]], cg_btot := (cg_btot g)[i := m + d]\<rparr>) c s)))))"

section \<open>Searching the free map\<close>

text \<open>The pattern test of one block: the first position whose window matches.\<close>

function mapsearch_pos :: "nat \<Rightarrow> nat \<Rightarrow> int \<Rightarrow> nat \<Rightarrow> int \<Rightarrow> int \<Rightarrow> nat option" where
  "mapsearch_pos frag allocsiz bmap pos field subfield =
     (if pos + allocsiz \<le> frag then
        if bmap AND field = subfield then Some pos
        else mapsearch_pos frag allocsiz bmap (pos + 1) (push_bit 1 field) (push_bit 1 subfield)
      else None)"
  by pat_completeness auto
termination
  by (relation "measure (\<lambda>(frag, allocsiz, bmap, pos, field, subfield). Suc frag - pos)") auto

declare mapsearch_pos.simps [simp del]

text \<open>The blocks of one byte of the map. A fragment count of 0 would not advance.\<close>

function mapsearch_blk :: "nat \<Rightarrow> nat \<Rightarrow> bitmap \<Rightarrow> nat \<Rightarrow> nat \<Rightarrow> nat kern" where
  "mapsearch_blk frag allocsiz cp bno i =
     (if bno < i \<and> 0 < frag then
        case mapsearch_pos frag allocsiz (push_bit 1 (blkmap frag cp bno)) 0 (around ! allocsiz) (inside ! allocsiz) of
          Some pos \<Rightarrow> Inr (bno + pos)
        | None \<Rightarrow> mapsearch_blk frag allocsiz cp (bno + frag) i
      else Inl (Panic ''alloccg: block not in map''))"
  by pat_completeness auto
termination
  by (relation "measure (\<lambda>(frag, allocsiz, cp, bno, i). i - bno)") auto

declare mapsearch_blk.simps [simp del]

definition scan_map :: "ufs \<Rightarrow> bitmap \<Rightarrow> nat \<Rightarrow> nat \<Rightarrow> nat \<Rightarrow> nat kern" where
  "scan_map s cp start len allocsiz =
     (if start + len \<le> length cp
      then Inr (scanc (take len (drop start cp)) (fragtbl (fs_frag s)) (push_bit (allocsiz - 1 + fs_frag s mod 8) 1))
      else Inl (Fault ''scanc''))"

definition mapsearch :: "ufs \<Rightarrow> nat \<Rightarrow> nat \<Rightarrow> nat \<Rightarrow> (nat \<times> ufs) kern" where
  "mapsearch s c bpref allocsiz =
     (let cgp = cgbuf s c;
          start = (if bpref \<noteq> 0 then dtogd s bpref div 8 else cg_frotor cgp div 8);
          len = howmany (fs_fpg s) 8 - start;
          found = (\<lambda>start len loc.
            let bno = (start + len - loc) * 8 in
            kbind (mapsearch_blk (fs_frag s) allocsiz (cg_free cgp) bno (bno + 8))
              (\<lambda>r. Inr (r, updcg (cg_frotor_update (\<lambda>_. bno)) c s)))
      in kbind (scan_map s (cg_free cgp) start len allocsiz) (\<lambda>loc.
           if loc \<noteq> 0 then found start len loc
           else kbind (scan_map s (cg_free cgp) 0 (start + 1) allocsiz) (\<lambda>loc.
             if loc \<noteq> 0 then found 0 (start + 1) loc
             else Inl (Panic ''alloccg: map corrupted''))))"

section \<open>Blocks\<close>

text \<open>The rotational search: the first position from \<open>pos\<close> on, then from 0, with a free block.\<close>

fun first_rpos :: "int list \<Rightarrow> nat list \<Rightarrow> nat option" where
  "first_rpos cylbp [] = None"
| "first_rpos cylbp (i # is) = (if cylbp ! i > 0 then Some i else first_rpos cylbp is)"

definition rot_search :: "int list \<Rightarrow> nat \<Rightarrow> nat option" where
  "rot_search cylbp pos = first_rpos cylbp ([pos..<NRPOS] @ [0..<pos])"

function rot_chain :: "ufs \<Rightarrow> bitmap \<Rightarrow> nat \<Rightarrow> nat \<Rightarrow> nat kern" where
  "rot_chain s cp bno i =
     (if length cp \<le> (bno + i) * fs_frag s div 8 then Inl (Fault ''cg_free'')
      else kbind (isblock (fs_frag s) cp (bno + i)) (\<lambda>b.
       if b then Inr (blkstofrags s (bno + i))
       else kbind (aget (fs_rotbl s) i) (\<lambda>delta.
         if delta = 0 \<or> MAXBPC < i + delta then Inl (Panic ''alloccgblk: can't find blk in cyl'')
         else rot_chain s cp bno (i + delta))))"
  by pat_completeness auto
termination
  by (relation "measure (\<lambda>(s, cp, bno, i). Suc MAXBPC - i)") auto

declare rot_chain.simps [simp del]

text \<open>The end of \<open>alloccgblk\<close>, label \<^verbatim>\<open>gotit\<close>.\<close>

definition gotit :: "nat \<Rightarrow> nat \<Rightarrow> ufs \<Rightarrow> (nat \<times> ufs) kern" where
  "gotit c bno s =
     kbind (clrblock (fs_frag s) (cg_free (cgbuf s c)) (fragstoblks s bno)) (\<lambda>cp.
     let x = cg_cgx (cgbuf s c) in
     kbind (cyl_count c bno (-1)
              (addcs (cs_nbfree_update (\<lambda>n. n - 1)) c x (updcg (cg_free_update (\<lambda>_. cp)) c s))) (\<lambda>s.
     Inr (x * fs_fpg s + bno, fmod s)))"

definition norot :: "nat \<Rightarrow> nat \<Rightarrow> ufs \<Rightarrow> (nat \<times> ufs) kern" where
  "norot c bpref s =
     kbind (mapsearch s c bpref (fs_frag s)) (\<lambda>(bno, s).
       gotit c bno (updcg (cg_rotor_update (\<lambda>_. bno)) c s))"

definition alloccgblk :: "nat \<Rightarrow> nat \<Rightarrow> ufs \<Rightarrow> (nat \<times> ufs) kern" where
  "alloccgblk c bpref s =
     (let cgp = cgbuf s c in
      if bpref = 0 then norot c (cg_rotor cgp) s
      else let bpref = dtogd s (blknum s bpref) in
        kbind (isblock (fs_frag s) (cg_free cgp) (fragstoblks s bpref)) (\<lambda>b.
        if b then gotit c bpref s
        else let cylno = cbtocylno s bpref in
          kbind (aget (cg_btot cgp) cylno) (\<lambda>btot.
          if btot = 0 then norot c bpref s
          else if fs_cpc s = 0 then norot c (howmany (fs_spc s * cylno) (fs_nspf s)) s
          else kbind (aget (cg_b cgp) cylno) (\<lambda>cylbp.
            case rot_search cylbp (cbtorpos s bpref) of
              None \<Rightarrow> norot c bpref s
            | Some i \<Rightarrow>
                let pos = cylno mod fs_cpc s; bno = (cylno - pos) * fs_spc s div NSPB s in
                kbind (aget (fs_postbl s) pos) (\<lambda>row. kbind (aget row i) (\<lambda>j.
                  if j = -1 then Inl (Panic ''alloccgblk: cyl groups corrupted'')
                  else if j < 0 then Inl (Fault ''fs_rotbl'')
                  else kbind (rot_chain s (cg_free cgp) bno (nat j)) (\<lambda>bno. gotit c bno s)))))))"

text \<open>\<open>setbits\<close> and \<open>clrbits\<close> are the loops that set or clear the bits of a range.\<close>

definition setbits :: "bitmap \<Rightarrow> nat list \<Rightarrow> bitmap" where "setbits cp bs = fold (\<lambda>i a. setbit a i) bs cp"

definition clrbits :: "bitmap \<Rightarrow> nat list \<Rightarrow> bitmap" where "clrbits cp bs = fold (\<lambda>i a. clrbit a i) bs cp"

text \<open>The smallest run size from \<open>frags\<close> on that the group still has; \<open>fs_frag\<close> when there is none.\<close>

function alloc_siz :: "int list \<Rightarrow> nat \<Rightarrow> nat \<Rightarrow> nat" where
  "alloc_siz frsum frag allocsiz =
     (if allocsiz < frag \<and> frsum ! allocsiz = 0 then alloc_siz frsum frag (allocsiz + 1) else allocsiz)"
  by pat_completeness auto
termination
  by (relation "measure (\<lambda>(frsum, frag, allocsiz). frag - allocsiz)") auto

declare alloc_siz.simps [simp del]

text \<open>The two ways \<open>alloccg\<close> makes a fragment: hacking up a block, or the head of a run.\<close>

definition hack_block :: "nat \<Rightarrow> nat \<Rightarrow> nat \<Rightarrow> ufs \<Rightarrow> (nat \<times> ufs) kern" where
  "hack_block c bpref frags s =
     kbind (alloccgblk c bpref s) (\<lambda>(bno, s).
       let bpref = dtogd s bno; i = fs_frag s - frags in
       Inr (bno, updcg (\<lambda>g. g\<lparr>cg_frsum := addnth (cg_frsum g) i 1\<rparr>) c
                  (fmod (addcs (cs_nffree_update (\<lambda>n. n + int i)) c c
                    (updcg (\<lambda>g. g\<lparr>cg_free := setbits (cg_free g) (map ((+) bpref) [frags..<fs_frag s])\<rparr>) c s)))))"

definition take_run :: "nat \<Rightarrow> nat \<Rightarrow> nat \<Rightarrow> nat \<Rightarrow> ufs \<Rightarrow> ufs" where
  "take_run c bno allocsiz frags s =
     updcg (\<lambda>g. g\<lparr>cg_frsum := let fl = addnth (cg_frsum g) allocsiz (-1) in
                     if frags \<noteq> allocsiz then addnth fl (allocsiz - frags) 1 else fl\<rparr>) c
       (fmod (addcs (cs_nffree_update (\<lambda>n. n - int frags)) c c
         (updcg (\<lambda>g. g\<lparr>cg_free := clrbits (cg_free g) (map ((+) bno) [0..<frags])\<rparr>) c s)))"

definition alloccg :: "nat \<Rightarrow> nat \<Rightarrow> int \<Rightarrow> ufs \<Rightarrow> (nat \<times> ufs) kern" where
  "alloccg c bpref siz s =
     (if cs_nbfree (fs_cs s c) = 0 \<and> siz = int (fs_bsize s) then Inr (0, s)
      else if cg_bad s c \<or> cs_nbfree (cg_cs (cgbuf s c)) = 0 \<and> siz = int (fs_bsize s) then Inr (0, s)
      else let s = touch c s in
        if siz = int (fs_bsize s) then alloccgblk c bpref s
        else let frags = nat (numfrags s siz);
                 allocsiz = alloc_siz (cg_frsum (cgbuf s c)) (fs_frag s) frags in
          if allocsiz = fs_frag s then
            if cs_nbfree (cg_cs (cgbuf s c)) = 0 then Inr (0, s) else hack_block c bpref frags s
          else kbind (mapsearch s c bpref allocsiz) (\<lambda>(bno, s).
            Inr (c * fs_fpg s + bno, take_run c bno allocsiz frags s)))"

text \<open>The end of the free run that starts at \<open>bno + i\<close>, within \<open>lim\<close> fragments of \<open>bno\<close>.\<close>

function run_end :: "bitmap \<Rightarrow> nat \<Rightarrow> nat \<Rightarrow> nat \<Rightarrow> nat" where
  "run_end cp bno lim i = (if i < lim \<and> \<not> isclr cp (bno + i) then run_end cp bno lim (i + 1) else i)"
  by pat_completeness auto
termination
  by (relation "measure (\<lambda>(cp, bno, lim, i). lim - i)") auto

declare run_end.simps [simp del]

definition extend_one :: "nat \<Rightarrow> nat \<Rightarrow> ufs \<Rightarrow> ufs" where
  "extend_one c b s =
     addcs (cs_nffree_update (\<lambda>n. n - 1)) c c (updcg (\<lambda>g. g\<lparr>cg_free := clrbit (cg_free g) b\<rparr>) c s)"

definition fragextend :: "nat \<Rightarrow> nat \<Rightarrow> int \<Rightarrow> int \<Rightarrow> ufs \<Rightarrow> nat \<times> ufs" where
  "fragextend c bprev osize nsize s =
     (if cs_nffree (fs_cs s c) < numfrags s (nsize - osize) then (0, s)
      else let frags = nat (numfrags s nsize); bbase = fragnum s bprev in
        if bbase > fragnum s (bprev + frags - 1) then (0, s)
        else if cg_bad s c then (0, s)
        else let s = touch c s; bno = dtogd s bprev; ofrags = nat (numfrags s osize); cp = cg_free (cgbuf s c) in
          if list_ex (\<lambda>i. isclr cp (bno + i)) [ofrags..<frags] then (0, s)
          else let i = run_end cp bno (fs_frag s - bbase) frags;
                   s = updcg (\<lambda>g. g\<lparr>cg_frsum := let fl = addnth (cg_frsum g) (i - ofrags) (-1) in
                                     if i \<noteq> frags then addnth fl (i - frags) 1 else fl\<rparr>) c s
            in (bprev, fmod (fold (extend_one c) (map ((+) bno) [ofrags..<frags]) s)))"

section \<open>Freeing blocks and fragments\<close>

text \<open>The loop that returns fragments one by one, and panics on the first that is free already.\<close>

fun free_frags :: "bitmap \<Rightarrow> nat list \<Rightarrow> bitmap kern" where
  "free_frags cp [] = Inr cp"
| "free_frags cp (b # bs) =
     (if isset cp b then Inl (Panic ''free: freeing free frag'') else free_frags (setbit cp b) bs)"

definition free_block :: "nat \<Rightarrow> nat \<Rightarrow> ufs \<Rightarrow> ufs kern" where
  "free_block c bno s =
     (let cp = cg_free (cgbuf s c); h = fragstoblks s bno in
      kbind (isblock (fs_frag s) cp h) (\<lambda>b.
      if b then Inl (Panic ''free: freeing free block'')
      else kbind (setblock (fs_frag s) cp h) (\<lambda>cp.
        cyl_count c bno 1 (addcs (cs_nbfree_update (\<lambda>n. n + 1)) c c (updcg (cg_free_update (\<lambda>_. cp)) c s)))))"

definition reassemble :: "nat \<Rightarrow> nat \<Rightarrow> ufs \<Rightarrow> ufs kern" where
  "reassemble c bbase s =
     kbind (isblock (fs_frag s) (cg_free (cgbuf s c)) (fragstoblks s bbase)) (\<lambda>b.
     if b then cyl_count c bbase 1 (addcs (cs_nbfree_update (\<lambda>n. n + 1)) c c
                 (addcs (cs_nffree_update (\<lambda>n. n - int (fs_frag s))) c c s))
     else Inr s)"

definition free_frag :: "nat \<Rightarrow> nat \<Rightarrow> nat \<Rightarrow> ufs \<Rightarrow> ufs kern" where
  "free_frag c bno frags s =
     (let bbase = bno - fragnum s bno; cp = cg_free (cgbuf s c);
          s = updcg (\<lambda>g. g\<lparr>cg_frsum := fragacct (fs_frag s) (blkmap (fs_frag s) cp bbase) (cg_frsum g) (-1)\<rparr>) c s in
      kbind (free_frags cp (map ((+) bno) [0..<frags])) (\<lambda>cp.
      let s = addcs (cs_nffree_update (\<lambda>n. n + int frags)) c c (updcg (cg_free_update (\<lambda>_. cp)) c s);
          s = updcg (\<lambda>g. g\<lparr>cg_frsum := fragacct (fs_frag s) (blkmap (fs_frag s) cp bbase) (cg_frsum g) 1\<rparr>) c s
      in reassemble c bbase s))"

definition bad_size :: "ufs \<Rightarrow> int \<Rightarrow> bool" where
  "bad_size s siz \<longleftrightarrow> siz < 0 \<or> int (fs_bsize s) < siz \<or> fragoff s siz \<noteq> 0"

definition free :: "int \<Rightarrow> int \<Rightarrow> ufs \<Rightarrow> ufs kern" where
  "free bno siz s =
     (if bad_size s siz then Inl (Panic ''free: bad size'')
      else if badblock s bno then Inr s
      else let c = dtog s (nat bno) in
        if cg_bad s c then Inr s
        else let s = touch c s; bno = dtogd s (nat bno) in
          kbind (if siz = int (fs_bsize s) then free_block c bno s
                 else free_frag c bno (nat (numfrags s siz)) s) (\<lambda>s. Inr (fmod s)))"

section \<open>Inodes\<close>

text \<open>The VAX instruction \<^verbatim>\<open>skpc\<close>: how many bytes are left from the first that differs.\<close>

fun skpc :: "8 word \<Rightarrow> bitmap \<Rightarrow> nat" where
  "skpc m [] = 0"
| "skpc m (c # cp) = (if c = m then skpc m cp else Suc (length cp))"

definition scan_iused :: "bitmap \<Rightarrow> nat \<Rightarrow> nat \<Rightarrow> nat kern" where
  "scan_iused cp start len =
     (if start + len \<le> length cp then Inr (skpc 0xff (take len (drop start cp))) else Inl (Fault ''skpc''))"

text \<open>The first clear bit of a byte, counting from \<open>ipref\<close>.\<close>

fun clear_bit :: "8 word \<Rightarrow> nat list \<Rightarrow> nat kern" where
  "clear_bit m [] = Inl (Panic ''ialloccg: block not in map'')"
| "clear_bit m (k # ks) = (if m AND push_bit k 1 = 0 then Inr k else clear_bit m ks)"

definition IFMT :: nat where "IFMT = 61440"
definition IFDIR :: nat where "IFDIR = 16384"

definition igotit :: "nat \<Rightarrow> nat \<Rightarrow> nat \<Rightarrow> ufs \<Rightarrow> nat \<times> ufs" where
  "igotit c ipref mode s =
     (let s = updcg (\<lambda>g. g\<lparr>cg_iused := setbit (cg_iused g) ipref\<rparr>) c s;
          s = fmod (addcs (cs_nifree_update (\<lambda>n. n - 1)) c c s);
          s = (if mode AND IFMT = IFDIR then addcs (cs_ndir_update (\<lambda>n. n + 1)) c c s else s)
      in (c * fs_ipg s + ipref, s))"

text \<open>The search of the inode map, from the rotor to the end and then from the start.\<close>

definition isearch :: "ufs \<Rightarrow> cg \<Rightarrow> nat kern" where
  "isearch s g =
     (let start = cg_irotor g div 8; len = howmany (fs_ipg s - cg_irotor g) 8 in
      kbind (kbind (scan_iused (cg_iused g) start len) (\<lambda>loc.
        if loc \<noteq> 0 then Inr (start + len - loc)
        else kbind (scan_iused (cg_iused g) 0 (start + 1)) (\<lambda>loc.
          if loc = 0 then Inl (Panic ''ialloccg: map corrupted'') else Inr (start + 1 - loc)))) (\<lambda>i.
      kbind (clear_bit (cg_iused g ! i) [0..<8]) (\<lambda>k. Inr (i * 8 + k))))"

definition ialloccg :: "nat \<Rightarrow> nat \<Rightarrow> nat \<Rightarrow> ufs \<Rightarrow> (nat \<times> ufs) kern" where
  "ialloccg c ipref mode s =
     (if cs_nifree (fs_cs s c) = 0 then Inr (0, s)
      else if cg_bad s c \<or> cs_nifree (cg_cs (cgbuf s c)) = 0 then Inr (0, s)
      else let s = touch c s in
        if ipref \<noteq> 0 \<and> isclr (cg_iused (cgbuf s c)) (ipref mod fs_ipg s)
        then Inr (igotit c (ipref mod fs_ipg s) mode s)
        else kbind (isearch s (cgbuf s c)) (\<lambda>ino.
          Inr (igotit c ino mode (updcg (cg_irotor_update (\<lambda>_. ino)) c s))))"

definition ifree :: "nat \<Rightarrow> nat \<Rightarrow> ufs \<Rightarrow> ufs kern" where
  "ifree ino mode s =
     (if fs_ipg s * fs_ncg s \<le> ino then Inl (Panic ''ifree: range'')
      else let c = itog s ino in
        if cg_bad s c then Inr s
        else let s = touch c s; ino = ino mod fs_ipg s in
          if isclr (cg_iused (cgbuf s c)) ino then Inl (Panic ''ifree: freeing free inode'')
          else let s = updcg (\<lambda>g. g\<lparr>cg_iused := clrbit (cg_iused g) ino,
                                    cg_irotor := if ino < cg_irotor g then ino else cg_irotor g\<rparr>) c s;
                   s = addcs (cs_nifree_update (\<lambda>n. n + 1)) c c s;
                   s = (if mode AND IFMT = IFDIR then addcs (cs_ndir_update (\<lambda>n. n - 1)) c c s else s)
            in Inr (fmod s))"

end
