(* ===== verification/Ufs_space.thy ===== *)
theory Ufs_space
  imports Ufs_alloc
begin

unbundle bit_operations_syntax

text \<open>
  The free space of a file system: the invariant that ties the free maps to the summary
  counts of \<^verbatim>\<open>struct cg\<close> and \<^verbatim>\<open>struct fs\<close>, and the proofs that \<open>mapsearch\<close>, \<open>alloccgblk\<close>,
  \<open>alloccg\<close>, \<open>fragextend\<close> and \<open>free\<close> keep it while they move exactly the fragments they
  claim to move.
\<close>

section \<open>Geometry\<close>

definition geom_ok :: "ufs \<Rightarrow> bool" where
  "geom_ok s \<longleftrightarrow> fs_frag s \<in> fs_frags \<and> fs_frag s = 2 ^ fs_fragshift s \<and> fs_fsize s = 2 ^ fs_fshift s
     \<and> fs_bsize s = fs_frag s * fs_fsize s \<and> fs_fmask s = NOT (mask (fs_fshift s))
     \<and> 0 < fs_fpg s \<and> fs_frag s dvd fs_fpg s \<and> 0 < fs_ncg s \<and> 0 < fs_ipg s \<and> 8 dvd fs_ipg s \<and> fs_ipg s \<le> 2048
     \<and> 0 < fs_nspf s \<and> 0 < fs_spc s \<and> 0 < fs_nsect s \<and> fs_fpg s * fs_nspf s \<le> 32 * fs_spc s"

definition nblk :: "ufs \<Rightarrow> nat" where "nblk s = fs_fpg s div fs_frag s"

lemma geomD:
  assumes "geom_ok s"
  shows "fs_frag s \<in> fs_frags" "0 < fs_frag s" "fs_frag s \<le> 8" "fs_frag s = 2 ^ fs_fragshift s" "fs_fsize s = 2 ^ fs_fshift s"
    "fs_bsize s = fs_frag s * fs_fsize s" "fs_fmask s = NOT (mask (fs_fshift s))" "0 < fs_fpg s"
    "nblk s * fs_frag s = fs_fpg s" "0 < fs_ncg s" "0 < fs_ipg s" "8 dvd fs_ipg s" "fs_ipg s \<le> 2048"
proof -
  show f: "fs_frag s \<in> fs_frags" using assms unfolding geom_ok_def by blast
  then show "0 < fs_frag s" "fs_frag s \<le> 8" by (auto simp: fs_frags_def)
  show "nblk s * fs_frag s = fs_fpg s" using assms unfolding geom_ok_def nblk_def by (blast intro: dvd_div_mult_self)
qed (use assms in \<open>simp_all add: geom_ok_def nblk_def\<close>)

lemma fragnum_mod: "geom_ok s \<Longrightarrow> fragnum s b = b mod fs_frag s"
proof -
  assume g: "geom_ok s"
  have "b AND mask (fs_fragshift s) = take_bit (fs_fragshift s) b" by (simp add: take_bit_eq_mask)
  then show ?thesis unfolding fragnum_def geomD(4) [OF g] by (simp add: mask_eq_exp_minus_1 take_bit_eq_mod)
qed

lemma blknum_div: "geom_ok s \<Longrightarrow> blknum s b = (b div fs_frag s) * fs_frag s"
proof -
  assume g: "geom_ok s"
  have "int b AND NOT (mask (fs_fragshift s)) = push_bit (fs_fragshift s) (drop_bit (fs_fragshift s) (int b))"
    by (rule bit_eqI) (auto simp: bit_simps)
  also have "\<dots> = int (b div 2 ^ fs_fragshift s * 2 ^ fs_fragshift s)"
    by (simp add: drop_bit_eq_div push_bit_eq_mult zdiv_int)
  finally have "nat (int b AND NOT (mask (fs_fragshift s))) = b div 2 ^ fs_fragshift s * 2 ^ fs_fragshift s"
    by (simp only: nat_int)
  then show ?thesis unfolding blknum_def geomD(4) [OF g] by (simp add: mask_eq_exp_minus_1)
qed

lemma frag_shifts:
  "geom_ok s \<Longrightarrow> fragstoblks s b = b div fs_frag s" "geom_ok s \<Longrightarrow> blkstofrags s b = b * fs_frag s"
  by (simp_all add: fragstoblks_def blkstofrags_def geomD(4) drop_bit_eq_div push_bit_eq_mult)

lemma size_cases:
  assumes "geom_ok s" "\<not> bad_size s siz"
  obtains k where "k \<le> fs_frag s" "siz = int (k * fs_fsize s)" "numfrags s siz = int k" "siz = int (fs_bsize s) \<longleftrightarrow> k = fs_frag s"
proof -
  note g = geomD [OF assms(1)]
  have 0: "0 \<le> siz" "siz \<le> int (fs_bsize s)" "siz mod 2 ^ fs_fshift s = 0"
    using assms(2) unfolding bad_size_def fragoff_def g(7) by (simp_all add: take_bit_eq_mask [symmetric] take_bit_eq_mod)
  define k where "k = nat (siz div 2 ^ fs_fshift s)"
  have k: "siz = int k * 2 ^ fs_fshift s" using 0 by (simp add: k_def pos_imp_zdiv_nonneg_iff) (metis div_mult_mod_eq add_0_right)
  have n: "numfrags s siz = int k" unfolding numfrags_def k by (simp add: drop_bit_eq_div)
  have le: "int k * 2 ^ fs_fshift s \<le> int (fs_frag s) * 2 ^ fs_fshift s" using 0(2) k g(5,6) by simp
  then have le': "k \<le> fs_frag s" by simp
  show thesis using that [OF le' _ n] k g(5,6) by simp
qed

section \<open>Counts\<close>

text \<open>The summary counts of a group whose free fragments are \<open>F\<close>.\<close>

definition counts :: "nat \<Rightarrow> nat \<Rightarrow> nat set \<Rightarrow> int list \<Rightarrow> int \<Rightarrow> int \<Rightarrow> bool" where
  "counts frag n F fl nbf nff \<longleftrightarrow> nbf = total n (bfree F frag) \<and> nff = total n (ffree F frag) \<and> length fl = 8
     \<and> (\<forall>z. 0 < z \<and> z < frag \<longrightarrow> fl ! z = total n (\<lambda>h. nruns F frag h z))"

lemma length_addnth [simp]: "length (addnth fl i d) = length fl"
  by (simp add: addnth_def)

lemma nth_addnth: "i < length fl \<Longrightarrow> addnth fl i d ! z = fl ! z + (if z = i then d else 0)"
  by (simp add: addnth_def nth_list_update)

text \<open>How the run counts change when the first \<open>k\<close> fragments of a run of \<open>a\<close> are taken.\<close>

definition take_frsum :: "nat \<Rightarrow> nat \<Rightarrow> nat \<Rightarrow> int list \<Rightarrow> int list" where
  "take_frsum frag a k fl =
     (let fl' = (if a < frag then addnth fl a (-1) else fl) in if k \<noteq> a then addnth fl' (a - k) 1 else fl')"

lemma counts_take:
  assumes c: "counts frag n F fl nbf nff" and run: "frun F frag h a p" and h: "h < n" and k: "0 < k" "k \<le> a" and frag: "frag \<le> 8"
  shows "counts frag n (F - {p..<p + k}) (take_frsum frag a k fl) (nbf - (if a = frag then 1 else 0))
    (nff + (if a = frag then int (frag - k) else - int k))"
proof -
  note d = frunD [OF run]
  have pos: "0 < frag" "a \<le> frag" using d(1,2,3) by auto
  note t = take_head_counts [OF run k pos(1)]
  have len: "length fl = 8" using c by (simp add: counts_def)
  have b: "total n (bfree (F - {p..<p + k}) frag) = nbf - (if a = frag then 1 else 0)"
    using total_change [OF h, of "bfree (F - {p..<p + k}) frag" "bfree F frag"] counts_local(2) [OF t(1)] t(2) c
    by (auto simp: counts_def)
  have f: "total n (ffree (F - {p..<p + k}) frag) = nff + (if a = frag then int (frag - k) else - int k)"
    using total_change [OF h, of "ffree (F - {p..<p + k}) frag" "ffree F frag"] counts_local(3) [OF t(1)] t(3) c
    by (auto simp: counts_def)
  have r: "take_frsum frag a k fl ! z = total n (\<lambda>h. nruns (F - {p..<p + k}) frag h z)" if z: "0 < z" "z < frag" for z
  proof -
    have "total n (\<lambda>h. nruns (F - {p..<p + k}) frag h z) = fl ! z - (if z = a then 1 else 0) + (if k < a \<and> z = a - k then 1 else 0)"
      using total_change [OF h, of "\<lambda>h. nruns (F - {p..<p + k}) frag h z" "\<lambda>h. nruns F frag h z"]
        counts_local(1) [OF t(1)] nruns_remove [OF run k, of z] c z by (auto simp: counts_def)
    then show ?thesis using len pos k z frag by (auto simp: take_frsum_def Let_def nth_addnth)
  qed
  show ?thesis using b f r len by (simp add: counts_def take_frsum_def Let_def)
qed

text \<open>Returning fragments: the run counts are recomputed for the one block that changes.\<close>

lemma bfree_ffree_union:
  assumes A: "A \<subseteq> blk frag h" "A \<inter> F = {}" "finite A" and F': "F' = F \<union> A" and ne: "A \<noteq> {}"
  shows "bfree F' frag h = bfree F frag h + (if blk frag h \<subseteq> F' then 1 else 0)"
    "ffree F' frag h = ffree F frag h + int (card A) - (if blk frag h \<subseteq> F' then int frag else 0)"
proof -
  have not: "\<not> blk frag h \<subseteq> F" using A ne by blast
  then show "bfree F' frag h = bfree F frag h + (if blk frag h \<subseteq> F' then 1 else 0)" by (simp add: bfree_def)
  have "F' \<inter> blk frag h = (F \<inter> blk frag h) \<union> A" using A F' by blast
  then have "card (F' \<inter> blk frag h) = card (F \<inter> blk frag h) + card A"
    using A by (simp add: card_Un_disjoint Int_assoc Int_left_commute [of A] inf_commute [of A])
      (subst card_Un_disjoint, auto)
  moreover have "F' \<inter> blk frag h = blk frag h" if "blk frag h \<subseteq> F'" using that by blast
  ultimately show "ffree F' frag h = ffree F frag h + int (card A) - (if blk frag h \<subseteq> F' then int frag else 0)"
    using not by (auto simp: ffree_def)
qed

lemma counts_put:
  assumes c: "counts frag n F fl nbf nff" and h: "h < n" and frag: "0 < frag"
    and A: "A \<subseteq> blk frag h" "A \<inter> F = {}" "A \<noteq> {}" and F': "F' = F \<union> A"
    and fl: "length fl' = 8" "\<And>z. 0 < z \<Longrightarrow> z < frag \<Longrightarrow> fl' ! z = fl ! z - nruns F frag h z + nruns F' frag h z"
  shows "counts frag n F' fl' (nbf + (if blk frag h \<subseteq> F' then 1 else 0))
    (nff + int (card A) - (if blk frag h \<subseteq> F' then int frag else 0))"
proof -
  have loc: "F' \<inter> blk frag k = F \<inter> blk frag k" if "k \<noteq> h" for k
    using blk_disjoint [OF frag, of k h] that A F' by blast
  have fin: "finite A" using A(1) by (rule finite_subset) simp
  note u = bfree_ffree_union [OF A(1,2) fin F' A(3)]
  note tc = total_change [OF h]
  show ?thesis using c fl
      tc [of "bfree F' frag" "bfree F frag"] tc [of "ffree F' frag" "ffree F frag"]
      tc [of "\<lambda>h. nruns F' frag h z" "\<lambda>h. nruns F frag h z" for z] counts_local [OF loc] u
    by (simp add: counts_def)
qed

section \<open>A normal form for updates of one group\<close>

text \<open>
  Every operation changes one group block, adds the same amounts to the three copies of the
  summary counts and may mark the super block modified: \<open>step c g d m s\<close>.
\<close>

definition csadd :: "csum \<Rightarrow> csum \<Rightarrow> csum" where
  "csadd a d = \<lparr>cs_ndir = cs_ndir a + cs_ndir d, cs_nbfree = cs_nbfree a + cs_nbfree d,
     cs_nifree = cs_nifree a + cs_nifree d, cs_nffree = cs_nffree a + cs_nffree d\<rparr>"

definition cs0 :: csum where "cs0 = \<lparr>cs_ndir = 0, cs_nbfree = 0, cs_nifree = 0, cs_nffree = 0\<rparr>"

definition step :: "nat \<Rightarrow> cg \<Rightarrow> csum \<Rightarrow> 8 word \<Rightarrow> ufs \<Rightarrow> ufs" where
  "step c g d m s = s\<lparr>cgbuf := (cgbuf s)(c := g\<lparr>cg_cs := csadd (cg_cs (cgbuf s c)) d\<rparr>),
     fs_cstotal := csadd (fs_cstotal s) d, fs_cs := (fs_cs s)(c := csadd (fs_cs s c) d), fs_fmod := m\<rparr>"

lemma csadd_cs0 [simp]: "csadd a cs0 = a"
  by (cases a) (simp add: csadd_def cs0_def)

lemma cs0_csadd [simp]: "csadd cs0 d = d"
  by (cases d) (simp add: csadd_def cs0_def)

lemma csadd_simps [simp]:
  "cs_ndir (csadd a d) = cs_ndir a + cs_ndir d" "cs_nbfree (csadd a d) = cs_nbfree a + cs_nbfree d"
  "cs_nifree (csadd a d) = cs_nifree a + cs_nifree d" "cs_nffree (csadd a d) = cs_nffree a + cs_nffree d"
  by (simp_all add: csadd_def)

lemma cs0_simps [simp]: "cs_ndir cs0 = 0" "cs_nbfree cs0 = 0" "cs_nifree cs0 = 0" "cs_nffree cs0 = 0"
  by (simp_all add: cs0_def)

lemma step_start: "s = step c (cgbuf s c) cs0 (fs_fmod s) s"
  by (simp add: step_def)

lemma step_sel [simp]:
  "fs_size (step c g d m s) = fs_size s" "fs_dsize (step c g d m s) = fs_dsize s" "fs_ncg (step c g d m s) = fs_ncg s"
  "fs_bsize (step c g d m s) = fs_bsize s" "fs_fsize (step c g d m s) = fs_fsize s" "fs_frag (step c g d m s) = fs_frag s"
  "fs_fmask (step c g d m s) = fs_fmask s" "fs_fshift (step c g d m s) = fs_fshift s" "fs_fragshift (step c g d m s) = fs_fragshift s"
  "fs_nspf (step c g d m s) = fs_nspf s" "fs_nsect (step c g d m s) = fs_nsect s" "fs_spc (step c g d m s) = fs_spc s"
  "fs_ipg (step c g d m s) = fs_ipg s" "fs_fpg (step c g d m s) = fs_fpg s" "fs_cpc (step c g d m s) = fs_cpc s"
  "fs_postbl (step c g d m s) = fs_postbl s" "fs_rotbl (step c g d m s) = fs_rotbl s" "tv_sec (step c g d m s) = tv_sec s"
  "fs_fmod (step c g d m s) = m" "cgerr (step c g d m s) = cgerr s" "fs_cstotal (step c g d m s) = csadd (fs_cstotal s) d"
  "fs_cs (step c g d m s) = (fs_cs s)(c := csadd (fs_cs s c) d)"
  "cgbuf (step c g d m s) = (cgbuf s)(c := g\<lparr>cg_cs := csadd (cg_cs (cgbuf s c)) d\<rparr>)"
  by (simp_all add: step_def)

lemma step_macros [simp]:
  "dtog (step c g d m s) = dtog s" "dtogd (step c g d m s) = dtogd s" "itog (step c g d m s) = itog s"
  "cbtocylno (step c g d m s) = cbtocylno s" "cbtorpos (step c g d m s) = cbtorpos s"
  "fragoff (step c g d m s) = fragoff s" "numfrags (step c g d m s) = numfrags s"
  "fragstoblks (step c g d m s) = fragstoblks s" "blkstofrags (step c g d m s) = blkstofrags s"
  "fragnum (step c g d m s) = fragnum s" "blknum (step c g d m s) = blknum s"
  "badblock (step c g d m s) = badblock s" "bad_size (step c g d m s) = bad_size s"
  by (intro ext; simp add: dtog_def dtogd_def itog_def cbtocylno_def cbtorpos_def fragoff_def numfrags_def fragstoblks_def
      blkstofrags_def fragnum_def blknum_def badblock_def bad_size_def)+

lemma step_geom [simp]:
  "geom_ok (step c g d m s) = geom_ok s" "nblk (step c g d m s) = nblk s" "NSPB (step c g d m s) = NSPB s"
  by (simp_all add: geom_ok_def nblk_def NSPB_def)

lemma updcg_step [simp]:
  assumes "\<And>g x. f (g\<lparr>cg_cs := x\<rparr>) = (f g)\<lparr>cg_cs := x\<rparr>"
  shows "updcg f c (step c g d m s) = step c (f g) d m s"
  by (simp add: updcg_def step_def assms)

lemma updcg_start:
  assumes "\<And>g x. f (g\<lparr>cg_cs := x\<rparr>) = (f g)\<lparr>cg_cs := x\<rparr>"
  shows "updcg f c s = step c (f (cgbuf s c)) cs0 (fs_fmod s) s"
  using updcg_step [OF assms, of c "cgbuf s c" cs0 "fs_fmod s" s] by (simp add: step_start [symmetric])

lemma csadd_assoc: "csadd (csadd a d) e = csadd a (csadd d e)"
  by (simp add: csadd_def)

lemma addcs_csadd: "addcs (\<lambda>a. csadd a e) c c (step c g d m s) = step c g (csadd d e) m s"
proof -
  have "updcg (cg_cs_update (\<lambda>a. csadd a e)) c (step c g d m s) =
    s\<lparr>cgbuf := (cgbuf s)(c := g\<lparr>cg_cs := csadd (csadd (cg_cs (cgbuf s c)) d) e\<rparr>), fs_cstotal := csadd (fs_cstotal s) d,
      fs_cs := (fs_cs s)(c := csadd (fs_cs s c) d), fs_fmod := m\<rparr>"
    by (simp add: updcg_def step_def comp_def)
  then show ?thesis by (simp add: addcs_def csadd_assoc) (simp add: step_def)
qed

lemma cs_updates:
  "cs_nbfree_update (\<lambda>n. n + k) = (\<lambda>a. csadd a (cs0\<lparr>cs_nbfree := k\<rparr>))" "cs_nffree_update (\<lambda>n. n + k) = (\<lambda>a. csadd a (cs0\<lparr>cs_nffree := k\<rparr>))"
  "cs_nifree_update (\<lambda>n. n + k) = (\<lambda>a. csadd a (cs0\<lparr>cs_nifree := k\<rparr>))" "cs_ndir_update (\<lambda>n. n + k) = (\<lambda>a. csadd a (cs0\<lparr>cs_ndir := k\<rparr>))"
  "cs_nbfree_update (\<lambda>n. n - k) = (\<lambda>a. csadd a (cs0\<lparr>cs_nbfree := - k\<rparr>))" "cs_nffree_update (\<lambda>n. n - k) = (\<lambda>a. csadd a (cs0\<lparr>cs_nffree := - k\<rparr>))"
  "cs_nifree_update (\<lambda>n. n - k) = (\<lambda>a. csadd a (cs0\<lparr>cs_nifree := - k\<rparr>))" "cs_ndir_update (\<lambda>n. n - k) = (\<lambda>a. csadd a (cs0\<lparr>cs_ndir := - k\<rparr>))"
  by (auto simp: fun_eq_iff csadd_def cs0_def)

lemma addcs_step [simp]:
  "addcs (cs_nbfree_update (\<lambda>n. n + k)) c c (step c g d m s) = step c g (csadd d (cs0\<lparr>cs_nbfree := k\<rparr>)) m s"
  "addcs (cs_nffree_update (\<lambda>n. n + k)) c c (step c g d m s) = step c g (csadd d (cs0\<lparr>cs_nffree := k\<rparr>)) m s"
  "addcs (cs_nifree_update (\<lambda>n. n + k)) c c (step c g d m s) = step c g (csadd d (cs0\<lparr>cs_nifree := k\<rparr>)) m s"
  "addcs (cs_ndir_update (\<lambda>n. n + k)) c c (step c g d m s) = step c g (csadd d (cs0\<lparr>cs_ndir := k\<rparr>)) m s"
  "addcs (cs_nbfree_update (\<lambda>n. n - k)) c c (step c g d m s) = step c g (csadd d (cs0\<lparr>cs_nbfree := - k\<rparr>)) m s"
  "addcs (cs_nffree_update (\<lambda>n. n - k)) c c (step c g d m s) = step c g (csadd d (cs0\<lparr>cs_nffree := - k\<rparr>)) m s"
  "addcs (cs_nifree_update (\<lambda>n. n - k)) c c (step c g d m s) = step c g (csadd d (cs0\<lparr>cs_nifree := - k\<rparr>)) m s"
  "addcs (cs_ndir_update (\<lambda>n. n - k)) c c (step c g d m s) = step c g (csadd d (cs0\<lparr>cs_ndir := - k\<rparr>)) m s"
  by (simp_all only: cs_updates addcs_csadd)

lemma fmod_step [simp]: "fmod (step c g d m s) = step c g d (m + 1) s"
  by (simp add: fmod_def step_def)

lemma touch_step [simp]: "touch c (step c g d m s) = step c (g\<lparr>cg_time := tv_sec s\<rparr>) d m s"
  by (simp add: touch_def)

section \<open>The invariant\<close>

definition fset :: "ufs \<Rightarrow> nat \<Rightarrow> nat set" where "fset s c = fbits (cg_free (cgbuf s c))"

definition iset :: "ufs \<Rightarrow> nat \<Rightarrow> nat set" where "iset s c = fbits (cg_iused (cgbuf s c))"

text \<open>The blocks of group \<open>c\<close>: map, dimensions of the arrays, rotors, and the counts. The first
  fragment of the file system (the boot block) is never free.\<close>

definition map_ok :: "ufs \<Rightarrow> nat \<Rightarrow> cg \<Rightarrow> bool" where
  "map_ok s c g \<longleftrightarrow> cg_cgx g = c \<and> length (cg_free g) = howmany (fs_fpg s) 8 \<and> fbits (cg_free g) \<subseteq> {..<fs_fpg s}
     \<and> cg_rotor g < fs_fpg s \<and> cg_frotor g < fs_fpg s \<and> length (cg_btot g) = 32 \<and> length (cg_b g) = 32
     \<and> (\<forall>row\<in>set (cg_b g). length row = 8) \<and> (c = 0 \<longrightarrow> 0 \<notin> fbits (cg_free g))
     \<and> counts (fs_frag s) (nblk s) (fbits (cg_free g)) (cg_frsum g) (cs_nbfree (cg_cs g)) (cs_nffree (cg_cs g))"

text \<open>The inodes of group \<open>c\<close>; inode 0 is never free.\<close>

definition imap_ok :: "ufs \<Rightarrow> nat \<Rightarrow> cg \<Rightarrow> bool" where
  "imap_ok s c g \<longleftrightarrow> length (cg_iused g) = 256 \<and> cg_irotor g < fs_ipg s \<and> (c = 0 \<longrightarrow> 0 \<in> fbits (cg_iused g))
     \<and> cs_nifree (cg_cs g) = int (card ({..<fs_ipg s} - fbits (cg_iused g)))"

definition cstot_ok :: "ufs \<Rightarrow> bool" where
  "cstot_ok s \<longleftrightarrow> cs_ndir (fs_cstotal s) = (\<Sum>c<fs_ncg s. cs_ndir (fs_cs s c))
     \<and> cs_nbfree (fs_cstotal s) = (\<Sum>c<fs_ncg s. cs_nbfree (fs_cs s c))
     \<and> cs_nifree (fs_cstotal s) = (\<Sum>c<fs_ncg s. cs_nifree (fs_cs s c))
     \<and> cs_nffree (fs_cstotal s) = (\<Sum>c<fs_ncg s. cs_nffree (fs_cs s c))"

definition ufs_ok :: "ufs \<Rightarrow> bool" where
  "ufs_ok s \<longleftrightarrow> geom_ok s \<and> cstot_ok s
     \<and> (\<forall>c<fs_ncg s. map_ok s c (cgbuf s c) \<and> imap_ok s c (cgbuf s c) \<and> fs_cs s c = cg_cs (cgbuf s c))"

lemma sum_upd: "(c :: nat) < n \<Longrightarrow> (\<Sum>i<n. f (if i = c then x else h i)) = (\<Sum>i<n. f (h i)) + (f x - f (h c) :: int)"
proof -
  assume "c < n"
  then have "(\<Sum>i<n. f (if i = c then x else h i)) = f x + (\<Sum>i\<in>{..<n} - {c}. f (h i))"
    by (simp add: sum.remove [of "{..<n}" c])
  moreover have "(\<Sum>i<n. f (h i)) = f (h c) + (\<Sum>i\<in>{..<n} - {c}. f (h i))"
    using \<open>c < n\<close> by (simp add: sum.remove [of "{..<n}" c])
  ultimately show ?thesis by simp
qed

lemma cstot_step: "cstot_ok s \<Longrightarrow> c < fs_ncg s \<Longrightarrow> cstot_ok (step c g d m s)"
  by (simp add: cstot_ok_def sum_upd fun_upd_def)

lemma ufs_ok_step:
  assumes "ufs_ok s" "c < fs_ncg s"
    and "map_ok s c (g\<lparr>cg_cs := csadd (cg_cs (cgbuf s c)) d\<rparr>)" "imap_ok s c (g\<lparr>cg_cs := csadd (cg_cs (cgbuf s c)) d\<rparr>)"
  shows "ufs_ok (step c g d m s)"
  using assms cstot_step [of s c g d m] by (auto simp: ufs_ok_def map_ok_def imap_ok_def)

section \<open>Searching the map\<close>

lemma mapsearch_pos_spec:
  assumes a: "0 < a" "a \<le> 8" and m: "\<And>j. bit m j \<Longrightarrow> j < frag"
  shows "case mapsearch_pos frag a (push_bit 1 m) pos (push_bit pos (around ! a)) (push_bit pos (inside ! a)) of
      Some q \<Rightarrow> q + a \<le> frag \<and> is_run frag m a q
    | None \<Rightarrow> \<forall>q\<ge>pos. q + a \<le> frag \<longrightarrow> \<not> is_run frag m a q"
proof (induction "Suc frag - pos" arbitrary: pos rule: less_induct)
  case less
  let ?go = "mapsearch_pos frag a (push_bit 1 m) pos (push_bit pos (around ! a)) (push_bit pos (inside ! a))"
  show ?case
  proof (cases "pos + a \<le> frag")
    case True
    show ?thesis
    proof (cases "is_run frag m a pos")
      case r: True
      then have "?go = Some pos" using True pattern_is_run [OF a True m] by (subst mapsearch_pos.simps) simp
      then show ?thesis using True r by simp
    next
      case False
      have "?go = mapsearch_pos frag a (push_bit 1 m) (pos + 1) (push_bit (pos + 1) (around ! a)) (push_bit (pos + 1) (inside ! a))"
        using True False pattern_is_run [OF a True m] by (subst mapsearch_pos.simps) (simp add: push_bit_push_bit del: push_bit_Suc)
      moreover have "Suc frag - (pos + 1) < Suc frag - pos" using True by simp
      note IH = less.hyps [OF this]
      moreover have "q = pos \<or> pos + 1 \<le> q" if "pos \<le> q" for q using that by auto
      ultimately show ?thesis using False by (auto split: option.splits)
    qed
  next
    case False
    then have "?go = None" by (subst mapsearch_pos.simps) simp
    then show ?thesis using False by auto
  qed
qed

lemma search_block:
  assumes frag: "frag \<in> fs_frags" and a: "0 < a" "a \<le> frag" and h: "h * frag < 8 * length cp"
  shows "case mapsearch_pos frag a (push_bit 1 (blkmap frag cp (h * frag))) 0 (around ! a) (inside ! a) of
      Some q \<Rightarrow> frun (fbits cp) frag h a (h * frag + q)
    | None \<Rightarrow> \<not> (\<exists>q. frun (fbits cp) frag h a q)"
proof -
  have "a \<le> 8" using frag a by (auto simp: fs_frags_def)
  note sp = mapsearch_pos_spec [OF a(1) this, of "blkmap frag cp (h * frag)" frag 0, OF blkmap_bits [OF frag, of cp "h * frag"]]
  have n: "\<not> frun (fbits cp) frag h a q" if "\<And>p. p + a \<le> frag \<Longrightarrow> \<not> is_run frag (blkmap frag cp (h * frag)) a p" for q
  proof
    assume q: "frun (fbits cp) frag h a q"
    note d = frunD [OF q]
    have "is_run frag (blkmap frag cp (h * frag)) a (q - h * frag)"
      using is_run_frun [OF frag h, of "q - h * frag" a] d q a by auto
    then show False using that [of "q - h * frag"] d by auto
  qed
  show ?thesis using sp n is_run_frun [OF frag h _ a(1)] by (auto split: option.splits)
qed

lemma mapsearch_blk_sound:
  assumes frag: "frag \<in> fs_frags" and a: "0 < a" "a \<le> frag" and i: "i \<le> 8 * length cp"
  shows "mapsearch_blk frag a cp (k * frag) i = Inr r \<Longrightarrow> \<exists>h. frun (fbits cp) frag h a r \<and> h * frag < i"
proof (induction "i - k * frag" arbitrary: k rule: less_induct)
  case less
  have lt: "k * frag < i" "0 < frag" using less.prems by (subst (asm) mapsearch_blk.simps, simp split: if_splits)+
  have h: "k * frag < 8 * length cp" using lt i by simp
  note sb = search_block [OF frag a h]
  show ?case
  proof (cases "mapsearch_pos frag a (push_bit 1 (blkmap frag cp (k * frag))) 0 (around ! a) (inside ! a)")
    case None
    then have "mapsearch_blk frag a cp (Suc k * frag) i = Inr r"
      using less.prems lt by (subst (asm) mapsearch_blk.simps) (simp add: add.commute)
    moreover have "i - Suc k * frag < i - k * frag" using lt by simp
    ultimately show ?thesis using less.hyps by blast
  next
    case (Some q)
    then have "r = k * frag + q" using less.prems lt by (subst (asm) mapsearch_blk.simps) simp
    with sb Some lt show ?thesis by auto
  qed
qed

lemma mapsearch_blk_complete:
  assumes frag: "frag \<in> fs_frags" and a: "0 < a" "a \<le> frag" and i: "i \<le> 8 * length cp"
    and run: "frun (fbits cp) frag h a q" "h * frag < i"
  shows "k \<le> h \<Longrightarrow> \<exists>r. mapsearch_blk frag a cp (k * frag) i = Inr r"
proof (induction "i - k * frag" arbitrary: k rule: less_induct)
  case less
  have pos: "0 < frag" using a by simp
  have lt: "k * frag < i" using run(2) less.prems by (meson le_less_trans mult_le_mono1)
  have hk: "k * frag < 8 * length cp" using lt i by simp
  note sb = search_block [OF frag a hk]
  show ?case
  proof (cases "mapsearch_pos frag a (push_bit 1 (blkmap frag cp (k * frag))) 0 (around ! a) (inside ! a)")
    case None
    with sb run have "k \<noteq> h" by auto
    then have "Suc k \<le> h" using less.prems by simp
    moreover have "i - Suc k * frag < i - k * frag" using lt pos by simp
    ultimately show ?thesis using less.hyps [of "Suc k"] None lt pos
      by (subst mapsearch_blk.simps) (simp add: add.commute)
  next
    case (Some p)
    then show ?thesis using lt pos by (subst mapsearch_blk.simps) simp
  qed
qed

lemma scanc_spec:
  "scanc cp tbl msk \<le> length cp"
  "scanc cp tbl msk = 0 \<longleftrightarrow> (\<forall>j < length cp. (tbl ! unat (cp ! j)) AND msk = 0)"
  "scanc cp tbl msk \<noteq> 0 \<Longrightarrow> (tbl ! unat (cp ! (length cp - scanc cp tbl msk))) AND msk \<noteq> 0"
proof (induction cp)
  case (Cons c cp)
  { case 1 with Cons show ?case by simp
  next
    case 2 with Cons show ?case by (auto simp: nth_Cons split: nat.splits)
  next
    case 3
    have "length (c # cp) - scanc cp tbl msk = Suc (length cp - scanc cp tbl msk)" using Cons.IH(1) by (simp add: Suc_diff_le)
    with 3 Cons.IH(3) show ?case by (cases "(tbl ! unat c) AND msk = 0") simp_all }
qed simp_all

lemma byte_block_blkmap:
  assumes frag: "frag \<in> fs_frags" and h: "h * frag div 8 = j"
  shows "blkmap frag cp (h * frag) = take_bit frag (drop_bit (h * frag mod 8) (uint (cp ! j)))"
proof (rule bit_eqI)
  fix n
  have le: "frag \<le> 8" using frag by (auto simp: fs_frags_def)
  have m: "bit (drop_bit (8 - frag) (0xff :: 8 word)) n \<longleftrightarrow> n < frag" unfolding masks using le by (auto simp: bit_simps)
  show "bit (blkmap frag cp (h * frag)) n = bit (take_bit frag (drop_bit (h * frag mod 8) (uint (cp ! j)))) n"
    unfolding blkmap_def h bit_uint_iff bit_and_iff m using le by (auto simp: bit_simps dest: bit_imp_le_length)
qed

lemma byte_match:
  assumes frag: "frag \<in> fs_frags" and a: "1 \<le> a" "a \<le> frag" and j: "j < length cp"
  shows "(fragtbl frag ! unat (cp ! j)) AND push_bit (a - 1 + frag mod 8) 1 \<noteq> 0
    \<longleftrightarrow> (\<exists>h q. h * frag div 8 = j \<and> frun (fbits cp) frag h a q)"
proof -
  have u: "unat (cp ! j) < 256" using unsigned_less [where 'a = nat and w = "cp ! j"] by simp
  obtain e where e: "8 = e * frag" "8 div frag = e" using frag by (auto simp: fs_frags_def)
  have pos: "0 < frag" using a by simp
  have hk: "(j * e + k) * frag div 8 = j \<and> (j * e + k) * frag mod 8 = k * frag" if "k < e" for k
  proof -
    have "k * frag < 8" unfolding e(1) by (rule mult_less_mono1 [OF that pos])
    moreover have "(j * e + k) * frag = k * frag + j * 8" unfolding e(1) by (simp add: algebra_simps)
    ultimately show ?thesis by simp
  qed
  have hx: "\<exists>k<e. h = j * e + k" if "h * frag div 8 = j" for h
  proof (intro exI [of _ "h mod e"] conjI)
    have "h div e = h * frag div (e * frag)" using pos by (simp add: div_mult_mult2)
    then have "h div e = j" using that e(1) by simp
    then show "h = j * e + h mod e" by (metis div_mult_mod_eq)
    show "h mod e < e" using e(1) by (cases e) simp_all
  qed
  have bb: "set (byte_blocks frag (int (unat (cp ! j)))) = {blkmap frag cp (h * frag) |h. h * frag div 8 = j}"
  proof -
    have "take_bit frag (drop_bit (k * frag) (uint (cp ! j))) = blkmap frag cp ((j * e + k) * frag)" if "k < e" for k
      using byte_block_blkmap [OF frag, of "j * e + k" j cp] hk [OF that] by simp
    then have "set (byte_blocks frag (int (unat (cp ! j)))) = (\<lambda>k. blkmap frag cp ((j * e + k) * frag)) ` {..<e}"
      by (simp add: byte_blocks_def e(2) flip: uint_nat) (simp add: lessThan_atLeast0)
    also have "\<dots> = {blkmap frag cp (h * frag) |h. h * frag div 8 = j}"
    proof (intro equalityI subsetI)
      fix m assume "m \<in> (\<lambda>k. blkmap frag cp ((j * e + k) * frag)) ` {..<e}"
      then show "m \<in> {blkmap frag cp (h * frag) |h. h * frag div 8 = j}" using hk by blast
    next
      fix m assume "m \<in> {blkmap frag cp (h * frag) |h. h * frag div 8 = j}"
      then obtain h where h: "m = blkmap frag cp (h * frag)" "h * frag div 8 = j" by blast
      from hx [OF h(2)] obtain k where "k < e" "h = j * e + k" by blast
      with h(1) show "m \<in> (\<lambda>k. blkmap frag cp ((j * e + k) * frag)) ` {..<e}" by blast
    qed
    finally show ?thesis .
  qed
  have run: "(\<exists>p. p + a \<le> frag \<and> is_run frag (blkmap frag cp (h * frag)) a p) \<longleftrightarrow> (\<exists>q. frun (fbits cp) frag h a q)"
    if h: "h * frag div 8 = j" for h
  proof -
    have lt: "h * frag < 8 * length cp" using h j by (metis div_less_iff_less_mult mult.commute zero_less_numeral)
    show ?thesis
    proof (intro iffI; elim exE conjE)
      fix p assume "p + a \<le> frag" "is_run frag (blkmap frag cp (h * frag)) a p"
      then show "\<exists>q. frun (fbits cp) frag h a q" using is_run_frun [OF frag lt, of p a] a by auto
    next
      fix q assume q: "frun (fbits cp) frag h a q"
      then show "\<exists>p. p + a \<le> frag \<and> is_run frag (blkmap frag cp (h * frag)) a p"
        using is_run_frun [OF frag lt, of "q - h * frag" a] frunD(2,3) [OF q] a by (intro exI [of _ "q - h * frag"]) auto
    qed
  qed
  show ?thesis unfolding fragtbl_correct [OF frag a u] bb using run by blast
qed

text \<open>The byte found by the scan contains a run; the sift finds one.\<close>

lemma howmany_8: "howmany x 8 = (x + 7) div 8"
  by (simp add: howmany_def)

lemma scan_map_spec:
  assumes frag: "fs_frag s \<in> fs_frags" and a: "1 \<le> a" "a \<le> fs_frag s" and len: "start + len \<le> length cp"
  obtains loc where "scan_map s cp start len a = Inr loc" "loc \<le> len"
    "loc = 0 \<Longrightarrow> \<forall>h q. start \<le> h * fs_frag s div 8 \<and> h * fs_frag s div 8 < start + len \<longrightarrow> \<not> frun (fbits cp) (fs_frag s) h a q"
    "loc \<noteq> 0 \<Longrightarrow> \<exists>h q. h * fs_frag s div 8 = start + len - loc \<and> frun (fbits cp) (fs_frag s) h a q"
proof -
  let ?tbl = "fragtbl (fs_frag s)" and ?msk = "push_bit (a - 1 + fs_frag s mod 8) 1 :: int" and ?cp = "take len (drop start cp)"
  have l: "length ?cp = len" using len by simp
  have nth: "?cp ! j = cp ! (start + j)" "start + j < length cp" if "j < len" for j using that len by simp_all
  note m = byte_match [OF frag a]
  have z: "(?tbl ! unat (cp ! (start + j))) AND ?msk = 0" if "scanc ?cp ?tbl ?msk = 0" "j < len" for j
    using scanc_spec(2) [of ?cp ?tbl ?msk] that l nth(1) [OF that(2)] by auto
  show thesis
  proof (rule that [of "scanc ?cp ?tbl ?msk"])
    show "scan_map s cp start len a = Inr (scanc ?cp ?tbl ?msk)" using len by (simp add: scan_map_def)
    show "scanc ?cp ?tbl ?msk \<le> len" using scanc_spec(1) [of ?cp] l by metis
    assume 0: "scanc ?cp ?tbl ?msk = 0"
    show "\<forall>h q. start \<le> h * fs_frag s div 8 \<and> h * fs_frag s div 8 < start + len \<longrightarrow> \<not> frun (fbits cp) (fs_frag s) h a q"
    proof (intro allI impI)
      fix h q assume r: "start \<le> h * fs_frag s div 8 \<and> h * fs_frag s div 8 < start + len"
      then obtain j where j: "h * fs_frag s div 8 = start + j" "j < len" by (auto simp: le_iff_add)
      then show "\<not> frun (fbits cp) (fs_frag s) h a q" using z [OF 0 j(2)] m [OF nth(2) [OF j(2)]] by blast
    qed
  next
    assume n: "scanc ?cp ?tbl ?msk \<noteq> 0"
    let ?j = "len - scanc ?cp ?tbl ?msk"
    have j: "?j < len" using n scanc_spec(1) [of ?cp ?tbl ?msk] l by linarith
    have "(?tbl ! unat (cp ! (start + ?j))) AND ?msk \<noteq> 0" using scanc_spec(3) [OF n] nth(1) [OF j] l by simp
    then have "\<exists>h q. h * fs_frag s div 8 = start + ?j \<and> frun (fbits cp) (fs_frag s) h a q" using m [OF nth(2) [OF j]] by blast
    moreover have "start + ?j = start + len - scanc ?cp ?tbl ?msk" using scanc_spec(1) [of ?cp ?tbl ?msk] l by linarith
    ultimately show "\<exists>h q. h * fs_frag s div 8 = start + len - scanc ?cp ?tbl ?msk \<and> frun (fbits cp) (fs_frag s) h a q" by simp
  qed
qed

lemma sift_byte:
  assumes frag: "frag \<in> fs_frags" and a: "0 < a" "a \<le> frag" and j: "j < length cp"
    and run: "h * frag div 8 = j" "frun (fbits cp) frag h a q"
  shows "\<exists>r k. mapsearch_blk frag a cp (j * 8) (j * 8 + 8) = Inr r \<and> frun (fbits cp) frag k a r"
proof -
  obtain e where e: "8 = e * frag" using frag by (auto simp: fs_frags_def)
  then have j8: "j * 8 = (j * e) * frag" by simp
  have le: "j * 8 + 8 \<le> 8 * length cp" using j by simp
  have le8: "j * 8 \<le> h * frag" and lt8: "h * frag < j * 8 + 8" using run(1) by (metis div_times_less_eq_dividend mult.commute, metis div_less_iff_less_mult less_Suc_eq mult_Suc add.commute zero_less_numeral)
  have "j * e \<le> h" using le8 a unfolding j8 by simp
  then obtain r where r: "mapsearch_blk frag a cp (j * 8) (j * 8 + 8) = Inr r"
    using mapsearch_blk_complete [OF frag a le run(2) lt8, of "j * e"] j8 by auto
  then have "\<exists>k. frun (fbits cp) frag k a r" using mapsearch_blk_sound [OF frag a le, of "j * e" r] unfolding j8 by blast
  with r show ?thesis by blast
qed

lemma mapsearch_correct:
  assumes geom: "geom_ok s" and len: "length (cg_free (cgbuf s c)) = howmany (fs_fpg s) 8" and rotor: "cg_frotor (cgbuf s c) < fs_fpg s"
    and a: "1 \<le> a" "a \<le> fs_frag s" and run: "frun (fset s c) (fs_frag s) h a q" "h < nblk s"
  shows "\<exists>r h' b. mapsearch s c bpref a = Inr (r, updcg (cg_frotor_update (\<lambda>_. b)) c s)
    \<and> frun (fset s c) (fs_frag s) h' a r \<and> b < fs_fpg s"
proof -
  note g = geomD [OF geom]
  let ?cp = "cg_free (cgbuf s c)" and ?n = "howmany (fs_fpg s) 8"
  define start where "start = (if bpref \<noteq> 0 then dtogd s bpref div 8 else cg_frotor (cgbuf s c) div 8)"
  have byte: "x div 8 < ?n" if "x < fs_fpg s" for x unfolding howmany_8 using that by linarith
  have byte': "x * 8 < fs_fpg s" if "x < ?n" for x using that unfolding howmany_8 by linarith
  have start: "start < ?n" using byte rotor g(8) by (auto simp: start_def dtogd_def)
  have hb: "h * fs_frag s div 8 < ?n"
    using byte [of "h * fs_frag s"] g(2,9) run(2) by (metis mult_less_mono1)
  obtain loc where loc: "scan_map s ?cp start (?n - start) a = Inr loc" "loc \<le> ?n - start"
      "loc = 0 \<Longrightarrow> \<forall>h q. start \<le> h * fs_frag s div 8 \<and> h * fs_frag s div 8 < start + (?n - start) \<longrightarrow> \<not> frun (fset s c) (fs_frag s) h a q"
      "loc \<noteq> 0 \<Longrightarrow> \<exists>h q. h * fs_frag s div 8 = start + (?n - start) - loc \<and> frun (fset s c) (fs_frag s) h a q"
    using scan_map_spec [OF g(1) a, of start "?n - start" ?cp] start len unfolding fset_def by auto
  obtain loc' where loc': "scan_map s ?cp 0 (start + 1) a = Inr loc'" "loc' \<le> start + 1"
      "loc' = 0 \<Longrightarrow> \<forall>h q. h * fs_frag s div 8 < start + 1 \<longrightarrow> \<not> frun (fset s c) (fs_frag s) h a q"
      "loc' \<noteq> 0 \<Longrightarrow> \<exists>h q. h * fs_frag s div 8 = start + 1 - loc' \<and> frun (fset s c) (fs_frag s) h a q"
    using scan_map_spec [OF g(1) a, of 0 "start + 1" ?cp] start len unfolding fset_def by auto
  have found: "\<exists>r h' b. kbind (mapsearch_blk (fs_frag s) a ?cp (j * 8) (j * 8 + 8)) (\<lambda>r. Inr (r, updcg (cg_frotor_update (\<lambda>_. j * 8)) c s))
        = (Inr (r, updcg (cg_frotor_update (\<lambda>_. b)) c s) :: (nat \<times> ufs) kern)
      \<and> frun (fset s c) (fs_frag s) h' a r \<and> b < fs_fpg s"
    if jn: "j < ?n" and ex: "\<exists>h q. h * fs_frag s div 8 = j \<and> frun (fset s c) (fs_frag s) h a q" for j
  proof -
    obtain h q where hq: "h * fs_frag s div 8 = j" "frun (fbits ?cp) (fs_frag s) h a q" using ex unfolding fset_def by blast
    have j: "j < length ?cp" "0 < a" using jn len a by simp_all
    obtain r k where "mapsearch_blk (fs_frag s) a ?cp (j * 8) (j * 8 + 8) = Inr r" "frun (fbits ?cp) (fs_frag s) k a r"
      using sift_byte [OF g(1) j(2) a(2) j(1) hq] by blast
    then show ?thesis using byte' [OF jn] unfolding fset_def by auto
  qed
  show ?thesis
  proof (cases "loc = 0")
    case False
    then have "start + (?n - start) - loc < ?n" using start by linarith
    from found [OF this loc(4) [OF False]] show ?thesis
      unfolding mapsearch_def Let_def start_def [symmetric] loc(1) kbind_simps if_P [OF False] .
  next
    case True
    have ne: "loc' \<noteq> 0"
    proof
      assume 0: "loc' = 0"
      have "h * fs_frag s div 8 < start + 1 \<or> start \<le> h * fs_frag s div 8 \<and> h * fs_frag s div 8 < start + (?n - start)" using hb by linarith
      then show False using loc(3) [OF True] loc'(3) [OF 0] run(1) by blast
    qed
    have "start + 1 - loc' < ?n" using start ne by linarith
    from found [OF this loc'(4) [OF ne]] show ?thesis
      unfolding mapsearch_def Let_def start_def [symmetric] loc(1) loc'(1) kbind_simps by (simp only: True ne if_True if_False not_False_eq_True simp_thms add_0_left)
  qed
qed

end
