(* ===== verification/Ufs_blocks.thy ===== *)
theory Ufs_blocks
  imports Ufs_space
begin

unbundle bit_operations_syntax

text \<open>
  Allocating and freeing blocks and fragments in a cylinder group: what \<open>alloccgblk\<close>,
  \<open>alloccg\<close>, \<open>fragextend\<close> and \<open>free\<close> do to the set of free fragments, and that they keep
  \<open>ufs_ok\<close>.
\<close>

section \<open>Updates of the block part of a group\<close>

definition blk_upd :: "ufs \<Rightarrow> nat \<Rightarrow> cg \<Rightarrow> bool" where
  "blk_upd s c g \<longleftrightarrow> cg_cgx g = c \<and> length (cg_free g) = howmany (fs_fpg s) 8 \<and> cg_rotor g < fs_fpg s \<and> cg_frotor g < fs_fpg s
     \<and> length (cg_btot g) = 32 \<and> length (cg_b g) = 32 \<and> (\<forall>row\<in>set (cg_b g). length row = 8)
     \<and> cg_iused g = cg_iused (cgbuf s c) \<and> cg_irotor g = cg_irotor (cgbuf s c) \<and> cg_magic g = cg_magic (cgbuf s c)"

lemma blk_upd_simps [simp]:
  "blk_upd s c (g\<lparr>cg_frsum := fl\<rparr>) = blk_upd s c g" "blk_upd s c (g\<lparr>cg_time := t\<rparr>) = blk_upd s c g"
  "blk_upd s c (g\<lparr>cg_cs := x\<rparr>) = blk_upd s c g"
  "length cp = length (cg_free g) \<Longrightarrow> blk_upd s c (g\<lparr>cg_free := cp\<rparr>) = blk_upd s c g"
  "blk_upd s c g \<Longrightarrow> b < fs_fpg s \<Longrightarrow> blk_upd s c (g\<lparr>cg_frotor := b\<rparr>)"
  "blk_upd s c g \<Longrightarrow> b < fs_fpg s \<Longrightarrow> blk_upd s c (g\<lparr>cg_rotor := b\<rparr>)"
  by (simp_all add: blk_upd_def)

lemma ufs_okD:
  assumes "ufs_ok s" "c < fs_ncg s"
  shows "geom_ok s" "map_ok s c (cgbuf s c)" "imap_ok s c (cgbuf s c)" "fs_cs s c = cg_cs (cgbuf s c)" "blk_upd s c (cgbuf s c)"
    "length (cg_free (cgbuf s c)) = howmany (fs_fpg s) 8" "fset s c \<subseteq> {..<fs_fpg s}"
    "counts (fs_frag s) (nblk s) (fset s c) (cg_frsum (cgbuf s c)) (cs_nbfree (cg_cs (cgbuf s c))) (cs_nffree (cg_cs (cgbuf s c)))"
    "cg_cgx (cgbuf s c) = c" "cg_frotor (cgbuf s c) < fs_fpg s" "c = 0 \<Longrightarrow> 0 \<notin> fset s c"
  using assms by (simp_all add: ufs_ok_def map_ok_def blk_upd_def fset_def)

lemma ufs_ok_blocks:
  assumes ok: "ufs_ok s" "c < fs_ncg s" and g: "blk_upd s c g" and d: "cs_nifree d = 0"
    and F: "fbits (cg_free g) \<subseteq> {..<fs_fpg s}" "c = 0 \<Longrightarrow> 0 \<notin> fbits (cg_free g)"
    and cn: "counts (fs_frag s) (nblk s) (fbits (cg_free g)) (cg_frsum g)
      (cs_nbfree (cg_cs (cgbuf s c)) + cs_nbfree d) (cs_nffree (cg_cs (cgbuf s c)) + cs_nffree d)"
  shows "ufs_ok (step c g d m s)"
  using ufs_okD [OF ok] g d F cn by (intro ufs_ok_step ok) (simp_all add: map_ok_def imap_ok_def blk_upd_def)

lemma step_fset: "fset (step c g d m s) c' = (if c' = c then fbits (cg_free g) else fset s c')"
  by (simp add: fset_def)

lemma map_bits: "geom_ok s \<Longrightarrow> length cp = howmany (fs_fpg s) 8 \<Longrightarrow> b < fs_fpg s \<Longrightarrow> b < 8 * length cp"
  unfolding howmany_8 by linarith

lemma blk_range: "geom_ok s \<Longrightarrow> h < nblk s \<Longrightarrow> h * fs_frag s + fs_frag s \<le> fs_fpg s"
proof -
  assume a: "geom_ok s" "h < nblk s"
  then have "Suc h * fs_frag s \<le> nblk s * fs_frag s" by (intro mult_le_mono1) simp
  then show ?thesis using geomD(9) [OF a(1)] by simp
qed

lemma blk_full_run: "0 < frag \<Longrightarrow> blk frag h \<subseteq> F \<Longrightarrow> frun F frag h frag (h * frag)"
  by (auto simp: frun_def blk_def)

lemma run_block:
  assumes "geom_ok s" "F \<subseteq> {..<fs_fpg s}" "frun F (fs_frag s) h a q"
  shows "h < nblk s" "q + a \<le> fs_fpg s" "a = fs_frag s \<Longrightarrow> q = h * fs_frag s \<and> blk (fs_frag s) h \<subseteq> F"
proof -
  note d = frunD [OF assms(3)] and g = geomD [OF assms(1)]
  have "q < fs_fpg s" using d(1) d(4) [of q] assms(2) by auto
  then have "h * fs_frag s < nblk s * fs_frag s" using d(2) g(9) by simp
  then show h: "h < nblk s" by simp
  show "q + a \<le> fs_fpg s" using blk_range [OF assms(1) h] d(3) by simp
  show "a = fs_frag s \<Longrightarrow> q = h * fs_frag s \<and> blk (fs_frag s) h \<subseteq> F" using d(2,3,4) by (auto simp: blk_def)
qed

subsection \<open>The cylinder counts\<close>

lemma cyl_range:
  assumes "geom_ok s" "b < fs_fpg s"
  shows "cbtocylno s b < 32" "cbtorpos s b < 8"
proof -
  have g: "0 < fs_nspf s" "0 < fs_spc s" "0 < fs_nsect s" "fs_fpg s * fs_nspf s \<le> 32 * fs_spc s" using assms(1) by (simp_all add: geom_ok_def)
  have "b * fs_nspf s < fs_fpg s * fs_nspf s" using assms(2) g(1) by simp
  then have "b * fs_nspf s < 32 * fs_spc s" using g(4) by (rule less_le_trans)
  then show "cbtocylno s b < 32" by (simp add: cbtocylno_def less_mult_imp_div_less)
  have "b * fs_nspf s mod fs_nsect s * 8 < 8 * fs_nsect s" using g(3) by simp
  then show "cbtorpos s b < 8" unfolding cbtorpos_def NRPOS_def by (rule less_mult_imp_div_less)
qed

lemma cyl_count_step:
  assumes "geom_ok s" "b < fs_fpg s" "blk_upd s c g"
  shows "\<exists>g'. cyl_count c b e (step c g d m s) = Inr (step c g' d m s) \<and> blk_upd s c g'
    \<and> cg_free g' = cg_free g \<and> cg_frsum g' = cg_frsum g"
proof -
  let ?i = "cbtocylno s b" and ?r = "cbtorpos s b"
  have i: "?i < length (cg_b g)" "?i < length (cg_btot g)" "length (cg_b g ! ?i) = 8" "?r < 8"
    using cyl_range [OF assms(1,2)] assms(3) by (simp_all add: blk_upd_def)
  define g' where "g' = g\<lparr>cg_b := (cg_b g)[?i := (cg_b g ! ?i)[?r := cg_b g ! ?i ! ?r + e]], cg_btot := (cg_btot g)[?i := cg_btot g ! ?i + e]\<rparr>"
  have "cyl_count c b e (step c g d m s) = Inr (step c g' d m s)"
    using i by (simp add: cyl_count_def Let_def g'_def)
  moreover have "blk_upd s c g'" using assms(3) i set_update_subset_insert [of "cg_b g" ?i]
    unfolding blk_upd_def g'_def by fastforce
  ultimately show ?thesis by (auto simp: g'_def)
qed

subsection \<open>Ranges of bits\<close>

lemma fbits_setbits: "\<forall>b\<in>set bs. b < 8 * length cp \<Longrightarrow> fbits (setbits cp bs) = fbits cp \<union> set bs \<and> length (setbits cp bs) = length cp"
  by (induction bs arbitrary: cp) (simp_all add: setbits_def fbits_setbit)

lemma fbits_clrbits: "\<forall>b\<in>set bs. b < 8 * length cp \<Longrightarrow> fbits (clrbits cp bs) = fbits cp - set bs \<and> length (clrbits cp bs) = length cp"
  by (induction bs arbitrary: cp) (auto simp: clrbits_def fbits_clrbit)

lemma set_shift: "set (map ((+) b) [i..<j]) = {b + i..<b + j}"
  by (auto simp: image_iff le_iff_add)

section \<open>Whole blocks\<close>

definition took_block :: "ufs \<Rightarrow> nat \<Rightarrow> nat \<Rightarrow> ufs \<Rightarrow> bool" where
  "took_block s c r s' \<longleftrightarrow> (\<exists>g h. r = c * fs_fpg s + h * fs_frag s \<and> s' = step c g (cs0\<lparr>cs_nbfree := -1\<rparr>) (fs_fmod s + 1) s
     \<and> h < nblk s \<and> blk (fs_frag s) h \<subseteq> fset s c \<and> fbits (cg_free g) = fset s c - blk (fs_frag s) h
     \<and> cg_frsum g = cg_frsum (cgbuf s c) \<and> blk_upd s c g)"

lemma gotit_spec:
  assumes ok: "ufs_ok s" "c < fs_ncg s" and h: "h < nblk s" "blk (fs_frag s) h \<subseteq> fset s c"
    and g: "blk_upd s c g" "cg_free g = cg_free (cgbuf s c)" "cg_frsum g = cg_frsum (cgbuf s c)"
  shows "\<exists>r s'. gotit c (h * fs_frag s) (step c g cs0 (fs_fmod s) s) = Inr (r, s') \<and> took_block s c r s'"
proof -
  note D = ufs_okD [OF ok] and G = geomD [OF ufs_okD(1) [OF ok]]
  have lt: "h * fs_frag s < fs_fpg s" using blk_range [OF D(1) h(1)] G(2) by simp
  obtain cp' where cp: "clrblock (fs_frag s) (cg_free g) h = Inr cp'" "length cp' = length (cg_free g)" "fbits cp' = fset s c - blk (fs_frag s) h"
    using clrblock_fbits [OF G(1), of h "cg_free g"] map_bits [OF D(1,6) lt] g(2) unfolding fset_def by auto
  have "blk_upd s c (g\<lparr>cg_free := cp'\<rparr>)" using g(1) cp(2) by simp
  from cyl_count_step [OF D(1) lt this, of "-1" "cs0\<lparr>cs_nbfree := -1\<rparr>" "fs_fmod s"] obtain g' where
    g': "cyl_count c (h * fs_frag s) (-1) (step c (g\<lparr>cg_free := cp'\<rparr>) (cs0\<lparr>cs_nbfree := -1\<rparr>) (fs_fmod s) s)
          = Inr (step c g' (cs0\<lparr>cs_nbfree := -1\<rparr>) (fs_fmod s) s)" "blk_upd s c g'" "cg_free g' = cp'" "cg_frsum g' = cg_frsum g" by auto
  have x: "cg_cgx g = c" using g(1) by (simp add: blk_upd_def)
  have "gotit c (h * fs_frag s) (step c g cs0 (fs_fmod s) s)
      = Inr (c * fs_fpg s + h * fs_frag s, step c g' (cs0\<lparr>cs_nbfree := -1\<rparr>) (fs_fmod s + 1) s)"
    using cp(1) g'(1) x G(2) by (simp add: gotit_def Let_def frag_shifts [OF D(1)])
  then show ?thesis using h g' cp(3) g(3) unfolding took_block_def by fastforce
qed

lemma free_block_exists:
  assumes ok: "ufs_ok s" "c < fs_ncg s" and nz: "cs_nbfree (cg_cs (cgbuf s c)) \<noteq> 0"
  shows "\<exists>h<nblk s. blk (fs_frag s) h \<subseteq> fset s c"
proof -
  have "total (nblk s) (bfree (fset s c) (fs_frag s)) \<noteq> 0" using nz ufs_okD(8) [OF ok] by (simp add: counts_def)
  then obtain h where "h < nblk s" "0 < bfree (fset s c) (fs_frag s) h"
    using total_pos [of "nblk s" "bfree (fset s c) (fs_frag s)"] by auto
  then show ?thesis by (auto simp: bfree_def split: if_splits)
qed

lemma norot_spec:
  assumes ok: "ufs_ok s" "c < fs_ncg s" and nz: "cs_nbfree (cg_cs (cgbuf s c)) \<noteq> 0"
  shows "\<exists>r s'. norot c bpref s = Inr (r, s') \<and> took_block s c r s'"
proof -
  note D = ufs_okD [OF ok] and G = geomD [OF ufs_okD(1) [OF ok]]
  obtain h where h: "h < nblk s" "blk (fs_frag s) h \<subseteq> fset s c" using free_block_exists [OF assms] by blast
  have "1 \<le> fs_frag s" using G(2) by simp
  from mapsearch_correct [OF D(1,6,10) this order_refl blk_full_run [OF G(2) h(2)] h(1), of bpref]
  obtain r h' b where m: "mapsearch s c bpref (fs_frag s) = Inr (r, updcg (cg_frotor_update (\<lambda>_. b)) c s)"
    "frun (fset s c) (fs_frag s) h' (fs_frag s) r" "b < fs_fpg s" by blast
  note rb = run_block [OF D(1,7) m(2)]
  have r: "r = h' * fs_frag s" "blk (fs_frag s) h' \<subseteq> fset s c" using rb(3) by simp_all
  have lt: "r < fs_fpg s" using rb(2) G(2) by simp
  let ?g = "(cgbuf s c)\<lparr>cg_frotor := b, cg_rotor := r\<rparr>"
  have "blk_upd s c ?g" using D(5) m(3) lt by simp
  from gotit_spec [OF ok rb(1) r(2) this] show ?thesis
    by (simp add: norot_def m(1) updcg_start [of "cg_frotor_update (\<lambda>_. b)"] r(1))
qed

lemma rot_chain_sound:
  assumes "geom_ok s" shows "rot_chain s cp bno i = Inr r \<Longrightarrow> \<exists>h. r = h * fs_frag s \<and> blk (fs_frag s) h \<subseteq> fbits cp"
proof (induction "Suc MAXBPC - i" arbitrary: i rule: less_induct)
  case less
  note g = geomD [OF assms]
  have len: "(bno + i) * fs_frag s div 8 < length cp"
    using less.prems by (subst (asm) rot_chain.simps) (simp split: if_splits)
  then have lt: "(bno + i) * fs_frag s < 8 * length cp" by (metis div_less_iff_less_mult mult.commute zero_less_numeral)
  note b = isblock_fbits [OF g(1) lt]
  show ?case
  proof (cases "blk (fs_frag s) (bno + i) \<subseteq> fbits cp")
    case True
    then have "r = (bno + i) * fs_frag s" using less.prems b len by (subst (asm) rot_chain.simps) (simp add: frag_shifts [OF assms])
    with True show ?thesis by blast
  next
    case False
    have "rot_chain s cp bno i = kbind (aget (fs_rotbl s) i) (\<lambda>delta.
         if delta = 0 \<or> MAXBPC < i + delta then Inl (Panic ''alloccgblk: can't find blk in cyl'')
         else rot_chain s cp bno (i + delta))"
      using b len False by (subst rot_chain.simps) simp
    with less.prems obtain delta where "rot_chain s cp bno (i + delta) = Inr r" "0 < delta" "i + delta \<le> MAXBPC"
      by (auto simp: kbind_Inr_iff split: if_splits)
    then show ?thesis using less.hyps [of "i + delta"] by auto
  qed
qed

lemma pref_block:
  assumes "geom_ok s" "d = dtogd s (blknum s bpref)"
  obtains h where "d = h * fs_frag s" "h < nblk s" "fragstoblks s d = h"
proof -
  note g = geomD [OF assms(1)]
  have "fs_frag s dvd d" unfolding assms(2) dtogd_def blknum_div [OF assms(1)]
    using g(9) by (metis dvd_mod dvd_triv_right)
  moreover have "d < fs_fpg s" unfolding assms(2) dtogd_def using g(8) by simp
  ultimately obtain h where h: "d = h * fs_frag s" "h * fs_frag s < nblk s * fs_frag s" using g(9) by (metis dvd_def mult.commute)
  then show thesis using that [of h] frag_shifts(1) [OF assms(1), of d] g(2) by simp
qed

lemma alloccgblk_sound:
  assumes ok: "ufs_ok s" "c < fs_ncg s" and nz: "cs_nbfree (cg_cs (cgbuf s c)) \<noteq> 0" and r: "alloccgblk c bpref s = Inr (r, s')"
  shows "took_block s c r s'"
proof (cases "bpref = 0")
  case True
  then show ?thesis using r norot_spec [OF ok nz, of "cg_rotor (cgbuf s c)"] by (auto simp: alloccgblk_def)
next
  case False
  note D = ufs_okD [OF ok] and G = geomD [OF ufs_okD(1) [OF ok]]
  obtain h where h: "dtogd s (blknum s bpref) = h * fs_frag s" "h < nblk s" "fragstoblks s (h * fs_frag s) = h"
    using pref_block [OF D(1) refl, of bpref] by metis
  have got: "\<exists>r s'. gotit c (k * fs_frag s) s = Inr (r, s') \<and> took_block s c r s'" if "k < nblk s" "blk (fs_frag s) k \<subseteq> fset s c" for k
    using gotit_spec [OF ok that D(5) refl refl] by (simp add: step_start [symmetric])
  have lt: "h * fs_frag s < fs_fpg s" using blk_range [OF D(1) h(2)] G(2) by simp
  have ib: "isblock (fs_frag s) (cg_free (cgbuf s c)) h = Inr (blk (fs_frag s) h \<subseteq> fset s c)"
    using isblock_fbits [OF G(1) map_bits [OF D(1,6) lt]] by (simp add: fset_def)
  have chain: "took_block s c r s'" if "kbind (rot_chain s (cg_free (cgbuf s c)) b j) (\<lambda>bno. gotit c bno s) = Inr (r, s')" for b j
  proof -
    obtain bno where b: "rot_chain s (cg_free (cgbuf s c)) b j = Inr bno" "gotit c bno s = Inr (r, s')" using \<open>kbind _ _ = _\<close> by auto
    obtain k where k: "bno = k * fs_frag s" "blk (fs_frag s) k \<subseteq> fset s c" using rot_chain_sound [OF D(1) b(1)] by (auto simp: fset_def)
    have "k < nblk s" using run_block(1) [OF D(1,7) blk_full_run [OF G(2) k(2)]] .
    from got [OF this k(2)] b(2) k(1) show ?thesis by auto
  qed
  have nr: "norot c p s = Inr (r, s') \<Longrightarrow> took_block s c r s'" for p using norot_spec [OF ok nz, of p] by auto
  show ?thesis using r False unfolding alloccgblk_def Let_def h(1) h(3) ib kbind_simps
    using got [OF h(2)] nr chain by (auto simp: kbind_Inr_iff aget_Inr_iff split: if_splits option.splits)
qed

lemma alloccgblk_total:
  assumes ok: "ufs_ok s" "c < fs_ncg s" and nz: "cs_nbfree (cg_cs (cgbuf s c)) \<noteq> 0" and cpc: "fs_cpc s = 0"
  shows "\<exists>r s'. alloccgblk c bpref s = Inr (r, s')"
proof (cases "bpref = 0")
  case True
  then show ?thesis using norot_spec [OF ok nz, of "cg_rotor (cgbuf s c)"] by (auto simp: alloccgblk_def)
next
  case False
  note D = ufs_okD [OF ok] and G = geomD [OF ufs_okD(1) [OF ok]]
  obtain h where h: "dtogd s (blknum s bpref) = h * fs_frag s" "h < nblk s" "fragstoblks s (h * fs_frag s) = h"
    using pref_block [OF D(1) refl, of bpref] by metis
  have lt: "h * fs_frag s < fs_fpg s" using blk_range [OF D(1) h(2)] G(2) by simp
  have ib: "isblock (fs_frag s) (cg_free (cgbuf s c)) h = Inr (blk (fs_frag s) h \<subseteq> fset s c)"
    using isblock_fbits [OF G(1) map_bits [OF D(1,6) lt]] by (simp add: fset_def)
  have got: "\<exists>r s'. gotit c (h * fs_frag s) s = Inr (r, s')" if "blk (fs_frag s) h \<subseteq> fset s c"
    using gotit_spec [OF ok h(2) that D(5) refl refl] by (auto simp: step_start [symmetric])
  have "cbtocylno s (h * fs_frag s) < length (cg_btot (cgbuf s c))" using cyl_range(1) [OF D(1) lt] D(5) by (simp add: blk_upd_def)
  moreover have "\<exists>r s'. norot c p s = Inr (r, s')" for p using norot_spec [OF ok nz, of p] by blast
  ultimately show ?thesis using False got cpc by (simp add: alloccgblk_def Let_def h ib)
qed

section \<open>Fragments\<close>

text \<open>The configuration of the file system, which no operation changes.\<close>

definition same_geom :: "ufs \<Rightarrow> ufs \<Rightarrow> bool" where
  "same_geom s s' \<longleftrightarrow> fs_ncg s' = fs_ncg s \<and> fs_frag s' = fs_frag s \<and> fs_fpg s' = fs_fpg s \<and> fs_ipg s' = fs_ipg s
     \<and> fs_fsize s' = fs_fsize s \<and> fs_size s' = fs_size s \<and> fs_bsize s' = fs_bsize s \<and> fs_fshift s' = fs_fshift s \<and> fs_fmask s' = fs_fmask s \<and> fs_cpc s' = fs_cpc s \<and> (\<forall>c. cg_bad s' c = cg_bad s c)"

lemma same_geom_refl: "same_geom s s"
  by (simp add: same_geom_def)

lemma same_geom_trans: "same_geom s t \<Longrightarrow> same_geom t u \<Longrightarrow> same_geom s u"
  by (simp add: same_geom_def)

lemma same_geom_step: "cg_magic g = cg_magic (cgbuf s c) \<Longrightarrow> same_geom s (step c g d m s)"
  by (simp add: same_geom_def cg_bad_def)

text \<open>\<open>took s c k r s'\<close>: \<open>k\<close> fragments of one block of group \<open>c\<close>, free in \<open>s\<close>, are allocated in
  \<open>s'\<close>, nothing else changed hands, and \<open>r\<close> is the number of the first.\<close>

definition took :: "ufs \<Rightarrow> nat \<Rightarrow> nat \<Rightarrow> nat \<Rightarrow> ufs \<Rightarrow> bool" where
  "took s c k r s' \<longleftrightarrow> r \<noteq> 0 \<and> (\<exists>q h. r = c * fs_fpg s + q \<and> h < nblk s \<and> {q..<q + k} \<subseteq> fset s c \<inter> blk (fs_frag s) h
     \<and> fset s' c = fset s c - {q..<q + k} \<and> (\<forall>d. d \<noteq> c \<longrightarrow> fset s' d = fset s d)) \<and> iset s' = iset s \<and> ufs_ok s' \<and> same_geom s s'"

lemma step_step [simp]: "step c g d m (step c g' d' m' s) = step c g (csadd d' d) m s"
  by (simp add: step_def csadd_assoc)

lemma touch_as_step: "touch c s = step c ((cgbuf s c)\<lparr>cg_time := tv_sec s\<rparr>) cs0 (fs_fmod s) s"
  using touch_step [of c "cgbuf s c" cs0 "fs_fmod s" s] by (simp add: step_start [symmetric])

lemma ufs_ok_touch: "ufs_ok s \<Longrightarrow> c < fs_ncg s \<Longrightarrow> ufs_ok (touch c s)"
  unfolding touch_as_step using ufs_okD [of s c] by (intro ufs_ok_blocks) (auto simp: fset_def)

lemma touch_sel [simp]:
  "fset (touch c s) = fset s" "iset (touch c s) = iset s" "fs_frag (touch c s) = fs_frag s" "fs_fpg (touch c s) = fs_fpg s" "fs_ncg (touch c s) = fs_ncg s"
  "nblk (touch c s) = nblk s" "fs_bsize (touch c s) = fs_bsize s" "numfrags (touch c s) = numfrags s" "fs_cpc (touch c s) = fs_cpc s"
  "cg_frsum (cgbuf (touch c s) c) = cg_frsum (cgbuf s c)" "cg_cs (cgbuf (touch c s) c) = cg_cs (cgbuf s c)"
  "fs_fsize (touch c s) = fs_fsize s" "cg_iused (cgbuf (touch c s) c) = cg_iused (cgbuf s c)" "dtogd (touch c s) = dtogd s"
  "d \<noteq> c \<Longrightarrow> cgbuf (touch c s) d = cgbuf s d" "cg_free (cgbuf (touch c s) c) = cg_free (cgbuf s c)" "geom_ok (touch c s) = geom_ok s"
  by (auto simp: touch_as_step fset_def iset_def fun_eq_iff)

lemma same_geom_touch: "same_geom (touch c s) s' \<longleftrightarrow> same_geom s s'" "same_geom s (touch c s)"
proof -
  show *: "same_geom s (touch c s)" for s unfolding touch_as_step by (rule same_geom_step) simp
  show "same_geom (touch c s) s' \<longleftrightarrow> same_geom s s'" using * [of s] by (auto simp: same_geom_def)
qed

lemma took_touch: "took (touch c s) c k r s' \<Longrightarrow> took s c k r s'"
  by (auto simp: took_def same_geom_touch(1))

text \<open>Taking the first \<open>k\<close> fragments of a run of \<open>a\<close>.\<close>

lemma took_step:
  assumes ok: "ufs_ok s" "c < fs_ncg s" and run: "frun (fset s c) (fs_frag s) h a q" and k: "0 < k" "k \<le> a"
    and g: "blk_upd s c g" "fbits (cg_free g) = fset s c - {q..<q + k}" "cg_frsum g = take_frsum (fs_frag s) a k (cg_frsum (cgbuf s c))"
    and d: "cs_nbfree d = - (if a = fs_frag s then 1 else 0)" "cs_nffree d = (if a = fs_frag s then int (fs_frag s - k) else - int k)" "cs_nifree d = 0"
  shows "took s c k (c * fs_fpg s + q) (step c g d m s)"
proof -
  note D = ufs_okD [OF ok] and G = geomD [OF ufs_okD(1) [OF ok]] and rd = frunD [OF run]
  note rb = run_block [OF D(1,7) run]
  have sub: "{q..<q + k} \<subseteq> fset s c \<inter> blk (fs_frag s) h" using rd(2,3,4) k by (auto simp: blk_def)
  have ok': "ufs_ok (step c g d m s)"
    using counts_take [OF D(8) run rb(1) k G(3)] D(7,11) g d by (intro ufs_ok_blocks ok) auto
  have "c * fs_fpg s + q \<noteq> 0"
  proof
    assume "c * fs_fpg s + q = 0"
    then have "c = 0" "q = 0" using G(8) by auto
    then show False using D(11) rd(4) [of 0] rd(1) by auto
  qed
  moreover have "same_geom s (step c g d m s)" using g(1) by (intro same_geom_step) (simp add: blk_upd_def)
  ultimately show ?thesis unfolding took_def using sub rb(1) g ok' by (auto simp: step_fset blk_upd_def iset_def fun_eq_iff)
qed

lemma took_block_took: "took_block s c r s' \<Longrightarrow> ufs_ok s \<Longrightarrow> c < fs_ncg s \<Longrightarrow> took s c (fs_frag s) r s'"
proof -
  assume "took_block s c r s'" and ok: "ufs_ok s" "c < fs_ncg s"
  then obtain g h where t: "r = c * fs_fpg s + h * fs_frag s" "s' = step c g (cs0\<lparr>cs_nbfree := -1\<rparr>) (fs_fmod s + 1) s"
     "h < nblk s" "blk (fs_frag s) h \<subseteq> fset s c" "fbits (cg_free g) = fset s c - blk (fs_frag s) h"
     "cg_frsum g = cg_frsum (cgbuf s c)" "blk_upd s c g" by (auto simp: took_block_def)
  note G = geomD [OF ufs_okD(1) [OF ok]]
  show ?thesis unfolding t(1,2)
    by (rule took_step [OF ok blk_full_run [OF G(2) t(4)]]) (use t(5-7) G(2) in \<open>auto simp: take_frsum_def blk_def\<close>)
qed

lemma hack_block_sound:
  assumes ok: "ufs_ok s" "c < fs_ncg s" and nz: "cs_nbfree (cg_cs (cgbuf s c)) \<noteq> 0" and k: "0 < k" "k < fs_frag s"
    and r: "hack_block c bpref k s = Inr (r, s')"
  shows "took s c k r s'"
proof -
  note D = ufs_okD [OF ok] and G = geomD [OF ufs_okD(1) [OF ok]]
  obtain s1 where s1: "alloccgblk c bpref s = Inr (r, s1)" using r by (auto simp: hack_block_def Let_def split: prod.splits)
  obtain g h where t: "r = c * fs_fpg s + h * fs_frag s" "s1 = step c g (cs0\<lparr>cs_nbfree := -1\<rparr>) (fs_fmod s + 1) s"
     "h < nblk s" "blk (fs_frag s) h \<subseteq> fset s c" "fbits (cg_free g) = fset s c - blk (fs_frag s) h"
     "cg_frsum g = cg_frsum (cgbuf s c)" "blk_upd s c g" using alloccgblk_sound [OF ok nz s1] by (auto simp: took_block_def)
  let ?q = "h * fs_frag s" and ?fl = "addnth (cg_frsum g) (fs_frag s - k) 1"
  let ?cp = "setbits (cg_free g) (map ((+) ?q) [k..<fs_frag s])"
  have lt: "?q + fs_frag s \<le> fs_fpg s" by (rule blk_range [OF D(1) t(3)])
  have dq: "dtogd s r = ?q" using lt G(2) unfolding t(1) dtogd_def by simp
  have len: "length (cg_free g) = howmany (fs_fpg s) 8" using t(7) by (simp add: blk_upd_def)
  have "\<forall>b\<in>set (map ((+) ?q) [k..<fs_frag s]). b < 8 * length (cg_free g)"
    unfolding set_shift using map_bits [OF D(1) len] lt by auto
  note sb = fbits_setbits [OF this, unfolded set_shift]
  have F: "fbits ?cp = fset s c - {?q..<?q + k}"
    using sb t(4,5) k by (auto simp: blk_def)
  define g' where "g' = g\<lparr>cg_free := ?cp, cg_frsum := ?fl\<rparr>"
  have s': "s' = step c g' (csadd (cs0\<lparr>cs_nbfree := -1\<rparr>) (cs0\<lparr>cs_nffree := int (fs_frag s - k)\<rparr>)) (fs_fmod s + 1 + 1) s"
    using r s1 dq unfolding hack_block_def t(2) g'_def by (simp add: Let_def)
  show ?thesis unfolding s' t(1)
  proof (rule took_step [OF ok blk_full_run [OF G(2) t(4)] k(1) less_imp_le [OF k(2)]])
    show "blk_upd s c g'" using t(7) sb by (simp add: g'_def)
    show "fbits (cg_free g') = fset s c - {?q..<?q + k}" using F by (simp add: g'_def)
    show "cg_frsum g' = take_frsum (fs_frag s) (fs_frag s) k (cg_frsum (cgbuf s c))" using k t(6) by (simp add: g'_def take_frsum_def)
  qed simp_all
qed

lemma take_run_took:
  assumes ok: "ufs_ok s" "c < fs_ncg s" and run: "frun (fset s c) (fs_frag s) h a q" and k: "0 < k" "k \<le> a" "a < fs_frag s" and b: "b < fs_fpg s"
  shows "took s c k (c * fs_fpg s + q) (take_run c q a k (updcg (cg_frotor_update (\<lambda>_. b)) c s))"
proof -
  note D = ufs_okD [OF ok] and G = geomD [OF ufs_okD(1) [OF ok]]
  let ?cp = "clrbits (cg_free (cgbuf s c)) (map ((+) q) [0..<k])"
  have "\<forall>b\<in>set (map ((+) q) [0..<k]). b < 8 * length (cg_free (cgbuf s c))"
    unfolding set_shift using map_bits [OF D(1,6)] run_block(2) [OF D(1,7) run] k by auto
  note cb = fbits_clrbits [OF this, unfolded set_shift]
  define g where "g = (cgbuf s c)\<lparr>cg_frotor := b, cg_free := ?cp, cg_frsum := take_frsum (fs_frag s) a k (cg_frsum (cgbuf s c))\<rparr>"
  have "updcg (cg_frotor_update (\<lambda>_. b)) c s = step c ((cgbuf s c)\<lparr>cg_frotor := b\<rparr>) cs0 (fs_fmod s) s"
    by (simp add: updcg_start)
  then have "take_run c q a k (updcg (cg_frotor_update (\<lambda>_. b)) c s) = step c g (cs0\<lparr>cs_nffree := - int k\<rparr>) (fs_fmod s + 1) s"
    using k by (simp add: take_run_def g_def take_frsum_def)
  then show ?thesis using took_step [OF ok run k(1,2), of g] D(5) b cb k(3) by (simp add: g_def fset_def)
qed

section \<open>alloccg\<close>

lemma alloc_siz_spec:
  "k \<le> frag \<Longrightarrow> k \<le> alloc_siz fl frag k \<and> alloc_siz fl frag k \<le> frag
     \<and> (alloc_siz fl frag k < frag \<longrightarrow> fl ! alloc_siz fl frag k \<noteq> 0) \<and> (\<forall>z. k \<le> z \<and> z < alloc_siz fl frag k \<longrightarrow> fl ! z = 0)"
proof (induction fl frag k rule: alloc_siz.induct)
  case (1 fl frag k)
  show ?case
  proof (cases "k < frag \<and> fl ! k = 0")
    case True
    have eq: "alloc_siz fl frag k = alloc_siz fl frag (k + 1)" using True by (subst alloc_siz.simps) simp
    have "z = k \<or> k + 1 \<le> z" if "k \<le> z" for z using that by auto
    then show ?thesis using 1 True unfolding eq by fastforce
  next
    case False
    have "alloc_siz fl frag k = k" using False by (subst alloc_siz.simps) (simp only: if_False)
    then show ?thesis using 1 False by auto
  qed
qed

text \<open>A group has room for \<open>k\<close> fragments when one of its blocks has \<open>k\<close> in a row.\<close>

definition room :: "ufs \<Rightarrow> nat \<Rightarrow> nat \<Rightarrow> bool" where
  "room s c k \<longleftrightarrow> (\<exists>h<nblk s. \<exists>q. {q..<q + k} \<subseteq> fset s c \<inter> blk (fs_frag s) h)"

text \<open>Any stretch of free fragments lies in a maximal run.\<close>

lemma stretch_left:
  assumes "{q..<q + k} \<subseteq> F \<inter> blk frag h" "0 < k"
  shows "\<exists>p. p \<le> q \<and> {p..<q + k} \<subseteq> F \<inter> blk frag h \<and> (p = h * frag \<or> p - 1 \<notin> F)"
proof -
  let ?P = "\<lambda>p. p \<le> q \<and> {p..<q + k} \<subseteq> F \<inter> blk frag h"
  have "?P q" using assms(1) by simp
  define p where "p = (LEAST p. ?P p)"
  have P: "?P p" and min: "\<And>x. ?P x \<Longrightarrow> p \<le> x" unfolding p_def using LeastI [of ?P, OF \<open>?P q\<close>] Least_le [of ?P] by auto
  have "p = h * frag \<or> p - 1 \<notin> F"
  proof (rule ccontr)
    assume n: "\<not> (p = h * frag \<or> p - 1 \<notin> F)"
    have "p \<in> blk frag h" using P assms(2) by auto
    then have "p - 1 \<in> blk frag h" "0 < p" using n by (auto simp: blk_def)
    moreover have "{p - 1..<q + k} = insert (p - 1) {p..<q + k}" using \<open>0 < p\<close> P assms(2) by auto
    ultimately have "?P (p - 1)" using P n by auto
    with min \<open>0 < p\<close> show False by fastforce
  qed
  with P show ?thesis by blast
qed

lemma stretch_right:
  assumes "{p..<e} \<subseteq> F \<inter> blk frag h" "p < e"
  shows "\<exists>e'. e \<le> e' \<and> {p..<e'} \<subseteq> F \<inter> blk frag h \<and> (e' = h * frag + frag \<or> e' \<notin> F)"
  using assms
proof (induction "h * frag + frag - e" arbitrary: e rule: less_induct)
  case less
  show ?case
  proof (cases "e = h * frag + frag \<or> e \<notin> F")
    case False
    have "e - 1 \<in> blk frag h" using less.prems by auto
    then have "e < h * frag + frag" "h * frag \<le> e" using False less.prems by (auto simp: blk_def)
    moreover have "{p..<Suc e} = insert e {p..<e}" using less.prems by auto
    ultimately have "\<exists>e'. Suc e \<le> e' \<and> {p..<e'} \<subseteq> F \<inter> blk frag h \<and> (e' = h * frag + frag \<or> e' \<notin> F)"
      using False less.prems by (intro less.hyps) (auto simp: blk_def)
    then show ?thesis by (metis Suc_leD)
  qed (use less.prems in blast)
qed

lemma stretch_run:
  assumes "{q..<q + k} \<subseteq> F \<inter> blk frag h" "0 < k"
  shows "\<exists>a p. k \<le> a \<and> frun F frag h a p"
proof -
  obtain p where p: "p \<le> q" "{p..<q + k} \<subseteq> F \<inter> blk frag h" "p = h * frag \<or> p - 1 \<notin> F" using stretch_left [OF assms] by blast
  have "p < q + k" using p(1) assms(2) by simp
  from stretch_right [OF p(2) this] obtain e where e: "q + k \<le> e" "{p..<e} \<subseteq> F \<inter> blk frag h" "e = h * frag + frag \<or> e \<notin> F" by blast
  have "p \<in> blk frag h" "e - 1 \<in> blk frag h" using e(1,2) \<open>p < q + k\<close> by auto
  then have "frun F frag h (e - p) p" using p e \<open>p < q + k\<close> by (auto simp: frun_def blk_def)
  moreover have "k \<le> e - p" using p(1) e(1) by simp
  ultimately show ?thesis by blast
qed

lemma room_run:
  assumes ok: "ufs_ok s" "c < fs_ncg s" and k: "0 < k" "k \<le> fs_frag s"
  shows "room s c k \<longleftrightarrow> (\<exists>h a q. h < nblk s \<and> k \<le> a \<and> a \<le> fs_frag s \<and> frun (fset s c) (fs_frag s) h a q)"
proof
  assume "room s c k"
  then obtain h q where h: "h < nblk s" "{q..<q + k} \<subseteq> fset s c \<inter> blk (fs_frag s) h" by (auto simp: room_def)
  from stretch_run [OF h(2) k(1)] obtain a p where "k \<le> a" "frun (fset s c) (fs_frag s) h a p" by blast
  moreover from frunD(2,3) [OF this(2)] have "a \<le> fs_frag s" by simp
  ultimately show "\<exists>h a q. h < nblk s \<and> k \<le> a \<and> a \<le> fs_frag s \<and> frun (fset s c) (fs_frag s) h a q" using h(1) by blast
next
  assume "\<exists>h a q. h < nblk s \<and> k \<le> a \<and> a \<le> fs_frag s \<and> frun (fset s c) (fs_frag s) h a q"
  then obtain h a q where "h < nblk s" "k \<le> a" and r: "frun (fset s c) (fs_frag s) h a q" by blast
  moreover have "{q..<q + k} \<subseteq> fset s c \<inter> blk (fs_frag s) h" using frunD(2,3,4) [OF r] \<open>k \<le> a\<close> by (auto simp: blk_def)
  ultimately show "room s c k" unfolding room_def by blast
qed

text \<open>The counts decide whether there is room.\<close>

lemma counts_runs:
  assumes ok: "ufs_ok s" "c < fs_ncg s"
  shows "0 < a \<Longrightarrow> a < fs_frag s \<Longrightarrow> cg_frsum (cgbuf s c) ! a \<noteq> 0 \<longleftrightarrow> (\<exists>h<nblk s. \<exists>q. frun (fset s c) (fs_frag s) h a q)"
    "cs_nbfree (cg_cs (cgbuf s c)) \<noteq> 0 \<longleftrightarrow> (\<exists>h<nblk s. \<exists>q. frun (fset s c) (fs_frag s) h (fs_frag s) q)"
proof -
  note D = ufs_okD [OF ok] and G = geomD [OF ufs_okD(1) [OF ok]]
  have iff: "total (nblk s) g \<noteq> 0 \<longleftrightarrow> (\<exists>h<nblk s. 0 < g h)" if "\<And>h. 0 \<le> g h" for g :: "nat \<Rightarrow> int"
    using total_pos [of "nblk s" g] total_ge [of "nblk s" g] that by (metis leD)
  show "0 < a \<Longrightarrow> a < fs_frag s \<Longrightarrow> cg_frsum (cgbuf s c) ! a \<noteq> 0 \<longleftrightarrow> (\<exists>h<nblk s. \<exists>q. frun (fset s c) (fs_frag s) h a q)"
    using D(8) iff [of "\<lambda>h. nruns (fset s c) (fs_frag s) h a"] by (simp add: counts_def nruns_pos)
  have "0 < bfree (fset s c) (fs_frag s) h \<longleftrightarrow> (\<exists>q. frun (fset s c) (fs_frag s) h (fs_frag s) q)" for h
    using blk_full_run [OF G(2), of h "fset s c"] run_block(3) [OF D(1,7)] by (auto simp: bfree_def)
  then show "cs_nbfree (cg_cs (cgbuf s c)) \<noteq> 0 \<longleftrightarrow> (\<exists>h<nblk s. \<exists>q. frun (fset s c) (fs_frag s) h (fs_frag s) q)"
    using D(8) iff [of "bfree (fset s c) (fs_frag s)"] by (simp add: counts_def)
qed

text \<open>\<open>kept s s'\<close>: no fragment changed hands, only times and rotors may have.\<close>

definition kept :: "ufs \<Rightarrow> ufs \<Rightarrow> bool" where
  "kept s s' \<longleftrightarrow> ufs_ok s' \<and> fset s' = fset s \<and> iset s' = iset s \<and> same_geom s s'"

lemma kept_refl: "ufs_ok s \<Longrightarrow> kept s s"
  by (simp add: kept_def same_geom_refl)

lemma kept_touch: "ufs_ok s \<Longrightarrow> c < fs_ncg s \<Longrightarrow> kept s (touch c s)"
  by (auto simp: kept_def ufs_ok_touch same_geom_touch(2))

text \<open>The part of \<open>alloccg\<close> that works on fragments.\<close>

definition alloccg_frag :: "nat \<Rightarrow> nat \<Rightarrow> nat \<Rightarrow> ufs \<Rightarrow> (nat \<times> ufs) kern" where
  "alloccg_frag c bpref frags s =
     (let allocsiz = alloc_siz (cg_frsum (cgbuf s c)) (fs_frag s) frags in
      if allocsiz = fs_frag s then if cs_nbfree (cg_cs (cgbuf s c)) = 0 then Inr (0, s) else hack_block c bpref frags s
      else kbind (mapsearch s c bpref allocsiz) (\<lambda>(bno, s). Inr (c * fs_fpg s + bno, take_run c bno allocsiz frags s)))"

lemma alloccg_frag_spec:
  assumes ok: "ufs_ok s" "c < fs_ncg s" and k: "0 < k" "k < fs_frag s"
  shows "alloccg_frag c bpref k s = Inr (r, s') \<Longrightarrow> if room s c k then took s c k r s' else r = 0 \<and> s' = s"
    "fs_cpc s = 0 \<Longrightarrow> \<exists>r s'. alloccg_frag c bpref k s = Inr (r, s')"
proof -
  note D = ufs_okD [OF ok] and G = geomD [OF ufs_okD(1) [OF ok]]
  define a where "a = alloc_siz (cg_frsum (cgbuf s c)) (fs_frag s) k"
  have a: "k \<le> a" "a \<le> fs_frag s" "a < fs_frag s \<Longrightarrow> cg_frsum (cgbuf s c) ! a \<noteq> 0" "\<And>z. k \<le> z \<Longrightarrow> z < a \<Longrightarrow> cg_frsum (cgbuf s c) ! z = 0"
    using alloc_siz_spec [of k "fs_frag s" "cg_frsum (cgbuf s c)"] k by (auto simp: a_def)
  note R = room_run [OF ok k(1) less_imp_le [OF k(2)]]
  consider (none) "a = fs_frag s" "cs_nbfree (cg_cs (cgbuf s c)) = 0" | (hack) "a = fs_frag s" "cs_nbfree (cg_cs (cgbuf s c)) \<noteq> 0"
    | (run) "a < fs_frag s" using a(2) by linarith
  then have "(alloccg_frag c bpref k s = Inr (r, s') \<longrightarrow> (if room s c k then took s c k r s' else r = 0 \<and> s' = s))
    \<and> (fs_cpc s = 0 \<longrightarrow> (\<exists>r s'. alloccg_frag c bpref k s = Inr (r, s')))"
  proof cases
    case none
    have "\<not> room s c k"
    proof
      assume "room s c k"
      then obtain h z q where z: "h < nblk s" "k \<le> z" "z \<le> fs_frag s" "frun (fset s c) (fs_frag s) h z q" using R by blast
      show False
      proof (cases "z = fs_frag s")
        case True
        then show False using counts_runs(2) [OF ok] none(2) z by blast
      next
        case False
        then have "z < a" "0 < z" using z none(1) k by auto
        then show False using counts_runs(1) [OF ok, of z] a(4) [OF z(2)] z none(1) by auto
      qed
    qed
    moreover have "alloccg_frag c bpref k s = Inr (0, s)" using none by (simp add: alloccg_frag_def Let_def a_def)
    ultimately show ?thesis by auto
  next
    case hack
    have "room s c k" using R counts_runs(2) [OF ok] hack(2) k by (metis less_imp_le order_refl)
    moreover have "alloccg_frag c bpref k s = hack_block c bpref k s" using hack by (simp add: alloccg_frag_def Let_def a_def)
    moreover have "\<exists>r s'. hack_block c bpref k s = Inr (r, s')" if cpc: "fs_cpc s = 0"
      using alloccgblk_total [OF ok hack(2) cpc, of bpref] by (auto simp: hack_block_def Let_def)
    ultimately show ?thesis using hack_block_sound [OF ok hack(2) k] by simp
  next
    case run
    obtain h q where h: "h < nblk s" "frun (fset s c) (fs_frag s) h a q" using counts_runs(1) [OF ok, of a] a(1,3) run k by auto
    have "1 \<le> a" using a(1) k by simp
    from mapsearch_correct [OF D(1,6,10) this a(2) h(2,1), of bpref] obtain q' h' b where
      m: "mapsearch s c bpref a = Inr (q', updcg (cg_frotor_update (\<lambda>_. b)) c s)" "frun (fset s c) (fs_frag s) h' a q'" "b < fs_fpg s" by blast
    have "room s c k" using R h a(1,2) by blast
    moreover have "alloccg_frag c bpref k s = Inr (c * fs_fpg s + q', take_run c q' a k (updcg (cg_frotor_update (\<lambda>_. b)) c s))"
      using run m(1) by (simp add: alloccg_frag_def Let_def a_def updcg_def)
    ultimately show ?thesis using take_run_took [OF ok m(2) k(1) a(1) run m(3)] by auto
  qed
  then show "alloccg_frag c bpref k s = Inr (r, s') \<Longrightarrow> if room s c k then took s c k r s' else r = 0 \<and> s' = s"
    "fs_cpc s = 0 \<Longrightarrow> \<exists>r s'. alloccg_frag c bpref k s = Inr (r, s')" by blast+
qed

lemma room_touch [simp]: "room (touch c s) c' k = room s c' k"
  by (simp add: room_def)

lemma alloccg_spec:
  assumes ok: "ufs_ok s" "c < fs_ncg s" and k: "0 < k" "k \<le> fs_frag s"
  shows "alloccg c bpref (int (k * fs_fsize s)) s = Inr (r, s') \<Longrightarrow>
      if \<not> cg_bad s c \<and> room s c k then took s c k r s' else r = 0 \<and> kept s s'"
    "fs_cpc s = 0 \<Longrightarrow> \<exists>r s'. alloccg c bpref (int (k * fs_fsize s)) s = Inr (r, s')"
proof -
  note D = ufs_okD [OF ok] and G = geomD [OF ufs_okD(1) [OF ok]]
  let ?siz = "int (k * fs_fsize s)"
  have full: "?siz = int (fs_bsize s) \<longleftrightarrow> k = fs_frag s" using G(5,6) by simp
  have nf: "numfrags s ?siz = int k" unfolding numfrags_def G(5) by (simp add: drop_bit_eq_div)
  have okt: "ufs_ok (touch c s)" "c < fs_ncg (touch c s)" using ufs_ok_touch [OF ok] ok(2) by simp_all
  have nb: "cs_nbfree (cg_cs (cgbuf s c)) \<noteq> 0 \<longleftrightarrow> room s c (fs_frag s)"
    unfolding counts_runs(2) [OF ok] room_run [OF ok G(2) order_refl] by (auto dest: order_antisym)
  note keeps = kept_refl [OF ok(1)] kept_touch [OF ok]
  have "(alloccg c bpref ?siz s = Inr (r, s') \<longrightarrow> (if \<not> cg_bad s c \<and> room s c k then took s c k r s' else r = 0 \<and> kept s s'))
    \<and> (fs_cpc s = 0 \<longrightarrow> (\<exists>r s'. alloccg c bpref ?siz s = Inr (r, s')))"
  proof (cases "cg_bad s c \<or> k = fs_frag s \<and> \<not> room s c k")
    case True
    then have "alloccg c bpref ?siz s = Inr (0, s)" using nb full D(4) by (auto simp: alloccg_def)
    with True keeps(1) show ?thesis by auto
  next
    case False
    show ?thesis
    proof (cases "k = fs_frag s")
      case eq: True
      then have r: "room s c k" "cs_nbfree (cg_cs (cgbuf s c)) \<noteq> 0" "cs_nbfree (cg_cs (cgbuf (touch c s) c)) \<noteq> 0"
        using False nb by auto
      then have "alloccg c bpref ?siz s = alloccgblk c bpref (touch c s)"
        using False full eq D(4) by (simp add: alloccg_def Let_def)
      moreover have "alloccgblk c bpref (touch c s) = Inr (r, s') \<Longrightarrow> took s c k r s'"
        using took_touch [OF took_block_took [OF alloccgblk_sound [OF okt r(3)] okt]] eq by simp
      ultimately show ?thesis using False r(1) alloccgblk_total [OF okt r(3)] by auto
    next
      case ne: False
      then have k': "k < fs_frag s" "k < fs_frag (touch c s)" using k by simp_all
      have "alloccg c bpref ?siz s = alloccg_frag c bpref k (touch c s)"
        using False full ne nf by (simp add: alloccg_def alloccg_frag_def Let_def)
      moreover have "alloccg_frag c bpref k (touch c s) = Inr (r, s') \<Longrightarrow> if room s c k then took s c k r s' else r = 0 \<and> kept s s'"
        using alloccg_frag_spec(1) [OF okt k(1) k'(2), of bpref r s'] took_touch [of c s k r s'] keeps(2) by (simp split: if_splits)
      ultimately show ?thesis using False alloccg_frag_spec(2) [OF okt k(1) k'(2)] by auto
    qed
  qed
  then show "alloccg c bpref ?siz s = Inr (r, s') \<Longrightarrow> if \<not> cg_bad s c \<and> room s c k then took s c k r s' else r = 0 \<and> kept s s'"
    "fs_cpc s = 0 \<Longrightarrow> \<exists>r s'. alloccg c bpref ?siz s = Inr (r, s')" by blast+
qed

section \<open>fragextend\<close>

lemma csadd_none: "csadd d (cs0\<lparr>cs_nffree := 0\<rparr>) = d"
  by (cases d) (simp add: csadd_def cs0_def)

lemma csadd_twice: "csadd (csadd d (cs0\<lparr>cs_nffree := x\<rparr>)) (cs0\<lparr>cs_nffree := y\<rparr>) = csadd d (cs0\<lparr>cs_nffree := x + y\<rparr>)"
  by (simp add: csadd_def cs0_def)

lemma fold_extend_one:
  "fold (extend_one c) bs (step c g d m s)
     = step c (g\<lparr>cg_free := clrbits (cg_free g) bs\<rparr>) (csadd d (cs0\<lparr>cs_nffree := - int (length bs)\<rparr>)) m s"
proof (induction bs arbitrary: g d)
  case (Nil g d)
  show ?case by (simp add: clrbits_def csadd_none)
next
  case (Cons b bs g d)
  have "extend_one c b (step c g d m s) = step c (g\<lparr>cg_free := clrbit (cg_free g) b\<rparr>) (csadd d (cs0\<lparr>cs_nffree := -1\<rparr>)) m s"
    by (simp add: extend_one_def)
  then show ?case by (simp add: Cons.IH clrbits_def csadd_twice)
qed

lemma run_end_spec:
  "i \<le> lim \<Longrightarrow> i \<le> run_end cp b lim i \<and> run_end cp b lim i \<le> lim \<and> (\<forall>j. i \<le> j \<and> j < run_end cp b lim i \<longrightarrow> \<not> isclr cp (b + j))
     \<and> (run_end cp b lim i = lim \<or> isclr cp (b + run_end cp b lim i))"
proof (induction cp b lim i rule: run_end.induct)
  case (1 cp b lim i)
  show ?case
  proof (cases "i < lim \<and> \<not> isclr cp (b + i)")
    case True
    have eq: "run_end cp b lim i = run_end cp b lim (i + 1)" using True by (subst run_end.simps) simp
    have "j = i \<or> i + 1 \<le> j" if "i \<le> j" for j using that by auto
    then show ?thesis using 1 True unfolding eq by fastforce
  next
    case False
    have "run_end cp b lim i = i" using False by (subst run_end.simps) (simp only: if_False)
    then show ?thesis using 1 False by auto
  qed
qed

text \<open>The old fragment: \<open>n\<close> allocated fragments of one block of group \<open>c\<close>, starting at \<open>b\<close>.\<close>

definition old_frag :: "ufs \<Rightarrow> nat \<Rightarrow> nat \<Rightarrow> nat \<Rightarrow> bool" where
  "old_frag s c b n \<longleftrightarrow> 0 < n \<and> b < fs_fpg s \<and> b mod fs_frag s + n \<le> fs_frag s \<and> {b..<b + n} \<inter> fset s c = {}"

definition extendable :: "ufs \<Rightarrow> nat \<Rightarrow> nat \<Rightarrow> nat \<Rightarrow> nat \<Rightarrow> bool" where
  "extendable s c b n n' \<longleftrightarrow> b mod fs_frag s + n' \<le> fs_frag s \<and> {b + n..<b + n'} \<subseteq> fset s c"

lemma in_block:
  fixes b frag :: nat
  assumes "0 < frag"
  obtains h m where "b = h * frag + m" "m < frag" "b mod frag = m"
  using that [of "b div frag" "b mod frag"] assms by simp

lemma extendable_nffree:
  assumes ok: "ufs_ok s" "c < fs_ncg s" and old: "old_frag s c b n" and ext: "extendable s c b n n'" and n: "n < n'"
  shows "int (n' - n) \<le> cs_nffree (cg_cs (cgbuf s c))"
proof -
  note D = ufs_okD [OF ok] and G = geomD [OF ufs_okD(1) [OF ok]]
  obtain h m where b: "b = h * fs_frag s + m" "m < fs_frag s" "b mod fs_frag s = m" using in_block [OF G(2)] .
  have sub: "{b + n..<b + n'} \<subseteq> fset s c \<inter> blk (fs_frag s) h"
    using ext b by (auto simp: extendable_def blk_def)
  have "b \<in> blk (fs_frag s) h" "b \<notin> fset s c" using b old by (auto simp: blk_def old_frag_def disjoint_iff)
  then have "\<not> blk (fs_frag s) h \<subseteq> fset s c" by blast
  then have "int (n' - n) \<le> ffree (fset s c) (fs_frag s) h"
    using card_mono [OF _ sub] n by (simp add: ffree_def)
  also have "\<dots> \<le> total (nblk s) (ffree (fset s c) (fs_frag s))"
  proof (rule total_ge)
    have "h * fs_frag s < nblk s * fs_frag s" using b old G(9) unfolding old_frag_def by linarith
    then show "h < nblk s" by simp
  qed simp
  finally show ?thesis using D(8) by (simp add: counts_def)
qed

lemma across_block: "0 < n' \<Longrightarrow> n' \<le> frag \<Longrightarrow> b mod frag \<le> (b + n' - 1) mod frag \<longleftrightarrow> b mod frag + n' \<le> (frag :: nat)"
proof -
  assume n: "0 < n'" "n' \<le> frag"
  have eq: "(b + n' - 1) mod frag = (b mod frag + (n' - 1)) mod frag" using n by (metis Nat.add_diff_assoc mod_add_left_eq One_nat_def Suc_leI)
  have lt: "b mod frag < frag" using n by simp
  show ?thesis
  proof (cases "b mod frag + n' \<le> frag")
    case True
    then have "(b mod frag + (n' - 1)) mod frag = b mod frag + (n' - 1)" using n by simp
    with True eq show ?thesis by simp
  next
    case False
    then have "(b mod frag + (n' - 1)) mod frag = b mod frag + (n' - 1) - frag" using n lt by (simp add: le_mod_geq)
    with False eq n lt show ?thesis by linarith
  qed
qed

text \<open>The tail of \<open>fragextend\<close>, once the fragments are known to be free.\<close>

lemma extend_took:
  assumes ok: "ufs_ok s" "c < fs_ncg s" and old: "old_frag s c b n" and ext: "extendable s c b n n'" and n: "n < n'"
  defines "i \<equiv> run_end (cg_free (cgbuf s c)) b (fs_frag s - b mod fs_frag s) n'"
  shows "took s c (n' - n) (c * fs_fpg s + (b + n)) (fmod (fold (extend_one c) (map ((+) b) [n..<n'])
    (updcg (\<lambda>g. g\<lparr>cg_frsum := let fl = addnth (cg_frsum g) (i - n) (-1) in if i \<noteq> n' then addnth fl (i - n') 1 else fl\<rparr>) c s)))"
proof -
  note D = ufs_okD [OF ok] and G = geomD [OF ufs_okD(1) [OF ok]]
  let ?cp = "cg_free (cgbuf s c)"
  obtain h m where b: "b = h * fs_frag s + m" "m < fs_frag s" "b mod fs_frag s = m" using in_block [OF G(2)] .
  have hn: "h < nblk s"
  proof -
    have "h * fs_frag s < nblk s * fs_frag s" using b old G(9) unfolding old_frag_def by linarith
    then show ?thesis by simp
  qed
  have clr: "isclr ?cp x \<longleftrightarrow> x \<notin> fset s c" if "x < h * fs_frag s + fs_frag s" for x
    using isclr_iff [OF map_bits [OF D(1,6)], of x] blk_range [OF D(1) hn] that by (simp add: fset_def)
  have m: "0 < n" "m + n \<le> fs_frag s" "{b..<b + n} \<inter> fset s c = {}" using old b(3) by (simp_all add: old_frag_def)
  have e: "m + n' \<le> fs_frag s" "{b + n..<b + n'} \<subseteq> fset s c" using ext b(3) by (simp_all add: extendable_def)
  have "n' \<le> fs_frag s - m" using e(1) b(2) by simp
  from run_end_spec [OF this, of ?cp b] have i: "n' \<le> i" "i \<le> fs_frag s - m" "\<And>j. n' \<le> j \<Longrightarrow> j < i \<Longrightarrow> \<not> isclr ?cp (b + j)"
    "i = fs_frag s - m \<or> isclr ?cp (b + i)" unfolding i_def b(3) by blast+
  have "b + n - 1 \<in> {b..<b + n}" using m(1) by simp
  then have prev: "b + n - 1 \<notin> fset s c" using m(3) by blast
  have free: "x \<in> fset s c" if "b + n \<le> x" "x < b + i" for x
  proof (cases "x < b + n'")
    case False
    define j where "j = x - b"
    have j: "x = b + j" "n' \<le> j" "j < i" using False that by (simp_all add: j_def)
    have "x < h * fs_frag s + fs_frag s" using j(1,3) i(2) b(1,2) by linarith
    with i(3) [OF j(2,3)] clr [of x] j(1) show ?thesis by simp
  qed (use e(2) that in auto)
  have run: "frun (fset s c) (fs_frag s) h (i - n) (b + n)"
  proof (rule frunI)
    show "b + n + (i - n) \<notin> fset s c" if "b + n + (i - n) \<noteq> h * fs_frag s + fs_frag s"
      using that i clr [of "b + i"] b(1,2) n by (auto simp: add.assoc)
  qed (use b i n m(1) prev free in auto)
  have "\<forall>x\<in>set (map ((+) b) [n..<n']). x < 8 * length ?cp"
    unfolding set_shift using map_bits [OF D(1,6)] blk_range [OF D(1) hn] b(1) e(1) by auto
  note cb = fbits_clrbits [OF this, unfolded set_shift]
  define g where "g = (cgbuf s c)\<lparr>cg_frsum := take_frsum (fs_frag s) (i - n) (n' - n) (cg_frsum (cgbuf s c)), cg_free := clrbits ?cp (map ((+) b) [n..<n'])\<rparr>"
  have lt: "i - n < fs_frag s" using i(2) m(1) n i(1) G(2) by linarith
  have fl: "(let fl = addnth x (i - n) (-1) in if i \<noteq> n' then addnth fl (i - n') 1 else fl) = take_frsum (fs_frag s) (i - n) (n' - n) x" for x
    using lt i(1) n by (auto simp: take_frsum_def Let_def)
  have "fmod (fold (extend_one c) (map ((+) b) [n..<n'])
      (updcg (\<lambda>g. g\<lparr>cg_frsum := let fl = addnth (cg_frsum g) (i - n) (-1) in if i \<noteq> n' then addnth fl (i - n') 1 else fl\<rparr>) c s))
    = step c g (cs0\<lparr>cs_nffree := - int (n' - n)\<rparr>) (fs_fmod s + 1) s"
    unfolding fl by (simp add: updcg_start fold_extend_one g_def)
  moreover have "{b + n..<b + n + (n' - n)} = {b + n..<b + n'}" using n by simp
  ultimately show ?thesis
    using took_step [OF ok run, of "n' - n" g "cs0\<lparr>cs_nffree := - int (n' - n)\<rparr>" "fs_fmod s + 1"] n i(1) D(5) cb lt by (simp add: g_def fset_def)
qed

lemma fragextend_spec:
  assumes ok: "ufs_ok s" "c < fs_ncg s" and old: "old_frag s c b n" and n: "n < n'" "n' \<le> fs_frag s"
    and res: "fragextend c (c * fs_fpg s + b) (int (n * fs_fsize s)) (int (n' * fs_fsize s)) s = (r, s')"
  shows "if \<not> cg_bad s c \<and> extendable s c b n n'
    then r = c * fs_fpg s + b \<and> took s c (n' - n) (c * fs_fpg s + (b + n)) s' \<and> fset s' c = fset s c - {b + n..<b + n'}
    else r = 0 \<and> kept s s'"
proof -
  note D = ufs_okD [OF ok] and G = geomD [OF ufs_okD(1) [OF ok]]
  let ?bp = "c * fs_fpg s + b" and ?o = "int (n * fs_fsize s)" and ?n = "int (n' * fs_fsize s)"
  have "numfrags s (int k * 2 ^ fs_fshift s) = int k" for k by (simp add: numfrags_def drop_bit_eq_div)
  then have nf: "numfrags s (int (k * fs_fsize s)) = int k" for k using G(5) by simp
  have dif: "numfrags s (?n - ?o) = int (n' - n)"
    using nf [of "n' - n"] n by (simp add: of_nat_diff left_diff_distrib diff_mult_distrib)
  have b: "b < fs_fpg s" "dtogd s ?bp = b" using old by (simp_all add: old_frag_def dtogd_def)
  obtain w where w: "c * fs_fpg s = w * fs_frag s" using G(9) by (metis mult.assoc mult.commute)
  have fb: "fragnum s ?bp = b mod fs_frag s" unfolding fragnum_mod [OF D(1)] w by simp
  have "?bp + n' - 1 = (b + n' - 1) + w * fs_frag s" using n w by linarith
  then have fe: "fragnum s (?bp + n' - 1) = (b + n' - 1) mod fs_frag s" unfolding fragnum_mod [OF D(1)] by simp
  have ac: "fragnum s (?bp + n' - 1) < fragnum s ?bp \<longleftrightarrow> \<not> b mod fs_frag s + n' \<le> fs_frag s"
    unfolding fb fe using across_block [of n' "fs_frag s" b] n by linarith
  have clr: "isclr (cg_free (cgbuf s c)) (b + i) \<longleftrightarrow> b + i \<notin> fset s c" if "b mod fs_frag s + n' \<le> fs_frag s" "i < n'" for i
  proof -
    obtain h m where h: "b = h * fs_frag s + m" "b mod fs_frag s = m" using in_block [OF G(2)] .
    have "h * fs_frag s < nblk s * fs_frag s" using h b(1) G(9) by linarith
    then have "b + i < fs_fpg s" using blk_range [OF D(1), of h] h that by simp
    then show ?thesis using isclr_iff [OF map_bits [OF D(1,6)]] by (simp add: fset_def)
  qed
  have ex: "list_ex (\<lambda>i. isclr (cg_free (cgbuf s c)) (b + i)) [n..<n'] \<longleftrightarrow> \<not> {b + n..<b + n'} \<subseteq> fset s c"
    if "b mod fs_frag s + n' \<le> fs_frag s"
    unfolding set_shift [symmetric] set_map image_subset_iff list_ex_iff using clr [OF that] by auto
  show ?thesis
  proof (cases "\<not> cg_bad s c \<and> extendable s c b n n'")
    case True
    then have e: "b mod fs_frag s + n' \<le> fs_frag s" "{b + n..<b + n'} \<subseteq> fset s c" by (auto simp: extendable_def)
    have okt: "ufs_ok (touch c s)" "c < fs_ncg (touch c s)" using ufs_ok_touch [OF ok] ok(2) by simp_all
    have ot: "old_frag (touch c s) c b n" "extendable (touch c s) c b n n'" using old True by (simp_all add: old_frag_def extendable_def)
    have nff: "\<not> cs_nffree (fs_cs s c) < int (n' - n)" using extendable_nffree [OF ok old _ n(1)] True D(4) by simp
    have r: "r = ?bp" "took (touch c s) c (n' - n) (c * fs_fpg s + (b + n)) s'"
      using res extend_took [OF okt ot n(1)] True ex [OF e(1)] e ac nff
      unfolding fragextend_def Let_def touch_sel dif nf nat_int fb b(2) by auto
    from r(2) have t: "took s c (n' - n) (c * fs_fpg s + (b + n)) s'" by (rule took_touch)
    then have "fset s' c = fset s c - {b + n..<b + n'}" using n by (auto simp: took_def)
    with t r(1) True show ?thesis by simp
  next
    case False
    then have "r = 0 \<and> (s' = s \<or> s' = touch c s)"
      using res ex ac unfolding fragextend_def Let_def touch_sel dif nf nat_int fb b(2) extendable_def by (auto split: if_splits)
    then show ?thesis using False kept_refl [OF ok(1)] kept_touch [OF ok] by auto
  qed
qed

section \<open>free\<close>

text \<open>\<open>gave s c A s'\<close>: the fragments \<open>A\<close> of group \<open>c\<close> became free, nothing else changed hands.\<close>

definition gave :: "ufs \<Rightarrow> nat \<Rightarrow> nat set \<Rightarrow> ufs \<Rightarrow> bool" where
  "gave s c A s' \<longleftrightarrow> fset s' c = fset s c \<union> A \<and> (\<forall>d. d \<noteq> c \<longrightarrow> fset s' d = fset s d)
     \<and> iset s' = iset s \<and> ufs_ok s' \<and> same_geom s s'"

lemma gave_touch: "gave (touch c s) c A s' \<Longrightarrow> gave s c A s'"
  by (auto simp: gave_def same_geom_touch(1))

lemma free_frags_spec:
  "distinct bs \<Longrightarrow> \<forall>b\<in>set bs. b < 8 * length cp \<Longrightarrow>
    free_frags cp bs = (if set bs \<inter> fbits cp = {} then Inr (setbits cp bs) else Inl (Panic ''free: freeing free frag''))"
  by (induction bs arbitrary: cp) (auto simp: setbits_def isset_iff fbits_setbit)

lemma gave_step:
  assumes ok: "ufs_ok s" "c < fs_ncg s" and h: "h < nblk s" and A: "A \<subseteq> blk (fs_frag s) h" "A \<inter> fset s c = {}" "A \<noteq> {}" "c = 0 \<Longrightarrow> 0 \<notin> A"
    and g: "blk_upd s c g" "fbits (cg_free g) = fset s c \<union> A" "length (cg_frsum g) = 8"
      "\<And>z. 0 < z \<Longrightarrow> z < fs_frag s \<Longrightarrow> cg_frsum g ! z = cg_frsum (cgbuf s c) ! z - nruns (fset s c) (fs_frag s) h z + nruns (fset s c \<union> A) (fs_frag s) h z"
    and d: "cs_nbfree d = (if blk (fs_frag s) h \<subseteq> fset s c \<union> A then 1 else 0)"
      "cs_nffree d = int (card A) - (if blk (fs_frag s) h \<subseteq> fset s c \<union> A then int (fs_frag s) else 0)" "cs_nifree d = 0"
  shows "gave s c A (step c g d m s)"
proof -
  note D = ufs_okD [OF ok] and G = geomD [OF ufs_okD(1) [OF ok]]
  have "A \<subseteq> {..<fs_fpg s}" using A(1) blk_range [OF D(1) h] by (auto simp: blk_def)
  moreover have "counts (fs_frag s) (nblk s) (fbits (cg_free g)) (cg_frsum g)
      (cs_nbfree (cg_cs (cgbuf s c)) + cs_nbfree d) (cs_nffree (cg_cs (cgbuf s c)) + cs_nffree d)"
    using counts_put [OF D(8) h G(2) A(1-3) refl g(3,4)] unfolding g(2) d(1,2) add_diff_eq .
  ultimately have "ufs_ok (step c g d m s)"
    using D(7,11) A(4) g(1,2) d(3) by (intro ufs_ok_blocks ok) auto
  moreover have "same_geom s (step c g d m s)" using g(1) by (intro same_geom_step) (simp add: blk_upd_def)
  ultimately show ?thesis using g by (auto simp: gave_def step_fset blk_upd_def iset_def fun_eq_iff)
qed

lemma free_block_spec:
  assumes ok: "ufs_ok s" "c < fs_ncg s" and h: "h < nblk s" and nz: "c * fs_fpg s + h * fs_frag s \<noteq> 0"
  shows "blk (fs_frag s) h \<subseteq> fset s c \<Longrightarrow> free_block c (h * fs_frag s) s = Inl (Panic ''free: freeing free block'')"
    "blk (fs_frag s) h \<inter> fset s c = {} \<Longrightarrow> \<exists>s'. free_block c (h * fs_frag s) s = Inr s' \<and> gave s c (blk (fs_frag s) h) (fmod s')"
proof -
  note D = ufs_okD [OF ok] and G = geomD [OF ufs_okD(1) [OF ok]]
  let ?B = "blk (fs_frag s) h"
  have lt: "h * fs_frag s < fs_fpg s" using blk_range [OF D(1) h] G(2) by simp
  have fb: "fragstoblks s (h * fs_frag s) = h" using frag_shifts(1) [OF D(1)] G(2) by simp
  note lt8 = map_bits [OF D(1,6) lt]
  have ib: "isblock (fs_frag s) (cg_free (cgbuf s c)) h = Inr (?B \<subseteq> fset s c)" using isblock_fbits [OF G(1) lt8] by (simp add: fset_def)
  show "?B \<subseteq> fset s c \<Longrightarrow> free_block c (h * fs_frag s) s = Inl (Panic ''free: freeing free block'')"
    by (simp add: free_block_def Let_def fb ib)
  assume dis: "?B \<inter> fset s c = {}"
  have "h * fs_frag s \<in> ?B" using G(2) by (simp add: blk_def)
  then have ne: "?B \<noteq> {}" "\<not> ?B \<subseteq> fset s c" using dis by blast+
  obtain cp where cp: "setblock (fs_frag s) (cg_free (cgbuf s c)) h = Inr cp" "length cp = length (cg_free (cgbuf s c))" "fbits cp = fset s c \<union> ?B"
    using setblock_fbits [OF G(1) lt8] by (auto simp: fset_def)
  have "blk_upd s c ((cgbuf s c)\<lparr>cg_free := cp\<rparr>)" using D(5) cp(2) by simp
  from cyl_count_step [OF D(1) lt this, of 1 "cs0\<lparr>cs_nbfree := 1\<rparr>" "fs_fmod s"] obtain g' where
    g': "cyl_count c (h * fs_frag s) 1 (step c ((cgbuf s c)\<lparr>cg_free := cp\<rparr>) (cs0\<lparr>cs_nbfree := 1\<rparr>) (fs_fmod s) s)
          = Inr (step c g' (cs0\<lparr>cs_nbfree := 1\<rparr>) (fs_fmod s) s)" "blk_upd s c g'" "cg_free g' = cp" "cg_frsum g' = cg_frsum (cgbuf s c)" by auto
  have "free_block c (h * fs_frag s) s = Inr (step c g' (cs0\<lparr>cs_nbfree := 1\<rparr>) (fs_fmod s) s)"
    using ne g'(1) by (simp add: free_block_def Let_def fb ib cp(1) updcg_start)
  moreover have "gave s c ?B (step c g' (cs0\<lparr>cs_nbfree := 1\<rparr>) (fs_fmod s + 1) s)"
  proof (rule gave_step [OF ok h order_refl dis ne(1)])
    show "c = 0 \<Longrightarrow> 0 \<notin> ?B" using nz by (auto simp: blk_def)
    have full: "frun (fset s c \<union> ?B) (fs_frag s) h (fs_frag s) (h * fs_frag s)" by (rule blk_full_run [OF G(2)]) simp
    have "nruns (fset s c) (fs_frag s) h z = 0 \<and> nruns (fset s c \<union> ?B) (fs_frag s) h z = 0" if z: "0 < z" "z < fs_frag s" for z
    proof -
      have "\<not> frun (fset s c) (fs_frag s) h z q" for q
      proof
        assume "frun (fset s c) (fs_frag s) h z q"
        note e = frunD [OF this]
        have "q \<in> ?B \<inter> fset s c" using e(1,2,3) e(4) [of q] by (auto simp: blk_def)
        with dis show False by simp
      qed
      moreover have "\<not> frun (fset s c \<union> ?B) (fs_frag s) h z q" for q
        using frun_unique [OF _ full, of z q q] frunD(1,2,3) [of "fset s c \<union> ?B" "fs_frag s" h z q] z by auto
      ultimately show ?thesis by (simp add: nruns_def)
    qed
    then show "cg_frsum g' ! z = cg_frsum (cgbuf s c) ! z - nruns (fset s c) (fs_frag s) h z + nruns (fset s c \<union> ?B) (fs_frag s) h z"
      if "0 < z" "z < fs_frag s" for z using that g'(4) by simp
  qed (use g' cp(3) D(8) in \<open>simp_all add: counts_def\<close>)
  ultimately show "\<exists>s'. free_block c (h * fs_frag s) s = Inr s' \<and> gave s c ?B (fmod s')" by auto
qed

lemma fragacct_nruns:
  assumes geom: "geom_ok s" and cp: "length cp = howmany (fs_fpg s) 8" and h: "h < nblk s" and fl: "length fl = 8"
  shows "length (fragacct (fs_frag s) (blkmap (fs_frag s) cp (h * fs_frag s)) fl e) = 8"
    "0 < z \<Longrightarrow> z < fs_frag s \<Longrightarrow>
      fragacct (fs_frag s) (blkmap (fs_frag s) cp (h * fs_frag s)) fl e ! z = fl ! z + e * nruns (fbits cp) (fs_frag s) h z"
proof -
  note G = geomD [OF geom]
  have lt: "h * fs_frag s < 8 * length cp" using map_bits [OF geom cp] blk_range [OF geom h] G(2) by simp
  have r: "0 \<le> blkmap (fs_frag s) cp (h * fs_frag s)" "blkmap (fs_frag s) cp (h * fs_frag s) < 2 ^ fs_frag s"
    using blkmap_range [OF G(1)] by simp_all
  note f = fragacct_correct [OF G(1) r fl, of e]
  show "length (fragacct (fs_frag s) (blkmap (fs_frag s) cp (h * fs_frag s)) fl e) = 8" unfolding f by simp
  show "0 < z \<Longrightarrow> z < fs_frag s \<Longrightarrow>
      fragacct (fs_frag s) (blkmap (fs_frag s) cp (h * fs_frag s)) fl e ! z = fl ! z + e * nruns (fbits cp) (fs_frag s) h z"
    unfolding f using fruns_nruns [OF G(1) lt, of z] G(3) by simp
qed

lemma reassemble_spec:
  assumes ok: "ufs_ok s" "c < fs_ncg s" and h: "h < nblk s" and g: "blk_upd s c g"
  shows "\<exists>g' d'. reassemble c (h * fs_frag s) (step c g d m s) = Inr (step c g' d' m s) \<and> blk_upd s c g' \<and> cg_free g' = cg_free g \<and> cg_frsum g' = cg_frsum g
    \<and> d' = (if blk (fs_frag s) h \<subseteq> fbits (cg_free g)
        then csadd (csadd d (cs0\<lparr>cs_nffree := - int (fs_frag s)\<rparr>)) (cs0\<lparr>cs_nbfree := 1\<rparr>) else d)"
proof -
  note D = ufs_okD [OF ok] and G = geomD [OF ufs_okD(1) [OF ok]]
  have lt: "h * fs_frag s < fs_fpg s" using blk_range [OF D(1) h] G(2) by simp
  have len: "length (cg_free g) = howmany (fs_fpg s) 8" using g by (simp add: blk_upd_def)
  have fb: "fragstoblks s (h * fs_frag s) = h" using frag_shifts(1) [OF D(1)] G(2) by simp
  have ib: "isblock (fs_frag s) (cg_free g) h = Inr (blk (fs_frag s) h \<subseteq> fbits (cg_free g))"
    using isblock_fbits [OF G(1) map_bits [OF D(1) len lt]] .
  show ?thesis
  proof (cases "blk (fs_frag s) h \<subseteq> fbits (cg_free g)")
    case True
    then show ?thesis using cyl_count_step [OF D(1) lt g, of 1 "csadd (csadd d (cs0\<lparr>cs_nffree := - int (fs_frag s)\<rparr>)) (cs0\<lparr>cs_nbfree := 1\<rparr>)" m]
      by (auto simp: reassemble_def fb ib)
  next
    case False
    then show ?thesis by (intro exI [of _ g] exI [of _ d]) (simp add: reassemble_def fb ib g)
  qed
qed

lemma free_frag_spec:
  assumes ok: "ufs_ok s" "c < fs_ncg s" and k: "0 < k" "b mod fs_frag s + k \<le> fs_frag s" and b: "b < fs_fpg s" and nz: "c * fs_fpg s + b \<noteq> 0"
  shows "{b..<b + k} \<inter> fset s c \<noteq> {} \<Longrightarrow> free_frag c b k s = Inl (Panic ''free: freeing free frag'')"
    "{b..<b + k} \<inter> fset s c = {} \<Longrightarrow> \<exists>s'. free_frag c b k s = Inr s' \<and> gave s c {b..<b + k} (fmod s')"
proof -
  note D = ufs_okD [OF ok] and G = geomD [OF ufs_okD(1) [OF ok]]
  let ?cp = "cg_free (cgbuf s c)" and ?A = "{b..<b + k}"
  obtain h m where h: "b = h * fs_frag s + m" "m < fs_frag s" "b mod fs_frag s = m" using in_block [OF G(2)] .
  have hn: "h < nblk s"
  proof -
    have "h * fs_frag s < nblk s * fs_frag s" using h(1) b G(9) by linarith
    then show ?thesis by simp
  qed
  have A: "?A \<subseteq> blk (fs_frag s) h" using h k(2) by (auto simp: blk_def)
  have base: "b - fragnum s b = h * fs_frag s" using h(1,3) by (simp add: fragnum_mod [OF D(1)])
  have in8: "\<forall>x\<in>set (map ((+) b) [0..<k]). x < 8 * length ?cp"
    using map_bits [OF D(1,6)] blk_range [OF D(1) hn] h k(2) by (auto simp: set_shift)
  have dist: "distinct (map ((+) b) [0..<k])" by (simp add: distinct_map inj_on_def)
  have sA: "set (map ((+) b) [0..<k]) = ?A" unfolding set_shift by simp
  note ff = free_frags_spec [OF dist in8, unfolded sA, folded fset_def] and sb = fbits_setbits [OF in8, unfolded sA, folded fset_def]
  show "?A \<inter> fset s c \<noteq> {} \<Longrightarrow> free_frag c b k s = Inl (Panic ''free: freeing free frag'')" by (simp add: free_frag_def Let_def ff)
  assume dis: "?A \<inter> fset s c = {}"
  let ?cp' = "setbits ?cp (map ((+) b) [0..<k])"
  let ?fl1 = "fragacct (fs_frag s) (blkmap (fs_frag s) ?cp (h * fs_frag s)) (cg_frsum (cgbuf s c)) (-1)"
  let ?fl2 = "fragacct (fs_frag s) (blkmap (fs_frag s) ?cp' (h * fs_frag s)) ?fl1 1"
  define g where "g = (cgbuf s c)\<lparr>cg_free := ?cp', cg_frsum := ?fl2\<rparr>"
  have g: "blk_upd s c g" "cg_free g = ?cp'" "cg_frsum g = ?fl2" using D(5) sb by (simp_all add: g_def)
  obtain g' d' where r: "reassemble c (h * fs_frag s) (step c g (cs0\<lparr>cs_nffree := int k\<rparr>) (fs_fmod s) s) = Inr (step c g' d' (fs_fmod s) s)" "blk_upd s c g'"
    "cg_free g' = ?cp'" "cg_frsum g' = ?fl2" "d' = (if blk (fs_frag s) h \<subseteq> fbits ?cp'
        then csadd (csadd (cs0\<lparr>cs_nffree := int k\<rparr>) (cs0\<lparr>cs_nffree := - int (fs_frag s)\<rparr>)) (cs0\<lparr>cs_nbfree := 1\<rparr>) else cs0\<lparr>cs_nffree := int k\<rparr>)"
    using reassemble_spec [OF ok hn g(1), of "cs0\<lparr>cs_nffree := int k\<rparr>" "fs_fmod s"] g(2,3) by auto
  have "free_frag c b k s = Inr (step c g' d' (fs_fmod s) s)"
    using dis r(1) unfolding free_frag_def Let_def base by (simp add: ff updcg_start [where s = s] g_def)
  moreover have "gave s c ?A (step c g' d' (fs_fmod s + 1) s)"
  proof (rule gave_step [OF ok hn A dis])
    have l: "length (cg_frsum (cgbuf s c)) = 8" "length ?cp' = howmany (fs_fpg s) 8" using D(6,8) sb by (simp_all add: counts_def)
    note f1 = fragacct_nruns [OF D(1,6) hn l(1), where e = "-1"]
    note f2 = fragacct_nruns [OF D(1) l(2) hn f1(1), where e = 1]
    show "length (cg_frsum g') = 8" using f2(1) r(4) by simp
    show "cg_frsum g' ! z = cg_frsum (cgbuf s c) ! z - nruns (fset s c) (fs_frag s) h z + nruns (fset s c \<union> ?A) (fs_frag s) h z"
      if "0 < z" "z < fs_frag s" for z using f1(2) f2(2) that r(4) sb by (simp add: fset_def)
  qed (use k(1) nz r sb in \<open>auto simp: Int_commute\<close>)
  ultimately show "\<exists>s'. free_frag c b k s = Inr s' \<and> gave s c ?A (fmod s')" by auto
qed

lemma free_spec:
  assumes ok: "ufs_ok s" "c < fs_ncg s" and k: "0 < k" "b mod fs_frag s + k \<le> fs_frag s" and b: "b < fs_fpg s"
    and bno: "0 < c * fs_fpg s + b" "c * fs_fpg s + b < fs_size s" and good: "\<not> cg_bad s c"
  shows "{b..<b + k} \<inter> fset s c = {} \<Longrightarrow>
      \<exists>s'. free (int (c * fs_fpg s + b)) (int (k * fs_fsize s)) s = Inr s' \<and> gave s c {b..<b + k} s'"
    "k < fs_frag s \<Longrightarrow> {b..<b + k} \<inter> fset s c \<noteq> {} \<Longrightarrow>
      free (int (c * fs_fpg s + b)) (int (k * fs_fsize s)) s = Inl (Panic ''free: freeing free frag'')"
    "k = fs_frag s \<Longrightarrow> {b..<b + k} \<subseteq> fset s c \<Longrightarrow>
      free (int (c * fs_fpg s + b)) (int (k * fs_fsize s)) s = Inl (Panic ''free: freeing free block'')"
proof -
  note D = ufs_okD [OF ok] and G = geomD [OF ufs_okD(1) [OF ok]]
  let ?bno = "c * fs_fpg s + b" and ?siz = "int (k * fs_fsize s)" and ?A = "{b..<b + k}"
  have okt: "ufs_ok (touch c s)" "c < fs_ncg (touch c s)" using ufs_ok_touch [OF ok] ok(2) by simp_all
  define bn where "bn = ?bno"
  have dg: "dtog s bn = c" "dtogd s bn = b" using b G(8) by (simp_all add: dtog_def dtogd_def bn_def)
  have nb: "\<not> badblock s (int bn)" using bno(2) by (simp add: badblock_def bn_def [symmetric])
  have "k \<le> fs_frag s" using k(2) by simp
  then have sz: "\<not> bad_size s ?siz" "?siz = int (fs_bsize s) \<longleftrightarrow> k = fs_frag s" "nat (numfrags s ?siz) = k"
    unfolding bad_size_def fragoff_def numfrags_def G(5,6,7) by (simp_all add: take_bit_eq_mask [symmetric] take_bit_eq_mod drop_bit_eq_div not_less)
  have eq: "free (int bn) ?siz s = kbind (if k = fs_frag s then free_block c b (touch c s) else free_frag c b k (touch c s)) (\<lambda>s. Inr (fmod s))"
    unfolding free_def Let_def nat_int dg using sz nb good by (simp add: dg)
  note eq = eq [unfolded bn_def]
  have ft: "0 < k" "b mod fs_frag (touch c s) + k \<le> fs_frag (touch c s)" "b < fs_fpg (touch c s)" "c * fs_fpg (touch c s) + b \<noteq> 0" using k b bno by simp_all
  note ff = free_frag_spec [OF okt ft, unfolded touch_sel]
  have blk: "\<exists>h<nblk s. b = h * fs_frag s \<and> ?A = blk (fs_frag s) h" if "k = fs_frag s"
  proof -
    obtain h m where h: "b = h * fs_frag s + m" "m < fs_frag s" "b mod fs_frag s = m" using in_block [OF G(2)] .
    then have "b = h * fs_frag s" using that k(2) by simp
    moreover have "h * fs_frag s < nblk s * fs_frag s" using b G(9) \<open>b = h * fs_frag s\<close> by simp
    ultimately show ?thesis using that by (auto simp: blk_def)
  qed
  show "?A \<inter> fset s c = {} \<Longrightarrow> \<exists>s'. free (int ?bno) ?siz s = Inr s' \<and> gave s c ?A s'"
  proof (cases "k = fs_frag s")
    case True
    assume dis: "?A \<inter> fset s c = {}"
    obtain h where h: "h < nblk s" "b = h * fs_frag s" "?A = blk (fs_frag s) h" using blk [OF True] by blast
    have "h < nblk (touch c s)" "c * fs_fpg (touch c s) + h * fs_frag (touch c s) \<noteq> 0" using h bno by simp_all
    note fb = free_block_spec(2) [OF okt this, unfolded touch_sel]
    show ?thesis using fb gave_touch [of c s] dis eq True h by auto
  next
    case False
    assume "?A \<inter> fset s c = {}"
    then show ?thesis using ff(2) gave_touch [of c s] eq False by auto
  qed
  show "k < fs_frag s \<Longrightarrow> ?A \<inter> fset s c \<noteq> {} \<Longrightarrow> free (int ?bno) ?siz s = Inl (Panic ''free: freeing free frag'')"
    using ff(1) eq by simp
  show "free (int ?bno) ?siz s = Inl (Panic ''free: freeing free block'')" if full: "k = fs_frag s" and sub: "?A \<subseteq> fset s c"
  proof -
    obtain h where h: "h < nblk s" "b = h * fs_frag s" "?A = blk (fs_frag s) h" using blk [OF full] by blast
    have "h < nblk (touch c s)" "c * fs_fpg (touch c s) + h * fs_frag (touch c s) \<noteq> 0" using h bno by simp_all
    from free_block_spec(1) [OF okt this, unfolded touch_sel] show ?thesis using full sub eq h by simp
  qed
qed

end
