(* ===== verification/Ufs_inodes.thy ===== *)
theory Ufs_inodes
  imports Ufs_blocks
begin

unbundle bit_operations_syntax

text \<open>
  Inode allocation in a cylinder group: \<open>ialloccg\<close> hands out an inode that was free, finds one
  whenever the group has one, and \<open>ifree\<close> returns it; both keep the invariant \<open>ufs_ok\<close>.
\<close>

section \<open>Searching the inode map\<close>

lemma skpc_spec:
  "skpc m cp \<le> length cp" "skpc m cp = 0 \<longleftrightarrow> (\<forall>j < length cp. cp ! j = m)"
  "skpc m cp \<noteq> 0 \<Longrightarrow> cp ! (length cp - skpc m cp) \<noteq> m"
proof (induction cp)
  case (Cons c cp)
  { case 1 with Cons show ?case by simp
  next
    case 2 with Cons show ?case by (auto simp: nth_Cons split: nat.splits)
  next
    case 3
    have "length (c # cp) - skpc m cp = Suc (length cp - skpc m cp)" using Cons.IH(1) by (simp add: Suc_diff_le)
    with 3 Cons.IH(3) show ?case by (cases "c = m") simp_all }
qed simp_all

lemma clear_bit_spec: "\<exists>k\<in>set ks. \<not> bit m k \<Longrightarrow> set ks \<subseteq> {..<8} \<Longrightarrow> \<exists>k\<in>set ks. clear_bit m ks = Inr k \<and> \<not> bit m k"
proof (induction ks)
  case (Cons k ks)
  have "m AND push_bit k 1 = 0 \<longleftrightarrow> \<not> bit m k" using and_push_1 [of m k] Cons.prems(2) by auto
  then show ?case using Cons by auto
qed simp

lemma scan_iused_spec:
  assumes "start + len \<le> length cp"
  obtains loc where "scan_iused cp start len = Inr loc" "loc \<le> len"
    "loc = 0 \<Longrightarrow> \<forall>j. start \<le> j \<and> j < start + len \<longrightarrow> cp ! j = 0xff" "loc \<noteq> 0 \<Longrightarrow> cp ! (start + len - loc) \<noteq> 0xff"
proof -
  let ?cp = "take len (drop start cp)"
  have l: "length ?cp = len" using assms by simp
  have nth: "?cp ! j = cp ! (start + j)" if "j < len" for j using that assms by simp
  show thesis
  proof (rule that [of "skpc 0xff ?cp"])
    show "scan_iused cp start len = Inr (skpc 0xff ?cp)" using assms by (simp add: scan_iused_def)
    show "skpc 0xff ?cp \<le> len" using skpc_spec(1) [of "0xff" ?cp] l by simp
    assume 0: "skpc 0xff ?cp = 0"
    show "\<forall>j. start \<le> j \<and> j < start + len \<longrightarrow> cp ! j = 0xff"
    proof (intro allI impI)
      fix j assume j: "start \<le> j \<and> j < start + len"
      then have js: "j - start < len" "start + (j - start) = j" by auto
      have "?cp ! (j - start) = 0xff" using skpc_spec(2) [of "0xff" ?cp] 0 l js(1) by simp
      then show "cp ! j = 0xff" using nth [OF js(1)] js(2) by simp
    qed
  next
    assume n: "skpc 0xff ?cp \<noteq> 0"
    have le: "skpc 0xff ?cp \<le> len" using skpc_spec(1) [of "0xff" ?cp] l by simp
    then have "len - skpc 0xff ?cp < len" "start + (len - skpc 0xff ?cp) = start + len - skpc 0xff ?cp" using n by linarith+
    then show "cp ! (start + len - skpc 0xff ?cp) \<noteq> 0xff" using skpc_spec(3) [OF n] nth l by metis
  qed
qed

lemma byte_full: "(w :: 8 word) = 0xff \<longleftrightarrow> (\<forall>k<8. bit w k)"
  unfolding masks word8_eq_iff by (simp add: bit_simps)

lemma isearch_spec:
  assumes geom: "geom_ok s" and im: "imap_ok s c g" and fr: "i < fs_ipg s" "i \<notin> fbits (cg_iused g)"
  shows "\<exists>ino<fs_ipg s. isearch s g = Inr ino \<and> ino \<notin> fbits (cg_iused g)"
proof -
  note G = geomD [OF geom]
  let ?cp = "cg_iused g"
  obtain n where n: "fs_ipg s = 8 * n" using G(12) by (auto simp: dvd_def)
  have len: "length ?cp = 256" "n \<le> 256" "cg_irotor g < 8 * n" using im G(13) n by (auto simp: imap_ok_def)
  define start where "start = cg_irotor g div 8"
  have st: "start < n" using len(3) by (auto simp: start_def)
  have hm: "howmany (fs_ipg s - cg_irotor g) 8 = n - start"
    using len(3) unfolding howmany_8 n start_def by linarith
  have pick: "\<exists>ino<fs_ipg s. kbind (clear_bit (?cp ! j) [0..<8]) (\<lambda>k. Inr (j * 8 + k)) = Inr ino \<and> ino \<notin> fbits ?cp"
    if j: "j < n" "?cp ! j \<noteq> 0xff" for j
  proof -
    have "\<exists>k\<in>set [0..<8]. \<not> bit (?cp ! j) k" using j(2) unfolding byte_full by auto
    moreover have "set [0..<8] \<subseteq> {..<8 :: nat}" by auto
    ultimately obtain k where k0: "k \<in> set [0..<8]" and k: "clear_bit (?cp ! j) [0..<8] = Inr k" "\<not> bit (?cp ! j) k"
      using clear_bit_spec [of "[0..<8]" "?cp ! j"] by blast
    have k8: "k < 8" using k0 by simp
    have "j * 8 + k < fs_ipg s" using j(1) k8 n by linarith
    moreover have "j * 8 + k \<notin> fbits ?cp" using k k8 by (simp add: fbits_def)
    ultimately show ?thesis using k(1) by auto
  qed
  obtain loc where loc: "scan_iused ?cp start (n - start) = Inr loc" "loc \<le> n - start"
    "loc = 0 \<Longrightarrow> \<forall>j. start \<le> j \<and> j < start + (n - start) \<longrightarrow> ?cp ! j = 0xff" "loc \<noteq> 0 \<Longrightarrow> ?cp ! (start + (n - start) - loc) \<noteq> 0xff"
    using scan_iused_spec [of start "n - start" ?cp] st len by auto
  obtain loc' where loc': "scan_iused ?cp 0 (start + 1) = Inr loc'" "loc' \<le> start + 1"
    "loc' = 0 \<Longrightarrow> \<forall>j. j < start + 1 \<longrightarrow> ?cp ! j = 0xff" "loc' \<noteq> 0 \<Longrightarrow> ?cp ! (start + 1 - loc') \<noteq> 0xff"
    using scan_iused_spec [of 0 "start + 1" ?cp] st len by auto
  have bad: "?cp ! (i div 8) \<noteq> 0xff" "i div 8 < n" using fr n len mod_less_divisor [of 8 i] unfolding byte_full by (auto simp: fbits_def simp del: mod_less_divisor)
  show ?thesis
  proof (cases "loc = 0")
    case False
    have "start + (n - start) - loc < n" using False st by linarith
    from pick [OF this loc(4) [OF False]] show ?thesis
      unfolding isearch_def Let_def start_def [symmetric] hm loc(1) kbind_simps if_P [OF False] .
  next
    case True
    have ne: "loc' \<noteq> 0"
    proof
      assume 0: "loc' = 0"
      have "i div 8 < start + 1 \<or> start \<le> i div 8 \<and> i div 8 < start + (n - start)" using bad(2) by linarith
      then show False using loc(3) [OF True] loc'(3) [OF 0] bad(1) by blast
    qed
    have "start + 1 - loc' < n" using ne st by linarith
    from pick [OF this loc'(4) [OF ne]] show ?thesis
      unfolding isearch_def Let_def start_def [symmetric] hm loc(1) kbind_simps
      by (simp only: True ne loc'(1) kbind_simps if_True if_False not_False_eq_True simp_thms)
  qed
qed

section \<open>ialloccg and ifree\<close>

text \<open>\<open>iupd s c U s'\<close>: the used inodes of group \<open>c\<close> are now \<open>U\<close>; nothing else changed.\<close>

definition iupd :: "ufs \<Rightarrow> nat \<Rightarrow> nat set \<Rightarrow> ufs \<Rightarrow> bool" where
  "iupd s c U s' \<longleftrightarrow> iset s' c = U \<and> fset s' = fset s \<and> (\<forall>d. d \<noteq> c \<longrightarrow> iset s' d = iset s d) \<and> ufs_ok s'
     \<and> same_geom s s'"

lemma iupd_step:
  assumes ok: "ufs_ok s" "c < fs_ncg s"
    and g: "length (cg_iused g) = 256" "cg_irotor g < fs_ipg s" "c = 0 \<Longrightarrow> 0 \<in> fbits (cg_iused g)"
      "cg_free g = cg_free (cgbuf s c)" "cg_frsum g = cg_frsum (cgbuf s c)" "blk_upd s c (g\<lparr>cg_iused := cg_iused (cgbuf s c), cg_irotor := cg_irotor (cgbuf s c)\<rparr>)"
    and d: "cs_nbfree d = 0" "cs_nffree d = 0"
      "int (card ({..<fs_ipg s} - fbits (cg_iused g))) = int (card ({..<fs_ipg s} - iset s c)) + cs_nifree d"
  shows "iupd s c (fbits (cg_iused g)) (step c g d m s)"
proof -
  note D = ufs_okD [OF ok]
  have "ufs_ok (step c g d m s)"
    using D(2,3) g d by (intro ufs_ok_step ok) (auto simp: map_ok_def imap_ok_def blk_upd_def iset_def)
  moreover have "fset (step c g d m s) = fset s" using g(4) by (auto simp: fset_def fun_eq_iff)
  moreover have "same_geom s (step c g d m s)" using g(6) by (intro same_geom_step) (simp add: blk_upd_def)
  ultimately show ?thesis by (auto simp: iupd_def iset_def)
qed

lemma iupd_touch: "iupd (touch c s) c U s' \<Longrightarrow> iupd s c U s'"
  by (auto simp: iupd_def same_geom_touch(1))

lemma ipg_touch [simp]: "fs_ipg (touch c s) = fs_ipg s" "cg_irotor (cgbuf (touch c s) c) = cg_irotor (cgbuf s c)"
  by (auto simp: iset_def touch_as_step fun_eq_iff)

lemma card_upd:
  assumes "i < (n :: nat)"
  shows "i \<notin> U \<Longrightarrow> int (card ({..<n} - insert i U)) = int (card ({..<n} - U)) - 1"
    "i \<in> U \<Longrightarrow> int (card ({..<n} - (U - {i}))) = int (card ({..<n} - U)) + 1"
proof -
  assume "i \<notin> U"
  then have "{..<n} - U = insert i ({..<n} - insert i U)" using assms by auto
  then have "card ({..<n} - U) = Suc (card ({..<n} - insert i U))" by (metis DiffD2 card_insert_disjoint finite_Diff finite_lessThan insertI1)
  then show "int (card ({..<n} - insert i U)) = int (card ({..<n} - U)) - 1" by simp
next
  assume "i \<in> U"
  then have "{..<n} - (U - {i}) = insert i ({..<n} - U)" "i \<notin> {..<n} - U" using assms by auto
  then show "int (card ({..<n} - (U - {i}))) = int (card ({..<n} - U)) + 1" by simp
qed

lemma igotit_spec:
  assumes ok: "ufs_ok s" "c < fs_ncg s" and ino: "ino < fs_ipg s" "ino \<notin> iset s c" and g: "g = cgbuf s c \<or> g = (cgbuf s c)\<lparr>cg_irotor := ino\<rparr>"
  shows "\<exists>s'. igotit c ino mode (step c g cs0 (fs_fmod s) s) = (c * fs_ipg s + ino, s') \<and> iupd s c (insert ino (iset s c)) s' \<and> c * fs_ipg s + ino \<noteq> 0"
proof -
  note D = ufs_okD [OF ok] and G = geomD [OF ufs_okD(1) [OF ok]]
  have im: "length (cg_iused (cgbuf s c)) = 256" "cg_irotor (cgbuf s c) < fs_ipg s" "c = 0 \<Longrightarrow> 0 \<in> iset s c"
    using D(3) by (auto simp: imap_ok_def iset_def)
  define g' where "g' = g\<lparr>cg_iused := setbit (cg_iused g) ino\<rparr>"
  have ug: "cg_iused g = cg_iused (cgbuf s c)" "cg_irotor g < fs_ipg s" using g im(2) ino(1) by auto
  have fb: "fbits (cg_iused g') = insert ino (iset s c)" "length (cg_iused g') = 256"
    using fbits_setbit [of ino "cg_iused g"] im(1) ino(1) G(13) ug by (simp_all add: g'_def iset_def)
  have bu: "blk_upd s c (g'\<lparr>cg_iused := cg_iused (cgbuf s c), cg_irotor := cg_irotor (cgbuf s c)\<rparr>)"
    using D(5) g by (auto simp: blk_upd_def g'_def)
  have rest: "cg_free g' = cg_free (cgbuf s c)" "cg_frsum g' = cg_frsum (cgbuf s c)" "cg_irotor g' < fs_ipg s" using g ug by (auto simp: g'_def)
  have up: "iupd s c (insert ino (iset s c)) (step c g' d m s)" if "cs_nbfree d = 0" "cs_nffree d = 0" "cs_nifree d = -1" for d m
    using iupd_step [OF ok, of g' d m] fb bu rest im(3) that card_upd(1) [OF ino(1,2)] by simp
  have nz: "c * fs_ipg s + ino \<noteq> 0"
  proof
    assume "c * fs_ipg s + ino = 0"
    then have "c = 0" "ino = 0" using G(11) by auto
    then show False using im(3) ino(2) by simp
  qed
  show ?thesis
  proof (cases "mode AND IFMT = IFDIR")
    case True
    then show ?thesis using up nz by (simp add: igotit_def g'_def)
  next
    case False
    then show ?thesis using up nz by (simp add: igotit_def g'_def)
  qed
qed

lemma nifree_iff:
  assumes ok: "ufs_ok s" "c < fs_ncg s"
  shows "cs_nifree (cg_cs (cgbuf s c)) \<noteq> 0 \<longleftrightarrow> (\<exists>i<fs_ipg s. i \<notin> iset s c)"
  using ufs_okD(3) [OF ok] by (auto simp: imap_ok_def iset_def card_gt_0_iff)

lemma ialloccg_spec:
  assumes ok: "ufs_ok s" "c < fs_ncg s"
  shows "\<exists>r s'. ialloccg c ipref mode s = Inr (r, s') \<and>
    (if \<not> cg_bad s c \<and> (\<exists>i<fs_ipg s. i \<notin> iset s c)
     then \<exists>i<fs_ipg s. r = c * fs_ipg s + i \<and> r \<noteq> 0 \<and> i \<notin> iset s c \<and> iupd s c (insert i (iset s c)) s'
       \<and> (ipref \<noteq> 0 \<and> ipref mod fs_ipg s \<notin> iset s c \<longrightarrow> i = ipref mod fs_ipg s)
     else r = 0 \<and> kept s s')"
proof (cases "\<not> cg_bad s c \<and> (\<exists>i<fs_ipg s. i \<notin> iset s c)")
  case False
  then have "ialloccg c ipref mode s = Inr (0, s)" using nifree_iff [OF ok] by (auto simp: ialloccg_def)
  with False show ?thesis using kept_refl [OF ok(1)] by auto
next
  case True
  note D = ufs_okD [OF ok] and G = geomD [OF ufs_okD(1) [OF ok]]
  let ?t = "touch c s"
  have okt: "ufs_ok ?t" "c < fs_ncg ?t" using ufs_ok_touch [OF ok] ok(2) by simp_all
  note T = ufs_okD [OF okt]
  have nz: "cs_nifree (cg_cs (cgbuf s c)) \<noteq> 0" using True nifree_iff [OF ok] by simp
  let ?p = "ipref mod fs_ipg s"
  have p: "?p < fs_ipg s" using G(11) by simp
  have "?p < 2048" using p G(13) by (rule less_le_trans)
  then have "?p < 8 * length (cg_iused (cgbuf ?t c))" using T(3) by (simp add: imap_ok_def)
  then have clr: "isclr (cg_iused (cgbuf ?t c)) ?p \<longleftrightarrow> ?p \<notin> iset s c" using isclr_iff by (simp add: iset_def)
  note ig = igotit_spec [OF okt, unfolded touch_sel ipg_touch]
  show ?thesis
  proof (cases "ipref \<noteq> 0 \<and> ?p \<notin> iset s c")
    case pref: True
    have "ialloccg c ipref mode s = Inr (igotit c ?p mode ?t)"
      using True nz pref clr D(4) by (simp add: ialloccg_def Let_def)
    moreover obtain s' where "igotit c ?p mode ?t = (c * fs_ipg s + ?p, s')" "iupd s c (insert ?p (iset s c)) s'" "c * fs_ipg s + ?p \<noteq> 0"
      using ig [OF p conjunct2 [OF pref], of "cgbuf ?t c" mode] iupd_touch by (auto simp: step_start [symmetric])
    ultimately show ?thesis using True pref p by auto
  next
    case nopref: False
    from True obtain i where i: "i < fs_ipg ?t" "i \<notin> fbits (cg_iused (cgbuf ?t c))" by (auto simp: iset_def)
    from isearch_spec [OF T(1,3) i] obtain ino where ino: "ino < fs_ipg s" "isearch ?t (cgbuf ?t c) = Inr ino" "ino \<notin> iset s c"
      by (auto simp: iset_def)
    have "ialloccg c ipref mode s = Inr (igotit c ino mode (updcg (cg_irotor_update (\<lambda>_. ino)) c ?t))"
      using True nz nopref clr ino(2) D(4) by (auto simp: ialloccg_def Let_def)
    moreover obtain s' where "igotit c ino mode (updcg (cg_irotor_update (\<lambda>_. ino)) c ?t) = (c * fs_ipg s + ino, s')"
        "iupd s c (insert ino (iset s c)) s'" "c * fs_ipg s + ino \<noteq> 0"
      using ig [OF ino(1,3), of "(cgbuf ?t c)\<lparr>cg_irotor := ino\<rparr>" mode] iupd_touch by (auto simp: updcg_start [where s = "touch c s"])
    ultimately show ?thesis using True nopref ino by auto
  qed
qed

lemma ifree_spec:
  assumes ok: "ufs_ok s" "c < fs_ncg s" and i: "i < fs_ipg s" and good: "\<not> cg_bad s c" and nz: "c * fs_ipg s + i \<noteq> 0"
  shows "i \<in> iset s c \<Longrightarrow> \<exists>s'. ifree (c * fs_ipg s + i) mode s = Inr s' \<and> iupd s c (iset s c - {i}) s'"
    "i \<notin> iset s c \<Longrightarrow> ifree (c * fs_ipg s + i) mode s = Inl (Panic ''ifree: freeing free inode'')"
proof -
  note D = ufs_okD [OF ok] and G = geomD [OF ufs_okD(1) [OF ok]]
  let ?t = "touch c s" and ?ino = "c * fs_ipg s + i"
  have okt: "ufs_ok ?t" "c < fs_ncg ?t" using ufs_ok_touch [OF ok] ok(2) by simp_all
  note T = ufs_okD [OF okt]
  have rng: "\<not> fs_ipg s * fs_ncg s \<le> ?ino"
  proof -
    have "Suc c * fs_ipg s \<le> fs_ncg s * fs_ipg s" using ok(2) by (intro mult_le_mono1) simp
    then show ?thesis using i by (simp add: mult.commute)
  qed
  have cg: "itog s ?ino = c" "?ino mod fs_ipg s = i" using i by (simp_all add: itog_def)
  have len: "i < 8 * length (cg_iused (cgbuf ?t c))" using i G(13) T(3) by (simp add: imap_ok_def)
  have clr: "isclr (cg_iused (cgbuf ?t c)) i \<longleftrightarrow> i \<notin> iset s c" using isclr_iff [OF len] by (simp add: iset_def)
  show "i \<notin> iset s c \<Longrightarrow> ifree ?ino mode s = Inl (Panic ''ifree: freeing free inode'')"
    using rng cg good clr by (simp add: ifree_def Let_def)
  assume used: "i \<in> iset s c"
  let ?g0 = "cgbuf ?t c"
  define g where "g = ?g0\<lparr>cg_iused := clrbit (cg_iused ?g0) i, cg_irotor := if i < cg_irotor ?g0 then i else cg_irotor ?g0\<rparr>"
  have im: "length (cg_iused ?g0) = 256" "cg_irotor ?g0 < fs_ipg s" "c = 0 \<Longrightarrow> 0 \<in> iset s c"
    using T(3) by (auto simp: imap_ok_def iset_def)
  have fb: "fbits (cg_iused g) = iset s c - {i}" using fbits_clrbit [OF len] by (simp add: g_def iset_def)
  have up: "iupd ?t c (iset s c - {i}) (step c g d m ?t)" if "cs_nbfree d = 0" "cs_nffree d = 0" "cs_nifree d = 1" for d m
  proof -
    have z: "c = 0 \<Longrightarrow> 0 \<in> fbits (cg_iused g)" using im(3) nz unfolding fb by auto
    have b: "blk_upd ?t c (g\<lparr>cg_iused := cg_iused ?g0, cg_irotor := cg_irotor ?g0\<rparr>)" using T(5) by (simp add: g_def blk_upd_def)
    have l: "length (cg_iused g) = 256" "cg_irotor g < fs_ipg ?t" "cg_free g = cg_free ?g0" "cg_frsum g = cg_frsum ?g0"
      using im i by (simp_all add: g_def)
    show ?thesis using iupd_step [OF okt l(1,2) z l(3,4) b that(1,2), of m] that(3) card_upd(2) [OF i used] unfolding fb by simp
  qed
  have "\<exists>d m. ifree ?ino mode s = Inr (step c g d m ?t) \<and> cs_nbfree d = 0 \<and> cs_nffree d = 0 \<and> cs_nifree d = 1"
    using rng cg good clr used
    by (cases "mode AND IFMT = IFDIR") (auto simp: ifree_def Let_def updcg_start [where s = "touch c s"] g_def)
  then show "\<exists>s'. ifree ?ino mode s = Inr s' \<and> iupd s c (iset s c - {i}) s'" using up iupd_touch by blast
qed

end
