(* ===== verification/Ufs_policy.thy ===== *)
theory Ufs_policy
  imports Ufs_inodes
begin

unbundle bit_operations_syntax

text \<open>
  The allocation policies of \<^verbatim>\<open>sys/ufs/ufs_alloc.c\<close>: \<open>hashalloc\<close>, which asks the cylinder
  groups one after the other, \<open>alloc\<close>, \<open>realloccg\<close> and \<open>ialloc\<close>, which call it, and the
  placement preferences \<open>dirpref\<close> and \<open>blkpref\<close>. The contract between \<open>hashalloc\<close> and the
  allocator it is passed is the locale \<open>cg_allocator\<close>.

  The calls that leave this file are parameters: the uid of the caller, the result of the
  quota check (\<^verbatim>\<open>chkdq\<close>, \<^verbatim>\<open>chkiq\<close>), whether the old fragment can be read, and the inode \<^verbatim>\<open>iget\<close>
  brings in. Buffers are named by their block number.
\<close>

section \<open>hashalloc\<close>

type_synonym allocator = "nat \<Rightarrow> nat \<Rightarrow> ufs \<Rightarrow> (nat \<times> ufs) kern"

text \<open>The quadratic rehash. The step \<open>i\<close> starts at 1 and is never 0.\<close>

function hash_quad :: "allocator \<Rightarrow> nat \<Rightarrow> nat \<Rightarrow> ufs \<Rightarrow> (nat \<times> ufs) kern" where
  "hash_quad allocator i cg s =
     (if 0 < i \<and> i < fs_ncg s then
        let cg = cg + i; cg = (if fs_ncg s \<le> cg then cg - fs_ncg s else cg) in
        case allocator cg 0 s of Inl e \<Rightarrow> Inl e
        | Inr (result, s') \<Rightarrow> if result \<noteq> 0 then Inr (result, s')
            else if fs_ncg s' = fs_ncg s then hash_quad allocator (i * 2) cg s' else Inl (Fault ''fs_ncg'')
      else Inr (0, s))"
  by pat_completeness auto
termination
  by (relation "measure (\<lambda>(allocator, i, cg, s). fs_ncg s - i)") auto

declare hash_quad.simps [simp del]

function hash_brute :: "allocator \<Rightarrow> nat \<Rightarrow> nat \<Rightarrow> ufs \<Rightarrow> (nat \<times> ufs) kern" where
  "hash_brute allocator i cg s =
     (if i < fs_ncg s then
        case allocator cg 0 s of Inl e \<Rightarrow> Inl e
        | Inr (result, s') \<Rightarrow> if result \<noteq> 0 then Inr (result, s')
            else if fs_ncg s' = fs_ncg s then hash_brute allocator (i + 1) (if cg + 1 = fs_ncg s then 0 else cg + 1) s' else Inl (Fault ''fs_ncg'')
      else Inr (0, s))"
  by pat_completeness auto
termination
  by (relation "measure (\<lambda>(allocator, i, cg, s). fs_ncg s - i)") auto

declare hash_brute.simps [simp del]

definition hashalloc :: "allocator \<Rightarrow> nat \<Rightarrow> nat \<Rightarrow> ufs \<Rightarrow> (nat \<times> ufs) kern" where
  "hashalloc allocator cg pref s =
     kbind (allocator cg pref s) (\<lambda>(result, s).
       if result \<noteq> 0 then Inr (result, s)
       else kbind (hash_quad allocator 1 cg s) (\<lambda>(result, s).
         if result \<noteq> 0 then Inr (result, s)
         else hash_brute allocator 2 ((cg + 2) mod fs_ncg s) s))"

section \<open>The allocators of files\<close>

record inode =
  i_number :: nat
  i_mode :: nat
  i_blocks :: int
  i_marked :: bool

text \<open>What a caller gets: the buffer of a block or an error number in \<^verbatim>\<open>u.u_error\<close>.\<close>

datatype bufres = Buf nat | Error nat

definition ENOSPC :: nat where "ENOSPC = 28"

definition EIO :: nat where "EIO = 5"

definition alloc :: "int \<Rightarrow> nat \<Rightarrow> inode \<Rightarrow> nat \<Rightarrow> int \<Rightarrow> ufs \<Rightarrow> (bufres \<times> inode \<times> ufs) kern" where
  "alloc u_uid dq ip bpref siz s =
     (if bad_size s siz then Inl (Panic ''alloc: bad size'')
      else if siz = int (fs_bsize s) \<and> cs_nbfree (fs_cstotal s) = 0 then Inr (Error ENOSPC, ip, s)
      else if u_uid \<noteq> 0 \<and> freespace s (fs_minfree s) \<le> 0 then Inr (Error ENOSPC, ip, s)
      else if dq \<noteq> 0 then Inr (Error dq, ip, s)
      else let bpref = (if fs_size s \<le> bpref then 0 else bpref);
               cg = (if bpref = 0 then itog s (i_number ip) else dtog s bpref) in
        kbind (hashalloc (\<lambda>cg pref. alloccg cg pref siz) cg bpref s) (\<lambda>(bno, s).
          if bno = 0 then Inr (Error ENOSPC, ip, s)
          else Inr (Buf bno, ip\<lparr>i_blocks := i_blocks ip + btodb siz, i_marked := True\<rparr>, s)))"

text \<open>\<open>rderr\<close>: reading the old fragment fails. The caller then sees a null buffer.\<close>

definition realloccg :: "int \<Rightarrow> nat \<Rightarrow> bool \<Rightarrow> inode \<Rightarrow> nat \<Rightarrow> nat \<Rightarrow> int \<Rightarrow> int \<Rightarrow> ufs \<Rightarrow> (bufres \<times> inode \<times> ufs) kern" where
  "realloccg u_uid dq rderr ip bprev bpref osize nsize s =
     (if bad_size s osize \<or> bad_size s nsize then Inl (Panic ''realloccg: bad size'')
      else if u_uid \<noteq> 0 \<and> freespace s (fs_minfree s) \<le> 0 then Inr (Error ENOSPC, ip, s)
      else if bprev = 0 then Inl (Panic ''realloccg: bad bprev'')
      else if dq \<noteq> 0 then Inr (Error dq, ip, s)
      else let cg = dtog s bprev;
               grown = ip\<lparr>i_blocks := i_blocks ip + btodb (nsize - osize), i_marked := True\<rparr>;
               (bno, s) = fragextend cg bprev osize nsize s in
        if bno \<noteq> 0 then Inr (if rderr then (Error EIO, ip, s) else (Buf bno, grown, s))
        else let bpref = (if fs_size s \<le> bpref then 0 else bpref) in
          kbind (hashalloc (\<lambda>cg pref. alloccg cg pref nsize) cg bpref s) (\<lambda>(bno, s).
            if bno \<noteq> 0 then Inr (if rderr then (Error EIO, ip, s) else (Buf bno, grown, s))
            else Inr (Error ENOSPC, ip, s)))"

datatype inores = Ino inode | NoIno nat

definition ialloc :: "nat \<Rightarrow> (nat \<Rightarrow> inode option) \<Rightarrow> nat \<Rightarrow> nat \<Rightarrow> ufs \<Rightarrow> (inores \<times> ufs) kern" where
  "ialloc iq iget ipref mode s =
     (if cs_nifree (fs_cstotal s) = 0 then Inr (NoIno ENOSPC, s)
      else if iq \<noteq> 0 then Inr (NoIno iq, s)
      else let ipref = (if fs_ncg s * fs_ipg s \<le> ipref then 0 else ipref); cg = itog s ipref in
        kbind (hashalloc (\<lambda>cg pref. ialloccg cg pref mode) cg ipref s) (\<lambda>(ino, s).
          if ino = 0 then Inr (NoIno ENOSPC, s)
          else case iget ino of
            None \<Rightarrow> kbind (ifree ino 0 s) (\<lambda>s. Inr (NoIno 0, s))
          | Some ip \<Rightarrow> if i_mode ip \<noteq> 0 then Inl (Panic ''ialloc: dup alloc'')
              else Inr (Ino (if i_blocks ip \<noteq> 0 then ip\<lparr>i_blocks := 0\<rparr> else ip), s)))"

section \<open>Preferences\<close>

fun dirpref_loop :: "(nat \<Rightarrow> csum) \<Rightarrow> int \<Rightarrow> nat list \<Rightarrow> int \<Rightarrow> nat \<Rightarrow> nat" where
  "dirpref_loop cs avgifree [] minndir mincg = mincg"
| "dirpref_loop cs avgifree (cg # cgs) minndir mincg =
     (if cs_ndir (cs cg) < minndir \<and> cs_nifree (cs cg) \<ge> avgifree
      then dirpref_loop cs avgifree cgs (cs_ndir (cs cg)) cg
      else dirpref_loop cs avgifree cgs minndir mincg)"

definition dirpref :: "ufs \<Rightarrow> nat" where
  "dirpref s = fs_ipg s *
     dirpref_loop (fs_cs s) (cs_nifree (fs_cstotal s) sdiv int (fs_ncg s)) [0..<fs_ncg s] (int (fs_ipg s)) 0"

text \<open>The sweep of the cylinder group rotor.\<close>

fun rotor_find :: "(nat \<Rightarrow> csum) \<Rightarrow> int \<Rightarrow> nat list \<Rightarrow> nat option" where
  "rotor_find cs avgbfree [] = None"
| "rotor_find cs avgbfree (cg # cgs) = (if cs_nbfree (cs cg) \<ge> avgbfree then Some cg else rotor_find cs avgbfree cgs)"

definition NDADDR :: nat where "NDADDR = 12"

definition blkpref :: "inode \<Rightarrow> nat \<Rightarrow> nat \<Rightarrow> nat list \<Rightarrow> ufs \<Rightarrow> (nat \<times> ufs) kern" where
  "blkpref ip lbn indx bap s =
     kbind (if indx mod fs_maxbpg s = 0 then Inr 0 else aget bap (indx - 1)) (\<lambda>prev.
     if prev = 0 then
       if lbn < NDADDR then Inr (fs_fpg s * itog s (i_number ip) + fs_frag s, s)
       else let avgbfree = cs_nbfree (fs_cstotal s) sdiv int (fs_ncg s) in
         case rotor_find (fs_cs s) avgbfree ([fs_cgrotor s + 1..<fs_ncg s] @ [0..<fs_cgrotor s + 1]) of
           Some cg \<Rightarrow> Inr (fs_fpg s * cg + fs_frag s, s\<lparr>fs_cgrotor := cg\<rparr>)
         | None \<Rightarrow> Inr (0, s)
     else let nextblk = prev + fs_frag s in
       kbind (if fs_maxcontig s < indx then kbind (aget bap (indx - fs_maxcontig s)) (\<lambda>b. Inr (b + blkstofrags s (fs_maxcontig s) \<noteq> nextblk))
              else Inr False) (\<lambda>contig.
       if contig then Inr (nextblk, s)
       else if fs_rotdelay s \<noteq> 0
         then Inr (nextblk + roundup (fs_rotdelay s * fs_rps s * fs_nsect s div (fs_nspf s * 1000)) (fs_frag s), s)
         else Inr (nextblk, s)))"

section \<open>The contract of hashalloc\<close>

text \<open>
  What \<open>hashalloc\<close> relies on: an allocator that answers 0 had nothing to give (\<open>avail\<close>) and
  changed nothing that matters (\<open>same\<close>); any other answer is an allocation in the group it was
  asked for (\<open>post\<close>).
\<close>

locale cg_allocator =
  fixes allocator :: allocator
    and inv :: "ufs \<Rightarrow> bool"
    and avail :: "ufs \<Rightarrow> nat \<Rightarrow> bool"
    and same :: "ufs \<Rightarrow> ufs \<Rightarrow> bool"
    and post :: "ufs \<Rightarrow> nat \<Rightarrow> nat \<Rightarrow> ufs \<Rightarrow> bool"
  assumes failed: "inv s \<Longrightarrow> cg < fs_ncg s \<Longrightarrow> allocator cg pref s = Inr (0, s') \<Longrightarrow> \<not> avail s cg \<and> inv s' \<and> same s s'"
    and found: "inv s \<Longrightarrow> cg < fs_ncg s \<Longrightarrow> allocator cg pref s = Inr (r, s') \<Longrightarrow> r \<noteq> 0 \<Longrightarrow> avail s cg \<and> post s cg r s'"
    and same_refl: "same s s"
    and same_trans: "same s t \<Longrightarrow> same t u \<Longrightarrow> same s u"
    and same_avail: "same s t \<Longrightarrow> avail t cg = avail s cg"
    and same_ncg: "same s t \<Longrightarrow> fs_ncg t = fs_ncg s"
    and same_post: "same s t \<Longrightarrow> post t cg r u \<Longrightarrow> post s cg r u"
begin

definition outcome :: "ufs \<Rightarrow> nat set \<Rightarrow> nat \<Rightarrow> ufs \<Rightarrow> bool" where
  "outcome s asked r s' \<longleftrightarrow>
     (if r = 0 then inv s' \<and> same s s' \<and> (\<forall>d\<in>asked. \<not> avail s d) else \<exists>d<fs_ncg s. avail s d \<and> post s d r s')"

lemma asks:
  assumes "inv s" "cg < fs_ncg s" "allocator cg pref s = Inr (r, s')"
  shows "outcome s {cg} r s'"
  using failed [OF assms(1,2), of pref s'] found [OF assms] assms by (auto simp: outcome_def)

lemma outcome_seq:
  "outcome s A 0 t \<Longrightarrow> outcome t B r u \<Longrightarrow> outcome s (A \<union> B) r u"
  using same_trans same_avail same_ncg same_post by (auto simp: outcome_def split: if_splits)

lemma outcome_mono: "outcome s A r t \<Longrightarrow> (r = 0 \<Longrightarrow> B \<subseteq> A) \<Longrightarrow> outcome s B r t"
  by (auto simp: outcome_def split: if_splits)

lemma wrap_index: "cg < n \<Longrightarrow> i < n \<Longrightarrow> (if n \<le> cg + i then cg + i - n else cg + i) = (cg + i) mod (n :: nat)"
  by (auto simp: le_mod_geq)

lemma hash_quad_spec:
  "inv s \<Longrightarrow> cg < fs_ncg s \<Longrightarrow> 0 < i \<Longrightarrow> hash_quad allocator i cg s = Inr (r, s') \<Longrightarrow>
    outcome s (if i < fs_ncg s then {(cg + i) mod fs_ncg s} else {}) r s'"
proof (induction "fs_ncg s - i" arbitrary: i cg s rule: less_induct)
  case less
  show ?case
  proof (cases "i < fs_ncg s")
    case False
    then show ?thesis using less.prems same_refl by (subst (asm) hash_quad.simps) (auto simp: outcome_def)
  next
    case True
    let ?cg = "(cg + i) mod fs_ncg s"
    have cg: "?cg < fs_ncg s" using True by simp
    note wi = wrap_index [OF less.prems(2) True]
    obtain result t where a: "allocator ?cg 0 s = Inr (result, t)"
      "if result \<noteq> 0 then r = result \<and> s' = t else fs_ncg t = fs_ncg s \<and> hash_quad allocator (i * 2) ?cg t = Inr (r, s')"
      using less.prems(3,4) True unfolding hash_quad.simps [of allocator i cg s] Let_def wi by (auto split: sum.splits if_splits)
    note o = asks [OF less.prems(1) cg a(1)]
    show ?thesis
    proof (cases "result = 0")
      case False
      with a(2) have "r = result" "s' = t" by auto
      with o True show ?thesis by simp
    next
      case z: True
      then have t: "inv t" "same s t" "fs_ncg t = fs_ncg s" "hash_quad allocator (i * 2) ?cg t = Inr (r, s')"
        using o a(2) by (auto simp: outcome_def)
      have m: "fs_ncg t - i * 2 < fs_ncg s - i" using t(3) True less.prems(3) by simp
      have "outcome t (if i * 2 < fs_ncg t then {(?cg + i * 2) mod fs_ncg t} else {}) r s'"
        by (rule less.hyps [OF m t(1) _ _ t(4)]) (use cg t(3) less.prems(3) in simp_all)
      with o z have "outcome s ({?cg} \<union> (if i * 2 < fs_ncg t then {(?cg + i * 2) mod fs_ncg t} else {})) r s'"
        by (intro outcome_seq) auto
      from outcome_mono [OF this, of "{?cg}"] show ?thesis using True by simp
    qed
  qed
qed

lemma hash_brute_spec:
  "inv s \<Longrightarrow> cg < fs_ncg s \<Longrightarrow> hash_brute allocator i cg s = Inr (r, s') \<Longrightarrow>
    outcome s {(cg + j) mod fs_ncg s |j. i + j < fs_ncg s} r s'"
proof (induction "fs_ncg s - i" arbitrary: i cg s rule: less_induct)
  case less
  show ?case
  proof (cases "i < fs_ncg s")
    case False
    then show ?thesis using less.prems same_refl by (subst (asm) hash_brute.simps) (auto simp: outcome_def)
  next
    case True
    let ?cg = "if cg + 1 = fs_ncg s then 0 else cg + 1"
    obtain result t where a: "allocator cg 0 s = Inr (result, t)"
      "if result \<noteq> 0 then r = result \<and> s' = t else fs_ncg t = fs_ncg s \<and> hash_brute allocator (i + 1) ?cg t = Inr (r, s')"
      using less.prems(3) True unfolding hash_brute.simps [of allocator i cg s] by (auto split: sum.splits if_splits)
    note o = asks [OF less.prems(1,2) a(1)]
    show ?thesis
    proof (cases "result = 0")
      case False
      then show ?thesis using o a(2) by (auto simp: outcome_def)
    next
      case z: True
      then have t: "inv t" "same s t" "fs_ncg t = fs_ncg s" "hash_brute allocator (i + 1) ?cg t = Inr (r, s')"
        using o a(2) by (auto simp: outcome_def)
      have m: "fs_ncg t - (i + 1) < fs_ncg s - i" using t(3) True by simp
      have "outcome t {(?cg + j) mod fs_ncg t |j. i + 1 + j < fs_ncg t} r s'"
        by (rule less.hyps [OF m t(1) _ t(4)]) (use less.prems(2) t(3) in auto)
      with o z have u: "outcome s ({cg} \<union> {(?cg + j) mod fs_ncg s |j. i + 1 + j < fs_ncg s}) r s'"
        unfolding t(3) by (intro outcome_seq) auto
      have "(cg + j) mod fs_ncg s \<in> {cg} \<union> {(?cg + j) mod fs_ncg s |j. i + 1 + j < fs_ncg s}" if "i + j < fs_ncg s" for j
      proof (cases j)
        case (Suc k)
        have "(?cg + k) mod fs_ncg s = (cg + Suc k) mod fs_ncg s"
        proof (cases "cg + 1 = fs_ncg s")
          case True
          have e: "cg + Suc k = k + fs_ncg s" using True by simp
          have "(cg + Suc k) mod fs_ncg s = k mod fs_ncg s" unfolding e by simp
          then show ?thesis using True by simp
        qed simp
        moreover have "i + 1 + k < fs_ncg s" using Suc that by simp
        ultimately show ?thesis unfolding Suc by (intro UnI2 CollectI exI [of _ k]) (metis)
      qed (use less.prems(2) in simp)
      then show ?thesis by (intro outcome_mono [OF u]) blast
    qed
  qed
qed

text \<open>Between them the three phases ask every cylinder group.\<close>

lemma all_groups:
  assumes "cg < n"
  shows "{cg} \<union> (if 1 < n then {(cg + 1) mod n} else {}) \<union> {((cg + 2) mod n + j) mod n |j. 2 + j < n} \<supseteq> {..<(n :: nat)}"
proof
  fix d assume "d \<in> {..<n}"
  then have d: "d < n" by simp
  define j where "j = (if cg \<le> d then d - cg else d + n - cg)"
  have j: "j < n" "(cg + j) mod n = d" using assms d by (auto simp: j_def)
  consider "j = 0" | "j = 1" | k where "j = 2 + k" by (metis One_nat_def add_2_eq_Suc not0_implies_Suc)
  then show "d \<in> {cg} \<union> (if 1 < n then {(cg + 1) mod n} else {}) \<union> {((cg + 2) mod n + j) mod n |j. 2 + j < n}"
  proof cases
    case 3
    then have "((cg + 2) mod n + k) mod n = d" using j(2) by (simp add: mod_add_left_eq add.assoc)
    then show ?thesis using j(1) 3 by blast
  qed (use j assms in auto)
qed

theorem hashalloc_spec:
  assumes "inv s" "cg < fs_ncg s" "hashalloc allocator cg pref s = Inr (r, s')"
  shows "outcome s {..<fs_ncg s} r s'" "avail s cg \<Longrightarrow> post s cg r s'"
proof -
  obtain r1 s1 where 1: "allocator cg pref s = Inr (r1, s1)"
    "if r1 \<noteq> 0 then r = r1 \<and> s' = s1 else
      kbind (hash_quad allocator 1 cg s1) (\<lambda>(result, s). if result \<noteq> 0 then Inr (result, s)
         else hash_brute allocator 2 ((cg + 2) mod fs_ncg s) s) = Inr (r, s')"
    using assms(3) unfolding hashalloc_def by (auto split: if_splits)
  note o1 = asks [OF assms(1,2) 1(1)]
  show "avail s cg \<Longrightarrow> post s cg r s'" using failed [OF assms(1,2), of pref s1] found [OF assms(1,2) 1(1)] 1 by (auto split: if_splits)
  show "outcome s {..<fs_ncg s} r s'"
  proof (cases "r1 = 0")
    case False
    then show ?thesis using o1 1(2) by (auto simp: outcome_def)
  next
    case True
    then have t1: "inv s1" "same s s1" "fs_ncg s1 = fs_ncg s" using o1 same_ncg by (auto simp: outcome_def)
    obtain r2 s2 where 2: "hash_quad allocator 1 cg s1 = Inr (r2, s2)"
      "if r2 \<noteq> 0 then r = r2 \<and> s' = s2 else hash_brute allocator 2 ((cg + 2) mod fs_ncg s2) s2 = Inr (r, s')"
      using 1(2) True by (auto split: if_splits)
    have "outcome s1 (if 1 < fs_ncg s1 then {(cg + 1) mod fs_ncg s1} else {}) r2 s2"
      by (rule hash_quad_spec [OF t1(1) _ _ 2(1)]) (use assms(2) t1(3) in simp_all)
    from outcome_seq [OF o1 [unfolded True] this, unfolded t1(3)]
    have o2: "outcome s ({cg} \<union> (if 1 < fs_ncg s then {(cg + 1) mod fs_ncg s} else {})) r2 s2" .
    show ?thesis
    proof (cases "r2 = 0")
      case False
      then show ?thesis using o2 2(2) by (auto simp: outcome_def)
    next
      case z: True
      then have t2: "inv s2" "same s s2" "fs_ncg s2 = fs_ncg s" using o2 same_ncg by (auto simp: outcome_def)
      have "outcome s2 {((cg + 2) mod fs_ncg s2 + j) mod fs_ncg s2 |j. 2 + j < fs_ncg s2} r s'"
        by (rule hash_brute_spec [OF t2(1)]) (use assms(2) t2(3) 2(2) z in auto)
      from outcome_seq [OF o2 [unfolded z] this, unfolded t2(3)] show ?thesis by (rule outcome_mono) (rule all_groups [OF assms(2)])
    qed
  qed
qed

end

text \<open>When the allocator itself always answers, so does \<open>hashalloc\<close>.\<close>

locale total_allocator = cg_allocator +
  assumes total: "inv s \<Longrightarrow> cg < fs_ncg s \<Longrightarrow> \<exists>r s'. allocator cg pref s = Inr (r, s')"
begin

lemma hash_quad_total: "inv s \<Longrightarrow> cg < fs_ncg s \<Longrightarrow> 0 < i \<Longrightarrow> \<exists>r s'. hash_quad allocator i cg s = Inr (r, s')"
proof (induction "fs_ncg s - i" arbitrary: i cg s rule: less_induct)
  case less
  show ?case
  proof (cases "i < fs_ncg s")
    case False
    then show ?thesis unfolding hash_quad.simps [of allocator i cg s] by simp
  next
    case True
    let ?cg = "(cg + i) mod fs_ncg s"
    have cg: "?cg < fs_ncg s" using True by simp
    obtain result t where a: "allocator ?cg 0 s = Inr (result, t)" using total [OF less.prems(1) cg] by blast
    show ?thesis
    proof (cases "result = 0")
      case False
      then show ?thesis using a True less.prems(3) unfolding hash_quad.simps [of allocator i cg s] Let_def wrap_index [OF less.prems(2) True] by simp
    next
      case z: True
      then have t: "inv t" "fs_ncg t = fs_ncg s" using failed [OF less.prems(1) cg, of 0 t] a same_ncg by auto
      have "\<exists>r s'. hash_quad allocator (i * 2) ?cg t = Inr (r, s')"
        by (rule less.hyps) (use t True cg less.prems(3) in auto)
      then show ?thesis using a z t True less.prems(3) unfolding hash_quad.simps [of allocator i cg s] Let_def wrap_index [OF less.prems(2) True] by simp
    qed
  qed
qed

lemma hash_brute_total: "inv s \<Longrightarrow> cg < fs_ncg s \<Longrightarrow> \<exists>r s'. hash_brute allocator i cg s = Inr (r, s')"
proof (induction "fs_ncg s - i" arbitrary: i cg s rule: less_induct)
  case less
  show ?case
  proof (cases "i < fs_ncg s")
    case False
    then show ?thesis unfolding hash_brute.simps [of allocator i cg s] by simp
  next
    case True
    obtain result t where a: "allocator cg 0 s = Inr (result, t)" using total [OF less.prems(1,2)] by blast
    show ?thesis
    proof (cases "result = 0")
      case False
      then show ?thesis using a True unfolding hash_brute.simps [of allocator i cg s] by simp
    next
      case z: True
      then have t: "inv t" "fs_ncg t = fs_ncg s" using failed [OF less.prems(1,2), of 0 t] a same_ncg by auto
      have "\<exists>r s'. hash_brute allocator (i + 1) (if cg + 1 = fs_ncg s then 0 else cg + 1) t = Inr (r, s')"
        by (rule less.hyps) (use t True less.prems(2) in auto)
      then show ?thesis using a z t True unfolding hash_brute.simps [of allocator i cg s] by simp
    qed
  qed
qed

theorem hashalloc_total:
  assumes "inv s" "cg < fs_ncg s" shows "\<exists>r s'. hashalloc allocator cg pref s = Inr (r, s')"
proof -
  obtain r1 s1 where 1: "allocator cg pref s = Inr (r1, s1)" using total [OF assms] by blast
  show ?thesis
  proof (cases "r1 = 0")
    case False
    then show ?thesis using 1 by (simp add: hashalloc_def)
  next
    case True
    then have t1: "inv s1" "same s s1" "fs_ncg s1 = fs_ncg s" using failed [OF assms, of pref s1] 1 same_ncg by auto
    obtain r2 s2 where 2: "hash_quad allocator 1 cg s1 = Inr (r2, s2)" using hash_quad_total [OF t1(1), of cg 1] assms(2) t1(3) by auto
    have o: "outcome s1 (if 1 < fs_ncg s1 then {(cg + 1) mod fs_ncg s1} else {}) r2 s2"
      by (rule hash_quad_spec [OF t1(1) _ _ 2]) (use assms(2) t1(3) in simp_all)
    show ?thesis
    proof (cases "r2 = 0")
      case False
      then show ?thesis using 1 2 True by (simp add: hashalloc_def)
    next
      case z: True
      then have t2: "inv s2" "fs_ncg s2 = fs_ncg s" using o same_ncg t1(3) by (auto simp: outcome_def)
      have "\<exists>r s'. hash_brute allocator 2 ((cg + 2) mod fs_ncg s2) s2 = Inr (r, s')"
        by (rule hash_brute_total [OF t2(1)]) (use assms(2) t2(2) in auto)
      then show ?thesis using 1 2 True z by (simp add: hashalloc_def)
    qed
  qed
qed

end

section \<open>The code's allocators meet the contract\<close>

definition same_space :: "ufs \<Rightarrow> ufs \<Rightarrow> bool" where
  "same_space s t \<longleftrightarrow> fset t = fset s \<and> iset t = iset s \<and> same_geom s t"

lemma kept_same: "kept s t \<longleftrightarrow> ufs_ok t \<and> same_space s t"
  by (auto simp: kept_def same_space_def)

lemma same_space_refl: "same_space s s"
  by (simp add: same_space_def same_geom_refl)

lemma same_space_trans: "same_space s t \<Longrightarrow> same_space t u \<Longrightarrow> same_space s u"
  using same_geom_trans by (auto simp: same_space_def)

lemma same_space_room: "same_space s t \<Longrightarrow> room t c k = room s c k"
  by (simp add: same_space_def same_geom_def room_def nblk_def)

lemma same_space_bad: "same_space s t \<Longrightarrow> cg_bad t c = cg_bad s c"
  by (simp add: same_space_def same_geom_def)

lemma same_space_took: "same_space s t \<Longrightarrow> took t c k r u \<Longrightarrow> took s c k r u"
  using same_geom_trans [of s t u] by (auto simp: same_space_def took_def same_geom_def nblk_def)

lemma same_space_iupd: "same_space s t \<Longrightarrow> iupd t c (insert i (iset t c)) u \<Longrightarrow> iupd s c (insert i (iset s c)) u"
  using same_geom_trans [of s t u] by (auto simp: same_space_def iupd_def)

text \<open>The number of fragments a byte count asks for.\<close>

definition frags_of :: "ufs \<Rightarrow> int \<Rightarrow> nat" where "frags_of s siz = nat (numfrags s siz)"

lemma frags_of:
  assumes "geom_ok s" "\<not> bad_size s siz" "0 < siz"
  shows "siz = int (frags_of s siz * fs_fsize s)" "0 < frags_of s siz" "frags_of s siz \<le> fs_frag s"
proof -
  obtain k where k: "k \<le> fs_frag s" "siz = int (k * fs_fsize s)" "numfrags s siz = int k" using size_cases [OF assms(1,2)] by metis
  then have "frags_of s siz = k" by (simp add: frags_of_def)
  with k assms(3) show "siz = int (frags_of s siz * fs_fsize s)" "0 < frags_of s siz" "frags_of s siz \<le> fs_frag s"
    by (auto simp: zero_less_mult_iff simp del: of_nat_mult)
qed

definition blk_inv :: "int \<Rightarrow> ufs \<Rightarrow> bool" where "blk_inv siz s \<longleftrightarrow> ufs_ok s \<and> \<not> bad_size s siz \<and> 0 < siz"

definition blk_avail :: "int \<Rightarrow> ufs \<Rightarrow> nat \<Rightarrow> bool" where
  "blk_avail siz s c \<longleftrightarrow> \<not> cg_bad s c \<and> room s c (frags_of s siz)"

definition blk_post :: "int \<Rightarrow> ufs \<Rightarrow> nat \<Rightarrow> nat \<Rightarrow> ufs \<Rightarrow> bool" where
  "blk_post siz s c r s' \<longleftrightarrow> took s c (frags_of s siz) r s'"

lemma same_space_size: "same_space s t \<Longrightarrow> bad_size t siz = bad_size s siz" "same_space s t \<Longrightarrow> frags_of t siz = frags_of s siz"
  by (simp_all add: same_space_def same_geom_def bad_size_def fragoff_def frags_of_def numfrags_def)

lemma alloccg_law:
  assumes "blk_inv siz s" "cg < fs_ncg s" "alloccg cg pref siz s = Inr (r, s')"
  shows "if blk_avail siz s cg then blk_post siz s cg r s' \<and> r \<noteq> 0 else r = 0 \<and> blk_inv siz s' \<and> same_space s s'"
proof -
  have i: "ufs_ok s" "\<not> bad_size s siz" "0 < siz" using assms(1) by (auto simp: blk_inv_def)
  note f = frags_of [OF ufs_okD(1) [OF i(1) assms(2)] i(2,3)]
  from alloccg_spec(1) [OF i(1) assms(2) f(2,3), of pref r s'] assms(3) f(1)
  have "if blk_avail siz s cg then took s cg (frags_of s siz) r s' else r = 0 \<and> kept s s'" by (simp add: blk_avail_def)
  then show ?thesis using i same_space_size(1) [of s s' siz] by (auto simp: blk_post_def kept_same blk_inv_def took_def split: if_splits)
qed

interpretation blk: cg_allocator "\<lambda>cg pref. alloccg cg pref siz" "blk_inv siz" "blk_avail siz" same_space "blk_post siz" for siz
proof
  show "blk_inv siz s \<Longrightarrow> cg < fs_ncg s \<Longrightarrow> alloccg cg pref siz s = Inr (0, s') \<Longrightarrow> \<not> blk_avail siz s cg \<and> blk_inv siz s' \<and> same_space s s'"
    for s cg pref s' using alloccg_law [of siz s cg pref 0 s'] by (auto split: if_splits)
  show "blk_inv siz s \<Longrightarrow> cg < fs_ncg s \<Longrightarrow> alloccg cg pref siz s = Inr (r, s') \<Longrightarrow> r \<noteq> 0 \<Longrightarrow> blk_avail siz s cg \<and> blk_post siz s cg r s'"
    for s cg pref r s' using alloccg_law [of siz s cg pref r s'] by (auto split: if_splits)
  show "same_space s t \<Longrightarrow> fs_ncg t = fs_ncg s" for s t by (simp add: same_space_def same_geom_def)
  show "same_space s t \<Longrightarrow> blk_avail siz t cg = blk_avail siz s cg" for s t cg
    using same_space_room same_space_bad same_space_size(2) by (simp add: blk_avail_def)
  show "same_space s t \<Longrightarrow> blk_post siz t cg r u \<Longrightarrow> blk_post siz s cg r u" for s t cg r u
    using same_space_took same_space_size(2) by (auto simp: blk_post_def)
qed (rule same_space_refl, rule same_space_trans)

text \<open>Without rotational layout tables (\<open>fs_cpc = 0\<close>) the search never panics.\<close>

lemma same_space_cpc: "same_space s t \<Longrightarrow> fs_cpc t = fs_cpc s"
  by (simp add: same_space_def same_geom_def)

interpretation blkt: total_allocator "\<lambda>cg pref. alloccg cg pref siz" "\<lambda>s. blk_inv siz s \<and> fs_cpc s = 0" "blk_avail siz" same_space "blk_post siz" for siz
proof
  show "blk_inv siz s \<and> fs_cpc s = 0 \<Longrightarrow> cg < fs_ncg s \<Longrightarrow> alloccg cg pref siz s = Inr (0, s')
      \<Longrightarrow> \<not> blk_avail siz s cg \<and> (blk_inv siz s' \<and> fs_cpc s' = 0) \<and> same_space s s'" for s cg pref s'
    using blk.failed [of siz s cg pref s'] same_space_cpc [of s s'] by auto
  show "blk_inv siz s \<and> fs_cpc s = 0 \<Longrightarrow> cg < fs_ncg s \<Longrightarrow> \<exists>r s'. alloccg cg pref siz s = Inr (r, s')" for s cg pref
  proof -
    assume a: "blk_inv siz s \<and> fs_cpc s = 0" "cg < fs_ncg s"
    then have i: "ufs_ok s" "\<not> bad_size s siz" "0 < siz" by (auto simp: blk_inv_def)
    note f = frags_of [OF ufs_okD(1) [OF i(1) a(2)] i(2,3)]
    from alloccg_spec(2) [OF i(1) a(2) f(2,3), of pref] a show ?thesis using f(1) by simp
  qed
  show "blk_inv siz s \<and> fs_cpc s = 0 \<Longrightarrow> cg < fs_ncg s \<Longrightarrow> alloccg cg pref siz s = Inr (r, s') \<Longrightarrow> r \<noteq> 0
      \<Longrightarrow> blk_avail siz s cg \<and> blk_post siz s cg r s'" for s cg pref r s' by (rule blk.found) auto
qed (rule same_space_refl, erule (1) same_space_trans, erule blk.same_avail, erule blk.same_ncg, erule (1) blk.same_post)

definition ino_avail :: "ufs \<Rightarrow> nat \<Rightarrow> bool" where
  "ino_avail s c \<longleftrightarrow> \<not> cg_bad s c \<and> (\<exists>i<fs_ipg s. i \<notin> iset s c)"

definition ino_post :: "ufs \<Rightarrow> nat \<Rightarrow> nat \<Rightarrow> ufs \<Rightarrow> bool" where
  "ino_post s c r s' \<longleftrightarrow> r \<noteq> 0 \<and> (\<exists>i<fs_ipg s. r = c * fs_ipg s + i \<and> i \<notin> iset s c \<and> iupd s c (insert i (iset s c)) s')"

interpretation ino: total_allocator "\<lambda>cg pref. ialloccg cg pref mode" ufs_ok ino_avail same_space ino_post for mode
proof
  have law: "if ino_avail s cg then ino_post s cg r s' else r = 0 \<and> kept s s'"
    if "ufs_ok s" "cg < fs_ncg s" "ialloccg cg pref mode s = Inr (r, s')" for s cg pref r s'
    using ialloccg_spec [OF that(1,2), of pref mode] that(3) by (auto simp: ino_avail_def ino_post_def split: if_splits)
  show "ufs_ok s \<Longrightarrow> cg < fs_ncg s \<Longrightarrow> ialloccg cg pref mode s = Inr (0, s') \<Longrightarrow> \<not> ino_avail s cg \<and> ufs_ok s' \<and> same_space s s'"
    for s cg pref s' using law [of s cg pref 0 s'] by (auto simp: ino_post_def kept_same split: if_splits)
  show "ufs_ok s \<Longrightarrow> cg < fs_ncg s \<Longrightarrow> ialloccg cg pref mode s = Inr (r, s') \<Longrightarrow> r \<noteq> 0 \<Longrightarrow> ino_avail s cg \<and> ino_post s cg r s'"
    for s cg pref r s' using law [of s cg pref r s'] by (auto split: if_splits)
  show "same_space s t \<Longrightarrow> ino_avail t cg = ino_avail s cg" for s t cg
  proof -
    assume a: "same_space s t"
    then have "fs_ipg t = fs_ipg s" "iset t cg = iset s cg" by (simp_all add: same_space_def same_geom_def)
    with same_space_bad [OF a] show "ino_avail t cg = ino_avail s cg" by (simp add: ino_avail_def)
  qed
  show "same_space s t \<Longrightarrow> ino_post t cg r u \<Longrightarrow> ino_post s cg r u" for s t cg r u
  proof -
    assume a: "same_space s t" "ino_post t cg r u"
    from a(1) have e: "fs_ipg t = fs_ipg s" "iset t cg = iset s cg" by (simp_all add: same_space_def same_geom_def)
    from a(2) obtain i where i: "i < fs_ipg t" "r = cg * fs_ipg t + i" "i \<notin> iset t cg" "iupd t cg (insert i (iset t cg)) u" "r \<noteq> 0"
      unfolding ino_post_def by blast
    show "ino_post s cg r u" using i(1,2,3,5) same_space_iupd [OF a(1) i(4)] unfolding ino_post_def e by blast
  qed
  show "ufs_ok s \<Longrightarrow> cg < fs_ncg s \<Longrightarrow> \<exists>r s'. ialloccg cg pref mode s = Inr (r, s')" for s cg pref
    using ialloccg_spec [of s cg pref mode] by blast
qed (rule same_space_refl, erule (1) same_space_trans, erule blk.same_ncg)

end
