(* ===== verification/Ufs_props.thy ===== *)
theory Ufs_props
  imports Ufs_policy
begin

unbundle bit_operations_syntax

text \<open>
  The theorems about the file system allocator, over the lemmas of \<open>Ufs_space\<close>, \<open>Ufs_blocks\<close>,
  \<open>Ufs_inodes\<close> and the interpretations of \<open>Ufs_policy\<close>, with a small file system (two groups of four
  blocks of four fragments) on which they are applied.
\<close>

section \<open>A small file system\<close>

text \<open>A file system of two groups of 16 fragments whose last group ends after 14. All blocks and inodes of \<open>demo0\<close> are allocated; \<open>demo1\<close> has block 1 of group 0 and inode 3 free.\<close>

definition demo_cg :: "nat \<Rightarrow> cg" where
  "demo_cg c = \<lparr>cg_time = 0, cg_cgx = c, cg_cs = cs0, cg_rotor = 0, cg_frotor = 0, cg_irotor = 0, cg_frsum = replicate 8 0,
     cg_btot = replicate 32 0, cg_b = replicate 32 (replicate 8 0), cg_iused = replicate 256 0xff, cg_magic = CG_MAGIC, cg_free = [0, 0]\<rparr>"

definition demo0 :: ufs where
  "demo0 = \<lparr>fs_size = 30, fs_dsize = 28, fs_ncg = 2, fs_bsize = 4096, fs_fsize = 1024, fs_frag = 4, fs_minfree = 10, fs_rotdelay = 4,
     fs_rps = 60, fs_fmask = NOT (mask 10), fs_fshift = 10, fs_maxcontig = 1, fs_maxbpg = 4, fs_fragshift = 2, fs_nspf = 2, fs_nsect = 16,
     fs_spc = 32, fs_ipg = 8, fs_fpg = 16, fs_cstotal = cs0, fs_fmod = 0, fs_cgrotor = 0, fs_cs = (\<lambda>c. cs0), fs_cpc = 0, fs_postbl = [],
     fs_rotbl = [], cgbuf = demo_cg, cgerr = (\<lambda>c. False), tv_sec = 7\<rparr>"

lemma counts_empty: "0 < frag \<Longrightarrow> frag \<le> 8 \<Longrightarrow> counts frag n {} (replicate 8 0) 0 0"
proof -
  assume f: "0 < frag" "frag \<le> 8"
  have "blk frag h \<noteq> {}" for h using f by (simp add: blk_def)
  then have b: "bfree {} frag h = 0" "ffree {} frag h = 0" for h by (simp_all add: bfree_def ffree_def)
  have "\<not> frun {} frag h z q" for h z q using frunD(1) [of "{}" frag h z q] frunD(4) [of "{}" frag h z q q] by auto
  then have "nruns {} frag h z = 0" for h z by (simp add: nruns_def)
  then show ?thesis using b f by (simp add: counts_def total_def)
qed

lemma demo_iused: "{..<8} \<subseteq> fbits (replicate 256 0xff)"
  using byte_full [of "0xff"] by (auto simp: fbits_def)

lemma demo0_ok: "ufs_ok demo0"
proof -
  have f: "fbits [0, 0] = {}" by (auto simp: fbits_def less_Suc_eq numeral_2_eq_2 nth_Cons split: nat.splits)
  have g: "geom_ok demo0" by (simp add: geom_ok_def demo0_def fs_frags_def)
  have m: "map_ok demo0 c (demo_cg c)" if "c < 2" for c
    using counts_empty [of 4 4] by (simp add: map_ok_def demo_cg_def f howmany_8 demo0_def nblk_def)
  have z: "{..<8} - fbits (replicate 256 0xff) = {}" using demo_iused by blast
  have "(0 :: nat) \<in> fbits (replicate 256 0xff)" using demo_iused by auto
  then have i: "imap_ok demo0 c (demo_cg c)" for c using z by (simp add: imap_ok_def demo_cg_def demo0_def)
  have t: "cstot_ok demo0" by (simp add: cstot_ok_def demo0_def)
  show ?thesis using g m i t by (simp add: ufs_ok_def) (simp add: demo0_def demo_cg_def)
qed

definition demo1 :: ufs where
  "demo1 = (case kbind (free 4 4096 demo0) (ifree 3 0) of Inr s \<Rightarrow> s | Inl e \<Rightarrow> demo0)"

lemma demo0_sel:
  "fs_ncg demo0 = 2" "fs_frag demo0 = 4" "fs_fpg demo0 = 16" "fs_fsize demo0 = 1024" "fs_size demo0 = 30" "fs_ipg demo0 = 8"
  "fset demo0 c = {}" "fs_cpc demo0 = 0" "\<not> cg_bad demo0 c" "fs_bsize demo0 = 4096" "fs_fshift demo0 = 10" "fs_fmask demo0 = NOT (mask 10)"
  by (auto simp: demo0_def fset_def demo_cg_def cg_bad_def fbits_def less_Suc_eq numeral_2_eq_2 nth_Cons split: nat.splits)

lemma demo1_ok:
  "ufs_ok demo1" "same_geom demo0 demo1" "fset demo1 0 = {4..<8}" "3 \<notin> iset demo1 0" "fset demo1 1 = {}"
proof -
  have "\<exists>s. free (int (0 * fs_fpg demo0 + 4)) (int (4 * fs_fsize demo0)) demo0 = Inr s \<and> gave demo0 0 {4..<4 + 4} s"
    by (rule free_spec(1) [OF demo0_ok]) (simp_all add: demo0_sel)
  then obtain s where s: "free 4 4096 demo0 = Inr s" "ufs_ok s" "same_geom demo0 s" "fset s 0 = {4..<8}" "iset s = iset demo0" "fset s 1 = {}"
    by (auto simp: demo0_sel gave_def)
  have g: "fs_ncg s = 2" "fs_ipg s = 8" "\<not> cg_bad s 0" using s(3) demo0_sel by (simp_all add: same_geom_def)
  have "3 \<in> iset s 0" using demo_iused s(5) by (auto simp: iset_def demo0_def demo_cg_def)
  then have "\<exists>s'. ifree (0 * fs_ipg s + 3) 0 s = Inr s' \<and> iupd s 0 (iset s 0 - {3}) s'"
    by (intro ifree_spec(1) s(2)) (simp_all add: g)
  then obtain t where t: "ifree 3 0 s = Inr t" "iupd s 0 (iset s 0 - {3}) t" by auto
  have d: "demo1 = t" unfolding demo1_def s(1) kbind_simps t(1) by simp
  show "ufs_ok demo1" "same_geom demo0 demo1" "fset demo1 0 = {4..<8}" "3 \<notin> iset demo1 0" "fset demo1 1 = {}"
    using t(2) s(3,4,6) same_geom_trans [of demo0 s t] unfolding d by (auto simp: iupd_def)
qed

lemma demo1_sel:
  "fs_ncg demo1 = 2" "fs_frag demo1 = 4" "fs_fpg demo1 = 16" "fs_fsize demo1 = 1024" "fs_size demo1 = 30" "fs_ipg demo1 = 8" "nblk demo1 = 4"
  "fs_cpc demo1 = 0" "\<not> cg_bad demo1 c" "fs_bsize demo1 = 4096" "fs_fshift demo1 = 10" "fs_fmask demo1 = NOT (mask 10)"
  using demo1_ok(2) demo0_sel by (auto simp: same_geom_def nblk_def)

section \<open>Fragment tables and searches\<close>

text \<open>C21. The fragment tables. An entry of \<open>fragtbl\<close> has the bit for size \<open>siz\<close> exactly when the
  map byte holds, in one of its blocks, a maximal run of \<open>siz\<close> free fragments.\<close>

theorem fragtbl_entries:
  assumes "frag \<in> {1, 2, 4, 8}" "1 \<le> siz" "siz \<le> frag" "i < 256"
  shows "(fragtbl frag ! i) AND push_bit (siz - 1 + frag mod 8) 1 \<noteq> 0
    \<longleftrightarrow> (\<exists>m\<in>set (byte_blocks frag (int i)). \<exists>p. p + siz \<le> frag \<and> is_run frag m siz p)"
  by (rule fragtbl_correct) (use assms in \<open>simp_all add: fs_frags_def\<close>)

theorem fragtbl_entries_witness:
  "(fragtbl 8 ! 0x3b) AND push_bit (3 - 1 + 8 mod 8) 1 \<noteq> 0
    \<longleftrightarrow> (\<exists>m\<in>set (byte_blocks 8 (int 0x3b)). \<exists>p. p + 3 \<le> 8 \<and> is_run 8 m 3 p)"
  by (rule fragtbl_entries) simp_all

text \<open>\<open>fragacct\<close> adds \<open>cnt\<close> to the count of size \<open>z\<close> once for every maximal run of \<open>z\<close> free
  fragments in the block, and leaves the other counts alone.\<close>

theorem fragacct_counts_runs:
  assumes "frag \<in> {1, 2, 4, 8}" "0 \<le> fragmap" "fragmap < 2 ^ frag" "length fraglist = 8"
  shows "fragacct frag fragmap fraglist cnt
    = map (\<lambda>z. fraglist ! z + (if 0 < z \<and> z < frag then cnt * int (fruns frag fragmap z) else 0)) [0..<8]"
  by (rule fragacct_correct) (use assms in \<open>simp_all add: fs_frags_def\<close>)

theorem fragacct_counts_runs_witness:
  "fragacct 8 0x5b [0, 9, 9, 9, 9, 9, 9, 9] (-1)
    = map (\<lambda>z. [0, 9, 9, 9, 9, 9, 9, 9] ! z + (if 0 < z \<and> z < 8 then -1 * int (fruns 8 0x5b z) else 0)) [0..<8]"
  by (rule fragacct_counts_runs) simp_all

text \<open>If the group holds a maximal run of exactly \<open>allocsiz\<close> free fragments, \<open>mapsearch\<close> comes back
  with the start of one, whatever the preference and the rotor say; it changes nothing but the
  fragment rotor. In particular neither of its panics happens.\<close>

theorem mapsearch_finds:
  assumes "ufs_ok s" "c < fs_ncg s" "1 \<le> allocsiz" "allocsiz \<le> fs_frag s" "frun (fset s c) (fs_frag s) h allocsiz q"
  shows "\<exists>r h' b. mapsearch s c bpref allocsiz = Inr (r, updcg (cg_frotor_update (\<lambda>_. b)) c s)
    \<and> frun (fset s c) (fs_frag s) h' allocsiz r \<and> b < fs_fpg s"
proof -
  note D = ufs_okD [OF assms(1,2)]
  show ?thesis by (rule mapsearch_correct [OF D(1,6,10) assms(3-5) run_block(1) [OF D(1,7) assms(5)]])
qed

theorem mapsearch_finds_witness:
  "\<exists>r h' b. mapsearch demo1 0 9 4 = Inr (r, updcg (cg_frotor_update (\<lambda>_. b)) 0 demo1)
    \<and> frun (fset demo1 0) (fs_frag demo1) h' 4 r \<and> b < fs_fpg demo1"
proof (rule mapsearch_finds [OF demo1_ok(1), where h = 1 and q = 4])
  show "frun (fset demo1 0) (fs_frag demo1) 1 4 4" by (simp add: frun_def demo1_ok(3) demo1_sel)
qed (simp_all add: demo1_sel)

section \<open>Allocation in a group\<close>

text \<open>C15. \<open>alloccg\<close> in a group that can be read and has room for the request takes exactly the
  fragments asked for: they were free, lie in one block, and are the only ones that change hands;
  the summary counts of group and file system follow. Otherwise it returns 0 and the free map
  stays as it was.\<close>

theorem alloccg_takes:
  assumes "ufs_ok s" "c < fs_ncg s" "0 < k" "k \<le> fs_frag s" "alloccg c bpref (int (k * fs_fsize s)) s = Inr (r, s')"
  shows "if \<not> cg_bad s c \<and> room s c k then took s c k r s' else r = 0 \<and> kept s s'"
  by (rule alloccg_spec(1) [OF assms])

text \<open>With no rotational tables (\<open>fs_cpc = 0\<close>) \<open>alloccg\<close> never panics, and a readable group with
  room always yields a fragment.\<close>

theorem alloccg_succeeds:
  assumes "ufs_ok s" "c < fs_ncg s" "0 < k" "k \<le> fs_frag s" "fs_cpc s = 0" "\<not> cg_bad s c" "room s c k"
  shows "\<exists>r s'. alloccg c bpref (int (k * fs_fsize s)) s = Inr (r, s') \<and> r \<noteq> 0"
  using alloccg_spec [OF assms(1-4), of bpref] assms(5-7) by (auto simp: took_def)

lemma demo1_room: "k \<le> 4 \<Longrightarrow> room demo1 0 k"
  unfolding room_def by (intro exI [of _ 1] conjI exI [of _ 4]) (auto simp: demo1_sel demo1_ok(3) blk_def)

theorem alloccg_succeeds_witness:
  "\<exists>r s'. alloccg 0 9 (int (3 * fs_fsize demo1)) demo1 = Inr (r, s') \<and> r \<noteq> 0"
  by (rule alloccg_succeeds [OF demo1_ok(1)]) (simp_all add: demo1_sel demo1_room)

theorem alloccg_takes_witness:
  "\<exists>r s'. alloccg 0 9 (int (3 * fs_fsize demo1)) demo1 = Inr (r, s') \<and> took demo1 0 3 r s'"
proof -
  obtain r s' where r: "alloccg 0 9 (int (3 * fs_fsize demo1)) demo1 = Inr (r, s')"
    using alloccg_spec(2) [OF demo1_ok(1), of 0 3 9] by (auto simp: demo1_sel)
  from alloccg_takes [OF demo1_ok(1) _ _ _ r] have "took demo1 0 3 r s'" by (simp add: demo1_sel demo1_room)
  with r show ?thesis by blast
qed

text \<open>C18. \<open>fragextend\<close> grows a fragment in place exactly when the following fragments of its block are
  free; it then takes those and returns the old block number, else it returns 0 and allocates nothing.\<close>

theorem fragextend_grows:
  assumes "ufs_ok s" "c < fs_ncg s" "old_frag s c b n" "n < n'" "n' \<le> fs_frag s"
    and "fragextend c (c * fs_fpg s + b) (int (n * fs_fsize s)) (int (n' * fs_fsize s)) s = (r, s')"
  shows "if \<not> cg_bad s c \<and> extendable s c b n n'
    then r = c * fs_fpg s + b \<and> fset s' c = fset s c - {b + n..<b + n'} \<and> iset s' = iset s \<and> ufs_ok s'
    else r = 0 \<and> kept s s'"
  using fragextend_spec [OF assms] by (auto simp: took_def split: if_splits)

text \<open>In \<open>demo2\<close> the second half of block 1 is free, so the fragment at 4 can grow.\<close>

definition demo2 :: ufs where
  "demo2 = (case free 6 2048 demo0 of Inr s \<Rightarrow> s | Inl e \<Rightarrow> demo0)"

lemma demo2_ok: "ufs_ok demo2" "same_geom demo0 demo2" "fset demo2 0 = {6..<8}"
proof -
  have "\<exists>s. free (int (0 * fs_fpg demo0 + 6)) (int (2 * fs_fsize demo0)) demo0 = Inr s \<and> gave demo0 0 {6..<6 + 2} s"
    by (rule free_spec(1) [OF demo0_ok]) (simp_all add: demo0_sel)
  then obtain s where "free 6 2048 demo0 = Inr s" "gave demo0 0 {6..<8} s" by (auto simp: demo0_sel)
  then show "ufs_ok demo2" "same_geom demo0 demo2" "fset demo2 0 = {6..<8}" by (auto simp: demo2_def gave_def demo0_sel)
qed

theorem fragextend_grows_witness:
  "\<exists>r s'. fragextend 0 (0 * fs_fpg demo2 + 4) (int (2 * fs_fsize demo2)) (int (4 * fs_fsize demo2)) demo2 = (r, s')
    \<and> r = 4 \<and> fset s' 0 = {}"
proof -
  have g: "fs_ncg demo2 = 2" "fs_frag demo2 = 4" "fs_fpg demo2 = 16" "\<not> cg_bad demo2 0"
    using demo2_ok(2) demo0_sel by (simp_all add: same_geom_def)
  have o: "old_frag demo2 0 4 2" "extendable demo2 0 4 2 4" by (auto simp: old_frag_def extendable_def g demo2_ok(3))
  obtain r s' where r: "fragextend 0 (0 * fs_fpg demo2 + 4) (int (2 * fs_fsize demo2)) (int (4 * fs_fsize demo2)) demo2 = (r, s')" by fastforce
  from fragextend_grows [OF demo2_ok(1) _ o(1) _ _ r] g o(2) have "r = 4 \<and> fset s' 0 = {}" by (auto simp: demo2_ok(3))
  with r show ?thesis by blast
qed

section \<open>Freeing\<close>

text \<open>C16. \<open>free\<close> of an allocated block or fragment puts exactly it back in the free map, with the
  counts of runs, fragments and reassembled blocks; freeing a fragment that is (partly) free, or a
  block that is wholly free, panics.\<close>

theorem free_returns:
  assumes "ufs_ok s" "c < fs_ncg s" "0 < k" "b mod fs_frag s + k \<le> fs_frag s" "b < fs_fpg s"
    and "0 < c * fs_fpg s + b" "c * fs_fpg s + b < fs_size s" "\<not> cg_bad s c"
  shows "if {b..<b + k} \<inter> fset s c = {}
    then \<exists>s'. free (int (c * fs_fpg s + b)) (int (k * fs_fsize s)) s = Inr s' \<and> gave s c {b..<b + k} s'
    else k < fs_frag s \<or> {b..<b + k} \<subseteq> fset s c \<longrightarrow>
      free (int (c * fs_fpg s + b)) (int (k * fs_fsize s)) s
        = Inl (Panic (if k < fs_frag s then ''free: freeing free frag'' else ''free: freeing free block''))"
proof -
  have "k \<le> fs_frag s" using assms(4) by simp
  then show ?thesis using free_spec [OF assms] by auto
qed

theorem free_returns_witness:
  "free (int (0 * fs_fpg demo1 + 5)) (int (2 * fs_fsize demo1)) demo1 = Inl (Panic ''free: freeing free frag'')"
  using free_returns [OF demo1_ok(1), of 0 2 5] by (simp add: demo1_sel demo1_ok(3))

text \<open>The last group may be partial: \<^verbatim>\<open>fs_size\<close> ends inside it, and its free map has no bit set from there on.\<close>

definition inside :: "ufs \<Rightarrow> bool" where
  "inside s \<longleftrightarrow> (\<forall>c<fs_ncg s. \<forall>q\<in>fset s c. c * fs_fpg s + q < fs_size s)"

text \<open>C17. Round trip: what \<open>alloccg\<close> hands out, \<open>free\<close> takes back; afterwards the free map of every
  group and the invariant are as before. The last group may be partial; the free map must
  only not mark fragments behind the end of the file system as free.\<close>

theorem alloc_free_roundtrip:
  assumes "ufs_ok s" "c < fs_ncg s" "0 < k" "k \<le> fs_frag s" "inside s"
    and "alloccg c bpref (int (k * fs_fsize s)) s = Inr (r, s')" "r \<noteq> 0"
  shows "\<exists>s''. free (int r) (int (k * fs_fsize s)) s' = Inr s'' \<and> fset s'' = fset s \<and> ufs_ok s''"
proof -
  note D = ufs_okD [OF assms(1,2)] and G = geomD [OF ufs_okD(1) [OF assms(1,2)]]
  have g: "\<not> cg_bad s c" and t: "took s c k r s'" using alloccg_spec(1) [OF assms(1-4,6)] assms(7) by (auto split: if_splits)
  then obtain q h where q: "r = c * fs_fpg s + q" "h < nblk s" "{q..<q + k} \<subseteq> fset s c \<inter> blk (fs_frag s) h"
    "fset s' c = fset s c - {q..<q + k}" "\<And>d. d \<noteq> c \<Longrightarrow> fset s' d = fset s d" "ufs_ok s'" "same_geom s s'"
    unfolding took_def by blast
  from q(7) have e: "fs_ncg s' = fs_ncg s" "fs_frag s' = fs_frag s" "fs_fpg s' = fs_fpg s" "fs_fsize s' = fs_fsize s" "fs_size s' = fs_size s" "\<not> cg_bad s' c"
    using g by (simp_all add: same_geom_def)
  have "q \<in> {q..<q + k}" "q + k - 1 \<in> {q..<q + k}" using assms(3) by auto
  then have b0: "q \<in> blk (fs_frag s) h" "q + k - 1 \<in> blk (fs_frag s) h" "q \<in> fset s c" using q(3) by blast+
  then have b: "q \<in> blk (fs_frag s) h" "q + k - 1 \<in> blk (fs_frag s) h" "q < fs_fpg s" using D(7) by auto
  define m where "m = q - h * fs_frag s"
  have m: "q = h * fs_frag s + m" "m + k \<le> fs_frag s" using b assms(3) by (auto simp: blk_def m_def)
  then have "q mod fs_frag s + k \<le> fs_frag s" using assms(3) by simp
  moreover have "r < fs_size s" using assms(2,5) b0(3) q(1) by (simp add: inside_def)
  ultimately obtain s'' where f: "free (int r) (int (k * fs_fsize s)) s' = Inr s''" "gave s' c {q..<q + k} s''"
    using free_spec(1) [OF q(6), of c k q] assms(2,3,7) q(1,4) b(3) e by auto
  have "fset s'' d = fset s d" for d using f(2) q(3,4,5) by (cases "d = c") (auto simp: gave_def)
  then show ?thesis using f by (auto simp: gave_def fun_eq_iff)
qed

theorem alloc_free_roundtrip_witness:
  "\<exists>r s' s''. alloccg 0 9 (int (3 * fs_fsize demo1)) demo1 = Inr (r, s') \<and> free (int r) (int (3 * fs_fsize demo1)) s' = Inr s''
    \<and> fset s'' 0 = {4..<8}"
proof -
  have i: "inside demo1" using demo1_ok(3,5) by (auto simp: inside_def demo1_sel less_Suc_eq numeral_2_eq_2)
  obtain r s' where r: "alloccg 0 9 (int (3 * fs_fsize demo1)) demo1 = Inr (r, s')" "r \<noteq> 0"
    using alloccg_spec [OF demo1_ok(1), of 0 3 9] by (auto simp: demo1_sel demo1_room took_def)
  from alloc_free_roundtrip [OF demo1_ok(1) _ _ _ i r] show ?thesis using r by (auto simp: demo1_sel demo1_ok(3))
qed

section \<open>The file system as a whole\<close>

lemma dtog_range: "geom_ok s \<Longrightarrow> b < fs_ncg s * fs_fpg s \<Longrightarrow> dtog s b < fs_ncg s"
  by (simp add: dtog_def less_mult_imp_div_less)

lemma itog_range: "i < fs_ncg s * fs_ipg s \<Longrightarrow> itog s i < fs_ncg s"
  by (simp add: itog_def less_mult_imp_div_less)

lemma no_full_block:
  assumes ok: "ufs_ok s" and z: "cs_nbfree (fs_cstotal s) = 0" and c: "c < fs_ncg s"
  shows "\<not> room s c (fs_frag s)"
proof -
  have nn: "0 \<le> cs_nbfree (fs_cs s d)" if "d < fs_ncg s" for d
    using ufs_okD(4,8) [OF ok that] sum_nonneg [of "{..<nblk s}" "bfree (fset s d) (fs_frag s)"] by (simp add: counts_def total_def)
  have "cstot_ok s" using ok unfolding ufs_ok_def by blast
  then have "(\<Sum>d<fs_ncg s. cs_nbfree (fs_cs s d)) = 0" using z unfolding cstot_ok_def by simp
  then have "cs_nbfree (fs_cs s c) = 0" using c nn by (subst (asm) sum_nonneg_eq_0_iff) auto
  then have "cs_nbfree (cg_cs (cgbuf s c)) = 0" using ufs_okD(4) [OF ok c] by simp
  then show ?thesis unfolding room_run [OF ok c geomD(2) [OF ufs_okD(1) [OF ok c]] order_refl]
    using counts_runs(2) [OF ok c] by (auto dest: order_antisym)
qed

text \<open>The group \<open>alloc\<close> starts with is one of the file system.\<close>

lemma alloc_group:
  assumes "geom_ok s" "i_number ip < fs_ncg s * fs_ipg s" "fs_size s \<le> fs_ncg s * fs_fpg s"
  shows "(if (if fs_size s \<le> bpref then 0 else bpref) = 0 then itog s (i_number ip) else dtog s (if fs_size s \<le> bpref then 0 else bpref)) < fs_ncg s"
  using itog_range [OF assms(2)] dtog_range [OF assms(1), of bpref] assms(3) by auto

text \<open>C14. A block or fragment that \<open>alloc\<close> returns was free, in one block of some group, and is the
  only space that changed hands. \<open>ENOSPC\<close> means that the reserve is used up for this user or that no
  readable group of the whole file system has room, not just the preferred one; then nothing
  changes.\<close>

theorem alloc_correct:
  assumes "ufs_ok s" "\<not> bad_size s siz" "0 < siz" "i_number ip < fs_ncg s * fs_ipg s" "fs_size s \<le> fs_ncg s * fs_fpg s"
    and res: "alloc u_uid dq ip bpref siz s = Inr (res, ip', s')"
  shows "case res of
      Buf bno \<Rightarrow> (\<exists>c<fs_ncg s. took s c (frags_of s siz) bno s') \<and> i_blocks ip' = i_blocks ip + btodb siz
    | Error e \<Rightarrow> ip' = ip \<and> kept s s' \<and> (e = dq \<and> dq \<noteq> 0 \<or> e = ENOSPC \<and>
        (u_uid \<noteq> 0 \<and> freespace s (fs_minfree s) \<le> 0 \<or> (\<forall>c<fs_ncg s. cg_bad s c \<or> \<not> room s c (frags_of s siz))))"
proof -
  have inv: "blk_inv siz s" using assms(1-3) by (simp add: blk_inv_def)
  have geom: "geom_ok s" using assms(1) by (simp add: ufs_ok_def)
  note f = frags_of [OF geom assms(2,3)]
  note keep = kept_refl [OF assms(1)]
  let ?p = "if fs_size s \<le> bpref then 0 else bpref"
  let ?c = "if ?p = 0 then itog s (i_number ip) else dtog s ?p"
  consider (full) "siz = int (fs_bsize s)" "cs_nbfree (fs_cstotal s) = 0"
    | (reserve) "\<not> (siz = int (fs_bsize s) \<and> cs_nbfree (fs_cstotal s) = 0)" "u_uid \<noteq> 0 \<and> freespace s (fs_minfree s) \<le> 0"
    | (quota) "\<not> (siz = int (fs_bsize s) \<and> cs_nbfree (fs_cstotal s) = 0)" "\<not> (u_uid \<noteq> 0 \<and> freespace s (fs_minfree s) \<le> 0)" "dq \<noteq> 0"
    | (go) "\<not> (siz = int (fs_bsize s) \<and> cs_nbfree (fs_cstotal s) = 0)" "\<not> (u_uid \<noteq> 0 \<and> freespace s (fs_minfree s) \<le> 0)" "dq = 0" by blast
  then show ?thesis
  proof cases
    case full
    have "frags_of s siz = fs_frag s" using full(1) f(1) geomD(5,6) [OF geom] by (simp flip: of_nat_mult)
    then show ?thesis using res full assms(2) keep no_full_block [OF assms(1) full(2)] by (auto simp: alloc_def)
  next
    case reserve
    then show ?thesis using res assms(2) keep by (auto simp: alloc_def)
  next
    case quota
    then show ?thesis using res assms(2) keep by (auto simp: alloc_def)
  next
    case go
    have "kbind (hashalloc (\<lambda>cg pref. alloccg cg pref siz) ?c ?p s) (\<lambda>(bno, s). if bno = 0 then Inr (Error ENOSPC, ip, s)
          else Inr (Buf bno, ip\<lparr>i_blocks := i_blocks ip + btodb siz, i_marked := True\<rparr>, s)) = Inr (res, ip', s')"
      using res go assms(2) unfolding alloc_def Let_def by (simp only: if_False simp_thms not_False_eq_True)
    then obtain bno t where h: "hashalloc (\<lambda>cg pref. alloccg cg pref siz) ?c ?p s = Inr (bno, t)"
      "(if bno = 0 then (Error ENOSPC, ip, t) else (Buf bno, ip\<lparr>i_blocks := i_blocks ip + btodb siz, i_marked := True\<rparr>, t)) = (res, ip', s')"
      by (auto simp: kbind_Inr_iff split: if_splits)
    have "blk.outcome siz s {..<fs_ncg s} bno t" by (rule blk.hashalloc_spec(1) [OF inv alloc_group [OF geom assms(4,5)] h(1)])
    then show ?thesis using h(2) unfolding blk.outcome_def
      by (auto simp: blk_post_def blk_avail_def kept_same blk_inv_def split: if_splits)
  qed
qed

text \<open>Liveness, for file systems with no rotational tables (\<^verbatim>\<open>fs_cpc = 0\<close>, as \<^verbatim>\<open>mkfs\<close> sets it for one track or when they do not fit) only: if any readable group has room for the request and
  neither reserve nor quota forbid it, \<open>alloc\<close> returns a buffer.\<close>

theorem alloc_succeeds:
  assumes "ufs_ok s" "\<not> bad_size s siz" "0 < siz" "i_number ip < fs_ncg s * fs_ipg s" "fs_size s \<le> fs_ncg s * fs_fpg s"
    and "fs_cpc s = 0" "c < fs_ncg s" "\<not> cg_bad s c" "room s c (frags_of s siz)" "dq = 0" "u_uid = 0 \<or> 0 < freespace s (fs_minfree s)"
  shows "\<exists>bno ip' s'. alloc u_uid dq ip bpref siz s = Inr (Buf bno, ip', s')"
proof -
  have inv: "blk_inv siz s \<and> fs_cpc s = 0" using assms by (simp add: blk_inv_def)
  have geom: "geom_ok s" using assms(1) by (simp add: ufs_ok_def)
  note f = frags_of [OF geom assms(2,3)]
  let ?p = "if fs_size s \<le> bpref then 0 else bpref"
  let ?c = "if ?p = 0 then itog s (i_number ip) else dtog s ?p"
  have notfull: "\<not> (siz = int (fs_bsize s) \<and> cs_nbfree (fs_cstotal s) = 0)"
  proof
    assume a: "siz = int (fs_bsize s) \<and> cs_nbfree (fs_cstotal s) = 0"
    then have "frags_of s siz = fs_frag s" using f(1) geomD(5,6) [OF geom] by (simp flip: of_nat_mult)
    then show False using no_full_block [OF assms(1) _ assms(7)] a assms(9) by simp
  qed
  obtain bno t where h: "hashalloc (\<lambda>cg pref. alloccg cg pref siz) ?c ?p s = Inr (bno, t)"
    using blkt.hashalloc_total [OF inv alloc_group [OF geom assms(4,5)]] by blast
  then have "blk.outcome siz s {..<fs_ncg s} bno t" by (rule blk.hashalloc_spec(1) [OF conjunct1 [OF inv] alloc_group [OF geom assms(4,5)]])
  then have "bno \<noteq> 0" using assms(7-9) unfolding blk.outcome_def by (auto simp: blk_avail_def split: if_splits)
  moreover have "alloc u_uid dq ip bpref siz s = kbind (hashalloc (\<lambda>cg pref. alloccg cg pref siz) ?c ?p s) (\<lambda>(bno, s). if bno = 0 then Inr (Error ENOSPC, ip, s)
          else Inr (Buf bno, ip\<lparr>i_blocks := i_blocks ip + btodb siz, i_marked := True\<rparr>, s))"
    unfolding alloc_def Let_def using notfull assms(2,10,11) by auto
  ultimately show ?thesis using h by simp
qed

lemma demo1_size: "\<not> bad_size demo1 3072" "frags_of demo1 3072 = 3"
  by (simp_all add: bad_size_def fragoff_def frags_of_def numfrags_def demo1_sel take_bit_eq_mask [symmetric] take_bit_eq_mod drop_bit_eq_div)

text \<open>Group 1 is preferred and has no room, so the fragment comes from group 0.\<close>

theorem alloc_succeeds_witness:
  "\<exists>bno ip' s'. alloc 0 0 \<lparr>i_number = 9, i_mode = 0, i_blocks = 0, i_marked = False\<rparr> 20 3072 demo1 = Inr (Buf bno, ip', s')"
  by (rule alloc_succeeds [OF demo1_ok(1) demo1_size(1), where c = 0]) (simp_all add: demo1_sel demo1_size(2) demo1_room)

theorem alloc_correct_witness:
  "\<exists>bno ip' s'. alloc 0 0 \<lparr>i_number = 9, i_mode = 0, i_blocks = 0, i_marked = False\<rparr> 20 3072 demo1 = Inr (Buf bno, ip', s')
    \<and> (\<exists>c<2. took demo1 c 3 bno s') \<and> i_blocks ip' = 6"
proof -
  let ?ip = "\<lparr>i_number = 9, i_mode = 0, i_blocks = 0, i_marked = False\<rparr>"
  have inv: "blk_inv 3072 demo1 \<and> fs_cpc demo1 = 0" using demo1_ok(1) demo1_size(1) by (simp add: blk_inv_def demo1_sel)
  obtain bno t where h: "hashalloc (\<lambda>cg pref. alloccg cg pref 3072) 1 20 demo1 = Inr (bno, t)"
    using blkt.hashalloc_total [OF inv, of 1 20] by (auto simp: demo1_sel)
  have "blk.outcome 3072 demo1 {..<2} bno t" using blk.hashalloc_spec(1) [OF conjunct1 [OF inv] _ h] by (simp add: demo1_sel)
  moreover have "blk_avail 3072 demo1 0" by (simp add: blk_avail_def demo1_sel demo1_size demo1_room)
  ultimately have "bno \<noteq> 0" unfolding blk.outcome_def by (auto split: if_splits)
  then obtain ip' where r: "alloc 0 0 ?ip 20 3072 demo1 = Inr (Buf bno, ip', t)"
    using h demo1_size(1) by (simp add: alloc_def Let_def demo1_sel dtog_def)
  from alloc_correct [OF demo1_ok(1) demo1_size(1) _ _ _ r] show ?thesis using r by (simp add: demo1_sel demo1_size(2) btodb_def)
qed

section \<open>Inodes of the file system\<close>

lemma no_inode:
  assumes ok: "ufs_ok s" and z: "cs_nifree (fs_cstotal s) = 0" and c: "c < fs_ncg s"
  shows "\<not> ino_avail s c"
proof -
  have nn: "0 \<le> cs_nifree (fs_cs s d)" if "d < fs_ncg s" for d
    using ufs_okD(3,4) [OF ok that] by (simp add: imap_ok_def)
  have "cstot_ok s" using ok unfolding ufs_ok_def by blast
  then have "(\<Sum>d<fs_ncg s. cs_nifree (fs_cs s d)) = 0" using z unfolding cstot_ok_def by simp
  then have "cs_nifree (fs_cs s c) = 0" using c nn by (subst (asm) sum_nonneg_eq_0_iff) auto
  then have "cs_nifree (cg_cs (cgbuf s c)) = 0" using ufs_okD(4) [OF ok c] by simp
  then show ?thesis using nifree_iff [OF ok c] by (auto simp: ino_avail_def)
qed

lemma iupd_back:
  assumes "iupd s c (insert i (iset s c)) t" "i \<notin> iset s c" "iupd t c (iset t c - {i}) u"
  shows "kept s u"
proof -
  have "iset u d = iset s d" for d using assms by (cases "d = c") (auto simp: iupd_def)
  then show ?thesis using assms same_geom_trans [of s t u] by (auto simp: kept_def iupd_def fun_eq_iff)
qed

text \<open>C19. \<open>ialloc\<close> returns an inode that was free and marks exactly it used; when it returns none,
  the inode maps are as before: for lack of inodes in every readable group, by the quota, or because
  \<open>iget\<close> failed, in which case the inode is given back.\<close>

theorem ialloc_correct:
  assumes "ufs_ok s" and res: "ialloc iq iget ipref mode s = Inr (r, s')"
  shows "case r of
      Ino ip \<Rightarrow> \<exists>c<fs_ncg s. \<exists>i<fs_ipg s. \<exists>ip0. i \<notin> iset s c \<and> iupd s c (insert i (iset s c)) s'
        \<and> iget (c * fs_ipg s + i) = Some ip0 \<and> i_mode ip0 = 0 \<and> ip = ip0\<lparr>i_blocks := 0\<rparr>
    | NoIno e \<Rightarrow> kept s s' \<and> (e = iq \<and> iq \<noteq> 0 \<or> e = ENOSPC \<and> (\<forall>c<fs_ncg s. \<not> ino_avail s c) \<or> e = 0)"
proof -
  note keep = kept_refl [OF assms(1)]
  let ?p = "if fs_ncg s * fs_ipg s \<le> ipref then 0 else ipref"
  have geom: "geom_ok s" using assms(1) by (simp add: ufs_ok_def)
  have cg: "itog s ?p < fs_ncg s" using itog_range [of ?p s] geomD(10,11) [OF geom] by auto
  consider (none) "cs_nifree (fs_cstotal s) = 0" | (quota) "cs_nifree (fs_cstotal s) \<noteq> 0" "iq \<noteq> 0"
    | (go) "cs_nifree (fs_cstotal s) \<noteq> 0" "iq = 0" by blast
  then show ?thesis
  proof cases
    case none
    then show ?thesis using res keep no_inode [OF assms(1) none] by (auto simp: ialloc_def)
  next
    case quota
    then show ?thesis using res keep by (auto simp: ialloc_def)
  next
    case go
    obtain ino t where h: "hashalloc (\<lambda>cg pref. ialloccg cg pref mode) (itog s ?p) ?p s = Inr (ino, t)"
      using ino.hashalloc_total [OF assms(1) cg] by blast
    have o: "ino.outcome s {..<fs_ncg s} ino t" by (rule ino.hashalloc_spec(1) [OF assms(1) cg h])
    have k: "(if ino = 0 then Inr (NoIno ENOSPC, t) else case iget ino of
            None \<Rightarrow> kbind (ifree ino 0 t) (\<lambda>s. Inr (NoIno 0, s))
          | Some ip \<Rightarrow> if i_mode ip \<noteq> 0 then Inl (Panic ''ialloc: dup alloc'')
              else Inr (Ino (if i_blocks ip \<noteq> 0 then ip\<lparr>i_blocks := 0\<rparr> else ip), t)) = Inr (r, s')"
      using res go h by (simp add: ialloc_def Let_def)
    show ?thesis
    proof (cases "ino = 0")
      case True
      then have "r = NoIno ENOSPC" "s' = t" using k by auto
      then show ?thesis using o True unfolding ino.outcome_def by (simp add: kept_same)
    next
      case False
      then obtain c i where ci: "c < fs_ncg s" "i < fs_ipg s" "ino = c * fs_ipg s + i" "i \<notin> iset s c" "iupd s c (insert i (iset s c)) t"
        "\<not> cg_bad s c"
        using o unfolding ino.outcome_def by (auto simp: ino_post_def ino_avail_def)
      have t: "ufs_ok t" "c < fs_ncg t" "i < fs_ipg t" "fs_ipg t = fs_ipg s" "i \<in> iset t c" "\<not> cg_bad t c"
        using ci by (auto simp: iupd_def same_geom_def)
      show ?thesis
      proof (cases "iget ino")
        case None
        then obtain u where u: "ifree ino 0 t = Inr u" "r = NoIno 0" "s' = u" using k False by (auto simp: kbind_Inr_iff)
        have "\<exists>v. ifree (c * fs_ipg t + i) 0 t = Inr v \<and> iupd t c (iset t c - {i}) v"
          by (rule ifree_spec(1) [OF t(1,2,3,6) _ t(5)]) (use False ci(3) t(4) in simp)
        then have "iupd t c (iset t c - {i}) u" using u(1) ci(3) t(4) by simp
        then have "kept s u" by (rule iupd_back [OF ci(5,4)])
        then show ?thesis using u by simp
      next
        case (Some ip)
        then have "i_mode ip = 0" "r = Ino (ip\<lparr>i_blocks := 0\<rparr>)" "s' = t" using k False by (auto split: if_splits)
        then show ?thesis using ci Some by auto
      qed
    qed
  qed
qed

lemma demo1_ino: "ino_avail demo1 0"
  unfolding ino_avail_def using demo1_ok(4) by (auto simp: demo1_sel intro!: exI [of _ 3])

theorem ialloc_correct_witness:
  "\<exists>ip s'. ialloc 0 (\<lambda>n. Some \<lparr>i_number = n, i_mode = 0, i_blocks = 4, i_marked = False\<rparr>) 12 0 demo1 = Inr (Ino ip, s')
    \<and> (\<exists>c<2. \<exists>i<8. i \<notin> iset demo1 c \<and> iupd demo1 c (insert i (iset demo1 c)) s' \<and> i_blocks ip = 0)"
proof -
  let ?iget = "\<lambda>n. Some \<lparr>i_number = n, i_mode = 0, i_blocks = 4, i_marked = False\<rparr>"
  obtain n t where h: "hashalloc (\<lambda>cg pref. ialloccg cg pref 0) 1 12 demo1 = Inr (n, t)"
    using ino.hashalloc_total [OF demo1_ok(1), where cg = 1 and mode = 0 and pref = 12] by (auto simp: demo1_sel)
  have "ino.outcome demo1 {..<2} n t" using ino.hashalloc_spec(1) [OF demo1_ok(1) _ h] by (simp add: demo1_sel)
  then have n: "n \<noteq> 0" using demo1_ino unfolding ino.outcome_def by (auto split: if_splits)
  have "cs_nifree (fs_cstotal demo1) \<noteq> 0" using no_inode [OF demo1_ok(1), of 0] demo1_ino by (auto simp: demo1_sel)
  then have r: "ialloc 0 ?iget 12 0 demo1 = Inr (Ino \<lparr>i_number = n, i_mode = 0, i_blocks = 0, i_marked = False\<rparr>, t)"
    using h n by (simp add: ialloc_def Let_def demo1_sel itog_def)
  from ialloc_correct [OF demo1_ok(1) r] r show ?thesis by (auto simp: demo1_sel)
qed

text \<open>C20. \<open>ifree\<close> of a used inode marks exactly it free and keeps the counts; of a free one it panics,
  as it does for a number outside the file system.\<close>

theorem ifree_correct:
  assumes "ufs_ok s" "c < fs_ncg s" "i < fs_ipg s" "\<not> cg_bad s c" "c * fs_ipg s + i \<noteq> 0"
  shows "if i \<in> iset s c then \<exists>s'. ifree (c * fs_ipg s + i) mode s = Inr s' \<and> iupd s c (iset s c - {i}) s'
    else ifree (c * fs_ipg s + i) mode s = Inl (Panic ''ifree: freeing free inode'')"
  using ifree_spec [OF assms] by auto

theorem ifree_correct_witness: "ifree 3 0 demo1 = Inl (Panic ''ifree: freeing free inode'')"
  using ifree_correct [OF demo1_ok(1), of 0 3 0] demo1_ok(4) by (simp add: demo1_sel)

section \<open>Preferences\<close>

lemma dirpref_loop_spec:
  "dirpref_loop cs avg cgs m g = b \<Longrightarrow>
     (b \<in> set cgs \<and> avg \<le> cs_nifree (cs b) \<and> cs_ndir (cs b) < m \<and> (\<forall>d\<in>set cgs. avg \<le> cs_nifree (cs d) \<longrightarrow> cs_ndir (cs b) \<le> cs_ndir (cs d)))
     \<or> (b = g \<and> (\<forall>d\<in>set cgs. avg \<le> cs_nifree (cs d) \<longrightarrow> m \<le> cs_ndir (cs d)))"
proof (induction cgs arbitrary: m g)
  case (Cons c cgs)
  show ?case
  proof (cases "cs_ndir (cs c) < m \<and> cs_nifree (cs c) \<ge> avg")
    case True
    then have "dirpref_loop cs avg cgs (cs_ndir (cs c)) c = b" using Cons.prems by simp
    from Cons.IH [OF this] True show ?thesis by auto
  next
    case False
    then have "dirpref_loop cs avg cgs m g = b" using Cons.prems by (simp split: if_splits)
    from Cons.IH [OF this] False show ?thesis by auto
  qed
qed simp

text \<open>\<open>dirpref\<close> picks, among the groups with at least the average number of free inodes, one with
  the fewest directories (if any of them has fewer directories than inodes per group).\<close>

theorem dirpref_fewest:
  assumes "d < fs_ncg s" "0 < fs_ipg s" "avg = cs_nifree (fs_cstotal s) sdiv int (fs_ncg s)"
    and "avg \<le> cs_nifree (fs_cs s d)" "cs_ndir (fs_cs s d) < int (fs_ipg s)"
  shows "\<exists>b<fs_ncg s. dirpref s = fs_ipg s * b \<and> avg \<le> cs_nifree (fs_cs s b) \<and> cs_ndir (fs_cs s b) \<le> cs_ndir (fs_cs s d)"
proof -
  define b where "b = dirpref_loop (fs_cs s) avg [0..<fs_ncg s] (int (fs_ipg s)) 0"
  have "b \<in> set [0..<fs_ncg s] \<and> avg \<le> cs_nifree (fs_cs s b) \<and> (\<forall>d\<in>set [0..<fs_ncg s]. avg \<le> cs_nifree (fs_cs s d) \<longrightarrow> cs_ndir (fs_cs s b) \<le> cs_ndir (fs_cs s d))"
    using dirpref_loop_spec [OF b_def [symmetric]] assms by fastforce
  moreover have "dirpref s = fs_ipg s * b" using assms(3) by (simp add: dirpref_def b_def)
  ultimately show ?thesis using assms(1,4) by auto
qed

definition demo3 :: ufs where
  "demo3 = demo0\<lparr>fs_cstotal := \<lparr>cs_ndir = 5, cs_nbfree = 3, cs_nifree = 6, cs_nffree = 0\<rparr>,
     fs_cs := (\<lambda>c. if c = 0 then \<lparr>cs_ndir = 3, cs_nbfree = 1, cs_nifree = 3, cs_nffree = 0\<rparr>
                   else \<lparr>cs_ndir = 2, cs_nbfree = 2, cs_nifree = 3, cs_nffree = 0\<rparr>)\<rparr>"

theorem dirpref_fewest_witness:
  "\<exists>b<fs_ncg demo3. dirpref demo3 = fs_ipg demo3 * b \<and> 3 \<le> cs_nifree (fs_cs demo3 b) \<and> cs_ndir (fs_cs demo3 b) \<le> cs_ndir (fs_cs demo3 1)"
  by (rule dirpref_fewest) (simp_all add: demo3_def demo0_def sdiv_nonneg)

lemma rotor_find_spec:
  "case rotor_find cs avg cgs of Some c \<Rightarrow> c \<in> set cgs \<and> avg \<le> cs_nbfree (cs c) | None \<Rightarrow> \<forall>c\<in>set cgs. cs_nbfree (cs c) < avg"
  by (induction cgs) (auto split: option.splits)

lemma some_above_average:
  assumes ok: "ufs_ok s"
  shows "\<exists>c<fs_ncg s. cs_nbfree (fs_cstotal s) sdiv int (fs_ncg s) \<le> cs_nbfree (fs_cs s c)"
proof (rule ccontr)
  let ?t = "cs_nbfree (fs_cstotal s)" and ?n = "int (fs_ncg s)"
  assume "\<not> ?thesis"
  then have l: "cs_nbfree (fs_cs s c) \<le> ?t sdiv ?n - 1" if "c < fs_ncg s" for c using that by force
  have n: "0 < ?n" using ok geomD(10) [of s] by (simp add: ufs_ok_def)
  have "cstot_ok s" using ok unfolding ufs_ok_def by blast
  then have "?t = (\<Sum>c<fs_ncg s. cs_nbfree (fs_cs s c))" by (simp add: cstot_ok_def)
  also have "\<dots> \<le> (\<Sum>c<fs_ncg s. ?t sdiv ?n - 1)" by (rule sum_mono) (use l in simp)
  finally have "?t \<le> ?n * (?t sdiv ?n - 1)" by simp
  then have "?t \<le> ?n * (?t sdiv ?n) - ?n" by (simp add: right_diff_distrib)
  then show False using sdiv_bounds(2) [OF n, of ?t] by linarith
qed

text \<open>At the start of a new section of a large file \<open>blkpref\<close> moves the rotor to a group with at
  least the average number of free blocks, and such a group always exists.\<close>

theorem blkpref_new_section:
  assumes "ufs_ok s" "fs_cgrotor s < fs_ncg s" "indx mod fs_maxbpg s = 0" "NDADDR \<le> lbn"
  shows "\<exists>c<fs_ncg s. blkpref ip lbn indx bap s = Inr (fs_fpg s * c + fs_frag s, s\<lparr>fs_cgrotor := c\<rparr>)
    \<and> cs_nbfree (fs_cstotal s) sdiv int (fs_ncg s) \<le> cs_nbfree (fs_cs s c)"
proof -
  let ?cgs = "[fs_cgrotor s + 1..<fs_ncg s] @ [0..<fs_cgrotor s + 1]"
  have all: "set ?cgs = {..<fs_ncg s}" using assms(2) by auto
  let ?avg = "cs_nbfree (fs_cstotal s) sdiv int (fs_ncg s)"
  note sp = rotor_find_spec [where cs = "fs_cs s" and avg = ?avg and cgs = ?cgs, unfolded all]
  obtain c where "rotor_find (fs_cs s) ?avg ?cgs = Some c" "c < fs_ncg s" "?avg \<le> cs_nbfree (fs_cs s c)"
  proof (cases "rotor_find (fs_cs s) ?avg ?cgs")
    case None
    with sp have "\<forall>c<fs_ncg s. cs_nbfree (fs_cs s c) < ?avg" by simp
    then show thesis using some_above_average [OF assms(1)] by force
  next
    case (Some c)
    with sp that show thesis by simp
  qed
  then show ?thesis using assms(3,4) unfolding blkpref_def Let_def by (auto simp del: upt_Suc)
qed

theorem blkpref_new_section_witness:
  "\<exists>c<2. blkpref \<lparr>i_number = 9, i_mode = 0, i_blocks = 0, i_marked = False\<rparr> 20 8 [] demo0 = Inr (fs_fpg demo0 * c + fs_frag demo0, demo0\<lparr>fs_cgrotor := c\<rparr>)"
  using blkpref_new_section [OF demo0_ok, of 8 20] by (auto simp: demo0_sel demo0_def NDADDR_def)

section \<open>Space lost on a read error\<close>

text \<open>When \<open>realloccg\<close> has extended the fragment on disk and then cannot read its old contents, it
  returns an error with the inode unchanged, but the new fragments stay allocated: no file owns them.\<close>

theorem realloccg_loses_space:
  assumes "ufs_ok s" "c < fs_ncg s" "old_frag s c b n" "n < n'" "n' \<le> fs_frag s" "\<not> cg_bad s c" "extendable s c b n n'"
    and "\<not> bad_size s (int (n * fs_fsize s))" "\<not> bad_size s (int (n' * fs_fsize s))" "0 < c * fs_fpg s + b"
    and "u_uid = 0 \<or> 0 < freespace s (fs_minfree s)"
  shows "\<exists>s'. realloccg u_uid 0 True ip (c * fs_fpg s + b) bpref (int (n * fs_fsize s)) (int (n' * fs_fsize s)) s = Inr (Error EIO, ip, s')
    \<and> fset s' c = fset s c - {b + n..<b + n'}"
proof -
  obtain r s' where f: "fragextend c (c * fs_fpg s + b) (int (n * fs_fsize s)) (int (n' * fs_fsize s)) s = (r, s')" by fastforce
  have e: "r = c * fs_fpg s + b" "fset s' c = fset s c - {b + n..<b + n'}" using fragextend_spec [OF assms(1-5) f] assms(6,7) by auto
  have d: "dtog s (c * fs_fpg s + b) = c" using assms(3) by (simp add: old_frag_def dtog_def)
  have "realloccg u_uid 0 True ip (c * fs_fpg s + b) bpref (int (n * fs_fsize s)) (int (n' * fs_fsize s)) s = Inr (Error EIO, ip, s')"
    unfolding realloccg_def Let_def d f using assms(8-11) e(1) by auto
  then show ?thesis using e(2) by blast
qed

theorem realloccg_loses_space_witness:
  "\<exists>s'. realloccg 0 0 True \<lparr>i_number = 3, i_mode = 0, i_blocks = 4, i_marked = False\<rparr> 4 0 2048 4096 demo2
      = Inr (Error EIO, \<lparr>i_number = 3, i_mode = 0, i_blocks = 4, i_marked = False\<rparr>, s')
    \<and> fset s' 0 = {}"
proof -
  have g: "fs_ncg demo2 = 2" "fs_frag demo2 = 4" "fs_fpg demo2 = 16" "\<not> cg_bad demo2 0" "fs_fsize demo2 = 1024"
      "fs_bsize demo2 = 4096" "fs_fmask demo2 = NOT (mask 10)"
    using demo2_ok(2) demo0_sel by (simp_all add: same_geom_def)
  have o: "old_frag demo2 0 4 2" "extendable demo2 0 4 2 4" by (auto simp: old_frag_def extendable_def g demo2_ok(3))
  have z: "\<not> bad_size demo2 (int (2 * fs_fsize demo2))" "\<not> bad_size demo2 (int (4 * fs_fsize demo2))"
    by (simp_all add: bad_size_def fragoff_def g take_bit_eq_mask [symmetric] take_bit_eq_mod)
  show ?thesis
    using realloccg_loses_space [OF demo2_ok(1) _ o(1) _ _ g(4) o(2) z, of 0 "\<lparr>i_number = 3, i_mode = 0, i_blocks = 4, i_marked = False\<rparr>" 0]
    by (auto simp: g demo2_ok(3))
qed

end
