(* ===== verification/Mbuf.thy ===== *)
theory Mbuf
  imports Prelude
begin

text \<open>
  Memory buffers, \<^verbatim>\<open>sys/sys/uipc_mbuf.c\<close> and \<^verbatim>\<open>sys/h/mbuf.h\<close>. A chain (linked by \<^verbatim>\<open>m_next\<close>) is a
  list of mbufs, the null pointer the empty list. The data of an mbuf lies in the mbuf itself
  (\<open>Dat off\<close>, where \<open>off\<close> is the byte offset \<^verbatim>\<open>m_off\<close>, 12 to 124), in a page cluster that several
  mbufs may share (\<open>Clu c off\<close>, counted in \<^verbatim>\<open>mclrefcnt\<close>, an array of bytes that wrap) or in memory owned by someone else
  (\<open>Fun arg bytes off\<close>, released by calling \<^verbatim>\<open>m_clfun(arg)\<close>). For the last two \<^verbatim>\<open>m_off\<close> is an address
  difference, at least \<^verbatim>\<open>MSIZE\<close>. Free mbufs are all alike, so the list \<^verbatim>\<open>mfree\<close> is its length; what
  the last user left in one is the parameter \<open>junk\<close>. \<open>mbmap\<close> lists the clusters that the resource map
  \<^verbatim>\<open>mbmap\<close> has free, in the order it would return them, and \<open>pages\<close> is how many more \<^verbatim>\<open>memall\<close> has memory for.
\<close>

section \<open>The state\<close>

type_synonym byte = "8 word"

datatype mloc = Dat nat | Clu nat nat | Fun nat "byte list" nat

record mbuf =
  m_loc :: mloc
  m_len :: int
  m_type :: nat
  m_dat :: "byte list"

type_synonym chain = "mbuf list"

record mbst =
  mfree :: nat
  mbmap :: "nat list"
  pages :: nat
  mtypes :: "nat \<Rightarrow> int"
  mbufs :: int
  drops :: int
  m_want :: bool
  mclfree :: "nat list"
  clusters :: int
  mclref :: "nat \<Rightarrow> 8 word"
  cldata :: "nat \<Rightarrow> byte list"
  clfun_calls :: "nat list"
  kmem_next :: nat
  junk :: "byte list"
  junk_len :: int

definition MT_FREE :: nat where "MT_FREE = 0"
definition MT_DATA :: nat where "MT_DATA = 1"
definition MT_SONAME :: nat where "MT_SONAME = 8"

definition MSIZE :: int where "MSIZE = 128"
definition MMINOFF :: nat where "MMINOFF = 12"
definition MMAXOFF :: nat where "MMAXOFF = 124"
definition MLEN :: int where "MLEN = 112"
definition CLBYTES :: int where "CLBYTES = 1024"
definition M_COPYALL :: int where "M_COPYALL = 1000000000"
definition MPULL_EXTRA :: int where "MPULL_EXTRA = 32"

text \<open>The memory from \<^verbatim>\<open>mtod(m)\<close> on, and the \<^verbatim>\<open>m_len\<close> bytes of data in it.\<close>

fun mtod :: "mbst \<Rightarrow> mbuf \<Rightarrow> byte list" where
  "mtod s m = (case m_loc m of Dat off \<Rightarrow> drop (off - MMINOFF) (m_dat m) | Clu c off \<Rightarrow> drop off (cldata s c)
     | Fun arg bytes off \<Rightarrow> drop off bytes)"

definition mdata :: "mbst \<Rightarrow> mbuf \<Rightarrow> byte list" where "mdata s m = take (nat (m_len m)) (mtod s m)"

definition M_HASCL :: "mbuf \<Rightarrow> bool" where
  "M_HASCL m = (case m_loc m of Dat off \<Rightarrow> False | Clu c off \<Rightarrow> True | Fun arg bytes off \<Rightarrow> True)"

text \<open>\<open>m_off += len\<close>, wherever the data is.\<close>

fun add_off :: "nat \<Rightarrow> mloc \<Rightarrow> mloc" where
  "add_off k (Dat off) = Dat (off + k)"
| "add_off k (Clu c off) = Clu c (off + k)"
| "add_off k (Fun arg bytes off) = Fun arg bytes (off + k)"

section \<open>Allocation\<close>

definition type_move :: "nat \<Rightarrow> nat \<Rightarrow> mbst \<Rightarrow> mbst" where
  "type_move t u s = (let n = (mtypes s)(t := mtypes s t - 1) in s\<lparr>mtypes := n(u := n u + 1)\<rparr>)"

text \<open>The fast path of \<^verbatim>\<open>MGET\<close>, for a non-empty free list.\<close>

definition mget_free :: "nat \<Rightarrow> mbst \<Rightarrow> mbuf \<times> mbst" where
  "mget_free t s = (\<lparr>m_loc = Dat MMINOFF, m_len = junk_len s, m_type = t, m_dat = junk s\<rparr>, (type_move MT_FREE t s)\<lparr>mfree := mfree s - 1\<rparr>)"

text \<open>Releasing the outside storage of an mbuf: the switch of \<^verbatim>\<open>MFREE\<close>, the same as in \<open>mclput\<close>.\<close>

definition mclput :: "mbuf \<Rightarrow> mbst \<Rightarrow> mbst" where
  "mclput m s = (case m_loc m of
       Dat off \<Rightarrow> s
     | Clu c off \<Rightarrow> let s = s\<lparr>mclref := (mclref s)(c := mclref s c - 1)\<rparr> in
         if mclref s c = 0 then s\<lparr>mclfree := c # mclfree s\<rparr> else s
     | Fun arg bytes off \<Rightarrow> s\<lparr>clfun_calls := arg # clfun_calls s\<rparr>)"

definition m_free :: "mbuf \<Rightarrow> mbst \<Rightarrow> mbst kern" where
  "m_free m s = (if m_type m = MT_FREE then Inl (Panic ''mfree'')
     else let s = mclput m (type_move (m_type m) MT_FREE s) in Inr (s\<lparr>mfree := mfree s + 1, m_want := False\<rparr>))"

fun m_freem :: "chain \<Rightarrow> mbst \<Rightarrow> mbst kern" where
  "m_freem [] s = Inr s"
| "m_freem (m # ms) s = kbind (m_free m s) (m_freem ms)"

text \<open>\<open>m_clalloc\<close>: clusters from the map, put on the cluster free list or cut into mbufs.\<close>

datatype mpg = MPG_MBUFS | MPG_CLUSTERS | MPG_SPACE

fun carve :: "nat \<Rightarrow> mbst \<Rightarrow> mbst kern" where
  "carve 0 s = Inr s"
| "carve (Suc i) s = kbind (m_free \<lparr>m_loc = Dat 0, m_len = 0, m_type = MT_DATA, m_dat = []\<rparr>
       (s\<lparr>mtypes := (mtypes s)(MT_DATA := mtypes s MT_DATA + 1), mbufs := mbufs s + 1\<rparr>)) (carve i)"

definition m_clalloc :: "nat \<Rightarrow> mpg \<Rightarrow> bool \<Rightarrow> mbst \<Rightarrow> (bool \<times> mbst) kern" where
  "m_clalloc ncl how canwait s =
     (if length (mbmap s) < ncl then if canwait then Inl (Panic ''out of mbufs: map full'') else Inr (False, s)
      else if pages s < ncl then Inr (False, s)
      else let new = take ncl (mbmap s); s = s\<lparr>mbmap := drop ncl (mbmap s), pages := pages s - ncl\<rparr> in
        case how of
          MPG_CLUSTERS \<Rightarrow> Inr (True, s\<lparr>mclfree := rev new @ mclfree s, clusters := clusters s + int ncl\<rparr>)
        | MPG_MBUFS \<Rightarrow> kbind (carve (nat (int ncl * CLBYTES div MSIZE)) s) (\<lambda>s. Inr (True, s))
        | MPG_SPACE \<Rightarrow> Inr (True, s))"

definition mbinit :: "mbst \<Rightarrow> mbst kern" where
  "mbinit s = kbind (m_clalloc (nat (4096 div CLBYTES)) MPG_MBUFS False s) (\<lambda>(ok, s).
     if \<not> ok then Inl (Panic ''mbinit'')
     else kbind (m_clalloc (nat (4096 div CLBYTES)) MPG_CLUSTERS False s) (\<lambda>(ok, s).
       if \<not> ok then Inl (Panic ''mbinit'') else Inr s))"

definition m_expand :: "bool \<Rightarrow> mbst \<Rightarrow> (bool \<times> mbst) kern" where
  "m_expand canwait s = m_clalloc 1 MPG_MBUFS canwait s"

text \<open>\<open>m_more\<close>. With \<open>canwait\<close> the caller goes to sleep when there is no memory, and \<open>None\<close> means so.\<close>

definition m_more :: "bool \<Rightarrow> nat \<Rightarrow> mbst \<Rightarrow> (mbuf option \<times> mbst) kern" where
  "m_more canwait t s = kbind (m_expand canwait s) (\<lambda>(ok, s).
     if ok then let (m, s) = mget_free t s in Inr (Some m, s)
     else Inr (None, if canwait then s\<lparr>m_want := True\<rparr> else s\<lparr>drops := drops s + 1\<rparr>))"

definition m_get :: "bool \<Rightarrow> nat \<Rightarrow> mbst \<Rightarrow> (mbuf option \<times> mbst) kern" where
  "m_get canwait t s =
     (if 0 < mfree s then let (m, s) = mget_free t s in Inr (Some m, s) else m_more canwait t s)"

definition m_getclr :: "bool \<Rightarrow> nat \<Rightarrow> mbst \<Rightarrow> (mbuf option \<times> mbst) kern" where
  "m_getclr canwait t s = kbind (m_get canwait t s) (\<lambda>(m, s).
     Inr (map_option (m_dat_update (\<lambda>_. replicate (nat MLEN) 0)) m, s))"

text \<open>\<^verbatim>\<open>MCLALLOC\<close> and \<^verbatim>\<open>MCLGET\<close>.\<close>

definition mclalloc :: "mbst \<Rightarrow> (nat option \<times> mbst) kern" where
  "mclalloc s = kbind (if mclfree s = [] then m_clalloc 1 MPG_CLUSTERS False s else Inr (True, s)) (\<lambda>(_, s).
     case mclfree s of
       [] \<Rightarrow> Inr (None, s)
     | c # cs \<Rightarrow> Inr (Some c, s\<lparr>mclfree := cs, mclref := (mclref s)(c := mclref s c + 1)\<rparr>))"

definition mclget :: "mbuf \<Rightarrow> mbst \<Rightarrow> (mbuf \<times> mbst) kern" where
  "mclget m s = kbind (mclalloc s) (\<lambda>(c, s).
     case c of None \<Rightarrow> Inr (m, s) | Some c \<Rightarrow> Inr (m\<lparr>m_loc := Clu c 0, m_len := CLBYTES\<rparr>, s))"

section \<open>Copying\<close>

text \<open>\<open>bcopy\<close> of \<open>bytes\<close> to position \<open>i\<close> of the data area of an mbuf. Writing past the area, or
  into an mbuf whose data is elsewhere, is outside this model: the code never intends it.\<close>

definition put_dat :: "mbuf \<Rightarrow> nat \<Rightarrow> byte list \<Rightarrow> mbuf kern" where
  "put_dat m i bytes = (case m_loc m of
       Dat off \<Rightarrow> let k = off - MMINOFF + i in
         if MMINOFF \<le> off \<and> k + length bytes \<le> length (m_dat m)
         then Inr (m\<lparr>m_dat := take k (m_dat m) @ bytes @ drop (k + length bytes) (m_dat m)\<rparr>) else Inl (Fault ''bcopy'')
     | Clu c off \<Rightarrow> Inl (Fault ''bcopy'') | Fun arg bytes off \<Rightarrow> Inl (Fault ''bcopy''))"

text \<open>\<open>mcldup(m, n, off)\<close>: a cluster is shared, foreign memory is copied into fresh kernel memory.\<close>

definition mcldup :: "mbuf \<Rightarrow> mbuf \<Rightarrow> nat \<Rightarrow> mbst \<Rightarrow> (mbuf \<times> mbst) kern" where
  "mcldup m n off s = (case m_loc m of
       Clu c o' \<Rightarrow> Inr (n\<lparr>m_loc := Clu c o'\<rparr>, s\<lparr>mclref := (mclref s)(c := mclref s c + 1)\<rparr>)
     | Fun arg bytes o' \<Rightarrow>
         Inr (n\<lparr>m_loc := Fun (kmem_next s) (replicate off 0 @ take (nat (m_len n)) (drop (o' + off) bytes)) 0\<rparr>, s\<lparr>kmem_next := kmem_next s + 1\<rparr>)
     | Dat off \<Rightarrow> Inl (Panic ''mcldup''))"

text \<open>The copy of one mbuf into the new mbuf \<open>n\<close>, in \<open>m_copy\<close>.\<close>

definition copy_one :: "mbuf \<Rightarrow> mbuf \<Rightarrow> nat \<Rightarrow> mbst \<Rightarrow> (mbuf \<times> mbst) kern" where
  "copy_one m n off s =
     (if M_HASCL m \<and> MLEN < m_len n
      then kbind (mcldup m n off s) (\<lambda>(n, s). Inr (n\<lparr>m_loc := add_off off (m_loc n)\<rparr>, s))
      else kbind (put_dat n 0 (take (nat (m_len n)) (drop off (mtod s m)))) (\<lambda>n. Inr (n, s)))"

fun m_skip :: "chain \<Rightarrow> int \<Rightarrow> (chain \<times> int) kern" where
  "m_skip [] off = (if 0 < off then Inl (Panic ''m_copy'') else Inr ([], off))"
| "m_skip (m # ms) off = (if 0 < off \<and> \<not> off < m_len m then m_skip ms (off - m_len m) else Inr (m # ms, off))"

text \<open>The loop; \<open>None\<close> when there was no mbuf, with the part copied so far in \<open>acc\<close>.\<close>

fun copy_loop :: "chain \<Rightarrow> int \<Rightarrow> int \<Rightarrow> chain \<Rightarrow> mbst \<Rightarrow> (bool \<times> chain \<times> mbst) kern" where
  "copy_loop [] off len acc s = (if 0 < len \<and> len \<noteq> M_COPYALL then Inl (Panic ''m_copy'') else Inr (True, acc, s))"
| "copy_loop (m # ms) off len acc s =
     (if 0 < len then
        kbind (m_get False (m_type m) s) (\<lambda>(n, s). case n of
          None \<Rightarrow> Inr (False, acc, s)
        | Some n \<Rightarrow> let n = n\<lparr>m_len := min len (m_len m - off)\<rparr> in
            kbind (copy_one m n (nat off) s) (\<lambda>(n, s).
              copy_loop ms 0 (if len \<noteq> M_COPYALL then len - m_len n else len) (acc @ [n]) s))
      else Inr (True, acc, s))"

definition m_copy :: "chain \<Rightarrow> int \<Rightarrow> int \<Rightarrow> mbst \<Rightarrow> (chain \<times> mbst) kern" where
  "m_copy m off len s =
     (if len = 0 then Inr ([], s)
      else if off < 0 \<or> len < 0 then Inl (Panic ''m_copy'')
      else kbind (m_skip m off) (\<lambda>(m, off).
        kbind (copy_loop m off len [] s) (\<lambda>(ok, acc, s).
          if ok then Inr (acc, s) else kbind (m_freem acc s) (\<lambda>s. Inr ([], s)))))"

section \<open>Joining and trimming\<close>

definition off_of :: "mbuf \<Rightarrow> nat option" where
  "off_of m = (case m_loc m of Dat off \<Rightarrow> Some off | Clu c off \<Rightarrow> None | Fun arg bytes off \<Rightarrow> None)"

fun cat_loop :: "mbuf \<Rightarrow> chain \<Rightarrow> mbst \<Rightarrow> (chain \<times> mbst) kern" where
  "cat_loop m [] s = Inr ([m], s)"
| "cat_loop m (n # ns) s = (case off_of m of
       None \<Rightarrow> Inr (m # n # ns, s)
     | Some off \<Rightarrow>
         if MMAXOFF \<le> off \<or> int MMAXOFF < int off + m_len m + m_len n then Inr (m # n # ns, s)
         else kbind (put_dat m (nat (m_len m)) (mdata s n)) (\<lambda>m.
           kbind (m_free n s) (cat_loop (m\<lparr>m_len := m_len m + m_len n\<rparr>) ns)))"

fun m_cat :: "chain \<Rightarrow> chain \<Rightarrow> mbst \<Rightarrow> (chain \<times> mbst) kern" where
  "m_cat [] n s = Inl (Fault ''m_cat'')"
| "m_cat [m] n s = cat_loop m n s"
| "m_cat (m # m' # ms) n s = kbind (m_cat (m' # ms) n s) (\<lambda>(ms, s). Inr (m # ms, s))"

fun adj_head :: "chain \<Rightarrow> int \<Rightarrow> chain" where
  "adj_head [] len = []"
| "adj_head (m # ms) len =
     (if 0 < len then
        if m_len m \<le> len then m\<lparr>m_len := 0\<rparr> # adj_head ms (len - m_len m)
        else m\<lparr>m_len := m_len m - len, m_loc := add_off (nat len) (m_loc m)\<rparr> # ms
      else m # ms)"

text \<open>The rescan from the front, with the correct length of the chain.\<close>

fun adj_tail :: "chain \<Rightarrow> int \<Rightarrow> chain" where
  "adj_tail [] count = []"
| "adj_tail (m # ms) count =
     (if count \<le> m_len m then m\<lparr>m_len := count\<rparr> # map (m_len_update (\<lambda>_. 0)) ms
      else m # adj_tail ms (count - m_len m))"

definition m_adj :: "chain \<Rightarrow> int \<Rightarrow> chain" where
  "m_adj mp len =
     (if mp = [] then []
      else if 0 \<le> len then adj_head mp len
      else let len = - len; count = sum_list (map m_len mp); m = last mp in
        if len \<le> m_len m then butlast mp @ [m\<lparr>m_len := m_len m - len\<rparr>]
        else adj_tail mp (count - len))"

section \<open>m\_pullup\<close>

text \<open>One turn copies \<open>count\<close> bytes from \<open>n\<close> to the end of \<open>m\<close>. A negative count is a huge unsigned
  one for \<open>bcopy\<close>; a count of 0 that leaves \<open>len\<close> positive would go round for ever: both are faults.\<close>

function pull_loop :: "mbuf \<Rightarrow> chain \<Rightarrow> int \<Rightarrow> int \<Rightarrow> mbst \<Rightarrow> (mbuf \<times> chain \<times> int \<times> mbst) kern" where
  "pull_loop m [] len space s = Inl (Fault ''m_pullup'')"
| "pull_loop m (n # ns) len space s =
     (let count = min (min (space - m_len m) (len + MPULL_EXTRA)) (m_len n) in
      if count < 0 then Inl (Fault ''bcopy'')
      else kbind (put_dat m (nat (m_len m)) (take (nat count) (mtod s n))) (\<lambda>m.
        let len = len - count; m = m\<lparr>m_len := m_len m + count\<rparr>; n = n\<lparr>m_len := m_len n - count\<rparr> in
        if m_len n \<noteq> 0 then
          let n = n\<lparr>m_loc := add_off (nat count) (m_loc n)\<rparr> in
          if 0 < len then if count = 0 then Inl (Fault ''m_pullup'') else pull_loop m (n # ns) len space s
          else Inr (m, n # ns, len, s)
        else kbind (m_free n s) (\<lambda>s.
          if 0 < len \<and> ns \<noteq> [] then pull_loop m ns len space s else Inr (m, ns, len, s))))"
  by pat_completeness auto
termination
  by (relation "measures [\<lambda>(m, ns, len, space, s). length ns, \<lambda>(m, ns, len, space, s). nat (m_len (hd ns))]") auto

definition m_pullup :: "chain \<Rightarrow> int \<Rightarrow> mbst \<Rightarrow> (chain \<times> mbst) kern" where
  "m_pullup n len s = (case n of [] \<Rightarrow> Inl (Fault ''m_pullup'')
     | n0 # ns \<Rightarrow>
       let go = (\<lambda>m n len s. kbind (pull_loop m n len (int MMAXOFF - int (the (off_of m))) s) (\<lambda>(m, n, len, s).
                  if 0 < len then kbind (m_free m s) (\<lambda>s. kbind (m_freem n s) (\<lambda>s. Inr ([], s))) else Inr (m # n, s)));
           bad = kbind (m_freem n s) (\<lambda>s. Inr ([], s)) in
       if (case off_of n0 of Some off \<Rightarrow> int off + len \<le> int MMAXOFF | None \<Rightarrow> False) \<and> ns \<noteq> []
       then go n0 ns (len - m_len n0) s
       else if MLEN < len then bad
       else kbind (m_get False (m_type n0) s) (\<lambda>(m, s). case m of
           None \<Rightarrow> kbind (m_freem n s) (\<lambda>s. Inr ([], s))
         | Some m \<Rightarrow> go (m\<lparr>m_len := 0\<rparr>) n len s))"

section \<open>Copying out\<close>

fun cpy_skip :: "chain \<Rightarrow> int \<Rightarrow> chain \<times> int" where
  "cpy_skip [] off = ([], off)"
| "cpy_skip (m # ms) off = (if off \<noteq> 0 \<and> m_len m \<le> off then cpy_skip ms (off - m_len m) else (m # ms, off))"

fun cpy_loop :: "mbst \<Rightarrow> chain \<Rightarrow> int \<Rightarrow> byte list \<times> int" where
  "cpy_loop s [] len = ([], len)"
| "cpy_loop s (m # ms) len =
     (if len \<noteq> 0 then let (bs, r) = cpy_loop s ms (len - m_len m) in (mdata s m @ bs, r) else ([], len))"

text \<open>The bytes stored from \<open>cp\<close> on, and the result.\<close>

definition m_cpytoc :: "mbst \<Rightarrow> chain \<Rightarrow> int \<Rightarrow> int \<Rightarrow> (byte list \<times> int) kern" where
  "m_cpytoc s m off len =
     (if m = [] \<or> off < 0 \<or> len < 0 then Inl (Panic ''m_cpytoc'')
      else case cpy_skip m off of
          ([], off) \<Rightarrow> Inr ([], len)
        | (m # ms, off) \<Rightarrow>
            let ml = min len (m_len m - off); (bs, r) = cpy_loop s ms (len - ml) in
            Inr (take (nat ml) (drop (nat off) (mtod s m)) @ bs, r))"

definition m_cappend :: "byte list \<Rightarrow> mbuf \<Rightarrow> mbuf kern" where
  "m_cappend cp m = kbind (put_dat m (nat (m_len m)) cp) (\<lambda>m. Inr (m\<lparr>m_len := m_len m + int (length cp)\<rparr>))"

text \<open>A funny mbuf over memory that \<open>fun arg\<close> will release.\<close>

definition mclgetx :: "nat \<Rightarrow> byte list \<Rightarrow> int \<Rightarrow> bool \<Rightarrow> mbst \<Rightarrow> (mbuf option \<times> mbst) kern" where
  "mclgetx arg addr len wait s = kbind (m_get wait MT_DATA s) (\<lambda>(m, s).
     case m of None \<Rightarrow> Inr (None, s) | Some m \<Rightarrow> Inr (Some (m\<lparr>m_loc := Fun arg addr 0, m_len := len\<rparr>), s))"

text \<open>\<open>m_movtoc\<close>; \<open>swp m\<close> says that the first page of \<open>m\<close> was exchanged with the page at \<open>to\<close>.\<close>

fun m_movtoc :: "(mbuf \<Rightarrow> bool) \<Rightarrow> chain \<Rightarrow> int \<Rightarrow> mbst \<Rightarrow> (byte list \<times> int \<times> mbst) kern" where
  "m_movtoc swp [] count s = Inr ([], count, s)"
| "m_movtoc swp (m # ms) count s =
     (let i = min (m_len m) count; from = mtod s m; sw = CLBYTES \<le> i \<and> swp m;
          page = (if sw then take (nat CLBYTES) from else []);
          i = (if sw then i - CLBYTES else i); from = (if sw then drop (nat CLBYTES) from else from);
          bytes = (if 0 < i then take (nat i) from else []); count = (if 0 < i then count - i else count) in
      kbind (m_free m s) (\<lambda>s. kbind (m_movtoc swp ms count s) (\<lambda>(bs, r, s). Inr (page @ bytes @ bs, r, s))))"

end
