(* ===== verification/Mbuf_props.thy ===== *)
theory Mbuf_props
  imports Mbuf
begin

text \<open>
  What the mbuf routines do to the data of a chain, and that they neither lose nor invent
  mbufs or cluster references: \<open>balanced s xs s' ys\<close> says that the step from \<open>s\<close> to \<open>s'\<close> turned the
  mbufs \<open>xs\<close> its callers held into \<open>ys\<close> with every free mbuf and cluster reference accounted for.
\<close>

section \<open>Well-formed chains\<close>

definition m_ok :: "mbst \<Rightarrow> mbuf \<Rightarrow> bool" where
  "m_ok s m \<longleftrightarrow> 0 \<le> m_len m \<and> m_len m \<le> 32767 \<and> m_type m \<noteq> MT_FREE \<and> length (m_dat m) = nat MLEN
     \<and> (case m_loc m of Dat off \<Rightarrow> MMINOFF \<le> off \<and> int off + m_len m \<le> int MMAXOFF
        | Clu c off \<Rightarrow> int off + m_len m \<le> int (length (cldata s c))
        | Fun arg bytes off \<Rightarrow> int off + m_len m \<le> int (length bytes))"

definition chain_ok :: "mbst \<Rightarrow> chain \<Rightarrow> bool" where "chain_ok s ms \<longleftrightarrow> (\<forall>m\<in>set ms. m_ok s m)"

definition mbytes :: "mbst \<Rightarrow> chain \<Rightarrow> byte list" where "mbytes s ms = concat (map (mdata s) ms)"

definition clen :: "chain \<Rightarrow> int" where "clen ms = sum_list (map m_len ms)"

lemma chain_ok_simps [simp]:
  "chain_ok s []" "chain_ok s (m # ms) \<longleftrightarrow> m_ok s m \<and> chain_ok s ms" "chain_ok s (xs @ ys) \<longleftrightarrow> chain_ok s xs \<and> chain_ok s ys"
  by (auto simp: chain_ok_def)

lemma mbytes_simps [simp]:
  "mbytes s [] = []" "mbytes s (m # ms) = mdata s m @ mbytes s ms" "mbytes s (xs @ ys) = mbytes s xs @ mbytes s ys"
  by (simp_all add: mbytes_def)

lemma clen_simps [simp]: "clen [] = 0" "clen (m # ms) = m_len m + clen ms" "clen (xs @ ys) = clen xs + clen ys"
  by (simp_all add: clen_def)

lemma mbuf_consts: "MT_FREE = 0" "MT_DATA = 1" "MSIZE = 128" "MMINOFF = 12" "MMAXOFF = 124" "MLEN = 112" "CLBYTES = 1024"
  by (simp_all add: MT_FREE_def MT_DATA_def MSIZE_def MMINOFF_def MMAXOFF_def MLEN_def CLBYTES_def)

lemma mtod_length: "m_ok s m \<Longrightarrow> m_len m \<le> int (length (mtod s m))"
  by (auto simp: m_ok_def mbuf_consts split: mloc.splits)

lemma mdata_length [simp]: "m_ok s m \<Longrightarrow> length (mdata s m) = nat (m_len m)"
  using mtod_length [of s m] by (simp add: mdata_def)

lemma m_len_nonneg: "m_ok s m \<Longrightarrow> 0 \<le> m_len m"
  by (simp add: m_ok_def)

lemma clen_nonneg: "chain_ok s ms \<Longrightarrow> 0 \<le> clen ms"
  by (induction ms) (auto simp: m_ok_def)

lemma mbytes_length: "chain_ok s ms \<Longrightarrow> length (mbytes s ms) = nat (clen ms)"
  by (induction ms) (auto simp: m_len_nonneg clen_nonneg nat_add_distrib)

text \<open>No routine changes the contents of a cluster, so the data only depends on them.\<close>

lemma same_cldata:
  assumes "cldata s' = cldata s"
  shows "mtod s' m = mtod s m" "mdata s' m = mdata s m" "mbytes s' ms = mbytes s ms" "m_ok s' m = m_ok s m" "chain_ok s' ms = chain_ok s ms"
proof -
  show a: "mtod s' m = mtod s m" for m using assms by (simp split: mloc.splits)
  show b: "mdata s' m = mdata s m" for m by (simp only: mdata_def a)
  have "mdata s' = mdata s" using b by blast
  then show "mbytes s' ms = mbytes s ms" by (simp only: mbytes_def)
  show c: "m_ok s' m = m_ok s m" for m using assms by (simp add: m_ok_def cong: mloc.case_cong)
  show "chain_ok s' ms = chain_ok s ms" by (simp only: chain_ok_def c)
qed

section \<open>Balance\<close>

definition refs :: "chain \<Rightarrow> nat \<Rightarrow> 8 word" where
  "refs ms c = of_nat (length (filter (\<lambda>m. case m_loc m of Clu c' off \<Rightarrow> c' = c | _ \<Rightarrow> False) ms))"

lemma refs_simps [simp]: "refs [] c = 0" "refs (xs @ ys) c = refs xs c + refs ys c"
  by (simp_all add: refs_def)

lemma refs_Cons: "refs (m # ms) c = refs [m] c + refs ms c"
  by (simp add: refs_def)

lemma refs_loc: "m_loc m' = m_loc m \<Longrightarrow> refs [m'] c = refs [m] c"
  by (simp add: refs_def)

lemma refs_add_off [simp]: "refs [m\<lparr>m_loc := add_off k (m_loc m)\<rparr>] c = refs [m] c"
  by (cases "m_loc m") (simp_all add: refs_def)

lemma refs_upd [simp]: "refs [m\<lparr>m_len := l\<rparr>] c = refs [m] c" "refs [m\<lparr>m_dat := d\<rparr>] c = refs [m] c"
  by (simp_all add: refs_def)

text \<open>Free mbufs, counting those a page could still be turned into.\<close>

definition avail :: "mbst \<Rightarrow> nat" where "avail s = mfree s + 8 * min (length (mbmap s)) (pages s)"

definition balanced :: "mbst \<Rightarrow> chain \<Rightarrow> mbst \<Rightarrow> chain \<Rightarrow> bool" where
  "balanced s xs t ys \<longleftrightarrow> cldata t = cldata s \<and> junk t = junk s \<and> avail s + length xs = avail t + length ys
     \<and> (\<forall>c. mclref s c - refs xs c = mclref t c - refs ys c)"

lemma balanced_refl: "balanced s xs s xs"
  by (simp add: balanced_def)

lemma balanced_trans: "balanced s xs t ys \<Longrightarrow> balanced t ys u zs \<Longrightarrow> balanced s xs u zs"
  by (simp add: balanced_def)

lemma balanced_frame: "balanced s xs t ys \<Longrightarrow> balanced s (xs @ zs) t (ys @ zs)"
  by (simp add: balanced_def algebra_simps)

lemma balanced_frame': "balanced s xs t ys \<Longrightarrow> balanced s (zs @ xs) t (zs @ ys)"
  by (simp add: balanced_def algebra_simps)

lemma balanced_cldata: "balanced s xs t ys \<Longrightarrow> cldata t = cldata s"
  by (simp add: balanced_def)

lemma balanced_like:
  assumes "\<And>c. refs ys c = refs xs c" "length ys = length xs" shows "balanced s xs s ys"
  using assms by (simp add: balanced_def)

section \<open>Getting and freeing\<close>

definition st_ok :: "mbst \<Rightarrow> bool" where "st_ok s \<longleftrightarrow> length (junk s) = nat MLEN"

lemma st_ok_balanced: "balanced s xs t ys \<Longrightarrow> st_ok t = st_ok s"
  by (simp add: st_ok_def balanced_def)

lemma carve_spec:
  "\<exists>t. carve n s = Inr t \<and> mfree t = mfree s + n \<and> mbmap t = mbmap s \<and> pages t = pages s \<and> cldata t = cldata s
     \<and> mclref t = mclref s \<and> junk t = junk s \<and> mbufs t = mbufs s + int n"
proof (induction n arbitrary: s)
  case (Suc n)
  define m :: mbuf where "m = \<lparr>m_loc = Dat 0, m_len = 0, m_type = MT_DATA, m_dat = []\<rparr>"
  define s1 where "s1 = s\<lparr>mtypes := (mtypes s)(MT_DATA := mtypes s MT_DATA + 1), mbufs := mbufs s + 1\<rparr>"
  have "\<exists>u. m_free m s1 = Inr u \<and> mfree u = mfree s + 1 \<and> mbmap u = mbmap s \<and> pages u = pages s \<and> cldata u = cldata s
     \<and> mclref u = mclref s \<and> junk u = junk s \<and> mbufs u = mbufs s + 1"
    by (simp add: m_free_def mclput_def type_move_def Let_def m_def s1_def mbuf_consts)
  then obtain u where u: "m_free m s1 = Inr u" "mfree u = mfree s + 1" "mbmap u = mbmap s" "pages u = pages s" "cldata u = cldata s"
     "mclref u = mclref s" "junk u = junk s" "mbufs u = mbufs s + 1" by blast
  have "carve (Suc n) s = carve n u" using u(1) by (simp add: m_def s1_def)
  then show ?case using Suc.IH [of u] u(2-) by auto
qed simp

lemma m_get_spec:
  "\<exists>r s'. m_get False t s = Inr (r, s') \<and> (case r of
     None \<Rightarrow> avail s = 0 \<and> balanced s [] s' []
   | Some m \<Rightarrow> balanced s [] s' [m] \<and> m_loc m = Dat MMINOFF \<and> m_type m = t \<and> m_dat m = junk s)"
proof -
  have get: "balanced u [] (snd (mget_free t u)) [fst (mget_free t u)] \<and> m_loc (fst (mget_free t u)) = Dat MMINOFF
    \<and> m_type (fst (mget_free t u)) = t \<and> m_dat (fst (mget_free t u)) = junk u" if "0 < mfree u" for u
    using that by (simp add: mget_free_def type_move_def Let_def balanced_def avail_def refs_def)
  consider "0 < mfree s" | "mfree s = 0" "mbmap s = [] \<or> pages s = 0" | "mfree s = 0" "mbmap s \<noteq> []" "pages s \<noteq> 0" by blast
  then show ?thesis
  proof cases
    case 1 then show ?thesis using get [OF 1] by (simp add: m_get_def Let_def split_beta)
  next
    case 2
    then have "m_expand False s = Inr (False, s)" by (cases "mbmap s") (auto simp: m_expand_def m_clalloc_def)
    then show ?thesis using 2 by (auto simp: m_get_def m_more_def balanced_def avail_def)
  next
    case 3
    define s1 where "s1 = s\<lparr>mbmap := drop 1 (mbmap s), pages := pages s - 1\<rparr>"
    obtain u where u: "carve 8 s1 = Inr u" "mfree u = mfree s1 + 8" "mbmap u = mbmap s1" "pages u = pages s1" "cldata u = cldata s1"
      "mclref u = mclref s1" "junk u = junk s1" using carve_spec [of 8 s1] by blast
    have e: "m_expand False s = Inr (True, u)" using 3 u(1) by (cases "mbmap s") (auto simp: m_expand_def m_clalloc_def mbuf_consts s1_def Let_def)
    have "balanced s [] u []" using 3 u(2-) by (cases "mbmap s"; cases "pages s") (auto simp: balanced_def avail_def s1_def)
    moreover have "0 < mfree u" "junk u = junk s" using u by (simp_all add: s1_def)
    ultimately show ?thesis using get [of u] balanced_trans [of s "[]" u "[]"] 3 e by (simp add: m_get_def m_more_def Let_def split_beta)
  qed
qed

lemma m_free_spec:
  "m_type m \<noteq> MT_FREE \<Longrightarrow> \<exists>s'. m_free m s = Inr s' \<and> balanced s [m] s' []"
  by (auto simp: m_free_def mclput_def type_move_def Let_def balanced_def avail_def refs_def split: mloc.splits)

lemma m_freem_spec: "\<forall>m\<in>set ms. m_type m \<noteq> MT_FREE \<Longrightarrow> \<exists>s'. m_freem ms s = Inr s' \<and> balanced s ms s' []"
proof (induction ms arbitrary: s)
  case (Cons m ms)
  obtain t where t: "m_free m s = Inr t" "balanced s [m] t []" using m_free_spec [of m s] Cons.prems by auto
  obtain u where u: "m_freem ms t = Inr u" "balanced t ms u []" using Cons by auto
  have "balanced s (m # ms) t ms" using balanced_frame [OF t(2), of ms] by simp
  then show ?case using t(1) u balanced_trans by auto
qed (simp add: balanced_refl)

lemma chain_ok_types: "chain_ok s ms \<Longrightarrow> \<forall>m\<in>set ms. m_type m \<noteq> MT_FREE"
  by (auto simp: chain_ok_def m_ok_def)

section \<open>Writing into an mbuf\<close>

lemma put_dat_spec:
  assumes "m_loc m = Dat off" "MMINOFF \<le> off" "off + i + length bs \<le> MMAXOFF" "length (m_dat m) = nat MLEN"
  shows "\<exists>d. put_dat m i bs = Inr (m\<lparr>m_dat := d\<rparr>) \<and> length d = nat MLEN
    \<and> take (i + length bs) (drop (off - MMINOFF) d) = take i (drop (off - MMINOFF) (m_dat m)) @ bs"
proof -
  let ?k = "off - MMINOFF + i"
  have k: "?k + length bs \<le> length (m_dat m)" using assms by (simp add: mbuf_consts)
  define d where "d = take ?k (m_dat m) @ bs @ drop (?k + length bs) (m_dat m)"
  have p: "put_dat m i bs = Inr (m\<lparr>m_dat := d\<rparr>)" using assms(1,2) k by (simp add: put_dat_def Let_def d_def)
  have l: "length d = nat MLEN" using k assms(4) by (simp add: d_def)
  have e: "drop (off - MMINOFF) d = take i (drop (off - MMINOFF) (m_dat m)) @ bs @ drop (?k + length bs) (m_dat m)"
    unfolding d_def using k by (simp add: take_drop add.commute)
  have "length (take i (drop (off - MMINOFF) (m_dat m))) = i" using k by simp
  then have "take (i + length bs) (drop (off - MMINOFF) d) = take i (drop (off - MMINOFF) (m_dat m)) @ bs"
    unfolding e by (simp only: append_assoc [symmetric] length_append flip: append_assoc) (simp add: take_append)
  then show ?thesis using p l by blast
qed

lemma m_type_put: "put_dat m i bs = Inr m' \<Longrightarrow> m_type m' = m_type m \<and> m_len m' = m_len m \<and> m_loc m' = m_loc m"
  by (auto simp: put_dat_def Let_def split: mloc.splits if_splits)

text \<open>Appending to the data of an mbuf that holds its own data.\<close>

lemma append_data:
  assumes ok: "m_ok s m" and loc: "m_loc m = Dat off" and fit: "int off + m_len m + int (length bs) \<le> int MMAXOFF"
  shows "\<exists>m'. put_dat m (nat (m_len m)) bs = Inr m' \<and> m_ok s (m'\<lparr>m_len := m_len m + int (length bs)\<rparr>)
    \<and> mdata s (m'\<lparr>m_len := m_len m + int (length bs)\<rparr>) = mdata s m @ bs \<and> m_loc m' = m_loc m \<and> m_type m' = m_type m \<and> m_len m' = m_len m"
proof -
  have l: "0 \<le> m_len m" "MMINOFF \<le> off" "length (m_dat m) = nat MLEN" "m_type m \<noteq> MT_FREE" using ok loc by (auto simp: m_ok_def)
  have "off + nat (m_len m) + length bs \<le> MMAXOFF" using fit l(1) by linarith
  from put_dat_spec [OF loc l(2) this l(3)] obtain d where d: "put_dat m (nat (m_len m)) bs = Inr (m\<lparr>m_dat := d\<rparr>)" "length d = nat MLEN"
    "take (nat (m_len m) + length bs) (drop (off - MMINOFF) d) = take (nat (m_len m)) (drop (off - MMINOFF) (m_dat m)) @ bs" by blast
  have "nat (m_len m + int (length bs)) = nat (m_len m) + length bs" using l(1) by simp
  moreover have "m_len m + int (length bs) \<le> 32767" using fit by (simp add: mbuf_consts)
  ultimately show ?thesis using d l loc fit by (auto simp: m_ok_def mdata_def)
qed

section \<open>Copying a chain\<close>

text \<open>\<open>len\<close> bytes, or all of them for \<^verbatim>\<open>M_COPYALL\<close>.\<close>

definition upto_len :: "int \<Rightarrow> 'a list \<Rightarrow> 'a list" where
  "upto_len len xs = (if len = M_COPYALL then xs else take (nat len) xs)"

lemma copy_one_spec:
  assumes m: "m_ok s m" and off: "int off + m_len n \<le> m_len m" "0 \<le> m_len n"
    and n: "m_loc n = Dat MMINOFF" "m_type n \<noteq> MT_FREE" "length (m_dat n) = nat MLEN"
  shows "\<exists>n' s'. copy_one m n off s = Inr (n', s') \<and> m_ok s n' \<and> mdata s n' = take (nat (m_len n)) (drop off (mdata s m))
    \<and> m_len n' = m_len n \<and> balanced s [n] s' [n']"
proof (cases "M_HASCL m \<and> MLEN < m_len n")
  case True
  have len: "m_len n \<le> 32767" using m off by (simp add: m_ok_def)
  have tk: "take (nat (m_len n)) (drop off (mdata s m)) = take (nat (m_len n)) (drop off (mtod s m))"
    using off by (simp add: mdata_def drop_take)
  show ?thesis
  proof (cases "m_loc m")
    case (Dat o1) then show ?thesis using True by (simp add: M_HASCL_def)
  next
    case (Clu c o1)
    then show ?thesis using True m off n len unfolding tk
      by (auto simp: copy_one_def mcldup_def m_ok_def mdata_def balanced_def avail_def refs_def add.commute)
  next
    case (Fun a bs o1)
    have "int o1 + m_len m \<le> int (length bs)" using m Fun by (simp add: m_ok_def)
    then have "nat (m_len n) \<le> length bs - (o1 + off)" using off by linarith
    then show ?thesis using Fun True m off n len unfolding tk
      by (auto simp: copy_one_def mcldup_def m_ok_def mdata_def balanced_def avail_def refs_def add.commute)
  qed
next
  case False
  have "m_len n \<le> MLEN" using False m off by (auto simp: M_HASCL_def m_ok_def mbuf_consts split: mloc.splits)
  moreover have "length (take (nat (m_len n)) (drop off (mtod s m))) = nat (m_len n)" using mtod_length [OF m] off by simp
  ultimately have "MMINOFF + 0 + length (take (nat (m_len n)) (drop off (mtod s m))) \<le> MMAXOFF" by (simp add: mbuf_consts)
  from put_dat_spec [OF n(1) order.refl this n(3)] obtain d where
    d: "put_dat n 0 (take (nat (m_len n)) (drop off (mtod s m))) = Inr (n\<lparr>m_dat := d\<rparr>)" "length d = nat MLEN"
      "take (nat (m_len n)) d = take (nat (m_len n)) (drop off (mtod s m))"
    using \<open>length (take _ _) = _\<close> by auto
  have tk: "take (nat (m_len n)) (drop off (mdata s m)) = take (nat (m_len n)) (drop off (mtod s m))"
    using off by (simp add: mdata_def drop_take)
  have le: "int MMINOFF + m_len n \<le> int MMAXOFF" using \<open>m_len n \<le> MLEN\<close> by (simp add: mbuf_consts)
  show ?thesis unfolding tk using d False n off le m
    by (auto simp: copy_one_def m_ok_def mdata_def balanced_def avail_def refs_def)
qed

lemma take_drop_append:
  "i \<le> length xs \<Longrightarrow> k = min n (length xs - i) \<Longrightarrow> take k (drop i xs) @ take (n - k) ys = take n (drop i (xs @ ys))"
  by (simp add: min_def)

lemma copy_loop_spec:
  assumes "chain_ok s ms" "chain_ok s acc" "0 \<le> off" "ms \<noteq> [] \<longrightarrow> off \<le> m_len (hd ms)" "ms = [] \<longrightarrow> off = 0" "0 \<le> len" "st_ok s"
    "len = M_COPYALL \<or> len < M_COPYALL \<and> off + len \<le> clen ms"
  shows "\<exists>ok acc' s'. copy_loop ms off len acc s = Inr (ok, acc', s') \<and> balanced s acc s' acc' \<and> chain_ok s acc'
    \<and> (if ok then mbytes s acc' = mbytes s acc @ upto_len len (drop (nat off) (mbytes s ms)) else avail s < length ms)"
  using assms
proof (induction ms arbitrary: off len acc s)
  case Nil
  then show ?case by (auto simp: upto_len_def M_COPYALL_def balanced_refl)
next
  case (Cons m ms off len acc s)
  have m: "m_ok s m" and ms: "chain_ok s ms" using Cons.prems by simp_all
  show ?case
  proof (cases "len = 0")
    case True then show ?thesis using Cons.prems by (auto simp: balanced_refl upto_len_def M_COPYALL_def)
  next
    case False
    then have pos: "0 < len" using Cons.prems by simp
    obtain r t where gs: "m_get False (m_type m) s = Inr (r, t)" "case r of None \<Rightarrow> avail s = 0 \<and> balanced s [] t []
      | Some n \<Rightarrow> balanced s [] t [n] \<and> m_loc n = Dat MMINOFF \<and> m_type n = m_type m \<and> m_dat n = junk s"
      using m_get_spec [of "m_type m" s] by blast
    show ?thesis
    proof (cases r)
      case None
      then have t: "m_get False (m_type m) s = Inr (None, t)" using gs by simp
      have "avail s = 0" "balanced s [] t []" using gs None by auto
      then have "avail s < length (m # ms)" "balanced s acc t acc" using balanced_frame [of s "[]" t "[]" acc] by (auto simp: balanced_def)
      then show ?thesis using t pos Cons.prems by auto
    next
      case (Some n)
      then have t: "m_get False (m_type m) s = Inr (Some n, t)" using gs by simp
      define n1 where "n1 = n\<lparr>m_len := min len (m_len m - off)\<rparr>"
      have bt: "balanced s [] t [n]" and n: "m_loc n = Dat MMINOFF" "m_type n = m_type m" "m_dat n = junk s" using gs Some by auto
      have same: "cldata t = cldata s" using bt by (rule balanced_cldata)
      note sc = same_cldata [OF same]
      have bt1: "balanced s [] t [n1]" using bt by (simp add: balanced_def n1_def)
      have l1: "m_len n1 = min len (m_len m - off)" by (simp add: n1_def)
      have "\<exists>n' s'. copy_one m n1 (nat off) t = Inr (n', s') \<and> m_ok t n' \<and> mdata t n' = take (nat (m_len n1)) (drop (nat off) (mdata t m))
        \<and> m_len n' = m_len n1 \<and> balanced t [n1] s' [n']"
      proof (rule copy_one_spec)
        show "m_ok t m" using m sc by simp
        show "int (nat off) + m_len n1 \<le> m_len m" "0 \<le> m_len n1" using l1 pos Cons.prems by simp_all
        show "m_loc n1 = Dat MMINOFF" "length (m_dat n1) = nat MLEN" using n Cons.prems(7) by (simp_all add: n1_def st_ok_def)
        show "m_type n1 \<noteq> MT_FREE" using n m by (simp add: n1_def m_ok_def)
      qed
      then obtain n' u where c: "copy_one m n1 (nat off) t = Inr (n', u)" "m_ok s n'"
        "mdata s n' = take (nat (m_len n1)) (drop (nat off) (mdata s m))" "m_len n' = m_len n1" "balanced t [n1] u [n']"
        using sc by auto
      define len' where "len' = (if len \<noteq> M_COPYALL then len - m_len n' else len)"
      have bu: "balanced s [] u [n']" using balanced_trans [OF bt1 c(5)] .
      have sameu: "cldata u = cldata s" using bu by (rule balanced_cldata)
      note su = same_cldata [OF sameu]
      have step: "copy_loop (m # ms) off len acc s = copy_loop ms 0 len' (acc @ [n']) u"
        using pos t c(1) by (simp add: n1_def len'_def Let_def)
      have "\<exists>ok acc' s'. copy_loop ms 0 len' (acc @ [n']) u = Inr (ok, acc', s') \<and> balanced u (acc @ [n']) s' acc' \<and> chain_ok u acc'
          \<and> (if ok then mbytes u acc' = mbytes u (acc @ [n']) @ upto_len len' (drop (nat 0) (mbytes u ms)) else avail u < length ms)"
      proof (rule Cons.IH)
        show "ms \<noteq> [] \<longrightarrow> 0 \<le> m_len (hd ms)" using ms by (cases ms) (auto simp: m_len_nonneg)
        show "0 \<le> len'" using pos c(4) l1 by (auto simp: len'_def)
        show "len' = M_COPYALL \<or> len' < M_COPYALL \<and> 0 + len' \<le> clen ms"
          using Cons.prems c(4) l1 clen_nonneg [OF ms] m_len_nonneg [OF c(2)] by (auto simp: len'_def)
        show "st_ok u" using Cons.prems st_ok_balanced [OF bu] by simp
      qed (use su ms c Cons.prems in simp_all)
      then obtain ok acc' v where v: "copy_loop ms 0 len' (acc @ [n']) u = Inr (ok, acc', v)" "balanced u (acc @ [n']) v acc'" "chain_ok u acc'"
        "if ok then mbytes u acc' = mbytes u (acc @ [n']) @ upto_len len' (drop (nat 0) (mbytes u ms)) else avail u < length ms"
        by blast
      have ch: "chain_ok s acc'" and dat: "if ok then mbytes s acc' = mbytes s acc @ mdata s n' @ upto_len len' (mbytes s ms) else avail u < length ms"
        using v(3,4) by (auto simp: su(2,3,5) split: if_splits)
      have bal: "balanced s acc v acc'" using balanced_trans [OF balanced_frame' [OF bu, of acc, simplified] v(2)] .
      have eq: "mdata s n' @ upto_len len' (mbytes s ms) = upto_len len (drop (nat off) (mbytes s (m # ms)))"
      proof (cases "len = M_COPYALL")
        case True
        have "m_len m - off \<le> len" using m Cons.prems(3) by (simp add: m_ok_def True M_COPYALL_def)
        then have "mdata s n' = drop (nat off) (mdata s m)" using c(3) l1 m Cons.prems by simp
        then show ?thesis using True Cons.prems m by (simp add: upto_len_def len'_def)
      next
        case False
        have "len < M_COPYALL" using False Cons.prems by simp
        then have lt: "len' < M_COPYALL" using c(4) l1 pos Cons.prems False by (simp add: len'_def)
        have le: "off \<le> m_len m" using Cons.prems by simp
        have a: "nat len' = nat len - nat (m_len n1)" using l1 c(4) False pos le by (simp add: len'_def nat_diff_distrib)
        have b: "nat (m_len n1) = min (nat len) (length (mdata s m) - nat off)"
          using l1 le m Cons.prems(3) pos by (simp add: nat_diff_distrib min_def)
        have "nat off \<le> length (mdata s m)" using le m by simp
        from take_drop_append [OF this b, of "mbytes s ms"]
        have "mdata s n' @ take (nat len') (mbytes s ms) = take (nat len) (drop (nat off) (mdata s m @ mbytes s ms))" unfolding c(3) a .
        then show ?thesis using False lt by (simp only: upto_len_def mbytes_simps) simp
      qed
      show ?thesis
      proof (intro exI conjI)
        show "copy_loop (m # ms) off len acc s = Inr (ok, acc', v)" using step v(1) by simp
        show "if ok then mbytes s acc' = mbytes s acc @ upto_len len (drop (nat off) (mbytes s (m # ms))) else avail s < length (m # ms)"
          using dat bu unfolding eq by (auto simp: balanced_def)
      qed (fact bal ch)+
    qed
  qed
qed

lemma m_skip_spec:
  "chain_ok s ms \<Longrightarrow> 0 \<le> off \<Longrightarrow> off \<le> clen ms \<Longrightarrow>
   \<exists>ns o'. m_skip ms off = Inr (ns, o') \<and> chain_ok s ns \<and> 0 \<le> o' \<and> (ns \<noteq> [] \<longrightarrow> o' \<le> m_len (hd ns)) \<and> (ns = [] \<longrightarrow> o' = 0)
     \<and> drop (nat o') (mbytes s ns) = drop (nat off) (mbytes s ms) \<and> clen ns - o' = clen ms - off \<and> length ns \<le> length ms"
proof (induction ms arbitrary: off)
  case (Cons m ms)
  show ?case
  proof (cases "0 < off \<and> \<not> off < m_len m")
    case True
    have e: "nat (m_len m) \<le> nat off" "nat off - nat (m_len m) = nat (off - m_len m)" using True Cons.prems m_len_nonneg [of s m] by auto
    have "\<exists>ns o'. m_skip ms (off - m_len m) = Inr (ns, o') \<and> chain_ok s ns \<and> 0 \<le> o' \<and> (ns \<noteq> [] \<longrightarrow> o' \<le> m_len (hd ns)) \<and> (ns = [] \<longrightarrow> o' = 0)
     \<and> drop (nat o') (mbytes s ns) = drop (nat (off - m_len m)) (mbytes s ms) \<and> clen ns - o' = clen ms - (off - m_len m) \<and> length ns \<le> length ms"
      using Cons True by (intro Cons.IH) auto
    then obtain ns o' where n: "m_skip ms (off - m_len m) = Inr (ns, o')" "chain_ok s ns" "0 \<le> o'" "ns \<noteq> [] \<longrightarrow> o' \<le> m_len (hd ns)" "ns = [] \<longrightarrow> o' = 0"
     "drop (nat o') (mbytes s ns) = drop (nat (off - m_len m)) (mbytes s ms)" "clen ns - o' = clen ms - (off - m_len m)" "length ns \<le> length ms" by blast
    have d: "drop (nat off) (mbytes s (m # ms)) = drop (nat (off - m_len m)) (mbytes s ms)" using e Cons.prems(1) by simp
    show ?thesis
      by (rule exI [of _ ns], rule exI [of _ o']) (use n True d in auto)
  next
    case False then show ?thesis using Cons.prems by (auto simp: m_len_nonneg)
  qed
qed simp

lemma m_copy_spec:
  assumes "chain_ok s m" "st_ok s" "0 \<le> off" "0 \<le> len" "len = M_COPYALL \<and> off \<le> clen m \<or> len < M_COPYALL \<and> off + len \<le> clen m"
  shows "\<exists>n s'. m_copy m off len s = Inr (n, s') \<and> balanced s [] s' n \<and> chain_ok s n
    \<and> (mbytes s n = upto_len len (drop (nat off) (mbytes s m)) \<or> n = [] \<and> avail s < length m)"
proof (cases "len = 0")
  case True then show ?thesis by (auto simp: m_copy_def balanced_refl upto_len_def M_COPYALL_def)
next
  case False
  have "off \<le> clen m" using assms(4,5) by auto
  from m_skip_spec [OF assms(1,3) this] obtain ms o' where
    sk: "m_skip m off = Inr (ms, o')" "chain_ok s ms" "0 \<le> o'" "ms \<noteq> [] \<longrightarrow> o' \<le> m_len (hd ms)" "ms = [] \<longrightarrow> o' = 0"
      "drop (nat o') (mbytes s ms) = drop (nat off) (mbytes s m)" "clen ms - o' = clen m - off" "length ms \<le> length m" by blast
  have "len = M_COPYALL \<or> len < M_COPYALL \<and> o' + len \<le> clen ms" using assms(5) sk(7) by auto
  from copy_loop_spec [OF sk(2) chain_ok_simps(1) sk(3,4,5) assms(4,2) this] obtain ok acc s' where
    c: "copy_loop ms o' len [] s = Inr (ok, acc, s')" "balanced s [] s' acc" "chain_ok s acc"
      "if ok then mbytes s acc = upto_len len (drop (nat off) (mbytes s m)) else avail s < length ms" using sk(6) by auto
  show ?thesis
  proof (cases ok)
    case True then show ?thesis using c sk(1) False assms(3,4) by (auto simp: m_copy_def)
  next
    case False
    obtain u where u: "m_freem acc s' = Inr u" "balanced s' acc u []" using m_freem_spec [OF chain_ok_types [OF c(3)]] by blast
    have "balanced s [] u []" using balanced_trans [OF c(2) u(2)] .
    then show ?thesis using c(1,4) sk(1,8) False u(1) \<open>len \<noteq> 0\<close> assms(3,4) by (auto simp: m_copy_def)
  qed
qed

section \<open>Joining and trimming chains\<close>

lemma cat_loop_spec:
  "m_ok s m \<Longrightarrow> chain_ok s ns \<Longrightarrow>
   \<exists>ms s'. cat_loop m ns s = Inr (ms, s') \<and> chain_ok s ms \<and> mbytes s ms = mdata s m @ mbytes s ns \<and> balanced s (m # ns) s' ms"
proof (induction ns arbitrary: m s)
  case Nil
  then show ?case by (simp add: balanced_refl)
next
  case (Cons n ns m s)
  have n: "m_ok s n" and ns: "chain_ok s ns" using Cons.prems by simp_all
  show ?case
  proof (cases "\<exists>off. m_loc m = Dat off \<and> \<not> MMAXOFF \<le> off \<and> int off + m_len m + m_len n \<le> int MMAXOFF")
    case False
    then have "cat_loop m (n # ns) s = Inr (m # n # ns, s)" by (auto simp: off_of_def split: mloc.splits)
    then show ?thesis using Cons.prems by (simp add: balanced_refl)
  next
    case True
    then obtain off where off: "m_loc m = Dat off" "\<not> MMAXOFF \<le> off" "int off + m_len m + m_len n \<le> int MMAXOFF" by blast
    have l: "int (length (mdata s n)) = m_len n" using n by (simp add: m_len_nonneg)
    from append_data [OF Cons.prems(1) off(1), of "mdata s n"] obtain m' where
      m': "put_dat m (nat (m_len m)) (mdata s n) = Inr m'" "m_ok s (m'\<lparr>m_len := m_len m + m_len n\<rparr>)"
        "mdata s (m'\<lparr>m_len := m_len m + m_len n\<rparr>) = mdata s m @ mdata s n" "m_loc m' = m_loc m" "m_len m' = m_len m"
      using off l by auto
    obtain t where t: "m_free n s = Inr t" "balanced s [n] t []" using m_free_spec [of n s] n by (auto simp: m_ok_def)
    note st = same_cldata [OF balanced_cldata [OF t(2)]]
    have "\<exists>ms s'. cat_loop (m'\<lparr>m_len := m_len m + m_len n\<rparr>) ns t = Inr (ms, s') \<and> chain_ok t ms
        \<and> mbytes t ms = mdata t (m'\<lparr>m_len := m_len m + m_len n\<rparr>) @ mbytes t ns \<and> balanced t (m'\<lparr>m_len := m_len m + m_len n\<rparr> # ns) s' ms"
      by (rule Cons.IH) (use m' ns st in simp_all)
    then obtain ms u where u: "cat_loop (m'\<lparr>m_len := m_len m + m_len n\<rparr>) ns t = Inr (ms, u)" "chain_ok s ms"
      "mbytes s ms = (mdata s m @ mdata s n) @ mbytes s ns" "balanced t (m'\<lparr>m_len := m_len m + m_len n\<rparr> # ns) u ms"
      unfolding st m' by blast
    have like: "refs [m'] c = refs [m] c" for c using m'(4) by (rule refs_loc)
    have "balanced s (m # n # ns) t (m'\<lparr>m_len := m_len m + m_len n\<rparr> # ns)"
      using t(2) like by (simp add: balanced_def refs_Cons [of m "n # ns"] refs_Cons [of n ns] refs_Cons [of "m'\<lparr>m_len := m_len m + m_len n\<rparr>" ns])
    from balanced_trans [OF this u(4)] show ?thesis using u(1,2,3) off t(1) m'(1,5) by (auto simp: off_of_def)
  qed
qed

lemma m_cat_spec:
  "m \<noteq> [] \<Longrightarrow> chain_ok s m \<Longrightarrow> chain_ok s n \<Longrightarrow>
   \<exists>ms s'. m_cat m n s = Inr (ms, s') \<and> chain_ok s ms \<and> mbytes s ms = mbytes s m @ mbytes s n \<and> balanced s (m @ n) s' ms"
proof (induction m n s rule: m_cat.induct)
  case (2 m n s)
  then show ?case using cat_loop_spec [of s m n] by simp
next
  case (3 m m' ms n s)
  then obtain ys t where t: "m_cat (m' # ms) n s = Inr (ys, t)" "chain_ok s ys" "mbytes s ys = mbytes s (m' # ms) @ mbytes s n"
    "balanced s ((m' # ms) @ n) t ys" by auto
  have "balanced s (m # (m' # ms) @ n) t (m # ys)" using balanced_frame' [OF t(4), of "[m]"] by simp
  then show ?case using t 3 by simp
qed simp

lemma mtod_add_off: "m_ok s m \<Longrightarrow> mtod s (m\<lparr>m_loc := add_off k (m_loc m), m_len := l\<rparr>) = drop k (mtod s m)"
  by (cases "m_loc m") (auto simp: m_ok_def add.commute)

text \<open>Dropping \<open>k\<close> bytes from the front of one mbuf, the operation of \<open>m_adj\<close> and \<open>m_pullup\<close>.\<close>

lemma drop_mbuf:
  assumes "m_ok s m" "int k \<le> m_len m"
  shows "m_ok s (m\<lparr>m_loc := add_off k (m_loc m), m_len := m_len m - int k\<rparr>)"
    "mdata s (m\<lparr>m_loc := add_off k (m_loc m), m_len := m_len m - int k\<rparr>) = drop k (mdata s m)"
proof -
  show "m_ok s (m\<lparr>m_loc := add_off k (m_loc m), m_len := m_len m - int k\<rparr>)"
    using assms by (cases "m_loc m") (auto simp: m_ok_def)
  have "nat (m_len m - int k) = nat (m_len m) - k" using assms(2) by simp
  then show "mdata s (m\<lparr>m_loc := add_off k (m_loc m), m_len := m_len m - int k\<rparr>) = drop k (mdata s m)"
    using mtod_add_off [OF assms(1), where k = k and l = "m_len m - int k"] unfolding mdata_def by (simp add: drop_take)
qed

lemma take_mbuf:
  assumes "m_ok s m" "0 \<le> l" "l \<le> m_len m"
  shows "m_ok s (m\<lparr>m_len := l\<rparr>)" "mdata s (m\<lparr>m_len := l\<rparr>) = take (nat l) (mdata s m)"
  using assms by (auto simp: m_ok_def mdata_def min_def split: mloc.splits)

lemma zero_mbufs:
  "chain_ok s ms \<Longrightarrow> chain_ok s (map (m_len_update (\<lambda>_. 0)) ms) \<and> mbytes s (map (m_len_update (\<lambda>_. 0)) ms) = []"
proof (induction ms)
  case (Cons m ms) then show ?case using take_mbuf [of s m 0] by (auto simp: m_len_nonneg)
qed simp

lemma adj_head_spec:
  "chain_ok s ms \<Longrightarrow> 0 \<le> len \<Longrightarrow> chain_ok s (adj_head ms len) \<and> mbytes s (adj_head ms len) = drop (nat len) (mbytes s ms)"
proof (induction ms arbitrary: len)
  case (Cons m ms)
  have m: "m_ok s m" using Cons by simp
  show ?case
  proof (cases "0 < len \<and> m_len m \<le> len")
    case True
    then have "nat len - nat (m_len m) = nat (len - m_len m)" "nat (m_len m) \<le> nat len" using m_len_nonneg [OF m] by auto
    then show ?thesis using Cons.IH [of "len - m_len m"] Cons.prems True take_mbuf [OF m, of 0] m_len_nonneg [OF m] by simp
  next
    case False
    show ?thesis
    proof (cases "0 < len")
      case True
      have e: "m\<lparr>m_len := m_len m - len, m_loc := add_off (nat len) (m_loc m)\<rparr> = m\<lparr>m_loc := add_off (nat len) (m_loc m), m_len := m_len m - int (nat len)\<rparr>"
        using True by simp
      have l: "int (nat len) \<le> m_len m" "nat len \<le> length (mdata s m)" using False True m by simp_all
      show ?thesis using False True Cons.prems m drop_mbuf [OF m l(1)] l(2) unfolding adj_head.simps e by simp
    qed (use Cons.prems in simp)
  qed
qed simp

lemma adj_tail_spec:
  "chain_ok s ms \<Longrightarrow> 0 \<le> count \<Longrightarrow> count \<le> clen ms \<Longrightarrow>
   chain_ok s (adj_tail ms count) \<and> mbytes s (adj_tail ms count) = take (nat count) (mbytes s ms)"
proof (induction ms arbitrary: count)
  case (Cons m ms)
  have m: "m_ok s m" and ms: "chain_ok s ms" using Cons by simp_all
  show ?case
  proof (cases "count \<le> m_len m")
    case True
    then show ?thesis using take_mbuf [OF m Cons.prems(2) True] zero_mbufs [OF ms] m Cons.prems by simp
  next
    case False
    then have "nat count - nat (m_len m) = nat (count - m_len m)" "nat (m_len m) \<le> nat count" using m_len_nonneg [OF m] by auto
    then show ?thesis using Cons.IH [of "count - m_len m"] Cons.prems False m by simp
  qed
qed simp

lemma m_adj_spec:
  assumes ok: "chain_ok s mp" and len: "- len \<le> clen mp"
  shows "chain_ok s (m_adj mp len) \<and> mbytes s (m_adj mp len) = (if 0 \<le> len then drop (nat len) (mbytes s mp) else take (nat (clen mp + len)) (mbytes s mp))"
proof (cases "mp = []")
  case True then show ?thesis by (simp add: m_adj_def)
next
  case False
  then obtain ms m where mp: "mp = ms @ [m]" by (metis rev_exhaust)
  show ?thesis
  proof (cases "0 \<le> len")
    case True then show ?thesis using False adj_head_spec [OF ok True] by (simp add: m_adj_def)
  next
    case neg: False
    have m: "m_ok s m" and ms: "chain_ok s ms" using ok mp by simp_all
    show ?thesis
    proof (cases "- len \<le> m_len m")
      case True
      have "nat (clen mp + len) = nat (clen ms) + nat (m_len m + len)" using True clen_nonneg [OF ms] mp by simp
      then have "take (nat (clen mp + len)) (mbytes s mp) = mbytes s ms @ take (nat (m_len m + len)) (mdata s m)"
        using mp mbytes_length [OF ms] by simp
      then show ?thesis using neg True mp ms take_mbuf [OF m, of "m_len m + len"] by (simp add: m_adj_def Let_def)
    next
      case last: False
      have "m_adj mp len = adj_tail mp (clen mp + len)" using neg last mp by (simp add: m_adj_def Let_def clen_def)
      then show ?thesis using adj_tail_spec [OF ok, of "clen mp + len"] len neg by simp
    qed
  qed
qed

section \<open>Pulling up\<close>

lemma pull_loop_spec:
  "m_ok s m \<Longrightarrow> m_loc m = Dat off \<Longrightarrow> chain_ok s ns \<Longrightarrow> ns \<noteq> [] \<Longrightarrow> space = int MMAXOFF - int off \<Longrightarrow> - MPULL_EXTRA \<le> len
   \<Longrightarrow> m_len m + len \<le> space \<Longrightarrow>
   \<exists>m' ns' len' s'. pull_loop m ns len space s = Inr (m', ns', len', s') \<and> m_ok s m' \<and> m_loc m' = Dat off \<and> chain_ok s ns'
     \<and> mdata s m' @ mbytes s ns' = mdata s m @ mbytes s ns \<and> m_len m' + len' = m_len m + len \<and> balanced s (m # ns) s' (m' # ns')
     \<and> (0 < len' \<longrightarrow> ns' = [])"
proof (induction ns arbitrary: m len s)
  case Nil
  then show ?case by simp
next
  case (Cons n ns m len s)
  have n: "m_ok s n" and ns: "chain_ok s ns" using Cons.prems by simp_all
  define count where "count = min (min (space - m_len m) (len + MPULL_EXTRA)) (m_len n)"
  have sp: "0 \<le> space - m_len m" using Cons.prems(1,2,5) by (simp add: m_ok_def)
  have c: "0 \<le> count" "count \<le> m_len n" "m_len m + count \<le> space" using sp Cons.prems(6) m_len_nonneg [OF n] by (simp_all add: count_def)
  have lt: "count \<noteq> m_len n \<Longrightarrow> len \<le> count" using Cons.prems(6,7) by (auto simp: count_def MPULL_EXTRA_def)
  define bs where "bs = take (nat count) (mtod s n)"
  have bs: "int (length bs) = count" "bs = take (nat count) (mdata s n)"
  proof -
    have "nat count \<le> length (mtod s n)" using c mtod_length [OF n] by linarith
    then have "length bs = nat count" unfolding bs_def by (rule length_take [THEN trans, OF min.absorb2])
    then show "int (length bs) = count" using c by simp
    show "bs = take (nat count) (mdata s n)" using c by (simp add: bs_def mdata_def min_def nat_mono del: mtod.simps)
  qed
  have "int off + m_len m + int (length bs) \<le> int MMAXOFF" using bs(1) c(3) Cons.prems(5) by linarith
  from append_data [OF Cons.prems(1,2) this] obtain m1 where m1:
    "put_dat m (nat (m_len m)) bs = Inr m1" "m_ok s (m1\<lparr>m_len := m_len m + count\<rparr>)" "mdata s (m1\<lparr>m_len := m_len m + count\<rparr>) = mdata s m @ bs"
    "m_loc m1 = m_loc m" "m_len m1 = m_len m"
    using bs(1) by auto
  define m2 where "m2 = m1\<lparr>m_len := m_len m + count\<rparr>"
  have m2: "m_ok s m2" "mdata s m2 = mdata s m @ bs" "m_loc m2 = Dat off" "m_len m2 = m_len m + count"
    using m1 Cons.prems(2) by (simp_all add: m2_def)
  have r2: "refs [m2] c = 0" "refs [m] c = 0" for c using m2(3) Cons.prems(2) by (simp_all add: refs_def)
  show ?case
  proof (cases "count = m_len n")
    case False
    define n2 where "n2 = n\<lparr>m_loc := add_off (nat count) (m_loc n), m_len := m_len n - int (nat count)\<rparr>"
    have n2: "m_ok s n2" "mdata s n2 = drop (nat count) (mdata s n)" using drop_mbuf [OF n, of "nat count"] c by (simp_all add: n2_def)
    have e: "n\<lparr>m_len := m_len n - count, m_loc := add_off (nat count) (m_loc n)\<rparr> = n2" using c(1) by (simp add: n2_def)
    have st: "pull_loop m (n # ns) len space s = Inr (m2, n2 # ns, len - count, s)"
      using False lt [OF False] c(1) m1(1,5) e unfolding pull_loop.simps(2) [of m n ns len space s] Let_def
      unfolding count_def [symmetric] bs_def [symmetric] by (simp add: m2_def del: pull_loop.simps)
    have rn: "refs [n2] c = refs [n] c" for c by (cases "m_loc n") (simp_all add: n2_def refs_def)
    have "balanced s (m # n # ns) s (m2 # n2 # ns)"
      by (rule balanced_like) (simp_all add: rn r2 refs_Cons [of m "n # ns"] refs_Cons [of n ns] refs_Cons [of m2 "n2 # ns"] refs_Cons [of n2 ns])
    then show ?thesis using st m2 n2 ns bs(2) lt [OF False] by simp
  next
    case True
    have bsn: "bs = mdata s n" using bs(2) True n by simp
    obtain t where t: "m_free (n\<lparr>m_len := m_len n - count\<rparr>) s = Inr t" "balanced s [n\<lparr>m_len := m_len n - count\<rparr>] t []"
      using m_free_spec [of "n\<lparr>m_len := m_len n - count\<rparr>" s] n by (auto simp: m_ok_def)
    note sc = same_cldata [OF balanced_cldata [OF t(2)]]
    have bal: "balanced s (m # n # ns) t (m2 # ns)"
      using t(2) by (simp add: balanced_def r2 refs_Cons [of m "n # ns"] refs_Cons [of n ns] refs_Cons [of m2 ns])
    have st: "pull_loop m (n # ns) len space s = (if 0 < len - count \<and> ns \<noteq> [] then pull_loop m2 ns (len - count) space t else Inr (m2, ns, len - count, t))"
      using True c(1) m1(1,5) t(1) unfolding pull_loop.simps(2) [of m n ns len space s] Let_def
      unfolding count_def [symmetric] bs_def [symmetric] by (simp add: m2_def del: pull_loop.simps)
    show ?thesis
    proof (cases "0 < len - count \<and> ns \<noteq> []")
      case False
      then show ?thesis using st m2 ns bsn bal by auto
    next
      case go: True
      have "\<exists>m' ns' len' s'. pull_loop m2 ns (len - count) space t = Inr (m', ns', len', s') \<and> m_ok t m' \<and> m_loc m' = Dat off \<and> chain_ok t ns'
        \<and> mdata t m' @ mbytes t ns' = mdata t m2 @ mbytes t ns \<and> m_len m' + len' = m_len m2 + (len - count) \<and> balanced t (m2 # ns) s' (m' # ns')
        \<and> (0 < len' \<longrightarrow> ns' = [])"
        by (rule Cons.IH) (use m2 sc ns go Cons.prems in \<open>simp_all add: MPULL_EXTRA_def\<close>)
      then obtain m' ns' len' u where u: "pull_loop m2 ns (len - count) space t = Inr (m', ns', len', u)" "m_ok s m'" "m_loc m' = Dat off" "chain_ok s ns'"
        "mdata s m' @ mbytes s ns' = mdata s m2 @ mbytes s ns" "m_len m' + len' = m_len m2 + (len - count)" "balanced t (m2 # ns) u (m' # ns')"
        "0 < len' \<longrightarrow> ns' = []" unfolding sc by blast
      have "pull_loop m (n # ns) len space s = Inr (m', ns', len', u)" using st go u(1) by simp
      then show ?thesis using u balanced_trans [OF bal u(7)] m2 bsn by auto
    qed
  qed
qed

text \<open>The whole of \<open>m_pullup\<close>, from the choice of the first mbuf on.\<close>

definition pulled :: "mbst \<Rightarrow> chain \<Rightarrow> int \<Rightarrow> chain \<Rightarrow> bool" where
  "pulled s n len ms \<longleftrightarrow> (if ms = [] then MLEN < len \<or> clen n < len \<or> avail s = 0
     else chain_ok s ms \<and> mbytes s ms = mbytes s n \<and> len \<le> m_len (hd ms) \<and> (\<exists>off. m_loc (hd ms) = Dat off))"

lemma mbytes_clen_eq: "chain_ok s ms \<Longrightarrow> chain_ok s ns \<Longrightarrow> mbytes s ms = mbytes s ns \<Longrightarrow> clen ms = clen ns"
  by (metis mbytes_length clen_nonneg eq_nat_nat_iff)

lemma pull_finish:
  assumes m: "m_ok t m" "m_loc m = Dat off" and ns: "chain_ok t ns" "ns \<noteq> []" and len: "- MPULL_EXTRA \<le> len" "m_len m + len \<le> int MMAXOFF - int off"
    and c: "mdata t m @ mbytes t ns = mbytes s n" "m_len m + clen ns = clen n" "m_len m + len = l0"
    and b: "balanced s n t (m # ns)"
  shows "\<exists>ms s'. kbind (pull_loop m ns len (int MMAXOFF - int off) t)
      (\<lambda>(m, n, len, s). if 0 < len then kbind (m_free m s) (\<lambda>s. kbind (m_freem n s) (\<lambda>s. Inr ([], s))) else Inr (m # n, s)) = Inr (ms, s')
    \<and> pulled s n l0 ms \<and> balanced s n s' ms"
proof -
  from pull_loop_spec [OF m ns refl len] obtain m' ns' len' u where
    p: "pull_loop m ns len (int MMAXOFF - int off) t = Inr (m', ns', len', u)" "m_ok t m'" "m_loc m' = Dat off" "chain_ok t ns'"
      "mdata t m' @ mbytes t ns' = mdata t m @ mbytes t ns" "m_len m' + len' = m_len m + len" "balanced t (m # ns) u (m' # ns')"
      "0 < len' \<longrightarrow> ns' = []" by blast
  note sc = same_cldata [OF balanced_cldata [OF b]]
  have bu: "balanced s n u (m' # ns')" using balanced_trans [OF b p(7)] .
  show ?thesis
  proof (cases "0 < len'")
    case False
    have "pulled s n l0 (m' # ns')" using False p(2-6) c sc by (simp add: pulled_def)
    then show ?thesis using p(1) False bu by auto
  next
    case True
    then have e: "ns' = []" using p(8) by simp
    obtain v where v: "m_free m' u = Inr v" "balanced u [m'] v []" using m_free_spec [of m' u] p(2) by (auto simp: m_ok_def)
    have "clen [m'] = clen (m # ns)" using p(2,4,5) m(1) ns(1) e by (intro mbytes_clen_eq [of t]) simp_all
    then have "clen n < l0" using True p(6) c by simp
    then have "pulled s n l0 []" by (simp add: pulled_def)
    moreover have "balanced s n v []" using balanced_trans [OF bu] v(2) e by simp
    ultimately show ?thesis using p(1) True e v(1) by auto
  qed
qed

definition pull_in_place :: "chain \<Rightarrow> int \<Rightarrow> bool" where
  "pull_in_place n len \<longleftrightarrow> (case off_of (hd n) of Some off \<Rightarrow> int off + len \<le> int MMAXOFF | None \<Rightarrow> False) \<and> tl n \<noteq> []"

lemma m_pullup_spec:
  assumes ok: "chain_ok s n" "n \<noteq> []" "st_ok s" and len: "0 \<le> len" "pull_in_place n len \<Longrightarrow> m_len (hd n) \<le> len + MPULL_EXTRA"
  shows "\<exists>ms s'. m_pullup n len s = Inr (ms, s') \<and> pulled s n len ms \<and> balanced s n s' ms"
proof -
  obtain n0 ns where n: "n = n0 # ns" using ok(2) by (cases n) auto
  have n0: "m_ok s n0" and ns: "chain_ok s ns" using ok n by simp_all
  let ?fin = "\<lambda>(m, n, len, s). if 0 < len then kbind (m_free m s) (\<lambda>s. kbind (m_freem n s) (\<lambda>s. Inr ([], s))) else Inr (m # n, s)"
  have bad: "\<exists>ms s'. kbind (m_freem n t) (\<lambda>s. Inr ([], s)) = Inr (ms, s') \<and> pulled s n len ms \<and> balanced s n s' ms"
    if "MLEN < len \<or> avail s = 0" "balanced s [] t []" for t
  proof -
    obtain u where "m_freem n t = Inr u" "balanced t n u []" using m_freem_spec [OF chain_ok_types [OF ok(1)]] by blast
    then show ?thesis using that balanced_trans [OF balanced_frame [OF that(2), of n, simplified], of u "[]"] by (auto simp: pulled_def)
  qed
  show ?thesis
  proof (cases "(\<exists>off. m_loc n0 = Dat off \<and> int off + len \<le> int MMAXOFF) \<and> ns \<noteq> []")
    case True
    then obtain off where off: "m_loc n0 = Dat off" "int off + len \<le> int MMAXOFF" "ns \<noteq> []" by blast
    have "m_pullup n len s = kbind (pull_loop n0 ns (len - m_len n0) (int MMAXOFF - int off) s) ?fin"
      using off n by (simp add: m_pullup_def Let_def off_of_def)
    moreover have "\<exists>ms s'. kbind (pull_loop n0 ns (len - m_len n0) (int MMAXOFF - int off) s) ?fin = Inr (ms, s')
        \<and> pulled s n len ms \<and> balanced s n s' ms"
      by (rule pull_finish [OF n0 off(1) ns off(3)]) (use len n off balanced_refl in \<open>simp_all add: pull_in_place_def off_of_def\<close>)
    ultimately show ?thesis by simp
  next
    case False
    have cond: "\<not> ((case off_of n0 of Some off \<Rightarrow> int off + len \<le> int MMAXOFF | None \<Rightarrow> False) \<and> ns \<noteq> [])"
      using False by (auto simp: off_of_def split: mloc.splits)
    show ?thesis
    proof (cases "MLEN < len")
      case True
      have "m_pullup n len s = kbind (m_freem n s) (\<lambda>s. Inr ([], s))" using n cond True by (auto simp: m_pullup_def Let_def split: option.splits)
      then show ?thesis using bad [of s] True balanced_refl by simp
    next
      case small: False
      obtain r t where gs: "m_get False (m_type n0) s = Inr (r, t)" "case r of None \<Rightarrow> avail s = 0 \<and> balanced s [] t []
        | Some m \<Rightarrow> balanced s [] t [m] \<and> m_loc m = Dat MMINOFF \<and> m_type m = m_type n0 \<and> m_dat m = junk s"
        using m_get_spec [of "m_type n0" s] by blast
      show ?thesis
      proof (cases r)
        case None
        then have t: "m_get False (m_type n0) s = Inr (None, t)" using gs by simp
        have "m_pullup n len s = kbind (m_freem n t) (\<lambda>s. Inr ([], s))" using n cond small t by (auto simp: m_pullup_def Let_def split: option.splits)
        then show ?thesis using bad [of t] gs None by simp
      next
        case (Some m)
        then have t: "m_get False (m_type n0) s = Inr (Some m, t)" using gs by simp
        define m1 where "m1 = m\<lparr>m_len := 0\<rparr>"
        have g: "balanced s [] t [m]" "m_loc m = Dat MMINOFF" "m_type m = m_type n0" "m_dat m = junk s" using gs Some by auto
        have m1: "m_ok t m1" "m_loc m1 = Dat MMINOFF" "m_len m1 = 0" "mdata t m1 = []"
          using g n0 ok(3) by (simp_all add: m1_def m_ok_def st_ok_def mbuf_consts mdata_def)
        note sc = same_cldata [OF balanced_cldata [OF g(1)]]
        have "balanced s [] t [m1]" using g(1) by (simp add: balanced_def m1_def)
        then have b: "balanced s n t (m1 # n)" using balanced_frame [of s "[]" t "[m1]" n] by simp
        have "m_pullup n len s = kbind (pull_loop m1 n len (int MMAXOFF - int MMINOFF) t) ?fin"
          unfolding m_pullup_def n list.case Let_def if_not_P [OF cond] if_not_P [OF small] t kbind_simps prod.case option.case m1_def [symmetric]
          using m1(2) by (simp add: off_of_def del: pull_loop.simps)
        moreover have "\<exists>ms s'. kbind (pull_loop m1 n len (int MMAXOFF - int MMINOFF) t) ?fin = Inr (ms, s')
            \<and> pulled s n len ms \<and> balanced s n s' ms"
          by (rule pull_finish [OF m1(1,2) _ ok(2)]) (use len(1) m1 sc ok small b in \<open>simp_all add: MPULL_EXTRA_def mbuf_consts\<close>)
        ultimately show ?thesis by simp
      qed
    qed
  qed
qed

text \<open>The case that is left: the first mbuf stays where it is, though it holds more than the loop would put there.\<close>

lemma m_pullup_negative:
  assumes "pull_in_place n len" "len + MPULL_EXTRA < m_len (hd n)" "n \<noteq> []"
  shows "m_pullup n len s = Inl (Fault ''bcopy'')"
proof -
  obtain n0 n1 ns where n: "n = n0 # n1 # ns" using assms(1,3) by (cases n; cases "tl n") (auto simp: pull_in_place_def)
  obtain off where off: "off_of n0 = Some off" "int off + len \<le> int MMAXOFF" using assms(1) n by (auto simp: pull_in_place_def split: option.splits)
  have "min (min (int MMAXOFF - int off - m_len n0) (len - m_len n0 + MPULL_EXTRA)) (m_len n1) < 0" using assms(2) n by simp
  then have "pull_loop n0 (n1 # ns) (len - m_len n0) (int MMAXOFF - int off) s = Inl (Fault ''bcopy'')"
    unfolding pull_loop.simps(2) [of n0 n1 ns "len - m_len n0" "int MMAXOFF - int off" s] Let_def by (simp only: if_True)
  then show ?thesis using n off by (simp add: m_pullup_def Let_def del: pull_loop.simps)
qed

section \<open>Copying out\<close>

lemma cpy_skip_spec:
  "chain_ok s ms \<Longrightarrow> 0 \<le> off \<Longrightarrow> off \<le> clen ms \<Longrightarrow> cpy_skip ms off = (ns, o') \<Longrightarrow>
   chain_ok s ns \<and> 0 \<le> o' \<and> (if ns = [] then o' = 0 else o' \<le> m_len (hd ns))
     \<and> drop (nat o') (mbytes s ns) = drop (nat off) (mbytes s ms) \<and> clen ns - o' = clen ms - off"
proof (induction ms arbitrary: off)
  case (Cons m ms)
  have m: "m_ok s m" using Cons by simp
  show ?case
  proof (cases "off \<noteq> 0 \<and> m_len m \<le> off")
    case True
    then have "drop (nat off) (mbytes s (m # ms)) = drop (nat (off - m_len m)) (mbytes s ms)"
      using m m_len_nonneg [OF m] by (auto simp: nat_diff_distrib)
    then show ?thesis using Cons.IH [of "off - m_len m"] Cons.prems True by simp
  next
    case False then show ?thesis using Cons.prems m_len_nonneg [OF m] by auto
  qed
qed simp

lemma cpy_loop_spec: "chain_ok s ms \<Longrightarrow> clen ms \<le> len \<Longrightarrow> cpy_loop s ms len = (mbytes s ms, len - clen ms)"
proof (induction ms arbitrary: len)
  case (Cons m ms)
  then have c: "m_ok s m" "0 \<le> clen ms" "0 \<le> m_len m" using clen_nonneg by (auto simp: m_len_nonneg)
  show ?case
  proof (cases "len = 0")
    case True
    then have "clen ms = 0" "m_len m = 0" using c Cons.prems by simp_all
    moreover have "mdata s m = []" "mbytes s ms = []" using calculation mdata_length [OF c(1)] mbytes_length [of s ms] Cons.prems by simp_all
    ultimately show ?thesis using True by simp
  next
    case False then show ?thesis using Cons c by simp
  qed
qed simp

lemma m_cpytoc_spec:
  assumes "chain_ok s m" "m \<noteq> []" "0 \<le> off" "off \<le> clen m" "clen m - off \<le> len"
  shows "m_cpytoc s m off len = Inr (drop (nat off) (mbytes s m), len - (clen m - off))"
proof -
  obtain ns o' where k: "cpy_skip m off = (ns, o')" by (metis prod.exhaust)
  note sk = cpy_skip_spec [OF assms(1,3,4) k]
  show ?thesis
  proof (cases ns)
    case Nil
    then show ?thesis using sk k assms by (auto simp: m_cpytoc_def)
  next
    case (Cons n ms)
    have n: "m_ok s n" "chain_ok s ms" "o' \<le> m_len n" "0 \<le> o'" "0 \<le> clen ms" using sk Cons clen_nonneg by auto
    have l: "min len (m_len n - o') = m_len n - o'" "clen ms \<le> len - (m_len n - o')" using sk assms n Cons by auto
    have "take (nat (m_len n - o')) (drop (nat o') (mtod s n)) = drop (nat o') (mdata s n)"
      using n by (simp add: mdata_def drop_take nat_diff_distrib del: mtod.simps)
    moreover have "nat o' \<le> length (mdata s n)" using n by simp
    ultimately have "take (nat (m_len n - o')) (drop (nat o') (mtod s n)) @ mbytes s ms = drop (nat off) (mbytes s m)"
      using sk Cons by simp
    then show ?thesis using assms k Cons sk l cpy_loop_spec [OF n(2) l(2)] by (simp add: m_cpytoc_def Let_def del: mtod.simps)
  qed
qed

section \<open>Properties\<close>

definition demo_mb :: "mloc \<Rightarrow> int \<Rightarrow> byte list \<Rightarrow> mbuf" where
  "demo_mb l n bs = \<lparr>m_loc = l, m_len = n, m_type = MT_DATA, m_dat = bs @ replicate (112 - length bs) 0\<rparr>"

definition demo_chain :: chain where
  "demo_chain = [demo_mb (Dat 12) 2 [1, 2], demo_mb (Clu 7 1) 3 [], demo_mb (Dat 14) 2 [0, 0, 6, 7]]"

definition demo_pool :: mbst where
  "demo_pool = \<lparr>mfree = 3, mbmap = [], pages = 0, mtypes = (\<lambda>_. 3), mbufs = 6, drops = 0, m_want = False, mclfree = [], clusters = 0, mclref = (\<lambda>_. 1),
     cldata = (\<lambda>_. [9, 3, 4, 5]), clfun_calls = [], kmem_next = 0, junk = replicate 112 0, junk_len = 0\<rparr>"

lemma demo_mbufs:
  "demo_chain \<noteq> []" "chain_ok demo_pool demo_chain" "st_ok demo_pool" "clen demo_chain = 7" "m_len (hd demo_chain) = 2" "M_COPYALL = 1000000000"
  "MPULL_EXTRA = 32"
  by (simp_all add: demo_chain_def demo_mb_def demo_pool_def m_ok_def st_ok_def mbuf_consts M_COPYALL_def MPULL_EXTRA_def)

text \<open>C22. \<open>m_copy\<close> returns a new well-formed chain that holds the \<open>len\<close> bytes from \<open>off\<close> on (all the
  rest for \<^verbatim>\<open>M_COPYALL\<close>), or no chain when it runs out of mbufs, which it can only when fewer are free,
  or can be made of free pages, than the chain has. Either way every mbuf and cluster reference
  it took is in the chain it returns: a copy that fails half way gives everything back.\<close>

theorem m_copy_correct:
  assumes "chain_ok s m" "st_ok s" "0 \<le> off" "0 \<le> len" "len = M_COPYALL \<and> off \<le> clen m \<or> len < M_COPYALL \<and> off + len \<le> clen m"
  shows "\<exists>n s'. m_copy m off len s = Inr (n, s') \<and> balanced s [] s' n \<and> chain_ok s n
    \<and> (mbytes s n = upto_len len (drop (nat off) (mbytes s m)) \<or> n = [] \<and> avail s < length m)"
  using m_copy_spec [OF assms] .

theorem m_copy_correct_witness:
  "\<exists>n s'. m_copy demo_chain 1 5 demo_pool = Inr (n, s') \<and> mbytes demo_pool n = take 5 (drop 1 (mbytes demo_pool demo_chain))"
proof -
  have "\<not> avail demo_pool < length demo_chain" by (simp add: avail_def demo_pool_def demo_chain_def)
  then show ?thesis using m_copy_correct [of demo_pool demo_chain 1 5] by (auto simp: demo_mbufs upto_len_def)
qed

text \<open>C23. \<open>m_pullup\<close> makes the first \<open>len\<close> bytes contiguous in an mbuf's own data area, also when they lie in a
  cluster, without changing the data of the chain or losing an mbuf or a cluster reference. It fails only when \<open>len\<close> exceeds
  the chain or what an mbuf can hold, or no mbuf is left, and then the whole chain has been freed. The one other case is a
  fault: a first mbuf that has room for the bytes and holds more than \<^verbatim>\<open>len + MPULL_EXTRA\<close> of them already gives
  \<^verbatim>\<open>bcopy\<close> a negative count.\<close>

theorem m_pullup_correct:
  assumes "chain_ok s n" "n \<noteq> []" "st_ok s" "0 \<le> len"
  shows "if pull_in_place n len \<and> len + MPULL_EXTRA < m_len (hd n) then m_pullup n len s = Inl (Fault ''bcopy'')
    else \<exists>ms s'. m_pullup n len s = Inr (ms, s') \<and> pulled s n len ms \<and> balanced s n s' ms"
  using m_pullup_spec [OF assms] m_pullup_negative [OF _ _ assms(2)] by force

theorem m_pullup_correct_witness:
  "\<exists>ms s'. m_pullup (tl demo_chain) 3 demo_pool = Inr (ms, s') \<and> pulled demo_pool (tl demo_chain) 3 ms
     \<and> balanced demo_pool (tl demo_chain) s' ms"
proof -
  have "chain_ok demo_pool (tl demo_chain)" "tl demo_chain \<noteq> []" "\<not> pull_in_place (tl demo_chain) 3"
    using demo_mbufs(2) by (simp_all add: demo_chain_def pull_in_place_def off_of_def demo_mb_def)
  then show ?thesis using m_pullup_correct [of demo_pool "tl demo_chain" 3] by (simp add: demo_mbufs)
qed

text \<open>C24. \<open>m_cat\<close> refines concatenation of byte strings: the chain it leaves is well formed, its
  data is the data of the first chain followed by that of the second, and the mbufs it merged away are free again.\<close>

theorem m_cat_refines_append:
  assumes "m \<noteq> []" "chain_ok s m" "chain_ok s n"
  shows "\<exists>ms s'. m_cat m n s = Inr (ms, s') \<and> chain_ok s ms \<and> mbytes s ms = mbytes s m @ mbytes s n \<and> balanced s (m @ n) s' ms"
  using m_cat_spec [OF assms] .

theorem m_cat_refines_append_witness:
  "\<exists>ms s'. m_cat demo_chain demo_chain demo_pool = Inr (ms, s') \<and> chain_ok demo_pool ms
    \<and> mbytes demo_pool ms = mbytes demo_pool demo_chain @ mbytes demo_pool demo_chain \<and> balanced demo_pool (demo_chain @ demo_chain) s' ms"
  by (rule m_cat_refines_append) (simp_all add: demo_mbufs)

text \<open>C25. \<open>m_adj\<close> refines dropping bytes from the front (\<open>len \<ge> 0\<close>) or from the end (\<open>len < 0\<close>,
  by no more than there is) of the byte string a chain holds.\<close>

theorem m_adj_refines_trim:
  assumes "chain_ok s mp" "- len \<le> clen mp"
  shows "chain_ok s (m_adj mp len)
    \<and> mbytes s (m_adj mp len) = (if 0 \<le> len then drop (nat len) (mbytes s mp) else take (nat (clen mp + len)) (mbytes s mp))"
  using m_adj_spec [OF assms] .

theorem m_adj_refines_trim_witness:
  "chain_ok demo_pool (m_adj demo_chain (- 4))
    \<and> mbytes demo_pool (m_adj demo_chain (- 4)) = (if 0 \<le> (- 4 :: int) then drop (nat (- 4)) (mbytes demo_pool demo_chain)
        else take (nat (clen demo_chain + - 4)) (mbytes demo_pool demo_chain))"
  by (rule m_adj_refines_trim) (simp_all add: demo_mbufs)

text \<open>When the bytes from \<open>off\<close> on fit into \<open>len\<close>, \<open>m_cpytoc\<close> stores exactly them and returns
  how many of the \<open>len\<close> there were not.\<close>

theorem m_cpytoc_correct:
  assumes "chain_ok s m" "m \<noteq> []" "0 \<le> off" "off \<le> clen m" "clen m - off \<le> len"
  shows "m_cpytoc s m off len = Inr (drop (nat off) (mbytes s m), len - (clen m - off))"
  using m_cpytoc_spec [OF assms] .

theorem m_cpytoc_correct_witness:
  "m_cpytoc demo_pool demo_chain 3 4 = Inr (drop (nat 3) (mbytes demo_pool demo_chain), 4 - (clen demo_chain - 3))"
  by (rule m_cpytoc_correct) (simp_all add: demo_mbufs)

text \<open>Otherwise it may store more than \<open>len\<close> bytes: only the first mbuf is cut, the others are copied
  whole. Asked for 3 bytes of a chain of 2, 3 and 2 it stores all 7 and returns -4.\<close>

theorem m_cpytoc_overruns: "\<exists>bs. m_cpytoc demo_pool demo_chain 0 3 = Inr (bs, - 4) \<and> length bs = 7"
  by (simp add: m_cpytoc_def demo_chain_def demo_pool_def demo_mb_def mdata_def mbuf_consts)

end
