(* ===== verification/Sockbuf.thy ===== *)
theory Sockbuf
  imports Mbuf
begin

unbundle bit_operations_syntax

text \<open>
  Socket buffers, the second half of \<^verbatim>\<open>sys/sys/uipc_socket2.c\<close> with \<^verbatim>\<open>struct sockbuf\<close> and the macros of
  \<^verbatim>\<open>sys/h/socketvar.h\<close>, and \<^verbatim>\<open>m_tally\<close> of \<^verbatim>\<open>uipc_mbuf.c\<close>. The queue \<^verbatim>\<open>sb_mb\<close> of records (linked by
  \<^verbatim>\<open>m_act\<close>), each a chain of mbufs, is a list of chains; no record is empty. The counters are
  16 bits wide and wrap. The pointer \<open>n\<close> that \<^verbatim>\<open>sbcompress\<close> gets is, in every call, the last mbuf of
  the last record, so the model finds it there.
\<close>

record sockbuf =
  sb_cc :: "16 word"
  sb_hiwat :: "16 word"
  sb_mbcnt :: "16 word"
  sb_mbmax :: "16 word"
  sb_lowat :: "16 word"
  sb_timeo :: int
  sb_mb :: "chain list"
  sb_sel :: "nat option"
  sb_flags :: "16 word"

definition SB_MAX :: int where "SB_MAX = 65535"
definition SB_LOCK :: "16 word" where "SB_LOCK = 1"
definition SB_WANT :: "16 word" where "SB_WANT = 2"
definition SB_WAIT :: "16 word" where "SB_WAIT = 4"
definition SB_COLL :: "16 word" where "SB_COLL = 16"

text \<open>\<^verbatim>\<open>m_off > MMAXOFF\<close>.\<close>

definition off_past :: "mbuf \<Rightarrow> bool" where
  "off_past m = (case m_loc m of Dat off \<Rightarrow> MMAXOFF < off | Clu c off \<Rightarrow> True | Fun arg bytes off \<Rightarrow> True)"

definition sbspace :: "sockbuf \<Rightarrow> int" where
  "sbspace sb = min (uint (sb_hiwat sb) - uint (sb_cc sb)) (uint (sb_mbmax sb) - uint (sb_mbcnt sb))"

definition sballoc :: "sockbuf \<Rightarrow> mbuf \<Rightarrow> sockbuf" where
  "sballoc sb m = (let sb = sb\<lparr>sb_cc := sb_cc sb + of_int (m_len m), sb_mbcnt := sb_mbcnt sb + of_int MSIZE\<rparr> in
     if off_past m then sb\<lparr>sb_mbcnt := sb_mbcnt sb + of_int CLBYTES\<rparr> else sb)"

definition sbfree :: "sockbuf \<Rightarrow> mbuf \<Rightarrow> sockbuf" where
  "sbfree sb m = (let sb = sb\<lparr>sb_cc := sb_cc sb - of_int (m_len m), sb_mbcnt := sb_mbcnt sb - of_int MSIZE\<rparr> in
     if off_past m then sb\<lparr>sb_mbcnt := sb_mbcnt sb - of_int CLBYTES\<rparr> else sb)"

definition sb_empty :: sockbuf where
  "sb_empty = \<lparr>sb_cc = 0, sb_hiwat = 0, sb_mbcnt = 0, sb_mbmax = 0, sb_lowat = 0, sb_timeo = 0, sb_mb = [], sb_sel = None, sb_flags = 0\<rparr>"

text \<open>\<open>m_tally\<close> sums in a socket buffer of its own, so its sums wrap at 16 bits.\<close>

definition m_tally :: "chain \<Rightarrow> int \<Rightarrow> int \<Rightarrow> int \<Rightarrow> int \<times> int" where
  "m_tally m op cc mbcnt = (let sb = foldl sballoc sb_empty m; c = uint (sb_cc sb); k = uint (sb_mbcnt sb) in
     if op = - 1 then (cc - c, mbcnt - k) else if op = 0 then (c, k) else if op = 1 then (cc + c, mbcnt + k) else (cc, mbcnt))"

section \<open>Appending\<close>

definition sb_last :: "sockbuf \<Rightarrow> mbuf option" where
  "sb_last sb = (if sb_mb sb = [] then None else Some (last (last (sb_mb sb))))"

text \<open>Storing to the mbuf \<open>sb_last\<close>, and linking \<open>m\<close> after it (or at \<^verbatim>\<open>sb_mb\<close> when there is none).\<close>

definition sb_set_last :: "sockbuf \<Rightarrow> mbuf \<Rightarrow> sockbuf" where
  "sb_set_last sb n = sb\<lparr>sb_mb := butlast (sb_mb sb) @ [butlast (last (sb_mb sb)) @ [n]]\<rparr>"

definition sb_link :: "sockbuf \<Rightarrow> mbuf \<Rightarrow> sockbuf" where
  "sb_link sb m = sb\<lparr>sb_mb := (if sb_mb sb = [] then [[m]] else butlast (sb_mb sb) @ [last (sb_mb sb) @ [m]])\<rparr>"

definition sb_fits :: "mbuf \<Rightarrow> mbuf \<Rightarrow> bool" where
  "sb_fits n m = (\<not> off_past n \<and> \<not> off_past m \<and> int (the (off_of n)) + m_len n + m_len m \<le> int MMAXOFF \<and> m_type n = m_type m)"

fun sbcompress :: "sockbuf \<Rightarrow> chain \<Rightarrow> mbst \<Rightarrow> (sockbuf \<times> mbst) kern" where
  "sbcompress sb [] s = Inr (sb, s)"
| "sbcompress sb (m # ms) s =
     (if m_len m = 0 then kbind (m_free m s) (sbcompress sb ms)
      else case sb_last sb of
          None \<Rightarrow> sbcompress (sb_link (sballoc sb m) m) ms s
        | Some n \<Rightarrow>
            if sb_fits n m
            then kbind (put_dat n (nat (m_len n)) (mdata s m)) (\<lambda>n.
              kbind (m_free m s) (sbcompress ((sb_set_last sb (n\<lparr>m_len := m_len n + m_len m\<rparr>))\<lparr>sb_cc := sb_cc sb + of_int (m_len m)\<rparr>) ms))
            else sbcompress (sb_link (sballoc sb m) m) ms s)"

definition sbappend :: "sockbuf \<Rightarrow> chain \<Rightarrow> mbst \<Rightarrow> (sockbuf \<times> mbst) kern" where
  "sbappend sb m s = (if m = [] then Inr (sb, s) else sbcompress sb m s)"

fun sbappendrecord :: "sockbuf \<Rightarrow> chain \<Rightarrow> mbst \<Rightarrow> (sockbuf \<times> mbst) kern" where
  "sbappendrecord sb [] s = Inr (sb, s)"
| "sbappendrecord sb (m0 # m) s = (let sb = sballoc sb m0 in sbcompress (sb\<lparr>sb_mb := sb_mb sb @ [[m0]]\<rparr>) m s)"

text \<open>The chain \<open>rights0\<close> is one mbuf or the null pointer, and so is its copy.\<close>

definition sbappendaddr :: "sockbuf \<Rightarrow> byte list \<Rightarrow> chain \<Rightarrow> chain \<Rightarrow> mbst \<Rightarrow> (bool \<times> sockbuf \<times> mbst) kern" where
  "sbappendaddr sb asa m0 rights0 s =
     (let space = int (length asa) + sum_list (map m_len m0) + (case rights0 of [] \<Rightarrow> 0 | r # _ \<Rightarrow> m_len r) in
      if sbspace sb < space then Inr (False, sb, s)
      else kbind (m_get False MT_SONAME s) (\<lambda>(m, s). case m of
          None \<Rightarrow> Inr (False, sb, s)
        | Some m \<Rightarrow> kbind (put_dat m 0 asa) (\<lambda>m.
            let m = m\<lparr>m_len := int (length asa)\<rparr> in
            kbind (if rights0 \<noteq> [] \<and> m_len (hd rights0) \<noteq> 0
                   then kbind (m_copy rights0 0 (m_len (hd rights0)) s) (\<lambda>(r, s). Inr (if r = [] then None else Some r, s))
                   else Inr (Some [], s)) (\<lambda>(r, s). case r of
              None \<Rightarrow> kbind (m_freem [m] s) (\<lambda>s. Inr (False, sb, s))
            | Some r \<Rightarrow>
                let sb = (if r = [] then sb else sballoc sb (hd r)); sb = sballoc sb m; sb = sb\<lparr>sb_mb := sb_mb sb @ [m # r]\<rparr> in
                kbind (if m0 = [] then Inr (sb, s) else sbcompress sb m0 s) (\<lambda>(sb, s). Inr (True, sb, s))))))"

definition sbappendrights :: "sockbuf \<Rightarrow> chain \<Rightarrow> chain \<Rightarrow> mbst \<Rightarrow> (bool \<times> sockbuf \<times> mbst) kern" where
  "sbappendrights sb m0 rights s =
     (if rights = [] then Inl (Panic ''sbappendrights'')
      else let space = sum_list (map m_len m0) + m_len (hd rights) in
        if sbspace sb < space then Inr (False, sb, s)
        else kbind (m_copy rights 0 (m_len (hd rights)) s) (\<lambda>(m, s).
          if m = [] then Inr (False, sb, s)
          else let sb = sballoc sb (hd m); sb = sb\<lparr>sb_mb := sb_mb sb @ [m]\<rparr> in
            kbind (if m0 = [] then Inr (sb, s) else sbcompress sb m0 s) (\<lambda>(sb, s). Inr (True, sb, s))))"

section \<open>Dropping\<close>

text \<open>The loop of \<open>sbdrop\<close>: the rest \<open>m\<close> of a record, and the records \<open>next\<close> after it.\<close>

function sbdrop_loop :: "chain \<Rightarrow> chain list \<Rightarrow> int \<Rightarrow> sockbuf \<Rightarrow> mbst \<Rightarrow> (chain \<times> chain list \<times> sockbuf \<times> mbst) kern" where
  "sbdrop_loop [] [] len sb s = (if 0 < len then Inl (Panic ''sbdrop'') else Inr ([], [], sb, s))"
| "sbdrop_loop [] (r # rs) len sb s = (if 0 < len then sbdrop_loop r rs len sb s else Inr ([], r # rs, sb, s))"
| "sbdrop_loop (m # ms) rs len sb s =
     (if 0 < len then
        if len < m_len m
        then Inr (m\<lparr>m_len := m_len m - len, m_loc := add_off (nat len) (m_loc m)\<rparr> # ms, rs, sb\<lparr>sb_cc := sb_cc sb - of_int len\<rparr>, s)
        else kbind (m_free m s) (sbdrop_loop ms rs (len - m_len m) (sbfree sb m))
      else Inr (m # ms, rs, sb, s))"
  by pat_completeness auto
termination
  by (relation "measure (\<lambda>(m, rs, len, sb, s). length m + sum_list (map (\<lambda>r. Suc (length r)) rs))") auto

fun sbdrop_zero :: "chain \<Rightarrow> sockbuf \<Rightarrow> mbst \<Rightarrow> (chain \<times> sockbuf \<times> mbst) kern" where
  "sbdrop_zero [] sb s = Inr ([], sb, s)"
| "sbdrop_zero (m # ms) sb s = (if m_len m = 0 then kbind (m_free m s) (sbdrop_zero ms (sbfree sb m)) else Inr (m # ms, sb, s))"

definition sbdrop :: "sockbuf \<Rightarrow> int \<Rightarrow> mbst \<Rightarrow> (sockbuf \<times> mbst) kern" where
  "sbdrop sb len s = kbind (case sb_mb sb of [] \<Rightarrow> sbdrop_loop [] [] len sb s | r # rs \<Rightarrow> sbdrop_loop r rs len sb s) (\<lambda>(m, next, sb, s).
     kbind (sbdrop_zero m sb s) (\<lambda>(m, sb, s).
       Inr (sb\<lparr>sb_mb := (if m = [] then next else m # next)\<rparr>, s)))"

fun sbdrop_all :: "chain \<Rightarrow> sockbuf \<Rightarrow> mbst \<Rightarrow> (sockbuf \<times> mbst) kern" where
  "sbdrop_all [] sb s = Inr (sb, s)"
| "sbdrop_all (m # ms) sb s = kbind (m_free m s) (sbdrop_all ms (sbfree sb m))"

definition sbdroprecord :: "sockbuf \<Rightarrow> mbst \<Rightarrow> (sockbuf \<times> mbst) kern" where
  "sbdroprecord sb s = (case sb_mb sb of [] \<Rightarrow> Inr (sb, s) | r # rs \<Rightarrow> sbdrop_all r (sb\<lparr>sb_mb := rs\<rparr>) s)"

text \<open>\<open>sbflush\<close> drops all the data as long as mbufs are counted. The fuel is one more than the number of
  records, since every turn gets rid of one (\<open>None\<close>: it ran out).\<close>

fun sbflush_loop :: "nat \<Rightarrow> sockbuf \<Rightarrow> mbst \<Rightarrow> (sockbuf \<times> mbst) kern option" where
  "sbflush_loop fuel sb s = (if sb_mbcnt sb = 0 then Some (Inr (sb, s))
     else case fuel of 0 \<Rightarrow> None | Suc fuel \<Rightarrow>
       (case sbdrop sb (uint (sb_cc sb)) s of Inl e \<Rightarrow> Some (Inl e) | Inr (sb, s) \<Rightarrow> sbflush_loop fuel sb s))"

definition sbflush :: "nat \<Rightarrow> sockbuf \<Rightarrow> mbst \<Rightarrow> (sockbuf \<times> mbst) kern option" where
  "sbflush fuel sb s =
     (if sb_flags sb AND SB_LOCK \<noteq> 0 then Some (Inl (Panic ''sbflush''))
      else map_option (\<lambda>r. kbind r (\<lambda>(sb, s).
        if sb_cc sb \<noteq> 0 \<or> sb_mbcnt sb \<noteq> 0 \<or> sb_mb sb \<noteq> [] then Inl (Panic ''sbflush 2'') else Inr (sb, s))) (sbflush_loop fuel sb s))"

section \<open>Reserving\<close>

definition sbreserve :: "sockbuf \<Rightarrow> int \<Rightarrow> bool \<times> sockbuf" where
  "sbreserve sb cc = (if SB_MAX * CLBYTES div (2 * MSIZE + CLBYTES) < cc mod 2 ^ 32 then (False, sb)
     else (True, sb\<lparr>sb_hiwat := of_int cc, sb_mbmax := of_int (min (cc * 2) SB_MAX)\<rparr>))"

definition sbrelease :: "nat \<Rightarrow> sockbuf \<Rightarrow> mbst \<Rightarrow> (sockbuf \<times> mbst) kern option" where
  "sbrelease fuel sb s = map_option (\<lambda>r. kbind r (\<lambda>(sb, s). Inr (sb\<lparr>sb_hiwat := 0, sb_mbmax := 0\<rparr>, s))) (sbflush fuel sb s)"

end
