(* ===== verification/Uio.thy ===== *)
theory Uio
  imports Prelude
begin

text \<open>
  Scatter and gather copying between the kernel and a list of user areas, \<^verbatim>\<open>sys/sys/kern_subr.c\<close> and
  \<^verbatim>\<open>sys/h/uio.h\<close>. The array \<^verbatim>\<open>uio_iov\<close> with its count is the list of the areas (base, length) that are left.
  The file offset has the 32 bits of \<^verbatim>\<open>off_t\<close>; a negative \<^verbatim>\<open>iov_len\<close>, which \<^verbatim>\<open>rwuio\<close> refuses before it comes here, is not a value of the model.
  User memory is a function from addresses to bytes with the set of addresses the process may use;
  \<^verbatim>\<open>copyin\<close> and \<^verbatim>\<open>copyout\<close> (assembly language) move all bytes of an area or fail with \<^verbatim>\<open>EFAULT\<close>.
\<close>

section \<open>The state\<close>

type_synonym ubyte = "8 word"

record umem =
  um_mem :: "nat \<Rightarrow> ubyte"
  um_acc :: "nat \<Rightarrow> bool"

record uio =
  uio_iov :: "(nat \<times> nat) list"
  uio_offset :: "32 word"
  uio_segflg :: nat
  uio_resid :: int

datatype uio_rw = UIO_READ | UIO_WRITE

definition UIO_USERSPACE :: nat where "UIO_USERSPACE = 0"
definition UIO_SYSSPACE :: nat where "UIO_SYSSPACE = 1"
definition UIO_USERISPACE :: nat where "UIO_USERISPACE = 2"
definition EFAULT :: int where "EFAULT = 14"

fun poke :: "(nat \<Rightarrow> ubyte) \<Rightarrow> nat list \<Rightarrow> ubyte list \<Rightarrow> nat \<Rightarrow> ubyte" where
  "poke f (a # as) (x # xs) = poke (f(a := x)) as xs"
| "poke f as xs = f"

section \<open>Moving bytes\<close>

text \<open>One area: the branch of \<open>uiomove\<close> on the segment. A segment flag that is none of the three moves nothing.\<close>

definition area_ok :: "uio \<Rightarrow> nat \<Rightarrow> nat \<Rightarrow> umem \<Rightarrow> bool" where
  "area_ok u base cnt m = (uio_segflg u \<noteq> UIO_USERSPACE \<and> uio_segflg u \<noteq> UIO_USERISPACE \<or> (\<forall>a\<in>set [base..<base + cnt]. um_acc m a))"

definition move_area :: "uio_rw \<Rightarrow> ubyte list \<Rightarrow> nat \<Rightarrow> nat \<Rightarrow> uio \<Rightarrow> umem \<Rightarrow> ubyte list \<times> umem" where
  "move_area rw bytes base cnt u m =
     (if UIO_USERISPACE < uio_segflg u then ([], m)
      else case rw of
          UIO_READ \<Rightarrow> ([], m\<lparr>um_mem := poke (um_mem m) [base..<base + cnt] bytes\<rparr>)
        | UIO_WRITE \<Rightarrow> (map (um_mem m) [base..<base + cnt], m))"

text \<open>\<open>uiomove\<close>: the error, the bytes stored at \<^verbatim>\<open>cp\<close> (for \<^verbatim>\<open>UIO_WRITE\<close>), the descriptor and memory.
  Reading past the array of areas is a fault: \<^verbatim>\<open>uio_iovcnt\<close> is not looked at.\<close>

function uiomove :: "uio_rw \<Rightarrow> ubyte list \<Rightarrow> nat \<Rightarrow> uio \<Rightarrow> umem \<Rightarrow> (int \<times> ubyte list \<times> uio \<times> umem) kern" where
  "uiomove rw cp n u m =
     (if 0 < n \<and> uio_resid u \<noteq> 0 then
        case uio_iov u of
          [] \<Rightarrow> Inl (Fault ''uiomove'')
        | (base, len) # iov \<Rightarrow>
            if len = 0 then uiomove rw cp n (u\<lparr>uio_iov := iov\<rparr>) m
            else let cnt = min len n in
              if \<not> area_ok u base cnt m then Inr (EFAULT, [], u, m)
              else let (got, m) = move_area rw (take cnt cp) base cnt u m;
                       u = u\<lparr>uio_iov := (base + cnt, len - cnt) # iov, uio_resid := uio_resid u - int cnt, uio_offset := uio_offset u + of_nat cnt\<rparr> in
                kbind (uiomove rw (drop cnt cp) (n - cnt) u m) (\<lambda>(error, more, u, m). Inr (error, got @ more, u, m))
      else Inr (0, [], u, m))"
  by pat_completeness auto
termination
  by (relation "measure (\<lambda>(rw, cp, n, u, m). n + length (uio_iov u))") auto

function ureadc :: "ubyte \<Rightarrow> uio \<Rightarrow> umem \<Rightarrow> (int \<times> uio \<times> umem) kern" where
  "ureadc c u m = (case uio_iov u of
       [] \<Rightarrow> Inl (Panic ''ureadc'')
     | (base, len) # iov \<Rightarrow>
         if len = 0 \<or> uio_resid u \<le> 0 then ureadc c (u\<lparr>uio_iov := iov\<rparr>) m
         else if \<not> area_ok u base 1 m then Inr (EFAULT, u, m)
         else Inr (0, u\<lparr>uio_iov := (base + 1, len - 1) # iov, uio_resid := uio_resid u - 1, uio_offset := uio_offset u + 1\<rparr>,
                snd (move_area UIO_READ [c] base 1 u m)))"
  by pat_completeness auto
termination
  by (relation "measure (\<lambda>(c, u, m). length (uio_iov u))") auto

text \<open>\<open>uwritec\<close>; for a segment flag out of range the source uses an uninitialised variable.\<close>

function uwritec_loop :: "uio \<Rightarrow> umem \<Rightarrow> (int \<times> uio) kern" where
  "uwritec_loop u m = (case uio_iov u of
       [] \<Rightarrow> Inl (Panic ''uwritec'')
     | (base, len) # iov \<Rightarrow>
         if len = 0 then
           if iov = [] then Inr (- 1, u\<lparr>uio_iov := []\<rparr>) else uwritec_loop (u\<lparr>uio_iov := iov\<rparr>) m
         else if UIO_USERISPACE < uio_segflg u then Inl (Fault ''uwritec'')
         else if \<not> area_ok u base 1 m then Inr (- 1, u)
         else Inr (uint (um_mem m base),
                u\<lparr>uio_iov := (base + 1, len - 1) # iov, uio_resid := uio_resid u - 1, uio_offset := uio_offset u + 1\<rparr>))"
  by pat_completeness auto
termination
  by (relation "measure (\<lambda>(u, m). length (uio_iov u))") auto

definition uwritec :: "uio \<Rightarrow> umem \<Rightarrow> (int \<times> uio) kern" where
  "uwritec u m = (if uio_resid u \<le> 0 then Inr (- 1, u) else uwritec_loop u m)"

section \<open>What they do\<close>

definition uio_addrs :: "uio \<Rightarrow> nat list" where
  "uio_addrs u = concat (map (\<lambda>(base, len). [base..<base + len]) (uio_iov u))"

definition uio_fit :: "umem \<Rightarrow> nat \<Rightarrow> uio \<Rightarrow> bool" where
  "uio_fit m n u \<longleftrightarrow> n \<le> length (uio_addrs u) \<and> int n \<le> uio_resid u \<and> uio_segflg u \<le> UIO_USERISPACE
     \<and> (uio_segflg u = UIO_SYSSPACE \<or> (\<forall>a\<in>set (take n (uio_addrs u)). um_acc m a))"

text \<open>\<open>u'\<close> is \<open>u\<close> after \<open>n\<close> bytes.\<close>

definition uio_after :: "nat \<Rightarrow> uio \<Rightarrow> uio \<Rightarrow> bool" where
  "uio_after n u u' \<longleftrightarrow> uio_addrs u' = drop n (uio_addrs u) \<and> uio_resid u' = uio_resid u - int n \<and> uio_offset u' = uio_offset u + of_nat n
     \<and> uio_segflg u' = uio_segflg u"

lemma poke_append: "length as = length xs \<Longrightarrow> poke f (as @ bs) (xs @ ys) = poke (poke f as xs) bs ys"
  by (induction f as xs rule: poke.induct) auto

lemma poke_other: "a \<notin> set as \<Longrightarrow> poke f as xs a = f a"
  by (induction f as xs rule: poke.induct) auto

lemma map_poke: "distinct as \<Longrightarrow> length as = length xs \<Longrightarrow> map (poke f as xs) as = xs"
  by (induction f as xs rule: poke.induct) (auto simp: poke_other)

lemma uio_addrs_simps [simp]:
  "uio_iov u = [] \<Longrightarrow> uio_addrs u = []"
  "uio_iov u = (base, len) # iov \<Longrightarrow> uio_addrs u = [base..<base + len] @ uio_addrs (u\<lparr>uio_iov := iov\<rparr>)"
  by (simp_all add: uio_addrs_def)

lemma uio_addrs_upd [simp]:
  "uio_addrs (u\<lparr>uio_resid := r\<rparr>) = uio_addrs u" "uio_addrs (u\<lparr>uio_offset := off\<rparr>) = uio_addrs u"
  by (simp_all add: uio_addrs_def)

lemma uio_after_trans: "uio_after i u v \<Longrightarrow> uio_after j v w \<Longrightarrow> uio_after (i + j) u w"
  by (simp add: uio_after_def add.commute)

text \<open>One turn of the loop.\<close>

lemma uiomove_area:
  assumes fit: "uio_fit m n u" and iov: "uio_iov u = (base, len) # iov" and len: "0 < len" "0 < n"
    and cnt: "cnt = min len n" and v: "v = u\<lparr>uio_iov := (base + cnt, len - cnt) # iov, uio_resid := uio_resid u - int cnt, uio_offset := uio_offset u + of_nat cnt\<rparr>"
  shows "area_ok u base cnt m" "take cnt (uio_addrs u) = [base..<base + cnt]" "uio_after cnt u v" "uio_fit m (n - cnt) v"
    "\<And>f. uio_fit (m\<lparr>um_mem := f\<rparr>) (n - cnt) v"
proof -
  have split: "uio_addrs u = [base..<base + cnt] @ [base + cnt..<base + len] @ uio_addrs (u\<lparr>uio_iov := iov\<rparr>)"
    using iov upt_add_eq_append [of base "base + cnt" "len - cnt"] cnt by simp
  show tk: "take cnt (uio_addrs u) = [base..<base + cnt]" by (simp add: split)
  have "uio_addrs v = [base + cnt..<base + len] @ uio_addrs (u\<lparr>uio_iov := iov\<rparr>)" using cnt by (simp add: v uio_addrs_def)
  then have dr: "uio_addrs v = drop cnt (uio_addrs u)" by (simp add: split)
  show "uio_after cnt u v" using dr by (simp add: uio_after_def v)
  have le: "cnt \<le> n" using cnt by simp
  have "set (take cnt (uio_addrs u)) \<subseteq> set (take n (uio_addrs u))" using le by (rule set_take_subset_set_take)
  then show "area_ok u base cnt m" using fit by (auto simp: area_ok_def uio_fit_def tk UIO_SYSSPACE_def UIO_USERSPACE_def UIO_USERISPACE_def)
  have "take (n - cnt) (uio_addrs v) = drop cnt (take n (uio_addrs u))" using dr le by (simp add: drop_take)
  then have sub: "set (take (n - cnt) (uio_addrs v)) \<subseteq> set (take n (uio_addrs u))" by (simp only: set_drop_subset)
  have len: "n - cnt \<le> length (uio_addrs v)" using fit unfolding dr length_drop uio_fit_def by linarith
  have sel: "uio_resid v = uio_resid u - int cnt" "uio_segflg v = uio_segflg u" by (simp_all add: v)
  show f: "uio_fit m (n - cnt) v" unfolding uio_fit_def sel using fit len sub le by (auto simp only: uio_fit_def of_nat_diff)
  show "uio_fit (m\<lparr>um_mem := f\<rparr>) (n - cnt) v" for f using \<open>uio_fit m (n - cnt) v\<close> by (simp add: uio_fit_def)
qed

lemma uio_skip:
  assumes "uio_iov u = (base, 0) # iov"
  shows "uio_fit m n (u\<lparr>uio_iov := iov\<rparr>) = uio_fit m n u" "uio_after n (u\<lparr>uio_iov := iov\<rparr>) u' = uio_after n u u'"
    "uio_addrs (u\<lparr>uio_iov := iov\<rparr>) = uio_addrs u"
  using assms by (simp_all add: uio_fit_def uio_after_def)

declare uiomove.simps [simp del]

lemma uiomove_read:
  "uio_fit m n u \<Longrightarrow> n \<le> length cp \<Longrightarrow>
   \<exists>u'. uiomove UIO_READ cp n u m = Inr (0, [], u', m\<lparr>um_mem := poke (um_mem m) (take n (uio_addrs u)) (take n cp)\<rparr>) \<and> uio_after n u u'"
proof (induction UIO_READ cp n u m rule: uiomove.induct)
  case (1 cp n u m)
  show ?case
  proof (cases "n = 0")
    case True
    then show ?thesis by (subst uiomove.simps) (simp add: uio_after_def)
  next
    case False
    then obtain base len iov where iov: "uio_iov u = (base, len) # iov" and r: "uio_resid u \<noteq> 0"
      using 1(3) by (cases "uio_iov u") (auto simp: uio_fit_def)
    show ?thesis
    proof (cases "len = 0")
      case True
      note sk = uio_skip [OF iov [unfolded True]]
      have "uiomove UIO_READ cp n u m = uiomove UIO_READ cp n (u\<lparr>uio_iov := iov\<rparr>) m"
        using False r iov True by (subst uiomove.simps) simp
      then show ?thesis using 1(1) [OF _ iov refl True] False r 1(3,4) unfolding sk by simp
    next
      case len: False
      define cnt where "cnt = min len n"
      define v where "v = u\<lparr>uio_iov := (base + cnt, len - cnt) # iov, uio_resid := uio_resid u - int cnt, uio_offset := uio_offset u + of_nat cnt\<rparr>"
      note a = uiomove_area [OF 1(3) iov _ _ cnt_def v_def]
      have pos: "0 < len" "0 < n" using len False by simp_all
      define m' where "m' = m\<lparr>um_mem := poke (um_mem m) [base..<base + cnt] (take cnt cp)\<rparr>"
      have seg: "\<not> UIO_USERISPACE < uio_segflg u" using 1(3) by (simp add: uio_fit_def)
      have mv: "move_area UIO_READ (take cnt cp) base cnt u m = ([], m')" using seg by (simp add: move_area_def m'_def)
      have le: "n - cnt \<le> length (drop cnt cp)" using 1(4) by simp
      have fit: "uio_fit m' (n - cnt) v" using a(5) [OF pos] by (simp add: m'_def)
      have go: "0 < n \<and> uio_resid u \<noteq> 0" "\<not> \<not> area_ok u base cnt m" using pos r a(1) [OF pos] by simp_all
      have "\<exists>u'. uiomove UIO_READ (drop cnt cp) (n - cnt) v m'
        = Inr (0, [], u', m'\<lparr>um_mem := poke (um_mem m') (take (n - cnt) (uio_addrs v)) (take (n - cnt) (drop cnt cp))\<rparr>) \<and> uio_after (n - cnt) v u'"
        using 1(2) [OF go(1) iov refl len cnt_def go(2) mv [symmetric] refl v_def fit le] .
      then obtain w where w: "uiomove UIO_READ (drop cnt cp) (n - cnt) v m'
        = Inr (0, [], w, m'\<lparr>um_mem := poke (um_mem m') (take (n - cnt) (uio_addrs v)) (take (n - cnt) (drop cnt cp))\<rparr>)" "uio_after (n - cnt) v w" by blast
      have run: "uiomove UIO_READ cp n u m = Inr (0, [], w, m'\<lparr>um_mem := poke (um_mem m') (take (n - cnt) (uio_addrs v)) (take (n - cnt) (drop cnt cp))\<rparr>)"
        using pos r iov a(1) [OF pos] w(1) mv by (subst uiomove.simps) (simp add: cnt_def [symmetric] Let_def v_def [symmetric])
      have n: "n = cnt + (n - cnt)" by (simp add: cnt_def)
      have ad: "take n (uio_addrs u) = [base..<base + cnt] @ take (n - cnt) (uio_addrs v)"
        using a(2,3) [OF pos] by (subst n) (simp add: take_add uio_after_def)
      have bts: "take n cp = take cnt cp @ take (n - cnt) (drop cnt cp)" by (subst n) (simp add: take_add)
      have l: "length [base..<base + cnt] = length (take cnt cp)" using 1(4) by (simp add: cnt_def)
      have mem: "m'\<lparr>um_mem := poke (um_mem m') (take (n - cnt) (uio_addrs v)) (take (n - cnt) (drop cnt cp))\<rparr>
        = m\<lparr>um_mem := poke (um_mem m) (take n (uio_addrs u)) (take n cp)\<rparr>"
        unfolding ad bts poke_append [OF l] by (simp add: m'_def)
      have "uio_after n u w" using uio_after_trans [OF a(3) [OF pos] w(2)] n by simp
      then show ?thesis using run unfolding mem by blast
    qed
  qed
qed

lemma uiomove_write:
  "uio_fit m n u \<Longrightarrow> \<exists>u'. uiomove UIO_WRITE cp n u m = Inr (0, map (um_mem m) (take n (uio_addrs u)), u', m) \<and> uio_after n u u'"
proof (induction UIO_WRITE cp n u m rule: uiomove.induct)
  case (1 cp n u m)
  show ?case
  proof (cases "n = 0")
    case True
    then show ?thesis by (subst uiomove.simps) (simp add: uio_after_def)
  next
    case False
    then obtain base len iov where iov: "uio_iov u = (base, len) # iov" and r: "uio_resid u \<noteq> 0"
      using 1(3) by (cases "uio_iov u") (auto simp: uio_fit_def)
    show ?thesis
    proof (cases "len = 0")
      case True
      note sk = uio_skip [OF iov [unfolded True]]
      have "uiomove UIO_WRITE cp n u m = uiomove UIO_WRITE cp n (u\<lparr>uio_iov := iov\<rparr>) m"
        using False r iov True by (subst uiomove.simps) simp
      then show ?thesis using 1(1) [OF _ iov refl True] False r 1(3) unfolding sk by simp
    next
      case len: False
      define cnt where "cnt = min len n"
      define v where "v = u\<lparr>uio_iov := (base + cnt, len - cnt) # iov, uio_resid := uio_resid u - int cnt, uio_offset := uio_offset u + of_nat cnt\<rparr>"
      note a = uiomove_area [OF 1(3) iov _ _ cnt_def v_def]
      have pos: "0 < len" "0 < n" using len False by simp_all
      have seg: "\<not> UIO_USERISPACE < uio_segflg u" using 1(3) by (simp add: uio_fit_def)
      have mv: "move_area UIO_WRITE (take cnt cp) base cnt u m = (map (um_mem m) [base..<base + cnt], m)" using seg by (simp add: move_area_def)
      have go: "0 < n \<and> uio_resid u \<noteq> 0" "\<not> \<not> area_ok u base cnt m" using pos r a(1) [OF pos] by simp_all
      obtain w where w: "uiomove UIO_WRITE (drop cnt cp) (n - cnt) v m = Inr (0, map (um_mem m) (take (n - cnt) (uio_addrs v)), w, m)" "uio_after (n - cnt) v w"
        using 1(2) [OF go(1) iov refl len cnt_def go(2) mv [symmetric] refl v_def a(4) [OF pos]] by blast
      have run: "uiomove UIO_WRITE cp n u m = Inr (0, map (um_mem m) [base..<base + cnt] @ map (um_mem m) (take (n - cnt) (uio_addrs v)), w, m)"
        using pos r iov a(1) [OF pos] w(1) mv by (subst uiomove.simps) (simp add: cnt_def [symmetric] Let_def v_def [symmetric])
      have n: "n = cnt + (n - cnt)" by (simp add: cnt_def)
      have "take n (uio_addrs u) = [base..<base + cnt] @ take (n - cnt) (uio_addrs v)"
        using a(2,3) [OF pos] by (subst n) (simp add: take_add uio_after_def)
      moreover have "uio_after n u w" using uio_after_trans [OF a(3) [OF pos] w(2)] n by simp
      ultimately show ?thesis using run by auto
    qed
  qed
qed

section \<open>Properties\<close>

definition demo_uio :: uio where
  "demo_uio = \<lparr>uio_iov = [(10, 2), (20, 0), (30, 5)], uio_offset = 100, uio_segflg = UIO_USERSPACE, uio_resid = 7\<rparr>"

definition demo_umem :: umem where "demo_umem = \<lparr>um_mem = (\<lambda>a. 0), um_acc = (\<lambda>a. a < 100)\<rparr>"

lemma demo_uio_fit: "uio_addrs demo_uio = [10, 11, 30, 31, 32, 33, 34]" "uio_fit demo_umem 4 demo_uio"
proof -
  show e: "uio_addrs demo_uio = [10, 11, 30, 31, 32, 33, 34]" by (simp add: uio_addrs_def demo_uio_def upt_rec)
  show "uio_fit demo_umem 4 demo_uio"
    unfolding uio_fit_def e by (simp add: demo_uio_def demo_umem_def UIO_USERSPACE_def UIO_USERISPACE_def)
qed

text \<open>C28. Round trip: bytes that \<open>uiomove\<close> scatters over the areas of a transfer come back, in order,
  when the same areas are gathered again, if no two areas overlap. Both moves advance the descriptor by as much.\<close>

theorem uiomove_roundtrip:
  assumes "uio_fit m n u" "length cp = n" "distinct (uio_addrs u)"
  shows "\<exists>u' m'. uiomove UIO_READ cp n u m = Inr (0, [], u', m') \<and> uio_after n u u'
    \<and> (\<exists>u''. uiomove UIO_WRITE [] n u m' = Inr (0, cp, u'', m') \<and> uio_after n u u'')"
proof -
  have l: "n \<le> length cp" using assms(2) by simp
  define m' where "m' = m\<lparr>um_mem := poke (um_mem m) (take n (uio_addrs u)) (take n cp)\<rparr>"
  have "uio_fit m' n u" using assms(1) by (simp add: uio_fit_def m'_def)
  from uiomove_write [OF this, of "[]"] uiomove_read [OF assms(1) l] obtain u' u'' where
    "uiomove UIO_READ cp n u m = Inr (0, [], u', m')" "uio_after n u u'"
    "uiomove UIO_WRITE [] n u m' = Inr (0, map (um_mem m') (take n (uio_addrs u)), u'', m')" "uio_after n u u''"
    unfolding m'_def by blast
  moreover have "map (um_mem m') (take n (uio_addrs u)) = cp"
  proof -
    have "length (take n (uio_addrs u)) = length cp" using assms(1,2) by (simp add: uio_fit_def)
    from map_poke [OF distinct_take [OF assms(3)] this] show ?thesis using assms(2) by (simp add: m'_def)
  qed
  ultimately show ?thesis by auto
qed

theorem uiomove_roundtrip_witness:
  "\<exists>u' m'. uiomove UIO_READ [1, 2, 3, 4] 4 demo_uio demo_umem = Inr (0, [], u', m') \<and> uio_after 4 demo_uio u'
    \<and> (\<exists>u''. uiomove UIO_WRITE [] 4 demo_uio m' = Inr (0, [1, 2, 3, 4], u'', m') \<and> uio_after 4 demo_uio u'')"
  by (rule uiomove_roundtrip) (simp_all add: demo_uio_fit)

text \<open>A character at a time is the same as all at once: \<open>ureadc\<close> moves the one byte \<open>c\<close> as \<open>uiomove\<close> would.\<close>

lemma ureadc_spec:
  "uio_fit m 1 u \<Longrightarrow> \<exists>u'. ureadc c u m = Inr (0, u', m\<lparr>um_mem := poke (um_mem m) (take 1 (uio_addrs u)) [c]\<rparr>) \<and> uio_after 1 u u'"
proof (induction c u m rule: ureadc.induct)
  case (1 c u m)
  obtain base len iov where iov: "uio_iov u = (base, len) # iov" and r: "0 < uio_resid u"
    using 1(2) by (cases "uio_iov u") (auto simp: uio_fit_def)
  show ?case
  proof (cases "len = 0")
    case True
    note sk = uio_skip [OF iov [unfolded True]]
    have "ureadc c u m = ureadc c (u\<lparr>uio_iov := iov\<rparr>) m" using iov True by (subst ureadc.simps) simp
    then show ?thesis using 1(1) [OF iov refl] 1(2) True unfolding sk by simp
  next
    case False
    define v where "v = u\<lparr>uio_iov := (base + 1, len - 1) # iov, uio_resid := uio_resid u - int 1, uio_offset := uio_offset u + of_nat 1\<rparr>"
    have "(1 :: nat) = min len 1" using False by simp
    note a = uiomove_area [OF 1(2) iov _ _ this v_def]
    have pos: "0 < len" "0 < (1 :: nat)" using False by simp_all
    have seg: "\<not> UIO_USERISPACE < uio_segflg u" using 1(2) by (simp add: uio_fit_def)
    have "ureadc c u m = Inr (0, v, m\<lparr>um_mem := poke (um_mem m) [base..<base + 1] [c]\<rparr>)"
      using iov False r a(1) [OF pos] seg by (subst ureadc.simps) (simp add: move_area_def v_def)
    then show ?thesis using a(3) [OF pos] unfolding a(2) [OF pos] by blast
  qed
qed

end
