(* ===== verification/Socket.thy ===== *)
theory Socket
  imports Sockbuf Uio
begin

unbundle bit_operations_syntax

text \<open>
  Sockets: the connection queues and state changes of \<^verbatim>\<open>sys/sys/uipc_socket2.c\<close>, and the socket layer
  of \<^verbatim>\<open>sys/sys/uipc_socket.c\<close> except \<^verbatim>\<open>sosend\<close>. Sockets lie in a store indexed by address (0 is the null
  pointer), since the two queues of a listening socket are rings of pointers: \<^verbatim>\<open>so_q0\<close> and \<^verbatim>\<open>so_q\<close> lead
  from the head through the queued sockets back to the head. What the rest of the kernel is told
  (wakeups, signals) is a list of events. The protocol behind \<^verbatim>\<open>pr_usrreq\<close>, the disposal and
  externalisation of rights and the process lookup of \<^verbatim>\<open>pfind\<close> are parameters.
\<close>

section \<open>The state\<close>

record socket =
  so_type :: int
  so_options :: "16 word"
  so_linger :: int
  so_state :: "16 word"
  so_pcb :: bool
  so_proto :: "16 word"
  so_head :: nat
  so_q0 :: nat
  so_q0len :: int
  so_q :: nat
  so_qlen :: int
  so_qlimit :: int
  so_rcv :: sockbuf
  so_snd :: sockbuf
  so_timeo :: int
  so_error :: int
  so_oobmark :: "16 word"
  so_pgrp :: int

datatype sevent = WkTimeo nat | WkRcv nat | WkSnd nat | WkLock nat | SelWake nat bool | Gsignal int | Psignal int

record skst =
  socks :: "nat \<Rightarrow> socket"
  pool :: mbst
  evs :: "sevent list"
  msgrcv :: int

type_synonym usrreq = "nat \<Rightarrow> nat \<Rightarrow> chain \<Rightarrow> skst \<Rightarrow> int \<times> chain \<times> skst"

definition SS_NOFDREF :: "16 word" where "SS_NOFDREF = 0x001"
definition SS_ISCONNECTED :: "16 word" where "SS_ISCONNECTED = 0x002"
definition SS_ISCONNECTING :: "16 word" where "SS_ISCONNECTING = 0x004"
definition SS_ISDISCONNECTING :: "16 word" where "SS_ISDISCONNECTING = 0x008"
definition SS_CANTSENDMORE :: "16 word" where "SS_CANTSENDMORE = 0x010"
definition SS_CANTRCVMORE :: "16 word" where "SS_CANTRCVMORE = 0x020"
definition SS_RCVATMARK :: "16 word" where "SS_RCVATMARK = 0x040"
definition SS_PRIV :: "16 word" where "SS_PRIV = 0x080"
definition SS_NBIO :: "16 word" where "SS_NBIO = 0x100"
definition SS_ASYNC :: "16 word" where "SS_ASYNC = 0x200"
definition SO_ACCEPTCONN :: "16 word" where "SO_ACCEPTCONN = 0x0002"
definition SO_LINGER :: "16 word" where "SO_LINGER = 0x0080"
definition SOMAXCONN :: int where "SOMAXCONN = 5"
definition PR_ATOMIC :: "16 word" where "PR_ATOMIC = 0x01"
definition PR_ADDR :: "16 word" where "PR_ADDR = 0x02"
definition PR_CONNREQUIRED :: "16 word" where "PR_CONNREQUIRED = 0x04"
definition PR_WANTRCVD :: "16 word" where "PR_WANTRCVD = 0x08"
definition PR_RIGHTS :: "16 word" where "PR_RIGHTS = 0x10"

definition PRU_ATTACH :: nat where "PRU_ATTACH = 0"
definition PRU_DETACH :: nat where "PRU_DETACH = 1"
definition PRU_LISTEN :: nat where "PRU_LISTEN = 3"
definition PRU_CONNECT :: nat where "PRU_CONNECT = 4"
definition PRU_ACCEPT :: nat where "PRU_ACCEPT = 5"
definition PRU_DISCONNECT :: nat where "PRU_DISCONNECT = 6"
definition PRU_SHUTDOWN :: nat where "PRU_SHUTDOWN = 7"
definition PRU_RCVD :: nat where "PRU_RCVD = 8"
definition PRU_ABORT :: nat where "PRU_ABORT = 10"
definition PRU_RCVOOB :: nat where "PRU_RCVOOB = 13"

definition ENOBUFS :: int where "ENOBUFS = 55"
definition EISCONN :: int where "EISCONN = 56"
definition ENOTCONN :: int where "ENOTCONN = 57"
definition EALREADY :: int where "EALREADY = 37"
definition EWOULDBLOCK :: int where "EWOULDBLOCK = 35"

text \<open>Updating one socket, and adding events.\<close>

definition so_upd :: "nat \<Rightarrow> (socket \<Rightarrow> socket) \<Rightarrow> skst \<Rightarrow> skst" where
  "so_upd so f st = st\<lparr>socks := (socks st)(so := f (socks st so))\<rparr>"

definition tell :: "sevent list \<Rightarrow> skst \<Rightarrow> skst" where "tell es st = st\<lparr>evs := evs st @ es\<rparr>"

definition set_state :: "nat \<Rightarrow> 16 word \<Rightarrow> 16 word \<Rightarrow> skst \<Rightarrow> skst" where
  "set_state so off on = so_upd so (\<lambda>x. x\<lparr>so_state := (so_state x AND NOT off) OR on\<rparr>)"

section \<open>Waking up\<close>

definition sbselqueue :: "nat \<Rightarrow> (nat \<Rightarrow> bool) \<Rightarrow> sockbuf \<Rightarrow> sockbuf" where
  "sbselqueue procp selecting sb = (case sb_sel sb of
       Some p \<Rightarrow> if selecting p then sb\<lparr>sb_flags := sb_flags sb OR SB_COLL\<rparr> else sb\<lparr>sb_sel := Some procp\<rparr>
     | None \<Rightarrow> sb\<lparr>sb_sel := Some procp\<rparr>)"

definition sbwait :: "sockbuf \<Rightarrow> sockbuf" where "sbwait sb = sb\<lparr>sb_flags := sb_flags sb OR SB_WAIT\<rparr>"

definition sbwakeup :: "sevent \<Rightarrow> sockbuf \<Rightarrow> sockbuf \<times> sevent list" where
  "sbwakeup chan sb =
     (let (sb, es) = (case sb_sel sb of
            Some p \<Rightarrow> (sb\<lparr>sb_sel := None, sb_flags := sb_flags sb AND NOT SB_COLL\<rparr>, [SelWake p (sb_flags sb AND SB_COLL \<noteq> 0)])
          | None \<Rightarrow> (sb, []))
      in if sb_flags sb AND SB_WAIT \<noteq> 0 then (sb\<lparr>sb_flags := sb_flags sb AND NOT SB_WAIT\<rparr>, es @ [chan]) else (sb, es))"

text \<open>\<open>sowakeup\<close> on the receive or the send buffer. \<open>pfind\<close> tells whether there is a process.\<close>

definition async_signal :: "(int \<Rightarrow> bool) \<Rightarrow> socket \<Rightarrow> sevent list" where
  "async_signal pfind x =
     (if so_state x AND SS_ASYNC \<noteq> 0 then
        if so_pgrp x < 0 then [Gsignal (- so_pgrp x)]
        else if 0 < so_pgrp x \<and> pfind (so_pgrp x) then [Psignal (so_pgrp x)] else []
      else [])"

definition sorwakeup :: "(int \<Rightarrow> bool) \<Rightarrow> nat \<Rightarrow> skst \<Rightarrow> skst" where
  "sorwakeup pfind so st = (let x = socks st so; (sb, es) = sbwakeup (WkRcv so) (so_rcv x) in
     tell (es @ async_signal pfind x) (so_upd so (\<lambda>x. x\<lparr>so_rcv := sb\<rparr>) st))"

definition sowwakeup :: "(int \<Rightarrow> bool) \<Rightarrow> nat \<Rightarrow> skst \<Rightarrow> skst" where
  "sowwakeup pfind so st = (let x = socks st so; (sb, es) = sbwakeup (WkSnd so) (so_snd x) in
     tell (es @ async_signal pfind x) (so_upd so (\<lambda>x. x\<lparr>so_snd := sb\<rparr>) st))"

definition socantsendmore :: "(int \<Rightarrow> bool) \<Rightarrow> nat \<Rightarrow> skst \<Rightarrow> skst" where
  "socantsendmore pfind so st = sowwakeup pfind so (set_state so 0 SS_CANTSENDMORE st)"

definition socantrcvmore :: "(int \<Rightarrow> bool) \<Rightarrow> nat \<Rightarrow> skst \<Rightarrow> skst" where
  "socantrcvmore pfind so st = sorwakeup pfind so (set_state so 0 SS_CANTRCVMORE st)"

section \<open>The queues of connections\<close>

definition so_next :: "bool \<Rightarrow> skst \<Rightarrow> nat \<Rightarrow> nat" where
  "so_next q st so = (if q then so_q (socks st so) else so_q0 (socks st so))"

definition soqinsque :: "nat \<Rightarrow> nat \<Rightarrow> bool \<Rightarrow> skst \<Rightarrow> skst" where
  "soqinsque head so q st =
     (let st = so_upd so (\<lambda>x. x\<lparr>so_head := head\<rparr>) st in
      if \<not> q then
        let st = so_upd head (\<lambda>x. x\<lparr>so_q0len := so_q0len x + 1\<rparr>) st;
            st = so_upd so (\<lambda>x. x\<lparr>so_q0 := so_q0 (socks st head)\<rparr>) st
        in so_upd head (\<lambda>x. x\<lparr>so_q0 := so\<rparr>) st
      else
        let st = so_upd head (\<lambda>x. x\<lparr>so_qlen := so_qlen x + 1\<rparr>) st;
            st = so_upd so (\<lambda>x. x\<lparr>so_q := so_q (socks st head)\<rparr>) st
        in so_upd head (\<lambda>x. x\<lparr>so_q := so\<rparr>) st)"

text \<open>The search of \<open>soqremque\<close>: the predecessor of \<open>so\<close>. It never returns when the pointers run in a
  circle that misses both \<open>so\<close> and \<open>head\<close>.\<close>

partial_function (option) so_search :: "(nat \<Rightarrow> nat) \<Rightarrow> nat \<Rightarrow> nat \<Rightarrow> nat \<Rightarrow> nat option kern option" where
  "so_search nxt head so prev =
     (if prev = 0 then Some (Inl (Fault ''soqremque''))
      else if nxt prev = so then Some (Inr (Some prev))
      else if nxt prev = head then Some (Inr None)
      else so_search nxt head so (nxt prev))"

definition obind :: "'a kern option \<Rightarrow> ('a \<Rightarrow> 'b kern option) \<Rightarrow> 'b kern option" where
  "obind m f = (case m of None \<Rightarrow> None | Some (Inl e) \<Rightarrow> Some (Inl e) | Some (Inr x) \<Rightarrow> f x)"

definition soqremque :: "nat \<Rightarrow> bool \<Rightarrow> skst \<Rightarrow> (bool \<times> skst) kern option" where
  "soqremque so q st = (let head = so_head (socks st so) in
     obind (so_search (so_next q st) head so head) (\<lambda>r. case r of
       None \<Rightarrow> Some (Inr (False, st))
     | Some prev \<Rightarrow>
         let st = (if \<not> q
           then so_upd head (\<lambda>x. x\<lparr>so_q0len := so_q0len x - 1\<rparr>) (so_upd prev (\<lambda>x. x\<lparr>so_q0 := so_q0 (socks st so)\<rparr>) st)
           else so_upd head (\<lambda>x. x\<lparr>so_qlen := so_qlen x - 1\<rparr>) (so_upd prev (\<lambda>x. x\<lparr>so_q := so_q (socks st so)\<rparr>) st))
         in Some (Inr (True, so_upd so (\<lambda>x. x\<lparr>so_q0 := 0, so_q := 0, so_head := 0\<rparr>) st))))"

section \<open>Changes of state\<close>

definition soisconnecting :: "nat \<Rightarrow> skst \<Rightarrow> skst" where
  "soisconnecting so st = tell [WkTimeo so] (set_state so (SS_ISCONNECTED OR SS_ISDISCONNECTING) SS_ISCONNECTING st)"

definition soisconnected :: "(int \<Rightarrow> bool) \<Rightarrow> nat \<Rightarrow> skst \<Rightarrow> skst kern option" where
  "soisconnected pfind so st = (let head = so_head (socks st so) in
     obind (if head \<noteq> 0
            then obind (soqremque so False st) (\<lambda>(ok, st).
              if \<not> ok then Some (Inl (Panic ''soisconnected''))
              else Some (Inr (tell [WkTimeo head] (sorwakeup pfind head (soqinsque head so True st)))))
            else Some (Inr st)) (\<lambda>st.
       Some (Inr (sowwakeup pfind so (sorwakeup pfind so (tell [WkTimeo so]
         (set_state so (SS_ISCONNECTING OR SS_ISDISCONNECTING) SS_ISCONNECTED st)))))))"

definition soisdisconnecting :: "(int \<Rightarrow> bool) \<Rightarrow> nat \<Rightarrow> skst \<Rightarrow> skst" where
  "soisdisconnecting pfind so st = sorwakeup pfind so (sowwakeup pfind so (tell [WkTimeo so]
     (set_state so SS_ISCONNECTING (SS_ISDISCONNECTING OR SS_CANTRCVMORE OR SS_CANTSENDMORE) st)))"

definition soisdisconnected :: "(int \<Rightarrow> bool) \<Rightarrow> nat \<Rightarrow> skst \<Rightarrow> skst" where
  "soisdisconnected pfind so st = sorwakeup pfind so (sowwakeup pfind so (tell [WkTimeo so]
     (set_state so (SS_ISCONNECTING OR SS_ISCONNECTED OR SS_ISDISCONNECTING) (SS_CANTRCVMORE OR SS_CANTSENDMORE) st)))"

text \<open>\<open>sonewconn\<close>; \<open>addr\<close> is where the mbuf with the new socket lies.\<close>

definition sonewconn :: "usrreq \<Rightarrow> nat \<Rightarrow> nat \<Rightarrow> skst \<Rightarrow> (nat \<times> skst) kern option" where
  "sonewconn usrreq addr head st = (let h = socks st head in
     if 3 * so_qlimit h sdiv 2 < so_qlen h + so_q0len h then Some (Inr (0, st))
     else case m_getclr False 3 (pool st) of
         Inl e \<Rightarrow> Some (Inl e)
       | Inr (None, s) \<Rightarrow> Some (Inr (0, st\<lparr>pool := s\<rparr>))
       | Inr (Some m, s) \<Rightarrow>
           let x = \<lparr>so_type = so_type h, so_options = so_options h AND NOT SO_ACCEPTCONN, so_linger = so_linger h,
                 so_state = so_state h OR SS_NOFDREF, so_pcb = False, so_proto = so_proto h, so_head = 0, so_q0 = 0, so_q0len = 0,
                 so_q = 0, so_qlen = 0, so_qlimit = 0, so_rcv = sb_empty, so_snd = sb_empty, so_timeo = so_timeo h, so_error = 0,
                 so_oobmark = 0, so_pgrp = so_pgrp h\<rparr>;
               st = soqinsque head addr False (so_upd addr (\<lambda>_. x) (st\<lparr>pool := s\<rparr>));
               (error, _, st) = usrreq PRU_ATTACH addr [] st
           in if error \<noteq> 0 then
                obind (soqremque addr False st) (\<lambda>(_, st). case m_free m (pool st) of
                    Inl e \<Rightarrow> Some (Inl e) | Inr s \<Rightarrow> Some (Inr (0, st\<lparr>pool := s\<rparr>)))
              else Some (Inr (addr, st)))"

end
