(* ===== verification/Socket_layer.thy ===== *)
theory Socket_layer
  imports Socket
begin

unbundle bit_operations_syntax

text \<open>
  The socket operations of \<^verbatim>\<open>sys/sys/uipc_socket.c\<close>, all but \<^verbatim>\<open>sosend\<close>. A call that goes to sleep, to wait
  for the buffer lock, for data or for the end of a connection, returns \<open>Sleep\<close>; it is started again
  from the beginning, or at the loop it slept in, when it wakes up.
\<close>

section \<open>Helpers\<close>

datatype 'a sleepy = Ready 'a | Sleep

definition MT_HEADER :: nat where "MT_HEADER = 2"
definition MT_SOOPTS :: nat where "MT_SOOPTS = 10"
definition MT_RIGHTS :: nat where "MT_RIGHTS = 12"
definition EPIPE :: int where "EPIPE = 32"
definition EINVAL :: int where "EINVAL = 22"
definition ENOPROTOOPT :: int where "ENOPROTOOPT = 42"

text \<open>\<^verbatim>\<open>sblock\<close> (\<open>None\<close>: someone else has the lock, so sleep) and \<^verbatim>\<open>sbunlock\<close>.\<close>

definition sblock :: "sockbuf \<Rightarrow> sockbuf option" where
  "sblock sb = (if sb_flags sb AND SB_LOCK \<noteq> 0 then None else Some (sb\<lparr>sb_flags := sb_flags sb OR SB_LOCK\<rparr>))"

definition sbunlock :: "sevent \<Rightarrow> sockbuf \<Rightarrow> sockbuf \<times> sevent list" where
  "sbunlock chan sb = (let sb = sb\<lparr>sb_flags := sb_flags sb AND NOT SB_LOCK\<rparr> in
     if sb_flags sb AND SB_WANT \<noteq> 0 then (sb\<lparr>sb_flags := sb_flags sb AND NOT SB_WANT\<rparr>, [chan]) else (sb, []))"

definition rcv_unlock :: "nat \<Rightarrow> skst \<Rightarrow> skst" where
  "rcv_unlock so st = (let (sb, es) = sbunlock (WkLock so) (so_rcv (socks st so)) in tell es (so_upd so (\<lambda>x. x\<lparr>so_rcv := sb\<rparr>) st))"

text \<open>An \<^verbatim>\<open>int\<close> in memory, least significant byte first.\<close>

definition rd_int :: "byte list \<Rightarrow> int" where
  "rd_int bs = (let n = foldr (\<lambda>b acc. uint b + 256 * acc) (take 4 bs) 0 in if 2 ^ 31 \<le> n then n - 2 ^ 32 else n)"

definition wr_int :: "int \<Rightarrow> byte list" where
  "wr_int i = map (\<lambda>k. of_int (i div 256 ^ k)) [0, 1, 2, 3]"

section \<open>Receiving\<close>

text \<open>One turn of the loop of \<open>soreceive\<close>, on the first mbuf of what is left of the record: the error, whether
  the loop is left by \<^verbatim>\<open>break\<close>, and the new state. A negative length other than that of the
  mbuf, which takes a negative \<open>tomark\<close>, is a fault.\<close>

record rcv =
  r_m :: chain
  r_moff :: int
  r_tomark :: int
  r_so :: socket
  r_pool :: mbst
  r_uio :: uio
  r_um :: umem

definition rcv_len :: "mbuf \<Rightarrow> rcv \<Rightarrow> int" where
  "rcv_len m r = (let len = uio_resid (r_uio r); len = (if r_tomark r \<noteq> 0 \<and> r_tomark r < len then r_tomark r else len) in
     if m_len m - r_moff r < len then m_len m - r_moff r else len)"

definition rcv_advance :: "bool \<Rightarrow> mbuf \<Rightarrow> chain \<Rightarrow> int \<Rightarrow> rcv \<Rightarrow> rcv kern" where
  "rcv_advance peek m ms len r =
     (if len = m_len m - r_moff r then
        if peek then Inr (r\<lparr>r_m := ms, r_moff := 0\<rparr>)
        else kbind (m_free m (r_pool r)) (\<lambda>s. Inr (r\<lparr>r_m := ms, r_so := (r_so r)\<lparr>so_rcv := sbfree (so_rcv (r_so r)) m\<rparr>, r_pool := s\<rparr>))
      else if peek then Inr (r\<lparr>r_m := m # ms, r_moff := r_moff r + len\<rparr>)
      else Inr (r\<lparr>r_m := m\<lparr>m_loc := add_off (nat len) (m_loc m), m_len := m_len m - len\<rparr> # ms,
             r_so := (r_so r)\<lparr>so_rcv := (so_rcv (r_so r))\<lparr>sb_cc := sb_cc (so_rcv (r_so r)) - of_int len\<rparr>\<rparr>\<rparr>))"

definition rcv_mark :: "bool \<Rightarrow> int \<Rightarrow> rcv \<Rightarrow> bool \<times> rcv" where
  "rcv_mark peek len r =
     (let so = r_so r; dec = \<not> peek \<and> so_oobmark so \<noteq> 0;
          so = (if dec then so\<lparr>so_oobmark := so_oobmark so - of_int len\<rparr> else so) in
      if dec \<and> so_oobmark so = 0 then (True, r\<lparr>r_so := so\<lparr>so_state := so_state so OR SS_RCVATMARK\<rparr>\<rparr>)
      else if r_tomark r \<noteq> 0 then (r_tomark r - len = 0, r\<lparr>r_so := so, r_tomark := r_tomark r - len\<rparr>)
      else (False, r\<lparr>r_so := so\<rparr>))"

definition rcv_step :: "bool \<Rightarrow> mbuf \<Rightarrow> chain \<Rightarrow> rcv \<Rightarrow> (int \<times> bool \<times> rcv) kern" where
  "rcv_step peek m ms r =
     (if m_type m \<noteq> MT_DATA \<and> m_type m \<noteq> MT_HEADER then Inl (Panic ''receive 3'')
      else let len = rcv_len m r; so = r_so r; r = r\<lparr>r_so := so\<lparr>so_state := so_state so AND NOT SS_RCVATMARK\<rparr>\<rparr> in
        if len \<le> 0 \<and> len \<noteq> m_len m - r_moff r then Inl (Fault ''soreceive'')
        else kbind (uiomove UIO_READ (drop (nat (r_moff r)) (mtod (r_pool r) m)) (nat len) (r_uio r) (r_um r)) (\<lambda>(error, _, u, um).
          kbind (rcv_advance peek m ms len (r\<lparr>r_uio := u, r_um := um\<rparr>)) (\<lambda>r.
            let (brk, r) = rcv_mark peek len r in Inr (error, brk, r))))"

lemma rcv_mark_keeps: "r_m (snd (rcv_mark peek len r)) = r_m r" "r_moff (snd (rcv_mark peek len r)) = r_moff r"
  by (simp_all add: rcv_mark_def Let_def)

lemma rcv_step_decr:
  assumes "rcv_step peek m ms r = Inr (error, brk, r')"
  shows "length (r_m r') < Suc (length ms) \<or>
    length (r_m r') = Suc (length ms) \<and> nat (m_len (hd (r_m r')) - r_moff r') < nat (m_len m - r_moff r)"
proof -
  define len where "len = rcv_len m r"
  define r0 where "r0 = r\<lparr>r_so := (r_so r)\<lparr>so_state := so_state (r_so r) AND NOT SS_RCVATMARK\<rparr>\<rparr>"
  from assms obtain u um r2 where u: "rcv_advance peek m ms len (r0\<lparr>r_uio := u, r_um := um\<rparr>) = Inr r2"
    "r' = snd (rcv_mark peek len r2)" and pos: "0 < len \<or> len = m_len m - r_moff r"
    unfolding rcv_step_def len_def r0_def by (auto simp: Let_def kbind_Inr_iff split: if_splits prod.splits)
  have r': "r_m r' = r_m r2" "r_moff r' = r_moff r2" using u(2) by (simp_all add: rcv_mark_keeps)
  have le: "len \<le> m_len m - r_moff r" by (simp add: len_def rcv_len_def Let_def)
  show ?thesis
  proof (cases "len = m_len m - r_moff r")
    case True
    then have "r_m r2 = ms" using u(1) by (auto simp: rcv_advance_def r0_def kbind_Inr_iff split: if_splits)
    then show ?thesis using r' by simp
  next
    case False
    then have "0 < len" "len < m_len m - r_moff r" using pos le by auto
    moreover have "length (r_m r2) = Suc (length ms)" "m_len (hd (r_m r2)) - r_moff r2 = m_len m - r_moff r - len"
      using u(1) False by (auto simp: rcv_advance_def r0_def split: if_splits)
    ultimately show ?thesis using r' by simp
  qed
qed

function rcv_loop :: "bool \<Rightarrow> rcv \<Rightarrow> (int \<times> rcv) kern" where
  "rcv_loop peek r =
     (case r_m r of
        [] \<Rightarrow> Inr (0, r)
      | m # ms \<Rightarrow>
          if 0 < uio_resid (r_uio r)
          then kbind (rcv_step peek m ms r) (\<lambda>(error, brk, r). if brk \<or> error \<noteq> 0 then Inr (error, r) else rcv_loop peek r)
          else Inr (0, r))"
  by pat_completeness auto
termination
  by (relation "measures [\<lambda>(peek, r). length (r_m r), \<lambda>(peek, r). nat (m_len (hd (r_m r)) - r_moff r)]")
    (auto dest!: rcv_step_decr)

text \<open>Taking the address, and then the rights, off the front of the record. \<open>want\<close> says whether the caller
  has a place for them.\<close>

definition rcv_front :: "bool \<Rightarrow> bool \<Rightarrow> chain \<Rightarrow> sockbuf \<Rightarrow> mbst \<Rightarrow> (chain \<times> chain \<times> sockbuf \<times> mbst) kern" where
  "rcv_front peek want cur sb s = (case cur of
       [] \<Rightarrow> Inr ([], [], sb, s)
     | m # ms \<Rightarrow>
         if peek then kbind (if want then m_copy cur 0 (m_len m) s else Inr ([], s)) (\<lambda>(c, s). Inr (c, ms, sb, s))
         else if want then Inr ([m], ms, sbfree sb m, s)
         else kbind (m_free m s) (\<lambda>s. Inr ([], ms, sbfree sb m, s)))"

definition rcv_rights :: "bool \<Rightarrow> bool \<Rightarrow> 16 word \<Rightarrow> chain \<Rightarrow> sockbuf \<Rightarrow> mbst \<Rightarrow> (chain \<times> chain \<times> sockbuf \<times> mbst) kern" where
  "rcv_rights peek want flags cur sb s =
     (if cur \<noteq> [] \<and> m_type (hd cur) = MT_RIGHTS then
        if flags AND PR_RIGHTS = 0 then Inl (Panic ''receive 2'') else rcv_front peek want cur sb s
      else Inr ([], cur, sb, s))"

text \<open>\<open>soreceive\<close> without \<^verbatim>\<open>MSG_OOB\<close>, from the label \<^verbatim>\<open>restart\<close>: the error, the name and the rights.\<close>

definition soreceive :: "usrreq \<Rightarrow> (chain \<Rightarrow> int) option \<Rightarrow> bool \<Rightarrow> bool \<Rightarrow> bool \<Rightarrow> nat \<Rightarrow> uio \<Rightarrow> umem \<Rightarrow> skst
    \<Rightarrow> ((int \<times> chain \<times> chain) sleepy \<times> uio \<times> umem \<times> skst) kern" where
  "soreceive usrreq externalize aname rightsp peek so u um st =
     (case sblock (so_rcv (socks st so)) of
        None \<Rightarrow> Inr (Sleep, u, um, so_upd so (\<lambda>x. x\<lparr>so_rcv := (so_rcv x)\<lparr>sb_flags := sb_flags (so_rcv x) OR SB_WANT\<rparr>\<rparr>) st)
      | Some sb \<Rightarrow>
          let st = so_upd so (\<lambda>x. x\<lparr>so_rcv := sb\<rparr>) st; x = socks st so in
          if sb_cc sb = 0 then
            if so_error x \<noteq> 0 then Inr (Ready (so_error x, [], []), u, um, rcv_unlock so (so_upd so (\<lambda>x. x\<lparr>so_error := 0\<rparr>) st))
            else if so_state x AND SS_CANTRCVMORE \<noteq> 0 then Inr (Ready (0, [], []), u, um, rcv_unlock so st)
            else if so_state x AND SS_ISCONNECTED = 0 \<and> so_proto x AND PR_CONNREQUIRED \<noteq> 0
              then Inr (Ready (ENOTCONN, [], []), u, um, rcv_unlock so st)
            else if uio_resid u = 0 then Inr (Ready (0, [], []), u, um, rcv_unlock so st)
            else if so_state x AND SS_NBIO \<noteq> 0 then Inr (Ready (EWOULDBLOCK, [], []), u, um, rcv_unlock so st)
            else Inr (Sleep, u, um, so_upd so (\<lambda>x. x\<lparr>so_rcv := sbwait (so_rcv x)\<rparr>) (rcv_unlock so st))
          else let st = st\<lparr>msgrcv := msgrcv st + 1\<rparr> in
            case sb_mb sb of
              [] \<Rightarrow> Inl (Panic ''receive 1'')
            | cur # nextrecord \<Rightarrow>
                if so_proto x AND PR_ADDR \<noteq> 0 \<and> (cur = [] \<or> m_type (hd cur) \<noteq> MT_SONAME) then Inl (Panic ''receive 1a'')
                else kbind (if so_proto x AND PR_ADDR \<noteq> 0 then rcv_front peek aname cur sb (pool st) else Inr ([], cur, sb, pool st)) (\<lambda>(name, cur, sb, s).
                  kbind (rcv_rights peek rightsp (so_proto x) cur sb s) (\<lambda>(rights, cur, sb, s).
                  kbind (rcv_loop peek \<lparr>r_m = cur, r_moff = 0, r_tomark = uint (so_oobmark x), r_so = x\<lparr>so_rcv := sb\<rparr>,
                      r_pool = s, r_uio = u, r_um = um\<rparr>) (\<lambda>(error, r).
                  let x = r_so r; u = r_uio r; um = r_um r in
                  if peek then Inr (Ready (error, name, rights), u, um, rcv_unlock so (so_upd so (\<lambda>_. x) (st\<lparr>pool := r_pool r\<rparr>)))
                  else
                    let sb = (so_rcv x)\<lparr>sb_mb := (if r_m r = [] then nextrecord else r_m r # nextrecord)\<rparr> in
                    kbind (if r_m r \<noteq> [] \<and> so_proto x AND PR_ATOMIC \<noteq> 0 then sbdroprecord sb (r_pool r) else Inr (sb, r_pool r)) (\<lambda>(sb, s).
                    let st = so_upd so (\<lambda>_. x\<lparr>so_rcv := sb\<rparr>) (st\<lparr>pool := s\<rparr>);
                        st = (if so_proto x AND PR_WANTRCVD \<noteq> 0 \<and> so_pcb x then snd (snd (usrreq PRU_RCVD so [] st)) else st);
                        error = (case externalize of
                            Some f \<Rightarrow> if error = 0 \<and> rightsp \<and> rights \<noteq> [] then f rights else error
                          | None \<Rightarrow> error)
                    in Inr (Ready (error, name, rights), u, um, rcv_unlock so st))))))"

text \<open>The branch for \<^verbatim>\<open>MSG_OOB\<close>: the protocol fills an mbuf with the urgent data.\<close>

fun oob_loop :: "chain \<Rightarrow> uio \<Rightarrow> umem \<Rightarrow> mbst \<Rightarrow> (int \<times> chain \<times> uio \<times> umem \<times> mbst) kern" where
  "oob_loop [] u um s = Inl (Fault ''soreceive'')"
| "oob_loop (m # ms) u um s =
     kbind (uiomove UIO_READ (mtod s m) (nat (min (uio_resid u) (m_len m))) u um) (\<lambda>(error, _, u, um).
     kbind (m_free m s) (\<lambda>s.
       if uio_resid u \<noteq> 0 \<and> error = 0 \<and> ms \<noteq> [] then oob_loop ms u um s else Inr (error, ms, u, um, s)))"

definition soreceive_oob :: "usrreq \<Rightarrow> nat \<Rightarrow> uio \<Rightarrow> umem \<Rightarrow> skst \<Rightarrow> (int sleepy \<times> uio \<times> umem \<times> skst) kern" where
  "soreceive_oob usrreq so u um st = kbind (m_get True MT_DATA (pool st)) (\<lambda>(m, s).
     let st = st\<lparr>pool := s\<rparr> in case m of
       None \<Rightarrow> Inr (Sleep, u, um, st)
     | Some m \<Rightarrow> let (error, ms, st) = usrreq PRU_RCVOOB so [m] st in
         kbind (if error \<noteq> 0 then Inr (error, ms, u, um, pool st) else oob_loop ms u um (pool st)) (\<lambda>(error, ms, u, um, s).
         kbind (m_freem ms s) (\<lambda>s. Inr (Ready error, u, um, st\<lparr>pool := s\<rparr>))))"

section \<open>Shutting down and closing\<close>

text \<open>\<open>sorflush\<close>; \<open>dispose\<close> is what the domain does with rights that nobody received. (The stop at \<^verbatim>\<open>sblock\<close>
  is \<open>Sleep\<close>.)\<close>

definition sorflush :: "(int \<Rightarrow> bool) \<Rightarrow> (chain list \<Rightarrow> mbst \<Rightarrow> mbst) option \<Rightarrow> nat \<Rightarrow> skst \<Rightarrow> (unit sleepy \<times> skst) kern option" where
  "sorflush pfind dispose so st = (case sblock (so_rcv (socks st so)) of
       None \<Rightarrow> Some (Inr (Sleep, so_upd so (\<lambda>x. x\<lparr>so_rcv := (so_rcv x)\<lparr>sb_flags := sb_flags (so_rcv x) OR SB_WANT\<rparr>\<rparr>) st))
     | Some sb \<Rightarrow>
         let st = rcv_unlock so (socantrcvmore pfind so (so_upd so (\<lambda>x. x\<lparr>so_rcv := sb\<rparr>) st));
             asb = so_rcv (socks st so); st = so_upd so (\<lambda>x. x\<lparr>so_rcv := sb_empty\<rparr>) st;
             st = (case dispose of Some f \<Rightarrow> if so_proto (socks st so) AND PR_RIGHTS \<noteq> 0 then st\<lparr>pool := f (sb_mb asb) (pool st)\<rparr> else st | None \<Rightarrow> st)
         in obind (sbrelease (length (sb_mb asb)) asb (pool st)) (\<lambda>(_, s). Some (Inr (Ready (), st\<lparr>pool := s\<rparr>))))"

text \<open>\<open>how\<close> is 0, 1 or 2; after \<^verbatim>\<open>how++\<close> bit 0 says to stop receiving, bit 1 to stop sending.\<close>

definition soshutdown :: "usrreq \<Rightarrow> (int \<Rightarrow> bool) \<Rightarrow> (chain list \<Rightarrow> mbst \<Rightarrow> mbst) option \<Rightarrow> nat \<Rightarrow> 32 word \<Rightarrow> skst \<Rightarrow> (int sleepy \<times> skst) kern option" where
  "soshutdown usrreq pfind dispose so how st =
     (let how = how + 1 in
      obind (if how AND 1 \<noteq> 0 then sorflush pfind dispose so st else Some (Inr (Ready (), st))) (\<lambda>(r, st). case r of
        Sleep \<Rightarrow> Some (Inr (Sleep, st))
      | Ready _ \<Rightarrow> if how AND 2 \<noteq> 0 then let (error, _, st) = usrreq PRU_SHUTDOWN so [] st in Some (Inr (Ready error, st))
          else Some (Inr (Ready 0, st))))"

definition solisten :: "usrreq \<Rightarrow> nat \<Rightarrow> int \<Rightarrow> skst \<Rightarrow> int \<times> skst" where
  "solisten usrreq so backlog st = (let (error, _, st) = usrreq PRU_LISTEN so [] st in
     if error \<noteq> 0 then (error, st)
     else let st = (if so_q (socks st so) = 0 then so_upd so (\<lambda>x. x\<lparr>so_q := so, so_q0 := so, so_options := so_options x OR SO_ACCEPTCONN\<rparr>) st else st);
              backlog = (if backlog < 0 then 0 else backlog)
       in (0, so_upd so (\<lambda>x. x\<lparr>so_qlimit := min backlog SOMAXCONN\<rparr>) st))"

text \<open>\<open>sofree\<close>; \<open>m\<close> is the mbuf that holds the socket.\<close>

definition sofree :: "(int \<Rightarrow> bool) \<Rightarrow> (chain list \<Rightarrow> mbst \<Rightarrow> mbst) option \<Rightarrow> mbuf \<Rightarrow> nat \<Rightarrow> skst \<Rightarrow> (unit sleepy \<times> skst) kern option" where
  "sofree pfind dispose m so st =
     obind (if so_head (socks st so) \<noteq> 0
            then obind (soqremque so False st) (\<lambda>(ok, st).
              obind (if ok then Some (Inr (True, st)) else soqremque so True st) (\<lambda>(ok, st).
                if ok then Some (Inr (so_upd so (\<lambda>x. x\<lparr>so_head := 0\<rparr>) st)) else Some (Inl (Panic ''sofree dq''))))
            else Some (Inr st)) (\<lambda>st.
     let x = socks st so in
     if so_pcb x \<or> so_state x AND SS_NOFDREF = 0 then Some (Inr (Ready (), st))
     else obind (sbrelease (length (sb_mb (so_snd x))) (so_snd x) (pool st)) (\<lambda>(sb, s).
       obind (sorflush pfind dispose so (so_upd so (\<lambda>x. x\<lparr>so_snd := sb\<rparr>) (st\<lparr>pool := s\<rparr>))) (\<lambda>(r, st). case r of
         Sleep \<Rightarrow> Some (Inr (Sleep, st))
       | Ready _ \<Rightarrow> (case m_free m (pool st) of Inl e \<Rightarrow> Some (Inl e) | Inr s \<Rightarrow> Some (Inr (Ready (), st\<lparr>pool := s\<rparr>))))))"

definition soabort :: "usrreq \<Rightarrow> nat \<Rightarrow> skst \<Rightarrow> int \<times> skst" where
  "soabort usrreq so st = (let (error, _, st) = usrreq PRU_ABORT so [] st in (error, st))"

definition soaccept :: "usrreq \<Rightarrow> chain \<Rightarrow> nat \<Rightarrow> skst \<Rightarrow> (int \<times> skst) kern" where
  "soaccept usrreq nam so st =
     (if so_state (socks st so) AND SS_NOFDREF = 0 then Inl (Panic ''soaccept: !NOFDREF'')
      else let (error, _, st) = usrreq PRU_ACCEPT so nam (set_state so SS_NOFDREF 0 st) in Inr (error, st))"

definition sodisconnect :: "usrreq \<Rightarrow> nat \<Rightarrow> skst \<Rightarrow> int \<times> skst" where
  "sodisconnect usrreq so st = (let x = socks st so in
     if so_state x AND SS_ISCONNECTED = 0 then (ENOTCONN, st)
     else if so_state x AND SS_ISDISCONNECTING \<noteq> 0 then (EALREADY, st)
     else let (error, _, st) = usrreq PRU_DISCONNECT so [] st in (error, st))"

definition soconnect :: "usrreq \<Rightarrow> chain \<Rightarrow> nat \<Rightarrow> skst \<Rightarrow> int \<times> skst" where
  "soconnect usrreq nam so st = (let x = socks st so in
     if so_state x AND (SS_ISCONNECTED OR SS_ISCONNECTING) \<noteq> 0 then
       if so_proto x AND PR_CONNREQUIRED \<noteq> 0 then (EISCONN, st)
       else let (error, st) = sodisconnect usrreq so st in
         if error \<noteq> 0 then (EISCONN, st) else (let (error, _, st) = usrreq PRU_CONNECT so nam st in (error, st))
     else (let (error, _, st) = usrreq PRU_CONNECT so nam st in (error, st)))"

text \<open>\<open>soclose\<close> aborts the queued connections for as long as there are any. \<open>garbage\<close> is what the uninitialised
  variable \<^verbatim>\<open>error\<close> holds.\<close>

partial_function (option) abort_all :: "usrreq \<Rightarrow> bool \<Rightarrow> nat \<Rightarrow> skst \<Rightarrow> skst option" where
  "abort_all usrreq q so st =
     (if so_next q st so = so then Some st else abort_all usrreq q so (snd (soabort usrreq (so_next q st so) st)))"

definition soclose_down :: "usrreq \<Rightarrow> int \<Rightarrow> nat \<Rightarrow> skst \<Rightarrow> int sleepy \<times> skst" where
  "soclose_down usrreq garbage so st =
     (if so_state (socks st so) AND SS_ISCONNECTED = 0 then (Ready garbage, st)
      else let up = so_state (socks st so) AND SS_ISDISCONNECTING = 0;
               (error, st) = (if up then sodisconnect usrreq so st else (garbage, st)) in
        if up \<and> error \<noteq> 0 then (Ready error, st)
        else if so_options (socks st so) AND SO_LINGER \<noteq> 0
                \<and> \<not> (so_state (socks st so) AND SS_ISDISCONNECTING \<noteq> 0 \<and> so_state (socks st so) AND SS_NBIO \<noteq> 0)
                \<and> so_state (socks st so) AND SS_ISCONNECTED \<noteq> 0
        then (Sleep, st)
        else (Ready error, st))"

definition soclose :: "usrreq \<Rightarrow> (int \<Rightarrow> bool) \<Rightarrow> (chain list \<Rightarrow> mbst \<Rightarrow> mbst) option \<Rightarrow> int \<Rightarrow> mbuf \<Rightarrow> nat \<Rightarrow> skst \<Rightarrow> (int sleepy \<times> skst) kern option" where
  "soclose usrreq pfind dispose garbage m so st =
     (case (if so_options (socks st so) AND SO_ACCEPTCONN \<noteq> 0
            then (case abort_all usrreq False so st of None \<Rightarrow> None | Some st \<Rightarrow> abort_all usrreq True so st) else Some st) of
        None \<Rightarrow> None
      | Some st \<Rightarrow>
          let (r, st) = (if so_pcb (socks st so) then soclose_down usrreq garbage so st else (Ready garbage, st)) in
          case r of
            Sleep \<Rightarrow> Some (Inr (Sleep, st))
          | Ready error \<Rightarrow>
              let (error, st) = (if so_pcb (socks st so)
                    then let (error2, _, st) = usrreq PRU_DETACH so [] st in (if error = 0 then error2 else error, st) else (error, st)) in
              if so_state (socks st so) AND SS_NOFDREF \<noteq> 0 then Some (Inl (Panic ''soclose: NOFDREF''))
              else obind (sofree pfind dispose m so (set_state so 0 SS_NOFDREF st)) (\<lambda>(r, st).
                  Some (Inr (case r of Sleep \<Rightarrow> Sleep | Ready _ \<Rightarrow> Ready error, st))))"

section \<open>Options\<close>

definition SOL_SOCKET :: int where "SOL_SOCKET = 65535"
definition opt_flags :: "nat list" where "opt_flags = [0x0001, 0x0004, 0x0008, 0x0010, 0x0020, 0x0040, 0x0080, 0x0100]"

text \<open>\<open>sosetopt\<close>; \<open>ctl\<close> is \<^verbatim>\<open>pr_ctloutput\<close> when the protocol has one. It gets the mbuf, which it frees.\<close>

definition sosetopt :: "(nat \<Rightarrow> int \<Rightarrow> nat \<Rightarrow> chain \<Rightarrow> skst \<Rightarrow> int \<times> skst) option \<Rightarrow> nat \<Rightarrow> int \<Rightarrow> nat \<Rightarrow> chain \<Rightarrow> skst \<Rightarrow> (int \<times> skst) kern" where
  "sosetopt ctl so level optname m0 st =
     (let done = (\<lambda>error st. case m0 of [] \<Rightarrow> Inr (error, st) | m # _ \<Rightarrow> kbind (m_free m (pool st)) (\<lambda>s. Inr (error, st\<lparr>pool := s\<rparr>)));
          mlen = (case m0 of [] \<Rightarrow> 0 | m # _ \<Rightarrow> m_len m);
          bytes = (case m0 of [] \<Rightarrow> [] | m # _ \<Rightarrow> mtod (pool st) m); val = rd_int bytes in
      if level \<noteq> SOL_SOCKET then (case ctl of Some f \<Rightarrow> Inr (f so level optname m0 st) | None \<Rightarrow> done ENOPROTOOPT st)
      else if optname \<in> set opt_flags then
        if optname = 0x0080 \<and> (m0 = [] \<or> mlen \<noteq> 8) then done EINVAL st
        else let st = (if optname = 0x0080 then so_upd so (\<lambda>x. x\<lparr>so_linger := sint (of_int (rd_int (drop 4 bytes)) :: 16 word)\<rparr>) st else st) in
          if m0 = [] \<or> mlen < 4 then done EINVAL st
          else done 0 (so_upd so (\<lambda>x. x\<lparr>so_options := (if val \<noteq> 0 then so_options x OR of_nat optname else so_options x AND NOT (of_nat optname))\<rparr>) st)
      else if optname \<in> {0x1001, 0x1002, 0x1003, 0x1004, 0x1005, 0x1006} then
        if m0 = [] \<or> mlen < 4 then done EINVAL st
        else if optname = 0x1001 then (let (ok, sb) = sbreserve (so_snd (socks st so)) val in
          if ok then done 0 (so_upd so (\<lambda>x. x\<lparr>so_snd := sb\<rparr>) st) else done ENOBUFS st)
        else if optname = 0x1002 then (let (ok, sb) = sbreserve (so_rcv (socks st so)) val in
          if ok then done 0 (so_upd so (\<lambda>x. x\<lparr>so_rcv := sb\<rparr>) st) else done ENOBUFS st)
        else done 0 (so_upd so (\<lambda>x.
          if optname = 0x1003 then x\<lparr>so_snd := (so_snd x)\<lparr>sb_lowat := of_int val\<rparr>\<rparr>
          else if optname = 0x1004 then x\<lparr>so_rcv := (so_rcv x)\<lparr>sb_lowat := of_int val\<rparr>\<rparr>
          else if optname = 0x1005 then x\<lparr>so_snd := (so_snd x)\<lparr>sb_timeo := sint (of_int val :: 16 word)\<rparr>\<rparr>
          else x\<lparr>so_rcv := (so_rcv x)\<lparr>sb_timeo := sint (of_int val :: 16 word)\<rparr>\<rparr>) st)
      else done ENOPROTOOPT st)"

text \<open>The value \<open>sogetopt\<close> stores for an option, \<open>None\<close> for one it does not know.\<close>

definition sogetopt_val :: "socket \<Rightarrow> nat \<Rightarrow> byte list option" where
  "sogetopt_val x optname =
     (if optname = 0x0080 then Some (wr_int (uint (so_options x AND SO_LINGER)) @ wr_int (so_linger x))
      else if optname \<in> {0x0001, 0x0004, 0x0008, 0x0010, 0x0020, 0x0040, 0x0100} then Some (wr_int (sint (so_options x) AND int optname))
      else if optname = 0x1008 then Some (wr_int (so_type x))
      else if optname = 0x1007 then Some (wr_int (so_error x))
      else if optname = 0x1001 then Some (wr_int (uint (sb_hiwat (so_snd x))))
      else if optname = 0x1002 then Some (wr_int (uint (sb_hiwat (so_rcv x))))
      else if optname = 0x1003 then Some (wr_int (uint (sb_lowat (so_snd x))))
      else if optname = 0x1004 then Some (wr_int (uint (sb_lowat (so_rcv x))))
      else if optname = 0x1005 then Some (wr_int (sb_timeo (so_snd x)))
      else if optname = 0x1006 then Some (wr_int (sb_timeo (so_rcv x)))
      else None)"

definition sogetopt :: "(nat \<Rightarrow> int \<Rightarrow> nat \<Rightarrow> skst \<Rightarrow> int \<times> chain \<times> skst) option \<Rightarrow> nat \<Rightarrow> int \<Rightarrow> nat \<Rightarrow> skst \<Rightarrow> ((int \<times> chain) sleepy \<times> skst) kern" where
  "sogetopt ctl so level optname st =
     (if level \<noteq> SOL_SOCKET then
        case ctl of Some f \<Rightarrow> let (error, m, st) = f so level optname st in Inr (Ready (error, m), st)
        | None \<Rightarrow> Inr (Ready (ENOPROTOOPT, []), st)
      else kbind (m_get True MT_SOOPTS (pool st)) (\<lambda>(m, s). let st = st\<lparr>pool := s\<rparr> in case m of
          None \<Rightarrow> Inr (Sleep, st)
        | Some m \<Rightarrow> (case sogetopt_val (socks st so) optname of
            None \<Rightarrow> kbind (m_free m (pool st)) (\<lambda>s. Inr (Ready (ENOPROTOOPT, []), st\<lparr>pool := s\<rparr>))
          | Some bs \<Rightarrow> kbind (put_dat m 0 bs) (\<lambda>m.
              Inr (Ready (0, [m\<lparr>m_len := int (length bs)\<rparr>]), if optname = 0x1007 then so_upd so (\<lambda>x. x\<lparr>so_error := 0\<rparr>) st else st)))))"

end
