(* ===== verification/Socket_props.thy ===== *)
theory Socket_props
  imports Socket Mbuf_props
begin

text \<open>
  The two rings of a listening socket, as lists: \<open>listen_ok st head q0s qs\<close> says that the pointers
  from \<open>head\<close> run through exactly \<open>q0s\<close> (connections in progress) and \<open>qs\<close> (connections to accept)
  and back, and that the counts are right. Each operation on the queues is a list operation.
\<close>

section \<open>Rings\<close>

fun qpath :: "(nat \<Rightarrow> nat) \<Rightarrow> nat \<Rightarrow> nat list \<Rightarrow> nat \<Rightarrow> bool" where
  "qpath nxt p [] e = (nxt p = e)"
| "qpath nxt p (x # xs) e = (nxt p = x \<and> qpath nxt x xs e)"

lemma qpath_upd: "a \<notin> set (p # xs) \<Longrightarrow> qpath (nxt(a := b)) p xs e = qpath nxt p xs e"
  by (induction xs arbitrary: p) auto

lemma qpath_cong: "(\<And>x. x \<in> set (p # xs) \<Longrightarrow> nxt' x = nxt x) \<Longrightarrow> qpath nxt' p xs e = qpath nxt p xs e"
  by (induction xs arbitrary: p) auto

lemma qpath_append: "qpath nxt p (xs @ y # ys) e \<longleftrightarrow> qpath nxt p xs y \<and> qpath nxt y ys e"
  by (induction xs arbitrary: p) auto

lemma qpath_insert:
  assumes "qpath nxt p xs e" "so \<notin> set (p # xs)" "p \<notin> set xs"
  shows "qpath (nxt(so := nxt p, p := so)) p (so # xs) e"
  using assms by (cases xs) (auto simp: qpath_upd)

lemma qpath_remove:
  assumes "qpath nxt p (ys @ so # zs) e" "distinct (p # ys @ so # zs)"
  shows "qpath (nxt(last (p # ys) := nxt so, so := 0)) p (ys @ zs) e"
  using assms
proof (induction ys arbitrary: p)
  case Nil
  define nxt' where "nxt' = nxt(p := nxt so, so := 0)"
  have so: "nxt p = so" "qpath nxt so zs e" "p \<noteq> so" using Nil by auto
  have "qpath nxt' p zs e"
  proof (cases zs)
    case Nil
    then show ?thesis using so by (simp add: nxt'_def)
  next
    case (Cons z zs')
    have "qpath nxt' z zs' e = qpath nxt z zs' e" using Nil.prems(2) Cons by (intro qpath_cong) (auto simp: nxt'_def)
    then show ?thesis using so Cons by (simp add: nxt'_def)
  qed
  then show ?case by (simp only: nxt'_def append_Nil last.simps if_True simp_thms)
next
  case (Cons y ys p)
  have "nxt p = y" "qpath nxt y (ys @ so # zs) e" "distinct (y # ys @ so # zs)" "p \<noteq> so" using Cons.prems by auto
  moreover have "p \<noteq> last (y # ys)" using Cons.prems by (cases ys rule: rev_cases) auto
  ultimately show ?case using Cons.IH [of y] by simp
qed

lemma so_search_found:
  "qpath nxt p (ys @ so # zs) head \<Longrightarrow> distinct (p # ys @ so # zs) \<Longrightarrow> head \<notin> set (ys @ so # zs) \<Longrightarrow> 0 \<notin> set (p # ys) \<Longrightarrow>
   so_search nxt head so p = Some (Inr (Some (last (p # ys))))"
proof (induction ys arbitrary: p)
  case Nil
  then show ?case by (subst so_search.simps) auto
next
  case (Cons y ys p)
  then show ?case by (subst so_search.simps) auto
qed

lemma so_search_none:
  "qpath nxt p xs head \<Longrightarrow> so \<notin> set xs \<Longrightarrow> so \<noteq> head \<Longrightarrow> head \<notin> set xs \<Longrightarrow> 0 \<notin> set (p # xs) \<Longrightarrow>
   so_search nxt head so p = Some (Inr None)"
proof (induction xs arbitrary: p)
  case Nil
  then show ?case by (subst so_search.simps) auto
next
  case (Cons y ys p)
  then show ?case by (subst so_search.simps) auto
qed

definition listen_ok :: "skst \<Rightarrow> nat \<Rightarrow> nat list \<Rightarrow> nat list \<Rightarrow> bool" where
  "listen_ok st head q0s qs \<longleftrightarrow> distinct (head # q0s @ qs) \<and> 0 \<notin> set (head # q0s @ qs)
     \<and> qpath (so_next False st) head q0s head \<and> qpath (so_next True st) head qs head
     \<and> so_q0len (socks st head) = int (length q0s) \<and> so_qlen (socks st head) = int (length qs)
     \<and> (\<forall>x\<in>set (q0s @ qs). so_head (socks st x) = head)"

text \<open>Everything else about the sockets that the queue operations leave alone.\<close>

definition q_frame :: "nat set \<Rightarrow> skst \<Rightarrow> skst \<Rightarrow> bool" where
  "q_frame A st st' \<longleftrightarrow> pool st' = pool st \<and> evs st' = evs st \<and> (\<forall>x. x \<notin> A \<longrightarrow> socks st' x = socks st x)
     \<and> (\<forall>x. so_state (socks st' x) = so_state (socks st x) \<and> so_rcv (socks st' x) = so_rcv (socks st x) \<and> so_snd (socks st' x) = so_snd (socks st x)
          \<and> so_pgrp (socks st' x) = so_pgrp (socks st x) \<and> so_qlimit (socks st' x) = so_qlimit (socks st x))"

lemma socks_so_upd [simp]: "socks (so_upd so f st) x = (if x = so then f (socks st so) else socks st x)" "pool (so_upd so f st) = pool st" "evs (so_upd so f st) = evs st"
  by (simp_all add: so_upd_def)

lemma so_next_insque:
  assumes "head \<noteq> so"
  shows "so_next q (soqinsque head so q st) = (so_next q st)(so := so_next q st head, head := so)"
    "so_next (\<not> q) (soqinsque head so q st) = so_next (\<not> q) st"
  using assms by (auto simp: fun_eq_iff so_next_def soqinsque_def Let_def)

lemma soqinsque_spec:
  assumes ok: "listen_ok st head q0s qs" and so: "so \<noteq> 0" "so \<notin> set (head # q0s @ qs)"
  shows "listen_ok (soqinsque head so q st) head (if q then q0s else so # q0s) (if q then so # qs else qs)"
    "q_frame {head, so} st (soqinsque head so q st)"
proof -
  have ne: "head \<noteq> so" using so by auto
  have p: "qpath (so_next False st) head q0s head" "qpath (so_next True st) head qs head" "head \<notin> set q0s" "head \<notin> set qs"
    using ok by (auto simp: listen_ok_def)
  note n = so_next_insque [OF ne, of q st]
  have heads: "so_head (socks (soqinsque head so q st) x) = (if x = so then head else so_head (socks st x))" for x
    by (simp add: soqinsque_def Let_def)
  have lens: "so_q0len (socks (soqinsque head so q st) head) = so_q0len (socks st head) + (if q then 0 else 1)"
    "so_qlen (socks (soqinsque head so q st) head) = so_qlen (socks st head) + (if q then 1 else 0)"
    using ne by (simp_all add: soqinsque_def Let_def)
  show "listen_ok (soqinsque head so q st) head (if q then q0s else so # q0s) (if q then so # qs else qs)"
  proof (cases q)
    case True
    have "qpath (so_next True (soqinsque head so q st)) head (so # qs) head" using n(1) True qpath_insert [OF p(2)] so p by simp
    moreover have "so_next False (soqinsque head so q st) = so_next False st" using n(2) True by simp
    ultimately show ?thesis using ok so heads lens True ne unfolding listen_ok_def by auto
  next
    case False
    have "qpath (so_next False (soqinsque head so q st)) head (so # q0s) head" using n(1) False qpath_insert [OF p(1)] so p by simp
    moreover have "so_next True (soqinsque head so q st) = so_next True st" using n(2) False by simp
    ultimately show ?thesis using ok so heads lens False ne unfolding listen_ok_def by auto
  qed
  show "q_frame {head, so} st (soqinsque head so q st)" by (auto simp: q_frame_def soqinsque_def Let_def)
qed

text \<open>The list that \<open>q\<close> selects.\<close>

lemma soqremque_spec:
  assumes ok: "listen_ok st head q0s qs" and so: "so_head (socks st so) = head" "so \<noteq> head"
  shows "if so \<in> set (if q then qs else q0s)
    then \<exists>st'. soqremque so q st = Some (Inr (True, st')) \<and> listen_ok st' head (if q then q0s else remove1 so q0s) (if q then remove1 so qs else qs)
      \<and> so_head (socks st' so) = 0 \<and> q_frame (insert head (set (q0s @ qs))) st st'
    else soqremque so q st = Some (Inr (False, st))"
proof -
  define xs where "xs = (if q then qs else q0s)"
  have p: "qpath (so_next q st) head xs head" "distinct (head # xs)" "0 \<notin> set (head # xs)"
    using ok by (auto simp: listen_ok_def xs_def)
  show ?thesis
  proof (cases "so \<in> set xs")
    case False
    have "so_search (so_next q st) head so head = Some (Inr None)" using so_search_none [OF p(1) False so(2)] p by simp
    then show ?thesis using False so(1) unfolding xs_def [symmetric] by (simp add: soqremque_def Let_def obind_def)
  next
    case True
    then obtain ys zs where xs: "xs = ys @ so # zs" "so \<notin> set ys" by (meson split_list_first)
    define prev where "prev = last (head # ys)"
    have s: "so_search (so_next q st) head so head = Some (Inr (Some prev))"
      using so_search_found [OF p(1) [unfolded xs(1)]] p xs by (simp add: prev_def)
    have prev: "prev \<in> set (head # ys)" "prev \<noteq> so" using so xs by (auto simp: prev_def dest: last_in_set split: if_splits)
    define st1 where "st1 = (if \<not> q
           then so_upd head (\<lambda>x. x\<lparr>so_q0len := so_q0len x - 1\<rparr>) (so_upd prev (\<lambda>x. x\<lparr>so_q0 := so_q0 (socks st so)\<rparr>) st)
           else so_upd head (\<lambda>x. x\<lparr>so_qlen := so_qlen x - 1\<rparr>) (so_upd prev (\<lambda>x. x\<lparr>so_q := so_q (socks st so)\<rparr>) st))"
    define st' where "st' = so_upd so (\<lambda>x. x\<lparr>so_q0 := 0, so_q := 0, so_head := 0\<rparr>) st1"
    have run: "soqremque so q st = Some (Inr (True, st'))" using s so(1) by (simp add: soqremque_def Let_def obind_def st'_def st1_def)
    have n: "so_next q st' = (so_next q st)(prev := so_next q st so, so := 0)" "so_next (\<not> q) st' = (so_next (\<not> q) st)(so := 0)"
      using prev so by (auto simp: fun_eq_iff so_next_def st'_def st1_def)
    have "remove1 so xs = ys @ zs" using xs by (simp add: remove1_append)
    then have path: "qpath (so_next q st') head (remove1 so xs) head"
      using qpath_remove [OF p(1,2) [unfolded xs(1)]] by (simp add: n(1) prev_def)
    have other: "qpath (so_next (\<not> q) st') head (if q then q0s else qs) head"
    proof -
      have "so \<notin> set (head # (if q then q0s else qs))" using ok so(2) True by (auto simp: listen_ok_def xs_def)
      then have "qpath (so_next (\<not> q) st') head (if q then q0s else qs) head = qpath (so_next (\<not> q) st) head (if q then q0s else qs) head"
        unfolding n(2) by (rule qpath_upd)
      then show ?thesis using ok by (cases q) (simp_all add: listen_ok_def)
    qed
    have heads: "so_head (socks st' x) = (if x = so then 0 else so_head (socks st x))" for x by (simp add: st'_def st1_def)
    have lens: "so_q0len (socks st' head) = so_q0len (socks st head) - (if q then 0 else 1)" "so_qlen (socks st' head) = so_qlen (socks st head) - (if q then 1 else 0)"
      using so by (simp_all add: st'_def st1_def)
    have len: "int (length (remove1 so xs)) = int (length xs) - 1" using xs by (simp add: remove1_append)
    have fr: "q_frame (insert head (set (q0s @ qs))) st st'"
      unfolding q_frame_def
    proof (intro conjI allI impI)
      have "prev \<in> insert head (set (q0s @ qs))" "so \<in> insert head (set (q0s @ qs))"
        using prev(1) True xs(1) by (auto simp: xs_def split: if_splits)
      then show "socks st' x = socks st x" if "x \<notin> insert head (set (q0s @ qs))" for x
        using that by (cases q) (auto simp: st'_def st1_def)
    qed (simp_all add: st'_def st1_def)
    have "listen_ok st' head (if q then q0s else remove1 so q0s) (if q then remove1 so qs else qs)"
    proof (cases q)
      case q: True
      have "so \<notin> set q0s" using ok True q by (auto simp: listen_ok_def xs_def)
      then show ?thesis using ok path other heads lens len q True so
        by (auto simp: listen_ok_def xs_def dest: notin_set_remove1 in_set_remove1 [THEN iffD1, rotated] set_remove1_subset [THEN subsetD])
    next
      case q: False
      have "so \<notin> set qs" using ok True q by (auto simp: listen_ok_def xs_def)
      then show ?thesis using ok path other heads lens len q True so
        by (auto simp: listen_ok_def xs_def dest: notin_set_remove1 in_set_remove1 [THEN iffD1, rotated] set_remove1_subset [THEN subsetD])
    qed
    then show ?thesis using True run fr heads unfolding xs_def by auto
  qed
qed

section \<open>Operations that leave the queues alone\<close>

definition same_queue :: "skst \<Rightarrow> skst \<Rightarrow> bool" where
  "same_queue st st' \<longleftrightarrow> (\<forall>x. so_head (socks st' x) = so_head (socks st x) \<and> so_q0 (socks st' x) = so_q0 (socks st x) \<and> so_q (socks st' x) = so_q (socks st x)
     \<and> so_q0len (socks st' x) = so_q0len (socks st x) \<and> so_qlen (socks st' x) = so_qlen (socks st x))"

lemma same_queue_trans: "same_queue a b \<Longrightarrow> same_queue b c \<Longrightarrow> same_queue a c"
  by (simp add: same_queue_def)

lemma listen_ok_same: "same_queue st st' \<Longrightarrow> listen_ok st' head q0s qs = listen_ok st head q0s qs"
proof -
  assume s: "same_queue st st'"
  then have "so_next q st' = so_next q st" for q by (auto simp: fun_eq_iff so_next_def same_queue_def)
  then show ?thesis using s by (simp add: listen_ok_def same_queue_def)
qed

lemma same_queue_ops [simp]:
  "same_queue st (tell es st)" "same_queue st (set_state so off on st)" "same_queue st (sorwakeup pfind so st)" "same_queue st (sowwakeup pfind so st)"
  "same_queue st (st\<lparr>pool := s\<rparr>)"
  by (auto simp: same_queue_def tell_def set_state_def sorwakeup_def sowwakeup_def Let_def split: prod.splits)

lemma so_state_ops [simp]:
  "so_state (socks (sorwakeup pfind so st) x) = so_state (socks st x)" "so_state (socks (sowwakeup pfind so st) x) = so_state (socks st x)"
  "socks (tell es st) = socks st" "evs (tell es st) = evs st @ es"
  "so_state (socks (set_state so off on st) x) = (if x = so then (so_state (socks st so) AND NOT off) OR on else so_state (socks st x))"
  by (auto simp: tell_def set_state_def sorwakeup_def sowwakeup_def Let_def split: prod.splits)

lemma wakeup_evs:
  "set (evs st) \<subseteq> set (evs (sorwakeup pfind so st))" "set (evs st) \<subseteq> set (evs (sowwakeup pfind so st))" "evs (set_state so off on st) = evs st"
  by (auto simp: set_state_def tell_def sorwakeup_def sowwakeup_def Let_def split: prod.splits)

lemma soisconnected_spec:
  assumes ok: "listen_ok st head q0s qs" and so: "so \<in> set q0s"
  shows "\<exists>st'. soisconnected pfind so st = Some (Inr st') \<and> listen_ok st' head (remove1 so q0s) (so # qs)
    \<and> so_state (socks st' so) = (so_state (socks st so) AND NOT (SS_ISCONNECTING OR SS_ISDISCONNECTING)) OR SS_ISCONNECTED
    \<and> {WkTimeo head, WkTimeo so} \<subseteq> set (evs st')"
proof -
  have h: "so_head (socks st so) = head" "so \<noteq> head" "head \<noteq> 0" "so \<noteq> 0" "so \<notin> set qs" "distinct q0s" "head \<notin> set q0s"
    using ok so by (auto simp: listen_ok_def)
  from soqremque_spec [OF ok h(1,2), of False] so obtain st1 where
    st1: "soqremque so False st = Some (Inr (True, st1))" "listen_ok st1 head (remove1 so q0s) qs" "q_frame (insert head (set (q0s @ qs))) st st1" by auto
  have notin: "so \<notin> set (head # remove1 so q0s @ qs)" using h by (simp add: set_remove1_eq)
  note ins = soqinsque_spec [OF st1(2) h(4) notin, of True]
  define st2 where "st2 = soqinsque head so True st1"
  define st3 where "st3 = tell [WkTimeo head] (sorwakeup pfind head st2)"
  define st4 where "st4 = set_state so (SS_ISCONNECTING OR SS_ISDISCONNECTING) SS_ISCONNECTED st3"
  define st5 where "st5 = sowwakeup pfind so (sorwakeup pfind so (tell [WkTimeo so] st4))"
  have run: "soisconnected pfind so st = Some (Inr st5)"
    using h(1,3) st1(1) unfolding soisconnected_def Let_def by (simp add: obind_def st5_def st4_def st3_def st2_def)
  have l: "listen_ok st2 head (remove1 so q0s) (so # qs)" using ins(1) by (simp add: st2_def)
  have "same_queue st2 st5" unfolding st3_def st4_def st5_def by (meson same_queue_trans same_queue_ops)
  with l have "listen_ok st5 head (remove1 so q0s) (so # qs)" by (simp add: listen_ok_same)
  moreover have "so_state (socks st2 so) = so_state (socks st so)" using ins(2) st1(3) by (simp add: q_frame_def st2_def)
  then have "so_state (socks st5 so) = (so_state (socks st so) AND NOT (SS_ISCONNECTING OR SS_ISDISCONNECTING)) OR SS_ISCONNECTED"
    by (simp add: st5_def st4_def st3_def)
  moreover have "{WkTimeo head, WkTimeo so} \<subseteq> set (evs st5)"
  proof -
    have "set (evs (tell [WkTimeo so] st4)) \<subseteq> set (evs st5)" using wakeup_evs(1,2) unfolding st5_def by blast
    then show ?thesis by (auto simp: st4_def wakeup_evs(3) st3_def)
  qed
  ultimately show ?thesis using run by blast
qed

lemma sonewconn_spec:
  assumes ok: "listen_ok st head q0s qs" and addr: "addr \<noteq> 0" "addr \<notin> set (head # q0s @ qs)"
    and proto: "\<forall>st. same_queue st (snd (snd (usrreq PRU_ATTACH addr [] st)))"
  shows "\<exists>so st'. sonewconn usrreq addr head st = Some (Inr (so, st')) \<and>
    (if so = 0 then listen_ok st' head q0s qs
     else so = addr \<and> listen_ok st' head (addr # q0s) qs \<and> int (length q0s + length qs) \<le> 3 * so_qlimit (socks st head) sdiv 2)"
proof (cases "3 * so_qlimit (socks st head) sdiv 2 < so_qlen (socks st head) + so_q0len (socks st head)")
  case True
  then show ?thesis using ok by (simp add: sonewconn_def Let_def)
next
  case False
  have lens: "so_qlen (socks st head) + so_q0len (socks st head) = int (length q0s + length qs)" using ok by (simp add: listen_ok_def)
  obtain r s where g: "m_get False 3 (pool st) = Inr (r, s)" "case r of None \<Rightarrow> True | Some m \<Rightarrow> m_type m = 3"
    using m_get_spec [of 3 "pool st"] by (auto split: option.splits)
  show ?thesis
  proof (cases r)
    case None
    then show ?thesis using False g ok listen_ok_same [of st "st\<lparr>pool := s\<rparr>"] by (simp add: sonewconn_def Let_def m_getclr_def)
  next
    case (Some m)
    let ?h = "socks st head"
    define x where "x = \<lparr>so_type = so_type ?h, so_options = so_options ?h AND NOT SO_ACCEPTCONN, so_linger = so_linger ?h,
                 so_state = so_state ?h OR SS_NOFDREF, so_pcb = False, so_proto = so_proto ?h, so_head = 0, so_q0 = 0, so_q0len = 0,
                 so_q = 0, so_qlen = 0, so_qlimit = 0, so_rcv = sb_empty, so_snd = sb_empty, so_timeo = so_timeo ?h, so_error = 0,
                 so_oobmark = 0, so_pgrp = so_pgrp ?h\<rparr>"
    define st1 where "st1 = so_upd addr (\<lambda>_. x) (st\<lparr>pool := s\<rparr>)"
    have sk: "socks st1 y = socks st y" if "y \<noteq> addr" for y using that by (simp add: st1_def)
    have "listen_ok st1 head q0s qs"
    proof -
      have "qpath (so_next q st1) head xs head = qpath (so_next q st) head xs head" if "addr \<notin> set (head # xs)" for q xs
      proof (rule qpath_cong)
        fix y assume "y \<in> set (head # xs)"
        then have "y \<noteq> addr" using that by blast
        then show "so_next q st1 y = so_next q st y" using sk by (simp add: so_next_def)
      qed
      moreover have "so_head (socks st1 y) = so_head (socks st y)" if "y \<in> set (q0s @ qs)" for y
      proof -
        have "y \<noteq> addr" using that addr(2) by auto
        then show ?thesis using sk by simp
      qed
      moreover have "socks st1 head = socks st head" using sk addr(2) by simp
      ultimately show ?thesis using ok addr unfolding listen_ok_def by auto
    qed
    note ins = soqinsque_spec [OF this addr, of False]
    define st2 where "st2 = soqinsque head addr False st1"
    obtain e c st3 where u: "usrreq PRU_ATTACH addr [] st2 = (e, c, st3)" by (metis prod_cases3)
    have l3: "listen_ok st3 head (addr # q0s) qs" using ins(1) proto [rule_format, of st2] u by (simp add: listen_ok_same st2_def)
    define m' where "m' = m_dat_update (\<lambda>_. replicate (nat MLEN) 0) m"
    have run: "sonewconn usrreq addr head st = (if e \<noteq> 0 then
          obind (soqremque addr False st3) (\<lambda>(_, st). case m_free m' (pool st) of
              Inl e \<Rightarrow> Some (Inl e) | Inr s \<Rightarrow> Some (Inr (0, st\<lparr>pool := s\<rparr>)))
        else Some (Inr (addr, st3)))"
      unfolding sonewconn_def Let_def if_not_P [OF False] m_getclr_def g(1) Some kbind_simps prod.case option.map sum.case
        x_def [symmetric] st1_def [symmetric] st2_def [symmetric] m'_def u option.case ..
    show ?thesis
    proof (cases "e = 0")
      case True
      then show ?thesis using run addr(1) l3 False lens by simp
    next
      case err: False
      have "so_head (socks st3 addr) = head" "addr \<noteq> head" using l3 by (auto simp: listen_ok_def)
      from soqremque_spec [OF l3 this, of False] obtain st4 where st4: "soqremque addr False st3 = Some (Inr (True, st4))" "listen_ok st4 head q0s qs" by auto
      have "m_type m' = 3" using g(2) Some by (simp add: m'_def)
      then obtain s' where "m_free m' (pool st4) = Inr s'" using m_free_spec [of m' "pool st4"] by (auto simp: mbuf_consts)
      then show ?thesis using run err st4 listen_ok_same [of st4 "st4\<lparr>pool := s'\<rparr>"] by (simp add: obind_def)
    qed
  qed
qed

end
