(* ===== verification/Sockbuf_props.thy ===== *)
theory Sockbuf_props
  imports Sockbuf Mbuf_props
begin

text \<open>
  A socket buffer as a queue of byte strings, one per record: \<open>recs\<close> abstracts the state, \<open>sb_ok\<close> is its
  invariant (well-formed mbufs, no empty record, both counters equal to what is in the queue), and
  each operation keeps it, does its step on the queue and accounts for all mbufs it was given.
\<close>

section \<open>The invariant and the abstraction\<close>

definition mbcost :: "mbuf \<Rightarrow> int" where "mbcost m = MSIZE + (if off_past m then CLBYTES else 0)"

definition mbcnt_of :: "chain \<Rightarrow> int" where "mbcnt_of ms = sum_list (map mbcost ms)"

text \<open>The counters are \<^verbatim>\<open>u_short\<close>: they are the contents modulo \<open>2 ^ 16\<close>.\<close>

definition sb_ok :: "mbst \<Rightarrow> sockbuf \<Rightarrow> bool" where
  "sb_ok s sb \<longleftrightarrow> chain_ok s (concat (sb_mb sb)) \<and> [] \<notin> set (sb_mb sb)
     \<and> sb_cc sb = of_int (clen (concat (sb_mb sb))) \<and> sb_mbcnt sb = of_int (mbcnt_of (concat (sb_mb sb)))"

definition recs :: "mbst \<Rightarrow> sockbuf \<Rightarrow> byte list list" where "recs s sb = map (mbytes s) (sb_mb sb)"

definition held :: "sockbuf \<Rightarrow> chain" where "held sb = concat (sb_mb sb)"

text \<open>What does not change when data comes or goes.\<close>

definition sb_same :: "sockbuf \<Rightarrow> sockbuf \<Rightarrow> bool" where
  "sb_same sb sb' \<longleftrightarrow> sb_hiwat sb' = sb_hiwat sb \<and> sb_mbmax sb' = sb_mbmax sb \<and> sb_sel sb' = sb_sel sb \<and> sb_flags sb' = sb_flags sb"

lemma sb_same_trans: "sb_same a b \<Longrightarrow> sb_same b c \<Longrightarrow> sb_same a c"
  by (simp add: sb_same_def)

text \<open>Data added to the last record.\<close>

definition app_rec :: "byte list list \<Rightarrow> byte list \<Rightarrow> byte list list" where
  "app_rec rs d = (if rs = [] then if d = [] then [] else [d] else butlast rs @ [last rs @ d])"

lemma app_rec_Nil [simp]: "app_rec rs [] = rs"
  by (simp add: app_rec_def)

lemma app_rec_append: "app_rec (app_rec rs a) b = app_rec rs (a @ b)"
  by (auto simp: app_rec_def)

lemma mbcnt_simps [simp]: "mbcnt_of [] = 0" "mbcnt_of (m # ms) = mbcost m + mbcnt_of ms" "mbcnt_of (xs @ ys) = mbcnt_of xs + mbcnt_of ys"
  by (simp_all add: mbcnt_of_def)

lemma recs_state: "cldata t = cldata s \<Longrightarrow> recs t sb = recs s sb"
  using same_cldata(3) [of t s] by (simp add: recs_def)

lemma sb_ok_state: "cldata t = cldata s \<Longrightarrow> sb_ok t sb = sb_ok s sb"
  using same_cldata(5) [of t s] by (simp add: sb_ok_def)

lemma concat_recs: "concat (recs s sb) = mbytes s (held sb)"
proof -
  have "concat (map (mbytes s) rs) = mbytes s (concat rs)" for rs by (induction rs) simp_all
  then show ?thesis by (simp add: recs_def held_def)
qed

lemma sballoc_fields [simp]:
  "sb_mb (sballoc sb m) = sb_mb sb" "sb_cc (sballoc sb m) = sb_cc sb + of_int (m_len m)"
  "sb_mbcnt (sballoc sb m) = sb_mbcnt sb + of_int (mbcost m)" "sb_same sb (sballoc sb m)"
  by (simp_all add: sballoc_def mbcost_def sb_same_def Let_def)

lemma sbfree_fields [simp]:
  "sb_mb (sbfree sb m) = sb_mb sb" "sb_cc (sbfree sb m) = sb_cc sb - of_int (m_len m)"
  "sb_mbcnt (sbfree sb m) = sb_mbcnt sb - of_int (mbcost m)" "sb_same sb (sbfree sb m)"
  by (simp_all add: sbfree_def mbcost_def sb_same_def Let_def)

lemma mbcost_loc: "m_loc m' = m_loc m \<Longrightarrow> mbcost m' = mbcost m"
  by (simp add: mbcost_def off_past_def)

lemma mbcost_pos: "0 < mbcost m"
  by (simp add: mbcost_def mbuf_consts)

lemma mdata_empty: "m_len m = 0 \<Longrightarrow> mdata s m = []"
  by (simp add: mdata_def)

section \<open>Appending\<close>

lemma sb_split: "sb_mb sb \<noteq> [] \<Longrightarrow> [] \<notin> set (sb_mb sb) \<Longrightarrow> \<exists>rs r n. sb_mb sb = rs @ [r @ [n]]"
  by (metis last_in_set snoc_eq_iff_butlast)

text \<open>Linking one more mbuf at the end.\<close>

lemma sb_link_spec:
  assumes sb: "sb_ok s sb" and m: "m_ok s m" "m_len m \<noteq> 0"
  shows "sb_ok s (sb_link (sballoc sb m) m)" "recs s (sb_link (sballoc sb m) m) = app_rec (recs s sb) (mdata s m)"
    "held (sb_link (sballoc sb m) m) = held sb @ [m]" "sb_same sb (sb_link (sballoc sb m) m)"
proof -
  let ?sb = "sb_link (sballoc sb m) m"
  have mb: "sb_mb ?sb = (if sb_mb sb = [] then [[m]] else butlast (sb_mb sb) @ [last (sb_mb sb) @ [m]])" by (simp add: sb_link_def)
  show h: "held ?sb = held sb @ [m]"
    by (cases "sb_mb sb" rule: rev_cases) (simp_all add: held_def mb)
  have c: "sb_cc ?sb = sb_cc sb + of_int (m_len m)" "sb_mbcnt ?sb = sb_mbcnt sb + of_int (mbcost m)" by (simp_all add: sb_link_def)
  have ne: "[] \<notin> set (sb_mb ?sb)" using sb by (auto simp: mb sb_ok_def dest: in_set_butlastD)
  show "sb_ok s ?sb" using sb m ne h c by (simp add: sb_ok_def flip: held_def)
  have "mdata s m \<noteq> []" using mdata_length [OF m(1)] m m_len_nonneg [OF m(1)] by (metis list.size(3) nat_0_iff order_antisym)
  then show "recs s ?sb = app_rec (recs s sb) (mdata s m)" by (simp add: recs_def mb app_rec_def map_butlast last_map)
  show "sb_same sb ?sb" using sballoc_fields(4) [of sb m] by (simp add: sb_link_def sb_same_def)
qed

text \<open>Storing its data in the last mbuf instead.\<close>

lemma sb_merge_spec:
  assumes sb: "sb_ok s sb" and n: "sb_last sb = Some n" and m: "m_ok s m" and fits: "sb_fits n m"
  shows "\<exists>n'. put_dat n (nat (m_len n)) (mdata s m) = Inr n' \<and>
    (let sb' = (sb_set_last sb (n'\<lparr>m_len := m_len n' + m_len m\<rparr>))\<lparr>sb_cc := sb_cc sb + of_int (m_len m)\<rparr> in
      sb_ok s sb' \<and> recs s sb' = app_rec (recs s sb) (mdata s m) \<and> sb_same sb sb'
      \<and> length (held sb') = length (held sb) \<and> (\<forall>c. refs (held sb') c = refs (held sb) c))"
proof -
  have ne: "sb_mb sb \<noteq> []" using n by (auto simp: sb_last_def split: if_splits)
  have "[] \<notin> set (sb_mb sb)" using sb by (simp add: sb_ok_def)
  from sb_split [OF ne this] obtain rs r n0 where r: "sb_mb sb = rs @ [r @ [n0]]" by blast
  have nn: "n0 = n" using n r by (simp add: sb_last_def)
  have nok: "m_ok s n" and rsok: "chain_ok s (concat rs)" "chain_ok s r" using sb r nn by (simp_all add: sb_ok_def)
  obtain off where off: "m_loc n = Dat off" "int off + m_len n + m_len m \<le> int MMAXOFF"
    using fits by (auto simp: sb_fits_def off_past_def off_of_def split: mloc.splits)
  have l: "int (length (mdata s m)) = m_len m" using m by (simp add: m_len_nonneg)
  from append_data [OF nok off(1), of "mdata s m"] off(2) l obtain n' where n': "put_dat n (nat (m_len n)) (mdata s m) = Inr n'"
    "m_ok s (n'\<lparr>m_len := m_len n + m_len m\<rparr>)" "mdata s (n'\<lparr>m_len := m_len n + m_len m\<rparr>) = mdata s n @ mdata s m"
    "m_loc n' = m_loc n" "m_len n' = m_len n" by auto
  define q where "q = n'\<lparr>m_len := m_len n' + m_len m\<rparr>"
  define sb' where "sb' = (sb_set_last sb q)\<lparr>sb_cc := sb_cc sb + of_int (m_len m)\<rparr>"
  have q: "m_ok s q" "mdata s q = mdata s n @ mdata s m" "m_len q = m_len n + m_len m" "mbcost q = mbcost n"
    using n' mbcost_loc [of q n] by (simp_all add: q_def)
  have rq: "refs [q] c = refs [n] c" for c using n'(4) by (intro refs_loc) (simp add: q_def)
  have mb: "sb_mb sb' = rs @ [r @ [q]]" using r by (simp add: sb'_def sb_set_last_def)
  have "sb_ok s sb'" using sb q rsok mb r nn by (simp add: sb_ok_def) (simp add: sb'_def sb_set_last_def)
  moreover have "recs s sb' = app_rec (recs s sb) (mdata s m)" using q by (simp add: recs_def mb r nn app_rec_def)
  moreover have "sb_same sb sb'" by (simp add: sb'_def sb_set_last_def sb_same_def)
  moreover have "length (held sb') = length (held sb)" by (simp add: held_def mb r)
  moreover have "refs (held sb') c = refs (held sb) c" for c using rq by (simp add: held_def mb r nn)
  ultimately show ?thesis using n'(1) unfolding sb'_def q_def by (simp add: Let_def)
qed

lemma balanced_free_last:
  assumes "balanced s [m] t []" "length xs' = length xs" "\<forall>c. refs xs' c = refs xs c"
  shows "balanced s (xs @ m # ms) t (xs' @ ms)"
proof -
  have r: "mclref s c - refs (xs @ m # ms) c = mclref t c - refs (xs' @ ms) c" for c
  proof -
    have "mclref s c - refs [m] c = mclref t c" "refs xs' c = refs xs c" using assms(1,3) by (auto simp: balanced_def)
    moreover have "refs (xs @ m # ms) c = refs xs c + (refs [m] c + refs ms c)" "refs (xs' @ ms) c = refs xs' c + refs ms c"
      by (simp_all only: refs_simps refs_Cons [of m ms])
    ultimately show ?thesis by (simp add: algebra_simps)
  qed
  have b: "cldata t = cldata s" "junk t = junk s" "avail s + 1 = avail t" using assms(1) by (simp_all add: balanced_def)
  show ?thesis unfolding balanced_def
  proof (intro conjI allI)
    show "avail s + length (xs @ m # ms) = avail t + length (xs' @ ms)" using b(3) assms(2) by simp
  qed (fact b(1) b(2) r)+
qed

lemma sbcompress_spec:
  "sb_ok s sb \<Longrightarrow> chain_ok s ms \<Longrightarrow>
   \<exists>sb' s'. sbcompress sb ms s = Inr (sb', s') \<and> sb_ok s sb' \<and> recs s sb' = app_rec (recs s sb) (mbytes s ms)
     \<and> sb_same sb sb' \<and> balanced s (held sb @ ms) s' (held sb')"
proof (induction ms arbitrary: sb s)
  case Nil
  then show ?case by (simp add: balanced_refl sb_same_def)
next
  case (Cons m ms sb s)
  have m: "m_ok s m" and ms: "chain_ok s ms" using Cons.prems by simp_all
  obtain t where t: "m_free m s = Inr t" "balanced s [m] t []" using m_free_spec [of m s] m by (auto simp: m_ok_def)
  have cl: "cldata t = cldata s" using t(2) by (rule balanced_cldata)
  have st: "chain_ok t ms" "mbytes t ms = mbytes s ms" using same_cldata(3,5) [OF cl] ms by simp_all
  have after_free: ?case if sb': "sb_ok s sb'" "recs s sb' = app_rec (recs s sb) (mdata s m)" "sb_same sb sb'"
      "length (held sb') = length (held sb)" "\<forall>c. refs (held sb') c = refs (held sb) c"
      and run: "sbcompress sb (m # ms) s = sbcompress sb' ms t" for sb'
  proof -
    have "sb_ok t sb'" using sb'(1) sb_ok_state [OF cl] by simp
    from Cons.IH [OF this st(1)] obtain sb2 u where u: "sbcompress sb' ms t = Inr (sb2, u)" "sb_ok s sb2"
      "recs s sb2 = app_rec (recs s sb') (mbytes s ms)" "sb_same sb' sb2" "balanced t (held sb' @ ms) u (held sb2)"
      unfolding st(2) sb_ok_state [OF cl] recs_state [OF cl] by blast
    have "balanced s (held sb @ m # ms) u (held sb2)" using balanced_trans [OF balanced_free_last [OF t(2) sb'(4,5)] u(5)] .
    then show ?thesis using run u sb'(2) sb_same_trans [OF sb'(3) u(4)] by (simp add: app_rec_append)
  qed
  have link: ?case if l: "m_len m \<noteq> 0" and run: "sbcompress sb (m # ms) s = sbcompress (sb_link (sballoc sb m) m) ms s"
  proof -
    note k = sb_link_spec [OF Cons.prems(1) m l]
    from Cons.IH [OF k(1) ms] obtain sb2 u where u: "sbcompress (sb_link (sballoc sb m) m) ms s = Inr (sb2, u)" "sb_ok s sb2"
      "recs s sb2 = app_rec (recs s sb) (mdata s m @ mbytes s ms)" "sb_same (sb_link (sballoc sb m) m) sb2" "balanced s (held sb @ m # ms) u (held sb2)"
      unfolding k(2,3) app_rec_append by auto
    then show ?thesis using run sb_same_trans [OF k(4) u(4)] by simp
  qed
  show ?case
  proof (cases "m_len m = 0")
    case True
    have "sbcompress sb (m # ms) s = sbcompress sb ms t" using True t(1) by simp
    from after_free [OF Cons.prems(1) _ _ refl _ this] show ?thesis using True by (simp add: mdata_empty sb_same_def)
  next
    case False
    show ?thesis
    proof (cases "\<exists>n. sb_last sb = Some n \<and> sb_fits n m")
      case True
      then obtain n where n: "sb_last sb = Some n" "sb_fits n m" by blast
      from sb_merge_spec [OF Cons.prems(1) n(1) m n(2)] obtain n' where n': "put_dat n (nat (m_len n)) (mdata s m) = Inr n'"
        "let sb' = (sb_set_last sb (n'\<lparr>m_len := m_len n' + m_len m\<rparr>))\<lparr>sb_cc := sb_cc sb + of_int (m_len m)\<rparr> in
          sb_ok s sb' \<and> recs s sb' = app_rec (recs s sb) (mdata s m) \<and> sb_same sb sb'
          \<and> length (held sb') = length (held sb) \<and> (\<forall>c. refs (held sb') c = refs (held sb) c)" by blast
      have "sbcompress sb (m # ms) s
        = sbcompress ((sb_set_last sb (n'\<lparr>m_len := m_len n' + m_len m\<rparr>))\<lparr>sb_cc := sb_cc sb + of_int (m_len m)\<rparr>) ms t"
        using False n n'(1) t(1) by simp
      from after_free [OF _ _ _ _ _ this] n'(2) show ?thesis by (simp add: Let_def)
    next
      case no: False
      have "sbcompress sb (m # ms) s = sbcompress (sb_link (sballoc sb m) m) ms s"
        using False no by (cases "sb_last sb") auto
      then show ?thesis by (rule link [OF False])
    qed
  qed
qed

text \<open>A new record at the end, whoever counted it.\<close>

lemma sb_newrec_spec:
  assumes "sb_ok s sb" "chain_ok s r" "r \<noteq> []" "sb_mb sb1 = sb_mb sb @ [r]"
    "sb_cc sb1 = sb_cc sb + of_int (clen r)" "sb_mbcnt sb1 = sb_mbcnt sb + of_int (mbcnt_of r)"
  shows "sb_ok s sb1" "recs s sb1 = recs s sb @ [mbytes s r]" "held sb1 = held sb @ r"
  using assms by (auto simp: sb_ok_def recs_def held_def)

lemma app_rec_snoc: "app_rec (rs @ [a]) b = rs @ [a @ b]"
  by (simp add: app_rec_def)

lemma sbappend_spec:
  assumes "sb_ok s sb" "chain_ok s m"
  shows "\<exists>sb' s'. sbappend sb m s = Inr (sb', s') \<and> sb_ok s sb' \<and> recs s sb' = app_rec (recs s sb) (mbytes s m)
     \<and> sb_same sb sb' \<and> balanced s (held sb @ m) s' (held sb')"
  using sbcompress_spec [OF assms] by (cases "m = []") (simp_all add: sbappend_def)

lemma sbappendrecord_spec:
  assumes sb: "sb_ok s sb" and m: "chain_ok s m" "m \<noteq> []"
  shows "\<exists>sb' s'. sbappendrecord sb m s = Inr (sb', s') \<and> sb_ok s sb' \<and> recs s sb' = recs s sb @ [mbytes s m]
     \<and> sb_same sb sb' \<and> balanced s (held sb @ m) s' (held sb')"
proof -
  obtain m0 ms where mm: "m = m0 # ms" using m(2) by (cases m) auto
  define sb1 where "sb1 = (sballoc sb m0)\<lparr>sb_mb := sb_mb sb @ [[m0]]\<rparr>"
  have k: "sb_ok s sb1" "recs s sb1 = recs s sb @ [mbytes s [m0]]" "held sb1 = held sb @ [m0]"
    using sb_newrec_spec [OF sb, of "[m0]" sb1] m mm by (simp_all add: sb1_def)
  have same: "sb_same sb sb1" using sballoc_fields(4) [of sb m0] by (simp add: sb1_def sb_same_def)
  have "chain_ok s ms" using m mm by simp
  from sbcompress_spec [OF k(1) this] obtain sb' u where u: "sbcompress sb1 ms s = Inr (sb', u)" "sb_ok s sb'"
    "recs s sb' = app_rec (recs s sb1) (mbytes s ms)" "sb_same sb1 sb'" "balanced s (held sb1 @ ms) u (held sb')" by blast
  have "sbappendrecord sb m s = Inr (sb', u)" using u(1) by (simp add: mm Let_def sb1_def)
  then show ?thesis using u k sb_same_trans [OF same u(4)] by (simp add: mm app_rec_snoc)
qed

section \<open>Dropping\<close>

text \<open>While \<open>sbdrop\<close> runs, the queue is the rest of a record and the records after it.\<close>

definition q_ok :: "mbst \<Rightarrow> chain \<Rightarrow> chain list \<Rightarrow> sockbuf \<Rightarrow> bool" where
  "q_ok s m rs sb \<longleftrightarrow> chain_ok s (m @ concat rs) \<and> [] \<notin> set rs
     \<and> sb_cc sb = of_int (clen (m @ concat rs)) \<and> sb_mbcnt sb = of_int (mbcnt_of (m @ concat rs))"

lemma q_ok_state: "cldata t = cldata s \<Longrightarrow> q_ok t m rs sb = q_ok s m rs sb"
  using same_cldata(5) [of t s] by (simp add: q_ok_def)

lemma q_free:
  assumes "q_ok s (m # ms) rs sb"
  shows "\<exists>t. m_free m s = Inr t \<and> cldata t = cldata s \<and> balanced s (m # ms @ xs) t (ms @ xs) \<and> q_ok t ms rs (sbfree sb m)"
proof -
  obtain t where t: "m_free m s = Inr t" "balanced s [m] t []" using m_free_spec [of m s] assms by (auto simp: q_ok_def m_ok_def)
  have cl: "cldata t = cldata s" using t(2) by (rule balanced_cldata)
  have "balanced s (m # ms @ xs) t (ms @ xs)" using balanced_frame [OF t(2), of "ms @ xs"] by simp
  moreover have "q_ok s ms rs (sbfree sb m)" using assms by (simp add: q_ok_def)
  ultimately show ?thesis using t(1) cl q_ok_state [OF cl] by blast
qed

lemma sbdrop_loop_spec:
  "q_ok s m rs sb \<Longrightarrow> 0 \<le> len \<Longrightarrow> len \<le> clen (m @ concat rs) \<Longrightarrow>
   \<exists>m' rs' sb' s'. sbdrop_loop m rs len sb s = Inr (m', rs', sb', s') \<and> q_ok s m' rs' sb' \<and> sb_same sb sb'
     \<and> mbytes s (m' @ concat rs') = drop (nat len) (mbytes s (m @ concat rs)) \<and> clen (m' @ concat rs') = clen (m @ concat rs) - len
     \<and> balanced s (m @ concat rs) s' (m' @ concat rs') \<and> length rs' \<le> length rs \<and> mbcnt_of (m' @ concat rs') \<le> mbcnt_of (m @ concat rs)"
proof (induction m rs len sb s rule: sbdrop_loop.induct)
  case (1 len sb s)
  then show ?case by (simp add: sb_same_def balanced_refl)
next
  case (2 r rs len sb s)
  show ?case
  proof (cases "0 < len")
    case False then show ?thesis using 2 by (simp add: sb_same_def balanced_refl)
  next
    case True
    have "q_ok s r rs sb" using 2(2) by (simp add: q_ok_def)
    from 2(1) [OF True this] 2(3,4) obtain m' rs' sb' s' where "sbdrop_loop r rs len sb s = Inr (m', rs', sb', s') \<and> q_ok s m' rs' sb' \<and> sb_same sb sb'
     \<and> mbytes s (m' @ concat rs') = drop (nat len) (mbytes s (r @ concat rs)) \<and> clen (m' @ concat rs') = clen (r @ concat rs) - len
     \<and> balanced s (r @ concat rs) s' (m' @ concat rs') \<and> length rs' \<le> length rs \<and> mbcnt_of (m' @ concat rs') \<le> mbcnt_of (r @ concat rs)" by auto
    then show ?thesis using True by auto
  qed
next
  case (3 m ms rs len sb s)
  have m: "m_ok s m" using 3(2) by (simp add: q_ok_def)
  have ms: "chain_ok s (ms @ concat rs)" using 3(2) by (simp add: q_ok_def)
  consider "len = 0" | "0 < len" "len < m_len m" | "0 < len" "m_len m \<le> len" using 3(3) by linarith
  then show ?case
  proof cases
    case 1 then show ?thesis using 3(2) by (auto simp: sb_same_def balanced_refl)
  next
    case 2
    define m1 where "m1 = m\<lparr>m_len := m_len m - len, m_loc := add_off (nat len) (m_loc m)\<rparr>"
    have e: "m1 = m\<lparr>m_loc := add_off (nat len) (m_loc m), m_len := m_len m - int (nat len)\<rparr>" using 2 by (simp add: m1_def)
    have m1: "m_ok s m1" "mdata s m1 = drop (nat len) (mdata s m)" using drop_mbuf [OF m, of "nat len"] 2 unfolding e by simp_all
    have mc: "mbcost m1 = mbcost m" using 2 m by (cases "m_loc m") (auto simp: mbcost_def m1_def off_past_def m_ok_def)
    have r: "refs [m1] c = refs [m] c" for c unfolding m1_def by (cases "m_loc m") (simp_all add: refs_def)
    have op: "off_past m1 = off_past m"
      using 2 m by (cases "m_loc m") (auto simp: m1_def off_past_def m_ok_def)
    have "q_ok s (m1 # ms) rs (sb\<lparr>sb_cc := sb_cc sb - of_int len\<rparr>)"
      using 3(2) m1(1) 2 op by (simp add: q_ok_def m1_def mbcost_def)
    moreover have "balanced s (m # ms @ concat rs) s (m1 # ms @ concat rs)"
      by (rule balanced_like) (simp_all only: r refs_Cons [of m "ms @ concat rs"] refs_Cons [of m1 "ms @ concat rs"] list.size)
    moreover have "nat len \<le> length (mdata s m)" using 2 m by simp
    ultimately show ?thesis using 2 m1(2) mc by (simp add: sb_same_def m1_def [symmetric]) (simp add: m1_def)
  next
    case 3
    from q_free [OF \<open>q_ok s (m # ms) rs sb\<close>, of "concat rs"] obtain t where t: "m_free m s = Inr t" "cldata t = cldata s"
      "balanced s (m # ms @ concat rs) t (ms @ concat rs)" "q_ok t ms rs (sbfree sb m)" by blast
    note st = same_cldata [OF t(2)]
    have neg: "\<not> len < m_len m" using 3 by simp
    have "len - m_len m \<le> clen (ms @ concat rs)" using \<open>len \<le> clen ((m # ms) @ concat rs)\<close> by simp
    from "3.IH" [OF 3(1) neg t(1,4) _ this] 3(2) obtain m' rs' sb' u where u: "sbdrop_loop ms rs (len - m_len m) (sbfree sb m) t = Inr (m', rs', sb', u)"
      "q_ok s m' rs' sb'" "sb_same (sbfree sb m) sb'"
      "mbytes s (m' @ concat rs') = drop (nat (len - m_len m)) (mbytes s (ms @ concat rs))" "clen (m' @ concat rs') = clen (ms @ concat rs) - (len - m_len m)"
      "balanced t (ms @ concat rs) u (m' @ concat rs')" "length rs' \<le> length rs" "mbcnt_of (m' @ concat rs') \<le> mbcnt_of (ms @ concat rs)"
      unfolding st q_ok_state [OF t(2)] by auto
    have d: "drop (nat len) (mbytes s ((m # ms) @ concat rs)) = drop (nat (len - m_len m)) (mbytes s (ms @ concat rs))"
      using m m_len_nonneg [OF m] 3 by (simp add: nat_diff_distrib)
    show ?thesis
      by (rule exI [of _ m'], rule exI [of _ rs'], rule exI [of _ sb'], rule exI [of _ u])
        (use u t(1) 3 d balanced_trans [OF t(3) u(6)] sb_same_trans [OF sbfree_fields(4) u(3)] mbcost_pos [of m] in auto)
  qed
qed

lemma sbdrop_zero_spec:
  "q_ok s m rs sb \<Longrightarrow>
   \<exists>m' sb' s'. sbdrop_zero m sb s = Inr (m', sb', s') \<and> q_ok s m' rs sb' \<and> sb_same sb sb' \<and> mbytes s m' = mbytes s m
     \<and> balanced s (m @ concat rs) s' (m' @ concat rs) \<and> (clen m = 0 \<longrightarrow> m' = []) \<and> clen m' = clen m \<and> mbcnt_of m' \<le> mbcnt_of m"
proof (induction m arbitrary: sb s)
  case Nil
  then show ?case by (simp add: sb_same_def balanced_refl)
next
  case (Cons m ms sb s)
  have m: "m_ok s m" "chain_ok s ms" using Cons.prems by (simp_all add: q_ok_def)
  show ?case
  proof (cases "m_len m = 0")
    case False
    then have "clen (m # ms) \<noteq> 0" using m m_len_nonneg [OF m(1)] clen_nonneg [OF m(2)] by simp
    then show ?thesis using False Cons.prems by (simp add: sb_same_def balanced_refl)
  next
    case True
    from q_free [OF Cons.prems, of "concat rs"] obtain t where t: "m_free m s = Inr t" "cldata t = cldata s"
      "balanced s (m # ms @ concat rs) t (ms @ concat rs)" "q_ok t ms rs (sbfree sb m)" by blast
    note st = same_cldata [OF t(2)]
    from Cons.IH [OF t(4)] obtain m' sb' u where u: "sbdrop_zero ms (sbfree sb m) t = Inr (m', sb', u)" "q_ok s m' rs sb'" "sb_same (sbfree sb m) sb'"
      "mbytes s m' = mbytes s ms" "balanced t (ms @ concat rs) u (m' @ concat rs)" "clen ms = 0 \<longrightarrow> m' = []"
      "clen m' = clen ms" "mbcnt_of m' \<le> mbcnt_of ms"
      unfolding st q_ok_state [OF t(2)] by blast
    show ?thesis
      by (rule exI [of _ m'], rule exI [of _ sb'], rule exI [of _ u])
        (use u t(1) True balanced_trans [OF t(3) u(5)] sb_same_trans [OF sbfree_fields(4) u(3)] mbcost_pos [of m] in \<open>auto simp: mdata_empty\<close>)
  qed
qed

lemma sbdrop_spec:
  assumes sb: "sb_ok s sb" and len: "0 \<le> len" "len \<le> clen (held sb)"
  shows "\<exists>sb' s'. sbdrop sb len s = Inr (sb', s') \<and> sb_ok s sb' \<and> concat (recs s sb') = drop (nat len) (concat (recs s sb))
     \<and> sb_same sb sb' \<and> balanced s (held sb) s' (held sb') \<and> clen (held sb') = clen (held sb) - len \<and> mbcnt_of (held sb') \<le> mbcnt_of (held sb)
     \<and> (len = clen (held sb) \<longrightarrow> length (sb_mb sb') \<le> length (sb_mb sb) - 1)"
proof -
  obtain m rs where mr: "(case sb_mb sb of [] \<Rightarrow> sbdrop_loop [] [] len sb s | r # rs \<Rightarrow> sbdrop_loop r rs len sb s) = sbdrop_loop m rs len sb s"
    "held sb = m @ concat rs" "q_ok s m rs sb" "length rs = length (sb_mb sb) - 1"
    using sb by (cases "sb_mb sb") (auto simp: held_def q_ok_def sb_ok_def)
  from sbdrop_loop_spec [OF mr(3) len(1)] len(2) mr(2) obtain m1 rs1 sb1 t where
    t: "sbdrop_loop m rs len sb s = Inr (m1, rs1, sb1, t)" "q_ok s m1 rs1 sb1" "sb_same sb sb1"
      "mbytes s (m1 @ concat rs1) = drop (nat len) (mbytes s (held sb))" "clen (m1 @ concat rs1) = clen (held sb) - len"
      "balanced s (held sb) t (m1 @ concat rs1)" "length rs1 \<le> length rs" "mbcnt_of (m1 @ concat rs1) \<le> mbcnt_of (held sb)" by auto
  have cl: "cldata t = cldata s" using t(6) by (rule balanced_cldata)
  have "q_ok t m1 rs1 sb1" using t(2) q_ok_state [OF cl] by simp
  from sbdrop_zero_spec [OF this] obtain m2 sb2 u where
    u: "sbdrop_zero m1 sb1 t = Inr (m2, sb2, u)" "q_ok s m2 rs1 sb2" "sb_same sb1 sb2" "mbytes s m2 = mbytes s m1"
      "balanced t (m1 @ concat rs1) u (m2 @ concat rs1)" "clen m1 = 0 \<longrightarrow> m2 = []" "clen m2 = clen m1" "mbcnt_of m2 \<le> mbcnt_of m1"
    unfolding same_cldata [OF cl] q_ok_state [OF cl] by blast
  define sb' where "sb' = sb2\<lparr>sb_mb := (if m2 = [] then rs1 else m2 # rs1)\<rparr>"
  have "sbdrop sb len s = Inr (sb', u)" unfolding sbdrop_def mr(1) t(1) kbind_simps prod.case u(1) sb'_def ..
  moreover have h: "held sb' = m2 @ concat rs1" by (simp add: held_def sb'_def)
  moreover have "sb_ok s sb'" using u(2) by (auto simp: sb_ok_def q_ok_def sb'_def)
  moreover have "concat (recs s sb') = drop (nat len) (concat (recs s sb))" using h t(4) u(4) by (simp add: concat_recs)
  moreover have "sb_same sb sb'" using sb_same_trans [OF t(3) u(3)] by (simp add: sb_same_def sb'_def)
  moreover have "balanced s (held sb) u (held sb')" using balanced_trans [OF t(6) u(5)] h by simp
  moreover have "clen (held sb') = clen (held sb) - len" "mbcnt_of (held sb') \<le> mbcnt_of (held sb)" using h t(5,8) u(7,8) by simp_all
  moreover have "length (sb_mb sb') \<le> length (sb_mb sb) - 1" if "len = clen (held sb)"
  proof -
    have "chain_ok s m1" "chain_ok s (concat rs1)" using t(2) by (simp_all add: q_ok_def)
    then have "clen m1 = 0" using t(5) that clen_nonneg [of s m1] clen_nonneg [of s "concat rs1"] by simp
    then show ?thesis using u(6) t(7) mr(4) by (simp add: sb'_def)
  qed
  ultimately show ?thesis by blast
qed

lemma sbdrop_all_spec:
  "q_ok s m rs sb \<Longrightarrow> \<exists>sb' s'. sbdrop_all m sb s = Inr (sb', s') \<and> q_ok s [] rs sb' \<and> sb_same sb sb' \<and> sb_mb sb' = sb_mb sb
     \<and> balanced s (m @ concat rs) s' (concat rs)"
proof (induction m arbitrary: sb s)
  case Nil then show ?case by (simp add: sb_same_def balanced_refl)
next
  case (Cons m ms sb s)
  from q_free [OF Cons.prems, of "concat rs"] obtain t where t: "m_free m s = Inr t" "cldata t = cldata s"
    "balanced s (m # ms @ concat rs) t (ms @ concat rs)" "q_ok t ms rs (sbfree sb m)" by blast
  from Cons.IH [OF t(4)] obtain sb' u where u: "sbdrop_all ms (sbfree sb m) t = Inr (sb', u)" "q_ok s [] rs sb'" "sb_same (sbfree sb m) sb'"
    "sb_mb sb' = sb_mb (sbfree sb m)" "balanced t (ms @ concat rs) u (concat rs)" unfolding q_ok_state [OF t(2)] by blast
  then show ?case using t(1) balanced_trans [OF t(3) u(5)] sb_same_trans [OF sbfree_fields(4) u(3)] by auto
qed

lemma sbdroprecord_spec:
  assumes sb: "sb_ok s sb"
  shows "\<exists>sb' s'. sbdroprecord sb s = Inr (sb', s') \<and> sb_ok s sb' \<and> recs s sb' = tl (recs s sb) \<and> sb_same sb sb'
     \<and> balanced s (held sb) s' (held sb')"
proof (cases "sb_mb sb")
  case Nil then show ?thesis using sb by (simp add: sbdroprecord_def recs_def sb_same_def balanced_refl)
next
  case (Cons r rs)
  have "q_ok s r rs (sb\<lparr>sb_mb := rs\<rparr>)" using sb Cons by (simp add: sb_ok_def q_ok_def)
  from sbdrop_all_spec [OF this] obtain sb' t where t: "sbdrop_all r (sb\<lparr>sb_mb := rs\<rparr>) s = Inr (sb', t)" "q_ok s [] rs sb'"
    "sb_same (sb\<lparr>sb_mb := rs\<rparr>) sb'" "sb_mb sb' = rs" "balanced s (r @ concat rs) t (concat rs)" by auto
  then show ?thesis using Cons by (simp add: sbdroprecord_def recs_def held_def sb_ok_def q_ok_def sb_same_def)
qed

section \<open>Flushing\<close>

text \<open>Both counters are exact, not only modulo \<open>2 ^ 16\<close>.\<close>

definition sb_small :: "sockbuf \<Rightarrow> bool" where
  "sb_small sb \<longleftrightarrow> clen (held sb) < 2 ^ 16 \<and> mbcnt_of (held sb) < 2 ^ 16"

lemma mbcnt_nonneg: "0 \<le> mbcnt_of ms" "mbcnt_of ms = 0 \<longleftrightarrow> ms = []"
proof -
  show nn: "0 \<le> mbcnt_of ms" for ms by (induction ms) (use mbcost_pos in \<open>auto intro: add_nonneg_nonneg less_imp_le\<close>)
  show "mbcnt_of ms = 0 \<longleftrightarrow> ms = []"
  proof (cases ms)
    case (Cons m ms') then show ?thesis using mbcost_pos [of m] nn [of ms'] by simp
  qed simp
qed

lemma of_int_small: "0 \<le> i \<Longrightarrow> i < 2 ^ 16 \<Longrightarrow> uint (of_int i :: 16 word) = i"
  by (simp add: unsigned_of_int take_bit_int_eq_self)

lemma sb_small_counts:
  assumes "sb_ok s sb" "sb_small sb"
  shows "uint (sb_cc sb) = clen (held sb)" "sb_mbcnt sb = 0 \<longleftrightarrow> sb_mb sb = []"
proof -
  have c: "0 \<le> clen (held sb)" using assms(1) clen_nonneg by (auto simp: sb_ok_def held_def)
  then show "uint (sb_cc sb) = clen (held sb)" using of_int_small assms by (simp add: sb_ok_def sb_small_def held_def)
  have "uint (sb_mbcnt sb) = mbcnt_of (held sb)" using of_int_small mbcnt_nonneg(1) assms by (simp add: sb_ok_def sb_small_def held_def)
  moreover have "held sb = [] \<longleftrightarrow> sb_mb sb = []" using assms(1) by (cases "sb_mb sb") (auto simp: held_def sb_ok_def)
  ultimately show "sb_mbcnt sb = 0 \<longleftrightarrow> sb_mb sb = []" using mbcnt_nonneg(2) [of "held sb"] by (simp add: uint_0_iff [symmetric])
qed

lemma flush_loop_spec:
  "sb_ok s sb \<Longrightarrow> sb_small sb \<Longrightarrow> length (sb_mb sb) \<le> fuel \<Longrightarrow>
   \<exists>sb' s'. sbflush_loop fuel sb s = Some (Inr (sb', s')) \<and> sb_ok s sb' \<and> sb_mb sb' = [] \<and> sb_same sb sb' \<and> balanced s (held sb) s' []"
proof (induction fuel arbitrary: sb s)
  case 0
  then show ?case using sb_small_counts(2) [of s sb] by (simp add: sb_same_def balanced_refl held_def)
next
  case (Suc fuel sb s)
  note c = sb_small_counts [OF Suc.prems(1,2)]
  show ?case
  proof (cases "sb_mbcnt sb = 0")
    case True then show ?thesis using Suc.prems c(2) by (simp add: sb_same_def balanced_refl held_def)
  next
    case False
    have nn: "0 \<le> clen (held sb)" using c(1) by (metis uint_nonnegative)
    from sbdrop_spec [OF Suc.prems(1) nn order.refl] obtain sb1 t where t: "sbdrop sb (clen (held sb)) s = Inr (sb1, t)" "sb_ok s sb1"
      "sb_same sb sb1" "balanced s (held sb) t (held sb1)" "length (sb_mb sb1) \<le> length (sb_mb sb) - 1"
      "clen (held sb1) = 0" "mbcnt_of (held sb1) \<le> mbcnt_of (held sb)" by auto
    have cl: "cldata t = cldata s" using t(4) by (rule balanced_cldata)
    have "sb_small sb1" using Suc.prems(2) t(6,7) by (simp add: sb_small_def)
    moreover have "sb_ok t sb1" using t(2) sb_ok_state [OF cl] by simp
    moreover have "length (sb_mb sb1) \<le> fuel" using t(5) Suc.prems(3) by simp
    ultimately obtain sb' u where u: "sbflush_loop fuel sb1 t = Some (Inr (sb', u))" "sb_ok s sb'" "sb_mb sb' = []" "sb_same sb1 sb'"
      "balanced t (held sb1) u []" using Suc.IH [of t sb1] sb_ok_state [OF cl] by auto
    then show ?thesis using False t(1) c(1) sb_same_trans [OF t(3) u(4)] balanced_trans [OF t(4) u(5)] by simp
  qed
qed

lemma sbflush_spec:
  assumes sb: "sb_ok s sb" "sb_small sb" and lock: "sb_flags sb AND SB_LOCK = 0" and fuel: "length (sb_mb sb) \<le> fuel"
  shows "\<exists>sb' s'. sbflush fuel sb s = Some (Inr (sb', s')) \<and> sb_cc sb' = 0 \<and> sb_mbcnt sb' = 0 \<and> sb_mb sb' = [] \<and> sb_same sb sb'
     \<and> balanced s (held sb) s' []"
proof -
  from flush_loop_spec [OF sb fuel] obtain sb' u where u: "sbflush_loop fuel sb s = Some (Inr (sb', u))" "sb_ok s sb'" "sb_mb sb' = []"
    "sb_same sb sb'" "balanced s (held sb) u []" by blast
  have "sb_cc sb' = 0" "sb_mbcnt sb' = 0" using u(2,3) by (simp_all add: sb_ok_def)
  then show ?thesis using u lock by (simp add: sbflush_def)
qed

section \<open>Address and rights\<close>

text \<open>A copy of no more than the first mbuf is one mbuf.\<close>

lemma m_copy_single:
  assumes r: "m_ok s r" "0 < m_len r" and st: "st_ok s"
  shows "\<exists>n s'. m_copy (r # rs) 0 (m_len r) s = Inr (n, s') \<and> balanced s [] s' n \<and> (n = [] \<or> (\<exists>q. n = [q] \<and> m_ok s q \<and> mdata s q = mdata s r \<and> m_len q = m_len r))"
proof -
  have M: "m_len r \<noteq> M_COPYALL" using r by (auto simp: m_ok_def M_COPYALL_def)
  obtain x t where g: "m_get False (m_type r) s = Inr (x, t)" "case x of None \<Rightarrow> avail s = 0 \<and> balanced s [] t []
      | Some n \<Rightarrow> balanced s [] t [n] \<and> m_loc n = Dat MMINOFF \<and> m_type n = m_type r \<and> m_dat n = junk s"
    using m_get_spec [of "m_type r" s] by blast
  show ?thesis
  proof (cases x)
    case None
    then show ?thesis using g r M by (auto simp: m_copy_def)
  next
    case (Some n)
    define n1 where "n1 = n\<lparr>m_len := m_len r\<rparr>"
    have b: "balanced s [] t [n]" and n: "m_loc n = Dat MMINOFF" "m_type n = m_type r" "m_dat n = junk s" using g(2) Some by auto
    note st' = same_cldata [OF balanced_cldata [OF b]]
    have "\<exists>n' s'. copy_one r n1 0 t = Inr (n', s') \<and> m_ok t n' \<and> mdata t n' = take (nat (m_len n1)) (drop 0 (mdata t r))
      \<and> m_len n' = m_len n1 \<and> balanced t [n1] s' [n']"
    proof (rule copy_one_spec)
      show "m_ok t r" using r st' by simp
      show "int 0 + m_len n1 \<le> m_len r" "0 \<le> m_len n1" using r by (simp_all add: n1_def)
      show "m_loc n1 = Dat MMINOFF" "length (m_dat n1) = nat MLEN" using n st by (simp_all add: n1_def st_ok_def)
      show "m_type n1 \<noteq> MT_FREE" using n r by (simp add: n1_def m_ok_def)
    qed
    then obtain q u where q: "copy_one r n1 0 t = Inr (q, u)" "m_ok s q" "mdata s q = take (nat (m_len r)) (mdata s r)" "m_len q = m_len r"
      "balanced t [n1] u [q]" unfolding st' by (auto simp: n1_def)
    have "balanced s [] t [n1]" using b by (simp add: balanced_def n1_def)
    then have "balanced s [] u [q]" using balanced_trans q(5) by blast
    moreover have "copy_loop rs 0 0 [q] u = Inr (True, [q], u)" by (cases rs) simp_all
    then have "m_copy (r # rs) 0 (m_len r) s = Inr ([q], u)" using g(1) Some r M q(1,4) by (simp add: m_copy_def n1_def)
    moreover have "mdata s q = mdata s r" using q(3) r(1) by simp
    ultimately show ?thesis using q(2,4) by blast
  qed
qed

lemma sbappendaddr_spec:
  assumes sb: "sb_ok s sb" and st: "st_ok s" and asa: "length asa \<le> nat MLEN" and m0: "chain_ok s m0"
    and rights: "chain_ok s rights" "length rights \<le> 1"
  shows "\<exists>ok sb' s'. sbappendaddr sb asa m0 rights s = Inr (ok, sb', s') \<and>
    (if ok then sb_ok s sb' \<and> recs s sb' = recs s sb @ [asa @ mbytes s rights @ mbytes s m0] \<and> sb_same sb sb' \<and> balanced s (held sb @ m0) s' (held sb')
     else sb' = sb \<and> balanced s [] s' []) \<and> (ok \<longrightarrow> int (length asa) + clen m0 + clen rights \<le> sbspace sb)"
proof -
  define space where "space = int (length asa) + sum_list (map m_len m0) + (case rights of [] \<Rightarrow> 0 | r # _ \<Rightarrow> m_len r)"
  have sp: "space = int (length asa) + clen m0 + clen rights" using rights(2) by (cases rights) (simp_all add: space_def clen_def)
  show ?thesis
  proof (cases "sbspace sb < space")
    case True
    then show ?thesis by (intro exI [of _ False]) (simp add: sbappendaddr_def space_def Let_def balanced_refl)
  next
    case room: False
    obtain x t where g: "m_get False MT_SONAME s = Inr (x, t)" "case x of None \<Rightarrow> avail s = 0 \<and> balanced s [] t []
      | Some n \<Rightarrow> balanced s [] t [n] \<and> m_loc n = Dat MMINOFF \<and> m_type n = MT_SONAME \<and> m_dat n = junk s"
      using m_get_spec [of MT_SONAME s] by blast
    show ?thesis
    proof (cases x)
      case None
      then show ?thesis using g room by (intro exI [of _ False]) (simp add: sbappendaddr_def space_def Let_def)
    next
      case (Some n)
      then have b: "balanced s [] t [n]" and n: "m_loc n = Dat MMINOFF" "m_type n = MT_SONAME" "m_dat n = junk s" using g(2) by auto
      have dl: "length (m_dat n) = nat MLEN" using n st by (simp add: st_ok_def)
      have fit: "MMINOFF + 0 + length asa \<le> MMAXOFF" using asa by (simp add: mbuf_consts)
      from put_dat_spec [OF n(1) order.refl fit dl] obtain d where d: "put_dat n 0 asa = Inr (n\<lparr>m_dat := d\<rparr>)" "length d = nat MLEN" "take (length asa) d = asa" by auto
      define m where "m = n\<lparr>m_dat := d, m_len := int (length asa)\<rparr>"
      have m: "m_ok s m" "mdata s m = asa" using asa n d by (simp_all add: m_def m_ok_def mbuf_consts mdata_def MT_SONAME_def)
      note st' = same_cldata [OF balanced_cldata [OF b]]
      have bm: "balanced s [] t [m]" using b by (simp add: balanced_def m_def)
      have "\<exists>r u. (if rights \<noteq> [] \<and> m_len (hd rights) \<noteq> 0
             then kbind (m_copy rights 0 (m_len (hd rights)) t) (\<lambda>(r, s). Inr (if r = [] then None else Some r, s))
             else Inr (Some [], t)) = Inr (r, u) \<and> (case r of None \<Rightarrow> balanced t [] u []
               | Some r \<Rightarrow> balanced t [] u r \<and> chain_ok s r \<and> length r \<le> 1 \<and> mbytes s r = mbytes s rights)"
      proof (cases "rights \<noteq> [] \<and> m_len (hd rights) \<noteq> 0")
        case True
        then obtain r where r: "rights = [r]" "m_len r \<noteq> 0" using rights(2) by (cases rights) auto
        have "m_ok t r" "0 < m_len r" using r rights(1) m_len_nonneg [of s r] st' by auto
        from m_copy_single [OF this] obtain q u where "m_copy [r] 0 (m_len r) t = Inr (q, u)" "balanced t [] u q"
          "q = [] \<or> (\<exists>p. q = [p] \<and> m_ok s p \<and> mdata s p = mdata s r \<and> m_len p = m_len r)"
          using st st_ok_balanced [OF b] unfolding st' by blast
        then show ?thesis using r by auto
      next
        case False
        then have "mbytes s rights = []" using rights(2) by (cases rights) (auto simp: mdata_empty)
        then show ?thesis using False by (auto simp: balanced_refl)
      qed
      then obtain r u where r: "(if rights \<noteq> [] \<and> m_len (hd rights) \<noteq> 0
             then kbind (m_copy rights 0 (m_len (hd rights)) t) (\<lambda>(r, s). Inr (if r = [] then None else Some r, s))
             else Inr (Some [], t)) = Inr (r, u)" "case r of None \<Rightarrow> balanced t [] u []
               | Some r \<Rightarrow> balanced t [] u r \<and> chain_ok s r \<and> length r \<le> 1 \<and> mbytes s r = mbytes s rights" by blast
      have run: "sbappendaddr sb asa m0 rights s = (case r of
              None \<Rightarrow> kbind (m_freem [m] u) (\<lambda>s. Inr (False, sb, s))
            | Some r \<Rightarrow>
                let sb = (if r = [] then sb else sballoc sb (hd r)); sb = sballoc sb m; sb = sb\<lparr>sb_mb := sb_mb sb @ [m # r]\<rparr> in
                kbind (if m0 = [] then Inr (sb, u) else sbcompress sb m0 u) (\<lambda>(sb, s). Inr (True, sb, s)))"
        unfolding sbappendaddr_def space_def [symmetric] Let_def if_not_P [OF room] g(1) Some kbind_simps prod.case option.case d(1) m_def
        using r(1) by simp
      show ?thesis
      proof (cases r)
        case None
        obtain v where v: "m_freem [m] u = Inr v" "balanced u [m] v []" using m_freem_spec [of "[m]" u] m(1) by (auto simp: m_ok_def)
        have "balanced s [] u [m]" using balanced_trans [OF bm] balanced_frame [of t "[]" u "[]" "[m]"] r(2) None by auto
        then have "balanced s [] v []" using v(2) by (rule balanced_trans)
        then show ?thesis using run None v(1) by (intro exI [of _ False]) simp
      next
        case (Some q)
        then have q: "balanced t [] u q" "chain_ok s q" "length q \<le> 1" "mbytes s q = mbytes s rights" using r(2) by auto
        define sb1 where "sb1 = (let sb = (if q = [] then sb else sballoc sb (hd q)); sb = sballoc sb m in sb\<lparr>sb_mb := sb_mb sb @ [m # q]\<rparr>)"
        have same: "sb_same sb sb1" unfolding sb1_def sb_same_def by (simp add: Let_def sballoc_def)
        have q1: "sb_cc sb1 = sb_cc sb + of_int (clen (m # q))" "sb_mbcnt sb1 = sb_mbcnt sb + of_int (mbcnt_of (m # q))" "sb_mb sb1 = sb_mb sb @ [m # q]"
          using q(3) by (cases q; simp add: sb1_def Let_def)+
        have mq: "chain_ok s (m # q)" using m q by simp
        note k = sb_newrec_spec [OF sb mq _ q1(3,1,2), simplified]
        have "balanced s [] u (m # q)" using balanced_trans [OF bm] balanced_frame' [OF q(1), of "[m]"] by simp
        then have bu: "balanced s (held sb) u (held sb1)" using balanced_frame' [of s "[]" u "m # q" "held sb"] k(3) by simp
        have cl: "cldata u = cldata s" using bu by (rule balanced_cldata)
        have "sb_ok u sb1" "chain_ok u m0" using k(1) sb_ok_state [OF cl] m0 same_cldata [OF cl] by simp_all
        from sbcompress_spec [OF this] obtain sb' v where v: "sbcompress sb1 m0 u = Inr (sb', v)" "sb_ok s sb'"
          "recs s sb' = app_rec (recs s sb1) (mbytes s m0)" "sb_same sb1 sb'" "balanced u (held sb1 @ m0) v (held sb')"
          unfolding sb_ok_state [OF cl] recs_state [OF cl] same_cldata [OF cl] by blast
        have sb1e: "(sballoc (if q = [] then sb else sballoc sb (hd q)) m)\<lparr>sb_mb := sb_mb (sballoc (if q = [] then sb else sballoc sb (hd q)) m) @ [m # q]\<rparr> = sb1"
          by (simp only: sb1_def Let_def)
        have "sbappendaddr sb asa m0 rights s = kbind (if m0 = [] then Inr (sb1, u) else sbcompress sb1 m0 u) (\<lambda>(sb, s). Inr (True, sb, s))"
          using run unfolding Some option.case Let_def sb1e .
        then have "sbappendaddr sb asa m0 rights s = Inr (True, sb', v)" using v(1) by (cases "m0 = []") simp_all
        moreover have "balanced s (held sb @ m0) v (held sb')" using balanced_trans [OF balanced_frame [OF bu] v(5)] .
        ultimately show ?thesis using v(2,3) k(2) q(4) m(2) sb_same_trans [OF same v(4)] room sp by (intro exI [of _ True]) (simp add: app_rec_snoc)
      qed
    qed
  qed
qed

section \<open>Streams\<close>

text \<open>A client of a byte stream puts chunks in at one end and takes counted bytes out at the other.
  The laws of one \<open>put\<close> and one \<open>get\<close> give the behaviour of every history of them.\<close>

datatype 'm stream_op = Put 'm | Get nat

fun stream_run :: "('m \<Rightarrow> 's \<Rightarrow> 's kern) \<Rightarrow> (nat \<Rightarrow> 's \<Rightarrow> 's kern) \<Rightarrow> 'm stream_op list \<Rightarrow> 's \<Rightarrow> 's kern" where
  "stream_run put get [] s = Inr s"
| "stream_run put get (Put m # ops) s = kbind (put m s) (stream_run put get ops)"
| "stream_run put get (Get n # ops) s = kbind (get n s) (stream_run put get ops)"

fun bytes_in :: "('m \<Rightarrow> 'a list) \<Rightarrow> 'm stream_op list \<Rightarrow> 'a list" where
  "bytes_in val [] = []"
| "bytes_in val (Put m # ops) = val m @ bytes_in val ops"
| "bytes_in val (Get n # ops) = bytes_in val ops"

fun count_out :: "'m stream_op list \<Rightarrow> nat" where
  "count_out [] = 0"
| "count_out (Put m # ops) = count_out ops"
| "count_out (Get n # ops) = n + count_out ops"

text \<open>No \<open>Get\<close> asks for more than is there, and every chunk is fit for the stream.\<close>

fun stream_fits :: "('m \<Rightarrow> bool) \<Rightarrow> ('m \<Rightarrow> 'a list) \<Rightarrow> nat \<Rightarrow> 'm stream_op list \<Rightarrow> bool" where
  "stream_fits good val k [] = True"
| "stream_fits good val k (Put m # ops) = (good m \<and> stream_fits good val (k + length (val m)) ops)"
| "stream_fits good val k (Get n # ops) = (n \<le> k \<and> stream_fits good val (k - n) ops)"

locale byte_stream =
  fixes ok :: "'s \<Rightarrow> bool" and content :: "'s \<Rightarrow> 'a list" and good :: "'s \<Rightarrow> 'm \<Rightarrow> bool" and val :: "'s \<Rightarrow> 'm \<Rightarrow> 'a list"
    and put :: "'m \<Rightarrow> 's \<Rightarrow> 's kern" and get :: "nat \<Rightarrow> 's \<Rightarrow> 's kern"
  assumes put_law: "ok s \<Longrightarrow> good s m \<Longrightarrow>
      \<exists>t. put m s = Inr t \<and> ok t \<and> content t = content s @ val s m \<and> good t = good s \<and> val t = val s"
    and get_law: "ok s \<Longrightarrow> n \<le> length (content s) \<Longrightarrow>
      \<exists>t. get n s = Inr t \<and> ok t \<and> content t = drop n (content s) \<and> good t = good s \<and> val t = val s"
begin

lemma stream_spec:
  "ok s \<Longrightarrow> stream_fits (good s) (val s) (length (content s)) ops \<Longrightarrow>
   \<exists>t. stream_run put get ops s = Inr t \<and> ok t \<and> content t = drop (count_out ops) (content s @ bytes_in (val s) ops)"
proof (induction ops arbitrary: s)
  case Nil
  then show ?case by simp
next
  case (Cons a ops s)
  show ?case
  proof (cases a)
    case (Put m)
    with Cons.prems obtain t where t: "put m s = Inr t" "ok t" "content t = content s @ val s m" "good t = good s" "val t = val s"
      using put_law [of s m] by auto
    with Cons.IH [of t] Cons.prems Put show ?thesis by simp
  next
    case (Get n)
    with Cons.prems obtain t where t: "get n s = Inr t" "ok t" "content t = drop n (content s)" "good t = good s" "val t = val s"
      using get_law [of s n] by auto
    with Cons.IH [of t] Cons.prems Get show ?thesis by (auto simp: add.commute)
  qed
qed

end

text \<open>A socket buffer with its mbuf pool, filled by \<open>sbappend\<close> or record by record, is such a stream.\<close>

definition sbs_ok :: "sockbuf \<times> mbst \<Rightarrow> bool" where "sbs_ok x = sb_ok (snd x) (fst x)"
definition sbs_content :: "sockbuf \<times> mbst \<Rightarrow> byte list" where "sbs_content x = concat (recs (snd x) (fst x))"
definition sbs_good :: "sockbuf \<times> mbst \<Rightarrow> chain \<Rightarrow> bool" where "sbs_good x m \<longleftrightarrow> chain_ok (snd x) m \<and> m \<noteq> []"
definition sbs_val :: "sockbuf \<times> mbst \<Rightarrow> chain \<Rightarrow> byte list" where "sbs_val x = mbytes (snd x)"
definition sbs_append :: "chain \<Rightarrow> sockbuf \<times> mbst \<Rightarrow> (sockbuf \<times> mbst) kern" where "sbs_append m x = sbappend (fst x) m (snd x)"
definition sbs_record :: "chain \<Rightarrow> sockbuf \<times> mbst \<Rightarrow> (sockbuf \<times> mbst) kern" where "sbs_record m x = sbappendrecord (fst x) m (snd x)"
definition sbs_drop :: "nat \<Rightarrow> sockbuf \<times> mbst \<Rightarrow> (sockbuf \<times> mbst) kern" where "sbs_drop n x = sbdrop (fst x) (int n) (snd x)"

lemmas sbs_defs = sbs_ok_def sbs_content_def sbs_good_def sbs_val_def sbs_append_def sbs_record_def sbs_drop_def

lemma concat_app_rec: "concat (app_rec rs d) = concat rs @ d"
  by (cases rs rule: rev_cases) (simp_all add: app_rec_def)

text \<open>The facts about a step that do not depend on which operation it was.\<close>

lemma sbs_step:
  assumes "balanced s xs t ys" "sb_ok s sb'"
  shows "sbs_ok (sb', t)" "sbs_content (sb', t) = concat (recs s sb')"
proof -
  have cl: "cldata t = cldata s" using assms(1) by (rule balanced_cldata)
  show "sbs_ok (sb', t)" "sbs_content (sb', t) = concat (recs s sb')" using assms(2) by (simp_all add: sbs_defs sb_ok_state [OF cl] recs_state [OF cl])
qed

lemma sbs_same_chunks:
  assumes "balanced s xs t ys"
  shows "sbs_good (sb', t) = sbs_good (sb, s)" "sbs_val (sb', t) = sbs_val (sb, s)"
proof -
  have cl: "cldata t = cldata s" using assms by (rule balanced_cldata)
  show "sbs_good (sb', t) = sbs_good (sb, s)" "sbs_val (sb', t) = sbs_val (sb, s)" by (auto simp: fun_eq_iff sbs_defs same_cldata [OF cl])
qed

lemma sbs_drop_law:
  assumes "sbs_ok x" "n \<le> length (sbs_content x)"
  shows "\<exists>t. sbs_drop n x = Inr t \<and> sbs_ok t \<and> sbs_content t = drop n (sbs_content x) \<and> sbs_good t = sbs_good x \<and> sbs_val t = sbs_val x"
proof -
  obtain sb s where x: "x = (sb, s)" by fastforce
  have sb: "sb_ok s sb" using assms(1) by (simp add: sbs_defs x)
  have c: "chain_ok s (held sb)" using sb by (simp add: sb_ok_def held_def)
  have "int n \<le> clen (held sb)" using assms(2) mbytes_length [OF c] clen_nonneg [OF c] by (simp add: sbs_defs x concat_recs)
  from sbdrop_spec [OF sb _ this] obtain sb' t where t: "sbdrop sb (int n) s = Inr (sb', t)" "sb_ok s sb'"
    "concat (recs s sb') = drop n (concat (recs s sb))" "balanced s (held sb) t (held sb')" by auto
  then show ?thesis using sbs_step [OF t(4,2)] sbs_same_chunks [OF t(4), of sb' sb] by (auto simp: x sbs_drop_def) (simp add: sbs_content_def)
qed

interpretation sba: byte_stream sbs_ok sbs_content sbs_good sbs_val sbs_append sbs_drop
proof unfold_locales
  fix x m assume a: "sbs_ok x" "sbs_good x m"
  obtain sb s where x: "x = (sb, s)" by fastforce
  from a have "sb_ok s sb" "chain_ok s m" by (simp_all add: sbs_defs x)
  from sbappend_spec [OF this] obtain sb' t where t: "sbappend sb m s = Inr (sb', t)" "sb_ok s sb'" "recs s sb' = app_rec (recs s sb) (mbytes s m)"
    "balanced s (held sb @ m) t (held sb')" by blast
  then show "\<exists>t. sbs_append m x = Inr t \<and> sbs_ok t \<and> sbs_content t = sbs_content x @ sbs_val x m \<and> sbs_good t = sbs_good x \<and> sbs_val t = sbs_val x"
    using sbs_step [OF t(4,2)] sbs_same_chunks [OF t(4), of sb' sb] by (auto simp: x sbs_append_def concat_app_rec) (simp add: sbs_content_def sbs_val_def)
qed (rule sbs_drop_law)

interpretation sbr: byte_stream sbs_ok sbs_content sbs_good sbs_val sbs_record sbs_drop
proof unfold_locales
  fix x m assume a: "sbs_ok x" "sbs_good x m"
  obtain sb s where x: "x = (sb, s)" by fastforce
  from a have "sb_ok s sb" "chain_ok s m" "m \<noteq> []" by (simp_all add: sbs_defs x)
  from sbappendrecord_spec [OF this] obtain sb' t where t: "sbappendrecord sb m s = Inr (sb', t)" "sb_ok s sb'" "recs s sb' = recs s sb @ [mbytes s m]"
    "balanced s (held sb @ m) t (held sb')" by blast
  then show "\<exists>t. sbs_record m x = Inr t \<and> sbs_ok t \<and> sbs_content t = sbs_content x @ sbs_val x m \<and> sbs_good t = sbs_good x \<and> sbs_val t = sbs_val x"
    using sbs_step [OF t(4,2)] sbs_same_chunks [OF t(4), of sb' sb] by (auto simp: x sbs_record_def) (simp add: sbs_content_def sbs_val_def)
qed (rule sbs_drop_law)

section \<open>Properties\<close>

definition demo_sb :: sockbuf where
  "demo_sb = sb_empty\<lparr>sb_hiwat := 100, sb_mbmax := 4000\<rparr>"

lemma demo_sb_ok: "sb_ok demo_pool demo_sb" "held demo_sb = []" "recs demo_pool demo_sb = []" "sb_mb demo_sb = []" "sb_flags demo_sb = 0"
  by (simp_all add: sb_ok_def demo_sb_def sb_empty_def held_def recs_def)

text \<open>C26. A socket buffer is a stream of bytes: whatever chains \<open>sbappend\<close> adds and however many
  bytes \<open>sbdrop\<close> takes off in between, nothing panics, the invariant (well-formed mbufs, the
  16 bit counters equal to the contents modulo \<open>2 ^ 16\<close>, exactly while \<open>sb_small\<close>) holds, and what is left is what was put in, in order, less the bytes that were taken.\<close>

theorem sockbuf_stream:
  assumes "sb_ok s sb" "stream_fits (\<lambda>m. chain_ok s m \<and> m \<noteq> []) (mbytes s) (length (concat (recs s sb))) ops"
  shows "\<exists>sb' t. stream_run sbs_append sbs_drop ops (sb, s) = Inr (sb', t) \<and> sb_ok t sb'
    \<and> concat (recs t sb') = drop (count_out ops) (concat (recs s sb) @ bytes_in (mbytes s) ops)"
proof -
  have g: "sbs_good (sb, s) = (\<lambda>m. chain_ok s m \<and> m \<noteq> [])" "sbs_val (sb, s) = mbytes s" by (auto simp: sbs_defs)
  show ?thesis using sba.stream_spec [of "(sb, s)" ops] assms unfolding g by (auto simp: sbs_ok_def sbs_content_def)
qed

theorem sockbuf_stream_witness:
  "\<exists>sb' t. stream_run sbs_append sbs_drop [Put demo_chain, Get 3, Put demo_chain, Get 5] (demo_sb, demo_pool) = Inr (sb', t) \<and> sb_ok t sb'
    \<and> concat (recs t sb') = drop (count_out [Put demo_chain, Get 3, Put demo_chain, Get 5])
         (concat (recs demo_pool demo_sb) @ bytes_in (mbytes demo_pool) [Put demo_chain, Get 3, Put demo_chain, Get 5])"
proof (rule sockbuf_stream)
  show "sb_ok demo_pool demo_sb" by (rule demo_sb_ok)
  have "length (mbytes demo_pool demo_chain) = 7" using mbytes_length [OF demo_mbufs(2)] demo_mbufs(4) by simp
  then show "stream_fits (\<lambda>m. chain_ok demo_pool m \<and> m \<noteq> []) (mbytes demo_pool) (length (concat (recs demo_pool demo_sb)))
      [Put demo_chain, Get 3, Put demo_chain, Get 5]" by (simp add: demo_sb_ok demo_mbufs)
qed

text \<open>C27. \<open>sbappendaddr\<close> adds one record, the address, the rights and the data, when it reports
  success, which takes enough space in the buffer; otherwise the buffer and the pool are as before.\<close>

theorem sbappendaddr_one_record:
  assumes "sb_ok s sb" "st_ok s" "length asa \<le> nat MLEN" "chain_ok s m0" "chain_ok s rights" "length rights \<le> 1"
  shows "\<exists>ok sb' s'. sbappendaddr sb asa m0 rights s = Inr (ok, sb', s') \<and>
    (if ok then sb_ok s sb' \<and> recs s sb' = recs s sb @ [asa @ mbytes s rights @ mbytes s m0] \<and> sb_same sb sb' \<and> balanced s (held sb @ m0) s' (held sb')
     else sb' = sb \<and> balanced s [] s' []) \<and> (ok \<longrightarrow> int (length asa) + clen m0 + clen rights \<le> sbspace sb)"
  using sbappendaddr_spec [OF assms] .

theorem sbappendaddr_one_record_witness:
  "\<exists>ok sb' s'. sbappendaddr demo_sb (replicate 16 1) demo_chain [hd demo_chain] demo_pool = Inr (ok, sb', s') \<and>
    (if ok then sb_ok demo_pool sb' \<and> recs demo_pool sb' = recs demo_pool demo_sb @ [replicate 16 1 @ mbytes demo_pool [hd demo_chain] @ mbytes demo_pool demo_chain]
        \<and> sb_same demo_sb sb' \<and> balanced demo_pool (held demo_sb @ demo_chain) s' (held sb')
     else sb' = demo_sb \<and> balanced demo_pool [] s' []) \<and> (ok \<longrightarrow> int (length (replicate 16 (1 :: byte))) + clen demo_chain + clen [hd demo_chain] \<le> sbspace demo_sb)"
proof (rule sbappendaddr_one_record)
  show "chain_ok demo_pool [hd demo_chain]" using demo_mbufs(1,2) by (simp add: chain_ok_def)
qed (simp_all add: demo_sb_ok demo_mbufs mbuf_consts)

text \<open>\<open>sbflush\<close> comes to an end, after at most one turn per record, with an empty buffer, both
  counters zero and every mbuf back in the pool, if the buffer holds less than 64K of data and of mbufs.\<close>

theorem sbflush_terminates:
  assumes "sb_ok s sb" "sb_small sb" "sb_flags sb AND SB_LOCK = 0"
  shows "\<exists>sb' s'. sbflush (length (sb_mb sb)) sb s = Some (Inr (sb', s')) \<and> sb_cc sb' = 0 \<and> sb_mbcnt sb' = 0 \<and> sb_mb sb' = [] \<and> sb_same sb sb'
     \<and> balanced s (held sb) s' []"
  using sbflush_spec [OF assms order.refl] .

definition demo_sb2 :: sockbuf where
  "demo_sb2 = demo_sb\<lparr>sb_mb := [demo_chain, demo_chain], sb_cc := 14, sb_mbcnt := 2816\<rparr>"

theorem sbflush_terminates_witness:
  "\<exists>sb' s'. sbflush (length (sb_mb demo_sb2)) demo_sb2 demo_pool = Some (Inr (sb', s')) \<and> sb_cc sb' = 0 \<and> sb_mbcnt sb' = 0 \<and> sb_mb sb' = []
     \<and> sb_same demo_sb2 sb' \<and> balanced demo_pool (held demo_sb2) s' []"
proof (rule sbflush_terminates)
  have m: "mbcnt_of demo_chain = 1408" by (simp add: demo_chain_def demo_mb_def mbcost_def off_past_def mbuf_consts)
  show "sb_ok demo_pool demo_sb2" using demo_mbufs m by (auto simp: sb_ok_def demo_sb2_def)
  show "sb_small demo_sb2" using demo_mbufs(4) m by (simp add: sb_small_def held_def demo_sb2_def)
qed (simp add: demo_sb2_def demo_sb_def sb_empty_def)

text \<open>\<open>sbreserve\<close> succeeds exactly for sizes from 0 to 52428, and then the limits it sets are the
  size asked for and the smaller of twice that and 65535, without wrapping.\<close>

theorem sbreserve_bounds:
  assumes "- (2 ^ 31) \<le> cc" "cc < 2 ^ 31"
  shows "(if 0 \<le> cc \<and> cc \<le> 52428 then fst (sbreserve sb cc) \<and> uint (sb_hiwat (snd (sbreserve sb cc))) = cc
      \<and> uint (sb_mbmax (snd (sbreserve sb cc))) = min (2 * cc) 65535
    else \<not> fst (sbreserve sb cc) \<and> snd (sbreserve sb cc) = sb)"
proof (cases "0 \<le> cc")
  case True
  have "cc mod 2 ^ 32 = cc" using True assms by simp
  then show ?thesis using True of_int_small [of cc] of_int_small [of "min (2 * cc) 65535"]
    by (auto simp: sbreserve_def SB_MAX_def mbuf_consts mult.commute)
next
  case False
  have "cc mod 2 ^ 32 = (cc + 2 ^ 32) mod 2 ^ 32" by simp
  also have "\<dots> = cc + 2 ^ 32" using False assms by (intro mod_pos_pos_trivial) simp_all
  finally show ?thesis using False assms by (simp add: sbreserve_def SB_MAX_def mbuf_consts)
qed

theorem sbreserve_bounds_witness:
  "(if 0 \<le> (2048 :: int) \<and> (2048 :: int) \<le> 52428 then fst (sbreserve demo_sb 2048) \<and> uint (sb_hiwat (snd (sbreserve demo_sb 2048))) = 2048
      \<and> uint (sb_mbmax (snd (sbreserve demo_sb 2048))) = min (2 * 2048) 65535
    else \<not> fst (sbreserve demo_sb 2048) \<and> snd (sbreserve demo_sb 2048) = demo_sb)"
  by (rule sbreserve_bounds) simp_all

end
