(* ===== verification/Receive.thy ===== *)
theory Receive
  imports Socket_layer Socket_props Sockbuf_props
begin

text \<open>
  What \<open>soreceive\<close> does for a stream: it hands the reader the first bytes of the receive buffer, as many
  as he asked for or as the first record has, and takes exactly those off the buffer, as
  \<open>sbdrop\<close> would.
\<close>

definition data_mbufs :: "chain \<Rightarrow> bool" where
  "data_mbufs ms \<longleftrightarrow> (\<forall>m\<in>set ms. m_type m = MT_DATA \<or> m_type m = MT_HEADER)"

text \<open>The fields of the socket that a plain receive leaves alone.\<close>

definition so_kept :: "socket \<Rightarrow> socket \<Rightarrow> bool" where
  "so_kept x y \<longleftrightarrow> so_proto y = so_proto x \<and> so_pcb y = so_pcb x \<and> so_oobmark y = so_oobmark x \<and> so_snd y = so_snd x
     \<and> so_head y = so_head x \<and> so_q0 y = so_q0 x \<and> so_q y = so_q x \<and> so_error y = so_error x \<and> sb_same (so_rcv x) (so_rcv y)"

lemma so_kept_trans: "so_kept x y \<Longrightarrow> so_kept y z \<Longrightarrow> so_kept x z"
  using sb_same_trans by (auto simp: so_kept_def)

lemma so_kept_refl: "so_kept x x"
  by (simp add: so_kept_def sb_same_def)

lemma uio_fit_mono: "uio_fit m n u \<Longrightarrow> k \<le> n \<Longrightarrow> uio_fit m k u"
  using set_take_subset_set_take [of k n "uio_addrs u"] by (auto simp: uio_fit_def)

lemma uio_fit_after:
  assumes "uio_fit m n u" "k \<le> n" "uio_after k u v"
  shows "uio_fit (m\<lparr>um_mem := f\<rparr>) (n - k) v"
proof -
  have "take (n - k) (uio_addrs v) = drop k (take n (uio_addrs u))" using assms(2,3) by (simp add: uio_after_def drop_take)
  then have sub: "set (take (n - k) (uio_addrs v)) \<subseteq> set (take n (uio_addrs u))" by (simp only: set_drop_subset)
  have "n - k \<le> length (uio_addrs v)" using assms unfolding uio_fit_def uio_after_def by auto
  then show ?thesis using assms sub by (auto simp: uio_fit_def uio_after_def)
qed

text \<open>One turn of the loop, for a record with nothing but data and no mark.\<close>

lemma rcv_step_data:
  assumes q: "q_ok (r_pool r) (m # ms) rs (so_rcv (r_so r))" and ty: "m_type m = MT_DATA \<or> m_type m = MT_HEADER"
    and plain: "r_moff r = 0" "r_tomark r = 0" "so_oobmark (r_so r) = 0" and res: "0 < uio_resid (r_uio r)"
    and k: "k = nat (min (uio_resid (r_uio r)) (m_len m))" and fit: "uio_fit (r_um r) k (r_uio r)"
  shows "\<exists>r'. rcv_step False m ms r = Inr (0, False, r') \<and> r_moff r' = 0 \<and> r_tomark r' = 0 \<and> so_kept (r_so r) (r_so r')
    \<and> cldata (r_pool r') = cldata (r_pool r) \<and> q_ok (r_pool r) (r_m r') rs (so_rcv (r_so r'))
    \<and> (if m_len m \<le> uio_resid (r_uio r) then r_m r' = ms
       else \<exists>m'. r_m r' = m' # ms \<and> mdata (r_pool r) m' = drop k (mdata (r_pool r) m) \<and> m_type m' = m_type m)
    \<and> r_um r' = (r_um r)\<lparr>um_mem := poke (um_mem (r_um r)) (take k (uio_addrs (r_uio r))) (take k (mdata (r_pool r) m))\<rparr>
    \<and> uio_after k (r_uio r) (r_uio r') \<and> balanced (r_pool r) (m # ms @ concat rs) (r_pool r') (r_m r' @ concat rs)"
proof -
  let ?s = "r_pool r"
  have m: "m_ok ?s m" using q by (simp add: q_ok_def)
  define len where "len = min (uio_resid (r_uio r)) (m_len m)"
  have rl: "rcv_len m r = len" using plain by (simp add: rcv_len_def len_def min_def)
  have len: "0 \<le> len" "int k = len" "nat len = k" "len \<le> m_len m" using res m_len_nonneg [OF m] by (simp_all add: len_def k)
  define x0 where "x0 = (r_so r)\<lparr>so_state := so_state (r_so r) AND NOT SS_RCVATMARK\<rparr>"
  define r0 where "r0 = r\<lparr>r_so := x0\<rparr>"
  have kl: "k \<le> length (mtod ?s m)" using mtod_length [OF m] len by linarith
  from uiomove_read [OF fit kl] obtain u where u: "uiomove UIO_READ (mtod ?s m) k (r_uio r) (r_um r)
      = Inr (0, [], u, (r_um r)\<lparr>um_mem := poke (um_mem (r_um r)) (take k (uio_addrs (r_uio r))) (take k (mtod ?s m))\<rparr>)" "uio_after k (r_uio r) u" by blast
  have tk: "take k (mtod ?s m) = take k (mdata ?s m)" proof -
    have "k \<le> nat (m_len m)" using len by linarith
    then show ?thesis unfolding mdata_def by (simp add: min_absorb1 del: mtod.simps)
  qed
  define um where "um = (r_um r)\<lparr>um_mem := poke (um_mem (r_um r)) (take k (uio_addrs (r_uio r))) (take k (mdata ?s m))\<rparr>"
  have pos: "0 < len \<or> len = m_len m" using res by (auto simp: len_def)
  have u1: "uiomove UIO_READ (mtod ?s m) k (r_uio r) (r_um r) = Inr (0, [], u, um)" unfolding um_def tk [symmetric] by (rule u(1))
  have c1: "\<not> (m_type m \<noteq> MT_DATA \<and> m_type m \<noteq> MT_HEADER)" using ty by auto
  have c2: "\<not> (len \<le> 0 \<and> len \<noteq> m_len m - r_moff r)" using pos plain(1) by auto
  have step: "rcv_step False m ms r = kbind (rcv_advance False m ms len (r0\<lparr>r_uio := u, r_um := um\<rparr>)) (\<lambda>r. let (brk, r) = rcv_mark False len r in Inr (0, brk, r))"
    unfolding rcv_step_def Let_def rl if_not_P [OF c1] if_not_P [OF c2] r0_def x0_def
    using u1 c2 plain(1) len(3) by (auto simp del: mtod.simps)
  have x0: "so_kept (r_so r) x0" "so_oobmark x0 = 0" "so_rcv x0 = so_rcv (r_so r)" using plain by (simp_all add: x0_def so_kept_def sb_same_def)
  have mark: "rcv_mark False len r1 = (False, r1)" if "so_oobmark (r_so r1) = 0" "r_tomark r1 = 0" for r1
    using that by (simp add: rcv_mark_def)
  show ?thesis
  proof (cases "m_len m \<le> uio_resid (r_uio r)")
    case True
    then have lm: "len = m_len m" by (simp add: len_def)
    from q_free [OF q, of "concat rs"] obtain t where t: "m_free m ?s = Inr t" "cldata t = cldata ?s"
      "balanced ?s (m # ms @ concat rs) t (ms @ concat rs)" "q_ok t ms rs (sbfree (so_rcv (r_so r)) m)" by blast
    define r1 where "r1 = r0\<lparr>r_uio := u, r_um := um, r_m := ms, r_so := x0\<lparr>so_rcv := sbfree (so_rcv x0) m\<rparr>, r_pool := t\<rparr>"
    have "rcv_advance False m ms len (r0\<lparr>r_uio := u, r_um := um\<rparr>) = Inr r1"
      using lm plain t(1) by (simp add: rcv_advance_def r0_def r1_def)
    then have run: "rcv_step False m ms r = Inr (0, False, r1)" using step mark [of r1] x0(2) plain(2) by (simp add: r1_def r0_def)
    have "so_kept (r_so r) (r_so r1)" using x0 sb_same_trans sbfree_fields(4) by (simp add: so_kept_def r1_def)
    then show ?thesis using run True t u(2) x0(3) plain q_ok_state [OF t(2)] by (simp add: r1_def r0_def um_def)
  next
    case False
    then have lm: "len = uio_resid (r_uio r)" "len < m_len m" by (simp_all add: len_def)
    define m' where "m' = m\<lparr>m_loc := add_off (nat len) (m_loc m), m_len := m_len m - len\<rparr>"
    have e: "m' = m\<lparr>m_loc := add_off k (m_loc m), m_len := m_len m - int k\<rparr>" using len by (simp add: m'_def)
    have km: "int k \<le> m_len m" using len by simp
    have m': "m_ok ?s m'" "mdata ?s m' = drop k (mdata ?s m)" using drop_mbuf [OF m km] unfolding e by simp_all
    define r1 where "r1 = r0\<lparr>r_uio := u, r_um := um, r_m := m' # ms, r_so := x0\<lparr>so_rcv := (so_rcv x0)\<lparr>sb_cc := sb_cc (so_rcv x0) - of_int len\<rparr>\<rparr>\<rparr>"
    have "rcv_advance False m ms len (r0\<lparr>r_uio := u, r_um := um\<rparr>) = Inr r1"
      using lm plain by (simp add: rcv_advance_def r0_def r1_def m'_def)
    then have run: "rcv_step False m ms r = Inr (0, False, r1)" using step mark [of r1] x0(2) plain(2) by (simp add: r1_def r0_def)
    have mc: "mbcost m' = mbcost m" using m lm(2) res lm(1) by (cases "m_loc m") (auto simp: mbcost_def m'_def off_past_def m_ok_def)
    have "q_ok ?s (m' # ms) rs (so_rcv (r_so r1))" using q m'(1) mc by (simp add: q_ok_def r1_def x0(3)) (simp add: m'_def)
    moreover have rr: "refs [m'] c = refs [m] c" for c unfolding m'_def by (cases "m_loc m") (simp_all add: refs_def)
    have "balanced ?s (m # ms @ concat rs) ?s (m' # ms @ concat rs)"
      by (rule balanced_like) (simp_all only: rr refs_Cons [of m "ms @ concat rs"] refs_Cons [of m' "ms @ concat rs"] list.size)
    moreover have "so_kept (r_so r) (r_so r1)" using x0 by (simp add: so_kept_def r1_def sb_same_def)
    ultimately show ?thesis using run False m'(2) u(2) plain by (simp add: r1_def r0_def um_def) (simp add: m'_def)
  qed
qed

declare rcv_loop.simps [simp del]

lemma rcv_loop_data:
  "r_m r = ms \<Longrightarrow> q_ok (r_pool r) ms rs (so_rcv (r_so r)) \<Longrightarrow> data_mbufs ms \<Longrightarrow> r_moff r = 0 \<Longrightarrow> r_tomark r = 0 \<Longrightarrow> so_oobmark (r_so r) = 0 \<Longrightarrow>
   0 \<le> uio_resid (r_uio r) \<Longrightarrow> k = min (nat (uio_resid (r_uio r))) (length (mbytes (r_pool r) ms)) \<Longrightarrow> uio_fit (r_um r) k (r_uio r) \<Longrightarrow>
   \<exists>r'. rcv_loop False r = Inr (0, r') \<and> so_kept (r_so r) (r_so r') \<and> q_ok (r_pool r) (r_m r') rs (so_rcv (r_so r'))
     \<and> mbytes (r_pool r) (r_m r') = drop k (mbytes (r_pool r) ms)
     \<and> r_um r' = (r_um r)\<lparr>um_mem := poke (um_mem (r_um r)) (take k (uio_addrs (r_uio r))) (take k (mbytes (r_pool r) ms))\<rparr>
     \<and> uio_after k (r_uio r) (r_uio r') \<and> balanced (r_pool r) (ms @ concat rs) (r_pool r') (r_m r' @ concat rs)"
proof (induction ms arbitrary: r k)
  case Nil
  then show ?case by (subst rcv_loop.simps) (simp add: so_kept_refl balanced_refl uio_after_def)
next
  case (Cons m ms r k)
  let ?s = "r_pool r"
  show ?case
  proof (cases "uio_resid (r_uio r) = 0")
    case True
    then show ?thesis using Cons.prems by (subst rcv_loop.simps) (simp add: so_kept_refl balanced_refl uio_after_def)
  next
    case False
    have res: "0 < uio_resid (r_uio r)" using False Cons.prems(7) by simp
    have m: "m_ok ?s m" using Cons.prems(2) by (simp add: q_ok_def)
    define j where "j = nat (min (uio_resid (r_uio r)) (m_len m))"
    have jk: "j \<le> k" proof -
      have "length (mbytes ?s (m # ms)) = nat (m_len m) + length (mbytes ?s ms)" using m by simp
      then show ?thesis unfolding j_def Cons.prems(8) using m_len_nonneg [OF m] res by linarith
    qed
    have ty: "m_type m = MT_DATA \<or> m_type m = MT_HEADER" "data_mbufs ms" using Cons.prems(3) by (auto simp: data_mbufs_def)
    from rcv_step_data [OF Cons.prems(2) ty(1) Cons.prems(4,5,6) res j_def uio_fit_mono [OF Cons.prems(9) jk]] obtain r1 where
      r1: "rcv_step False m ms r = Inr (0, False, r1)" "r_moff r1 = 0" "r_tomark r1 = 0" "so_kept (r_so r) (r_so r1)"
        "cldata (r_pool r1) = cldata ?s" "q_ok ?s (r_m r1) rs (so_rcv (r_so r1))"
        "if m_len m \<le> uio_resid (r_uio r) then r_m r1 = ms
         else \<exists>m'. r_m r1 = m' # ms \<and> mdata ?s m' = drop j (mdata ?s m) \<and> m_type m' = m_type m"
        "r_um r1 = (r_um r)\<lparr>um_mem := poke (um_mem (r_um r)) (take j (uio_addrs (r_uio r))) (take j (mdata ?s m))\<rparr>"
        "uio_after j (r_uio r) (r_uio r1)" "balanced ?s (m # ms @ concat rs) (r_pool r1) (r_m r1 @ concat rs)" by blast
    have run: "rcv_loop False r = rcv_loop False r1" using Cons.prems(1) res r1(1) by (subst rcv_loop.simps) simp
    note st = same_cldata [OF r1(5)]
    show ?thesis
    proof (cases "m_len m \<le> uio_resid (r_uio r)")
      case True
      then have rm: "r_m r1 = ms" and j: "j = length (mdata ?s m)" "int j = m_len m" using r1(7) m m_len_nonneg [OF m] by (simp_all add: j_def)
      have res1: "uio_resid (r_uio r1) = uio_resid (r_uio r) - int j" using r1(9) by (simp add: uio_after_def)
      have kk: "k - j = min (nat (uio_resid (r_uio r1))) (length (mbytes (r_pool r1) ms))"
        using Cons.prems(7,8) j True res1 by (simp add: st(3))
      have q1: "q_ok (r_pool r1) ms rs (so_rcv (r_so r1))" using r1(6) rm q_ok_state [OF r1(5)] by simp
      have ob: "so_oobmark (r_so r1) = 0" using r1(4) Cons.prems(6) by (simp add: so_kept_def)
      have f1: "uio_fit (r_um r1) (k - j) (r_uio r1)" unfolding r1(8) by (rule uio_fit_after [OF Cons.prems(9) jk r1(9)])
      have nn: "0 \<le> uio_resid (r_uio r1)" using res1 j(2) True by simp
      from Cons.IH [OF rm q1 ty(2) r1(2,3) ob nn kk f1] obtain r2 where r2: "rcv_loop False r1 = Inr (0, r2)" "so_kept (r_so r1) (r_so r2)"
        "q_ok ?s (r_m r2) rs (so_rcv (r_so r2))" "mbytes ?s (r_m r2) = drop (k - j) (mbytes ?s ms)"
        "r_um r2 = (r_um r1)\<lparr>um_mem := poke (um_mem (r_um r1)) (take (k - j) (uio_addrs (r_uio r1))) (take (k - j) (mbytes ?s ms))\<rparr>"
        "uio_after (k - j) (r_uio r1) (r_uio r2)" "balanced (r_pool r1) (ms @ concat rs) (r_pool r2) (r_m r2 @ concat rs)"
        unfolding st q_ok_state [OF r1(5)] by blast
      have n: "k = j + (k - j)" using jk by simp
      have ad: "take k (uio_addrs (r_uio r)) = take j (uio_addrs (r_uio r)) @ take (k - j) (uio_addrs (r_uio r1))"
        using r1(9) by (subst n) (simp add: take_add uio_after_def)
      have dt: "take k (mbytes ?s (m # ms)) = take j (mdata ?s m) @ take (k - j) (mbytes ?s ms)" using jk j(1) by simp
      have jl: "length (take j (uio_addrs (r_uio r))) = length (take j (mdata ?s m))" using Cons.prems(9) jk j(1) by (simp add: uio_fit_def)
      have "r_um r2 = (r_um r)\<lparr>um_mem := poke (um_mem (r_um r)) (take k (uio_addrs (r_uio r))) (take k (mbytes ?s (m # ms)))\<rparr>"
        unfolding ad dt poke_append [OF jl] r2(5) r1(8) by simp
      moreover have "uio_after k (r_uio r) (r_uio r2)" using uio_after_trans [OF r1(9) r2(6)] n by simp
      moreover have "mbytes ?s (r_m r2) = drop k (mbytes ?s (m # ms))" using r2(4) jk j(1) by simp
      moreover have "balanced ?s ((m # ms) @ concat rs) (r_pool r2) (r_m r2 @ concat rs)" using balanced_trans [OF r1(10) [unfolded rm] r2(7)] by simp
      ultimately show ?thesis using run r2(1,3) so_kept_trans [OF r1(4) r2(2)] by auto
    next
      case part: False
      then obtain m' where m': "r_m r1 = m' # ms" "mdata ?s m' = drop j (mdata ?s m)" using r1(7) by auto
      have jr: "int j = uio_resid (r_uio r)" "j \<le> length (mdata ?s m)" using part res m by (simp_all add: j_def)
      have kj: "k = j" using jr Cons.prems(8) by simp
      have "uio_resid (r_uio r1) = 0" using r1(9) jr by (simp add: uio_after_def)
      then have "rcv_loop False r1 = Inr (0, r1)" using m'(1) by (subst rcv_loop.simps) simp
      then show ?thesis using run r1 m' kj jr(2) by simp
    qed
  qed
qed

lemma q_ok_sb_ok:
  assumes "q_ok s m rs sb"
  shows "sb_ok s (sb\<lparr>sb_mb := (if m = [] then rs else m # rs)\<rparr>)" "held (sb\<lparr>sb_mb := (if m = [] then rs else m # rs)\<rparr>) = m @ concat rs"
  using assms by (auto simp: q_ok_def sb_ok_def held_def)

lemma sb_ok_flags: "sb_ok s (sb\<lparr>sb_flags := f\<rparr>) = sb_ok s sb" "held (sb\<lparr>sb_flags := f\<rparr>) = held sb"
  by (simp_all add: sb_ok_def held_def)

lemma rcv_unlock_spec:
  "\<exists>f. so_rcv (socks (rcv_unlock so st) so) = (so_rcv (socks st so))\<lparr>sb_flags := f\<rparr>" "pool (rcv_unlock so st) = pool st"
proof -
  obtain sb es where u: "sbunlock (WkLock so) (so_rcv (socks st so)) = (sb, es)" by fastforce
  have "\<exists>f. sb = (so_rcv (socks st so))\<lparr>sb_flags := f\<rparr>" using u by (auto simp: sbunlock_def Let_def split: if_splits)
  then show "\<exists>f. so_rcv (socks (rcv_unlock so st) so) = (so_rcv (socks st so))\<lparr>sb_flags := f\<rparr>" using u by (simp add: rcv_unlock_def)
  show "pool (rcv_unlock so st) = pool st" using u by (simp add: rcv_unlock_def tell_def)
qed

lemma sb_cc_nonzero:
  assumes "sb_ok s sb" "sb_small sb" "clen (held sb) \<noteq> 0"
  shows "sb_cc sb \<noteq> 0"
proof
  assume "sb_cc sb = 0"
  then have "uint (sb_cc sb) = 0" by simp
  then show False using sb_small_counts(1) [OF assms(1,2)] assms(3) by simp
qed

lemma soreceive_spec:
  assumes sb: "sb_ok (pool st) sb" "sb_small sb" "sb_flags sb AND SB_LOCK = 0" "so_rcv (socks st so) = sb"
    and cur: "sb_mb sb = cur # rs" "data_mbufs cur" "clen (held sb) \<noteq> 0"
    and plain: "so_proto (socks st so) AND PR_ADDR = 0" "so_proto (socks st so) AND PR_ATOMIC = 0"
      "so_oobmark (socks st so) = 0"
    and uio: "0 \<le> uio_resid u" "k = min (nat (uio_resid u)) (length (mbytes (pool st) cur))" "uio_fit um k u"
  shows "\<exists>u' st2. soreceive usrreq externalize aname rightsp False so u um st
      = Inr (Ready (0, [], []), u', um\<lparr>um_mem := poke (um_mem um) (take k (uio_addrs u)) (take k (mbytes (pool st) cur))\<rparr>,
          rcv_unlock so (if so_proto (socks st so) AND PR_WANTRCVD \<noteq> 0 \<and> so_pcb (socks st so) then snd (snd (usrreq PRU_RCVD so [] st2)) else st2))
    \<and> uio_after k u u' \<and> sb_ok (pool st2) (so_rcv (socks st2 so))
    \<and> concat (recs (pool st2) (so_rcv (socks st2 so))) = drop k (concat (recs (pool st) sb))
    \<and> balanced (pool st) (held sb) (pool st2) (held (so_rcv (socks st2 so)))"
proof -
  let ?s = "pool st"
  have mr: "msgrcv (so_upd so g st) = msgrcv st" for g by (simp add: so_upd_def)
  define sb1 where "sb1 = sb\<lparr>sb_flags := sb_flags sb OR SB_LOCK\<rparr>"
  define st1 where "st1 = (so_upd so (\<lambda>x. x\<lparr>so_rcv := sb1\<rparr>) st)\<lparr>msgrcv := msgrcv st + 1\<rparr>"
  define x where "x = (socks st so)\<lparr>so_rcv := sb1\<rparr>"
  have x: "so_proto x = so_proto (socks st so)" "so_oobmark x = 0" "x\<lparr>so_rcv := sb1\<rparr> = x" "so_rcv x = sb1" by (simp_all add: x_def plain)
  have q: "q_ok ?s cur rs sb1" using sb(1) cur(1) by (simp add: sb_ok_def q_ok_def sb1_def)
  define r where "r = \<lparr>r_m = cur, r_moff = 0, r_tomark = uint (so_oobmark x), r_so = x, r_pool = ?s, r_uio = u, r_um = um\<rparr>"
  have r: "r_m r = cur" "r_pool r = ?s" "r_moff r = 0" "r_tomark r = 0" "r_so r = x" "r_uio r = u" "r_um r = um"
    using x(2) by (simp_all add: r_def)
  have "\<exists>r'. rcv_loop False r = Inr (0, r') \<and> so_kept (r_so r) (r_so r') \<and> q_ok (r_pool r) (r_m r') rs (so_rcv (r_so r'))
     \<and> mbytes (r_pool r) (r_m r') = drop k (mbytes (r_pool r) cur)
     \<and> r_um r' = (r_um r)\<lparr>um_mem := poke (um_mem (r_um r)) (take k (uio_addrs (r_uio r))) (take k (mbytes (r_pool r) cur))\<rparr>
     \<and> uio_after k (r_uio r) (r_uio r') \<and> balanced (r_pool r) (cur @ concat rs) (r_pool r') (r_m r' @ concat rs)"
    by (rule rcv_loop_data) (use q cur uio x in \<open>simp_all add: r\<close>)
  then obtain r' where r': "rcv_loop False r = Inr (0, r')" "so_kept x (r_so r')" "q_ok ?s (r_m r') rs (so_rcv (r_so r'))"
    "mbytes ?s (r_m r') = drop k (mbytes ?s cur)" "r_um r' = um\<lparr>um_mem := poke (um_mem um) (take k (uio_addrs u)) (take k (mbytes ?s cur))\<rparr>"
    "uio_after k u (r_uio r')" "balanced ?s (cur @ concat rs) (r_pool r') (r_m r' @ concat rs)" unfolding r by blast
  define sb2 where "sb2 = (so_rcv (r_so r'))\<lparr>sb_mb := (if r_m r' = [] then rs else r_m r' # rs)\<rparr>"
  define st2 where "st2 = so_upd so (\<lambda>_. (r_so r')\<lparr>so_rcv := sb2\<rparr>) (st1\<lparr>pool := r_pool r'\<rparr>)"
  have nz: "sb_cc sb1 \<noteq> 0" using sb_cc_nonzero [OF sb(1,2) cur(3)] by (simp add: sb1_def)
  have "sb_mb sb1 = cur # rs" by (simp add: sb1_def cur)
  moreover have "sblock (so_rcv (socks st so)) = Some sb1" using sb(3,4) by (simp add: sblock_def sb1_def)
  moreover have "rcv_rights False rightsp (so_proto x) cur sb1 ?s = Inr ([], cur, sb1, ?s)"
    using cur(2) by (cases cur) (auto simp: rcv_rights_def data_mbufs_def MT_RIGHTS_def MT_DATA_def MT_HEADER_def)
  moreover have "so_proto (r_so r') = so_proto (socks st so)" "so_pcb (r_so r') = so_pcb (socks st so)"
    using r'(2) x(1) by (simp_all add: so_kept_def x_def)
  ultimately have run: "soreceive usrreq externalize aname rightsp False so u um st = Inr (Ready (0, [], []), r_uio r', r_um r',
      rcv_unlock so (if so_proto (socks st so) AND PR_WANTRCVD \<noteq> 0 \<and> so_pcb (socks st so) then snd (snd (usrreq PRU_RCVD so [] st2)) else st2))"
    using nz plain r'(1) unfolding soreceive_def Let_def
    by (simp add: x_def [symmetric] x(1,3) r_def [symmetric] sb2_def [symmetric] st2_def st1_def mr split: option.splits)
  have h: "held sb2 = r_m r' @ concat rs" "sb_ok ?s sb2" using q_ok_sb_ok [OF r'(3)] by (simp_all add: sb2_def)
  have hs: "held sb = cur @ concat rs" using cur(1) by (simp add: held_def)
  have cl: "cldata (r_pool r') = cldata ?s" using r'(7) by (rule balanced_cldata)
  have "k \<le> length (mbytes ?s cur)" using uio(2) by simp
  then have "concat (recs (r_pool r') sb2) = drop k (concat (recs ?s sb))"
    using h hs r'(4) by (simp add: concat_recs same_cldata(3) [OF cl])
  moreover have "so_rcv (socks st2 so) = sb2" "pool st2 = r_pool r'" by (simp_all add: st2_def so_upd_def)
  ultimately show ?thesis using run r'(5,6,7) h hs by (auto simp: sb_ok_state [OF cl])
qed

section \<open>Properties\<close>

text \<open>A listening socket 1 with sockets 2 and 3 in progress and 4 to be accepted.\<close>

definition demo_so :: socket where
  "demo_so = \<lparr>so_type = 1, so_options = 0, so_linger = 0, so_state = 0, so_pcb = False, so_proto = 0, so_head = 0, so_q0 = 0, so_q0len = 0,
     so_q = 0, so_qlen = 0, so_qlimit = 5, so_rcv = demo_sb2, so_snd = sb_empty, so_timeo = 0, so_error = 0, so_oobmark = 0, so_pgrp = 0\<rparr>"

definition demo_st :: skst where
  "demo_st = \<lparr>socks = (\<lambda>_. demo_so)(1 := demo_so\<lparr>so_q0 := 2, so_q0len := 2, so_q := 4, so_qlen := 1\<rparr>, 2 := demo_so\<lparr>so_head := 1, so_q0 := 3\<rparr>,
     3 := demo_so\<lparr>so_head := 1, so_q0 := 1\<rparr>, 4 := demo_so\<lparr>so_head := 1, so_q := 1\<rparr>), pool = demo_pool, evs = [], msgrcv = 0\<rparr>"

definition demo_attach :: usrreq where
  "demo_attach req so m st = (0, [], so_upd so (\<lambda>x. x\<lparr>so_pcb := True\<rparr>) st)"

lemma demo_listen: "listen_ok demo_st 1 [2, 3] [4]"
  by (simp add: listen_ok_def demo_st_def demo_so_def so_next_def)

text \<open>C30. When the handshake of a queued socket ends, \<open>soisconnected\<close> moves it from the ring of
  connections in progress to the front of the ring of connections to accept, leaves both rings
  whole with exact counts, marks the socket connected and wakes the acceptor.\<close>

theorem soisconnected_moves:
  assumes "listen_ok st head q0s qs" "so \<in> set q0s"
  shows "\<exists>st'. soisconnected pfind so st = Some (Inr st') \<and> listen_ok st' head (remove1 so q0s) (so # qs)
    \<and> so_state (socks st' so) = (so_state (socks st so) AND NOT (SS_ISCONNECTING OR SS_ISDISCONNECTING)) OR SS_ISCONNECTED
    \<and> {WkTimeo head, WkTimeo so} \<subseteq> set (evs st')"
  using soisconnected_spec [OF assms] .

theorem soisconnected_moves_witness:
  "\<exists>st'. soisconnected (\<lambda>_. False) 3 demo_st = Some (Inr st') \<and> listen_ok st' 1 (remove1 3 [2, 3]) (3 # [4])
    \<and> so_state (socks st' 3) = (so_state (socks demo_st 3) AND NOT (SS_ISCONNECTING OR SS_ISDISCONNECTING)) OR SS_ISCONNECTED
    \<and> {WkTimeo 1, WkTimeo 3} \<subseteq> set (evs st')"
  by (rule soisconnected_moves [OF demo_listen]) simp

text \<open>C31. \<open>sonewconn\<close> puts a new socket on the ring of connections in progress only while there are
  no more than one and a half times \<^verbatim>\<open>so_qlimit\<close> connections in all, and when it fails, for want of memory or
  because the protocol refuses, both rings are as before. (The protocol's attach routine leaves the
  queue fields of all sockets alone.)\<close>

theorem sonewconn_bounded:
  assumes "listen_ok st head q0s qs" "addr \<noteq> 0" "addr \<notin> set (head # q0s @ qs)"
    and "\<forall>st. same_queue st (snd (snd (usrreq PRU_ATTACH addr [] st)))"
  shows "\<exists>so st'. sonewconn usrreq addr head st = Some (Inr (so, st')) \<and>
    (if so = 0 then listen_ok st' head q0s qs
     else so = addr \<and> listen_ok st' head (addr # q0s) qs \<and> int (length q0s + length qs) \<le> 3 * so_qlimit (socks st head) sdiv 2)"
  by (rule sonewconn_spec) (fact assms)+

theorem sonewconn_bounded_witness:
  "\<exists>so st'. sonewconn demo_attach 9 1 demo_st = Some (Inr (so, st')) \<and>
    (if so = 0 then listen_ok st' 1 [2, 3] [4]
     else so = 9 \<and> listen_ok st' 1 (9 # [2, 3]) [4] \<and> int (length [2 :: nat, 3] + length [4 :: nat]) \<le> 3 * so_qlimit (socks demo_st 1) sdiv 2)"
  by (rule sonewconn_bounded [OF demo_listen]) (simp_all add: demo_attach_def same_queue_def)

text \<open>C29. Reading from a stream socket: \<open>soreceive\<close> copies the first \<open>k\<close> bytes of the receive
  buffer, where \<open>k\<close> is the smaller of what was asked for and what the first record has, to the
  reader's areas, advances his descriptor by \<open>k\<close>, and takes exactly these bytes off the
  buffer; the counters stay right and every mbuf it emptied is free again. In the state \<open>st2\<close> this has led to, and
  with the buffer still locked, it tells a protocol that wants to know (every stream protocol does) with \<^verbatim>\<open>PRU_RCVD\<close>, whatever
  that does, and then unlocks the buffer.\<close>

theorem soreceive_stream:
  assumes "sb_ok (pool st) sb" "sb_small sb" "sb_flags sb AND SB_LOCK = 0" "so_rcv (socks st so) = sb"
    and "sb_mb sb = cur # rs" "data_mbufs cur" "clen (held sb) \<noteq> 0"
    and "so_proto (socks st so) AND PR_ADDR = 0" "so_proto (socks st so) AND PR_ATOMIC = 0" "so_oobmark (socks st so) = 0"
    and "0 \<le> uio_resid u" "k = min (nat (uio_resid u)) (length (mbytes (pool st) cur))" "uio_fit um k u"
  shows "\<exists>u' st2. soreceive usrreq externalize aname rightsp False so u um st
      = Inr (Ready (0, [], []), u', um\<lparr>um_mem := poke (um_mem um) (take k (uio_addrs u)) (take k (mbytes (pool st) cur))\<rparr>,
          rcv_unlock so (if so_proto (socks st so) AND PR_WANTRCVD \<noteq> 0 \<and> so_pcb (socks st so) then snd (snd (usrreq PRU_RCVD so [] st2)) else st2))
    \<and> uio_after k u u' \<and> sb_ok (pool st2) (so_rcv (socks st2 so))
    \<and> concat (recs (pool st2) (so_rcv (socks st2 so))) = drop k (concat (recs (pool st) sb))
    \<and> balanced (pool st) (held sb) (pool st2) (held (so_rcv (socks st2 so)))"
  using soreceive_spec [OF assms] .

lemma demo_sb2_ok: "sb_ok demo_pool demo_sb2" "sb_small demo_sb2" "sb_flags demo_sb2 = 0" "held demo_sb2 = demo_chain @ demo_chain"
proof -
  have m: "mbcnt_of demo_chain = 1408" by (simp add: demo_chain_def demo_mb_def mbcost_def off_past_def mbuf_consts)
  show "sb_ok demo_pool demo_sb2" using demo_mbufs m by (auto simp: sb_ok_def demo_sb2_def)
  show h: "held demo_sb2 = demo_chain @ demo_chain" by (simp add: held_def demo_sb2_def)
  show "sb_small demo_sb2" using demo_mbufs(4) m by (simp add: sb_small_def h)
qed (simp add: demo_sb2_def demo_sb_def sb_empty_def)

text \<open>A TCP socket with the same buffer: \<^verbatim>\<open>PR_CONNREQUIRED | PR_WANTRCVD\<close>, and a protocol that notes the request.\<close>

definition demo_stream :: skst where
  "demo_stream = so_upd 4 (\<lambda>x. x\<lparr>so_proto := 0x0c, so_pcb := True\<rparr>) demo_st"

definition demo_rcvd :: usrreq where
  "demo_rcvd req so m st = (0, [], if req = PRU_RCVD then tell [WkTimeo so] st else st)"

theorem soreceive_stream_witness:
  "\<exists>u' um' st2. soreceive demo_rcvd None False False False 4 (demo_uio\<lparr>uio_resid := 4\<rparr>) demo_umem demo_stream
      = Inr (Ready (0, [], []), u', um', rcv_unlock 4 (tell [WkTimeo 4] st2))
    \<and> uio_after 4 (demo_uio\<lparr>uio_resid := 4\<rparr>) u' \<and> sb_ok (pool st2) (so_rcv (socks st2 4))
    \<and> concat (recs (pool st2) (so_rcv (socks st2 4))) = drop 4 (concat (recs (pool demo_st) demo_sb2))"
proof -
  have d: "pool demo_stream = demo_pool" "so_rcv (socks demo_stream 4) = demo_sb2" "so_oobmark (socks demo_stream 4) = 0"
    "so_proto (socks demo_stream 4) = 0x0c" "so_pcb (socks demo_stream 4)" "pool demo_st = demo_pool"
    by (simp_all add: demo_stream_def demo_st_def demo_so_def so_upd_def)
  have b: "so_proto (socks demo_stream 4) AND PR_ADDR = 0" "so_proto (socks demo_stream 4) AND PR_ATOMIC = 0" "so_proto (socks demo_stream 4) AND PR_WANTRCVD \<noteq> 0"
    by (simp_all add: d PR_ADDR_def PR_ATOMIC_def PR_WANTRCVD_def)
  have c: "clen (held demo_sb2) \<noteq> 0" "data_mbufs demo_chain" "sb_mb demo_sb2 = demo_chain # [demo_chain]" "0 \<le> uio_resid (demo_uio\<lparr>uio_resid := 4\<rparr>)"
  proof -
    show "clen (held demo_sb2) \<noteq> 0" using demo_mbufs(4) by (simp add: demo_sb2_ok)
  qed (simp_all add: data_mbufs_def demo_chain_def demo_mb_def demo_sb2_def demo_uio_def)
  have "length (mbytes demo_pool demo_chain) = 7" using mbytes_length [OF demo_mbufs(2)] demo_mbufs(4) by simp
  then have k: "(4 :: nat) = min (nat (uio_resid (demo_uio\<lparr>uio_resid := 4\<rparr>))) (length (mbytes (pool demo_stream) demo_chain))" by (simp add: d)
  have f: "uio_fit demo_umem 4 (demo_uio\<lparr>uio_resid := 4\<rparr>)" using demo_uio_fit by (simp add: uio_fit_def)
  have l: "sb_flags demo_sb2 AND SB_LOCK = 0" by (simp add: demo_sb2_ok)
  from soreceive_stream [OF demo_sb2_ok(1) [folded d(1)] demo_sb2_ok(2) l d(2) c(3,2,1) b(1,2) d(3) c(4) k f, of demo_rcvd None False False]
  show ?thesis using b(3) d(1,5,6) by (auto simp: demo_rcvd_def)
qed

end
