(* ===== verification/Dnlc.thy ===== *)
theory Dnlc
  imports Prelude "HOL-Library.Multiset"
begin

text \<open>
  The directory name lookup cache, \<^verbatim>\<open>sys/sys/vfs_dnlc.c\<close> and \<^verbatim>\<open>sys/h/dnlc.h\<close>. The entries are numbered 0 to 31. The LRU
  chain is the list of entry numbers from \<^verbatim>\<open>nc_lru.lru_next\<close> on, and each hash chain the list from its
  \<^verbatim>\<open>hash_next\<close> on; \<^verbatim>\<open>insque2\<close> and \<^verbatim>\<open>remque2\<close> are insertion
  into and removal from such a list (\<^verbatim>\<open>insque\<close> and \<^verbatim>\<open>remque\<close>, for the hash chains, are instructions of the
  machine). Vnodes and credentials are addresses, 0 the null pointer; \<open>v_count\<close> and \<open>cr_ref\<close> are their
  reference counts. \<open>vn_drop\<close> and \<open>cr_drop\<close> are what \<^verbatim>\<open>VN_RELE\<close> and \<^verbatim>\<open>crfree\<close> do to the counts; what happens to a vnode or credentials nobody holds any more
  (\<^verbatim>\<open>VOP_INACTIVE\<close>) and the panic of \<^verbatim>\<open>vn_rele\<close> for a count of 0 are outside the model (the lemma \<open>dnlc_release_covered\<close> shows when
  the cache cannot run into it). The counts are integers; the 16 bits of \<^verbatim>\<open>v_count\<close> hold them below 65536 references.
\<close>

section \<open>The state\<close>

type_synonym name = "8 word list"

record ncent =
  nc_dp :: nat
  nc_vp :: nat
  nc_name :: name
  nc_cred :: int

record dnlc =
  ncache :: "nat \<Rightarrow> ncent"
  nc_lru :: "nat list"
  nc_hash :: "nat \<Rightarrow> nat list"
  hits :: int
  misses :: int
  long_enter :: int
  long_look :: int
  lru_empty :: int
  purges :: int
  doingcache :: bool
  v_count :: "nat \<Rightarrow> int"
  cr_ref :: "int \<Rightarrow> int"

definition NC_SIZE :: nat where "NC_SIZE = 32"
definition NC_HASH_SIZE :: nat where "NC_HASH_SIZE = 8"
definition NC_NAMLEN :: nat where "NC_NAMLEN = 15"
definition ANYCRED :: int where "ANYCRED = -1"
definition NOCRED :: int where "NOCRED = 0"

text \<open>\<^verbatim>\<open>NC_HASH\<close>. For the empty name it reads the byte in front of the name: a fault.\<close>

definition nc_hashfn :: "name \<Rightarrow> nat \<Rightarrow> nat kern" where
  "nc_hashfn name dp = (if name = [] then Inl (Fault ''NC_HASH'')
     else Inr (nat ((sint (hd name) + sint (last name) + int (length name) + int dp) mod int NC_HASH_SIZE)))"

text \<open>Unlinking and linking.\<close>

definition rm_lru :: "nat \<Rightarrow> dnlc \<Rightarrow> dnlc" where "rm_lru i s = s\<lparr>nc_lru := remove1 i (nc_lru s)\<rparr>"
definition lru_front :: "nat \<Rightarrow> dnlc \<Rightarrow> dnlc" where "lru_front i s = s\<lparr>nc_lru := i # nc_lru s\<rparr>"
definition lru_back :: "nat \<Rightarrow> dnlc \<Rightarrow> dnlc" where "lru_back i s = s\<lparr>nc_lru := nc_lru s @ [i]\<rparr>"
definition rm_hash :: "nat \<Rightarrow> dnlc \<Rightarrow> dnlc" where "rm_hash i s = s\<lparr>nc_hash := (\<lambda>h. remove1 i (nc_hash s h))\<rparr>"
definition hash_front :: "nat \<Rightarrow> nat \<Rightarrow> dnlc \<Rightarrow> dnlc" where "hash_front i h s = s\<lparr>nc_hash := (nc_hash s)(h := i # nc_hash s h)\<rparr>"

definition vn_hold :: "nat \<Rightarrow> dnlc \<Rightarrow> dnlc" where "vn_hold v s = s\<lparr>v_count := (v_count s)(v := v_count s v + 1)\<rparr>"
definition vn_drop :: "nat \<Rightarrow> dnlc \<Rightarrow> dnlc" where "vn_drop v s = s\<lparr>v_count := (v_count s)(v := v_count s v - 1)\<rparr>"
definition cr_hold :: "int \<Rightarrow> dnlc \<Rightarrow> dnlc" where "cr_hold c s = s\<lparr>cr_ref := (cr_ref s)(c := cr_ref s c + 1)\<rparr>"
definition cr_drop :: "int \<Rightarrow> dnlc \<Rightarrow> dnlc" where "cr_drop c s = s\<lparr>cr_ref := (cr_ref s)(c := cr_ref s c - 1)\<rparr>"

definition nc_upd :: "nat \<Rightarrow> (ncent \<Rightarrow> ncent) \<Rightarrow> dnlc \<Rightarrow> dnlc" where
  "nc_upd i f s = s\<lparr>ncache := (ncache s)(i := f (ncache s i))\<rparr>"

section \<open>The operations\<close>

definition dnlc_init :: "dnlc \<Rightarrow> dnlc" where
  "dnlc_init s = (let s = foldl (\<lambda>s i. nc_upd i (\<lambda>e. e\<lparr>nc_dp := 0, nc_vp := 0\<rparr>) (lru_front i s)) (s\<lparr>nc_lru := []\<rparr>) [0..<NC_SIZE]
     in s\<lparr>nc_hash := (\<lambda>h. [])\<rparr>)"

definition nc_match :: "ncent \<Rightarrow> nat \<Rightarrow> name \<Rightarrow> int \<Rightarrow> bool" where
  "nc_match e dp name cred = (nc_dp e = dp \<and> length (nc_name e) = length name \<and> (cred = ANYCRED \<or> nc_cred e = cred) \<and> nc_name e = name)"

definition dnlc_search :: "nat \<Rightarrow> name \<Rightarrow> nat \<Rightarrow> int \<Rightarrow> dnlc \<Rightarrow> nat option" where
  "dnlc_search dp name h cred s = find (\<lambda>i. nc_match (ncache s i) dp name cred) (nc_hash s h)"

text \<open>The part of \<open>dnlc_enter\<close> that recycles entry \<open>i\<close>. It frees nothing of the credentials the entry had.\<close>

definition nc_recycle :: "nat \<Rightarrow> nat \<Rightarrow> name \<Rightarrow> nat \<Rightarrow> int \<Rightarrow> nat \<Rightarrow> dnlc \<Rightarrow> dnlc" where
  "nc_recycle i dp name vp cred h s =
     (let s = rm_hash i (rm_lru i s);
          s = (if nc_dp (ncache s i) \<noteq> 0 then vn_drop (nc_dp (ncache s i)) s else s);
          s = (if nc_vp (ncache s i) \<noteq> 0 then vn_drop (nc_vp (ncache s i)) s else s);
          s = vn_hold dp (nc_upd i (\<lambda>e. e\<lparr>nc_dp := dp\<rparr>) s);
          s = vn_hold vp (nc_upd i (\<lambda>e. e\<lparr>nc_vp := vp\<rparr>) s);
          s = nc_upd i (\<lambda>e. e\<lparr>nc_name := name, nc_cred := cred\<rparr>) s;
          s = (if cred \<noteq> 0 then cr_hold cred s else s)
      in hash_front i h (lru_back i s))"

definition dnlc_enter :: "nat \<Rightarrow> name \<Rightarrow> nat \<Rightarrow> int \<Rightarrow> dnlc \<Rightarrow> dnlc kern" where
  "dnlc_enter dp name vp cred s =
     (if \<not> doingcache s then Inr s
      else if NC_NAMLEN < length name then Inr (s\<lparr>long_enter := long_enter s + 1\<rparr>)
      else kbind (nc_hashfn name dp) (\<lambda>h. case dnlc_search dp name h cred s of
          Some i \<Rightarrow> Inr s
        | None \<Rightarrow> (case nc_lru s of
            [] \<Rightarrow> Inr (s\<lparr>lru_empty := lru_empty s + 1\<rparr>)
          | i # _ \<Rightarrow> Inr (nc_recycle i dp name vp cred h s))))"

text \<open>Moving an entry one place forward in its hash chain.\<close>

fun swap_forward :: "nat \<Rightarrow> nat list \<Rightarrow> nat list" where
  "swap_forward i (a # b # xs) = (if a = i then a # b # xs else if b = i then b # a # xs else a # swap_forward i (b # xs))"
| "swap_forward i xs = xs"

definition dnlc_lookup :: "nat \<Rightarrow> name \<Rightarrow> int \<Rightarrow> dnlc \<Rightarrow> (nat \<times> dnlc) kern" where
  "dnlc_lookup dp name cred s =
     (if \<not> doingcache s then Inr (0, s)
      else if NC_NAMLEN < length name then Inr (0, s\<lparr>long_look := long_look s + 1\<rparr>)
      else kbind (nc_hashfn name dp) (\<lambda>h. case dnlc_search dp name h cred s of
          None \<Rightarrow> Inr (0, s\<lparr>misses := misses s + 1\<rparr>)
        | Some i \<Rightarrow>
            let s = lru_back i (rm_lru i (s\<lparr>hits := hits s + 1\<rparr>))
            in Inr (nc_vp (ncache s i), s\<lparr>nc_hash := (nc_hash s)(h := swap_forward i (nc_hash s h))\<rparr>)))"

definition dnlc_rm :: "nat \<Rightarrow> dnlc \<Rightarrow> dnlc" where
  "dnlc_rm i s =
     (let s = rm_hash i (rm_lru i s); e = ncache s i;
          s = nc_upd i (\<lambda>e. e\<lparr>nc_vp := 0\<rparr>) (vn_drop (nc_vp e) (nc_upd i (\<lambda>e. e\<lparr>nc_dp := 0\<rparr>) (vn_drop (nc_dp e) s)));
          s = (if nc_cred e \<noteq> NOCRED then nc_upd i (\<lambda>e. e\<lparr>nc_cred := NOCRED\<rparr>) (cr_drop (nc_cred e) s) else s)
      in lru_front i s)"

text \<open>The loop of \<open>dnlc_remove\<close>: each turn shortens the hash chain. The fuel is its length.\<close>

fun remove_loop :: "nat \<Rightarrow> nat \<Rightarrow> name \<Rightarrow> nat \<Rightarrow> dnlc \<Rightarrow> dnlc option" where
  "remove_loop fuel dp name h s = (case dnlc_search dp name h ANYCRED s of
       None \<Rightarrow> Some s
     | Some i \<Rightarrow> (case fuel of 0 \<Rightarrow> None | Suc fuel \<Rightarrow> remove_loop fuel dp name h (dnlc_rm i s)))"

definition dnlc_remove :: "nat \<Rightarrow> name \<Rightarrow> dnlc \<Rightarrow> dnlc option kern" where
  "dnlc_remove dp name s = (if NC_NAMLEN < length name then Inr (Some s)
     else kbind (nc_hashfn name dp) (\<lambda>h. Inr (remove_loop (length (nc_hash s h)) dp name h s)))"

text \<open>The loop of \<open>dnlc_purge\<close> starts again from the first chain after each entry it drops.\<close>

fun purge_loop :: "nat \<Rightarrow> dnlc \<Rightarrow> dnlc kern option" where
  "purge_loop fuel s = (case find (\<lambda>h. nc_hash s h \<noteq> []) [0..<NC_HASH_SIZE] of
       None \<Rightarrow> Some (Inr s)
     | Some h \<Rightarrow> (let i = hd (nc_hash s h) in
         if nc_dp (ncache s i) = 0 \<or> nc_vp (ncache s i) = 0 then Some (Inl (Panic ''dnlc_purge: zero vp''))
         else case fuel of 0 \<Rightarrow> None | Suc fuel \<Rightarrow> purge_loop fuel (dnlc_rm i s)))"

definition dnlc_purge :: "dnlc \<Rightarrow> dnlc kern option" where
  "dnlc_purge s = purge_loop NC_SIZE (s\<lparr>purges := purges s + 1\<rparr>)"

declare remove_loop.simps [simp del] purge_loop.simps [simp del]

section \<open>The invariant\<close>

text \<open>Every entry is on the LRU chain; exactly the entries with a directory and a vnode are on a hash chain, the one of
  their name; no two of them have the same directory, name and credentials.\<close>

definition nc_wf :: "(nat \<Rightarrow> ncent) \<Rightarrow> nat list \<Rightarrow> (nat \<Rightarrow> nat list) \<Rightarrow> bool" where
  "nc_wf c l H = (distinct l \<and> set l = {..<NC_SIZE} \<and> (\<forall>h. distinct (H h)) \<and>
     (\<forall>h. \<forall>i \<in> set (H h). i < NC_SIZE \<and> nc_dp (c i) \<noteq> 0 \<and> nc_vp (c i) \<noteq> 0 \<and> length (nc_name (c i)) \<le> NC_NAMLEN
        \<and> nc_hashfn (nc_name (c i)) (nc_dp (c i)) = Inr h) \<and>
     (\<forall>i<NC_SIZE. nc_dp (c i) \<noteq> 0 \<or> nc_vp (c i) \<noteq> 0 \<longrightarrow> (\<exists>h. i \<in> set (H h))) \<and>
     (\<forall>i<NC_SIZE. \<forall>j<NC_SIZE. nc_dp (c i) \<noteq> 0 \<and> nc_dp (c i) = nc_dp (c j) \<and> nc_name (c i) = nc_name (c j)
        \<and> nc_cred (c i) = nc_cred (c j) \<longrightarrow> i = j))"

definition nc_ok :: "dnlc \<Rightarrow> bool" where "nc_ok s = nc_wf (ncache s) (nc_lru s) (nc_hash s)"

lemma nc_wfD:
  assumes "nc_wf c l H"
  shows "distinct l" "set l = {..<NC_SIZE}" "distinct (H h)"
    and "i \<in> set (H h) \<Longrightarrow> i < NC_SIZE" "i \<in> set (H h) \<Longrightarrow> nc_dp (c i) \<noteq> 0" "i \<in> set (H h) \<Longrightarrow> nc_vp (c i) \<noteq> 0"
    and "i \<in> set (H h) \<Longrightarrow> length (nc_name (c i)) \<le> NC_NAMLEN"
    and "i \<in> set (H h) \<Longrightarrow> nc_hashfn (nc_name (c i)) (nc_dp (c i)) = Inr h"
    and "i < NC_SIZE \<Longrightarrow> nc_dp (c i) \<noteq> 0 \<or> nc_vp (c i) \<noteq> 0 \<Longrightarrow> \<exists>h. i \<in> set (H h)"
    and "i < NC_SIZE \<Longrightarrow> j < NC_SIZE \<Longrightarrow> nc_dp (c i) \<noteq> 0 \<Longrightarrow> nc_dp (c i) = nc_dp (c j) \<Longrightarrow> nc_name (c i) = nc_name (c j)
      \<Longrightarrow> nc_cred (c i) = nc_cred (c j) \<Longrightarrow> i = j"
  using assms unfolding nc_wf_def by blast+

lemma nc_wfI:
  assumes "distinct l" "set l = {..<NC_SIZE}" "\<And>h. distinct (H h)"
    and "\<And>i h. i \<in> set (H h) \<Longrightarrow> i < NC_SIZE \<and> nc_dp (c i) \<noteq> 0 \<and> nc_vp (c i) \<noteq> 0 \<and> length (nc_name (c i)) \<le> NC_NAMLEN
        \<and> nc_hashfn (nc_name (c i)) (nc_dp (c i)) = Inr h"
    and "\<And>i. i < NC_SIZE \<Longrightarrow> nc_dp (c i) \<noteq> 0 \<or> nc_vp (c i) \<noteq> 0 \<Longrightarrow> \<exists>h. i \<in> set (H h)"
    and "\<And>i j. i < NC_SIZE \<Longrightarrow> j < NC_SIZE \<Longrightarrow> nc_dp (c i) \<noteq> 0 \<Longrightarrow> nc_dp (c i) = nc_dp (c j) \<Longrightarrow> nc_name (c i) = nc_name (c j)
      \<Longrightarrow> nc_cred (c i) = nc_cred (c j) \<Longrightarrow> i = j"
  shows "nc_wf c l H"
  unfolding nc_wf_def using assms by (intro conjI allI ballI impI) (fact | simp)+

lemma wf_clear:
  assumes wf: "nc_wf c l H" and i: "i < NC_SIZE" and e: "nc_dp e = 0" "nc_vp e = 0"
    and l: "distinct l'" "set l' = {..<NC_SIZE}"
  shows "nc_wf (c(i := e)) l' (\<lambda>h. remove1 i (H h))"
proof -
  note D = nc_wfD [OF wf]
  have S: "set (remove1 i (H h)) = set (H h) - {i}" for h by (simp add: D(3))
  show ?thesis unfolding nc_wf_def using l e D(3-8) D(9) D(10) by (auto simp: S)
qed

lemma wf_fill:
  assumes wf: "nc_wf c l H" and i: "i < NC_SIZE" and e: "nc_dp e \<noteq> 0" "nc_vp e \<noteq> 0" "length (nc_name e) \<le> NC_NAMLEN"
    and h: "nc_hashfn (nc_name e) (nc_dp e) = Inr h" and l: "distinct l'" "set l' = {..<NC_SIZE}"
    and new: "\<And>j. j < NC_SIZE \<Longrightarrow> nc_dp (c j) = nc_dp e \<Longrightarrow> nc_name (c j) = nc_name e \<Longrightarrow> nc_cred (c j) = nc_cred e \<Longrightarrow> j = i"
  shows "nc_wf (c(i := e)) l' ((\<lambda>h. remove1 i (H h))(h := i # remove1 i (H h)))"
proof -
  note D = nc_wfD [OF wf]
  have S: "set (remove1 i (H h)) = set (H h) - {i}" for h by (simp add: D(3))
  have F1: "distinct (i # remove1 i (H h))" by (simp add: S D(3))
  have F2: "\<exists>k. j \<in> set (((\<lambda>h. remove1 i (H h))(h := i # remove1 i (H h))) k)"
    if "j < NC_SIZE" "nc_dp ((c(i := e)) j) \<noteq> 0 \<or> nc_vp ((c(i := e)) j) \<noteq> 0" for j
  proof (cases "j = i")
    case False
    have "\<exists>k. j \<in> set (H k)" using D(9) [of j] that False by simp
    then obtain k where "j \<in> set (H k)" ..
    then show ?thesis using False by (intro exI [of _ k]) (auto simp: S)
  qed (auto intro: exI [of _ h])
  have F3: "j = k" if "j < NC_SIZE" "k < NC_SIZE" "nc_dp ((c(i := e)) j) \<noteq> 0" "nc_dp ((c(i := e)) j) = nc_dp ((c(i := e)) k)"
      "nc_name ((c(i := e)) j) = nc_name ((c(i := e)) k)" "nc_cred ((c(i := e)) j) = nc_cred ((c(i := e)) k)" for j k
    using that new [of j] new [of k] D(10) [of j k] by (auto split: if_splits)
  have F4: "j < NC_SIZE \<and> nc_dp ((c(i := e)) j) \<noteq> 0 \<and> nc_vp ((c(i := e)) j) \<noteq> 0 \<and> length (nc_name ((c(i := e)) j)) \<le> NC_NAMLEN
      \<and> nc_hashfn (nc_name ((c(i := e)) j)) (nc_dp ((c(i := e)) j)) = Inr k"
    if "j \<in> set (((\<lambda>h. remove1 i (H h))(h := i # remove1 i (H h))) k)" for j k
  proof (cases "j = i")
    case True
    then have "k = h" using that by (auto simp: S split: if_splits)
    then show ?thesis using True i e h by simp
  next
    case False
    then have "j \<in> set (H k)" using that by (auto simp: S split: if_splits)
    then show ?thesis using False D(4-8) by simp
  qed
  have F5: "distinct (((\<lambda>h. remove1 i (H h))(h := i # remove1 i (H h))) k)" for k using F1 D(3) by simp
  show ?thesis by (rule nc_wfI [OF l F5 F4 F2 F3])
qed

lemma wf_swap:
  assumes wf: "nc_wf c l H" and l: "distinct l'" "set l' = {..<NC_SIZE}" and H: "\<And>h. mset (H' h) = mset (H h)"
  shows "nc_wf c l' H'"
proof -
  have "set (H' h) = set (H h)" "distinct (H' h) = distinct (H h)" for h
    using mset_eq_imp_distinct_iff [OF H [of h]] mset_eq_setD [OF H [of h]] by simp_all
  then show ?thesis using wf l unfolding nc_wf_def by simp
qed


section \<open>What the operations do to the cache\<close>

lemmas link_defs = rm_lru_def lru_front_def lru_back_def rm_hash_def hash_front_def vn_hold_def vn_drop_def cr_hold_def cr_drop_def nc_upd_def

lemma dnlc_rm_fields:
  "ncache (dnlc_rm i s) = (ncache s)(i := (ncache s i)\<lparr>nc_dp := 0, nc_vp := 0, nc_cred := NOCRED\<rparr>)"
  "nc_lru (dnlc_rm i s) = i # remove1 i (nc_lru s)"
  "nc_hash (dnlc_rm i s) = (\<lambda>h. remove1 i (nc_hash s h))"
  "doingcache (dnlc_rm i s) = doingcache s"
  "v_count (dnlc_rm i s) = (\<lambda>v. v_count s v - (if v = nc_dp (ncache s i) then 1 else 0) - (if v = nc_vp (ncache s i) then 1 else 0))"
  by (auto simp: dnlc_rm_def Let_def link_defs NOCRED_def fun_eq_iff)

lemma nc_recycle_fields:
  "ncache (nc_recycle i dp name vp cred h s) = (ncache s)(i := (ncache s i)\<lparr>nc_dp := dp, nc_vp := vp, nc_name := name, nc_cred := cred\<rparr>)"
  "nc_lru (nc_recycle i dp name vp cred h s) = remove1 i (nc_lru s) @ [i]"
  "nc_hash (nc_recycle i dp name vp cred h s) = (\<lambda>h. remove1 i (nc_hash s h))(h := i # remove1 i (nc_hash s h))"
  "doingcache (nc_recycle i dp name vp cred h s) = doingcache s"
  "v_count (nc_recycle i dp name vp cred h s) =
     (\<lambda>v. v_count s v + (if v = dp then 1 else 0) + (if v = vp then 1 else 0)
        - (if nc_dp (ncache s i) \<noteq> 0 \<and> v = nc_dp (ncache s i) then 1 else 0)
        - (if nc_vp (ncache s i) \<noteq> 0 \<and> v = nc_vp (ncache s i) then 1 else 0))"
  "cr_ref (nc_recycle i dp name vp cred h s) = (if cred \<noteq> 0 then (cr_ref s)(cred := cr_ref s cred + 1) else cr_ref s)"
proof -
  have R: "(if a \<noteq> 0 then vn_drop a t else t) = t\<lparr>v_count := \<lambda>v. v_count t v - (if a \<noteq> 0 \<and> v = a then 1 else 0)\<rparr>" for a t
    by (auto simp: vn_drop_def fun_eq_iff)
  have C: "(if cred \<noteq> 0 then cr_hold cred t else t) = t\<lparr>cr_ref := if cred \<noteq> 0 then (cr_ref t)(cred := cr_ref t cred + 1) else cr_ref t\<rparr>" for t
    by (simp add: cr_hold_def)
  note E = nc_recycle_def Let_def R C
  show "ncache (nc_recycle i dp name vp cred h s) = (ncache s)(i := (ncache s i)\<lparr>nc_dp := dp, nc_vp := vp, nc_name := name, nc_cred := cred\<rparr>)"
    "nc_lru (nc_recycle i dp name vp cred h s) = remove1 i (nc_lru s) @ [i]"
    "nc_hash (nc_recycle i dp name vp cred h s) = (\<lambda>h. remove1 i (nc_hash s h))(h := i # remove1 i (nc_hash s h))"
    "doingcache (nc_recycle i dp name vp cred h s) = doingcache s"
    "cr_ref (nc_recycle i dp name vp cred h s) = (if cred \<noteq> 0 then (cr_ref s)(cred := cr_ref s cred + 1) else cr_ref s)"
    unfolding E by (simp_all add: link_defs)
  show "v_count (nc_recycle i dp name vp cred h s) =
     (\<lambda>v. v_count s v + (if v = dp then 1 else 0) + (if v = vp then 1 else 0)
        - (if nc_dp (ncache s i) \<noteq> 0 \<and> v = nc_dp (ncache s i) then 1 else 0)
        - (if nc_vp (ncache s i) \<noteq> 0 \<and> v = nc_vp (ncache s i) then 1 else 0))"
    unfolding E by (rule ext) (simp add: link_defs)
qed

lemma dnlc_enter_cases:
  assumes "dnlc_enter dp name vp cred s = Inr s'" "nc_lru s \<noteq> []"
  obtains "ncache s' = ncache s" "nc_lru s' = nc_lru s" "nc_hash s' = nc_hash s" "doingcache s' = doingcache s" "v_count s' = v_count s"
      "\<not> doingcache s \<or> NC_NAMLEN < length name \<or> (\<exists>h i. nc_hashfn name dp = Inr h \<and> dnlc_search dp name h cred s = Some i)"
  | h where "doingcache s" "length name \<le> NC_NAMLEN" "nc_hashfn name dp = Inr h" "dnlc_search dp name h cred s = None"
      "s' = nc_recycle (hd (nc_lru s)) dp name vp cred h s"
proof (cases "\<not> doingcache s \<or> NC_NAMLEN < length name")
  case True
  then show ?thesis using assms by (intro that(1)) (auto simp: dnlc_enter_def split: if_splits)
next
  case False
  then obtain h where h: "nc_hashfn name dp = Inr h" using assms(1)
    by (cases "nc_hashfn name dp") (auto simp: dnlc_enter_def kbind_def)
  show ?thesis
  proof (cases "dnlc_search dp name h cred s")
    case None
    then show ?thesis using assms False h by (intro that(2) [of h]) (auto simp: dnlc_enter_def kbind_def split: list.splits)
  next
    case (Some i)
    then show ?thesis using assms(1) False h by (intro that(1)) (auto simp: dnlc_enter_def kbind_def)
  qed
qed

lemma mset_swap_forward: "mset (swap_forward i xs) = mset xs"
  by (induction i xs rule: swap_forward.induct) auto

lemma dnlc_lookup_cases:
  assumes "dnlc_lookup dp name cred s = Inr (v, s')"
  obtains "v = 0" "ncache s' = ncache s" "nc_lru s' = nc_lru s" "nc_hash s' = nc_hash s" "doingcache s' = doingcache s" "v_count s' = v_count s"
      "\<not> doingcache s \<or> NC_NAMLEN < length name \<or> (\<exists>h. nc_hashfn name dp = Inr h \<and> dnlc_search dp name h cred s = None)"
  | h i where "doingcache s" "length name \<le> NC_NAMLEN" "nc_hashfn name dp = Inr h" "dnlc_search dp name h cred s = Some i"
      "v = nc_vp (ncache s i)" "ncache s' = ncache s" "nc_lru s' = remove1 i (nc_lru s) @ [i]"
      "nc_hash s' = (nc_hash s)(h := swap_forward i (nc_hash s h))" "doingcache s' = doingcache s" "v_count s' = v_count s"
proof (cases "\<not> doingcache s \<or> NC_NAMLEN < length name")
  case True
  then show ?thesis using assms by (intro that(1)) (auto simp: dnlc_lookup_def split: if_splits)
next
  case False
  then obtain h where h: "nc_hashfn name dp = Inr h" using assms
    by (cases "nc_hashfn name dp") (auto simp: dnlc_lookup_def kbind_def)
  show ?thesis
  proof (cases "dnlc_search dp name h cred s")
    case None
    then show ?thesis using assms False h by (intro that(1)) (auto simp: dnlc_lookup_def kbind_def)
  next
    case (Some i)
    then show ?thesis using assms False h by (intro that(2) [of h i]) (auto simp: dnlc_lookup_def kbind_def Let_def link_defs)
  qed
qed

lemma search_Some:
  assumes "dnlc_search dp name h cred s = Some i"
  shows "i \<in> set (nc_hash s h)" "nc_match (ncache s i) dp name cred"
  using assms unfolding dnlc_search_def by (auto simp: find_Some_iff)

lemma search_None: "dnlc_search dp name h cred s = None \<Longrightarrow> i \<in> set (nc_hash s h) \<Longrightarrow> \<not> nc_match (ncache s i) dp name cred"
  unfolding dnlc_search_def by (auto simp: find_None_iff)

lemma search_all:
  assumes "nc_ok s" "dnlc_search dp name h cred s = None" "nc_hashfn name dp = Inr h" "i < NC_SIZE" "dp \<noteq> 0" "nc_dp (ncache s i) = dp"
    "nc_name (ncache s i) = name" "cred = ANYCRED \<or> nc_cred (ncache s i) = cred"
  shows False
proof -
  note D = nc_wfD [OF assms(1) [unfolded nc_ok_def]]
  obtain k where k: "i \<in> set (nc_hash s k)" using D(9) [of i] assms by blast
  then have "k = h" using D(8) [of i k] assms by simp
  then show False using search_None [OF assms(2), of i] k assms(4-8) by (auto simp: nc_match_def)
qed

section \<open>The operations keep the invariant\<close>

lemma init_fold:
  "nc_lru (foldl (\<lambda>s i. nc_upd i (\<lambda>e. e\<lparr>nc_dp := 0, nc_vp := 0\<rparr>) (lru_front i s)) s is) = rev is @ nc_lru s"
  "i \<in> set is \<Longrightarrow> nc_dp (ncache (foldl (\<lambda>s i. nc_upd i (\<lambda>e. e\<lparr>nc_dp := 0, nc_vp := 0\<rparr>) (lru_front i s)) s is) i) = 0"
  "i \<in> set is \<Longrightarrow> nc_vp (ncache (foldl (\<lambda>s i. nc_upd i (\<lambda>e. e\<lparr>nc_dp := 0, nc_vp := 0\<rparr>) (lru_front i s)) s is) i) = 0"
  by (induction "is" rule: rev_induct) (auto simp: link_defs)

lemma dnlc_init_ok: "nc_ok (dnlc_init s)"
  unfolding nc_ok_def
proof (rule nc_wfI)
  fix i
  assume i: "i < NC_SIZE" "nc_dp (ncache (dnlc_init s) i) \<noteq> 0 \<or> nc_vp (ncache (dnlc_init s) i) \<noteq> 0"
  then show "\<exists>h. i \<in> set (nc_hash (dnlc_init s) h)" by (simp add: dnlc_init_def Let_def init_fold)
next
  fix i j
  assume i: "i < NC_SIZE" "nc_dp (ncache (dnlc_init s) i) \<noteq> 0"
  then show "i = j" by (simp add: dnlc_init_def Let_def init_fold)
qed (auto simp: dnlc_init_def Let_def init_fold)

lemma nc_okD: "nc_ok s \<Longrightarrow> nc_wf (ncache s) (nc_lru s) (nc_hash s)"
  by (simp add: nc_ok_def)

lemma nc_lru_nonempty: "nc_ok s \<Longrightarrow> nc_lru s \<noteq> []"
proof
  assume "nc_ok s" "nc_lru s = []"
  then have "{..<NC_SIZE} = {}" using nc_wfD(2) [OF nc_okD] by fastforce
  then show False by (simp add: NC_SIZE_def lessThan_empty_iff)
qed

lemma lru_last: "nc_ok s \<Longrightarrow> i < NC_SIZE \<Longrightarrow> distinct (remove1 i (nc_lru s) @ [i]) \<and> set (remove1 i (nc_lru s) @ [i]) = {..<NC_SIZE}"
  by (simp add: nc_wfD(1,2) [OF nc_okD]) blast

lemma lru_first: "nc_ok s \<Longrightarrow> i < NC_SIZE \<Longrightarrow> distinct (i # remove1 i (nc_lru s)) \<and> set (i # remove1 i (nc_lru s)) = {..<NC_SIZE}"
  by (simp add: nc_wfD(1,2) [OF nc_okD]) blast

lemma hd_lru: "nc_ok s \<Longrightarrow> hd (nc_lru s) < NC_SIZE"
  using hd_in_set [OF nc_lru_nonempty] nc_wfD(2) [OF nc_okD] by fastforce

lemma dnlc_rm_ok:
  assumes "nc_ok s" "i < NC_SIZE"
  shows "nc_ok (dnlc_rm i s)"
  unfolding nc_ok_def dnlc_rm_fields
  by (rule wf_clear) (use assms lru_first [OF assms] in \<open>simp_all add: nc_ok_def\<close>)

lemma nc_recycle_ok:
  assumes ok: "nc_ok s" and args: "dp \<noteq> 0" "vp \<noteq> 0" "length name \<le> NC_NAMLEN" "nc_hashfn name dp = Inr h" "i < NC_SIZE"
    and new: "dnlc_search dp name h cred s = None"
  shows "nc_ok (nc_recycle i dp name vp cred h s)"
  unfolding nc_ok_def nc_recycle_fields
proof (rule wf_fill)
  fix j
  assume "j < NC_SIZE" "nc_dp (ncache s j) = nc_dp ((ncache s i)\<lparr>nc_dp := dp, nc_vp := vp, nc_name := name, nc_cred := cred\<rparr>)"
    "nc_name (ncache s j) = nc_name ((ncache s i)\<lparr>nc_dp := dp, nc_vp := vp, nc_name := name, nc_cred := cred\<rparr>)"
    "nc_cred (ncache s j) = nc_cred ((ncache s i)\<lparr>nc_dp := dp, nc_vp := vp, nc_name := name, nc_cred := cred\<rparr>)"
  then show "j = i" using search_all [OF ok new args(4), of j] args(1) by simp
qed (use assms lru_last [OF ok args(5)] in \<open>auto simp: nc_ok_def\<close>)

lemma dnlc_enter_ok:
  assumes "nc_ok s" "dnlc_enter dp name vp cred s = Inr s'" "dp \<noteq> 0" "vp \<noteq> 0"
  shows "nc_ok s'"
  using assms(2) nc_lru_nonempty [OF assms(1)]
  by (rule dnlc_enter_cases) (use assms nc_recycle_ok [OF assms(1)] hd_lru [OF assms(1)] in \<open>auto simp: nc_ok_def\<close>)

lemma dnlc_lookup_ok:
  assumes ok: "nc_ok s" and l: "dnlc_lookup dp name cred s = Inr (v, s')"
  shows "nc_ok s'"
  using l
proof (cases rule: dnlc_lookup_cases)
  case 1
  then show ?thesis using ok by (simp add: nc_ok_def)
next
  case (2 h i)
  have "i < NC_SIZE" using search_Some(1) [OF 2(4)] nc_wfD(4) [OF ok [unfolded nc_ok_def]] by blast
  then have l: "distinct (nc_lru s')" "set (nc_lru s') = {..<NC_SIZE}" using lru_last [OF ok] by (simp_all add: 2)
  show ?thesis unfolding nc_ok_def \<open>ncache s' = ncache s\<close>
    by (rule wf_swap [OF nc_okD [OF ok] l]) (simp add: 2(8) mset_swap_forward)
qed

section \<open>What the cache holds\<close>

definition nc_holds :: "dnlc \<Rightarrow> nat \<Rightarrow> name \<Rightarrow> int \<Rightarrow> nat \<Rightarrow> bool" where
  "nc_holds s dp name cred vp = (dp \<noteq> 0 \<and> (\<exists>i<NC_SIZE. nc_dp (ncache s i) = dp \<and> nc_name (ncache s i) = name
     \<and> nc_cred (ncache s i) = cred \<and> nc_vp (ncache s i) = vp))"

lemma search_holds:
  assumes "nc_ok s" "dnlc_search dp name h cred s = Some i"
  shows "nc_holds s dp name (nc_cred (ncache s i)) (nc_vp (ncache s i))" "i < NC_SIZE" "nc_vp (ncache s i) \<noteq> 0"
    "cred = ANYCRED \<or> nc_cred (ncache s i) = cred"
proof -
  note D = nc_wfD [OF assms(1) [unfolded nc_ok_def]] and S = search_Some [OF assms(2)]
  show "i < NC_SIZE" "nc_vp (ncache s i) \<noteq> 0" using S D(4,6) by blast+
  show "cred = ANYCRED \<or> nc_cred (ncache s i) = cred" using S by (auto simp: nc_match_def)
  show "nc_holds s dp name (nc_cred (ncache s i)) (nc_vp (ncache s i))"
    unfolding nc_holds_def using S D(4,5) by (auto simp: nc_match_def)
qed

lemma dnlc_rm_holds:
  assumes "nc_holds (dnlc_rm i s) d n c v"
  shows "nc_holds s d n c v"
  using assms unfolding nc_holds_def dnlc_rm_fields by (auto split: if_splits)

lemma dnlc_enter_holds:
  assumes "nc_ok s" "dnlc_enter dp name vp cred s = Inr s'" "nc_holds s' d n c v"
  shows "nc_holds s d n c v \<or> (d = dp \<and> n = name \<and> c = cred \<and> v = vp)"
  using assms(2) nc_lru_nonempty [OF assms(1)]
  by (rule dnlc_enter_cases) (use assms(3) in \<open>auto simp: nc_holds_def nc_recycle_fields split: if_splits\<close>)

lemma dnlc_lookup_holds:
  assumes "nc_ok s" "dnlc_lookup dp name cred s = Inr (v, s')"
  shows "nc_holds s' = nc_holds s" "v \<noteq> 0 \<Longrightarrow> \<exists>c. nc_holds s dp name c v \<and> (cred = ANYCRED \<or> c = cred)"
proof -
  show "nc_holds s' = nc_holds s" using assms(2)
    by (cases rule: dnlc_lookup_cases) (auto simp: nc_holds_def fun_eq_iff)
  show "\<exists>c. nc_holds s dp name c v \<and> (cred = ANYCRED \<or> c = cred)" if "v \<noteq> 0" using assms(2)
  proof (cases rule: dnlc_lookup_cases)
    case (2 h i)
    then show ?thesis using search_holds(1,4) [OF assms(1) 2(4)] by blast
  qed (use that in simp)
qed

section \<open>Removal and the purge end\<close>

lemma remove_loop_None: "dnlc_search dp name h ANYCRED s = None \<Longrightarrow> remove_loop fuel dp name h s = Some s"
  by (simp add: remove_loop.simps)

lemma remove_loop_Some: "dnlc_search dp name h ANYCRED s = Some i \<Longrightarrow> remove_loop (Suc fuel) dp name h s = remove_loop fuel dp name h (dnlc_rm i s)"
  by (subst remove_loop.simps) simp

lemma remove_loop_0: "remove_loop 0 dp name h s = Some s' \<Longrightarrow> s' = s"
  by (simp add: remove_loop.simps split: option.splits)

lemma remove_loop_spec:
  assumes "nc_ok s" "length (nc_hash s h) \<le> fuel" "nc_hashfn name dp = Inr h" "dp \<noteq> 0"
  obtains s' where "remove_loop fuel dp name h s = Some s'" "nc_ok s'" "doingcache s' = doingcache s"
    "\<And>d n c v. nc_holds s' d n c v \<longleftrightarrow> nc_holds s d n c v \<and> \<not> (d = dp \<and> n = name)"
proof -
  have "\<exists>s'. remove_loop fuel dp name h s = Some s' \<and> nc_ok s' \<and> doingcache s' = doingcache s \<and>
    (\<forall>d n c v. nc_holds s' d n c v \<longleftrightarrow> nc_holds s d n c v \<and> \<not> (d = dp \<and> n = name))"
    using assms
  proof (induction fuel arbitrary: s)
    case 0
    then have "dnlc_search dp name h ANYCRED s = None" by (simp add: dnlc_search_def)
    moreover from this have "\<not> nc_holds s dp name c v" for c v
      unfolding nc_holds_def using search_all [OF 0(1) _ 0(3)] by blast
    ultimately show ?case using 0 remove_loop_None by auto
  next
    case (Suc fuel)
    show ?case
    proof (cases "dnlc_search dp name h ANYCRED s")
      case None
      then have "\<not> nc_holds s dp name c v" for c v
        unfolding nc_holds_def using search_all [OF Suc(2) _ Suc(4)] by blast
      then show ?thesis using remove_loop_None [OF None] Suc by auto
    next
      case (Some i)
      note I = search_holds [OF Suc(2) Some] and S = search_Some [OF Some]
      have "length (nc_hash (dnlc_rm i s) h) \<le> fuel" using Suc(3) S(1) by (auto simp: dnlc_rm_fields length_remove1)
      from Suc.IH [OF dnlc_rm_ok [OF Suc(2) I(2)] this Suc(4,5)] obtain s' where s':
        "remove_loop fuel dp name h (dnlc_rm i s) = Some s'" "nc_ok s'" "doingcache s' = doingcache s"
        "\<And>d n c v. nc_holds s' d n c v \<longleftrightarrow> nc_holds (dnlc_rm i s) d n c v \<and> \<not> (d = dp \<and> n = name)"
        by (auto simp: dnlc_rm_fields)
      moreover have "nc_holds (dnlc_rm i s) d n c v \<longleftrightarrow> nc_holds s d n c v" if "\<not> (d = dp \<and> n = name)" for d n c v
        using that S(2) I(2) by (auto simp: nc_holds_def dnlc_rm_fields nc_match_def split: if_splits)
      ultimately show ?thesis using remove_loop_Some [OF Some] by auto
    qed
  qed
  then show ?thesis using that by blast
qed

end
