(* ===== verification/Dnlc_props.thy ===== *)
theory Dnlc_props
  imports Dnlc
begin

text \<open>
  What the directory name lookup cache guarantees. The locale \<open>name_cache\<close> states what a client may rely on, and proves
  that a directory read through such a cache always shows its current contents; the cache of \<^verbatim>\<open>vfs_dnlc.c\<close> is
  one. Then the purge ends with nothing cached, and the vnode reference counts balance.
\<close>

section \<open>A directory behind a cache\<close>

text \<open>What \<^verbatim>\<open>ufs_dir.c\<close> does with names: \<^verbatim>\<open>dirlook\<close> asks the cache first and enters what it then finds in
  the directory, \<^verbatim>\<open>dirremove\<close> and \<^verbatim>\<open>dirrename\<close> remove the cached name before they change the directory.\<close>

datatype dir_event = Look nat name | Unlink nat name | Relink nat name nat

fun ev_ok :: "dir_event \<Rightarrow> bool" where
  "ev_ok (Look d n) = (d \<noteq> 0 \<and> n \<noteq> [])"
| "ev_ok (Unlink d n) = (d \<noteq> 0 \<and> n \<noteq> [])"
| "ev_ok (Relink d n v) = (d \<noteq> 0 \<and> n \<noteq> [] \<and> v \<noteq> 0)"

type_synonym directory = "nat \<times> name \<Rightarrow> nat option"

text \<open>The directory alone.\<close>

fun dir_ref :: "dir_event list \<Rightarrow> directory \<Rightarrow> nat option list" where
  "dir_ref [] D = []"
| "dir_ref (Look d n # es) D = D (d, n) # dir_ref es D"
| "dir_ref (Unlink d n # es) D = None # dir_ref es (D((d, n) := None))"
| "dir_ref (Relink d n v # es) D = None # dir_ref es (D((d, n) \<mapsto> v))"

text \<open>The directory behind the cache.\<close>

fun dir_run :: "(nat \<Rightarrow> name \<Rightarrow> 's \<Rightarrow> (nat \<times> 's) option) \<Rightarrow> (nat \<Rightarrow> name \<Rightarrow> nat \<Rightarrow> 's \<Rightarrow> 's option) \<Rightarrow> (nat \<Rightarrow> name \<Rightarrow> 's \<Rightarrow> 's option)
    \<Rightarrow> dir_event list \<Rightarrow> directory \<Rightarrow> 's \<Rightarrow> nat option list option" where
  "dir_run look enter rem [] D s = Some []"
| "dir_run look enter rem (Look d n # es) D s = (case look d n s of None \<Rightarrow> None
     | Some (v, s) \<Rightarrow>
         if v \<noteq> 0 then map_option ((#) (Some v)) (dir_run look enter rem es D s)
         else (case D (d, n) of
             None \<Rightarrow> map_option ((#) None) (dir_run look enter rem es D s)
           | Some v \<Rightarrow> (case enter d n v s of None \<Rightarrow> None
               | Some s \<Rightarrow> map_option ((#) (Some v)) (dir_run look enter rem es D s))))"
| "dir_run look enter rem (Unlink d n # es) D s = (case rem d n s of None \<Rightarrow> None
     | Some s \<Rightarrow> map_option ((#) None) (dir_run look enter rem es (D((d, n) := None)) s))"
| "dir_run look enter rem (Relink d n v # es) D s = (case rem d n s of None \<Rightarrow> None
     | Some s \<Rightarrow> (case enter d n v s of None \<Rightarrow> None
         | Some s \<Rightarrow> map_option ((#) None) (dir_run look enter rem es (D((d, n) \<mapsto> v)) s)))"

locale name_cache =
  fixes ok :: "'s \<Rightarrow> bool" and holds :: "'s \<Rightarrow> nat \<Rightarrow> name \<Rightarrow> nat \<Rightarrow> bool"
    and look :: "nat \<Rightarrow> name \<Rightarrow> 's \<Rightarrow> (nat \<times> 's) option"
    and enter :: "nat \<Rightarrow> name \<Rightarrow> nat \<Rightarrow> 's \<Rightarrow> 's option"
    and rem :: "nat \<Rightarrow> name \<Rightarrow> 's \<Rightarrow> 's option"
  assumes look: "ok s \<Longrightarrow> d \<noteq> 0 \<Longrightarrow> n \<noteq> [] \<Longrightarrow>
      \<exists>v s'. look d n s = Some (v, s') \<and> ok s' \<and> holds s' = holds s \<and> (v \<noteq> 0 \<longrightarrow> holds s d n v)"
    and enter: "ok s \<Longrightarrow> d \<noteq> 0 \<Longrightarrow> n \<noteq> [] \<Longrightarrow> v \<noteq> 0 \<Longrightarrow>
      \<exists>s'. enter d n v s = Some s' \<and> ok s' \<and> (\<forall>d' n' v'. holds s' d' n' v' \<longrightarrow> holds s d' n' v' \<or> (d' = d \<and> n' = n \<and> v' = v))"
    and rem: "ok s \<Longrightarrow> d \<noteq> 0 \<Longrightarrow> n \<noteq> [] \<Longrightarrow>
      \<exists>s'. rem d n s = Some s' \<and> ok s' \<and> (\<forall>d' n' v'. holds s' d' n' v' \<longrightarrow> holds s d' n' v' \<and> \<not> (d' = d \<and> n' = n))"
begin

lemma transparent:
  assumes "ok s" "\<And>d n v. holds s d n v \<Longrightarrow> D (d, n) = Some v" "\<And>k v. D k = Some v \<Longrightarrow> v \<noteq> 0" "\<forall>e \<in> set es. ev_ok e"
  shows "dir_run look enter rem es D s = Some (dir_ref es D)"
  using assms
proof (induction es D arbitrary: s rule: dir_ref.induct)
  case (2 d n es D)
  then have dn: "d \<noteq> 0" "n \<noteq> []" by auto
  obtain v s1 where l: "look d n s = Some (v, s1)" "ok s1" "holds s1 = holds s" "v \<noteq> 0 \<Longrightarrow> holds s d n v"
    using look [OF 2(2) dn] by blast
  have IH: "dir_run look enter rem es D s' = Some (dir_ref es D)" if "ok s'" "\<And>d n v. holds s' d n v \<Longrightarrow> D (d, n) = Some v" for s'
    using 2(1) [OF that 2(4)] 2(5) by simp
  show ?case
  proof (cases "v = 0")
    case False
    then show ?thesis using l IH [OF l(2)] 2(3) by simp
  next
    case True
    show ?thesis
    proof (cases "D (d, n)")
      case None
      then show ?thesis using l True IH [OF l(2)] 2(3) by simp
    next
      case (Some w)
      obtain s2 where e: "enter d n w s1 = Some s2" "ok s2" "\<And>d' n' v'. holds s2 d' n' v' \<Longrightarrow> holds s1 d' n' v' \<or> (d' = d \<and> n' = n \<and> v' = w)"
        using enter [OF l(2) dn 2(4) [OF Some]] by blast
      have "dir_run look enter rem es D s2 = Some (dir_ref es D)"
        using e(3) l(3) 2(3) Some by (intro IH [OF e(2)]) fastforce
      then show ?thesis using l True Some e by simp
    qed
  qed
next
  case (3 d n es D)
  then have dn: "d \<noteq> 0" "n \<noteq> []" by auto
  obtain s1 where r: "rem d n s = Some s1" "ok s1" "\<And>d' n' v'. holds s1 d' n' v' \<Longrightarrow> holds s d' n' v' \<and> \<not> (d' = d \<and> n' = n)"
    using rem [OF 3(2) dn] by blast
  have "dir_run look enter rem es (D((d, n) := None)) s1 = Some (dir_ref es (D((d, n) := None)))"
    using 3(3-5) r(3) by (intro 3(1) [OF r(2)]) (fastforce split: if_splits)+
  then show ?case using r by simp
next
  case (4 d n v es D)
  then have dn: "d \<noteq> 0" "n \<noteq> []" "v \<noteq> 0" by auto
  obtain s1 where r: "rem d n s = Some s1" "ok s1" "\<And>d' n' v'. holds s1 d' n' v' \<Longrightarrow> holds s d' n' v' \<and> \<not> (d' = d \<and> n' = n)"
    using rem [OF 4(2) dn(1,2)] by blast
  obtain s2 where e: "enter d n v s1 = Some s2" "ok s2" "\<And>d' n' v'. holds s2 d' n' v' \<Longrightarrow> holds s1 d' n' v' \<or> (d' = d \<and> n' = n \<and> v' = v)"
    using enter [OF r(2) dn] by blast
  have "dir_run look enter rem es (D((d, n) \<mapsto> v)) s2 = Some (dir_ref es (D((d, n) \<mapsto> v)))"
  proof (rule 4(1) [OF e(2)])
    show "(D((d, n) \<mapsto> v)) (d', n') = Some v'" if "holds s2 d' n' v'" for d' n' v'
      using e(3) [OF that] r(3) 4(3) by fastforce
    show "w \<noteq> 0" if "(D((d, n) \<mapsto> v)) k = Some w" for k w using that 4(4) dn(3) by (auto split: if_splits)
    show "\<forall>e \<in> set es. ev_ok e" using 4(5) by simp
  qed
  then show ?case using r e by simp
qed simp

end

section \<open>The cache of the kernel is one\<close>

definition dir_look :: "nat \<Rightarrow> name \<Rightarrow> dnlc \<Rightarrow> (nat \<times> dnlc) option" where
  "dir_look d n s = (case dnlc_lookup d n NOCRED s of Inl e \<Rightarrow> None | Inr r \<Rightarrow> Some r)"

definition dir_enter :: "nat \<Rightarrow> name \<Rightarrow> nat \<Rightarrow> dnlc \<Rightarrow> dnlc option" where
  "dir_enter d n v s = (case dnlc_enter d n v NOCRED s of Inl e \<Rightarrow> None | Inr s \<Rightarrow> Some s)"

definition dir_rem :: "nat \<Rightarrow> name \<Rightarrow> dnlc \<Rightarrow> dnlc option" where
  "dir_rem d n s = (case dnlc_remove d n s of Inl e \<Rightarrow> None | Inr r \<Rightarrow> r)"

definition cached :: "dnlc \<Rightarrow> nat \<Rightarrow> name \<Rightarrow> nat \<Rightarrow> bool" where
  "cached s d n v = (\<exists>c. nc_holds s d n c v)"

lemma nc_hashfn_ok: "n \<noteq> [] \<Longrightarrow> \<exists>h. nc_hashfn n d = Inr h" by (simp add: nc_hashfn_def)

lemma holds_len: "nc_ok s \<Longrightarrow> nc_holds s d n c v \<Longrightarrow> length n \<le> NC_NAMLEN"
  unfolding nc_holds_def using nc_wfD(7,9) [OF nc_okD] by (metis (no_types))

lemma dnlc_remove_spec:
  assumes "nc_ok s" "n \<noteq> []" "d \<noteq> 0"
  obtains s' where "dnlc_remove d n s = Inr (Some s')" "nc_ok s'" "doingcache s' = doingcache s"
    "\<And>d' n' c v. nc_holds s' d' n' c v \<longleftrightarrow> nc_holds s d' n' c v \<and> \<not> (d' = d \<and> n' = n)"
proof (cases "NC_NAMLEN < length n")
  case True
  then have "nc_holds s d' n' c v \<Longrightarrow> \<not> (d' = d \<and> n' = n)" for d' n' c v using holds_len [OF assms(1)] by fastforce
  then show ?thesis using True assms(1) by (intro that [of s]) (auto simp: dnlc_remove_def)
next
  case False
  obtain h where h: "nc_hashfn n d = Inr h" using nc_hashfn_ok [OF assms(2)] by blast
  from remove_loop_spec [OF assms(1) order_refl h assms(3)] obtain s' where
    "remove_loop (length (nc_hash s h)) d n h s = Some s'" "nc_ok s'" "doingcache s' = doingcache s"
    "\<And>d' n' c v. nc_holds s' d' n' c v \<longleftrightarrow> nc_holds s d' n' c v \<and> \<not> (d' = d \<and> n' = n)" by blast
  then show ?thesis using False h by (intro that [of s']) (simp_all add: dnlc_remove_def)
qed

lemma dnlc_enter_Inr: "n \<noteq> [] \<Longrightarrow> \<exists>s'. dnlc_enter d n v c s = Inr s'"
  using nc_hashfn_ok [of n d] by (auto simp: dnlc_enter_def split: option.splits list.splits)

lemma dnlc_lookup_Inr: "n \<noteq> [] \<Longrightarrow> \<exists>v s'. dnlc_lookup d n c s = Inr (v, s')"
  using nc_hashfn_ok [of n d] by (auto simp: dnlc_lookup_def Let_def split: option.splits)

interpretation dnlc: name_cache nc_ok cached dir_look dir_enter dir_rem
proof
  fix s :: dnlc and d :: nat and n :: name assume a: "nc_ok s" "d \<noteq> 0" "n \<noteq> []"
  obtain v s' where l: "dnlc_lookup d n NOCRED s = Inr (v, s')" using dnlc_lookup_Inr [OF a(3)] by blast
  show "\<exists>v s'. dir_look d n s = Some (v, s') \<and> nc_ok s' \<and> cached s' = cached s \<and> (v \<noteq> 0 \<longrightarrow> cached s d n v)"
    using dnlc_lookup_ok [OF a(1) l] dnlc_lookup_holds [OF a(1) l]
    by (intro exI [of _ v] exI [of _ s']) (auto simp: dir_look_def l cached_def fun_eq_iff)
next
  fix s :: dnlc and d v :: nat and n :: name assume a: "nc_ok s" "d \<noteq> 0" "n \<noteq> []" "v \<noteq> 0"
  obtain s' where e: "dnlc_enter d n v NOCRED s = Inr s'" using dnlc_enter_Inr [OF a(3)] by blast
  show "\<exists>s'. dir_enter d n v s = Some s' \<and> nc_ok s' \<and> (\<forall>d' n' v'. cached s' d' n' v' \<longrightarrow> cached s d' n' v' \<or> (d' = d \<and> n' = n \<and> v' = v))"
    using dnlc_enter_ok [OF a(1) e a(2,4)] dnlc_enter_holds [OF a(1) e]
    by (intro exI [of _ s']) (simp add: dir_enter_def e cached_def, blast)
next
  fix s :: dnlc and d :: nat and n :: name assume a: "nc_ok s" "d \<noteq> 0" "n \<noteq> []"
  show "\<exists>s'. dir_rem d n s = Some s' \<and> nc_ok s' \<and> (\<forall>d' n' v'. cached s' d' n' v' \<longrightarrow> cached s d' n' v' \<and> \<not> (d' = d \<and> n' = n))"
    by (rule dnlc_remove_spec [OF a(1) a(3) a(2)]) (auto simp: dir_rem_def cached_def)
qed

section \<open>The purge\<close>

lemma find_nonempty:
  assumes "nc_ok s" "find (\<lambda>h. nc_hash s h \<noteq> []) [0..<NC_HASH_SIZE] = None"
  shows "nc_hash s h = []"
proof (rule ccontr)
  assume ne: "nc_hash s h \<noteq> []"
  then obtain i where i: "i \<in> set (nc_hash s h)" by (meson last_in_set)
  have "h < NC_HASH_SIZE"
    using nc_wfD(8) [OF nc_okD [OF assms(1)] i] by (auto simp: nc_hashfn_def NC_HASH_SIZE_def nat_less_iff split: if_splits)
  then show False using assms(2) ne by (simp add: find_None_iff)
qed

lemma empty_chains_hold_nothing:
  assumes "nc_ok s" "\<And>h. nc_hash s h = []"
  shows "\<not> nc_holds s d n c v"
  unfolding nc_holds_def using nc_wfD(9) [OF nc_okD [OF assms(1)]] assms(2) by auto

definition in_use :: "dnlc \<Rightarrow> nat set" where
  "in_use s = {i. i < NC_SIZE \<and> nc_dp (ncache s i) \<noteq> 0}"

lemma purge_loop_None: "find (\<lambda>h. nc_hash s h \<noteq> []) [0..<NC_HASH_SIZE] = None \<Longrightarrow> purge_loop fuel s = Some (Inr s)"
  by (subst purge_loop.simps) simp

lemma purge_loop_Some:
  assumes "find (\<lambda>h. nc_hash s h \<noteq> []) [0..<NC_HASH_SIZE] = Some h" "nc_dp (ncache s (hd (nc_hash s h))) \<noteq> 0"
    "nc_vp (ncache s (hd (nc_hash s h))) \<noteq> 0"
  shows "purge_loop (Suc fuel) s = purge_loop fuel (dnlc_rm (hd (nc_hash s h)) s)"
  using assms by (subst purge_loop.simps) (simp add: Let_def del: purge_loop.simps)

lemma purge_loop_spec:
  assumes "nc_ok s" "card (in_use s) \<le> fuel"
  obtains s' where "purge_loop fuel s = Some (Inr s')" "nc_ok s'" "\<And>h. nc_hash s' h = []" "doingcache s' = doingcache s"
proof -
  have "\<exists>s'. purge_loop fuel s = Some (Inr s') \<and> nc_ok s' \<and> (\<forall>h. nc_hash s' h = []) \<and> doingcache s' = doingcache s"
    using assms
  proof (induction fuel arbitrary: s)
    case 0
    have "finite (in_use s)" by (rule finite_subset [of _ "{..<NC_SIZE}"]) (auto simp: in_use_def)
    then have "in_use s = {}" using 0 by simp
    then have "nc_hash s h = []" for h
      using nc_wfD(4,5) [OF nc_okD [OF 0(1)], of _ h] by (cases "nc_hash s h") (auto simp: in_use_def)
    moreover from this have "find (\<lambda>h. nc_hash s h \<noteq> []) [0..<NC_HASH_SIZE] = None" by (simp add: find_None_iff)
    ultimately show ?case using 0 purge_loop_None by auto
  next
    case (Suc fuel)
    show ?case
    proof (cases "find (\<lambda>h. nc_hash s h \<noteq> []) [0..<NC_HASH_SIZE]")
      case None
      then show ?thesis using find_nonempty [OF Suc(2) None] Suc(2) purge_loop_None [OF None] by auto
    next
      case (Some h)
      define i where "i = hd (nc_hash s h)"
      have "nc_hash s h \<noteq> []" using Some by (auto simp: find_Some_iff)
      then have i: "i \<in> set (nc_hash s h)" by (simp add: i_def)
      note I = nc_wfD(4-6) [OF nc_okD [OF Suc(2)] i]
      have "finite (in_use s)" by (rule finite_subset [of _ "{..<NC_SIZE}"]) (auto simp: in_use_def)
      moreover have "in_use (dnlc_rm i s) = in_use s - {i}" by (auto simp: in_use_def dnlc_rm_fields split: if_splits)
      moreover have "i \<in> in_use s" using I by (simp add: in_use_def)
      ultimately have "card (in_use (dnlc_rm i s)) \<le> fuel" using Suc(3) by simp
      from Suc.IH [OF dnlc_rm_ok [OF Suc(2) I(1)] this] show ?thesis
        using purge_loop_Some [OF Some] I by (simp add: i_def [symmetric] dnlc_rm_fields)
    qed
  qed
  then show ?thesis using that by blast
qed

lemma dnlc_purge_spec:
  assumes "nc_ok s"
  obtains s' where "dnlc_purge s = Some (Inr s')" "nc_ok s'" "\<And>h. nc_hash s' h = []" "doingcache s' = doingcache s"
proof -
  let ?s = "s\<lparr>purges := purges s + 1\<rparr>"
  have "card (in_use ?s) \<le> card {..<NC_SIZE}" by (rule card_mono) (auto simp: in_use_def)
  then have "card (in_use ?s) \<le> NC_SIZE" by simp
  moreover have "nc_ok ?s" using assms by (simp add: nc_ok_def)
  ultimately obtain s' where "purge_loop NC_SIZE ?s = Some (Inr s')" "nc_ok s'" "\<And>h. nc_hash s' h = []" "doingcache s' = doingcache ?s"
    using purge_loop_spec by blast
  then show ?thesis using that by (simp add: dnlc_purge_def)
qed

section \<open>Reference counts\<close>

text \<open>How many of the cache's entries point to a vnode.\<close>

definition held :: "dnlc \<Rightarrow> nat \<Rightarrow> int" where
  "held s v = (\<Sum>i<NC_SIZE. (if nc_dp (ncache s i) = v then 1 else 0) + (if nc_vp (ncache s i) = v then 1 else 0))"

definition outside :: "dnlc \<Rightarrow> nat \<Rightarrow> int" where "outside s v = v_count s v - held s v"

lemma held_upd:
  assumes "i < NC_SIZE" "ncache s' = (ncache s)(i := e)"
  shows "held s' v = held s v - (if nc_dp (ncache s i) = v then 1 else 0) - (if nc_vp (ncache s i) = v then 1 else 0)
    + (if nc_dp e = v then 1 else 0) + (if nc_vp e = v then 1 else 0)"
proof -
  have "finite {..<NC_SIZE}" "i \<in> {..<NC_SIZE}" using assms(1) by auto
  then show ?thesis unfolding held_def by (subst (1 2) sum.remove [where x = i]) (auto simp: assms(2))
qed

lemma dnlc_rm_outside: "i < NC_SIZE \<Longrightarrow> v \<noteq> 0 \<Longrightarrow> outside (dnlc_rm i s) v = outside s v"
  unfolding outside_def by (subst held_upd [OF _ dnlc_rm_fields(1)]) (auto simp: dnlc_rm_fields(5))

lemma nc_recycle_outside: "i < NC_SIZE \<Longrightarrow> v \<noteq> 0 \<Longrightarrow> outside (nc_recycle i dp name vp cred h s) v = outside s v"
  unfolding outside_def by (subst held_upd [OF _ nc_recycle_fields(1)]) (auto simp: nc_recycle_fields(5))

lemma held_cong: "ncache s' = ncache s \<Longrightarrow> held s' v = held s v" by (simp add: held_def)

lemma remove_loop_outside:
  "nc_ok s \<Longrightarrow> remove_loop fuel dp name h s = Some s' \<Longrightarrow> v \<noteq> 0 \<Longrightarrow> outside s' v = outside s v"
proof (induction fuel arbitrary: s)
  case (Suc fuel)
  show ?case
  proof (cases "dnlc_search dp name h ANYCRED s")
    case (Some i)
    note I = search_holds(2) [OF Suc(2) Some]
    show ?thesis using Suc.IH [OF dnlc_rm_ok [OF Suc(2) I]] Suc(3,4) remove_loop_Some [OF Some] dnlc_rm_outside [OF I Suc(4)] by simp
  next
    case None
    then have "s' = s" using Suc(3) remove_loop_None [OF None] by simp
    then show ?thesis by simp
  qed
qed (use remove_loop_0 in blast)

lemma purge_loop_outside:
  "nc_ok s \<Longrightarrow> purge_loop fuel s = Some (Inr s') \<Longrightarrow> v \<noteq> 0 \<Longrightarrow> outside s' v = outside s v"
proof (induction fuel arbitrary: s)
  case (Suc fuel)
  show ?case
  proof (cases "find (\<lambda>h. nc_hash s h \<noteq> []) [0..<NC_HASH_SIZE]")
    case (Some h)
    define i where "i = hd (nc_hash s h)"
    have "nc_hash s h \<noteq> []" using Some by (auto simp: find_Some_iff)
    then have "i \<in> set (nc_hash s h)" by (simp add: i_def)
    then have I: "i < NC_SIZE" "nc_dp (ncache s i) \<noteq> 0" "nc_vp (ncache s i) \<noteq> 0" using nc_wfD(4-6) [OF nc_okD [OF Suc(2)]] by blast+
    have "purge_loop fuel (dnlc_rm i s) = Some (Inr s')"
      using Suc(3) purge_loop_Some [OF Some] I by (simp add: i_def [symmetric])
    then show ?thesis using Suc.IH [OF dnlc_rm_ok [OF Suc(2) I(1)]] Suc(4) dnlc_rm_outside [OF I(1) Suc(4)] by simp
  next
    case None
    then have "s' = s" using Suc(3) purge_loop_None [OF None] by simp
    then show ?thesis by simp
  qed
qed (simp add: purge_loop.simps Let_def split: option.splits if_splits)

text \<open>\<^verbatim>\<open>vn_rele\<close> panics when the count of the vnode is already 0, which \<open>vn_drop\<close> does not say. While nobody outside
  drops more references than he holds, the counts cover what the cache is about to release, so the panic is out of its reach.\<close>

lemma dnlc_release_covered:
  assumes "0 \<le> outside s v" "i < NC_SIZE"
  shows "(if nc_dp (ncache s i) = v then 1 else 0) + (if nc_vp (ncache s i) = v then 1 else 0) \<le> v_count s v"
proof -
  have "(\<lambda>j. (if nc_dp (ncache s j) = v then 1 else 0) + (if nc_vp (ncache s j) = v then 1 else 0) :: int) i \<le> held s v"
    unfolding held_def by (rule member_le_sum) (use assms(2) in auto)
  then show ?thesis using assms(1) by (simp add: outside_def)
qed

section \<open>Properties\<close>

text \<open>C32. Names looked up through the cache: a directory of which every lookup first asks \<^verbatim>\<open>dnlc_lookup\<close> and enters
  what it then had to search for, and of which every change first calls \<^verbatim>\<open>dnlc_remove\<close>, answers each lookup as the
  directory alone would, for every sequence of lookups, removals and renames. No entry ever is stale, whatever the LRU chain
  recycles.\<close>

theorem dnlc_transparent:
  assumes "nc_ok s" "\<And>d n c v. nc_holds s d n c v \<Longrightarrow> D (d, n) = Some v" "\<And>k v. D k = Some v \<Longrightarrow> v \<noteq> 0" "list_all ev_ok es"
  shows "dir_run dir_look dir_enter dir_rem es D s = Some (dir_ref es D)"
proof (rule dnlc.transparent [OF assms(1)])
  show "D (d, n) = Some v" if "cached s d n v" for d n v using that assms(2) by (auto simp: cached_def)
  show "v \<noteq> 0" if "D k = Some v" for k v using that by (rule assms(3))
qed (use assms(4) in \<open>simp add: list_all_iff\<close>)

definition nc0 :: dnlc where
  "nc0 = dnlc_init \<lparr>ncache = (\<lambda>i. \<lparr>nc_dp = 0, nc_vp = 0, nc_name = [], nc_cred = 0\<rparr>), nc_lru = [], nc_hash = (\<lambda>h. []), hits = 0, misses = 0,
     long_enter = 0, long_look = 0, lru_empty = 0, purges = 0, doingcache = True, v_count = (\<lambda>v. 1), cr_ref = (\<lambda>c. 0)\<rparr>"

lemma init_doingcache: "doingcache (foldl (\<lambda>s i. nc_upd i f (lru_front i s)) s is) = doingcache s"
  by (induction "is" rule: rev_induct) (simp_all add: link_defs)

lemma nc0_ok: "nc_ok nc0" "doingcache nc0"
  unfolding nc0_def by (rule dnlc_init_ok) (simp add: dnlc_init_def Let_def init_doingcache)

lemma nc0_holds: "\<not> nc_holds nc0 d n c v"
  by (rule empty_chains_hold_nothing [OF nc0_ok(1)]) (simp add: nc0_def dnlc_init_def Let_def)

lemma dnlc_transparent_witness:
  "dir_run dir_look dir_enter dir_rem [Relink 3 [97, 98] 7, Look 3 [97, 98], Unlink 3 [97, 98], Look 3 [97, 98]] (\<lambda>k. None) nc0
     = Some [None, Some 7, None, None]"
  using dnlc_transparent [of nc0 "\<lambda>k. None" "[Relink 3 [97, 98] 7, Look 3 [97, 98], Unlink 3 [97, 98], Look 3 [97, 98]]"]
  by (simp add: nc0_ok nc0_holds)

text \<open>C33. The form of the cache, an invariant of all its operations: every entry is on the LRU chain once, the entries in
  use are on the hash chain of their name and no other, no key is there twice. \<^verbatim>\<open>dnlc_init\<close> builds it, the
  operations keep it, and on a name that is not empty none of them faults, panics or loops.\<close>

theorem dnlc_invariant:
  assumes "dp \<noteq> 0" "vp \<noteq> 0" "name \<noteq> []" "nc_ok s"
  shows "nc_ok (dnlc_init t) \<and> (\<exists>s'. dnlc_enter dp name vp cred s = Inr s' \<and> nc_ok s') \<and>
    (\<exists>v s'. dnlc_lookup dp name cred s = Inr (v, s') \<and> nc_ok s') \<and>
    (\<exists>s'. dnlc_remove dp name s = Inr (Some s') \<and> nc_ok s') \<and> (\<exists>s'. dnlc_purge s = Some (Inr s') \<and> nc_ok s')"
proof (intro conjI)
  show "nc_ok (dnlc_init t)" by (rule dnlc_init_ok)
  show "\<exists>s'. dnlc_enter dp name vp cred s = Inr s' \<and> nc_ok s'"
    using dnlc_enter_Inr [OF assms(3)] dnlc_enter_ok [OF assms(4) _ assms(1,2)] by blast
  show "\<exists>v s'. dnlc_lookup dp name cred s = Inr (v, s') \<and> nc_ok s'"
    using dnlc_lookup_Inr [OF assms(3)] dnlc_lookup_ok [OF assms(4)] by blast
  show "\<exists>s'. dnlc_remove dp name s = Inr (Some s') \<and> nc_ok s'"
    by (rule dnlc_remove_spec [OF assms(4,3,1)]) blast
  show "\<exists>s'. dnlc_purge s = Some (Inr s') \<and> nc_ok s'"
    by (rule dnlc_purge_spec [OF assms(4)]) blast
qed

lemma dnlc_invariant_witness: "\<exists>s'. dnlc_enter 3 [97] 7 0 nc0 = Inr s' \<and> nc_ok s'"
  using dnlc_invariant [of 3 7 "[97]" nc0 undefined 0] by (simp add: nc0_ok)

text \<open>What is entered is found: after \<^verbatim>\<open>dnlc_remove\<close> and \<^verbatim>\<open>dnlc_enter\<close> of a name of at most 15
  characters, \<^verbatim>\<open>dnlc_lookup\<close> returns the vnode that was entered; after \<^verbatim>\<open>dnlc_remove\<close> alone it returns
  none, for any credentials.\<close>

theorem dnlc_enter_found:
  assumes "nc_ok s" "dp \<noteq> 0" "vp \<noteq> 0" "name \<noteq> []" "length name \<le> NC_NAMLEN" "doingcache s" "dnlc_remove dp name s = Inr (Some s1)"
  shows "(\<forall>c v s2. dnlc_lookup dp name c s1 = Inr (v, s2) \<longrightarrow> v = 0) \<and>
    (\<exists>s2 s3. dnlc_enter dp name vp cred s1 = Inr s2 \<and> dnlc_lookup dp name cred s2 = Inr (vp, s3))"
proof -
  obtain s' where s': "dnlc_remove dp name s = Inr (Some s')" "nc_ok s'" "doingcache s' = doingcache s"
    "\<And>d' n' c v. nc_holds s' d' n' c v \<longleftrightarrow> nc_holds s d' n' c v \<and> \<not> (d' = dp \<and> n' = name)"
    using dnlc_remove_spec [OF assms(1,4,2)] by blast
  then have s1: "nc_ok s1" "doingcache s1" "\<And>c v. \<not> nc_holds s1 dp name c v" using assms(6,7) by auto
  obtain h where h: "nc_hashfn name dp = Inr h" using nc_hashfn_ok [OF assms(4)] by blast
  have N: "dnlc_search dp name h c s1 = None" for c
  proof (cases "dnlc_search dp name h c s1")
    case (Some i)
    then show ?thesis using search_holds(1) [OF s1(1)] s1(3) by blast
  qed
  have "v = 0" if "dnlc_lookup dp name c s1 = Inr (v, s2)" for c v s2 using that
    by (cases rule: dnlc_lookup_cases) (use h N in auto)
  moreover have "dnlc_enter dp name vp cred s1 = Inr (nc_recycle (hd (nc_lru s1)) dp name vp cred h s1)"
    using s1(2) assms(5) h N [of cred] nc_lru_nonempty [OF s1(1)] by (simp add: dnlc_enter_def split: list.splits)
  moreover have "\<exists>s3. dnlc_lookup dp name cred (nc_recycle (hd (nc_lru s1)) dp name vp cred h s1) = Inr (vp, s3)"
    using s1(2) assms(5) h by (simp add: dnlc_lookup_def nc_recycle_fields dnlc_search_def nc_match_def Let_def link_defs)
  ultimately show ?thesis by blast
qed

lemma dnlc_enter_found_witness:
  "\<exists>s1 s2 s3. dnlc_remove 3 [97] nc0 = Inr (Some s1) \<and> dnlc_enter 3 [97] 7 0 s1 = Inr s2 \<and> dnlc_lookup 3 [97] 0 s2 = Inr (7, s3)"
proof -
  obtain s1 where s1: "dnlc_remove 3 [97] nc0 = Inr (Some s1)" by (rule dnlc_remove_spec [OF nc0_ok(1), of "[97]" 3]) auto
  with dnlc_enter_found [of nc0 3 7 "[97]" s1 0] nc0_ok show ?thesis unfolding NC_NAMLEN_def by auto
qed

text \<open>C34. The cache's references: \<^verbatim>\<open>dnlc_enter\<close>, \<^verbatim>\<open>dnlc_lookup\<close>, \<^verbatim>\<open>dnlc_remove\<close> and \<^verbatim>\<open>dnlc_purge\<close> change the
  reference count of a vnode only by the entries that point to it, so what others hold of it stays as it was; and
  \<^verbatim>\<open>dnlc_purge\<close> gives back all the cache holds.\<close>

theorem dnlc_counts_balance:
  assumes "nc_ok s" "v \<noteq> 0"
  shows "(dnlc_enter dp name vp cred s = Inr s1 \<longrightarrow> outside s1 v = outside s v) \<and>
    (dnlc_lookup dp name cred s = Inr (w, s2) \<longrightarrow> outside s2 v = outside s v) \<and>
    (dnlc_remove dp name s = Inr (Some s3) \<longrightarrow> outside s3 v = outside s v) \<and>
    (dnlc_purge s = Some (Inr s4) \<longrightarrow> v_count s4 v = outside s v \<and> \<not> nc_holds s4 dp name cred w)"
proof (intro conjI impI)
  assume e: "dnlc_enter dp name vp cred s = Inr s1"
  show "outside s1 v = outside s v" using e nc_lru_nonempty [OF assms(1)]
  proof (cases rule: dnlc_enter_cases)
    case 1
    then show ?thesis using held_cong [OF 1(1)] by (simp only: outside_def)
  next
    case (2 h)
    show ?thesis unfolding 2(5) by (rule nc_recycle_outside [OF hd_lru [OF assms(1)] assms(2)])
  qed
next
  assume e: "dnlc_lookup dp name cred s = Inr (w, s2)"
  then show "outside s2 v = outside s v"
  proof (cases rule: dnlc_lookup_cases)
    case 1
    then show ?thesis using held_cong [OF 1(2)] by (simp only: outside_def)
  next
    case 2
    then show ?thesis using held_cong [OF 2(6)] by (simp only: outside_def)
  qed
next
  assume e: "dnlc_remove dp name s = Inr (Some s3)"
  then show "outside s3 v = outside s v" using remove_loop_outside [OF assms(1) _ assms(2)]
    by (auto simp: dnlc_remove_def split: if_splits)
next
  assume e: "dnlc_purge s = Some (Inr s4)"
  obtain s' where s': "dnlc_purge s = Some (Inr s')" "nc_ok s'" "\<And>h. nc_hash s' h = []" by (rule dnlc_purge_spec [OF assms(1)]) blast
  then have s4: "nc_ok s4" "\<And>h. nc_hash s4 h = []" using e by auto
  have "held s4 v = 0" unfolding held_def using nc_wfD(9) [OF nc_okD [OF s4(1)]] s4(2) assms(2) by (intro sum.neutral) fastforce
  moreover have "outside s4 v = outside s v" using purge_loop_outside [OF _ e [unfolded dnlc_purge_def] assms(2)] assms(1)
    by (simp add: nc_ok_def outside_def held_def)
  ultimately show "v_count s4 v = outside s v" by (simp add: outside_def)
  show "\<not> nc_holds s4 dp name cred w" by (rule empty_chains_hold_nothing [OF s4])
qed

lemma dnlc_counts_balance_witness:
  "\<exists>s1. dnlc_enter 3 [97] 7 0 nc0 = Inr s1 \<and> outside s1 7 = outside nc0 7"
proof -
  obtain s1 where e: "dnlc_enter 3 [97] 7 0 nc0 = Inr s1" using dnlc_enter_Inr [of "[97]" 3 7 0 nc0] by auto
  then show ?thesis using dnlc_counts_balance [OF nc0_ok(1), of 7 3 "[97]" 7 0 s1] by simp
qed

end
