(* ===== verification/Descrip.thy ===== *)
theory Descrip
  imports Prelude "HOL-Library.Multiset"
begin

unbundle bit_operations_syntax

text \<open>
  Descriptors: \<^verbatim>\<open>sys/sys/kern_descrip.c\<close>, \<^verbatim>\<open>sys/h/file.h\<close>, the loops over a process's descriptors in
  \<^verbatim>\<open>newproc\<close>, \<^verbatim>\<open>exit\<close> and \<^verbatim>\<open>getxfile\<close>/\<^verbatim>\<open>execve\<close>, and the passing of descriptors in messages of
  \<^verbatim>\<open>sys/sys/uipc_usrreq.c\<close>. The state holds the file table, the descriptor part of the running process's u area,
  and the two results of a system call. The operations behind \<^verbatim>\<open>f_ops\<close> are arguments: \<open>fo_close\<close> and \<open>fo_ioctl\<close>
  take the file's number and return the state they leave. The close of a socket that holds descriptors in unread messages
  drops the counts of other files, which no argument \<open>fo_close\<close> used in the proofs does: see \<open>close_ok\<close> and the theory \<^verbatim>\<open>Unp_gc\<close>. Counts are integers: a \<^verbatim>\<open>short\<close> holds the references of
  500 processes with all their 64 descriptors on one file.
\<close>

section \<open>The state\<close>

definition NOFILE :: int where "NOFILE = 64"
definition EBADF :: int where "EBADF = 9"
definition EINVAL :: int where "EINVAL = 22"
definition ENFILE :: int where "ENFILE = 23"
definition EMFILE :: int where "EMFILE = 24"
definition ESRCH :: int where "ESRCH = 3"
definition EMSGSIZE :: int where "EMSGSIZE = 40"
definition EOPNOTSUPP :: int where "EOPNOTSUPP = 45"
definition UF_EXCLOSE :: "8 word" where "UF_EXCLOSE = 1"
definition UF_MAPPED :: "8 word" where "UF_MAPPED = 2"
definition DTYPE_VNODE :: int where "DTYPE_VNODE = 1"
definition DTYPE_SOCKET :: int where "DTYPE_SOCKET = 2"

definition FNDELAY :: "32 word" where "FNDELAY = 0x04"
definition FMARK :: "32 word" where "FMARK = 0x10"
definition FDEFER :: "32 word" where "FDEFER = 0x20"
definition FASYNC :: "32 word" where "FASYNC = 0x40"
definition FSHLOCK :: "32 word" where "FSHLOCK = 0x80"
definition FEXLOCK :: "32 word" where "FEXLOCK = 0x100"
definition FCNTLCANT :: "32 word" where "FCNTLCANT = 0x1B3"

record kfile =
  f_flag :: "32 word"
  f_type :: int
  f_count :: int
  f_msgcount :: int
  f_data :: nat
  f_offset :: int
  f_cred :: nat

record fdsys =
  files :: "kfile list"
  lastf :: "nat option"
  u_ofile :: "nat option list"
  u_pofile :: "8 word list"
  u_lastfile :: int
  u_cred :: nat
  u_error :: int
  r_val1 :: int
  unp_rights :: int
  so_pgrp :: "nat \<Rightarrow> int"
  cr_ref :: "nat \<Rightarrow> int"

definition upd_file :: "nat \<Rightarrow> (kfile \<Rightarrow> kfile) \<Rightarrow> fdsys \<Rightarrow> fdsys" where
  "upd_file fp f s = s\<lparr>files := (files s)[fp := f (files s ! fp)]\<rparr>"

definition set_slot :: "int \<Rightarrow> nat option \<Rightarrow> fdsys \<Rightarrow> fdsys" where
  "set_slot i x s = s\<lparr>u_ofile := (u_ofile s)[nat i := x]\<rparr>"

definition set_pflag :: "int \<Rightarrow> 8 word \<Rightarrow> fdsys \<Rightarrow> fdsys" where
  "set_pflag i x s = s\<lparr>u_pofile := (u_pofile s)[nat i := x]\<rparr>"

definition pflag :: "int \<Rightarrow> fdsys \<Rightarrow> 8 word" where "pflag i s = u_pofile s ! nat i"

section \<open>Allocation\<close>

definition getf :: "int \<Rightarrow> fdsys \<Rightarrow> nat option \<times> fdsys" where
  "getf f s = (if f < 0 \<or> NOFILE \<le> f then (None, s\<lparr>u_error := EBADF\<rparr>)
     else case u_ofile s ! nat f of None \<Rightarrow> (None, s\<lparr>u_error := EBADF\<rparr>) | Some fp \<Rightarrow> (Some fp, s))"

text \<open>The first free descriptor from \<open>i\<close> on.\<close>

definition free_from :: "int \<Rightarrow> nat option list \<Rightarrow> nat option" where
  "free_from i fs = find (\<lambda>j. fs ! j = None) [nat i..<nat NOFILE]"

definition ufalloc :: "int \<Rightarrow> fdsys \<Rightarrow> int \<times> fdsys" where
  "ufalloc i s = (case free_from i (u_ofile s) of
       None \<Rightarrow> (-1, s\<lparr>u_error := EMFILE\<rparr>)
     | Some j \<Rightarrow> (int j, set_pflag (int j) 0 (s\<lparr>r_val1 := int j, u_lastfile := max (u_lastfile s) (int j)\<rparr>)))"

definition ufavail :: "fdsys \<Rightarrow> nat" where
  "ufavail s = length (filter (\<lambda>i. u_ofile s ! i = None) [0..<nat NOFILE])"

definition file_init :: "nat \<Rightarrow> kfile \<Rightarrow> kfile" where
  "file_init cred f = f\<lparr>f_count := 1, f_data := 0, f_offset := 0, f_cred := cred\<rparr>"

definition falloc :: "fdsys \<Rightarrow> nat option \<times> fdsys" where
  "falloc s = (let (i, s) = ufalloc 0 s in
     if i < 0 then (None, s)
     else let lf = (case lastf s of None \<Rightarrow> 0 | Some l \<Rightarrow> l) in
       case find (\<lambda>fp. f_count (files s ! fp) = 0) ([lf..<length (files s)] @ [0..<lf]) of
         None \<Rightarrow> (None, s\<lparr>lastf := Some lf, u_error := ENFILE\<rparr>)
       | Some fp \<Rightarrow>
           let s = upd_file fp (file_init (u_cred s)) (set_slot i (Some fp) s)
           in (Some fp, s\<lparr>lastf := Some (fp + 1), cr_ref := (cr_ref s)(u_cred s := cr_ref s (u_cred s) + 1)\<rparr>))"

section \<open>Closing and duplicating\<close>

definition cr_release :: "nat \<Rightarrow> fdsys \<Rightarrow> fdsys" where
  "cr_release c s = s\<lparr>cr_ref := (cr_ref s)(c := cr_ref s c - 1)\<rparr>"

definition closef :: "(nat \<Rightarrow> fdsys \<Rightarrow> fdsys) \<Rightarrow> nat option \<Rightarrow> fdsys \<Rightarrow> fdsys" where
  "closef fo_close fpo s = (case fpo of None \<Rightarrow> s
     | Some fp \<Rightarrow>
         if f_count (files s ! fp) > 1 then upd_file fp (\<lambda>f. f\<lparr>f_count := f_count f - 1\<rparr>) s
         else let s = fo_close fp s; s = cr_release (f_cred (files s ! fp)) s
              in upd_file fp (\<lambda>f. f\<lparr>f_count := 0\<rparr>) s)"

definition dupit :: "int \<Rightarrow> nat \<Rightarrow> 8 word \<Rightarrow> fdsys \<Rightarrow> fdsys" where
  "dupit fd fp flags s =
     (let s = upd_file fp (\<lambda>f. f\<lparr>f_count := f_count f + 1\<rparr>) (set_pflag fd flags (set_slot fd (Some fp) s))
      in s\<lparr>u_lastfile := max (u_lastfile s) fd\<rparr>)"

definition munmapfd :: "int \<Rightarrow> fdsys \<Rightarrow> fdsys" where
  "munmapfd fd s = set_pflag fd (pflag fd s AND NOT UF_MAPPED) s"

definition dup2 :: "(nat \<Rightarrow> fdsys \<Rightarrow> fdsys) \<Rightarrow> int \<Rightarrow> int \<Rightarrow> fdsys \<Rightarrow> fdsys" where
  "dup2 fo_close i j s = (case getf i s of (None, s) \<Rightarrow> s
     | (Some fp, s) \<Rightarrow>
         if j < 0 \<or> NOFILE \<le> j then s\<lparr>u_error := EBADF\<rparr>
         else let s = s\<lparr>r_val1 := j\<rparr> in
           if i = j then s
           else if u_ofile s ! nat j \<noteq> None then
             (let s = (if pflag j s AND UF_MAPPED \<noteq> 0 then munmapfd j s else s);
                  s = closef fo_close (u_ofile s ! nat j) s
              in if u_error s \<noteq> 0 then s else dupit j fp (pflag i s AND NOT UF_EXCLOSE) s)
           else dupit j fp (pflag i s AND NOT UF_EXCLOSE) s)"

text \<open>A descriptor with bits above the low six asks \<open>dup\<close> for \<open>dup2\<close>, with the second word of the arguments.\<close>

definition dup :: "(nat \<Rightarrow> fdsys \<Rightarrow> fdsys) \<Rightarrow> int \<Rightarrow> int \<Rightarrow> fdsys \<Rightarrow> fdsys" where
  "dup fo_close i j s =
     (if i div 64 \<noteq> 0 then dup2 fo_close (i mod 64) j s
      else case getf i s of (None, s) \<Rightarrow> s
      | (Some fp, s) \<Rightarrow> (let (k, s) = ufalloc 0 s in if k < 0 then s else dupit k fp (pflag i s AND NOT UF_EXCLOSE) s))"

text \<open>The high-water mark moves down over empty slots.\<close>

fun lower :: "nat option list \<Rightarrow> nat \<Rightarrow> int" where
  "lower fs 0 = -1"
| "lower fs (Suc n) = (if fs ! n = None then lower fs n else int n)"

definition lower_lastfile :: "fdsys \<Rightarrow> fdsys" where
  "lower_lastfile s = s\<lparr>u_lastfile := lower (u_ofile s) (nat (u_lastfile s + 1))\<rparr>"

definition close_fd :: "(nat \<Rightarrow> fdsys \<Rightarrow> fdsys) \<Rightarrow> int \<Rightarrow> fdsys \<Rightarrow> fdsys" where
  "close_fd fo_close i s = (case getf i s of (None, s) \<Rightarrow> s
     | (Some fp, s) \<Rightarrow>
         let s = (if pflag i s AND UF_MAPPED \<noteq> 0 then munmapfd i s else s);
             s = lower_lastfile (set_slot i None s);
             s = set_pflag i 0 s
         in closef fo_close (Some fp) s)"

section \<open>File control\<close>

datatype ioctl_cmd = FIONBIO | FIOASYNC | TIOCGPGRP | TIOCSPGRP

type_synonym fo_ioctl = "nat \<Rightarrow> ioctl_cmd \<Rightarrow> int \<Rightarrow> fdsys \<Rightarrow> (int \<times> int) \<times> fdsys"

definition fset :: "fo_ioctl \<Rightarrow> nat \<Rightarrow> 32 word \<Rightarrow> 32 word \<Rightarrow> fdsys \<Rightarrow> int \<times> fdsys" where
  "fset fo_ioctl fp fbit value s =
     (let s = upd_file fp (\<lambda>f. f\<lparr>f_flag := if value \<noteq> 0 then f_flag f OR fbit else f_flag f AND NOT fbit\<rparr>) s;
          ((e, v), s) = fo_ioctl fp (if fbit = FNDELAY then FIONBIO else FIOASYNC) (sint value) s
      in (e, s))"

definition fgetown :: "fo_ioctl \<Rightarrow> nat \<Rightarrow> fdsys \<Rightarrow> int \<times> fdsys" where
  "fgetown fo_ioctl fp s =
     (if f_type (files s ! fp) = DTYPE_SOCKET then (0, s\<lparr>r_val1 := so_pgrp s (f_data (files s ! fp))\<rparr>)
      else let ((e, v), s) = fo_ioctl fp TIOCGPGRP (r_val1 s) s in (e, s\<lparr>r_val1 := - v\<rparr>))"

definition fsetown :: "fo_ioctl \<Rightarrow> (int \<Rightarrow> int option) \<Rightarrow> nat \<Rightarrow> int \<Rightarrow> fdsys \<Rightarrow> int \<times> fdsys" where
  "fsetown fo_ioctl pgrp_of fp value s =
     (if f_type (files s ! fp) = DTYPE_SOCKET then (0, s\<lparr>so_pgrp := (so_pgrp s)(f_data (files s ! fp) := value)\<rparr>)
      else if value > 0 then (case pgrp_of value of None \<Rightarrow> (ESRCH, s)
         | Some g \<Rightarrow> (let ((e, v), s) = fo_ioctl fp TIOCSPGRP g s in (e, s)))
      else (let ((e, v), s) = fo_ioctl fp TIOCSPGRP (- value) s in (e, s)))"

text \<open>\<^verbatim>\<open>F_SETFL\<close>; \<^verbatim>\<open>FOPEN\<close> is -1.\<close>

definition setfl :: "fo_ioctl \<Rightarrow> nat \<Rightarrow> 32 word \<Rightarrow> fdsys \<Rightarrow> fdsys" where
  "setfl fo_ioctl fp arg s =
     (let s = upd_file fp (\<lambda>f. f\<lparr>f_flag := (f_flag f AND FCNTLCANT) OR ((arg + 1) AND NOT FCNTLCANT)\<rparr>) s;
          (e, s) = fset fo_ioctl fp FNDELAY (f_flag (files s ! fp) AND FNDELAY) s;
          s = s\<lparr>u_error := e\<rparr>
      in if u_error s \<noteq> 0 then s
         else let (e, s) = fset fo_ioctl fp FASYNC (f_flag (files s ! fp) AND FASYNC) s;
                  s = s\<lparr>u_error := e\<rparr>
              in if u_error s \<noteq> 0 then snd (fset fo_ioctl fp FNDELAY 0 s) else s)"

definition fcntl :: "fo_ioctl \<Rightarrow> (int \<Rightarrow> int option) \<Rightarrow> int \<Rightarrow> int \<Rightarrow> int \<Rightarrow> fdsys \<Rightarrow> fdsys" where
  "fcntl fo_ioctl pgrp_of fdes cmd arg s = (case getf fdes s of (None, s) \<Rightarrow> s
     | (Some fp, s) \<Rightarrow>
         if cmd = 0 then
           (if arg < 0 \<or> NOFILE \<le> arg then s\<lparr>u_error := EINVAL\<rparr>
            else let (i, s) = ufalloc arg s in if i < 0 then s else dupit i fp (pflag fdes s AND NOT UF_EXCLOSE) s)
         else if cmd = 1 then s\<lparr>r_val1 := uint (pflag fdes s AND 1)\<rparr>
         else if cmd = 2 then set_pflag fdes ((pflag fdes s AND NOT 1) OR (word_of_int arg AND 1)) s
         else if cmd = 3 then s\<lparr>r_val1 := sint (f_flag (files s ! fp) - 1)\<rparr>
         else if cmd = 4 then setfl fo_ioctl fp (word_of_int arg) s
         else if cmd = 5 then (let (e, s) = fgetown fo_ioctl fp s in s\<lparr>u_error := e\<rparr>)
         else if cmd = 6 then (let (e, s) = fsetown fo_ioctl pgrp_of fp arg s in s\<lparr>u_error := e\<rparr>)
         else s\<lparr>u_error := EINVAL\<rparr>)"

text \<open>The close-on-exec commands of \<^verbatim>\<open>ioctl\<close>.\<close>

definition fioclex :: "int \<Rightarrow> fdsys \<Rightarrow> fdsys" where "fioclex fd s = set_pflag fd (pflag fd s OR UF_EXCLOSE) s"
definition fionclex :: "int \<Rightarrow> fdsys \<Rightarrow> fdsys" where "fionclex fd s = set_pflag fd (pflag fd s AND NOT UF_EXCLOSE) s"

text \<open>Locking, up to the calls into the file system.\<close>

definition flock :: "(nat \<Rightarrow> fdsys \<Rightarrow> fdsys) \<Rightarrow> (nat \<Rightarrow> 32 word \<Rightarrow> fdsys \<Rightarrow> int \<times> fdsys) \<Rightarrow> int \<Rightarrow> 32 word \<Rightarrow> fdsys \<Rightarrow> fdsys" where
  "flock vno_unlock vno_lock fd how s = (case getf fd s of (None, s) \<Rightarrow> s
     | (Some fp, s) \<Rightarrow>
         if f_type (files s ! fp) \<noteq> DTYPE_VNODE then s\<lparr>u_error := EOPNOTSUPP\<rparr>
         else if how AND 8 \<noteq> 0 then vno_unlock fp s
         else if how AND 3 = 0 then s
         else let how = (if how AND 2 \<noteq> 0 then how AND NOT 1 else how); fl = f_flag (files s ! fp) in
           if fl AND FEXLOCK \<noteq> 0 \<and> how AND 2 \<noteq> 0 \<or> fl AND FSHLOCK \<noteq> 0 \<and> how AND 1 \<noteq> 0 then s
           else let (e, s) = vno_lock fp how s in s\<lparr>u_error := e\<rparr>)"

section \<open>All descriptors of a process: fork, exec and exit\<close>

definition fork_files :: "fdsys \<Rightarrow> fdsys" where
  "fork_files s = foldl (\<lambda>s n. case u_ofile s ! n of None \<Rightarrow> s | Some fp \<Rightarrow> upd_file fp (\<lambda>f. f\<lparr>f_count := f_count f + 1\<rparr>) s)
     s [0..<nat (u_lastfile s + 1)]"

definition exit_slot :: "(nat \<Rightarrow> fdsys \<Rightarrow> fdsys) \<Rightarrow> nat \<Rightarrow> fdsys \<Rightarrow> fdsys" where
  "exit_slot fo_close i s = (case u_ofile s ! i of None \<Rightarrow> s
     | Some f \<Rightarrow> closef fo_close (Some f) (set_pflag (int i) 0 (set_slot (int i) None s)))"

definition exit_files :: "(nat \<Rightarrow> fdsys \<Rightarrow> fdsys) \<Rightarrow> fdsys \<Rightarrow> fdsys" where
  "exit_files fo_close s = foldl (\<lambda>s i. exit_slot fo_close i s) s [0..<nat (u_lastfile s + 1)]"

definition exec_slot :: "(nat \<Rightarrow> fdsys \<Rightarrow> fdsys) \<Rightarrow> nat \<Rightarrow> fdsys \<Rightarrow> fdsys" where
  "exec_slot fo_close n s =
     (let s = (if pflag (int n) s AND UF_EXCLOSE \<noteq> 0
        then set_pflag (int n) 0 (set_slot (int n) None (closef fo_close (u_ofile s ! n) s)) else s)
      in set_pflag (int n) (pflag (int n) s AND NOT UF_MAPPED) s)"

definition exec_files :: "(nat \<Rightarrow> fdsys \<Rightarrow> fdsys) \<Rightarrow> fdsys \<Rightarrow> fdsys" where
  "exec_files fo_close s = lower_lastfile (foldl (\<lambda>s n. exec_slot fo_close n s) s (rev [0..<nat (u_lastfile s + 1)]))"

section \<open>Descriptors in messages\<close>

definition unp_internalize :: "int list \<Rightarrow> fdsys \<Rightarrow> (int + nat list) \<times> fdsys" where
  "unp_internalize fds s =
     (if \<exists>fd \<in> set fds. fst (getf fd s) = None then (Inl EBADF, s\<lparr>u_error := EBADF\<rparr>)
      else let fps = map (\<lambda>fd. the (fst (getf fd s))) fds in
        (Inr fps, foldl (\<lambda>s fp. upd_file fp (\<lambda>f. f\<lparr>f_count := f_count f + 1, f_msgcount := f_msgcount f + 1\<rparr>)
            (s\<lparr>unp_rights := unp_rights s + 1\<rparr>)) s fps))"

definition unp_discard :: "(nat \<Rightarrow> fdsys \<Rightarrow> fdsys) \<Rightarrow> nat \<Rightarrow> fdsys \<Rightarrow> fdsys" where
  "unp_discard fo_close fp s =
     closef fo_close (Some fp) (upd_file fp (\<lambda>f. f\<lparr>f_msgcount := f_msgcount f - 1\<rparr>) (s\<lparr>unp_rights := unp_rights s - 1\<rparr>))"

fun externalize_loop :: "nat list \<Rightarrow> int list \<times> fdsys \<Rightarrow> (int list \<times> fdsys) kern" where
  "externalize_loop [] (acc, s) = Inr (acc, s)"
| "externalize_loop (fp # fps) (acc, s) = (let (f, s) = ufalloc 0 s in
     if f < 0 then Inl (Panic ''unp_externalize'')
     else externalize_loop fps (acc @ [f], upd_file fp (\<lambda>g. g\<lparr>f_msgcount := f_msgcount g - 1\<rparr>)
         ((set_slot f (Some fp) s)\<lparr>unp_rights := unp_rights s - 1\<rparr>)))"

definition unp_externalize :: "(nat \<Rightarrow> fdsys \<Rightarrow> fdsys) \<Rightarrow> nat list \<Rightarrow> fdsys \<Rightarrow> ((int + int list) \<times> fdsys) kern" where
  "unp_externalize fo_close fps s =
     (if ufavail s < length fps then Inr (Inl EMSGSIZE, foldl (\<lambda>s fp. unp_discard fo_close fp s) s fps)
      else kbind (externalize_loop fps ([], s)) (\<lambda>(fds, s). Inr (Inr fds, s)))"

end
