(* ===== verification/Descrip_inv.thy ===== *)
theory Descrip_inv
  imports Descrip
begin

unbundle bit_operations_syntax

text \<open>
  The reference counts of the file table. \<open>fdw c fs l r\<close> says that the counts \<open>c\<close> are those of the references in the
  descriptor table \<open>fs\<close> of the running process, of which none is behind the high-water mark \<open>l\<close>, and of the references
  \<open>r\<close> that are elsewhere: in the tables of other processes, in messages, or in the hands of the code.
\<close>

section \<open>Counting references\<close>

definition occ :: "nat option list \<Rightarrow> nat \<Rightarrow> int" where
  "occ fs fp = int (length (filter (\<lambda>x. x = Some fp) fs))"

definition fdw :: "int list \<Rightarrow> nat option list \<Rightarrow> int \<Rightarrow> (nat \<Rightarrow> int) \<Rightarrow> bool" where
  "fdw c fs l r = (length fs = 64 \<and> -1 \<le> l \<and> l < 64 \<and> (\<forall>fp < length c. c ! fp = occ fs fp + r fp) \<and>
     (\<forall>i < 64. \<forall>fp. fs ! i = Some fp \<longrightarrow> fp < length c \<and> int i \<le> l))"

lemma fdwD:
  assumes "fdw c fs l r"
  shows "length fs = 64" "-1 \<le> l" "l < 64" "fp < length c \<Longrightarrow> c ! fp = occ fs fp + r fp"
    "i < 64 \<Longrightarrow> fs ! i = Some fp \<Longrightarrow> fp < length c" "i < 64 \<Longrightarrow> fs ! i = Some fp \<Longrightarrow> int i \<le> l"
  using assms by (auto simp: fdw_def)

lemma occ_nonneg [simp]: "0 \<le> occ fs fp" by (simp add: occ_def)

lemma occ_upd:
  assumes "i < length fs"
  shows "occ (fs[i := x]) fp = occ fs fp - (if fs ! i = Some fp then 1 else 0) + (if x = Some fp then 1 else 0)"
proof -
  have "filter P (fs[i := x]) = filter P (take i fs) @ filter P [x] @ filter P (drop (Suc i) fs)" for P
    using assms by (simp add: upd_conv_take_nth_drop)
  moreover have "filter P fs = filter P (take i fs) @ filter P [fs ! i] @ filter P (drop (Suc i) fs)" for P
    by (metis append_Cons append_Nil assms filter_append id_take_nth_drop)
  ultimately show ?thesis by (simp add: occ_def)
qed

lemma occ_pos: "i < length fs \<Longrightarrow> fs ! i = Some fp \<Longrightarrow> 1 \<le> occ fs fp"
  using occ_upd [of i fs None fp] occ_nonneg [of "fs[i := None]" fp] by simp

lemma occ_none: "(\<And>i. i < length fs \<Longrightarrow> fs ! i = None) \<Longrightarrow> occ fs fp = 0"
  by (force simp: occ_def filter_empty_conv in_set_conv_nth)

definition one :: "nat \<Rightarrow> nat \<Rightarrow> int" where "one fp = (\<lambda>q. if q = fp then 1 else 0)"

lemma fdw_take:
  assumes "fdw c fs l r" "i < 64" "fs ! i = None" "fp < length c"
  shows "fdw (c[fp := c ! fp + 1]) (fs[i := Some fp]) (max l (int i)) r"
proof -
  note D = fdwD [OF assms(1)]
  have "occ (fs[i := Some fp]) q = occ fs q + one fp q" for q using assms D(1) by (simp add: occ_upd one_def)
  moreover have "q < length c \<and> int j \<le> max l (int i)" if "j < 64" "fs[i := Some fp] ! j = Some q" for j q
    using that assms D(1) D(5,6) [of j q] by (auto simp: nth_list_update split: if_splits)
  ultimately show ?thesis unfolding fdw_def using assms D(1-4) by (auto simp: nth_list_update one_def)
qed

lemma fdw_drop:
  assumes "fdw c fs l r" "i < 64" "fs ! i = Some fp"
  shows "fdw c (fs[i := None]) l (\<lambda>q. r q + one fp q)"
proof -
  note D = fdwD [OF assms(1)]
  have "occ (fs[i := None]) q = occ fs q - one fp q" for q using assms D(1) by (simp add: occ_upd one_def)
  moreover have "q < length c \<and> int j \<le> l" if "j < 64" "fs[i := None] ! j = Some q" for j q
    using that assms D(1) D(5,6) [of j q] by (auto simp: nth_list_update split: if_splits)
  ultimately show ?thesis unfolding fdw_def using D(1-4) by auto
qed

lemma fdw_put:
  assumes "fdw c fs l (\<lambda>q. r q + one fp q)" "i < 64" "fs ! i = None" "fp < length c"
  shows "fdw c (fs[i := Some fp]) (max l (int i)) r"
proof -
  note D = fdwD [OF assms(1)]
  have "occ (fs[i := Some fp]) q = occ fs q + one fp q" for q using assms D(1) by (simp add: occ_upd one_def)
  moreover have "q < length c \<and> int j \<le> max l (int i)" if "j < 64" "fs[i := Some fp] ! j = Some q" for j q
    using that assms D(1) D(5,6) [of j q] by (auto simp: nth_list_update split: if_splits)
  ultimately show ?thesis unfolding fdw_def using assms D(1-4) by auto
qed

lemma fdw_inc: "fdw c fs l r \<Longrightarrow> fp < length c \<Longrightarrow> fdw (c[fp := c ! fp + 1]) fs l (\<lambda>q. r q + one fp q)"
  by (auto simp: fdw_def nth_list_update one_def)

lemma fdw_dec: "fdw c fs l (\<lambda>q. r q + one fp q) \<Longrightarrow> fdw (c[fp := c ! fp - 1]) fs l r"
proof -
  assume a: "fdw c fs l (\<lambda>q. r q + one fp q)"
  have "c[fp := c ! fp - 1] ! q = occ fs q + r q" if "q < length c" for q
    using fdwD(4) [OF a that] that by (cases "q = fp") (simp_all add: one_def)
  then show ?thesis using fdwD(1-3,5,6) [OF a] by (auto simp: fdw_def)
qed

lemma fdw_mark: "fdw c fs l r \<Longrightarrow> l \<le> l' \<Longrightarrow> l' < 64 \<Longrightarrow> fdw c fs l' r"
  by (force simp: fdw_def)

lemma lower_le: "lower fs n < int n" "-1 \<le> lower fs n"
  by (induction n) auto

lemma lower_none: "int i > lower fs n \<Longrightarrow> i < n \<Longrightarrow> fs ! i = None"
  by (induction n) (auto simp: less_Suc_eq split: if_splits)

lemma fdw_lower:
  assumes "fdw c fs l r"
  shows "fdw c fs (lower fs (nat (l + 1))) r"
proof -
  note D = fdwD [OF assms]
  have "int i \<le> lower fs (nat (l + 1))" if "i < 64" "fs ! i = Some fp" for i fp
    
  proof (rule ccontr)
    assume "\<not> ?thesis"
    moreover have "i < nat (l + 1)" using D(6) [OF that] by linarith
    ultimately show False using lower_none [of fs "nat (l + 1)" i] that(2) by simp
  qed
  then show ?thesis unfolding fdw_def using D lower_le [of fs "nat (l + 1)"] by auto
qed

lemma fdw_frame: "fdw c fs l r \<Longrightarrow> (\<And>q. q < length c \<Longrightarrow> r' q = r q) \<Longrightarrow> fdw c fs l r'"
  by (simp add: fdw_def)

section \<open>The invariant of the running system\<close>

definition counts :: "fdsys \<Rightarrow> int list" where "counts s = map f_count (files s)"

definition fd_inv :: "(nat \<Rightarrow> int) \<Rightarrow> fdsys \<Rightarrow> bool" where
  "fd_inv r s = (fdw (counts s) (u_ofile s) (u_lastfile s) r \<and> length (u_pofile s) = 64 \<and>
     (\<forall>l. lastf s = Some l \<longrightarrow> l \<le> length (files s)))"

text \<open>What the operations behind \<^verbatim>\<open>f_ops\<close> leave alone.\<close>

definition same_fds :: "fdsys \<Rightarrow> fdsys \<Rightarrow> bool" where
  "same_fds s s' = (counts s' = counts s \<and> u_ofile s' = u_ofile s \<and> u_lastfile s' = u_lastfile s \<and>
     length (u_pofile s') = length (u_pofile s) \<and> lastf s' = lastf s)"

text \<open>
  Closes that succeed and concern one file only. Two closes of the program are not of this kind: that of a Unix domain socket
  with descriptors in its receive buffer (\<^verbatim>\<open>soo_close\<close>, through \<^verbatim>\<open>sorflush\<close> and \<^verbatim>\<open>unp_dispose\<close>), which gives up references to
  other files, and that of a vnode whose \<^verbatim>\<open>VOP_CLOSE\<close> fails, which sets \<^verbatim>\<open>u.u_error\<close>.
\<close>

definition close_ok :: "(nat \<Rightarrow> fdsys \<Rightarrow> fdsys) \<Rightarrow> bool" where
  "close_ok fo_close = (\<forall>fp s. same_fds s (fo_close fp s) \<and> u_error (fo_close fp s) = u_error s)"

lemma same_fds_refl [simp]: "same_fds s s" by (simp add: same_fds_def)

lemma same_fds_trans: "same_fds s t \<Longrightarrow> same_fds t u \<Longrightarrow> same_fds s u" by (simp add: same_fds_def)

lemma counts_length [simp]: "length (counts s) = length (files s)" by (simp add: counts_def)

lemma counts_nth: "fp < length (files s) \<Longrightarrow> counts s ! fp = f_count (files s ! fp)" by (simp add: counts_def)

lemma same_fds_length: "same_fds s s' \<Longrightarrow> length (files s') = length (files s)"
  using counts_length by (metis same_fds_def)

lemma fd_inv_same: "fd_inv r s \<Longrightarrow> same_fds s s' \<Longrightarrow> fd_inv r s'"
  using same_fds_length [of s s'] by (simp add: fd_inv_def same_fds_def)

lemma fd_inv_D:
  assumes "fd_inv r s"
  shows "fdw (counts s) (u_ofile s) (u_lastfile s) r" "length (u_ofile s) = 64" "length (u_pofile s) = 64"
    "i < 64 \<Longrightarrow> u_ofile s ! i = Some fp \<Longrightarrow> fp < length (files s)" "i < 64 \<Longrightarrow> u_ofile s ! i = Some fp \<Longrightarrow> int i \<le> u_lastfile s"
    "-1 \<le> u_lastfile s" "u_lastfile s < 64" "fp < length (files s) \<Longrightarrow> f_count (files s ! fp) = occ (u_ofile s) fp + r fp"
  using assms fdwD [of "counts s" "u_ofile s" "u_lastfile s" r] by (auto simp: fd_inv_def counts_nth)

lemmas fd_simps = upd_file_def set_slot_def set_pflag_def pflag_def

lemma counts_upd: "counts (upd_file fp f s) = (counts s)[fp := f_count (f (files s ! fp))]"
  by (simp add: counts_def upd_file_def map_update)

lemma same_set_pflag [simp]: "same_fds s (set_pflag i x s)" by (simp add: same_fds_def set_pflag_def counts_def)

lemma same_upd_file: "(\<And>f. f_count (g f) = f_count f) \<Longrightarrow> same_fds s (upd_file fp g s)"
proof -
  assume "\<And>f. f_count (g f) = f_count f"
  then have "counts (upd_file fp g s) = counts s" by (cases "fp < length (files s)") (simp_all add: counts_upd counts_nth [symmetric] list_update_beyond)
  then show ?thesis by (simp add: same_fds_def upd_file_def)
qed

lemma getf_None: "getf fd s = (None, t) \<Longrightarrow> t = s\<lparr>u_error := EBADF\<rparr>"
  by (auto simp: getf_def split: if_splits option.splits)

lemma getf_Some: "getf fd s = (Some fp, t) \<Longrightarrow> t = s \<and> 0 \<le> fd \<and> fd < 64 \<and> u_ofile s ! nat fd = Some fp"
  by (auto simp: getf_def NOFILE_def split: if_splits option.splits)

lemma find_SomeD: "find P xs = Some x \<Longrightarrow> P x \<and> x \<in> set xs"
  by (auto simp: find_Some_iff)

lemma ufalloc_fails: "ufalloc i s = (j, t) \<Longrightarrow> j < 0 \<Longrightarrow> t = s\<lparr>u_error := EMFILE\<rparr>"
  by (auto simp: ufalloc_def split: option.splits)

lemma ufalloc_ok:
  assumes "ufalloc i s = (j, t)" "\<not> j < 0"
  shows "0 \<le> j" "j < 64" "u_ofile s ! nat j = None" "0 \<le> i \<Longrightarrow> i \<le> j" "\<And>k. i \<le> int k \<Longrightarrow> int k < j \<Longrightarrow> u_ofile s ! k \<noteq> None"
    "t = set_pflag j 0 (s\<lparr>r_val1 := j, u_lastfile := max (u_lastfile s) j\<rparr>)"
proof -
  obtain k where k: "free_from i (u_ofile s) = Some k" "j = int k" using assms by (auto simp: ufalloc_def split: option.splits)
  then have F: "u_ofile s ! k = None" "k < 64" "nat i \<le> k" using find_SomeD unfolding free_from_def NOFILE_def by fastforce+
  then show "0 \<le> j" "j < 64" "u_ofile s ! nat j = None" "0 \<le> i \<Longrightarrow> i \<le> j" using k by auto
  show "t = set_pflag j 0 (s\<lparr>r_val1 := j, u_lastfile := max (u_lastfile s) j\<rparr>)" using assms k by (auto simp: ufalloc_def)
  show "u_ofile s ! m \<noteq> None" if "i \<le> int m" "int m < j" for m
  proof -
    obtain n where n: "n < length [nat i..<64]" "[nat i..<64] ! n = k" "\<forall>q<n. u_ofile s ! ([nat i..<64] ! q) \<noteq> None"
      using k(1) unfolding free_from_def NOFILE_def find_Some_iff by auto
    then have "k = nat i + n" by simp
    moreover have "m - nat i < n" "nat i + (m - nat i) = m" using that k(2) \<open>k = nat i + n\<close> by linarith+
    ultimately show ?thesis using n(1,3) spec [OF n(3), of "m - nat i"] by auto
  qed
qed

lemma ufalloc_inv: "fd_inv r s \<Longrightarrow> ufalloc i s = (j, t) \<Longrightarrow> fd_inv r t"
proof (cases "j < 0")
  case True
  then show "fd_inv r s \<Longrightarrow> ufalloc i s = (j, t) \<Longrightarrow> fd_inv r t" using ufalloc_fails [of i s j t]
    by (auto intro: fd_inv_same simp: same_fds_def counts_def)
next
  case False
  assume a: "fd_inv r s" "ufalloc i s = (j, t)"
  note U = ufalloc_ok [OF a(2) False]
  have "fd_inv r (s\<lparr>r_val1 := j, u_lastfile := max (u_lastfile s) j\<rparr>)"
    using a(1) U(2) fdw_mark [of "counts s" "u_ofile s" "u_lastfile s" r "max (u_lastfile s) j"] by (auto simp: fd_inv_def counts_def dest: fdwD(3))
  then show ?thesis using U(6) fd_inv_same same_set_pflag by blast
qed

section \<open>The operations\<close>

lemma fd_invI:
  assumes "fdw (counts s) (u_ofile s) (u_lastfile s) r" "length (u_pofile s) = 64" "\<And>l. lastf s = Some l \<Longrightarrow> l \<le> length (files s)"
  shows "fd_inv r s"
  using assms by (simp add: fd_inv_def)

lemma fd_inv_lastf: "fd_inv r s \<Longrightarrow> lastf s = Some l \<Longrightarrow> l \<le> length (files s)"
  by (simp add: fd_inv_def)

text \<open>Closing takes one reference off.\<close>

lemma closef_view:
  assumes "close_ok fo_close" "fp < length (files s)" "1 \<le> counts s ! fp"
  shows "counts (closef fo_close (Some fp) s) = (counts s)[fp := counts s ! fp - 1]" "u_ofile (closef fo_close (Some fp) s) = u_ofile s"
    "u_lastfile (closef fo_close (Some fp) s) = u_lastfile s" "length (u_pofile (closef fo_close (Some fp) s)) = length (u_pofile s)"
    "lastf (closef fo_close (Some fp) s) = lastf s" "u_error (closef fo_close (Some fp) s) = u_error s"
proof -
  let ?t = "fo_close fp s"
  have t: "same_fds s ?t" "u_error ?t = u_error s" using assms(1) by (auto simp: close_ok_def)
  have len: "length (files ?t) = length (files s)" by (rule same_fds_length [OF t(1)])
  have cr: "counts (cr_release c u) = counts u" for c u by (simp add: cr_release_def counts_def)
  note F = counts_nth [OF assms(2)]
  show "counts (closef fo_close (Some fp) s) = (counts s)[fp := counts s ! fp - 1]"
  proof (cases "f_count (files s ! fp) > 1")
    case False
    then have "counts s ! fp - 1 = 0" using assms(3) F by simp
    moreover have "closef fo_close (Some fp) s = upd_file fp (\<lambda>f. f\<lparr>f_count := 0\<rparr>) (cr_release (f_cred (files ?t ! fp)) ?t)"
      using False by (simp add: closef_def Let_def)
    ultimately show ?thesis using t(1) by (simp add: counts_upd cr same_fds_def)
  qed (simp add: closef_def counts_upd F)
  show "u_ofile (closef fo_close (Some fp) s) = u_ofile s" "u_lastfile (closef fo_close (Some fp) s) = u_lastfile s"
    "length (u_pofile (closef fo_close (Some fp) s)) = length (u_pofile s)" "lastf (closef fo_close (Some fp) s) = lastf s"
    "u_error (closef fo_close (Some fp) s) = u_error s"
    using t by (simp_all add: closef_def Let_def upd_file_def cr_release_def same_fds_def)
qed

lemma closef_files_length:
  assumes "close_ok fo_close" "fp < length (files s)" "1 \<le> counts s ! fp"
  shows "length (files (closef fo_close (Some fp) s)) = length (files s)"
  using arg_cong [OF closef_view(1) [OF assms], of length] by simp

lemma closef_inv:
  assumes "close_ok fo_close" "fd_inv (\<lambda>q. r q + one fp q) s" "fp < length (files s)" "0 \<le> r fp"
  shows "fd_inv r (closef fo_close (Some fp) s)"
proof -
  have "counts s ! fp = occ (u_ofile s) fp + (r fp + 1)"
    using fdwD(4) [OF fd_inv_D(1) [OF assms(2)]] assms(3) by (simp add: one_def)
  then have c: "1 \<le> counts s ! fp" using assms(4) occ_nonneg [of "u_ofile s" fp] by linarith
  note V = closef_view [OF assms(1,3) c]
  show ?thesis unfolding fd_inv_def V
    using fdw_dec [OF fd_inv_D(1) [OF assms(2)]] fd_inv_D(3) [OF assms(2)] fd_inv_lastf [OF assms(2)] closef_files_length [OF assms(1,3) c] by simp
qed

lemma set_slot_drop:
  assumes "fd_inv r s" "i < 64" "u_ofile s ! i = Some fp"
  shows "fd_inv (\<lambda>q. r q + one fp q) (set_slot (int i) None s)"
  using fdw_drop [OF fd_inv_D(1) [OF assms(1)] assms(2,3)] assms(1) by (simp add: fd_inv_def set_slot_def counts_def)

lemma dupit_over:
  assumes "fdw (counts s) ((u_ofile s)[nat j := None]) (u_lastfile s) r" "length (u_pofile s) = 64"
    "\<And>l. lastf s = Some l \<Longrightarrow> l \<le> length (files s)" "0 \<le> j" "j < 64" "fp < length (files s)"
  shows "fd_inv r (dupit j fp fl s)"
proof -
  have "length (u_ofile s) = 64" using fdwD(1) [OF assms(1)] by simp
  then have "fdw ((counts s)[fp := counts s ! fp + 1]) ((u_ofile s)[nat j := Some fp]) (max (u_lastfile s) j) r"
    using fdw_take [OF assms(1), of "nat j" fp] assms(4-6) by simp
  moreover have "counts (dupit j fp fl s) = (counts s)[fp := counts s ! fp + 1]"
    using assms(6) by (simp add: dupit_def fd_simps counts_def Let_def map_update)
  ultimately show ?thesis using assms(2,3) by (intro fd_invI) (simp_all add: dupit_def fd_simps Let_def)
qed

lemma dupit_inv:
  assumes "fd_inv r s" "u_ofile s ! nat j = None" "0 \<le> j" "j < 64" "fp < length (files s)"
  shows "fd_inv r (dupit j fp fl s)"
  using assms fd_inv_D(1,3) [OF assms(1)] fd_inv_lastf [OF assms(1)]
  by (intro dupit_over) (simp_all add: list_update_id [of "u_ofile s" "nat j", simplified assms(2)])

lemma dup2_inv:
  assumes "close_ok fo_close" "fd_inv r s" "\<And>q. 0 \<le> r q" "u_error s = 0"
  shows "fd_inv r (dup2 fo_close i j s)"
proof (cases "getf i s")
  case (Pair o1 t)
  show ?thesis
  proof (cases o1)
    case None
    then show ?thesis using Pair getf_None [of i s t] assms(2) by (auto simp: dup2_def intro: fd_inv_same simp: same_fds_def counts_def)
  next
    case (Some fp)
    then have G: "t = s" "0 \<le> i" "i < 64" "u_ofile s ! nat i = Some fp" using getf_Some [of i s fp t] Pair by auto
    have fp: "fp < length (files s)" using fd_inv_D(4) [OF assms(2), of "nat i" fp] G by simp
    define s1 where "s1 = s\<lparr>r_val1 := j\<rparr>"
    have s1: "fd_inv r s1" "same_fds s s1" by (rule fd_inv_same [OF assms(2)], simp_all add: s1_def same_fds_def counts_def)
    show ?thesis
    proof (cases "j < 0 \<or> NOFILE \<le> j \<or> i = j \<or> u_ofile s ! nat j = None")
      case True
      have err: "fd_inv r (s\<lparr>u_error := EBADF\<rparr>)" by (rule fd_inv_same [OF assms(2)]) (simp add: same_fds_def counts_def)
      have new: "fd_inv r (dupit j fp fl s1)" if "\<not> j < 0" "\<not> NOFILE \<le> j" "u_ofile s ! nat j = None" for fl
        using dupit_inv [OF s1(1), of j fp fl] that fp by (simp add: s1_def NOFILE_def)
      show ?thesis using True err new s1(1) Pair Some G(1) by (auto simp: dup2_def Let_def s1_def)
    next
      case False
      then obtain q where q: "u_ofile s ! nat j = Some q" "0 \<le> j" "j < 64" by (auto simp: NOFILE_def)
      define s2 where "s2 = (if pflag j s1 AND UF_MAPPED \<noteq> 0 then munmapfd j s1 else s1)"
      have s2: "same_fds s1 s2" by (simp add: s2_def munmapfd_def)
      then have I2: "fd_inv r s2" "u_ofile s2 = u_ofile s" using fd_inv_same [OF s1(1)] s1(2) by (auto simp: same_fds_def)
      have q': "q < length (files s2)" using fd_inv_D(4) [OF I2(1), of "nat j" q] q I2(2) by simp
      have "1 \<le> occ (u_ofile s2) q" using occ_pos [of "nat j" "u_ofile s2" q] fd_inv_D(2) [OF I2(1)] q I2(2) by simp
      then have c: "1 \<le> counts s2 ! q" using fdwD(4) [OF fd_inv_D(1) [OF I2(1)], of q] q' assms(3) [of q] by simp
      note V = closef_view [OF assms(1) q' c]
      have "fdw (counts s2) ((u_ofile s2)[nat j := None]) (u_lastfile s2) (\<lambda>p. r p + one q p)"
        using fdw_drop [OF fd_inv_D(1) [OF I2(1)], of "nat j" q] q I2(2) by simp
      from fdw_dec [OF this] have W: "fdw (counts (closef fo_close (Some q) s2)) ((u_ofile (closef fo_close (Some q) s2))[nat j := None])
          (u_lastfile (closef fo_close (Some q) s2)) r" unfolding V .
      have len: "length (files (closef fo_close (Some q) s2)) = length (files s2)" by (rule closef_files_length [OF assms(1) q' c])
      have fp2: "fp < length (files s2)" using fp same_fds_length [OF s2] same_fds_length [OF s1(2)] by simp
      have D: "fd_inv r (dupit j fp fl (closef fo_close (Some q) s2))" for fl
        using W V(4,5) fd_inv_D(3) [OF I2(1)] fd_inv_lastf [OF I2(1)] len fp2 q by (intro dupit_over) auto
      have "u_error s2 = 0" using assms(4) by (simp add: s2_def s1_def munmapfd_def set_pflag_def)
      then have e: "u_error (closef fo_close (Some q) s2) = 0" using V(6) by simp
      have "j < 0 \<or> NOFILE \<le> j \<longleftrightarrow> False" "i = j \<longleftrightarrow> False" "u_ofile s1 ! nat j \<noteq> None \<longleftrightarrow> True"
        using False by (auto simp: s1_def)
      then have "dup2 fo_close i j s = dupit j fp (pflag i (closef fo_close (Some q) s2) AND NOT UF_EXCLOSE) (closef fo_close (Some q) s2)"
        unfolding dup2_def Pair Some G(1) prod.case option.case Let_def s1_def [symmetric]
        by (simp only: if_False if_True s2_def [symmetric] I2(2) q(1) e simp_thms)
      then show ?thesis using D by simp
    qed
  qed
qed

end
