(* ===== verification/Descrip_ops.thy ===== *)
theory Descrip_ops
  imports Descrip_inv
begin

unbundle bit_operations_syntax

text \<open>
  Every descriptor operation keeps the reference counts right: \<open>dup\<close>, \<open>close_fd\<close>, \<open>fcntl\<close>, \<open>falloc\<close>, the loops
  of fork, exec and exit over all descriptors, and descriptors in messages.
\<close>

lemma foldl_keeps: "(\<And>s x. f (g s x) = f s) \<Longrightarrow> f (foldl g s xs) = f s"
  by (induction xs arbitrary: s) auto

section \<open>System calls\<close>

lemma fd_inv_error [simp]: "fd_inv r (s\<lparr>u_error := e\<rparr>) = fd_inv r s" "fd_inv r (s\<lparr>r_val1 := v\<rparr>) = fd_inv r s"
  by (simp_all add: fd_inv_def counts_def)

lemma fd_inv_set_pflag [simp]: "fd_inv r (set_pflag i x s) = fd_inv r s"
  by (simp add: fd_inv_def set_pflag_def counts_def)

lemma getf_inv: "fd_inv r s \<Longrightarrow> getf fd s = (None, t) \<Longrightarrow> fd_inv r t"
  using getf_None [of fd s t] by simp

lemma getf_fp: "fd_inv r s \<Longrightarrow> getf fd s = (Some fp, t) \<Longrightarrow> t = s \<and> 0 \<le> fd \<and> fd < 64 \<and> u_ofile s ! nat fd = Some fp \<and> fp < length (files s)"
  using getf_Some [of fd s fp t] fd_inv_D(4) [of r s "nat fd" fp] by auto

lemma alloc_dup_inv:
  assumes "fd_inv r s" "ufalloc i s = (j, t)" "\<not> j < 0" "fp < length (files s)"
  shows "fd_inv r (dupit j fp fl t)"
  using ufalloc_ok [OF assms(2,3)] ufalloc_inv [OF assms(1,2)] assms(4)
  by (intro dupit_inv) (auto simp: set_pflag_def)

lemma dup_inv:
  assumes "close_ok fo_close" "fd_inv r s" "\<And>q. 0 \<le> r q" "u_error s = 0"
  shows "fd_inv r (dup fo_close i j s)"
proof (cases "i div 64 \<noteq> 0")
  case True
  then show ?thesis using dup2_inv [OF assms] by (simp add: dup_def)
next
  case False
  obtain o1 t where g: "getf i s = (o1, t)" by fastforce
  obtain k u where k: "ufalloc 0 s = (k, u)" by fastforce
  show ?thesis
  proof (cases o1)
    case None
    then show ?thesis using False g getf_inv [OF assms(2)] by (simp add: dup_def)
  next
    case (Some fp)
    then have G: "t = s" "fp < length (files s)" using getf_fp [OF assms(2)] g by auto
    then show ?thesis using False g Some k alloc_dup_inv [OF assms(2) k _ G(2)] ufalloc_inv [OF assms(2) k]
      by (simp add: dup_def)
  qed
qed

lemma lower_lastfile_inv: "fd_inv r s \<Longrightarrow> fd_inv r (lower_lastfile s)"
  using fdw_lower [of "counts s" "u_ofile s" "u_lastfile s" r] by (auto simp: fd_inv_def lower_lastfile_def counts_def)

lemma close_fd_inv:
  assumes "close_ok fo_close" "fd_inv r s" "\<And>q. 0 \<le> r q"
  shows "fd_inv r (close_fd fo_close i s)"
proof -
  obtain o1 t where g: "getf i s = (o1, t)" by fastforce
  show ?thesis
  proof (cases o1)
    case None
    then show ?thesis using g getf_inv [OF assms(2)] by (simp add: close_fd_def)
  next
    case (Some fp)
    then have G: "t = s" "0 \<le> i" "i < 64" "u_ofile s ! nat i = Some fp" "fp < length (files s)" using getf_fp [OF assms(2)] g by auto
    define s1 where "s1 = (if pflag i s AND UF_MAPPED \<noteq> 0 then munmapfd i s else s)"
    have s1: "fd_inv r s1" "u_ofile s1 = u_ofile s" "length (files s1) = length (files s)"
      using assms(2) by (auto simp: s1_def munmapfd_def) (auto simp: set_pflag_def)
    have "fd_inv (\<lambda>q. r q + one fp q) (set_pflag i 0 (lower_lastfile (set_slot i None s1)))"
      using lower_lastfile_inv [OF set_slot_drop [OF s1(1), of "nat i" fp]] G s1(2) by simp
    then have "fd_inv r (closef fo_close (Some fp) (set_pflag i 0 (lower_lastfile (set_slot i None s1))))"
      using G(5) s1(3) assms(3) by (intro closef_inv [OF assms(1)]) (simp_all add: set_pflag_def lower_lastfile_def set_slot_def)
    moreover have "close_fd fo_close i s = closef fo_close (Some fp) (set_pflag i 0 (lower_lastfile (set_slot i None s1)))"
      unfolding close_fd_def g Some G(1) prod.case option.case Let_def s1_def [symmetric] by (rule refl)
    ultimately show ?thesis by simp
  qed
qed

definition ioctl_ok :: "fo_ioctl \<Rightarrow> bool" where
  "ioctl_ok fo_ioctl = (\<forall>fp c v s. same_fds s (snd (fo_ioctl fp c v s)))"

lemma ioctl_okD: "ioctl_ok fo_ioctl \<Longrightarrow> fo_ioctl fp c v s = ((e, w), t) \<Longrightarrow> same_fds s t"
  unfolding ioctl_ok_def by (metis snd_conv)

lemma fset_same: "ioctl_ok fo_ioctl \<Longrightarrow> fset fo_ioctl fp b v s = (e, t) \<Longrightarrow> same_fds s t"
proof -
  assume a: "ioctl_ok fo_ioctl" "fset fo_ioctl fp b v s = (e, t)"
  let ?u = "upd_file fp (\<lambda>f. f\<lparr>f_flag := if v \<noteq> 0 then f_flag f OR b else f_flag f AND NOT b\<rparr>) s"
  have "same_fds s ?u" by (rule same_upd_file) simp
  moreover have "same_fds ?u t" using a ioctl_okD [OF a(1)] by (auto simp: fset_def Let_def split: prod.splits)
  ultimately show ?thesis by (rule same_fds_trans)
qed

lemma setfl_same:
  assumes "ioctl_ok fo_ioctl"
  shows "same_fds s (setfl fo_ioctl fp arg s)"
proof -
  let ?u = "upd_file fp (\<lambda>f. f\<lparr>f_flag := (f_flag f AND FCNTLCANT) OR ((arg + 1) AND NOT FCNTLCANT)\<rparr>) s"
  obtain e1 t1 where 1: "fset fo_ioctl fp FNDELAY (f_flag (files ?u ! fp) AND FNDELAY) ?u = (e1, t1)" by fastforce
  define t2 where "t2 = t1\<lparr>u_error := e1\<rparr>"
  obtain e3 t3 where 3: "fset fo_ioctl fp FASYNC (f_flag (files t2 ! fp) AND FASYNC) t2 = (e3, t3)" by fastforce
  define t4 where "t4 = t3\<lparr>u_error := e3\<rparr>"
  obtain e5 t5 where 5: "fset fo_ioctl fp FNDELAY 0 t4 = (e5, t5)" by fastforce
  have E: "same_fds s u \<Longrightarrow> same_fds s (u\<lparr>u_error := e\<rparr>)" for s u e by (simp add: same_fds_def counts_def)
  have u: "same_fds s ?u" by (rule same_upd_file) simp
  have t2: "same_fds s t2" unfolding t2_def by (rule E [OF same_fds_trans [OF u fset_same [OF assms 1]]])
  have t4: "same_fds s t4" unfolding t4_def by (rule E [OF same_fds_trans [OF t2 fset_same [OF assms 3]]])
  have t5: "same_fds s t5" by (rule same_fds_trans [OF t4 fset_same [OF assms 5]])
  show ?thesis unfolding setfl_def Let_def 1 prod.case t2_def [symmetric] 3 t4_def [symmetric] 5 snd_conv using t2 t4 t5 by simp
qed

lemma own_same:
  assumes "ioctl_ok fo_ioctl"
  shows "same_fds s (snd (fgetown fo_ioctl fp s))" "same_fds s (snd (fsetown fo_ioctl pgrp_of fp v s))"
proof -
  have E: "same_fds s u \<Longrightarrow> same_fds s (u\<lparr>r_val1 := e\<rparr>)" for s u e by (simp add: same_fds_def counts_def)
  show "same_fds s (snd (fgetown fo_ioctl fp s))"
    using ioctl_okD [OF assms] by (auto simp: fgetown_def Let_def split: prod.splits intro!: E)
  have P: "same_fds s (s\<lparr>so_pgrp := f\<rparr>)" for f by (simp add: same_fds_def counts_def)
  show "same_fds s (snd (fsetown fo_ioctl pgrp_of fp v s))"
    using ioctl_okD [OF assms] P by (auto simp: fsetown_def Let_def split: prod.splits option.splits)
qed

lemma fcntl_inv:
  assumes "ioctl_ok fo_ioctl" "fd_inv r s"
  shows "fd_inv r (fcntl fo_ioctl pgrp_of fdes cmd arg s)"
proof -
  obtain o1 t where g: "getf fdes s = (o1, t)" by fastforce
  obtain k u where k: "ufalloc arg s = (k, u)" by fastforce
  show ?thesis
  proof (cases o1)
    case None
    then show ?thesis using g getf_inv [OF assms(2)] by (simp add: fcntl_def)
  next
    case (Some fp)
    then have G: "t = s" "fp < length (files s)" using getf_fp [OF assms(2)] g by auto
    obtain e5 t5 e6 t6 where o56: "fgetown fo_ioctl fp s = (e5, t5)" "fsetown fo_ioctl pgrp_of fp arg s = (e6, t6)" by fastforce
    have I: "fd_inv r t5" "fd_inv r t6" "fd_inv r (setfl fo_ioctl fp (word_of_int arg) s)"
      using own_same [OF assms(1)] setfl_same [OF assms(1)] o56 fd_inv_same [OF assms(2)] by (metis snd_conv)+
    have J: "k < 0 \<Longrightarrow> fd_inv r u" "\<not> k < 0 \<Longrightarrow> fd_inv r (dupit k fp fl u)" for fl
      using ufalloc_inv [OF assms(2) k] alloc_dup_inv [OF assms(2) k _ G(2)] by auto
    show ?thesis unfolding fcntl_def g Some G(1) prod.case option.case Let_def k o56 using I J assms(2) by simp
  qed
qed

lemma falloc_inv:
  assumes "fd_inv r s" "\<And>q. 0 \<le> r q" "falloc s = (fpo, t)"
  shows "fd_inv r t" "fpo = Some fp \<Longrightarrow> occ (u_ofile s) fp = 0 \<and> r fp = 0 \<and> fp < length (files s)"
proof -
  obtain i u where u: "ufalloc 0 s = (i, u)" by fastforce
  have U: "fd_inv r u" by (rule ufalloc_inv [OF assms(1) u])
  have *: "fd_inv r t \<and> (\<forall>fp. fpo = Some fp \<longrightarrow> occ (u_ofile s) fp = 0 \<and> r fp = 0 \<and> fp < length (files s))"
  proof (cases "i < 0")
    case True
    then show ?thesis using assms(3) u U by (simp add: falloc_def)
  next
    case False
    note F = ufalloc_ok [OF u False]
    have fu: "files u = files s" "u_ofile u = u_ofile s" "lastf u = lastf s" by (simp_all add: F(6) set_pflag_def)
    define lf where "lf = (case lastf u of None \<Rightarrow> 0 | Some l \<Rightarrow> l)"
    have lf: "lf \<le> length (files u)" using fd_inv_lastf [OF U] by (auto simp: lf_def split: option.splits)
    show ?thesis
    proof (cases "find (\<lambda>fp. f_count (files u ! fp) = 0) ([lf..<length (files u)] @ [0..<lf])")
      case None
      then have "t = u\<lparr>lastf := Some lf, u_error := ENFILE\<rparr>" "fpo = None" using assms(3) u False by (simp_all add: falloc_def lf_def Let_def)
      moreover have "fd_inv r (u\<lparr>lastf := Some lf\<rparr>)" using U lf by (simp add: fd_inv_def counts_def)
      ultimately show ?thesis using fd_inv_error(1) [where s = "u\<lparr>lastf := Some lf\<rparr>" and e = ENFILE] by simp
    next
      case (Some fp)
      have fp: "f_count (files u ! fp) = 0" "fp < length (files u)" using find_SomeD [OF Some] lf by auto
      then have c: "counts u ! fp = 0" by (simp add: counts_nth)
      have "occ (u_ofile u) fp + r fp = 0" using fdwD(4) [OF fd_inv_D(1) [OF U], of fp] fp(2) c by simp
      then have z: "occ (u_ofile u) fp = 0" "r fp = 0" using assms(2) [of fp] occ_nonneg [of "u_ofile u" fp] by linarith+
      define v where "v = upd_file fp (file_init (u_cred u)) (set_slot i (Some fp) u)"
      have "falloc s = (Some fp, v\<lparr>lastf := Some (fp + 1), cr_ref := (cr_ref v)(u_cred v := cr_ref v (u_cred v) + 1)\<rparr>)"
        using u False Some by (simp add: falloc_def lf_def [symmetric] Let_def v_def fd_simps)
      then have t: "t = v\<lparr>lastf := Some (fp + 1), cr_ref := (cr_ref v)(u_cred v := cr_ref v (u_cred v) + 1)\<rparr>" "fpo = Some fp"
        using assms(3) by simp_all
      have "counts v = (counts u)[fp := counts u ! fp + 1]" by (simp add: v_def counts_upd file_init_def c) (simp add: counts_def set_slot_def)
      moreover have "u_ofile v = (u_ofile u)[nat i := Some fp]" "u_lastfile v = max (u_lastfile u) i"
        using F(6) by (simp_all add: v_def fd_simps)
      ultimately have "fdw (counts v) (u_ofile v) (u_lastfile v) r"
        using fdw_take [OF fd_inv_D(1) [OF U], of "nat i" fp] F(1-3) fp(2) fu by simp
      then have "fd_inv r t" using fd_inv_D(3) [OF U] fp(2) t(1) by (intro fd_invI) (auto simp: v_def fd_simps counts_def)
      then show ?thesis using z fp fu t(2) by simp
    qed
  qed
  then show "fd_inv r t" "fpo = Some fp \<Longrightarrow> occ (u_ofile s) fp = 0 \<and> r fp = 0 \<and> fp < length (files s)" by auto
qed

section \<open>Fork, exec and exit\<close>

lemma fork_counts:
  assumes "\<And>n fp. n \<in> set ns \<Longrightarrow> u_ofile s ! n = Some fp \<Longrightarrow> fp < length (files s)"
    and that: "s' = foldl (\<lambda>s n. case u_ofile s ! n of None \<Rightarrow> s | Some fp \<Rightarrow> upd_file fp (\<lambda>f. f\<lparr>f_count := f_count f + 1\<rparr>) s) s ns"
  shows "same_fds (s\<lparr>files := files s'\<rparr>) s' \<and> length (files s') = length (files s) \<and>
      (\<forall>fp < length (files s). counts s' ! fp = counts s ! fp + occ (map (\<lambda>n. u_ofile s ! n) ns) fp)"
  using assms that
proof (induction ns arbitrary: s' rule: rev_induct)
  case Nil
  then show ?case by (simp add: occ_def same_fds_def)
next
  case (snoc n ns)
  define u where "u = foldl (\<lambda>s n. case u_ofile s ! n of None \<Rightarrow> s | Some fp \<Rightarrow> upd_file fp (\<lambda>f. f\<lparr>f_count := f_count f + 1\<rparr>) s) s ns"
  have u: "same_fds (s\<lparr>files := files u\<rparr>) u" "length (files u) = length (files s)"
    "\<And>fp. fp < length (files s) \<Longrightarrow> counts u ! fp = counts s ! fp + occ (map (\<lambda>n. u_ofile s ! n) ns) fp"
  proof -
    have P: "fp < length (files s)" if "m \<in> set ns" "u_ofile s ! m = Some fp" for m fp using that by (intro snoc(2) [of m fp]) simp_all
    have "same_fds (s\<lparr>files := files u\<rparr>) u \<and> length (files u) = length (files s) \<and>
      (\<forall>fp < length (files s). counts u ! fp = counts s ! fp + occ (map (\<lambda>n. u_ofile s ! n) ns) fp)"
      by (rule snoc(1)) (erule (1) P, (rule u_def)+)
    then show "same_fds (s\<lparr>files := files u\<rparr>) u" "length (files u) = length (files s)"
      "\<And>fp. fp < length (files s) \<Longrightarrow> counts u ! fp = counts s ! fp + occ (map (\<lambda>n. u_ofile s ! n) ns) fp" by blast+
  qed
  have of: "u_ofile u = u_ofile s" using u(1) by (simp add: same_fds_def)
  have s': "s' = (case u_ofile u ! n of None \<Rightarrow> u | Some fp \<Rightarrow> upd_file fp (\<lambda>f. f\<lparr>f_count := f_count f + 1\<rparr>) u)"
    using snoc(3) unfolding u_def by simp
  show ?case
  proof (cases "u_ofile s ! n")
    case None
    then show ?thesis using u s' of by (simp add: occ_def)
  next
    case (Some fp)
    then have e: "s' = upd_file fp (\<lambda>f. f\<lparr>f_count := f_count f + 1\<rparr>) u" "fp < length (files u)" using s' of snoc(2) [of n fp] u(2) by auto
    have "counts s' = (counts u)[fp := counts u ! fp + 1]" using e(2) by (simp add: e(1) counts_upd counts_nth)
    then have "counts s' ! q = counts s ! q + occ (map (\<lambda>n. u_ofile s ! n) (ns @ [n])) q" if "q < length (files s)" for q
      using u(3) [OF that] e(2) u(2) that Some by (auto simp: occ_def nth_list_update)
    then show ?thesis using u(1,2) e by (simp add: same_fds_def upd_file_def counts_def)
  qed
qed

lemma occ_take:
  assumes "length fs = 64" "n \<le> 64" "\<And>i fp. i < 64 \<Longrightarrow> fs ! i = Some fp \<Longrightarrow> i < n"
  shows "occ (map (\<lambda>i. fs ! i) [0..<n]) fp = occ fs fp"
proof -
  have "map (\<lambda>i. fs ! i) [0..<n] = take n fs" using assms(1,2) by (intro nth_equalityI) auto
  moreover have "filter (\<lambda>x. x = Some fp) (drop n fs) = []"
    unfolding filter_empty_conv
  proof
    fix x
    assume "x \<in> set (drop n fs)"
    then obtain k where "x = fs ! (n + k)" "n + k < 64" using assms(1,2) by (auto simp: in_set_conv_nth)
    then show "x \<noteq> Some fp" using assms(3) [of "n + k" fp] by auto
  qed
  moreover have "filter (\<lambda>x. x = Some fp) fs = filter (\<lambda>x. x = Some fp) (take n fs) @ filter (\<lambda>x. x = Some fp) (drop n fs)"
    by (metis append_take_drop_id filter_append)
  ultimately show ?thesis by (simp add: occ_def)
qed

text \<open>After fork the child's table holds a second reference to every file of the parent.\<close>

lemma fork_files_inv:
  assumes "fd_inv r s"
  shows "fd_inv (\<lambda>q. r q + occ (u_ofile s) q) (fork_files s)" "u_ofile (fork_files s) = u_ofile s" "u_lastfile (fork_files s) = u_lastfile s"
    "length (files (fork_files s)) = length (files s)" "u_pofile (fork_files s) = u_pofile s"
proof -
  note D = fd_inv_D [OF assms]
  let ?ns = "[0..<nat (u_lastfile s + 1)]"
  have lt: "fp < length (files s)" if "n \<in> set ?ns" "u_ofile s ! n = Some fp" for n fp using D(4) [of n fp] that D(7) by auto
  have F: "same_fds (s\<lparr>files := files (fork_files s)\<rparr>) (fork_files s)" "length (files (fork_files s)) = length (files s)"
    "\<And>fp. fp < length (files s) \<Longrightarrow> counts (fork_files s) ! fp = counts s ! fp + occ (map (\<lambda>n. u_ofile s ! n) ?ns) fp"
    using fork_counts [of ?ns s "fork_files s", OF lt fork_files_def] by auto
  have "i < nat (u_lastfile s + 1)" if "i < 64" "u_ofile s ! i = Some fp" for i fp using D(5) [OF that] by linarith
  then have "occ (map (\<lambda>n. u_ofile s ! n) ?ns) fp = occ (u_ofile s) fp" for fp using D(2,7) by (intro occ_take) auto
  then have c: "counts (fork_files s) ! fp = counts s ! fp + occ (u_ofile s) fp" if "fp < length (files s)" for fp using F(3) that by simp
  have f: "u_ofile (fork_files s) = u_ofile s" "u_lastfile (fork_files s) = u_lastfile s" "lastf (fork_files s) = lastf s"
    "length (u_pofile (fork_files s)) = length (u_pofile s)" using F(1) by (simp_all add: same_fds_def)
  have "fdw (counts (fork_files s)) (u_ofile s) (u_lastfile s) (\<lambda>q. r q + occ (u_ofile s) q)"
    using D(1) c F(2) unfolding fdw_def by auto
  then show "fd_inv (\<lambda>q. r q + occ (u_ofile s) q) (fork_files s)" using f D(3) fd_inv_lastf [OF assms] F(2) by (simp add: fd_inv_def)
  show "u_ofile (fork_files s) = u_ofile s" "u_lastfile (fork_files s) = u_lastfile s" "length (files (fork_files s)) = length (files s)"
    using f F(2) by simp_all
  show "u_pofile (fork_files s) = u_pofile s" unfolding fork_files_def
    by (rule foldl_keeps [of u_pofile]) (simp add: upd_file_def split: option.splits)
qed

lemma exit_slot_inv:
  assumes "close_ok fo_close" "fd_inv r s" "\<And>q. 0 \<le> r q" "i < 64"
  shows "fd_inv r (exit_slot fo_close i s)" "u_ofile (exit_slot fo_close i s) = (u_ofile s)[i := None]" "u_lastfile (exit_slot fo_close i s) = u_lastfile s"
    "length (files (exit_slot fo_close i s)) = length (files s)"
proof -
  have *: "fd_inv r (exit_slot fo_close i s) \<and> u_ofile (exit_slot fo_close i s) = (u_ofile s)[i := None] \<and> u_lastfile (exit_slot fo_close i s) = u_lastfile s
    \<and> length (files (exit_slot fo_close i s)) = length (files s)"
  proof (cases "u_ofile s ! i")
    case None
    then show ?thesis using assms(2) list_update_id [of "u_ofile s" i] by (simp add: exit_slot_def)
  next
    case (Some f)
    define u where "u = set_pflag (int i) 0 (set_slot (int i) None s)"
    have u: "fd_inv (\<lambda>q. r q + one f q) u" "u_ofile u = (u_ofile s)[i := None]" "u_lastfile u = u_lastfile s" "length (files u) = length (files s)"
      using set_slot_drop [OF assms(2,4) Some] by (auto simp: u_def) (simp_all add: fd_simps)
    have f: "f < length (files u)" using fd_inv_D(4) [OF assms(2,4) Some] u(4) by simp
    have "counts u ! f = occ (u_ofile u) f + (r f + 1)" using fdwD(4) [OF fd_inv_D(1) [OF u(1)], of f] f by (simp add: one_def)
    then have c: "1 \<le> counts u ! f" using assms(3) [of f] occ_nonneg [of "u_ofile u" f] by linarith
    have e: "exit_slot fo_close i s = closef fo_close (Some f) u" using Some by (simp add: exit_slot_def u_def)
    show ?thesis unfolding e using closef_inv [OF assms(1) u(1) f assms(3)] closef_view [OF assms(1) f c] closef_files_length [OF assms(1) f c] u by simp
  qed
  then show "fd_inv r (exit_slot fo_close i s)" "u_ofile (exit_slot fo_close i s) = (u_ofile s)[i := None]" "u_lastfile (exit_slot fo_close i s) = u_lastfile s"
    "length (files (exit_slot fo_close i s)) = length (files s)" by auto
qed

lemma exit_files_inv:
  assumes "close_ok fo_close" "fd_inv r s" "\<And>q. 0 \<le> r q"
  shows "fd_inv r (exit_files fo_close s)" "\<And>i. i < 64 \<Longrightarrow> u_ofile (exit_files fo_close s) ! i = None"
    "length (files (exit_files fo_close s)) = length (files s)"
proof -
  have L: "fd_inv r t \<and> u_lastfile t = u_lastfile s \<and> length (files t) = length (files s) \<and>
      (\<forall>i < 64. u_ofile t ! i = (if i < n then None else u_ofile s ! i))"
    if "t = foldl (\<lambda>s i. exit_slot fo_close i s) s [0..<n]" "n \<le> 64" for n t
    using that
  proof (induction n arbitrary: t)
    case (Suc n)
    let ?u = "foldl (\<lambda>s i. exit_slot fo_close i s) s [0..<n]"
    have u: "fd_inv r ?u" "u_lastfile ?u = u_lastfile s" "length (files ?u) = length (files s)"
      "\<And>i. i < 64 \<Longrightarrow> u_ofile ?u ! i = (if i < n then None else u_ofile s ! i)" using Suc(1) [OF refl] Suc(3) by auto
    have t: "t = exit_slot fo_close n ?u" using Suc(2) by simp
    have n: "n < 64" using Suc(3) by simp
    note E = exit_slot_inv [OF assms(1) u(1) assms(3) n]
    show ?case unfolding t E(2-4) using E(1) u fd_inv_D(2) [OF u(1)] n by (auto simp: nth_list_update less_Suc_eq)
  qed (use assms in simp)
  note D = fd_inv_D [OF assms(2)]
  have X: "fd_inv r (exit_files fo_close s) \<and> u_lastfile (exit_files fo_close s) = u_lastfile s \<and> length (files (exit_files fo_close s)) = length (files s) \<and>
      (\<forall>i < 64. u_ofile (exit_files fo_close s) ! i = (if i < nat (u_lastfile s + 1) then None else u_ofile s ! i))"
    by (rule L [OF exit_files_def]) (use D(7) in linarith)
  then show "fd_inv r (exit_files fo_close s)" "length (files (exit_files fo_close s)) = length (files s)" by auto
  show "u_ofile (exit_files fo_close s) ! i = None" if "i < 64" for i
  proof (cases "i < nat (u_lastfile s + 1)")
    case False
    then have "u_ofile s ! i = None" using D(5) [OF that] by (cases "u_ofile s ! i") auto
    then show ?thesis using X that by simp
  qed (use X that in simp)
qed

lemma exec_slot_inv:
  assumes "close_ok fo_close" "fd_inv r s" "\<And>q. 0 \<le> r q" "n < 64"
  shows "fd_inv r (exec_slot fo_close n s)"
    and "u_ofile (exec_slot fo_close n s) = (if u_pofile s ! n AND UF_EXCLOSE \<noteq> 0 then (u_ofile s)[n := None] else u_ofile s)"
    and "u_lastfile (exec_slot fo_close n s) = u_lastfile s" "length (files (exec_slot fo_close n s)) = length (files s)"
proof -
  have *: "fd_inv r (exec_slot fo_close n s) \<and> u_ofile (exec_slot fo_close n s) = (if u_pofile s ! n AND UF_EXCLOSE \<noteq> 0 then (u_ofile s)[n := None] else u_ofile s)
     \<and> u_lastfile (exec_slot fo_close n s) = u_lastfile s \<and> length (files (exec_slot fo_close n s)) = length (files s)"
  proof (cases "u_pofile s ! n AND UF_EXCLOSE \<noteq> 0")
    case False
    then show ?thesis using assms(2) by (simp add: exec_slot_def pflag_def) (simp add: set_pflag_def)
  next
    case True
    show ?thesis
    proof (cases "u_ofile s ! n")
      case None
      then show ?thesis using True assms(2) list_update_id [of "u_ofile s" n] fd_inv_set_pflag
        by (simp add: exec_slot_def pflag_def closef_def Let_def set_slot_def) (simp add: set_pflag_def)
    next
      case (Some f)
      let ?c = "closef fo_close (Some f) s"
      have f: "f < length (files s)" by (rule fd_inv_D(4) [OF assms(2,4) Some])
      have "1 \<le> occ (u_ofile s) f" using occ_pos [of n "u_ofile s" f] assms(4) Some fd_inv_D(2) [OF assms(2)] by simp
      then have c: "1 \<le> counts s ! f" using fdwD(4) [OF fd_inv_D(1) [OF assms(2)], of f] f assms(3) [of f] by simp
      note V = closef_view [OF assms(1) f c]
      have "fdw (counts ?c) ((u_ofile ?c)[n := None]) (u_lastfile ?c) r" unfolding V
        using fdw_dec [OF fdw_drop [OF fd_inv_D(1) [OF assms(2)] assms(4) Some]] .
      then have "fd_inv r (set_slot (int n) None ?c)"
        using V fd_inv_D(3) [OF assms(2)] fd_inv_lastf [OF assms(2)] closef_files_length [OF assms(1) f c]
        by (simp add: fd_inv_def set_slot_def counts_def)
      then show ?thesis using True Some V closef_files_length [OF assms(1) f c]
        by (simp add: exec_slot_def pflag_def Let_def) (simp add: set_pflag_def set_slot_def)
    qed
  qed
  then show "fd_inv r (exec_slot fo_close n s)" "u_lastfile (exec_slot fo_close n s) = u_lastfile s" "length (files (exec_slot fo_close n s)) = length (files s)"
    "u_ofile (exec_slot fo_close n s) = (if u_pofile s ! n AND UF_EXCLOSE \<noteq> 0 then (u_ofile s)[n := None] else u_ofile s)" by auto
qed

lemma exec_files_inv:
  assumes "close_ok fo_close" "fd_inv r s" "\<And>q. 0 \<le> r q"
  shows "fd_inv r (exec_files fo_close s)" "length (files (exec_files fo_close s)) = length (files s)"
proof -
  have L: "fd_inv r (foldl (\<lambda>s n. exec_slot fo_close n s) s ns) \<and> length (files (foldl (\<lambda>s n. exec_slot fo_close n s) s ns)) = length (files s)"
    if "\<forall>n \<in> set ns. n < 64" for ns using that
  proof (induction ns rule: rev_induct)
    case (snoc n ns)
    have nn: "0 \<le> r q" for q by (rule assms(3))
    show ?case using snoc exec_slot_inv [OF assms(1) _ nn, where s = "foldl (\<lambda>s n. exec_slot fo_close n s) s ns" and n = n] by auto
  qed (use assms in simp)
  have "\<forall>n \<in> set (rev [0..<nat (u_lastfile s + 1)]). n < 64" using fd_inv_D(7) [OF assms(2)] by auto
  from L [OF this] show "fd_inv r (exec_files fo_close s)" "length (files (exec_files fo_close s)) = length (files s)"
    using lower_lastfile_inv by (auto simp: exec_files_def) (simp add: lower_lastfile_def)
qed

section \<open>Messages\<close>

definition in_list :: "nat list \<Rightarrow> nat \<Rightarrow> int" where "in_list fps fp = int (length (filter (\<lambda>x. x = fp) fps))"

lemma in_list_simps [simp]: "in_list [] q = 0" "in_list (fp # fps) q = one fp q + in_list fps q" "0 \<le> in_list fps q"
  by (simp_all add: in_list_def one_def)

lemma same_count_msg: "fp < length (files s) \<Longrightarrow>
    counts (upd_file fp (\<lambda>f. f\<lparr>f_count := f_count f + 1, f_msgcount := f_msgcount f + 1\<rparr>) (s\<lparr>unp_rights := v\<rparr>)) = (counts s)[fp := counts s ! fp + 1]"
  by (simp add: counts_upd counts_nth) (simp add: counts_def)

lemma internalize_loop_inv:
  assumes "fd_inv r s" "\<And>fp. fp \<in> set fps \<Longrightarrow> fp < length (files s)"
  shows "fd_inv (\<lambda>q. r q + in_list fps q) (foldl (\<lambda>s fp. upd_file fp (\<lambda>f. f\<lparr>f_count := f_count f + 1, f_msgcount := f_msgcount f + 1\<rparr>)
            (s\<lparr>unp_rights := unp_rights s + 1\<rparr>)) s fps)"
  using assms
proof (induction fps arbitrary: r s)
  case (Cons fp fps)
  let ?t = "upd_file fp (\<lambda>f. f\<lparr>f_count := f_count f + 1, f_msgcount := f_msgcount f + 1\<rparr>) (s\<lparr>unp_rights := unp_rights s + 1\<rparr>)"
  have fp: "fp < length (files s)" using Cons(3) by simp
  have "fd_inv (\<lambda>q. r q + one fp q) ?t"
    using fdw_inc [OF fd_inv_D(1) [OF Cons(2)], of fp] fp fd_inv_D(3) [OF Cons(2)] fd_inv_lastf [OF Cons(2)]
    by (intro fd_invI) (simp_all only: same_count_msg [OF fp] counts_length, simp_all add: upd_file_def)
  moreover have "length (files ?t) = length (files s)" by (simp add: upd_file_def)
  ultimately show ?case using Cons(1) [of "\<lambda>q. r q + one fp q" ?t] Cons(3) by (simp add: add.assoc)
qed simp

lemma unp_internalize_inv:
  assumes "fd_inv r s" "unp_internalize fds s = (res, t)"
  shows "case res of Inl e \<Rightarrow> fd_inv r t | Inr fps \<Rightarrow> fd_inv (\<lambda>q. r q + in_list fps q) t \<and> (\<forall>fp \<in> set fps. fp < length (files s))"
proof (cases "\<exists>fd \<in> set fds. fst (getf fd s) = None")
  case True
  then show ?thesis using assms by (auto simp: unp_internalize_def)
next
  case False
  have lt: "the (fst (getf fd s)) < length (files s)" if "fd \<in> set fds" for fd
    using False that getf_fp [OF assms(1), of fd] by (cases "getf fd s") fastforce
  then have *: "\<forall>fp \<in> set (map (\<lambda>fd. the (fst (getf fd s))) fds). fp < length (files s)" by auto
  have "fd_inv (\<lambda>q. r q + in_list (map (\<lambda>fd. the (fst (getf fd s))) fds) q) (foldl (\<lambda>s fp. upd_file fp (\<lambda>f. f\<lparr>f_count := f_count f + 1, f_msgcount := f_msgcount f + 1\<rparr>)
            (s\<lparr>unp_rights := unp_rights s + 1\<rparr>)) s (map (\<lambda>fd. the (fst (getf fd s))) fds))"
    using * by (intro internalize_loop_inv [OF assms(1)]) blast
  moreover have "res = Inr (map (\<lambda>fd. the (fst (getf fd s))) fds)" "t = foldl (\<lambda>s fp. upd_file fp (\<lambda>f. f\<lparr>f_count := f_count f + 1, f_msgcount := f_msgcount f + 1\<rparr>)
            (s\<lparr>unp_rights := unp_rights s + 1\<rparr>)) s (map (\<lambda>fd. the (fst (getf fd s))) fds)"
    using assms(2) unfolding unp_internalize_def Let_def if_not_P [OF False] by simp_all
  ultimately show ?thesis using * by simp
qed

lemma ufavail_card: "ufavail s = card {i. i < 64 \<and> u_ofile s ! i = None}"
proof -
  have "ufavail s = card (set (filter (\<lambda>i. u_ofile s ! i = None) [0..<64]))"
    unfolding ufavail_def NOFILE_def by (subst distinct_card) auto
  also have "set (filter (\<lambda>i. u_ofile s ! i = None) [0..<64]) = {i. i < 64 \<and> u_ofile s ! i = None}" by auto
  finally show ?thesis .
qed

lemma ufavail_ufalloc:
  assumes "0 < ufavail s" "ufalloc 0 s = (j, t)"
  shows "\<not> j < 0"
proof
  assume "j < 0"
  then have "find (\<lambda>i. u_ofile s ! i = None) [0..<64] = None"
    using assms(2) by (auto simp: ufalloc_def free_from_def NOFILE_def split: option.splits)
  then have "filter (\<lambda>i. u_ofile s ! i = None) [0..<64] = []" by (simp add: find_None_iff filter_empty_conv)
  then show False using assms(1) by (simp add: ufavail_def NOFILE_def)
qed

lemma ufavail_put:
  assumes "length (u_ofile s) = 64" "j < 64" "u_ofile s ! j = None" "u_ofile t = (u_ofile s)[j := Some fp]"
  shows "ufavail s = Suc (ufavail t)"
proof -
  let ?A = "{i. i < 64 \<and> u_ofile s ! i = None}"
  have "u_ofile t ! i = None \<longleftrightarrow> u_ofile s ! i = None \<and> i \<noteq> j" if "i < 64" for i
    using that assms by (cases "i = j") simp_all
  then have "{i. i < 64 \<and> u_ofile t ! i = None} = ?A - {j}" by blast
  moreover have "finite ?A" by simp
  moreover have "j \<in> ?A" using assms(2,3) by simp
  ultimately show ?thesis unfolding ufavail_card using card_Suc_Diff1 [of ?A j] by (simp only:)
qed

lemma externalize_loop_inv:
  assumes "fd_inv (\<lambda>q. r q + in_list fps q) s" "length fps \<le> ufavail s" "\<And>fp. fp \<in> set fps \<Longrightarrow> fp < length (files s)"
  shows "\<exists>fds t. externalize_loop fps (acc, s) = Inr (acc @ fds, t) \<and> fd_inv r t \<and> length fds = length fps \<and> length (files t) = length (files s) \<and>
    (\<forall>i < length fds. 0 \<le> fds ! i \<and> fds ! i < 64 \<and> u_ofile s ! nat (fds ! i) = None \<and> u_ofile t ! nat (fds ! i) = Some (fps ! i)) \<and>
    (\<forall>i < 64. u_ofile s ! i \<noteq> None \<longrightarrow> u_ofile t ! i = u_ofile s ! i)"
  using assms
proof (induction fps arbitrary: s acc)
  case (Cons fp fps)
  obtain j u where u: "ufalloc 0 s = (j, u)" by fastforce
  have j: "\<not> j < 0" using ufavail_ufalloc [OF _ u] Cons(3) by simp
  note U = ufalloc_ok [OF u j]
  have iu: "fd_inv (\<lambda>q. r q + in_list (fp # fps) q) u" by (rule ufalloc_inv [OF Cons(2) u])
  define v where "v = upd_file fp (\<lambda>g. g\<lparr>f_msgcount := f_msgcount g - 1\<rparr>) ((set_slot j (Some fp) u)\<lparr>unp_rights := unp_rights u - 1\<rparr>)"
  have uf: "u_ofile u = u_ofile s" "files u = files s" using U(6) by (simp_all add: set_pflag_def)
  have v: "u_ofile v = (u_ofile s)[nat j := Some fp]" "length (files v) = length (files s)" "u_lastfile v = u_lastfile u" "u_pofile v = u_pofile u" "lastf v = lastf u"
    using uf by (simp_all add: v_def fd_simps)
  have cv: "counts v = counts u" using same_upd_file [of "\<lambda>g. g\<lparr>f_msgcount := f_msgcount g - 1\<rparr>" "(set_slot j (Some fp) u)\<lparr>unp_rights := unp_rights u - 1\<rparr>" fp]
    by (simp add: v_def same_fds_def) (simp add: counts_def set_slot_def)
  have fp: "fp < length (files u)" using Cons(4) uf by simp
  have "max (u_lastfile u) j = u_lastfile u" using U(6) by (simp add: set_pflag_def)
  then have iv: "fd_inv (\<lambda>q. r q + in_list fps q) v"
    using fdw_put [of "counts u" "u_ofile u" "u_lastfile u" "\<lambda>q. r q + in_list fps q" fp "nat j"] fd_inv_D(1,3) [OF iu] fd_inv_lastf [OF iu] U(1-3) fp v uf cv
    by (intro fd_invI) (simp_all add: algebra_simps)
  have len: "length (u_ofile s) = 64" using fd_inv_D(2) [OF Cons(2)] .
  have "ufavail s = Suc (ufavail v)" using ufavail_put [OF len _ U(3) v(1)] U(1,2) by simp
  then have av: "length fps \<le> ufavail v" using Cons(3) by simp
  have lt: "\<And>q. q \<in> set fps \<Longrightarrow> q < length (files v)" using Cons(4) v(2) by simp
  from Cons(1) [OF iv av lt, of "acc @ [j]"] obtain fds t where t: "externalize_loop fps (acc @ [j], v) = Inr ((acc @ [j]) @ fds, t)" "fd_inv r t"
    "length fds = length fps" "length (files t) = length (files v)"
    "\<And>i. i < length fds \<Longrightarrow> 0 \<le> fds ! i \<and> fds ! i < 64 \<and> u_ofile v ! nat (fds ! i) = None \<and> u_ofile t ! nat (fds ! i) = Some (fps ! i)"
    "\<And>i. i < 64 \<Longrightarrow> u_ofile v ! i \<noteq> None \<Longrightarrow> u_ofile t ! i = u_ofile v ! i" by blast
  have nj: "nat j < 64" using U(1,2) by simp
  have vs: "u_ofile v ! i = (if i = nat j then Some fp else u_ofile s ! i)" if "i < 64" for i using that len v(1) nj by (auto simp: nth_list_update)
  have "externalize_loop (fp # fps) (acc, s) = Inr (acc @ (j # fds), t)" using u j t(1) by (simp add: v_def)
  moreover have "0 \<le> (j # fds) ! i \<and> (j # fds) ! i < 64 \<and> u_ofile s ! nat ((j # fds) ! i) = None \<and> u_ofile t ! nat ((j # fds) ! i) = Some ((fp # fps) ! i)"
    if "i < length (j # fds)" for i
  proof (cases i)
    case 0
    have "u_ofile t ! nat j = u_ofile v ! nat j" by (rule t(6) [OF nj]) (simp add: vs [OF nj])
    then show ?thesis using 0 U(1-3) vs [OF nj] by simp
  next
    case (Suc k)
    then have T: "0 \<le> fds ! k" "fds ! k < 64" "u_ofile v ! nat (fds ! k) = None" "u_ofile t ! nat (fds ! k) = Some (fps ! k)" using t(5) [of k] that by auto
    then have "u_ofile s ! nat (fds ! k) = None" using vs [of "nat (fds ! k)"] by (simp split: if_splits)
    then show ?thesis using T Suc by simp
  qed
  moreover have "u_ofile t ! i = u_ofile s ! i" if "i < 64" "u_ofile s ! i \<noteq> None" for i
    using t(6) [OF that(1)] vs [OF that(1)] that U(3) by (cases "i = nat j") auto
  ultimately show ?case using t(2-4) v(2) by (intro exI [of _ "j # fds"] exI [of _ t]) auto
qed auto

lemma discard_all_inv:
  assumes "close_ok fo_close" "fd_inv (\<lambda>q. r q + in_list fps q) s" "\<And>fp. fp \<in> set fps \<Longrightarrow> fp < length (files s)" "\<And>q. 0 \<le> r q"
  shows "fd_inv r (foldl (\<lambda>s fp. unp_discard fo_close fp s) s fps) \<and> length (files (foldl (\<lambda>s fp. unp_discard fo_close fp s) s fps)) = length (files s)"
  using assms(2,3)
proof (induction fps arbitrary: s)
  case (Cons fp fps)
  define u where "u = upd_file fp (\<lambda>f. f\<lparr>f_msgcount := f_msgcount f - 1\<rparr>) (s\<lparr>unp_rights := unp_rights s - 1\<rparr>)"
  have "same_fds (s\<lparr>unp_rights := unp_rights s - 1\<rparr>) u" unfolding u_def by (rule same_upd_file) simp
  then have su: "same_fds s u" by (simp add: same_fds_def counts_def)
  have iu: "fd_inv (\<lambda>q. (r q + in_list fps q) + one fp q) u" using fd_inv_same [OF Cons(2) su] by (simp add: algebra_simps)
  have len: "length (files u) = length (files s)" by (rule same_fds_length [OF su])
  have fp: "fp < length (files u)" using Cons(3) len by simp
  have nn: "0 \<le> r fp + in_list fps fp" using assms(4) [of fp] by simp
  have c: "1 \<le> counts u ! fp" using fdwD(4) [OF fd_inv_D(1) [OF iu], of fp] fp nn occ_nonneg [of "u_ofile u" fp] by (simp add: one_def)
  have "fd_inv (\<lambda>q. r q + in_list fps q) (unp_discard fo_close fp s)" unfolding unp_discard_def u_def [symmetric]
    by (rule closef_inv [OF assms(1) iu fp nn])
  moreover have "length (files (unp_discard fo_close fp s)) = length (files s)" unfolding unp_discard_def u_def [symmetric]
    using closef_files_length [OF assms(1) fp c] len by simp
  ultimately show ?case using Cons(1) [of "unp_discard fo_close fp s"] Cons(3) by simp
qed simp

lemma unp_externalize_inv:
  assumes "close_ok fo_close" "fd_inv (\<lambda>q. r q + in_list fps q) s" "\<And>fp. fp \<in> set fps \<Longrightarrow> fp < length (files s)" "\<And>q. 0 \<le> r q"
  obtains res t where "unp_externalize fo_close fps s = Inr (res, t)" "fd_inv r t" "length (files t) = length (files s)"
    "case res of Inl e \<Rightarrow> e = EMSGSIZE \<and> ufavail s < length fps
      | Inr fds \<Rightarrow> length fds = length fps \<and> (\<forall>i < length fds. 0 \<le> fds ! i \<and> fds ! i < 64 \<and> u_ofile s ! nat (fds ! i) = None \<and> u_ofile t ! nat (fds ! i) = Some (fps ! i))"
proof (cases "ufavail s < length fps")
  case True
  then show ?thesis using discard_all_inv [OF assms(1-4)]
    by (intro that [of "Inl EMSGSIZE" "foldl (\<lambda>s fp. unp_discard fo_close fp s) s fps"]) (simp_all add: unp_externalize_def)
next
  case False
  then have "length fps \<le> ufavail s" by simp
  from externalize_loop_inv [OF assms(2) this assms(3), of "[]"] obtain fds t where
    "externalize_loop fps ([], s) = Inr (fds, t)" "fd_inv r t" "length fds = length fps" "length (files t) = length (files s)"
    "\<forall>i < length fds. 0 \<le> fds ! i \<and> fds ! i < 64 \<and> u_ofile s ! nat (fds ! i) = None \<and> u_ofile t ! nat (fds ! i) = Some (fps ! i)" by auto
  then show ?thesis using False by (intro that [of "Inr fds" t]) (auto simp: unp_externalize_def)
qed

end
