(* ===== verification/Descrip_props.thy ===== *)
theory Descrip_props
  imports Descrip_ops
begin

unbundle bit_operations_syntax

text \<open>
  All processes together: each has its table of descriptors, messages hold descriptors in flight, and the running process
  works on the file table. Over any sequence of system calls, forks, execs and exits every file's count is the number of
  references to it.
\<close>

section \<open>Processes and messages\<close>

record uarea =
  p_ofile :: "nat option list"
  p_pofile :: "8 word list"
  p_lastfile :: int
  p_cred :: nat

record world =
  tab :: "uarea list"
  flight :: "nat list list"
  core :: fdsys

text \<open>A process starts to run, with \<^verbatim>\<open>u.u_error\<close> clear as \<^verbatim>\<open>syscall\<close> leaves it, and stops running.\<close>

definition load :: "uarea \<Rightarrow> fdsys \<Rightarrow> fdsys" where
  "load u s = s\<lparr>u_ofile := p_ofile u, u_pofile := p_pofile u, u_lastfile := p_lastfile u, u_cred := p_cred u, u_error := 0\<rparr>"

definition save :: "fdsys \<Rightarrow> uarea" where
  "save s = \<lparr>p_ofile = u_ofile s, p_pofile = u_pofile s, p_lastfile = u_lastfile s, p_cred = u_cred s\<rparr>"

datatype fd_req = Dup int int | Dup2 int int | Close int | Fcntl int int int | Open | Exec | Exit | Send "int list" | Receive nat

record fd_env =
  e_close :: "nat \<Rightarrow> fdsys \<Rightarrow> fdsys"
  e_ioctl :: fo_ioctl
  e_pgrp :: "int \<Rightarrow> int option"

fun fd_call :: "fd_env \<Rightarrow> fd_req \<Rightarrow> nat list list \<Rightarrow> fdsys \<Rightarrow> (nat list list \<times> fdsys) kern" where
  "fd_call E (Dup i j) F s = Inr (F, dup (e_close E) i j s)"
| "fd_call E (Dup2 i j) F s = Inr (F, dup2 (e_close E) i j s)"
| "fd_call E (Close i) F s = Inr (F, close_fd (e_close E) i s)"
| "fd_call E (Fcntl i c a) F s = Inr (F, fcntl (e_ioctl E) (e_pgrp E) i c a s)"
| "fd_call E Open F s = Inr (F, snd (falloc s))"
| "fd_call E Exec F s = Inr (F, exec_files (e_close E) s)"
| "fd_call E Exit F s = Inr (F, exit_files (e_close E) s)"
| "fd_call E (Send fds) F s = (case unp_internalize fds s of (Inl e, s) \<Rightarrow> Inr (F, s) | (Inr fps, s) \<Rightarrow> Inr (F @ [fps], s))"
| "fd_call E (Receive k) F s = (if length F \<le> k then Inr (F, s)
     else kbind (unp_externalize (e_close E) (F ! k) s) (\<lambda>(r, s). Inr (take k F @ drop (Suc k) F, s)))"

datatype fd_event = Call nat fd_req | Fork nat nat

text \<open>A call of process \<open>p\<close>, or a fork of \<open>p\<close> into a slot \<open>q\<close> of the process table with no descriptors.\<close>

fun fd_step :: "fd_env \<Rightarrow> fd_event \<Rightarrow> world \<Rightarrow> world kern" where
  "fd_step E (Call p c) W = (if length (tab W) \<le> p then Inr W
     else kbind (fd_call E c (flight W) (load (tab W ! p) (core W))) (\<lambda>(F, s). Inr \<lparr>tab = (tab W)[p := save s], flight = F, core = s\<rparr>))"
| "fd_step E (Fork p q) W = (if length (tab W) \<le> p \<or> length (tab W) \<le> q \<or> p = q \<or> p_ofile (tab W ! q) \<noteq> replicate 64 None then Inr W
     else let s = fork_files (load (tab W ! p) (core W)) in Inr (W\<lparr>tab := (tab W)[q := save s], core := s\<rparr>))"

fun fd_run :: "fd_env \<Rightarrow> fd_event list \<Rightarrow> world \<Rightarrow> world kern" where
  "fd_run E [] W = Inr W"
| "fd_run E (e # es) W = kbind (fd_step E e W) (fd_run E es)"

section \<open>The invariant of all processes\<close>

definition tables_refs :: "uarea list \<Rightarrow> nat \<Rightarrow> int" where "tables_refs us fp = (\<Sum>u\<leftarrow>us. occ (p_ofile u) fp)"
definition flight_refs :: "nat list list \<Rightarrow> nat \<Rightarrow> int" where "flight_refs F fp = (\<Sum>m\<leftarrow>F. in_list m fp)"

definition table_ok :: "nat \<Rightarrow> uarea \<Rightarrow> bool" where
  "table_ok n u = (length (p_ofile u) = 64 \<and> length (p_pofile u) = 64 \<and> -1 \<le> p_lastfile u \<and> p_lastfile u < 64 \<and>
     (\<forall>i < 64. \<forall>fp. p_ofile u ! i = Some fp \<longrightarrow> fp < n \<and> int i \<le> p_lastfile u))"

definition world_inv :: "world \<Rightarrow> bool" where
  "world_inv W = (let n = length (files (core W)) in
     (\<forall>fp < n. f_count (files (core W) ! fp) = tables_refs (tab W) fp + flight_refs (flight W) fp) \<and>
     (\<forall>u \<in> set (tab W). table_ok n u) \<and> (\<forall>m \<in> set (flight W). \<forall>fp \<in> set m. fp < n) \<and>
     (\<forall>l. lastf (core W) = Some l \<longrightarrow> l \<le> n))"

lemma refs_nonneg: "0 \<le> tables_refs us fp" "0 \<le> flight_refs F fp"
  unfolding tables_refs_def flight_refs_def by (auto intro!: sum_list_nonneg)

lemma tables_refs_upd:
  "p < length us \<Longrightarrow> tables_refs (us[p := u]) fp = tables_refs us fp - occ (p_ofile (us ! p)) fp + occ (p_ofile u) fp"
proof (induction us arbitrary: p)
  case (Cons v us)
  then show ?case by (cases p) (simp_all add: tables_refs_def)
qed simp

definition others :: "world \<Rightarrow> nat \<Rightarrow> nat \<Rightarrow> int" where
  "others W p fp = tables_refs (tab W) fp - occ (p_ofile (tab W ! p)) fp"

lemma others_nonneg: "p < length (tab W) \<Longrightarrow> 0 \<le> others W p fp"
  unfolding others_def using tables_refs_upd [of p "tab W" "\<lparr>p_ofile = [], p_pofile = [], p_lastfile = 0, p_cred = 0\<rparr>" fp]
    refs_nonneg(1) [of "(tab W)[p := \<lparr>p_ofile = [], p_pofile = [], p_lastfile = 0, p_cred = 0\<rparr>]" fp] by (simp add: occ_def)

lemma load_inv:
  assumes "world_inv W" "p < length (tab W)"
  shows "fd_inv (\<lambda>fp. others W p fp + flight_refs (flight W) fp) (load (tab W ! p) (core W))"
proof -
  have "table_ok (length (files (core W))) (tab W ! p)" using assms by (simp add: world_inv_def Let_def)
  moreover have "counts (load (tab W ! p) (core W)) ! fp = occ (p_ofile (tab W ! p)) fp + (others W p fp + flight_refs (flight W) fp)"
    if "fp < length (files (core W))" for fp
    using assms that counts_nth [of fp "load (tab W ! p) (core W)"] by (simp add: world_inv_def Let_def others_def load_def)
  ultimately have "fdw (counts (load (tab W ! p) (core W))) (p_ofile (tab W ! p)) (p_lastfile (tab W ! p)) (\<lambda>fp. others W p fp + flight_refs (flight W) fp)"
    unfolding fdw_def table_ok_def by (simp add: load_def)
  then show ?thesis using assms by (simp add: fd_inv_def load_def world_inv_def Let_def table_ok_def)
qed

lemma save_inv:
  assumes "world_inv W" "p < length (tab W)" "fd_inv (\<lambda>fp. others W p fp + flight_refs F fp) s" "length (files s) = length (files (core W))"
    "\<And>m fp. m \<in> set F \<Longrightarrow> fp \<in> set m \<Longrightarrow> fp < length (files s)"
  shows "world_inv \<lparr>tab = (tab W)[p := save s], flight = F, core = s\<rparr>"
proof -
  note D = fd_inv_D [OF assms(3)]
  have "table_ok (length (files s)) (save s)" using D(2-7) by (auto simp: table_ok_def save_def)
  moreover have "\<forall>u \<in> set (tab W). table_ok (length (files s)) u" using assms(1,4) by (simp add: world_inv_def Let_def)
  ultimately have "\<forall>u \<in> set ((tab W)[p := save s]). table_ok (length (files s)) u" using set_update_subset_insert [of "tab W" p "save s"] by blast
  moreover have "f_count (files s ! fp) = tables_refs ((tab W)[p := save s]) fp + flight_refs F fp" if "fp < length (files s)" for fp
    using D(8) [OF that] tables_refs_upd [OF assms(2), of "save s" fp] by (simp add: others_def save_def)
  ultimately show ?thesis using assms(5) fd_inv_lastf [OF assms(3)] by (simp add: world_inv_def Let_def)
qed

lemma flight_refs_app: "flight_refs (F @ [m]) fp = flight_refs F fp + in_list m fp" by (simp add: flight_refs_def)

lemma flight_refs_take: "k < length F \<Longrightarrow> flight_refs F fp = flight_refs (take k F @ drop (Suc k) F) fp + in_list (F ! k) fp"
  using arg_cong [OF id_take_nth_drop [of k F], of "\<lambda>F. flight_refs F fp"] by (simp add: flight_refs_def)

definition env_ok :: "fd_env \<Rightarrow> bool" where "env_ok E = (close_ok (e_close E) \<and> ioctl_ok (e_ioctl E))"

text \<open>No operation changes the size of the file table.\<close>

lemma upd_file_nfile [simp]: "length (files (upd_file fp f s)) = length (files s)"
  "length (files (set_slot i x s)) = length (files s)" "length (files (set_pflag i b s)) = length (files s)"
  "length (files (munmapfd i s)) = length (files s)" "length (files (lower_lastfile s)) = length (files s)"
  "length (files (dupit i fp b s)) = length (files s)"
  by (simp_all add: fd_simps munmapfd_def lower_lastfile_def dupit_def Let_def)

lemma closef_nfile:
  assumes "close_ok fo_close"
  shows "length (files (closef fo_close x s)) = length (files s)"
  using same_fds_length assms by (auto simp: closef_def Let_def cr_release_def close_ok_def split: option.splits)

lemma getf_nfile: "getf fd s = (x, t) \<Longrightarrow> length (files t) = length (files s)"
  by (auto simp: getf_def split: if_splits option.splits)

lemma ufalloc_nfile: "ufalloc i s = (j, t) \<Longrightarrow> length (files t) = length (files s)"
  by (auto simp: ufalloc_def split: option.splits)

lemma dup_nfile:
  assumes "close_ok fo_close"
  shows "length (files (dup2 fo_close i j s)) = length (files s)" "length (files (dup fo_close i j s)) = length (files s)"
proof -
  show 2: "length (files (dup2 fo_close i j s)) = length (files s)" for i s
    by (auto simp: dup2_def Let_def closef_nfile [OF assms] dest!: getf_nfile split: prod.splits option.splits)
  show "length (files (dup fo_close i j s)) = length (files s)"
    by (auto simp: dup_def 2 dest!: getf_nfile ufalloc_nfile split: prod.splits option.splits)
qed

lemma close_fd_nfile: "close_ok fo_close \<Longrightarrow> length (files (close_fd fo_close i s)) = length (files s)"
  by (auto simp: close_fd_def Let_def closef_nfile dest!: getf_nfile split: prod.splits option.splits)

lemma fcntl_nfile:
  assumes "ioctl_ok fo_ioctl"
  shows "length (files (fcntl fo_ioctl g fd c a s)) = length (files s)"
  using same_fds_length [OF own_same(1) [OF assms]] same_fds_length [OF own_same(2) [OF assms]] same_fds_length [OF setfl_same [OF assms]]
  by (auto simp: fcntl_def Let_def dest!: getf_nfile ufalloc_nfile split: prod.splits option.splits) (metis snd_conv)+

lemma falloc_nfile: "length (files (snd (falloc s))) = length (files s)"
  by (auto simp: falloc_def Let_def dest!: ufalloc_nfile split: prod.splits option.splits)

lemma internalize_nfile: "unp_internalize fds s = (r, t) \<Longrightarrow> length (files t) = length (files s)"
proof -
  assume "unp_internalize fds s = (r, t)"
  moreover have "length (files (foldl (\<lambda>s fp. upd_file fp (\<lambda>f. f\<lparr>f_count := f_count f + 1, f_msgcount := f_msgcount f + 1\<rparr>)
            (s\<lparr>unp_rights := unp_rights s + 1\<rparr>)) s fps)) = length (files s)" for fps
    by (rule foldl_keeps [of "\<lambda>s. length (files s)"]) simp
  ultimately show ?thesis by (auto simp: unp_internalize_def Let_def split: if_splits)
qed

lemma call_inv:
  assumes E: "env_ok E" and W: "world_inv W" and p: "p < length (tab W)"
  shows "\<exists>F s. fd_call E c (flight W) (load (tab W ! p) (core W)) = Inr (F, s) \<and> fd_inv (\<lambda>fp. others W p fp + flight_refs F fp) s \<and>
    (\<forall>m fp. m \<in> set F \<longrightarrow> fp \<in> set m \<longrightarrow> fp < length (files s)) \<and> length (files s) = length (files (core W))"
proof -
  note L = load_inv [OF W p] and C = E [unfolded env_ok_def, THEN conjunct1] and I = E [unfolded env_ok_def, THEN conjunct2]
  let ?s = "load (tab W ! p) (core W)" and ?r = "\<lambda>fp. others W p fp + flight_refs (flight W) fp"
  have nn: "0 \<le> ?r q" for q using others_nonneg [OF p, of q] refs_nonneg(2) [of "flight W" q] by simp
  have e: "u_error ?s = 0" "length (files ?s) = length (files (core W))" by (simp_all add: load_def)
  have F: "m \<in> set (flight W) \<Longrightarrow> fp \<in> set m \<Longrightarrow> fp < length (files (core W))" for m fp using W by (simp add: world_inv_def Let_def)
  have same: ?thesis if "fd_call E c (flight W) ?s = Inr (flight W, t)" "fd_inv ?r t" "length (files t) = length (files (core W))" for t
    using that F by auto
  show ?thesis
  proof (cases c)
    case (Send fds)
    obtain x t where x: "unp_internalize fds ?s = (x, t)" by fastforce
    have n: "length (files t) = length (files (core W))" using internalize_nfile [OF x] e by simp
    show ?thesis
    proof (cases x)
      case (Inl y)
      then show ?thesis using unp_internalize_inv [OF L x] Send x n by (intro same [of t]) auto
    next
      case (Inr fps)
      then show ?thesis using unp_internalize_inv [OF L x] Send x n e F
        by (auto simp: flight_refs_app add.assoc)
    qed
  next
    case (Receive k)
    show ?thesis
    proof (cases "length (flight W) \<le> k")
      case True
      then show ?thesis using L Receive e by (intro same [of ?s]) auto
    next
      case False
      let ?F = "take k (flight W) @ drop (Suc k) (flight W)"
      have sub: "set ?F \<subseteq> set (flight W)" by (auto dest: in_set_takeD in_set_dropD)
      have r: "fd_inv (\<lambda>q. (others W p q + flight_refs ?F q) + in_list (flight W ! k) q) ?s"
        using L flight_refs_take [of k "flight W"] False by (simp add: add.assoc)
      have q: "\<And>fp. fp \<in> set (flight W ! k) \<Longrightarrow> fp < length (files ?s)" using F [of "flight W ! k"] False e by auto
      have nn': "0 \<le> others W p q + flight_refs ?F q" for q using others_nonneg [OF p, of q] refs_nonneg(2) [of ?F q] by simp
      obtain x t where t: "unp_externalize (e_close E) (flight W ! k) ?s = Inr (x, t)"
        "fd_inv (\<lambda>q. others W p q + flight_refs ?F q) t" "length (files t) = length (files ?s)"
        by (rule unp_externalize_inv [OF C r q nn']) blast
      then show ?thesis using Receive False e F sub by (intro exI [of _ ?F] exI [of _ t]) auto
    qed
  next
    case Open
    then show ?thesis using falloc_inv(1) [OF L nn, of "fst (falloc ?s)" "snd (falloc ?s)"] falloc_nfile [of ?s] e by (intro same [of "snd (falloc ?s)"]) simp_all
  next
    case Exec
    then show ?thesis using exec_files_inv [OF C L nn] e by (intro same [of "exec_files (e_close E) ?s"]) simp_all
  next
    case Exit
    then show ?thesis using exit_files_inv [OF C L nn] e by (intro same [of "exit_files (e_close E) ?s"]) simp_all
  next
    case (Dup i j)
    then show ?thesis using dup_inv [OF C L nn e(1), of i j] dup_nfile(2) [OF C] e by (intro same [of "dup (e_close E) i j ?s"]) simp_all
  next
    case (Dup2 i j)
    then show ?thesis using dup2_inv [OF C L nn e(1), of i j] dup_nfile(1) [OF C] e by (intro same [of "dup2 (e_close E) i j ?s"]) simp_all
  next
    case (Close i)
    then show ?thesis using close_fd_inv [OF C L nn, of i] close_fd_nfile [OF C] e by (intro same [of "close_fd (e_close E) i ?s"]) simp_all
  next
    case (Fcntl fd cmd arg)
    then show ?thesis using fcntl_inv [OF I L] fcntl_nfile [OF I] e by (intro same [of "fcntl (e_ioctl E) (e_pgrp E) fd cmd arg ?s"]) simp_all
  qed
qed

lemma step_inv:
  assumes "env_ok E" "world_inv W"
  shows "\<exists>W'. fd_step E e W = Inr W' \<and> world_inv W'"
proof (cases e)
  case (Call p c)
  show ?thesis
  proof (cases "length (tab W) \<le> p")
    case False
    then obtain F s where "fd_call E c (flight W) (load (tab W ! p) (core W)) = Inr (F, s)" "fd_inv (\<lambda>fp. others W p fp + flight_refs F fp) s"
      "\<And>m fp. m \<in> set F \<Longrightarrow> fp \<in> set m \<Longrightarrow> fp < length (files s)" "length (files s) = length (files (core W))"
      using call_inv [OF assms, of p c] by auto
    then show ?thesis using Call False save_inv [OF assms(2), of p F s] by simp
  qed (use Call assms in simp)
next
  case (Fork p q)
  show ?thesis
  proof (cases "length (tab W) \<le> p \<or> length (tab W) \<le> q \<or> p = q \<or> p_ofile (tab W ! q) \<noteq> replicate 64 None")
    case False
    let ?s = "load (tab W ! p) (core W)"
    have p: "p < length (tab W)" and q: "q < length (tab W)" using False by auto
    note K = fork_files_inv [OF load_inv [OF assms(2) p]]
    let ?t = "fork_files ?s"
    have z: "occ (p_ofile (tab W ! q)) fp = 0" for fp using False by (simp add: occ_def)
    have "others W q fp + flight_refs (flight W) fp = (others W p fp + flight_refs (flight W) fp) + occ (u_ofile ?s) fp" for fp
      by (simp add: others_def z load_def)
    then have "(\<lambda>fp. others W q fp + flight_refs (flight W) fp) = (\<lambda>fp. (others W p fp + flight_refs (flight W) fp) + occ (u_ofile ?s) fp)" by (rule ext)
    then have "fd_inv (\<lambda>fp. others W q fp + flight_refs (flight W) fp) ?t" using K(1) by (simp only:)
    moreover have "length (files ?t) = length (files (core W))" using K(4) by (simp add: load_def)
    moreover have "\<And>m fp. m \<in> set (flight W) \<Longrightarrow> fp \<in> set m \<Longrightarrow> fp < length (files (core W))" using assms(2) by (simp add: world_inv_def Let_def)
    ultimately have "world_inv \<lparr>tab = (tab W)[q := save ?t], flight = flight W, core = ?t\<rparr>"
      using save_inv [OF assms(2) q, of "flight W" ?t] by simp
    then show ?thesis using False Fork by (cases W) (simp add: Let_def)
  qed (use Fork assms in auto)
qed

lemma sum_list_zeroD: "(\<Sum>x\<leftarrow>xs. f x) = (0::int) \<Longrightarrow> (\<And>x. 0 \<le> f x) \<Longrightarrow> x \<in> set xs \<Longrightarrow> f x = 0"
proof (induction xs)
  case (Cons a xs)
  have "0 \<le> (\<Sum>x\<leftarrow>xs. f x)" by (rule sum_list_nonneg) (use Cons(3) in auto)
  then have "f a = 0" "(\<Sum>x\<leftarrow>xs. f x) = 0" using Cons(2) Cons(3) [of a] by simp_all
  then show ?case using Cons by auto
qed simp

section \<open>Properties\<close>

text \<open>References to files: whatever processes do with their descriptors - open, \<^verbatim>\<open>dup\<close>, \<^verbatim>\<open>dup2\<close>, \<^verbatim>\<open>close\<close>,
  \<^verbatim>\<open>fcntl\<close>, fork, exec, exit, sending and receiving descriptors in messages, in any order - nothing panics, every
  \<^verbatim>\<open>f_count\<close> stays the number of descriptors and messages that refer to the file, and every descriptor in use lies below
  its process's \<^verbatim>\<open>u_lastfile\<close>. This holds as long as every close succeeds and
  touches no other file (\<open>close_ok\<close>): it says nothing of closing a socket with descriptors in unread messages, for which
  \<open>gc_cycle_panics\<close> shows a panic, nor of a close that fails, for which \<open>dup2_leaves_dangling\<close> shows a wrong count.\<close>

theorem fd_world_invariant:
  assumes "env_ok E" "world_inv W"
  shows "\<exists>W'. fd_run E es W = Inr W' \<and> world_inv W'"
  using assms(2)
proof (induction es arbitrary: W)
  case (Cons e es)
  obtain W1 where "fd_step E e W = Inr W1" "world_inv W1" using step_inv [OF assms(1) Cons(2)] by blast
  then show ?case using Cons(1) by simp
qed simp

definition env0 :: fd_env where
  "env0 = \<lparr>e_close = (\<lambda>fp s. s), e_ioctl = (\<lambda>fp c v s. ((0, v), s)), e_pgrp = (\<lambda>p. None)\<rparr>"

definition u0 :: uarea where "u0 = \<lparr>p_ofile = replicate 64 None, p_pofile = replicate 64 0, p_lastfile = -1, p_cred = 1\<rparr>"

definition core0 :: fdsys where
  "core0 = \<lparr>files = replicate 3 \<lparr>f_flag = 0, f_type = 1, f_count = 0, f_msgcount = 0, f_data = 0, f_offset = 0, f_cred = 0\<rparr>, lastf = None,
     u_ofile = replicate 64 None, u_pofile = replicate 64 0, u_lastfile = -1, u_cred = 1, u_error = 0, r_val1 = 0, unp_rights = 0,
     so_pgrp = (\<lambda>d. 0), cr_ref = (\<lambda>c. 0)\<rparr>"

definition w0 :: world where "w0 = \<lparr>tab = [u0, u0], flight = [], core = core0\<rparr>"

lemma env0_ok: "env_ok env0" by (simp add: env_ok_def env0_def close_ok_def ioctl_ok_def)

lemma w0_ok: "world_inv w0"
  by (auto simp: world_inv_def w0_def core0_def u0_def Let_def tables_refs_def flight_refs_def occ_def table_ok_def nth_Cons' split: if_splits)

lemma fd_world_invariant_witness:
  "\<exists>W'. fd_run env0 [Call 0 Open, Call 0 (Dup2 0 5), Fork 0 1, Call 0 (Close 0), Call 1 (Send [5]), Call 1 Exit, Call 0 (Receive 0)] w0 = Inr W' \<and> world_inv W'"
  by (rule fd_world_invariant [OF env0_ok w0_ok])

text \<open>C35. A file structure is handed out only when nothing refers to it: the file \<^verbatim>\<open>falloc\<close> returns is in no process's
  table and in no message, and its count is one afterwards.\<close>

theorem falloc_fresh:
  assumes "world_inv W" "p < length (tab W)" "falloc (load (tab W ! p) (core W)) = (Some fp, s)"
  shows "list_all (\<lambda>u. Some fp \<notin> set (p_ofile u)) (tab W) \<and> list_all (\<lambda>m. fp \<notin> set m) (flight W) \<and>
    f_count (files s ! fp) = 1 \<and> (\<exists>i<64. p_ofile (tab W ! p) ! i = None \<and> u_ofile s = (p_ofile (tab W ! p))[i := Some fp])"
proof -
  let ?r = "\<lambda>fp. others W p fp + flight_refs (flight W) fp"
  note L = load_inv [OF assms(1,2)]
  have nn: "0 \<le> ?r q" for q using others_nonneg [OF assms(2), of q] refs_nonneg(2) [of "flight W" q] by simp
  note A = falloc_inv [OF L nn assms(3)]
  have z: "occ (p_ofile (tab W ! p)) fp = 0" "?r fp = 0" "fp < length (files (core W))" using A(2) [OF refl] by (simp_all add: load_def)
  then have zz: "tables_refs (tab W) fp = 0" "flight_refs (flight W) fp = 0"
    using others_nonneg [OF assms(2), of fp] refs_nonneg(1) [of "tab W" fp] refs_nonneg(2) [of "flight W" fp] by (simp_all add: others_def)
  have "\<forall>u \<in> set (tab W). occ (p_ofile u) fp = 0" using sum_list_zeroD [OF zz(1) [unfolded tables_refs_def]] by simp
  then have "list_all (\<lambda>u. Some fp \<notin> set (p_ofile u)) (tab W)" by (auto simp: list_all_iff occ_def filter_empty_conv)
  moreover have "\<forall>m \<in> set (flight W). in_list m fp = 0" using sum_list_zeroD [OF zz(2) [unfolded flight_refs_def]] by simp
  then have "list_all (\<lambda>m. fp \<notin> set m) (flight W)" by (auto simp: list_all_iff in_list_def filter_empty_conv)
  moreover obtain i u where u: "ufalloc 0 (load (tab W ! p) (core W)) = (i, u)" by fastforce
  have "\<not> i < 0" using assms(3) u by (auto simp: falloc_def)
  note U = ufalloc_ok [OF u this]
  have uo: "u_ofile u = p_ofile (tab W ! p)" "length (files u) = length (files (core W))" using U(6) by (simp_all add: set_pflag_def load_def)
  have "u_ofile s = (u_ofile u)[nat i := Some fp]" "f_count (files s ! fp) = 1"
    using assms(3) u \<open>\<not> i < 0\<close> z(3) uo(2) by (auto simp: falloc_def Let_def fd_simps file_init_def split: option.splits)
  ultimately show ?thesis using U(1-3) uo(1) by (auto simp: load_def intro!: exI [of _ "nat i"])
qed

lemma falloc_fresh_witness: "f_count (files (snd (falloc (load u0 core0))) ! 0) = 1"
proof -
  have "falloc (load u0 core0) = (Some 0, snd (falloc (load u0 core0)))"
    using upt_conv_Cons [of 0 64] upt_conv_Cons [of 0 3]
    by (simp add: falloc_def ufalloc_def free_from_def NOFILE_def u0_def core0_def load_def set_pflag_def Let_def)
  then show ?thesis using falloc_fresh [OF w0_ok, of 0 0 "snd (falloc (load u0 core0))"] by (simp add: w0_def)
qed

text \<open>C36. Descriptors passed in a message name the same files for the receiver: sending the descriptors \<open>fds\<close> puts their
  files in flight, and a process that then receives them gets as many new descriptors, on slots that were free, for the same
  files in the same order, or \<^verbatim>\<open>EMSGSIZE\<close> when it has too few free slots. (The condition \<open>env_ok\<close> on closing files matters only then: the
  files of the message are discarded.)\<close>

theorem rights_roundtrip:
  assumes "env_ok E" "world_inv W" "p < length (tab W)" "unp_internalize fds (load (tab W ! p) (core W)) = (Inr fps, s)" "q < length (tab W)"
  shows "\<exists>res t. unp_externalize (e_close E) fps (load (((tab W)[p := save s]) ! q) s) = Inr (res, t) \<and>
    (case res of Inl e \<Rightarrow> e = EMSGSIZE \<and> ufavail (load (((tab W)[p := save s]) ! q) s) < length fds
     | Inr gds \<Rightarrow> length gds = length fds \<and> (\<forall>i. i < length fds \<longrightarrow>
         u_ofile t ! nat (gds ! i) = p_ofile (tab W ! p) ! nat (fds ! i) \<and> p_ofile (((tab W)[p := save s]) ! q) ! nat (gds ! i) = None))"
proof -
  let ?W = "\<lparr>tab = (tab W)[p := save s], flight = flight W @ [fps], core = s\<rparr>"
  have n: "length (files s) = length (files (core W))" using internalize_nfile [OF assms(4)] by (simp add: load_def)
  have I: "fd_inv (\<lambda>q. (others W p q + flight_refs (flight W) q) + in_list fps q) s" "\<forall>fp \<in> set fps. fp < length (files s)"
    using unp_internalize_inv [OF load_inv [OF assms(2,3)] assms(4)] n by (auto simp: load_def)
  have "world_inv ?W" using I n assms(2) by (intro save_inv [OF assms(2,3)]) (auto simp: flight_refs_app add.assoc world_inv_def Let_def)
  then have L: "fd_inv (\<lambda>fp. others ?W q fp + flight_refs (flight W @ [fps]) fp) (load (((tab W)[p := save s]) ! q) s)"
    using load_inv [of ?W q] assms(5) by simp
  have L': "fd_inv (\<lambda>fp. (others ?W q fp + flight_refs (flight W) fp) + in_list fps fp) (load (((tab W)[p := save s]) ! q) s)"
    using L by (simp add: flight_refs_app add.assoc)
  have nn: "0 \<le> others ?W q fp + flight_refs (flight W) fp" for fp
    using others_nonneg [of q ?W fp] refs_nonneg(2) [of "flight W" fp] assms(5) by simp
  have lt: "\<And>fp. fp \<in> set fps \<Longrightarrow> fp < length (files (load (((tab W)[p := save s]) ! q) s))" using I(2) by (simp add: load_def)
  have fps: "fps = map (\<lambda>fd. the (fst (getf fd (load (tab W ! p) (core W))))) fds" "\<forall>fd \<in> set fds. fst (getf fd (load (tab W ! p) (core W))) \<noteq> None"
    using assms(4) by (auto simp: unp_internalize_def Let_def split: if_splits)
  have fpi: "Some (fps ! i) = p_ofile (tab W ! p) ! nat (fds ! i)" if "i < length fds" for i
  proof -
    have "fps ! i = the (fst (getf (fds ! i) (load (tab W ! p) (core W))))" using that by (simp add: fps(1))
    moreover have "fst (getf (fds ! i) (load (tab W ! p) (core W))) \<noteq> None" using fps(2) that by simp
    ultimately have "fst (getf (fds ! i) (load (tab W ! p) (core W))) = Some (fps ! i)" by force
    then show ?thesis by (auto simp: getf_def load_def split: if_splits option.splits)
  qed
  have len: "length fps = length fds" using fps(1) by simp
  obtain res t where
    t: "unp_externalize (e_close E) fps (load (((tab W)[p := save s]) ! q) s) = Inr (res, t)"
    "case res of Inl e \<Rightarrow> e = EMSGSIZE \<and> ufavail (load (((tab W)[p := save s]) ! q) s) < length fps
      | Inr fds \<Rightarrow> length fds = length fps \<and> (\<forall>i < length fds. 0 \<le> fds ! i \<and> fds ! i < 64 \<and>
          u_ofile (load (((tab W)[p := save s]) ! q) s) ! nat (fds ! i) = None \<and> u_ofile t ! nat (fds ! i) = Some (fps ! i))"
    by (rule unp_externalize_inv [OF assms(1) [unfolded env_ok_def, THEN conjunct1] L' lt nn]) blast
  have "u_ofile (load (((tab W)[p := save s]) ! q) s) = p_ofile (((tab W)[p := save s]) ! q)" by (simp add: load_def)
  then show ?thesis using t len fpi by (intro exI [of _ res] exI [of _ t]) (auto split: sum.splits)
qed

definition u1 :: uarea where "u1 = u0\<lparr>p_ofile := Some 0 # replicate 63 None, p_lastfile := 0\<rparr>"

definition w1 :: world where
  "w1 = \<lparr>tab = [u1, u0], flight = [], core = core0\<lparr>files := (files core0)[0 := (files core0 ! 0)\<lparr>f_count := 1\<rparr>]\<rparr>\<rparr>"

lemma w1_ok: "world_inv w1"
  by (auto simp: world_inv_def w1_def u1_def core0_def u0_def Let_def tables_refs_def flight_refs_def occ_def table_ok_def nth_Cons' split: if_splits)

lemma rights_roundtrip_witness:
  "\<exists>s. unp_internalize [0] (load u1 (core w1)) = (Inr [0], s) \<and>
    (\<exists>res t. unp_externalize (e_close env0) [0] (load (([u1, u0][0 := save s]) ! 1) s) = Inr (res, t))"
proof -
  obtain s where s: "unp_internalize [0] (load (tab w1 ! 0) (core w1)) = (Inr [0], s)"
    by (simp add: unp_internalize_def getf_def NOFILE_def w1_def u1_def load_def Let_def)
  from rights_roundtrip [OF env0_ok w1_ok _ this, of 1] s show ?thesis by (auto simp: w1_def)
qed

text \<open>\<^verbatim>\<open>dup2\<close> onto an open descriptor whose last close fails: it returns the error and leaves the descriptor in the
  table, but the file structure is free. The next \<^verbatim>\<open>falloc\<close> may hand it out again while the old descriptor still names it.\<close>

theorem dup2_leaves_dangling:
  assumes "fd_inv (\<lambda>q. 0) s" "0 \<le> i" "i < 64" "0 \<le> j" "j < 64" "i \<noteq> j" "u_ofile s ! nat i = Some fp" "u_ofile s ! nat j = Some q"
    and "f_count (files s ! q) = 1" "\<And>g t. same_fds t (fo_close g t) \<and> u_error (fo_close g t) = err" "err \<noteq> 0"
  shows "u_ofile (dup2 fo_close i j s) ! nat j = Some q \<and> f_count (files (dup2 fo_close i j s) ! q) = 0 \<and> u_error (dup2 fo_close i j s) = err"
proof -
  have g: "getf i s = (Some fp, s)" using assms by (simp add: getf_def NOFILE_def)
  define u where "u = (if pflag j (s\<lparr>r_val1 := j\<rparr>) AND UF_MAPPED \<noteq> 0 then munmapfd j (s\<lparr>r_val1 := j\<rparr>) else s\<lparr>r_val1 := j\<rparr>)"
  have u: "u_ofile u = u_ofile s" "files u = files s" by (simp_all add: u_def munmapfd_def set_pflag_def)
  have q: "q < length (files s)" using fd_inv_D(4) [OF assms(1), of "nat j" q] assms by simp
  define v where "v = upd_file q (\<lambda>f. f\<lparr>f_count := 0\<rparr>) (cr_release (f_cred (files (fo_close q u) ! q)) (fo_close q u))"
  have c: "closef fo_close (Some q) u = v" using assms(9) u by (simp add: closef_def v_def Let_def)
  have fc: "u_ofile (fo_close q u) = u_ofile u" "length (files (fo_close q u)) = length (files u)" "u_error (fo_close q u) = err"
    using assms(10) [of u q] same_fds_length [of u "fo_close q u"] by (simp_all add: same_fds_def)
  have v: "u_ofile v = u_ofile s" "u_error v = err" "f_count (files v ! q) = 0"
    using fc u q by (simp_all add: v_def upd_file_def cr_release_def)
  have "j < 0 \<or> NOFILE \<le> j \<longleftrightarrow> False" "i = j \<longleftrightarrow> False" "u_ofile (s\<lparr>r_val1 := j\<rparr>) ! nat j \<noteq> None \<longleftrightarrow> True"
    using assms(4-8) by (auto simp: NOFILE_def)
  then have "dup2 fo_close i j s = v"
    unfolding dup2_def g prod.case option.case Let_def u_def [symmetric] using v(2) assms(11)
    by (simp only: if_False if_True u_def [symmetric] u(1) assms(8) c simp_thms)
  then show ?thesis using v assms(8) by simp
qed

definition core1 :: fdsys where
  "core1 = core0\<lparr>files := replicate 2 ((files core0 ! 0)\<lparr>f_count := 1\<rparr>), u_ofile := Some 0 # Some 1 # replicate 62 None, u_lastfile := 1\<rparr>"

lemma dup2_leaves_dangling_witness:
  "u_ofile (dup2 (\<lambda>g t. t\<lparr>u_error := 5\<rparr>) 0 1 core1) ! 1 = Some 1 \<and> f_count (files (dup2 (\<lambda>g t. t\<lparr>u_error := 5\<rparr>) 0 1 core1) ! 1) = 0"
proof -
  have "fd_inv (\<lambda>q. 0) core1"
    by (auto simp: fd_inv_def fdw_def counts_def core1_def core0_def occ_def nth_Cons' split: if_splits)
  from dup2_leaves_dangling [OF this, of 0 1 0 1 "\<lambda>g t. t\<lparr>u_error := 5\<rparr>" 5] show ?thesis
    by (simp add: same_fds_def counts_def core1_def core0_def)
qed

end
