(* ===== verification/Unp_gc.thy ===== *)
theory Unp_gc
  imports Descrip
begin

unbundle bit_operations_syntax

text \<open>
  The collector of descriptors that only messages refer to, \<^verbatim>\<open>unp_gc\<close> of \<^verbatim>\<open>sys/sys/uipc_usrreq.c\<close>: it marks every file that
  can be reached from a descriptor of a process and gives up the references from messages to all others. A socket's receive
  queue is a list of records, each a list of mbufs of which only those that carry descriptors matter. Which sockets are of a
  unix domain protocol with \<^verbatim>\<open>PR_RIGHTS\<close>, and which receive buffers are locked, are arguments; a locked buffer makes
  the process wait and start again, with whatever other processes did in between, so that is a result of its own.
  Closing a file is modelled for sockets that are not connected and have no connections waiting: \<^verbatim>\<open>soo_close\<close>,
  \<^verbatim>\<open>soclose\<close>, \<^verbatim>\<open>sofree\<close>, \<^verbatim>\<open>sorflush\<close> and \<^verbatim>\<open>unp_dispose\<close> are then one another's only callers.
\<close>

section \<open>The state\<close>

record rmb =
  rm_rights :: bool
  rm_files :: "nat list"

record gcst =
  gfiles :: "kfile list"
  gdefer :: int
  nofdref :: "nat \<Rightarrow> bool"
  rcvq :: "nat \<Rightarrow> rmb list list"

record gcenv =
  unixso :: "nat \<Rightarrow> bool"
  sblocked :: "nat \<Rightarrow> bool"

text \<open>\<^verbatim>\<open>unp_scan\<close>: of each record, the first mbuf with descriptors.\<close>

definition first_rights :: "rmb list \<Rightarrow> nat list" where
  "first_rights ms = (case find (\<lambda>m. rm_rights m \<and> rm_files m \<noteq> []) ms of None \<Rightarrow> [] | Some m \<Rightarrow> rm_files m)"

definition unp_scan :: "rmb list list \<Rightarrow> (nat \<Rightarrow> 's \<Rightarrow> 's) \<Rightarrow> 's \<Rightarrow> 's" where
  "unp_scan m0 op s = foldl (\<lambda>s fp. op fp s) s (concat (map first_rights m0))"

definition set_flag :: "nat \<Rightarrow> 32 word \<Rightarrow> gcst \<Rightarrow> gcst" where
  "set_flag fp w s = s\<lparr>gfiles := (gfiles s)[fp := (gfiles s ! fp)\<lparr>f_flag := w\<rparr>]\<rparr>"

definition unp_mark :: "nat \<Rightarrow> gcst \<Rightarrow> gcst" where
  "unp_mark fp s = (if f_flag (gfiles s ! fp) AND FMARK \<noteq> 0 then s
     else set_flag fp (f_flag (gfiles s ! fp) OR (FMARK OR FDEFER)) (s\<lparr>gdefer := gdefer s + 1\<rparr>))"

section \<open>Marking\<close>

definition gc_clear :: "gcst \<Rightarrow> gcst" where
  "gc_clear s = s\<lparr>gdefer := 0, gfiles := map (\<lambda>f. f\<lparr>f_flag := f_flag f AND NOT (FMARK OR FDEFER)\<rparr>) (gfiles s)\<rparr>"

text \<open>The second half of the loop's body: the queue of a unix socket is scanned. \<open>None\<close> is the wait for a locked buffer.\<close>

definition gc_scan :: "gcenv \<Rightarrow> nat \<Rightarrow> gcst \<Rightarrow> gcst option" where
  "gc_scan E fp s = (let f = gfiles s ! fp in
     if f_type f \<noteq> DTYPE_SOCKET then Some s
     else if \<not> unixso E (f_data f) then Some s
     else if sblocked E (f_data f) then None
     else Some (unp_scan (rcvq s (f_data f)) unp_mark s))"

definition gc_visit :: "gcenv \<Rightarrow> nat \<Rightarrow> gcst \<Rightarrow> gcst option" where
  "gc_visit E fp s = (let f = gfiles s ! fp in
     if f_count f = 0 then Some s
     else if f_flag f AND FDEFER \<noteq> 0 then gc_scan E fp ((set_flag fp (f_flag f AND NOT FDEFER) s)\<lparr>gdefer := gdefer s - 1\<rparr>)
     else if f_flag f AND FMARK \<noteq> 0 then Some s
     else if f_count f = f_msgcount f then Some s
     else gc_scan E fp (set_flag fp (f_flag f OR FMARK) s))"

fun gc_pass :: "gcenv \<Rightarrow> nat list \<Rightarrow> gcst \<Rightarrow> gcst option" where
  "gc_pass E [] s = Some s"
| "gc_pass E (fp # fps) s = (case gc_visit E fp s of None \<Rightarrow> None | Some s \<Rightarrow> gc_pass E fps s)"

datatype gc_result = Wait | Marked gcst

text \<open>Passes over the table until nothing is deferred; out of fuel is \<open>None\<close>.\<close>

fun gc_mark :: "nat \<Rightarrow> gcenv \<Rightarrow> gcst \<Rightarrow> gc_result option" where
  "gc_mark fuel E s = (case gc_pass E [0..<length (gfiles s)] s of
       None \<Rightarrow> Some Wait
     | Some s \<Rightarrow> if gdefer s = 0 then Some (Marked s)
         else (case fuel of 0 \<Rightarrow> None | Suc n \<Rightarrow> gc_mark n E s))"

declare gc_mark.simps [simp del]

section \<open>Sweeping\<close>

text \<open>\<open>gc_closef\<close> is \<^verbatim>\<open>closef\<close>, \<open>gc_discard\<close> \<^verbatim>\<open>unp_discard\<close>; the fuel bounds how deep closing a file closes others.\<close>

fun gc_closef :: "gcenv \<Rightarrow> nat \<Rightarrow> nat \<Rightarrow> gcst \<Rightarrow> gcst kern option"
  and gc_discards :: "gcenv \<Rightarrow> nat \<Rightarrow> nat list \<Rightarrow> gcst \<Rightarrow> gcst kern option" where
  "gc_closef E n fp s = (let f = gfiles s ! fp in
     if f_count f > 1 then Some (Inr (s\<lparr>gfiles := (gfiles s)[fp := f\<lparr>f_count := f_count f - 1\<rparr>]\<rparr>))
     else case (if f_type f \<noteq> DTYPE_SOCKET \<or> f_data f = 0 then Some (Inr s)
       else if nofdref s (f_data f) then Some (Inl (Panic ''soclose: NOFDREF''))
       else (case n of 0 \<Rightarrow> None | Suc n \<Rightarrow>
         gc_discards E n (if unixso E (f_data f) then concat (map first_rights (rcvq s (f_data f))) else [])
           (s\<lparr>nofdref := (nofdref s)(f_data f := True), rcvq := (rcvq s)(f_data f := [])\<rparr>))) of
       None \<Rightarrow> None | Some (Inl e) \<Rightarrow> Some (Inl e)
     | Some (Inr s) \<Rightarrow> Some (Inr (s\<lparr>gfiles := (gfiles s)[fp := (gfiles s ! fp)\<lparr>f_data := if f_type f = DTYPE_SOCKET then 0 else f_data (gfiles s ! fp), f_count := 0\<rparr>]\<rparr>)))"
| "gc_discards E n [] s = Some (Inr s)"
| "gc_discards E n (fp # fps) s =
     (case gc_closef E n fp (s\<lparr>gfiles := (gfiles s)[fp := (gfiles s ! fp)\<lparr>f_msgcount := f_msgcount (gfiles s ! fp) - 1\<rparr>]\<rparr>) of
        None \<Rightarrow> None | Some (Inl e) \<Rightarrow> Some (Inl e) | Some (Inr s) \<Rightarrow> gc_discards E n fps s)"

declare gc_closef.simps [simp del]

text \<open>All the references from messages to one file, then the sweep and the collector. The collector does not start again
  while it runs (\<^verbatim>\<open>unp_gcing\<close>), which is why closing a socket below it only returns.\<close>

fun gc_drop :: "gcenv \<Rightarrow> nat \<Rightarrow> nat \<Rightarrow> gcst \<Rightarrow> gcst kern option" where
  "gc_drop E n fp s = (if f_msgcount (gfiles s ! fp) = 0 then Some (Inr s)
     else case n of 0 \<Rightarrow> None | Suc n \<Rightarrow> (case gc_discards E n [fp] s of
        None \<Rightarrow> None | Some (Inl e) \<Rightarrow> Some (Inl e) | Some (Inr s) \<Rightarrow> gc_drop E n fp s))"

declare gc_drop.simps [simp del]

fun gc_sweep :: "gcenv \<Rightarrow> nat \<Rightarrow> nat list \<Rightarrow> gcst \<Rightarrow> gcst kern option" where
  "gc_sweep E n [] s = Some (Inr s)"
| "gc_sweep E n (fp # fps) s = (let f = gfiles s ! fp in
     if f_count f \<noteq> 0 \<and> f_count f = f_msgcount f \<and> f_flag f AND FMARK = 0
     then (case gc_drop E n fp s of None \<Rightarrow> None | Some (Inl e) \<Rightarrow> Some (Inl e) | Some (Inr s) \<Rightarrow> gc_sweep E n fps s)
     else gc_sweep E n fps s)"

definition unp_gc :: "gcenv \<Rightarrow> nat \<Rightarrow> gcst \<Rightarrow> gcst kern option" where
  "unp_gc E n s = (case gc_mark (length (gfiles s)) E (gc_clear s) of
       None \<Rightarrow> None | Some Wait \<Rightarrow> None
     | Some (Marked s) \<Rightarrow> gc_sweep E n [0..<length (gfiles s)] s)"

section \<open>What marking computes\<close>

text \<open>Files in use by a process, and files in messages that wait at such files.\<close>

definition gc_refs :: "gcenv \<Rightarrow> gcst \<Rightarrow> nat \<Rightarrow> nat list" where
  "gc_refs E s fp = (let f = gfiles s ! fp in
     if f_type f = DTYPE_SOCKET \<and> unixso E (f_data f) then concat (map first_rights (rcvq s (f_data f))) else [])"

inductive live :: "gcenv \<Rightarrow> gcst \<Rightarrow> nat \<Rightarrow> bool" for E s where
  root: "fp < length (gfiles s) \<Longrightarrow> f_count (gfiles s ! fp) \<noteq> 0 \<Longrightarrow> f_count (gfiles s ! fp) \<noteq> f_msgcount (gfiles s ! fp) \<Longrightarrow> live E s fp"
| step: "live E s fp \<Longrightarrow> q \<in> set (gc_refs E s fp) \<Longrightarrow> live E s q"

definition marked :: "gcst \<Rightarrow> nat set" where "marked s = {fp. fp < length (gfiles s) \<and> f_flag (gfiles s ! fp) AND FMARK \<noteq> 0}"
definition deferred :: "gcst \<Rightarrow> nat set" where "deferred s = {fp. fp < length (gfiles s) \<and> f_flag (gfiles s ! fp) AND FDEFER \<noteq> 0}"

text \<open>What marking never changes.\<close>

definition same_gc :: "gcst \<Rightarrow> gcst \<Rightarrow> bool" where
  "same_gc s t = (map (\<lambda>f. f\<lparr>f_flag := 0\<rparr>) (gfiles t) = map (\<lambda>f. f\<lparr>f_flag := 0\<rparr>) (gfiles s) \<and> rcvq t = rcvq s)"

lemma same_gc_trans: "same_gc s t \<Longrightarrow> same_gc t u \<Longrightarrow> same_gc s u" by (simp add: same_gc_def)
lemma same_gc_refl [simp]: "same_gc s s" by (simp add: same_gc_def)

lemma same_gc_length: "same_gc s t \<Longrightarrow> length (gfiles t) = length (gfiles s)"
  unfolding same_gc_def by (metis length_map)

lemma same_gc_file:
  assumes "same_gc s t" "fp < length (gfiles s)"
  shows "f_count (gfiles t ! fp) = f_count (gfiles s ! fp)" "f_msgcount (gfiles t ! fp) = f_msgcount (gfiles s ! fp)"
    "f_type (gfiles t ! fp) = f_type (gfiles s ! fp)" "f_data (gfiles t ! fp) = f_data (gfiles s ! fp)"
proof -
  have "map (\<lambda>f. f\<lparr>f_flag := 0\<rparr>) (gfiles t) ! fp = map (\<lambda>f. f\<lparr>f_flag := 0\<rparr>) (gfiles s) ! fp" using assms(1) by (simp add: same_gc_def)
  then have e: "(gfiles t ! fp)\<lparr>f_flag := 0\<rparr> = (gfiles s ! fp)\<lparr>f_flag := 0\<rparr>" using assms(2) same_gc_length [OF assms(1)] by simp
  show "f_count (gfiles t ! fp) = f_count (gfiles s ! fp)" "f_msgcount (gfiles t ! fp) = f_msgcount (gfiles s ! fp)"
    "f_type (gfiles t ! fp) = f_type (gfiles s ! fp)" "f_data (gfiles t ! fp) = f_data (gfiles s ! fp)"
    using arg_cong [OF e, of f_count] arg_cong [OF e, of f_msgcount] arg_cong [OF e, of f_type] arg_cong [OF e, of f_data] by simp_all
qed

lemma same_gc_refs: "same_gc s t \<Longrightarrow> fp < length (gfiles s) \<Longrightarrow> gc_refs E t fp = gc_refs E s fp"
  using same_gc_file [of s t fp] by (simp add: gc_refs_def Let_def same_gc_def)

lemma same_set_flag: "fp < length (gfiles s) \<Longrightarrow> same_gc s (set_flag fp w s)" "same_gc s (s\<lparr>gdefer := d\<rparr>)"
  by (simp_all add: same_gc_def set_flag_def map_update list_update_same_conv)

text \<open>Flags are bits.\<close>

lemma flag_bits:
  "(w OR (FMARK OR FDEFER)) AND FMARK \<noteq> 0" "(w OR (FMARK OR FDEFER)) AND FDEFER \<noteq> 0" "(w OR FMARK) AND FMARK \<noteq> 0"
  "(w OR FMARK) AND FDEFER = w AND FDEFER" "(w AND NOT FDEFER) AND FDEFER = 0" "(w AND NOT FDEFER) AND FMARK = w AND FMARK"
  "(w AND NOT (FMARK OR FDEFER)) AND FMARK = 0" "(w AND NOT (FMARK OR FDEFER)) AND FDEFER = 0"
proof -
  have F: "FMARK = 2 ^ 4" "FDEFER = 2 ^ 5" by (simp_all add: FMARK_def FDEFER_def)
  have b: "bit FMARK n \<longleftrightarrow> n = 4" "bit FDEFER n \<longleftrightarrow> n = 5" for n unfolding F bit_exp_iff by auto
  have nz: "v AND FMARK \<noteq> 0 \<longleftrightarrow> bit v 4" "v AND FDEFER \<noteq> 0 \<longleftrightarrow> bit v 5" for v :: "32 word"
    unfolding F and_exp_eq_0_iff_not_bit by simp_all
  show "(w OR (FMARK OR FDEFER)) AND FMARK \<noteq> 0" "(w OR (FMARK OR FDEFER)) AND FDEFER \<noteq> 0" "(w OR FMARK) AND FMARK \<noteq> 0"
    unfolding nz by (simp_all add: bit_or_iff b)
  show "(w OR FMARK) AND FDEFER = w AND FDEFER" "(w AND NOT FDEFER) AND FDEFER = 0" "(w AND NOT FDEFER) AND FMARK = w AND FMARK"
    "(w AND NOT (FMARK OR FDEFER)) AND FMARK = 0" "(w AND NOT (FMARK OR FDEFER)) AND FDEFER = 0"
    by (rule bit_word_eqI; auto simp: bit_and_iff bit_or_iff bit_not_iff b)+
qed

lemma mark_nz: "FMARK \<noteq> 0" by (simp add: FMARK_def)

lemma set_flag_marked: "fp < length (gfiles s) \<Longrightarrow> marked (set_flag fp w s) = (if w AND FMARK \<noteq> 0 then insert fp (marked s) else marked s - {fp})"
  by (auto simp: marked_def set_flag_def nth_list_update split: if_splits)

lemma set_flag_deferred: "fp < length (gfiles s) \<Longrightarrow> deferred (set_flag fp w s) = (if w AND FDEFER \<noteq> 0 then insert fp (deferred s) else deferred s - {fp})"
  by (auto simp: deferred_def set_flag_def nth_list_update split: if_splits)

lemma gdefer_upd [simp]: "marked (s\<lparr>gdefer := d\<rparr>) = marked s" "deferred (s\<lparr>gdefer := d\<rparr>) = deferred s"
  "gdefer (set_flag fp w s) = gdefer s"
  by (simp_all add: marked_def deferred_def set_flag_def)

lemma unp_mark_effect:
  assumes "fp < length (gfiles s)"
  shows "same_gc s (unp_mark fp s)" "marked (unp_mark fp s) = insert fp (marked s)"
    "deferred (unp_mark fp s) = deferred s \<union> ({fp} - marked s)" "gdefer (unp_mark fp s) = gdefer s + (if fp \<in> marked s then 0 else 1)"
proof -
  show "same_gc s (unp_mark fp s)"
    using assms same_set_flag(1) [of fp "s\<lparr>gdefer := gdefer s + 1\<rparr>"] same_set_flag(2) [of s "gdefer s + 1"]
    by (auto simp: unp_mark_def intro: same_gc_trans)
  have "f_flag (gfiles s ! fp) AND FMARK \<noteq> 0 \<longleftrightarrow> fp \<in> marked s" using assms by (simp add: marked_def)
  then show "marked (unp_mark fp s) = insert fp (marked s)" "deferred (unp_mark fp s) = deferred s \<union> ({fp} - marked s)"
    "gdefer (unp_mark fp s) = gdefer s + (if fp \<in> marked s then 0 else 1)"
    using assms by (auto simp: unp_mark_def set_flag_marked set_flag_deferred flag_bits)
qed

lemma unp_scan_effect:
  assumes "\<And>q. q \<in> set qs \<Longrightarrow> q < length (gfiles s)"
  shows "same_gc s (foldl (\<lambda>s fp. unp_mark fp s) s qs) \<and> marked (foldl (\<lambda>s fp. unp_mark fp s) s qs) = marked s \<union> set qs \<and>
    deferred (foldl (\<lambda>s fp. unp_mark fp s) s qs) = deferred s \<union> (set qs - marked s) \<and>
    gdefer (foldl (\<lambda>s fp. unp_mark fp s) s qs) = gdefer s + int (card (set qs - marked s))"
  using assms
proof (induction qs rule: rev_induct)
  case (snoc q qs)
  let ?t = "foldl (\<lambda>s fp. unp_mark fp s) s qs"
  have t: "same_gc s ?t" "marked ?t = marked s \<union> set qs" "deferred ?t = deferred s \<union> (set qs - marked s)"
    "gdefer ?t = gdefer s + int (card (set qs - marked s))" using snoc by auto
  have q: "q < length (gfiles ?t)" using snoc(2) same_gc_length [OF t(1)] by simp
  note U = unp_mark_effect [OF q]
  have c: "card (set (qs @ [q]) - marked s) = card (set qs - marked s) + (if q \<in> marked s \<union> set qs then 0 else 1)"
  proof (cases "q \<in> marked s \<union> set qs")
    case True
    then have "set (qs @ [q]) - marked s = set qs - marked s" by auto
    then show ?thesis using True by simp
  next
    case False
    then have "set (qs @ [q]) - marked s = insert q (set qs - marked s)" "q \<notin> set qs - marked s" by auto
    then show ?thesis using False by simp
  qed
  have "same_gc s (unp_mark q ?t)" by (rule same_gc_trans [OF t(1) U(1)])
  moreover have "marked (unp_mark q ?t) = marked s \<union> set (qs @ [q])" using U(2) t(2) by auto
  moreover have "deferred (unp_mark q ?t) = deferred s \<union> (set (qs @ [q]) - marked s)" using U(3) t(2,3) by auto
  moreover have "gdefer (unp_mark q ?t) = gdefer s + int (card (set (qs @ [q]) - marked s))" using U(4) t(2,4) c by simp
  ultimately show ?case by simp
qed simp

section \<open>The invariant of marking\<close>

definition gc_inv :: "gcenv \<Rightarrow> gcst \<Rightarrow> gcst \<Rightarrow> bool" where
  "gc_inv E s0 s = (same_gc s0 s \<and> deferred s \<subseteq> marked s \<and> gdefer s = int (card (deferred s)) \<and> marked s \<subseteq> {fp. live E s0 fp} \<and>
     (\<forall>fp \<in> marked s - deferred s. set (gc_refs E s0 fp) \<subseteq> marked s))"

text \<open>Every descriptor in a message is of a file in use: its count includes the message.\<close>

definition refs_in_use :: "gcenv \<Rightarrow> gcst \<Rightarrow> bool" where
  "refs_in_use E s = (\<forall>fp < length (gfiles s). \<forall>q \<in> set (gc_refs E s fp). q < length (gfiles s) \<and> f_count (gfiles s ! q) \<noteq> 0)"

lemma marked_fin: "finite (marked s)" "finite (deferred s)" "marked s \<subseteq> {..<length (gfiles s)}"
  by (auto simp: marked_def deferred_def)

lemma live_in_use:
  assumes "refs_in_use E s" "live E s fp"
  shows "fp < length (gfiles s) \<and> f_count (gfiles s ! fp) \<noteq> 0"
  using assms(2) by induction (use assms(1) in \<open>auto simp: refs_in_use_def\<close>)

text \<open>Scanning a file that has just been marked, or just ceased to be deferred.\<close>

lemma gc_scan_effect:
  assumes same: "same_gc s0 s" and fp: "fp < length (gfiles s0)" and nl: "\<And>d. \<not> sblocked E d" and ok: "refs_in_use E s0"
  shows "\<exists>t. gc_scan E fp s = Some t \<and> same_gc s0 t \<and> marked t = marked s \<union> set (gc_refs E s0 fp) \<and>
    deferred t = deferred s \<union> (set (gc_refs E s0 fp) - marked s) \<and> gdefer t = gdefer s + int (card (set (gc_refs E s0 fp) - marked s))"
proof -
  note R = same_gc_refs [OF same fp, of E] and L = same_gc_length [OF same]
  show ?thesis
  proof (cases "f_type (gfiles s ! fp) = DTYPE_SOCKET \<and> unixso E (f_data (gfiles s ! fp))")
    case True
    then have r: "gc_refs E s0 fp = concat (map first_rights (rcvq s (f_data (gfiles s ! fp))))" using R by (simp add: gc_refs_def)
    let ?t = "foldl (\<lambda>s fp. unp_mark fp s) s (gc_refs E s0 fp)"
    have lt: "q < length (gfiles s)" if "q \<in> set (gc_refs E s0 fp)" for q using ok fp that L by (auto simp: refs_in_use_def)
    have "gc_scan E fp s = Some ?t" using True nl unfolding r by (simp add: gc_scan_def unp_scan_def Let_def)
    moreover note unp_scan_effect [of "gc_refs E s0 fp" s, OF lt]
    ultimately show ?thesis using same_gc_trans [OF same, of ?t] by (intro exI [of _ ?t]) simp
  next
    case False
    then have "gc_refs E s0 fp = []" using R by (auto simp: gc_refs_def)
    then show ?thesis using False same by (auto simp: gc_scan_def Let_def)
  qed
qed

lemma gc_visit_inv:
  assumes inv: "gc_inv E s0 s" and fp: "fp < length (gfiles s0)" and nl: "\<And>d. \<not> sblocked E d" and ok: "refs_in_use E s0"
  shows "\<exists>t. gc_visit E fp s = Some t \<and> gc_inv E s0 t \<and> marked s \<subseteq> marked t \<and> deferred t \<subseteq> (deferred s - {fp}) \<union> (marked t - marked s) \<and>
    (f_count (gfiles s0 ! fp) \<noteq> 0 \<and> f_count (gfiles s0 ! fp) \<noteq> f_msgcount (gfiles s0 ! fp) \<longrightarrow> fp \<in> marked t)"
proof -
  have I: "same_gc s0 s" "deferred s \<subseteq> marked s" "gdefer s = int (card (deferred s))" "marked s \<subseteq> {fp. live E s0 fp}"
    "\<And>q. q \<in> marked s - deferred s \<Longrightarrow> set (gc_refs E s0 q) \<subseteq> marked s" using inv by (auto simp: gc_inv_def)
  note L = same_gc_length [OF I(1)] and F = same_gc_file [OF I(1) fp]
  have fs: "fp < length (gfiles s)" using fp L by simp
  have M: "fp \<in> marked s \<longleftrightarrow> f_flag (gfiles s ! fp) AND FMARK \<noteq> 0" "fp \<in> deferred s \<longleftrightarrow> f_flag (gfiles s ! fp) AND FDEFER \<noteq> 0"
    using fs by (auto simp: marked_def deferred_def)
  have go: ?thesis
    if u: "same_gc s0 u" "marked u = insert fp (marked s)" "deferred u = deferred s - {fp}" "gdefer u = int (card (deferred s - {fp}))"
      and lv: "live E s0 fp" and e: "gc_visit E fp s = gc_scan E fp u" for u
  proof -
    obtain t where t: "gc_scan E fp u = Some t" "same_gc s0 t" "marked t = marked u \<union> set (gc_refs E s0 fp)"
      "deferred t = deferred u \<union> (set (gc_refs E s0 fp) - marked u)" "gdefer t = gdefer u + int (card (set (gc_refs E s0 fp) - marked u))"
      using gc_scan_effect [OF u(1) fp nl ok] by blast
    have "card (deferred t) = card (deferred u) + card (set (gc_refs E s0 fp) - marked u)"
      unfolding t(4) using I(2) u(2,3) marked_fin(2) [of u] by (intro card_Un_disjoint) auto
    then have "gdefer t = int (card (deferred t))" using t(5) u(3,4) by simp
    moreover have "deferred t \<subseteq> marked t" using t(3,4) u(2,3) I(2) by auto
    moreover have "marked t \<subseteq> {fp. live E s0 fp}" using t(3) u(2) I(4) lv by (auto intro: live.step)
    moreover have "set (gc_refs E s0 q) \<subseteq> marked t" if "q \<in> marked t - deferred t" for q
    proof (cases "q = fp")
      case False
      then have "q \<in> marked s - deferred s" using that t(3,4) u(2,3) by auto
      then show ?thesis using I(5) t(3) u(2) by blast
    qed (use t(3) in auto)
    ultimately have "gc_inv E s0 t" using t(2) by (simp add: gc_inv_def)
    moreover have "marked s \<subseteq> marked t" "fp \<in> marked t" using t(3) u(2) by auto
    moreover have "deferred t \<subseteq> (deferred s - {fp}) \<union> (marked t - marked s)" using t(3,4) u(2,3) by auto
    ultimately show ?thesis using e t(1) by auto
  qed
  consider (free) "f_count (gfiles s ! fp) = 0" | (deferred) "f_count (gfiles s ! fp) \<noteq> 0" "f_flag (gfiles s ! fp) AND FDEFER \<noteq> 0"
    | (marked) "f_count (gfiles s ! fp) \<noteq> 0" "f_flag (gfiles s ! fp) AND FDEFER = 0" "f_flag (gfiles s ! fp) AND FMARK \<noteq> 0"
    | (msg) "f_count (gfiles s ! fp) \<noteq> 0" "f_flag (gfiles s ! fp) AND FDEFER = 0" "f_flag (gfiles s ! fp) AND FMARK = 0" "f_count (gfiles s ! fp) = f_msgcount (gfiles s ! fp)"
    | (root) "f_count (gfiles s ! fp) \<noteq> 0" "f_flag (gfiles s ! fp) AND FDEFER = 0" "f_flag (gfiles s ! fp) AND FMARK = 0" "f_count (gfiles s ! fp) \<noteq> f_msgcount (gfiles s ! fp)"
    by blast
  then show ?thesis
  proof cases
    case free
    then have "\<not> live E s0 fp" using live_in_use [OF ok, of fp] F(1) by auto
    then have "fp \<notin> deferred s" using I(2,4) by blast
    then have "deferred s - {fp} = deferred s" by blast
    moreover have "gc_visit E fp s = Some s" using free by (simp add: gc_visit_def)
    ultimately show ?thesis using free inv F(1) by simp
  next
    case deferred
    let ?u = "(set_flag fp (f_flag (gfiles s ! fp) AND NOT FDEFER) s)\<lparr>gdefer := gdefer s - 1\<rparr>"
    have d: "fp \<in> deferred s" "fp \<in> marked s" using M deferred I(2) by auto
    have c: "0 < card (deferred s)" using d(1) marked_fin(2) [of s] by (auto simp: card_gt_0_iff)
    show ?thesis
    proof (rule go [of ?u])
      show "same_gc s0 ?u" using same_gc_trans [OF I(1) same_gc_trans [OF same_set_flag(1) [OF fs] same_set_flag(2)]] by simp
      show "marked ?u = insert fp (marked s)" "deferred ?u = deferred s - {fp}"
        using M d by (simp_all add: set_flag_marked [OF fs] set_flag_deferred [OF fs] flag_bits)
      show "gdefer ?u = int (card (deferred s - {fp}))" using I(3) d(1) c by (simp add: of_nat_diff)
      show "live E s0 fp" using d(2) I(4) by blast
      show "gc_visit E fp s = gc_scan E fp ?u" using deferred by (simp add: gc_visit_def)
    qed
  next
    case marked
    then have "gc_visit E fp s = Some s" by (simp add: gc_visit_def)
    moreover have "deferred s - {fp} = deferred s" using M(2) marked(2) by auto
    ultimately show ?thesis using inv M(1) F(1,2) marked by simp
  next
    case msg
    then have "gc_visit E fp s = Some s" by (simp add: gc_visit_def)
    moreover have "deferred s - {fp} = deferred s" using M(2) msg(2) by auto
    ultimately show ?thesis using inv M(1) F(1,2) msg by simp
  next
    case root
    let ?u = "set_flag fp (f_flag (gfiles s ! fp) OR FMARK) s"
    show ?thesis
    proof (rule go [of ?u])
      show "same_gc s0 ?u" by (rule same_gc_trans [OF I(1) same_set_flag(1) [OF fs]])
      show "marked ?u = insert fp (marked s)" "deferred ?u = deferred s - {fp}"
        using M root by (auto simp: set_flag_marked [OF fs] set_flag_deferred [OF fs] flag_bits(4) mark_nz)
      show "gdefer ?u = int (card (deferred s - {fp}))" using I(3) M(2) root by simp
      show "live E s0 fp" using root F fp by (intro live.root) simp_all
      show "gc_visit E fp s = gc_scan E fp ?u" using root by (simp add: gc_visit_def)
    qed
  qed
qed

lemma gc_pass_inv:
  assumes "gc_inv E s0 s" "\<And>fp. fp \<in> set fps \<Longrightarrow> fp < length (gfiles s0)" "\<And>d. \<not> sblocked E d" "refs_in_use E s0"
  shows "\<exists>t. gc_pass E fps s = Some t \<and> gc_inv E s0 t \<and> marked s \<subseteq> marked t \<and> deferred t \<subseteq> (deferred s - set fps) \<union> (marked t - marked s) \<and>
    (\<forall>fp \<in> set fps. f_count (gfiles s0 ! fp) \<noteq> 0 \<and> f_count (gfiles s0 ! fp) \<noteq> f_msgcount (gfiles s0 ! fp) \<longrightarrow> fp \<in> marked t)"
  using assms(1,2)
proof (induction fps arbitrary: s)
  case (Cons fp fps)
  have fp: "fp < length (gfiles s0)" using Cons(3) by simp
  obtain u where u: "gc_visit E fp s = Some u" "gc_inv E s0 u" "marked s \<subseteq> marked u" "deferred u \<subseteq> (deferred s - {fp}) \<union> (marked u - marked s)"
    "f_count (gfiles s0 ! fp) \<noteq> 0 \<and> f_count (gfiles s0 ! fp) \<noteq> f_msgcount (gfiles s0 ! fp) \<longrightarrow> fp \<in> marked u"
    using gc_visit_inv [OF Cons(2) fp assms(3,4)] by blast
  have lt: "\<And>q. q \<in> set fps \<Longrightarrow> q < length (gfiles s0)" using Cons(3) by simp
  from Cons(1) [OF u(2) lt] obtain t where t: "gc_pass E fps u = Some t" "gc_inv E s0 t" "marked u \<subseteq> marked t"
    "deferred t \<subseteq> (deferred u - set fps) \<union> (marked t - marked u)"
    "\<forall>fp \<in> set fps. f_count (gfiles s0 ! fp) \<noteq> 0 \<and> f_count (gfiles s0 ! fp) \<noteq> f_msgcount (gfiles s0 ! fp) \<longrightarrow> fp \<in> marked t" by blast
  have "deferred t \<subseteq> (deferred s - set (fp # fps)) \<union> (marked t - marked s)" using t(3,4) u(3,4) by auto
  then show ?case using u t by auto
qed simp

lemma gc_mark_inv:
  assumes "gc_inv E s0 s" "\<And>d. \<not> sblocked E d" "refs_in_use E s0" "length (gfiles s0) - card (marked s) \<le> fuel"
  shows "\<exists>t. gc_mark fuel E s = Some (Marked t) \<and> gc_inv E s0 t \<and> deferred t = {} \<and>
    (\<forall>fp < length (gfiles s0). f_count (gfiles s0 ! fp) \<noteq> 0 \<and> f_count (gfiles s0 ! fp) \<noteq> f_msgcount (gfiles s0 ! fp) \<longrightarrow> fp \<in> marked t)"
  using assms(1,4)
proof (induction fuel arbitrary: s)
  case (0 s)
  have L: "length (gfiles s) = length (gfiles s0)" using 0(1) same_gc_length by (auto simp: gc_inv_def)
  obtain t where t: "gc_pass E [0..<length (gfiles s)] s = Some t" "gc_inv E s0 t" "marked s \<subseteq> marked t"
    "deferred t \<subseteq> (deferred s - {..<length (gfiles s)}) \<union> (marked t - marked s)"
    "\<forall>fp < length (gfiles s0). f_count (gfiles s0 ! fp) \<noteq> 0 \<and> f_count (gfiles s0 ! fp) \<noteq> f_msgcount (gfiles s0 ! fp) \<longrightarrow> fp \<in> marked t"
    using gc_pass_inv [OF 0(1) _ assms(2,3), of "[0..<length (gfiles s)]"] L by (auto simp: atLeast_upt)
  have LT: "length (gfiles t) = length (gfiles s0)" using t(2) same_gc_length by (auto simp: gc_inv_def)
  have sub: "marked s \<subseteq> {..<length (gfiles s0)}" using marked_fin(3) [of s] L by simp
  have "card {..<length (gfiles s0)} \<le> card (marked s)" using 0(2) by simp
  then have "marked s = {..<length (gfiles s0)}" by (rule card_seteq [OF _ sub, OF finite_lessThan])
  then have "marked t - marked s = {}" using marked_fin(3) [of t] LT by auto
  then have "deferred t = {}" using t(4) by (auto simp: deferred_def)
  moreover from this have "gdefer t = 0" using t(2) by (simp add: gc_inv_def)
  ultimately show ?case using t by (auto simp: gc_mark.simps [of 0])
next
  case (Suc fuel s)
  have L: "length (gfiles s) = length (gfiles s0)" using Suc(2) same_gc_length by (auto simp: gc_inv_def)
  obtain t where t: "gc_pass E [0..<length (gfiles s)] s = Some t" "gc_inv E s0 t" "marked s \<subseteq> marked t"
    "deferred t \<subseteq> (deferred s - {..<length (gfiles s)}) \<union> (marked t - marked s)"
    "\<forall>fp < length (gfiles s0). f_count (gfiles s0 ! fp) \<noteq> 0 \<and> f_count (gfiles s0 ! fp) \<noteq> f_msgcount (gfiles s0 ! fp) \<longrightarrow> fp \<in> marked t"
    using gc_pass_inv [OF Suc(2) _ assms(2,3), of "[0..<length (gfiles s)]"] L by (auto simp: atLeast_upt)
  have dt: "gdefer t = int (card (deferred t))" using t(2) by (simp add: gc_inv_def)
  show ?case
  proof (cases "gdefer t = 0")
    case True
    then have "deferred t = {}" using dt marked_fin(2) [of t] by simp
    then show ?thesis using t True by (auto simp: gc_mark.simps [of "Suc fuel"])
  next
    case False
    then obtain q where "q \<in> deferred t" using dt by force
    then have "q \<in> marked t - marked s" using t(4) by (auto simp: deferred_def)
    then have "card (marked s) < card (marked t)" using t(3) by (intro psubset_card_mono marked_fin) auto
    then have "length (gfiles s0) - card (marked t) \<le> fuel" using Suc(3) by simp
    from Suc(1) [OF t(2) this] show ?thesis using t(1) False by (simp add: gc_mark.simps [of "Suc fuel"])
  qed
qed

lemma gc_clear_inv:
  "gc_inv E s (gc_clear s)" "marked (gc_clear s) = {}"
proof -
  have "marked (gc_clear s) = {}" "deferred (gc_clear s) = {}"
    unfolding marked_def deferred_def gc_clear_def using flag_bits(7,8) by (simp_all del: bit.de_Morgan_disj)
  moreover have "same_gc s (gc_clear s)" by (simp add: same_gc_def gc_clear_def comp_def)
  ultimately show "gc_inv E s (gc_clear s)" "marked (gc_clear s) = {}" by (auto simp: gc_inv_def gc_clear_def)
qed

section \<open>Properties\<close>

text \<open>C37. The collector's marking: it ends after at most one pass more than there are files, and the files it has marked then
  are exactly those that a process can still reach, directly or through messages waiting at reachable sockets.\<close>

theorem gc_mark_reachable:
  assumes "\<And>d. \<not> sblocked E d" "refs_in_use E s"
  shows "\<exists>t. gc_mark (length (gfiles s)) E (gc_clear s) = Some (Marked t) \<and> same_gc s t \<and> gdefer t = 0 \<and>
    (\<forall>fp. fp \<in> marked t \<longleftrightarrow> live E s fp)"
proof -
  obtain t where t: "gc_mark (length (gfiles s)) E (gc_clear s) = Some (Marked t)" "gc_inv E s t" "deferred t = {}"
    "\<forall>fp < length (gfiles s). f_count (gfiles s ! fp) \<noteq> 0 \<and> f_count (gfiles s ! fp) \<noteq> f_msgcount (gfiles s ! fp) \<longrightarrow> fp \<in> marked t"
    using gc_mark_inv [OF gc_clear_inv(1) assms, of "length (gfiles s)"] by auto
  have "fp \<in> marked t" if "live E s fp" for fp using that
  proof induction
    case (step fp q)
    then show ?case using t(2,3) by (auto simp: gc_inv_def)
  qed (use t(4) in blast)
  then show ?thesis using t by (auto simp: gc_inv_def)
qed

text \<open>What the collector is for makes it panic: a socket that nothing refers to but a message waiting at the socket
  itself is unreachable, and giving up that reference closes the socket, which discards the message, which closes the socket
  a second time.\<close>

theorem gc_cycle_panics:
  assumes "fp < length (gfiles s)" "f_count (gfiles s ! fp) = 1" "f_type (gfiles s ! fp) = DTYPE_SOCKET" "f_data (gfiles s ! fp) \<noteq> 0"
    and "unixso E (f_data (gfiles s ! fp))" "\<not> nofdref s (f_data (gfiles s ! fp))" "gc_refs E s fp = fp # rest"
  shows "gc_discards E (Suc n) [fp] s = Some (Inl (Panic ''soclose: NOFDREF''))"
  using assms by (simp add: gc_refs_def gc_closef.simps Let_def)

definition gc0 :: gcst where
  "gc0 = \<lparr>gfiles = [\<lparr>f_flag = 0, f_type = 2, f_count = 1, f_msgcount = 1, f_data = 7, f_offset = 0, f_cred = 0\<rparr>,
      \<lparr>f_flag = 0, f_type = 2, f_count = 2, f_msgcount = 0, f_data = 8, f_offset = 0, f_cred = 0\<rparr>], gdefer = 0, nofdref = (\<lambda>d. False),
     rcvq = (\<lambda>d. if d = 7 then [[\<lparr>rm_rights = False, rm_files = []\<rparr>, \<lparr>rm_rights = True, rm_files = [0]\<rparr>]] else [])\<rparr>"

definition genv0 :: gcenv where "genv0 = \<lparr>unixso = (\<lambda>d. True), sblocked = (\<lambda>d. False)\<rparr>"

lemma gc0_refs: "gc_refs genv0 gc0 0 = [0]" "gc_refs genv0 gc0 1 = []"
  by (simp_all add: gc_refs_def gc0_def genv0_def DTYPE_SOCKET_def first_rights_def)

lemma gc_mark_reachable_witness: "\<exists>t. gc_mark (length (gfiles gc0)) genv0 (gc_clear gc0) = Some (Marked t) \<and> (1 \<in> marked t \<longleftrightarrow> live genv0 gc0 1)"
proof -
  have "refs_in_use genv0 gc0" unfolding refs_in_use_def using gc0_refs by (auto simp: less_Suc_eq gc0_def numeral_2_eq_2)
  then show ?thesis using gc_mark_reachable [of genv0 gc0] by (auto simp: genv0_def)
qed

lemma gc_cycle_panics_witness: "gc_discards genv0 1 [0] gc0 = Some (Inl (Panic ''soclose: NOFDREF''))"
  using gc_cycle_panics [of 0 gc0 genv0 "[]" 0] gc0_refs(1) by (simp add: gc0_def genv0_def DTYPE_SOCKET_def)

end
