(* ===== verification/Ipreass.thy ===== *)
theory Ipreass
  imports Prelude
begin

unbundle bit_operations_syntax

text \<open>
  Reassembly of IP datagrams, \<^verbatim>\<open>sys/netinet/ip_input.c\<close>: the end of \<^verbatim>\<open>ipintr\<close> from the label \<^verbatim>\<open>ours\<close> on, \<^verbatim>\<open>ip_reass\<close>,
  \<^verbatim>\<open>ip_freef\<close>, \<^verbatim>\<open>ip_slowtimo\<close> and \<^verbatim>\<open>ip_drain\<close>. A queue header and the list of its fragments is a record, and the ring
  \<^verbatim>\<open>ipq\<close> the list of the headers. A fragment's mbufs are the bytes they hold behind the header, which \<^verbatim>\<open>ip_reass\<close>
  hides; \<^verbatim>\<open>m_adj\<close> and \<^verbatim>\<open>m_cat\<close> are dropping and appending bytes, as \<open>Mbuf_props\<close> shows of them. The fields \<^verbatim>\<open>ip_len\<close>
  and \<^verbatim>\<open>ip_off\<close> are signed 16 bit integers, \<open>wrap16\<close> is a store into one.
\<close>

definition wrap16 :: "int \<Rightarrow> int" where "wrap16 x = (x + 32768) mod 65536 - 32768"

lemma wrap16_id [simp]: "-32768 \<le> x \<Longrightarrow> x < 32768 \<Longrightarrow> wrap16 x = x" by (simp add: wrap16_def)

section \<open>The state\<close>

type_synonym bytes = "8 word list"

record ipkey =
  k_p :: int
  k_id :: int
  k_src :: nat
  k_dst :: nat

record ipfrag =
  f_off :: int
  f_len :: int
  f_mff :: bool
  f_hl :: int
  f_bytes :: bytes

record ipqent =
  q_ttl :: int
  q_key :: ipkey
  q_frags :: "ipfrag list"

record ipst =
  ipq :: "ipqent list"
  ips_fragments :: int
  ips_fragdropped :: int
  ips_fragtimeout :: int

text \<open>A packet as \<^verbatim>\<open>ipintr\<close> has it at \<^verbatim>\<open>ours\<close>: \<open>p_len\<close> counts the header, \<open>p_off\<close> is the field with its flags.\<close>

record ippkt =
  p_key :: ipkey
  p_hl :: int
  p_len :: int
  p_off :: "16 word"
  p_bytes :: bytes

definition IPFRAGTTL :: int where "IPFRAGTTL = 15"
definition IP_MF :: "16 word" where "IP_MF = 0x2000"

section \<open>Inserting a fragment\<close>

text \<open>The bytes the segment before the new one has already; \<open>None\<close> when that is all of them.\<close>

definition trim_front :: "ipfrag list \<Rightarrow> ipfrag \<Rightarrow> ipfrag option" where
  "trim_front pre ip =
     (if pre = [] then Some ip
      else let i = f_off (last pre) + f_len (last pre) - f_off ip in
        if i > 0 then
          if i \<ge> f_len ip then None
          else Some (ip\<lparr>f_off := wrap16 (f_off ip + i), f_len := wrap16 (f_len ip - i), f_bytes := drop (nat i) (f_bytes ip)\<rparr>)
        else Some ip)"

text \<open>The segments behind it: those it covers go, one it overlaps is trimmed.\<close>

fun trim_back :: "ipfrag \<Rightarrow> ipfrag list \<Rightarrow> ipfrag list" where
  "trim_back ip [] = []"
| "trim_back ip (q # qs) =
     (if f_off ip + f_len ip > f_off q then
        let i = (f_off ip + f_len ip) - f_off q in
        if i < f_len q
        then q\<lparr>f_len := wrap16 (f_len q - i), f_off := wrap16 (f_off q + i), f_bytes := drop (nat i) (f_bytes q)\<rparr> # qs
        else trim_back ip qs
      else q # qs)"

definition frag_insert :: "ipfrag list \<Rightarrow> ipfrag \<Rightarrow> ipfrag list option" where
  "frag_insert qs ip =
     (let pre = takeWhile (\<lambda>q. \<not> f_off q > f_off ip) qs; post = dropWhile (\<lambda>q. \<not> f_off q > f_off ip) qs in
      case trim_front pre ip of None \<Rightarrow> None | Some ip \<Rightarrow> Some (pre @ ip # trim_back ip post))"

text \<open>Complete reassembly: no hole, and the last segment is the datagram's last.\<close>

fun contiguous :: "int \<Rightarrow> ipfrag list \<Rightarrow> int option" where
  "contiguous next [] = Some next"
| "contiguous next (q # qs) = (if f_off q \<noteq> next then None else contiguous (next + f_len q) qs)"

definition complete :: "ipfrag list \<Rightarrow> int option" where
  "complete qs = (case contiguous 0 qs of None \<Rightarrow> None | Some next \<Rightarrow> if f_mff (last qs) then None else Some next)"

section \<open>Reassembly\<close>

text \<open>A whole datagram: the first fragment's header length, the length stored in \<^verbatim>\<open>ip_len\<close> and the bytes.\<close>

record ipdgram =
  d_key :: ipkey
  d_hl :: int
  d_len :: int
  d_bytes :: bytes

definition drop_frag :: "ipst \<Rightarrow> ipst" where "drop_frag s = s\<lparr>ips_fragdropped := ips_fragdropped s + 1\<rparr>"

text \<open>\<open>fp\<close> is the position in \<^verbatim>\<open>ipq\<close> of the header of the datagram, if it has one; \<open>got\<close> is whether \<^verbatim>\<open>m_get\<close> found an
  mbuf for a new one.\<close>

definition ip_reass :: "bool \<Rightarrow> ipkey \<Rightarrow> ipfrag \<Rightarrow> nat option \<Rightarrow> ipst \<Rightarrow> ipdgram option \<times> ipst" where
  "ip_reass got key ip fp s =
     (if fp = None \<and> \<not> got then (None, drop_frag s)
      else let (i, s) = (case fp of Some i \<Rightarrow> (i, s)
             | None \<Rightarrow> (0, s\<lparr>ipq := \<lparr>q_ttl = IPFRAGTTL, q_key = key, q_frags = []\<rparr> # ipq s\<rparr>));
               q = ipq s ! i in
        case frag_insert (q_frags q) ip of
          None \<Rightarrow> (None, drop_frag s)
        | Some qs \<Rightarrow> (case complete qs of
            None \<Rightarrow> (None, s\<lparr>ipq := (ipq s)[i := q\<lparr>q_frags := qs\<rparr>]\<rparr>)
          | Some next \<Rightarrow> (Some \<lparr>d_key = q_key q, d_hl = f_hl (hd qs), d_len = wrap16 next, d_bytes = concat (map f_bytes qs)\<rparr>,
              s\<lparr>ipq := take i (ipq s) @ drop (Suc i) (ipq s)\<rparr>)))"

definition ip_freef :: "nat \<Rightarrow> ipst \<Rightarrow> ipst" where
  "ip_freef i s = s\<lparr>ipq := take i (ipq s) @ drop (Suc i) (ipq s)\<rparr>"

text \<open>The header whose fragments a packet belongs to.\<close>

fun find_ipq :: "ipkey \<Rightarrow> ipqent list \<Rightarrow> nat option" where
  "find_ipq k [] = None"
| "find_ipq k (q # qs) = (if q_key q = k then Some 0 else map_option Suc (find_ipq k qs))"

definition ip_ours :: "bool \<Rightarrow> ippkt \<Rightarrow> ipst \<Rightarrow> ipdgram option \<times> ipst" where
  "ip_ours got p s =
     (let fp = find_ipq (p_key p) (ipq s);
          len = wrap16 (p_len p - p_hl p);
          mff = (p_off p AND IP_MF \<noteq> 0);
          off = sint (push_bit 3 (p_off p)) in
      if mff \<or> off \<noteq> 0 then
        ip_reass got (p_key p) \<lparr>f_off = off, f_len = len, f_mff = mff, f_hl = p_hl p, f_bytes = p_bytes p\<rparr> fp
          (s\<lparr>ips_fragments := ips_fragments s + 1\<rparr>)
      else (Some \<lparr>d_key = p_key p, d_hl = p_hl p, d_len = len, d_bytes = p_bytes p\<rparr>,
            case fp of None \<Rightarrow> s | Some i \<Rightarrow> ip_freef i s))"

text \<open>The timer takes one off every header's time and frees the headers whose time is up; \<^verbatim>\<open>ipq_ttl\<close> is an unsigned byte.\<close>

fun slow_ring :: "ipqent list \<Rightarrow> ipqent list \<times> int" where
  "slow_ring [] = ([], 0)"
| "slow_ring (q # qs) = (let q = q\<lparr>q_ttl := (q_ttl q - 1) mod 256\<rparr>; (r, n) = slow_ring qs in
     if q_ttl q = 0 then (r, n + 1) else (q # r, n))"

definition ip_slowtimo :: "ipst \<Rightarrow> ipst" where
  "ip_slowtimo s = (let (r, n) = slow_ring (ipq s) in s\<lparr>ipq := r, ips_fragtimeout := ips_fragtimeout s + n\<rparr>)"

fun drain_loop :: "nat \<Rightarrow> ipst \<Rightarrow> ipst option" where
  "drain_loop fuel s = (if ipq s = [] then Some s
     else case fuel of 0 \<Rightarrow> None | Suc n \<Rightarrow> drain_loop n (ip_freef 0 (s\<lparr>ips_fragdropped := ips_fragdropped s + 1\<rparr>)))"

declare drain_loop.simps [simp del]

definition ip_drain :: "ipst \<Rightarrow> ipst option" where
  "ip_drain s = drain_loop (length (ipq s)) s"

section \<open>Fragments of a datagram\<close>

text \<open>A fragment of the datagram \<open>D\<close>, not empty, with the right bytes and the right flag.\<close>

definition frag_of :: "bytes \<Rightarrow> ipfrag \<Rightarrow> bool" where
  "frag_of D f = (0 \<le> f_off f \<and> 0 < f_len f \<and> f_off f + f_len f \<le> int (length D) \<and>
     f_bytes f = take (nat (f_len f)) (drop (nat (f_off f)) D) \<and> (f_mff f \<longleftrightarrow> f_off f + f_len f < int (length D)))"

definition ordered :: "bytes \<Rightarrow> ipfrag list \<Rightarrow> bool" where
  "ordered D qs = (length D \<le> 32767 \<and> (\<forall>f \<in> set qs. frag_of D f) \<and> sorted_wrt (\<lambda>a b. f_off a + f_len a \<le> f_off b) qs)"

definition covered :: "ipfrag list \<Rightarrow> int set" where
  "covered qs = (\<Union>f \<in> set qs. span (f_off f) (f_len f))"

lemma covered_simps [simp]: "covered [] = {}" "covered (f # qs) = span (f_off f) (f_len f) \<union> covered qs"
  "covered (ps @ qs) = covered ps \<union> covered qs"
  by (auto simp: covered_def)

lemma covered_upper: "f \<in> set qs \<Longrightarrow> span (f_off f) (f_len f) \<subseteq> covered qs"
  unfolding covered_def by (rule UN_upper)

lemma frag_of_bounds: "frag_of D f \<Longrightarrow> length D \<le> 32767 \<Longrightarrow> 0 \<le> f_off f \<and> 0 < f_len f \<and> f_off f + f_len f \<le> 32767"
  by (simp add: frag_of_def)

lemma take_drop_slice:
  assumes "0 \<le> a" "0 \<le> i" "i \<le> n"
  shows "drop (nat i) (take (nat n) (drop (nat a) D)) = take (nat (n - i)) (drop (nat (a + i)) D)"
  using assms by (simp add: drop_take nat_diff_distrib nat_add_distrib add.commute)

text \<open>Cutting bytes off the front of a fragment leaves a fragment.\<close>

lemma frag_of_cut:
  assumes "frag_of D f" "length D \<le> 32767" "0 < i" "i < f_len f"
  shows "frag_of D (f\<lparr>f_off := wrap16 (f_off f + i), f_len := wrap16 (f_len f - i), f_bytes := drop (nat i) (f_bytes f)\<rparr>)"
    and "wrap16 (f_off f + i) = f_off f + i" "wrap16 (f_len f - i) = f_len f - i"
proof -
  note B = frag_of_bounds [OF assms(1,2)]
  show w: "wrap16 (f_off f + i) = f_off f + i" "wrap16 (f_len f - i) = f_len f - i" using B assms(3,4) by auto
  show "frag_of D (f\<lparr>f_off := wrap16 (f_off f + i), f_len := wrap16 (f_len f - i), f_bytes := drop (nat i) (f_bytes f)\<rparr>)"
    unfolding w using assms take_drop_slice [of "f_off f" i "f_len f" D] by (auto simp: frag_of_def)
qed

lemma frag_of_cut': "\<lbrakk>frag_of D f; length D \<le> 32767; 0 < i; i < f_len f\<rbrakk> \<Longrightarrow>
    frag_of D (f\<lparr>f_len := wrap16 (f_len f - i), f_off := wrap16 (f_off f + i), f_bytes := drop (nat i) (f_bytes f)\<rparr>)"
  using frag_of_cut(1) [of D f i] by (simp add: frag_of_def)

lemma trim_back_ordered:
  assumes "ordered D qs" "frag_of D ip" "\<And>q. q \<in> set qs \<Longrightarrow> f_off ip \<le> f_off q"
  shows "ordered D (ip # trim_back ip qs) \<and> covered (ip # trim_back ip qs) = covered (ip # qs)"
  using assms
proof (induction qs)
  case Nil
  then show ?case by (simp add: ordered_def)
next
  case (Cons q qs)
  have D: "length D \<le> 32767" "frag_of D q" "ordered D qs" "\<And>r. r \<in> set qs \<Longrightarrow> f_off q + f_len q \<le> f_off r" using Cons(2) by (auto simp: ordered_def)
  note B = frag_of_bounds [OF D(2,1)] and BI = frag_of_bounds [OF Cons(3) D(1)]
  have lt: "f_off ip \<le> f_off q" using Cons(4) by simp
  have r: "frag_of D r" "f_off q + f_len q \<le> f_off r" "0 < f_len r" if "r \<in> set qs" for r
    using that D(3,4) frag_of_bounds [OF _ D(1), of r] by (auto simp: ordered_def)
  consider (apart) "f_off ip + f_len ip \<le> f_off q" | (cut) "f_off ip + f_len ip > f_off q" "f_off ip + f_len ip - f_off q < f_len q"
    | (swallow) "f_off ip + f_len ip > f_off q" "f_len q \<le> f_off ip + f_len ip - f_off q" by linarith
  then show ?case
  proof cases
    case apart
    then have "f_off ip + f_len ip \<le> f_off x" if "x \<in> set (q # qs)" for x using that r [of x] B by auto
    moreover have "trim_back ip (q # qs) = q # qs" using apart by simp
    ultimately show ?thesis using Cons(2,3) by (auto simp: ordered_def simp del: trim_back.simps)
  next
    case cut
    let ?i = "f_off ip + f_len ip - f_off q"
    let ?q = "q\<lparr>f_len := wrap16 (f_len q - ?i), f_off := wrap16 (f_off q + ?i), f_bytes := drop (nat ?i) (f_bytes q)\<rparr>"
    have i: "0 < ?i" "?i < f_len q" using cut by auto
    note W = frag_of_cut(2,3) [OF D(2,1) i]
    have fq: "frag_of D ?q" by (rule frag_of_cut' [OF D(2,1) i])
    have "f_off ip + f_len ip \<le> f_off x" if "x \<in> set qs" for x using r [OF that] cut by linarith
    moreover have "f_off ?q + f_len ?q = f_off q + f_len q" "f_off ?q = f_off ip + f_len ip" using W by simp_all
    ultimately have "ordered D (ip # ?q # qs)" using Cons(2,3) fq by (auto simp: ordered_def)
    moreover have "span (f_off ip) (f_len ip) \<union> span (f_off ?q) (f_len ?q) = span (f_off ip) (f_len ip) \<union> span (f_off q) (f_len q)"
      using W lt i by (auto simp: span_def)
    ultimately show ?thesis using cut by (auto simp: Let_def)
  next
    case swallow
    have "span (f_off q) (f_len q) \<subseteq> span (f_off ip) (f_len ip)" using swallow lt by (auto simp: span_def)
    then show ?thesis using swallow Cons(1) [OF D(3) Cons(3)] Cons(4) by (auto simp: Let_def)
  qed
qed

lemma ordered_append:
  "ordered D (ps @ qs) \<longleftrightarrow> ordered D ps \<and> ordered D qs \<and> (\<forall>p \<in> set ps. \<forall>q \<in> set qs. f_off p + f_len p \<le> f_off q)"
  by (auto simp: ordered_def sorted_wrt_append)

lemma ordered_last:
  assumes "ordered D qs" "qs \<noteq> []" "f \<in> set qs"
  shows "f_off f + f_len f \<le> f_off (last qs) + f_len (last qs)"
proof -
  obtain ps l where q: "qs = ps @ [l]" using assms(2) by (cases qs rule: rev_cases) auto
  have l: "0 < f_len l" using assms(1) q by (auto simp: ordered_def frag_of_def)
  show ?thesis
  proof (cases "f = l")
    case False
    then have "f \<in> set ps" using assms(3) q by auto
    then show ?thesis using assms(1) l q by (fastforce simp: ordered_append)
  qed (use q in simp)
qed

text \<open>Inserting a fragment keeps the chain ordered and adds the bytes it has; it is dropped only when the chain has them.\<close>

lemma frag_insert_correct:
  assumes "ordered D qs" "frag_of D ip"
  shows "case frag_insert qs ip of None \<Rightarrow> span (f_off ip) (f_len ip) \<subseteq> covered qs
    | Some rs \<Rightarrow> ordered D rs \<and> covered rs = covered qs \<union> span (f_off ip) (f_len ip) \<and> rs \<noteq> []"
proof -
  define pre where "pre = takeWhile (\<lambda>q. \<not> f_off q > f_off ip) qs"
  define post where "post = dropWhile (\<lambda>q. \<not> f_off q > f_off ip) qs"
  have qs: "qs = pre @ post" by (simp add: pre_def post_def)
  have len: "length D \<le> 32767" using assms(1) by (simp add: ordered_def)
  have o: "ordered D pre" "ordered D post" "\<And>p q. p \<in> set pre \<Longrightarrow> q \<in> set post \<Longrightarrow> f_off p + f_len p \<le> f_off q"
    using assms(1) by (auto simp: qs ordered_append)
  have pre: "f_off p \<le> f_off ip" if "p \<in> set pre" for p using set_takeWhileD [OF that [unfolded pre_def]] by simp
  have post: "f_off ip < f_off q" if "q \<in> set post" for q
  proof (cases post)
    case (Cons r rs)
    then have "f_off ip < f_off r" using hd_dropWhile [of "\<lambda>q. \<not> f_off q > f_off ip" qs] by (auto simp: post_def)
    moreover have "f_off r \<le> f_off q" using that Cons o(2) frag_of_bounds [OF _ len] by (fastforce simp: ordered_def)
    ultimately show ?thesis by simp
  qed (use that in simp)
  have BI: "0 \<le> f_off ip" "0 < f_len ip" "f_off ip + f_len ip \<le> 32767" using frag_of_bounds [OF assms(2) len] by auto
  define i where "i = f_off (last pre) + f_len (last pre) - f_off ip"
  have before: "f_off p + f_len p \<le> f_off ip + i" if "p \<in> set pre" for p
    using ordered_last [OF o(1), of p] that by (cases "pre = []") (auto simp: i_def)
  have put: "ordered D (pre @ ip' # trim_back ip' post) \<and> covered (pre @ ip' # trim_back ip' post) = covered pre \<union> span (f_off ip') (f_len ip') \<union> covered post"
    if ip': "frag_of D ip'" "f_off ip \<le> f_off ip'" and lt: "\<And>p. p \<in> set pre \<Longrightarrow> f_off p + f_len p \<le> f_off ip'"
      and gt: "\<And>q. q \<in> set post \<Longrightarrow> f_off ip' \<le> f_off q" for ip'
  proof -
    note T = trim_back_ordered [OF o(2) ip'(1) gt]
    have "f_off ip' \<le> f_off q" if "q \<in> set (ip' # trim_back ip' post)" for q
      using T that frag_of_bounds [OF ip'(1) len] by (fastforce simp: ordered_def)
    then have "ordered D (pre @ ip' # trim_back ip' post)" unfolding ordered_append using o(1) T lt by fastforce
    then show ?thesis using T by auto
  qed
  consider (empty) "pre = []" | (none) "pre \<noteq> []" "i \<le> 0" | (drop) "pre \<noteq> []" "i > 0" "i \<ge> f_len ip" | (cut) "pre \<noteq> []" "i > 0" "i < f_len ip" by linarith
  then show ?thesis
  proof cases
    case empty
    then have "frag_insert qs ip = Some (pre @ ip # trim_back ip post)"
      by (simp add: frag_insert_def pre_def [symmetric] post_def [symmetric] trim_front_def)
    then show ?thesis using put [OF assms(2)] empty post by (fastforce simp: qs)
  next
    case none
    then have "frag_insert qs ip = Some (pre @ ip # trim_back ip post)"
      by (simp add: frag_insert_def pre_def [symmetric] post_def [symmetric] trim_front_def i_def Let_def)
    moreover have "f_off p + f_len p \<le> f_off ip" if "p \<in> set pre" for p using before [OF that] none by simp
    ultimately show ?thesis using put [OF assms(2)] post by (fastforce simp: qs)
  next
    case drop
    then have "frag_insert qs ip = None"
      by (simp add: frag_insert_def pre_def [symmetric] post_def [symmetric] trim_front_def i_def Let_def)
    moreover have "f_off (last pre) \<le> f_off ip" using pre drop by simp
    then have "span (f_off ip) (f_len ip) \<subseteq> span (f_off (last pre)) (f_len (last pre))" using drop by (auto simp: i_def)
    moreover have "span (f_off (last pre)) (f_len (last pre)) \<subseteq> covered qs" using covered_upper [OF last_in_set [OF drop(1)]] by (auto simp: qs)
    ultimately show ?thesis by auto
  next
    case cut
    let ?ip = "ip\<lparr>f_off := wrap16 (f_off ip + i), f_len := wrap16 (f_len ip - i), f_bytes := drop (nat i) (f_bytes ip)\<rparr>"
    note W = frag_of_cut [OF assms(2) len cut(2,3)]
    have e: "frag_insert qs ip = Some (pre @ ?ip # trim_back ?ip post)"
      using cut by (simp add: frag_insert_def pre_def [symmetric] post_def [symmetric] trim_front_def i_def [symmetric] Let_def)
    have f: "f_off ?ip = f_off ip + i" "f_len ?ip = f_len ip - i" using W(2,3) by simp_all
    moreover have "f_off ?ip \<le> f_off q" if "q \<in> set post" for q
      using o(3) [OF last_in_set [OF cut(1)] that] f(1) by (simp add: i_def)
    moreover have "f_off p + f_len p \<le> f_off ?ip" if "p \<in> set pre" for p using before [OF that] f(1) by simp
    ultimately have "ordered D (pre @ ?ip # trim_back ?ip post)"
      "covered (pre @ ?ip # trim_back ?ip post) = covered pre \<union> span (f_off ?ip) (f_len ?ip) \<union> covered post"
      using put [OF W(1)] cut by auto
    moreover have "span (f_off ip) i \<subseteq> covered pre"
    proof -
      have "f_off (last pre) \<le> f_off ip" using pre cut(1) by simp
      then have "span (f_off ip) i \<subseteq> span (f_off (last pre)) (f_len (last pre))" by (auto simp: i_def)
      then show ?thesis using covered_upper [OF last_in_set [OF cut(1)]] by (rule order_trans)
    qed
    moreover have "span (f_off ip) (f_len ip) = span (f_off ip) i \<union> span (f_off ?ip) (f_len ?ip)"
      unfolding f using cut(2,3) by (auto simp: span_def)
    ultimately show ?thesis using e by (auto simp: qs)
  qed
qed

section \<open>Complete reassembly\<close>

lemma contiguous_spec:
  assumes "ordered D qs" "\<And>q. q \<in> set qs \<Longrightarrow> n \<le> f_off q" "contiguous n qs = Some m" "0 \<le> n"
  shows "n \<le> m \<and> covered qs = {n..<m} \<and> concat (map f_bytes qs) = take (nat (m - n)) (drop (nat n) D) \<and>
    (qs \<noteq> [] \<longrightarrow> m = f_off (last qs) + f_len (last qs))"
  using assms
proof (induction qs arbitrary: n)
  case (Cons q qs)
  have q: "f_off q = n" "contiguous (n + f_len q) qs = Some m" using Cons(4) by (auto split: if_splits)
  have o: "ordered D qs" "frag_of D q" "length D \<le> 32767" "\<And>r. r \<in> set qs \<Longrightarrow> n + f_len q \<le> f_off r"
    using Cons(2) q(1) by (auto simp: ordered_def)
  note B = frag_of_bounds [OF o(2,3)]
  have IH: "n + f_len q \<le> m" "covered qs = {n + f_len q..<m}"
    "concat (map f_bytes qs) = take (nat (m - (n + f_len q))) (drop (nat (n + f_len q)) D)" "qs \<noteq> [] \<longrightarrow> m = f_off (last qs) + f_len (last qs)"
    using Cons(1) [OF o(1,4) q(2)] B q(1) by auto
  have "take (nat (m - n)) (drop (nat n) D) = take (nat (f_len q)) (drop (nat n) D) @ take (nat (m - (n + f_len q))) (drop (nat (n + f_len q)) D)"
  proof -
    have "nat (m - n) = nat (f_len q) + nat (m - (n + f_len q))" "nat (n + f_len q) = nat (f_len q) + nat n"
      using IH(1) B q(1) Cons(5) by auto
    then show ?thesis by (simp only: take_add drop_drop)
  qed
  moreover have "f_bytes q = take (nat (f_len q)) (drop (nat n) D)" using o(2) q(1) by (simp add: frag_of_def)
  moreover have "span (f_off q) (f_len q) \<union> {n + f_len q..<m} = {n..<m}" using IH(1) B q(1) by (auto simp: span_def)
  ultimately show ?case using IH q B by (cases "qs = []") auto
qed simp

lemma contiguous_complete:
  assumes "ordered D qs" "{n..<int (length D)} \<subseteq> covered qs" "\<And>q. q \<in> set qs \<Longrightarrow> n \<le> f_off q" "n \<le> int (length D)"
  shows "contiguous n qs = Some (int (length D))"
  using assms
proof (induction qs arbitrary: n)
  case (Cons q qs)
  have o: "ordered D qs" "frag_of D q" "length D \<le> 32767" "\<And>r. r \<in> set qs \<Longrightarrow> f_off q + f_len q \<le> f_off r"
    using Cons(2) by (auto simp: ordered_def)
  have B: "0 \<le> f_off q" "0 < f_len q" using frag_of_bounds [OF o(2,3)] by auto
  have le: "f_off q + f_len q \<le> int (length D)" using o(2) by (simp add: frag_of_def)
  have "n < int (length D)" using Cons(4) [of q] le B by simp
  then have "n \<in> covered (q # qs)" using Cons(3) by auto
  moreover have "n \<notin> covered qs" using o(4) Cons(4) [of q] B by (fastforce simp: covered_def)
  ultimately have q: "f_off q = n" using Cons(4) [of q] by simp
  have "{n + f_len q..<int (length D)} \<subseteq> covered qs"
  proof
    fix x assume x: "x \<in> {n + f_len q..<int (length D)}"
    then have "x \<in> {n..<int (length D)}" using B(2) by simp
    then have "x \<in> covered (q # qs)" using Cons(3) by blast
    then show "x \<in> covered qs" using x by (simp add: q)
  qed
  then have "contiguous (n + f_len q) qs = Some (int (length D))" using o(4) q le by (intro Cons(1) [OF o(1)]) auto
  then show ?case using q by simp
qed simp

lemma complete_iff:
  assumes "ordered D qs" "qs \<noteq> []"
  shows "complete qs = (if covered qs = {0..<int (length D)} then Some (int (length D)) else None)"
proof (cases "contiguous 0 qs")
  case None
  then have "\<not> {0..<int (length D)} \<subseteq> covered qs" using contiguous_complete [OF assms(1), of 0] assms(1)
    by (auto simp: ordered_def frag_of_def)
  then show ?thesis using None by (auto simp: complete_def)
next
  case (Some m)
  have S: "0 \<le> m" "covered qs = {0..<m}" "m = f_off (last qs) + f_len (last qs)"
    using contiguous_spec [OF assms(1) _ Some] assms by (auto simp: ordered_def frag_of_def)
  have l: "frag_of D (last qs)" using assms by (simp add: ordered_def)
  have "f_mff (last qs) \<longleftrightarrow> m < int (length D)" "m \<le> int (length D)" using l S(3) by (auto simp: frag_of_def)
  moreover have "{0..<m} = {0..<int (length D)} \<longleftrightarrow> m = int (length D)"
  proof
    assume e: "{0..<m} = {0..<int (length D)}"
    have "card {0..<m} = card {0..<int (length D)}" by (simp only: e)
    then show "m = int (length D)" using S(1) by simp
  qed simp
  ultimately show ?thesis using Some S(2) by (auto simp: complete_def)
qed

lemma complete_data:
  assumes "ordered D qs" "qs \<noteq> []" "complete qs = Some n"
  shows "n = int (length D) \<and> concat (map f_bytes qs) = D"
proof -
  have n: "n = int (length D)" using complete_iff [OF assms(1,2)] assms(3) by (simp split: if_splits)
  have "contiguous 0 qs = Some n" using assms(3) by (auto simp: complete_def split: option.splits if_splits)
  from contiguous_spec [OF assms(1) _ this] have "concat (map f_bytes qs) = take (nat (n - 0)) (drop (nat 0) D)"
    using assms(1) by (auto simp: ordered_def frag_of_def)
  then show ?thesis using n by simp
qed

section \<open>The ring of headers\<close>

text \<open>\<open>Ds\<close> is the datagram of each key. What the ring has of it are the bytes of a set of positions.\<close>

definition ent_ok :: "(ipkey \<Rightarrow> bytes) \<Rightarrow> ipqent \<Rightarrow> bool" where
  "ent_ok Ds q = (q_frags q \<noteq> [] \<and> ordered (Ds (q_key q)) (q_frags q) \<and> covered (q_frags q) \<noteq> {0..<int (length (Ds (q_key q)))})"

definition ring_ok :: "(ipkey \<Rightarrow> bytes) \<Rightarrow> ipst \<Rightarrow> bool" where
  "ring_ok Ds s = (distinct (map q_key (ipq s)) \<and> (\<forall>q \<in> set (ipq s). ent_ok Ds q))"

definition have_of :: "ipqent list \<Rightarrow> ipkey \<Rightarrow> int set" where
  "have_of r k = (\<Union>q \<in> set r. if q_key q = k then covered (q_frags q) else {})"

lemma find_ipq_None: "find_ipq k r = None \<longleftrightarrow> (\<forall>q \<in> set r. q_key q \<noteq> k)"
  by (induction r) auto

lemma find_ipq_Some: "find_ipq k r = Some i \<Longrightarrow> i < length r \<and> q_key (r ! i) = k"
  by (induction r arbitrary: i) (auto split: if_splits)

lemma have_simps [simp]: "have_of [] k = {}" "have_of (q # r) k = (if q_key q = k then covered (q_frags q) else {}) \<union> have_of r k"
  "have_of (r1 @ r2) k = have_of r1 k \<union> have_of r2 k"
  by (auto simp: have_of_def)

lemma have_none: "(\<And>q. q \<in> set r \<Longrightarrow> q_key q \<noteq> k) \<Longrightarrow> have_of r k = {}"
  by (auto simp: have_of_def)

text \<open>The ring around a header.\<close>

lemma ring_middle:
  assumes "ring_ok Ds s" "ipq s = as @ q # bs"
  shows "distinct (map q_key (as @ bs))" "\<forall>p \<in> set (as @ bs). q_key p \<noteq> q_key q" "ent_ok Ds q" "\<forall>p \<in> set (as @ bs). ent_ok Ds p"
proof -
  have "distinct (map q_key as @ q_key q # map q_key bs)" using assms by (simp add: ring_ok_def)
  then have "q_key q \<notin> q_key ` set (as @ bs)" "distinct (map q_key (as @ bs))" by auto
  then show "\<forall>p \<in> set (as @ bs). q_key p \<noteq> q_key q" "distinct (map q_key (as @ bs))" by (metis image_eqI, simp)
  show "ent_ok Ds q" "\<forall>p \<in> set (as @ bs). ent_ok Ds p" using assms by (auto simp: ring_ok_def)
qed

lemma ring_remove:
  assumes "distinct (map q_key (as @ bs))" "\<forall>p \<in> set (as @ bs). q_key p \<noteq> k" "\<forall>p \<in> set (as @ bs). ent_ok Ds p" "ipq t = as @ bs" "q_key q = k"
  shows "ring_ok Ds t \<and> have_of (ipq t) = (have_of (as @ q # bs))(k := {})"
proof -
  have "have_of as k = {}" "have_of bs k = {}" using assms(2) by (auto intro!: have_none)
  then show ?thesis using assms by (auto simp: ring_ok_def fun_eq_iff)
qed

lemma ring_replace:
  assumes "distinct (map q_key (as @ bs))" "\<forall>p \<in> set (as @ bs). q_key p \<noteq> k" "\<forall>p \<in> set (as @ bs). ent_ok Ds p"
    "ipq t = as @ q' # bs" "q_key q' = k" "ent_ok Ds q'"
  shows "ring_ok Ds t \<and> have_of (ipq t) = (have_of (as @ bs))(k := covered (q_frags q'))"
proof -
  have "have_of as k = {}" "have_of bs k = {}" using assms(2) by (auto intro!: have_none)
  moreover have "distinct (map q_key (as @ q' # bs))" using assms(1,2,5) by auto
  ultimately show ?thesis using assms by (auto simp: ring_ok_def fun_eq_iff)
qed

text \<open>One fragment: the chain after it, or the datagram.\<close>

lemma ip_reass_step:
  assumes ring: "ring_ok Ds s" and f: "frag_of (Ds k) f" "length (Ds k) \<le> 32767" and e: "ip_reass True k f (find_ipq k (ipq s)) s = (r, t)"
  shows "ring_ok Ds t \<and>
    (if have_of (ipq s) k \<union> span (f_off f) (f_len f) = {0..<int (length (Ds k))}
     then (\<exists>hl. r = Some \<lparr>d_key = k, d_hl = hl, d_len = int (length (Ds k)), d_bytes = Ds k\<rparr>) \<and> have_of (ipq t) = (have_of (ipq s))(k := {})
     else r = None \<and> have_of (ipq t) = (have_of (ipq s))(k := have_of (ipq s) k \<union> span (f_off f) (f_len f)))"
proof -
  let ?full = "{0..<int (length (Ds k))}"
  have len: "wrap16 (int (length (Ds k))) = int (length (Ds k))" using f(2) by simp
  show ?thesis
  proof (cases "find_ipq k (ipq s)")
    case None
    let ?q = "\<lparr>q_ttl = IPFRAGTTL, q_key = k, q_frags = []\<rparr>"
    have o: "ordered (Ds k) [f]" using f by (simp add: ordered_def)
    have i: "frag_insert [] f = Some [f]" by (simp add: frag_insert_def trim_front_def)
    have nk: "\<forall>p \<in> set ([] @ ipq s). q_key p \<noteq> k" using None by (simp add: find_ipq_None)
    then have h: "have_of (ipq s) k = {}" by (intro have_none) auto
    have rest: "distinct (map q_key ([] @ ipq s))" "\<forall>p \<in> set ([] @ ipq s). ent_ok Ds p"
      using ring by (auto simp: ring_ok_def)
    show ?thesis
    proof (cases "complete [f]")
      case N: None
      then have t: "r = None" "t = s\<lparr>ipq := ?q\<lparr>q_frags := [f]\<rparr> # ipq s\<rparr>" using e None by (auto simp: ip_reass_def i)
      have "covered [f] \<noteq> ?full" using complete_iff [OF o] N by (auto split: if_splits)
      then have "ent_ok Ds (?q\<lparr>q_frags := [f]\<rparr>)" using o by (simp add: ent_ok_def)
      then show ?thesis using ring_replace [OF rest(1) nk rest(2), of t "?q\<lparr>q_frags := [f]\<rparr>"] t h \<open>covered [f] \<noteq> ?full\<close> by simp
    next
      case (Some n)
      note d = complete_data [OF o _ Some]
      have c: "covered [f] = ?full" using complete_iff [OF o] Some by (auto split: if_splits)
      have "r = Some \<lparr>d_key = k, d_hl = f_hl f, d_len = int (length (Ds k)), d_bytes = Ds k\<rparr>" "ipq t = [] @ ipq s"
        using e None Some d len by (auto simp: ip_reass_def i)
      then show ?thesis using ring_remove [OF rest(1) nk rest(2), of t ?q] c h by simp
    qed
  next
    case (Some i)
    then have il: "i < length (ipq s)" and key: "q_key (ipq s ! i) = k" using find_ipq_Some by auto
    define as where "as = take i (ipq s)"
    define bs where "bs = drop (Suc i) (ipq s)"
    have sp: "ipq s = as @ ipq s ! i # bs" "take i (ipq s) = as" "drop (Suc i) (ipq s) = bs" "length as = i"
      using id_take_nth_drop [OF il] il by (simp_all add: as_def bs_def)
    define q where "q = ipq s ! i"
    note M = ring_middle [OF ring sp(1), folded q_def] and sp' = sp(1) [folded q_def]
    have kq: "q_key q = k" using key by (simp add: q_def)
    have o: "ordered (Ds k) (q_frags q)" and nf: "covered (q_frags q) \<noteq> ?full" using M(3) kq by (simp_all add: ent_ok_def)
    have "have_of as k = {}" "have_of bs k = {}" using M kq by (auto intro!: have_none)
    then have h: "have_of (ipq s) k = covered (q_frags q)" using sp' kq by simp
    have M': "distinct (map q_key (as @ bs))" "\<forall>p \<in> set (as @ bs). q_key p \<noteq> k"
      "\<forall>p \<in> set (as @ bs). ent_ok Ds p"
      using M kq by auto
    show ?thesis
    proof (cases "frag_insert (q_frags q) f")
      case N: None
      then have t: "r = None" "t = drop_frag s" using e Some by (auto simp: ip_reass_def q_def)
      have "covered (q_frags q) \<union> span (f_off f) (f_len f) = covered (q_frags q)" using frag_insert_correct [OF o f(1)] N by auto
      moreover have "(have_of (ipq s))(k := covered (q_frags q)) = have_of (ipq s)" using fun_upd_triv [of "have_of (ipq s)" k] h by simp
      ultimately show ?thesis using t ring nf h by (simp add: drop_frag_def ring_ok_def)
    next
      case S: (Some qs)
      have I: "ordered (Ds k) qs" "covered qs = covered (q_frags q) \<union> span (f_off f) (f_len f)" "qs \<noteq> []"
        using frag_insert_correct [OF o f(1)] S by auto
      show ?thesis
      proof (cases "complete qs")
        case N: None
        have "ipq t = (ipq s)[i := q\<lparr>q_frags := qs\<rparr>]" "r = None" using e Some S N by (auto simp: ip_reass_def q_def)
        then have t: "ipq t = as @ q\<lparr>q_frags := qs\<rparr> # bs" "r = None" using sp' sp(4) by (auto simp: list_update_append)
        have "covered qs \<noteq> ?full" using complete_iff [OF I(1,3)] N by (auto split: if_splits)
        moreover have "(have_of (as @ bs))(k := X) = (have_of (as @ q # bs))(k := X)" for X using kq by (auto simp: fun_eq_iff)
        moreover have "ent_ok Ds (q\<lparr>q_frags := qs\<rparr>)" using I kq \<open>covered qs \<noteq> ?full\<close> by (simp add: ent_ok_def)
        ultimately show ?thesis using ring_replace [OF M', of t "q\<lparr>q_frags := qs\<rparr>"] t kq I h by (simp add: sp' [symmetric])
      next
        case C: (Some n)
        note d = complete_data [OF I(1,3) C]
        have c: "covered qs = ?full" using complete_iff [OF I(1,3)] C by (auto split: if_splits)
        have "r = Some \<lparr>d_key = k, d_hl = f_hl (hd qs), d_len = int (length (Ds k)), d_bytes = Ds k\<rparr>" "ipq t = as @ bs"
          using e Some S C d len kq sp(2,3) by (auto simp: ip_reass_def q_def)
        then show ?thesis using ring_remove [OF M', of t q] c h kq I(2) by (simp add: sp' [symmetric])
      qed
    qed
  qed
qed

end
