(* ===== verification/Ipreass_props.thy ===== *)
theory Ipreass_props
  imports Ipreass
begin

unbundle bit_operations_syntax

text \<open>
  What IP reassembly guarantees: for fragments of any number of datagrams in any order, with duplicates and overlaps, each
  datagram is delivered whole when the last missing byte of it arrives, and the ring keeps exactly the bytes that arrived
  of the others. Then the timer, the drain, and the length a forged chain of fragments can reach.
\<close>

section \<open>Streams of fragments\<close>

text \<open>The fragment \<open>ip_ours\<close> makes of a packet, and packets that are fragments of the datagram of their key.\<close>

definition pkt_frag :: "ippkt \<Rightarrow> ipfrag" where
  "pkt_frag p = \<lparr>f_off = sint (push_bit 3 (p_off p)), f_len = wrap16 (p_len p - p_hl p), f_mff = (p_off p AND IP_MF \<noteq> 0), f_hl = p_hl p, f_bytes = p_bytes p\<rparr>"

definition pkt_ok :: "(ipkey \<Rightarrow> bytes) \<Rightarrow> ippkt \<Rightarrow> bool" where
  "pkt_ok Ds p = (frag_of (Ds (p_key p)) (pkt_frag p) \<and> length (Ds (p_key p)) \<le> 32767)"

lemma ip_ours_step:
  assumes "ring_ok Ds s" "pkt_ok Ds p" "ip_ours True p s = (r, t)"
  shows "ring_ok Ds t \<and>
    (if have_of (ipq s) (p_key p) \<union> span (f_off (pkt_frag p)) (f_len (pkt_frag p)) = {0..<int (length (Ds (p_key p)))}
     then (\<exists>hl. r = Some \<lparr>d_key = p_key p, d_hl = hl, d_len = int (length (Ds (p_key p))), d_bytes = Ds (p_key p)\<rparr>) \<and>
       have_of (ipq t) = (have_of (ipq s))(p_key p := {})
     else r = None \<and>
       have_of (ipq t) = (have_of (ipq s))(p_key p := have_of (ipq s) (p_key p) \<union> span (f_off (pkt_frag p)) (f_len (pkt_frag p))))"
proof -
  let ?k = "p_key p" and ?f = "pkt_frag p"
  have f: "frag_of (Ds ?k) ?f" "length (Ds ?k) \<le> 32767" using assms(2) by (auto simp: pkt_ok_def)
  show ?thesis
  proof (cases "f_mff ?f \<or> f_off ?f \<noteq> 0")
    case True
    then have "ip_reass True ?k ?f (find_ipq ?k (ipq s)) (s\<lparr>ips_fragments := ips_fragments s + 1\<rparr>) = (r, t)"
      using assms(3) by (simp add: ip_ours_def pkt_frag_def Let_def)
    from ip_reass_step [of Ds "s\<lparr>ips_fragments := ips_fragments s + 1\<rparr>" ?k ?f r t] f this assms(1) show ?thesis
      by (simp add: ring_ok_def)
  next
    case False
    then have full: "f_len ?f = int (length (Ds ?k))" "f_bytes ?f = Ds ?k" using f by (auto simp: frag_of_def)
    have "wrap16 (p_len p - p_hl p) = int (length (Ds ?k))" "p_bytes p = Ds ?k" using full by (simp_all add: pkt_frag_def)
    then have r: "r = Some \<lparr>d_key = ?k, d_hl = p_hl p, d_len = int (length (Ds ?k)), d_bytes = Ds ?k\<rparr>"
      and t: "t = (case find_ipq ?k (ipq s) of None \<Rightarrow> s | Some i \<Rightarrow> ip_freef i s)"
      using assms(3) False by (simp_all add: ip_ours_def pkt_frag_def Let_def)
    have "span (f_off ?f) (f_len ?f) = {0..<int (length (Ds ?k))}" using False full by (simp add: span_def)
    moreover have "have_of (ipq s) ?k \<subseteq> {0..<int (length (Ds ?k))}"
      using assms(1) by (fastforce simp: have_of_def ring_ok_def ent_ok_def ordered_def covered_def frag_of_def split: if_splits)
    ultimately have c: "have_of (ipq s) ?k \<union> span (f_off ?f) (f_len ?f) = {0..<int (length (Ds ?k))}" by blast
    have "ring_ok Ds t \<and> have_of (ipq t) = (have_of (ipq s))(?k := {})"
    proof (cases "find_ipq ?k (ipq s)")
      case None
      then have "have_of (ipq s) ?k = {}" by (intro have_none) (auto simp: find_ipq_None)
      then show ?thesis using t None assms(1) fun_upd_triv [of "have_of (ipq s)" ?k] by simp
    next
      case (Some i)
      then have i: "i < length (ipq s)" "q_key (ipq s ! i) = ?k" using find_ipq_Some by auto
      have sp: "ipq s = take i (ipq s) @ ipq s ! i # drop (Suc i) (ipq s)" using id_take_nth_drop [OF i(1)] .
      note M = ring_middle [OF assms(1) sp]
      have "ipq t = take i (ipq s) @ drop (Suc i) (ipq s)" using t Some by (simp add: ip_freef_def)
      then show ?thesis using ring_remove [OF M(1) _ M(4), of ?k t "ipq s ! i"] M(2) i(2) by (simp add: sp [symmetric])
    qed
    then show ?thesis using c r by simp
  qed
qed

text \<open>The reference: which positions of each datagram have arrived.\<close>

fun ip_run :: "ippkt list \<Rightarrow> ipst \<Rightarrow> (ipkey \<times> bytes) option list \<times> ipst" where
  "ip_run [] s = ([], s)"
| "ip_run (p # ps) s = (let (r, s) = ip_ours True p s; (rs, s) = ip_run ps s in (map_option (\<lambda>d. (d_key d, d_bytes d)) r # rs, s))"

fun ip_ref :: "(ipkey \<Rightarrow> bytes) \<Rightarrow> ippkt list \<Rightarrow> (ipkey \<Rightarrow> int set) \<Rightarrow> (ipkey \<times> bytes) option list \<times> (ipkey \<Rightarrow> int set)" where
  "ip_ref Ds [] h = ([], h)"
| "ip_ref Ds (p # ps) h = (let k = p_key p; got = h k \<union> span (f_off (pkt_frag p)) (f_len (pkt_frag p)) in
     if got = {0..<int (length (Ds k))} then (let (rs, h) = ip_ref Ds ps (h(k := {})) in (Some (k, Ds k) # rs, h))
     else (let (rs, h) = ip_ref Ds ps (h(k := got)) in (None # rs, h)))"

section \<open>Properties\<close>

text \<open>C38. Reassembly: for every sequence of packets that are fragments of the datagrams of their keys - in any order, of any
  number of datagrams, with duplicates and overlaps - \<^verbatim>\<open>ipintr\<close> delivers exactly what a set of arrived positions per
  datagram says: the whole datagram at the packet that brings the last missing byte, and nothing before.\<close>

theorem ip_reassembles:
  assumes "ring_ok Ds s" "list_all (pkt_ok Ds) ps"
  shows "fst (ip_run ps s) = fst (ip_ref Ds ps (have_of (ipq s))) \<and>
    have_of (ipq (snd (ip_run ps s))) = snd (ip_ref Ds ps (have_of (ipq s))) \<and> ring_ok Ds (snd (ip_run ps s))"
  using assms
proof (induction ps arbitrary: s)
  case (Cons p ps)
  obtain r t where e: "ip_ours True p s = (r, t)" by fastforce
  have ok: "pkt_ok Ds p" "list_all (pkt_ok Ds) ps" using Cons(3) by simp_all
  note S = ip_ours_step [OF Cons(2) ok(1) e]
  have IH: "fst (ip_run ps t) = fst (ip_ref Ds ps (have_of (ipq t)))" "have_of (ipq (snd (ip_run ps t))) = snd (ip_ref Ds ps (have_of (ipq t)))"
    "ring_ok Ds (snd (ip_run ps t))" using Cons(1) [OF conjunct1 [OF S] ok(2)] by auto
  show ?case
  proof (cases "have_of (ipq s) (p_key p) \<union> span (f_off (pkt_frag p)) (f_len (pkt_frag p)) = {0..<int (length (Ds (p_key p)))}")
    case True
    then obtain hl where "r = Some \<lparr>d_key = p_key p, d_hl = hl, d_len = int (length (Ds (p_key p))), d_bytes = Ds (p_key p)\<rparr>"
      "have_of (ipq t) = (have_of (ipq s))(p_key p := {})" using S by auto
    then show ?thesis using IH True e by (simp add: Let_def split_beta)
  next
    case False
    then have "r = None" "have_of (ipq t) = (have_of (ipq s))(p_key p := have_of (ipq s) (p_key p) \<union> span (f_off (pkt_frag p)) (f_len (pkt_frag p)))"
      using S by auto
    then show ?thesis using IH False e by (simp add: Let_def split_beta)
  qed
qed simp

definition ipk :: "int \<Rightarrow> ipkey" where "ipk i = \<lparr>k_p = 17, k_id = i, k_src = 1, k_dst = 2\<rparr>"

definition ip0 :: ipst where "ip0 = \<lparr>ipq = [], ips_fragments = 0, ips_fragdropped = 0, ips_fragtimeout = 0\<rparr>"

definition dg0 :: "ipkey \<Rightarrow> bytes" where "dg0 k = [1, 2, 3, 4, 5, 6, 7, 8, 9, 10]"

text \<open>The second half of datagram 1 arrives first, then the first half twice over the second half of datagram 2.\<close>

definition pk0 :: "ippkt list" where
  "pk0 = [\<lparr>p_key = ipk 1, p_hl = 20, p_len = 22, p_off = 1, p_bytes = [9, 10]\<rparr>,
          \<lparr>p_key = ipk 2, p_hl = 20, p_len = 22, p_off = 1, p_bytes = [9, 10]\<rparr>,
          \<lparr>p_key = ipk 1, p_hl = 20, p_len = 28, p_off = 0x2000, p_bytes = [1, 2, 3, 4, 5, 6, 7, 8]\<rparr>]"

lemma pk0_ok: "list_all (pkt_ok dg0) pk0"
  by (simp add: pk0_def pkt_ok_def pkt_frag_def frag_of_def dg0_def IP_MF_def wrap16_def)

lemma ip_reassembles_witness: "fst (ip_run pk0 ip0) = [None, None, Some (ipk 1, [1, 2, 3, 4, 5, 6, 7, 8, 9, 10])]"
proof -
  have r: "ring_ok dg0 ip0" by (simp add: ring_ok_def ip0_def)
  have "span 8 2 \<union> span 0 8 = {0..<(10 :: int)}" "span 8 2 \<noteq> {0..<(10 :: int)}" by (auto simp: span_def atLeastLessThan_eq_iff)
  then have "fst (ip_ref dg0 pk0 (\<lambda>k. {})) = [None, None, Some (ipk 1, [1, 2, 3, 4, 5, 6, 7, 8, 9, 10])]"
    by (simp add: pk0_def pkt_frag_def dg0_def IP_MF_def wrap16_def ipk_def Let_def split_beta)
  moreover have "have_of (ipq ip0) = (\<lambda>k. {})" by (simp add: ip0_def fun_eq_iff)
  ultimately show ?thesis using ip_reassembles [OF r pk0_ok] by simp
qed

text \<open>C39. The timer: after \<open>n\<close> calls of \<^verbatim>\<open>ip_slowtimo\<close> without traffic, the headers left are those whose time was longer than
  \<open>n\<close>, in their order and with \<open>n\<close> off their time, and each of the others was counted as timed out once. No header outlives its
  time, which is 15 half seconds for a new one.\<close>

theorem ip_slowtimo_expires:
  assumes "list_all (\<lambda>q. 0 < q_ttl q \<and> q_ttl q \<le> 255) (ipq s)"
  shows "ipq ((ip_slowtimo ^^ n) s) = map (\<lambda>q. q\<lparr>q_ttl := q_ttl q - int n\<rparr>) (filter (\<lambda>q. int n < q_ttl q) (ipq s)) \<and>
    ips_fragtimeout ((ip_slowtimo ^^ n) s) = ips_fragtimeout s + int (length (filter (\<lambda>q. q_ttl q \<le> int n) (ipq s)))"
proof (induction n)
  case 0
  have "filter (\<lambda>q. 0 < q_ttl q) (ipq s) = ipq s" "filter (\<lambda>q. q_ttl q \<le> 0) (ipq s) = []"
    using assms by (auto simp: list_all_iff filter_id_conv filter_empty_conv)
  then show ?case by simp
next
  case (Suc n)
  have R: "slow_ring (map (\<lambda>q. q\<lparr>q_ttl := q_ttl q - int n\<rparr>) (filter (\<lambda>q. int n < q_ttl q) r)) =
      (map (\<lambda>q. q\<lparr>q_ttl := q_ttl q - int (Suc n)\<rparr>) (filter (\<lambda>q. int (Suc n) < q_ttl q) r), int (length (filter (\<lambda>q. q_ttl q = int (Suc n)) r)))"
    if "list_all (\<lambda>q. 0 < q_ttl q \<and> q_ttl q \<le> 255) r" for r using that
  proof (induction r)
    case (Cons q r)
    have "(q_ttl q - int n - 1) mod 256 = q_ttl q - int n - 1" if "int n < q_ttl q" using Cons(2) that by simp
    then show ?case using Cons by (auto simp: Let_def split_beta)
  qed simp
  have "length (filter (\<lambda>q. q_ttl q \<le> int (Suc n)) r) = length (filter (\<lambda>q. q_ttl q \<le> int n) r) + length (filter (\<lambda>q. q_ttl q = int (Suc n)) r)" for r :: "ipqent list"
    by (induction r) auto
  then show ?case using Suc R [OF assms] by (simp add: ip_slowtimo_def Let_def split_beta)
qed

lemma ip_slowtimo_expires_witness:
  "ipq ((ip_slowtimo ^^ 15) (ip0\<lparr>ipq := [\<lparr>q_ttl = 15, q_key = ipk 1, q_frags = []\<rparr>, \<lparr>q_ttl = 20, q_key = ipk 2, q_frags = []\<rparr>]\<rparr>))
    = [\<lparr>q_ttl = 5, q_key = ipk 2, q_frags = []\<rparr>]"
  using ip_slowtimo_expires [of "ip0\<lparr>ipq := [\<lparr>q_ttl = 15, q_key = ipk 1, q_frags = []\<rparr>, \<lparr>q_ttl = 20, q_key = ipk 2, q_frags = []\<rparr>]\<rparr>" 15] by simp

text \<open>Draining ends with an empty ring.\<close>

lemma ip_drain_empties: "\<exists>t. ip_drain s = Some t \<and> ipq t = [] \<and> ips_fragdropped t = ips_fragdropped s + int (length (ipq s))"
proof -
  have "\<exists>t. drain_loop n s = Some t \<and> ipq t = [] \<and> ips_fragdropped t = ips_fragdropped s + int (length (ipq s))" if "n = length (ipq s)" for n
    using that
  proof (induction n arbitrary: s)
    case (Suc n)
    let ?s = "ip_freef 0 (s\<lparr>ips_fragdropped := ips_fragdropped s + 1\<rparr>)"
    have "n = length (ipq ?s)" using Suc(2) by (simp add: ip_freef_def)
    from Suc(1) [OF this] obtain t where t: "drain_loop n ?s = Some t" "ipq t = []" "ips_fragdropped t = ips_fragdropped ?s + int (length (ipq ?s))" by blast
    have "drain_loop (Suc n) s = drain_loop n ?s" using Suc(2) unfolding drain_loop.simps [of "Suc n" s] by (cases "ipq s") simp_all
    then show ?case using t Suc(2) by (auto simp: ip_freef_def)
  qed (simp add: drain_loop.simps)
  then show ?thesis by (simp add: ip_drain_def)
qed

text \<open>Fragments that reach beyond 32767 bytes are reassembled, but the length stored in the packet is negative.\<close>

lemma ip_reass_length_wraps:
  assumes "i < length (ipq s)" "frag_insert (q_frags (ipq s ! i)) f = Some qs" "complete qs = Some n" "32767 < n" "n < 65536"
  shows "\<exists>d t. ip_reass True k f (Some i) s = (Some d, t) \<and> d_len d = n - 65536"
proof -
  have "(n + 32768) mod 65536 = (n - 32768) mod 65536" using mod_add_self2 [of "n - 32768" 65536] by (simp add: add.commute)
  then have "wrap16 n = n - 65536" using assms(4,5) by (simp add: wrap16_def mod_pos_pos_trivial)
  then show ?thesis using assms(1-3) by (simp add: ip_reass_def)
qed

end
