(* ===== verification/Dsort.thy ===== *)
theory Dsort
  imports Prelude "HOL-Library.Multiset"
begin

text \<open>
  The order of disk requests, \<^verbatim>\<open>sys/ufs/ufs_dsort.c\<close>. The activity queue of a drive is the list of its requests from
  \<^verbatim>\<open>b_actf\<close> on, linked by \<^verbatim>\<open>av_forw\<close>, and \<^verbatim>\<open>b_actl\<close> the identity of the request it points to. \<^verbatim>\<open>disksort\<close>
  looks for the request behind which a new one goes: the loops below return its position. The drivers take a request off the
  front when it is done.
\<close>

section \<open>The code\<close>

record dbuf =
  b_id :: nat
  b_cylin :: int

record dqueue =
  b_actf :: "dbuf list"
  b_actl :: nat

text \<open>In the second list: \<open>n\<close> is the position of \<^verbatim>\<open>ap\<close>, the first element of the list.\<close>

fun second_pos :: "dbuf \<Rightarrow> dbuf list \<Rightarrow> nat \<Rightarrow> nat" where
  "second_pos bp (ap # nx # r) n = (if b_cylin bp < b_cylin nx then n else second_pos bp (nx # r) (Suc n))"
| "second_pos bp r n = n"

text \<open>The search for an inversion.\<close>

fun inversion_pos :: "dbuf \<Rightarrow> dbuf list \<Rightarrow> nat \<Rightarrow> nat" where
  "inversion_pos bp (ap # nx # r) n = (if b_cylin nx < b_cylin ap then second_pos bp (ap # nx # r) n else inversion_pos bp (nx # r) (Suc n))"
| "inversion_pos bp r n = n"

fun first_pos :: "dbuf \<Rightarrow> dbuf list \<Rightarrow> nat \<Rightarrow> nat" where
  "first_pos bp (ap # nx # r) n = (if b_cylin nx < b_cylin ap \<or> b_cylin bp < b_cylin nx then n else first_pos bp (nx # r) (Suc n))"
| "first_pos bp r n = n"

definition insert_after :: "nat \<Rightarrow> dbuf \<Rightarrow> dqueue \<Rightarrow> dqueue" where
  "insert_after n bp q = \<lparr>b_actf = take (Suc n) (b_actf q) @ bp # drop (Suc n) (b_actf q),
     b_actl = (if b_id (b_actf q ! n) = b_actl q then b_id bp else b_actl q)\<rparr>"

definition disksort :: "dbuf \<Rightarrow> dqueue \<Rightarrow> dqueue" where
  "disksort bp q = (case b_actf q of
       [] \<Rightarrow> \<lparr>b_actf = [bp], b_actl = b_id bp\<rparr>
     | ap # r \<Rightarrow> insert_after (if b_cylin bp < b_cylin ap then inversion_pos bp (ap # r) 0 else first_pos bp (ap # r) 0) bp q)"

section \<open>Two ascending lists\<close>

abbreviation asc :: "dbuf list \<Rightarrow> bool" where "asc \<equiv> sorted_wrt (\<lambda>a b. b_cylin a \<le> b_cylin b)"

text \<open>A new request goes behind all that are not on a larger cylinder.\<close>

definition place :: "dbuf \<Rightarrow> dbuf list \<Rightarrow> dbuf list" where
  "place bp xs = takeWhile (\<lambda>x. \<not> b_cylin bp < b_cylin x) xs @ bp # dropWhile (\<lambda>x. \<not> b_cylin bp < b_cylin x) xs"

definition two_runs :: "dbuf list \<Rightarrow> dbuf list \<Rightarrow> bool" where
  "two_runs xs ys = (xs \<noteq> [] \<and> asc xs \<and> asc ys \<and> (\<forall>x \<in> set xs. \<forall>y \<in> set ys. b_cylin y < b_cylin x))"

lemma second_shift: "second_pos bp r (Suc n) = Suc (second_pos bp r n)"
  by (induction bp r n rule: second_pos.induct) auto

lemma first_shift: "first_pos bp r (Suc n) = Suc (first_pos bp r n)"
  by (induction bp r n rule: first_pos.induct) auto

lemma inversion_shift: "inversion_pos bp r (Suc n) = Suc (inversion_pos bp r n)"
  by (induction bp r n rule: inversion_pos.induct) (auto simp: second_shift)

lemmas pos_shift = second_shift first_shift inversion_shift

lemma second_pos_less: "r \<noteq> [] \<Longrightarrow> second_pos bp r 0 < length r"
proof (induction r)
  case (Cons ap r)
  then show ?case by (cases r) (auto simp: pos_shift)
qed simp

text \<open>\<open>put n bp l\<close> is the list after the insertion.\<close>

abbreviation put :: "nat \<Rightarrow> dbuf \<Rightarrow> dbuf list \<Rightarrow> dbuf list" where "put n bp l \<equiv> take (Suc n) l @ bp # drop (Suc n) l"

lemma put_second: "put (second_pos bp (ap # r) 0) bp (ap # r) = ap # place bp r"
proof (induction r arbitrary: ap)
  case (Cons nx r)
  then show ?case by (auto simp: place_def pos_shift)
qed (simp add: place_def)

lemma put_inversion:
  assumes "two_runs xs ys" "b_cylin bp < b_cylin (hd xs)"
  shows "put (inversion_pos bp (xs @ ys) 0) bp (xs @ ys) = xs @ place bp ys \<and> inversion_pos bp (xs @ ys) 0 < length (xs @ ys)"
  using assms
proof (induction xs)
  case (Cons x xs)
  show ?case
  proof (cases xs)
    case Nil
    show ?thesis
    proof (cases ys)
      case (Cons y r)
      then have "b_cylin y < b_cylin x" using Cons.prems by (simp add: two_runs_def)
      then show ?thesis using Cons Nil put_second [of bp x ys] second_pos_less [of "x # ys" bp] by simp
    qed (simp add: Nil place_def)
  next
    case (Cons x2 xs')
    have "two_runs xs ys" using Cons.prems(1) Cons by (simp add: two_runs_def)
    moreover have "b_cylin bp < b_cylin (hd xs)" "\<not> b_cylin x2 < b_cylin x" using Cons.prems Cons by (auto simp: two_runs_def)
    ultimately show ?thesis using Cons.IH Cons by (simp add: pos_shift)
  qed
qed (simp add: two_runs_def)

lemma put_first:
  assumes "two_runs xs ys" "b_cylin (hd xs) \<le> b_cylin bp"
  shows "put (first_pos bp (xs @ ys) 0) bp (xs @ ys) = place bp xs @ ys \<and> first_pos bp (xs @ ys) 0 < length (xs @ ys)"
  using assms
proof (induction xs)
  case (Cons x xs)
  show ?case
  proof (cases xs)
    case Nil
    show ?thesis
    proof (cases ys)
      case (Cons y r)
      then have "b_cylin y < b_cylin x" using Cons.prems by (simp add: two_runs_def)
      then show ?thesis using Cons Nil Cons.prems(2) by (simp add: place_def)
    qed (use Nil Cons.prems(2) in \<open>simp add: place_def\<close>)
  next
    case (Cons x2 xs')
    have t: "two_runs xs ys" and n: "\<not> b_cylin x2 < b_cylin x" using Cons.prems(1) Cons by (auto simp: two_runs_def)
    show ?thesis
    proof (cases "b_cylin bp < b_cylin x2")
      case True
      then show ?thesis using Cons Cons.prems(2) by (simp add: place_def)
    next
      case False
      then have "b_cylin (hd xs) \<le> b_cylin bp" using Cons by simp
      then show ?thesis using Cons.IH t False n Cons Cons.prems(2) by (simp add: pos_shift place_def)
    qed
  qed
qed (simp add: two_runs_def)

lemma place_mset: "mset (place bp xs) = add_mset bp (mset xs)"
  by (induction xs) (auto simp: place_def)

lemma place_set: "set (place bp xs) = insert bp (set xs)"
  using arg_cong [OF place_mset, of set_mset] by simp

lemma place_asc: "asc xs \<Longrightarrow> asc (place bp xs)"
proof (induction xs)
  case (Cons x xs)
  show ?case
  proof (cases "b_cylin bp < b_cylin x")
    case True
    then show ?thesis using Cons.prems by (fastforce simp: place_def)
  next
    case False
    then have "place bp (x # xs) = x # place bp xs" by (simp add: place_def)
    then show ?thesis using Cons False place_set [of bp xs] by auto
  qed
qed (simp add: place_def)

lemma place_filter: "bp \<notin> set xs \<Longrightarrow> filter (\<lambda>b. b \<noteq> bp) (place bp xs) = xs"
  by (induction xs) (auto simp: place_def filter_id_conv)

lemma place_hd: "\<not> b_cylin bp < b_cylin (hd xs) \<Longrightarrow> xs \<noteq> [] \<Longrightarrow> hd (place bp xs) = hd xs"
  by (cases xs) (auto simp: place_def)

lemma place_nonempty: "place bp xs \<noteq> []"
  by (simp add: place_def)

text \<open>\<open>disksort\<close> is stable insertion into the list the request belongs to.\<close>

lemma disksort_actf:
  assumes "b_actf q = xs @ ys" "two_runs xs ys"
  shows "b_actf (disksort bp q) = (if b_cylin bp < b_cylin (hd xs) then xs @ place bp ys else place bp xs @ ys)"
proof -
  obtain x r where q: "b_actf q = x # r" "hd xs = x" "xs @ ys = x # r" using assms by (cases xs) (auto simp: two_runs_def)
  show ?thesis using put_inversion [OF assms(2), of bp] put_first [OF assms(2), of bp] q
    by (simp add: disksort_def insert_after_def)
qed

lemma insert_after_actl:
  assumes "n < length l" "distinct (map b_id l)" "b_actf q = l" "b_actl q = b_id (last l)"
  shows "b_actl (insert_after n bp q) = b_id (last (b_actf (insert_after n bp q)))"
proof -
  have "l \<noteq> []" using assms(1) by auto
  then have "b_id (l ! n) = b_id (last l) \<longleftrightarrow> n = length l - 1"
    using assms nth_eq_iff_index_eq [of "map b_id l" n "length l - 1"] by (simp add: last_conv_nth)
  moreover have "last (drop (Suc n) l) = last l" if "n \<noteq> length l - 1" using that assms(1) by (simp add: last_drop)
  ultimately show ?thesis using assms by (auto simp: insert_after_def)
qed

lemma disksort_actl:
  assumes "b_actf q = xs @ ys" "two_runs xs ys" "distinct (map b_id (b_actf q))" "b_actl q = b_id (last (b_actf q))"
  shows "b_actl (disksort bp q) = b_id (last (b_actf (disksort bp q)))"
proof -
  obtain x r where q: "b_actf q = x # r" "hd xs = x" "xs @ ys = x # r" using assms by (cases xs) (auto simp: two_runs_def)
  have "(if b_cylin bp < b_cylin x then inversion_pos bp (x # r) 0 else first_pos bp (x # r) 0) < length (x # r)"
    using put_inversion [OF assms(2), of bp] put_first [OF assms(2), of bp] q by auto
  then show ?thesis using insert_after_actl [OF _ assms(3) refl assms(4)] q by (simp add: disksort_def)
qed

section \<open>The one way scan\<close>

text \<open>The queue of a drive in use: requests arrive, and the one in front leaves when it is done (the drivers set
  \<^verbatim>\<open>b_actf\<close> to its \<^verbatim>\<open>av_forw\<close>, and do not touch \<^verbatim>\<open>b_actl\<close>).\<close>

definition complete_first :: "dqueue \<Rightarrow> dqueue" where
  "complete_first q = q\<lparr>b_actf := tl (b_actf q)\<rparr>"

inductive drive :: "dqueue \<Rightarrow> bool" where
  idle: "drive \<lparr>b_actf = [], b_actl = a\<rparr>"
| arrive: "drive q \<Longrightarrow> b_id bp \<notin> b_id ` set (b_actf q) \<Longrightarrow> drive (disksort bp q)"
| complete: "drive q \<Longrightarrow> b_actf q \<noteq> [] \<Longrightarrow> drive (complete_first q)"

definition drive_ok :: "dqueue \<Rightarrow> bool" where
  "drive_ok q = (distinct (map b_id (b_actf q)) \<and>
     (b_actf q \<noteq> [] \<longrightarrow> b_actl q = b_id (last (b_actf q)) \<and> (\<exists>xs ys. b_actf q = xs @ ys \<and> two_runs xs ys)))"

lemma two_runs_second: "two_runs xs ys \<Longrightarrow> b_cylin bp < b_cylin (hd xs) \<Longrightarrow> two_runs xs (place bp ys)"
proof (cases xs)
  case (Cons x r)
  assume t: "two_runs xs ys" and c: "b_cylin bp < b_cylin (hd xs)"
  have "\<forall>y \<in> set xs. b_cylin x \<le> b_cylin y" using t Cons by (simp add: two_runs_def)
  then have "\<forall>y \<in> set xs. b_cylin bp < b_cylin y" using c Cons by (simp add: less_le_trans)
  then show ?thesis using t by (simp add: two_runs_def place_set place_asc)
qed (simp add: two_runs_def)

lemma two_runs_first: "two_runs xs ys \<Longrightarrow> \<not> b_cylin bp < b_cylin (hd xs) \<Longrightarrow> two_runs (place bp xs) ys"
proof (cases xs)
  case (Cons x r)
  assume t: "two_runs xs ys" and c: "\<not> b_cylin bp < b_cylin (hd xs)"
  have "\<forall>y \<in> set ys. b_cylin y < b_cylin x" using t Cons by (simp add: two_runs_def)
  then have "\<forall>y \<in> set ys. b_cylin y < b_cylin bp" using c Cons by force
  then show ?thesis using t by (simp add: two_runs_def place_set place_asc place_nonempty)
qed (simp add: two_runs_def)

lemma disksort_mset: "drive_ok q \<Longrightarrow> mset (b_actf (disksort bp q)) = add_mset bp (mset (b_actf q))"
proof (cases "b_actf q = []")
  case False
  moreover assume "drive_ok q"
  ultimately obtain xs ys where "b_actf q = xs @ ys" "two_runs xs ys" unfolding drive_ok_def by blast
  then show ?thesis by (simp add: disksort_actf place_mset)
qed (simp add: disksort_def)

lemma disksort_ok:
  assumes "drive_ok q" "b_id bp \<notin> b_id ` set (b_actf q)"
  shows "drive_ok (disksort bp q)"
proof (cases "b_actf q = []")
  case True
  have "two_runs [bp] []" by (simp add: two_runs_def)
  then show ?thesis using True by (force simp: drive_ok_def disksort_def)
next
  case False
  then obtain xs ys where q: "b_actf q = xs @ ys" "two_runs xs ys" using assms(1) unfolding drive_ok_def by blast
  have "mset (map b_id (b_actf (disksort bp q))) = mset (map b_id (bp # b_actf q))"
    using disksort_mset [OF assms(1), of bp] by simp
  then have "distinct (map b_id (b_actf (disksort bp q)))"
    using assms mset_eq_imp_distinct_iff [of "map b_id (b_actf (disksort bp q))" "map b_id (bp # b_actf q)"] by (simp add: drive_ok_def)
  moreover have "b_actl (disksort bp q) = b_id (last (b_actf (disksort bp q)))"
    using disksort_actl [OF q] assms(1) False by (simp add: drive_ok_def)
  moreover have "\<exists>xs ys. b_actf (disksort bp q) = xs @ ys \<and> two_runs xs ys"
    using disksort_actf [OF q, of bp] two_runs_first [OF q(2), of bp] two_runs_second [OF q(2), of bp] by (cases "b_cylin bp < b_cylin (hd xs)") auto
  ultimately show ?thesis unfolding drive_ok_def by blast
qed

lemma two_runs_tl:
  assumes "b_actf q = xs @ ys" "two_runs xs ys" "b_actf (complete_first q) \<noteq> []"
  shows "\<exists>xs ys. b_actf (complete_first q) = xs @ ys \<and> two_runs xs ys"
proof -
  obtain x r where x: "xs = x # r" using assms by (cases xs) (auto simp: two_runs_def)
  show ?thesis
  proof (cases r)
    case Nil
    then have "two_runs ys []" "b_actf (complete_first q) = ys @ []" using assms x by (auto simp: two_runs_def complete_first_def)
    then show ?thesis by blast
  next
    case Cons
    then have "two_runs r ys" "b_actf (complete_first q) = r @ ys" using assms x by (auto simp: two_runs_def complete_first_def)
    then show ?thesis by blast
  qed
qed

lemma complete_ok: "drive_ok q \<Longrightarrow> drive_ok (complete_first q)"
proof (cases "b_actf (complete_first q) = []")
  case False
  assume ok: "drive_ok q"
  obtain b r where q: "b_actf q = b # r" "r \<noteq> []" using False by (cases "b_actf q") (auto simp: complete_first_def)
  then have "b_actf q \<noteq> []" by simp
  then obtain xs ys where "b_actf q = xs @ ys" "two_runs xs ys" using ok unfolding drive_ok_def by blast
  then have "\<exists>xs ys. b_actf (complete_first q) = xs @ ys \<and> two_runs xs ys" using two_runs_tl False by blast
  moreover have "distinct (map b_id (b_actf (complete_first q)))" "b_actl (complete_first q) = b_id (last (b_actf (complete_first q)))"
  proof -
    have "distinct (map b_id (b_actf q))" "b_actl q = b_id (last (b_actf q))"
      using ok \<open>b_actf q \<noteq> []\<close> unfolding drive_ok_def by blast+
    then show "distinct (map b_id (b_actf (complete_first q)))" "b_actl (complete_first q) = b_id (last (b_actf (complete_first q)))"
      using q by (simp_all add: complete_first_def)
  qed
  ultimately show ?thesis unfolding drive_ok_def by blast
qed (simp add: drive_ok_def)

lemma drive_is_ok: "drive q \<Longrightarrow> drive_ok q"
proof (induction rule: drive.induct)
  case (idle a)
  then show ?case by (simp add: drive_ok_def)
next
  case (arrive q bp)
  then show ?case by (simp add: disksort_ok)
next
  case (complete q)
  then show ?case by (simp add: complete_ok)
qed

lemma next_served:
  assumes "two_runs (cur # xr) ys" "xr @ ys = nx # r"
  shows "b_cylin nx = (if \<exists>b \<in> set (nx # r). b_cylin cur \<le> b_cylin b
      then Min (b_cylin ` {b \<in> set (nx # r). b_cylin cur \<le> b_cylin b}) else Min (b_cylin ` set (nx # r)))"
proof (cases xr)
  case Nil
  then have "\<forall>b \<in> set (nx # r). \<not> b_cylin cur \<le> b_cylin b" "\<forall>b \<in> set (nx # r). b_cylin nx \<le> b_cylin b"
    using assms by (auto simp: two_runs_def)
  moreover from this(2) have "Min (b_cylin ` set (nx # r)) = b_cylin nx" by (intro Min_eqI) auto
  ultimately show ?thesis by (simp only: bex_simps if_False) simp
next
  case (Cons y xr')
  then have "set (nx # r) = set xr \<union> set ys" "\<forall>b \<in> set ys. \<not> b_cylin cur \<le> b_cylin b" "\<forall>b \<in> set xr. b_cylin nx \<le> b_cylin b"
    "b_cylin cur \<le> b_cylin nx"
    using assms arg_cong [OF assms(2), of set] by (auto simp: two_runs_def)
  then have "\<forall>b \<in> set (nx # r). b_cylin cur \<le> b_cylin b \<longrightarrow> b_cylin nx \<le> b_cylin b" "b_cylin cur \<le> b_cylin nx" by blast+
  then have "Min (b_cylin ` {b \<in> set (nx # r). b_cylin cur \<le> b_cylin b}) = b_cylin nx"
    by (intro Min_eqI) auto
  then show ?thesis using \<open>b_cylin cur \<le> b_cylin nx\<close> by auto
qed

lemma disksort_nonempty: "b_actf (disksort bp q) = cur # nx # r \<Longrightarrow> b_actf q \<noteq> []"
  by (auto simp: disksort_def)

text \<open>
  C40. \<open>disksort\<close> serves a drive as a one way elevator, whatever the order in which requests arrive and are done: a
  new request is added and none is lost or moved relative to the others, \<^verbatim>\<open>b_actl\<close> is the last of the queue, and the
  request after the current one is the nearest waiting one at or beyond the current cylinder, or, when there is none, the one
  on the smallest cylinder.
\<close>

theorem disksort_cscan:
  assumes "drive q" "b_id bp \<notin> b_id ` set (b_actf q)" "b_actf (disksort bp q) = cur # nx # r"
  shows "mset (b_actf (disksort bp q)) = add_mset bp (mset (b_actf q)) \<and>
    filter (\<lambda>b. b \<noteq> bp) (b_actf (disksort bp q)) = b_actf q \<and>
    b_actl (disksort bp q) = b_id (last (b_actf (disksort bp q))) \<and>
    cur = hd (b_actf q) \<and>
    b_cylin nx = (if \<exists>b \<in> set (nx # r). b_cylin cur \<le> b_cylin b
      then Min (b_cylin ` {b \<in> set (nx # r). b_cylin cur \<le> b_cylin b}) else Min (b_cylin ` set (nx # r)))"
proof -
  have ok: "drive_ok q" "drive_ok (disksort bp q)" using assms(1,2) by (simp_all add: drive_is_ok disksort_ok)
  obtain xs ys where q: "b_actf q = xs @ ys" "two_runs xs ys"
    using ok(1) disksort_nonempty [OF assms(3)] unfolding drive_ok_def by blast
  obtain xs' ys' where d: "cur # nx # r = xs' @ ys'" "two_runs xs' ys'"
    using ok(2) assms(3) unfolding drive_ok_def by (metis list.distinct(1))
  obtain xr where xr: "xs' = cur # xr" using d by (cases xs') (auto simp: two_runs_def)
  have n: "bp \<notin> set xs" "bp \<notin> set ys" "xs \<noteq> []" using assms(2) q by (auto simp: two_runs_def)
  have f: "filter (\<lambda>b. b \<noteq> bp) xs = xs" "filter (\<lambda>b. b \<noteq> bp) ys = ys" using n by (auto simp: filter_id_conv)
  have "filter (\<lambda>b. b \<noteq> bp) (b_actf (disksort bp q)) = b_actf q" using disksort_actf [OF q] n f q(1) by (simp add: place_filter)
  moreover have "hd (b_actf (disksort bp q)) = hd (b_actf q)"
    using disksort_actf [OF q, of bp] n q(1) place_hd [of bp xs] by (simp add: hd_append place_nonempty)
  moreover have "b_actl (disksort bp q) = b_id (last (b_actf (disksort bp q)))" using ok(2) assms(3) by (simp add: drive_ok_def)
  moreover have "cur = hd (b_actf (disksort bp q))" using assms(3) by simp
  moreover have "two_runs (cur # xr) ys'" "xr @ ys' = nx # r" using d xr by simp_all
  ultimately show ?thesis by (intro conjI next_served disksort_mset [OF ok(1)]) simp_all
qed

theorem disksort_cscan_witness:
  "b_cylin (b_actf (disksort \<lparr>b_id = 3, b_cylin = 20\<rparr> (disksort \<lparr>b_id = 2, b_cylin = 10\<rparr> (disksort \<lparr>b_id = 1, b_cylin = 15\<rparr> \<lparr>b_actf = [], b_actl = 0\<rparr>))) ! 1) = 20"
proof -
  let ?q = "disksort \<lparr>b_id = 2, b_cylin = 10\<rparr> (disksort \<lparr>b_id = 1, b_cylin = 15\<rparr> \<lparr>b_actf = [], b_actl = 0\<rparr>)"
  have q: "drive ?q" by (intro drive.intros) (auto simp: disksort_def)
  have i: "3 \<notin> b_id ` set (b_actf ?q)" by (simp add: disksort_def insert_after_def)
  have d: "b_actf (disksort \<lparr>b_id = 3, b_cylin = 20\<rparr> ?q) = \<lparr>b_id = 1, b_cylin = 15\<rparr> # \<lparr>b_id = 3, b_cylin = 20\<rparr> # [\<lparr>b_id = 2, b_cylin = 10\<rparr>]"
    by (simp add: disksort_def insert_after_def)
  have s: "{b \<in> set [\<lparr>b_id = 3, b_cylin = 20\<rparr>, \<lparr>b_id = 2, b_cylin = 10\<rparr>]. 15 \<le> b_cylin b} = {\<lparr>b_id = 3, b_cylin = 20\<rparr>}" by auto
  show ?thesis using disksort_cscan [OF q _ d] i s d by simp
qed

end
