(* ===== verification/Synch.thy ===== *)
theory Synch
  imports Prelude Complex_Main
begin

text \<open>
  Processes that wait and processes that run, \<^verbatim>\<open>sys/sys/kern_synch.c\<close> and the run queue routines of
  \<^verbatim>\<open>sys/vax/locore.s\<close>. The two kinds of queues share the field \<^verbatim>\<open>p_link\<close> of a process, so the pointers are kept as the
  code has them: the 64 sleep queues are singly linked with a pointer to the last link, the 32 run queues are rings through
  their heads, and \<^verbatim>\<open>whichqs\<close> says which of those are not empty. The definitions only; what they do is in
  \<^verbatim>\<open>Synch_inv\<close>.
\<close>

section \<open>State\<close>

datatype pstat = SFREE | SSLEEP | SWAIT | SRUN | SIDL | SZOMB | SSTOP

text \<open>A pointer to a process or to the head of a run queue; a pointer to such a pointer.\<close>

datatype plink = NULLP | Proc nat | Qs nat

datatype pslot = Head nat | Link nat

record proc =
  p_link :: plink
  p_rlink :: plink
  p_usrpri :: int
  p_pri :: int
  p_cpu :: nat
  p_stat :: pstat
  p_time :: nat
  p_nice :: int
  p_slptime :: nat
  p_cursig :: nat
  p_sig :: "32 word"
  p_sigmask :: "32 word"
  p_sigignore :: "32 word"
  p_sigcatch :: "32 word"
  p_SLOAD :: bool
  p_STRC :: bool
  p_SVFORK :: bool
  p_SWTED :: bool
  p_SOMASK :: bool
  p_SOUSIG :: bool
  p_pid :: int
  p_ppid :: int
  p_pgrp :: int
  p_pptr :: nat
  p_rssize :: int
  p_maxrss :: int
  p_wchan :: "32 word"
  p_cpticks :: int
  p_pctcpu :: rat

text \<open>The addresses that the code uses as channels to sleep on: \<^verbatim>\<open>&runout\<close>, \<^verbatim>\<open>&runin\<close>, \<^verbatim>\<open>&lbolt\<close> and \<^verbatim>\<open>&proc[i]\<close>.\<close>

record chans =
  ch_runout :: "32 word"
  ch_runin :: "32 word"
  ch_lbolt :: "32 word"
  ch_proc :: "nat \<Rightarrow> 32 word"

text \<open>The tables and global variables.\<close>

record sched =
  procs :: "nat \<Rightarrow> proc"
  sq_head :: "nat \<Rightarrow> plink"
  sq_tailp :: "nat \<Rightarrow> pslot"
  ph_link :: "nat \<Rightarrow> plink"
  ph_rlink :: "nat \<Rightarrow> plink"
  whichqs :: "32 word"
  u_procp :: nat
  noproc :: bool
  curpri :: int
  runrun :: nat
  astpend :: bool
  runout :: bool
  runin :: bool
  wantin :: nat
  bclnlist :: bool
  panicstr :: bool
  nvcsw :: nat
  nivcsw :: nat
  avenrun :: rat
  sfreemem :: int
  sdesfree :: int
  shz :: int
  chans :: chans

abbreviation addr_runout :: "sched \<Rightarrow> 32 word" where "addr_runout s \<equiv> ch_runout (chans s)"

abbreviation PZERO :: int where "PZERO \<equiv> 25"
abbreviation PUSER :: int where "PUSER \<equiv> 50"
abbreviation NQS :: nat where "NQS \<equiv> 32"
abbreviation SQSIZE :: nat where "SQSIZE \<equiv> 64"

text \<open>\<^verbatim>\<open>HASH\<close>\<close>

definition sqhash :: "32 word \<Rightarrow> nat" where
  "sqhash x = unat (drop_bit 5 x) mod SQSIZE"

definition upd :: "nat \<Rightarrow> (proc \<Rightarrow> proc) \<Rightarrow> sched \<Rightarrow> sched" where
  "upd p f s = s\<lparr>procs := (procs s)(p := f (procs s p))\<rparr>"

text \<open>\<^verbatim>\<open>*q\<close> and \<^verbatim>\<open>*q = r\<close>\<close>

fun rd :: "sched \<Rightarrow> pslot \<Rightarrow> plink" where
  "rd s (Head i) = sq_head s i"
| "rd s (Link p) = p_link (procs s p)"

fun wr :: "pslot \<Rightarrow> plink \<Rightarrow> sched \<Rightarrow> sched" where
  "wr (Head i) r s = s\<lparr>sq_head := (sq_head s)(i := r)\<rparr>"
| "wr (Link p) r s = upd p (p_link_update (\<lambda>_. r)) s"

section \<open>Priorities\<close>

definition resched :: "sched \<Rightarrow> sched" where
  "resched s = s\<lparr>runrun := runrun s + 1, astpend := True\<rparr>"

definition usrpri_of :: "sched \<Rightarrow> proc \<Rightarrow> int" where
  "usrpri_of s pp = min 127 (int (p_cpu pp div 4) + PUSER + 2 * p_nice pp +
     (if p_maxrss pp < p_rssize pp \<and> sfreemem s < sdesfree s then 8 else 0))"

definition setpri_proc :: "nat \<Rightarrow> sched \<Rightarrow> sched" where
  "setpri_proc pp s = (let p = usrpri_of s (procs s pp) in
     upd pp (p_usrpri_update (\<lambda>_. p)) (if p < curpri s then resched s else s))"

text \<open>\<^verbatim>\<open>(int) (filter(avenrun[0]) * a)\<close>\<close>

definition decay :: "rat \<Rightarrow> nat \<Rightarrow> nat" where
  "decay l a = nat \<lfloor>(2 * l) / (2 * l + 1) * of_nat a\<rfloor>"

text \<open>The loop of \<^verbatim>\<open>updatepri\<close> from \<open>a\<close> and \<^verbatim>\<open>p_slptime\<close>, which its callers make sure is at least 1.\<close>

fun decay_loop :: "rat \<Rightarrow> nat \<Rightarrow> nat \<Rightarrow> nat \<times> nat" where
  "decay_loop l a 0 = (a, 0)"
| "decay_loop l a (Suc t) = (if a = 0 then (a, Suc t) else if t = 0 then (a, 0) else decay_loop l (decay l a) t)"

definition updatepri :: "nat \<Rightarrow> sched \<Rightarrow> sched" where
  "updatepri p s = (let (a, t) = decay_loop (avenrun s) (p_cpu (procs s p)) (p_slptime (procs s p) - 1) in
     setpri_proc p (upd p (\<lambda>x. x\<lparr>p_cpu := min 255 a, p_slptime := t\<rparr>) s))"

section \<open>Run queues\<close>

text \<open>The links of a process and of the head of a queue, as \<^verbatim>\<open>insque\<close> and \<^verbatim>\<open>remque\<close> use them.\<close>

fun fwd :: "sched \<Rightarrow> plink \<Rightarrow> plink" where
  "fwd s (Proc p) = p_link (procs s p)"
| "fwd s (Qs i) = ph_link s i"
| "fwd s NULLP = NULLP"

fun bwd :: "sched \<Rightarrow> plink \<Rightarrow> plink" where
  "bwd s (Proc p) = p_rlink (procs s p)"
| "bwd s (Qs i) = ph_rlink s i"
| "bwd s NULLP = NULLP"

fun set_fwd :: "plink \<Rightarrow> plink \<Rightarrow> sched \<Rightarrow> sched" where
  "set_fwd (Proc p) r s = upd p (p_link_update (\<lambda>_. r)) s"
| "set_fwd (Qs i) r s = s\<lparr>ph_link := (ph_link s)(i := r)\<rparr>"
| "set_fwd NULLP r s = s"

fun set_bwd :: "plink \<Rightarrow> plink \<Rightarrow> sched \<Rightarrow> sched" where
  "set_bwd (Proc p) r s = upd p (p_rlink_update (\<lambda>_. r)) s"
| "set_bwd (Qs i) r s = s\<lparr>ph_rlink := (ph_rlink s)(i := r)\<rparr>"
| "set_bwd NULLP r s = s"

definition insque :: "plink \<Rightarrow> plink \<Rightarrow> sched \<Rightarrow> sched" where
  "insque e a s = (let f = fwd s a in set_fwd a e (set_bwd f e (set_bwd e a (set_fwd e f s))))"

definition remque :: "plink \<Rightarrow> sched \<Rightarrow> sched" where
  "remque e s = set_bwd (fwd s e) (bwd s e) (set_fwd (bwd s e) (fwd s e) s)"

text \<open>The queue of a priority, which the machine reads as an unsigned byte.\<close>

definition prq :: "int \<Rightarrow> nat" where
  "prq pri = nat (pri mod 256) div 4"

definition setrq :: "nat \<Rightarrow> sched \<Rightarrow> sched kern" where
  "setrq p s = (if p_rlink (procs s p) \<noteq> NULLP then Inl (Panic ''setrq'')
     else let i = prq (p_pri (procs s p)); s = insque (Proc p) (ph_rlink s i) s in
       Inr (s\<lparr>whichqs := set_bit i (whichqs s)\<rparr>))"

definition remrq :: "nat \<Rightarrow> sched \<Rightarrow> sched kern" where
  "remrq p s = (let i = prq (p_pri (procs s p)) in
     if \<not> bit (whichqs s) i then Inl (Panic ''remrq'')
     else let z = (fwd s (Proc p) = bwd s (Proc p)); s = remque (Proc p) s;
         s = (if z then s\<lparr>whichqs := unset_bit i (whichqs s)\<rparr> else s) in
       Inr (upd p (p_rlink_update (\<lambda>_. NULLP)) s))"

definition rqinit :: "sched \<Rightarrow> sched" where
  "rqinit s = s\<lparr>ph_link := (\<lambda>i. if i < NQS then Qs i else ph_link s i), ph_rlink := (\<lambda>i. if i < NQS then Qs i else ph_rlink s i)\<rparr>"

text \<open>\<^verbatim>\<open>ffs\<close>: the lowest bit that is set, from bit \<open>n\<close> on.\<close>

fun first_bit :: "nat list \<Rightarrow> 32 word \<Rightarrow> nat option" where
  "first_bit [] w = None"
| "first_bit (n # ns) w = (if bit w n then Some n else first_bit ns w)"

text \<open>When no process is ready the processor idles: \<^verbatim>\<open>noproc\<close> stays set and \<open>swtch\<close> goes on when a queue is not empty.\<close>

definition swtch :: "sched \<Rightarrow> sched kern" where
  "swtch s0 = (let s = s0\<lparr>noproc := True\<rparr> in
     case first_bit [0..<NQS] (whichqs s) of None \<Rightarrow> Inr s
     | Some i \<Rightarrow> (case ph_link s i of
         Proc p \<Rightarrow> let z = (fwd s (Proc p) = bwd s (Proc p)); s = remque (Proc p) s;
             s = (if z then s\<lparr>whichqs := unset_bit i (whichqs s)\<rparr> else s);
             s = s\<lparr>noproc := False, runrun := 0\<rparr> in
           if p_wchan (procs s p) \<noteq> 0 \<or> p_stat (procs s p) \<noteq> SRUN then Inl (Panic ''swtch'')
           else Inr ((upd p (p_rlink_update (\<lambda>_. NULLP)) s)\<lparr>u_procp := p\<rparr>)
       | _ \<Rightarrow> Inl (Panic ''swtch'')))"

section \<open>Sleep queues\<close>

text \<open>\<open>sleep\<close> up to the test for signals: the process is on its queue, and its status still \<^verbatim>\<open>SRUN\<close>.\<close>

definition sleep_enq :: "32 word \<Rightarrow> int \<Rightarrow> sched \<Rightarrow> sched kern" where
  "sleep_enq chan pri s = (let rp = u_procp s; p = procs s rp in
     if chan = 0 \<or> p_stat p \<noteq> SRUN \<or> p_rlink p \<noteq> NULLP then Inl (Panic ''sleep'')
     else let s = upd rp (\<lambda>x. x\<lparr>p_wchan := chan, p_slptime := 0, p_pri := pri\<rparr>) s; h = sqhash chan;
         s = (if sq_head s h = NULLP then wr (Head h) (Proc rp) s else wr (sq_tailp s h) (Proc rp) s);
         s = s\<lparr>sq_tailp := (sq_tailp s)(h := Link rp)\<rparr> in
       Inr (wr (Link rp) NULLP s))"

text \<open>From there on when it really sleeps.\<close>

definition sleep_swtch :: "sched \<Rightarrow> sched kern" where
  "sleep_swtch s = swtch ((upd (u_procp s) (p_stat_update (\<lambda>_. SSLEEP)) s)\<lparr>nvcsw := nvcsw s + 1\<rparr>)"

text \<open>\<open>unsleep\<close>: the loop that looks for the link that points to \<open>p\<close>. Running off the queue is a fault.\<close>

partial_function (option) find_slot :: "nat \<Rightarrow> pslot \<Rightarrow> sched \<Rightarrow> pslot kern option" where
  "find_slot p hp s = (case rd s hp of
       Proc q \<Rightarrow> if q = p then Some (Inr hp) else find_slot p (Link q) s
     | _ \<Rightarrow> Some (Inl (Fault ''unsleep'')))"

text \<open>Taking \<open>p\<close> out of the queue \<open>h\<close> when \<open>hp\<close> points to it.\<close>

definition sq_unlink :: "nat \<Rightarrow> pslot \<Rightarrow> nat \<Rightarrow> sched \<Rightarrow> sched" where
  "sq_unlink h hp p s = (let s = wr hp (p_link (procs s p)) s in
     if sq_tailp s h = Link p then s\<lparr>sq_tailp := (sq_tailp s)(h := hp)\<rparr> else s)"

definition unsleep :: "nat \<Rightarrow> sched \<Rightarrow> sched kern option" where
  "unsleep p s = (if p_wchan (procs s p) = 0 then Some (Inr s)
     else let h = sqhash (p_wchan (procs s p)) in
       Option.bind (find_slot p (Head h) s) (\<lambda>r. Some (kbind r (\<lambda>hp.
         Inr (upd p (p_wchan_update (\<lambda>_. 0)) (sq_unlink h hp p s))))))"

text \<open>
  \<open>wakeup\<close>: the inline expansion of \<^verbatim>\<open>setrun\<close> up to the test of \<^verbatim>\<open>runout\<close>, then the loop. \<open>q\<close> is the link the loop is at;
  after it has made a process run the loop starts again at the head of the queue.
\<close>

definition wake_run :: "nat \<Rightarrow> sched \<Rightarrow> sched kern" where
  "wake_run p s = (let s = (if 1 < p_slptime (procs s p) then updatepri p s else s);
       s = upd p (\<lambda>x. x\<lparr>p_slptime := 0, p_stat := SRUN\<rparr>) s in
     kbind (if p_SLOAD (procs s p) then setrq p s else Inr s) (\<lambda>s. Inr (resched s)))"

partial_function (option) wake_loop :: "32 word \<Rightarrow> pslot \<Rightarrow> sched \<Rightarrow> sched kern option" where
  "wake_loop chan q s = (case rd s q of
       NULLP \<Rightarrow> Some (Inr s)
     | Qs _ \<Rightarrow> Some (Inl (Fault ''wakeup''))
     | Proc p \<Rightarrow> let x = procs s p; h = sqhash chan in
         if p_rlink x \<noteq> NULLP \<or> p_stat x \<noteq> SSLEEP \<and> p_stat x \<noteq> SSTOP then Some (Inl (Panic ''wakeup''))
         else if p_wchan x = chan then
           (let s = sq_unlink h q p (upd p (p_wchan_update (\<lambda>_. 0)) s) in
            if p_stat x = SSLEEP then
              (case wake_run p s of Inl e \<Rightarrow> Some (Inl e)
               | Inr s \<Rightarrow>
                 (if p_SLOAD x then wake_loop chan (Head h) s
                  else if runout s then
                    Option.bind (wake_loop (addr_runout s) (Head (sqhash (addr_runout s))) (s\<lparr>runout := False\<rparr>)) (\<lambda>r.
                      case r of Inl e \<Rightarrow> Some (Inl e)
                      | Inr s \<Rightarrow> wake_loop chan (Head h) (s\<lparr>wantin := wantin s + 1\<rparr>))
                  else wake_loop chan (Head h) (s\<lparr>wantin := wantin s + 1\<rparr>)))
            else wake_loop chan q (upd p (p_slptime_update (\<lambda>_. 0)) s))
         else wake_loop chan (Link p) s)"

definition wakeup :: "32 word \<Rightarrow> sched \<Rightarrow> sched kern option" where
  "wakeup chan s = wake_loop chan (Head (sqhash chan)) s"

definition setrun :: "nat \<Rightarrow> sched \<Rightarrow> sched kern option" where
  "setrun p s = Option.bind
     (case p_stat (procs s p) of
        SSTOP \<Rightarrow> unsleep p s
      | SSLEEP \<Rightarrow> unsleep p s
      | SIDL \<Rightarrow> Some (Inr s)
      | _ \<Rightarrow> Some (Inl (Panic ''setrun'')))
     (\<lambda>r. case r of Inl e \<Rightarrow> Some (Inl e)
      | Inr s \<Rightarrow>
        let s = (if 1 < p_slptime (procs s p) then updatepri p s else s);
            s = upd p (p_stat_update (\<lambda>_. SRUN)) s in
        (case (if p_SLOAD (procs s p) then setrq p s else Inr s) of Inl e \<Rightarrow> Some (Inl e)
         | Inr s \<Rightarrow> let s = (if p_pri (procs s p) < curpri s then resched s else s) in
             if p_SLOAD (procs s p) then Some (Inr s)
             else Option.bind (if runout s then wakeup (addr_runout s) (s\<lparr>runout := False\<rparr>) else Some (Inr s))
               (\<lambda>r. Some (kbind r (\<lambda>s. Inr (s\<lparr>wantin := wantin s + 1\<rparr>))))))"

section \<open>The clock and the processor\<close>

text \<open>\<^verbatim>\<open>ccpu\<close>, and one round of the loop of \<^verbatim>\<open>schedcpu\<close>.\<close>

definition ccpu :: rat where
  "ccpu = 95122942450071400909 / 100000000000000000000"

definition clamp255 :: "int \<Rightarrow> nat" where
  "clamp255 a = nat (if a < 0 then 0 else if a > 255 then 255 else a)"

definition PPQ :: int where
  "PPQ = 128 div int NQS"

definition schedcpu_proc :: "nat \<Rightarrow> sched \<Rightarrow> sched kern" where
  "schedcpu_proc p s = (let x = procs s p;
       s = upd p (\<lambda>x. x\<lparr>p_time := (if p_time x \<noteq> 127 then p_time x + 1 else p_time x),
              p_slptime := (if (p_stat x = SSLEEP \<or> p_stat x = SSTOP) \<and> p_slptime x \<noteq> 127 then p_slptime x + 1 else p_slptime x)\<rparr>) s in
     if 1 < p_slptime (procs s p) then Inr (upd p (\<lambda>x. x\<lparr>p_pctcpu := p_pctcpu x * ccpu\<rparr>) s)
     else let s = upd p (\<lambda>x. x\<lparr>p_pctcpu := ccpu * p_pctcpu x + (1 - ccpu) / of_int (shz s) * of_int (p_cpticks x), p_cpticks := 0\<rparr>) s;
          s = upd p (\<lambda>x. x\<lparr>p_cpu := clamp255 (int (decay (avenrun s) (p_cpu x)) + p_nice x)\<rparr>) s;
          s = setpri_proc p s;
          y = procs s p in
       if p_pri y < PUSER then Inr s
       else if (p \<noteq> u_procp s \<or> noproc s) \<and> p_stat y = SRUN \<and> p_SLOAD y \<and> p_pri y div PPQ \<noteq> p_usrpri y div PPQ
         then kbind (remrq p s) (\<lambda>s. setrq p (upd p (\<lambda>x. x\<lparr>p_pri := p_usrpri x\<rparr>) s))
         else Inr (upd p (\<lambda>x. x\<lparr>p_pri := p_usrpri x\<rparr>) s))"

fun schedcpu_loop :: "nat list \<Rightarrow> sched \<Rightarrow> sched kern" where
  "schedcpu_loop [] s = Inr s"
| "schedcpu_loop (p # ps) s = kbind (schedcpu_proc p s) (schedcpu_loop ps)"

text \<open>Sequencing of operations that contain \<open>wakeup\<close>.\<close>

definition sbind :: "'a kern option \<Rightarrow> ('a \<Rightarrow> 'b kern option) \<Rightarrow> 'b kern option" where
  "sbind m f = Option.bind m (\<lambda>r. case r of Inl e \<Rightarrow> Some (Inl e) | Inr x \<Rightarrow> f x)"

lemma sbind_simps [simp]: "sbind (Some (Inr x)) f = f x" "sbind (Some (Inl e)) f = Some (Inl e)" "sbind None f = None"
  by (simp_all add: sbind_def)

text \<open>
  \<^verbatim>\<open>schedcpu\<close>, for the processes \<^verbatim>\<open>allproc\<close>, with the wakeups around the loop. \<^verbatim>\<open>vmmeter\<close>, which only keeps averages for
  display, and the call of \<^verbatim>\<open>timeout\<close> are left out.
\<close>

definition schedcpu :: "nat list \<Rightarrow> sched \<Rightarrow> sched kern option" where
  "schedcpu allproc s = sbind (wakeup (ch_lbolt (chans s)) s) (\<lambda>s. sbind (Some (schedcpu_loop allproc s)) (\<lambda>s.
     sbind (if runin s then wakeup (ch_runin (chans s)) (s\<lparr>runin := False\<rparr>) else Some (Inr s)) (\<lambda>s.
       if bclnlist s then wakeup (ch_proc (chans s) 2) s else Some (Inr s))))"

definition roundrobin :: "sched \<Rightarrow> sched" where
  "roundrobin = resched"

text \<open>On the way back to user mode a process gives up the processor when \<^verbatim>\<open>runrun\<close> is set.\<close>

definition user_return :: "sched \<Rightarrow> sched kern" where
  "user_return s = (let p = u_procp s; s = upd p (\<lambda>x. x\<lparr>p_pri := p_usrpri x\<rparr>) s in
     if runrun s = 0 then Inr s
     else kbind (setrq p s) (\<lambda>s. swtch (s\<lparr>nivcsw := nivcsw s + 1\<rparr>)))"

text \<open>The swapper takes a process out of core, or has brought one in; a new process starts; a process is gone.\<close>

definition swap_out :: "nat \<Rightarrow> sched \<Rightarrow> sched kern" where
  "swap_out p s = (let s = upd p (p_SLOAD_update (\<lambda>_. False)) s in
     if p_stat (procs s p) = SRUN then remrq p s else Inr s)"

definition swap_in :: "nat \<Rightarrow> sched \<Rightarrow> sched kern" where
  "swap_in p s = kbind (if p_stat (procs s p) = SRUN then setrq p s else Inr s) (\<lambda>s. Inr (upd p (p_SLOAD_update (\<lambda>_. True)) s))"

definition start_proc :: "nat \<Rightarrow> sched \<Rightarrow> sched kern" where
  "start_proc p s = setrq p (upd p (p_stat_update (\<lambda>_. SRUN)) s)"

definition zombie :: "sched \<Rightarrow> sched" where
  "zombie s = (upd (u_procp s) (p_stat_update (\<lambda>_. SZOMB)) s)\<lparr>noproc := True\<rparr>"

text \<open>What \<^verbatim>\<open>newproc\<close> writes into the entry of the child, and \<^verbatim>\<open>wait1\<close> into that of a process it has laid to rest.\<close>

definition new_entry :: "nat \<Rightarrow> bool \<Rightarrow> int \<Rightarrow> sched \<Rightarrow> sched" where
  "new_entry rpp isvfork mpid s = (let rip = procs s (u_procp s) in
     upd rpp (\<lambda>x. x\<lparr>p_stat := SIDL, p_SLOAD := True, p_STRC := False, p_SWTED := False, p_SOMASK := False, p_SVFORK := isvfork,
       p_SOUSIG := p_SOUSIG rip, p_pgrp := p_pgrp rip,
       p_nice := p_nice rip, p_pid := mpid, p_ppid := p_pid rip, p_pptr := u_procp s, p_time := 0, p_cpu := 0,
       p_sigmask := p_sigmask rip, p_sigcatch := p_sigcatch rip, p_sigignore := p_sigignore rip,
       p_rssize := 0, p_maxrss := p_maxrss rip, p_wchan := 0, p_slptime := 0, p_pctcpu := 0, p_cpticks := 0\<rparr>) s)"

definition reap_entry :: "nat \<Rightarrow> sched \<Rightarrow> sched" where
  "reap_entry p s = upd p (\<lambda>x. x\<lparr>p_stat := SFREE, p_pid := 0, p_ppid := 0, p_pptr := 0, p_sig := 0, p_sigcatch := 0, p_sigignore := 0,
       p_sigmask := 0, p_pgrp := 0, p_SLOAD := False, p_STRC := False, p_SWTED := False, p_SOMASK := False, p_SOUSIG := False, p_SVFORK := False, p_wchan := 0, p_cursig := 0\<rparr>) s"

end
