(* ===== verification/Sig.thy ===== *)
theory Sig
  imports Synch
begin

text \<open>
  Signals, \<^verbatim>\<open>sys/sys/kern_sig.c\<close>: sending one to a process (\<^verbatim>\<open>psignal\<close>, \<^verbatim>\<open>gsignal\<close>), finding the one to take
  (\<^verbatim>\<open>issig\<close>), stopping, and with them the whole of \<^verbatim>\<open>sleep\<close>; setting dispositions and masks, and \<^verbatim>\<open>psig\<close>. Signal sets are the 32 bit masks of the code. Building
  the frame of a handler (\<^verbatim>\<open>sendsig\<close>) and the core file (\<^verbatim>\<open>core\<close>) is not modelled.
\<close>

unbundle bit_operations_syntax

abbreviation SIGHUP :: nat where "SIGHUP \<equiv> 1"
abbreviation SIGKILL :: nat where "SIGKILL \<equiv> 9"
abbreviation SIGTERM :: nat where "SIGTERM \<equiv> 15"
abbreviation SIGURG :: nat where "SIGURG \<equiv> 16"
abbreviation SIGSTOP :: nat where "SIGSTOP \<equiv> 17"
abbreviation SIGTSTP :: nat where "SIGTSTP \<equiv> 18"
abbreviation SIGCONT :: nat where "SIGCONT \<equiv> 19"
abbreviation SIGCHLD :: nat where "SIGCHLD \<equiv> 20"
abbreviation SIGTTIN :: nat where "SIGTTIN \<equiv> 21"
abbreviation SIGTTOU :: nat where "SIGTTOU \<equiv> 22"
abbreviation SIGIO :: nat where "SIGIO \<equiv> 23"
abbreviation SIGWINCH :: nat where "SIGWINCH \<equiv> 28"
abbreviation NSIG :: nat where "NSIG \<equiv> 32"

text \<open>\<^verbatim>\<open>1 << (m-1)\<close>; the VAX shifts right for a negative count.\<close>

definition sigmask :: "nat \<Rightarrow> 32 word" where
  "sigmask m = (if m = 0 then 0 else push_bit (m - 1) 1)"

definition stopsigmask :: "32 word" where
  "stopsigmask = sigmask SIGSTOP OR sigmask SIGTSTP OR sigmask SIGTTIN OR sigmask SIGTTOU"

definition stopsigs :: "nat list" where "stopsigs = [SIGSTOP, SIGTSTP, SIGTTIN, SIGTTOU]"

definition quietsigs :: "nat list" where "quietsigs = [SIGIO, SIGURG, SIGCHLD, SIGWINCH]"

datatype sigact = SIG_DFL | SIG_HOLD | SIG_CATCH

text \<open>What \<^verbatim>\<open>psignal\<close> takes for the action of a signal; \<^verbatim>\<open>None\<close> when it is ignored.\<close>

definition sig_action :: "proc \<Rightarrow> 32 word \<Rightarrow> sigact option" where
  "sig_action x msk = (if p_STRC x then Some SIG_DFL
     else if p_sigignore x AND msk \<noteq> 0 then None
     else if p_sigmask x AND msk \<noteq> 0 then Some SIG_HOLD
     else if p_sigcatch x AND msk \<noteq> 0 then Some SIG_CATCH
     else Some SIG_DFL)"

text \<open>The signal becomes pending; the cases that change the priority, or cancel other pending signals.\<close>

definition post_sig :: "nat \<Rightarrow> sigact \<Rightarrow> proc \<Rightarrow> proc" where
  "post_sig sig action x = (if sig = 0 then x else
     let x = x\<lparr>p_sig := p_sig x OR sigmask sig\<rparr> in
     if sig = SIGTERM \<and> (p_STRC x \<or> action \<noteq> SIG_DFL) then x
     else if sig = SIGTERM \<or> sig = SIGKILL then (if 0 < p_nice x then x\<lparr>p_nice := 0\<rparr> else x)
     else if sig = SIGCONT then x\<lparr>p_sig := p_sig x AND NOT stopsigmask\<rparr>
     else if sig \<in> set stopsigs then x\<lparr>p_sig := p_sig x AND NOT (sigmask SIGCONT)\<rparr>
     else x)"

definition clear_sig :: "32 word \<Rightarrow> nat \<Rightarrow> sched \<Rightarrow> sched" where
  "clear_sig msk p s = upd p (\<lambda>x. x\<lparr>p_sig := p_sig x AND NOT msk\<rparr>) s"

definition stop :: "nat \<Rightarrow> sched \<Rightarrow> sched kern option" where
  "stop p s = (let s = upd p (\<lambda>x. x\<lparr>p_stat := SSTOP, p_SWTED := False\<rparr>) s in
     wakeup (ch_proc (chans s) (p_pptr (procs s p))) s)"

text \<open>The label \<^verbatim>\<open>run\<close>.\<close>

definition sig_run :: "nat \<Rightarrow> sched \<Rightarrow> sched kern option" where
  "sig_run p s = setrun p (if PUSER < p_pri (procs s p) then upd p (\<lambda>x. x\<lparr>p_pri := PUSER\<rparr>) s else s)"

lemma sbind_mono [partial_function_mono]:
  assumes "mono_option B" "\<And>y. mono_option (C y)"
  shows "mono_option (\<lambda>f. sbind (B f) (\<lambda>y. C y f))"
  unfolding sbind_def
proof (rule bind_mono [OF assms(1)])
  fix y show "mono_option (\<lambda>f. case y of Inl e \<Rightarrow> Some (Inl e) | Inr x \<Rightarrow> C x f)"
    using assms(2) by (cases y) (auto intro: option.const_mono)
qed

partial_function (option) psignal :: "nat \<Rightarrow> nat \<Rightarrow> sched \<Rightarrow> sched kern option" where
  "psignal p sig s0 = (if NSIG \<le> sig then Some (Inr s0) else
     let x = procs s0 p; msk = sigmask sig in
     (case sig_action x msk of None \<Rightarrow> Some (Inr s0)
      | Some action \<Rightarrow>
        let s = upd p (post_sig sig action) s0 in
        if action = SIG_HOLD then Some (Inr s)
        else if p_stat x = SSLEEP then
          (if p_pri x \<le> PZERO then Some (Inr s)
           else if p_STRC x then sig_run p s
           else if sig \<in> set stopsigs then
             (if action \<noteq> SIG_DFL then sig_run p s
              else if sig \<noteq> SIGSTOP \<and> p_pptr x = 1 then sbind (psignal p SIGKILL s) (\<lambda>s. Some (Inr (clear_sig msk p s)))
              else if p_SVFORK x then Some (Inr s)
              else sbind (psignal (p_pptr x) SIGCHLD (upd p (p_cursig_update (\<lambda>_. sig)) (clear_sig msk p s))) (stop p))
           else if sig \<in> set quietsigs then
             (if action \<noteq> SIG_DFL then sig_run p s else Some (Inr (clear_sig msk p s)))
           else sig_run p s)
        else if p_stat x = SSTOP then
          (if p_STRC x then Some (Inr s)
           else if sig = SIGKILL then sig_run p s
           else if sig = SIGCONT then
             (if action \<noteq> SIG_DFL \<or> p_wchan x = 0 then sig_run p s
              else Some (Inr (upd p (p_stat_update (\<lambda>_. SSLEEP)) s)))
           else if sig \<in> set stopsigs then Some (Inr (clear_sig msk p s))
           else if p_wchan x \<noteq> 0 \<and> PZERO < p_pri x then unsleep p s
           else Some (Inr s))
        else Some (Inr (if p = u_procp s \<and> \<not> noproc s then s\<lparr>astpend := True\<rparr> else s))))"

text \<open>\<^verbatim>\<open>gsignal\<close>, over the processes \<^verbatim>\<open>allproc\<close>.\<close>

fun gsignal_loop :: "nat list \<Rightarrow> int \<Rightarrow> nat \<Rightarrow> sched \<Rightarrow> sched kern option" where
  "gsignal_loop [] pgrp sig s = Some (Inr s)"
| "gsignal_loop (p # ps) pgrp sig s = sbind (if p_pgrp (procs s p) = pgrp then psignal p sig s else Some (Inr s)) (gsignal_loop ps pgrp sig)"

definition gsignal :: "nat list \<Rightarrow> int \<Rightarrow> nat \<Rightarrow> sched \<Rightarrow> sched kern option" where
  "gsignal allproc pgrp sig s = (if pgrp = 0 then Some (Inr s) else gsignal_loop allproc pgrp sig s)"

section \<open>Taking a signal\<close>

datatype usig = U_DFL | U_IGN | U_HOLD | U_FUNC

text \<open>
  \<open>issig\<close> of the running process with the dispositions \<open>us\<close>: no signal, a signal to act on, or the process has stopped and
  gives up the processor; when it is continued it calls \<^verbatim>\<open>issig\<close> again. What a debugger does to a traced process in between
  is not modelled.
\<close>

datatype issig_out = No_sig sched | Take_sig nat sched | Stopped sched

definition sig_bits :: "proc \<Rightarrow> 32 word" where
  "sig_bits x = (let b = p_sig x AND NOT (p_sigmask x); b = (if p_STRC x then b else b AND NOT (p_sigignore x)) in
     if p_SVFORK x then b AND NOT stopsigmask else b)"

partial_function (option) issig :: "(nat \<Rightarrow> usig) \<Rightarrow> sched \<Rightarrow> issig_out kern option" where
  "issig us s0 = (let p = u_procp s0; x = procs s0 p in
     case first_bit [0..<32] (sig_bits x) of
       None \<Rightarrow> Some (Inr (No_sig (upd p (p_cursig_update (\<lambda>_. 0)) s0)))
     | Some i \<Rightarrow> let sig = i + 1; s = upd p (p_cursig_update (\<lambda>_. sig)) (clear_sig (sigmask sig) p s0) in
         if p_STRC x \<and> \<not> p_SVFORK x then sbind (psignal (p_pptr x) SIGCHLD s) (\<lambda>s. sbind (stop p s) (\<lambda>s. Some (Inr (Stopped s))))
         else if us sig = U_FUNC then Some (Inr (Take_sig sig s))
         else if us sig \<noteq> U_DFL then issig us s
         else if p_ppid x = 0 then issig us s
         else if sig \<in> set stopsigs then
           (if sig \<noteq> SIGSTOP \<and> p_pptr x = 1 then sbind (psignal p SIGKILL s) (issig us)
            else if p_STRC x then issig us s
            else sbind (psignal (p_pptr x) SIGCHLD s) (\<lambda>s. sbind (stop p s) (\<lambda>s. Some (Inr (Stopped s)))))
         else if sig = SIGCONT \<or> sig \<in> set quietsigs then issig us s
         else Some (Inr (Take_sig sig s)))"

text \<open>The macro \<^verbatim>\<open>ISSIG\<close>\<close>

definition sig_pending :: "proc \<Rightarrow> bool" where
  "sig_pending x = (p_sig x \<noteq> 0 \<and> (p_STRC x \<or> p_sig x AND NOT (p_sigignore x OR p_sigmask x) \<noteq> 0))"

section \<open>sleep\<close>

text \<open>
  What becomes of a process that calls \<^verbatim>\<open>sleep\<close>: it sleeps and another process runs, it goes on at once, it leaves the
  system call because of a signal, or it stops.
\<close>

datatype sleep_out = Asleep sched | Awake_again sched | Interrupted sched | Stopped_asleep sched

definition sleep :: "(nat \<Rightarrow> usig) \<Rightarrow> 32 word \<Rightarrow> int \<Rightarrow> sched \<Rightarrow> sleep_out kern option" where
  "sleep us chan pri s = (if panicstr s then Some (Inr (Awake_again s)) else
     (case sleep_enq chan pri s of Inl e \<Rightarrow> Some (Inl e)
      | Inr s \<Rightarrow> let rp = u_procp s in
        if pri \<le> PZERO then Some (kbind (sleep_swtch s) (\<lambda>s. Inr (Asleep s)))
        else sbind (if sig_pending (procs s rp) then issig us s else Some (Inr (No_sig s))) (\<lambda>r.
          case r of
            No_sig s \<Rightarrow> if p_wchan (procs s rp) = 0 then Some (Inr (Awake_again s)) else Some (kbind (sleep_swtch s) (\<lambda>s. Inr (Asleep s)))
          | Take_sig _ s \<Rightarrow> sbind (if p_wchan (procs s rp) \<noteq> 0 then unsleep rp s else Some (Inr s))
              (\<lambda>s. Some (Inr (Interrupted (upd rp (p_stat_update (\<lambda>_. SRUN)) s))))
          | Stopped s \<Rightarrow> Some (kbind (swtch s) (\<lambda>s. Inr (Stopped_asleep s))))))"

text \<open>A process that has been woken goes on behind \<^verbatim>\<open>swtch\<close>.\<close>

definition sleep_back :: "sched \<Rightarrow> sched" where
  "sleep_back s = s\<lparr>curpri := p_usrpri (procs s (u_procp s))\<rparr>"

section \<open>Dispositions\<close>

text \<open>The signal fields of \<^verbatim>\<open>struct user\<close>, and the \<^verbatim>\<open>struct sigvec\<close> of a caller.\<close>

record usersig =
  u_signal :: "nat \<Rightarrow> usig"
  u_sigmask :: "nat \<Rightarrow> 32 word"
  u_sigintr :: "32 word"
  u_sigonstack :: "32 word"
  u_oldmask :: "32 word"

record sigvec =
  sv_handler :: usig
  sv_mask :: "32 word"
  SV_INTERRUPT :: bool
  SV_ONSTACK :: bool

definition cantmask :: "32 word" where
  "cantmask = sigmask SIGKILL OR sigmask SIGCONT OR sigmask SIGSTOP"

definition setsigvec :: "nat \<Rightarrow> sigvec \<Rightarrow> usersig \<times> proc \<Rightarrow> usersig \<times> proc" where
  "setsigvec sig sv = (\<lambda>(u, p). let b = sigmask sig;
     u = u\<lparr>u_signal := (u_signal u)(sig := sv_handler sv), u_sigmask := (u_sigmask u)(sig := sv_mask sv AND NOT cantmask),
       u_sigintr := (if SV_INTERRUPT sv then u_sigintr u OR b else u_sigintr u AND NOT b),
       u_sigonstack := (if SV_ONSTACK sv then u_sigonstack u OR b else u_sigonstack u AND NOT b)\<rparr> in
     (u, if sv_handler sv = U_IGN
       then p\<lparr>p_sig := p_sig p AND NOT b, p_sigignore := p_sigignore p OR b, p_sigcatch := p_sigcatch p AND NOT b\<rparr>
       else p\<lparr>p_sigignore := p_sigignore p AND NOT b,
              p_sigcatch := (if sv_handler sv = U_DFL then p_sigcatch p AND NOT b else p_sigcatch p OR b)\<rparr>))"

text \<open>\<open>sigvec\<close> with a new vector that could be read; \<^verbatim>\<open>None\<close> is \<^verbatim>\<open>EINVAL\<close>.\<close>

definition sigvec_set :: "nat \<Rightarrow> sigvec \<Rightarrow> usersig \<times> proc \<Rightarrow> (usersig \<times> proc) option" where
  "sigvec_set sig sv st = (if sig = 0 \<or> NSIG \<le> sig \<or> sig = SIGKILL \<or> sig = SIGSTOP then None
     else if sig = SIGCONT \<and> sv_handler sv = U_IGN then None
     else Some (setsigvec sig sv st))"

definition sigblock :: "32 word \<Rightarrow> proc \<Rightarrow> proc" where
  "sigblock m p = p\<lparr>p_sigmask := p_sigmask p OR (m AND NOT cantmask)\<rparr>"

definition sigsetmask :: "32 word \<Rightarrow> proc \<Rightarrow> proc" where
  "sigsetmask m p = p\<lparr>p_sigmask := m AND NOT cantmask\<rparr>"

text \<open>\<open>sigpause\<close> before it sleeps.\<close>

definition sigpause :: "32 word \<Rightarrow> usersig \<times> proc \<Rightarrow> usersig \<times> proc" where
  "sigpause m = (\<lambda>(u, p). (u\<lparr>u_oldmask := p_sigmask p\<rparr>, p\<lparr>p_SOMASK := True, p_sigmask := m AND NOT cantmask\<rparr>))"

text \<open>
  \<open>psig\<close>: the handler is started with the mask to restore, or the process dies with a core file or without. \<^verbatim>\<open>sendsig\<close>, which
  builds the frame of the handler, \<^verbatim>\<open>core\<close> and \<^verbatim>\<open>exit\<close> themselves are not part of it.
\<close>

datatype psig_out = Handler nat "32 word" | Exit nat | Dump nat

definition coresigs :: "nat list" where "coresigs = [4, 6, 10, 3, 5, 7, 8, 11, 12]"

definition psig :: "usersig \<times> proc \<Rightarrow> ((usersig \<times> proc) \<times> psig_out) kern" where
  "psig = (\<lambda>(u, p). let sig = p_cursig p; m = sigmask sig in
     if sig = 0 then Inl (Panic ''psig'')
     else if u_signal u sig \<noteq> U_DFL then
       (if u_signal u sig = U_IGN \<or> p_sigmask p AND m \<noteq> 0 then Inl (Panic ''psig action'')
        else let reset = p_SOUSIG p \<and> sig \<noteq> 4 \<and> sig \<noteq> 5;
               u' = (if reset then u\<lparr>u_signal := (u_signal u)(sig := U_DFL)\<rparr> else u);
               p' = (if reset then p\<lparr>p_sigcatch := p_sigcatch p AND NOT m\<rparr> else p);
               m = (if p_SOUSIG p then 0 else m);
               ret = (if p_SOMASK p then u_oldmask u else p_sigmask p);
               p' = p'\<lparr>p_SOMASK := False, p_sigmask := p_sigmask p OR u_sigmask u sig OR m, p_cursig := 0\<rparr> in
          Inr ((u', p'), Handler sig ret))
     else Inr ((u, p), if sig \<in> set coresigs then Dump sig else Exit sig))"

end
