(* ===== verification/Synch_inv.thy ===== *)
theory Synch_inv
  imports Synch
begin

text \<open>
  The queues of \<^verbatim>\<open>kern_synch.c\<close> as lists. \<open>queues s sl rq\<close> says that the pointers of the state \<open>s\<close> represent the
  sleep queues \<open>sl\<close> and the run queues \<open>rq\<close>, and which processes are on which; the lemmas below give for each
  operation on the pointers the lists it leaves.
\<close>

section \<open>Chains and rings\<close>

primrec linked :: "(plink \<Rightarrow> plink) \<Rightarrow> plink \<Rightarrow> nat list \<Rightarrow> bool" where
  "linked f r [] = (r = NULLP)"
| "linked f r (p # ps) = (r = Proc p \<and> linked f (f (Proc p)) ps)"

primrec ring :: "(plink \<Rightarrow> plink) \<Rightarrow> (plink \<Rightarrow> plink) \<Rightarrow> plink \<Rightarrow> nat list \<Rightarrow> plink \<Rightarrow> bool" where
  "ring f b a [] e = (f a = e \<and> b e = a)"
| "ring f b a (p # ps) e = (f a = Proc p \<and> b (Proc p) = a \<and> ring f b (Proc p) ps e)"

lemma linked_cong: "(\<And>p. p \<in> set ps \<Longrightarrow> f (Proc p) = g (Proc p)) \<Longrightarrow> linked f r ps = linked g r ps"
  by (induction ps arbitrary: r) auto

lemma ring_cong:
  "f a = f' a \<Longrightarrow> b e = b' e \<Longrightarrow> (\<And>p. p \<in> set ps \<Longrightarrow> f (Proc p) = f' (Proc p) \<and> b (Proc p) = b' (Proc p)) \<Longrightarrow>
    ring f b a ps e = ring f' b' a ps e"
  by (induction ps arbitrary: a) auto

lemma ring_append: "ring f b a (xs @ p # ys) e = (ring f b a xs (Proc p) \<and> ring f b (Proc p) ys e)"
  by (induction xs arbitrary: a) auto

lemma ring_last: "ring f b a ps e \<Longrightarrow> b e = (if ps = [] then a else Proc (last ps))"
  by (induction ps arbitrary: a) auto

lemma ring_first: "ring f b a ps e \<Longrightarrow> f a = (if ps = [] then e else Proc (hd ps))"
  by (cases ps) auto

lemma ring_insque:
  assumes "ring f b a ps e" "distinct ps" "p \<notin> set ps" "a \<notin> Proc ` set ps" "a \<noteq> Proc p" "e \<notin> Proc ` set ps" "e \<noteq> Proc p"
  shows "ring (f(Proc p := e, b e := Proc p)) (b(Proc p := b e, e := Proc p)) a (ps @ [p]) e"
  using assms
proof (induction ps arbitrary: a)
  case (Cons x ps)
  have l: "b e = Proc (last (x # ps))" using ring_last [OF Cons.prems(1)] by simp
  then have "a \<noteq> b e" using Cons.prems(4) by (metis imageI last_in_set list.distinct(1))
  moreover have "x \<noteq> p" "e \<noteq> Proc x" using Cons.prems by auto
  moreover have "ring (f(Proc p := e, b e := Proc p)) (b(Proc p := b e, e := Proc p)) (Proc x) (ps @ [p]) e"
    using Cons.prems by (intro Cons.IH) auto
  moreover have "f a = Proc x" "b (Proc x) = a" "a \<noteq> Proc p" using Cons.prems by auto
  ultimately show ?case unfolding append_Cons ring.simps by (intro conjI; (assumption | simp))
qed auto

lemma ring_remque_first:
  assumes "f a = Proc p" "b (Proc p) = a" "ring f b (Proc p) ys e" "distinct ys" "a \<notin> Proc ` set ys" "e \<notin> Proc ` set ys"
  shows "ring (f(a := f (Proc p))) (b(f (Proc p) := a)) a ys e"
proof (cases ys)
  case (Cons y r)
  then have "ring f b (Proc y) r e = ring (f(a := Proc y)) (b(Proc y := a)) (Proc y) r e"
    using assms by (intro ring_cong) (auto simp: image_iff)
  then show ?thesis using assms Cons by auto
qed (use assms in simp)

lemma ring_remque:
  assumes "ring f b a (xs @ p # ys) e" "distinct (xs @ p # ys)" "a \<notin> Proc ` set (xs @ p # ys)" "e \<notin> Proc ` set (xs @ p # ys)"
  shows "ring (f(b (Proc p) := f (Proc p))) (b(f (Proc p) := b (Proc p))) a (xs @ ys) e"
  using assms
proof (induction xs arbitrary: a)
  case Nil
  then have "b (Proc p) = a" by simp
  moreover have "ring (f(a := f (Proc p))) (b(f (Proc p) := a)) a ys e"
    using Nil by (intro ring_remque_first) auto
  ultimately show ?case by (simp only: append_Nil)
next
  case (Cons x xs)
  have n: "f (Proc p) \<in> insert e (Proc ` set ys)" "b (Proc p) \<in> Proc ` set (x # xs)"
  proof -
    have "ring f b a (x # xs) (Proc p)" "ring f b (Proc p) ys e" using Cons.prems(1) ring_append [of f b a "x # xs" p ys e] by simp_all
    from ring_first [OF this(2)] ring_last [OF this(1)] show "f (Proc p) \<in> insert e (Proc ` set ys)" "b (Proc p) \<in> Proc ` set (x # xs)"
      by (auto split: if_splits)
  qed
  then have "a \<noteq> b (Proc p)" "Proc x \<noteq> f (Proc p)" using Cons.prems by auto
  moreover have "ring (f(b (Proc p) := f (Proc p))) (b(f (Proc p) := b (Proc p))) (Proc x) (xs @ ys) e"
    using Cons.prems by (intro Cons.IH) auto
  moreover have "f a = Proc x" "b (Proc x) = a" using Cons.prems(1) by simp_all
  ultimately show ?case unfolding append_Cons ring.simps by (intro conjI; (assumption | simp))
qed

section \<open>What the pointer operations write\<close>

lemma fwd_set_fwd: "a \<noteq> NULLP \<Longrightarrow> fwd (set_fwd a r s) = (fwd s)(a := r)"
proof
  fix x assume "a \<noteq> NULLP" then show "fwd (set_fwd a r s) x = ((fwd s)(a := r)) x" by (cases a; cases x) (auto simp: upd_def)
qed

lemma bwd_set_fwd [simp]: "bwd (set_fwd a r s) = bwd s"
proof
  fix x show "bwd (set_fwd a r s) x = bwd s x" by (cases a; cases x) (auto simp: upd_def)
qed

lemma bwd_set_bwd: "a \<noteq> NULLP \<Longrightarrow> bwd (set_bwd a r s) = (bwd s)(a := r)"
proof
  fix x assume "a \<noteq> NULLP" then show "bwd (set_bwd a r s) x = ((bwd s)(a := r)) x" by (cases a; cases x) (auto simp: upd_def)
qed

lemma fwd_set_bwd [simp]: "fwd (set_bwd a r s) = fwd s"
proof
  fix x show "fwd (set_bwd a r s) x = fwd s x" by (cases a; cases x) (auto simp: upd_def)
qed

text \<open>All of a process but its links, and all of the state but the queues.\<close>

definition core :: "sched \<Rightarrow> nat \<Rightarrow> proc" where
  "core s p = (procs s p)\<lparr>p_link := NULLP, p_rlink := NULLP\<rparr>"

definition globals :: "sched \<Rightarrow> sched" where
  "globals s = s\<lparr>procs := (\<lambda>_. undefined), sq_head := (\<lambda>_. NULLP), sq_tailp := (\<lambda>_. Head 0), ph_link := (\<lambda>_. NULLP),
     ph_rlink := (\<lambda>_. NULLP), whichqs := 0\<rparr>"


lemmas fwd_bwd_simps = fwd_set_fwd bwd_set_bwd

lemma fwd_upd: "(\<And>x. p_link (f x) = p_link x) \<Longrightarrow> fwd (upd p f s) = fwd s"
proof
  fix x assume "\<And>x. p_link (f x) = p_link x" then show "fwd (upd p f s) x = fwd s x" by (cases x) (auto simp: upd_def)
qed

lemma bwd_upd: "(\<And>x. p_rlink (f x) = p_rlink x) \<Longrightarrow> bwd (upd p f s) = bwd s"
proof
  fix x assume "\<And>x. p_rlink (f x) = p_rlink x" then show "bwd (upd p f s) x = bwd s x" by (cases x) (auto simp: upd_def)
qed

lemma core_set [simp]: "core (set_fwd a r s) = core s" "core (set_bwd a r s) = core s"
  by (cases a; auto simp: core_def upd_def)+

lemma globals_set [simp]: "globals (set_fwd a r s) = globals s" "globals (set_bwd a r s) = globals s"
  by (cases a; simp add: globals_def upd_def)+

lemma sq_set [simp]: "sq_head (set_fwd a r s) = sq_head s" "sq_head (set_bwd a r s) = sq_head s"
  "sq_tailp (set_fwd a r s) = sq_tailp s" "sq_tailp (set_bwd a r s) = sq_tailp s"
  "whichqs (set_fwd a r s) = whichqs s" "whichqs (set_bwd a r s) = whichqs s"
  by (cases a; auto simp: upd_def)+

lemma coreD:
  assumes "core s' p = core s p"
  shows "p_wchan (procs s' p) = p_wchan (procs s p)" "p_pri (procs s' p) = p_pri (procs s p)" "p_stat (procs s' p) = p_stat (procs s p)"
    "p_SLOAD (procs s' p) = p_SLOAD (procs s p)" "p_usrpri (procs s' p) = p_usrpri (procs s p)" "p_cpu (procs s' p) = p_cpu (procs s p)"
    "p_nice (procs s' p) = p_nice (procs s p)" "p_slptime (procs s' p) = p_slptime (procs s p)" "p_sig (procs s' p) = p_sig (procs s p)"
  using arg_cong [OF assms, of p_wchan] arg_cong [OF assms, of p_pri] arg_cong [OF assms, of p_stat] arg_cong [OF assms, of p_SLOAD] arg_cong [OF assms, of p_usrpri] arg_cong [OF assms, of p_cpu] arg_cong [OF assms, of p_nice] arg_cong [OF assms, of p_slptime] arg_cong [OF assms, of p_sig]
  by (simp_all add: core_def)

lemma globalsD:
  assumes "globals s' = globals s"
  shows "u_procp s' = u_procp s" "noproc s' = noproc s" "runout s' = runout s" "chans s' = chans s" "curpri s' = curpri s"
    "avenrun s' = avenrun s" "wantin s' = wantin s"
  using arg_cong [OF assms, of u_procp] arg_cong [OF assms, of noproc] arg_cong [OF assms, of runout] arg_cong [OF assms, of chans] arg_cong [OF assms, of curpri] arg_cong [OF assms, of avenrun] arg_cong [OF assms, of wantin]
  by (simp_all add: globals_def)

section \<open>The queues of a state\<close>

definition sleepq :: "sched \<Rightarrow> nat \<Rightarrow> nat list \<Rightarrow> bool" where
  "sleepq s i ps = (linked (fwd s) (sq_head s i) ps \<and> (ps \<noteq> [] \<longrightarrow> sq_tailp s i = Link (last ps)) \<and> distinct ps \<and>
     (\<forall>p. p \<in> set ps \<longleftrightarrow> p_wchan (procs s p) \<noteq> 0 \<and> sqhash (p_wchan (procs s p)) = i))"

definition runq :: "sched \<Rightarrow> nat \<Rightarrow> nat list \<Rightarrow> bool" where
  "runq s i ps = (ring (fwd s) (bwd s) (Qs i) ps (Qs i) \<and> distinct ps \<and> (bit (whichqs s) i \<longleftrightarrow> ps \<noteq> []) \<and>
     (\<forall>p. p \<in> set ps \<longleftrightarrow> p_rlink (procs s p) \<noteq> NULLP \<and> prq (p_pri (procs s p)) = i))"

definition queues :: "sched \<Rightarrow> (nat \<Rightarrow> nat list) \<Rightarrow> (nat \<Rightarrow> nat list) \<Rightarrow> bool" where
  "queues s sl rq = ((\<forall>i < SQSIZE. sleepq s i (sl i)) \<and> (\<forall>i < NQS. runq s i (rq i)) \<and>
     (\<forall>p. p_rlink (procs s p) \<noteq> NULLP \<longrightarrow> p_wchan (procs s p) = 0 \<and> prq (p_pri (procs s p)) < NQS))"

lemma sqhash_less [simp]: "sqhash c < 64"
  by (simp add: sqhash_def)

text \<open>An operation that changes the links of no process on the queue leaves it alone.\<close>

lemma sleepq_cong:
  assumes "sleepq s i ps" "\<And>p. p \<in> set ps \<Longrightarrow> fwd s' (Proc p) = fwd s (Proc p)" "sq_head s' i = sq_head s i" "sq_tailp s' i = sq_tailp s i"
    "\<And>p. p_wchan (procs s' p) \<noteq> 0 \<and> sqhash (p_wchan (procs s' p)) = i \<longleftrightarrow> p_wchan (procs s p) \<noteq> 0 \<and> sqhash (p_wchan (procs s p)) = i"
  shows "sleepq s' i ps"
  using assms linked_cong [of ps "fwd s'" "fwd s"] by (simp add: sleepq_def)

lemma runq_cong:
  assumes "runq s i ps" "\<And>p. p \<in> set ps \<Longrightarrow> fwd s' (Proc p) = fwd s (Proc p) \<and> bwd s' (Proc p) = bwd s (Proc p)"
    "fwd s' (Qs i) = fwd s (Qs i)" "bwd s' (Qs i) = bwd s (Qs i)" "bit (whichqs s') i = bit (whichqs s) i"
    "\<And>p. p_rlink (procs s' p) \<noteq> NULLP \<and> prq (p_pri (procs s' p)) = i \<longleftrightarrow> p_rlink (procs s p) \<noteq> NULLP \<and> prq (p_pri (procs s p)) = i"
  shows "runq s' i ps"
  using assms ring_cong [of "fwd s'" "Qs i" "fwd s" "bwd s'" "Qs i" "bwd s" ps] by (simp add: runq_def)

lemma prq_less: "0 \<le> pri \<Longrightarrow> pri < 128 \<Longrightarrow> prq pri < 32"
  by (simp add: prq_def)

section \<open>Run queues\<close>

lemma ring_fwd_last: "ring f b a ps e \<Longrightarrow> f (b e) = e"
  by (induction ps arbitrary: a) auto

lemma insque_fwd: "e \<noteq> NULLP \<Longrightarrow> a \<noteq> NULLP \<Longrightarrow> fwd (insque e a s) = (fwd s)(e := fwd s a, a := e)"
  by (simp add: insque_def Let_def fwd_set_fwd)

lemma insque_bwd: "e \<noteq> NULLP \<Longrightarrow> fwd s a \<noteq> NULLP \<Longrightarrow> bwd (insque e a s) = (bwd s)(e := a, fwd s a := e)"
  by (simp add: insque_def Let_def bwd_set_bwd)

lemma remque_fwd: "bwd s e \<noteq> NULLP \<Longrightarrow> fwd (remque e s) = (fwd s)(bwd s e := fwd s e)"
  by (simp add: remque_def fwd_set_fwd)

lemma remque_bwd: "fwd s e \<noteq> NULLP \<Longrightarrow> bwd (remque e s) = (bwd s)(fwd s e := bwd s e)"
  by (simp add: remque_def bwd_set_bwd)

lemma que_frame [simp]: "core (insque e a s) = core s" "globals (insque e a s) = globals s" "sq_head (insque e a s) = sq_head s"
  "sq_tailp (insque e a s) = sq_tailp s" "whichqs (insque e a s) = whichqs s"
  "core (remque e s) = core s" "globals (remque e s) = globals s" "sq_head (remque e s) = sq_head s"
  "sq_tailp (remque e s) = sq_tailp s" "whichqs (remque e s) = whichqs s"
  by (simp_all add: insque_def remque_def Let_def)

lemma core_whichqs [simp]: "core (s\<lparr>whichqs := w\<rparr>) = core s" "globals (s\<lparr>whichqs := w\<rparr>) = globals s"
  "fwd (s\<lparr>whichqs := w\<rparr>) = fwd s" "bwd (s\<lparr>whichqs := w\<rparr>) = bwd s"
proof -
  show "fwd (s\<lparr>whichqs := w\<rparr>) = fwd s" proof fix x show "fwd (s\<lparr>whichqs := w\<rparr>) x = fwd s x" by (cases x) auto qed
  show "bwd (s\<lparr>whichqs := w\<rparr>) = bwd s" proof fix x show "bwd (s\<lparr>whichqs := w\<rparr>) x = bwd s x" by (cases x) auto qed
qed (auto simp: core_def globals_def)

lemma rlink_bwd: "p_rlink (procs s p) = bwd s (Proc p)"
  by simp

lemma queuesD:
  assumes "queues s sl rq"
  shows "i < 64 \<Longrightarrow> sleepq s i (sl i)" "i < 32 \<Longrightarrow> runq s i (rq i)"
    "p_rlink (procs s p) \<noteq> NULLP \<Longrightarrow> p_wchan (procs s p) = 0 \<and> prq (p_pri (procs s p)) < 32"
  using assms by (auto simp: queues_def)

lemma queues_mem:
  assumes "queues s sl rq"
  shows "i < 64 \<Longrightarrow> p \<in> set (sl i) \<longleftrightarrow> p_wchan (procs s p) \<noteq> 0 \<and> sqhash (p_wchan (procs s p)) = i"
    "i < 32 \<Longrightarrow> p \<in> set (rq i) \<longleftrightarrow> p_rlink (procs s p) \<noteq> NULLP \<and> prq (p_pri (procs s p)) = i"
  using queuesD [OF assms] unfolding sleepq_def runq_def by blast+

lemma setrq_queues:
  assumes q: "queues s sl rq" and p: "p_rlink (procs s p) = NULLP" "p_wchan (procs s p) = 0" "prq (p_pri (procs s p)) = i" "i < 32"
  obtains s' where "setrq p s = Inr s'" "queues s' sl (rq(i := rq i @ [p]))" "core s' = core s" "globals s' = globals s"
proof -
  define l where "l = bwd s (Qs i)"
  define s' where "s' = (insque (Proc p) l s)\<lparr>whichqs := set_bit i (whichqs s)\<rparr>"
  have r: "ring (fwd s) (bwd s) (Qs i) (rq i) (Qs i)" "distinct (rq i)" using queuesD(2) [OF q p(4)] by (simp_all add: runq_def)
  have np: "p \<notin> set (rq j)" if "j < 32" for j using queues_mem(2) [OF q that] p(1) by simp
  have l: "l = (if rq i = [] then Qs i else Proc (last (rq i)))" "fwd s l = Qs i"
    using ring_last [OF r(1)] ring_fwd_last [OF r(1)] by (simp_all add: l_def)
  then have ln: "l \<noteq> NULLP" by simp
  have f: "fwd s' = (fwd s)(Proc p := Qs i, l := Proc p)" "bwd s' = (bwd s)(Proc p := l, Qs i := Proc p)"
    using ln l(2) by (simp_all add: s'_def insque_fwd insque_bwd)
  have lq: "p_rlink (procs s x) \<noteq> NULLP \<and> prq (p_pri (procs s x)) = i" if "l = Proc x" for x
    using that l(1) queues_mem(2) [OF q p(4), of x] last_in_set [of "rq i"] by (auto split: if_splits)
  have c: "core s' = core s" "globals s' = globals s" by (simp_all add: s'_def)
  have hd: "sq_head s' = sq_head s" "sq_tailp s' = sq_tailp s" by (simp_all add: s'_def)
  have same: "p_wchan (procs s' x) = p_wchan (procs s x)" "p_pri (procs s' x) = p_pri (procs s x)" for x
    using coreD [of s' x s] c by simp_all
  have rl: "p_rlink (procs s' x) = (if x = p then l else p_rlink (procs s x))" for x
    using fun_cong [OF f(2), of "Proc x"] by simp
  have "sleepq s' j (sl j)" if "j < 64" for j
    using queuesD(1) [OF q that]
  proof (rule sleepq_cong)
    fix x assume "x \<in> set (sl j)"
    then have w: "p_wchan (procs s x) \<noteq> 0" using queues_mem(1) [OF q that] by simp
    then have "Proc x \<noteq> l" using lq [of x] queuesD(3) [OF q, of x] by auto
    then show "fwd s' (Proc x) = fwd s (Proc x)" using w p(2) by (auto simp: f(1))
  qed (simp_all add: hd same)
  moreover have "runq s' j ((rq(i := rq i @ [p])) j)" if "j < 32" for j
  proof (cases "j = i")
    case True
    have "ring (fwd s') (bwd s') (Qs i) (rq i @ [p]) (Qs i)"
      unfolding f l_def using r np [OF p(4)] by (intro ring_insque) auto
    moreover have "x \<in> set (rq i @ [p]) \<longleftrightarrow> p_rlink (procs s' x) \<noteq> NULLP \<and> prq (p_pri (procs s' x)) = i" for x
      using queues_mem(2) [OF q p(4), of x] rl [of x] ln p(3) by (simp add: same)
    moreover have "bit (whichqs s') i" using p(4) by (simp add: s'_def bit_set_bit_iff)
    ultimately show ?thesis using r(2) np [OF p(4)] True unfolding runq_def by simp
  next
    case False
    have "runq s' j (rq j)"
      using queuesD(2) [OF q that]
    proof (rule runq_cong)
      fix x assume x: "x \<in> set (rq j)"
      then have "Proc x \<noteq> l" "x \<noteq> p" using lq [of x] queues_mem(2) [OF q that, of x] False np [OF that] by auto
      then show "fwd s' (Proc x) = fwd s (Proc x) \<and> bwd s' (Proc x) = bwd s (Proc x)" unfolding f by simp
    next
      have "l \<noteq> Qs j" using l(1) False by simp
      then show "fwd s' (Qs j) = fwd s (Qs j)" "bwd s' (Qs j) = bwd s (Qs j)" unfolding f using False by simp_all
      show "bit (whichqs s') j = bit (whichqs s) j" using False by (simp add: s'_def bit_set_bit_iff)
    next
      fix x show "p_rlink (procs s' x) \<noteq> NULLP \<and> prq (p_pri (procs s' x)) = j \<longleftrightarrow> p_rlink (procs s x) \<noteq> NULLP \<and> prq (p_pri (procs s x)) = j"
        using rl [of x] p(3) False by (simp add: same)
    qed
    then show ?thesis using False by simp
  qed
  moreover have "\<forall>x. p_rlink (procs s' x) \<noteq> NULLP \<longrightarrow> p_wchan (procs s' x) = 0 \<and> prq (p_pri (procs s' x)) < 32"
    using queuesD(3) [OF q] p rl by (simp add: same)
  ultimately have "queues s' sl (rq(i := rq i @ [p]))" by (simp add: queues_def)
  moreover have "setrq p s = Inr s'" using p(1,3) by (simp add: setrq_def Let_def s'_def l_def)
  ultimately show ?thesis using that c by blast
qed

lemma queues_unring:
  assumes q: "queues s sl rq" and i: "i < 32" and rq: "rq i = xs @ p # ys"
    and f: "fwd s' = (fwd s)(bwd s (Proc p) := fwd s (Proc p))"
    and b: "bwd s' = (bwd s)(fwd s (Proc p) := bwd s (Proc p), Proc p := NULLP)"
    and w: "\<And>j. j < 32 \<Longrightarrow> bit (whichqs s') j = (if j = i \<and> fwd s (Proc p) = bwd s (Proc p) then False else bit (whichqs s) j)"
    and c: "core s' = core s" "sq_head s' = sq_head s" "sq_tailp s' = sq_tailp s"
  shows "queues s' sl (rq(i := xs @ ys))"
proof -
  have r: "ring (fwd s) (bwd s) (Qs i) (xs @ p # ys) (Qs i)" "distinct (xs @ p # ys)" "bit (whichqs s) i"
    using queuesD(2) [OF q i] rq by (simp_all add: runq_def)
  have bp: "bwd s (Proc p) = (if xs = [] then Qs i else Proc (last xs))" and fp: "fwd s (Proc p) = (if ys = [] then Qs i else Proc (hd ys))"
    using r(1) ring_append [of "fwd s" "bwd s" "Qs i" xs p ys "Qs i"] ring_last [of "fwd s" "bwd s" "Qs i" xs "Proc p"]
      ring_first [of "fwd s" "bwd s" "Proc p" ys "Qs i"] by simp_all
  have z: "fwd s (Proc p) = bwd s (Proc p) \<longleftrightarrow> xs @ ys = []"
  proof -
    have "Proc (hd ys) \<noteq> Proc (last xs)" if "xs \<noteq> []" "ys \<noteq> []"
    proof -
      have "set xs \<inter> set ys = {}" using r(2) by simp
      then show ?thesis using last_in_set [OF that(1)] hd_in_set [OF that(2)] by (metis disjoint_iff plink.inject(1))
    qed
    then show ?thesis unfolding bp fp by auto
  qed
  have on: "prq (p_pri (procs s x)) = i \<and> p_rlink (procs s x) \<noteq> NULLP \<and> x \<noteq> p" if "bwd s (Proc p) = Proc x \<or> fwd s (Proc p) = Proc x" for x
  proof -
    have "x \<in> set (xs @ ys)" using that by (auto simp: bp fp simp del: bwd.simps fwd.simps split: if_splits)
    then show ?thesis using r(2) queues_mem(2) [OF q i, of x] rq by auto
  qed
  have pm: "prq (p_pri (procs s p)) = i" "p_rlink (procs s p) \<noteq> NULLP" using queues_mem(2) [OF q i, of p] rq by simp_all
  have same: "p_wchan (procs s' x) = p_wchan (procs s x)" "p_pri (procs s' x) = p_pri (procs s x)" for x
    using coreD [of s' x s] c by simp_all
  have rl: "p_rlink (procs s' x) \<noteq> NULLP \<longleftrightarrow> x \<noteq> p \<and> p_rlink (procs s x) \<noteq> NULLP" for x
    using fun_cong [OF b, of "Proc x"] on [of x] bp by auto
  have "sleepq s' j (sl j)" if "j < 64" for j
    using queuesD(1) [OF q that]
  proof (rule sleepq_cong)
    fix x assume "x \<in> set (sl j)"
    then have "p_wchan (procs s x) \<noteq> 0" using queues_mem(1) [OF q that] by simp
    then have "Proc x \<noteq> bwd s (Proc p)" using on [of x] queuesD(3) [OF q, of x] by auto
    then show "fwd s' (Proc x) = fwd s (Proc x)" by (simp add: f)
  qed (simp_all add: c same)
  moreover have "runq s' j ((rq(i := xs @ ys)) j)" if "j < 32" for j
  proof (cases "j = i")
    case True
    have "ring ((fwd s)(bwd s (Proc p) := fwd s (Proc p))) ((bwd s)(fwd s (Proc p) := bwd s (Proc p))) (Qs i) (xs @ ys) (Qs i)"
      using r by (intro ring_remque) auto
    moreover have "ring ((fwd s)(bwd s (Proc p) := fwd s (Proc p))) ((bwd s)(fwd s (Proc p) := bwd s (Proc p))) (Qs i) (xs @ ys) (Qs i) =
        ring (fwd s') (bwd s') (Qs i) (xs @ ys) (Qs i)"
      using r(2) unfolding f b by (intro ring_cong) auto
    ultimately have "ring (fwd s') (bwd s') (Qs i) (xs @ ys) (Qs i)" by blast
    moreover have "bit (whichqs s') i \<longleftrightarrow> xs @ ys \<noteq> []" using w [OF i] z r(3) by simp
    moreover have "x \<in> set (xs @ ys) \<longleftrightarrow> p_rlink (procs s' x) \<noteq> NULLP \<and> prq (p_pri (procs s' x)) = i" for x
      using queues_mem(2) [OF q i, of x] rl [of x] r(2) rq by (auto simp: same)
    ultimately show ?thesis using r(2) True unfolding runq_def by simp
  next
    case False
    have "runq s' j (rq j)"
      using queuesD(2) [OF q that]
    proof (rule runq_cong)
      fix x assume x: "x \<in> set (rq j)"
      then have "Proc x \<noteq> bwd s (Proc p)" "Proc x \<noteq> fwd s (Proc p)" "x \<noteq> p"
        using on [of x] queues_mem(2) [OF q that, of x] False pm by auto
      then show "fwd s' (Proc x) = fwd s (Proc x) \<and> bwd s' (Proc x) = bwd s (Proc x)" by (simp add: f b)
    next
      have "Qs j \<noteq> bwd s (Proc p)" "Qs j \<noteq> fwd s (Proc p)" using bp fp False by auto
      then show "fwd s' (Qs j) = fwd s (Qs j)" "bwd s' (Qs j) = bwd s (Qs j)" by (simp_all add: f b)
      show "bit (whichqs s') j = bit (whichqs s) j" using w [OF that] False by simp
    next
      fix x show "p_rlink (procs s' x) \<noteq> NULLP \<and> prq (p_pri (procs s' x)) = j \<longleftrightarrow> p_rlink (procs s x) \<noteq> NULLP \<and> prq (p_pri (procs s x)) = j"
        using rl [of x] pm(1) False by (auto simp: same)
    qed
    then show ?thesis using False by simp
  qed
  moreover have "\<forall>x. p_rlink (procs s' x) \<noteq> NULLP \<longrightarrow> p_wchan (procs s' x) = 0 \<and> prq (p_pri (procs s' x)) < 32"
    using queuesD(3) [OF q] rl by (simp add: same)
  ultimately show ?thesis by (simp add: queues_def)
qed

section \<open>Sleep queues\<close>

lemma linked_take: "linked f r (pre @ p # suf) \<Longrightarrow> distinct (pre @ p # suf) \<Longrightarrow> pre \<noteq> [] \<Longrightarrow>
    linked (f(Proc (last pre) := f (Proc p))) r (pre @ suf)"
proof (induction pre arbitrary: r)
  case (Cons x pre)
  show ?case
  proof (cases pre)
    case Nil
    have "linked (f(Proc x := f (Proc p))) (f (Proc p)) suf = linked f (f (Proc p)) suf"
      using Cons.prems(2) by (intro linked_cong) auto
    moreover have "linked f (f (Proc p)) suf" "r = Proc x" using Cons.prems(1) Nil by simp_all
    ultimately have "linked (f(Proc x := f (Proc p))) r (x # suf)" unfolding linked.simps fun_upd_same by blast
    then show ?thesis unfolding Nil append_Cons append_Nil last.simps if_P [OF refl] .
  next
    case (Cons y zs)
    then have "x \<noteq> last pre" using Cons.prems(2) by auto
    moreover have "linked (f(Proc (last pre) := f (Proc p))) (f (Proc x)) (pre @ suf)"
      using Cons.prems Cons by (intro Cons.IH) auto
    moreover have "r = Proc x" "last (x # pre) = last pre" using Cons.prems(1) Cons by simp_all
    moreover from calculation have "(f(Proc (last pre) := f (Proc p))) (Proc x) = f (Proc x)" by simp
    ultimately show ?thesis unfolding append_Cons linked.simps by metis
  qed
qed simp

lemma linked_add: "linked f r ps \<Longrightarrow> distinct ps \<Longrightarrow> p \<notin> set ps \<Longrightarrow> ps \<noteq> [] \<Longrightarrow>
    linked (f(Proc (last ps) := Proc p, Proc p := NULLP)) r (ps @ [p])"
proof (induction ps arbitrary: r)
  case (Cons x ps)
  show ?case
  proof (cases ps)
    case (Cons y zs)
    then have "x \<noteq> last ps" "x \<noteq> p" using Cons.prems(2,3) by auto
    moreover have "linked (f(Proc (last ps) := Proc p, Proc p := NULLP)) (f (Proc x)) (ps @ [p])"
      using Cons.prems Cons by (intro Cons.IH) auto
    moreover have "r = Proc x" "last (x # ps) = last ps" using Cons.prems(1) Cons by simp_all
    moreover from calculation have "(f(Proc (last ps) := Proc p, Proc p := NULLP)) (Proc x) = f (Proc x)" by simp
    ultimately show ?thesis unfolding append_Cons linked.simps by metis
  qed (use Cons.prems in auto)
qed simp

text \<open>The pointer that points behind the processes \<open>pre\<close> of a queue.\<close>

definition slot :: "nat \<Rightarrow> nat list \<Rightarrow> pslot" where
  "slot h pre = (if pre = [] then Head h else Link (last pre))"

lemma linked_rd: "linked f r (pre @ suf) \<Longrightarrow> (if pre = [] then r else f (Proc (last pre))) = (case suf of [] \<Rightarrow> NULLP | p # _ \<Rightarrow> Proc p)"
  by (induction pre arbitrary: r) (auto split: list.splits)

lemma rd_slot:
  assumes "queues s sl rq" "h < 64" "sl h = pre @ suf"
  shows "rd s (slot h pre) = (case suf of [] \<Rightarrow> NULLP | p # _ \<Rightarrow> Proc p)"
  using linked_rd [of "fwd s" "sq_head s h" pre suf] queuesD(1) [OF assms(1,2)] assms(3) by (auto simp: slot_def sleepq_def)

lemma fwd_wr: "fwd (wr q r s) = (case q of Head i \<Rightarrow> fwd s | Link p \<Rightarrow> (fwd s)(Proc p := r))"
proof
  fix x show "fwd (wr q r s) x = (case q of Head i \<Rightarrow> fwd s | Link p \<Rightarrow> (fwd s)(Proc p := r)) x"
    by (cases q; cases x) (auto simp: upd_def)
qed

lemma bwd_wr [simp]: "bwd (wr q r s) = bwd s"
proof
  fix x show "bwd (wr q r s) x = bwd s x" by (cases q; cases x) (auto simp: upd_def)
qed

lemma wr_frame [simp]: "core (wr q r s) = core s" "globals (wr q r s) = globals s" "sq_tailp (wr q r s) = sq_tailp s"
  "whichqs (wr q r s) = whichqs s"
  by (cases q; simp add: core_def globals_def upd_def fun_eq_iff)+

lemma sq_head_wr: "sq_head (wr q r s) = (case q of Head i \<Rightarrow> (sq_head s)(i := r) | Link p \<Rightarrow> sq_head s)"
  by (cases q) (auto simp: upd_def)

lemma tailp_frame [simp]: "core (s\<lparr>sq_tailp := t\<rparr>) = core s" "globals (s\<lparr>sq_tailp := t\<rparr>) = globals s"
  "fwd (s\<lparr>sq_tailp := t\<rparr>) = fwd s" "bwd (s\<lparr>sq_tailp := t\<rparr>) = bwd s"
proof -
  show "fwd (s\<lparr>sq_tailp := t\<rparr>) = fwd s" proof fix x show "fwd (s\<lparr>sq_tailp := t\<rparr>) x = fwd s x" by (cases x) auto qed
  show "bwd (s\<lparr>sq_tailp := t\<rparr>) = bwd s" proof fix x show "bwd (s\<lparr>sq_tailp := t\<rparr>) x = bwd s x" by (cases x) auto qed
qed (auto simp: core_def globals_def)

lemma sq_unlink_frame [simp]: "core (sq_unlink h q p s) = core s" "globals (sq_unlink h q p s) = globals s" "bwd (sq_unlink h q p s) = bwd s"
  "whichqs (sq_unlink h q p s) = whichqs s"
  by (simp_all add: sq_unlink_def Let_def)

lemma sq_unlink_fields:
  "fwd (sq_unlink h q p s) = (case q of Head i \<Rightarrow> fwd s | Link x \<Rightarrow> (fwd s)(Proc x := p_link (procs s p)))"
  "sq_head (sq_unlink h q p s) = (case q of Head i \<Rightarrow> (sq_head s)(i := p_link (procs s p)) | Link x \<Rightarrow> sq_head s)"
  "sq_tailp (sq_unlink h q p s) = (if sq_tailp s h = Link p then (sq_tailp s)(h := q) else sq_tailp s)"
  by (simp_all add: sq_unlink_def Let_def fwd_wr sq_head_wr)

lemma unlink_queues:
  assumes q: "queues s sl rq" and h: "h < 64" and l: "sl h = pre @ p # suf"
    and f: "fwd s' = fwd (sq_unlink h (slot h pre) p s)" "sq_head s' = sq_head (sq_unlink h (slot h pre) p s)"
      "sq_tailp s' = sq_tailp (sq_unlink h (slot h pre) p s)" "bwd s' = bwd s" "whichqs s' = whichqs s"
    and c: "\<And>x. p_wchan (procs s' x) = (if x = p then 0 else p_wchan (procs s x))" "\<And>x. p_pri (procs s' x) = p_pri (procs s x)"
  shows "queues s' (sl(h := pre @ suf)) rq"
proof -
  have sq: "linked (fwd s) (sq_head s h) (pre @ p # suf)" "sq_tailp s h = Link (last (pre @ p # suf))" "distinct (pre @ p # suf)"
    using queuesD(1) [OF q h] l by (auto simp: sleepq_def)
  have sleeping: "p_rlink (procs s x) = NULLP" if "x \<in> set (pre @ p # suf)" for x
    using queues_mem(1) [OF q h, of x] queuesD(3) [OF q, of x] that l by auto
  have fwd': "fwd s' (Proc x) = fwd s (Proc x)" if "x \<notin> set pre" for x
    using that by (auto simp: f sq_unlink_fields slot_def)
  have rl: "p_rlink (procs s' x) = p_rlink (procs s x)" for x using fun_cong [OF f(4), of "Proc x"] by simp
  have qs: "fwd s' (Qs i) = fwd s (Qs i)" for i by (simp add: f sq_unlink_fields slot_def)
  have pm: "p_wchan (procs s p) \<noteq> 0" "sqhash (p_wchan (procs s p)) = h" using queues_mem(1) [OF q h, of p] l by simp_all
  have "sleepq s' j ((sl(h := pre @ suf)) j)" if j: "j < 64" for j
  proof (cases "j = h")
    case True
    have "linked (fwd s') (sq_head s' h) (pre @ suf)"
      using sq(1) linked_take [OF sq(1,3)] by (cases "pre = []") (auto simp: f sq_unlink_fields slot_def)
    moreover have "pre @ suf \<noteq> [] \<longrightarrow> sq_tailp s' h = Link (last (pre @ suf))"
      using sq(2,3) by (cases suf rule: rev_cases) (auto simp: f(3) sq_unlink_fields slot_def)
    moreover have "x \<in> set (pre @ suf) \<longleftrightarrow> p_wchan (procs s' x) \<noteq> 0 \<and> sqhash (p_wchan (procs s' x)) = h" for x
      using queues_mem(1) [OF q h, of x] sq(3) l by (auto simp: c)
    ultimately show ?thesis using True sq(3) unfolding sleepq_def by simp
  next
    case False
    have "sleepq s' j (sl j)"
      using queuesD(1) [OF q j]
    proof (rule sleepq_cong)
      fix x assume x: "x \<in> set (sl j)"
      have "x \<notin> set pre" using x queues_mem(1) [OF q j, of x] queues_mem(1) [OF q h, of x] l False by auto
      then show "fwd s' (Proc x) = fwd s (Proc x)" by (rule fwd')
    next
      fix x show "(p_wchan (procs s' x) \<noteq> 0 \<and> sqhash (p_wchan (procs s' x)) = j) = (p_wchan (procs s x) \<noteq> 0 \<and> sqhash (p_wchan (procs s x)) = j)"
        using pm False by (auto simp: c)
    qed (use False in \<open>simp_all add: f sq_unlink_fields slot_def\<close>)
    then show ?thesis using False by simp
  qed
  moreover have "runq s' j (rq j)" if j: "j < 32" for j
    using queuesD(2) [OF q j]
  proof (rule runq_cong)
    fix x assume x: "x \<in> set (rq j)"
    have "x \<notin> set pre" using x queues_mem(2) [OF q j, of x] sleeping [of x] by auto
    then show "fwd s' (Proc x) = fwd s (Proc x) \<and> bwd s' (Proc x) = bwd s (Proc x)" using fwd' f(4) by simp
  qed (simp_all only: f(4,5) qs c rl)
  moreover have "\<forall>x. p_rlink (procs s' x) \<noteq> NULLP \<longrightarrow> p_wchan (procs s' x) = 0 \<and> prq (p_pri (procs s' x)) < 32"
    using queuesD(3) [OF q] rl c by simp
  ultimately show ?thesis by (simp add: queues_def)
qed

lemma queues_cong:
  assumes "queues s sl rq" "fwd s' = fwd s" "bwd s' = bwd s" "sq_head s' = sq_head s" "sq_tailp s' = sq_tailp s" "whichqs s' = whichqs s"
    "\<And>x. p_wchan (procs s' x) = p_wchan (procs s x)" "\<And>x. p_rlink (procs s x) \<noteq> NULLP \<Longrightarrow> prq (p_pri (procs s' x)) = prq (p_pri (procs s x))"
  shows "queues s' sl rq"
proof -
  have rl: "p_rlink (procs s' x) = p_rlink (procs s x)" for x using fun_cong [OF assms(3), of "Proc x"] by simp
  have "sleepq s' j (sl j)" if "j < 64" for j
    by (rule sleepq_cong [OF queuesD(1) [OF assms(1) that]]) (simp_all only: assms)
  moreover have "runq s' j (rq j)" if "j < 32" for j
  proof (rule runq_cong [OF queuesD(2) [OF assms(1) that]])
    fix x show "p_rlink (procs s' x) \<noteq> NULLP \<and> prq (p_pri (procs s' x)) = j \<longleftrightarrow> p_rlink (procs s x) \<noteq> NULLP \<and> prq (p_pri (procs s x)) = j"
      using assms(8) [of x] by (auto simp: rl)
  qed (simp_all only: assms(2,3,6))
  ultimately show ?thesis using queuesD(3) [OF assms(1)] assms(8) by (simp add: queues_def assms(7) rl)
qed

lemma enq_queues:
  assumes q: "queues s sl rq" and p: "p = u_procp s" "p_rlink (procs s p) = NULLP" "p_wchan (procs s p) = 0" "p_stat (procs s p) = SRUN"
    and c: "c \<noteq> 0"
  obtains s' where "sleep_enq c pri s = Inr s'" "queues s' (sl(sqhash c := sl (sqhash c) @ [p])) rq"
    "\<And>x. core s' x = (if x = p then (core s p)\<lparr>p_wchan := c, p_slptime := 0, p_pri := pri\<rparr> else core s x)" "globals s' = globals s" "bwd s' = bwd s"
proof -
  define h where "h = sqhash c"
  have h: "h < 64" by (simp add: h_def)
  define s0 where "s0 = upd p (\<lambda>x. x\<lparr>p_wchan := c, p_slptime := 0, p_pri := pri\<rparr>) s"
  define s1 where "s1 = (if sq_head s h = NULLP then wr (Head h) (Proc p) s0 else wr (sq_tailp s h) (Proc p) s0)"
  define s' where "s' = wr (Link p) NULLP (s1\<lparr>sq_tailp := (sq_tailp s1)(h := Link p)\<rparr>)"
  have s0: "fwd s0 = fwd s" "bwd s0 = bwd s" "sq_head s0 = sq_head s" "sq_tailp s0 = sq_tailp s" "whichqs s0 = whichqs s"
    "globals s0 = globals s" unfolding s0_def by (simp_all add: fwd_upd bwd_upd) (simp_all add: upd_def globals_def)
  have core0: "core s0 x = (if x = p then (core s p)\<lparr>p_wchan := c, p_slptime := 0, p_pri := pri\<rparr> else core s x)" for x
    by (simp add: s0_def upd_def core_def)
  have sq: "linked (fwd s) (sq_head s h) (sl h)" "sl h \<noteq> [] \<longrightarrow> sq_tailp s h = Link (last (sl h))" "distinct (sl h)"
    using queuesD(1) [OF q h] by (auto simp: sleepq_def)
  have e: "sq_head s h = NULLP \<longleftrightarrow> sl h = []" using sq(1) by (cases "sl h") auto
  have np: "p \<notin> set (sl j)" if "j < 64" for j using queues_mem(1) [OF q that] p(3) by simp
  have f: "fwd s' = (if sl h = [] then (fwd s)(Proc p := NULLP) else (fwd s)(Proc (last (sl h)) := Proc p, Proc p := NULLP))"
    "sq_head s' = (if sl h = [] then (sq_head s)(h := Proc p) else sq_head s)" "sq_tailp s' = (sq_tailp s)(h := Link p)"
    "bwd s' = bwd s" "whichqs s' = whichqs s" "globals s' = globals s" "core s' = core s0"
    using e sq(2) by (simp_all add: s'_def s1_def fwd_wr sq_head_wr s0 del: wr.simps)
  have w: "p_wchan (procs s' x) = (if x = p then c else p_wchan (procs s x))" "p_pri (procs s' x) = (if x = p then pri else p_pri (procs s x))" for x
    using arg_cong [OF core0 [of x], of p_wchan] arg_cong [OF core0 [of x], of p_pri] coreD [of s' x s0] f(7) by (simp_all add: core_def)
  have rl: "p_rlink (procs s' x) = p_rlink (procs s x)" for x using fun_cong [OF f(4), of "Proc x"] by simp
  have asleep: "p_rlink (procs s x) = NULLP" if "x \<in> set (sl h)" for x
    using queues_mem(1) [OF q h, of x] queuesD(3) [OF q, of x] that by auto
  have fx: "fwd s' (Proc x) = fwd s (Proc x)" if "x \<noteq> p" "x \<notin> set (sl h)" for x using that by (auto simp: f(1))
  have "sleepq s' j ((sl(h := sl h @ [p])) j)" if j: "j < 64" for j
  proof (cases "j = h")
    case True
    have "linked (fwd s') (sq_head s' h) (sl h @ [p])"
      using sq(1) linked_add [OF sq(1,3) np [OF h]] by (cases "sl h = []") (auto simp: f)
    moreover have "x \<in> set (sl h @ [p]) \<longleftrightarrow> p_wchan (procs s' x) \<noteq> 0 \<and> sqhash (p_wchan (procs s' x)) = h" for x
      using queues_mem(1) [OF q h, of x] c by (auto simp: w h_def)
    ultimately show ?thesis using True sq(3) np [OF h] f(3) unfolding sleepq_def by simp
  next
    case False
    have "sleepq s' j (sl j)"
      using queuesD(1) [OF q j]
    proof (rule sleepq_cong)
      fix x assume x: "x \<in> set (sl j)"
      show "fwd s' (Proc x) = fwd s (Proc x)"
        using x queues_mem(1) [OF q j, of x] queues_mem(1) [OF q h, of x] False np [OF j] by (intro fx) auto
    next
      fix x show "(p_wchan (procs s' x) \<noteq> 0 \<and> sqhash (p_wchan (procs s' x)) = j) = (p_wchan (procs s x) \<noteq> 0 \<and> sqhash (p_wchan (procs s x)) = j)"
        using p(3) c False by (auto simp: w h_def)
    qed (use False in \<open>simp_all add: f\<close>)
    then show ?thesis using False by simp
  qed
  moreover have "runq s' j (rq j)" if j: "j < 32" for j
    using queuesD(2) [OF q j]
  proof (rule runq_cong)
    fix x assume x: "x \<in> set (rq j)"
    have "x \<noteq> p" "x \<notin> set (sl h)" using x queues_mem(2) [OF q j, of x] asleep [of x] p(2) by auto
    then show "fwd s' (Proc x) = fwd s (Proc x) \<and> bwd s' (Proc x) = bwd s (Proc x)" using fx f(4) by simp
  next
    fix x show "(p_rlink (procs s' x) \<noteq> NULLP \<and> prq (p_pri (procs s' x)) = j) = (p_rlink (procs s x) \<noteq> NULLP \<and> prq (p_pri (procs s x)) = j)"
      using p(2) by (simp add: rl w)
  qed (simp_all add: f)
  moreover have "\<forall>x. p_rlink (procs s' x) \<noteq> NULLP \<longrightarrow> p_wchan (procs s' x) = 0 \<and> prq (p_pri (procs s' x)) < 32"
    using queuesD(3) [OF q] rl w p(2) by simp
  ultimately have "queues s' (sl(h := sl h @ [p])) rq" by (simp add: queues_def)
  moreover have "sleep_enq c pri s = Inr s'" using p c unfolding sleep_enq_def Let_def by (simp add: s'_def s1_def s0_def h_def upd_def)
  ultimately show ?thesis using that [of s'] core0 f(4,6,7) unfolding h_def by simp
qed

lemma find_slot_ok:
  assumes "queues s sl rq" "h < 64" "sl h = pre @ mid @ p # suf"
  shows "find_slot p (slot h pre) s = Some (Inr (slot h (pre @ mid)))"
  using assms
proof (induction mid arbitrary: pre)
  case Nil
  then have "rd s (slot h pre) = Proc p" using rd_slot [of s sl rq h pre "p # suf"] by simp
  then show ?case by (simp add: find_slot.simps [of p "slot h pre"])
next
  case (Cons x mid)
  then have "rd s (slot h pre) = Proc x" using rd_slot [of s sl rq h pre "x # mid @ p # suf"] by simp
  moreover have "x \<noteq> p" using queuesD(1) [OF Cons.prems(1,2)] Cons.prems(3) by (auto simp: sleepq_def)
  moreover have "Link x = slot h (pre @ [x])" by (simp add: slot_def)
  ultimately show ?case using Cons.IH [of "pre @ [x]"] Cons.prems by (simp add: find_slot.simps [of p "slot h pre"])
qed

end
