(* ===== verification/Synch_wake.thy ===== *)
theory Synch_wake
  imports Synch_inv
begin

text \<open>
  The invariant of processes and queues, and what \<^verbatim>\<open>wakeup\<close>, \<^verbatim>\<open>setrun\<close> and \<^verbatim>\<open>unsleep\<close> do under it.
\<close>

section \<open>The invariant\<close>

text \<open>
  A process on a run queue is ready and in core; one that waits on a channel sleeps or is stopped; one that sleeps waits; one
  that is ready and in core is on a run queue unless it is the running one.
\<close>

text \<open>The numbers stay within the bytes that hold them.\<close>

definition ranges :: "proc \<Rightarrow> bool" where
  "ranges x = (0 \<le> p_pri x \<and> p_pri x < 128 \<and> -20 \<le> p_nice x \<and> p_nice x \<le> 20 \<and> 0 \<le> p_usrpri x \<and> p_usrpri x < 128 \<and>
     p_cpu x \<le> 255 \<and> p_slptime x \<le> 127 \<and> p_time x \<le> 127)"

definition proc_ok :: "sched \<Rightarrow> nat \<Rightarrow> bool" where
  "proc_ok s p = (let x = procs s p in
     (p_rlink x \<noteq> NULLP \<longrightarrow> p_stat x = SRUN \<and> p_SLOAD x) \<and>
     (p_wchan x \<noteq> 0 \<longrightarrow> p_stat x = SSLEEP \<or> p_stat x = SSTOP) \<and>
     (p_stat x = SSLEEP \<longrightarrow> p_wchan x \<noteq> 0) \<and>
     (p_stat x = SRUN \<and> p_SLOAD x \<longrightarrow> p_rlink x \<noteq> NULLP \<or> p = u_procp s \<and> \<not> noproc s) \<and>
     ranges x)"

definition cur_ok :: "sched \<Rightarrow> bool" where
  "cur_ok s = (noproc s \<or> p_rlink (procs s (u_procp s)) = NULLP \<and> p_stat (procs s (u_procp s)) \<noteq> SSLEEP)"

definition chans_ok :: "chans \<Rightarrow> bool" where
  "chans_ok c = (ch_runout c \<noteq> 0 \<and> ch_runin c \<noteq> 0 \<and> ch_lbolt c \<noteq> 0 \<and> (\<forall>i. ch_proc c i \<noteq> 0))"

definition sched_ok :: "sched \<Rightarrow> bool" where
  "sched_ok s = ((\<exists>sl rq. queues s sl rq) \<and> (\<forall>p. proc_ok s p) \<and> cur_ok s \<and> chans_ok (chans s))"

lemma sched_okD:
  assumes "sched_ok s"
  shows "proc_ok s p" "cur_ok s" "chans_ok (chans s)" "\<exists>sl rq. queues s sl rq"
  using assms by (auto simp: sched_ok_def)

section \<open>Changes of a process off the queues\<close>

lemma upd_frame [simp]: "sq_head (upd p f s) = sq_head s" "sq_tailp (upd p f s) = sq_tailp s" "whichqs (upd p f s) = whichqs s"
  "ph_link (upd p f s) = ph_link s" "ph_rlink (upd p f s) = ph_rlink s" "globals (upd p f s) = globals s"
  "u_procp (upd p f s) = u_procp s" "noproc (upd p f s) = noproc s" "runout (upd p f s) = runout s" "chans (upd p f s) = chans s"
  "avenrun (upd p f s) = avenrun s" "curpri (upd p f s) = curpri s"
  by (simp_all add: upd_def globals_def)

lemma procs_upd [simp]: "procs (upd p f s) q = (if q = p then f (procs s p) else procs s q)"
  by (simp add: upd_def)

lemma resched_frame [simp]: "sq_head (resched s) = sq_head s" "sq_tailp (resched s) = sq_tailp s" "whichqs (resched s) = whichqs s"
  "ph_link (resched s) = ph_link s" "ph_rlink (resched s) = ph_rlink s" "procs (resched s) = procs s"
  "u_procp (resched s) = u_procp s" "noproc (resched s) = noproc s" "runout (resched s) = runout s" "chans (resched s) = chans s"
  by (simp_all add: resched_def)

lemma resched_core [simp]: "core (resched s) = core s"
  by (simp add: core_def fun_eq_iff)

text \<open>States with the same queues.\<close>

lemma fwd_eqI: "procs s' = procs s \<Longrightarrow> ph_link s' = ph_link s \<Longrightarrow> fwd s' = fwd s"
proof
  fix x assume "procs s' = procs s" "ph_link s' = ph_link s" then show "fwd s' x = fwd s x" by (cases x) auto
qed

lemma bwd_eqI: "procs s' = procs s \<Longrightarrow> ph_rlink s' = ph_rlink s \<Longrightarrow> bwd s' = bwd s"
proof
  fix x assume "procs s' = procs s" "ph_rlink s' = ph_rlink s" then show "bwd s' x = bwd s x" by (cases x) auto
qed

text \<open>What a change of priority, status and time asleep leaves.\<close>

definition static :: "proc \<Rightarrow> proc" where
  "static x = x\<lparr>p_link := NULLP, p_rlink := NULLP, p_wchan := 0, p_stat := SFREE, p_slptime := 0, p_cpu := 0, p_usrpri := 0\<rparr>"

lemma staticD:
  assumes "static y = static x"
  shows "p_pri y = p_pri x" "p_SLOAD y = p_SLOAD x" "p_nice y = p_nice x" "p_sig y = p_sig x" "p_pptr y = p_pptr x" "p_STRC y = p_STRC x"
    "p_cursig y = p_cursig x" "p_SWTED y = p_SWTED x"
  using arg_cong [OF assms, of p_pri] arg_cong [OF assms, of p_SLOAD] arg_cong [OF assms, of p_nice] arg_cong [OF assms, of p_sig]
    arg_cong [OF assms, of p_pptr] arg_cong [OF assms, of p_STRC] arg_cong [OF assms, of p_cursig] arg_cong [OF assms, of p_SWTED]
  by (simp_all add: static_def)

lemma static_core: "core s' p = core s q \<Longrightarrow> static (procs s' p) = static (procs s q)"
proof -
  assume a: "core s' p = core s q"
  have "static x = static (x\<lparr>p_link := NULLP, p_rlink := NULLP\<rparr>)" for x by (simp add: static_def)
  then show ?thesis using a unfolding core_def by metis
qed

text \<open>\<open>setpri_proc\<close> and \<open>updatepri\<close> change the priority and the time asleep of one process.\<close>

lemma usrpri_bounds: "-20 \<le> p_nice x \<Longrightarrow> 0 \<le> usrpri_of s x \<and> usrpri_of s x < 128"
  by (simp add: usrpri_of_def min_def)

lemma setpri_frame [simp]: "sq_head (setpri_proc p s) = sq_head s" "sq_tailp (setpri_proc p s) = sq_tailp s" "whichqs (setpri_proc p s) = whichqs s"
  "ph_link (setpri_proc p s) = ph_link s" "ph_rlink (setpri_proc p s) = ph_rlink s" "u_procp (setpri_proc p s) = u_procp s"
  "noproc (setpri_proc p s) = noproc s" "runout (setpri_proc p s) = runout s" "chans (setpri_proc p s) = chans s"
  by (simp_all add: setpri_proc_def Let_def)

lemma procs_setpri [simp]: "procs (setpri_proc p s) q = (if q = p then (procs s p)\<lparr>p_usrpri := usrpri_of s (procs s p)\<rparr> else procs s q)"
  by (simp add: setpri_proc_def Let_def)

lemma updatepri_frame [simp]: "sq_head (updatepri p s) = sq_head s" "sq_tailp (updatepri p s) = sq_tailp s" "whichqs (updatepri p s) = whichqs s"
  "ph_link (updatepri p s) = ph_link s" "ph_rlink (updatepri p s) = ph_rlink s" "u_procp (updatepri p s) = u_procp s"
  "noproc (updatepri p s) = noproc s" "runout (updatepri p s) = runout s" "chans (updatepri p s) = chans s"
  by (simp_all add: updatepri_def split: prod.splits)

lemma procs_updatepri:
  "q \<noteq> p \<Longrightarrow> procs (updatepri p s) q = procs s q"
  "static (procs (updatepri p s) p) = static (procs s p)"
  "p_link (procs (updatepri p s) p) = p_link (procs s p)" "p_rlink (procs (updatepri p s) p) = p_rlink (procs s p)"
  "p_wchan (procs (updatepri p s) p) = p_wchan (procs s p)" "p_stat (procs (updatepri p s) p) = p_stat (procs s p)"
  "ranges (procs s p) \<Longrightarrow> ranges (procs (updatepri p s) p)"
proof -
  have t: "snd (decay_loop l a n) \<le> n" for l a n by (induction l a n rule: decay_loop.induct) auto
  show "ranges (procs s p) \<Longrightarrow> ranges (procs (updatepri p s) p)"
    using t [of "avenrun s" "p_cpu (procs s p)" "p_slptime (procs s p) - 1"]
    by (auto simp: updatepri_def ranges_def usrpri_bounds split: prod.splits)
qed (simp_all add: updatepri_def static_def split: prod.splits)

lemma fwd_updatepri [simp]: "fwd (updatepri p s) = fwd s"
proof
  fix x show "fwd (updatepri p s) x = fwd s x" by (cases x) (auto simp: procs_updatepri, metis procs_updatepri(1,3))
qed

lemma bwd_updatepri [simp]: "bwd (updatepri p s) = bwd s"
proof
  fix x show "bwd (updatepri p s) x = bwd s x" by (cases x) (auto simp: procs_updatepri, metis procs_updatepri(1,4))
qed

section \<open>Waking processes\<close>

definition awake :: "proc \<Rightarrow> proc \<Rightarrow> bool" where
  "awake x y = (static y = static x \<and> p_wchan y = 0 \<and> p_slptime y = 0 \<and> p_stat y = (if p_stat x = SSLEEP then SRUN else p_stat x))"

text \<open>The processes \<open>W\<close> are woken, nothing else happens.\<close>

definition wakes :: "nat set \<Rightarrow> sched \<Rightarrow> sched \<Rightarrow> bool" where
  "wakes W s s' = (sched_ok s' \<and> (\<forall>p \<in> W. awake (procs s p) (procs s' p)) \<and> (\<forall>p. p \<notin> W \<longrightarrow> core s' p = core s p) \<and>
     u_procp s' = u_procp s \<and> noproc s' = noproc s \<and> chans s' = chans s)"

lemma awake_core: "core s1 p = core s p \<Longrightarrow> awake (procs s p) y = awake (procs s1 p) y"
  using static_core [of s1 p s p] coreD [of s1 p s] by (simp add: awake_def)

lemma awake_core2: "core s2 p = core s1 p \<Longrightarrow> awake x (procs s2 p) = awake x (procs s1 p)"
  using static_core [of s2 p s1 p] coreD [of s2 p s1] by (simp add: awake_def)

lemma wakes_trans:
  assumes "wakes A s s1" "wakes B s1 s2" "A \<inter> B = {}"
  shows "wakes (A \<union> B) s s2"
proof -
  have "awake (procs s p) (procs s2 p)" if "p \<in> A" for p
    using assms that awake_core2 [of s2 p s1] by (auto simp: wakes_def)
  moreover have "awake (procs s p) (procs s2 p)" if "p \<in> B" for p
    using assms that awake_core [of s1 p s] by (auto simp: wakes_def)
  ultimately show ?thesis using assms by (auto simp: wakes_def)
qed

lemma on_runq: "queues s sl rq \<Longrightarrow> p_rlink (procs s p) \<noteq> NULLP \<longleftrightarrow> (\<exists>i < 32. p \<in> set (rq i))"
  using queuesD(3) [of s sl rq p] queues_mem(2) [of s sl rq _ p] by blast

lemma ranges_core:
  assumes "core s' x = core s y"
  shows "ranges (procs s' x) = ranges (procs s y)"
proof -
  have "ranges z = ranges (z\<lparr>p_link := NULLP, p_rlink := NULLP\<rparr>)" for z by (simp add: ranges_def)
  then show ?thesis using assms unfolding core_def by metis
qed

lemma proc_ok_core:
  assumes "core s' x = core s x" "p_rlink (procs s' x) = NULLP \<longleftrightarrow> p_rlink (procs s x) = NULLP" "u_procp s' = u_procp s" "noproc s' = noproc s"
  shows "proc_ok s' x = proc_ok s x"
  using assms coreD [of s' x s] ranges_core [of s' x s x] by (simp add: proc_ok_def Let_def)

text \<open>A process that becomes ready goes to the end of its run queue when it is in core.\<close>

definition enter_rq :: "nat \<Rightarrow> sched \<Rightarrow> sched kern" where
  "enter_rq p s = (if p_SLOAD (procs s p) then setrq p s else Inr s)"

lemma enter_rq_ok:
  assumes q: "queues s sl rq" and p: "p_rlink (procs s p) = NULLP" "p_wchan (procs s p) = 0" "p_stat (procs s p) = SRUN"
    "ranges (procs s p)"
    and o: "\<And>x. x \<noteq> p \<Longrightarrow> proc_ok s x" and cur: "noproc s \<or> u_procp s \<noteq> p" "cur_ok s" and a: "chans_ok (chans s)"
  obtains s' rq' where "enter_rq p s = Inr s'" "queues s' sl rq'" "core s' = core s" "globals s' = globals s" "sched_ok s'"
proof -
  have ok: "sched_ok s'" if s': "queues s' sl rq'" "core s' = core s" "globals s' = globals s"
    and r: "\<And>x. x \<noteq> p \<Longrightarrow> p_rlink (procs s' x) = NULLP \<longleftrightarrow> p_rlink (procs s x) = NULLP"
    and l: "p_rlink (procs s' p) \<noteq> NULLP \<longleftrightarrow> p_SLOAD (procs s p)" for s' rq'
  proof -
    have u: "u_procp s' = u_procp s" "noproc s' = noproc s" "chans s' = chans s" using globalsD [OF s'(3)] by simp_all
    have c: "core s' x = core s x" for x using s'(2) by simp
    have "proc_ok s' x" for x
    proof (cases "x = p")
      case True
      then show ?thesis using p l coreD [OF c, of p] ranges_core [OF c] by (auto simp: proc_ok_def Let_def)
    next
      case False
      then show ?thesis using o [OF False] proc_ok_core [OF c r [OF False] u(1,2)] by simp
    qed
    moreover have "cur_ok s'" using cur r [of "u_procp s"] u coreD [OF c] by (auto simp: cur_ok_def)
    ultimately show ?thesis using s'(1) a u(3) by (auto simp: sched_ok_def)
  qed
  show ?thesis
  proof (cases "p_SLOAD (procs s p)")
    case False
    then show ?thesis using that [of s rq] ok [of s rq] q p(1) by (simp add: enter_rq_def)
  next
    case True
    obtain s' i where s': "setrq p s = Inr s'" "queues s' sl (rq(i := rq i @ [p]))" "core s' = core s" "globals s' = globals s" "i < 32"
      using setrq_queues [OF q p(1,2) refl] p(4) prq_less [of "p_pri (procs s p)"] unfolding ranges_def by metis
    have "p_rlink (procs s' x) = NULLP \<longleftrightarrow> p_rlink (procs s x) = NULLP" if "x \<noteq> p" for x
      using that on_runq [OF s'(2), of x] on_runq [OF q, of x] by (auto split: if_splits)
    moreover have "p_rlink (procs s' p) \<noteq> NULLP" using on_runq [OF s'(2), of p] s'(5) by auto
    ultimately have "sched_ok s'" using ok [OF s'(2-4)] True by blast
    then show ?thesis using that [of s' "rq(i := rq i @ [p])"] s' True by (simp add: enter_rq_def)
  qed
qed

lemma sq_unlink_globals [simp]: "u_procp (sq_unlink h q p s) = u_procp s" "noproc (sq_unlink h q p s) = noproc s"
  "runout (sq_unlink h q p s) = runout s" "chans (sq_unlink h q p s) = chans s"
  using globalsD [of "sq_unlink h q p s" s] by simp_all

text \<open>Taking a process out of its sleep queue.\<close>

lemma unlink_ok:
  assumes q: "queues s sl rq" and h: "h < 64" "sl h = pre @ p # suf"
    and s': "s' = sq_unlink h (slot h pre) p (upd p (p_wchan_update (\<lambda>_. 0)) s)"
  shows "queues s' (sl(h := pre @ suf)) rq" "core s' x = (if x = p then (core s p)\<lparr>p_wchan := 0\<rparr> else core s x)" "bwd s' = bwd s"
proof -
  let ?t = "upd p (p_wchan_update (\<lambda>_. 0)) s"
  have t: "fwd ?t = fwd s" "bwd ?t = bwd s" by (simp_all add: fwd_upd bwd_upd)
  show c: "core s' x = (if x = p then (core s p)\<lparr>p_wchan := 0\<rparr> else core s x)" for x
    by (simp add: s' core_def [of ?t]) (simp add: core_def)
  show "bwd s' = bwd s" by (simp add: s' t)
  show "queues s' (sl(h := pre @ suf)) rq"
  proof (rule unlink_queues [OF q h])
    show "fwd s' = fwd (sq_unlink h (slot h pre) p s)" "sq_head s' = sq_head (sq_unlink h (slot h pre) p s)"
      "sq_tailp s' = sq_tailp (sq_unlink h (slot h pre) p s)" "bwd s' = bwd s" "whichqs s' = whichqs s"
      by (cases "slot h pre"; simp add: s' sq_unlink_fields t)+
    fix x show "p_wchan (procs s' x) = (if x = p then 0 else p_wchan (procs s x))" "p_pri (procs s' x) = p_pri (procs s x)"
      using arg_cong [OF c [of x], of p_wchan] arg_cong [OF c [of x], of p_pri] by (simp_all add: core_def)
  qed
qed

text \<open>
  The part \<open>wakeup\<close> and \<open>setrun\<close> share: \<open>t\<close> is the state in which \<open>p\<close> has left its channel, \<open>f\<close> makes it ready.
\<close>

lemma make_ready:
  assumes ok: "sched_ok s" and cur: "noproc s \<or> u_procp s \<noteq> p" and np: "p_rlink (procs s p) = NULLP"
    and t: "queues t sl rq" "bwd t = bwd s" "globals t = globals s" "\<And>x. core t x = (if x = p then (core s p)\<lparr>p_wchan := 0\<rparr> else core s x)"
    and f: "\<And>x. static (f x) = static x" "\<And>x. p_link (f x) = p_link x" "\<And>x. p_rlink (f x) = p_rlink x" "\<And>x. p_wchan (f x) = p_wchan x"
      "\<And>x. p_stat (f x) = SRUN" "\<And>x. ranges x \<Longrightarrow> ranges (f x)"
    and v: "v = upd p f (if 1 < p_slptime (procs t p) then updatepri p t else t)"
  obtains w rq' where "enter_rq p v = Inr w" "queues w sl rq'" "core w = core v" "globals w = globals v" "sched_ok w"
    "\<And>x. x \<noteq> p \<Longrightarrow> core v x = core s x" "static (procs v p) = static (procs s p)" "p_wchan (procs v p) = 0"
    "u_procp v = u_procp s" "noproc v = noproc s" "runout v = runout s" "chans v = chans s"
proof -
  have pk: "proc_ok s x" for x using sched_okD(1) [OF ok] .
  have rt: "p_rlink (procs t x) = p_rlink (procs s x)" for x using fun_cong [OF t(2), of "Proc x"] by simp
  have ct: "static (procs t p) = static (procs s p)" "p_wchan (procs t p) = 0"
    using arg_cong [OF t(4) [of p], of static] arg_cong [OF t(4) [of p], of p_wchan] by (simp_all add: core_def static_def)
  have rg: "ranges (procs t p)"
  proof -
    have "ranges (core t p) = ranges (core s p)" using t(4) [of p] by (simp add: ranges_def)
    then show ?thesis using pk [of p] by (simp add: core_def ranges_def proc_ok_def Let_def)
  qed
  define u where "u = (if 1 < p_slptime (procs t p) then updatepri p t else t)"
  have u: "fwd u = fwd t" "bwd u = bwd t" "sq_head u = sq_head t" "sq_tailp u = sq_tailp t" "whichqs u = whichqs t"
    "u_procp u = u_procp s" "noproc u = noproc s" "runout u = runout s" "chans u = chans s"
    "static (procs u p) = static (procs s p)" "p_wchan (procs u p) = 0" "\<And>x. x \<noteq> p \<Longrightarrow> procs u x = procs t x" "ranges (procs u p)"
    using globalsD [OF t(3)] ct rg by (simp_all add: u_def procs_updatepri)
  have v: "v = upd p f u" by (simp add: v u_def)
  have vl: "fwd v = fwd t" "bwd v = bwd t" "sq_head v = sq_head t" "sq_tailp v = sq_tailp t" "whichqs v = whichqs t"
    by (simp_all add: v fwd_upd bwd_upd f u)
  have vp: "static (procs v p) = static (procs s p)" "p_wchan (procs v p) = 0" "p_stat (procs v p) = SRUN"
    "\<And>x. x \<noteq> p \<Longrightarrow> procs v x = procs t x" "ranges (procs v p)"
    using u(10-13) by (simp_all add: v f)
  have vg: "u_procp v = u_procp s" "noproc v = noproc s" "runout v = runout s" "chans v = chans s" by (simp_all add: v u)
  have rv: "p_rlink (procs v x) = p_rlink (procs s x)" for x using fun_cong [OF vl(2), of "Proc x"] rt by simp
  have vq: "queues v sl rq"
  proof (rule queues_cong [OF t(1)])
    fix x show "p_wchan (procs v x) = p_wchan (procs t x)" using vp(2,4) ct(2) by (cases "x = p") auto
    fix x show "prq (p_pri (procs v x)) = prq (p_pri (procs t x))" using vp(4) staticD(1) [OF vp(1)] staticD(1) [OF ct(1)] by (cases "x = p") auto
  qed (simp_all only: vl)
  have co: "core v x = core s x" if "x \<noteq> p" for x using vp(4) [OF that] t(4) [of x] that by (simp add: core_def)
  have o: "proc_ok v x" if "x \<noteq> p" for x
    using proc_ok_core [of v x s] co [OF that] rv [of x] pk [of x] vg by simp
  have vcur: "cur_ok v" using sched_okD(2) [OF ok] cur rv [of "u_procp s"] coreD [of v "u_procp s" s] co [of "u_procp s"]
    by (auto simp: cur_ok_def vg)
  have pre: "p_rlink (procs v p) = NULLP" "noproc v \<or> u_procp v \<noteq> p" "chans_ok (chans v)"
    using rv [of p] np cur vg sched_okD(3) [OF ok] by simp_all
  show thesis
  proof (rule enter_rq_ok [OF vq pre(1) vp(2,3,5) _ pre(2) vcur pre(3)])
    fix x assume "x \<noteq> p" then show "proc_ok v x" by (rule o)
  next
    fix w rq' assume "enter_rq p v = Inr w" "queues w sl rq'" "core w = core v" "globals w = globals v" "sched_ok w"
    then show thesis using that co vp vg by blast
  qed
qed

lemma resched_queues [simp]: "queues (resched s) sl rq = queues s sl rq" "sched_ok (resched s) = sched_ok s"
proof -
  have rf: "fwd (resched t) = fwd t" "bwd (resched t) = bwd t" for t by (rule fwd_eqI bwd_eqI; simp)+
  show q: "queues (resched s) sl rq = queues s sl rq" for sl rq
    by (simp add: queues_def sleepq_def runq_def rf)
  show "sched_ok (resched s) = sched_ok s" by (simp add: sched_ok_def q proc_ok_def cur_ok_def)
qed

lemma wake_run_ok:
  assumes ok: "sched_ok s" and q: "queues s sl rq" and h: "h < 64" "sl h = pre @ p # suf" and st: "p_stat (procs s p) = SSLEEP"
  obtains s2 rq' where "wake_run p (sq_unlink h (slot h pre) p (upd p (p_wchan_update (\<lambda>_. 0)) s)) = Inr s2"
    "queues s2 (sl(h := pre @ suf)) rq'" "wakes {p} s s2" "runout s2 = runout s"
proof -
  define t where "t = sq_unlink h (slot h pre) p (upd p (p_wchan_update (\<lambda>_. 0)) s)"
  note u = unlink_ok [OF q h t_def]
  have cur: "noproc s \<or> u_procp s \<noteq> p" using sched_okD(2) [OF ok] st by (auto simp: cur_ok_def)
  have np: "p_rlink (procs s p) = NULLP" using sched_okD(1) [OF ok, of p] st by (auto simp: proc_ok_def Let_def)
  have g: "globals t = globals s" by (simp add: t_def)
  define f where "f = (\<lambda>x :: proc. x\<lparr>p_slptime := 0, p_stat := SRUN\<rparr>)"
  have f: "static (f x) = static x" "p_link (f x) = p_link x" "p_rlink (f x) = p_rlink x" "p_wchan (f x) = p_wchan x" "p_stat (f x) = SRUN"
    "ranges x \<Longrightarrow> ranges (f x)" for x by (simp_all add: f_def static_def ranges_def)
  define v where "v = upd p f (if 1 < p_slptime (procs t p) then updatepri p t else t)"
  obtain w rq' where w: "enter_rq p v = Inr w" "queues w (sl(h := pre @ suf)) rq'" "core w = core v" "globals w = globals v" "sched_ok w"
    "\<And>x. x \<noteq> p \<Longrightarrow> core v x = core s x" "static (procs v p) = static (procs s p)" "p_wchan (procs v p) = 0"
    "u_procp v = u_procp s" "noproc v = noproc s" "runout v = runout s" "chans v = chans s"
    using make_ready [OF ok cur np u(1,3) g u(2) f v_def] by blast
  have "wake_run p t = Inr (resched w)" using w(1) by (simp add: wake_run_def Let_def enter_rq_def v_def f_def)
  moreover have "awake (procs s p) (procs (resched w) p)"
  proof -
    have "p_slptime (procs v p) = 0" "p_stat (procs v p) = SRUN" by (simp_all add: v_def f_def)
    then show ?thesis using w(3,7,8) awake_core2 [of w p v "procs s p"] st by (simp add: awake_def)
  qed
  moreover have "core (resched w) x = core s x" if "x \<noteq> p" for x using w(3) w(6) [OF that] by simp
  ultimately show ?thesis using that [of "resched w" rq'] globalsD [OF w(4)] w by (simp add: wakes_def t_def)
qed

text \<open>A stopped process that is woken stays stopped.\<close>

lemma wake_stopped_ok:
  assumes ok: "sched_ok s" and q: "queues s sl rq" and h: "h < 64" "sl h = pre @ p # suf" and st: "p_stat (procs s p) = SSTOP"
    and s2: "s2 = upd p (p_slptime_update (\<lambda>_. 0)) (sq_unlink h (slot h pre) p (upd p (p_wchan_update (\<lambda>_. 0)) s))"
  shows "queues s2 (sl(h := pre @ suf)) rq" "wakes {p} s s2" "runout s2 = runout s"
proof -
  define s1 where "s1 = sq_unlink h (slot h pre) p (upd p (p_wchan_update (\<lambda>_. 0)) s)"
  note u = unlink_ok [OF q h s1_def]
  have s2: "s2 = upd p (p_slptime_update (\<lambda>_. 0)) s1" by (simp add: s2 s1_def)
  have f: "fwd s2 = fwd s1" "bwd s2 = bwd s1" by (simp_all add: s2 fwd_upd bwd_upd)
  show qs: "queues s2 (sl(h := pre @ suf)) rq" by (rule queues_cong [OF u(1)]) (simp_all add: f, simp_all add: s2)
  have rl: "p_rlink (procs s2 x) = p_rlink (procs s x)" for x using fun_cong [OF f(2), of "Proc x"] fun_cong [OF u(3), of "Proc x"] by simp
  have c: "core s2 x = (if x = p then (core s p)\<lparr>p_wchan := 0, p_slptime := 0\<rparr> else core s x)" for x
  proof -
    have "core s2 x = (if x = p then (core s1 p)\<lparr>p_slptime := 0\<rparr> else core s1 x)" by (simp add: s2 core_def)
    then show ?thesis using u(2) [of x] u(2) [of p] by simp
  qed
  have g: "u_procp s2 = u_procp s" "noproc s2 = noproc s" "chans s2 = chans s" "runout s2 = runout s"
    by (simp_all add: s2 s1_def)
  then show "runout s2 = runout s" by simp
  have pf: "p_wchan (procs s2 p) = 0" "p_stat (procs s2 p) = SSTOP" "p_slptime (procs s2 p) = 0" "ranges (procs s2 p) = ranges ((procs s p)\<lparr>p_slptime := 0\<rparr>)" "static (procs s2 p) = static (procs s p)"
    using arg_cong [OF c [of p], of p_wchan] arg_cong [OF c [of p], of p_stat] arg_cong [OF c [of p], of p_slptime]
      arg_cong [OF c [of p], of ranges] arg_cong [OF c [of p], of static] st
    by (simp_all add: core_def static_def ranges_def)
  have "proc_ok s2 x" for x
  proof (cases "x = p")
    case True
    then show ?thesis using sched_okD(1) [OF ok, of p] rl [of p] st by (auto simp: proc_ok_def Let_def pf) (simp add: ranges_def)
  next
    case False
    then show ?thesis using sched_okD(1) [OF ok, of x] proc_ok_core [of s2 x s] c [of x] rl [of x] g by simp
  qed
  moreover have "cur_ok s2" using sched_okD(2) [OF ok] rl pf(2) coreD(3) [of s2 "u_procp s" s] c [of "u_procp s"] g
    by (cases "u_procp s = p") (auto simp: cur_ok_def)
  ultimately have "sched_ok s2" using qs sched_okD(3) [OF ok] g by (auto simp: sched_ok_def)
  then show "wakes {p} s s2" using pf st c g by (simp add: wakes_def awake_def)
qed

definition waiting :: "32 word \<Rightarrow> sched \<Rightarrow> nat set" where
  "waiting c s = {p. p_wchan (procs s p) = c}"

text \<open>A process that is not in core sleeps on \<open>c\<close>: then the swapper is woken too, when it waits for one.\<close>

definition swapped :: "32 word \<Rightarrow> sched \<Rightarrow> bool" where
  "swapped c s = (\<exists>p \<in> waiting c s. p_stat (procs s p) = SSLEEP \<and> \<not> p_SLOAD (procs s p))"

definition woken :: "32 word \<Rightarrow> sched \<Rightarrow> nat set" where
  "woken c s = waiting c s \<union> (if runout s \<and> swapped c s then waiting (addr_runout s) s else {})"

lemma wakes_refl: "sched_ok s \<Longrightarrow> wakes {} s s"
  by (simp add: wakes_def)

lemma wakes_waiting:
  assumes "wakes W s t" "d \<noteq> 0"
  shows "waiting d t = waiting d s - W"
    "swapped d t \<longleftrightarrow> (\<exists>p \<in> waiting d s - W. p_stat (procs s p) = SSLEEP \<and> \<not> p_SLOAD (procs s p))"
proof -
  have c: "p \<notin> W \<Longrightarrow> core t p = core s p" "p \<in> W \<Longrightarrow> p_wchan (procs t p) = 0" for p using assms(1) by (auto simp: wakes_def awake_def)
  show w: "waiting d t = waiting d s - W"
  proof (rule set_eqI)
    fix p show "p \<in> waiting d t \<longleftrightarrow> p \<in> waiting d s - W"
      using c [of p] coreD(1) [of t p s] assms(2) by (cases "p \<in> W") (auto simp: waiting_def)
  qed
  show "swapped d t \<longleftrightarrow> (\<exists>p \<in> waiting d s - W. p_stat (procs s p) = SSLEEP \<and> \<not> p_SLOAD (procs s p))"
    unfolding swapped_def w using c(1) coreD(3,4) [of t _ s] by auto
qed

lemma fwd_globals [simp]: "fwd (s\<lparr>runout := b\<rparr>) = fwd s" "fwd (s\<lparr>wantin := n\<rparr>) = fwd s"
  "bwd (s\<lparr>runout := b\<rparr>) = bwd s" "bwd (s\<lparr>wantin := n\<rparr>) = bwd s"
  by (rule fwd_eqI bwd_eqI; simp)+

lemma queues_globals [simp]: "queues (s\<lparr>runout := b\<rparr>) sl rq = queues s sl rq" "queues (s\<lparr>wantin := n\<rparr>) sl rq = queues s sl rq"
  by (simp_all add: queues_def sleepq_def runq_def)

lemma sched_ok_globals [simp]: "sched_ok (s\<lparr>runout := b\<rparr>) = sched_ok s" "sched_ok (s\<lparr>wantin := n\<rparr>) = sched_ok s"
  by (simp_all add: sched_ok_def proc_ok_def cur_ok_def)

lemma wakes_globals [simp]: "wakes W s (t\<lparr>runout := b\<rparr>) = wakes W s t" "wakes W s (t\<lparr>wantin := n\<rparr>) = wakes W s t"
  "wakes W (s\<lparr>runout := b\<rparr>) t = wakes W s t" "wakes W (s\<lparr>wantin := n\<rparr>) t = wakes W s t"
  "waiting c (s\<lparr>runout := b\<rparr>) = waiting c s" "waiting c (s\<lparr>wantin := n\<rparr>) = waiting c s"
  "swapped c (s\<lparr>wantin := n\<rparr>) = swapped c s"
  by (simp_all add: wakes_def core_def waiting_def swapped_def)

lemma woken_wantin [simp]: "woken c (s\<lparr>wantin := n\<rparr>) = woken c s"
  by (simp add: woken_def)

lemma wakes_then:
  assumes "wakes {p} s t" "wakes (woken c t) t u" "c \<noteq> 0" "sched_ok s"
  shows "wakes ({p} \<union> woken c t) s u"
proof (rule wakes_trans [OF assms(1,2)])
  have "p \<notin> waiting d t" if "d \<noteq> 0" for d using wakes_waiting(1) [OF assms(1) that] by simp
  moreover have "addr_runout t \<noteq> 0" using assms(1) by (auto simp: wakes_def sched_ok_def chans_ok_def)
  ultimately show "{p} \<inter> woken c t = {}" using assms(3) by (simp add: woken_def)
qed

text \<open>When the process that was woken sleeps on and the swapper is not wanted, the rest is as for the whole.\<close>

lemma woken_insert:
  assumes "wakes {p} s t" "runout t = runout s" "p \<in> waiting c s" "c \<noteq> 0" "sched_ok s"
    "p_stat (procs s p) \<noteq> SSLEEP \<or> p_SLOAD (procs s p) \<or> \<not> runout s"
  shows "{p} \<union> woken c t = woken c s" "runout s \<and> swapped c t \<longleftrightarrow> runout s \<and> swapped c s"
proof -
  have a: "addr_runout t = addr_runout s" "addr_runout s \<noteq> 0" using assms(1,5) by (auto simp: wakes_def sched_ok_def chans_ok_def)
  note w = wakes_waiting [OF assms(1)]
  show s: "runout s \<and> swapped c t \<longleftrightarrow> runout s \<and> swapped c s"
    using w(2) [OF assms(4)] assms(6) by (auto simp: swapped_def)
  show "{p} \<union> woken c t = woken c s"
    using w(1) [OF assms(4)] w(1) [OF a(2)] s assms(2,3) by (auto simp: woken_def a)
qed

section \<open>The loop\<close>

text \<open>From the pointer behind the processes \<open>pre\<close>, none of which waits on \<open>c\<close>. The assumption is the same for a loop that finds
  \<^verbatim>\<open>runout\<close> clear, which starts no other.\<close>

lemma wake_loop_ok:
  assumes N: "\<And>t d. r \<Longrightarrow> d \<noteq> 0 \<Longrightarrow> \<not> runout t \<Longrightarrow> sched_ok t \<Longrightarrow> \<exists>t'. wakeup d t = Some (Inr t') \<and> wakes (waiting d t) t t' \<and> \<not> runout t'"
    and "sched_ok s" "queues s sl rq" "c \<noteq> 0" "sl (sqhash c) = pre @ suf" "\<forall>x \<in> set pre. p_wchan (procs s x) \<noteq> c" "runout s \<Longrightarrow> r"
  shows "\<exists>s'. wake_loop c (slot (sqhash c) pre) s = Some (Inr s') \<and> wakes (woken c s) s s' \<and> runout s' = (runout s \<and> \<not> swapped c s)"
  using assms(2-)
proof (induction "length (sl (sqhash c))" arbitrary: s sl rq pre suf rule: less_induct)
  case less
  let ?h = "sqhash c"
  note ok = less.prems(1) and q = less.prems(2)
  note IH = less.hyps
  show ?case using less.prems(4,5)
  proof (induction suf arbitrary: pre)
    case Nil
    then have "rd s (slot ?h pre) = NULLP" using rd_slot [OF q sqhash_less, of c pre "[]"] by simp
    moreover have "waiting c s = {}" using Nil queues_mem(1) [OF q sqhash_less, of _ c] less.prems(3) by (auto simp: waiting_def)
    ultimately show ?case using wakes_refl [OF ok] by (simp add: wake_loop.simps [of c "slot ?h pre" s] woken_def swapped_def)
  next
    case (Cons p suf)
    have rd: "rd s (slot ?h pre) = Proc p" using rd_slot [OF q sqhash_less, of c pre "p # suf"] Cons.prems(1) by simp
    have m: "p_wchan (procs s p) \<noteq> 0" using queues_mem(1) [OF q sqhash_less, of p c] Cons.prems(1) by simp
    then have fw: "p_rlink (procs s p) = NULLP" "p_stat (procs s p) = SSLEEP \<or> p_stat (procs s p) = SSTOP"
      using sched_okD(1) [OF ok, of p] by (auto simp: proc_ok_def Let_def)
    note unf = wake_loop.simps [of c "slot ?h pre" s]
    show ?case
    proof (cases "p_wchan (procs s p) = c")
      case False
      then have "wake_loop c (slot ?h pre) s = wake_loop c (slot ?h (pre @ [p])) s" using rd fw False
        unfolding unf [unfolded rd] by (auto simp: slot_def)
      then show ?thesis using Cons.IH [of "pre @ [p]"] Cons.prems False by simp
    next
      case c: True
      have pW: "p \<in> waiting c s" using c by (simp add: waiting_def)
      have rest: ?thesis if eq: "wake_loop c (slot ?h pre) s = wake_loop c (slot ?h pre') s2" and w: "queues s2 (sl(?h := pre @ suf)) rq'" "wakes {p} s s2"
          "runout s2 = runout s" "p_stat (procs s p) \<noteq> SSLEEP \<or> p_SLOAD (procs s p) \<or> \<not> runout s" and pre': "pre' = pre \<or> pre' = []" for pre' s2 rq'
      proof -
        have ok2: "sched_ok s2" using w(2) by (simp add: wakes_def)
        have pn: "p \<notin> set pre" using queuesD(1) [OF q sqhash_less, of c] Cons.prems(1) by (auto simp: sleepq_def)
        have "\<forall>x \<in> set pre'. p_wchan (procs s2 x) \<noteq> c"
          using pre' Cons.prems(2) pn w(2) coreD(1) [of s2 _ s] unfolding wakes_def by (metis empty_iff insert_iff list.set(1))
        moreover obtain suf' where e: "pre @ suf = pre' @ suf'" using pre' by auto
        moreover have "length pre' + length suf' < length (sl ?h)" unfolding Cons.prems(1) using arg_cong [OF e, of length] by simp
        ultimately obtain s' where s': "wake_loop c (slot ?h pre') s2 = Some (Inr s')" "wakes (woken c s2) s2 s'" "runout s' = (runout s2 \<and> \<not> swapped c s2)"
          using IH [of "sl(?h := pre @ suf)" s2 rq' pre' suf'] w(1,3) ok2 Cons.prems(1) less.prems(3,6) by auto
        have "wakes (woken c s) s s'" using wakes_then [OF w(2) s'(2) less.prems(3) ok] woken_insert(1) [OF w(2,3) pW less.prems(3) ok w(4)] by simp
        moreover have "runout s' = (runout s \<and> \<not> swapped c s)" using s'(3) w(3) woken_insert(2) [OF w(2,3) pW less.prems(3) ok w(4)] by auto
        ultimately show ?thesis using eq s'(1) by simp
      qed
      show ?thesis
      proof (cases "p_stat (procs s p) = SSTOP")
        case True
        define s2 where "s2 = upd p (p_slptime_update (\<lambda>_. 0)) (sq_unlink ?h (slot ?h pre) p (upd p (p_wchan_update (\<lambda>_. 0)) s))"
        have "wake_loop c (slot ?h pre) s = wake_loop c (slot ?h pre) s2" using rd fw c True by (simp add: unf Let_def s2_def)
        then show ?thesis using rest wake_stopped_ok [OF ok q sqhash_less Cons.prems(1) True s2_def] True by simp
      next
        case False
        then have sl: "p_stat (procs s p) = SSLEEP" using fw by simp
        obtain s2 rq' where w: "wake_run p (sq_unlink ?h (slot ?h pre) p (upd p (p_wchan_update (\<lambda>_. 0)) s)) = Inr s2"
          "queues s2 (sl(?h := pre @ suf)) rq'" "wakes {p} s s2" "runout s2 = runout s"
          using wake_run_ok [OF ok q sqhash_less Cons.prems(1) sl] by blast
        have h: "Head ?h = slot ?h []" by (simp add: slot_def)
        show ?thesis
        proof (cases "p_SLOAD (procs s p) \<or> \<not> runout s")
          case True
          define s3 where "s3 = (if p_SLOAD (procs s p) then s2 else s2\<lparr>wantin := wantin s2 + 1\<rparr>)"
          have "wake_loop c (slot ?h pre) s = wake_loop c (slot ?h []) s3" using rd fw c sl w(1,4) True by (auto simp: unf Let_def s3_def h)
          moreover have "queues s3 (sl(?h := pre @ suf)) rq'" "wakes {p} s s3" "runout s3 = runout s" using w by (simp_all add: s3_def)
          ultimately show ?thesis using rest True by blast
        next
          case False
          let ?a = "addr_runout s"
          have a: "addr_runout s2 = ?a" "?a \<noteq> 0" "sched_ok s2" using w(3) sched_okD(3) [OF ok] by (simp_all add: wakes_def chans_ok_def)
          obtain t' where t': "wakeup ?a (s2\<lparr>runout := False\<rparr>) = Some (Inr t')" "wakes (waiting ?a s2) s2 t'" "\<not> runout t'"
            using N [of ?a "s2\<lparr>runout := False\<rparr>"] less.prems(6) False a by auto
          define s3 where "s3 = t'\<lparr>wantin := wantin t' + 1\<rparr>"
          have ok3: "sched_ok t'" using t'(2) by (simp add: wakes_def)
          obtain s' where s': "wakeup c s3 = Some (Inr s')" "wakes (waiting c t') t' s'" "\<not> runout s'"
            using N [of c s3] less.prems(3,6) False ok3 t'(3) by (auto simp: s3_def)
          have "wake_loop c (slot ?h pre) s = wakeup c s3"
            using rd fw c sl w(1,4) False a t'(1) by (simp add: unf Let_def wakeup_def s3_def)
          moreover have sw: "swapped c s" using pW False sl by (auto simp: swapped_def)
          moreover have "wakes ({p} \<union> waiting ?a s2 \<union> waiting c t') s s'"
            using wakes_trans [OF wakes_trans [OF w(3) t'(2)] s'(2)] wakes_waiting(1) [OF w(3)] wakes_waiting(1) [OF t'(2)] a(2) less.prems(3) by auto
          moreover have "{p} \<union> waiting ?a s2 \<union> waiting c t' = woken c s"
            using wakes_waiting(1) [OF w(3)] wakes_waiting(1) [OF t'(2)] a(2) less.prems(3) sw False pW by (auto simp: woken_def)
          ultimately show ?thesis using s' by simp
        qed
      qed
    qed
  qed
qed

text \<open>\<open>wakeup\<close> comes back, and has woken every process that waits on the channel, no other but the swapper.\<close>

lemma wakeup_no_runout:
  assumes "sched_ok s" "c \<noteq> 0" "\<not> runout s"
  shows "\<exists>s'. wakeup c s = Some (Inr s') \<and> wakes (waiting c s) s s' \<and> \<not> runout s'"
proof -
  obtain sl rq where q: "queues s sl rq" using sched_okD(4) [OF assms(1)] by blast
  show ?thesis using wake_loop_ok [of False s sl rq c "[]" "sl (sqhash c)"] q assms by (auto simp: wakeup_def slot_def woken_def)
qed

lemma wakeup_ok:
  assumes "sched_ok s" "c \<noteq> 0"
  obtains s' where "wakeup c s = Some (Inr s')" "wakes (woken c s) s s'" "runout s' = (runout s \<and> \<not> swapped c s)"
proof -
  obtain sl rq where q: "queues s sl rq" using sched_okD(4) [OF assms(1)] by blast
  have "\<exists>s'. wake_loop c (slot (sqhash c) []) s = Some (Inr s') \<and> wakes (woken c s) s s' \<and> runout s' = (runout s \<and> \<not> swapped c s)"
    by (rule wake_loop_ok [of True s sl rq c "[]" "sl (sqhash c)"]) (use q assms wakeup_no_runout in auto)
  then show ?thesis using that by (auto simp: wakeup_def slot_def)
qed

end
