(* ===== verification/Synch_ops.thy ===== *)
theory Synch_ops
  imports Synch_wake
begin

text \<open>
  The operations of \<^verbatim>\<open>kern_synch.c\<close> besides \<^verbatim>\<open>wakeup\<close> keep the invariant of processes and queues: \<^verbatim>\<open>unsleep\<close>,
  \<^verbatim>\<open>setrun\<close>, \<^verbatim>\<open>sleep\<close>, the switch to another process, the recomputation of priorities and swapping.
\<close>

section \<open>unsleep and setrun\<close>

text \<open>A process taken off its channel, before its status changes.\<close>

lemma unsleep_from:
  assumes q: "queues s sl0 rq0"
  obtains s' sl rq where "unsleep p s = Some (Inr s')" "queues s' sl rq" "bwd s' = bwd s" "globals s' = globals s"
    "\<And>x. core s' x = (if x = p then (core s p)\<lparr>p_wchan := 0\<rparr> else core s x)"
proof -
  show ?thesis
  proof (cases "p_wchan (procs s p) = 0")
    case True
    then have "core s p = (core s p)\<lparr>p_wchan := 0\<rparr>" by (simp add: core_def)
    then show ?thesis using that [of s sl0 rq0] True q by (simp add: unsleep_def)
  next
    case False
    define h where "h = sqhash (p_wchan (procs s p))"
    have h: "h < 64" by (simp add: h_def)
    then have "p \<in> set (sl0 h)" using queues_mem(1) [OF q h] False by (simp add: h_def)
    then obtain pre suf where l: "sl0 h = pre @ p # suf" by (meson split_list)
    define s' where "s' = sq_unlink h (slot h pre) p (upd p (p_wchan_update (\<lambda>_. 0)) s)"
    note u = unlink_ok [OF q h l s'_def]
    have "find_slot p (Head h) s = Some (Inr (slot h pre))" using find_slot_ok [OF q h, of "[]" pre p suf] l by (simp add: slot_def)
    moreover have "upd p (p_wchan_update (\<lambda>_. 0)) (sq_unlink h (slot h pre) p s) = s'"
      unfolding s'_def sq_unlink_def by (cases "slot h pre") (auto simp: Let_def upd_def fun_upd_twist)
    ultimately have "unsleep p s = Some (Inr s')" using False by (simp add: unsleep_def h_def [symmetric] Let_def)
    moreover have "globals s' = globals s" by (simp add: s'_def)
    ultimately show ?thesis using that [of s' "sl0(h := pre @ suf)" rq0] u by blast
  qed
qed

lemma unsleep_queues:
  assumes ok: "sched_ok s"
  obtains s' sl rq where "unsleep p s = Some (Inr s')" "queues s' sl rq" "bwd s' = bwd s" "globals s' = globals s"
    "\<And>x. core s' x = (if x = p then (core s p)\<lparr>p_wchan := 0\<rparr> else core s x)"
  using sched_okD(4) [OF ok] unsleep_from by metis

text \<open>What \<open>setrun\<close> makes of a process, and of the swapper when the process is not in core.\<close>

definition ready :: "proc \<Rightarrow> proc \<Rightarrow> bool" where
  "ready x y = (static y = static x \<and> p_wchan y = 0 \<and> p_stat y = SRUN)"

definition runs :: "nat \<Rightarrow> nat set \<Rightarrow> sched \<Rightarrow> sched \<Rightarrow> bool" where
  "runs p V s s' = (sched_ok s' \<and> ready (procs s p) (procs s' p) \<and> (\<forall>x \<in> V. awake (procs s x) (procs s' x)) \<and>
     (\<forall>x. x \<notin> insert p V \<longrightarrow> core s' x = core s x) \<and> u_procp s' = u_procp s \<and> noproc s' = noproc s \<and> chans s' = chans s)"

definition swapper_waits :: "nat \<Rightarrow> sched \<Rightarrow> nat set" where
  "swapper_waits p s = (if \<not> p_SLOAD (procs s p) \<and> runout s then waiting (addr_runout s) s - {p} else {})"

lemma ready_core: "core t p = core s p \<Longrightarrow> ready x (procs t p) = ready x (procs s p)"
  using static_core [of t p s p] coreD [of t p s] by (simp add: ready_def)

lemma core_wantin [simp]: "core (s\<lparr>wantin := n\<rparr>) = core s"
  by (simp add: core_def fun_eq_iff)

lemma setrun_ok:
  assumes ok: "sched_ok s" and st: "p_stat (procs s p) \<in> {SSTOP, SSLEEP, SIDL}" and cur: "noproc s \<or> u_procp s \<noteq> p"
  obtains s' where "setrun p s = Some (Inr s')" "runs p (swapper_waits p s) s s'"
proof -
  have pk: "proc_ok s p" using sched_okD(1) [OF ok] .
  have np: "p_rlink (procs s p) = NULLP" using pk st by (auto simp: proc_ok_def Let_def)
  obtain t sl rq where t: "(case p_stat (procs s p) of SSTOP \<Rightarrow> unsleep p s | SSLEEP \<Rightarrow> unsleep p s | SIDL \<Rightarrow> Some (Inr s)
        | _ \<Rightarrow> Some (Inl (Panic ''setrun''))) = Some (Inr t)"
      "queues t sl rq" "bwd t = bwd s" "globals t = globals s" "\<And>x. core t x = (if x = p then (core s p)\<lparr>p_wchan := 0\<rparr> else core s x)"
  proof (cases "p_stat (procs s p) = SIDL")
    case True
    then have "core s p = (core s p)\<lparr>p_wchan := 0\<rparr>" using pk by (auto simp: core_def proc_ok_def Let_def)
    then show ?thesis using that [of s] sched_okD(4) [OF ok] True by auto
  next
    case False
    then show ?thesis using unsleep_queues [OF ok, of p] that st by force
  qed
  define f where "f = (\<lambda>x :: proc. x\<lparr>p_stat := SRUN\<rparr>)"
  have f: "static (f x) = static x" "p_link (f x) = p_link x" "p_rlink (f x) = p_rlink x" "p_wchan (f x) = p_wchan x" "p_stat (f x) = SRUN"
    "ranges x \<Longrightarrow> ranges (f x)" for x by (simp_all add: f_def static_def ranges_def)
  define v where "v = upd p f (if 1 < p_slptime (procs t p) then updatepri p t else t)"
  obtain w rq' where w: "enter_rq p v = Inr w" "queues w sl rq'" "core w = core v" "globals w = globals v" "sched_ok w"
    "\<And>x. x \<noteq> p \<Longrightarrow> core v x = core s x" "static (procs v p) = static (procs s p)" "p_wchan (procs v p) = 0"
    "u_procp v = u_procp s" "noproc v = noproc s" "runout v = runout s" "chans v = chans s"
    using make_ready [OF ok cur np t(2-5) f v_def] by blast
  have wg: "u_procp w = u_procp s" "noproc w = noproc s" "runout w = runout s" "chans w = chans s"
    using globalsD [OF w(4)] w by simp_all
  have wc: "core w x = core s x" if "x \<noteq> p" for x using w(3) w(6) [OF that] by simp
  have rw: "ready (procs s p) (procs w p)"
  proof -
    have "p_stat (procs v p) = SRUN" by (simp add: v_def f_def)
    then show ?thesis using w(3,7,8) ready_core [of w p v] by (simp add: ready_def)
  qed
  define w1 where "w1 = (if p_pri (procs w p) < curpri w then resched w else w)"
  have w1: "sched_ok w1" "core w1 = core w" "procs w1 = procs w" "u_procp w1 = u_procp s" "noproc w1 = noproc s" "runout w1 = runout s" "chans w1 = chans s"
    using w(5) wg by (simp_all add: w1_def)
  have ld: "p_SLOAD (procs w p) = p_SLOAD (procs s p)" "p_SLOAD (procs v p) = p_SLOAD (procs s p)"
    using staticD(2) [OF w(7)] coreD(4) [of w p v] w(3) by simp_all
  have eq: "setrun p s = (if p_SLOAD (procs w1 p) then Some (Inr w1)
       else Option.bind (if runout w1 then wakeup (addr_runout w1) (w1\<lparr>runout := False\<rparr>) else Some (Inr w1))
               (\<lambda>r. Some (kbind r (\<lambda>s. Inr (s\<lparr>wantin := wantin s + 1\<rparr>)))))"
    unfolding setrun_def t(1) using w(1) by (simp add: Let_def w1_def v_def f_def enter_rq_def)
  show ?thesis
  proof (cases "p_SLOAD (procs s p) \<or> \<not> runout s")
    case True
    define s' where "s' = (if p_SLOAD (procs s p) then w1 else w1\<lparr>wantin := wantin w1 + 1\<rparr>)"
    have "setrun p s = Some (Inr s')" using eq True ld w1 by (auto simp: s'_def)
    moreover have "swapper_waits p s = {}" using True by (auto simp: swapper_waits_def)
    moreover have "runs p {} s s'" using w1 rw wc by (simp add: runs_def s'_def)
    ultimately show ?thesis using that by simp
  next
    case False
    have a: "addr_runout s \<noteq> 0" using sched_okD(3) [OF ok] by (simp add: chans_ok_def)
    obtain x where x: "wakeup (addr_runout s) (w1\<lparr>runout := False\<rparr>) = Some (Inr x)" "wakes (waiting (addr_runout s) w1) w1 x"
      using wakeup_no_runout [of "w1\<lparr>runout := False\<rparr>" "addr_runout s"] w1(1) a by auto
    have W: "waiting (addr_runout s) w1 = waiting (addr_runout s) s - {p}"
    proof (rule set_eqI)
      fix y show "y \<in> waiting (addr_runout s) w1 \<longleftrightarrow> y \<in> waiting (addr_runout s) s - {p}"
        using rw a coreD(1) [of w1 y s] wc [of y] w1(2,3) by (cases "y = p") (auto simp: waiting_def ready_def)
    qed
    have "setrun p s = Some (Inr (x\<lparr>wantin := wantin x + 1\<rparr>))" using eq False ld w1 x(1) by simp
    moreover have "runs p (swapper_waits p s) s (x\<lparr>wantin := wantin x + 1\<rparr>)"
    proof -
      have "ready (procs s p) (procs x p)" using x(2) W rw w1(3) ready_core [of x p w1] by (simp add: wakes_def)
      moreover have "awake (procs s y) (procs x y)" if "y \<in> waiting (addr_runout s) s - {p}" for y
        using that x(2) W awake_core [of w1 y s] wc [of y] w1(2) by (simp add: wakes_def)
      moreover have "core x y = core s y" if "y \<notin> insert p (waiting (addr_runout s) s - {p})" for y
        using that x(2) W wc [of y] w1(2) by (simp add: wakes_def)
      ultimately show ?thesis using x(2) w1 False by (simp add: runs_def swapper_waits_def wakes_def core_def)
    qed
    ultimately show ?thesis using that by blast
  qed
qed

section \<open>Run queues and the processor\<close>

lemma runq_head:
  assumes "queues s sl rq" "i < 32"
  shows "ph_link s i = (if rq i = [] then Qs i else Proc (hd (rq i)))"
  using ring_first [of "fwd s" "bwd s" "Qs i" "rq i" "Qs i"] queuesD(2) [OF assms] by (simp add: runq_def)

lemma ring_links:
  assumes "queues s sl rq" "i < 32" "p \<in> set (rq i)"
  shows "fwd s (Proc p) \<noteq> NULLP" "bwd s (Proc p) \<noteq> NULLP" "fwd s (Proc p) \<noteq> Proc p" "bwd s (Proc p) \<noteq> Proc p"
proof -
  obtain xs ys where l: "rq i = xs @ p # ys" using assms(3) by (meson split_list)
  then have r: "ring (fwd s) (bwd s) (Qs i) (xs @ p # ys) (Qs i)" "distinct (xs @ p # ys)" using queuesD(2) [OF assms(1,2)] by (simp_all add: runq_def)
  then have "ring (fwd s) (bwd s) (Qs i) xs (Proc p)" "ring (fwd s) (bwd s) (Proc p) ys (Qs i)" using ring_append by blast+
  from ring_last [OF this(1)] ring_first [OF this(2)] r(2)
  show "fwd s (Proc p) \<noteq> NULLP" "bwd s (Proc p) \<noteq> NULLP" "fwd s (Proc p) \<noteq> Proc p" "bwd s (Proc p) \<noteq> Proc p"
    by (auto simp: last_in_set hd_in_set simp del: fwd.simps bwd.simps)
qed

text \<open>Taking a process off its run queue, as \<open>remrq\<close> and \<open>swtch\<close> do it.\<close>

definition unring :: "nat \<Rightarrow> nat \<Rightarrow> sched \<Rightarrow> sched" where
  "unring p i s = (let z = (fwd s (Proc p) = bwd s (Proc p)); s = remque (Proc p) s;
     s = (if z then s\<lparr>whichqs := unset_bit i (whichqs s)\<rparr> else s) in upd p (p_rlink_update (\<lambda>_. NULLP)) s)"

lemma unring_ok:
  assumes q: "queues s sl rq" and i: "i < 32" and l: "rq i = xs @ p # ys"
  shows "queues (unring p i s) (sl(i := sl i)) (rq(i := xs @ ys))" "core (unring p i s) = core s" "globals (unring p i s) = globals s"
    "p_rlink (procs (unring p i s) x) = NULLP \<longleftrightarrow> x = p \<or> p_rlink (procs s x) = NULLP"
proof -
  have n: "fwd s (Proc p) \<noteq> NULLP" "bwd s (Proc p) \<noteq> NULLP" "fwd s (Proc p) \<noteq> Proc p" using ring_links [OF q i, of p] l by simp_all
  define r where "r = remque (Proc p) s"
  define t where "t = (if fwd s (Proc p) = bwd s (Proc p) then r\<lparr>whichqs := unset_bit i (whichqs r)\<rparr> else r)"
  have r: "fwd r = (fwd s)(bwd s (Proc p) := fwd s (Proc p))" "bwd r = (bwd s)(fwd s (Proc p) := bwd s (Proc p))"
    unfolding r_def by (rule remque_fwd remque_bwd; rule n)+
  have t: "fwd t = fwd r" "bwd t = bwd r" "core t = core s" "globals t = globals s" "sq_head t = sq_head s" "sq_tailp t = sq_tailp s"
    by (simp_all add: t_def r_def)
  have u: "unring p i s = upd p (p_rlink_update (\<lambda>_. NULLP)) t" by (simp add: unring_def Let_def t_def r_def)
  have f: "fwd (unring p i s) = (fwd s)(bwd s (Proc p) := fwd s (Proc p))" by (simp add: u fwd_upd t(1) r(1) del: fwd.simps bwd.simps)
  have b: "bwd (unring p i s) = (bwd s)(fwd s (Proc p) := bwd s (Proc p), Proc p := NULLP)"
  proof
    fix x show "bwd (unring p i s) x = ((bwd s)(fwd s (Proc p) := bwd s (Proc p), Proc p := NULLP)) x"
      using fun_cong [OF r(2), of x] fun_cong [OF t(2), of x] by (cases x) (auto simp: u)
  qed
  show c: "core (unring p i s) = core s" using t(3) by (simp add: u core_def fun_eq_iff)
  show "globals (unring p i s) = globals s" by (simp add: u t)
  have w: "bit (whichqs (unring p i s)) j = (if j = i \<and> fwd s (Proc p) = bwd s (Proc p) then False else bit (whichqs s) j)" if "j < 32" for j
    using that by (simp add: u t_def r_def bit_unset_bit_iff del: fwd.simps bwd.simps)
  show "queues (unring p i s) (sl(i := sl i)) (rq(i := xs @ ys))"
    using queues_unring [OF q i l f b w c] t(5,6) by (simp add: u)
  show "p_rlink (procs (unring p i s) x) = NULLP \<longleftrightarrow> x = p \<or> p_rlink (procs s x) = NULLP"
  proof -
    have "p_rlink (procs (unring p i s) y) \<noteq> NULLP \<longleftrightarrow> y \<noteq> p \<and> p_rlink (procs s y) \<noteq> NULLP" for y
    proof (cases "y = p")
      case False
      have q': "queues (unring p i s) sl (rq(i := xs @ ys))" using \<open>queues (unring p i s) (sl(i := sl i)) (rq(i := xs @ ys))\<close> by simp
      have "(\<exists>j < 32. y \<in> set ((rq(i := xs @ ys)) j)) \<longleftrightarrow> (\<exists>j < 32. y \<in> set (rq j))" using l False by (auto split: if_splits)
      then show ?thesis using False on_runq [OF q', of y] on_runq [OF q, of y] by blast
    qed (simp add: u)
    then show ?thesis by blast
  qed
qed

lemma remrq_unring: "bit (whichqs s) (prq (p_pri (procs s p))) \<Longrightarrow> remrq p s = Inr (unring p (prq (p_pri (procs s p))) s)"
  by (simp add: remrq_def unring_def Let_def del: fwd.simps bwd.simps)

lemma remrq_ok:
  assumes ok: "queues s sl rq" and p: "p_rlink (procs s p) \<noteq> NULLP"
  obtains i xs ys where "i < 32" "i = prq (p_pri (procs s p))" "rq i = xs @ p # ys" "remrq p s = Inr (unring p i s)"
proof -
  define i where "i = prq (p_pri (procs s p))"
  have i: "i < 32" using queuesD(3) [OF ok p] by (simp add: i_def)
  then have "p \<in> set (rq i)" using queues_mem(2) [OF ok i] p by (simp add: i_def)
  moreover from this have "bit (whichqs s) i" using queuesD(2) [OF ok i] by (auto simp: runq_def)
  moreover obtain xs ys where "rq i = xs @ p # ys" using calculation(1) by (meson split_list)
  ultimately show ?thesis using that i remrq_unring [of s p] i_def by blast
qed

text \<open>Nothing runs: the processor is given up.\<close>

definition idle_ok :: "sched \<Rightarrow> bool" where
  "idle_ok s = sched_ok (s\<lparr>noproc := True\<rparr>)"

lemma fwd_cpu [simp]: "fwd (s\<lparr>noproc := b\<rparr>) = fwd s" "fwd (s\<lparr>runrun := n\<rparr>) = fwd s" "fwd (s\<lparr>u_procp := p\<rparr>) = fwd s"
  "bwd (s\<lparr>noproc := b\<rparr>) = bwd s" "bwd (s\<lparr>runrun := n\<rparr>) = bwd s" "bwd (s\<lparr>u_procp := p\<rparr>) = bwd s"
  "fwd (s\<lparr>nvcsw := n\<rparr>) = fwd s" "bwd (s\<lparr>nvcsw := n\<rparr>) = bwd s" "fwd (s\<lparr>nivcsw := n\<rparr>) = fwd s" "bwd (s\<lparr>nivcsw := n\<rparr>) = bwd s"
  by (rule fwd_eqI bwd_eqI; simp)+

lemma queues_cpu [simp]: "queues (s\<lparr>noproc := b\<rparr>) sl rq = queues s sl rq" "queues (s\<lparr>runrun := n\<rparr>) sl rq = queues s sl rq"
  "queues (s\<lparr>u_procp := p\<rparr>) sl rq = queues s sl rq" "queues (s\<lparr>nvcsw := n\<rparr>) sl rq = queues s sl rq"
  "queues (s\<lparr>nivcsw := n\<rparr>) sl rq = queues s sl rq"
  by (simp_all add: queues_def sleepq_def runq_def)

lemma core_cpu [simp]: "core (s\<lparr>noproc := b\<rparr>) = core s" "core (s\<lparr>runrun := n\<rparr>) = core s" "core (s\<lparr>u_procp := p\<rparr>) = core s"
  "core (s\<lparr>nvcsw := n\<rparr>) = core s" "core (s\<lparr>nivcsw := n\<rparr>) = core s"
  by (simp_all add: core_def fun_eq_iff)

lemma first_bit_split: "first_bit ns w = Some i \<Longrightarrow> \<exists>as bs. ns = as @ i # bs \<and> bit w i \<and> (\<forall>j \<in> set as. \<not> bit w j)"
proof (induction ns)
  case (Cons n ns)
  show ?case
  proof (cases "bit w n")
    case False
    then obtain as bs where "ns = as @ i # bs" "bit w i" "\<forall>j \<in> set as. \<not> bit w j" using Cons by auto
    then have "n # ns = (n # as) @ i # bs \<and> bit w i \<and> (\<forall>j \<in> set (n # as). \<not> bit w j)" using False by simp
    then show ?thesis by blast
  next
    case True
    then have "n # ns = [] @ i # ns \<and> bit w i \<and> (\<forall>j \<in> set []. \<not> bit w j)" using Cons.prems by simp
    then show ?thesis by blast
  qed
qed simp

lemma first_bit_None: "first_bit ns w = None \<longleftrightarrow> (\<forall>j \<in> set ns. \<not> bit w j)"
  by (induction ns) auto

lemma first_bit_Some:
  assumes "first_bit [0..<m] w = Some i"
  shows "i < m" "bit w i" "j < i \<Longrightarrow> \<not> bit w j"
proof -
  obtain as bs where l: "[0..<m] = as @ i # bs" "bit w i" "\<forall>j \<in> set as. \<not> bit w j" using first_bit_split [OF assms] by blast
  have "i \<in> set [0..<m]" unfolding l(1) by simp
  then show "i < m" "bit w i" using l(2) by auto
  have la: "length as < m" using arg_cong [OF l(1), of length] by simp
  have "i = [0..<m] ! length as" unfolding l(1) by simp
  then have i: "length as = i" using la by simp
  show "\<not> bit w j" if "j < i"
  proof -
    have "as ! j = [0..<m] ! j" unfolding l(1) using that i by (simp add: nth_append)
    also have "\<dots> = j" using that i la by simp
    finally have "j \<in> set as" using that i nth_mem [of j as] by simp
    then show ?thesis using l(3) by blast
  qed
qed

lemma swtch_unring:
  assumes "first_bit [0..<32] (whichqs s) = Some i" "ph_link s i = Proc p" "p_wchan (procs s p) = 0" "p_stat (procs s p) = SRUN"
  shows "swtch s = Inr ((unring p i (s\<lparr>noproc := True\<rparr>))\<lparr>noproc := False, runrun := 0, u_procp := p\<rparr>)"
proof -
  have "core (remque (Proc p) (s\<lparr>noproc := True\<rparr>)) p = core s p" by simp
  then have c: "p_wchan (procs (remque (Proc p) (s\<lparr>noproc := True\<rparr>)) p) = 0" "p_stat (procs (remque (Proc p) (s\<lparr>noproc := True\<rparr>)) p) = SRUN"
    using coreD(1,3) assms(3,4) by metis+
  show ?thesis using assms(1,2) c
    by (cases "fwd s (Proc p) = bwd s (Proc p)") (simp_all add: swtch_def unring_def Let_def upd_def)
qed

lemma idle_okD:
  assumes "idle_ok s"
  shows "\<exists>sl rq. queues s sl rq" "proc_ok (s\<lparr>noproc := True\<rparr>) p" "chans_ok (chans s)"
  using assms by (auto simp: idle_ok_def sched_ok_def)

lemma runq_whichqs:
  assumes "queues s sl rq" "p_rlink (procs s q) \<noteq> NULLP"
  shows "prq (p_pri (procs s q)) < 32" "bit (whichqs s) (prq (p_pri (procs s q)))"
proof -
  show i: "prq (p_pri (procs s q)) < 32" using queuesD(3) [OF assms] by simp
  have "q \<in> set (rq (prq (p_pri (procs s q))))" using queues_mem(2) [OF assms(1) i] assms(2) by simp
  then show "bit (whichqs s) (prq (p_pri (procs s q)))" using queuesD(2) [OF assms(1) i] by (auto simp: runq_def)
qed

text \<open>The processor goes to the process that has waited longest on the run queue of the best priority.\<close>

lemma swtch_ok:
  assumes "idle_ok s"
  obtains s' where "swtch s = Inr s'" "sched_ok s'" "core s' = core s" "runout s' = runout s" "chans s' = chans s"
    "noproc s' \<Longrightarrow> (\<forall>q. p_rlink (procs s q) = NULLP) \<and> s' = s\<lparr>noproc := True\<rparr>"
    "\<not> noproc s' \<Longrightarrow> p_rlink (procs s (u_procp s')) \<noteq> NULLP \<and>
      (\<forall>q. p_rlink (procs s q) \<noteq> NULLP \<longrightarrow> prq (p_pri (procs s (u_procp s'))) \<le> prq (p_pri (procs s q)))"
proof -
  obtain sl rq where q: "queues s sl rq" using idle_okD(1) [OF assms] by blast
  show ?thesis
  proof (cases "first_bit [0..<32] (whichqs s)")
    case None
    then have "p_rlink (procs s q) = NULLP" for q using runq_whichqs [OF q, of q] by (fastforce simp: first_bit_None)
    moreover have "swtch s = Inr (s\<lparr>noproc := True\<rparr>)" using None by (simp add: swtch_def)
    moreover have "sched_ok (s\<lparr>noproc := True\<rparr>)" using assms by (simp add: idle_ok_def)
    ultimately show ?thesis using that [of "s\<lparr>noproc := True\<rparr>"] by simp
  next
    case (Some i)
    note b = first_bit_Some [OF Some]
    have ne: "rq i \<noteq> []" using queuesD(2) [OF q b(1)] b(2) by (simp add: runq_def)
    define p where "p = hd (rq i)"
    have l: "rq i = [] @ p # tl (rq i)" using ne by (simp add: p_def)
    have m: "p_rlink (procs s p) \<noteq> NULLP" "prq (p_pri (procs s p)) = i" using queues_mem(2) [OF q b(1), of p] ne by (simp_all add: p_def)
    have st: "p_stat (procs s p) = SRUN" "p_wchan (procs s p) = 0"
      using idle_okD(2) [OF assms, of p] m(1) queuesD(3) [OF q m(1)] by (auto simp: proc_ok_def Let_def)
    let ?t = "s\<lparr>noproc := True\<rparr>"
    have qt: "queues ?t sl rq" using q by simp
    note u = unring_ok [OF qt b(1) l]
    define s' where "s' = (unring p i ?t)\<lparr>noproc := False, runrun := 0, u_procp := p\<rparr>"
    have sw: "swtch s = Inr s'" unfolding s'_def using Some runq_head [OF q b(1)] ne st by (intro swtch_unring) (simp_all add: p_def)
    have c: "core s' = core s" using u(2) by (simp add: s'_def)
    have g: "runout s' = runout s" "chans s' = chans s" "u_procp s' = p" "\<not> noproc s'"
      using globalsD [OF u(3)] by (simp_all add: s'_def)
    have rl: "p_rlink (procs s' x) = NULLP \<longleftrightarrow> x = p \<or> p_rlink (procs s x) = NULLP" for x using u(4) [of x] by (simp add: s'_def)
    have "proc_ok s' x" for x
    proof -
      have cx: "core s' x = core s x" by (simp add: c)
      note e = coreD(1,3,4) [OF cx] ranges_core [OF cx]
      have k: "proc_ok ?t x" by (rule idle_okD(2) [OF assms])
      show ?thesis
      proof (cases "x = p")
        case True
        have "p_rlink (procs s' p) = NULLP" using rl by blast
        moreover have "ranges (procs s p)" using k True by (simp add: proc_ok_def Let_def)
        ultimately show ?thesis unfolding proc_ok_def Let_def e unfolding True st g(3) using g(4) by simp
      next
        case False
        have "p_rlink (procs s' x) = NULLP \<longleftrightarrow> p_rlink (procs s x) = NULLP" using rl False by blast
        moreover have "procs ?t x = procs s x" "noproc ?t" by simp_all
        ultimately show ?thesis using k False g(4) unfolding proc_ok_def Let_def e g(3) by metis
      qed
    qed
    moreover have "p_stat (procs s' p) = SRUN" using st(1) coreD(3) [of s' p s] by (simp add: c)
    then have "cur_ok s'" using rl [of p] g by (simp add: cur_ok_def)
    moreover have "\<exists>sl rq. queues s' sl rq" using u(1) by (auto simp: s'_def)
    ultimately have "sched_ok s'" using idle_okD(3) [OF assms] g by (simp add: sched_ok_def)
    moreover have "i \<le> prq (p_pri (procs s x))" if "p_rlink (procs s x) \<noteq> NULLP" for x
      using runq_whichqs(2) [OF q that] b(3) by (meson not_le)
    ultimately show ?thesis
      by (intro that [OF sw _ c g(1,2)]) (simp_all only: g m not_True_eq_False, simp_all)
  qed
qed

section \<open>Operations that change one process\<close>

lemma change_ok:
  assumes ok: "sched_ok s" and same: "fwd s' = fwd s" "bwd s' = bwd s" "sq_head s' = sq_head s" "sq_tailp s' = sq_tailp s" "whichqs s' = whichqs s"
      "u_procp s' = u_procp s" "chans s' = chans s" "\<And>x. x \<noteq> p \<Longrightarrow> procs s' x = procs s x"
      "p_wchan (procs s' p) = p_wchan (procs s p)"
    and n: "noproc s' = noproc s \<or> noproc s' \<and> u_procp s = p"
    and pri: "p_rlink (procs s p) \<noteq> NULLP \<Longrightarrow> prq (p_pri (procs s' p)) = prq (p_pri (procs s p))"
    and p: "proc_ok s' p" "cur_ok s'"
  shows "sched_ok s'"
proof -
  obtain sl rq where q: "queues s sl rq" using sched_okD(4) [OF ok] by blast
  have "queues s' sl rq"
  proof (rule queues_cong [OF q same(1-5)])
    fix x show "p_wchan (procs s' x) = p_wchan (procs s x)" using same(8,9) by (cases "x = p") auto
    fix x assume "p_rlink (procs s x) \<noteq> NULLP"
    then show "prq (p_pri (procs s' x)) = prq (p_pri (procs s x))" using same(8) pri by (cases "x = p") auto
  qed
  moreover have "proc_ok s' x" for x
  proof (cases "x = p")
    case False
    have k: "proc_ok s x" by (rule sched_okD(1) [OF ok])
    show ?thesis using n
    proof
      assume "noproc s' = noproc s"
      then show ?thesis using k same(8) [OF False] same(6) unfolding proc_ok_def by metis
    next
      assume "noproc s' \<and> u_procp s = p"
      then show ?thesis using k same(8) [OF False] same(6) False unfolding proc_ok_def Let_def by metis
    qed
  qed (use p in simp)
  ultimately show ?thesis using p(2) sched_okD(3) [OF ok] same(7) by (auto simp: sched_ok_def)
qed

lemma prq_div: "0 \<le> a \<Longrightarrow> a < 128 \<Longrightarrow> prq a = nat (a div 4)"
  by (simp add: prq_def nat_div_distrib)

lemma cur_not_queued: "sched_ok s \<Longrightarrow> p_rlink (procs s p) \<noteq> NULLP \<Longrightarrow> noproc s \<or> u_procp s \<noteq> p"
  using sched_okD(2) [of s] by (auto simp: cur_ok_def)

lemma clamp255_le: "clamp255 a \<le> 255"
  by (auto simp: clamp255_def)

text \<open>One process in \<open>schedcpu\<close>: the part before the run queues.\<close>

definition sched_age :: "proc \<Rightarrow> proc" where
  "sched_age x = x\<lparr>p_time := (if p_time x \<noteq> 127 then p_time x + 1 else p_time x),
     p_slptime := (if (p_stat x = SSLEEP \<or> p_stat x = SSTOP) \<and> p_slptime x \<noteq> 127 then p_slptime x + 1 else p_slptime x)\<rparr>"

lemma upd_ok:
  assumes ok: "sched_ok s" and f: "\<And>x. p_link (f x) = p_link x" "\<And>x. p_rlink (f x) = p_rlink x" "\<And>x. p_wchan (f x) = p_wchan x"
    "\<And>x. p_stat (f x) = p_stat x" "\<And>x. p_SLOAD (f x) = p_SLOAD x" and r: "ranges (f (procs s p))"
    and pri: "p_rlink (procs s p) \<noteq> NULLP \<Longrightarrow> prq (p_pri (f (procs s p))) = prq (p_pri (procs s p))"
  shows "sched_ok (upd p f s)"
proof (rule change_ok [OF ok, of _ p])
  have k: "proc_ok s p" by (rule sched_okD(1) [OF ok])
  have e: "procs (upd p f s) p = f (procs s p)" "u_procp (upd p f s) = u_procp s" "noproc (upd p f s) = noproc s" by simp_all
  show "proc_ok (upd p f s) p" using k r unfolding proc_ok_def Let_def e f by metis
  show "cur_ok (upd p f s)" using sched_okD(2) [OF ok] f by (auto simp: cur_ok_def)
qed (use f pri in \<open>simp_all add: fwd_upd bwd_upd\<close>)

lemma ranges_simps [simp]:
  "ranges (x\<lparr>p_pctcpu := c\<rparr>) = ranges x" "ranges (x\<lparr>p_cpticks := t\<rparr>) = ranges x" "ranges (x\<lparr>p_stat := st\<rparr>) = ranges x"
  "ranges (x\<lparr>p_SLOAD := b\<rparr>) = ranges x" "ranges (x\<lparr>p_sig := w\<rparr>) = ranges x" "ranges (x\<lparr>p_cursig := n\<rparr>) = ranges x"
  "ranges (x\<lparr>p_SWTED := b\<rparr>) = ranges x" "ranges (x\<lparr>p_wchan := w\<rparr>) = ranges x"
  by (simp_all add: ranges_def)

lemma ranges_age: "ranges x \<Longrightarrow> ranges (sched_age x)"
  by (auto simp: ranges_def sched_age_def)

lemma sched_age_fields [simp]: "p_link (sched_age x) = p_link x" "p_rlink (sched_age x) = p_rlink x" "p_wchan (sched_age x) = p_wchan x"
  "p_stat (sched_age x) = p_stat x" "p_SLOAD (sched_age x) = p_SLOAD x" "p_pri (sched_age x) = p_pri x"
  by (simp_all add: sched_age_def)

lemma setpri_ok:
  assumes "sched_ok s" shows "sched_ok (setpri_proc p s)"
proof -
  have r: "ranges (procs s p)" using sched_okD(1) [OF assms, of p] by (simp add: proc_ok_def Let_def)
  have "sched_ok (upd p (p_usrpri_update (\<lambda>_. usrpri_of s (procs s p))) t)" if "sched_ok t" "procs t = procs s" for t
    using that r usrpri_bounds [of "procs s p" s] by (intro upd_ok) (auto simp: ranges_def)
  then show ?thesis using assms by (simp add: setpri_proc_def Let_def)
qed

text \<open>A process that leaves its run queue and goes to the end of another.\<close>

lemma requeue_ok:
  assumes ok: "sched_ok s" and p: "p_rlink (procs s p) \<noteq> NULLP"
  obtains s1 s2 where "remrq p s = Inr s1" "core s1 = core s" "setrq p (upd p (\<lambda>x. x\<lparr>p_pri := p_usrpri x\<rparr>) s1) = Inr s2" "sched_ok s2"
    "\<And>x. core s2 x = (if x = p then (core s p)\<lparr>p_pri := p_usrpri (core s p)\<rparr> else core s x)" "globals s2 = globals s"
proof -
  obtain sl rq where q: "queues s sl rq" using sched_okD(4) [OF ok] by blast
  have k: "proc_ok s x" for x by (rule sched_okD(1) [OF ok])
  have ps: "p_stat (procs s p) = SRUN" "p_SLOAD (procs s p)" "ranges (procs s p)" "p_wchan (procs s p) = 0"
    using k [of p] p queuesD(3) [OF q p] by (auto simp: proc_ok_def Let_def)
  obtain i xs ys where l: "i < 32" "i = prq (p_pri (procs s p))" "rq i = xs @ p # ys" "remrq p s = Inr (unring p i s)"
    using remrq_ok [OF q p] by blast
  define s1 where "s1 = unring p i s"
  note u = unring_ok [OF q l(1,3), folded s1_def]
  have ps1: "p_stat (procs s1 p) = SRUN" "p_SLOAD (procs s1 p)" "ranges (procs s1 p)" "p_wchan (procs s1 p) = 0"
    using ps coreD(1,3,4) [of s1 p s] ranges_core [of s1 p s p] u(2) by simp_all
  define t where "t = upd p (\<lambda>x. x\<lparr>p_pri := p_usrpri x\<rparr>) s1"
  have tq: "queues t sl (rq(i := xs @ ys))"
    by (rule queues_cong [OF u(1) [simplified]]) (auto simp: t_def fwd_upd bwd_upd u(4))
  have rl: "p_rlink (procs t x) = NULLP \<longleftrightarrow> x = p \<or> p_rlink (procs s x) = NULLP" for x using u(4) [of x] u(4) [of p] by (simp add: t_def)
  have tc: "core t x = (if x = p then (core s p)\<lparr>p_pri := p_usrpri (core s p)\<rparr> else core s x)" for x
  proof -
    have "core t x = (if x = p then (core s1 p)\<lparr>p_pri := p_usrpri (core s1 p)\<rparr> else core s1 x)" by (simp add: t_def core_def)
    then show ?thesis using u(2) by simp
  qed
  have tg: "globals t = globals s" using u(3) by (simp add: t_def)
  have cur: "noproc s \<or> u_procp s \<noteq> p" using cur_not_queued [OF ok p] .
  have o: "proc_ok t x" if "x \<noteq> p" for x
    using k [of x] proc_ok_core [of t x s] tc [of x] rl [of x] that globalsD(1,2) [OF tg] by simp
  have tp: "p_rlink (procs t p) = NULLP" "p_wchan (procs t p) = 0" "p_stat (procs t p) = SRUN" "ranges (procs t p)" "p_SLOAD (procs t p)"
    using rl [of p] ps1 by (simp_all add: t_def ranges_def)
  have tcur: "cur_ok t" using sched_okD(2) [OF ok] cur rl [of "u_procp s"] coreD(3) [of t "u_procp s" s] tc [of "u_procp s"] globalsD(1,2) [OF tg]
    by (auto simp: cur_ok_def)
  have pre: "noproc t \<or> u_procp t \<noteq> p" "chans_ok (chans t)" using cur globalsD [OF tg] sched_okD(3) [OF ok] by simp_all
  obtain s2 rq2 where s2: "enter_rq p t = Inr s2" "queues s2 sl rq2" "core s2 = core t" "globals s2 = globals t" "sched_ok s2"
  proof (rule enter_rq_ok [OF tq tp(1-4) _ pre(1) tcur pre(2)])
    fix x assume "x \<noteq> p" then show "proc_ok t x" by (rule o)
  next
    fix w rq' assume "enter_rq p t = Inr w" "queues w sl rq'" "core w = core t" "globals w = globals t" "sched_ok w"
    then show thesis by (rule that)
  qed
  show thesis
  proof (rule that)
    show "remrq p s = Inr s1" using l(4) by (simp add: s1_def)
    show "core s1 = core s" by (rule u(2))
    show "setrq p (upd p (\<lambda>x. x\<lparr>p_pri := p_usrpri x\<rparr>) s1) = Inr s2" using s2(1) tp(5) by (simp add: enter_rq_def t_def)
    show "sched_ok s2" by (rule s2(5))
    show "core s2 x = (if x = p then (core s p)\<lparr>p_pri := p_usrpri (core s p)\<rparr> else core s x)" for x using s2(3) tc [of x] by simp
    show "globals s2 = globals s" using s2(4) tg by simp
  qed
qed

text \<open>The recomputation of a priority keeps the invariant and never panics.\<close>

definition same_cpu :: "sched \<Rightarrow> sched \<Rightarrow> bool" where
  "same_cpu s s' = (u_procp s' = u_procp s \<and> noproc s' = noproc s \<and> runout s' = runout s \<and> chans s' = chans s)"

lemma schedcpu_proc_ok:
  assumes ok: "sched_ok s"
  obtains s' where "schedcpu_proc p s = Inr s'" "sched_ok s'" "same_cpu s s'"
    "\<And>x. p_wchan (procs s' x) = p_wchan (procs s x) \<and> p_stat (procs s' x) = p_stat (procs s x) \<and> p_SLOAD (procs s' x) = p_SLOAD (procs s x)"
proof -
  have k: "proc_ok s p" by (rule sched_okD(1) [OF ok])
  have r0: "ranges (procs s p)" using k by (simp add: proc_ok_def Let_def)
  define s1 where "s1 = upd p sched_age s"
  have ok1: "sched_ok s1" unfolding s1_def by (rule upd_ok [OF ok]) (simp_all add: ranges_age r0)
  define s2 where "s2 = upd p (\<lambda>x. x\<lparr>p_pctcpu := ccpu * p_pctcpu x + (1 - ccpu) / of_int (shz s1) * of_int (p_cpticks x), p_cpticks := 0\<rparr>) s1"
  define s3 where "s3 = upd p (\<lambda>x. x\<lparr>p_cpu := clamp255 (int (decay (avenrun s2) (p_cpu x)) + p_nice x)\<rparr>) s2"
  define s4 where "s4 = setpri_proc p s3"
  have ok2: "sched_ok s2" unfolding s2_def using sched_okD(1) [OF ok1, of p] by (intro upd_ok [OF ok1]) (simp_all add: proc_ok_def Let_def)
  have r2: "ranges (procs s2 p)" using sched_okD(1) [OF ok2, of p] by (simp add: proc_ok_def Let_def)
  have ok3: "sched_ok s3" unfolding s3_def using r2 by (intro upd_ok [OF ok2]) (auto simp: ranges_def clamp255_le)
  have ok4: "sched_ok s4" unfolding s4_def by (rule setpri_ok [OF ok3])
  have same: "p_wchan (procs s4 x) = p_wchan (procs s x)" "p_stat (procs s4 x) = p_stat (procs s x)" "p_SLOAD (procs s4 x) = p_SLOAD (procs s x)" for x
    by (simp_all add: s4_def s3_def s2_def s1_def)
  have sc: "same_cpu s s4" by (simp add: same_cpu_def s4_def s3_def s2_def s1_def)
  have eq: "schedcpu_proc p s = (if 1 < p_slptime (procs s1 p) then Inr (upd p (\<lambda>x. x\<lparr>p_pctcpu := p_pctcpu x * ccpu\<rparr>) s1)
     else if p_pri (procs s4 p) < PUSER then Inr s4
     else if (p \<noteq> u_procp s4 \<or> noproc s4) \<and> p_stat (procs s4 p) = SRUN \<and> p_SLOAD (procs s4 p) \<and> p_pri (procs s4 p) div PPQ \<noteq> p_usrpri (procs s4 p) div PPQ
       then kbind (remrq p s4) (\<lambda>s. setrq p (upd p (\<lambda>x. x\<lparr>p_pri := p_usrpri x\<rparr>) s))
       else Inr (upd p (\<lambda>x. x\<lparr>p_pri := p_usrpri x\<rparr>) s4))"
    unfolding schedcpu_proc_def Let_def s4_def s3_def s2_def s1_def sched_age_def by (rule refl)
  consider (asleep) "1 < p_slptime (procs s1 p)" | (kernel) "\<not> 1 < p_slptime (procs s1 p)" "p_pri (procs s4 p) < PUSER"
    | (move) "\<not> 1 < p_slptime (procs s1 p)" "\<not> p_pri (procs s4 p) < PUSER"
       "(p \<noteq> u_procp s4 \<or> noproc s4) \<and> p_stat (procs s4 p) = SRUN \<and> p_SLOAD (procs s4 p) \<and> p_pri (procs s4 p) div PPQ \<noteq> p_usrpri (procs s4 p) div PPQ"
    | (stay) "\<not> 1 < p_slptime (procs s1 p)" "\<not> p_pri (procs s4 p) < PUSER"
       "\<not> ((p \<noteq> u_procp s4 \<or> noproc s4) \<and> p_stat (procs s4 p) = SRUN \<and> p_SLOAD (procs s4 p) \<and> p_pri (procs s4 p) div PPQ \<noteq> p_usrpri (procs s4 p) div PPQ)"
    by blast
  then show thesis
  proof cases
    case asleep
    have r1: "ranges (procs s1 p)" using sched_okD(1) [OF ok1, of p] by (simp add: proc_ok_def Let_def)
    have "sched_ok (upd p (\<lambda>x. x\<lparr>p_pctcpu := p_pctcpu x * ccpu\<rparr>) s1)" by (rule upd_ok [OF ok1]) (simp_all add: r1)
    then show thesis using that [of "upd p (\<lambda>x. x\<lparr>p_pctcpu := p_pctcpu x * ccpu\<rparr>) s1"] eq asleep
      by (simp add: same_cpu_def s1_def)
  next
    case kernel
    then have "schedcpu_proc p s = Inr s4" unfolding eq by simp
    then show thesis using that ok4 sc same by blast
  next
    case move
    have "p_rlink (procs s4 p) \<noteq> NULLP" using sched_okD(1) [OF ok4, of p] move(3) unfolding proc_ok_def Let_def by blast
    then obtain t u where t: "remrq p s4 = Inr t" "core t = core s4" "setrq p (upd p (\<lambda>x. x\<lparr>p_pri := p_usrpri x\<rparr>) t) = Inr u" "sched_ok u"
      "\<And>x. core u x = (if x = p then (core s4 p)\<lparr>p_pri := p_usrpri (core s4 p)\<rparr> else core s4 x)" "globals u = globals s4"
      using requeue_ok [OF ok4] by blast
    have "schedcpu_proc p s = Inr u" unfolding eq if_not_P [OF move(1)] if_not_P [OF move(2)] if_P [OF move(3)] t(1) by (simp add: t(3))
    moreover have "same_cpu s u" using sc globalsD [OF t(6)] by (simp add: same_cpu_def)
    moreover have "p_wchan (procs u x) = p_wchan (procs s x) \<and> p_stat (procs u x) = p_stat (procs s x) \<and> p_SLOAD (procs u x) = p_SLOAD (procs s x)" for x
    proof -
      have "p_wchan (core u x) = p_wchan (core s4 x)" "p_stat (core u x) = p_stat (core s4 x)" "p_SLOAD (core u x) = p_SLOAD (core s4 x)"
        using t(5) [of x] by simp_all
      then show ?thesis using same [of x] by (simp add: core_def)
    qed
    ultimately show thesis using that t(4) by blast
  next
    case stay
    have r4: "ranges (procs s4 p)" using sched_okD(1) [OF ok4, of p] by (simp add: proc_ok_def Let_def)
    have pq: "prq (p_usrpri (procs s4 p)) = prq (p_pri (procs s4 p))" if "p_rlink (procs s4 p) \<noteq> NULLP"
    proof -
      have "p_stat (procs s4 p) = SRUN" "p_SLOAD (procs s4 p)" using sched_okD(1) [OF ok4, of p] that unfolding proc_ok_def Let_def by blast+
      moreover have "noproc s4 \<or> u_procp s4 \<noteq> p" by (rule cur_not_queued [OF ok4 that])
      ultimately have "p_pri (procs s4 p) div PPQ = p_usrpri (procs s4 p) div PPQ" using stay(3) by auto
      then show ?thesis using r4 by (simp add: ranges_def prq_div PPQ_def)
    qed
    have "sched_ok (upd p (\<lambda>x. x\<lparr>p_pri := p_usrpri x\<rparr>) s4)"
      using r4 pq by (intro upd_ok [OF ok4]) (simp_all add: ranges_def)
    moreover have "same_cpu s (upd p (\<lambda>x. x\<lparr>p_pri := p_usrpri x\<rparr>) s4)" using sc by (simp add: same_cpu_def)
    moreover have "schedcpu_proc p s = Inr (upd p (\<lambda>x. x\<lparr>p_pri := p_usrpri x\<rparr>) s4)" unfolding eq if_not_P [OF stay(1)] if_not_P [OF stay(2)] if_not_P [OF stay(3)] by (rule refl)
    ultimately show thesis using that same by simp
  qed
qed

end
