(* ===== verification/Sig_ops.thy ===== *)
theory Sig_ops
  imports Sig Synch_ops
begin

text \<open>What sending a signal does to the receiver and to the queues.\<close>

section \<open>Signal masks\<close>

lemma bit_sigmask: "bit (sigmask sig) i \<longleftrightarrow> sig \<noteq> 0 \<and> i = sig - 1 \<and> i < 32"
  by (auto simp: sigmask_def bit_simps)

lemma sigmask_nonzero: "0 < sig \<Longrightarrow> sig < 33 \<Longrightarrow> w AND sigmask sig \<noteq> 0 \<longleftrightarrow> bit w (sig - 1)"
  by (auto simp: bit_eq_iff [where 'a = "32 word"] bit_and_iff bit_sigmask)

section \<open>The receiver\<close>

lemma post_sig_fields [simp]: "p_link (post_sig g a x) = p_link x" "p_rlink (post_sig g a x) = p_rlink x" "p_wchan (post_sig g a x) = p_wchan x"
  "p_stat (post_sig g a x) = p_stat x" "p_SLOAD (post_sig g a x) = p_SLOAD x" "p_pri (post_sig g a x) = p_pri x" "p_pptr (post_sig g a x) = p_pptr x"
  "p_slptime (post_sig g a x) = p_slptime x" "p_cursig (post_sig g a x) = p_cursig x"
  by (simp_all add: post_sig_def Let_def)

lemma post_sig_ranges: "ranges x \<Longrightarrow> ranges (post_sig g a x)"
  by (auto simp: post_sig_def Let_def ranges_def)

lemma post_sig_pending: "0 < g \<Longrightarrow> g < 32 \<Longrightarrow> bit (p_sig (post_sig g a x)) (g - 1)"
  by (auto simp: post_sig_def Let_def bit_simps bit_sigmask stopsigmask_def stopsigs_def)

text \<open>No other process is touched, unless it is the swapper that is woken.\<close>

definition others_same :: "nat \<Rightarrow> sched \<Rightarrow> sched \<Rightarrow> bool" where
  "others_same p s s' = ((\<forall>x. x \<noteq> p \<and> p_wchan (procs s x) \<noteq> addr_runout s \<longrightarrow> core s' x = core s x) \<and>
     u_procp s' = u_procp s \<and> noproc s' = noproc s \<and> chans s' = chans s)"

lemma others_refl [simp]: "others_same p s s"
  by (simp add: others_same_def)

lemma others_trans: "others_same p s s1 \<Longrightarrow> others_same p s1 s2 \<Longrightarrow> others_same p s s2"
proof -
  assume a: "others_same p s s1" "others_same p s1 s2"
  have "core s2 x = core s x" if "x \<noteq> p" "p_wchan (procs s x) \<noteq> addr_runout s" for x
  proof -
    have c: "core s1 x = core s x" using a(1) that by (simp add: others_same_def)
    then have "p_wchan (procs s1 x) \<noteq> addr_runout s1" using coreD(1) [OF c] a(1) that(2) by (simp add: others_same_def)
    then show ?thesis using a(2) c that(1) by (simp add: others_same_def)
  qed
  then show ?thesis using a by (simp add: others_same_def)
qed

lemma chans_upd [simp]: "chans (upd p f s) = chans s"
  by (simp add: upd_def)

lemma others_upd [simp]: "others_same p s (upd p f s)"
  by (simp add: others_same_def core_def)

lemma others_ast [simp]: "others_same p s (s\<lparr>astpend := b\<rparr>)"
  by (simp add: others_same_def core_def)

lemma sched_ok_ast [simp]: "sched_ok (s\<lparr>astpend := b\<rparr>) = sched_ok s"
proof -
  have "fwd (s\<lparr>astpend := b\<rparr>) = fwd s" "bwd (s\<lparr>astpend := b\<rparr>) = bwd s" by (rule fwd_eqI bwd_eqI; simp)+
  then show ?thesis by (simp add: sched_ok_def queues_def sleepq_def runq_def proc_ok_def cur_ok_def)
qed

lemma runs_others: "runs p (swapper_waits p s) s s' \<Longrightarrow> others_same p s s'"
  by (auto simp: runs_def others_same_def swapper_waits_def waiting_def split: if_splits)

lemma sched_okR: "sched_ok s \<Longrightarrow> ranges (procs s p)"
  using sched_okD(1) [of s p] by (simp add: proc_ok_def Let_def)

text \<open>A process that waits or is stopped is not on a run queue.\<close>

lemma off_queue: "sched_ok s \<Longrightarrow> p_stat (procs s p) \<noteq> SRUN \<Longrightarrow> p_rlink (procs s p) = NULLP"
  using sched_okD(1) [of s p] by (auto simp: proc_ok_def Let_def)

lemma sig_run_ok:
  assumes ok: "sched_ok s" and st: "p_stat (procs s p) \<in> {SSTOP, SSLEEP, SIDL}" and cur: "noproc s \<or> u_procp s \<noteq> p"
  obtains s' where "sig_run p s = Some (Inr s')" "sched_ok s'" "others_same p s s'"
    "p_stat (procs s' p) = SRUN" "p_wchan (procs s' p) = 0" "p_sig (procs s' p) = p_sig (procs s p)" "p_pri (procs s' p) \<le> PUSER"
    "p_pri (procs s' p) \<le> p_pri (procs s p)"
proof -
  define t where "t = (if PUSER < p_pri (procs s p) then upd p (\<lambda>x. x\<lparr>p_pri := PUSER\<rparr>) s else s)"
  have "sched_ok (upd p (\<lambda>x. x\<lparr>p_pri := PUSER\<rparr>) s)"
    using sched_okR [OF ok, of p] off_queue [OF ok, of p] st by (intro upd_ok [OF ok]) (auto simp: ranges_def)
  then have t: "sched_ok t" "p_stat (procs t p) = p_stat (procs s p)" "p_sig (procs t p) = p_sig (procs s p)"
    "p_pri (procs t p) \<le> PUSER" "p_pri (procs t p) \<le> p_pri (procs s p)" "noproc t = noproc s" "u_procp t = u_procp s" "others_same p s t"
    using ok by (simp_all add: t_def)
  obtain s' where s': "setrun p t = Some (Inr s')" "runs p (swapper_waits p t) t s'"
    using setrun_ok [OF t(1), of p] st cur t(2,6,7) by metis
  have r: "static (procs s' p) = static (procs t p)" "p_wchan (procs s' p) = 0" "p_stat (procs s' p) = SRUN" "sched_ok s'"
    using s'(2) by (simp_all add: runs_def ready_def)
  show thesis
    by (rule that [OF _ r(4) others_trans [OF t(8) runs_others [OF s'(2)]] r(3,2)])
      (use s'(1) staticD [OF r(1)] t in \<open>simp_all add: sig_run_def t_def [symmetric]\<close>)
qed

lemma unsleep_ok:
  assumes ok: "sched_ok s" and st: "p_stat (procs s p) = SSTOP"
  obtains s' where "unsleep p s = Some (Inr s')" "sched_ok s'" "others_same p s s'" "p_stat (procs s' p) = SSTOP" "p_wchan (procs s' p) = 0"
    "p_sig (procs s' p) = p_sig (procs s p)"
proof -
  obtain s' sl rq where u: "unsleep p s = Some (Inr s')" "queues s' sl rq" "bwd s' = bwd s" "globals s' = globals s"
    "\<And>x. core s' x = (if x = p then (core s p)\<lparr>p_wchan := 0\<rparr> else core s x)" using unsleep_queues [OF ok, of p] by metis
  note g = globalsD [OF u(4)]
  have rl: "p_rlink (procs s' x) = p_rlink (procs s x)" for x using fun_cong [OF u(3), of "Proc x"] by simp
  have cp: "p_stat (procs s' p) = SSTOP" "p_wchan (procs s' p) = 0" "p_sig (procs s' p) = p_sig (procs s p)" "ranges (procs s' p) = ranges (procs s p)"
    using arg_cong [OF u(5) [of p], of p_stat] arg_cong [OF u(5) [of p], of p_wchan] arg_cong [OF u(5) [of p], of p_sig]
      arg_cong [OF u(5) [of p], of ranges] st by (simp_all add: core_def ranges_def)
  have "proc_ok s' x" for x
  proof (cases "x = p")
    case True
    then show ?thesis using cp rl [of p] off_queue [OF ok, of p] st sched_okR [OF ok, of p] by (simp add: proc_ok_def Let_def)
  next
    case False
    then show ?thesis using sched_okD(1) [OF ok, of x] proc_ok_core [of s' x s] u(5) [of x] rl [of x] g by simp
  qed
  moreover have "cur_ok s'" using sched_okD(2) [OF ok] rl cp(1) coreD(3) [of s' "u_procp s" s] u(5) [of "u_procp s"] g
    by (cases "u_procp s = p") (auto simp: cur_ok_def)
  ultimately have "sched_ok s'" using u(2) sched_okD(3) [OF ok] g by (auto simp: sched_ok_def)
  moreover have "others_same p s s'" using u(5) g by (simp add: others_same_def)
  ultimately show thesis using that u(1) cp by blast
qed

section \<open>Sending\<close>

lemma post_ok: "sched_ok s \<Longrightarrow> sched_ok (upd p (post_sig g a) s)"
  using sched_okR [of s p] by (intro upd_ok) (simp_all add: post_sig_ranges)

lemma clear_ok [simp]: "sched_ok s \<Longrightarrow> sched_ok (clear_sig m p s)"
  using sched_okR [of s p] unfolding clear_sig_def by (intro upd_ok) simp_all

lemma clear_frame [simp]: "procs (clear_sig m p s) q = (if q = p then (procs s p)\<lparr>p_sig := p_sig (procs s p) AND NOT m\<rparr> else procs s q)"
  "others_same p s (clear_sig m p s)" "u_procp (clear_sig m p s) = u_procp s" "noproc (clear_sig m p s) = noproc s" "chans (clear_sig m p s) = chans s"
  by (simp_all add: clear_sig_def)

lemma cont_ok:
  assumes "sched_ok s" "p_stat (procs s p) = SSTOP" "p_wchan (procs s p) \<noteq> 0" "noproc s \<or> u_procp s \<noteq> p"
  shows "sched_ok (upd p (p_stat_update (\<lambda>_. SSLEEP)) s)"
proof (rule change_ok [OF assms(1), of _ p])
  show "proc_ok (upd p (p_stat_update (\<lambda>_. SSLEEP)) s) p"
    using assms off_queue [OF assms(1), of p] sched_okR [OF assms(1), of p] by (simp add: proc_ok_def Let_def)
  show "cur_ok (upd p (p_stat_update (\<lambda>_. SSLEEP)) s)" using sched_okD(2) [OF assms(1)] assms(4) by (auto simp: cur_ok_def)
qed (simp_all add: fwd_upd bwd_upd)

text \<open>The cases in which the receiver is made to run.\<close>

definition runs_it :: "nat \<Rightarrow> sigact \<Rightarrow> proc \<Rightarrow> bool" where
  "runs_it sig act x = (act \<noteq> SIG_HOLD \<and>
     (p_stat x = SSLEEP \<and> PZERO < p_pri x \<and> (p_STRC x \<or> act = SIG_CATCH \<or> sig \<notin> set stopsigs \<and> sig \<notin> set quietsigs) \<or>
      p_stat x = SSTOP \<and> \<not> p_STRC x \<and> (sig = SIGKILL \<or> sig = SIGCONT \<and> (act \<noteq> SIG_DFL \<or> p_wchan x = 0))))"

text \<open>The cases in which it stops.\<close>

definition stops_it :: "nat \<Rightarrow> sigact \<Rightarrow> proc \<Rightarrow> bool" where
  "stops_it sig act x = (act = SIG_DFL \<and> p_stat x = SSLEEP \<and> PZERO < p_pri x \<and> \<not> p_STRC x \<and> sig \<in> set stopsigs \<and>
     \<not> (sig \<noteq> SIGSTOP \<and> p_pptr x = 1) \<and> \<not> p_SVFORK x)"

text \<open>A child of \<^verbatim>\<open>init\<close> that a terminal signal would stop is killed.\<close>

definition kills_it :: "nat \<Rightarrow> sigact \<Rightarrow> proc \<Rightarrow> bool" where
  "kills_it sig act x = (act = SIG_DFL \<and> p_stat x = SSLEEP \<and> PZERO < p_pri x \<and> \<not> p_STRC x \<and> sig \<in> set stopsigs \<and> sig \<noteq> SIGSTOP \<and> p_pptr x = 1)"

lemma sigact_hold: "act \<noteq> SIG_HOLD \<Longrightarrow> act \<noteq> SIG_DFL \<Longrightarrow> act = SIG_CATCH"
  by (cases act) auto

text \<open>The two branches of the switch.\<close>

lemma psignal_sleeping:
  assumes "sig < 32" "sig_action (procs s p) (sigmask sig) = Some act" "act \<noteq> SIG_HOLD" "p_stat (procs s p) = SSLEEP"
  shows "psignal p sig s = (let x = procs s p; m = sigmask sig; s = upd p (post_sig sig act) s in
     if p_pri x \<le> PZERO then Some (Inr s)
     else if p_STRC x then sig_run p s
     else if sig \<in> set stopsigs then
       (if act \<noteq> SIG_DFL then sig_run p s
        else if sig \<noteq> SIGSTOP \<and> p_pptr x = 1 then sbind (psignal p SIGKILL s) (\<lambda>s. Some (Inr (clear_sig m p s)))
        else if p_SVFORK x then Some (Inr s)
        else sbind (psignal (p_pptr x) SIGCHLD (upd p (p_cursig_update (\<lambda>_. sig)) (clear_sig m p s))) (stop p))
     else if sig \<in> set quietsigs then (if act \<noteq> SIG_DFL then sig_run p s else Some (Inr (clear_sig m p s)))
     else sig_run p s)"
proof -
  have d: "\<not> 32 \<le> sig" using assms(1) by simp
  show ?thesis
    unfolding psignal.simps [of p sig s] if_not_P [OF d] Let_def assms(2) option.case if_not_P [OF assms(3)] if_P [OF assms(4)] by (rule refl)
qed

lemma psignal_stopped:
  assumes "sig < 32" "sig_action (procs s p) (sigmask sig) = Some act" "act \<noteq> SIG_HOLD" "p_stat (procs s p) = SSTOP"
  shows "psignal p sig s = (let x = procs s p; m = sigmask sig; s = upd p (post_sig sig act) s in
     if p_STRC x then Some (Inr s)
     else if sig = SIGKILL then sig_run p s
     else if sig = SIGCONT then
       (if act \<noteq> SIG_DFL \<or> p_wchan x = 0 then sig_run p s else Some (Inr (upd p (p_stat_update (\<lambda>_. SSLEEP)) s)))
     else if sig \<in> set stopsigs then Some (Inr (clear_sig m p s))
     else if p_wchan x \<noteq> 0 \<and> PZERO < p_pri x then unsleep p s
     else Some (Inr s))"
proof -
  have d: "\<not> 32 \<le> sig" "p_stat (procs s p) \<noteq> SSLEEP" using assms(1,4) by simp_all
  show ?thesis
    unfolding psignal.simps [of p sig s] if_not_P [OF d(1)] Let_def assms(2) option.case if_not_P [OF assms(3)] if_not_P [OF d(2)] if_P [OF assms(4)]
    by (rule refl)
qed

lemma psignal_runs:
  assumes "sig < 32" "sig_action (procs s p) (sigmask sig) = Some act" "runs_it sig act (procs s p)"
  shows "psignal p sig s = sig_run p (upd p (post_sig sig act) s)"
proof -
  have h: "act \<noteq> SIG_HOLD" using assms(3) by (simp add: runs_it_def)
  consider (a) "p_stat (procs s p) = SSLEEP" "\<not> p_pri (procs s p) \<le> PZERO" "p_STRC (procs s p)"
    | (b) "p_stat (procs s p) = SSLEEP" "\<not> p_pri (procs s p) \<le> PZERO" "act \<noteq> SIG_DFL"
    | (c) "p_stat (procs s p) = SSLEEP" "\<not> p_pri (procs s p) \<le> PZERO" "sig \<notin> set stopsigs" "sig \<notin> set quietsigs"
    | (d) "p_stat (procs s p) = SSTOP" "\<not> p_STRC (procs s p)" "sig = SIGKILL \<or> sig = SIGCONT \<and> (act \<noteq> SIG_DFL \<or> p_wchan (procs s p) = 0)"
    using assms(3) unfolding runs_it_def by force
  then show ?thesis
  proof cases
    case d
    then show ?thesis unfolding psignal_stopped [OF assms(1,2) h d(1)] Let_def by auto
  qed (unfold psignal_sleeping [OF assms(1,2) h] Let_def, simp_all)
qed

lemma psignal_stops:
  assumes "sig < 32" "sig_action (procs s p) (sigmask sig) = Some act" "stops_it sig act (procs s p)"
  shows "psignal p sig s = sbind (psignal (p_pptr (procs s p)) SIGCHLD (upd p (p_cursig_update (\<lambda>_. sig)) (clear_sig (sigmask sig) p (upd p (post_sig sig act) s)))) (stop p)"
proof -
  have h: "act \<noteq> SIG_HOLD" "p_stat (procs s p) = SSLEEP" "\<not> p_pri (procs s p) \<le> PZERO" using assms(3) by (simp_all add: stops_it_def)
  show ?thesis unfolding psignal_sleeping [OF assms(1,2) h(1,2)] Let_def if_not_P [OF h(3)] using assms(3) by (auto simp: stops_it_def)
qed

lemma psignal_kills:
  assumes "sig < 32" "sig_action (procs s p) (sigmask sig) = Some act" "kills_it sig act (procs s p)"
  shows "psignal p sig s = sbind (psignal p SIGKILL (upd p (post_sig sig act) s)) (\<lambda>s. Some (Inr (clear_sig (sigmask sig) p s)))"
proof -
  have h: "act \<noteq> SIG_HOLD" "p_stat (procs s p) = SSLEEP" "\<not> p_pri (procs s p) \<le> PZERO" using assms(3) by (simp_all add: kills_it_def)
  show ?thesis unfolding psignal_sleeping [OF assms(1,2) h(1,2)] Let_def if_not_P [OF h(3)] using assms(3) by (simp add: kills_it_def)
qed

text \<open>In all other cases its status changes only from stopped to asleep.\<close>

lemma psignal_else:
  assumes ok: "sched_ok s" and a: "sig_action (procs s p) (sigmask sig) = Some act" and n: "\<not> runs_it sig act (procs s p)"
    "\<not> stops_it sig act (procs s p)" "\<not> kills_it sig act (procs s p)" and sig: "sig < 32"
    and cur: "p_stat (procs s p) = SSTOP \<Longrightarrow> noproc s \<or> u_procp s \<noteq> p"
  obtains s' where "psignal p sig s = Some (Inr s')" "sched_ok s'" "others_same p s s'"
    "p_stat (procs s' p) = (if p_stat (procs s p) = SSTOP \<and> sig = SIGCONT \<and> \<not> p_STRC (procs s p) \<and> act \<noteq> SIG_HOLD then SSLEEP else p_stat (procs s p))"
    "p_stat (procs s p) = SSTOP \<or> p_wchan (procs s' p) = p_wchan (procs s p)"
    "p_stat (procs s p) = SRUN \<Longrightarrow> p_SLOAD (procs s' p) = p_SLOAD (procs s p)"
    "act = SIG_HOLD \<or> p_stat (procs s p) = SSLEEP \<and> p_pri (procs s p) \<le> PZERO \<Longrightarrow> p_sig (procs s' p) = p_sig (post_sig sig act (procs s p))"
proof -
  let ?x = "procs s p" and ?t = "upd p (post_sig sig act) s"
  have ot: "others_same p s ?t" by simp
  have d: "\<not> 32 \<le> sig" using sig by simp
  note unf = psignal.simps [of p sig s, unfolded if_not_P [OF d] Let_def a option.case]
  have t: "sched_ok ?t" by (rule post_ok [OF ok])
  consider (same) "psignal p sig s = Some (Inr ?t)" "p_stat ?x = SSTOP \<longrightarrow> sig \<noteq> SIGCONT \<or> p_STRC ?x \<or> act = SIG_HOLD"
    | (clear) "psignal p sig s = Some (Inr (clear_sig (sigmask sig) p ?t))" "act \<noteq> SIG_HOLD" "p_stat ?x = SSLEEP \<longrightarrow> PZERO < p_pri ?x" "sig \<noteq> SIGCONT"
    | (cont) "psignal p sig s = Some (Inr (upd p (p_stat_update (\<lambda>_. SSLEEP)) ?t))" "p_stat ?x = SSTOP" "p_wchan ?x \<noteq> 0" "sig = SIGCONT" "\<not> p_STRC ?x"
        "act \<noteq> SIG_HOLD"
    | (unsleep) "psignal p sig s = unsleep p ?t" "p_stat ?x = SSTOP" "sig \<noteq> SIGCONT" "act \<noteq> SIG_HOLD"
    | (running) "psignal p sig s = Some (Inr (if p = u_procp ?t \<and> \<not> noproc ?t then ?t\<lparr>astpend := True\<rparr> else ?t))" "p_stat ?x \<noteq> SSTOP" "p_stat ?x \<noteq> SSLEEP"
  proof (cases "act = SIG_HOLD")
    case True
    then have "psignal p sig s = Some (Inr ?t)" unfolding unf by simp
    then show ?thesis using same True by blast
  next
    case hold: False
    show ?thesis
    proof (cases "p_stat ?x = SSLEEP")
      case True
      note e = psignal_sleeping [OF sig a hold True, unfolded Let_def]
      consider "p_pri ?x \<le> PZERO" | "\<not> p_pri ?x \<le> PZERO" "\<not> p_STRC ?x" "sig \<in> set stopsigs" "act = SIG_DFL" "\<not> (sig \<noteq> SIGSTOP \<and> p_pptr ?x = 1)" "p_SVFORK ?x"
        | "\<not> p_pri ?x \<le> PZERO" "\<not> p_STRC ?x" "sig \<notin> set stopsigs" "sig \<in> set quietsigs" "act = SIG_DFL"
      proof (cases "p_pri ?x \<le> PZERO")
        case False
        then have r: "\<not> p_STRC ?x" "act \<noteq> SIG_CATCH" "sig \<in> set stopsigs \<or> sig \<in> set quietsigs"
          using n(1) hold True unfolding runs_it_def not_le by blast+
        then have d: "act = SIG_DFL" using sigact_hold [OF hold] by blast
        show ?thesis
        proof (cases "sig \<in> set stopsigs")
          case st: True
          have "\<not> (sig \<noteq> SIGSTOP \<and> p_pptr ?x = 1)" using n(3) d True False r st unfolding kills_it_def not_le by blast
          moreover have "p_SVFORK ?x" using calculation n(2) d True False r st unfolding stops_it_def not_le by blast
          ultimately show ?thesis using that(2) False r d st by blast
        next
          case False
          then show ?thesis using that(3) \<open>\<not> p_pri ?x \<le> PZERO\<close> r d by blast
        qed
      qed (use that in blast)
      then show ?thesis
      proof cases
        case 1 then have "psignal p sig s = Some (Inr ?t)" using e by simp
        then show ?thesis using same True by simp
      next
        case 2 then have "psignal p sig s = Some (Inr ?t)" using e by auto
        then show ?thesis using same True by simp
      next
        case 3 then have "psignal p sig s = Some (Inr (clear_sig (sigmask sig) p ?t))" using e by simp
        moreover have "sig \<noteq> SIGCONT" using 3(4) by (auto simp: quietsigs_def)
        ultimately show ?thesis using clear 3 hold by simp
      qed
    next
      case sleep: False
      show ?thesis
      proof (cases "p_stat ?x = SSTOP")
        case True
        note e = psignal_stopped [OF sig a hold True, unfolded Let_def]
        have k: "\<not> p_STRC ?x \<Longrightarrow> sig \<noteq> SIGKILL \<and> (sig = SIGCONT \<longrightarrow> act = SIG_DFL \<and> p_wchan ?x \<noteq> 0)"
          using n(1) hold True unfolding runs_it_def by blast
        have w: "sig \<noteq> SIGCONT" if "sig \<in> set stopsigs" using that by (auto simp: stopsigs_def)
        consider "p_STRC ?x" | "\<not> p_STRC ?x" "sig = SIGCONT" | "\<not> p_STRC ?x" "sig \<noteq> SIGCONT" "sig \<in> set stopsigs"
          | "\<not> p_STRC ?x" "sig \<noteq> SIGCONT" "sig \<notin> set stopsigs" "p_wchan ?x \<noteq> 0 \<and> PZERO < p_pri ?x"
          | "\<not> p_STRC ?x" "sig \<noteq> SIGCONT" "sig \<notin> set stopsigs" "\<not> (p_wchan ?x \<noteq> 0 \<and> PZERO < p_pri ?x)" by blast
        then show ?thesis
        proof cases
          case 1 then have "psignal p sig s = Some (Inr ?t)" using e by simp
          then show ?thesis using same 1 by blast
        next
          case 2 then have "psignal p sig s = Some (Inr (upd p (p_stat_update (\<lambda>_. SSLEEP)) ?t))" using e k by simp
          then show ?thesis using cont 2 k True hold by blast
        next
          case 3 then have "psignal p sig s = Some (Inr (clear_sig (sigmask sig) p ?t))" using e k by simp
          then show ?thesis using clear 3 hold sleep by blast
        next
          case 4 then have "psignal p sig s = unsleep p ?t" using e k by simp
          then show ?thesis using unsleep 4 True hold by blast
        next
          case 5 then have "psignal p sig s = Some (Inr ?t)" using e k by auto
          then show ?thesis using same 5 by blast
        qed
      next
        case False
        then have "psignal p sig s = Some (Inr (if p = u_procp ?t \<and> \<not> noproc ?t then ?t\<lparr>astpend := True\<rparr> else ?t))"
          unfolding unf using hold sleep by simp
        then show ?thesis using running False sleep by blast
      qed
    qed
  qed
  then show thesis
  proof cases
    case same
    show thesis by (rule that [OF same(1) t ot]) (use same(2) in auto)
  next
    case clear
    show thesis by (rule that [OF clear(1) clear_ok [OF t] others_trans [OF ot clear_frame(2)]]) (use clear in auto)
  next
    case cont
    have "sched_ok (upd p (p_stat_update (\<lambda>_. SSLEEP)) ?t)" using cont cur by (intro cont_ok [OF t]) auto
    then show thesis by (rule that [OF cont(1) _ others_trans [OF ot others_upd]]) (use cont in auto)
  next
    case unsleep
    obtain s' where u: "unsleep p ?t = Some (Inr s')" "sched_ok s'" "others_same p ?t s'" "p_stat (procs s' p) = SSTOP"
      using unsleep_ok [OF t, of p] unsleep(2) by auto
    show thesis by (rule that [of s']) (use u unsleep others_trans [OF ot u(3)] in auto)
  next
    case running
    show thesis by (rule that [OF running(1)]) (use running t others_trans [OF ot others_ast] in auto)
  qed
qed

section \<open>The whole of psignal\<close>

definition cur_runs :: "sched \<Rightarrow> bool" where
  "cur_runs s = (noproc s \<or> p_stat (procs s (u_procp s)) = SRUN)"

text \<open>Ready processes stay ready, and the same process runs.\<close>

definition stays :: "sched \<Rightarrow> sched \<Rightarrow> bool" where
  "stays s s' = ((\<forall>x. p_stat (procs s x) = SRUN \<longrightarrow> p_stat (procs s' x) = SRUN \<and> p_SLOAD (procs s' x) = p_SLOAD (procs s x)) \<and> u_procp s' = u_procp s \<and> noproc s' = noproc s \<and> chans s' = chans s)"

lemma stays_cur: "stays s s' \<Longrightarrow> cur_runs s \<Longrightarrow> cur_runs s'"
  by (auto simp: stays_def cur_runs_def)

lemma stays_trans: "stays s s1 \<Longrightarrow> stays s1 s2 \<Longrightarrow> stays s s2"
  by (auto simp: stays_def)

lemma others_stays:
  assumes "others_same p s s'" "sched_ok s" "p_stat (procs s p) = SRUN \<Longrightarrow> p_stat (procs s' p) = SRUN \<and> p_SLOAD (procs s' p) = p_SLOAD (procs s p)"
  shows "stays s s'"
proof -
  have "p_stat (procs s' x) = SRUN \<and> p_SLOAD (procs s' x) = p_SLOAD (procs s x)" if x: "p_stat (procs s x) = SRUN" "x \<noteq> p" for x
  proof -
    have "p_wchan (procs s x) = 0" using sched_okD(1) [OF assms(2), of x] x(1) by (auto simp: proc_ok_def Let_def)
    then have "core s' x = core s x" using assms(1) x(2) sched_okD(3) [OF assms(2)] by (auto simp: others_same_def chans_ok_def)
    then show ?thesis using x(1) coreD(3,4) by metis
  qed
  then show ?thesis using assms(1,3) by (auto simp: stays_def others_same_def)
qed

lemma wakes_stays:
  assumes "wakes W s s'" "sched_ok s" "\<And>x. x \<in> W \<Longrightarrow> p_wchan (procs s x) \<noteq> 0"
  shows "stays s s'"
proof -
  have "p_stat (procs s' x) = SRUN \<and> p_SLOAD (procs s' x) = p_SLOAD (procs s x)" if x: "p_stat (procs s x) = SRUN" for x
  proof -
    have "p_wchan (procs s x) = 0" using sched_okD(1) [OF assms(2), of x] x by (auto simp: proc_ok_def Let_def)
    then have "core s' x = core s x" using assms(1,3) by (auto simp: wakes_def)
    then show ?thesis using x coreD(3,4) by metis
  qed
  then show ?thesis using assms(1) by (auto simp: stays_def wakes_def)
qed

lemma cur_other: "cur_runs s \<Longrightarrow> p_stat (procs s p) \<noteq> SRUN \<Longrightarrow> noproc s \<or> u_procp s \<noteq> p"
  by (auto simp: cur_runs_def)

lemma psignal_ignored: "sig_action (procs s p) (sigmask sig) = None \<or> 32 \<le> sig \<Longrightarrow> psignal p sig s = Some (Inr s)"
  by (auto simp: psignal.simps [of p sig s])

lemma psignal_plain:
  assumes ok: "sched_ok s" and cur: "cur_runs s" and sig: "sig \<notin> set stopsigs"
  obtains s' where "psignal p sig s = Some (Inr s')" "sched_ok s'" "others_same p s s'" "stays s s'"
proof (cases "32 \<le> sig \<or> sig_action (procs s p) (sigmask sig) = None")
  case True
  then show ?thesis using that [of s] psignal_ignored [of s p sig] ok by (auto simp: stays_def)
next
  case False
  then obtain act where a: "sig < 32" "sig_action (procs s p) (sigmask sig) = Some act" by auto
  show ?thesis
  proof (cases "runs_it sig act (procs s p)")
    case True
    let ?t = "upd p (post_sig sig act) s"
    have st: "p_stat (procs s p) \<in> {SSTOP, SSLEEP, SIDL}" "p_stat (procs s p) \<noteq> SRUN" using True by (auto simp: runs_it_def)
    obtain s' where s': "sig_run p ?t = Some (Inr s')" "sched_ok s'" "others_same p ?t s'"
      using sig_run_ok [OF post_ok [OF ok, of p sig act], of p] st cur_other [OF cur st(2)] by auto
    have o: "others_same p s s'" using others_trans [OF others_upd s'(3)] .
    show ?thesis by (rule that [OF _ s'(2) o others_stays [OF o ok]]) (use s'(1) psignal_runs [OF a True] st(2) in simp_all)
  next
    case False
    obtain s' where s': "psignal p sig s = Some (Inr s')" "sched_ok s'" "others_same p s s'"
      "p_stat (procs s' p) = (if p_stat (procs s p) = SSTOP \<and> sig = SIGCONT \<and> \<not> p_STRC (procs s p) \<and> act \<noteq> SIG_HOLD then SSLEEP else p_stat (procs s p))"
      "p_stat (procs s p) = SRUN \<Longrightarrow> p_SLOAD (procs s' p) = p_SLOAD (procs s p)"
      using psignal_else [OF ok a(2) False _ _ a(1)] sig cur_other [OF cur, of p] by (auto simp: stops_it_def kills_it_def)
    show ?thesis by (rule that [OF s'(1-3) others_stays [OF s'(3) ok]]) (use s'(4,5) in simp)
  qed
qed

lemma stop_change_ok:
  assumes "sched_ok s" "p_stat (procs s p) = SSLEEP"
  shows "sched_ok (upd p (\<lambda>x. x\<lparr>p_stat := SSTOP, p_SWTED := False\<rparr>) s)"
proof (rule change_ok [OF assms(1), of _ p])
  show "proc_ok (upd p (\<lambda>x. x\<lparr>p_stat := SSTOP, p_SWTED := False\<rparr>) s) p"
    using assms off_queue [OF assms(1), of p] sched_okR [OF assms(1), of p] by (simp add: proc_ok_def Let_def ranges_def)
  show "cur_ok (upd p (\<lambda>x. x\<lparr>p_stat := SSTOP, p_SWTED := False\<rparr>) s)" using sched_okD(2) [OF assms(1)] by (auto simp: cur_ok_def)
qed (simp_all add: fwd_upd bwd_upd)

lemma woken_nonzero: "sched_ok s \<Longrightarrow> c \<noteq> 0 \<Longrightarrow> x \<in> woken c s \<Longrightarrow> p_wchan (procs s x) \<noteq> 0"
  using sched_okD(3) [of s] by (auto simp: woken_def waiting_def chans_ok_def split: if_splits)

lemma stop_ok:
  assumes ok: "sched_ok s" and st: "p_stat (procs s p) = SSLEEP"
  obtains s' where "stop p s = Some (Inr s')" "sched_ok s'" "stays s s'" "p_stat (procs s' p) = SSTOP"
    "p_cursig (procs s' p) = p_cursig (procs s p)" "p_sig (procs s' p) = p_sig (procs s p)"
    "\<forall>x. p_wchan (procs s x) = ch_proc (chans s) (p_pptr (procs s p)) \<longrightarrow> p_stat (procs s' x) \<noteq> SSLEEP"
proof -
  define t where "t = upd p (\<lambda>x. x\<lparr>p_stat := SSTOP, p_SWTED := False\<rparr>) s"
  have t: "sched_ok t" unfolding t_def by (rule stop_change_ok [OF ok st])
  let ?c = "ch_proc (chans s) (p_pptr (procs s p))"
  have c: "?c \<noteq> 0" using sched_okD(3) [OF ok] by (simp add: chans_ok_def)
  obtain s' where s': "wakeup ?c t = Some (Inr s')" "wakes (woken ?c t) t s'" using wakeup_ok [OF t c] by blast
  have ts: "stays s t" using st by (auto simp: stays_def t_def)
  have "stays t s'" by (rule wakes_stays [OF s'(2) t]) (rule woken_nonzero [OF t c])
  note sy = stays_trans [OF ts this]
  have p: "p_stat (procs s' p) = SSTOP \<and> static (procs s' p) = static (procs t p)"
  proof (cases "p \<in> woken ?c t")
    case True
    then have "awake (procs t p) (procs s' p)" using s'(2) by (simp add: wakes_def)
    then show ?thesis by (simp add: awake_def t_def)
  next
    case False
    then have "core s' p = core t p" using s'(2) by (simp add: wakes_def)
    then show ?thesis using coreD(3) [of s' p t] static_core [of s' p t p] by (simp add: t_def)
  qed
  have w: "p_stat (procs s' x) \<noteq> SSLEEP" if "p_wchan (procs s x) = ?c" for x
  proof -
    have "p_wchan (procs t x) = ?c" using that by (cases "x = p") (simp_all add: t_def)
    then have "x \<in> woken ?c t" by (simp add: woken_def waiting_def)
    then show ?thesis using s'(2) by (auto simp: wakes_def awake_def)
  qed
  show thesis
    by (rule that [OF _ _ sy]) (use s' p w staticD [of "procs s' p" "procs t p"] in \<open>auto simp: stop_def Let_def t_def [symmetric] wakes_def, simp_all add: t_def\<close>)
qed

text \<open>Stopping on a signal: the parent gets \<^verbatim>\<open>SIGCHLD\<close> first.\<close>

lemma psignal_stops_ok:
  assumes ok: "sched_ok s" and cur: "cur_runs s" and a: "sig < 32" "sig_action (procs s p) (sigmask sig) = Some act"
    and st: "stops_it sig act (procs s p)" and par: "p_pptr (procs s p) \<noteq> p" and w: "p_wchan (procs s p) \<noteq> addr_runout s"
  obtains s' where "psignal p sig s = Some (Inr s')" "sched_ok s'" "stays s s'" "p_stat (procs s' p) = SSTOP" "p_cursig (procs s' p) = sig"
    "\<not> bit (p_sig (procs s' p)) (sig - 1)"
    "\<forall>x. p_wchan (procs s x) = ch_proc (chans s) (p_pptr (procs s p)) \<and> x \<noteq> p_pptr (procs s p) \<and> p_wchan (procs s x) \<noteq> addr_runout s \<longrightarrow>
       p_stat (procs s' x) \<noteq> SSLEEP"
proof -
  let ?q = "p_pptr (procs s p)"
  define t where "t = upd p (p_cursig_update (\<lambda>_. sig)) (clear_sig (sigmask sig) p (upd p (post_sig sig act) s))"
  have sl: "p_stat (procs s p) = SSLEEP" "sig \<in> set stopsigs" using st by (simp_all add: stops_it_def)
  have "sched_ok (clear_sig (sigmask sig) p (upd p (post_sig sig act) s))" by (rule clear_ok [OF post_ok [OF ok]])
  from upd_ok [OF this, of "p_cursig_update (\<lambda>_. sig)" p] sched_okR [OF this, of p] have t: "sched_ok t" by (simp add: t_def)
  have ot: "others_same p s t" unfolding t_def by (rule others_trans [OF others_trans [OF others_upd clear_frame(2)] others_upd])
  have sy: "stays s t" by (rule others_stays [OF ot ok]) (simp add: sl)
  have tp: "p_stat (procs t p) = SSLEEP" "p_cursig (procs t p) = sig" "p_wchan (procs t p) = p_wchan (procs s p)" "p_pptr (procs t p) = ?q"
    "\<not> bit (p_sig (procs t p)) (sig - 1)"
  proof -
    have "0 < sig" using sl(2) by (auto simp: stopsigs_def)
    then show "\<not> bit (p_sig (procs t p)) (sig - 1)" using a(1) by (simp add: t_def bit_and_iff bit_not_iff bit_sigmask)
  qed (simp_all add: t_def sl)
  have cw: "chans t = chans s" using ot by (simp add: others_same_def)
  obtain u where u: "psignal ?q SIGCHLD t = Some (Inr u)" "sched_ok u" "others_same ?q t u" "stays t u"
    using psignal_plain [OF t stays_cur [OF sy cur], of SIGCHLD ?q] by (auto simp: stopsigs_def)
  have cu: "core u p = core t p" using u(3) par w tp(3) cw by (simp add: others_same_def)
  have up: "p_stat (procs u p) = SSLEEP" "p_sig (procs u p) = p_sig (procs t p)" using coreD [OF cu] tp by simp_all
  have up2: "p_pptr (procs u p) = ?q" "p_cursig (procs u p) = sig" using staticD [OF static_core [OF cu]] tp by simp_all
  obtain s' where s': "stop p u = Some (Inr s')" "sched_ok s'" "stays u s'" "p_stat (procs s' p) = SSTOP" "p_cursig (procs s' p) = p_cursig (procs u p)"
    "p_sig (procs s' p) = p_sig (procs u p)" "\<forall>x. p_wchan (procs u x) = ch_proc (chans u) (p_pptr (procs u p)) \<longrightarrow> p_stat (procs s' x) \<noteq> SSLEEP"
    using stop_ok [OF u(2) up(1)] by blast
  have cc: "chans u = chans s" using u(4) cw by (simp add: stays_def)
  have "p_stat (procs s' x) \<noteq> SSLEEP" if x: "p_wchan (procs s x) = ch_proc (chans s) ?q" "x \<noteq> ?q" "p_wchan (procs s x) \<noteq> addr_runout s" for x
  proof -
    have "p_wchan (procs t x) = p_wchan (procs s x)" by (simp add: t_def)
    moreover from this have "p_wchan (procs u x) = p_wchan (procs t x)" using u(3) x(2,3) cw coreD(1) [of u x t] by (simp add: others_same_def)
    ultimately show ?thesis using s'(7) x(1) up2 cc by simp
  qed
  note notify = this
  have eq: "psignal p sig s = Some (Inr s')" using psignal_stops [OF a st] u(1) s'(1) by (simp add: t_def)
  have f: "p_cursig (procs s' p) = sig" "\<not> bit (p_sig (procs s' p)) (sig - 1)" using s'(5,6) up up2 tp(5) by simp_all
  show thesis by (rule that [OF eq s'(2) stays_trans [OF sy stays_trans [OF u(4) s'(3)]] s'(4) f]) (use notify in blast)
qed

text \<open>A child of \<^verbatim>\<open>init\<close> is killed.\<close>

lemma kill_action: "p_sigignore x AND sigmask SIGKILL = 0 \<Longrightarrow> p_sigmask x AND sigmask SIGKILL = 0 \<Longrightarrow>
    \<exists>act. sig_action x (sigmask SIGKILL) = Some act \<and> act \<noteq> SIG_HOLD"
  by (auto simp: sig_action_def)

lemma psignal_kills_ok:
  assumes ok: "sched_ok s" and cur: "cur_runs s" and a: "sig < 32" "sig_action (procs s p) (sigmask sig) = Some act"
    and st: "kills_it sig act (procs s p)"
  obtains s' where "psignal p sig s = Some (Inr s')" "sched_ok s'" "stays s s'" "others_same p s s'"
proof -
  define t where "t = upd p (post_sig sig act) s"
  have sl: "p_stat (procs s p) = SSLEEP" using st by (simp add: kills_it_def)
  have t: "sched_ok t" unfolding t_def by (rule post_ok [OF ok])
  have ot: "others_same p s t" by (simp add: t_def)
  have sy: "stays s t" by (rule others_stays [OF ot ok]) (simp add: sl)
  obtain u where u: "psignal p SIGKILL t = Some (Inr u)" "sched_ok u" "others_same p t u" "stays t u"
    using psignal_plain [OF t stays_cur [OF sy cur], of SIGKILL p] by (auto simp: stopsigs_def)
  have oc: "others_same p u (clear_sig (sigmask sig) p u)" by simp
  have sc: "stays u (clear_sig (sigmask sig) p u)" by (rule others_stays [OF oc u(2)]) simp
  show thesis
    by (rule that [OF _ clear_ok [OF u(2)] stays_trans [OF sy stays_trans [OF u(4) sc]] others_trans [OF ot others_trans [OF u(3) oc]]])
      (use psignal_kills [OF a st] u(1) in \<open>simp add: t_def\<close>)
qed

text \<open>Every signal: it returns, and keeps the invariant.\<close>

lemma psignal_ok:
  assumes ok: "sched_ok s" and cur: "cur_runs s" and par: "p_pptr (procs s p) \<noteq> p"
    and w: "p_wchan (procs s p) = addr_runout s \<Longrightarrow> p_pri (procs s p) \<le> PZERO"
  obtains s' where "psignal p sig s = Some (Inr s')" "sched_ok s'" "stays s s'"
proof (cases "32 \<le> sig \<or> sig_action (procs s p) (sigmask sig) = None \<or> sig \<notin> set stopsigs")
  case True
  show ?thesis
  proof (cases "sig \<in> set stopsigs")
    case True
    then have "psignal p sig s = Some (Inr s)" using \<open>32 \<le> sig \<or> _\<close> psignal_ignored [of s p sig] by blast
    then show ?thesis using that ok by (simp add: stays_def)
  next
    case False
    then show ?thesis using psignal_plain [OF ok cur] that by blast
  qed
next
  case False
  then obtain act where a: "sig < 32" "sig_action (procs s p) (sigmask sig) = Some act" by auto
  consider (stop) "stops_it sig act (procs s p)" | (kill) "kills_it sig act (procs s p)" | (run) "runs_it sig act (procs s p)"
    | (none) "\<not> runs_it sig act (procs s p)" "\<not> stops_it sig act (procs s p)" "\<not> kills_it sig act (procs s p)" by blast
  then show ?thesis
  proof cases
    case stop
    then have "p_wchan (procs s p) \<noteq> addr_runout s" using w by (auto simp: stops_it_def)
    then show ?thesis using psignal_stops_ok [OF ok cur a stop par] that by metis
  next
    case kill
    then show ?thesis using psignal_kills_ok [OF ok cur a kill] that by metis
  next
    case run
    let ?t = "upd p (post_sig sig act) s"
    have st: "p_stat (procs s p) \<in> {SSTOP, SSLEEP, SIDL}" "p_stat (procs s p) \<noteq> SRUN" using run by (auto simp: runs_it_def)
    obtain s' where s': "sig_run p ?t = Some (Inr s')" "sched_ok s'" "others_same p ?t s'"
      using sig_run_ok [OF post_ok [OF ok, of p sig act], of p] st cur_other [OF cur st(2)] by auto
    have o: "others_same p s s'" using others_trans [OF others_upd s'(3)] .
    show ?thesis by (rule that [OF _ s'(2) others_stays [OF o ok]]) (use s'(1) psignal_runs [OF a run] st(2) in simp_all)
  next
    case none
    obtain s' where s': "psignal p sig s = Some (Inr s')" "sched_ok s'" "others_same p s s'"
      "p_stat (procs s' p) = (if p_stat (procs s p) = SSTOP \<and> sig = SIGCONT \<and> \<not> p_STRC (procs s p) \<and> act \<noteq> SIG_HOLD then SSLEEP else p_stat (procs s p))"
      "p_stat (procs s p) = SRUN \<Longrightarrow> p_SLOAD (procs s' p) = p_SLOAD (procs s p)"
    proof (rule psignal_else [OF ok a(2) none a(1)])
      show "noproc s \<or> u_procp s \<noteq> p" if "p_stat (procs s p) = SSTOP" using cur_other [OF cur, of p] that by simp
    qed (use that in blast)
    show ?thesis by (rule that [OF s'(1,2) others_stays [OF s'(3) ok]]) (use s'(4,5) in simp)
  qed
qed

end
