(* ===== verification/Sched_props.thy ===== *)
theory Sched_props
  imports Sig_ops
begin

text \<open>
  The kernel operations on processes together: whatever the order in which processes sleep, are woken, get signals, are
  swapped, created and laid to rest, the queues stay well formed, nothing panics, and every operation comes back.
\<close>

section \<open>The remaining operations\<close>

definition kinv :: "sched \<Rightarrow> bool" where
  "kinv s = (sched_ok s \<and> (noproc s \<or> p_stat (procs s (u_procp s)) = SRUN \<and> p_SLOAD (procs s (u_procp s))))"

lemma kinvD: "kinv s \<Longrightarrow> sched_ok s" "kinv s \<Longrightarrow> cur_runs s"
  by (auto simp: kinv_def cur_runs_def)

lemma stays_kinv: "stays s s' \<Longrightarrow> sched_ok s' \<Longrightarrow> kinv s \<Longrightarrow> kinv s'"
  by (auto simp: stays_def kinv_def)

lemma swtch_inv:
  assumes "idle_ok s"
  obtains s' where "swtch s = Inr s'" "kinv s'" "core s' = core s" "chans s' = chans s"
proof -
  obtain s' where s': "swtch s = Inr s'" "sched_ok s'" "core s' = core s" "chans s' = chans s"
    "\<not> noproc s' \<Longrightarrow> p_rlink (procs s (u_procp s')) \<noteq> NULLP \<and>
      (\<forall>q. p_rlink (procs s q) \<noteq> NULLP \<longrightarrow> prq (p_pri (procs s (u_procp s'))) \<le> prq (p_pri (procs s q)))"
    using swtch_ok [OF assms] by metis
  have "p_stat (procs s' (u_procp s')) = SRUN \<and> p_SLOAD (procs s' (u_procp s'))" if "\<not> noproc s'"
  proof -
    have "p_rlink (procs s (u_procp s')) \<noteq> NULLP" using s'(5) [OF that] by blast
    then have "p_stat (procs s (u_procp s')) = SRUN" "p_SLOAD (procs s (u_procp s'))"
      using idle_okD(2) [OF assms, of "u_procp s'"] by (simp_all add: proc_ok_def Let_def)
    then show ?thesis using coreD(3,4) [of s' "u_procp s'" s] s'(3) by simp
  qed
  then show ?thesis using that s' by (auto simp: kinv_def)
qed

text \<open>The processor is given up: nothing but the invariant of the others matters.\<close>

lemma idle_okI:
  assumes ok: "sched_ok s" "\<not> noproc s" and q: "queues t sl rq" and c: "\<And>x. x \<noteq> u_procp s \<Longrightarrow> core t x = core s x"
    and r: "\<And>x. x \<noteq> u_procp s \<Longrightarrow> p_rlink (procs t x) = NULLP \<longleftrightarrow> p_rlink (procs s x) = NULLP"
    and p: "proc_ok (t\<lparr>noproc := True\<rparr>) (u_procp s)" and a: "chans t = chans s"
  shows "idle_ok t"
proof -
  have "proc_ok (t\<lparr>noproc := True\<rparr>) x" for x
  proof (cases "x = u_procp s")
    case False
    have k: "proc_ok s x" by (rule sched_okD(1) [OF ok(1)])
    note e = coreD(1,3,4) [OF c [OF False]] ranges_core [OF c [OF False]]
    have "procs (t\<lparr>noproc := True\<rparr>) x = procs t x" "noproc (t\<lparr>noproc := True\<rparr>)" by simp_all
    then show ?thesis using k r [OF False] False unfolding proc_ok_def Let_def e by (metis e)
  qed (use p in simp)
  then show ?thesis using q sched_okD(3) [OF ok(1)] a by (auto simp: idle_ok_def sched_ok_def cur_ok_def)
qed

lemma user_return_ok:
  assumes k: "kinv s" and n: "\<not> noproc s"
  obtains s' where "user_return s = Inr s'" "kinv s'"
proof -
  define p where "p = u_procp s"
  have ok: "sched_ok s" and st: "p_stat (procs s p) = SRUN" "p_SLOAD (procs s p)" using k n by (simp_all add: kinv_def p_def)
  have rl: "p_rlink (procs s p) = NULLP" using sched_okD(2) [OF ok] n by (simp add: cur_ok_def p_def)
  define t where "t = upd p (\<lambda>x. x\<lparr>p_pri := p_usrpri x\<rparr>) s"
  have t: "sched_ok t" unfolding t_def using sched_okR [OF ok, of p] rl by (intro upd_ok [OF ok]) (simp_all add: ranges_def)
  have tp: "p_stat (procs t p) = SRUN" "p_SLOAD (procs t p)" "p_rlink (procs t p) = NULLP" "u_procp t = p" "\<not> noproc t" "chans t = chans s"
    using st rl n by (simp_all add: t_def p_def)
  have runrun: "runrun t = runrun s" by (simp add: t_def upd_def)
  show ?thesis
  proof (cases "runrun s = 0")
    case True
    have "user_return s = Inr t" using True runrun by (simp add: user_return_def Let_def t_def p_def)
    then show ?thesis using that [of t] t tp by (simp add: kinv_def)
  next
    case False
    obtain sl rq where q: "queues t sl rq" using sched_okD(4) [OF t] by blast
    have w0: "p_wchan (procs t p) = 0" using sched_okD(1) [OF t, of p] tp(1) by (auto simp: proc_ok_def Let_def)
    have i: "prq (p_pri (procs t p)) < 32" using sched_okR [OF t, of p] by (intro prq_less) (simp_all add: ranges_def)
    obtain w where w: "setrq p t = Inr w" "queues w sl (rq(prq (p_pri (procs t p)) := rq (prq (p_pri (procs t p))) @ [p]))" "core w = core t" "globals w = globals t"
      using setrq_queues [OF q tp(3) w0 refl i] by blast
    note g = globalsD [OF w(4)]
    have rp: "p_rlink (procs w p) \<noteq> NULLP" using on_runq [OF w(2), of p] i by auto
    have rx: "p_rlink (procs w x) = NULLP \<longleftrightarrow> p_rlink (procs t x) = NULLP" if "x \<noteq> p" for x
    proof -
      have "x \<in> set ((rq(prq (p_pri (procs t p)) := rq (prq (p_pri (procs t p))) @ [p])) j) \<longleftrightarrow> x \<in> set (rq j)" for j using that by simp
      then show ?thesis using on_runq [OF w(2), of x] on_runq [OF q, of x] by blast
    qed
    have cp: "core w p = core t p" by (simp add: w(3))
    have pk: "proc_ok (w\<lparr>noproc := True\<rparr>) p"
      using coreD(1,3,4) [OF cp] ranges_core [OF cp] sched_okR [OF t, of p] tp(1,2) w0 rp by (simp add: proc_ok_def Let_def)
    have iw: "idle_ok w"
      by (rule idle_okI [OF t tp(5) w(2)]) (use w(3) rx pk tp(4) g in simp_all)
    have "idle_ok (w\<lparr>nivcsw := nivcsw w + 1\<rparr>)"
    proof -
      have "(w\<lparr>nivcsw := nivcsw w + 1\<rparr>)\<lparr>noproc := True\<rparr> = (w\<lparr>noproc := True\<rparr>)\<lparr>nivcsw := nivcsw w + 1\<rparr>" by simp
      then show ?thesis using iw by (simp add: idle_ok_def sched_ok_def proc_ok_def cur_ok_def)
    qed
    then obtain s' where s': "swtch (w\<lparr>nivcsw := nivcsw w + 1\<rparr>) = Inr s'" "kinv s'" using swtch_inv by blast
    moreover have "user_return s = Inr s'" using False w(1) s'(1) runrun by (simp add: user_return_def Let_def t_def p_def)
    ultimately show ?thesis using that by blast
  qed
qed

text \<open>
  A process on its sleep queue, its signals dealt with, gives up the processor: \<open>queued\<close> relates the state to the one in
  which it called.
\<close>

definition queued :: "32 word \<Rightarrow> int \<Rightarrow> sched \<Rightarrow> sched \<Rightarrow> bool" where
  "queued c pri s t = ((\<exists>sl rq. queues t sl rq) \<and> globals t = globals s \<and> bwd t = bwd s \<and> (\<exists>w g. \<forall>x. core t x =
     (if x = u_procp s then (core s x)\<lparr>p_wchan := c, p_slptime := 0, p_pri := pri, p_sig := w, p_cursig := g\<rparr> else core s x)))"

lemma sleep_enq_queued:
  assumes k: "kinv s" and n: "\<not> noproc s" and c: "c \<noteq> 0"
  obtains t where "sleep_enq c pri s = Inr t" "queued c pri s t"
    "core t (u_procp s) = (core s (u_procp s))\<lparr>p_wchan := c, p_slptime := 0, p_pri := pri\<rparr>"
proof -
  define p where "p = u_procp s"
  have ok: "sched_ok s" and st: "p_stat (procs s p) = SRUN" using k n by (simp_all add: kinv_def p_def)
  have rl: "p_rlink (procs s p) = NULLP" using sched_okD(2) [OF ok] n by (simp add: cur_ok_def p_def)
  have w0: "p_wchan (procs s p) = 0" using sched_okD(1) [OF ok, of p] st by (auto simp: proc_ok_def Let_def)
  obtain sl rq where q: "queues s sl rq" using sched_okD(4) [OF ok] by blast
  obtain t where t: "sleep_enq c pri s = Inr t" "queues t (sl(sqhash c := sl (sqhash c) @ [p])) rq"
    "\<And>x. core t x = (if x = p then (core s p)\<lparr>p_wchan := c, p_slptime := 0, p_pri := pri\<rparr> else core s x)" "globals t = globals s" "bwd t = bwd s"
    using enq_queues [OF q p_def rl w0 st c, of pri] by metis
  have "core t x = (if x = p then (core s x)\<lparr>p_wchan := c, p_slptime := 0, p_pri := pri, p_sig := p_sig (core s p), p_cursig := p_cursig (core s p)\<rparr>
      else core s x)" for x by (simp add: t(3))
  then have "queued c pri s t" unfolding queued_def p_def [symmetric] using t(2,4,5) by blast
  then show ?thesis using that t(1) t(3) [of p] by (simp add: p_def)
qed

lemma queuedD:
  assumes k: "kinv s" and n: "\<not> noproc s" and pri: "0 \<le> pri" "pri < 128" and t: "queued c pri s t"
  shows "p_stat (procs t (u_procp s)) = SRUN" "p_SLOAD (procs t (u_procp s))" "p_wchan (procs t (u_procp s)) = c"
    "p_pri (procs t (u_procp s)) = pri" "ranges (procs t (u_procp s))" "p_rlink (procs t x) = p_rlink (procs s x)"
    "p_rlink (procs t (u_procp s)) = NULLP" "x \<noteq> u_procp s \<Longrightarrow> core t x = core s x" "u_procp t = u_procp s"
proof -
  define p where "p = u_procp s"
  have ok: "sched_ok s" and st: "p_stat (procs s p) = SRUN" "p_SLOAD (procs s p)" using k n by (simp_all add: kinv_def p_def)
  obtain w g where c: "\<And>x. core t x = (if x = p then (core s x)\<lparr>p_wchan := c, p_slptime := 0, p_pri := pri, p_sig := w, p_cursig := g\<rparr> else core s x)"
    using t unfolding queued_def p_def by blast
  have cp: "core t p = (core s p)\<lparr>p_wchan := c, p_slptime := 0, p_pri := pri, p_sig := w, p_cursig := g\<rparr>" by (simp add: c)
  show "p_stat (procs t (u_procp s)) = SRUN" "p_SLOAD (procs t (u_procp s))" "p_wchan (procs t (u_procp s)) = c" "p_pri (procs t (u_procp s)) = pri"
    using arg_cong [OF cp, of p_stat] arg_cong [OF cp, of p_SLOAD] arg_cong [OF cp, of p_wchan] arg_cong [OF cp, of p_pri] st
    by (simp_all add: core_def p_def)
  have "ranges (core s p)" using sched_okR [OF ok, of p] by (simp add: ranges_def core_def)
  then have "ranges (core t p)" using pri unfolding cp by (simp add: ranges_def)
  then show "ranges (procs t (u_procp s))" by (simp add: ranges_def core_def p_def)
  have "bwd t = bwd s" using t by (simp add: queued_def)
  then have r: "p_rlink (procs t x) = p_rlink (procs s x)" for x unfolding rlink_bwd by simp
  then show "p_rlink (procs t x) = p_rlink (procs s x)" by blast
  show "p_rlink (procs t (u_procp s)) = NULLP" using sched_okD(2) [OF ok] n r by (simp add: cur_ok_def)
  show "x \<noteq> u_procp s \<Longrightarrow> core t x = core s x" using c by (simp add: p_def)
  have "globals t = globals s" using t by (simp add: queued_def)
  then show "u_procp t = u_procp s" by (rule globalsD)
qed

lemma queued_away:
  assumes k: "kinv s" and n: "\<not> noproc s" and c: "c \<noteq> 0" and pri: "0 \<le> pri" "pri < 128" and t: "queued c pri s t"
  obtains s' where "sleep_swtch t = Inr s'" "kinv s'" "core s' (u_procp s) = (core t (u_procp s))\<lparr>p_stat := SSLEEP\<rparr>"
    "\<forall>x. x \<noteq> u_procp s \<longrightarrow> core s' x = core s x" "chans s' = chans s"
proof -
  define p where "p = u_procp s"
  have ok: "sched_ok s" using k by (simp add: kinv_def)
  note d = queuedD [OF k n pri t, folded p_def]
  obtain sl rq where q: "queues t sl rq" and g: "globals t = globals s" using t by (auto simp: queued_def)
  note g = globalsD [OF g]
  define v where "v = (upd p (p_stat_update (\<lambda>_. SSLEEP)) t)\<lparr>nvcsw := nvcsw t + 1\<rparr>"
  have f: "fwd v = fwd t" "bwd v = bwd t" by (simp_all add: v_def fwd_upd bwd_upd)
  have vq: "queues v sl rq" by (rule queues_cong [OF q f]) (simp_all add: v_def)
  have rx: "p_rlink (procs v x) = p_rlink (procs s x)" for x using queuedD(6) [OF k n pri t, of x] by (cases "x = p") (auto simp: v_def)
  have cx: "core v x = core s x" if "x \<noteq> p" for x using d(8) [OF that] that by (simp add: v_def core_def)
  have cp: "core v p = (core t p)\<lparr>p_stat := SSLEEP\<rparr>" by (simp add: v_def core_def)
  have vp: "p_stat (procs v p) = SSLEEP" "p_wchan (procs v p) = c" "ranges (procs v p)" "p_rlink (procs v p) = NULLP"
    using d(3,5,7) by (simp_all add: v_def)
  have pk: "proc_ok (v\<lparr>noproc := True\<rparr>) p" using vp c by (simp add: proc_ok_def Let_def)
  have cv: "chans v = chans s" using g by (simp add: v_def)
  have "idle_ok v" by (rule idle_okI [OF ok n vq]) (use cx rx pk cv in \<open>simp_all add: p_def [symmetric]\<close>)
  then obtain s' where s': "swtch v = Inr s'" "kinv s'" "core s' = core v" "chans s' = chans v" using swtch_inv by blast
  have "sleep_swtch t = Inr s'" using s'(1) d(9) by (simp add: sleep_swtch_def v_def)
  then show ?thesis using that [of s'] s'(2-4) cx cp cv by (simp add: p_def)
qed

text \<open>
  \<open>issig\<close> of a process that has no reason to stop: it is not traced and no stop signal with the default action is pending.
  It changes nothing but the pending signals and \<^verbatim>\<open>p_cursig\<close> of the process.
\<close>

definition stops_here :: "(nat \<Rightarrow> usig) \<Rightarrow> proc \<Rightarrow> bool" where
  "stops_here us x = (p_STRC x \<and> \<not> p_SVFORK x \<or> (\<exists>i<32. bit (sig_bits x) i \<and> us (i + 1) = U_DFL \<and> p_ppid x \<noteq> 0 \<and> i + 1 \<in> set stopsigs))"

lemma stops_core: "stops_here us (core s p) = stops_here us (procs s p)"
  by (simp add: stops_here_def sig_bits_def Let_def core_def cong: if_cong)

definition sigs_left :: "proc \<Rightarrow> nat set" where "sigs_left x = {i. i < 32 \<and> bit (p_sig x) i}"

lemma issig_quick:
  assumes "\<not> stops_here us (procs s (u_procp s))"
  shows "\<exists>w g sig. issig us s \<in> {Some (Inr (No_sig (upd (u_procp s) (\<lambda>x. x\<lparr>p_sig := w, p_cursig := g\<rparr>) s))),
    Some (Inr (Take_sig sig (upd (u_procp s) (\<lambda>x. x\<lparr>p_sig := w, p_cursig := g\<rparr>) s)))}"
  using assms
proof (induction "card (sigs_left (procs s (u_procp s)))" arbitrary: s rule: less_induct)
  case less
  let ?p = "u_procp s" let ?x = "procs s ?p"
  show ?case
  proof (cases "first_bit [0..<32] (sig_bits ?x)")
    case None
    have "upd ?p (p_cursig_update (\<lambda>_. 0)) s = upd ?p (\<lambda>x. x\<lparr>p_sig := p_sig ?x, p_cursig := 0\<rparr>) s" by (simp add: upd_def)
    moreover have "issig us s = Some (Inr (No_sig (upd ?p (p_cursig_update (\<lambda>_. 0)) s)))" using None by (subst issig.simps) (simp add: Let_def)
    ultimately show ?thesis by auto
  next
    case (Some i)
    define t where "t = upd ?p (p_cursig_update (\<lambda>_. i + 1)) (clear_sig (sigmask (i + 1)) ?p s)"
    have i: "i < 32" "bit (sig_bits ?x) i" using first_bit_Some [OF Some] by auto
    have t: "t = upd ?p (\<lambda>x. x\<lparr>p_sig := p_sig ?x AND NOT (sigmask (i + 1)), p_cursig := i + 1\<rparr>) s"
      by (simp add: t_def clear_sig_def upd_def)
    have up: "u_procp t = ?p" by (simp add: t)
    have ps: "bit (p_sig ?x) i" using i(2) by (auto simp: sig_bits_def Let_def bit_simps split: if_splits)
    have le: "sigs_left (procs t ?p) = sigs_left ?x - {i}" using i(1) by (auto simp: t sigs_left_def bit_simps bit_sigmask)
    have fin: "finite (sigs_left ?x)" by (simp add: sigs_left_def)
    have "card (sigs_left (procs t ?p)) < card (sigs_left ?x)"
      unfolding le using ps i(1) by (intro card_Diff1_less fin) (simp add: sigs_left_def)
    moreover have "bit (sig_bits ?x) j" if "bit (sig_bits (procs t ?p)) j" for j
      using that by (auto simp: t sig_bits_def Let_def bit_simps split: if_splits)
    then have "\<not> stops_here us (procs t ?p)" using less.prems by (auto simp: stops_here_def t)
    ultimately obtain w g sig where IH: "issig us t \<in> {Some (Inr (No_sig (upd ?p (\<lambda>x. x\<lparr>p_sig := w, p_cursig := g\<rparr>) t))),
      Some (Inr (Take_sig sig (upd ?p (\<lambda>x. x\<lparr>p_sig := w, p_cursig := g\<rparr>) t)))}"
      using less.hyps [of t] unfolding up by blast
    have uu: "upd ?p (\<lambda>x. x\<lparr>p_sig := w, p_cursig := g\<rparr>) t = upd ?p (\<lambda>x. x\<lparr>p_sig := w, p_cursig := g\<rparr>) s" for w g
      by (simp add: t upd_def)
    have a: "\<not> (p_STRC ?x \<and> \<not> p_SVFORK ?x)" and b: "us (i + 1) = U_DFL \<Longrightarrow> p_ppid ?x \<noteq> 0 \<Longrightarrow> i + 1 \<notin> set stopsigs"
      using less.prems i unfolding stops_here_def by blast+
    have "issig us s = (if us (i + 1) = U_FUNC then Some (Inr (Take_sig (i + 1) t)) else if us (i + 1) \<noteq> U_DFL then issig us t
      else if p_ppid ?x = 0 then issig us t else if i + 1 = SIGCONT \<or> i + 1 \<in> set quietsigs then issig us t
      else Some (Inr (Take_sig (i + 1) t)))"
      unfolding issig.simps [of us s] Let_def Some option.case if_not_P [OF a] t_def [symmetric] using b by (simp only: split: if_split) blast
    then have "issig us s = issig us t \<or> issig us s = Some (Inr (Take_sig (i + 1) t))" by metis
    then show ?thesis
    proof
      assume e: "issig us s = issig us t"
      show ?thesis unfolding e by (rule exI, rule exI, rule exI, rule IH [unfolded uu])
    next
      assume e: "issig us s = Some (Inr (Take_sig (i + 1) t))"
      show ?thesis unfolding e insert_iff t by blast
    qed
  qed
qed

text \<open>The state an outcome of \<open>sleep\<close> leaves.\<close>

fun sleep_state :: "sleep_out \<Rightarrow> sched" where
  "sleep_state (Asleep s) = s"
| "sleep_state (Awake_again s) = s"
| "sleep_state (Interrupted s) = s"
| "sleep_state (Stopped_asleep s) = s"

text \<open>Going to sleep: without a signal to take, and with signals that do not stop the process.\<close>

lemma sleep_ok:
  assumes k: "kinv s" and n: "\<not> noproc s" and c: "c \<noteq> 0" and pri: "0 \<le> pri" "pri < 128"
    and nosig: "pri \<le> PZERO \<or> \<not> sig_pending (procs s (u_procp s))" and np: "\<not> panicstr s"
  obtains s' where "sleep us c pri s = Some (Inr (Asleep s'))" "kinv s'" "p_stat (procs s' (u_procp s)) = SSLEEP"
    "p_wchan (procs s' (u_procp s)) = c" "p_pri (procs s' (u_procp s)) = pri"
    "\<forall>x. x \<noteq> u_procp s \<longrightarrow> core s' x = core s x" "static (procs s' (u_procp s)) = static ((procs s (u_procp s))\<lparr>p_pri := pri\<rparr>)"
    "chans s' = chans s"
proof -
  define p where "p = u_procp s"
  obtain t where t: "sleep_enq c pri s = Inr t" "queued c pri s t" "core t p = (core s p)\<lparr>p_wchan := c, p_slptime := 0, p_pri := pri\<rparr>"
    using sleep_enq_queued [OF k n c] unfolding p_def by metis
  note d = queuedD [OF k n pri t(2), folded p_def]
  obtain s' where s': "sleep_swtch t = Inr s'" "kinv s'" "core s' p = (core t p)\<lparr>p_stat := SSLEEP\<rparr>"
    "\<forall>x. x \<noteq> p \<longrightarrow> core s' x = core s x" "chans s' = chans s"
    by (rule queued_away [OF k n c pri t(2)]) (simp add: p_def)
  have "\<not> sig_pending (procs t p)" if "\<not> pri \<le> PZERO"
  proof -
    have "sig_pending (core t p) = sig_pending (core s p)" using t(3) by (simp add: sig_pending_def)
    then show ?thesis using nosig that by (simp add: sig_pending_def core_def p_def)
  qed
  then have "sleep us c pri s = Some (Inr (Asleep s'))" using t(1) s'(1) d(3,9) np c by (auto simp: sleep_def Let_def)
  moreover have cs: "core s' p = (core s p)\<lparr>p_wchan := c, p_slptime := 0, p_pri := pri, p_stat := SSLEEP\<rparr>" using s'(3) t(3) by simp
  moreover have "static (procs s' p) = static ((procs s p)\<lparr>p_pri := pri\<rparr>)" using arg_cong [OF cs, of static] by (simp add: core_def static_def)
  moreover have "p_stat (procs s' p) = SSLEEP" "p_wchan (procs s' p) = c" "p_pri (procs s' p) = pri"
    using arg_cong [OF cs, of p_stat] arg_cong [OF cs, of p_wchan] arg_cong [OF cs, of p_pri] by (simp_all add: core_def)
  ultimately show ?thesis using that [of s'] s'(2,4,5) unfolding p_def by blast
qed

lemma back_awake:
  assumes k: "kinv s" and n: "\<not> noproc s" and pri: "0 \<le> pri" "pri < 128" and v: "queued c pri s v"
    and u: "queues u sl rq" "bwd u = bwd v" "globals u = globals v"
      "\<And>x. core u x = (if x = u_procp s then (core v (u_procp s))\<lparr>p_wchan := 0\<rparr> else core v x)"
  shows "kinv (upd (u_procp s) (p_stat_update (\<lambda>_. SRUN)) u)"
proof -
  define p where "p = u_procp s"
  define z where "z = upd p (p_stat_update (\<lambda>_. SRUN)) u"
  have ok: "sched_ok s" using k by (simp add: kinv_def)
  note d = queuedD [OF k n pri v, folded p_def]
  have "globals u = globals s" using v u(3) by (simp add: queued_def)
  note g = globalsD [OF this]
  have f: "fwd z = fwd u" "bwd z = bwd u" by (simp_all add: z_def fwd_upd bwd_upd)
  have zq: "queues z sl rq" by (rule queues_cong [OF u(1) f]) (simp_all add: z_def)
  have rx: "p_rlink (procs z x) = p_rlink (procs s x)" for x
    using queuedD(6) [OF k n pri v, of x] fun_cong [OF f(2), of "Proc x"] u(2) by (simp add: rlink_bwd del: bwd.simps)
  have cx: "core z x = core s x" if "x \<noteq> p" for x
  proof -
    have "core z x = core u x" using that by (simp add: z_def core_def)
    then show ?thesis using u(4) [of x] d(8) [OF that] that by (simp add: p_def)
  qed
  have cp: "core z p = (core v p)\<lparr>p_wchan := 0, p_stat := SRUN\<rparr>"
  proof -
    have "core z p = (core u p)\<lparr>p_stat := SRUN\<rparr>" by (simp add: z_def core_def)
    then show ?thesis using u(4) [of p] by (simp add: p_def)
  qed
  have "ranges (core v p)" using d(5) by (simp add: ranges_def core_def)
  then have "ranges (core z p)" unfolding cp by (simp add: ranges_def)
  then have zp: "p_stat (procs z p) = SRUN" "p_wchan (procs z p) = 0" "p_SLOAD (procs z p)" "ranges (procs z p)"
    using arg_cong [OF cp, of p_stat] arg_cong [OF cp, of p_wchan] arg_cong [OF cp, of p_SLOAD] d(2) by (simp_all add: core_def ranges_def)
  have rp: "p_rlink (procs z p) = NULLP" using rx [of p] queuedD(6) [OF k n pri v, of p] d(7) by simp
  have gz: "u_procp z = p" "noproc z = noproc s" "chans z = chans s" using g by (simp_all add: z_def p_def)
  have "proc_ok z x" for x
  proof (cases "x = p")
    case True
    then show ?thesis using zp rp gz n by (simp add: proc_ok_def Let_def)
  next
    case False
    then show ?thesis using sched_okD(1) [OF ok, of x] proc_ok_core [of z x s] cx [OF False] rx [of x] gz by (simp add: p_def)
  qed
  moreover have "cur_ok z" using zp rp gz by (simp add: cur_ok_def)
  ultimately have "sched_ok z" using zq sched_okD(3) [OF ok] gz by (auto simp: sched_ok_def)
  then show ?thesis using zp gz by (simp add: kinv_def z_def p_def)
qed

lemma sleep_kinv:
  assumes k: "kinv s" and n: "\<not> noproc s" and c: "c \<noteq> 0" and pri: "0 \<le> pri" "pri < 128"
    and nosig: "pri \<le> PZERO \<or> \<not> sig_pending (procs s (u_procp s)) \<or> \<not> stops_here us (procs s (u_procp s))"
  shows "\<exists>r. sleep us c pri s = Some (Inr r) \<and> kinv (sleep_state r)"
proof (cases "panicstr s \<or> pri \<le> PZERO \<or> \<not> sig_pending (procs s (u_procp s))")
  case True
  show ?thesis
  proof (cases "panicstr s")
    case True
    then show ?thesis using k by (simp add: sleep_def)
  next
    case False
    then show ?thesis using sleep_ok [OF k n c pri _ False, of us] True by (metis sleep_state.simps(1))
  qed
next
  case False
  define p where "p = u_procp s"
  have ok: "sched_ok s" using k by (simp add: kinv_def)
  obtain t where t: "sleep_enq c pri s = Inr t" "queued c pri s t" "core t p = (core s p)\<lparr>p_wchan := c, p_slptime := 0, p_pri := pri\<rparr>"
    using sleep_enq_queued [OF k n c] unfolding p_def by metis
  have up: "u_procp t = p" using queuedD(9) [OF k n pri t(2)] by (simp add: p_def)
  have sp: "sig_pending (procs t p)"
  proof -
    have "sig_pending (core t p) = sig_pending (core s p)" using t(3) by (simp add: sig_pending_def)
    then show ?thesis using False by (simp add: sig_pending_def core_def p_def)
  qed
  have ns: "\<not> stops_here us (procs t p)"
  proof -
    have "stops_here us (core t p) = stops_here us (core s p)" using t(3) by (simp add: stops_here_def sig_bits_def Let_def cong: if_cong)
    then show ?thesis using False nosig by (simp add: stops_core p_def)
  qed
  obtain w g sig where iss: "issig us t \<in> {Some (Inr (No_sig (upd p (\<lambda>x. x\<lparr>p_sig := w, p_cursig := g\<rparr>) t))),
      Some (Inr (Take_sig sig (upd p (\<lambda>x. x\<lparr>p_sig := w, p_cursig := g\<rparr>) t)))}"
    using issig_quick [of us t] ns unfolding up by blast
  define v where "v = upd p (\<lambda>x. x\<lparr>p_sig := w, p_cursig := g\<rparr>) t"
  have vq: "queued c pri s v"
  proof -
    obtain sl rq where q: "queues t sl rq" using t(2) by (auto simp: queued_def)
    have f: "fwd v = fwd t" "bwd v = bwd t" by (simp_all add: v_def fwd_upd bwd_upd)
    have "queues v sl rq" by (rule queues_cong [OF q f]) (simp_all add: v_def)
    moreover have "core v x = (if x = p then (core s x)\<lparr>p_wchan := c, p_slptime := 0, p_pri := pri, p_sig := w, p_cursig := g\<rparr> else core s x)" for x
    proof -
      have "core v x = (if x = p then (core t p)\<lparr>p_sig := w, p_cursig := g\<rparr> else core t x)" by (simp add: v_def core_def)
      moreover have "core t x = core s x" if "x \<noteq> p" using t(2) that by (auto simp: queued_def p_def)
      ultimately show ?thesis using t(3) by simp
    qed
    moreover have "globals v = globals s" "bwd v = bwd s" using t(2) f(2) by (simp_all add: queued_def v_def)
    ultimately show ?thesis unfolding queued_def p_def [symmetric] by blast
  qed
  note d = queuedD [OF k n pri vq, folded p_def]
  have sl: "sleep us c pri s = sbind (issig us t) (\<lambda>r. case r of
      No_sig s \<Rightarrow> if p_wchan (procs s p) = 0 then Some (Inr (Awake_again s)) else Some (kbind (sleep_swtch s) (\<lambda>s. Inr (Asleep s)))
    | Take_sig _ s \<Rightarrow> sbind (if p_wchan (procs s p) \<noteq> 0 then unsleep p s else Some (Inr s))
        (\<lambda>s. Some (Inr (Interrupted (upd p (p_stat_update (\<lambda>_. SRUN)) s))))
    | Stopped s \<Rightarrow> Some (kbind (swtch s) (\<lambda>s. Inr (Stopped_asleep s))))"
    using False t(1) up sp by (simp add: sleep_def Let_def)
  consider "issig us t = Some (Inr (No_sig v))" | "issig us t = Some (Inr (Take_sig sig v))" using iss by (auto simp: v_def)
  then show ?thesis
  proof cases
    case 1
    obtain s' where "sleep_swtch v = Inr s'" "kinv s'" by (rule queued_away [OF k n c pri vq])
    then show ?thesis using sl 1 d(3) c by simp
  next
    case 2
    obtain sl rq where "queues v sl rq" and vg: "globals v = globals s" using vq by (auto simp: queued_def)
    then obtain u sl rq where u: "unsleep p v = Some (Inr u)" "queues u sl rq" "bwd u = bwd v" "globals u = globals v"
      "\<And>x. core u x = (if x = p then (core v p)\<lparr>p_wchan := 0\<rparr> else core v x)" using unsleep_from [of v sl rq p] by metis
    define z where "z = upd p (p_stat_update (\<lambda>_. SRUN)) u"
    have "kinv z" unfolding z_def using back_awake [OF k n pri vq u(2-5) [unfolded p_def]] by (simp add: p_def)
    then show ?thesis using \<open>sleep us c pri s = _\<close> 2 d(3) c u(1) by (simp add: z_def)
  qed
qed

text \<open>A change of one process that is not the running one.\<close>

lemma other_kinv:
  assumes "kinv s" "noproc s \<or> u_procp s \<noteq> p" "sched_ok s'" "\<And>x. x \<noteq> p \<Longrightarrow> core s' x = core s x" "u_procp s' = u_procp s" "noproc s' = noproc s"
  shows "kinv s'"
proof (cases "noproc s")
  case False
  then have c: "core s' (u_procp s) = core s (u_procp s)" using assms(2,4) by blast
  show ?thesis using assms(1,3,5,6) False coreD(3,4) [OF c] by (simp add: kinv_def)
qed (use assms in \<open>simp add: kinv_def\<close>)

lemma swap_out_ok:
  assumes k: "kinv s" and p: "noproc s \<or> u_procp s \<noteq> p" "p_SLOAD (procs s p)"
  obtains s' where "swap_out p s = Inr s'" "kinv s'"
proof -
  have ok: "sched_ok s" using k by (simp add: kinv_def)
  define t where "t = upd p (p_SLOAD_update (\<lambda>_. False)) s"
  have tc: "core t x = core s x" if "x \<noteq> p" for x using that by (simp add: t_def core_def)
  show ?thesis
  proof (cases "p_stat (procs s p) = SRUN")
    case False
    have "sched_ok t"
    proof (rule change_ok [OF ok, of _ p])
      show "proc_ok t p" using sched_okD(1) [OF ok, of p] False by (auto simp: t_def proc_ok_def Let_def)
      show "cur_ok t" using sched_okD(2) [OF ok] by (auto simp: t_def cur_ok_def)
    qed (simp_all add: t_def fwd_upd bwd_upd)
    then have "kinv t" by (rule other_kinv [OF k p(1)]) (use tc in \<open>simp_all add: t_def\<close>)
    moreover have "swap_out p s = Inr t" using False by (simp add: swap_out_def Let_def t_def)
    ultimately show ?thesis using that by blast
  next
    case True
    have rl: "p_rlink (procs s p) \<noteq> NULLP" "p_wchan (procs s p) = 0"
      using sched_okD(1) [OF ok, of p] True p by (auto simp: proc_ok_def Let_def)
    obtain sl rq where q: "queues s sl rq" using sched_okD(4) [OF ok] by blast
    have tf: "fwd t = fwd s" "bwd t = bwd s" by (simp_all add: t_def fwd_upd bwd_upd)
    have tq: "queues t sl rq" by (rule queues_cong [OF q tf]) (simp_all add: t_def)
    have tr: "p_rlink (procs t p) \<noteq> NULLP" using rl by (simp add: t_def)
    obtain i xs ys where l: "i < 32" "i = prq (p_pri (procs t p))" "rq i = xs @ p # ys" "remrq p t = Inr (unring p i t)"
      using remrq_ok [OF tq tr] by blast
    define w where "w = unring p i t"
    note u = unring_ok [OF tq l(1,3), folded w_def]
    note g = globalsD [OF u(3)]
    have wc: "core w x = core s x" if "x \<noteq> p" for x using u(2) tc [OF that] by simp
    have wr: "p_rlink (procs w x) = NULLP \<longleftrightarrow> x = p \<or> p_rlink (procs s x) = NULLP" for x using u(4) [of x] by (simp add: t_def)
    have "core w p = core t p" by (simp add: u(2))
    from coreD(1,3,4) [OF this] ranges_core [OF this]
    have wp: "p_stat (procs w p) = SRUN" "\<not> p_SLOAD (procs w p)" "p_wchan (procs w p) = 0" "ranges (procs w p)"
      using True rl(2) sched_okR [OF ok, of p] by (simp_all add: t_def)
    have "proc_ok w x" for x
    proof (cases "x = p")
      case True
      have "p_rlink (procs w p) = NULLP" using wr by blast
      then show ?thesis using True wp by (simp add: proc_ok_def Let_def)
    next
      case False
      have "p_rlink (procs w x) = NULLP \<longleftrightarrow> p_rlink (procs s x) = NULLP" using wr False by blast
      then show ?thesis using proc_ok_core [OF wc [OF False]] sched_okD(1) [OF ok, of x] g by (simp add: t_def)
    qed
    moreover have "cur_ok w"
    proof (cases "noproc s")
      case False
      then have n: "u_procp s \<noteq> p" using p by simp
      show ?thesis using sched_okD(2) [OF ok] False wr [of "u_procp s"] coreD(3) [OF wc [OF n]] g by (simp add: cur_ok_def t_def)
    qed (use g in \<open>simp add: cur_ok_def t_def\<close>)
    ultimately have "sched_ok w" using u(1) sched_okD(3) [OF ok] g by (auto simp: sched_ok_def t_def)
    then have "kinv w" by (rule other_kinv [OF k p(1)]) (use wc g in \<open>simp_all add: t_def\<close>)
    moreover have "swap_out p s = Inr w" using True l(4) by (simp add: swap_out_def Let_def t_def [symmetric] w_def [symmetric]) (simp add: t_def)
    ultimately show ?thesis using that by blast
  qed
qed

text \<open>A ready process goes to its run queue and is in core afterwards.\<close>

lemma queue_in:
  assumes k: "kinv s" and p: "noproc s \<or> u_procp s \<noteq> p" and t: "queues t sl rq" "u_procp t = u_procp s" "noproc t = noproc s" "chans t = chans s"
      "\<And>x. x \<noteq> p \<Longrightarrow> core t x = core s x" "\<And>x. p_rlink (procs t x) = p_rlink (procs s x)"
      "p_rlink (procs t p) = NULLP" "p_wchan (procs t p) = 0" "p_stat (procs t p) = SRUN" "ranges (procs t p)"
  obtains w where "setrq p t = Inr w" "core w = core t" "kinv (upd p (p_SLOAD_update (\<lambda>_. True)) w)"
proof -
  have ok: "sched_ok s" using k by (simp add: kinv_def)
  have i: "prq (p_pri (procs t p)) < 32" using t(10) by (intro prq_less) (simp_all add: ranges_def)
  obtain w where w: "setrq p t = Inr w" "queues w sl (rq(prq (p_pri (procs t p)) := rq (prq (p_pri (procs t p))) @ [p]))" "core w = core t" "globals w = globals t"
    using setrq_queues [OF t(1) t(7,8) refl i] by blast
  note g = globalsD [OF w(4)]
  define v where "v = upd p (p_SLOAD_update (\<lambda>_. True)) w"
  have f: "fwd v = fwd w" "bwd v = bwd w" by (simp_all add: v_def fwd_upd bwd_upd)
  have vq: "queues v sl (rq(prq (p_pri (procs t p)) := rq (prq (p_pri (procs t p))) @ [p]))"
    by (rule queues_cong [OF w(2) f]) (simp_all add: v_def)
  have rp: "p_rlink (procs v p) \<noteq> NULLP" using on_runq [OF vq, of p] i by auto
  have rx: "p_rlink (procs v x) = NULLP \<longleftrightarrow> p_rlink (procs s x) = NULLP" if "x \<noteq> p" for x
  proof -
    have "x \<in> set ((rq(prq (p_pri (procs t p)) := rq (prq (p_pri (procs t p))) @ [p])) j) \<longleftrightarrow> x \<in> set (rq j)" for j using that by simp
    then have "p_rlink (procs v x) \<noteq> NULLP \<longleftrightarrow> p_rlink (procs t x) \<noteq> NULLP" using on_runq [OF vq, of x] on_runq [OF t(1), of x] by blast
    then show ?thesis using t(6) [of x] by auto
  qed
  have cx: "core v x = core s x" if "x \<noteq> p" for x using w(3) t(5) [OF that] that by (simp add: v_def core_def fun_eq_iff)
  have "core w p = core t p" by (simp add: w(3))
  from coreD(1,3) [OF this] ranges_core [OF this]
  have vp: "p_stat (procs v p) = SRUN" "p_SLOAD (procs v p)" "p_wchan (procs v p) = 0" "ranges (procs v p)"
    using t(8-10) by (simp_all add: v_def)
  have vg: "u_procp v = u_procp s" "noproc v = noproc s" "chans v = chans s" using g t(2-4) by (simp_all add: v_def)
  have "proc_ok v x" for x
  proof (cases "x = p")
    case False
    then show ?thesis using proc_ok_core [OF cx [OF False] rx [OF False]] sched_okD(1) [OF ok, of x] vg by simp
  qed (use vp rp in \<open>simp add: proc_ok_def Let_def\<close>)
  moreover have "cur_ok v"
  proof (cases "noproc s")
    case False
    then have n: "u_procp s \<noteq> p" using p by simp
    show ?thesis using sched_okD(2) [OF ok] False rx [OF n] coreD(3) [OF cx [OF n]] vg by (simp add: cur_ok_def)
  qed (use vg in \<open>simp add: cur_ok_def\<close>)
  ultimately have "sched_ok v" using vq sched_okD(3) [OF ok] vg by (auto simp: sched_ok_def)
  then have "kinv v" by (rule other_kinv [OF k p]) (use cx vg in simp_all)
  then show ?thesis using that w(1,3) by (simp add: v_def)
qed

lemma swap_in_ok:
  assumes k: "kinv s" and p: "noproc s \<or> u_procp s \<noteq> p" "\<not> p_SLOAD (procs s p)"
  obtains s' where "swap_in p s = Inr s'" "kinv s'"
proof -
  have ok: "sched_ok s" using k by (simp add: kinv_def)
  show ?thesis
  proof (cases "p_stat (procs s p) = SRUN")
    case False
    define t where "t = upd p (p_SLOAD_update (\<lambda>_. True)) s"
    have "sched_ok t"
    proof (rule change_ok [OF ok, of _ p])
      show "proc_ok t p" using sched_okD(1) [OF ok, of p] False by (auto simp: t_def proc_ok_def Let_def)
      show "cur_ok t" using sched_okD(2) [OF ok] by (auto simp: t_def cur_ok_def)
    qed (simp_all add: t_def fwd_upd bwd_upd)
    then have "kinv t" by (rule other_kinv [OF k p(1)]) (simp_all add: t_def core_def)
    moreover have "swap_in p s = Inr t" using False by (simp add: swap_in_def t_def)
    ultimately show ?thesis using that by blast
  next
    case True
    have rl: "p_rlink (procs s p) = NULLP" "p_wchan (procs s p) = 0"
      using sched_okD(1) [OF ok, of p] True p by (auto simp: proc_ok_def Let_def)
    obtain sl rq where q: "queues s sl rq" using sched_okD(4) [OF ok] by blast
    obtain w where "setrq p s = Inr w" "kinv (upd p (p_SLOAD_update (\<lambda>_. True)) w)"
      using queue_in [OF k p(1) q refl refl refl refl refl rl True sched_okR [OF ok]] by metis
    then show ?thesis using that True by (simp add: swap_in_def)
  qed
qed

lemma start_proc_ok:
  assumes k: "kinv s" and p: "noproc s \<or> u_procp s \<noteq> p" "p_stat (procs s p) = SIDL" "p_SLOAD (procs s p)"
  obtains s' where "start_proc p s = Inr s'" "kinv s'"
proof -
  have ok: "sched_ok s" using k by (simp add: kinv_def)
  obtain sl rq where q: "queues s sl rq" using sched_okD(4) [OF ok] by blast
  define t where "t = upd p (p_stat_update (\<lambda>_. SRUN)) s"
  have f: "fwd t = fwd s" "bwd t = bwd s" by (simp_all add: t_def fwd_upd bwd_upd)
  have tq: "queues t sl rq" by (rule queues_cong [OF q f]) (simp_all add: t_def)
  have rl: "p_rlink (procs t p) = NULLP" "p_wchan (procs t p) = 0" "ranges (procs t p)" "p_stat (procs t p) = SRUN"
    using sched_okD(1) [OF ok, of p] p by (auto simp: t_def proc_ok_def Let_def)
  obtain w where w: "setrq p t = Inr w" "core w = core t" "kinv (upd p (p_SLOAD_update (\<lambda>_. True)) w)"
  proof (rule queue_in [OF k p(1) tq _ _ _ _ _ rl(1,2,4,3)])
    fix w assume "setrq p t = Inr w" "core w = core t" "kinv (upd p (p_SLOAD_update (\<lambda>_. True)) w)"
    then show thesis by (rule that)
  qed (auto simp: t_def core_def)
  have "p_SLOAD (procs w p)" using coreD(4) [of w p t] w(2) p(3) by (simp add: t_def)
  then have "(procs w p)\<lparr>p_SLOAD := True\<rparr> = procs w p" by (cases "procs w p") simp
  then have "upd p (p_SLOAD_update (\<lambda>_. True)) w = w" by (simp add: upd_def)
  then show ?thesis using that w by (simp add: start_proc_def t_def)
qed

lemma zombie_ok:
  assumes k: "kinv s" and n: "\<not> noproc s"
  shows "kinv (zombie s)"
proof -
  have ok: "sched_ok s" and st: "p_stat (procs s (u_procp s)) = SRUN" using k n by (simp_all add: kinv_def)
  have rl: "p_rlink (procs s (u_procp s)) = NULLP" using sched_okD(2) [OF ok] n by (simp add: cur_ok_def)
  have "sched_ok (zombie s)"
  proof (rule change_ok [OF ok, of _ "u_procp s"])
    have "p_wchan (procs s (u_procp s)) = 0" using sched_okD(1) [OF ok, of "u_procp s"] st by (auto simp: proc_ok_def Let_def)
    then show "proc_ok (zombie s) (u_procp s)" using rl sched_okR [OF ok, of "u_procp s"] by (simp add: zombie_def proc_ok_def Let_def)
    show "cur_ok (zombie s)" by (simp add: zombie_def cur_ok_def)
  qed (simp_all add: zombie_def fwd_upd bwd_upd)
  then show ?thesis by (simp add: kinv_def zombie_def)
qed

lemma new_entry_ok:
  assumes k: "kinv s" and p: "\<not> noproc s" "p_stat (procs s p) = SFREE"
  shows "kinv (new_entry p v mpid s)"
proof -
  have ok: "sched_ok s" using k by (simp add: kinv_def)
  have n: "u_procp s \<noteq> p" using k p by (auto simp: kinv_def)
  have w: "p_wchan (procs s p) = 0" "p_rlink (procs s p) = NULLP" using sched_okD(1) [OF ok, of p] p(2) by (auto simp: proc_ok_def Let_def)
  have f: "fwd (new_entry p v mpid s) = fwd s" "bwd (new_entry p v mpid s) = bwd s" unfolding new_entry_def Let_def
    by (rule fwd_upd bwd_upd; simp)+
  have "sched_ok (new_entry p v mpid s)"
  proof (rule change_ok [OF ok f, of p])
    show "proc_ok (new_entry p v mpid s) p"
      using w sched_okR [OF ok, of p] sched_okR [OF ok, of "u_procp s"] by (simp add: new_entry_def Let_def proc_ok_def ranges_def)
    show "cur_ok (new_entry p v mpid s)" using sched_okD(2) [OF ok] n by (simp add: new_entry_def Let_def cur_ok_def)
  qed (use w in \<open>simp_all add: new_entry_def Let_def\<close>)
  then show ?thesis by (rule other_kinv [OF k disjI2 [OF n]]) (simp_all add: new_entry_def Let_def core_def)
qed

lemma reap_entry_ok:
  assumes k: "kinv s" and p: "noproc s \<or> u_procp s \<noteq> p" "p_stat (procs s p) = SZOMB"
  shows "kinv (reap_entry p s)"
proof -
  have ok: "sched_ok s" using k by (simp add: kinv_def)
  have w: "p_wchan (procs s p) = 0" "p_rlink (procs s p) = NULLP" using sched_okD(1) [OF ok, of p] p(2) by (auto simp: proc_ok_def Let_def)
  have f: "fwd (reap_entry p s) = fwd s" "bwd (reap_entry p s) = bwd s" unfolding reap_entry_def by (rule fwd_upd bwd_upd; simp)+
  have "sched_ok (reap_entry p s)"
  proof (rule change_ok [OF ok f, of p])
    show "proc_ok (reap_entry p s) p" using w sched_okR [OF ok, of p] by (simp add: reap_entry_def proc_ok_def Let_def ranges_def)
    show "cur_ok (reap_entry p s)" using sched_okD(2) [OF ok] p(1) by (auto simp: reap_entry_def cur_ok_def)
  qed (use w in \<open>simp_all add: reap_entry_def\<close>)
  then show ?thesis by (rule other_kinv [OF k p(1)]) (simp_all add: reap_entry_def core_def)
qed

lemma schedcpu_loop_ok: "kinv s \<Longrightarrow> \<exists>s'. schedcpu_loop ps s = Inr s' \<and> kinv s' \<and> chans s' = chans s"
proof (induction ps arbitrary: s)
  case (Cons p ps)
  obtain t where t: "schedcpu_proc p s = Inr t" "sched_ok t" "same_cpu s t"
    "\<And>x. p_wchan (procs t x) = p_wchan (procs s x) \<and> p_stat (procs t x) = p_stat (procs s x) \<and> p_SLOAD (procs t x) = p_SLOAD (procs s x)"
    using schedcpu_proc_ok [OF kinvD(1) [OF Cons.prems], of p] by metis
  have "kinv t" "chans t = chans s" using Cons.prems t(2-4) by (simp_all add: kinv_def same_cpu_def)
  then show ?case using Cons.IH [of t] t(1) by auto
qed simp

lemma wakeup_kinv:
  assumes "kinv s" "c \<noteq> 0"
  shows "\<exists>s'. wakeup c s = Some (Inr s') \<and> kinv s' \<and> chans s' = chans s"
proof -
  note ok = kinvD(1) [OF assms(1)]
  obtain s' where s': "wakeup c s = Some (Inr s')" "wakes (woken c s) s s'" using wakeup_ok [OF ok assms(2)] by blast
  have "stays s s'" by (rule wakes_stays [OF s'(2) ok woken_nonzero [OF ok assms(2)]])
  then show ?thesis using stays_kinv [OF _ _ assms(1)] s' by (auto simp: wakes_def)
qed

lemma kinv_runin [simp]: "kinv (s\<lparr>runin := b\<rparr>) = kinv s" "kinv (s\<lparr>runout := b\<rparr>) = kinv s"
proof -
  have "fwd (s\<lparr>runin := b\<rparr>) = fwd s" "bwd (s\<lparr>runin := b\<rparr>) = bwd s" by (rule fwd_eqI bwd_eqI; simp)+
  then have "sched_ok (s\<lparr>runin := b\<rparr>) = sched_ok s" by (simp add: sched_ok_def queues_def sleepq_def runq_def proc_ok_def cur_ok_def)
  then show "kinv (s\<lparr>runin := b\<rparr>) = kinv s" by (simp add: kinv_def)
qed (simp add: kinv_def)

lemma schedcpu_ok:
  assumes k: "kinv s"
  shows "\<exists>s'. schedcpu ps s = Some (Inr s') \<and> kinv s'"
proof -
  have c: "ch_lbolt (chans s) \<noteq> 0" "ch_runin (chans s) \<noteq> 0" "ch_proc (chans s) 2 \<noteq> 0"
    using sched_okD(3) [OF kinvD(1) [OF k]] by (simp_all add: chans_ok_def)
  obtain a where a: "wakeup (ch_lbolt (chans s)) s = Some (Inr a)" "kinv a" "chans a = chans s" using wakeup_kinv [OF k c(1)] by blast
  obtain b where b: "schedcpu_loop ps a = Inr b" "kinv b" "chans b = chans s" using schedcpu_loop_ok [OF a(2), of ps] a(3) by auto
  obtain d where d: "(if runin b then wakeup (ch_runin (chans b)) (b\<lparr>runin := False\<rparr>) else Some (Inr b)) = Some (Inr d)" "kinv d" "chans d = chans s"
    using wakeup_kinv [of "b\<lparr>runin := False\<rparr>" "ch_runin (chans b)"] b c(2) by (cases "runin b") auto
  show ?thesis using wakeup_kinv [OF d(2), of "ch_proc (chans s) 2"] a b d c(3) by (auto simp: schedcpu_def)
qed

section \<open>All operations\<close>

text \<open>
  What processes and interrupts do. \<open>enabled\<close> is what the code sees to before it calls: that somebody runs, that the process is
  not the running one, that it is new, dead, in core or not, that the swapper gets no signals. A process that calls \<open>sleep\<close> may have
  signals to take; left out is only one that would stop inside \<open>sleep\<close>, because it is traced or has a stop signal with the
  default action to take: it is on a sleep queue while \<^verbatim>\<open>issig\<close> signals its parent, and \<open>wakeup\<close> panics when the
  swapper waits on a channel of the same hash.
\<close>

datatype kop = Wakeup "32 word" | Signal nat nat | Sleep "nat \<Rightarrow> usig" "32 word" int | User_return | Schedcpu "nat list" | Switch
  | Swap_out nat | Swap_in nat | New nat bool int | Start nat | Exit | Reap nat | Want_in

definition enabled :: "kop \<Rightarrow> sched \<Rightarrow> bool" where
  "enabled a s = (case a of
     Wakeup c \<Rightarrow> c \<noteq> 0
   | Signal p sig \<Rightarrow> p_pptr (procs s p) \<noteq> p \<and> p_wchan (procs s p) \<noteq> addr_runout s
   | Sleep us c pri \<Rightarrow> \<not> noproc s \<and> c \<noteq> 0 \<and> 0 \<le> pri \<and> pri < 128 \<and>
       (pri \<le> PZERO \<or> \<not> sig_pending (procs s (u_procp s)) \<or> \<not> stops_here us (procs s (u_procp s)))
   | User_return \<Rightarrow> \<not> noproc s
   | Schedcpu ps \<Rightarrow> True
   | Switch \<Rightarrow> noproc s
   | Swap_out p \<Rightarrow> (noproc s \<or> u_procp s \<noteq> p) \<and> p_SLOAD (procs s p)
   | Swap_in p \<Rightarrow> (noproc s \<or> u_procp s \<noteq> p) \<and> \<not> p_SLOAD (procs s p)
   | New p v mpid \<Rightarrow> \<not> noproc s \<and> p_stat (procs s p) = SFREE
   | Start p \<Rightarrow> (noproc s \<or> u_procp s \<noteq> p) \<and> p_stat (procs s p) = SIDL \<and> p_SLOAD (procs s p)
   | Exit \<Rightarrow> \<not> noproc s
   | Reap p \<Rightarrow> (noproc s \<or> u_procp s \<noteq> p) \<and> p_stat (procs s p) = SZOMB
   | Want_in \<Rightarrow> True)"

definition kexec :: "kop \<Rightarrow> sched \<Rightarrow> sched kern option" where
  "kexec a s = (case a of
     Wakeup c \<Rightarrow> wakeup c s
   | Signal p sig \<Rightarrow> psignal p sig s
   | Sleep us c pri \<Rightarrow> sbind (sleep us c pri s) (\<lambda>r. Some (Inr (sleep_state r)))
   | User_return \<Rightarrow> Some (user_return s)
   | Schedcpu ps \<Rightarrow> schedcpu ps s
   | Switch \<Rightarrow> Some (swtch s)
   | Swap_out p \<Rightarrow> Some (swap_out p s)
   | Swap_in p \<Rightarrow> Some (swap_in p s)
   | New p v mpid \<Rightarrow> Some (Inr (new_entry p v mpid s))
   | Start p \<Rightarrow> Some (start_proc p s)
   | Exit \<Rightarrow> Some (Inr (zombie s))
   | Reap p \<Rightarrow> Some (Inr (reap_entry p s))
   | Want_in \<Rightarrow> Some (Inr (s\<lparr>runout := True\<rparr>)))"

lemma kexec_ok:
  assumes k: "kinv s" and e: "enabled a s"
  shows "\<exists>s'. kexec a s = Some (Inr s') \<and> kinv s'"
proof (cases a)
  case (Wakeup c)
  then show ?thesis using wakeup_kinv [OF k, of c] e by (auto simp: kexec_def enabled_def)
next
  case (Signal p sig)
  then show ?thesis using psignal_ok [OF kinvD(1) [OF k] kinvD(2) [OF k], of p sig] e stays_kinv [OF _ _ k]
    by (simp add: kexec_def enabled_def) metis
next
  case (Sleep us c pri)
  have e: "\<not> noproc s" "c \<noteq> 0" "0 \<le> pri" "pri < 128"
    "pri \<le> PZERO \<or> \<not> sig_pending (procs s (u_procp s)) \<or> \<not> stops_here us (procs s (u_procp s))"
    using e unfolding Sleep enabled_def kop.case by blast+
  obtain r where "sleep us c pri s = Some (Inr r)" "kinv (sleep_state r)" using sleep_kinv [OF k e] by blast
  then show ?thesis using Sleep by (simp add: kexec_def)
next
  case User_return
  then show ?thesis using user_return_ok [OF k] e by (auto simp: kexec_def enabled_def)
next
  case (Schedcpu ps)
  then show ?thesis using schedcpu_ok [OF k, of ps] by (simp add: kexec_def)
next
  case Switch
  then have "s\<lparr>noproc := True\<rparr> = s" using e by (simp add: enabled_def)
  then have "idle_ok s" using kinvD(1) [OF k] by (simp add: idle_ok_def)
  then show ?thesis using Switch swtch_inv by (auto simp: kexec_def)
next
  case (Swap_out p)
  then show ?thesis using swap_out_ok [OF k, of p] e by (auto simp: kexec_def enabled_def)
next
  case (Swap_in p)
  then show ?thesis using swap_in_ok [OF k, of p] e by (auto simp: kexec_def enabled_def)
next
  case (New p v mpid)
  then show ?thesis using new_entry_ok [OF k, of p v mpid] e by (simp add: kexec_def enabled_def)
next
  case (Start p)
  then show ?thesis using start_proc_ok [OF k, of p] e by (auto simp: kexec_def enabled_def)
next
  case Exit
  then show ?thesis using zombie_ok [OF k] e by (simp add: kexec_def enabled_def)
next
  case (Reap p)
  then show ?thesis using reap_entry_ok [OF k, of p] e by (simp add: kexec_def enabled_def)
next
  case Want_in
  then show ?thesis using k by (simp add: kexec_def)
qed

section \<open>Reachable states\<close>

text \<open>The tables before the first process runs: no queue is in use, all entries but the first are free.\<close>

definition fresh :: "sched \<Rightarrow> bool" where
  "fresh s = (u_procp s = 0 \<and> \<not> noproc s \<and> whichqs s = 0 \<and> chans_ok (chans s) \<and> (\<forall>i. sq_head s i = NULLP) \<and>
     (\<forall>p. p_rlink (procs s p) = NULLP \<and> p_wchan (procs s p) = 0 \<and> ranges (procs s p) \<and>
        (if p = 0 then p_stat (procs s p) = SRUN \<and> p_SLOAD (procs s p) else p_stat (procs s p) = SFREE)))"

lemma fresh_kinv:
  assumes "fresh s"
  shows "kinv (rqinit s)"
proof -
  have "queues (rqinit s) (\<lambda>_. []) (\<lambda>_. [])" using assms by (simp add: queues_def sleepq_def runq_def rqinit_def fresh_def)
  moreover have "proc_ok (rqinit s) p" for p
  proof -
    have "p_rlink (procs s p) = NULLP" "p_wchan (procs s p) = 0" "ranges (procs s p)" using assms by (simp_all add: fresh_def)
    then show ?thesis using assms by (cases "p = 0") (simp_all add: fresh_def proc_ok_def rqinit_def)
  qed
  moreover have "cur_ok (rqinit s)" using assms by (simp add: fresh_def cur_ok_def rqinit_def)
  moreover have "chans_ok (chans (rqinit s))" using assms by (simp add: fresh_def rqinit_def)
  ultimately have "sched_ok (rqinit s)" by (auto simp: sched_ok_def)
  then show ?thesis using assms by (simp add: kinv_def fresh_def rqinit_def)
qed

inductive kreach :: "sched \<Rightarrow> bool" where
  boot: "fresh s \<Longrightarrow> kreach (rqinit s)"
| kstep: "kreach s \<Longrightarrow> enabled a s \<Longrightarrow> kexec a s = Some (Inr s') \<Longrightarrow> kreach s'"

inductive_cases kreachE: "kreach s"

lemma kreach_kinv: "kreach s \<Longrightarrow> kinv s"
proof (induction rule: kreach.induct)
  case (boot s)
  then show ?case by (rule fresh_kinv)
next
  case (kstep s a s')
  then show ?case using kexec_ok [of s a] by auto
qed

section \<open>Properties\<close>

text \<open>
  C11. From booting on, through any sequence of sleeps, wakeups, signals, priority recomputations, switches, swaps, new and dead
  processes, every operation comes back without a panic, and the queues it leaves are well formed: the pointers represent
  lists without repetitions, every sleeping process waits on a channel, the processes on the run queues are ready and in core,
  and each ready process in core is on a run queue or running. A process that calls \<^verbatim>\<open>sleep\<close> may have signals to take, but
  none that stops it there.
\<close>

theorem kernel_queues_safe:
  assumes "kreach s" "enabled a s"
  shows "\<exists>s' sl rq. kexec a s = Some (Inr s') \<and> queues s' sl rq \<and>
    (\<forall>p. (p_stat (procs s' p) = SSLEEP \<longrightarrow> p_wchan (procs s' p) \<noteq> 0) \<and>
       (p_wchan (procs s' p) \<noteq> 0 \<longrightarrow> p \<in> set (sl (sqhash (p_wchan (procs s' p))))) \<and>
       ((\<exists>i < NQS. p \<in> set (rq i)) \<longrightarrow> p_stat (procs s' p) = SRUN \<and> p_SLOAD (procs s' p)) \<and>
       (p_stat (procs s' p) = SRUN \<and> p_SLOAD (procs s' p) \<longrightarrow> (\<exists>i < NQS. p \<in> set (rq i)) \<or> p = u_procp s' \<and> \<not> noproc s'))"
proof -
  obtain s' where s': "kexec a s = Some (Inr s')" "kinv s'" using kexec_ok [OF kreach_kinv [OF assms(1)] assms(2)] by blast
  have ok: "sched_ok s'" using s'(2) by (simp add: kinv_def)
  obtain sl rq where q: "queues s' sl rq" using sched_okD(4) [OF ok] by blast
  have k: "proc_ok s' p" for p by (rule sched_okD(1) [OF ok])
  have "p \<in> set (sl (sqhash (p_wchan (procs s' p))))" if "p_wchan (procs s' p) \<noteq> 0" for p
    using queues_mem(1) [OF q sqhash_less] that by simp
  then show ?thesis using s'(1) q k on_runq [OF q] unfolding proc_ok_def Let_def by metis
qed

text \<open>
  C12. \<^verbatim>\<open>wakeup\<close> ends, and wakes exactly the processes that wait on the channel: those asleep become ready, those stopped
  only lose the channel, and no other process is touched, but for the swapper when one of them is not in core and it waits for
  such a process.
\<close>

theorem wakeup_exact:
  assumes "kreach s" "c \<noteq> 0"
  shows "\<exists>s'. wakeup c s = Some (Inr s') \<and>
    (\<forall>p. if p_wchan (procs s p) = c \<or> p \<in> woken c s
      then p_wchan (procs s' p) = 0 \<and> p_slptime (procs s' p) = 0 \<and>
        p_stat (procs s' p) = (if p_stat (procs s p) = SSLEEP then SRUN else p_stat (procs s p)) \<and> p_pri (procs s' p) = p_pri (procs s p)
      else core s' p = core s p) \<and>
    runout s' = (runout s \<and> \<not> swapped c s)"
proof -
  obtain s' where s': "wakeup c s = Some (Inr s')" "wakes (woken c s) s s'" "runout s' = (runout s \<and> \<not> swapped c s)"
    using wakeup_ok [OF kinvD(1) [OF kreach_kinv [OF assms(1)]] assms(2)] by blast
  have "p \<in> woken c s" if "p_wchan (procs s p) = c" for p using that by (simp add: woken_def waiting_def)
  then show ?thesis using s' staticD(1) unfolding wakes_def awake_def by (intro exI [of _ s']) metis
qed

text \<open>
  The processor goes to a ready process of the best run queue: no other one in core is on a better queue. It stays idle
  only when no process is ready.
\<close>

theorem swtch_best:
  assumes "kreach s" "noproc s"
  shows "\<exists>s'. swtch s = Inr s' \<and>
    (if noproc s' then (\<forall>p. \<not> (p_stat (procs s p) = SRUN \<and> p_SLOAD (procs s p)))
     else p_stat (procs s' (u_procp s')) = SRUN \<and> p_SLOAD (procs s' (u_procp s')) \<and>
       (\<forall>p. p_stat (procs s p) = SRUN \<and> p_SLOAD (procs s p) \<longrightarrow> p_pri (procs s' (u_procp s')) div 4 \<le> p_pri (procs s p) div 4))"
proof -
  have ok: "sched_ok s" using kreach_kinv [OF assms(1)] by (simp add: kinv_def)
  have id: "s\<lparr>noproc := True\<rparr> = s" using assms(2) by simp
  then have "idle_ok s" using ok by (simp add: idle_ok_def)
  from swtch_ok [OF this] obtain s' where s': "swtch s = Inr s'" "sched_ok s'" "core s' = core s"
    "noproc s' \<Longrightarrow> (\<forall>q. p_rlink (procs s q) = NULLP)"
    "\<not> noproc s' \<Longrightarrow> p_rlink (procs s (u_procp s')) \<noteq> NULLP \<and>
      (\<forall>q. p_rlink (procs s q) \<noteq> NULLP \<longrightarrow> prq (p_pri (procs s (u_procp s'))) \<le> prq (p_pri (procs s q)))" by metis
  have ready: "p_rlink (procs s p) \<noteq> NULLP \<longleftrightarrow> p_stat (procs s p) = SRUN \<and> p_SLOAD (procs s p)" for p
    using sched_okD(1) [OF ok, of p] assms(2) unfolding proc_ok_def Let_def by blast
  have div: "prq (p_pri (procs s p)) \<le> prq (p_pri (procs s q)) \<longleftrightarrow> p_pri (procs s p) div 4 \<le> p_pri (procs s q) div 4" for p q
  proof -
    have "0 \<le> p_pri (procs s q) div 4" using sched_okR [OF ok, of q] by (simp add: ranges_def pos_imp_zdiv_nonneg_iff)
    then show ?thesis using sched_okR [OF ok, of p] sched_okR [OF ok, of q] by (simp add: ranges_def prq_div nat_le_eq_zle)
  qed
  have c: "p_pri (procs s' x) = p_pri (procs s x) \<and> p_stat (procs s' x) = p_stat (procs s x) \<and> p_SLOAD (procs s' x) = p_SLOAD (procs s x)" for x
    using coreD(2-4) [of s' x s] s'(3) by simp
  show ?thesis
  proof (cases "noproc s'")
    case True
    then show ?thesis using s'(1,4) ready by auto
  next
    case False
    have "\<forall>q. p_stat (procs s q) = SRUN \<and> p_SLOAD (procs s q) \<longrightarrow> p_pri (procs s (u_procp s')) div 4 \<le> p_pri (procs s q) div 4"
      using s'(5) [OF False] unfolding ready div by blast
    moreover have "p_stat (procs s (u_procp s')) = SRUN \<and> p_SLOAD (procs s (u_procp s'))" using s'(5) [OF False] unfolding ready by blast
    ultimately show ?thesis using s'(1) False c by auto
  qed
qed

text \<open>
  The priorities, the processor use and the times of every process stay in the range of the bytes they are kept in, so that
  the numbers of the model are those of the code.
\<close>

theorem priorities_fit:
  assumes "kreach s"
  shows "0 \<le> p_pri (procs s p) \<and> p_pri (procs s p) < 128 \<and> 0 \<le> p_usrpri (procs s p) \<and> p_usrpri (procs s p) < 128 \<and>
    -20 \<le> p_nice (procs s p) \<and> p_nice (procs s p) \<le> 20 \<and> p_cpu (procs s p) < 256 \<and> p_slptime (procs s p) < 128 \<and> p_time (procs s p) < 128"
  using sched_okR [OF kinvD(1) [OF kreach_kinv [OF assms]], of p] by (simp add: ranges_def)


lemma sig_action_post [simp]: "sig_action (post_sig g a x) m = sig_action x m"
  by (simp add: sig_action_def post_sig_def Let_def)



section \<open>A process made ready by a signal\<close>

text \<open>
  \<^verbatim>\<open>wakeup\<close> resets \<^verbatim>\<open>p_slptime\<close>, \<^verbatim>\<open>setrun\<close> does not: for a process that has used no processor time lately,
  \<^verbatim>\<open>updatepri\<close> leaves it one less than it was, and \<^verbatim>\<open>schedcpu\<close>, which takes a value above 1 for a process asleep, recomputes
  the priority of the process no more until it sleeps again.
\<close>

lemma updatepri_keeps_slptime:
  assumes "p_cpu (procs s p) = 0"
  shows "p_slptime (procs (updatepri p s) p) = p_slptime (procs s p) - 1"
proof (cases "p_slptime (procs s p) - 1")
  case 0
  then show ?thesis by (simp add: updatepri_def assms)
next
  case (Suc n)
  then show ?thesis by (simp add: updatepri_def assms)
qed

lemma schedcpu_skips:
  assumes "p_stat (procs s p) = SRUN" "1 < p_slptime (procs s p)"
  shows "\<exists>s'. schedcpu_proc p s = Inr s' \<and> p_cpu (procs s' p) = p_cpu (procs s p) \<and> p_usrpri (procs s' p) = p_usrpri (procs s p) \<and>
    p_pri (procs s' p) = p_pri (procs s p) \<and> p_slptime (procs s' p) = p_slptime (procs s p)"
  using assms by (simp add: schedcpu_proc_def Let_def)

section \<open>Witnesses\<close>

definition w_proc :: "nat \<Rightarrow> proc" where
  "w_proc p = \<lparr>p_link = NULLP, p_rlink = NULLP, p_usrpri = 50, p_pri = 50, p_cpu = 0, p_stat = (if p = 0 then SRUN else SFREE), p_time = 0,
     p_nice = 0, p_slptime = 0, p_cursig = 0, p_sig = 0, p_sigmask = 0, p_sigignore = 0, p_sigcatch = 0, p_SLOAD = (p = 0), p_STRC = False,
     p_SVFORK = False, p_SWTED = False, p_SOMASK = False, p_SOUSIG = False, p_pid = int p, p_ppid = 0, p_pgrp = 0, p_pptr = 7,
     p_rssize = 0, p_maxrss = 100, p_wchan = 0, p_cpticks = 0, p_pctcpu = 0\<rparr>"

definition w_boot :: sched where
  "w_boot = \<lparr>procs = w_proc, sq_head = (\<lambda>_. NULLP), sq_tailp = (\<lambda>_. Head 0), ph_link = (\<lambda>_. NULLP), ph_rlink = (\<lambda>_. NULLP), whichqs = 0,
     u_procp = 0, noproc = False, curpri = 50, runrun = 0, astpend = False, runout = False, runin = False, wantin = 0, bclnlist = False,
     panicstr = False, nvcsw = 0, nivcsw = 0, avenrun = 1, sfreemem = 100, sdesfree = 10, shz = 100,
     chans = \<lparr>ch_runout = 4096, ch_runin = 4128, ch_lbolt = 4160, ch_proc = (\<lambda>_. 8192)\<rparr>\<rparr>"

lemma w_fresh: "fresh w_boot"
  by (simp add: fresh_def w_boot_def w_proc_def ranges_def chans_ok_def)

lemma w_reach: "kreach (rqinit w_boot)"
  by (rule kreach.boot [OF w_fresh])

lemma w_enabled_sleep: "enabled (Sleep (\<lambda>_. U_DFL) 64 30) (rqinit w_boot)"
  by (simp add: enabled_def rqinit_def w_boot_def w_proc_def sig_pending_def)

text \<open>A state in which process 0 sleeps on the channel 64.\<close>

lemma w_asleep: "\<exists>s. kreach s \<and> p_stat (procs s 0) = SSLEEP \<and> p_wchan (procs s 0) = 64 \<and> p_pri (procs s 0) = 30 \<and>
    static (procs s 0) = static ((w_proc 0)\<lparr>p_pri := 30\<rparr>) \<and> chans s = chans w_boot"
proof -
  let ?b = "rqinit w_boot"
  have b: "kinv ?b" "u_procp ?b = 0" "\<not> noproc ?b" "\<not> panicstr ?b" "procs ?b 0 = w_proc 0" "chans ?b = chans w_boot"
    using kreach_kinv [OF w_reach] by (simp_all add: rqinit_def w_boot_def)
  have sp: "(30 :: int) \<le> PZERO \<or> \<not> sig_pending (procs ?b (u_procp ?b))" using b(2,5) by (simp add: sig_pending_def w_proc_def)
  obtain s where s: "sleep (\<lambda>_. U_DFL) 64 30 ?b = Some (Inr (Asleep s))" "p_stat (procs s 0) = SSLEEP" "p_wchan (procs s 0) = 64"
    "p_pri (procs s 0) = 30" "static (procs s 0) = static ((w_proc 0)\<lparr>p_pri := 30\<rparr>)" "chans s = chans w_boot"
    using sleep_ok [OF b(1,3) _ _ _ sp b(4), of 64 "\<lambda>_. U_DFL"] b by auto
  have "kexec (Sleep (\<lambda>_. U_DFL) 64 30) ?b = Some (Inr s)" using s(1) by (simp add: kexec_def)
  then have "kreach s" using kreach.kstep [OF w_reach w_enabled_sleep] by blast
  then show ?thesis using s by blast
qed

theorem kernel_queues_safe_witness:
  "\<exists>s' sl rq. kexec (Sleep (\<lambda>_. U_DFL) 64 30) (rqinit w_boot) = Some (Inr s') \<and> queues s' sl rq"
  using kernel_queues_safe [OF w_reach w_enabled_sleep] by blast

theorem wakeup_exact_witness:
  "\<exists>s s'. p_stat (procs s 0) = SSLEEP \<and> wakeup 64 s = Some (Inr s') \<and> p_stat (procs s' 0) = SRUN \<and> p_wchan (procs s' 0) = 0"
proof -
  obtain s where s: "kreach s" "p_stat (procs s 0) = SSLEEP" "p_wchan (procs s 0) = 64" using w_asleep by blast
  show ?thesis using wakeup_exact [OF s(1), of 64] s(2,3) by auto
qed

theorem swtch_best_witness: "\<exists>s s'. kreach s \<and> swtch s = Inr s'"
proof -
  have "kexec Exit (rqinit w_boot) = Some (Inr (zombie (rqinit w_boot)))" "enabled Exit (rqinit w_boot)"
    by (simp_all add: kexec_def enabled_def rqinit_def w_boot_def)
  then have r: "kreach (zombie (rqinit w_boot))" using kreach.kstep [OF w_reach] by blast
  have "noproc (zombie (rqinit w_boot))" by (simp add: zombie_def)
  then show ?thesis using swtch_best [OF r] r by blast
qed

theorem priorities_fit_witness: "p_pri (procs (rqinit w_boot) 0) < 128"
  using priorities_fit [OF w_reach, of 0] by simp


end
