(* ===== verification/Sig_disp.thy ===== *)
theory Sig_disp
  imports Sched_props
begin

text \<open>
  The dispositions of signals: whatever a process asks for with the system calls of \<^verbatim>\<open>kern_sig.c\<close>, and whatever handlers run,
  its masks say the same as its vector of handlers, and nothing keeps off \<^verbatim>\<open>SIGKILL\<close> and \<^verbatim>\<open>SIGSTOP\<close>.
\<close>

definition no_kill :: "32 word \<Rightarrow> bool" where
  "no_kill w = (\<not> bit w (SIGKILL - 1) \<and> \<not> bit w (SIGSTOP - 1))"

definition disp_ok :: "usersig \<times> proc \<Rightarrow> bool" where
  "disp_ok = (\<lambda>(u, p). no_kill (p_sigmask p) \<and> (p_SOMASK p \<longrightarrow> no_kill (u_oldmask u)) \<and> (\<forall>sig. no_kill (u_sigmask u sig)) \<and>
     u_signal u SIGKILL = U_DFL \<and> u_signal u SIGSTOP = U_DFL \<and>
     (\<forall>sig. 0 < sig \<and> sig < NSIG \<longrightarrow> (bit (p_sigignore p) (sig - 1) \<longleftrightarrow> u_signal u sig = U_IGN) \<and>
        (bit (p_sigcatch p) (sig - 1) \<longleftrightarrow> u_signal u sig \<in> {U_FUNC, U_HOLD})))"

text \<open>The system calls, and taking a signal: \<^verbatim>\<open>issig\<close> leaves its number in \<^verbatim>\<open>p_cursig\<close>.\<close>

inductive disp_step :: "usersig \<times> proc \<Rightarrow> usersig \<times> proc \<Rightarrow> bool" where
  vec: "sigvec_set sig sv st = Some st' \<Longrightarrow> disp_step st st'"
| block: "disp_step (u, p) (u, sigblock m p)"
| setmask: "disp_step (u, p) (u, sigsetmask m p)"
| pause: "disp_step st (sigpause m st)"
| take_sig: "sig < NSIG \<Longrightarrow> psig (u, p\<lparr>p_cursig := sig, p_sig := w\<rparr>) = Inr (st', Handler n m) \<Longrightarrow> disp_step (u, p) st'"

inductive_cases disp_stepE: "disp_step st st'"

lemma bit_cantmask: "bit cantmask i \<longleftrightarrow> i \<in> {8, 16, 18}"
  by (auto simp: cantmask_def bit_or_iff bit_sigmask)

lemma no_kill_cant [simp]: "no_kill (w AND NOT cantmask)"
  by (simp add: no_kill_def bit_and_iff bit_not_iff bit_cantmask)

lemma no_kill_or: "no_kill (v OR w) \<longleftrightarrow> no_kill v \<and> no_kill w"
  by (auto simp: no_kill_def bit_or_iff)

lemma no_kill_sigmask: "sig \<noteq> SIGKILL \<Longrightarrow> sig \<noteq> SIGSTOP \<Longrightarrow> no_kill (sigmask sig)"
  by (auto simp: no_kill_def bit_sigmask)

lemma no_kill_0 [simp]: "no_kill 0"
  by (simp add: no_kill_def)

lemma bit_eq_sig: "0 < (a :: nat) \<Longrightarrow> 0 < b \<Longrightarrow> a - Suc 0 = b - Suc 0 \<longleftrightarrow> a = b"
  by auto

lemma sigvec_set_ok:
  assumes "disp_ok (u, p)" "sigvec_set sig sv (u, p) = Some st'"
  shows "disp_ok st'"
proof -
  have sig: "0 < sig" "sig < 32" "sig \<noteq> SIGKILL" "sig \<noteq> SIGSTOP" and st: "st' = setsigvec sig sv (u, p)"
    using assms(2) by (auto simp: sigvec_set_def split: if_splits)
  obtain u' p' where s: "setsigvec sig sv (u, p) = (u', p')" by fastforce
  have o: "p_sigmask p' = p_sigmask p" "p_SOMASK p' = p_SOMASK p" "u_oldmask u' = u_oldmask u"
    "u_sigmask u' = (u_sigmask u)(sig := sv_mask sv AND NOT cantmask)" "u_signal u' = (u_signal u)(sig := sv_handler sv)"
    using s by (auto simp: setsigvec_def Let_def split: if_splits)
  have g: "(bit (p_sigignore p') (g - 1) \<longleftrightarrow> u_signal u' g = U_IGN) \<and> (bit (p_sigcatch p') (g - 1) \<longleftrightarrow> u_signal u' g \<in> {U_FUNC, U_HOLD})"
    if g: "0 < g" "g < 32" for g
  proof -
    have k: "bit (p_sigignore p) (g - 1) \<longleftrightarrow> u_signal u g = U_IGN" "bit (p_sigcatch p) (g - 1) \<longleftrightarrow> u_signal u g \<in> {U_FUNC, U_HOLD}"
      using assms(1) g by (simp_all add: disp_ok_def)
    have b: "bit (sigmask sig) (g - 1) \<longleftrightarrow> g = sig" using sig g by (auto simp: bit_sigmask)
    have i: "bit (p_sigignore p') (g - 1) \<longleftrightarrow> (if g = sig then sv_handler sv = U_IGN else bit (p_sigignore p) (g - 1))"
      using s b g by (auto simp: setsigvec_def Let_def bit_and_iff bit_or_iff bit_not_iff split: if_splits)
    have c: "bit (p_sigcatch p') (g - 1) \<longleftrightarrow> (if g = sig then sv_handler sv \<in> {U_FUNC, U_HOLD} else bit (p_sigcatch p) (g - 1))"
      using s b g by (cases "sv_handler sv") (auto simp: setsigvec_def Let_def bit_and_iff bit_or_iff bit_not_iff)
    show ?thesis using i c k o(5) by auto
  qed
  have d: "u_signal u' SIGKILL = U_DFL" "u_signal u' SIGSTOP = U_DFL" using assms(1) sig o(5) by (auto simp: disp_ok_def)
  show ?thesis using assms(1) g d o unfolding st s by (simp add: disp_ok_def)
qed

lemma psig_ok:
  assumes "disp_ok (u, p)" "sig < 32" "psig (u, p\<lparr>p_cursig := sig, p_sig := w\<rparr>) = Inr (st', Handler n m)"
  shows "disp_ok st'"
proof -
  have h: "0 < sig" "u_signal u sig \<noteq> U_DFL" "u_signal u sig \<noteq> U_IGN"
    using assms(3) by (auto simp: psig_def Let_def split: if_splits)
  then have sig: "sig \<noteq> SIGKILL" "sig \<noteq> SIGSTOP" using assms(1) by (auto simp: disp_ok_def)
  obtain u' p' where s: "st' = (u', p')" by fastforce
  define reset where "reset = (p_SOUSIG p \<and> sig \<noteq> 4 \<and> sig \<noteq> 5)"
  have e: "u' = (if reset then u\<lparr>u_signal := (u_signal u)(sig := U_DFL)\<rparr> else u)"
    "p_sigcatch p' = (if reset then p_sigcatch p AND NOT (sigmask sig) else p_sigcatch p)" "p_sigignore p' = p_sigignore p" "p_SOMASK p' = False"
    "p_sigmask p' = p_sigmask p OR u_sigmask u sig OR (if p_SOUSIG p then 0 else sigmask sig)"
    using assms(3) h s by (auto simp: psig_def Let_def reset_def split: if_splits)
  have nk: "no_kill (p_sigmask p')" using assms(1) no_kill_sigmask [OF sig] unfolding e(5) by (simp add: no_kill_or disp_ok_def)
  have g: "(bit (p_sigignore p') (g - 1) \<longleftrightarrow> u_signal u' g = U_IGN) \<and> (bit (p_sigcatch p') (g - 1) \<longleftrightarrow> u_signal u' g \<in> {U_FUNC, U_HOLD})"
    if g: "0 < g" "g < 32" for g
  proof -
    have k: "bit (p_sigignore p) (g - 1) \<longleftrightarrow> u_signal u g = U_IGN" "bit (p_sigcatch p) (g - 1) \<longleftrightarrow> u_signal u g \<in> {U_FUNC, U_HOLD}"
      using assms(1) g by (simp_all add: disp_ok_def)
    have b: "bit (sigmask sig) (g - 1) \<longleftrightarrow> g = sig" using h(1) assms(2) g by (auto simp: bit_sigmask)
    show ?thesis using k b h g unfolding e by (auto simp: bit_and_iff bit_not_iff)
  qed
  show ?thesis using assms(1) g nk sig e(1,4) unfolding s by (auto simp: disp_ok_def)
qed

lemma disp_step_ok: "disp_step st st' \<Longrightarrow> disp_ok st \<Longrightarrow> disp_ok st'"
proof (induction rule: disp_step.induct)
  case (vec sig sv st st')
  then show ?case using sigvec_set_ok [of "fst st" "snd st" sig sv st'] by simp
next
  case (take_sig sig u p w st' n m)
  then show ?case using psig_ok by blast
qed (auto simp: disp_ok_def sigblock_def sigsetmask_def sigpause_def no_kill_or)

inductive disp_reach :: "usersig \<times> proc \<Rightarrow> bool" where
  start: "(\<forall>sig. u_signal u sig = U_DFL \<and> u_sigmask u sig = 0) \<Longrightarrow> p_sigmask p = 0 \<Longrightarrow> p_sigignore p = 0 \<Longrightarrow> p_sigcatch p = 0 \<Longrightarrow>
    \<not> p_SOMASK p \<Longrightarrow> disp_reach (u, p)"
| more: "disp_reach st \<Longrightarrow> disp_step st st' \<Longrightarrow> disp_reach st'"

lemma disp_reach_ok: "disp_reach st \<Longrightarrow> disp_ok st"
proof (induction rule: disp_reach.induct)
  case (start u p)
  then show ?case by (simp add: disp_ok_def)
next
  case (more st st')
  then show ?case using disp_step_ok by blast
qed

text \<open>
  After any sequence of \<^verbatim>\<open>sigvec\<close>, \<^verbatim>\<open>sigblock\<close>, \<^verbatim>\<open>sigsetmask\<close>, \<^verbatim>\<open>sigpause\<close> and handlers started, the masks of
  the process say what its vector of handlers says, and \<^verbatim>\<open>psignal\<close> finds \<^verbatim>\<open>SIGKILL\<close> and \<^verbatim>\<open>SIGSTOP\<close> neither ignored nor
  held nor caught.
\<close>

theorem kill_cannot_be_kept_off:
  assumes "disp_reach (u, p)"
  shows "sig_action p (sigmask SIGKILL) = Some SIG_DFL \<and> sig_action p (sigmask SIGSTOP) = Some SIG_DFL \<and>
    (\<forall>sig \<in> {1..<NSIG}. \<not> p_STRC p \<longrightarrow> sig_action p (sigmask sig) =
      (if u_signal u sig = U_IGN then None else if bit (p_sigmask p) (sig - 1) then Some SIG_HOLD
       else if u_signal u sig = U_DFL then Some SIG_DFL else Some SIG_CATCH))"
proof -
  have ok: "disp_ok (u, p)" by (rule disp_reach_ok [OF assms])
  have b: "p_sigignore p AND sigmask sig \<noteq> 0 \<longleftrightarrow> u_signal u sig = U_IGN" "p_sigcatch p AND sigmask sig \<noteq> 0 \<longleftrightarrow> u_signal u sig \<in> {U_FUNC, U_HOLD}"
    "p_sigmask p AND sigmask sig \<noteq> 0 \<longleftrightarrow> bit (p_sigmask p) (sig - 1)" if "0 < sig" "sig < 32" for sig
    using ok that sigmask_nonzero [of sig] by (simp_all add: disp_ok_def)
  have k: "u_signal u SIGKILL = U_DFL" "u_signal u SIGSTOP = U_DFL" "\<not> bit (p_sigmask p) (SIGKILL - 1)" "\<not> bit (p_sigmask p) (SIGSTOP - 1)"
    using ok by (simp_all add: disp_ok_def no_kill_def)
  have "sig_action p (sigmask sig) = (if u_signal u sig = U_IGN then None else if bit (p_sigmask p) (sig - 1) then Some SIG_HOLD
       else if u_signal u sig = U_DFL then Some SIG_DFL else Some SIG_CATCH)" if "\<not> p_STRC p" "0 < sig" "sig < 32" for sig
    using b [OF that(2,3)] that(1) by (cases "u_signal u sig") (simp_all add: sig_action_def)
  moreover have "sig_action p (sigmask sig) = Some SIG_DFL" if "sig = SIGKILL \<or> sig = SIGSTOP" for sig
    using b [of sig] k that unfolding sig_action_def by auto
  ultimately show ?thesis by auto
qed

definition w_user :: usersig where
  "w_user = \<lparr>u_signal = (\<lambda>_. U_DFL), u_sigmask = (\<lambda>_. 0), u_sigintr = 0, u_sigonstack = 0, u_oldmask = 0\<rparr>"

theorem kill_cannot_be_kept_off_witness:
  "sig_action (sigsetmask (NOT 0) (w_proc 0)) (sigmask SIGKILL) = Some SIG_DFL \<and> sig_action (sigsetmask (NOT 0) (w_proc 0)) (sigmask 1) = Some SIG_HOLD"
proof -
  have "disp_reach (w_user, w_proc 0)" by (intro disp_reach.start) (simp_all add: w_user_def w_proc_def)
  then have r: "disp_reach (w_user, sigsetmask (NOT 0) (w_proc 0))" using disp_reach.more disp_step.setmask by blast
  have "bit (p_sigmask (sigsetmask (NOT 0) (w_proc 0))) 0" "\<not> p_STRC (sigsetmask (NOT 0) (w_proc 0))" "u_signal w_user 1 = U_DFL"
    by (simp_all add: sigsetmask_def bit_and_iff bit_not_iff bit_cantmask w_proc_def w_user_def)
  moreover have "(1 :: nat) \<in> {1..<NSIG}" by simp
  ultimately show ?thesis using kill_cannot_be_kept_off [OF r] by fastforce
qed

end
