(* ===== verification/Spec2Isabelle.thy ===== *)
theory Spec2Isabelle
  imports Rmap Clist Clock Ufs_props Mbuf_props Receive Dnlc_props Descrip_props Unp_gc Ipreass_props Dsort Sig_disp
begin

text \<open>
  Verification of core parts of the Wisconsin Unix kernel, a 4.3BSD kernel for the VAX with the network file system. The
  sources are under \<^verbatim>\<open>src/sys\<close>; files are named from there.

  \<open>The program.\<close> The kernel is a set of services that processes enter by system calls and devices by interrupts. The services
  share data structures: processes sleep and wake on channels, the clock runs a queue of calls to make, terminals, sockets and
  protocols pass bytes in character lists and memory buffers, the file system hands out blocks and inodes by bit maps, every
  process names its open files by descriptors that count references to them. The development models these structures with
  every operation that changes them; what lies between (copying arguments, dispatch through function pointers, device
  registers) it leaves out.

  \<open>Conventions\<close> (\<^verbatim>\<open>Prelude\<close>). Kernel code is a function from a state to \<open>kerror + 'a\<close>: \<open>Inr\<close> what it returns with the new
  state, \<open>Inl\<close> a panic or a fault (an access outside the object it names). Code whose loop may not end is an
  option, \<open>None\<close> for not returning (\<open>partial_function\<close>), or takes fuel; each theorem on such code proves that it returns. A C
  \<^verbatim>\<open>int\<close> or \<^verbatim>\<open>long\<close> is an \<open>int\<close>; its sums pass through \<open>wrap32\<close> where the arguments of a caller can take them out of 32 bits
  (resource maps, time values), and stay in range elsewhere because they count objects that exist or lie in memory. \<^verbatim>\<open>short\<close>,
  \<^verbatim>\<open>char\<close>, file offsets and bit masks are words. Each call of a routine is one step: the code raises the interrupt level around it.

  \<open>The theories and the code they model.\<close>

  \<^item> \<open>Resource maps\<close>: \<^verbatim>\<open>Rmap\<close>: \<^verbatim>\<open>sys/subr_rmap.c\<close>. \<open>rmalloc\<close>,
    \<open>rmfree\<close> and \<open>rmget\<close> on the array of segments. A well-formed map is a set of free addresses; the theorems give the set
    and the range taken or refused, for ranges whose end fits 32 bits (\<open>rmfree_wraps\<close> and \<open>rmget_wraps\<close> show what happens
    beyond), and through the locale \<open>region_allocator\<close> that clients never hold overlapping ranges.
  \<^item> \<open>Character lists\<close>: \<^verbatim>\<open>Clist\<close>: \<^verbatim>\<open>sys/tty_subr.c\<close>. Blocks of 64 bytes linked
    through their addresses; every routine refines an operation on lists of bytes (locale \<open>queue_family\<close>).
  \<^item> \<open>Time\<close>: \<^verbatim>\<open>Timeval\<close>, \<^verbatim>\<open>Callout\<close>, \<^verbatim>\<open>Clock\<close>:
    \<^verbatim>\<open>sys/kern_time.c\<close>, \<^verbatim>\<open>sys/kern_clock.c\<close>. Time values, interval timers, the delta queue of
    \<open>timeout\<close> and \<open>untimeout\<close> (locale \<open>timer_queue\<close>), the clock interrupt and the real time timer. Timers do
    not drift and the queue calls each entry at its time. The fuel of \<open>softclock_loop\<close> is any number above that of the entries due.
  \<^item> \<open>Processes and signals\<close>: \<^verbatim>\<open>Synch\<close>, \<^verbatim>\<open>Synch_inv\<close>,
    \<^verbatim>\<open>Synch_wake\<close>, \<^verbatim>\<open>Synch_ops\<close>, \<^verbatim>\<open>Sig\<close>, \<^verbatim>\<open>Sig_ops\<close>,
    \<^verbatim>\<open>Sched_props\<close>, \<^verbatim>\<open>Sig_disp\<close>: \<^verbatim>\<open>sys/kern_synch.c\<close>,
    \<^verbatim>\<open>sys/kern_sig.c\<close>, the run queues of \<^verbatim>\<open>vax/locore.s\<close>, and the statements of
    \<^verbatim>\<open>kern_fork.c\<close>, \<^verbatim>\<open>kern_exit.c\<close>, \<^verbatim>\<open>vm_sched.c\<close>,
    \<^verbatim>\<open>vm_swap.c\<close> and \<^verbatim>\<open>vax/trap.c\<close> that move a process between queues. The pointers of sleep and run
    queues are kept; \<open>queues\<close> relates them to lists. \<open>kreach\<close> are the states reached from \<open>rqinit\<close>; in them the
    queues are well formed, \<open>wakeup\<close> wakes exactly the waiting processes and \<open>psignal\<close> does what the table of signals says.
    A process that calls \<open>sleep\<close> may have signals to take, but in these histories none that stops it there.
  \<^item> \<open>The fast file system's allocator\<close>: \<^verbatim>\<open>Fsbits\<close>, \<^verbatim>\<open>Fragtbl\<close>,
    \<^verbatim>\<open>Fragspace\<close>, \<^verbatim>\<open>Ufs_alloc\<close>, \<^verbatim>\<open>Ufs_space\<close>,
    \<^verbatim>\<open>Ufs_blocks\<close>, \<^verbatim>\<open>Ufs_policy\<close>, \<^verbatim>\<open>Ufs_inodes\<close>,
    \<^verbatim>\<open>Ufs_props\<close>: \<^verbatim>\<open>ufs/ufs_alloc.c\<close>, \<^verbatim>\<open>ufs/ufs_subr.c\<close>,
    \<^verbatim>\<open>ufs/ufs_tables.c\<close>. \<^verbatim>\<open>Fragspace\<close> is the abstract free space of a cylinder group;
    \<open>ufs_ok\<close> says that bit maps, cluster summaries and all counts of the super block agree with it, and every operation keeps that and
    takes or gives exactly what it says. The buffer cache (read errors), the quota check and \<^verbatim>\<open>iget\<close> are parameters.
  \<^item> \<open>Buffers and sockets\<close>: \<^verbatim>\<open>Mbuf\<close>, \<^verbatim>\<open>Mbuf_props\<close>,
    \<^verbatim>\<open>Sockbuf\<close>, \<^verbatim>\<open>Sockbuf_props\<close>, \<^verbatim>\<open>Uio\<close>, \<^verbatim>\<open>Socket\<close>,
    \<^verbatim>\<open>Socket_layer\<close>, \<^verbatim>\<open>Socket_props\<close>, \<^verbatim>\<open>Receive\<close>:
    \<^verbatim>\<open>sys/uipc_mbuf.c\<close>, \<^verbatim>\<open>sys/uipc_socket2.c\<close>, \<^verbatim>\<open>sys/uipc_socket.c\<close>,
    \<^verbatim>\<open>sys/kern_subr.c\<close>. Chains of mbufs with shared clusters of which \<open>balanced\<close> counts every buffer and
    reference; each routine refines an operation on byte strings. Socket buffers are streams of bytes, their 16 bit counters right modulo 65536. The
    queues of connections are rings of pointers. Protocols are the parameter \<open>usrreq\<close>.
  \<^item> \<open>Names\<close>: \<^verbatim>\<open>Dnlc\<close>, \<^verbatim>\<open>Dnlc_props\<close>: \<^verbatim>\<open>sys/vfs_dnlc.c\<close>.
    The cache of names is transparent (locale \<open>name_cache\<close>), keeps its chains and gives back every vnode reference.
    \<open>purge_loop\<close> has the number of entries (32) as fuel, \<open>remove_loop\<close> the length of the hash chain.
  \<^item> \<open>Descriptors\<close>: \<^verbatim>\<open>Descrip\<close>, \<^verbatim>\<open>Descrip_inv\<close>,
    \<^verbatim>\<open>Descrip_ops\<close>, \<^verbatim>\<open>Descrip_props\<close>, \<^verbatim>\<open>Unp_gc\<close>:
    \<^verbatim>\<open>sys/kern_descrip.c\<close> and the passing of descriptors in \<^verbatim>\<open>sys/uipc_usrreq.c\<close>. A file structure
    handed out is one that no table and no message names; descriptors keep their files across a message; the collector of descriptors in messages
    marks exactly what processes can reach (\<open>gc_mark\<close> has the number of files as fuel). The theorems that close files suppose
    \<open>close_ok\<close>: closes that succeed and leave other files alone.
  \<^item> \<open>IP reassembly\<close>: \<^verbatim>\<open>Ipreass\<close>, \<^verbatim>\<open>Ipreass_props\<close>:
    \<^verbatim>\<open>netinet/ip_input.c\<close>. Fragments in any order, with overlaps, give each datagram whole, for datagrams up to 32767 bytes;
    \<open>drain_loop\<close> has the length of the ring as fuel.
  \<^item> \<open>Disk queue\<close>: \<^verbatim>\<open>Dsort\<close>: \<^verbatim>\<open>ufs/ufs_dsort.c\<close>. The queue of a drive is a sweep
    over the cylinders.

  \<open>How they meet.\<close> \<open>softclock\<close> calls \<open>realitexpire\<close>, which posts a signal; \<open>psignal\<close> and \<open>wakeup\<close> move processes between the
  queues of the scheduler; the socket layer keeps its data in socket buffers of mbufs and moves them with \<open>uiomove\<close>; the collector
  works on the file table of the descriptors. Where one theory calls another's routine it uses its definition; the locales
  state what a client may rely on and are interpreted on the definitions of the model.

  \<open>What the lemmas show.\<close> Each component has a well-formedness invariant that its operations keep (\<open>rm_wf\<close>, \<open>callq_ok\<close>,
  \<open>sched_ok\<close>, \<open>ufs_ok\<close>, \<open>chain_ok\<close>, \<open>sb_ok\<close>, \<open>nc_ok\<close>, \<open>fd_inv\<close>), an abstraction to sets, lists or byte strings, and lemmas
  that give the result of each operation on every branch in these terms. The numbered properties rest on them, and each with a
  hypothesis is followed by a witness, an instance on a concrete state.

  \<open>Not modelled.\<close> The paging system and page tables, the buffer cache, inodes and directories, vnode dispatch, TCP and the other
  protocols, the network file system, terminal line disciplines, device drivers, \<^verbatim>\<open>fork\<close>, \<^verbatim>\<open>exec\<close> and \<^verbatim>\<open>exit\<close> beyond the loops named above, and
  the user programs. Interrupts between the statements of one routine are excluded by the interrupt level the code sets. The
  effect of a tracing parent on a stopped process, \<^verbatim>\<open>sendsig\<close> and core dumps, which write user memory and files, are left out of
  signals; the page exchange and page protection of mbufs are parameters.
\<close>

end
